(* ===== verification/Prelude.thy ===== *)
theory Prelude
  imports Main "HOL-Library.Word" "HOL-Library.Monad_Syntax"
begin

text \<open>
  Vocabulary shared by every component: the machine types of the LP64 targets (the default build
  is RV64), the element store that stands for the memory the linked structures live in, and the
  generic facts about words, options and lists on which the component proofs rest.

  A pointer is a 64-bit word and \<open>0\<close> is the null pointer. A store maps addresses to the objects that
  live there. An operation of the model returns \<open>None\<close> exactly when the code would dereference a
  null or dangling pointer (or fail an assertion, or never return): undefined behaviour is a value.
\<close>

section \<open>Machine types\<close>

type_synonym addr = "64 word"
type_synonym ulong = "64 word"
type_synonym uint = "32 word"
type_synonym byte = "8 word"

named_theorems store_simps \<open>reading and writing the element store\<close>
named_theorems frame_simps \<open>facts that a write outside a structure leaves it alone\<close>

section \<open>The element store\<close>

type_synonym 'a store = "addr \<rightharpoonup> 'a"

definition load :: "'a store \<Rightarrow> addr \<Rightarrow> 'a option" where
  "load h p = (if p = 0 then None else h p)"

definition modify :: "'a store \<Rightarrow> addr \<Rightarrow> ('a \<Rightarrow> 'a) \<Rightarrow> 'a store option" where
  "modify h p f = (case load h p of None \<Rightarrow> None | Some x \<Rightarrow> Some (h(p \<mapsto> f x)))"

lemma load_null [store_simps]: "load h 0 = None"
  by (simp add: load_def)

lemma load_Some [store_simps]: "p \<noteq> 0 \<Longrightarrow> load h p = h p"
  by (simp add: load_def)

lemma load_SomeD: "load h p = Some x \<Longrightarrow> p \<noteq> 0 \<and> h p = Some x"
  by (auto simp: load_def split: if_splits)

lemma modify_Some [store_simps]:
  "p \<noteq> 0 \<Longrightarrow> h p = Some x \<Longrightarrow> modify h p f = Some (h(p \<mapsto> f x))"
  by (simp add: modify_def load_def)

lemma modify_null [store_simps]: "modify h 0 f = None"
  by (simp add: modify_def load_def)

lemma modify_SomeD:
  "modify h p f = Some h' \<Longrightarrow> p \<noteq> 0 \<and> (\<exists>x. h p = Some x \<and> h' = h(p \<mapsto> f x))"
  by (auto simp: modify_def load_def split: if_splits option.splits)

section \<open>Words\<close>

lemma unat_inc: "unat (s :: 'a::len word) + 1 < 2 ^ LENGTH('a) \<Longrightarrow> unat (s + 1) = unat s + 1"
  by (simp add: unat_word_ariths)

lemma unat_dec: "0 < unat (s :: 'a::len word) \<Longrightarrow> unat (s - 1) = unat s - 1"
  by (metis less_numeral_extra(3) unat_0 unat_minus_one)

lemma unat_diff_less: "k \<noteq> 0 \<Longrightarrow> k \<le> n \<Longrightarrow> unat (n - k) < unat n" for n k :: "'a::len word"
  by (metis diff_less unat_eq_zero unat_sub word_le_nat_alt zero_less_iff_neq_zero le_zero_eq)

lemma unat_eq_0_iff: "unat (s :: 'a::len word) = 0 \<longleftrightarrow> s = 0"
  by (simp add: unat_eq_zero)

lemma unat_eq_1_iff: "unat (s :: 'a::len word) = Suc 0 \<longleftrightarrow> s = 1"
  by (metis One_nat_def unat_1 word_unat_eq_iff)

lemma unat_less: "unat (w :: 'a::len word) < 2 ^ LENGTH('a)"
  by (rule unsigned_less)

lemma unat_take_bit: "unat (take_bit k s) = unat s mod 2 ^ k" for s :: "'a::len word"
  by (metis take_bit_eq_mod unsigned_take_bit_eq)

lemma unat_drop_bit: "unat (drop_bit k s) = unat s div 2 ^ k" for s :: "'a::len word"
  by (metis drop_bit_eq_div unat_drop_bit_eq)

text \<open>
  Distinct non-null addresses are fewer than \<open>2\<^sup>6\<^sup>4\<close>: no counter of the elements of a linked
  structure can wrap, so none of the theorems below needs a bound on the number of elements.
\<close>

lemma card_addr: "card (UNIV :: addr set) = 2 ^ 64"
  by (simp add: card_word)

lemma distinct_addr_bound:
  assumes "distinct (as :: addr list)" "0 \<notin> set as"
  shows "length as < 2 ^ 64"
proof -
  have "set as \<subset> UNIV" using assms(2) by auto
  then have "card (set as) < card (UNIV :: addr set)"
    by (intro psubset_card_mono) auto
  then show ?thesis using assms(1) by (simp add: card_addr distinct_card)
qed

section \<open>Lists\<close>

definition last0 :: "addr list \<Rightarrow> addr" where
  "last0 as = (if as = [] then 0 else last as)"

lemma last0_simps [simp]: "last0 [] = 0" "last0 (as @ [a]) = a" "last0 (as @ a # bs) = last0 (a # bs)"
  by (auto simp: last0_def)

lemma last0_single [simp]: "last0 [a] = a"
  by (simp add: last0_def)

lemma last0_Cons2 [simp]: "last0 (a # b # bs) = last0 (b # bs)"
  by (simp add: last0_def)

lemma last0_Cons: "last0 (a # as) = (if as = [] then a else last0 as)"
  by (simp add: last0_def)

lemma last0_in: "as \<noteq> [] \<Longrightarrow> last0 as \<in> set as"
  by (simp add: last0_def)

end
