(* ===== verification/Elements.thy ===== *)
theory Elements
  imports Prelude
begin

text \<open>
  The list elements of \<open>include/utility/list.h\<close> (namespace \<open>List_Elements\<close>) and the iterators over
  them (namespace \<open>List_Iterators\<close>). Each element class is a record; the template parameter \<open>El\<close> of
  the list classes is the record scheme, so an operation of \<open>Simple_List\<close> or \<open>List\<close> is stated once
  for all element classes that have the links it uses. An object is known by its address.

  \<open>chain\<close> says which elements a chain of \<open>next\<close> links visits and \<open>backlinks\<close> that the \<open>prev\<close> links
  agree with it; both are relations between the store and a HOL list of addresses, the abstraction of
  a linked list that every list theory uses.
\<close>

section \<open>Element classes\<close>

record elem =
  obj :: addr
  nxt :: addr

record elem_ordered = elem +
  srank :: int

record elem_grouping = elem +
  ssize :: ulong

record delem = elem +
  prv :: addr

record delem_ordered = delem +
  rank :: int

record delem_typed = delem +
  type_id :: int

record delem_scheduling = delem_ordered +
  squeue :: nat

record delem_grouping = delem +
  gsize :: ulong

definition singly_linked :: "addr \<Rightarrow> elem" where
  "singly_linked ob = \<lparr>obj = ob, nxt = 0\<rparr>"

definition singly_linked_ordered :: "addr \<Rightarrow> int \<Rightarrow> elem_ordered" where
  "singly_linked_ordered ob r = \<lparr>obj = ob, nxt = 0, srank = r\<rparr>"

definition singly_linked_grouping :: "addr \<Rightarrow> ulong \<Rightarrow> elem_grouping" where
  "singly_linked_grouping ob s = \<lparr>obj = ob, nxt = 0, ssize = s\<rparr>"

definition doubly_linked :: "addr \<Rightarrow> delem" where
  "doubly_linked ob = \<lparr>obj = ob, nxt = 0, prv = 0\<rparr>"

definition doubly_linked_ordered :: "addr \<Rightarrow> int \<Rightarrow> delem_ordered" where
  "doubly_linked_ordered ob r = \<lparr>obj = ob, nxt = 0, prv = 0, rank = r\<rparr>"

definition doubly_linked_typed :: "addr \<Rightarrow> int \<Rightarrow> delem_typed" where
  "doubly_linked_typed ob t = \<lparr>obj = ob, nxt = 0, prv = 0, type_id = t\<rparr>"

definition doubly_linked_scheduling :: "addr \<Rightarrow> int \<Rightarrow> nat \<Rightarrow> delem_scheduling" where
  "doubly_linked_scheduling ob r q = \<lparr>obj = ob, nxt = 0, prv = 0, rank = r, squeue = q\<rparr>"

definition doubly_linked_grouping :: "addr \<Rightarrow> ulong \<Rightarrow> delem_grouping" where
  "doubly_linked_grouping ob s = \<lparr>obj = ob, nxt = 0, prv = 0, gsize = s\<rparr>"

text \<open>\<open>promote\<close> and \<open>demote\<close> return the new rank as an \<open>int\<close> of 32 bits, whatever the type of ranks.\<close>

definition to_int32 :: "int \<Rightarrow> int" where
  "to_int32 x = signed_take_bit 31 x"

lemma to_int32_id: "- (2 ^ 31) \<le> x \<Longrightarrow> x < 2 ^ 31 \<Longrightarrow> to_int32 x = x"
  by (simp add: to_int32_def signed_take_bit_int_eq_self)

definition promote :: "'m delem_ordered_scheme store \<Rightarrow> addr \<Rightarrow> int \<Rightarrow> ('m delem_ordered_scheme store \<times> int) option" where
  "promote h e n =
     do { h \<leftarrow> modify h e (\<lambda>x. x\<lparr>rank := rank x - n\<rparr>); x \<leftarrow> load h e; Some (h, to_int32 (rank x)) }"

definition demote :: "'m delem_ordered_scheme store \<Rightarrow> addr \<Rightarrow> int \<Rightarrow> ('m delem_ordered_scheme store \<times> int) option" where
  "demote h e n =
     do { h \<leftarrow> modify h e (\<lambda>x. x\<lparr>rank := rank x + n\<rparr>); x \<leftarrow> load h e; Some (h, to_int32 (rank x)) }"

definition shrink :: "'m delem_grouping_scheme store \<Rightarrow> addr \<Rightarrow> ulong \<Rightarrow> 'm delem_grouping_scheme store option" where
  "shrink h e n = modify h e (\<lambda>x. x\<lparr>gsize := gsize x - n\<rparr>)"

definition expand :: "'m delem_grouping_scheme store \<Rightarrow> addr \<Rightarrow> ulong \<Rightarrow> 'm delem_grouping_scheme store option" where
  "expand h e n = modify h e (\<lambda>x. x\<lparr>gsize := gsize x + n\<rparr>)"

section \<open>Accessors through a pointer\<close>

definition get_next :: "'m elem_scheme store \<Rightarrow> addr \<Rightarrow> addr option" where
  "get_next h p = map_option nxt (load h p)"

definition set_next :: "'m elem_scheme store \<Rightarrow> addr \<Rightarrow> addr \<Rightarrow> 'm elem_scheme store option" where
  "set_next h p n = modify h p (nxt_update (\<lambda>_. n))"

definition get_prev :: "'m delem_scheme store \<Rightarrow> addr \<Rightarrow> addr option" where
  "get_prev h p = map_option prv (load h p)"

definition set_prev :: "'m delem_scheme store \<Rightarrow> addr \<Rightarrow> addr \<Rightarrow> 'm delem_scheme store option" where
  "set_prev h p n = modify h p (prv_update (\<lambda>_. n))"

lemma get_next_simps [store_simps]:
  "p \<noteq> 0 \<Longrightarrow> h p = Some x \<Longrightarrow> get_next h p = Some (nxt x)"
  by (simp add: get_next_def load_def)

lemma get_prev_simps [store_simps]:
  "p \<noteq> 0 \<Longrightarrow> h p = Some x \<Longrightarrow> get_prev h p = Some (prv x)"
  by (simp add: get_prev_def load_def)

lemma set_next_simps [store_simps]:
  "p \<noteq> 0 \<Longrightarrow> h p = Some x \<Longrightarrow> set_next h p n = Some (h(p \<mapsto> x\<lparr>nxt := n\<rparr>))"
  by (simp add: set_next_def modify_Some)

lemma set_prev_simps [store_simps]:
  "p \<noteq> 0 \<Longrightarrow> h p = Some x \<Longrightarrow> set_prev h p n = Some (h(p \<mapsto> x\<lparr>prv := n\<rparr>))"
  by (simp add: set_prev_def modify_Some)

section \<open>Chains of next links\<close>

fun chain :: "'m elem_scheme store \<Rightarrow> addr \<Rightarrow> addr list \<Rightarrow> addr \<Rightarrow> bool" where
  "chain h p [] q \<longleftrightarrow> p = q"
| "chain h p (a # as) q \<longleftrightarrow> p = a \<and> a \<noteq> 0 \<and> (\<exists>x. h a = Some x \<and> chain h (nxt x) as q)"

lemma chain_append: "chain h p (as @ bs) q \<longleftrightarrow> (\<exists>r. chain h p as r \<and> chain h r bs q)"
  by (induction as arbitrary: p) auto

lemma chain_null [simp]: "chain h 0 as q \<longleftrightarrow> as = [] \<and> q = 0"
  by (cases as) auto

lemma chain_nonnull: "chain h p as q \<Longrightarrow> 0 \<notin> set as"
  by (induction as arbitrary: p) auto

lemma chain_mapped: "chain h p as q \<Longrightarrow> a \<in> set as \<Longrightarrow> \<exists>x. h a = Some x"
  by (induction as arbitrary: p) auto

lemma chain_start: "chain h p as q \<Longrightarrow> as \<noteq> [] \<Longrightarrow> p = hd as"
  by (cases as) auto

lemma chain_frame [frame_simps]:
  "a \<notin> set as \<Longrightarrow> chain (h(a := v)) p as q \<longleftrightarrow> chain h p as q"
  by (induction as arbitrary: p) auto

lemma chain_cong:
  "(\<And>a. a \<in> set as \<Longrightarrow> map_option nxt (h' a) = map_option nxt (h a)) \<Longrightarrow>
   chain h' p as q \<longleftrightarrow> chain h p as q"
proof (induction as arbitrary: p)
  case (Cons a as)
  then have "map_option nxt (h' a) = map_option nxt (h a)" by simp
  with Cons show ?case by (cases "h a"; cases "h' a") auto
qed simp

lemma chain_snocD: "chain h p (as @ [a]) q \<Longrightarrow> \<exists>x. h a = Some x \<and> nxt x = q \<and> a \<noteq> 0"
  by (auto simp: chain_append)

lemma chain_unique: "chain h p as 0 \<Longrightarrow> chain h p bs 0 \<Longrightarrow> as = bs"
proof (induction as arbitrary: p bs)
  case (Cons a as)
  then show ?case by (cases bs) auto
qed (auto)

section \<open>Back links\<close>

fun backlinks :: "'m delem_scheme store \<Rightarrow> addr \<Rightarrow> addr list \<Rightarrow> bool" where
  "backlinks h p [] \<longleftrightarrow> True"
| "backlinks h p (a # as) \<longleftrightarrow> (\<exists>x. h a = Some x \<and> prv x = p) \<and> backlinks h a as"

lemma backlinks_append:
  "backlinks h p (as @ bs) \<longleftrightarrow> backlinks h p as \<and> backlinks h (if as = [] then p else last as) bs"
  by (induction as arbitrary: p) auto

lemma backlinks_frame [frame_simps]:
  "a \<notin> set as \<Longrightarrow> backlinks (h(a := v)) p as \<longleftrightarrow> backlinks h p as"
  by (induction as arbitrary: p) auto

lemma backlinks_cong:
  "(\<And>a. a \<in> set as \<Longrightarrow> map_option prv (h' a) = map_option prv (h a)) \<Longrightarrow>
   backlinks h' p as \<longleftrightarrow> backlinks h p as"
proof (induction as arbitrary: p)
  case (Cons a as)
  then have "map_option prv (h' a) = map_option prv (h a)" by simp
  with Cons show ?case by (cases "h a"; cases "h' a") auto
qed simp

section \<open>What an operation leaves alone\<close>

text \<open>
  \<open>same_data\<close>: two stores hold the same elements and differ at most in the \<open>next\<close> links (\<open>dsame_data\<close>:
  in the \<open>next\<close> and \<open>prev\<close> links). \<open>same_outside A\<close>: they differ at most at the addresses of \<open>A\<close>.
\<close>

definition same_data :: "'m elem_scheme store \<Rightarrow> 'm elem_scheme store \<Rightarrow> bool" where
  "same_data h h' \<longleftrightarrow> (\<forall>a. map_option (nxt_update (\<lambda>_. 0)) (h' a) = map_option (nxt_update (\<lambda>_. 0)) (h a))"

definition dsame_data :: "'m delem_scheme store \<Rightarrow> 'm delem_scheme store \<Rightarrow> bool" where
  "dsame_data h h' \<longleftrightarrow>
     (\<forall>a. map_option (\<lambda>x. x\<lparr>nxt := 0, prv := 0\<rparr>) (h' a) =
          map_option (\<lambda>x. x\<lparr>nxt := 0, prv := 0\<rparr>) (h a))"

definition same_outside :: "addr set \<Rightarrow> 'a store \<Rightarrow> 'a store \<Rightarrow> bool" where
  "same_outside A h h' \<longleftrightarrow> (\<forall>a. a \<notin> A \<longrightarrow> h' a = h a)"

lemma same_outsideD: "same_outside A h h' \<Longrightarrow> a \<notin> A \<Longrightarrow> h' a = h a"
  by (simp add: same_outside_def)

lemma same_outside_refl [simp]: "same_outside A h h"
  by (simp add: same_outside_def)

lemma same_outside_trans:
  "same_outside A h h' \<Longrightarrow> same_outside B h' h'' \<Longrightarrow> A \<union> B \<subseteq> C \<Longrightarrow> same_outside C h h''"
  unfolding same_outside_def by (metis UnCI subsetD)

lemma same_data_refl [simp]: "same_data h h" and dsame_data_refl [simp]: "dsame_data k k"
  by (simp_all add: same_data_def dsame_data_def)

lemma same_data_trans: "same_data h h' \<Longrightarrow> same_data h' h'' \<Longrightarrow> same_data h h''"
  by (simp add: same_data_def)

lemma dsame_data_trans: "dsame_data h h' \<Longrightarrow> dsame_data h' h'' \<Longrightarrow> dsame_data h h''"
  by (simp add: dsame_data_def)

lemma same_data_next [simp]:
  "h a = Some x \<Longrightarrow> same_data h (h(a \<mapsto> x\<lparr>nxt := n\<rparr>))"
  by (simp add: same_data_def)

lemma same_dataD:
  assumes "same_data h h'" "h a = Some x"
  shows "\<exists>n. h' a = Some (x\<lparr>nxt := n\<rparr>)"
proof -
  have "map_option (nxt_update (\<lambda>_. 0)) (h' a) = Some (x\<lparr>nxt := 0\<rparr>)"
    using assms by (simp add: same_data_def)
  then obtain y where y: "h' a = Some y" "y\<lparr>nxt := 0\<rparr> = x\<lparr>nxt := 0\<rparr>" by auto
  then have "y = x\<lparr>nxt := nxt y\<rparr>" by (cases x; cases y) simp
  with y(1) show ?thesis by (intro exI [of _ "nxt y"]) simp
qed

lemma dsame_dataD:
  assumes "dsame_data h h'" "h a = Some x"
  shows "\<exists>n p. h' a = Some (x\<lparr>nxt := n, prv := p\<rparr>)"
proof -
  have "map_option (\<lambda>x. x\<lparr>nxt := 0, prv := 0\<rparr>) (h' a) = Some (x\<lparr>nxt := 0, prv := 0\<rparr>)"
    using assms by (simp add: dsame_data_def)
  then obtain y where y: "h' a = Some y" "y\<lparr>nxt := 0, prv := 0\<rparr> = x\<lparr>nxt := 0, prv := 0\<rparr>" by auto
  then have "y = x\<lparr>nxt := nxt y, prv := prv y\<rparr>" by (cases x; cases y) simp
  with y(1) show ?thesis by (intro exI [of _ "nxt y"] exI [of _ "prv y"]) simp
qed

lemma dsame_data_None: "dsame_data h h' \<Longrightarrow> h' a = None \<longleftrightarrow> h a = None"
  unfolding dsame_data_def by (drule spec [of _ a]) (cases "h a"; cases "h' a"; simp)

lemma dsame_data_next [simp]:
  "h a = Some x \<Longrightarrow> dsame_data h (h(a \<mapsto> x\<lparr>nxt := n\<rparr>))"
  by (simp add: dsame_data_def)

lemma dsame_data_prev [simp]:
  "h a = Some x \<Longrightarrow> dsame_data h (h(a \<mapsto> x\<lparr>prv := n\<rparr>))"
  by (simp add: dsame_data_def)

text \<open>The elements still stand for the same objects.\<close>

definition same_obj :: "'m elem_scheme store \<Rightarrow> 'm elem_scheme store \<Rightarrow> bool" where
  "same_obj h h' \<longleftrightarrow> (\<forall>a. map_option obj (h' a) = map_option obj (h a))"

lemma same_obj_refl [simp]: "same_obj h h"
  by (simp add: same_obj_def)

lemma same_obj_trans: "same_obj h h' \<Longrightarrow> same_obj h' h'' \<Longrightarrow> same_obj h h''"
  by (simp add: same_obj_def)

lemma same_obj_upd [simp]: "h a = Some x \<Longrightarrow> obj y = obj x \<Longrightarrow> same_obj h (h(a \<mapsto> y))"
  by (simp add: same_obj_def)

lemma same_obj_data: "same_data h h' \<Longrightarrow> same_obj h h'"
  unfolding same_obj_def
proof
  fix a
  assume sd: "same_data h h'"
  show "map_option obj (h' a) = map_option obj (h a)"
  proof (cases "h a")
    case None
    with sd show ?thesis by (auto simp: same_data_def dest: spec [of _ a])
  next
    case (Some x)
    from same_dataD [OF sd Some] Some show ?thesis by auto
  qed
qed

lemma same_obj_dsame: "dsame_data h h' \<Longrightarrow> same_obj h h'"
  unfolding same_obj_def
proof
  fix a
  assume sd: "dsame_data h h'"
  show "map_option obj (h' a) = map_option obj (h a)"
  proof (cases "h a")
    case None
    then show ?thesis using dsame_data_None [OF sd, of a] by simp
  next
    case (Some x)
    then show ?thesis using dsame_dataD [OF sd Some] by auto
  qed
qed

lemma same_obj_Some: "same_obj h h' \<Longrightarrow> h a = Some x \<Longrightarrow> \<exists>y. h' a = Some y \<and> obj y = obj x"
  unfolding same_obj_def by (metis map_option_eq_Some)

section \<open>Iterators\<close>

definition forward_inc :: "'m elem_scheme store \<Rightarrow> addr \<Rightarrow> addr option" where
  "forward_inc h current = get_next h current"

definition bidirectional_dec :: "'m delem_scheme store \<Rightarrow> addr \<Rightarrow> addr option" where
  "bidirectional_dec h current = get_prev h current"

text \<open>The loop \<open>for(Iterator i = begin(); i != end(); ++i)\<close>, with the elements it visits as its value.\<close>

partial_function (option) iterate :: "'m elem_scheme store \<Rightarrow> addr \<Rightarrow> addr list option" where
  "iterate h i = (if i = 0 then Some []
     else do { n \<leftarrow> forward_inc h i; as \<leftarrow> iterate h n; Some (i # as) })"

partial_function (option) search_from :: "'m elem_scheme store \<Rightarrow> addr \<Rightarrow> addr \<Rightarrow> addr option" where
  "search_from h e ob = (if e = 0 then Some 0
     else do { x \<leftarrow> load h e; if obj x = ob then Some e else search_from h (nxt x) ob })"

lemma iterate_chain: "chain h p as 0 \<Longrightarrow> iterate h p = Some as"
proof (induction as arbitrary: p)
  case Nil
  then show ?case by (simp add: iterate.simps)
next
  case (Cons a as)
  then show ?case by (auto simp: iterate.simps [of h a] forward_inc_def store_simps)
qed

definition find_obj :: "'m elem_scheme store \<Rightarrow> addr list \<Rightarrow> addr \<Rightarrow> addr" where
  "find_obj h as ob = (case find (\<lambda>a. map_option obj (h a) = Some ob) as of None \<Rightarrow> 0 | Some a \<Rightarrow> a)"

lemma search_from_chain: "chain h p as 0 \<Longrightarrow> search_from h p ob = Some (find_obj h as ob)"
proof (induction as arbitrary: p)
  case Nil
  then show ?case by (simp add: search_from.simps find_obj_def)
next
  case (Cons a as)
  then show ?case by (auto simp: search_from.simps [of h a] find_obj_def store_simps)
qed

lemma find_obj_cong: "same_obj h h' \<Longrightarrow> find_obj h' as ob = find_obj h as ob"
  by (simp add: find_obj_def same_obj_def)

end
