(* ===== verification/Interfaces.thy ===== *)
theory Interfaces
  imports Prelude "HOL-Library.Multiset"
begin

text \<open>
  The contracts the clients of the list classes rely on, as locales: a first-in first-out queue and a
  queue in order of rank. Both speak of an operation on a store \<open>'h\<close> and a queue object \<open>'q\<close>, an
  abstraction of the queue to a sequence, and of the elements that may be inserted. The clients'
  loops (fill a queue, drain a queue) are functions of the operations, and what they do is proved once
  in each locale. \<open>Simple_List\<close>, \<open>List\<close>, \<open>Simple_Ordered_List\<close> and \<open>Ordered_List\<close> interpret them.
\<close>

section \<open>Client loops\<close>

fun put_all :: "('h \<Rightarrow> 'q \<Rightarrow> addr \<Rightarrow> ('h \<times> 'q) option) \<Rightarrow> 'h \<Rightarrow> 'q \<Rightarrow> addr list \<Rightarrow> ('h \<times> 'q) option" where
  "put_all put h q [] = Some (h, q)"
| "put_all put h q (e # es) = do { (h, q) \<leftarrow> put h q e; put_all put h q es }"

fun get_many :: "('h \<Rightarrow> 'q \<Rightarrow> ('h \<times> 'q \<times> addr) option) \<Rightarrow> nat \<Rightarrow> 'h \<Rightarrow> 'q \<Rightarrow> ('h \<times> 'q \<times> addr list) option" where
  "get_many get 0 h q = Some (h, q, [])"
| "get_many get (Suc n) h q =
     do { (h, q, a) \<leftarrow> get h q; (h, q, as) \<leftarrow> get_many get n h q; Some (h, q, a # as) }"

section \<open>First in, first out\<close>

locale fifo_queue =
  fixes rep :: "'h \<Rightarrow> 'q \<Rightarrow> addr list \<Rightarrow> bool"
    and usable :: "'h \<Rightarrow> addr \<Rightarrow> bool"
    and put :: "'h \<Rightarrow> 'q \<Rightarrow> addr \<Rightarrow> ('h \<times> 'q) option"
    and get :: "'h \<Rightarrow> 'q \<Rightarrow> ('h \<times> 'q \<times> addr) option"
  assumes put_ok: "rep h q as \<Longrightarrow> usable h e \<Longrightarrow> e \<notin> set as \<Longrightarrow>
      \<exists>h' q'. put h q e = Some (h', q') \<and> rep h' q' (as @ [e]) \<and> (\<forall>a. usable h' a = usable h a)"
    and get_ok: "rep h q (a # as) \<Longrightarrow>
      \<exists>h' q'. get h q = Some (h', q', a) \<and> rep h' q' as \<and> (\<forall>a. usable h' a = usable h a)"
    and get_none: "rep h q [] \<Longrightarrow> get h q = Some (h, q, 0)"
begin

lemma put_all_ok:
  "rep h q as \<Longrightarrow> (\<And>e. e \<in> set es \<Longrightarrow> usable h e) \<Longrightarrow> distinct es \<Longrightarrow> set as \<inter> set es = {} \<Longrightarrow>
   \<exists>h' q'. put_all put h q es = Some (h', q') \<and> rep h' q' (as @ es)"
proof (induction es arbitrary: h q as)
  case (Cons e es)
  obtain h1 q1 where 1: "put h q e = Some (h1, q1)" "rep h1 q1 (as @ [e])" "\<forall>a. usable h1 a = usable h a"
    using put_ok [OF Cons.prems(1), of e] Cons.prems by auto
  then show ?case using Cons.IH [OF 1(2)] Cons.prems by auto
qed simp

lemma get_many_ok: "rep h q (as @ bs) \<Longrightarrow> \<exists>h' q'. get_many get (length as) h q = Some (h', q', as) \<and> rep h' q' bs"
proof (induction as arbitrary: h q)
  case (Cons a as)
  obtain h1 q1 where 1: "get h q = Some (h1, q1, a)" "rep h1 q1 (as @ bs)" using get_ok [of h q a "as @ bs"] Cons.prems by auto
  then show ?case using Cons.IH [OF 1(2)] by auto
qed simp

text \<open>What is put in comes out in the same order, after what was there.\<close>

lemma drain:
  assumes "rep h q as" "\<And>e. e \<in> set es \<Longrightarrow> usable h e" "distinct es" "set as \<inter> set es = {}"
  shows "\<exists>h1 q1 h2 q2. put_all put h q es = Some (h1, q1) \<and>
    get_many get (length as + length es) h1 q1 = Some (h2, q2, as @ es) \<and> rep h2 q2 []"
proof -
  obtain h1 q1 where 1: "put_all put h q es = Some (h1, q1)" "rep h1 q1 (as @ es)" using put_all_ok [OF assms] by auto
  then show ?thesis using get_many_ok [of h1 q1 "as @ es" "[]"] by auto
qed

end

section \<open>In order of rank\<close>

text \<open>A sequence of elements with their absolute ranks; a new one goes after those that are not later.\<close>

definition rank_put :: "addr \<times> int \<Rightarrow> (addr \<times> int) list \<Rightarrow> (addr \<times> int) list" where
  "rank_put x xs = takeWhile (\<lambda>y. snd y \<le> snd x) xs @ x # dropWhile (\<lambda>y. snd y \<le> snd x) xs"

lemma mset_rank_put: "mset (rank_put x xs) = add_mset x (mset xs)"
proof -
  have "mset xs = mset (takeWhile (\<lambda>y. snd y \<le> snd x) xs) + mset (dropWhile (\<lambda>y. snd y \<le> snd x) xs)"
    by (metis mset_append takeWhile_dropWhile_id)
  then show ?thesis by (simp add: rank_put_def)
qed

lemma set_rank_put [simp]: "set (rank_put x xs) = insert x (set xs)"
  using arg_cong [OF mset_rank_put, of set_mset x xs] by simp

lemma fst_rank_put [simp]: "fst ` set (rank_put x xs) = insert (fst x) (fst ` set xs)"
  by simp

lemma filter_rank_put:
  assumes "sorted (map snd xs)"
  shows "filter (\<lambda>y. snd y = k) (rank_put x xs) = filter (\<lambda>y. snd y = k) (xs @ [x])"
proof (cases "snd x = k")
  case False
  have "filter (\<lambda>y. snd y = k) (takeWhile (\<lambda>y. snd y \<le> snd x) xs) @
      filter (\<lambda>y. snd y = k) (dropWhile (\<lambda>y. snd y \<le> snd x) xs) = filter (\<lambda>y. snd y = k) xs"
    by (metis filter_append takeWhile_dropWhile_id)
  then show ?thesis using False by (simp add: rank_put_def)
next
  case True
  have "filter (\<lambda>y. snd y = k) (dropWhile (\<lambda>y. snd y \<le> k) xs) = []"
  proof (cases "dropWhile (\<lambda>y. snd y \<le> k) xs")
    case (Cons y ys)
    then have "\<not> snd y \<le> k" by (metis hd_dropWhile list.discI list.sel(1))
    moreover have "sorted (map snd (y # ys))"
      using assms Cons by (metis map_append sorted_append takeWhile_dropWhile_id)
    ultimately show ?thesis using Cons by (auto simp: filter_empty_conv)
  next
    case Nil
    show ?thesis unfolding Nil by simp
  qed
  moreover have "filter (\<lambda>y. snd y = k) xs =
      filter (\<lambda>y. snd y = k) (takeWhile (\<lambda>y. snd y \<le> k) xs) @ filter (\<lambda>y. snd y = k) (dropWhile (\<lambda>y. snd y \<le> k) xs)"
    by (metis filter_append takeWhile_dropWhile_id)
  ultimately show ?thesis using True by (simp add: rank_put_def)
qed

lemma sorted_rank_put:
  assumes "sorted (map snd xs)"
  shows "sorted (map snd (rank_put x xs))"
proof -
  define ts ds where split: "ts = takeWhile (\<lambda>y. snd y \<le> snd x) xs" "ds = dropWhile (\<lambda>y. snd y \<le> snd x) xs"
  have s: "sorted (map snd ts @ map snd ds)" using assms unfolding split by (metis map_append takeWhile_dropWhile_id)
  have t: "snd y \<le> snd x" if "y \<in> set ts" for y using that unfolding split by (rule set_takeWhileD [THEN conjunct2])
  have d: "snd x \<le> snd y" if "y \<in> set ds" for y
  proof -
    obtain z zs where z: "ds = z # zs" using \<open>y \<in> set ds\<close> by (cases ds) auto
    then have "\<not> snd z \<le> snd x" unfolding split by (metis hd_dropWhile list.discI list.sel(1))
    then show ?thesis using s that z by (auto simp: sorted_append)
  qed
  have "sorted (map snd (ts @ x # ds))" using s t d by (simp add: sorted_append)
  then show ?thesis by (simp add: rank_put_def split)
qed

definition rank_put_all :: "(addr \<times> int) list \<Rightarrow> (addr \<times> int) list \<Rightarrow> (addr \<times> int) list" where
  "rank_put_all xs ys = foldl (\<lambda>xs y. rank_put y xs) xs ys"

lemma rank_put_all_sort: "sorted (map snd xs) \<Longrightarrow> rank_put_all xs ys = sort_key snd (xs @ ys)"
proof (rule sym, rule properties_for_sort_key)
  assume s: "sorted (map snd xs)"
  have "mset (rank_put_all xs ys) = mset (xs @ ys) \<and> sorted (map snd (rank_put_all xs ys)) \<and>
    (\<forall>k. filter (\<lambda>y. snd y = k) (rank_put_all xs ys) = filter (\<lambda>y. snd y = k) (xs @ ys))"
    using s
  proof (induction ys arbitrary: xs)
    case (Cons y ys)
    from Cons.IH [OF sorted_rank_put [OF Cons.prems, of y]] show ?case
      using filter_rank_put [OF Cons.prems, of _ y] by (simp add: rank_put_all_def mset_rank_put)
  qed (simp add: rank_put_all_def)
  then show "mset (rank_put_all xs ys) = mset (xs @ ys)" "sorted (map snd (rank_put_all xs ys))"
    "\<And>k. k \<in> set (rank_put_all xs ys) \<Longrightarrow> filter (\<lambda>x. snd k = snd x) (rank_put_all xs ys) = filter (\<lambda>x. snd k = snd x) (xs @ ys)"
    by (simp_all add: eq_commute)
qed

locale rank_queue =
  fixes rep :: "'h \<Rightarrow> 'q \<Rightarrow> (addr \<times> int) list \<Rightarrow> bool"
    and ranked :: "'h \<Rightarrow> addr \<Rightarrow> int \<Rightarrow> bool"
    and put :: "'h \<Rightarrow> 'q \<Rightarrow> addr \<Rightarrow> ('h \<times> 'q) option"
    and get :: "'h \<Rightarrow> 'q \<Rightarrow> ('h \<times> 'q \<times> addr) option"
  assumes rep_sorted: "rep h q xs \<Longrightarrow> sorted (map snd xs)"
    and put_ok: "rep h q xs \<Longrightarrow> ranked h e R \<Longrightarrow> e \<notin> fst ` set xs \<Longrightarrow>
      \<exists>h' q'. put h q e = Some (h', q') \<and> rep h' q' (rank_put (e, R) xs) \<and>
        (\<forall>a d. a \<noteq> e \<and> a \<notin> fst ` set xs \<longrightarrow> ranked h' a d = ranked h a d)"
    and get_ok: "rep h q ((a, d) # xs) \<Longrightarrow> \<exists>h' q'. get h q = Some (h', q', a) \<and> rep h' q' xs"
    and get_none: "rep h q [] \<Longrightarrow> get h q = Some (h, q, 0)"
begin

lemma put_all_ok:
  "rep h q xs \<Longrightarrow> (\<And>y. y \<in> set ys \<Longrightarrow> ranked h (fst y) (snd y)) \<Longrightarrow> distinct (map fst ys) \<Longrightarrow>
   fst ` set xs \<inter> fst ` set ys = {} \<Longrightarrow>
   \<exists>h' q'. put_all put h q (map fst ys) = Some (h', q') \<and> rep h' q' (rank_put_all xs ys)"
proof (induction ys arbitrary: h q xs)
  case (Cons y ys)
  obtain h1 q1 where 1: "put h q (fst y) = Some (h1, q1)" "rep h1 q1 (rank_put y xs)"
    "\<forall>a d. a \<noteq> fst y \<and> a \<notin> fst ` set xs \<longrightarrow> ranked h1 a d = ranked h a d"
    using put_ok [OF Cons.prems(1), of "fst y" "snd y"] Cons.prems by auto
  have "ranked h1 (fst z) (snd z)" if "z \<in> set ys" for z
  proof -
    have z: "fst z \<in> fst ` set ys" using that by (rule imageI)
    have "fst y \<notin> fst ` set ys" "fst ` set xs \<inter> fst ` set ys = {}" using Cons.prems(3,4) by auto
    then have "fst z \<noteq> fst y \<and> fst z \<notin> fst ` set xs" using z by (metis disjoint_iff)
    then show ?thesis using 1(3) Cons.prems(2) [of z] that by auto
  qed
  then show ?case using Cons.IH [OF 1(2)] 1(1) Cons.prems(3,4) by (auto simp: rank_put_all_def)
qed (simp add: rank_put_all_def)

lemma get_many_ok: "rep h q xs \<Longrightarrow> \<exists>h' q'. get_many get (length xs) h q = Some (h', q', map fst xs) \<and> rep h' q' []"
proof (induction xs arbitrary: h q)
  case (Cons x xs)
  obtain h1 q1 where 1: "get h q = Some (h1, q1, fst x)" "rep h1 q1 xs" using get_ok [of h q "fst x" "snd x" xs] Cons.prems by auto
  then show ?case using Cons.IH [OF 1(2)] by auto
qed simp

text \<open>Whatever is put in comes out in order of rank, and in order of insertion among equals.\<close>

lemma drain_sorted:
  assumes "rep h q xs" "\<And>y. y \<in> set ys \<Longrightarrow> ranked h (fst y) (snd y)" "distinct (map fst ys)"
    "fst ` set xs \<inter> fst ` set ys = {}"
  shows "\<exists>h1 q1 h2 q2. put_all put h q (map fst ys) = Some (h1, q1) \<and>
    get_many get (length xs + length ys) h1 q1 = Some (h2, q2, map fst (sort_key snd (xs @ ys))) \<and> rep h2 q2 []"
proof -
  obtain h1 q1 where 1: "put_all put h q (map fst ys) = Some (h1, q1)" "rep h1 q1 (sort_key snd (xs @ ys))"
    using put_all_ok [OF assms] rank_put_all_sort [OF rep_sorted [OF assms(1)]] by auto
  then show ?thesis using get_many_ok [OF 1(2)] by auto
qed

end

end
