(* ===== verification/Simple_List.thy ===== *)
theory Simple_List
  imports Elements Interfaces
begin

text \<open>
  \<open>Simple_List\<close>, the singly-linked list of \<open>include/utility/list.h\<close>: one definition per method, over
  the store of the elements and the three fields of the list. \<open>simple_rep h l as\<close> relates a list to
  the sequence of elements it holds; every operation is shown to be the obvious operation on that
  sequence, to return, and to touch nothing but the links it must.
\<close>

section \<open>The class\<close>

record simple_list =
  sl_size :: ulong
  sl_head :: addr
  sl_tail :: addr

definition sl_new :: simple_list where
  "sl_new = \<lparr>sl_size = 0, sl_head = 0, sl_tail = 0\<rparr>"

definition sl_empty :: "simple_list \<Rightarrow> bool" where
  "sl_empty l \<longleftrightarrow> sl_size l = 0"

definition sl_last :: "simple_list \<Rightarrow> bool" where
  "sl_last l \<longleftrightarrow> sl_size l = 1"

definition sl_begin :: "simple_list \<Rightarrow> addr" where
  "sl_begin l = sl_head l"

definition sl_insert_first :: "'m elem_scheme store \<Rightarrow> simple_list \<Rightarrow> addr \<Rightarrow> ('m elem_scheme store \<times> simple_list) option" where
  "sl_insert_first h l e =
     do { h \<leftarrow> set_next h e 0;
          Some (h, l\<lparr>sl_head := e, sl_tail := e, sl_size := sl_size l + 1\<rparr>) }"

definition sl_insert_head :: "'m elem_scheme store \<Rightarrow> simple_list \<Rightarrow> addr \<Rightarrow> ('m elem_scheme store \<times> simple_list) option" where
  "sl_insert_head h l e =
     (if sl_empty l then sl_insert_first h l e
      else do { h \<leftarrow> set_next h e (sl_head l);
                Some (h, l\<lparr>sl_head := e, sl_size := sl_size l + 1\<rparr>) })"

definition sl_insert_tail :: "'m elem_scheme store \<Rightarrow> simple_list \<Rightarrow> addr \<Rightarrow> ('m elem_scheme store \<times> simple_list) option" where
  "sl_insert_tail h l e =
     (if sl_empty l then sl_insert_first h l e
      else do { h \<leftarrow> set_next h (sl_tail l) e;
                h \<leftarrow> set_next h e 0;
                Some (h, l\<lparr>sl_tail := e, sl_size := sl_size l + 1\<rparr>) })"

definition sl_insert :: "'m elem_scheme store \<Rightarrow> simple_list \<Rightarrow> addr \<Rightarrow> ('m elem_scheme store \<times> simple_list) option" where
  "sl_insert h l e = sl_insert_tail h l e"

text \<open>The protected \<open>insert(e, p, n)\<close>: put \<open>e\<close> between the neighbours \<open>p\<close> and \<open>n\<close>.\<close>

definition sl_insert_between ::
  "'m elem_scheme store \<Rightarrow> simple_list \<Rightarrow> addr \<Rightarrow> addr \<Rightarrow> addr \<Rightarrow> ('m elem_scheme store \<times> simple_list) option" where
  "sl_insert_between h l e p n =
     do { h \<leftarrow> set_next h p e;
          h \<leftarrow> set_next h e n;
          Some (h, l\<lparr>sl_size := sl_size l + 1\<rparr>) }"

definition sl_remove_last :: "simple_list \<Rightarrow> simple_list \<times> addr" where
  "sl_remove_last l = (l\<lparr>sl_head := 0, sl_tail := 0, sl_size := sl_size l - 1\<rparr>, sl_head l)"

definition sl_remove_head :: "'m elem_scheme store \<Rightarrow> simple_list \<Rightarrow> (simple_list \<times> addr) option" where
  "sl_remove_head h l =
     (if sl_empty l then Some (l, 0)
      else if sl_last l then Some (sl_remove_last l)
      else do { n \<leftarrow> get_next h (sl_head l);
                Some (l\<lparr>sl_head := n, sl_size := sl_size l - 1\<rparr>, sl_head l) })"

text \<open>The search of \<open>remove(e)\<close> for the predecessor of \<open>e\<close>: \<open>p && p->next() && (p->next() != e)\<close>.\<close>

partial_function (option) sl_find_prev :: "'m elem_scheme store \<Rightarrow> addr \<Rightarrow> addr \<Rightarrow> addr option" where
  "sl_find_prev h p e =
     (if p = 0 then Some 0
      else do { n \<leftarrow> get_next h p;
                if n \<noteq> 0 \<and> n \<noteq> e then sl_find_prev h n e else Some p })"

definition sl_remove :: "'m elem_scheme store \<Rightarrow> simple_list \<Rightarrow> addr \<Rightarrow> ('m elem_scheme store \<times> simple_list \<times> addr) option" where
  "sl_remove h l e =
     (if sl_last l then Some (h, fst (sl_remove_last l), e)
      else if e = sl_head l then do { (l, _) \<leftarrow> sl_remove_head h l; Some (h, l, e) }
      else do {
        p \<leftarrow> sl_find_prev h (sl_head l) e;
        h \<leftarrow> (if p \<noteq> 0 then do { n \<leftarrow> get_next h e; set_next h p n } else Some h);
        let l = (if e = sl_tail l then l\<lparr>sl_tail := p\<rparr> else l);
        Some (h, l\<lparr>sl_size := sl_size l - 1\<rparr>, e) })"

definition sl_remove_tail :: "'m elem_scheme store \<Rightarrow> simple_list \<Rightarrow> ('m elem_scheme store \<times> simple_list \<times> addr) option" where
  "sl_remove_tail h l = (if sl_tail l \<noteq> 0 then sl_remove h l (sl_tail l) else Some (h, l, 0))"

definition sl_search :: "'m elem_scheme store \<Rightarrow> simple_list \<Rightarrow> addr \<Rightarrow> addr option" where
  "sl_search h l ob = search_from h (sl_head l) ob"

definition sl_remove_object :: "'m elem_scheme store \<Rightarrow> simple_list \<Rightarrow> addr \<Rightarrow> ('m elem_scheme store \<times> simple_list \<times> addr) option" where
  "sl_remove_object h l ob =
     do { e \<leftarrow> sl_search h l ob; if e \<noteq> 0 then sl_remove h l e else Some (h, l, 0) }"

section \<open>The abstraction\<close>

definition simple_rep :: "'m elem_scheme store \<Rightarrow> simple_list \<Rightarrow> addr list \<Rightarrow> bool" where
  "simple_rep h l as \<longleftrightarrow>
     distinct as \<and> chain h (sl_head l) as 0 \<and> sl_tail l = last0 as \<and> unat (sl_size l) = length as"

lemma simple_rep_new: "simple_rep h sl_new []"
  by (simp add: simple_rep_def sl_new_def)

lemma simple_rep_nonnull: "simple_rep h l as \<Longrightarrow> 0 \<notin> set as"
  by (auto simp: simple_rep_def dest: chain_nonnull)

lemma simple_rep_mapped: "simple_rep h l as \<Longrightarrow> a \<in> set as \<Longrightarrow> \<exists>x. h a = Some x"
  by (auto simp: simple_rep_def dest: chain_mapped)

lemma simple_rep_unique: "simple_rep h l as \<Longrightarrow> simple_rep h l bs \<Longrightarrow> as = bs"
  by (auto simp: simple_rep_def dest: chain_unique)

lemma sl_empty_rep: "simple_rep h l as \<Longrightarrow> sl_empty l \<longleftrightarrow> as = []"
  by (auto simp: simple_rep_def sl_empty_def simp flip: unat_eq_0_iff)

lemma sl_last_rep: "simple_rep h l as \<Longrightarrow> sl_last l \<longleftrightarrow> length as = 1"
  by (auto simp: simple_rep_def sl_last_def simp flip: unat_eq_1_iff)

lemma simple_rep_cong:
  assumes "simple_rep h l as" "\<And>a. a \<in> set as \<Longrightarrow> map_option nxt (h' a) = map_option nxt (h a)"
  shows "simple_rep h' l as"
  using assms chain_cong [of as h' h] by (simp add: simple_rep_def)

lemma simple_rep_outside:
  "simple_rep h l as \<Longrightarrow> same_outside A h h' \<Longrightarrow> set as \<inter> A = {} \<Longrightarrow> simple_rep h' l as"
  by (erule simple_rep_cong) (auto simp: same_outside_def disjoint_iff)

text \<open>One more element cannot overflow the size: the addresses run out first.\<close>

lemma simple_rep_size_inc:
  assumes "simple_rep h l as" "e \<noteq> 0" "e \<notin> set as"
  shows "unat (sl_size l + 1) = length as + 1"
proof -
  have "length (e # as) < 2 ^ 64"
    using assms by (intro distinct_addr_bound) (auto simp: simple_rep_def dest: chain_nonnull)
  then show ?thesis using assms(1) by (subst unat_inc) (auto simp: simple_rep_def)
qed

lemma simple_rep_size_dec: "simple_rep h l as \<Longrightarrow> as \<noteq> [] \<Longrightarrow> unat (sl_size l - 1) = length as - 1"
  by (subst unat_dec) (auto simp: simple_rep_def)

section \<open>Insertions\<close>

lemma sl_insert_first_rep:
  assumes "simple_rep h l []" "e \<noteq> 0" "h e = Some x"
  shows "sl_insert_first h l e = Some (h(e \<mapsto> x\<lparr>nxt := 0\<rparr>), l\<lparr>sl_head := e, sl_tail := e, sl_size := sl_size l + 1\<rparr>)"
    and "simple_rep (h(e \<mapsto> x\<lparr>nxt := 0\<rparr>)) (l\<lparr>sl_head := e, sl_tail := e, sl_size := sl_size l + 1\<rparr>) [e]"
  using assms simple_rep_size_inc [OF assms(1), of e]
  by (simp_all add: sl_insert_first_def store_simps simple_rep_def)

lemma sl_insert_head_rep:
  assumes rep: "simple_rep h l as" and e: "e \<noteq> 0" "h e = Some x" "e \<notin> set as"
  shows "\<exists>h' l'. sl_insert_head h l e = Some (h', l') \<and> simple_rep h' l' (e # as) \<and>
           same_data h h' \<and> same_outside {e} h h'"
proof (cases "as = []")
  case True
  then show ?thesis
    using sl_insert_first_rep [of h l e x] rep e sl_empty_rep [OF rep]
    by (simp add: sl_insert_head_def same_outside_def)
next
  case False
  then show ?thesis
    using rep e sl_empty_rep [OF rep] simple_rep_size_inc [OF rep e(1,3)]
    by (simp add: sl_insert_head_def store_simps simple_rep_def chain_frame last0_Cons same_outside_def)
qed

lemma sl_insert_tail_rep:
  assumes rep: "simple_rep h l as" and e: "e \<noteq> 0" "h e = Some x" "e \<notin> set as"
  shows "\<exists>h' l'. sl_insert_tail h l e = Some (h', l') \<and> simple_rep h' l' (as @ [e]) \<and>
           same_data h h' \<and> same_outside (insert e (set as)) h h'"
proof (cases as rule: rev_cases)
  case Nil
  then show ?thesis
    using sl_insert_first_rep [of h l e x] rep e sl_empty_rep [OF rep]
    by (simp add: sl_insert_tail_def same_outside_def)
next
  case (snoc bs t)
  from rep snoc have ch: "chain h (sl_head l) (bs @ [t]) 0" and t: "sl_tail l = t"
    by (simp_all add: simple_rep_def)
  then obtain y where y: "h t = Some y" "t \<noteq> 0" "nxt y = 0" by (auto dest: chain_snocD)
  let ?h1 = "h(t \<mapsto> y\<lparr>nxt := e\<rparr>)"
  let ?h2 = "?h1(e \<mapsto> x\<lparr>nxt := 0\<rparr>)"
  have et: "e \<noteq> t" "e \<notin> set bs" "t \<notin> set bs" using snoc e rep by (auto simp: simple_rep_def)
  have op: "sl_insert_tail h l e = Some (?h2, l\<lparr>sl_tail := e, sl_size := sl_size l + 1\<rparr>)"
    using snoc sl_empty_rep [OF rep] y t e et by (simp add: sl_insert_tail_def store_simps)
  have "chain ?h2 (sl_head l) (bs @ [t, e]) 0"
    using ch y et e by (auto simp: chain_append chain_frame)
  then have "simple_rep ?h2 (l\<lparr>sl_tail := e, sl_size := sl_size l + 1\<rparr>) (as @ [e])"
    using rep snoc e simple_rep_size_inc [OF rep e(1,3)] by (auto simp: simple_rep_def last0_def)
  moreover have "same_data h ?h2"
    using e y et by (intro same_data_trans [of h ?h1 ?h2]) (auto simp: same_data_def)
  ultimately show ?thesis using op snoc by (auto simp: same_outside_def)
qed

lemma sl_insert_between_rep:
  assumes rep: "simple_rep h l (xs @ p # n # ys)" and e: "e \<noteq> 0" "h e = Some x" "e \<notin> set (xs @ p # n # ys)"
  shows "\<exists>h' l'. sl_insert_between h l e p n = Some (h', l') \<and> simple_rep h' l' (xs @ p # e # n # ys) \<and>
           same_data h h' \<and> same_outside {e, p} h h'"
proof -
  from rep obtain y where y: "h p = Some y" "p \<noteq> 0" "nxt y = n"
    by (auto simp: simple_rep_def chain_append)
  let ?h1 = "h(p \<mapsto> y\<lparr>nxt := e\<rparr>)"
  let ?h2 = "?h1(e \<mapsto> x\<lparr>nxt := n\<rparr>)"
  have d: "e \<noteq> p" "p \<notin> set xs" "p \<noteq> n" "p \<notin> set ys" "e \<noteq> n" "e \<notin> set xs" "e \<notin> set ys"
    using rep e by (auto simp: simple_rep_def)
  have op: "sl_insert_between h l e p n = Some (?h2, l\<lparr>sl_size := sl_size l + 1\<rparr>)"
    using y e d by (simp add: sl_insert_between_def store_simps)
  have "chain ?h2 (sl_head l) (xs @ p # e # n # ys) 0"
    using rep y d e by (auto simp: simple_rep_def chain_append chain_frame)
  then have "simple_rep ?h2 (l\<lparr>sl_size := sl_size l + 1\<rparr>) (xs @ p # e # n # ys)"
    using rep e d simple_rep_size_inc [OF rep e(1,3)] by (auto simp: simple_rep_def last0_Cons)
  moreover have "same_data h ?h2"
    using e y d by (intro same_data_trans [of h ?h1 ?h2]) (auto simp: same_data_def)
  ultimately show ?thesis using op by (auto simp: same_outside_def)
qed

section \<open>Removals\<close>

lemma sl_remove_last_rep:
  "simple_rep h l [a] \<Longrightarrow> snd (sl_remove_last l) = a \<and> simple_rep h (fst (sl_remove_last l)) []"
  using simple_rep_size_dec [of h l "[a]"] by (auto simp: simple_rep_def sl_remove_last_def)

lemma sl_remove_head_empty: "simple_rep h l [] \<Longrightarrow> sl_remove_head h l = Some (l, 0)"
  by (simp add: sl_remove_head_def sl_empty_rep)

lemma sl_remove_head_rep:
  assumes rep: "simple_rep h l (a # as)"
  shows "\<exists>l'. sl_remove_head h l = Some (l', a) \<and> simple_rep h l' as"
proof (cases "as = []")
  case True
  then show ?thesis
    using rep sl_remove_last_rep [of h l a] sl_empty_rep [OF rep] sl_last_rep [OF rep]
    by (auto simp: sl_remove_head_def prod_eq_iff)
next
  case False
  then show ?thesis
    using rep sl_empty_rep [OF rep] sl_last_rep [OF rep] simple_rep_size_dec [OF rep]
    by (auto simp: sl_remove_head_def store_simps simple_rep_def last0_Cons)
qed

lemma sl_find_prev_chain:
  "chain h a (a # xs @ e # ys) 0 \<Longrightarrow> distinct (a # xs @ e # ys) \<Longrightarrow>
   sl_find_prev h a e = Some (last (a # xs))"
proof (induction xs arbitrary: a)
  case Nil
  then show ?case by (auto simp: sl_find_prev.simps [of h a] store_simps)
next
  case (Cons b xs)
  then show ?case by (auto simp: sl_find_prev.simps [of h a] store_simps)
qed

lemma sl_remove_rep:
  assumes rep: "simple_rep h l (xs @ e # ys)"
  shows "\<exists>h' l'. sl_remove h l e = Some (h', l', e) \<and> simple_rep h' l' (xs @ ys) \<and>
           same_data h h' \<and> same_outside (set xs) h h'"
proof (cases xs rule: rev_cases)
  case Nil
  have hd: "e = sl_head l" using rep Nil by (auto simp: simple_rep_def)
  obtain l' where l': "sl_remove_head h l = Some (l', e)" "simple_rep h l' ys"
    using sl_remove_head_rep [of h l e ys] rep Nil by auto
  show ?thesis
  proof (cases "ys = []")
    case True
    then show ?thesis
      using rep Nil sl_last_rep [OF rep] sl_remove_last_rep [of h l e]
      by (auto simp: sl_remove_def)
  next
    case False
    then show ?thesis using Nil hd l' sl_last_rep [OF rep] by (auto simp: sl_remove_def)
  qed
next
  case (snoc zs p)
  have d: "e \<noteq> p" "e \<notin> set zs" "p \<notin> set zs" "p \<notin> set ys" "e \<notin> set ys" using rep snoc by (auto simp: simple_rep_def)
  from rep snoc obtain x y where x: "h e = Some x" "e \<noteq> 0" and y: "h p = Some y" "p \<noteq> 0"
    by (auto simp: simple_rep_def chain_append)
  let ?h1 = "h(p \<mapsto> y\<lparr>nxt := nxt x\<rparr>)"
  let ?l1 = "(if e = sl_tail l then l\<lparr>sl_tail := p\<rparr> else l)"
  have hd: "sl_head l = hd (zs @ [p])" "e \<noteq> sl_head l"
    using rep snoc d by (cases zs; auto simp: simple_rep_def)+
  have fp: "sl_find_prev h (sl_head l) e = Some p"
    using rep snoc sl_find_prev_chain [of h "sl_head l" "tl (zs @ [p])" e ys] hd(1)
    by (cases zs) (auto simp: simple_rep_def)
  have op: "sl_remove h l e = Some (?h1, ?l1\<lparr>sl_size := sl_size l - 1\<rparr>, e)"
    using fp x y hd(2) snoc sl_last_rep [OF rep] by (simp add: sl_remove_def store_simps)
  have "chain ?h1 (sl_head l) (zs @ p # ys) 0"
    using rep snoc x y d by (auto simp: simple_rep_def chain_append chain_frame)
  moreover have "sl_tail ?l1 = last0 (zs @ p # ys)"
    using rep snoc d last0_in [of ys] by (auto simp: simple_rep_def last0_Cons)
  ultimately have "simple_rep ?h1 (?l1\<lparr>sl_size := sl_size l - 1\<rparr>) (xs @ ys)"
    using rep snoc simple_rep_size_dec [OF rep] by (auto simp: simple_rep_def)
  then show ?thesis using op y snoc by (auto simp: same_outside_def)
qed

lemma sl_remove_tail_rep:
  assumes rep: "simple_rep h l (as @ [e])"
  shows "\<exists>h' l'. sl_remove_tail h l = Some (h', l', e) \<and> simple_rep h' l' as \<and>
           same_data h h' \<and> same_outside (set as) h h'"
proof -
  have "sl_tail l = e" "e \<noteq> 0"
    using rep simple_rep_nonnull [OF rep] by (auto simp: simple_rep_def)
  then show ?thesis using sl_remove_rep [of h l as e "[]"] rep by (simp add: sl_remove_tail_def)
qed

lemma sl_search_rep: "simple_rep h l as \<Longrightarrow> sl_search h l ob = Some (find_obj h as ob)"
  by (simp add: sl_search_def simple_rep_def search_from_chain)

section \<open>A first-in first-out queue\<close>

definition sl_usable :: "'m elem_scheme store \<Rightarrow> addr \<Rightarrow> bool" where
  "sl_usable h a \<longleftrightarrow> a \<noteq> 0 \<and> h a \<noteq> None"

definition sl_get :: "'m elem_scheme store \<Rightarrow> simple_list \<Rightarrow> ('m elem_scheme store \<times> simple_list \<times> addr) option" where
  "sl_get h l = map_option (\<lambda>(l, e). (h, l, e)) (sl_remove_head h l)"

lemma sl_usable_data: "same_data h h' \<Longrightarrow> sl_usable h' a = sl_usable h a"
  unfolding sl_usable_def same_data_def by (drule spec [of _ a]) (cases "h a"; cases "h' a"; simp)

interpretation sl: fifo_queue simple_rep sl_usable sl_insert sl_get
proof unfold_locales
  fix h :: "'m elem_scheme store" and q as e
  assume rep: "simple_rep h q as" and u: "sl_usable h e" "e \<notin> set as"
  then obtain x where "e \<noteq> 0" "h e = Some x" by (auto simp: sl_usable_def)
  then show "\<exists>h' q'. sl_insert h q e = Some (h', q') \<and> simple_rep h' q' (as @ [e]) \<and> (\<forall>a. sl_usable h' a = sl_usable h a)"
    using sl_insert_tail_rep [OF rep _ _ u(2)] sl_usable_data unfolding sl_insert_def by blast
qed (auto simp: sl_get_def sl_remove_head_empty dest!: sl_remove_head_rep)

end
