(* ===== verification/Rank_Lists.thy ===== *)
theory Rank_Lists
  imports Interfaces
begin

text \<open>
  The order of the ordered and relative lists, as pure functions over a sequence of elements and their
  ranks, shared by the singly- and doubly-linked implementations. With \<open>rel = False\<close> ranks are
  absolute; with \<open>rel = True\<close> the rank of an element is its offset from its predecessor (the queue of
  pending alarms), and \<open>abs_ranks\<close> reads the absolute ranks back.
\<close>

section \<open>Where an insertion goes\<close>

fun rank_split :: "bool \<Rightarrow> ('a \<Rightarrow> int) \<Rightarrow> int \<Rightarrow> 'a list \<Rightarrow> 'a list \<times> 'a list" where
  "rank_split rel r R [] = ([], [])"
| "rank_split rel r R (a # as) =
     (if r a \<le> R
      then (let (us, vs) = rank_split rel r (if rel then R - r a else R) as in (a # us, vs))
      else ([], a # as))"

text \<open>What is left of the rank \<open>R\<close> of the inserted element after it has passed the elements of \<open>us\<close>.\<close>

definition rank_left :: "bool \<Rightarrow> ('a \<Rightarrow> int) \<Rightarrow> int \<Rightarrow> 'a list \<Rightarrow> int" where
  "rank_left rel r R us = (if rel then R - sum_list (map r us) else R)"

text \<open>The ranks after \<open>e\<close> has been put between \<open>us\<close> and \<open>vs\<close>.\<close>

definition rank_insert :: "bool \<Rightarrow> ('a \<Rightarrow> int) \<Rightarrow> int \<Rightarrow> 'a \<Rightarrow> 'a list \<Rightarrow> 'a list \<Rightarrow> 'a \<Rightarrow> int" where
  "rank_insert rel r R e us vs a =
     (if a = e then rank_left rel r R us
      else if rel \<and> vs \<noteq> [] \<and> a = hd vs then r a - rank_left rel r R us
      else r a)"

text \<open>The ranks after \<open>e\<close> has been taken out: in a relative list its successor inherits its offset.\<close>

definition rank_remove :: "bool \<Rightarrow> ('a \<Rightarrow> int) \<Rightarrow> 'a \<Rightarrow> 'a list \<Rightarrow> 'a \<Rightarrow> int" where
  "rank_remove rel r e vs a = (if rel \<and> vs \<noteq> [] \<and> a = hd vs then r a + r e else r a)"

lemma rank_left_simps [simp]:
  "rank_left rel r R [] = R"
  "rank_left rel r R (u # us) = rank_left rel r (if rel then R - r u else R) us"
  "rank_left False r R us = R"
  by (simp_all add: rank_left_def)

lemma rank_left_append: "rank_left rel r R (us @ vs) = rank_left rel r (rank_left rel r R us) vs"
  by (simp add: rank_left_def)

lemma rank_split_append: "rank_split rel r R as = (us, vs) \<Longrightarrow> as = us @ vs"
  by (induction as arbitrary: R us) (auto split: if_splits prod.splits)

lemma rank_split_stop: "rank_split rel r R as = (us, v # vs) \<Longrightarrow> rank_left rel r R us < r v"
  by (induction as arbitrary: R us) (auto split: if_splits prod.splits)

lemma rank_split_pass:
  "rank_split rel r R as = (us @ w # ws, vs) \<Longrightarrow> r w \<le> rank_left rel r R us"
proof (induction as arbitrary: R us)
  case (Cons a as)
  then show ?case by (cases us) (auto split: if_splits prod.splits)
qed simp

fun rank_passes :: "bool \<Rightarrow> ('a \<Rightarrow> int) \<Rightarrow> int \<Rightarrow> 'a list \<Rightarrow> bool" where
  "rank_passes rel r R [] \<longleftrightarrow> True"
| "rank_passes rel r R (u # us) \<longleftrightarrow> r u \<le> R \<and> rank_passes rel r (if rel then R - r u else R) us"

lemma rank_split_passes: "rank_split rel r R as = (us, vs) \<Longrightarrow> rank_passes rel r R us"
  by (induction as arbitrary: R us) (auto split: if_splits prod.splits)

lemma rank_passes_append:
  "rank_passes rel r R (us @ vs) \<longleftrightarrow> rank_passes rel r R us \<and> rank_passes rel r (rank_left rel r R us) vs"
  by (induction us arbitrary: R) auto

lemma rank_split_cong:
  "(\<And>a. a \<in> set as \<Longrightarrow> r' a = r a) \<Longrightarrow> rank_split rel r' R as = rank_split rel r R as"
  by (induction as arbitrary: R) auto

section \<open>Absolute order\<close>

lemma rank_split_absolute:
  "rank_split False r R as = (takeWhile (\<lambda>a. r a \<le> R) as, dropWhile (\<lambda>a. r a \<le> R) as)"
  by (induction as) auto

definition rank_sorted :: "('a \<Rightarrow> int) \<Rightarrow> 'a list \<Rightarrow> bool" where
  "rank_sorted r as \<longleftrightarrow> sorted (map r as)"

lemma rank_sorted_cong: "(\<And>a. a \<in> set as \<Longrightarrow> r' a = r a) \<Longrightarrow> rank_sorted r' as = rank_sorted r as"
  by (simp add: rank_sorted_def cong: map_cong)

lemma rank_sorted_remove: "rank_sorted r (us @ e # vs) \<Longrightarrow> rank_sorted r (us @ vs)"
  by (auto simp: rank_sorted_def sorted_append)

lemma rank_sorted_tl: "rank_sorted r (e # vs) \<Longrightarrow> rank_sorted r vs"
  by (simp add: rank_sorted_def)

lemma rank_sorted_insert:
  assumes "rank_sorted r as" "rank_split False r (r e) as = (us, vs)"
  shows "rank_sorted r (us @ e # vs)"
proof -
  have as: "as = us @ vs" and us: "\<And>u. u \<in> set us \<Longrightarrow> r u \<le> r e"
    using assms(2) by (auto simp: rank_split_absolute dest: set_takeWhileD)
  have "\<And>v. v \<in> set vs \<Longrightarrow> r e \<le> r v"
  proof (cases vs)
    case (Cons v' vs')
    then have "r e < r v'" using rank_split_stop [OF assms(2) [unfolded Cons]] by simp
    then show "\<And>v. v \<in> set vs \<Longrightarrow> r e \<le> r v"
      using assms(1) as Cons by (fastforce simp: rank_sorted_def sorted_append)
  qed simp
  then show ?thesis
    using assms(1) us as by (auto simp: rank_sorted_def sorted_append)
qed

section \<open>Relative order\<close>

fun abs_ranks :: "('a \<Rightarrow> int) \<Rightarrow> int \<Rightarrow> 'a list \<Rightarrow> ('a \<times> int) list" where
  "abs_ranks r b [] = []"
| "abs_ranks r b (a # as) = (a, b + r a) # abs_ranks r (b + r a) as"

lemma abs_ranks_append:
  "abs_ranks r b (as @ bs) = abs_ranks r b as @ abs_ranks r (b + sum_list (map r as)) bs"
  by (induction as arbitrary: b) (auto simp: algebra_simps)

lemma abs_ranks_fst [simp]: "map fst (abs_ranks r b as) = as"
  by (induction as arbitrary: b) auto

lemma abs_ranks_cong:
  "as = as' \<Longrightarrow> b = b' \<Longrightarrow> (\<And>a. a \<in> set as' \<Longrightarrow> r' a = r a) \<Longrightarrow> abs_ranks r' b as = abs_ranks r b' as'"
  by (induction as' arbitrary: as b b') auto

lemma rank_split_relative:
  assumes "rank_split True r R as = (us, vs)"
  shows "takeWhile (\<lambda>(a, d). d \<le> b + R) (abs_ranks r b as) = abs_ranks r b us"
    and "dropWhile (\<lambda>(a, d). d \<le> b + R) (abs_ranks r b as) = abs_ranks r (b + sum_list (map r us)) vs"
  using assms
proof (induction as arbitrary: R us b)
  case (Cons a as)
  {
    case 1
    then show ?case using Cons.IH(1) [of "R - r a" _ "b + r a"]
      by (auto split: if_splits prod.splits)
  next
    case 2
    then show ?case using Cons.IH(2) [of "R - r a" _ "b + r a"]
      by (auto split: if_splits prod.splits simp: algebra_simps)
  }
qed auto

text \<open>
  The delta encoding is sound: an insertion at rank \<open>R\<close> leaves every other absolute rank as it was and
  gives the new element the absolute rank \<open>R\<close>, in order, after all the elements that are not later.
\<close>

lemma abs_ranks_insert:
  assumes "rank_split True r R as = (us, vs)" "e \<notin> set as" "distinct as"
  shows "abs_ranks (rank_insert True r R e us vs) 0 (us @ e # vs) =
           takeWhile (\<lambda>(a, d). d \<le> R) (abs_ranks r 0 as) @ (e, R) #
           dropWhile (\<lambda>(a, d). d \<le> R) (abs_ranks r 0 as)"
proof -
  define r' where "r' = rank_insert True r R e us vs"
  have as: "as = us @ vs" using rank_split_append [OF assms(1)] .
  have u: "\<And>a. a \<in> set us \<Longrightarrow> r' a = r a" using assms as by (auto simp: r'_def rank_insert_def)
  have us: "sum_list (map r' us) = sum_list (map r us)" "abs_ranks r' 0 us = abs_ranks r 0 us"
    using u by (simp_all cong: abs_ranks_cong map_cong)
  have vs: "abs_ranks r' R vs = abs_ranks r (sum_list (map r us)) vs"
  proof (cases vs)
    case (Cons v vs')
    have "\<And>a. a \<in> set vs' \<Longrightarrow> r' a = r a" "R + r' v = sum_list (map r us) + r v"
      using assms as Cons by (auto simp: r'_def rank_insert_def rank_left_def)
    then show ?thesis using Cons by (simp cong: abs_ranks_cong)
  qed simp
  have "r' e = R - sum_list (map r us)" by (simp add: r'_def rank_insert_def rank_left_def)
  then show ?thesis
    using rank_split_relative [OF assms(1), of 0] us vs
    by (simp add: abs_ranks_append flip: r'_def)
qed

lemma abs_ranks_filter_absent:
  "e \<notin> set as \<Longrightarrow> filter (\<lambda>(a, d). a \<noteq> e) (abs_ranks r b as) = abs_ranks r b as"
  by (induction as arbitrary: b) auto

lemma abs_ranks_remove:
  assumes "distinct (us @ e # vs)"
  shows "abs_ranks (rank_remove True r e vs) 0 (us @ vs) =
           filter (\<lambda>(a, d). a \<noteq> e) (abs_ranks r 0 (us @ e # vs))"
proof -
  define r' where "r' = rank_remove True r e vs"
  have u: "\<And>a. a \<in> set us \<Longrightarrow> r' a = r a" using assms by (auto simp: r'_def rank_remove_def)
  have us: "sum_list (map r' us) = sum_list (map r us)" "abs_ranks r' 0 us = abs_ranks r 0 us"
    using u by (simp_all cong: abs_ranks_cong map_cong)
  have vs: "abs_ranks r' (sum_list (map r us)) vs = abs_ranks r (sum_list (map r us) + r e) vs"
  proof (cases vs)
    case (Cons v vs')
    have "\<And>a. a \<in> set vs' \<Longrightarrow> r' a = r a"
      "sum_list (map r us) + r' v = sum_list (map r us) + r e + r v"
      using assms Cons by (auto simp: r'_def rank_remove_def)
    then show ?thesis using Cons by (simp add: add.assoc cong: abs_ranks_cong)
  qed simp
  show ?thesis
    using assms us vs by (simp add: abs_ranks_append abs_ranks_filter_absent flip: r'_def)
qed

text \<open>
  No offset ever exceeds the rank it was cut from: with non-negative offsets the arithmetic of an
  insertion stays within the range of the ranks it started from.
\<close>

lemma rank_left_bounds:
  assumes "rank_split True r R as = (us, vs)" "0 \<le> R" "\<And>a. a \<in> set as \<Longrightarrow> 0 \<le> r a"
  shows "0 \<le> rank_left True r R us \<and> rank_left True r R us \<le> R"
  using assms
proof (induction as arbitrary: R us)
  case (Cons a as)
  show ?case
  proof (cases "r a \<le> R")
    case True
    with Cons.prems(1) obtain us' where us: "us = a # us'" "rank_split True r (R - r a) as = (us', vs)"
      by (auto split: prod.splits)
    have "0 \<le> r a" using Cons.prems(3) by simp
    then show ?thesis using Cons.IH [OF us(2)] True Cons.prems us(1) by fastforce
  next
    case False
    then show ?thesis using Cons.prems by simp
  qed
qed simp

lemma rank_insert_nonneg:
  assumes "rank_split True r R as = (us, vs)" "0 \<le> R" "\<And>a. a \<in> set as \<Longrightarrow> 0 \<le> r a" "a \<in> set (us @ e # vs)"
  shows "0 \<le> rank_insert True r R e us vs a"
proof (cases "vs \<noteq> [] \<and> a = hd vs \<and> a \<noteq> e")
  case True
  then show ?thesis
    using rank_split_stop [of True r R as us "hd vs" "tl vs"] assms(1) by (auto simp: rank_insert_def)
next
  case False
  then show ?thesis
    using rank_left_bounds [OF assms(1-3)] assms rank_split_append [OF assms(1)]
    by (auto simp: rank_insert_def)
qed

section \<open>Both orders at once\<close>

text \<open>The elements with their absolute ranks, whichever way the ranks are kept.\<close>

definition ranks :: "bool \<Rightarrow> (addr \<Rightarrow> int) \<Rightarrow> addr list \<Rightarrow> (addr \<times> int) list" where
  "ranks rel r as = (if rel then abs_ranks r 0 as else map (\<lambda>a. (a, r a)) as)"

lemma map_fst_ranks [simp]: "map fst (ranks rel r as) = as"
  by (simp add: ranks_def comp_def)

lemma ranks_Nil [simp]: "ranks rel r [] = []"
  by (simp add: ranks_def)

lemma ranks_insert:
  assumes "rank_split rel r R as = (us, vs)" "e \<notin> set as" "distinct as"
  shows "ranks rel (rank_insert rel r R e us vs) (us @ e # vs) = rank_put (e, R) (ranks rel r as)"
proof (cases rel)
  case True
  then show ?thesis
    using abs_ranks_insert [of r R as us vs e] assms by (simp add: ranks_def rank_put_def case_prod_beta')
next
  case False
  have us: "us = takeWhile (\<lambda>a. r a \<le> R) as" "vs = dropWhile (\<lambda>a. r a \<le> R) as" "as = us @ vs"
    using assms(1) False by (auto simp: rank_split_absolute)
  have "a \<in> set as \<Longrightarrow> rank_insert rel r R e us vs a = r a" for a using False assms(2) by (auto simp: rank_insert_def)
  then have "map (\<lambda>a. (a, rank_insert rel r R e us vs a)) us = map (\<lambda>a. (a, r a)) us"
    "map (\<lambda>a. (a, rank_insert rel r R e us vs a)) vs = map (\<lambda>a. (a, r a)) vs"
    using us(3) by auto
  then show ?thesis
    using False us(1,2) by (simp add: ranks_def rank_put_def takeWhile_map dropWhile_map comp_def rank_insert_def)
qed

lemma ranks_remove_front:
  assumes "distinct (e # vs)"
  shows "ranks rel (rank_remove rel r e vs) vs = tl (ranks rel r (e # vs))"
proof (cases rel)
  case True
  then show ?thesis
    using abs_ranks_remove [of "[]" e vs r] assms by (simp add: ranks_def abs_ranks_filter_absent)
next
  case False
  then show ?thesis by (simp add: ranks_def rank_remove_def)
qed

end
