(* ===== verification/Simple_Ordered_List.thy ===== *)
theory Simple_Ordered_List
  imports Simple_List Rank_Lists
begin

text \<open>
  \<open>Simple_Ordered_List\<close> and \<open>Simple_Relative_List\<close> of \<open>include/utility/list.h\<close>; the template flag
  \<open>relative\<close> is the argument \<open>rel\<close>. An insertion is \<open>rank_split\<close>/\<open>rank_insert\<close> on the sequence of the
  elements: in order, after its equals, and in a relative list with every other absolute rank unchanged.
\<close>

section \<open>The class\<close>

partial_function (option) sol_walk ::
  "bool \<Rightarrow> 'm elem_ordered_scheme store \<Rightarrow> addr \<Rightarrow> addr \<Rightarrow> addr \<Rightarrow>
   ('m elem_ordered_scheme store \<times> addr \<times> addr) option" where
  "sol_walk rel h e next prev =
     do { n \<leftarrow> load h next;
          x \<leftarrow> load h e;
          if srank n \<le> srank x \<and> nxt n \<noteq> 0
          then do { h \<leftarrow> (if rel then modify h e (\<lambda>y. y\<lparr>srank := srank y - srank n\<rparr>) else Some h);
                    sol_walk rel h e (nxt n) next }
          else Some (h, next, prev) }"

definition sol_insert ::
  "bool \<Rightarrow> 'm elem_ordered_scheme store \<Rightarrow> simple_list \<Rightarrow> addr \<Rightarrow>
   ('m elem_ordered_scheme store \<times> simple_list) option" where
  "sol_insert rel h l e =
     (if sl_empty l then sl_insert_first h l e
      else do {
        (h, next, prev) \<leftarrow> sol_walk rel h e (sl_head l) 0;
        n \<leftarrow> load h next;
        x \<leftarrow> load h e;
        if srank n \<le> srank x then do {
          h \<leftarrow> (if rel then modify h e (\<lambda>y. y\<lparr>srank := srank y - srank n\<rparr>) else Some h);
          sl_insert_tail h l e }
        else if prev = 0 then do {
          h \<leftarrow> (if rel then modify h next (\<lambda>y. y\<lparr>srank := srank y - srank x\<rparr>) else Some h);
          sl_insert_head h l e }
        else do {
          h \<leftarrow> (if rel then modify h next (\<lambda>y. y\<lparr>srank := srank y - srank x\<rparr>) else Some h);
          sl_insert_between h l e prev next } })"

text \<open>\<open>if(relative && e->next()) e->next()->rank(e->next()->rank() + e->rank())\<close>\<close>

definition sol_inherit :: "bool \<Rightarrow> 'm elem_ordered_scheme store \<Rightarrow> addr \<Rightarrow> 'm elem_ordered_scheme store option" where
  "sol_inherit rel h e =
     (if rel then do {
        x \<leftarrow> load h e;
        if nxt x \<noteq> 0 then modify h (nxt x) (\<lambda>y. y\<lparr>srank := srank y + srank x\<rparr>) else Some h }
      else Some h)"

definition sol_remove_front ::
  "bool \<Rightarrow> 'm elem_ordered_scheme store \<Rightarrow> simple_list \<Rightarrow>
   ('m elem_ordered_scheme store \<times> simple_list \<times> addr) option" where
  "sol_remove_front rel h l =
     do { (l, e) \<leftarrow> sl_remove_head h l;
          h \<leftarrow> (if e \<noteq> 0 then sol_inherit rel h e else Some h);
          Some (h, l, e) }"

definition sol_remove ::
  "bool \<Rightarrow> 'm elem_ordered_scheme store \<Rightarrow> simple_list \<Rightarrow> addr \<Rightarrow>
   ('m elem_ordered_scheme store \<times> simple_list \<times> addr) option" where
  "sol_remove rel h l e =
     do { (h, l, _) \<leftarrow> sl_remove h l e;
          h \<leftarrow> sol_inherit rel h e;
          Some (h, l, e) }"

definition sol_remove_object ::
  "bool \<Rightarrow> 'm elem_ordered_scheme store \<Rightarrow> simple_list \<Rightarrow> addr \<Rightarrow>
   ('m elem_ordered_scheme store \<times> simple_list \<times> addr) option" where
  "sol_remove_object rel h l ob =
     do { e \<leftarrow> sl_search h l ob; if e \<noteq> 0 then sol_remove rel h l e else Some (h, l, 0) }"

partial_function (option) sol_search_rank_from :: "'m elem_ordered_scheme store \<Rightarrow> addr \<Rightarrow> int \<Rightarrow> addr option" where
  "sol_search_rank_from h e r =
     (if e = 0 then Some 0
      else do { x \<leftarrow> load h e; if srank x \<noteq> r then sol_search_rank_from h (nxt x) r else Some e })"

definition sol_search_rank :: "'m elem_ordered_scheme store \<Rightarrow> simple_list \<Rightarrow> int \<Rightarrow> addr option" where
  "sol_search_rank h l r = sol_search_rank_from h (sl_head l) r"

definition sol_remove_rank ::
  "bool \<Rightarrow> 'm elem_ordered_scheme store \<Rightarrow> simple_list \<Rightarrow> int \<Rightarrow>
   ('m elem_ordered_scheme store \<times> simple_list \<times> addr) option" where
  "sol_remove_rank rel h l r =
     do { e \<leftarrow> sol_search_rank h l r; if e \<noteq> 0 then sol_remove rel h l e else Some (h, l, 0) }"

section \<open>Ranks and objects of the elements\<close>

definition srank_of :: "'m elem_ordered_scheme store \<Rightarrow> addr \<Rightarrow> int" where
  "srank_of h a = (case h a of Some x \<Rightarrow> srank x | None \<Rightarrow> 0)"

lemma srank_of_Some [simp]: "h a = Some x \<Longrightarrow> srank_of h a = srank x"
  by (simp add: srank_of_def)

lemma srank_of_upd [simp]: "srank_of (h(a \<mapsto> x)) b = (if b = a then srank x else srank_of h b)"
  by (simp add: srank_of_def)

lemma srank_of_same_data: "same_data h h' \<Longrightarrow> srank_of h' a = srank_of h a"
proof (cases "h a")
  case None
  assume "same_data h h'"
  with None have "h' a = None" by (auto simp: same_data_def dest: spec [of _ a])
  with None show ?thesis by (simp add: srank_of_def)
next
  case (Some x)
  assume "same_data h h'"
  from same_dataD [OF this Some] Some show ?thesis by (auto simp: srank_of_def)
qed

section \<open>Insertion\<close>

lemma sol_walk_chain:
  assumes "chain h p (us @ v # ws) 0" "e \<notin> set (us @ v # ws)" "e \<noteq> 0" "h e = Some x"
    and "\<And>a. a \<in> set (us @ v # ws) \<Longrightarrow> srank_of h a = r a"
    and "rank_passes rel r (srank x) us"
    and "ws \<noteq> [] \<Longrightarrow> rank_left rel r (srank x) us < r v"
  shows "sol_walk rel h e p q =
           Some (h(e \<mapsto> x\<lparr>srank := rank_left rel r (srank x) us\<rparr>), v, if us = [] then q else last us)"
  using assms
proof (induction us arbitrary: h p q x)
  case Nil
  then obtain n where n: "h v = Some n" "v \<noteq> 0" "p = v" "srank n = r v"
    by (auto simp: srank_of_def) (metis option.simps(5))
  with Nil have "nxt n = 0 \<or> \<not> srank n \<le> srank x" by (cases ws) auto
  moreover have "h(e \<mapsto> x) = h" using Nil by (simp add: fun_upd_idem)
  ultimately show ?case using n Nil by (auto simp: sol_walk.simps [of rel h e v] store_simps)
next
  case (Cons u us)
  then obtain n where n: "h u = Some n" "u \<noteq> 0" "p = u" "chain h (nxt n) (us @ v # ws) 0"
    by auto
  then have un: "srank n = r u" using Cons.prems(5) [of u] by simp
  define x' where "x' = (if rel then x\<lparr>srank := srank x - srank n\<rparr> else x)"
  have x': "srank x' = (if rel then srank x - r u else srank x)" "\<And>c. x'\<lparr>srank := c\<rparr> = x\<lparr>srank := c\<rparr>"
    using un by (simp_all add: x'_def)
  have nz: "nxt n \<noteq> 0" using n(4) by (cases us) auto
  have "sol_walk rel h e p q = sol_walk rel (h(e \<mapsto> x')) e (nxt n) u"
    using n un nz Cons.prems(3,4,6)
    by (auto simp: sol_walk.simps [of rel h e u] store_simps fun_upd_idem x'_def)
  also have "\<dots> = Some (h(e \<mapsto> x', e \<mapsto> x'\<lparr>srank := rank_left rel r (srank x') us\<rparr>), v,
      if us = [] then u else last us)"
  proof (rule Cons.IH)
    show "chain (h(e \<mapsto> x')) (nxt n) (us @ v # ws) 0"
      using n(4) Cons.prems(2) chain_frame [of e "us @ v # ws" h] by simp
    show "srank_of (h(e \<mapsto> x')) a = r a" if "a \<in> set (us @ v # ws)" for a
      using that Cons.prems(2,5) by auto
  qed (use Cons.prems un x' in auto)
  finally show ?case using un x' by auto
qed

lemma sol_insert_rep:
  assumes rep: "simple_rep h l as" and e: "e \<noteq> 0" "h e = Some x" "e \<notin> set as"
    and split: "rank_split rel (srank_of h) (srank x) as = (us, vs)"
  shows "\<exists>h' l'. sol_insert rel h l e = Some (h', l') \<and> simple_rep h' l' (us @ e # vs) \<and>
           srank_of h' = rank_insert rel (srank_of h) (srank x) e us vs \<and>
           same_obj h h' \<and> same_outside (insert e (set as)) h h'"
proof -
  let ?r = "srank_of h" and ?R = "srank x"
  have as: "as = us @ vs" using rank_split_append [OF split] .
  have ch: "chain h (sl_head l) as 0" and dist: "distinct as" using rep by (simp_all add: simple_rep_def)
  note passes = rank_split_passes [OF split]
  consider (none) "as = []" | (tail) us0 v where "us = us0 @ [v]" "vs = []"
    | (front) v ws where "us = []" "vs = v # ws" | (mid) us0 p v ws where "us = us0 @ [p]" "vs = v # ws"
    using as by (cases us rule: rev_cases; cases vs) auto
  then show ?thesis
  proof cases
    case none
    have "srank_of (h(e \<mapsto> x\<lparr>nxt := 0\<rparr>)) = rank_insert rel ?r ?R e us vs"
      using none as by (auto simp: rank_insert_def fun_eq_iff)
    then show ?thesis
      using none sl_insert_first_rep [of h l e x] rep e as sl_empty_rep [OF rep]
      by (auto simp: sol_insert_def same_outside_def intro!: same_obj_upd)
  next
    case (tail us0 v)
    let ?Ra = "rank_left rel ?r ?R us0" and ?Rb = "rank_left rel ?r ?R us"
    let ?ha = "h(e \<mapsto> x\<lparr>srank := ?Ra\<rparr>)" and ?hb = "h(e \<mapsto> x\<lparr>srank := ?Rb\<rparr>)"
    obtain n where n: "h v = Some n" "v \<noteq> 0"
      using simple_rep_mapped [OF rep, of v] simple_rep_nonnull [OF rep] as tail by auto
    have ne: "e \<noteq> v" using e as tail by auto
    have walk: "sol_walk rel h e (sl_head l) 0 = Some (?ha, v, if us0 = [] then 0 else last us0)"
      using ch e as tail passes by (intro sol_walk_chain) (auto simp: rank_passes_append)
    have le: "srank n \<le> ?Ra" using rank_split_pass [of rel ?r ?R as us0 v "[]" vs] split tail n(1) by simp
    have R1: "?Rb = (if rel then ?Ra - srank n else ?Ra)" using tail n by (simp add: rank_left_append)
    have rep1: "simple_rep ?hb l as" using rep e by (intro simple_rep_cong [OF rep]) auto
    have step: "sol_insert rel h l e = sl_insert_tail ?hb l e"
      using walk n ne e le R1 sl_empty_rep [OF rep] as tail by (auto simp: sol_insert_def store_simps)
    obtain h' l' where t: "sl_insert_tail ?hb l e = Some (h', l')" "simple_rep h' l' (as @ [e])"
      "same_data ?hb h'" "same_outside (insert e (set as)) ?hb h'"
      using sl_insert_tail_rep [OF rep1, of e "x\<lparr>srank := ?Rb\<rparr>"] e by auto
    have "srank_of h' = rank_insert rel ?r ?R e us vs"
      using srank_of_same_data [OF t(3)] tail by (auto simp: rank_insert_def fun_eq_iff)
    moreover have "same_obj h h'"
      using e by (intro same_obj_trans [OF _ same_obj_data [OF t(3)]]) (auto simp: same_obj_def)
    moreover have "same_outside (insert e (set as)) h h'" using t(4) by (auto simp: same_outside_def)
    ultimately show ?thesis using step t tail as by auto
  next
    case (front v ws)
    obtain n where n: "h v = Some n" "v \<noteq> 0"
      using simple_rep_mapped [OF rep, of v] simple_rep_nonnull [OF rep] as front by auto
    define hb where "hb = (if rel then h(v \<mapsto> n\<lparr>srank := srank n - ?R\<rparr>) else h)"
    have ne: "e \<noteq> v" using e as front by auto
    then have hb: "hb e = Some x" using e by (simp add: hb_def)
    have walk: "sol_walk rel h e (sl_head l) 0 = Some (h, v, 0)"
      using sol_walk_chain [of h "sl_head l" "[]" v ws e x ?r rel 0] ch e as front
        rank_split_stop [of rel ?r ?R as us v ws] split by (auto simp: fun_upd_idem)
    have gt: "\<not> srank n \<le> ?R" using rank_split_stop [of rel ?r ?R as us v ws] split front n by simp
    have rep1: "simple_rep hb l as" using n by (intro simple_rep_cong [OF rep]) (auto simp: hb_def)
    have step: "sol_insert rel h l e = sl_insert_head hb l e"
      using walk n ne e gt sl_empty_rep [OF rep] as front by (auto simp: sol_insert_def store_simps hb_def)
    obtain h' l' where t: "sl_insert_head hb l e = Some (h', l')" "simple_rep h' l' (e # as)"
      "same_data hb h'" "same_outside {e} hb h'"
      using sl_insert_head_rep [OF rep1 e(1) hb e(3)] by auto
    have "srank_of h' = rank_insert rel ?r ?R e us vs"
      using srank_of_same_data [OF t(3)] front n e ne by (auto simp: rank_insert_def fun_eq_iff hb_def)
    moreover have "same_obj h h'"
      using n by (intro same_obj_trans [OF _ same_obj_data [OF t(3)]]) (auto simp: same_obj_def hb_def)
    moreover have "same_outside (insert e (set as)) h h'"
      using t(4) as front by (auto simp: same_outside_def hb_def split: if_splits)
    ultimately show ?thesis using step t front as by auto
  next
    case (mid us0 p v ws)
    let ?Rb = "rank_left rel ?r ?R us"
    let ?xb = "x\<lparr>srank := ?Rb\<rparr>"
    let ?ha = "h(e \<mapsto> ?xb)"
    obtain n where n: "h v = Some n" "v \<noteq> 0"
      using simple_rep_mapped [OF rep, of v] simple_rep_nonnull [OF rep] as mid by auto
    define hb where "hb = (if rel then ?ha(v \<mapsto> n\<lparr>srank := srank n - ?Rb\<rparr>) else ?ha)"
    have ne: "e \<noteq> v" "p \<noteq> 0" using e as mid simple_rep_nonnull [OF rep] by auto
    then have hb: "hb e = Some ?xb" by (simp add: hb_def)
    have gt: "?Rb < srank n" using rank_split_stop [of rel ?r ?R as us v ws] split mid n by simp
    have walk: "sol_walk rel h e (sl_head l) 0 = Some (?ha, v, p)"
      using sol_walk_chain [of h "sl_head l" us v ws e x ?r rel 0] ch e as mid passes gt n by auto
    have rep1: "simple_rep hb l as" using n e ne by (intro simple_rep_cong [OF rep]) (auto simp: hb_def)
    have step: "sol_insert rel h l e = sl_insert_between hb l e p v"
      using walk n ne e gt sl_empty_rep [OF rep] as mid by (auto simp: sol_insert_def store_simps hb_def)
    obtain h' l' where t: "sl_insert_between hb l e p v = Some (h', l')" "simple_rep h' l' (us0 @ p # e # v # ws)"
      "same_data hb h'" "same_outside {e, p} hb h'"
      using sl_insert_between_rep [of hb l us0 p v ws e ?xb] rep1 e hb as mid by auto
    have "srank_of h' = rank_insert rel ?r ?R e us vs"
      using srank_of_same_data [OF t(3)] mid n e ne by (auto simp: rank_insert_def fun_eq_iff hb_def)
    moreover have "same_obj h h'"
      using n e ne by (intro same_obj_trans [OF _ same_obj_data [OF t(3)]]) (auto simp: same_obj_def hb_def)
    moreover have "same_outside (insert e (set as)) h h'"
      using t(4) as mid by (auto simp: same_outside_def hb_def split: if_splits)
    ultimately show ?thesis using step t mid as by auto
  qed
qed

section \<open>Removal and search\<close>

lemma sol_inherit_rep:
  assumes rep: "simple_rep h l as" and e: "e \<noteq> 0" "h e = Some x" "nxt x = (if vs = [] then 0 else hd vs)"
    and vs: "set vs \<subseteq> set as" "e \<notin> set as"
  shows "\<exists>h'. sol_inherit rel h e = Some h' \<and> simple_rep h' l as \<and>
           srank_of h' = rank_remove rel (srank_of h) e vs \<and> same_obj h h' \<and> same_outside (set vs) h h'"
proof (cases "rel \<and> vs \<noteq> []")
  case False
  then show ?thesis using assms by (auto simp: sol_inherit_def store_simps rank_remove_def fun_eq_iff)
next
  case True
  then obtain v ws where v: "vs = v # ws" by (cases vs) auto
  then obtain y where y: "h v = Some y" "v \<noteq> 0"
    using vs simple_rep_mapped [OF rep, of v] simple_rep_nonnull [OF rep] by auto
  let ?h = "h(v \<mapsto> y\<lparr>srank := srank y + srank x\<rparr>)"
  have "simple_rep ?h l as" using y by (intro simple_rep_cong [OF rep]) auto
  moreover have "same_obj h ?h" using y by (auto intro: same_obj_upd)
  moreover have "srank_of ?h = rank_remove rel (srank_of h) e vs"
    using True v y e by (auto simp: rank_remove_def fun_eq_iff)
  ultimately show ?thesis
    using True v y e by (auto simp: sol_inherit_def store_simps same_outside_def)
qed

lemma sol_remove_front_empty: "simple_rep h l [] \<Longrightarrow> sol_remove_front rel h l = Some (h, l, 0)"
  by (simp add: sol_remove_front_def sl_remove_head_empty)

lemma sol_remove_front_rep:
  assumes rep: "simple_rep h l (e # vs)"
  shows "\<exists>h' l'. sol_remove_front rel h l = Some (h', l', e) \<and> simple_rep h' l' vs \<and>
           srank_of h' = rank_remove rel (srank_of h) e vs \<and> same_obj h h' \<and> same_outside (set vs) h h'"
proof -
  obtain l' where l': "sl_remove_head h l = Some (l', e)" "simple_rep h l' vs"
    using sl_remove_head_rep [OF rep] by auto
  obtain x where x: "h e = Some x" "e \<noteq> 0" "nxt x = (if vs = [] then 0 else hd vs)" "e \<notin> set vs"
    using rep by (cases vs) (auto simp: simple_rep_def)
  show ?thesis
    using sol_inherit_rep [OF l'(2) x(2,1,3) _ x(4), of rel] l' x by (auto simp: sol_remove_front_def)
qed

lemma sol_remove_rep:
  assumes rep: "simple_rep h l (us @ e # vs)"
  shows "\<exists>h' l'. sol_remove rel h l e = Some (h', l', e) \<and> simple_rep h' l' (us @ vs) \<and>
           srank_of h' = rank_remove rel (srank_of h) e vs \<and> same_obj h h' \<and>
           same_outside (set (us @ vs)) h h'"
proof -
  obtain h1 l1 where h1: "sl_remove h l e = Some (h1, l1, e)" "simple_rep h1 l1 (us @ vs)"
    "same_data h h1" "same_outside (set us) h h1"
    using sl_remove_rep [OF rep] by auto
  obtain x where x: "h e = Some x" "e \<noteq> 0" "nxt x = (if vs = [] then 0 else hd vs)" "e \<notin> set (us @ vs)"
    using rep by (cases vs) (auto simp: simple_rep_def chain_append)
  then have x1: "h1 e = Some x" using same_outsideD [OF h1(4), of e] by simp
  obtain h2 where h2: "sol_inherit rel h1 e = Some h2" "simple_rep h2 l1 (us @ vs)"
    "srank_of h2 = rank_remove rel (srank_of h1) e vs" "same_obj h1 h2" "same_outside (set vs) h1 h2"
    using sol_inherit_rep [OF h1(2) x(2) x1 x(3) _ x(4)] by auto
  have "srank_of h1 = srank_of h" using srank_of_same_data [OF h1(3)] by (simp add: fun_eq_iff)
  moreover have "same_obj h h2" using same_obj_trans [OF same_obj_data [OF h1(3)] h2(4)] .
  moreover have "same_outside (set (us @ vs)) h h2" using h1(4) h2(5) by (auto simp: same_outside_def)
  ultimately show ?thesis using h1(1) h2 by (simp add: sol_remove_def)
qed

definition find_rank :: "('a \<Rightarrow> int) \<Rightarrow> 'a list \<Rightarrow> int \<Rightarrow> 'a option" where
  "find_rank r as k = find (\<lambda>a. r a = k) as"

lemma sol_search_rank_chain:
  "chain h p as 0 \<Longrightarrow>
   sol_search_rank_from h p r = Some (case find_rank (srank_of h) as r of None \<Rightarrow> 0 | Some a \<Rightarrow> a)"
proof (induction as arbitrary: p)
  case Nil
  then show ?case by (simp add: sol_search_rank_from.simps find_rank_def)
next
  case (Cons a as)
  then show ?case
    by (auto simp: sol_search_rank_from.simps [of h a] find_rank_def store_simps)
qed

lemma sol_search_rank_rep:
  "simple_rep h l as \<Longrightarrow>
   sol_search_rank h l r = Some (case find_rank (srank_of h) as r of None \<Rightarrow> 0 | Some a \<Rightarrow> a)"
  by (simp add: sol_search_rank_def simple_rep_def sol_search_rank_chain)

section \<open>A queue in order of rank\<close>

text \<open>Absolute or relative, the list is a queue of elements with absolute ranks.\<close>

definition sol_ranked :: "'m elem_ordered_scheme store \<Rightarrow> addr \<Rightarrow> int \<Rightarrow> bool" where
  "sol_ranked h a R \<longleftrightarrow> a \<noteq> 0 \<and> (\<exists>x. h a = Some x \<and> srank x = R)"

definition sol_queue :: "bool \<Rightarrow> 'm elem_ordered_scheme store \<Rightarrow> simple_list \<Rightarrow> (addr \<times> int) list \<Rightarrow> bool" where
  "sol_queue rel h q xs \<longleftrightarrow>
     simple_rep h q (map fst xs) \<and> xs = ranks rel (srank_of h) (map fst xs) \<and> sorted (map snd xs)"

interpretation sol: rank_queue "sol_queue rel" sol_ranked "sol_insert rel" "sol_remove_front rel" for rel
proof unfold_locales
  fix h :: "'m elem_ordered_scheme store" and q xs e R
  assume q: "sol_queue rel h q xs" and e: "sol_ranked h e R" "e \<notin> fst ` set xs"
  then obtain x where x: "e \<noteq> 0" "h e = Some x" "srank x = R" by (auto simp: sol_ranked_def)
  let ?as = "map fst xs"
  have rep: "simple_rep h q ?as" and xs: "xs = ranks rel (srank_of h) ?as" and s: "sorted (map snd xs)"
    using q unfolding sol_queue_def by blast+
  have d: "distinct ?as" using rep by (simp add: simple_rep_def)
  have ne: "e \<notin> set ?as" using e(2) by simp
  obtain us vs where sp: "rank_split rel (srank_of h) R ?as = (us, vs)" by fastforce
  obtain h' q' where t: "sol_insert rel h q e = Some (h', q')" "simple_rep h' q' (us @ e # vs)"
    "srank_of h' = rank_insert rel (srank_of h) R e us vs" "same_outside (insert e (set ?as)) h h'"
    using sol_insert_rep [OF rep x(1,2) ne, of rel us vs] sp x(3) by auto
  have r: "ranks rel (srank_of h') (us @ e # vs) = rank_put (e, R) xs"
    using ranks_insert [OF sp ne d] t(3) xs by simp
  then have "map fst (rank_put (e, R) xs) = us @ e # vs" by (metis map_fst_ranks)
  then have "sol_queue rel h' q' (rank_put (e, R) xs)"
    using t(2) r sorted_rank_put [OF s] by (simp add: sol_queue_def)
  moreover have "sol_ranked h' a d = sol_ranked h a d" if "a \<noteq> e" "a \<notin> fst ` set xs" for a d
    using same_outsideD [OF t(4), of a] that by (simp add: sol_ranked_def)
  ultimately show "\<exists>h' q'. sol_insert rel h q e = Some (h', q') \<and> sol_queue rel h' q' (rank_put (e, R) xs) \<and>
        (\<forall>a d. a \<noteq> e \<and> a \<notin> fst ` set xs \<longrightarrow> sol_ranked h' a d = sol_ranked h a d)"
    using t(1) by blast
next
  fix h :: "'m elem_ordered_scheme store" and q a d xs
  assume q: "sol_queue rel h q ((a, d) # xs)"
  then have rep: "simple_rep h q (a # map fst xs)" and xs: "(a, d) # xs = ranks rel (srank_of h) (a # map fst xs)"
    and s: "sorted (map snd xs)" by (auto simp: sol_queue_def)
  have "distinct (a # map fst xs)" using rep by (simp add: simple_rep_def)
  then have "ranks rel (rank_remove rel (srank_of h) a (map fst xs)) (map fst xs) = xs"
    using ranks_remove_front xs by (metis list.sel(3))
  then show "\<exists>h' q'. sol_remove_front rel h q = Some (h', q', a) \<and> sol_queue rel h' q' xs"
    using sol_remove_front_rep [OF rep, of rel] s by (auto simp: sol_queue_def)
qed (auto simp: sol_queue_def sol_remove_front_empty)

end
