(* ===== verification/Linked_List.thy ===== *)
theory Linked_List
  imports Elements Interfaces
begin

text \<open>
  \<open>List\<close>, the doubly-linked list of \<open>include/utility/list.h\<close>: one definition per method (the tracing
  calls, which only print, are left out). \<open>list_rep h l as\<close> relates the list to the sequence of its
  elements: the \<open>next\<close> links visit them in order, the \<open>prev\<close> links go back, and head, tail and size
  agree. Elements that have been removed keep stale links, exactly as in the code.
\<close>

section \<open>The class\<close>

record linked_list =
  dl_size :: ulong
  dl_head :: addr
  dl_tail :: addr

definition dl_new :: linked_list where
  "dl_new = \<lparr>dl_size = 0, dl_head = 0, dl_tail = 0\<rparr>"

definition dl_empty :: "linked_list \<Rightarrow> bool" where
  "dl_empty l \<longleftrightarrow> dl_size l = 0"

definition dl_last :: "linked_list \<Rightarrow> bool" where
  "dl_last l \<longleftrightarrow> dl_size l = 1"

definition dl_begin :: "linked_list \<Rightarrow> addr" where
  "dl_begin l = dl_head l"

definition dl_insert_first :: "'m delem_scheme store \<Rightarrow> linked_list \<Rightarrow> addr \<Rightarrow> ('m delem_scheme store \<times> linked_list) option" where
  "dl_insert_first h l e =
     do { h \<leftarrow> set_prev h e 0;
          h \<leftarrow> set_next h e 0;
          Some (h, l\<lparr>dl_head := e, dl_tail := e, dl_size := dl_size l + 1\<rparr>) }"

definition dl_insert_head :: "'m delem_scheme store \<Rightarrow> linked_list \<Rightarrow> addr \<Rightarrow> ('m delem_scheme store \<times> linked_list) option" where
  "dl_insert_head h l e =
     (if dl_empty l then dl_insert_first h l e
      else do { h \<leftarrow> set_prev h e 0;
                h \<leftarrow> set_next h e (dl_head l);
                h \<leftarrow> set_prev h (dl_head l) e;
                Some (h, l\<lparr>dl_head := e, dl_size := dl_size l + 1\<rparr>) })"

definition dl_insert_tail :: "'m delem_scheme store \<Rightarrow> linked_list \<Rightarrow> addr \<Rightarrow> ('m delem_scheme store \<times> linked_list) option" where
  "dl_insert_tail h l e =
     (if dl_empty l then dl_insert_first h l e
      else do { h \<leftarrow> set_next h (dl_tail l) e;
                h \<leftarrow> set_prev h e (dl_tail l);
                h \<leftarrow> set_next h e 0;
                Some (h, l\<lparr>dl_tail := e, dl_size := dl_size l + 1\<rparr>) })"

definition dl_insert :: "'m delem_scheme store \<Rightarrow> linked_list \<Rightarrow> addr \<Rightarrow> ('m delem_scheme store \<times> linked_list) option" where
  "dl_insert h l e = dl_insert_tail h l e"

definition dl_insert_between ::
  "'m delem_scheme store \<Rightarrow> linked_list \<Rightarrow> addr \<Rightarrow> addr \<Rightarrow> addr \<Rightarrow> ('m delem_scheme store \<times> linked_list) option" where
  "dl_insert_between h l e p n =
     do { h \<leftarrow> set_next h p e;
          h \<leftarrow> set_prev h n e;
          h \<leftarrow> set_prev h e p;
          h \<leftarrow> set_next h e n;
          Some (h, l\<lparr>dl_size := dl_size l + 1\<rparr>) }"

definition dl_remove_last :: "linked_list \<Rightarrow> linked_list \<times> addr" where
  "dl_remove_last l = (l\<lparr>dl_head := 0, dl_tail := 0, dl_size := dl_size l - 1\<rparr>, dl_head l)"

definition dl_remove_head :: "'m delem_scheme store \<Rightarrow> linked_list \<Rightarrow> ('m delem_scheme store \<times> linked_list \<times> addr) option" where
  "dl_remove_head h l =
     (if dl_empty l then Some (h, l, 0)
      else if dl_last l then Some (h, dl_remove_last l)
      else do { n \<leftarrow> get_next h (dl_head l);
                h \<leftarrow> set_prev h n 0;
                Some (h, l\<lparr>dl_head := n, dl_size := dl_size l - 1\<rparr>, dl_head l) })"

definition dl_remove_tail :: "'m delem_scheme store \<Rightarrow> linked_list \<Rightarrow> ('m delem_scheme store \<times> linked_list \<times> addr) option" where
  "dl_remove_tail h l =
     (if dl_empty l then Some (h, l, 0)
      else if dl_last l then Some (h, dl_remove_last l)
      else do { p \<leftarrow> get_prev h (dl_tail l);
                h \<leftarrow> set_next h p 0;
                Some (h, l\<lparr>dl_tail := p, dl_size := dl_size l - 1\<rparr>, dl_tail l) })"

definition dl_remove :: "'m delem_scheme store \<Rightarrow> linked_list \<Rightarrow> addr \<Rightarrow> ('m delem_scheme store \<times> linked_list \<times> addr) option" where
  "dl_remove h l e =
     (if dl_last l then Some (h, fst (dl_remove_last l), e)
      else do {
        p \<leftarrow> get_prev h e;
        n \<leftarrow> get_next h e;
        if p = 0 then do { (h, l, _) \<leftarrow> dl_remove_head h l; Some (h, l, e) }
        else if n = 0 then do { (h, l, _) \<leftarrow> dl_remove_tail h l; Some (h, l, e) }
        else do { h \<leftarrow> set_next h p n;
                  h \<leftarrow> set_prev h n p;
                  Some (h, l\<lparr>dl_size := dl_size l - 1\<rparr>, e) } })"

definition dl_search :: "'m delem_scheme store \<Rightarrow> linked_list \<Rightarrow> addr \<Rightarrow> addr option" where
  "dl_search h l ob = search_from h (dl_head l) ob"

definition dl_remove_object :: "'m delem_scheme store \<Rightarrow> linked_list \<Rightarrow> addr \<Rightarrow> ('m delem_scheme store \<times> linked_list \<times> addr) option" where
  "dl_remove_object h l ob =
     do { e \<leftarrow> dl_search h l ob; if e \<noteq> 0 then dl_remove h l e else Some (h, l, 0) }"

section \<open>The abstraction\<close>

definition list_rep :: "'m delem_scheme store \<Rightarrow> linked_list \<Rightarrow> addr list \<Rightarrow> bool" where
  "list_rep h l as \<longleftrightarrow>
     distinct as \<and> chain h (dl_head l) as 0 \<and> backlinks h 0 as \<and> dl_tail l = last0 as \<and>
     unat (dl_size l) = length as"

lemma list_rep_empty: "list_rep h l as \<Longrightarrow> dl_empty l \<longleftrightarrow> as = []"
  unfolding list_rep_def dl_empty_def by (metis length_0_conv unat_eq_0_iff)

lemma list_rep_new: "list_rep h dl_new []"
  by (simp add: list_rep_def dl_new_def)

lemma list_rep_nonnull: "list_rep h l as \<Longrightarrow> 0 \<notin> set as"
  by (auto simp: list_rep_def dest: chain_nonnull)

lemma list_rep_mapped: "list_rep h l as \<Longrightarrow> a \<in> set as \<Longrightarrow> \<exists>x. h a = Some x"
  by (auto simp: list_rep_def dest: chain_mapped)

lemma list_rep_unique: "list_rep h l as \<Longrightarrow> list_rep h l bs \<Longrightarrow> as = bs"
  by (auto simp: list_rep_def dest: chain_unique)

lemma dl_empty_rep: "list_rep h l as \<Longrightarrow> dl_empty l \<longleftrightarrow> as = []"
  by (auto simp: list_rep_def dl_empty_def simp flip: unat_eq_0_iff)

lemma dl_last_rep: "list_rep h l as \<Longrightarrow> dl_last l \<longleftrightarrow> length as = 1"
  by (auto simp: list_rep_def dl_last_def simp flip: unat_eq_1_iff)

lemma dl_head_rep: "list_rep h l as \<Longrightarrow> dl_head l = (if as = [] then 0 else hd as)"
  by (cases as) (auto simp: list_rep_def)

lemma list_rep_cong:
  assumes "list_rep h l as" "\<And>a. a \<in> set as \<Longrightarrow> map_option nxt (h' a) = map_option nxt (h a)"
    "\<And>a. a \<in> set as \<Longrightarrow> map_option prv (h' a) = map_option prv (h a)"
  shows "list_rep h' l as"
  using assms chain_cong [of as h' h] backlinks_cong [of as h' h] by (simp add: list_rep_def)

lemma list_rep_outside:
  "list_rep h l as \<Longrightarrow> same_outside A h h' \<Longrightarrow> set as \<inter> A = {} \<Longrightarrow> list_rep h' l as"
  by (erule list_rep_cong) (auto simp: same_outside_def disjoint_iff)

lemma list_rep_size_inc:
  assumes "list_rep h l as" "e \<noteq> 0" "e \<notin> set as"
  shows "unat (dl_size l + 1) = length as + 1"
proof -
  have "length (e # as) < 2 ^ 64"
    using assms by (intro distinct_addr_bound) (auto simp: list_rep_def dest: chain_nonnull)
  then show ?thesis using assms(1) by (subst unat_inc) (auto simp: list_rep_def)
qed

lemma list_rep_size_dec: "list_rep h l as \<Longrightarrow> as \<noteq> [] \<Longrightarrow> unat (dl_size l - 1) = length as - 1"
  by (subst unat_dec) (auto simp: list_rep_def)

text \<open>The neighbours an element of the list points to.\<close>

lemma list_rep_links:
  assumes "list_rep h l (xs @ e # ys)"
  shows "\<exists>x. h e = Some x \<and> e \<noteq> 0 \<and> prv x = last0 xs \<and> nxt x = (if ys = [] then 0 else hd ys)"
  using assms by (cases ys) (auto simp: list_rep_def chain_append backlinks_append last0_def)

section \<open>Insertions\<close>

lemma dl_insert_first_rep:
  assumes rep: "list_rep h l []" and e: "e \<noteq> 0" "h e = Some x"
  shows "\<exists>h' l'. dl_insert_first h l e = Some (h', l') \<and> list_rep h' l' [e] \<and>
           dsame_data h h' \<and> same_outside {e} h h'"
  using assms list_rep_size_inc [OF rep, of e]
  by (simp add: dl_insert_first_def store_simps list_rep_def same_outside_def dsame_data_def)

lemma dl_insert_head_rep:
  assumes rep: "list_rep h l as" and e: "e \<noteq> 0" "h e = Some x" "e \<notin> set as"
  shows "\<exists>h' l'. dl_insert_head h l e = Some (h', l') \<and> list_rep h' l' (e # as) \<and>
           dsame_data h h' \<and> same_outside (insert e (set as)) h h'"
proof (cases as)
  case Nil
  then show ?thesis
    using dl_insert_first_rep [of h l e x] rep e dl_empty_rep [OF rep]
    by (simp add: dl_insert_head_def)
next
  case (Cons a bs)
  then obtain y where y: "h a = Some y" "a \<noteq> 0" "dl_head l = a" "a \<notin> set bs" "a \<noteq> e"
    using rep e by (auto simp: list_rep_def)
  let ?h = "h(e \<mapsto> x\<lparr>prv := 0, nxt := a\<rparr>, a \<mapsto> y\<lparr>prv := e\<rparr>)"
  let ?l = "l\<lparr>dl_head := e, dl_size := dl_size l + 1\<rparr>"
  have op: "dl_insert_head h l e = Some (?h, ?l)"
    using Cons y e dl_empty_rep [OF rep] by (simp add: dl_insert_head_def store_simps)
  have "chain ?h e (e # as) 0" "backlinks ?h 0 (e # as)"
    using rep Cons y e by (auto simp: list_rep_def frame_simps)
  then have "list_rep ?h ?l (e # as)"
    using rep Cons e list_rep_size_inc [OF rep e(1,3)] by (simp add: list_rep_def)
  then show ?thesis using op Cons e y by (auto simp: same_outside_def dsame_data_def)
qed

lemma dl_insert_tail_rep:
  assumes rep: "list_rep h l as" and e: "e \<noteq> 0" "h e = Some x" "e \<notin> set as"
  shows "\<exists>h' l'. dl_insert_tail h l e = Some (h', l') \<and> list_rep h' l' (as @ [e]) \<and>
           dsame_data h h' \<and> same_outside (insert e (set as)) h h'"
proof (cases as rule: rev_cases)
  case Nil
  then show ?thesis
    using dl_insert_first_rep [of h l e x] rep e dl_empty_rep [OF rep]
    by (simp add: dl_insert_tail_def)
next
  case (snoc bs t)
  then obtain y where y: "h t = Some y" "t \<noteq> 0" "dl_tail l = t" "nxt y = 0"
    using rep by (auto simp: list_rep_def dest: chain_snocD)
  have d: "t \<notin> set bs" "t \<noteq> e" "e \<notin> set bs" using rep snoc e by (auto simp: list_rep_def)
  let ?h = "h(t \<mapsto> y\<lparr>nxt := e\<rparr>, e \<mapsto> x\<lparr>prv := t, nxt := 0\<rparr>)"
  let ?l = "l\<lparr>dl_tail := e, dl_size := dl_size l + 1\<rparr>"
  have op: "dl_insert_tail h l e = Some (?h, ?l)"
    using snoc y d e dl_empty_rep [OF rep] by (simp add: dl_insert_tail_def store_simps)
  have "chain ?h (dl_head l) (as @ [e]) 0" "backlinks ?h 0 (as @ [e])"
    using rep snoc y d e by (auto simp: list_rep_def chain_append backlinks_append frame_simps split: if_splits)
  then have "list_rep ?h ?l (as @ [e])"
    using rep snoc e list_rep_size_inc [OF rep e(1,3)] by (auto simp: list_rep_def)
  then show ?thesis using op snoc e y d by (auto simp: same_outside_def dsame_data_def)
qed

lemma dl_insert_between_rep:
  assumes rep: "list_rep h l (xs @ p # n # ys)" and e: "e \<noteq> 0" "h e = Some x" "e \<notin> set (xs @ p # n # ys)"
  shows "\<exists>h' l'. dl_insert_between h l e p n = Some (h', l') \<and> list_rep h' l' (xs @ p # e # n # ys) \<and>
           dsame_data h h' \<and> same_outside {e, p, n} h h'"
proof -
  from rep obtain y z where y: "h p = Some y" "p \<noteq> 0" "nxt y = n" and z: "h n = Some z" "n \<noteq> 0"
    by (auto simp: list_rep_def chain_append)
  have d: "e \<noteq> p" "p \<notin> set xs" "p \<noteq> n" "p \<notin> set ys" "e \<noteq> n" "e \<notin> set xs" "e \<notin> set ys" "n \<notin> set xs" "n \<notin> set ys"
    using rep e by (auto simp: list_rep_def)
  let ?h = "h(p \<mapsto> y\<lparr>nxt := e\<rparr>, n \<mapsto> z\<lparr>prv := e\<rparr>, e \<mapsto> x\<lparr>prv := p, nxt := n\<rparr>)"
  have op: "dl_insert_between h l e p n = Some (?h, l\<lparr>dl_size := dl_size l + 1\<rparr>)"
    using y z e d by (simp add: dl_insert_between_def store_simps)
  have "chain ?h (dl_head l) (xs @ p # e # n # ys) 0" "backlinks ?h 0 (xs @ p # e # n # ys)"
    using rep y z d e by (auto simp: list_rep_def chain_append backlinks_append frame_simps split: if_splits)
  then have "list_rep ?h (l\<lparr>dl_size := dl_size l + 1\<rparr>) (xs @ p # e # n # ys)"
    using rep e d list_rep_size_inc [OF rep e(1,3)] by (auto simp: list_rep_def last0_Cons)
  then show ?thesis using op y z e d by (auto simp: same_outside_def dsame_data_def)
qed

section \<open>Removals\<close>

lemma dl_remove_last_rep:
  "list_rep h l [a] \<Longrightarrow> snd (dl_remove_last l) = a \<and> list_rep h (fst (dl_remove_last l)) []"
  using list_rep_size_dec [of h l "[a]"] by (auto simp: list_rep_def dl_remove_last_def)

lemma dl_remove_head_empty: "list_rep h l [] \<Longrightarrow> dl_remove_head h l = Some (h, l, 0)"
  by (simp add: dl_remove_head_def dl_empty_rep)

lemma dl_remove_head_rep:
  assumes rep: "list_rep h l (a # as)"
  shows "\<exists>h' l'. dl_remove_head h l = Some (h', l', a) \<and> list_rep h' l' as \<and>
           dsame_data h h' \<and> same_outside (set as) h h'"
proof (cases as)
  case Nil
  then show ?thesis
    using rep dl_remove_last_rep [of h l a] dl_empty_rep [OF rep] dl_last_rep [OF rep]
    by (auto simp: dl_remove_head_def prod_eq_iff)
next
  case (Cons b bs)
  then obtain x y where x: "h a = Some x" "a \<noteq> 0" "nxt x = b" "dl_head l = a" and y: "h b = Some y" "b \<noteq> 0"
    using rep by (auto simp: list_rep_def)
  have d: "b \<notin> set bs" "b \<noteq> a" using rep Cons by (auto simp: list_rep_def)
  let ?h = "h(b \<mapsto> y\<lparr>prv := 0\<rparr>)" and ?l = "l\<lparr>dl_head := b, dl_size := dl_size l - 1\<rparr>"
  have op: "dl_remove_head h l = Some (?h, ?l, a)"
    using Cons x y dl_empty_rep [OF rep] dl_last_rep [OF rep] by (simp add: dl_remove_head_def store_simps)
  have "chain ?h b as 0" "backlinks ?h 0 as"
    using rep Cons x y d by (auto simp: list_rep_def frame_simps)
  then have "list_rep ?h ?l as"
    using rep Cons list_rep_size_dec [OF rep] by (simp add: list_rep_def)
  then show ?thesis using op Cons y by (auto simp: same_outside_def)
qed

lemma dl_remove_tail_rep:
  assumes rep: "list_rep h l (as @ [a])"
  shows "\<exists>h' l'. dl_remove_tail h l = Some (h', l', a) \<and> list_rep h' l' as \<and>
           dsame_data h h' \<and> same_outside (set as) h h'"
proof (cases as rule: rev_cases)
  case Nil
  then show ?thesis
    using rep dl_remove_last_rep [of h l a] dl_empty_rep [OF rep] dl_last_rep [OF rep]
    by (auto simp: dl_remove_tail_def prod_eq_iff)
next
  case (snoc bs b)
  then obtain x y where x: "h a = Some x" "a \<noteq> 0" "prv x = b" "dl_tail l = a" and y: "h b = Some y" "b \<noteq> 0"
    using rep by (auto simp: list_rep_def chain_append backlinks_append split: if_splits)
  have d: "b \<notin> set bs" "b \<noteq> a" using rep snoc by (auto simp: list_rep_def)
  let ?h = "h(b \<mapsto> y\<lparr>nxt := 0\<rparr>)" and ?l = "l\<lparr>dl_tail := b, dl_size := dl_size l - 1\<rparr>"
  have op: "dl_remove_tail h l = Some (?h, ?l, a)"
    using snoc x y dl_empty_rep [OF rep] dl_last_rep [OF rep] by (simp add: dl_remove_tail_def store_simps)
  have "chain ?h (dl_head l) as 0" "backlinks ?h 0 as"
    using rep snoc x y d
    by (auto simp: list_rep_def frame_simps chain_append backlinks_append split: if_splits)
  then have "list_rep ?h ?l as"
    using rep snoc list_rep_size_dec [OF rep] by (simp add: list_rep_def)
  then show ?thesis using op snoc y by (auto simp: same_outside_def)
qed

lemma dl_remove_middle_rep:
  assumes rep: "list_rep h l (xs @ p # e # n # ys)"
  shows "\<exists>h' l'. dl_remove h l e = Some (h', l', e) \<and> list_rep h' l' (xs @ p # n # ys) \<and>
           dsame_data h h' \<and> same_outside {p, n} h h'"
proof -
  from rep obtain x y z where x: "h e = Some x" "e \<noteq> 0" "nxt x = n" "prv x = p"
    and y: "h p = Some y" "p \<noteq> 0" and z: "h n = Some z" "n \<noteq> 0"
    by (auto simp: list_rep_def chain_append backlinks_append)
  have d: "p \<notin> set xs" "p \<noteq> n" "p \<notin> set ys" "e \<noteq> n" "e \<noteq> p" "e \<notin> set xs" "e \<notin> set ys" "n \<notin> set xs" "n \<notin> set ys"
    using rep by (auto simp: list_rep_def)
  let ?h = "h(p \<mapsto> y\<lparr>nxt := n\<rparr>, n \<mapsto> z\<lparr>prv := p\<rparr>)"
  have op: "dl_remove h l e = Some (?h, l\<lparr>dl_size := dl_size l - 1\<rparr>, e)"
    using x y z d dl_last_rep [OF rep] by (simp add: dl_remove_def store_simps)
  have "chain ?h (dl_head l) (xs @ p # n # ys) 0" "backlinks ?h 0 (xs @ p # n # ys)"
    using rep x y z d by (auto simp: list_rep_def chain_append backlinks_append frame_simps split: if_splits)
  then have "list_rep ?h (l\<lparr>dl_size := dl_size l - 1\<rparr>) (xs @ p # n # ys)"
    using rep d list_rep_size_dec [OF rep] by (auto simp: list_rep_def last0_Cons)
  then show ?thesis using op y z d by (auto simp: same_outside_def dsame_data_def)
qed

lemma dl_remove_rep:
  assumes rep: "list_rep h l (xs @ e # ys)"
  shows "\<exists>h' l'. dl_remove h l e = Some (h', l', e) \<and> list_rep h' l' (xs @ ys) \<and>
           dsame_data h h' \<and> same_outside (set (xs @ ys)) h h'"
proof -
  obtain x where x: "h e = Some x" "e \<noteq> 0" "prv x = last0 xs" "nxt x = (if ys = [] then 0 else hd ys)"
    using list_rep_links [OF rep] by auto
  have nn: "0 \<notin> set (xs @ e # ys)" using list_rep_nonnull [OF rep] .
  consider (single) "xs = []" "ys = []" | (front) "xs = []" "ys \<noteq> []" | (rear) "xs \<noteq> []" "ys = []"
    | (mid) ps p n ns where "xs = ps @ [p]" "ys = n # ns"
    by (cases xs rule: rev_cases; cases ys) auto
  then show ?thesis
  proof cases
    case single
    then show ?thesis
      using rep dl_last_rep [OF rep] dl_remove_last_rep [of h l e] by (auto simp: dl_remove_def)
  next
    case front
    then show ?thesis
      using rep x dl_last_rep [OF rep] dl_remove_head_rep [of h l e ys]
      by (auto simp: dl_remove_def store_simps)
  next
    case rear
    then have "last0 xs \<noteq> 0" using nn last0_in [of xs] by auto
    with rear show ?thesis
      using rep x dl_last_rep [OF rep] dl_remove_tail_rep [of h l xs e]
      by (auto simp: dl_remove_def store_simps)
  next
    case (mid ps p n ns)
    then show ?thesis using dl_remove_middle_rep [of h l ps p e n ns] rep by (auto simp: same_outside_def)
  qed
qed

lemma dl_search_rep: "list_rep h l as \<Longrightarrow> dl_search h l ob = Some (find_obj h as ob)"
  by (simp add: dl_search_def list_rep_def search_from_chain)

section \<open>A first-in first-out queue\<close>

definition dl_usable :: "'m delem_scheme store \<Rightarrow> addr \<Rightarrow> bool" where
  "dl_usable h a \<longleftrightarrow> a \<noteq> 0 \<and> h a \<noteq> None"

lemma dl_usable_data: "dsame_data h h' \<Longrightarrow> dl_usable h' a = dl_usable h a"
  by (simp add: dl_usable_def dsame_data_None)

interpretation dl: fifo_queue list_rep dl_usable dl_insert dl_remove_head
proof unfold_locales
  fix h :: "'m delem_scheme store" and q as e
  assume rep: "list_rep h q as" and u: "dl_usable h e" "e \<notin> set as"
  then obtain x where "e \<noteq> 0" "h e = Some x" by (auto simp: dl_usable_def)
  then show "\<exists>h' q'. dl_insert h q e = Some (h', q') \<and> list_rep h' q' (as @ [e]) \<and> (\<forall>a. dl_usable h' a = dl_usable h a)"
    using dl_insert_tail_rep [OF rep _ _ u(2)] dl_usable_data unfolding dl_insert_def by blast
next
  fix h :: "'m delem_scheme store" and q a as
  assume "list_rep h q (a # as)"
  then show "\<exists>h' q'. dl_remove_head h q = Some (h', q', a) \<and> list_rep h' q' as \<and> (\<forall>a. dl_usable h' a = dl_usable h a)"
    using dl_remove_head_rep dl_usable_data by blast
qed (simp add: dl_remove_head_empty)

end
