(* ===== verification/Ordered_List.thy ===== *)
theory Ordered_List
  imports Linked_List Rank_Lists
begin

text \<open>
  \<open>Ordered_List\<close> and \<open>Relative_List\<close> of \<open>include/utility/list.h\<close> (doubly linked); the template flag
  \<open>relative\<close> is the argument \<open>rel\<close>. As for the singly-linked version, an operation is shown to be
  \<open>rank_split\<close>/\<open>rank_insert\<close>/\<open>rank_remove\<close> on the sequence of the elements and their ranks.
\<close>

section \<open>The class\<close>

partial_function (option) ol_walk ::
  "bool \<Rightarrow> 'm delem_ordered_scheme store \<Rightarrow> addr \<Rightarrow> addr \<Rightarrow> ('m delem_ordered_scheme store \<times> addr) option" where
  "ol_walk rel h e next =
     do { n \<leftarrow> load h next;
          x \<leftarrow> load h e;
          if rank n \<le> rank x \<and> nxt n \<noteq> 0
          then do { h \<leftarrow> (if rel then modify h e (\<lambda>y. y\<lparr>rank := rank y - rank n\<rparr>) else Some h);
                    ol_walk rel h e (nxt n) }
          else Some (h, next) }"

definition ol_insert ::
  "bool \<Rightarrow> 'm delem_ordered_scheme store \<Rightarrow> linked_list \<Rightarrow> addr \<Rightarrow> ('m delem_ordered_scheme store \<times> linked_list) option" where
  "ol_insert rel h l e =
     (if dl_empty l then dl_insert_first h l e
      else do {
        (h, next) \<leftarrow> ol_walk rel h e (dl_head l);
        n \<leftarrow> load h next;
        x \<leftarrow> load h e;
        if rank n \<le> rank x then do {
          h \<leftarrow> (if rel then modify h e (\<lambda>y. y\<lparr>rank := rank y - rank n\<rparr>) else Some h);
          dl_insert_tail h l e }
        else if prv n = 0 then do {
          h \<leftarrow> (if rel then modify h next (\<lambda>y. y\<lparr>rank := rank y - rank x\<rparr>) else Some h);
          dl_insert_head h l e }
        else do {
          h \<leftarrow> (if rel then modify h next (\<lambda>y. y\<lparr>rank := rank y - rank x\<rparr>) else Some h);
          dl_insert_between h l e (prv n) next } })"

text \<open>\<open>if(relative && e->next()) e->next()->rank(e->next()->rank() + e->rank())\<close>\<close>

definition ol_inherit :: "bool \<Rightarrow> 'm delem_ordered_scheme store \<Rightarrow> addr \<Rightarrow> 'm delem_ordered_scheme store option" where
  "ol_inherit rel h e =
     (if rel then do {
        x \<leftarrow> load h e;
        if nxt x \<noteq> 0 then modify h (nxt x) (\<lambda>y. y\<lparr>rank := rank y + rank x\<rparr>) else Some h }
      else Some h)"

definition ol_remove_front ::
  "bool \<Rightarrow> 'm delem_ordered_scheme store \<Rightarrow> linked_list \<Rightarrow> ('m delem_ordered_scheme store \<times> linked_list \<times> addr) option" where
  "ol_remove_front rel h l =
     do { (h, l, e) \<leftarrow> dl_remove_head h l;
          h \<leftarrow> (if e \<noteq> 0 then ol_inherit rel h e else Some h);
          Some (h, l, e) }"

definition ol_remove ::
  "bool \<Rightarrow> 'm delem_ordered_scheme store \<Rightarrow> linked_list \<Rightarrow> addr \<Rightarrow> ('m delem_ordered_scheme store \<times> linked_list \<times> addr) option" where
  "ol_remove rel h l e =
     do { (h, l, _) \<leftarrow> dl_remove h l e;
          h \<leftarrow> ol_inherit rel h e;
          Some (h, l, e) }"

definition ol_remove_object ::
  "bool \<Rightarrow> 'm delem_ordered_scheme store \<Rightarrow> linked_list \<Rightarrow> addr \<Rightarrow> ('m delem_ordered_scheme store \<times> linked_list \<times> addr) option" where
  "ol_remove_object rel h l ob =
     do { e \<leftarrow> dl_search h l ob; if e \<noteq> 0 then ol_remove rel h l e else Some (h, l, 0) }"

partial_function (option) ol_search_rank_from :: "'m delem_ordered_scheme store \<Rightarrow> addr \<Rightarrow> int \<Rightarrow> addr option" where
  "ol_search_rank_from h e r =
     (if e = 0 then Some 0
      else do { x \<leftarrow> load h e; if rank x \<noteq> r then ol_search_rank_from h (nxt x) r else Some e })"

definition ol_search_rank :: "'m delem_ordered_scheme store \<Rightarrow> linked_list \<Rightarrow> int \<Rightarrow> addr option" where
  "ol_search_rank h l r = ol_search_rank_from h (dl_head l) r"

definition ol_remove_rank ::
  "bool \<Rightarrow> 'm delem_ordered_scheme store \<Rightarrow> linked_list \<Rightarrow> int \<Rightarrow> ('m delem_ordered_scheme store \<times> linked_list \<times> addr) option" where
  "ol_remove_rank rel h l r =
     do { e \<leftarrow> ol_search_rank h l r; if e \<noteq> 0 then ol_remove rel h l e else Some (h, l, 0) }"

section \<open>Ranks of the elements\<close>

definition rank_of :: "'m delem_ordered_scheme store \<Rightarrow> addr \<Rightarrow> int" where
  "rank_of h a = (case h a of Some x \<Rightarrow> rank x | None \<Rightarrow> 0)"

lemma rank_of_Some [simp]: "h a = Some x \<Longrightarrow> rank_of h a = rank x"
  by (simp add: rank_of_def)

lemma rank_of_upd [simp]: "rank_of (h(a \<mapsto> x)) b = (if b = a then rank x else rank_of h b)"
  by (simp add: rank_of_def)

lemma rank_of_dsame_data: "dsame_data h h' \<Longrightarrow> rank_of h' = rank_of h"
proof
  fix a
  assume sd: "dsame_data h h'"
  show "rank_of h' a = rank_of h a"
  proof (cases "h a")
    case None
    then show ?thesis using dsame_data_None [OF sd, of a] by (simp add: rank_of_def)
  next
    case (Some x)
    then show ?thesis using dsame_dataD [OF sd Some] by (auto simp: rank_of_def)
  qed
qed

text \<open>The stores hold the same elements up to links and ranks.\<close>

definition same_but_rank :: "'m delem_ordered_scheme store \<Rightarrow> 'm delem_ordered_scheme store \<Rightarrow> bool" where
  "same_but_rank h h' \<longleftrightarrow>
     (\<forall>a. map_option (\<lambda>x. x\<lparr>nxt := 0, prv := 0, rank := 0\<rparr>) (h' a) =
          map_option (\<lambda>x. x\<lparr>nxt := 0, prv := 0, rank := 0\<rparr>) (h a))"

lemma same_but_rank_refl [simp]: "same_but_rank h h"
  by (simp add: same_but_rank_def)

lemma same_but_rank_trans: "same_but_rank h h' \<Longrightarrow> same_but_rank h' h'' \<Longrightarrow> same_but_rank h h''"
  by (simp add: same_but_rank_def)

lemma same_but_rank_upd [simp]: "h a = Some x \<Longrightarrow> same_but_rank h (h(a \<mapsto> x\<lparr>rank := r\<rparr>))"
  by (simp add: same_but_rank_def)

lemma same_but_rankD:
  assumes "same_but_rank h h'" "h a = Some x"
  shows "\<exists>n p. h' a = Some (x\<lparr>nxt := n, prv := p, rank := rank_of h' a\<rparr>)"
proof -
  have "map_option (\<lambda>x. x\<lparr>nxt := 0, prv := 0, rank := 0\<rparr>) (h' a) = Some (x\<lparr>nxt := 0, prv := 0, rank := 0\<rparr>)"
    using assms by (simp add: same_but_rank_def)
  then obtain y where y: "h' a = Some y" "y\<lparr>nxt := 0, prv := 0, rank := 0\<rparr> = x\<lparr>nxt := 0, prv := 0, rank := 0\<rparr>" by auto
  then have "y = x\<lparr>nxt := nxt y, prv := prv y, rank := rank y\<rparr>" by (cases x; cases y) simp
  with y(1) show ?thesis by (intro exI [of _ "nxt y"] exI [of _ "prv y"]) simp
qed

lemma same_but_rank_None: "same_but_rank h h' \<Longrightarrow> h' a = None \<longleftrightarrow> h a = None"
  unfolding same_but_rank_def by (drule spec [of _ a]) (cases "h a"; cases "h' a"; simp)

lemma dsame_same_but_rank: "dsame_data h h' \<Longrightarrow> same_but_rank h h'"
  unfolding same_but_rank_def
proof
  fix a
  assume sd: "dsame_data h h'"
  show "map_option (\<lambda>x. x\<lparr>nxt := 0, prv := 0, rank := 0\<rparr>) (h' a) =
        map_option (\<lambda>x. x\<lparr>nxt := 0, prv := 0, rank := 0\<rparr>) (h a)"
  proof (cases "h a")
    case None
    then show ?thesis using dsame_data_None [OF sd] by simp
  next
    case (Some x)
    then show ?thesis using dsame_dataD [OF sd Some] by auto
  qed
qed

lemma same_but_rank_dsame: "same_but_rank h h' \<Longrightarrow> rank_of h' = rank_of h \<Longrightarrow> dsame_data h h'"
  unfolding dsame_data_def
proof
  fix a
  assume sd: "same_but_rank h h'" "rank_of h' = rank_of h"
  show "map_option (\<lambda>x. x\<lparr>nxt := 0, prv := 0\<rparr>) (h' a) = map_option (\<lambda>x. x\<lparr>nxt := 0, prv := 0\<rparr>) (h a)"
  proof (cases "h a")
    case None
    then show ?thesis using same_but_rank_None [OF sd(1)] by simp
  next
    case (Some x)
    then show ?thesis using same_but_rankD [OF sd(1) Some] sd(2) by auto
  qed
qed

section \<open>Insertion\<close>

lemma ol_walk_chain:
  assumes "chain h p (us @ v # ws) 0" "e \<notin> set (us @ v # ws)" "e \<noteq> 0" "h e = Some x"
    and "\<And>a. a \<in> set (us @ v # ws) \<Longrightarrow> rank_of h a = r a"
    and "rank_passes rel r (rank x) us"
    and "ws \<noteq> [] \<Longrightarrow> rank_left rel r (rank x) us < r v"
  shows "ol_walk rel h e p = Some (h(e \<mapsto> x\<lparr>rank := rank_left rel r (rank x) us\<rparr>), v)"
  using assms
proof (induction us arbitrary: h p x)
  case Nil
  then obtain n where n: "h v = Some n" "v \<noteq> 0" "p = v" by auto
  then have "rank n = r v" using Nil(5) [of v] by simp
  moreover have "nxt n = 0 \<or> \<not> rank n \<le> rank x" using Nil n calculation by (cases ws) auto
  moreover have "h(e \<mapsto> x) = h" using Nil by (simp add: fun_upd_idem)
  ultimately show ?case using n Nil by (auto simp: ol_walk.simps [of rel h e v] store_simps)
next
  case (Cons u us)
  then obtain n where n: "h u = Some n" "u \<noteq> 0" "p = u" "chain h (nxt n) (us @ v # ws) 0"
    by auto
  then have un: "rank n = r u" using Cons.prems(5) [of u] by simp
  define x' where "x' = (if rel then x\<lparr>rank := rank x - rank n\<rparr> else x)"
  have x': "rank x' = (if rel then rank x - r u else rank x)" "\<And>c. x'\<lparr>rank := c\<rparr> = x\<lparr>rank := c\<rparr>"
    using un by (simp_all add: x'_def)
  have nz: "nxt n \<noteq> 0" using n(4) by (cases us) auto
  have "ol_walk rel h e p = ol_walk rel (h(e \<mapsto> x')) e (nxt n)"
    using n un nz Cons.prems(3,4,6)
    by (auto simp: ol_walk.simps [of rel h e u] store_simps fun_upd_idem x'_def)
  also have "\<dots> = Some (h(e \<mapsto> x', e \<mapsto> x'\<lparr>rank := rank_left rel r (rank x') us\<rparr>), v)"
  proof (rule Cons.IH)
    show "chain (h(e \<mapsto> x')) (nxt n) (us @ v # ws) 0"
      using n(4) Cons.prems(2) chain_frame [of e "us @ v # ws" h] by simp
    show "rank_of (h(e \<mapsto> x')) a = r a" if "a \<in> set (us @ v # ws)" for a
      using that Cons.prems(2,5) by auto
  qed (use Cons.prems un x' in auto)
  finally show ?case using un x' by auto
qed

text \<open>What an insertion of \<open>e\<close> between \<open>us\<close> and \<open>vs\<close> achieves.\<close>

definition ol_inserted where
  "ol_inserted rel h r R e us vs res \<longleftrightarrow>
     (\<exists>h' l'. res = Some (h', l') \<and> list_rep h' l' (us @ e # vs) \<and>
        rank_of h' = rank_insert rel r R e us vs \<and> same_but_rank h h' \<and>
        same_outside (insert e (set (us @ vs))) h h')"

lemma ol_insertedI:
  assumes "res = Some (h', l')" "list_rep h' l' (us @ e # vs)" "dsame_data hb h'"
    and "same_outside (insert e (set (us @ vs))) hb h'"
    and "rank_of hb = rank_insert rel r R e us vs" "same_but_rank h hb"
    and "same_outside (insert e (set (us @ vs))) h hb"
  shows "ol_inserted rel h r R e us vs res"
  unfolding ol_inserted_def
proof (intro exI conjI)
  show "rank_of h' = rank_insert rel r R e us vs" using assms rank_of_dsame_data by metis
  show "same_but_rank h h'" using same_but_rank_trans [OF assms(6) dsame_same_but_rank [OF assms(3)]] .
  show "same_outside (insert e (set (us @ vs))) h h'" by (rule same_outside_trans [OF assms(7) assms(4)]) simp
qed (use assms in simp_all)

lemma ol_insert_tail_case:
  assumes rep: "list_rep h l (us @ [v])" and e: "e \<noteq> 0" "h e = Some x" "e \<notin> set (us @ [v])"
    and split: "rank_split rel (rank_of h) (rank x) (us @ [v]) = (us @ [v], [])"
  shows "ol_inserted rel h (rank_of h) (rank x) e (us @ [v]) [] (ol_insert rel h l e)"
proof -
  let ?r = "rank_of h" and ?R = "rank x"
  let ?lft = "rank_left rel ?r ?R"
  let ?ha = "h(e \<mapsto> x\<lparr>rank := ?lft us\<rparr>)" and ?hb = "h(e \<mapsto> x\<lparr>rank := ?lft (us @ [v])\<rparr>)"
  obtain n where n: "h v = Some n" "v \<noteq> 0"
    using list_rep_mapped [OF rep, of v] list_rep_nonnull [OF rep] by auto
  have ne: "e \<noteq> v" using e by auto
  have walk: "ol_walk rel h e (dl_head l) = Some (?ha, v)"
    using rep e rank_split_passes [OF split]
    by (intro ol_walk_chain [where ws = "[]"]) (auto simp: rank_passes_append list_rep_def)
  have le: "rank n \<le> ?lft us" using rank_split_pass [OF split] n(1) by simp
  have R1: "?lft (us @ [v]) = (if rel then ?lft us - rank n else ?lft us)"
    using n by (simp add: rank_left_append)
  have rep1: "list_rep ?hb l (us @ [v])" using e by (intro list_rep_cong [OF rep]) auto
  have step: "ol_insert rel h l e = dl_insert_tail ?hb l e"
    using walk n ne e le R1 dl_empty_rep [OF rep] by (auto simp: ol_insert_def store_simps)
  obtain h' l' where t: "dl_insert_tail ?hb l e = Some (h', l')" "list_rep h' l' ((us @ [v]) @ [e])"
    "dsame_data ?hb h'" "same_outside (insert e (set (us @ [v]))) ?hb h'"
    using dl_insert_tail_rep [OF rep1, of e "x\<lparr>rank := ?lft (us @ [v])\<rparr>"] e by auto
  show ?thesis unfolding step
    by (rule ol_insertedI [OF t(1) _ t(3)])
       (use t e in \<open>auto simp: rank_insert_def fun_eq_iff same_outside_def\<close>)
qed

lemma ol_insert_front_case:
  assumes rep: "list_rep h l (v # ws)" and e: "e \<noteq> 0" "h e = Some x" "e \<notin> set (v # ws)"
    and split: "rank_split rel (rank_of h) (rank x) (v # ws) = ([], v # ws)"
  shows "ol_inserted rel h (rank_of h) (rank x) e [] (v # ws) (ol_insert rel h l e)"
proof -
  let ?r = "rank_of h" and ?R = "rank x"
  obtain n where n: "h v = Some n" "v \<noteq> 0" "prv n = 0" using rep by (auto simp: list_rep_def)
  define hb where "hb = (if rel then h(v \<mapsto> n\<lparr>rank := rank n - ?R\<rparr>) else h)"
  have ne: "e \<noteq> v" using e by auto
  then have hb: "hb e = Some x" using e by (simp add: hb_def)
  have gt: "?R < rank n" using rank_split_stop [OF split] n by simp
  have walk: "ol_walk rel h e (dl_head l) = Some (h, v)"
    using ol_walk_chain [of h "dl_head l" "[]" v ws e x ?r rel] rep e gt n
    by (auto simp: fun_upd_idem list_rep_def)
  have rep1: "list_rep hb l (v # ws)" using n by (intro list_rep_cong [OF rep]) (auto simp: hb_def)
  have step: "ol_insert rel h l e = dl_insert_head hb l e"
    using walk n ne e gt dl_empty_rep [OF rep] by (auto simp: ol_insert_def store_simps hb_def)
  obtain h' l' where t: "dl_insert_head hb l e = Some (h', l')" "list_rep h' l' (e # v # ws)"
    "dsame_data hb h'" "same_outside (insert e (set (v # ws))) hb h'"
    using dl_insert_head_rep [OF rep1 e(1) hb e(3)] by auto
  show ?thesis unfolding step
    by (rule ol_insertedI [OF t(1) _ t(3)])
       (use t e n ne in \<open>auto simp: rank_insert_def fun_eq_iff same_outside_def hb_def\<close>)
qed

lemma ol_insert_mid_case:
  assumes rep: "list_rep h l (us @ p # v # ws)" and e: "e \<noteq> 0" "h e = Some x" "e \<notin> set (us @ p # v # ws)"
    and split: "rank_split rel (rank_of h) (rank x) (us @ p # v # ws) = (us @ [p], v # ws)"
  shows "ol_inserted rel h (rank_of h) (rank x) e (us @ [p]) (v # ws) (ol_insert rel h l e)"
proof -
  let ?r = "rank_of h" and ?R = "rank x"
  let ?lft = "rank_left rel ?r ?R (us @ [p])"
  let ?xb = "x\<lparr>rank := ?lft\<rparr>"
  let ?ha = "h(e \<mapsto> ?xb)"
  obtain n where n: "h v = Some n" "v \<noteq> 0" "prv n = p"
    using list_rep_links [of h l "us @ [p]" v ws] rep by auto
  define hb where "hb = (if rel then ?ha(v \<mapsto> n\<lparr>rank := rank n - ?lft\<rparr>) else ?ha)"
  have ne: "e \<noteq> v" "p \<noteq> 0" using e list_rep_nonnull [OF rep] by auto
  then have hb: "hb e = Some ?xb" by (simp add: hb_def)
  have gt: "?lft < rank n" using rank_split_stop [OF split] n by simp
  have walk: "ol_walk rel h e (dl_head l) = Some (?ha, v)"
    using ol_walk_chain [of h "dl_head l" "us @ [p]" v ws e x ?r rel] rep e rank_split_passes [OF split] gt n
    by (auto simp: list_rep_def)
  have rep1: "list_rep hb l (us @ p # v # ws)" using n e ne by (intro list_rep_cong [OF rep]) (auto simp: hb_def)
  have step: "ol_insert rel h l e = dl_insert_between hb l e p v"
    using walk n ne e gt dl_empty_rep [OF rep] by (auto simp: ol_insert_def store_simps hb_def)
  obtain h' l' where t: "dl_insert_between hb l e p v = Some (h', l')" "list_rep h' l' (us @ p # e # v # ws)"
    "dsame_data hb h'" "same_outside {e, p, v} hb h'"
    using dl_insert_between_rep [OF rep1 e(1) hb e(3)] by auto
  have "same_outside (insert e (set ((us @ [p]) @ v # ws))) hb h'" using t(4) by (auto simp: same_outside_def)
  moreover have "distinct (us @ p # v # ws)" using rep by (simp add: list_rep_def)
  ultimately show ?thesis unfolding step
    by (intro ol_insertedI [OF t(1) _ t(3)])
       (use t e n ne in \<open>auto simp: rank_insert_def fun_eq_iff same_outside_def hb_def same_but_rank_def\<close>)
qed

lemma ol_insert_rep:
  assumes rep: "list_rep h l as" and e: "e \<noteq> 0" "h e = Some x" "e \<notin> set as"
    and split: "rank_split rel (rank_of h) (rank x) as = (us, vs)"
  shows "\<exists>h' l'. ol_insert rel h l e = Some (h', l') \<and> list_rep h' l' (us @ e # vs) \<and>
           rank_of h' = rank_insert rel (rank_of h) (rank x) e us vs \<and>
           same_but_rank h h' \<and> same_outside (insert e (set as)) h h'"
proof -
  have as: "as = us @ vs" using rank_split_append [OF split] .
  have "ol_inserted rel h (rank_of h) (rank x) e us vs (ol_insert rel h l e)"
  proof (cases vs)
    case (Cons v ws)
    then show ?thesis
      using ol_insert_front_case [of h l v ws e x rel] ol_insert_mid_case [of h l _ _ v ws e x rel] rep e split as
      by (cases us rule: rev_cases) auto
  next
    case Nil
    show ?thesis
    proof (cases us rule: rev_cases)
      case (snoc us' v)
      then show ?thesis using ol_insert_tail_case [of h l us' v e x rel] rep e split as Nil by simp
    next
      case u: Nil
      obtain h' l' where t: "dl_insert_first h l e = Some (h', l')" "list_rep h' l' [e]" "dsame_data h h'"
        "same_outside {e} h h'"
        using dl_insert_first_rep [of h l e x] rep e as Nil u by auto
      have op: "ol_insert rel h l e = Some (h', l')"
        using t dl_empty_rep [OF rep] as Nil u by (simp add: ol_insert_def)
      show ?thesis
        by (rule ol_insertedI [OF op _ t(3)])
           (use t e Nil u in \<open>auto simp: rank_insert_def fun_eq_iff same_outside_def\<close>)
    qed
  qed
  then show ?thesis using as by (auto simp: ol_inserted_def)
qed

section \<open>Removal and search\<close>

lemma ol_inherit_rep:
  assumes rep: "list_rep h l as" and e: "e \<noteq> 0" "h e = Some x" "nxt x = (if vs = [] then 0 else hd vs)"
    and vs: "set vs \<subseteq> set as" "e \<notin> set as"
  shows "\<exists>h'. ol_inherit rel h e = Some h' \<and> list_rep h' l as \<and>
           rank_of h' = rank_remove rel (rank_of h) e vs \<and> same_but_rank h h' \<and> same_outside (set vs) h h'"
proof (cases "rel \<and> vs \<noteq> []")
  case False
  then show ?thesis using assms by (auto simp: ol_inherit_def store_simps rank_remove_def fun_eq_iff)
next
  case True
  then obtain v ws where v: "vs = v # ws" by (cases vs) auto
  then obtain y where y: "h v = Some y" "v \<noteq> 0"
    using vs list_rep_mapped [OF rep, of v] list_rep_nonnull [OF rep] by auto
  let ?h = "h(v \<mapsto> y\<lparr>rank := rank y + rank x\<rparr>)"
  have "list_rep ?h l as" using y by (intro list_rep_cong [OF rep]) auto
  moreover have "rank_of ?h = rank_remove rel (rank_of h) e vs"
    using True v y e by (auto simp: rank_remove_def fun_eq_iff)
  ultimately show ?thesis
    using True v y e by (auto simp: ol_inherit_def store_simps same_outside_def)
qed

lemma ol_remove_front_empty: "list_rep h l [] \<Longrightarrow> ol_remove_front rel h l = Some (h, l, 0)"
  by (simp add: ol_remove_front_def dl_remove_head_empty)

lemma ol_remove_inherit:
  assumes rep1: "list_rep h1 l1 as" and sd: "dsame_data h h1" and out: "same_outside A h h1" "e \<notin> A"
    and x: "h e = Some x" "e \<noteq> 0" "nxt x = (if vs = [] then 0 else hd vs)" and vs: "set vs \<subseteq> set as" "e \<notin> set as"
  shows "\<exists>h'. ol_inherit rel h1 e = Some h' \<and> list_rep h' l1 as \<and>
           rank_of h' = rank_remove rel (rank_of h) e vs \<and> same_but_rank h h' \<and> same_outside (A \<union> set vs) h h'"
proof -
  have "h1 e = Some x" using same_outsideD [OF out] x by simp
  then obtain h2 where h2: "ol_inherit rel h1 e = Some h2" "list_rep h2 l1 as"
    "rank_of h2 = rank_remove rel (rank_of h1) e vs" "same_but_rank h1 h2" "same_outside (set vs) h1 h2"
    using ol_inherit_rep [OF rep1 x(2) _ x(3) vs] by auto
  then show ?thesis
    using rank_of_dsame_data [OF sd] same_but_rank_trans [OF dsame_same_but_rank [OF sd]]
      same_outside_trans [OF out(1)] by auto
qed

lemma ol_remove_front_rep:
  assumes rep: "list_rep h l (e # vs)"
  shows "\<exists>h' l'. ol_remove_front rel h l = Some (h', l', e) \<and> list_rep h' l' vs \<and>
           rank_of h' = rank_remove rel (rank_of h) e vs \<and> same_but_rank h h' \<and> same_outside (set vs) h h'"
proof -
  obtain h1 l1 where h1: "dl_remove_head h l = Some (h1, l1, e)" "list_rep h1 l1 vs" "dsame_data h h1"
    "same_outside (set vs) h h1"
    using dl_remove_head_rep [OF rep] by auto
  obtain x where x: "h e = Some x" "e \<noteq> 0" "nxt x = (if vs = [] then 0 else hd vs)" "e \<notin> set vs"
    using list_rep_links [of h l "[]" e vs] rep by (auto simp: list_rep_def)
  show ?thesis
    using ol_remove_inherit [OF h1(2-4) x(4) x(1-3) order.refl x(4), of rel] h1(1) x
    by (auto simp: ol_remove_front_def)
qed

lemma ol_remove_rep:
  assumes rep: "list_rep h l (us @ e # vs)"
  shows "\<exists>h' l'. ol_remove rel h l e = Some (h', l', e) \<and> list_rep h' l' (us @ vs) \<and>
           rank_of h' = rank_remove rel (rank_of h) e vs \<and> same_but_rank h h' \<and> same_outside (set (us @ vs)) h h'"
proof -
  obtain h1 l1 where h1: "dl_remove h l e = Some (h1, l1, e)" "list_rep h1 l1 (us @ vs)" "dsame_data h h1"
    "same_outside (set (us @ vs)) h h1"
    using dl_remove_rep [OF rep] by auto
  obtain x where x: "h e = Some x" "e \<noteq> 0" "nxt x = (if vs = [] then 0 else hd vs)" "e \<notin> set (us @ vs)"
    using list_rep_links [OF rep] rep by (auto simp: list_rep_def)
  have sub: "set vs \<subseteq> set (us @ vs)" by simp
  show ?thesis
    using ol_remove_inherit [OF h1(2-4) x(4) x(1-3) sub x(4), of rel] h1(1) sub
    by (auto simp: ol_remove_def Un_absorb2)
qed

lemma ol_search_rank_chain:
  "chain h p as 0 \<Longrightarrow>
   ol_search_rank_from h p r = Some (case find (\<lambda>a. rank_of h a = r) as of None \<Rightarrow> 0 | Some a \<Rightarrow> a)"
proof (induction as arbitrary: p)
  case Nil
  then show ?case by (simp add: ol_search_rank_from.simps)
next
  case (Cons a as)
  then show ?case by (auto simp: ol_search_rank_from.simps [of h a] store_simps)
qed

lemma ol_search_rank_rep:
  "list_rep h l as \<Longrightarrow>
   ol_search_rank h l r = Some (case find (\<lambda>a. rank_of h a = r) as of None \<Rightarrow> 0 | Some a \<Rightarrow> a)"
  by (simp add: ol_search_rank_def list_rep_def ol_search_rank_chain)

section \<open>A queue in order of rank\<close>

text \<open>Absolute or relative, the list is a queue of elements with absolute ranks.\<close>

definition ol_ranked :: "'m delem_ordered_scheme store \<Rightarrow> addr \<Rightarrow> int \<Rightarrow> bool" where
  "ol_ranked h a R \<longleftrightarrow> a \<noteq> 0 \<and> (\<exists>x. h a = Some x \<and> rank x = R)"

definition ol_queue :: "bool \<Rightarrow> 'm delem_ordered_scheme store \<Rightarrow> linked_list \<Rightarrow> (addr \<times> int) list \<Rightarrow> bool" where
  "ol_queue rel h q xs \<longleftrightarrow>
     list_rep h q (map fst xs) \<and> xs = ranks rel (rank_of h) (map fst xs) \<and> sorted (map snd xs)"

interpretation ol: rank_queue "ol_queue rel" ol_ranked "ol_insert rel" "ol_remove_front rel" for rel
proof unfold_locales
  fix h :: "'m delem_ordered_scheme store" and q xs e R
  assume q: "ol_queue rel h q xs" and e: "ol_ranked h e R" "e \<notin> fst ` set xs"
  then obtain x where x: "e \<noteq> 0" "h e = Some x" "rank x = R" by (auto simp: ol_ranked_def)
  let ?as = "map fst xs"
  have rep: "list_rep h q ?as" and xs: "xs = ranks rel (rank_of h) ?as" and s: "sorted (map snd xs)"
    using q unfolding ol_queue_def by blast+
  have d: "distinct ?as" using rep by (simp add: list_rep_def)
  have ne: "e \<notin> set ?as" using e(2) by simp
  obtain us vs where sp: "rank_split rel (rank_of h) R ?as = (us, vs)" by fastforce
  obtain h' q' where t: "ol_insert rel h q e = Some (h', q')" "list_rep h' q' (us @ e # vs)"
    "rank_of h' = rank_insert rel (rank_of h) R e us vs" "same_outside (insert e (set ?as)) h h'"
    using ol_insert_rep [OF rep x(1,2) ne, of rel us vs] sp x(3) by auto
  have r: "ranks rel (rank_of h') (us @ e # vs) = rank_put (e, R) xs"
    using ranks_insert [OF sp ne d] t(3) xs by simp
  then have "map fst (rank_put (e, R) xs) = us @ e # vs" by (metis map_fst_ranks)
  then have "ol_queue rel h' q' (rank_put (e, R) xs)"
    using t(2) r sorted_rank_put [OF s] by (simp add: ol_queue_def)
  moreover have "ol_ranked h' a d = ol_ranked h a d" if "a \<noteq> e" "a \<notin> fst ` set xs" for a d
    using same_outsideD [OF t(4), of a] that by (simp add: ol_ranked_def)
  ultimately show "\<exists>h' q'. ol_insert rel h q e = Some (h', q') \<and> ol_queue rel h' q' (rank_put (e, R) xs) \<and>
        (\<forall>a d. a \<noteq> e \<and> a \<notin> fst ` set xs \<longrightarrow> ol_ranked h' a d = ol_ranked h a d)"
    using t(1) by blast
next
  fix h :: "'m delem_ordered_scheme store" and q a d xs
  assume q: "ol_queue rel h q ((a, d) # xs)"
  then have rep: "list_rep h q (a # map fst xs)" and xs: "(a, d) # xs = ranks rel (rank_of h) (a # map fst xs)"
    and s: "sorted (map snd xs)" by (auto simp: ol_queue_def)
  have "distinct (a # map fst xs)" using rep by (simp add: list_rep_def)
  then have "ranks rel (rank_remove rel (rank_of h) a (map fst xs)) (map fst xs) = xs"
    using ranks_remove_front xs by (metis list.sel(3))
  then show "\<exists>h' q'. ol_remove_front rel h q = Some (h', q', a) \<and> ol_queue rel h' q' xs"
    using ol_remove_front_rep [OF rep, of rel] s by (auto simp: ol_queue_def)
qed (auto simp: ol_queue_def ol_remove_front_empty)

end
