(* ===== verification/Scheduling_List.thy ===== *)
theory Scheduling_List
  imports Ordered_List
begin

text \<open>
  \<open>Scheduling_List\<close> of \<open>include/utility/list.h\<close>: an ordered list that keeps the chosen element outside
  the list. \<open>sched_rep h s c as\<close>: the chosen element is \<open>c\<close> (0 for none), the list holds \<open>as\<close> in
  order of rank, and the list is only non-empty while something is chosen. Every operation is the
  corresponding operation on the pair \<open>(c, as)\<close>, and choosing elects an element of minimal rank.
\<close>

section \<open>The class\<close>

text \<open>\<open>IDLE = (unsigned(1) << (sizeof(int) * 8 - 1)) - 1\<close>, the largest rank.\<close>

definition IDLE :: int where
  "IDLE = 2 ^ 31 - 1"

record scheduling_list =
  sc_base :: linked_list
  sc_chosen :: addr

type_synonym 'm dstore = "'m delem_ordered_scheme store"

definition sc_new :: scheduling_list where
  "sc_new = \<lparr>sc_base = dl_new, sc_chosen = 0\<rparr>"

definition sc_insert :: "'m dstore \<Rightarrow> scheduling_list \<Rightarrow> addr \<Rightarrow> ('m dstore \<times> scheduling_list) option" where
  "sc_insert h s e =
     (if sc_chosen s \<noteq> 0
      then do { (h, b) \<leftarrow> ol_insert False h (sc_base s) e; Some (h, s\<lparr>sc_base := b\<rparr>) }
      else Some (h, s\<lparr>sc_chosen := e\<rparr>))"

definition sc_remove :: "'m dstore \<Rightarrow> scheduling_list \<Rightarrow> addr \<Rightarrow> ('m dstore \<times> scheduling_list \<times> addr) option" where
  "sc_remove h s e =
     (if e = sc_chosen s
      then do { (h, b, c) \<leftarrow> dl_remove_head h (sc_base s); Some (h, s\<lparr>sc_base := b, sc_chosen := c\<rparr>, e) }
      else do { (h, b, e) \<leftarrow> ol_remove False h (sc_base s) e; Some (h, s\<lparr>sc_base := b\<rparr>, e) })"

definition sc_choose :: "'m dstore \<Rightarrow> scheduling_list \<Rightarrow> ('m dstore \<times> scheduling_list \<times> addr) option" where
  "sc_choose h s =
     (if \<not> dl_empty (sc_base s)
      then do { (h, b) \<leftarrow> ol_insert False h (sc_base s) (sc_chosen s);
                (h, b, c) \<leftarrow> dl_remove_head h b;
                Some (h, s\<lparr>sc_base := b, sc_chosen := c\<rparr>, c) }
      else Some (h, s, sc_chosen s))"

definition sc_choose_another :: "'m dstore \<Rightarrow> scheduling_list \<Rightarrow> ('m dstore \<times> scheduling_list \<times> addr) option" where
  "sc_choose_another h s =
     (if dl_empty (sc_base s) then Some (h, s, sc_chosen s)
      else do {
        x \<leftarrow> load h (dl_head (sc_base s));
        if rank x \<noteq> IDLE
        then do { (h, b, c) \<leftarrow> dl_remove_head h (sc_base s);
                  (h, b) \<leftarrow> ol_insert False h b (sc_chosen s);
                  Some (h, s\<lparr>sc_base := b, sc_chosen := c\<rparr>, c) }
        else Some (h, s, sc_chosen s) })"

definition sc_choose_elem :: "'m dstore \<Rightarrow> scheduling_list \<Rightarrow> addr \<Rightarrow> ('m dstore \<times> scheduling_list \<times> addr) option" where
  "sc_choose_elem h s e =
     (if e \<noteq> sc_chosen s
      then do { (h, b) \<leftarrow> ol_insert False h (sc_base s) (sc_chosen s);
                (h, b, c) \<leftarrow> ol_remove False h b e;
                Some (h, s\<lparr>sc_base := b, sc_chosen := c\<rparr>, c) }
      else Some (h, s, sc_chosen s))"

section \<open>The abstraction\<close>

definition sched_rep :: "'m dstore \<Rightarrow> scheduling_list \<Rightarrow> addr \<Rightarrow> addr list \<Rightarrow> bool" where
  "sched_rep h s c as \<longleftrightarrow>
     list_rep h (sc_base s) as \<and> rank_sorted (rank_of h) as \<and> sc_chosen s = c \<and> c \<notin> set as \<and>
     (c = 0 \<longrightarrow> as = []) \<and> (c \<noteq> 0 \<longrightarrow> h c \<noteq> None)"

text \<open>The position of \<open>e\<close> in order of rank, after its equals.\<close>

definition rank_place :: "('a \<Rightarrow> int) \<Rightarrow> 'a \<Rightarrow> 'a list \<Rightarrow> 'a list" where
  "rank_place r e as = takeWhile (\<lambda>a. r a \<le> r e) as @ e # dropWhile (\<lambda>a. r a \<le> r e) as"

lemma set_rank_place [simp]: "set (rank_place r e as) = insert e (set as)"
proof -
  have "set as = set (takeWhile (\<lambda>a. r a \<le> r e) as) \<union> set (dropWhile (\<lambda>a. r a \<le> r e) as)"
    by (metis set_append takeWhile_dropWhile_id)
  then show ?thesis by (auto simp: rank_place_def)
qed

lemma rank_place_not_Nil [simp]: "rank_place r e as \<noteq> []"
  by (simp add: rank_place_def)

lemma length_rank_place [simp]: "length (rank_place r e as) = Suc (length as)"
  unfolding rank_place_def by (metis length_append length_Cons add_Suc_right takeWhile_dropWhile_id)

lemma rank_place_sorted: "rank_sorted r as \<Longrightarrow> rank_sorted r (rank_place r e as)"
  using rank_sorted_insert [of r as e] by (simp add: rank_split_absolute rank_place_def)

lemma rank_sorted_hd: "rank_sorted r as \<Longrightarrow> a \<in> set as \<Longrightarrow> r (hd as) \<le> r a"
  by (cases as) (auto simp: rank_sorted_def)

lemma distinct_rank_place: "distinct as \<Longrightarrow> e \<notin> set as \<Longrightarrow> distinct (rank_place r e as)"
  using set_rank_place [of r e as] length_rank_place [of r e as]
  by (metis card_distinct card_insert_disjoint distinct_card List.finite_set)

lemma ol_insert_place:
  assumes rep: "list_rep h l as" and e: "e \<noteq> 0" "h e \<noteq> None" "e \<notin> set as"
  shows "\<exists>h' l'. ol_insert False h l e = Some (h', l') \<and> list_rep h' l' (rank_place (rank_of h) e as) \<and>
           dsame_data h h' \<and> same_outside (insert e (set as)) h h'"
proof -
  obtain x where x: "h e = Some x" using e by auto
  let ?us = "takeWhile (\<lambda>a. rank_of h a \<le> rank x) as" and ?vs = "dropWhile (\<lambda>a. rank_of h a \<le> rank x) as"
  obtain h' l' where t: "ol_insert False h l e = Some (h', l')" "list_rep h' l' (?us @ e # ?vs)"
    "rank_of h' = rank_insert False (rank_of h) (rank x) e ?us ?vs" "same_but_rank h h'"
    "same_outside (insert e (set as)) h h'"
    using ol_insert_rep [OF rep e(1) x e(3), of False ?us ?vs] by (auto simp: rank_split_absolute)
  have "rank_of h' = rank_of h" using t(3) x by (auto simp: rank_insert_def fun_eq_iff)
  then show ?thesis using t x same_but_rank_dsame [OF t(4)] by (auto simp: rank_place_def)
qed

lemma ol_remove_split:
  assumes rep: "list_rep h l (us @ e # vs)"
  shows "\<exists>h' l'. ol_remove False h l e = Some (h', l', e) \<and> list_rep h' l' (us @ vs) \<and>
           dsame_data h h' \<and> same_outside (set (us @ vs)) h h'"
proof -
  obtain h' l' where t: "ol_remove False h l e = Some (h', l', e)" "list_rep h' l' (us @ vs)"
    "rank_of h' = rank_remove False (rank_of h) e vs" "same_but_rank h h'" "same_outside (set (us @ vs)) h h'"
    using ol_remove_rep [OF rep, of False] by auto
  have "rank_of h' = rank_of h" using t(3) by (auto simp: rank_remove_def fun_eq_iff)
  then show ?thesis using t same_but_rank_dsame [OF t(4)] by auto
qed

lemma dsame_data_mapped: "dsame_data h h' \<Longrightarrow> h a \<noteq> None \<Longrightarrow> h' a \<noteq> None"
  by (simp add: dsame_data_None)

section \<open>The operations on the abstraction\<close>

lemma sched_rep_new: "sched_rep h sc_new 0 []"
  by (simp add: sched_rep_def sc_new_def list_rep_new rank_sorted_def)

lemma sc_insert_first: "sched_rep h s 0 [] \<Longrightarrow> e \<noteq> 0 \<Longrightarrow> h e \<noteq> None \<Longrightarrow>
    \<exists>s'. sc_insert h s e = Some (h, s') \<and> sched_rep h s' e []"
  by (simp add: sc_insert_def sched_rep_def)

lemma sc_insert_rep:
  assumes rep: "sched_rep h s c as" and c: "c \<noteq> 0" and e: "e \<noteq> 0" "h e \<noteq> None" "e \<noteq> c" "e \<notin> set as"
  shows "\<exists>h' s'. sc_insert h s e = Some (h', s') \<and> sched_rep h' s' c (rank_place (rank_of h) e as) \<and>
           dsame_data h h' \<and> same_outside (insert e (set as)) h h'"
proof -
  obtain h' l' where t: "ol_insert False h (sc_base s) e = Some (h', l')"
    "list_rep h' l' (rank_place (rank_of h) e as)" "dsame_data h h'" "same_outside (insert e (set as)) h h'"
    using ol_insert_place [of h "sc_base s" as e] rep e by (auto simp: sched_rep_def)
  show ?thesis
    using t rep c e rank_of_dsame_data [OF t(3)] dsame_data_mapped [OF t(3)] rank_place_sorted [of "rank_of h" as e]
    by (auto simp: sc_insert_def sched_rep_def)
qed

lemma sc_remove_chosen:
  assumes rep: "sched_rep h s c as" and c: "c \<noteq> 0"
  shows "\<exists>h' s'. sc_remove h s c = Some (h', s', c) \<and>
           sched_rep h' s' (if as = [] then 0 else hd as) (tl as) \<and> dsame_data h h' \<and> same_outside (set as) h h'"
proof (cases as)
  case Nil
  then show ?thesis using rep c by (auto simp: sc_remove_def sched_rep_def dl_remove_head_empty)
next
  case (Cons a bs)
  obtain h' l' where t: "dl_remove_head h (sc_base s) = Some (h', l', a)" "list_rep h' l' bs" "dsame_data h h'"
    "same_outside (set bs) h h'"
    using dl_remove_head_rep [of h "sc_base s" a bs] rep Cons by (auto simp: sched_rep_def)
  have a: "a \<noteq> 0" "h a \<noteq> None" "a \<notin> set bs"
    using rep Cons list_rep_nonnull [of h "sc_base s" as] list_rep_mapped [of h "sc_base s" as a]
    by (auto simp: sched_rep_def list_rep_def)
  show ?thesis
    using t a rep Cons rank_of_dsame_data [OF t(3)] dsame_data_mapped [OF t(3)]
    by (auto simp: sc_remove_def sched_rep_def rank_sorted_def same_outside_def)
qed

lemma sc_remove_ready:
  assumes rep: "sched_rep h s c (us @ e # vs)"
  shows "\<exists>h' s'. sc_remove h s e = Some (h', s', e) \<and> sched_rep h' s' c (us @ vs) \<and>
           dsame_data h h' \<and> same_outside (set (us @ vs)) h h'"
proof -
  obtain h' l' where t: "ol_remove False h (sc_base s) e = Some (h', l', e)" "list_rep h' l' (us @ vs)"
    "dsame_data h h'" "same_outside (set (us @ vs)) h h'"
    using ol_remove_split [of h "sc_base s" us e vs] rep by (auto simp: sched_rep_def)
  show ?thesis
    using t rep rank_of_dsame_data [OF t(3)] dsame_data_mapped [OF t(3)]
      rank_sorted_remove [of "rank_of h" us e vs]
    by (auto simp: sc_remove_def sched_rep_def)
qed

text \<open>Putting the chosen element back and electing the first of the list.\<close>

lemma sc_reinsert_take:
  assumes rep: "sched_rep h s c as" and c: "c \<noteq> 0"
  shows "\<exists>h' b b' h''. ol_insert False h (sc_base s) c = Some (h', b) \<and>
           dl_remove_head h' b = Some (h'', b', hd (rank_place (rank_of h) c as)) \<and>
           sched_rep h'' (s\<lparr>sc_base := b', sc_chosen := hd (rank_place (rank_of h) c as)\<rparr>)
             (hd (rank_place (rank_of h) c as)) (tl (rank_place (rank_of h) c as)) \<and>
           dsame_data h h'' \<and> same_outside (insert c (set as)) h h''"
proof -
  let ?bs = "rank_place (rank_of h) c as"
  obtain h' b where t: "ol_insert False h (sc_base s) c = Some (h', b)" "list_rep h' b ?bs"
    "dsame_data h h'" "same_outside (insert c (set as)) h h'"
    using ol_insert_place [of h "sc_base s" as c] rep c by (auto simp: sched_rep_def)
  obtain d ds where bs: "?bs = d # ds" by (cases ?bs) auto
  then have rep': "list_rep h' b (d # ds)" using t(2) by simp
  obtain h'' b' where u: "dl_remove_head h' b = Some (h'', b', d)" "list_rep h'' b' ds"
    "dsame_data h' h''" "same_outside (set ds) h' h''"
    using dl_remove_head_rep [OF rep'] by auto
  have sd: "dsame_data h h''" using dsame_data_trans [OF t(3) u(3)] .
  have "rank_sorted (rank_of h) (d # ds)" using rank_place_sorted [of "rank_of h" as c] rep bs by (simp add: sched_rep_def)
  then have "rank_sorted (rank_of h'') ds" using rank_of_dsame_data [OF sd] by (simp add: rank_sorted_def)
  moreover have "d \<notin> set ds" "d \<noteq> 0" "h'' d \<noteq> None"
    using rep' list_rep_nonnull [OF rep'] list_rep_mapped [OF rep', of d] dsame_data_None [OF u(3)]
    by (auto simp: list_rep_def)
  moreover have "set ds \<subseteq> insert c (set as)"
    using set_rank_place [of "rank_of h" c as] bs by auto
  ultimately show ?thesis
    using t(1) u(1,2) sd bs same_outside_trans [OF t(4) u(4), of "insert c (set as)"]
    by (auto simp: sched_rep_def)
qed

lemma sc_choose_empty: "sched_rep h s c [] \<Longrightarrow> sc_choose h s = Some (h, s, c)"
  using dl_empty_rep [of h "sc_base s" "[]"] by (simp add: sc_choose_def sched_rep_def)

lemma sc_choose_rep:
  assumes rep: "sched_rep h s c as" and as: "as \<noteq> []"
  shows "\<exists>h' s'. sc_choose h s = Some (h', s', hd (rank_place (rank_of h) c as)) \<and>
           sched_rep h' s' (hd (rank_place (rank_of h) c as)) (tl (rank_place (rank_of h) c as)) \<and>
           dsame_data h h' \<and> same_outside (insert c (set as)) h h'"
proof -
  have c: "c \<noteq> 0" "sc_chosen s = c" "\<not> dl_empty (sc_base s)"
    using rep as dl_empty_rep [of h "sc_base s" as] by (auto simp: sched_rep_def)
  show ?thesis using sc_reinsert_take [OF rep c(1)] c by (auto simp: sc_choose_def)
qed

lemma sc_choose_another_idle:
  assumes "sched_rep h s c as" "as = [] \<or> rank_of h (hd as) = IDLE"
  shows "sc_choose_another h s = Some (h, s, c)"
proof (cases as)
  case Nil
  then show ?thesis
    using assms dl_empty_rep [of h "sc_base s" "[]"] by (simp add: sc_choose_another_def sched_rep_def)
next
  case (Cons a bs)
  then show ?thesis
    using assms dl_empty_rep [of h "sc_base s" as]
    by (auto simp: sc_choose_another_def sched_rep_def list_rep_def store_simps)
qed

lemma sc_choose_another_rep:
  assumes rep: "sched_rep h s c (a # bs)" and a: "rank_of h a \<noteq> IDLE"
  shows "\<exists>h' s'. sc_choose_another h s = Some (h', s', a) \<and>
           sched_rep h' s' a (rank_place (rank_of h) c bs) \<and> dsame_data h h' \<and>
           same_outside (insert c (set bs)) h h'"
proof -
  have c: "c \<noteq> 0" "sc_chosen s = c" "h c \<noteq> None" "c \<noteq> a" "c \<notin> set bs" and base: "list_rep h (sc_base s) (a # bs)"
    using rep by (auto simp: sched_rep_def)
  obtain x where x: "h a = Some x" "a \<noteq> 0" "dl_head (sc_base s) = a" "a \<notin> set bs"
    using base by (auto simp: list_rep_def)
  obtain h1 b1 where t: "dl_remove_head h (sc_base s) = Some (h1, b1, a)" "list_rep h1 b1 bs" "dsame_data h h1"
    "same_outside (set bs) h h1"
    using dl_remove_head_rep [OF base] by auto
  have r1: "rank_of h1 = rank_of h" using rank_of_dsame_data [OF t(3)] .
  obtain h2 b2 where u: "ol_insert False h1 b1 c = Some (h2, b2)" "list_rep h2 b2 (rank_place (rank_of h) c bs)"
    "dsame_data h1 h2" "same_outside (insert c (set bs)) h1 h2"
    using ol_insert_place [OF t(2) c(1) _ c(5)] dsame_data_mapped [OF t(3) c(3)] r1 by auto
  have sd: "dsame_data h h2" using dsame_data_trans [OF t(3) u(3)] .
  have "rank_sorted (rank_of h2) (rank_place (rank_of h) c bs)"
    using rep rank_place_sorted [of "rank_of h" bs c] rank_of_dsame_data [OF sd]
    by (simp add: sched_rep_def rank_sorted_def)
  moreover have "sc_choose_another h s = Some (h2, s\<lparr>sc_base := b2, sc_chosen := a\<rparr>, a)"
    using t(1) u(1) x a c dl_empty_rep [OF base] by (simp add: sc_choose_another_def store_simps)
  moreover have "same_outside (insert c (set bs)) h h2" by (rule same_outside_trans [OF t(4) u(4)]) auto
  ultimately show ?thesis
    using u sd x c dsame_data_None [OF sd, of a] by (auto simp: sched_rep_def)
qed

lemma sc_choose_elem_chosen: "sched_rep h s c as \<Longrightarrow> sc_choose_elem h s c = Some (h, s, c)"
  by (simp add: sc_choose_elem_def sched_rep_def)

lemma sc_choose_elem_rep:
  assumes rep: "sched_rep h s c as" and e: "e \<in> set as"
  shows "\<exists>h' s' us vs. sc_choose_elem h s e = Some (h', s', e) \<and>
           rank_place (rank_of h) c as = us @ e # vs \<and> sched_rep h' s' e (us @ vs) \<and>
           dsame_data h h' \<and> same_outside (insert c (set as)) h h'"
proof -
  let ?bs = "rank_place (rank_of h) c as"
  have c: "c \<noteq> 0" "sc_chosen s = c" "h c \<noteq> None" "e \<noteq> c" "c \<notin> set as"
    using rep e by (auto simp: sched_rep_def)
  obtain h1 b where t: "ol_insert False h (sc_base s) c = Some (h1, b)" "list_rep h1 b ?bs"
    "dsame_data h h1" "same_outside (insert c (set as)) h h1"
    using ol_insert_place [of h "sc_base s" as c] rep c by (auto simp: sched_rep_def)
  obtain us vs where bs: "?bs = us @ e # vs" using e by (metis set_rank_place insertI2 split_list)
  obtain h2 b2 where u: "ol_remove False h1 b e = Some (h2, b2, e)" "list_rep h2 b2 (us @ vs)"
    "dsame_data h1 h2" "same_outside (set (us @ vs)) h1 h2"
    using ol_remove_split [of h1 b us e vs] t(2) bs by auto
  have sd: "dsame_data h h2" using dsame_data_trans [OF t(3) u(3)] .
  have "rank_sorted (rank_of h) (us @ e # vs)"
    using rank_place_sorted [of "rank_of h" as c] rep bs by (simp add: sched_rep_def)
  then have "rank_sorted (rank_of h2) (us @ vs)"
    using rank_sorted_remove [of "rank_of h" us e vs] rank_of_dsame_data [OF sd] by simp
  moreover have "e \<notin> set (us @ vs)" "e \<noteq> 0" "h2 e \<noteq> None"
    using t(2) bs list_rep_nonnull [OF t(2)] list_rep_mapped [OF t(2), of e] dsame_data_None [OF u(3)]
    by (auto simp: list_rep_def)
  moreover have "set (us @ vs) \<subseteq> insert c (set as)"
    using set_rank_place [of "rank_of h" c as] bs by auto
  ultimately show ?thesis
    using t(1) u(1,2) c sd bs same_outside_trans [OF t(4) u(4), of "insert c (set as)"]
    by (auto simp: sc_choose_elem_def sched_rep_def)
qed

end
