(* ===== verification/Multihead_List.thy ===== *)
theory Multihead_List
  imports Scheduling_List
begin

text \<open>
  \<open>Multihead_Scheduling_List\<close> of \<open>include/utility/list.h\<close>: one ordered list shared by several heads, each
  with its own chosen element. \<open>R::current_head()\<close> is the head of the CPU that executes the operation;
  it is the argument \<open>k\<close> of the definitions.

  \<open>head_view m k\<close> is what the operations see through head \<open>k\<close>. Every operation at head \<open>k\<close> is the
  operation of \<open>Scheduling_List\<close> on that view, so the single-head lemmas carry over; \<open>heads_rep\<close> adds
  that the heads hold different elements, none of which is in the list.
\<close>

section \<open>The class\<close>

record multihead_list =
  mh_base :: linked_list
  mh_chosen :: "addr list"

definition mh_new :: "nat \<Rightarrow> multihead_list" where
  "mh_new H = \<lparr>mh_base = dl_new, mh_chosen = replicate H 0\<rparr>"

definition chosen_at :: "multihead_list \<Rightarrow> nat \<Rightarrow> addr option" where
  "chosen_at m k = (if k < length (mh_chosen m) then Some (mh_chosen m ! k) else None)"

definition set_chosen :: "multihead_list \<Rightarrow> nat \<Rightarrow> addr \<Rightarrow> multihead_list" where
  "set_chosen m k c = m\<lparr>mh_chosen := (mh_chosen m)[k := c]\<rparr>"

definition mh_insert :: "nat \<Rightarrow> 'm dstore \<Rightarrow> multihead_list \<Rightarrow> addr \<Rightarrow> ('m dstore \<times> multihead_list) option" where
  "mh_insert k h m e = do {
     c \<leftarrow> chosen_at m k;
     if c \<noteq> 0
     then do { (h, b) \<leftarrow> ol_insert False h (mh_base m) e; Some (h, m\<lparr>mh_base := b\<rparr>) }
     else Some (h, set_chosen m k e) }"

definition mh_remove :: "nat \<Rightarrow> 'm dstore \<Rightarrow> multihead_list \<Rightarrow> addr \<Rightarrow> ('m dstore \<times> multihead_list \<times> addr) option" where
  "mh_remove k h m e = do {
     c \<leftarrow> chosen_at m k;
     if e = c
     then do { (h, b, d) \<leftarrow> dl_remove_head h (mh_base m); Some (h, set_chosen (m\<lparr>mh_base := b\<rparr>) k d, e) }
     else do { (h, b, e) \<leftarrow> ol_remove False h (mh_base m) e; Some (h, m\<lparr>mh_base := b\<rparr>, e) } }"

definition mh_choose :: "nat \<Rightarrow> 'm dstore \<Rightarrow> multihead_list \<Rightarrow> ('m dstore \<times> multihead_list \<times> addr) option" where
  "mh_choose k h m = do {
     c \<leftarrow> chosen_at m k;
     if \<not> dl_empty (mh_base m)
     then do { (h, b) \<leftarrow> ol_insert False h (mh_base m) c;
               (h, b, d) \<leftarrow> dl_remove_head h b;
               Some (h, set_chosen (m\<lparr>mh_base := b\<rparr>) k d, d) }
     else Some (h, m, c) }"

definition mh_choose_another :: "nat \<Rightarrow> 'm dstore \<Rightarrow> multihead_list \<Rightarrow> ('m dstore \<times> multihead_list \<times> addr) option" where
  "mh_choose_another k h m = do {
     c \<leftarrow> chosen_at m k;
     if dl_empty (mh_base m) then Some (h, m, c)
     else do {
       x \<leftarrow> load h (dl_head (mh_base m));
       if rank x \<noteq> IDLE
       then do { (h, b, d) \<leftarrow> dl_remove_head h (mh_base m);
                 (h, b) \<leftarrow> ol_insert False h b c;
                 Some (h, set_chosen (m\<lparr>mh_base := b\<rparr>) k d, d) }
       else Some (h, m, c) } }"

definition mh_choose_elem :: "nat \<Rightarrow> 'm dstore \<Rightarrow> multihead_list \<Rightarrow> addr \<Rightarrow> ('m dstore \<times> multihead_list \<times> addr) option" where
  "mh_choose_elem k h m e = do {
     c \<leftarrow> chosen_at m k;
     if e \<noteq> c
     then do { (h, b) \<leftarrow> ol_insert False h (mh_base m) c;
               (h, b, d) \<leftarrow> ol_remove False h b e;
               Some (h, set_chosen (m\<lparr>mh_base := b\<rparr>) k d, d) }
     else Some (h, m, c) }"

section \<open>The view from one head\<close>

definition head_view :: "multihead_list \<Rightarrow> nat \<Rightarrow> scheduling_list" where
  "head_view m k = \<lparr>sc_base = mh_base m, sc_chosen = mh_chosen m ! k\<rparr>"

definition head_put :: "multihead_list \<Rightarrow> nat \<Rightarrow> scheduling_list \<Rightarrow> multihead_list" where
  "head_put m k s = \<lparr>mh_base = sc_base s, mh_chosen = (mh_chosen m)[k := sc_chosen s]\<rparr>"

lemma head_put_chosen: "head_put m k (head_view m k\<lparr>sc_base := b, sc_chosen := c\<rparr>) = set_chosen (m\<lparr>mh_base := b\<rparr>) k c"
  by (simp add: head_put_def head_view_def set_chosen_def)

lemma head_put_base [simp]: "k < length (mh_chosen m) \<Longrightarrow> head_put m k (head_view m k\<lparr>sc_base := b\<rparr>) = m\<lparr>mh_base := b\<rparr>"
  by (simp add: head_put_def head_view_def)

lemma head_put_only_chosen: "head_put m k (head_view m k\<lparr>sc_chosen := c\<rparr>) = set_chosen m k c"
  by (simp add: head_put_def head_view_def set_chosen_def)

lemma head_put_view [simp]: "k < length (mh_chosen m) \<Longrightarrow> head_put m k (head_view m k) = m"
  by (simp add: head_put_def head_view_def)

lemma head_view_put [simp]: "k < length (mh_chosen m) \<Longrightarrow> head_view (head_put m k s) k = s"
  by (simp add: head_put_def head_view_def)

lemma mh_chosen_put [simp]: "mh_chosen (head_put m k s) = (mh_chosen m)[k := sc_chosen s]"
  by (simp add: head_put_def)

lemmas head_simps = head_put_chosen head_put_only_chosen head_view_def chosen_at_def

lemma mh_insert_view: "k < length (mh_chosen m) \<Longrightarrow>
    mh_insert k h m e = map_option (\<lambda>(h, s). (h, head_put m k s)) (sc_insert h (head_view m k) e)"
  by (cases "ol_insert False h (mh_base m) e")
     (auto simp: mh_insert_def sc_insert_def chosen_at_def head_put_def head_view_def set_chosen_def)

lemma mh_remove_view: "k < length (mh_chosen m) \<Longrightarrow>
    mh_remove k h m e = map_option (\<lambda>(h, s, c). (h, head_put m k s, c)) (sc_remove h (head_view m k) e)"
  by (cases "ol_remove False h (mh_base m) e"; cases "dl_remove_head h (mh_base m)")
     (auto simp: mh_remove_def sc_remove_def chosen_at_def head_put_def head_view_def set_chosen_def)

lemma mh_choose_view: "k < length (mh_chosen m) \<Longrightarrow>
    mh_choose k h m = map_option (\<lambda>(h, s, c). (h, head_put m k s, c)) (sc_choose h (head_view m k))"
  by (auto simp: mh_choose_def sc_choose_def chosen_at_def head_put_def head_view_def set_chosen_def
      split: option.splits Option.bind_splits)

lemma mh_choose_another_view: "k < length (mh_chosen m) \<Longrightarrow>
    mh_choose_another k h m = map_option (\<lambda>(h, s, c). (h, head_put m k s, c)) (sc_choose_another h (head_view m k))"
  by (auto simp: mh_choose_another_def sc_choose_another_def chosen_at_def head_put_def head_view_def set_chosen_def
      split: option.splits Option.bind_splits)

lemma mh_choose_elem_view: "k < length (mh_chosen m) \<Longrightarrow>
    mh_choose_elem k h m e = map_option (\<lambda>(h, s, c). (h, head_put m k s, c)) (sc_choose_elem h (head_view m k) e)"
  by (auto simp: mh_choose_elem_def sc_choose_elem_def chosen_at_def head_put_def head_view_def set_chosen_def
      split: option.splits Option.bind_splits)

section \<open>All heads together\<close>

text \<open>Every head holds an element (in EPOS its CPU's idle thread at worst) and the list holds the rest.\<close>

definition heads_rep :: "'m dstore \<Rightarrow> multihead_list \<Rightarrow> addr list \<Rightarrow> addr list \<Rightarrow> bool" where
  "heads_rep h m cs as \<longleftrightarrow>
     mh_chosen m = cs \<and> distinct (cs @ as) \<and> 0 \<notin> set cs \<and> (\<forall>k < length cs. sched_rep h (head_view m k) (cs ! k) as)"

lemma heads_rep_view: "heads_rep h m cs as \<Longrightarrow> k < length cs \<Longrightarrow> sched_rep h (head_view m k) (cs ! k) as"
  by (simp add: heads_rep_def)

lemma heads_rep_nonnull: "heads_rep h m cs as \<Longrightarrow> k < length cs \<Longrightarrow> cs ! k \<noteq> 0"
  by (auto simp: heads_rep_def dest: nth_mem)

text \<open>An operation through head \<open>k\<close> re-establishes the whole from the view of that head.\<close>

lemma heads_rep_put:
  assumes hr: "heads_rep h m cs as" and k: "k < length cs" and s: "sched_rep h' s c bs" "c \<noteq> 0"
    and sd: "dsame_data h h'" and d: "distinct ((cs[k := c]) @ bs)"
  shows "heads_rep h' (head_put m k s) (cs[k := c]) bs"
proof -
  have "sched_rep h' (head_view (head_put m k s) j) (cs[k := c] ! j) bs" if j: "j < length cs" for j
  proof (cases "j = k")
    case True
    then show ?thesis using s k hr by (simp add: heads_rep_def)
  next
    case False
    have "sched_rep h (head_view m j) (cs ! j) as" using heads_rep_view [OF hr j] .
    then have "h' (cs ! j) \<noteq> None" "cs ! j \<noteq> 0"
      using heads_rep_nonnull [OF hr j] dsame_data_None [OF sd] by (auto simp: sched_rep_def)
    moreover have "cs[k := c] ! j \<in> set (cs[k := c])" using j by (metis length_list_update nth_mem)
    then have "cs[k := c] ! j \<notin> set bs" using d by auto
    ultimately show ?thesis
      using s False j hr by (auto simp: sched_rep_def head_view_def head_put_def heads_rep_def)
  qed
  moreover have "0 \<notin> set (cs[k := c])"
    using hr s(2) set_update_subset_insert [of cs k c] by (auto simp: heads_rep_def)
  ultimately show ?thesis using hr s d by (auto simp: heads_rep_def sched_rep_def)
qed

lemma distinct_swap_heads:
  assumes "distinct (cs @ as)" "k < length cs" "distinct (c # bs)" "insert c (set bs) = insert (cs ! k) (set as)"
  shows "distinct ((cs[k := c]) @ bs)"
proof -
  have rest: "x \<notin> insert c (set bs)" if "j < length cs" "j \<noteq> k" "x = cs ! j" for j x
    using that assms nth_mem [OF that(1)] by (auto simp: nth_eq_iff_index_eq disjoint_iff)
  have "c \<notin> set cs - {cs ! k}" using rest by (force simp: in_set_conv_nth)
  then have "distinct (cs[k := c])" using assms(1) by (intro distinct_list_update) simp_all
  moreover have "x \<notin> set bs" if x: "x \<in> set (cs[k := c])" for x
  proof -
    obtain i where i: "i < length cs" "x = cs[k := c] ! i" using x unfolding in_set_conv_nth by auto
    show ?thesis using rest [OF i(1) _ refl] i assms(2,3) by (cases "i = k") auto
  qed
  then have "set (cs[k := c]) \<inter> set bs = {}" by blast
  ultimately show ?thesis using assms(3) by simp
qed

lemma mh_choose_heads:
  assumes hr: "heads_rep h m cs as" and k: "k < length cs" and as: "as \<noteq> []"
  shows "\<exists>h' m'. mh_choose k h m = Some (h', m', hd (rank_place (rank_of h) (cs ! k) as)) \<and>
           heads_rep h' m' (cs[k := hd (rank_place (rank_of h) (cs ! k) as)]) (tl (rank_place (rank_of h) (cs ! k) as)) \<and>
           dsame_data h h'"
proof -
  obtain d ds where bs: "rank_place (rank_of h) (cs ! k) as = d # ds" by (metis rank_place_not_Nil list.exhaust)
  have len: "k < length (mh_chosen m)" using hr k by (simp add: heads_rep_def)
  obtain h' s where t: "sc_choose h (head_view m k) = Some (h', s, d)" "sched_rep h' s d ds" "dsame_data h h'"
    using sc_choose_rep [OF heads_rep_view [OF hr k] as] bs by auto
  have "distinct (d # ds)"
    using distinct_rank_place [of as "cs ! k" "rank_of h"] heads_rep_view [OF hr k] bs
    by (simp add: sched_rep_def list_rep_def)
  moreover have set: "insert d (set ds) = insert (cs ! k) (set as)" using set_rank_place [of "rank_of h" "cs ! k" as] bs by simp
  ultimately have "distinct ((cs[k := d]) @ ds)"
    using distinct_swap_heads [of cs as k d ds] hr k by (simp add: heads_rep_def)
  moreover have "0 \<notin> set as"
    using heads_rep_view [OF hr k] by (auto simp: sched_rep_def dest: list_rep_nonnull)
  then have "d \<noteq> 0" using set heads_rep_nonnull [OF hr k] by auto
  ultimately show ?thesis
    using heads_rep_put [OF hr k t(2) _ t(3)] t bs len by (auto simp: mh_choose_view)
qed

lemma mh_insert_heads:
  assumes hr: "heads_rep h m cs as" and k: "k < length cs" and e: "e \<noteq> 0" "h e \<noteq> None" "e \<notin> set cs" "e \<notin> set as"
  shows "\<exists>h' m'. mh_insert k h m e = Some (h', m') \<and> heads_rep h' m' cs (rank_place (rank_of h) e as) \<and> dsame_data h h'"
proof -
  have len: "k < length (mh_chosen m)" using hr k by (simp add: heads_rep_def)
  have "e \<noteq> cs ! k" using e(3) k by auto
  then obtain h' s where t: "sc_insert h (head_view m k) e = Some (h', s)"
    "sched_rep h' s (cs ! k) (rank_place (rank_of h) e as)" "dsame_data h h'"
    using sc_insert_rep [OF heads_rep_view [OF hr k] heads_rep_nonnull [OF hr k] e(1,2)] e(4) by auto
  have "distinct (cs[k := cs ! k] @ rank_place (rank_of h) e as)"
    using hr e distinct_rank_place [of as e "rank_of h"] by (auto simp: heads_rep_def)
  then show ?thesis
    using heads_rep_put [OF hr k t(2) heads_rep_nonnull [OF hr k] t(3)] t len by (auto simp: mh_insert_view)
qed

lemma mh_remove_ready_heads:
  assumes hr: "heads_rep h m cs (us @ e # vs)" and k: "k < length cs"
  shows "\<exists>h' m'. mh_remove k h m e = Some (h', m', e) \<and> heads_rep h' m' cs (us @ vs) \<and> dsame_data h h'"
proof -
  have len: "k < length (mh_chosen m)" using hr k by (simp add: heads_rep_def)
  obtain h' s where t: "sc_remove h (head_view m k) e = Some (h', s, e)" "sched_rep h' s (cs ! k) (us @ vs)" "dsame_data h h'"
    using sc_remove_ready [OF heads_rep_view [OF hr k]] by auto
  have "distinct (cs[k := cs ! k] @ us @ vs)" using hr by (auto simp: heads_rep_def)
  then show ?thesis
    using heads_rep_put [OF hr k t(2) heads_rep_nonnull [OF hr k] t(3)] t len by (auto simp: mh_remove_view)
qed

lemma mh_remove_chosen_heads:
  assumes hr: "heads_rep h m cs (a # as)" and k: "k < length cs"
  shows "\<exists>h' m'. mh_remove k h m (cs ! k) = Some (h', m', cs ! k) \<and> heads_rep h' m' (cs[k := a]) as \<and> dsame_data h h'"
proof -
  have len: "k < length (mh_chosen m)" using hr k by (simp add: heads_rep_def)
  obtain h' s where t: "sc_remove h (head_view m k) (cs ! k) = Some (h', s, cs ! k)" "sched_rep h' s a as" "dsame_data h h'"
    using sc_remove_chosen [OF heads_rep_view [OF hr k] heads_rep_nonnull [OF hr k]] by auto
  have "a \<noteq> 0" using heads_rep_view [OF hr k] by (auto simp: sched_rep_def dest: list_rep_nonnull)
  moreover have "distinct (cs[k := a] @ as)"
    using hr set_update_subset_insert [of cs k a] by (auto simp: heads_rep_def intro!: distinct_list_update)
  ultimately show ?thesis
    using heads_rep_put [OF hr k t(2) _ t(3)] t len by (auto simp: mh_remove_view)
qed

end
