(* ===== verification/Scheduling_Multilist.thy ===== *)
theory Scheduling_Multilist
  imports Multihead_List
begin

text \<open>
  \<open>Scheduling_Multilist\<close> of \<open>include/utility/list.h\<close>: an array of scheduling lists indexed by the queue of
  the criterion. The template parameter \<open>L\<close> (\<open>Scheduling_List\<close> or \<open>Multihead_Scheduling_List\<close>) is the
  record of its methods, and both instances are given. \<open>R::current_queue()\<close> is the argument \<open>q\<close>. An index
  beyond the array is undefined behaviour.
\<close>

section \<open>The class\<close>

type_synonym 'm sstore = "'m delem_scheduling_scheme store"

record ('m, 'l) list_class =
  lc_size :: "'l \<Rightarrow> ulong"
  lc_chosen :: "'l \<Rightarrow> addr option"
  lc_set_chosen :: "'l \<Rightarrow> addr \<Rightarrow> 'l"
  lc_insert :: "'m sstore \<Rightarrow> 'l \<Rightarrow> addr \<Rightarrow> ('m sstore \<times> 'l) option"
  lc_remove :: "'m sstore \<Rightarrow> 'l \<Rightarrow> addr \<Rightarrow> ('m sstore \<times> 'l \<times> addr) option"
  lc_remove_front :: "'m sstore \<Rightarrow> 'l \<Rightarrow> ('m sstore \<times> 'l \<times> addr) option"
  lc_choose :: "'m sstore \<Rightarrow> 'l \<Rightarrow> ('m sstore \<times> 'l \<times> addr) option"
  lc_choose_another :: "'m sstore \<Rightarrow> 'l \<Rightarrow> ('m sstore \<times> 'l \<times> addr) option"
  lc_choose_elem :: "'m sstore \<Rightarrow> 'l \<Rightarrow> addr \<Rightarrow> ('m sstore \<times> 'l \<times> addr) option"

definition sc_remove_front :: "'m dstore \<Rightarrow> scheduling_list \<Rightarrow> ('m dstore \<times> scheduling_list \<times> addr) option" where
  "sc_remove_front h s = do { (h, b, c) \<leftarrow> ol_remove_front False h (sc_base s); Some (h, s\<lparr>sc_base := b\<rparr>, c) }"

definition mh_remove_front :: "'m dstore \<Rightarrow> multihead_list \<Rightarrow> ('m dstore \<times> multihead_list \<times> addr) option" where
  "mh_remove_front h m = do { (h, b, c) \<leftarrow> ol_remove_front False h (mh_base m); Some (h, m\<lparr>mh_base := b\<rparr>, c) }"

definition single_head :: "('m, scheduling_list) list_class" where
  "single_head =
     \<lparr>lc_size = \<lambda>s. dl_size (sc_base s), lc_chosen = \<lambda>s. Some (sc_chosen s),
      lc_set_chosen = \<lambda>s c. s\<lparr>sc_chosen := c\<rparr>, lc_insert = sc_insert, lc_remove = sc_remove,
      lc_remove_front = sc_remove_front, lc_choose = sc_choose, lc_choose_another = sc_choose_another,
      lc_choose_elem = sc_choose_elem\<rparr>"

definition multi_head :: "nat \<Rightarrow> ('m, multihead_list) list_class" where
  "multi_head k =
     \<lparr>lc_size = \<lambda>m. dl_size (mh_base m), lc_chosen = \<lambda>m. chosen_at m k,
      lc_set_chosen = \<lambda>m c. set_chosen m k c, lc_insert = mh_insert k, lc_remove = mh_remove k,
      lc_remove_front = mh_remove_front, lc_choose = mh_choose k, lc_choose_another = mh_choose_another k,
      lc_choose_elem = mh_choose_elem k\<rparr>"

definition sublist_at :: "'l list \<Rightarrow> nat \<Rightarrow> 'l option" where
  "sublist_at ls q = (if q < length ls then Some (ls ! q) else None)"

definition ml_total_size :: "('m, 'l) list_class \<Rightarrow> 'l list \<Rightarrow> ulong" where
  "ml_total_size L ls = foldl (\<lambda>s l. s + lc_size L l) 0 ls"

definition ml_insert :: "('m, 'l) list_class \<Rightarrow> 'm sstore \<Rightarrow> 'l list \<Rightarrow> addr \<Rightarrow> ('m sstore \<times> 'l list) option" where
  "ml_insert L h ls e = do {
     x \<leftarrow> load h e;
     l \<leftarrow> sublist_at ls (squeue x);
     (h, l) \<leftarrow> lc_insert L h l e;
     Some (h, ls[squeue x := l]) }"

definition ml_remove :: "('m, 'l) list_class \<Rightarrow> 'm sstore \<Rightarrow> 'l list \<Rightarrow> addr \<Rightarrow> ('m sstore \<times> 'l list \<times> addr) option" where
  "ml_remove L h ls e = do {
     x \<leftarrow> load h e;
     l \<leftarrow> sublist_at ls (squeue x);
     (h, l, e) \<leftarrow> lc_remove L h l e;
     Some (h, ls[squeue x := l], e) }"

text \<open>The common head of the three \<open>choose\<close> methods: a chosen element whose queue has changed moves there.\<close>

definition ml_migrate :: "('m, 'l) list_class \<Rightarrow> nat \<Rightarrow> 'm sstore \<Rightarrow> 'l list \<Rightarrow> ('m sstore \<times> 'l list) option" where
  "ml_migrate L q h ls = do {
     l \<leftarrow> sublist_at ls q;
     c \<leftarrow> lc_chosen L l;
     x \<leftarrow> load h c;
     if squeue x \<noteq> q
     then do {
       (h, ls) \<leftarrow> ml_insert L h ls c;
       l \<leftarrow> sublist_at ls q;
       (h, l, d) \<leftarrow> lc_remove_front L h l;
       Some (h, ls[q := lc_set_chosen L l d]) }
     else Some (h, ls) }"

definition ml_choose :: "('m, 'l) list_class \<Rightarrow> nat \<Rightarrow> 'm sstore \<Rightarrow> 'l list \<Rightarrow> ('m sstore \<times> 'l list \<times> addr) option" where
  "ml_choose L q h ls = do {
     (h, ls) \<leftarrow> ml_migrate L q h ls;
     l \<leftarrow> sublist_at ls q;
     (h, l, c) \<leftarrow> lc_choose L h l;
     Some (h, ls[q := l], c) }"

definition ml_choose_another :: "('m, 'l) list_class \<Rightarrow> nat \<Rightarrow> 'm sstore \<Rightarrow> 'l list \<Rightarrow> ('m sstore \<times> 'l list \<times> addr) option" where
  "ml_choose_another L q h ls = do {
     (h, ls) \<leftarrow> ml_migrate L q h ls;
     l \<leftarrow> sublist_at ls q;
     (h, l, c) \<leftarrow> lc_choose_another L h l;
     Some (h, ls[q := l], c) }"

definition ml_choose_elem :: "('m, 'l) list_class \<Rightarrow> nat \<Rightarrow> 'm sstore \<Rightarrow> 'l list \<Rightarrow> addr \<Rightarrow> ('m sstore \<times> 'l list \<times> addr) option" where
  "ml_choose_elem L q h ls e = do {
     (h, ls) \<leftarrow> ml_migrate L q h ls;
     x \<leftarrow> load h e;
     l \<leftarrow> sublist_at ls (squeue x);
     (h, l, c) \<leftarrow> lc_choose_elem L h l e;
     Some (h, ls[squeue x := l], c) }"

section \<open>The abstraction, for single-head sublists\<close>

text \<open>Queue \<open>q\<close> has a chosen element and its waiting elements; the queues share no element.\<close>

definition members :: "addr \<times> addr list \<Rightarrow> addr set" where
  "members ca = (if fst ca = 0 then {} else {fst ca}) \<union> set (snd ca)"

definition multilist_rep :: "'m sstore \<Rightarrow> scheduling_list list \<Rightarrow> (addr \<times> addr list) list \<Rightarrow> bool" where
  "multilist_rep h ls cas \<longleftrightarrow>
     length ls = length cas \<and>
     (\<forall>q < length cas. sched_rep h (ls ! q) (fst (cas ! q)) (snd (cas ! q))) \<and>
     (\<forall>p < length cas. \<forall>q < length cas. p \<noteq> q \<longrightarrow> members (cas ! p) \<inter> members (cas ! q) = {})"

lemma sched_rep_outside:
  assumes rep: "sched_rep h s c as" and out: "same_outside A h h'" and A: "members (c, as) \<inter> A = {}"
  shows "sched_rep h' s c as"
proof -
  have "list_rep h' (sc_base s) as"
    using list_rep_outside [of h "sc_base s" as A h'] rep out A by (auto simp: sched_rep_def members_def)
  moreover have same: "h' a = h a" if "a \<in> members (c, as)" for a
    using that A same_outsideD [OF out] by blast
  moreover have "rank_sorted (rank_of h') as = rank_sorted (rank_of h) as"
    using same by (intro rank_sorted_cong) (simp add: members_def rank_of_def)
  moreover have "c \<noteq> 0 \<Longrightarrow> h' c = h c" using same [of c] by (simp add: members_def)
  ultimately show ?thesis using rep by (auto simp: sched_rep_def)
qed

lemma multilist_put:
  assumes mr: "multilist_rep h ls cas" and q: "q < length cas" and s: "sched_rep h' s c bs"
    and out: "same_outside A h h'" and A: "\<And>p. p < length cas \<Longrightarrow> p \<noteq> q \<Longrightarrow> members (cas ! p) \<inter> (A \<union> members (c, bs)) = {}"
  shows "multilist_rep h' (ls[q := s]) (cas[q := (c, bs)])"
proof -
  have "sched_rep h' (ls[q := s] ! p) (fst (cas[q := (c, bs)] ! p)) (snd (cas[q := (c, bs)] ! p))"
    if p: "p < length cas" for p
  proof (cases "p = q")
    case False
    have "sched_rep h (ls ! p) (fst (cas ! p)) (snd (cas ! p))" using mr p by (simp add: multilist_rep_def)
    then have "sched_rep h' (ls ! p) (fst (cas ! p)) (snd (cas ! p))"
      using sched_rep_outside [OF _ out, of "ls ! p" "fst (cas ! p)" "snd (cas ! p)"] A [OF p False] by auto
    then show ?thesis using False by simp
  qed (use s q mr in \<open>simp add: multilist_rep_def\<close>)
  moreover have "members (cas[q := (c, bs)] ! i) \<inter> members (cas[q := (c, bs)] ! j) = {}"
    if ij: "i < length cas" "j < length cas" "i \<noteq> j" for i j
  proof -
    have "members (cas ! i) \<inter> members (cas ! j) = {}" using mr ij by (simp add: multilist_rep_def)
    moreover have "i \<noteq> q \<Longrightarrow> members (cas ! i) \<inter> members (c, bs) = {}" using A [OF ij(1)] by blast
    moreover have "j \<noteq> q \<Longrightarrow> members (cas ! j) \<inter> members (c, bs) = {}" using A [OF ij(2)] by blast
    ultimately show ?thesis using ij q by (cases "i = q"; cases "j = q") (simp_all add: Int_commute)
  qed
  ultimately show ?thesis using mr by (simp add: multilist_rep_def)
qed

lemma multilist_sub: "multilist_rep h ls cas \<Longrightarrow> q < length cas \<Longrightarrow>
    sublist_at ls q = Some (ls ! q) \<and> sched_rep h (ls ! q) (fst (cas ! q)) (snd (cas ! q))"
  by (simp add: multilist_rep_def sublist_at_def)

lemma multilist_disjoint:
  "multilist_rep h ls cas \<Longrightarrow> p < length cas \<Longrightarrow> q < length cas \<Longrightarrow> p \<noteq> q \<Longrightarrow> members (cas ! p) \<inter> members (cas ! q) = {}"
  by (simp add: multilist_rep_def)

text \<open>What a queue becomes when \<open>e\<close> is inserted into it.\<close>

definition queue_put :: "(addr \<Rightarrow> int) \<Rightarrow> addr \<Rightarrow> addr \<times> addr list \<Rightarrow> addr \<times> addr list" where
  "queue_put r e ca = (if fst ca = 0 then (e, []) else (fst ca, rank_place r e (snd ca)))"

lemma members_queue_put: "e \<noteq> 0 \<Longrightarrow> (fst ca = 0 \<Longrightarrow> snd ca = []) \<Longrightarrow> members (queue_put r e ca) = insert e (members ca)"
  by (auto simp: members_def queue_put_def)

lemma sc_insert_put:
  assumes rep: "sched_rep h s c as" and e: "e \<noteq> 0" "h e \<noteq> None" "e \<notin> members (c, as)"
  shows "\<exists>h' s'. sc_insert h s e = Some (h', s') \<and>
           sched_rep h' s' (fst (queue_put (rank_of h) e (c, as))) (snd (queue_put (rank_of h) e (c, as))) \<and>
           dsame_data h h' \<and> same_outside (insert e (set as)) h h'"
proof (cases "c = 0")
  case True
  then show ?thesis using sc_insert_first [of h s e] rep e by (auto simp: queue_put_def sched_rep_def)
next
  case False
  then show ?thesis using sc_insert_rep [OF rep False e(1,2)] e(3) by (auto simp: queue_put_def members_def)
qed

definition all_members :: "(addr \<times> addr list) list \<Rightarrow> addr set" where
  "all_members cas = (\<Union>ca \<in> set cas. members ca)"

lemma members_all: "q < length cas \<Longrightarrow> members (cas ! q) \<subseteq> all_members cas"
  unfolding all_members_def by (rule UN_upper) (rule nth_mem)

lemma all_membersE: "a \<in> all_members cas \<Longrightarrow> \<exists>q < length cas. a \<in> members (cas ! q)"
  unfolding all_members_def by (metis UN_E in_set_conv_nth)

lemma set_snd_members: "set (snd ca) \<subseteq> members ca"
  by (auto simp: members_def)

lemma multilist_sched: "multilist_rep h ls cas \<Longrightarrow> q < length cas \<Longrightarrow> sched_rep h (ls ! q) (fst (cas ! q)) (snd (cas ! q))"
  by (simp add: multilist_rep_def)

lemma multilist_at: "multilist_rep h ls cas \<Longrightarrow> q < length cas \<Longrightarrow> sublist_at ls q = Some (ls ! q)"
  by (simp add: multilist_rep_def sublist_at_def)

lemma multilist_nonnull: "multilist_rep h ls cas \<Longrightarrow> 0 \<notin> all_members cas"
proof
  assume mr: "multilist_rep h ls cas" and "0 \<in> all_members cas"
  then obtain q where q: "q < length cas" "0 \<in> members (cas ! q)" using all_membersE by blast
  then show False
    using multilist_sched [OF mr q(1)] by (auto simp: members_def sched_rep_def dest: list_rep_nonnull split: if_splits)
qed

lemma multilist_mapped: "multilist_rep h ls cas \<Longrightarrow> a \<in> all_members cas \<Longrightarrow> h a \<noteq> None"
proof -
  assume mr: "multilist_rep h ls cas" and "a \<in> all_members cas"
  then obtain q where q: "q < length cas" "a \<in> members (cas ! q)" using all_membersE by blast
  then show ?thesis
    using multilist_sched [OF mr q(1)] list_rep_mapped by (fastforce simp: members_def sched_rep_def split: if_splits)
qed

text \<open>What an operation on queue \<open>q\<close> alone achieves: its contents become \<open>ca\<close>, all else is kept.\<close>

definition ml_becomes where
  "ml_becomes h cas q ca r \<longleftrightarrow>
     (\<exists>h' ls'. r = Some (h', ls') \<and> multilist_rep h' ls' (cas[q := ca]) \<and> dsame_data h h' \<and>
        same_outside (all_members cas \<union> members ca) h h')"

lemma ml_becomesI:
  assumes mr: "multilist_rep h ls cas" and q: "q < length cas" and s: "sched_rep h' s (fst ca) (snd ca)"
    and sd: "dsame_data h h'" and out: "same_outside (members (cas ! q) \<union> members ca) h h'"
    and A: "\<And>p. p < length cas \<Longrightarrow> p \<noteq> q \<Longrightarrow> members (cas ! p) \<inter> members ca = {}"
    and r: "r = Some (h', ls[q := s])"
  shows "ml_becomes h cas q ca r"
proof -
  have "multilist_rep h' (ls[q := s]) (cas[q := ca])"
    using multilist_put [OF mr q s out] A multilist_disjoint [OF mr _ q] by (simp add: Int_Un_distrib)
  moreover have "same_outside (all_members cas \<union> members ca) h h'"
    by (rule same_outside_trans [OF same_outside_refl out]) (use members_all [OF q] in auto)
  ultimately show ?thesis using sd r by (auto simp: ml_becomes_def)
qed

lemma ml_insert_rep:
  assumes mr: "multilist_rep h ls cas" and x: "e \<noteq> 0" "h e = Some x" "squeue x = q" "q < length cas"
    and fresh: "e \<notin> all_members cas"
  shows "ml_becomes h cas q (queue_put (rank_of h) e (cas ! q)) (ml_insert single_head h ls e)"
proof -
  note sub = multilist_sched [OF mr x(4)]
  have eq: "e \<notin> members (cas ! q)" using fresh members_all [OF x(4)] by auto
  obtain h' s where t: "sc_insert h (ls ! q) e = Some (h', s)"
    "sched_rep h' s (fst (queue_put (rank_of h) e (cas ! q))) (snd (queue_put (rank_of h) e (cas ! q)))"
    "dsame_data h h'" "same_outside (insert e (set (snd (cas ! q)))) h h'"
    using sc_insert_put [OF sub x(1)] x eq by auto
  have m: "members (queue_put (rank_of h) e (cas ! q)) = insert e (members (cas ! q))"
    using members_queue_put [of e "cas ! q"] sub x by (auto simp: sched_rep_def)
  show ?thesis
  proof (rule ml_becomesI [OF mr x(4) t(2,3)])
    show "same_outside (members (cas ! q) \<union> members (queue_put (rank_of h) e (cas ! q))) h h'"
      using t(4) set_snd_members [of "cas ! q"] m by (auto simp: same_outside_def)
    show "members (cas ! p) \<inter> members (queue_put (rank_of h) e (cas ! q)) = {}" if p: "p < length cas" "p \<noteq> q" for p
      using multilist_disjoint [OF mr p(1) x(4) p(2)] fresh members_all [OF p(1)] m by auto
  qed (use t x multilist_at [OF mr x(4)] in \<open>auto simp: ml_insert_def single_head_def store_simps\<close>)
qed

text \<open>Operations that keep the elements of the queue or take some away.\<close>

lemma ml_becomes_local:
  assumes mr: "multilist_rep h ls cas" and q: "q < length cas" and s: "sched_rep h' s (fst ca) (snd ca)"
    and sd: "dsame_data h h'" and out: "same_outside (members (cas ! q)) h h'" and sub: "members ca \<subseteq> members (cas ! q)"
    and r: "r = Some (h', ls[q := s])"
  shows "ml_becomes h cas q ca r"
proof (rule ml_becomesI [OF mr q s sd _ _ r])
  show "same_outside (members (cas ! q) \<union> members ca) h h'" using out sub by (simp add: Un_absorb2)
  show "members (cas ! p) \<inter> members ca = {}" if "p < length cas" "p \<noteq> q" for p
    using multilist_disjoint [OF mr that(1) q that(2)] sub by auto
qed

definition queue_pop :: "addr \<times> addr list \<Rightarrow> addr \<times> addr list" where
  "queue_pop ca = (if snd ca = [] then (0, []) else (hd (snd ca), tl (snd ca)))"

lemma ml_remove_chosen_rep:
  assumes mr: "multilist_rep h ls cas" and x: "h c = Some x" "squeue x = q" "q < length cas" "c \<noteq> 0" "fst (cas ! q) = c"
  shows "\<exists>r. ml_remove single_head h ls c = map_option (\<lambda>(h, ls). (h, ls, c)) r \<and> ml_becomes h cas q (queue_pop (cas ! q)) r"
proof -
  note sub = multilist_sched [OF mr x(3)]
  let ?as = "snd (cas ! q)"
  obtain h' s where t: "sc_remove h (ls ! q) c = Some (h', s, c)" "sched_rep h' s (if ?as = [] then 0 else hd ?as) (tl ?as)"
    "dsame_data h h'" "same_outside (set ?as) h h'"
    using sc_remove_chosen [of h "ls ! q" c ?as] sub x by auto
  have "ml_remove single_head h ls c = map_option (\<lambda>(h, ls). (h, ls, c)) (Some (h', ls[q := s]))"
    using t(1) x multilist_at [OF mr x(3)] by (simp add: ml_remove_def single_head_def store_simps)
  moreover have "ml_becomes h cas q (queue_pop (cas ! q)) (Some (h', ls[q := s]))"
  proof (rule ml_becomes_local [OF mr x(3) _ t(3) _ _ refl])
    show "sched_rep h' s (fst (queue_pop (cas ! q))) (snd (queue_pop (cas ! q)))"
      using t(2) by (simp add: queue_pop_def split: if_splits)
    show "same_outside (members (cas ! q)) h h'" using t(4) set_snd_members [of "cas ! q"] by (auto simp: same_outside_def)
    show "members (queue_pop (cas ! q)) \<subseteq> members (cas ! q)" by (cases ?as) (auto simp: members_def queue_pop_def)
  qed
  ultimately show ?thesis by blast
qed

lemma ml_remove_ready_rep:
  assumes mr: "multilist_rep h ls cas" and x: "h e = Some x" "squeue x = q" "q < length cas" "e \<in> set (snd (cas ! q))"
  shows "\<exists>r. ml_remove single_head h ls e = map_option (\<lambda>(h, ls). (h, ls, e)) r \<and>
           ml_becomes h cas q (fst (cas ! q), remove1 e (snd (cas ! q))) r"
proof -
  note sub = multilist_sched [OF mr x(3)]
  obtain us vs where as: "snd (cas ! q) = us @ e # vs" "e \<notin> set us" using x(4) by (meson split_list_first)
  have e0: "e \<noteq> 0" using sub x(4) by (auto simp: sched_rep_def dest: list_rep_nonnull)
  obtain h' s where t: "sc_remove h (ls ! q) e = Some (h', s, e)" "sched_rep h' s (fst (cas ! q)) (us @ vs)"
    "dsame_data h h'" "same_outside (set (us @ vs)) h h'"
    using sc_remove_ready [of h "ls ! q" "fst (cas ! q)" us e vs] sub as by auto
  have "ml_remove single_head h ls e = map_option (\<lambda>(h, ls). (h, ls, e)) (Some (h', ls[q := s]))"
    using t(1) x e0 multilist_at [OF mr x(3)] by (simp add: ml_remove_def single_head_def store_simps)
  moreover have "ml_becomes h cas q (fst (cas ! q), remove1 e (snd (cas ! q))) (Some (h', ls[q := s]))"
  proof (rule ml_becomes_local [OF mr x(3) _ t(3) _ _ refl])
    show "sched_rep h' s (fst (fst (cas ! q), remove1 e (snd (cas ! q)))) (snd (fst (cas ! q), remove1 e (snd (cas ! q))))"
      using t(2) as by (simp add: remove1_append)
    show "same_outside (members (cas ! q)) h h'" using t(4) as by (auto simp: same_outside_def members_def)
    show "members (fst (cas ! q), remove1 e (snd (cas ! q))) \<subseteq> members (cas ! q)"
      by (auto simp: members_def dest: subsetD [OF set_remove1_subset])
  qed
  ultimately show ?thesis by blast
qed

text \<open>A queue whose chosen element belongs to it elects an element of minimal rank.\<close>

definition queue_elect :: "(addr \<Rightarrow> int) \<Rightarrow> addr \<times> addr list \<Rightarrow> addr \<times> addr list" where
  "queue_elect r ca =
     (if snd ca = [] then ca
      else (hd (rank_place r (fst ca) (snd ca)), tl (rank_place r (fst ca) (snd ca))))"

lemma members_queue_elect:
  assumes "fst ca \<noteq> 0" "0 \<notin> set (snd ca)"
  shows "members (queue_elect r ca) = members ca"
proof -
  obtain d ds where bs: "rank_place r (fst ca) (snd ca) = d # ds" by (metis rank_place_not_Nil list.exhaust)
  then have "insert d (set ds) = insert (fst ca) (set (snd ca))" using set_rank_place [of r "fst ca" "snd ca"] by simp
  moreover from this have "d \<noteq> 0" using assms by auto
  ultimately show ?thesis using assms bs by (auto simp: members_def queue_elect_def)
qed

lemma sc_choose_elect:
  assumes rep: "sched_rep h s c as"
  shows "\<exists>h' s'. sc_choose h s = Some (h', s', fst (queue_elect (rank_of h) (c, as))) \<and>
           sched_rep h' s' (fst (queue_elect (rank_of h) (c, as))) (snd (queue_elect (rank_of h) (c, as))) \<and>
           dsame_data h h' \<and> same_outside (members (c, as)) h h'"
proof (cases "as = []")
  case True
  then show ?thesis using sc_choose_empty [of h s c] rep by (auto simp: queue_elect_def)
next
  case False
  then have "c \<noteq> 0" using rep by (auto simp: sched_rep_def)
  then show ?thesis using sc_choose_rep [OF rep False] False by (auto simp: queue_elect_def members_def)
qed

lemma ml_migrate_none:
  assumes mr: "multilist_rep h ls cas" and q: "q < length cas" and c: "fst (cas ! q) \<noteq> 0"
    and x: "h (fst (cas ! q)) = Some x" "squeue x = q"
  shows "ml_migrate single_head q h ls = Some (h, ls)"
  using multilist_sched [OF mr q] multilist_at [OF mr q] x c
  by (simp add: ml_migrate_def single_head_def store_simps sched_rep_def)

lemma ml_choose_rep:
  assumes mr: "multilist_rep h ls cas" and q: "q < length cas" and c: "fst (cas ! q) \<noteq> 0"
    and x: "h (fst (cas ! q)) = Some x" "squeue x = q"
  shows "\<exists>r. ml_choose single_head q h ls = map_option (\<lambda>(k, ms). (k, ms, fst (queue_elect (rank_of h) (cas ! q)))) r \<and>
           ml_becomes h cas q (queue_elect (rank_of h) (cas ! q)) r"
proof -
  note sub = multilist_sched [OF mr q]
  obtain h' s where t: "sc_choose h (ls ! q) = Some (h', s, fst (queue_elect (rank_of h) (cas ! q)))"
    "sched_rep h' s (fst (queue_elect (rank_of h) (cas ! q))) (snd (queue_elect (rank_of h) (cas ! q)))"
    "dsame_data h h'" "same_outside (members (cas ! q)) h h'"
    using sc_choose_elect [OF sub] by auto
  have "0 \<notin> set (snd (cas ! q))" using sub by (auto simp: sched_rep_def dest: list_rep_nonnull)
  then have m: "members (queue_elect (rank_of h) (cas ! q)) = members (cas ! q)"
    using members_queue_elect [OF c] by simp
  have "rank_of h' = rank_of h" using rank_of_dsame_data [OF t(3)] .
  then have "ml_choose single_head q h ls =
      map_option (\<lambda>(k, ms). (k, ms, fst (queue_elect (rank_of h) (cas ! q)))) (Some (h', ls[q := s]))"
    using ml_migrate_none [OF assms] t(1) multilist_at [OF mr q] by (simp add: ml_choose_def single_head_def)
  moreover have "ml_becomes h cas q (queue_elect (rank_of h) (cas ! q)) (Some (h', ls[q := s]))"
    using ml_becomes_local [OF mr q t(2,3,4) _ refl] m by simp
  ultimately show ?thesis by blast
qed

definition queue_next :: "(addr \<Rightarrow> int) \<Rightarrow> addr \<times> addr list \<Rightarrow> addr \<times> addr list" where
  "queue_next r ca =
     (if snd ca = [] \<or> r (hd (snd ca)) = IDLE then ca
      else (hd (snd ca), rank_place r (fst ca) (tl (snd ca))))"

lemma ml_choose_another_rep:
  assumes mr: "multilist_rep h ls cas" and q: "q < length cas" and c: "fst (cas ! q) \<noteq> 0"
    and x: "h (fst (cas ! q)) = Some x" "squeue x = q"
  shows "\<exists>r. ml_choose_another single_head q h ls = map_option (\<lambda>(k, ms). (k, ms, fst (queue_next (rank_of h) (cas ! q)))) r \<and>
           ml_becomes h cas q (queue_next (rank_of h) (cas ! q)) r"
proof -
  note sub = multilist_sched [OF mr q]
  let ?n = "queue_next (rank_of h) (cas ! q)"
  have "\<exists>h' s. sc_choose_another h (ls ! q) = Some (h', s, fst ?n) \<and> sched_rep h' s (fst ?n) (snd ?n) \<and>
    dsame_data h h' \<and> same_outside (members (cas ! q)) h h' \<and> members ?n \<subseteq> members (cas ! q)"
  proof (cases "snd (cas ! q) = [] \<or> rank_of h (hd (snd (cas ! q))) = IDLE")
    case True
    then have "sc_choose_another h (ls ! q) = Some (h, ls ! q, fst (cas ! q))"
      using sc_choose_another_idle [OF sub] by simp
    then show ?thesis using True sub by (auto simp: queue_next_def)
  next
    case False
    then obtain a bs where as: "snd (cas ! q) = a # bs" by (cases "snd (cas ! q)") auto
    then have n: "?n = (a, rank_place (rank_of h) (fst (cas ! q)) bs)" using False by (simp add: queue_next_def)
    have sub1: "members ?n \<subseteq> members (cas ! q)" and sub2: "insert (fst (cas ! q)) (set bs) \<subseteq> members (cas ! q)"
      using c as unfolding n by (auto simp: members_def)
    obtain h' s' where t: "sc_choose_another h (ls ! q) = Some (h', s', a)" "sched_rep h' s' a (rank_place (rank_of h) (fst (cas ! q)) bs)"
      "dsame_data h h'" "same_outside (insert (fst (cas ! q)) (set bs)) h h'"
      using sc_choose_another_rep [of h "ls ! q" "fst (cas ! q)" a bs] sub False as by auto
    have "same_outside (members (cas ! q)) h h'"
      by (rule same_outside_trans [OF same_outside_refl t(4)]) (use sub2 in blast)
    then show ?thesis using t sub1 by (auto simp: n)
  qed
  then obtain h' s where t: "sc_choose_another h (ls ! q) = Some (h', s, fst ?n)" "sched_rep h' s (fst ?n) (snd ?n)"
    "dsame_data h h'" "same_outside (members (cas ! q)) h h'" "members ?n \<subseteq> members (cas ! q)" by blast
  have "rank_of h' = rank_of h" using rank_of_dsame_data [OF t(3)] .
  then have "ml_choose_another single_head q h ls = map_option (\<lambda>(k, ms). (k, ms, fst (queue_next (rank_of h) (cas ! q)))) (Some (h', ls[q := s]))"
    using ml_migrate_none [OF assms] t(1) multilist_at [OF mr q] by (simp add: ml_choose_another_def single_head_def)
  then show ?thesis using ml_becomes_local [OF mr q t(2,3,4,5) refl] by blast
qed

lemma multilist_rep_outside:
  assumes mr: "multilist_rep h ls cas" and out: "same_outside A h h'" and A: "all_members cas \<inter> A = {}"
  shows "multilist_rep h' ls cas"
proof -
  have "sched_rep h' (ls ! q) (fst (cas ! q)) (snd (cas ! q))" if q: "q < length cas" for q
    using sched_rep_outside [OF multilist_sched [OF mr q] out] A members_all [OF q] by auto
  then show ?thesis using mr by (simp add: multilist_rep_def)
qed

end
