(* ===== verification/Grouping_List.thy ===== *)
theory Grouping_List
  imports Linked_List
begin

text \<open>
  \<open>Grouping_List\<close> of \<open>include/utility/list.h\<close>: a list whose elements stand for runs of consecutive objects
  and which merges adjacent runs. \<open>osz\<close> and \<open>esz\<close> are \<open>sizeof(Object_Type)\<close> and \<open>sizeof(Element)\<close>; pointer
  arithmetic on \<open>Object_Type *\<close> scales by \<open>osz\<close>, and all of it wraps at 64 bits as in the code.
\<close>

section \<open>The class\<close>

type_synonym 'm gstore = "'m delem_grouping_scheme store"

record grouping_list =
  gl_list :: linked_list
  gl_grouped :: ulong

definition gl_new :: grouping_list where
  "gl_new = \<lparr>gl_list = dl_new, gl_grouped = 0\<rparr>"

partial_function (option) gl_search_size_from :: "ulong \<Rightarrow> ulong \<Rightarrow> 'm gstore \<Rightarrow> addr \<Rightarrow> ulong \<Rightarrow> addr option" where
  "gl_search_size_from osz esz h e s =
     (if e = 0 then Some 0
      else do {
        x \<leftarrow> load h e;
        if (if osz < esz then gsize x < esz div osz + s \<and> gsize x \<noteq> s else gsize x < s)
        then gl_search_size_from osz esz h (nxt x) s
        else Some e })"

definition gl_search_size :: "ulong \<Rightarrow> ulong \<Rightarrow> 'm gstore \<Rightarrow> grouping_list \<Rightarrow> ulong \<Rightarrow> addr option" where
  "gl_search_size osz esz h g s = gl_search_size_from osz esz h (dl_head (gl_list g)) s"

partial_function (option) gl_search_left_from :: "ulong \<Rightarrow> 'm gstore \<Rightarrow> addr \<Rightarrow> addr \<Rightarrow> addr option" where
  "gl_search_left_from osz h e ob =
     (if e = 0 then Some 0
      else do {
        x \<leftarrow> load h e;
        if obj x + gsize x * osz \<noteq> ob then gl_search_left_from osz h (nxt x) ob else Some e })"

definition gl_search_left :: "ulong \<Rightarrow> 'm gstore \<Rightarrow> grouping_list \<Rightarrow> addr \<Rightarrow> addr option" where
  "gl_search_left osz h g ob = gl_search_left_from osz h (dl_head (gl_list g)) ob"

text \<open>The three conditional steps of \<open>insert_merging\<close>, then the method; \<open>m1\<close> and \<open>m2\<close> are its output arguments.\<close>

definition gl_link :: "'m gstore \<Rightarrow> linked_list \<Rightarrow> addr \<Rightarrow> addr \<Rightarrow> ('m gstore \<times> linked_list) option" where
  "gl_link h b e l = (if l = 0 then dl_insert_tail h b e else Some (h, b))"

definition gl_merge_right :: "'m gstore \<Rightarrow> linked_list \<Rightarrow> addr \<Rightarrow> addr \<Rightarrow> ('m gstore \<times> linked_list \<times> addr) option" where
  "gl_merge_right h b e r =
     (if r \<noteq> 0
      then do {
        x \<leftarrow> load h e; y \<leftarrow> load h r;
        h \<leftarrow> modify h e (gsize_update (\<lambda>_. gsize x + gsize y));
        (h, b, _) \<leftarrow> dl_remove h b r;
        Some (h, b, r) }
      else Some (h, b, 0))"

definition gl_merge_left :: "'m gstore \<Rightarrow> addr \<Rightarrow> addr \<Rightarrow> ('m gstore \<times> addr) option" where
  "gl_merge_left h e l =
     (if l \<noteq> 0
      then do {
        y \<leftarrow> load h l; x \<leftarrow> load h e;
        h \<leftarrow> modify h l (gsize_update (\<lambda>_. gsize y + gsize x));
        Some (h, e) }
      else Some (h, 0))"

definition gl_insert_merging ::
  "ulong \<Rightarrow> 'm gstore \<Rightarrow> grouping_list \<Rightarrow> addr \<Rightarrow> ('m gstore \<times> grouping_list \<times> addr \<times> addr) option" where
  "gl_insert_merging osz h g e = do {
     x \<leftarrow> load h e;
     r \<leftarrow> dl_search h (gl_list g) (obj x + gsize x * osz);
     l \<leftarrow> gl_search_left osz h g (obj x);
     (h, b) \<leftarrow> gl_link h (gl_list g) e l;
     (h, b, m1) \<leftarrow> gl_merge_right h b e r;
     (h, m2) \<leftarrow> gl_merge_left h e l;
     Some (h, \<lparr>gl_list = b, gl_grouped = gl_grouped g + gsize x\<rparr>, m1, m2) }"

definition gl_search_decrementing ::
  "ulong \<Rightarrow> ulong \<Rightarrow> 'm gstore \<Rightarrow> grouping_list \<Rightarrow> ulong \<Rightarrow> ('m gstore \<times> grouping_list \<times> addr) option" where
  "gl_search_decrementing osz esz h g s = do {
     e \<leftarrow> gl_search_size osz esz h g s;
     if e \<noteq> 0
     then do {
       h \<leftarrow> shrink h e s;
       x \<leftarrow> load h e;
       (h, b) \<leftarrow> (if gsize x = 0 then do { (h, b, _) \<leftarrow> dl_remove h (gl_list g) e; Some (h, b) } else Some (h, gl_list g));
       Some (h, \<lparr>gl_list = b, gl_grouped = gl_grouped g - s\<rparr>, e) }
     else Some (h, g, 0) }"

section \<open>Sizes and objects of a store\<close>

definition gsize_of :: "'m gstore \<Rightarrow> addr \<Rightarrow> ulong" where
  "gsize_of h a = (case h a of None \<Rightarrow> 0 | Some x \<Rightarrow> gsize x)"

lemma gsize_of_Some [simp]: "h a = Some x \<Longrightarrow> gsize_of h a = gsize x"
  by (simp add: gsize_of_def)

lemma gsize_of_upd [simp]: "gsize_of (h(a \<mapsto> x)) = (gsize_of h)(a := gsize x)"
  by (auto simp: gsize_of_def fun_eq_iff)

lemma gsize_of_dsame: "dsame_data h h' \<Longrightarrow> gsize_of h' = gsize_of h"
proof
  fix a
  assume sd: "dsame_data h h'"
  show "gsize_of h' a = gsize_of h a"
  proof (cases "h a")
    case None
    then show ?thesis using dsame_data_None [OF sd, of a] by (simp add: gsize_of_def)
  next
    case (Some x)
    then show ?thesis using dsame_dataD [OF sd Some] by auto
  qed
qed

lemma list_rep_gsize: "list_rep h b as \<Longrightarrow> h e = Some x \<Longrightarrow> list_rep (h(e \<mapsto> x\<lparr>gsize := s\<rparr>)) b as"
  by (erule list_rep_cong) auto

section \<open>Searching\<close>

lemma gl_search_left_chain: "chain h p as 0 \<Longrightarrow> (\<And>a. a \<in> set as \<Longrightarrow> map_option obj (h a) = Some a) \<Longrightarrow>
    gl_search_left_from 1 h p ob = Some (case find (\<lambda>a. a + gsize_of h a = ob) as of None \<Rightarrow> 0 | Some a \<Rightarrow> a)"
proof (induction as arbitrary: p)
  case Nil
  then show ?case by (simp add: gl_search_left_from.simps)
next
  case (Cons a as)
  then obtain x where "h a = Some x" "obj x = a" by fastforce
  then show ?case using Cons by (auto simp: gl_search_left_from.simps [of 1 h a] store_simps)
qed

lemma gl_search_size_chain: "chain h p as 0 \<Longrightarrow> osz < esz \<Longrightarrow>
    gl_search_size_from osz esz h p s =
      Some (case find (\<lambda>a. esz div osz + s \<le> gsize_of h a \<or> gsize_of h a = s) as of None \<Rightarrow> 0 | Some a \<Rightarrow> a)"
proof (induction as arbitrary: p)
  case Nil
  then show ?case by (simp add: gl_search_size_from.simps)
next
  case (Cons a as)
  then show ?case by (auto simp: gl_search_size_from.simps [of osz esz h a] store_simps not_less)
qed

lemma find_obj_self:
  "(\<And>a. a \<in> set as \<Longrightarrow> map_option obj (h a) = Some a) \<Longrightarrow> find_obj h as ob = (if ob \<in> set as then ob else 0)"
proof -
  assume obj: "\<And>a. a \<in> set as \<Longrightarrow> map_option obj (h a) = Some a"
  then have "find (\<lambda>a. map_option obj (h a) = Some ob) as = find (\<lambda>a. a = ob) as"
    by (intro find_cong) (simp_all del: map_option_eq_Some)
  then show ?thesis by (auto simp: find_obj_def find_Some_iff find_None_iff split: option.splits)
qed

section \<open>The steps of a merging insertion\<close>

lemma gl_link_rep:
  assumes rep: "list_rep h b as" and e: "e \<noteq> 0" "h e = Some x" "e \<notin> set as"
  shows "\<exists>h' b'. gl_link h b e l = Some (h', b') \<and> list_rep h' b' (if l = 0 then as @ [e] else as) \<and>
           dsame_data h h' \<and> same_outside (insert e (set as)) h h'"
  using dl_insert_tail_rep [OF rep e] rep by (cases "l = 0") (auto simp: gl_link_def)

lemma gl_merge_right_rep:
  assumes rep: "list_rep h b bs" and e: "e \<noteq> 0" "h e = Some x" and r: "r \<noteq> 0 \<Longrightarrow> r \<in> set bs \<and> r \<noteq> e"
  shows "\<exists>h' b'. gl_merge_right h b e r = Some (h', b', r) \<and> list_rep h' b' (if r = 0 then bs else remove1 r bs) \<and>
           gsize_of h' = (gsize_of h)(e := gsize x + (if r = 0 then 0 else gsize_of h r)) \<and>
           same_obj h h' \<and> same_outside (insert e (set bs)) h h'"
proof (cases "r = 0")
  case True
  then show ?thesis using rep e by (auto simp: gl_merge_right_def fun_eq_iff)
next
  case False
  then obtain us vs where bs: "bs = us @ r # vs" using r by (meson split_list)
  have d: "r \<notin> set us" using rep bs by (auto simp: list_rep_def)
  obtain y where y: "h r = Some y" using list_rep_mapped [OF rep] r False by blast
  let ?h = "h(e \<mapsto> x\<lparr>gsize := gsize x + gsize y\<rparr>)"
  obtain h' b' where t: "dl_remove ?h b r = Some (h', b', r)" "list_rep h' b' (us @ vs)" "dsame_data ?h h'"
    "same_outside (set (us @ vs)) ?h h'"
    using dl_remove_rep [of ?h b us r vs] list_rep_gsize [OF rep e(2)] bs by auto
  have "same_obj h h'"
    using same_obj_trans [OF _ same_obj_dsame [OF t(3)]] e by simp
  moreover have "same_outside (insert e (set bs)) h h'"
    using t(4) bs by (auto simp: same_outside_def)
  moreover have "gsize_of h' = (gsize_of h)(e := gsize x + gsize_of h r)"
    using gsize_of_dsame [OF t(3)] y by simp
  ultimately show ?thesis
    using False t y e d bs by (auto simp: gl_merge_right_def store_simps remove1_append)
qed

lemma gl_merge_left_rep:
  assumes rep: "list_rep h b bs" and e: "e \<noteq> 0" "h e = Some x" and l: "l \<noteq> 0 \<Longrightarrow> h l = Some y"
  shows "\<exists>h'. gl_merge_left h e l = Some (h', if l = 0 then 0 else e) \<and> list_rep h' b bs \<and>
           gsize_of h' = (if l = 0 then gsize_of h else (gsize_of h)(l := gsize y + gsize x)) \<and>
           same_obj h h' \<and> same_outside (if l = 0 then {} else {l}) h h'"
proof (cases "l = 0")
  case False
  then show ?thesis
    using list_rep_gsize [OF rep l] l e by (auto simp: gl_merge_left_def store_simps same_outside_def)
qed (use rep in \<open>auto simp: gl_merge_left_def\<close>)

section \<open>A merging insertion\<close>

text \<open>The neighbours of the run \<open>e\<close> in a list of byte runs, and the sizes after merging with them.\<close>

definition left_of :: "(addr \<Rightarrow> ulong) \<Rightarrow> addr list \<Rightarrow> addr \<Rightarrow> addr" where
  "left_of sz as e = (case find (\<lambda>a. a + sz a = e) as of None \<Rightarrow> 0 | Some a \<Rightarrow> a)"

definition right_of :: "(addr \<Rightarrow> ulong) \<Rightarrow> addr list \<Rightarrow> addr \<Rightarrow> addr" where
  "right_of sz as e = (if e + sz e \<in> set as then e + sz e else 0)"

definition merged_list :: "(addr \<Rightarrow> ulong) \<Rightarrow> addr list \<Rightarrow> addr \<Rightarrow> addr list" where
  "merged_list sz as e =
     (let bs = (if left_of sz as e = 0 then as @ [e] else as) in
      if right_of sz as e = 0 then bs else remove1 (right_of sz as e) bs)"

definition merged_size :: "(addr \<Rightarrow> ulong) \<Rightarrow> addr list \<Rightarrow> addr \<Rightarrow> addr \<Rightarrow> ulong" where
  "merged_size sz as e =
     (let l = left_of sz as e; r = right_of sz as e; s = sz e + (if r = 0 then 0 else sz r) in
      if l = 0 then sz(e := s) else (sz(e := s))(l := sz l + s))"

lemma left_of_in:
  assumes "left_of sz as e \<noteq> 0"
  shows "left_of sz as e \<in> set as \<and> left_of sz as e + sz (left_of sz as e) = e"
proof -
  obtain a where a: "find (\<lambda>a. a + sz a = e) as = Some a" using assms by (auto simp: left_of_def split: option.splits)
  then have "a \<in> set as" "a + sz a = e" by (auto simp: find_Some_iff)
  with a show ?thesis by (simp add: left_of_def)
qed

lemma left_of_0: "left_of sz as e = 0 \<Longrightarrow> 0 \<notin> set as \<Longrightarrow> a \<in> set as \<Longrightarrow> a + sz a \<noteq> e"
  by (cases "find (\<lambda>a. a + sz a = e) as") (auto simp: left_of_def find_Some_iff find_None_iff dest: nth_mem)

lemma gl_insert_merging_rep:
  assumes rep: "list_rep h (gl_list g) as" and e: "e \<noteq> 0" "h e = Some x" "obj x = e" "e \<notin> set as" "gsize x \<noteq> 0"
    and obj: "\<And>a. a \<in> set as \<Longrightarrow> map_option obj (h a) = Some a"
    and lr: "left_of (gsize_of h) as e \<noteq> 0 \<Longrightarrow> left_of (gsize_of h) as e \<noteq> right_of (gsize_of h) as e"
  shows "\<exists>h' g' m1 m2. gl_insert_merging 1 h g e = Some (h', g', m1, m2) \<and>
           list_rep h' (gl_list g') (merged_list (gsize_of h) as e) \<and>
           gsize_of h' = merged_size (gsize_of h) as e \<and> gl_grouped g' = gl_grouped g + gsize x \<and>
           same_obj h h' \<and> same_outside (insert e (set as)) h h'"
proof -
  let ?l = "left_of (gsize_of h) as e" and ?r = "right_of (gsize_of h) as e"
  have r0: "?r \<noteq> 0 \<Longrightarrow> ?r \<in> set as" by (auto simp: right_of_def split: if_splits)
  have r: "dl_search h (gl_list g) (obj x + gsize x * 1) = Some ?r"
    using dl_search_rep [OF rep] find_obj_self [of as h, OF obj] e by (simp add: right_of_def)
  have l: "gl_search_left 1 h g (obj x) = Some ?l"
    using gl_search_left_chain [of h "dl_head (gl_list g)" as e] rep obj e
    by (simp add: gl_search_left_def left_of_def list_rep_def)
  define bs where "bs = (if ?l = 0 then as @ [e] else as)"
  obtain h1 b1 where h1: "gl_link h (gl_list g) e ?l = Some (h1, b1)" "list_rep h1 b1 bs" "dsame_data h h1"
    "same_outside (insert e (set as)) h h1"
    using gl_link_rep [OF rep e(1,2,4), of ?l] by (auto simp: bs_def)
  obtain x1 where x1: "h1 e = Some x1" "gsize x1 = gsize x" "obj x1 = e"
    using dsame_dataD [OF h1(3) e(2)] e(3) by auto
  have sz1: "gsize_of h1 = gsize_of h" using gsize_of_dsame [OF h1(3)] .
  have rb: "?r \<noteq> 0 \<Longrightarrow> ?r \<in> set bs \<and> ?r \<noteq> e" using r0 e(4) by (auto simp: bs_def)
  obtain h2 b2 where h2: "gl_merge_right h1 b1 e ?r = Some (h2, b2, ?r)"
    "list_rep h2 b2 (if ?r = 0 then bs else remove1 ?r bs)"
    "gsize_of h2 = (gsize_of h)(e := gsize x + (if ?r = 0 then 0 else gsize_of h ?r))" "same_obj h1 h2"
    "same_outside (insert e (set bs)) h1 h2"
    using gl_merge_right_rep [OF h1(2) e(1) x1(1) rb] unfolding sz1 x1(2) by blast
  have so2: "same_obj h h2" using same_obj_trans [OF same_obj_dsame [OF h1(3)] h2(4)] .
  obtain x2 where x2: "h2 e = Some x2" using same_obj_Some [OF so2 e(2)] by auto
  then have gx2: "gsize x2 = gsize x + (if ?r = 0 then 0 else gsize_of h ?r)"
    using h2(3) gsize_of_Some [of h2 e x2] x2 by (auto split: if_splits)
  have "?l \<noteq> 0 \<Longrightarrow> \<exists>y. h2 ?l = Some y"
    using left_of_in [of "gsize_of h" as e] list_rep_mapped [OF rep] same_obj_Some [OF so2] by blast
  then obtain y where y: "?l \<noteq> 0 \<Longrightarrow> h2 ?l = Some y" by blast
  have le: "?l \<noteq> 0 \<Longrightarrow> ?l \<noteq> e" using left_of_in [of "gsize_of h" as e] e(4) by auto
  then have gy: "?l \<noteq> 0 \<Longrightarrow> gsize y = gsize_of h ?l"
    using h2(3) gsize_of_Some [of h2 ?l y] y by (auto split: if_splits)
  obtain h3 where h3: "gl_merge_left h2 e ?l = Some (h3, if ?l = 0 then 0 else e)"
    "list_rep h3 b2 (if ?r = 0 then bs else remove1 ?r bs)"
    "gsize_of h3 = (if ?l = 0 then gsize_of h2 else (gsize_of h2)(?l := gsize y + gsize x2))"
    "same_obj h2 h3" "same_outside (if ?l = 0 then {} else {?l}) h2 h3"
    using gl_merge_left_rep [OF h2(2) e(1) x2 y] by auto
  have "gsize_of h3 = merged_size (gsize_of h) as e"
    using h3(3) h2(3) gx2 gy e(2) by (auto simp: merged_size_def Let_def fun_eq_iff)
  moreover have "same_outside (insert e (set as)) h h3"
    by (rule same_outside_trans [OF same_outside_trans [OF h1(4) h2(5) order.refl] h3(5)])
       (use left_of_in [of "gsize_of h" as e] in \<open>auto simp: bs_def\<close>)
  moreover have "gl_insert_merging 1 h g e =
      Some (h3, \<lparr>gl_list = b2, gl_grouped = gl_grouped g + gsize x\<rparr>, ?r, if ?l = 0 then 0 else e)"
    using r l h1(1) h2(1) h3(1) e by (simp add: gl_insert_merging_def store_simps)
  moreover have "merged_list (gsize_of h) as e = (if ?r = 0 then bs else remove1 ?r bs)"
    by (simp add: merged_list_def bs_def)
  ultimately show ?thesis
    using h3(2) same_obj_trans [OF so2 h3(4)] by simp
qed

section \<open>Taking from a run\<close>

text \<open>The run a request of \<open>s\<close> objects is served from, 0 when there is none.\<close>

definition fit_of :: "ulong \<Rightarrow> (addr \<Rightarrow> ulong) \<Rightarrow> addr list \<Rightarrow> ulong \<Rightarrow> addr" where
  "fit_of esz sz as s =
     (case find (\<lambda>a. esz + s \<le> sz a \<or> sz a = s) as of None \<Rightarrow> 0 | Some a \<Rightarrow> a)"

lemma fit_of_in:
  assumes "fit_of esz sz as s \<noteq> 0"
  shows "fit_of esz sz as s \<in> set as \<and> (esz + s \<le> sz (fit_of esz sz as s) \<or> sz (fit_of esz sz as s) = s)"
proof -
  obtain a where a: "find (\<lambda>a. esz + s \<le> sz a \<or> sz a = s) as = Some a"
    using assms by (auto simp: fit_of_def split: option.splits)
  then have "a \<in> set as" "esz + s \<le> sz a \<or> sz a = s" by (auto simp: find_Some_iff)
  with a show ?thesis by (simp add: fit_of_def)
qed

lemma fit_of_0: "fit_of esz sz as s = 0 \<Longrightarrow> 0 \<notin> set as \<Longrightarrow> a \<in> set as \<Longrightarrow> sz a < esz + s \<and> sz a \<noteq> s"
  by (cases "find (\<lambda>a. esz + s \<le> sz a \<or> sz a = s) as")
     (auto simp: fit_of_def find_Some_iff find_None_iff not_le dest: nth_mem)

lemma gl_search_size_rep:
  "list_rep h (gl_list g) as \<Longrightarrow> 1 < esz \<Longrightarrow> gl_search_size 1 esz h g s = Some (fit_of esz (gsize_of h) as s)"
  using gl_search_size_chain [of h "dl_head (gl_list g)" as 1 esz s]
  by (simp add: gl_search_size_def list_rep_def fit_of_def)

lemma gl_search_decrementing_none:
  "list_rep h (gl_list g) as \<Longrightarrow> 1 < esz \<Longrightarrow> fit_of esz (gsize_of h) as s = 0 \<Longrightarrow>
   gl_search_decrementing 1 esz h g s = Some (h, g, 0)"
  by (simp add: gl_search_decrementing_def gl_search_size_rep)

lemma gl_search_decrementing_rep:
  assumes rep: "list_rep h (gl_list g) as" and esz: "1 < esz" and e: "fit_of esz (gsize_of h) as s = e" "e \<noteq> 0"
  shows "\<exists>h' g'. gl_search_decrementing 1 esz h g s = Some (h', g', e) \<and>
           list_rep h' (gl_list g') (if gsize_of h e = s then remove1 e as else as) \<and>
           gsize_of h' = (gsize_of h)(e := gsize_of h e - s) \<and> gl_grouped g' = gl_grouped g - s \<and>
           same_obj h h' \<and> same_outside (set as) h h'"
proof -
  have e_in: "e \<in> set as" using fit_of_in [of esz "gsize_of h" as s] e by auto
  then obtain x where x: "h e = Some x" using list_rep_mapped [OF rep] by blast
  let ?h = "h(e \<mapsto> x\<lparr>gsize := gsize x - s\<rparr>)"
  have rep1: "list_rep ?h (gl_list g) as" using list_rep_gsize [OF rep x] .
  have search: "gl_search_size 1 esz h g s = Some e" using gl_search_size_rep [OF rep esz] e by simp
  show ?thesis
  proof (cases "gsize x = s")
    case False
    then have "gl_search_decrementing 1 esz h g s = Some (?h, \<lparr>gl_list = gl_list g, gl_grouped = gl_grouped g - s\<rparr>, e)"
      using search x e by (simp add: gl_search_decrementing_def shrink_def store_simps)
    then show ?thesis using rep1 False x e_in by (auto simp: same_outside_def)
  next
    case True
    obtain us vs where as: "as = us @ e # vs" using e_in by (meson split_list)
    have d: "e \<notin> set us" using rep as by (auto simp: list_rep_def)
    obtain h' b where t: "dl_remove ?h (gl_list g) e = Some (h', b, e)" "list_rep h' b (us @ vs)" "dsame_data ?h h'"
      "same_outside (set (us @ vs)) ?h h'"
      using dl_remove_rep [of ?h "gl_list g" us e vs] rep1 as by auto
    have "gl_search_decrementing 1 esz h g s = Some (h', \<lparr>gl_list = b, gl_grouped = gl_grouped g - s\<rparr>, e)"
      using True search x e t(1) by (simp add: gl_search_decrementing_def shrink_def store_simps)
    moreover have "same_obj h h'" using same_obj_trans [OF _ same_obj_dsame [OF t(3)]] x by simp
    moreover have "same_outside (set as) h h'" using t(4) as by (auto simp: same_outside_def)
    ultimately show ?thesis
      using t(2) gsize_of_dsame [OF t(3)] True x as d by (simp add: remove1_append)
  qed
qed

end
