(* ===== verification/List_Properties.thy ===== *)
theory List_Properties
  imports Simple_Ordered_List Scheduling_Multilist Grouping_List
begin

text \<open>
  What the list classes of \<open>include/utility/list.h\<close> promise their clients, over whole runs of operations
  where the contract is about runs. The queues of \<open>include/utility/queue.h\<close> only rename these classes.
\<close>

text \<open>
  A \<open>Simple_List\<close> is a first-in first-out queue: from the empty list, any sequence of distinct elements
  put in with \<open>insert\<close> is taken out by \<open>remove\<close> in the same order, no operation faults, and the list is
  empty again.
\<close>

theorem simple_list_fifo:
  assumes "\<And>e. e \<in> set es \<Longrightarrow> e \<noteq> 0 \<and> h e \<noteq> None" "distinct es"
  shows "\<exists>h1 l1 h2 l2. put_all sl_insert h sl_new es = Some (h1, l1) \<and>
    get_many sl_get (length es) h1 l1 = Some (h2, l2, es) \<and> sl_empty l2 \<and> sl_get h2 l2 = Some (h2, l2, 0)"
proof -
  obtain h1 l1 h2 l2 where t: "put_all sl_insert h sl_new es = Some (h1, l1)"
    "get_many sl_get (length es) h1 l1 = Some (h2, l2, es)" "simple_rep h2 l2 []"
    using sl.drain [of h sl_new "[]" es] assms by (auto simp: sl_usable_def simple_rep_new)
  then show ?thesis using sl_empty_rep [of h2 l2 "[]"] sl.get_none [of h2 l2] by auto
qed

text \<open>
  A doubly-linked \<open>List\<close> is a first-in first-out queue, starting from any contents \<open>as\<close>.
\<close>

theorem list_fifo:
  assumes "list_rep h l as" "\<And>e. e \<in> set es \<Longrightarrow> e \<noteq> 0 \<and> h e \<noteq> None" "distinct es" "set as \<inter> set es = {}"
  shows "\<exists>h1 l1 h2 l2. put_all dl_insert h l es = Some (h1, l1) \<and>
    get_many dl_remove_head (length as + length es) h1 l1 = Some (h2, l2, as @ es) \<and> dl_empty l2"
proof -
  obtain h1 l1 h2 l2 where t: "put_all dl_insert h l es = Some (h1, l1)"
    "get_many dl_remove_head (length as + length es) h1 l1 = Some (h2, l2, as @ es)" "list_rep h2 l2 []"
    using dl.drain [OF assms(1) _ assms(3,4)] assms(2) by (auto simp: dl_usable_def)
  then show ?thesis using dl_empty_rep [of h2 l2 "[]"] by blast
qed

text \<open>
  Removing any element of a \<open>List\<close>, wherever it is, takes out exactly that element, keeps the order
  of the rest, and writes nothing but the links of the elements that stay.
\<close>

theorem list_remove_any:
  assumes "list_rep h l as" "e \<in> set as"
  shows "\<exists>h' l'. dl_remove h l e = Some (h', l', e) \<and> list_rep h' l' (remove1 e as) \<and> dsame_data h h' \<and>
    (\<forall>a. a \<notin> set as - {e} \<longrightarrow> h' a = h a)"
proof -
  obtain xs ys where as: "as = xs @ e # ys" "e \<notin> set xs" using assms(2) by (meson split_list_first)
  have "e \<notin> set ys" using assms(1) as by (simp add: list_rep_def)
  then have "set (xs @ ys) = set as - {e}" using as by auto
  then show ?thesis
    using dl_remove_rep [of h l xs e ys] assms(1) as unfolding same_outside_def by (auto simp: remove1_append)
qed

text \<open>
  An \<open>Ordered_List\<close> and a \<open>Relative_List\<close> both sort: elements inserted with any ranks leave the list in
  non-decreasing order of rank and in order of insertion among equals. For the relative list the ranks
  are the ones the elements were inserted with, although the list stores offsets.
\<close>

theorem ordered_list_sorts:
  assumes "\<And>e R. (e, R) \<in> set ps \<Longrightarrow> e \<noteq> 0 \<and> (\<exists>x. h e = Some x \<and> rank x = R)" "distinct (map fst ps)"
  shows "\<exists>h1 l1 h2 l2. put_all (ol_insert rel) h dl_new (map fst ps) = Some (h1, l1) \<and>
    get_many (ol_remove_front rel) (length ps) h1 l1 = Some (h2, l2, map fst (sort_key snd ps)) \<and> dl_empty l2"
proof -
  have new: "ol_queue rel h dl_new []" by (simp add: ol_queue_def list_rep_new)
  have "ol_ranked h (fst y) (snd y)" if "y \<in> set ps" for y
    using assms(1) [of "fst y" "snd y"] that by (simp add: ol_ranked_def)
  then obtain h1 l1 h2 l2 where t: "put_all (ol_insert rel) h dl_new (map fst ps) = Some (h1, l1)"
    "get_many (ol_remove_front rel) (length ps) h1 l1 = Some (h2, l2, map fst (sort_key snd ps))" "ol_queue rel h2 l2 []"
    using ol.drain_sorted [OF new _ assms(2)] by auto
  then show ?thesis using dl_empty_rep [of h2 l2 "[]"] by (auto simp: ol_queue_def)
qed

text \<open>
  The singly-linked \<open>Simple_Ordered_List\<close> and \<open>Simple_Relative_List\<close> sort in the same way.
\<close>

theorem simple_ordered_list_sorts:
  assumes "\<And>e R. (e, R) \<in> set ps \<Longrightarrow> e \<noteq> 0 \<and> (\<exists>x. h e = Some x \<and> srank x = R)" "distinct (map fst ps)"
  shows "\<exists>h1 l1 h2 l2. put_all (sol_insert rel) h sl_new (map fst ps) = Some (h1, l1) \<and>
    get_many (sol_remove_front rel) (length ps) h1 l1 = Some (h2, l2, map fst (sort_key snd ps)) \<and> sl_empty l2"
proof -
  have new: "sol_queue rel h sl_new []" by (simp add: sol_queue_def simple_rep_new)
  have "sol_ranked h (fst y) (snd y)" if "y \<in> set ps" for y
    using assms(1) [of "fst y" "snd y"] that by (simp add: sol_ranked_def)
  then obtain h1 l1 h2 l2 where t: "put_all (sol_insert rel) h sl_new (map fst ps) = Some (h1, l1)"
    "get_many (sol_remove_front rel) (length ps) h1 l1 = Some (h2, l2, map fst (sort_key snd ps))" "sol_queue rel h2 l2 []"
    using sol.drain_sorted [OF new _ assms(2)] by auto
  then show ?thesis using sl_empty_rep [of h2 l2 "[]"] by (auto simp: sol_queue_def)
qed

text \<open>
  Taking any element out of a \<open>Relative_List\<close> (an alarm that is deleted, say) leaves every other element
  with the absolute rank it had: the successor inherits the offset.
\<close>

theorem relative_list_remove:
  assumes "list_rep h l as" "e \<in> set as"
  shows "\<exists>h' l' bs. ol_remove True h l e = Some (h', l', e) \<and> list_rep h' l' bs \<and>
    abs_ranks (rank_of h') 0 bs = filter (\<lambda>(a, d). a \<noteq> e) (abs_ranks (rank_of h) 0 as)"
proof -
  obtain us vs where as: "as = us @ e # vs" using assms(2) by (meson split_list)
  have d: "distinct (us @ e # vs)" using assms(1) as by (simp add: list_rep_def)
  show ?thesis using ol_remove_rep [of h l us e vs True] assms(1) as abs_ranks_remove [OF d, of "rank_of h"] by auto
qed

lemma sc_choose_min:
  assumes "sched_rep h s c as" "c \<noteq> 0"
  shows "\<exists>h' s' d ds. sc_choose h s = Some (h', s', d) \<and> sched_rep h' s' d ds \<and>
    mset (d # ds) = mset (c # as) \<and> (\<forall>a \<in> set (c # as). rank_of h d \<le> rank_of h a) \<and> dsame_data h h' \<and>
    (d \<noteq> c \<longrightarrow> as \<noteq> [] \<and> d = hd as)"
proof (cases "as = []")
  case True
  then show ?thesis using sc_choose_empty [of h s c] assms by auto
next
  case False
  let ?bs = "rank_place (rank_of h) c as"
  obtain d ds where bs: "?bs = d # ds" by (metis rank_place_not_Nil list.exhaust)
  obtain h' s' where t: "sc_choose h s = Some (h', s', d)" "sched_rep h' s' d ds" "dsame_data h h'"
    using sc_choose_rep [OF assms(1) False] bs by auto
  have "mset ?bs = mset (c # as)"
  proof -
    have "mset as = mset (takeWhile (\<lambda>a. rank_of h a \<le> rank_of h c) as) + mset (dropWhile (\<lambda>a. rank_of h a \<le> rank_of h c) as)"
      by (metis mset_append takeWhile_dropWhile_id)
    then show ?thesis by (simp add: rank_place_def)
  qed
  moreover have "rank_sorted (rank_of h) (d # ds)"
    using rank_place_sorted [of "rank_of h" as c] assms(1) bs by (simp add: sched_rep_def)
  then have "\<forall>a \<in> set ?bs. rank_of h d \<le> rank_of h a" using bs by (auto simp: rank_sorted_def)
  then have "\<forall>a \<in> set (c # as). rank_of h d \<le> rank_of h a" by simp
  moreover have "d \<noteq> c \<longrightarrow> as \<noteq> [] \<and> d = hd as" using bs False by (cases as) (auto simp: rank_place_def split: if_splits)
  ultimately show ?thesis using t unfolding bs by blast
qed

text \<open>
  C18. \<open>Scheduling_List::choose\<close> elects an element of minimal rank among the chosen one and the waiting
  ones, keeps the others waiting in order of rank, and loses and duplicates none. The chosen element is
  only replaced by one that precedes it or that has waited longer at the same rank.
\<close>

theorem scheduling_list_choose:
  assumes "sched_rep h s c as" "c \<noteq> 0"
  shows "\<exists>h' s' d ds. sc_choose h s = Some (h', s', d) \<and> sched_rep h' s' d ds \<and>
    mset (d # ds) = mset (c # as) \<and> (\<forall>a \<in> set (c # as). rank_of h d \<le> rank_of h a) \<and> dsame_data h h' \<and>
    (d \<noteq> c \<longrightarrow> as \<noteq> [] \<and> d = hd as)"
  by (rule sc_choose_min [OF assms])

text \<open>
  \<open>Scheduling_List::choose_another\<close> gives the place to the first waiting element, whatever the rank of
  the chosen one, unless only idle work is waiting; the old chosen element waits behind its equals.
\<close>

theorem scheduling_list_choose_another:
  assumes "sched_rep h s c as"
  shows "\<exists>h' s'. sc_choose_another h s =
      Some (h', s', if as = [] \<or> rank_of h (hd as) = IDLE then c else hd as) \<and>
    (if as = [] \<or> rank_of h (hd as) = IDLE then sched_rep h' s' c as
     else sched_rep h' s' (hd as) (rank_place (rank_of h) c (tl as))) \<and> dsame_data h h'"
proof (cases "as = [] \<or> rank_of h (hd as) = IDLE")
  case True
  then show ?thesis using sc_choose_another_idle [OF assms True] assms by simp
next
  case False
  then obtain a bs where "as = a # bs" by (cases as) auto
  then show ?thesis using sc_choose_another_rep [of h s c a bs] assms False by auto
qed

text \<open>
  C19. With several heads on one list, \<open>choose\<close> through head \<open>k\<close> elects an element of minimal rank among its own
  and the waiting ones; the other heads keep their elements, and no element is ever chosen by two heads
  or chosen and waiting at once.
\<close>

theorem multihead_choose:
  assumes "heads_rep h m cs as" "k < length cs"
  shows "\<exists>h' m' d ds. mh_choose k h m = Some (h', m', d) \<and> heads_rep h' m' (cs[k := d]) ds \<and>
    distinct (cs[k := d] @ ds) \<and> insert d (set ds) = insert (cs ! k) (set as) \<and>
    (\<forall>a \<in> insert (cs ! k) (set as). rank_of h d \<le> rank_of h a)"
proof (cases "as = []")
  case True
  have len: "k < length (mh_chosen m)" "mh_chosen m ! k = cs ! k" using assms by (simp_all add: heads_rep_def)
  have "mh_choose k h m = Some (h, m, cs ! k)"
    using sc_choose_empty [of h "head_view m k" "cs ! k"] heads_rep_view [OF assms] True len by (simp add: mh_choose_view)
  moreover have "distinct (cs[k := cs ! k] @ as)" using assms by (simp add: heads_rep_def)
  ultimately show ?thesis using assms True by auto
next
  case False
  let ?bs = "rank_place (rank_of h) (cs ! k) as"
  obtain d ds where bs: "?bs = d # ds" by (metis rank_place_not_Nil list.exhaust)
  obtain h' m' where t: "mh_choose k h m = Some (h', m', d)" "heads_rep h' m' (cs[k := d]) ds"
    using mh_choose_heads [OF assms False] bs by auto
  have set: "insert d (set ds) = insert (cs ! k) (set as)" using set_rank_place [of "rank_of h" "cs ! k" as] bs by simp
  have "rank_sorted (rank_of h) (d # ds)"
    using rank_place_sorted [of "rank_of h" as "cs ! k"] heads_rep_view [OF assms] bs by (simp add: sched_rep_def)
  then have "\<forall>a \<in> insert d (set ds). rank_of h d \<le> rank_of h a" by (auto simp: rank_sorted_def)
  moreover have "distinct (cs[k := d] @ ds)" using t(2) by (simp add: heads_rep_def)
  ultimately show ?thesis using t set by auto
qed

text \<open>
  Partitioned scheduling is isolated: \<open>Scheduling_Multilist::choose\<close> for queue \<open>q\<close>, whose chosen element
  belongs to it, elects from queue \<open>q\<close> alone and leaves every other queue as it is.
\<close>

theorem multilist_choose_local:
  assumes "multilist_rep h ls cas" "q < length cas" "fst (cas ! q) \<noteq> 0" "h (fst (cas ! q)) = Some x" "squeue x = q"
  shows "\<exists>h' ls' d ds. ml_choose single_head q h ls = Some (h', ls', d) \<and>
    multilist_rep h' ls' (cas[q := (d, ds)]) \<and> members (d, ds) = members (cas ! q) \<and>
    (\<forall>a \<in> members (cas ! q). rank_of h d \<le> rank_of h a)"
proof -
  let ?e = "queue_elect (rank_of h) (cas ! q)"
  note sub = multilist_sub [OF assms(1,2)]
  have z: "0 \<notin> set (snd (cas ! q))" using sub by (auto simp: sched_rep_def dest: list_rep_nonnull)
  obtain h' ls' where t: "ml_choose single_head q h ls = Some (h', ls', fst ?e)" "multilist_rep h' ls' (cas[q := ?e])"
    using ml_choose_rep [OF assms] by (auto simp: ml_becomes_def)
  have m: "members ?e = members (cas ! q)" using members_queue_elect [OF assms(3) z] .
  have "rank_of h (fst ?e) \<le> rank_of h a" if a: "a \<in> members (cas ! q)" for a
  proof (cases "snd (cas ! q) = []")
    case True
    then show ?thesis using a assms(3) by (auto simp: members_def queue_elect_def)
  next
    case False
    let ?bs = "rank_place (rank_of h) (fst (cas ! q)) (snd (cas ! q))"
    have "rank_sorted (rank_of h) ?bs" using rank_place_sorted [of "rank_of h"] sub by (simp add: sched_rep_def)
    moreover have "a \<in> set ?bs" using a by (auto simp: members_def split: if_splits)
    ultimately have "rank_of h (hd ?bs) \<le> rank_of h a" by (rule rank_sorted_hd)
    then show ?thesis using False by (simp add: queue_elect_def)
  qed
  then show ?thesis using t m by (intro exI [of _ h'] exI [of _ ls'] exI [of _ "fst ?e"] exI [of _ "snd ?e"]) simp
qed

section \<open>Witnesses\<close>

text \<open>
  Elements at 8, 16 and 24 in a list, in order of rank, and two more at 32 and 40 outside it; the last one
  belongs to queue 1.
\<close>

definition sample :: "delem_scheduling store" where
  "sample = map_of
     [(8, \<lparr>obj = 100, nxt = 16, prv = 0, rank = 1, squeue = 0\<rparr>),
      (16, \<lparr>obj = 200, nxt = 24, prv = 8, rank = 2, squeue = 0\<rparr>),
      (24, \<lparr>obj = 300, nxt = 0, prv = 16, rank = 4, squeue = 0\<rparr>),
      (32, doubly_linked_scheduling 400 2 0), (40, doubly_linked_scheduling 500 3 1)]"

definition sample_list :: linked_list where
  "sample_list = \<lparr>dl_size = 3, dl_head = 8, dl_tail = 24\<rparr>"

lemma sample_rep: "list_rep sample sample_list [8, 16, 24]"
  by (simp add: list_rep_def sample_def sample_list_def)

lemma sample_sched: "sched_rep sample \<lparr>sc_base = sample_list, sc_chosen = 32\<rparr> 32 [8, 16, 24]"
  using sample_rep by (simp add: sched_rep_def rank_sorted_def) (simp add: sample_def rank_of_def)

lemma sample_heads: "heads_rep sample \<lparr>mh_base = sample_list, mh_chosen = [32, 40]\<rparr> [32, 40] [8, 16, 24]"
  using sample_rep sample_sched
  by (simp add: heads_rep_def sched_rep_def head_view_def less_Suc_eq all_conj_distrib) (simp add: sample_def)

lemma sample_multi:
  "multilist_rep sample [\<lparr>sc_base = sample_list, sc_chosen = 32\<rparr>, \<lparr>sc_base = dl_new, sc_chosen = 40\<rparr>]
     [(32, [8, 16, 24]), (40, [])]"
proof -
  have "sched_rep sample \<lparr>sc_base = dl_new, sc_chosen = 40\<rparr> 40 []"
    by (simp add: sched_rep_def list_rep_new rank_sorted_def) (simp add: sample_def)
  then show ?thesis
    using sample_sched by (auto simp: multilist_rep_def less_Suc_eq members_def)
qed

theorem simple_list_fifo_witness:
  "\<exists>h1 l1 h2 l2. put_all sl_insert [8 \<mapsto> singly_linked 100, 16 \<mapsto> singly_linked 200] sl_new [16, 8] = Some (h1, l1) \<and>
    get_many sl_get (length [16, 8 :: addr]) h1 l1 = Some (h2, l2, [16, 8]) \<and> sl_empty l2 \<and> sl_get h2 l2 = Some (h2, l2, 0)"
  by (rule simple_list_fifo) auto

theorem list_fifo_witness:
  "\<exists>h1 l1 h2 l2. put_all dl_insert sample sample_list [40, 32] = Some (h1, l1) \<and>
    get_many dl_remove_head (length [8, 16, 24 :: addr] + length [40, 32 :: addr]) h1 l1 =
      Some (h2, l2, [8, 16, 24] @ [40, 32]) \<and> dl_empty l2"
  by (rule list_fifo [OF sample_rep]) (auto simp: sample_def)

theorem list_remove_any_witness:
  "\<exists>h' l'. dl_remove sample sample_list 16 = Some (h', l', 16) \<and> list_rep h' l' (remove1 16 [8, 16, 24]) \<and>
    dsame_data sample h' \<and> (\<forall>a. a \<notin> set [8, 16, 24] - {16} \<longrightarrow> h' a = sample a)"
  by (rule list_remove_any [OF sample_rep]) simp

theorem ordered_list_sorts_witness:
  "\<exists>h1 l1 h2 l2. put_all (ol_insert True) sample dl_new (map fst [(40 :: addr, 3 :: int), (32, 2)]) = Some (h1, l1) \<and>
    get_many (ol_remove_front True) (length [(40 :: addr, 3 :: int), (32, 2)]) h1 l1 =
      Some (h2, l2, map fst (sort_key snd [(40 :: addr, 3 :: int), (32, 2)])) \<and> dl_empty l2"
  by (rule ordered_list_sorts) (auto simp: sample_def doubly_linked_scheduling_def)

theorem simple_ordered_list_sorts_witness:
  "\<exists>h1 l1 h2 l2. put_all (sol_insert True) [8 \<mapsto> singly_linked_ordered 100 7, 16 \<mapsto> singly_linked_ordered 200 5] sl_new
      (map fst [(8 :: addr, 7 :: int), (16, 5)]) = Some (h1, l1) \<and>
    get_many (sol_remove_front True) (length [(8 :: addr, 7 :: int), (16, 5)]) h1 l1 =
      Some (h2, l2, map fst (sort_key snd [(8 :: addr, 7 :: int), (16, 5)])) \<and> sl_empty l2"
  by (rule simple_ordered_list_sorts) (auto simp: singly_linked_ordered_def)

theorem relative_list_remove_witness:
  "\<exists>h' l' bs. ol_remove True sample sample_list 16 = Some (h', l', 16) \<and> list_rep h' l' bs \<and>
    abs_ranks (rank_of h') 0 bs = filter (\<lambda>(a, d). a \<noteq> 16) (abs_ranks (rank_of sample) 0 [8, 16, 24])"
  by (rule relative_list_remove [OF sample_rep]) simp

theorem scheduling_list_choose_witness:
  "\<exists>h' s' d ds. sc_choose sample \<lparr>sc_base = sample_list, sc_chosen = 32\<rparr> = Some (h', s', d) \<and> sched_rep h' s' d ds \<and>
    mset (d # ds) = mset (32 # [8, 16, 24]) \<and> (\<forall>a \<in> set (32 # [8, 16, 24]). rank_of sample d \<le> rank_of sample a) \<and>
    dsame_data sample h' \<and> (d \<noteq> 32 \<longrightarrow> [8, 16, 24 :: addr] \<noteq> [] \<and> d = hd [8, 16, 24])"
  by (rule scheduling_list_choose [OF sample_sched]) simp

theorem scheduling_list_choose_another_witness:
  "\<exists>h' s'. sc_choose_another sample \<lparr>sc_base = sample_list, sc_chosen = 32\<rparr> =
      Some (h', s', if [8, 16, 24 :: addr] = [] \<or> rank_of sample (hd [8, 16, 24]) = IDLE then 32 else hd [8, 16, 24]) \<and>
    (if [8, 16, 24 :: addr] = [] \<or> rank_of sample (hd [8, 16, 24]) = IDLE then sched_rep h' s' 32 [8, 16, 24]
     else sched_rep h' s' (hd [8, 16, 24]) (rank_place (rank_of sample) 32 (tl [8, 16, 24]))) \<and> dsame_data sample h'"
  by (rule scheduling_list_choose_another [OF sample_sched])

theorem multihead_choose_witness:
  "\<exists>h' m' d ds. mh_choose 1 sample \<lparr>mh_base = sample_list, mh_chosen = [32, 40]\<rparr> = Some (h', m', d) \<and>
    heads_rep h' m' ([32, 40][1 := d]) ds \<and>
    distinct ([32, 40][1 := d] @ ds) \<and> insert d (set ds) = insert ([32, 40] ! 1) (set [8, 16, 24]) \<and>
    (\<forall>a \<in> insert ([32, 40] ! 1) (set [8, 16, 24]). rank_of sample d \<le> rank_of sample a)"
  by (rule multihead_choose [OF sample_heads]) simp

theorem multilist_choose_local_witness:
  "\<exists>h' ls' d ds. ml_choose single_head 0 sample
      [\<lparr>sc_base = sample_list, sc_chosen = 32\<rparr>, \<lparr>sc_base = dl_new, sc_chosen = 40\<rparr>] = Some (h', ls', d) \<and>
    multilist_rep h' ls' ([(32, [8, 16, 24]), (40, [])][0 := (d, ds)]) \<and>
    members (d, ds) = members ([(32, [8, 16, 24]), (40, [])] ! 0) \<and>
    (\<forall>a \<in> members ([(32, [8, 16, 24]), (40, [])] ! 0). rank_of sample d \<le> rank_of sample a)"
  by (rule multilist_choose_local [OF sample_multi, where x = "doubly_linked_scheduling 400 2 0"])
     (simp_all add: sample_def doubly_linked_scheduling_def)

end
