(* ===== verification/Heap_Runs.thy ===== *)
theory Heap_Runs
  imports Grouping_List
begin

text \<open>
  The mathematics of the heap's free list: a set of runs of bytes given by their start addresses and a
  size function. Runs do not overlap, are at least \<open>sizeof(Element)\<close> long (the list element lives in
  the run it describes) and do not pass the end of the address space; \<open>coalesced\<close> says that no run ends
  where another starts. Merging with both neighbours and cutting a block off the end of a run
  keep these facts and add or take exactly the bytes of the block.
\<close>

definition span :: "(addr \<Rightarrow> ulong) \<Rightarrow> addr \<Rightarrow> nat set" where
  "span sz a = {unat a ..< unat a + unat (sz a)}"

definition free_bytes :: "(addr \<Rightarrow> ulong) \<Rightarrow> addr set \<Rightarrow> nat set" where
  "free_bytes sz A = (\<Union>a\<in>A. span sz a)"

definition run_ok :: "(addr \<Rightarrow> ulong) \<Rightarrow> addr \<Rightarrow> bool" where
  "run_ok sz a \<longleftrightarrow> a \<noteq> 0 \<and> 32 \<le> unat (sz a) \<and> unat a + unat (sz a) \<le> 2 ^ 64"

definition runs :: "(addr \<Rightarrow> ulong) \<Rightarrow> addr set \<Rightarrow> bool" where
  "runs sz A \<longleftrightarrow> (\<forall>a\<in>A. run_ok sz a) \<and> (\<forall>a\<in>A. \<forall>b\<in>A. a \<noteq> b \<longrightarrow> span sz a \<inter> span sz b = {})"

definition coalesced :: "(addr \<Rightarrow> ulong) \<Rightarrow> addr set \<Rightarrow> bool" where
  "coalesced sz A \<longleftrightarrow> (\<forall>a\<in>A. \<forall>b\<in>A. unat a + unat (sz a) \<noteq> unat b)"

lemma run_end: "unat (a :: addr) + unat s \<le> 2 ^ 64 \<Longrightarrow> e \<noteq> 0 \<Longrightarrow> a + s = e \<longleftrightarrow> unat a + unat s = unat e"
proof -
  assume le: "unat a + unat s \<le> 2 ^ 64" and e: "e \<noteq> 0"
  show ?thesis
  proof (cases "unat a + unat s = 2 ^ 64")
    case True
    then have "unat (a + s) = 0" by (simp add: unat_word_ariths)
    then have "a + s = 0" by (simp add: unat_eq_0_iff)
    moreover have "unat e < 2 ^ 64" by (rule order_less_le_trans [OF unsigned_less]) simp
    ultimately show ?thesis using e True by simp
  next
    case False
    then have "unat (a + s) = unat a + unat s" using le by (simp add: unat_word_ariths)
    then show ?thesis by (metis unsigned_word_eqI)
  qed
qed

lemma unat_add_run: "unat (a :: addr) + unat (s :: ulong) + unat (t :: ulong) \<le> 2 ^ 64 \<Longrightarrow> a \<noteq> 0 \<Longrightarrow> unat (s + t) = unat s + unat t"
proof -
  assume "unat a + unat s + unat t \<le> 2 ^ 64" "a \<noteq> 0"
  then have "unat s + unat t < 2 ^ 64" using unat_eq_0_iff [of a] by linarith
  then show ?thesis by (simp add: unat_word_ariths)
qed

lemma runs_subset: "runs sz A \<Longrightarrow> B \<subseteq> A \<Longrightarrow> runs sz B"
  by (auto simp: runs_def subset_iff)

lemma runs_insert: "runs sz A \<Longrightarrow> run_ok sz e \<Longrightarrow> span sz e \<inter> free_bytes sz A = {} \<Longrightarrow> runs sz (insert e A)"
  by (auto simp: runs_def free_bytes_def)

lemma free_bytes_insert: "free_bytes sz (insert e A) = span sz e \<union> free_bytes sz A"
  by (simp add: free_bytes_def)

lemma free_bytes_cong: "(\<And>a. a \<in> A \<Longrightarrow> sz' a = sz a) \<Longrightarrow> free_bytes sz' A = free_bytes sz A"
  by (simp add: free_bytes_def span_def)

lemma finite_free_bytes: "finite A \<Longrightarrow> finite (free_bytes sz A)"
  by (simp add: free_bytes_def span_def)

lemma run_start_in: "run_ok sz a \<Longrightarrow> unat a \<in> span sz a"
  by (auto simp: run_ok_def span_def)

lemma fresh_run: "run_ok sz e \<Longrightarrow> span sz e \<inter> free_bytes sz A = {} \<Longrightarrow> runs sz A \<Longrightarrow> e \<notin> A"
  using run_start_in [of sz e] by (auto simp: free_bytes_def)

lemma free_bytes_bound: "runs sz A \<Longrightarrow> free_bytes sz A \<subseteq> {1 ..< 2 ^ 64}"
proof
  fix n
  assume rs: "runs sz A" and "n \<in> free_bytes sz A"
  then obtain a where a: "a \<in> A" "n \<in> span sz a" by (auto simp: free_bytes_def)
  then have "run_ok sz a" using rs by (simp add: runs_def)
  then show "n \<in> {1 ..< 2 ^ 64}" using a(2) unat_eq_0_iff [of a] by (auto simp: span_def run_ok_def)
qed

lemma card_free_bytes: "runs sz A \<Longrightarrow> card (free_bytes sz A) < 2 ^ 64"
  using card_mono [OF _ free_bytes_bound, of sz A] by simp

section \<open>Merging two adjacent runs\<close>

lemma merge_runs:
  assumes rs: "runs sz A" and xy: "x \<in> A" "y \<in> A" "x \<noteq> y" and adj: "unat x + unat (sz x) = unat y"
    and sz': "sz' = sz(x := sz x + sz y)"
  shows "unat (sz' x) = unat (sz x) + unat (sz y) \<and> runs sz' (A - {y}) \<and> free_bytes sz' (A - {y}) = free_bytes sz A"
proof -
  have x: "run_ok sz x" and y: "run_ok sz y" using rs xy by (auto simp: runs_def)
  have s: "unat (sz x + sz y) = unat (sz x) + unat (sz y)"
    using unat_add_run [of x "sz x" "sz y"] x y adj by (auto simp: run_ok_def)
  have sp: "span sz' x = span sz x \<union> span sz y" using s adj by (auto simp: span_def sz')
  have other: "a \<noteq> x \<Longrightarrow> span sz' a = span sz a" for a by (simp add: span_def sz')
  have "run_ok sz' x" using x y s adj by (auto simp: run_ok_def sz')
  then have "\<forall>a\<in>A - {y}. run_ok sz' a" using rs by (auto simp: runs_def run_ok_def sz')
  moreover have "span sz' a \<inter> span sz' b = {}" if "a \<in> A - {y}" "b \<in> A - {y}" "a \<noteq> b" for a b
  proof -
    have "span sz a \<inter> span sz b = {}" "span sz a \<inter> span sz y = {}" "span sz y \<inter> span sz b = {}"
      using rs that xy by (auto simp: runs_def)
    then show ?thesis using sp other [of a] other [of b] that(3) by (cases "a = x"; cases "b = x") auto
  qed
  moreover have "free_bytes sz' (A - {y}) = free_bytes sz A"
  proof -
    have A: "A - {y} = insert x (A - {x, y})" "A = insert x (insert y (A - {x, y}))" using xy by auto
    have "free_bytes sz' (A - {x, y}) = free_bytes sz (A - {x, y})" by (rule free_bytes_cong) (auto simp: sz')
    then show ?thesis
      using sp by (subst A(1), subst (2) A(2)) (simp only: free_bytes_insert Un_assoc)
  qed
  ultimately show ?thesis using s by (simp add: runs_def sz')
qed

section \<open>Giving a block back\<close>

lemma merge_right_runs:
  assumes rs: "runs sz A" and e: "run_ok sz e" "span sz e \<inter> free_bytes sz A = {}"
    and r: "r = (if \<exists>b\<in>A. unat e + unat (sz e) = unat b then e + sz e else 0)"
    and sz': "sz' = sz(e := sz e + (if r = 0 then 0 else sz r))"
    and B: "B = insert e A - {r}"
  shows "runs sz' B \<and> free_bytes sz' B = span sz e \<union> free_bytes sz A \<and>
         (r = 0 \<longrightarrow> unat (sz' e) = unat (sz e)) \<and> (r \<noteq> 0 \<longrightarrow> unat (sz' e) = unat (sz e) + unat (sz r))"
proof (cases "r = 0")
  case True
  have "0 \<notin> insert e A" using rs e by (auto simp: runs_def run_ok_def)
  then have "B = insert e A" "sz' = sz" using True B sz' by auto
  then show ?thesis using runs_insert [OF rs e] free_bytes_insert True by simp
next
  case False
  then obtain b where b: "b \<in> A" "unat e + unat (sz e) = unat b" "r = e + sz e" using r by (metis (lifting))
  have "run_ok sz b" using rs b by (simp add: runs_def)
  then have "r = b" using run_end [of e "sz e" b] b e by (auto simp: run_ok_def)
  moreover have "e \<noteq> b" using fresh_run [OF e rs] b by auto
  ultimately show ?thesis
    using merge_runs [OF runs_insert [OF rs e], of e b sz'] b sz' B False free_bytes_insert [of sz e A]
    by (simp add: insert_Diff_if)
qed

lemma coalescedD: "coalesced sz A \<Longrightarrow> a \<in> A \<Longrightarrow> b \<in> A \<Longrightarrow> unat a + unat (sz a) = unat b \<Longrightarrow> False"
  by (auto simp: coalesced_def)

lemma merged_runs:
  assumes rs: "runs sz (set as)" and co: "coalesced sz (set as)" and d: "distinct as"
    and e: "run_ok sz e" "span sz e \<inter> free_bytes sz (set as) = {}"
  shows "runs (merged_size sz as e) (set (merged_list sz as e))"
    and "free_bytes (merged_size sz as e) (set (merged_list sz as e)) = span sz e \<union> free_bytes sz (set as)"
    and "coalesced (merged_size sz as e) (set (merged_list sz as e))"
    and "left_of sz as e \<noteq> 0 \<Longrightarrow> left_of sz as e \<noteq> right_of sz as e"
proof -
  let ?l = "left_of sz as e" and ?r = "right_of sz as e"
  define szr where "szr = sz(e := sz e + (if ?r = 0 then 0 else sz ?r))"
  define B where "B = insert e (set as) - {?r}"
  have zero: "0 \<notin> set as" and ne: "e \<notin> set as"
    using rs fresh_run [OF e rs] by (auto simp: runs_def run_ok_def)
  have fin: "a \<in> set as \<Longrightarrow> b \<noteq> 0 \<Longrightarrow> a + sz a = b \<longleftrightarrow> unat a + unat (sz a) = unat b" for a b
    using rs run_end by (auto simp: runs_def run_ok_def)
  have r: "?r = (if \<exists>b\<in>set as. unat e + unat (sz e) = unat b then e + sz e else 0)"
  proof -
    have "e + sz e = b \<longleftrightarrow> unat e + unat (sz e) = unat b" if "b \<in> set as" for b
    proof -
      have "b \<noteq> 0" using that zero by metis
      then show ?thesis using run_end [of e "sz e" b] e by (simp add: run_ok_def)
    qed
    then have "(\<exists>b\<in>set as. unat e + unat (sz e) = unat b) \<longleftrightarrow> e + sz e \<in> set as" by metis
    then show ?thesis by (simp add: right_of_def)
  qed
  have r_in: "?r \<noteq> 0 \<Longrightarrow> ?r \<in> set as \<and> unat e + unat (sz e) = unat ?r"
    using run_end [of e "sz e"] e by (auto simp: right_of_def run_ok_def split: if_splits)
  have l_in: "?l \<noteq> 0 \<Longrightarrow> ?l \<in> set as \<and> unat ?l + unat (sz ?l) = unat e"
    using left_of_in [of sz as e] fin [of ?l e] e by (auto simp: run_ok_def)
  have no_l: "?l = 0 \<Longrightarrow> a \<in> set as \<Longrightarrow> unat a + unat (sz a) \<noteq> unat e" for a
    using left_of_0 [of sz as e a] zero fin [of a e] e by (auto simp: run_ok_def)
  have no_r: "?r = 0 \<Longrightarrow> b \<in> set as \<Longrightarrow> unat e + unat (sz e) \<noteq> unat b" for b
    using r e run_end [of e "sz e" b] zero by (auto simp: run_ok_def split: if_splits)
  show lr: "?l \<noteq> 0 \<Longrightarrow> ?l \<noteq> ?r"
    using l_in r_in e by (auto simp: run_ok_def)
  have R: "runs szr B" "free_bytes szr B = span sz e \<union> free_bytes sz (set as)"
    "?r = 0 \<Longrightarrow> unat (szr e) = unat (sz e)" "?r \<noteq> 0 \<Longrightarrow> unat (szr e) = unat (sz e) + unat (sz ?r)"
    using merge_right_runs [OF rs e r szr_def B_def] by auto
  have eB: "e \<in> B" using r_in ne e by (auto simp: B_def run_ok_def)
  have end_e: "b \<in> set as \<Longrightarrow> b \<noteq> ?r \<Longrightarrow> unat e + unat (szr e) \<noteq> unat b" for b
    using R(3,4) r_in no_r [of b] coalescedD [OF co, of ?r b] by (cases "?r = 0") auto
  have ok: "run_ok szr e" using R(1) eB by (simp add: runs_def)
  have set0: "set (merged_list sz as e) = (if ?l = 0 then B else B - {e})"
    using d ne r_in zero e by (auto simp: merged_list_def B_def Let_def set_remove1_eq run_ok_def)
  have "runs (merged_size sz as e) (set (merged_list sz as e)) \<and>
    free_bytes (merged_size sz as e) (set (merged_list sz as e)) = span sz e \<union> free_bytes sz (set as) \<and>
    coalesced (merged_size sz as e) (set (merged_list sz as e))"
  proof (cases "?l = 0")
    case True
    then have m: "merged_size sz as e = szr" "set (merged_list sz as e) = B"
      using set0 by (auto simp: merged_size_def szr_def Let_def)
    have "unat a + unat (szr a) \<noteq> unat b" if "a \<in> B" "b \<in> B" for a b
    proof (cases "a = e")
      case a: True
      then show ?thesis using ok end_e [of b] that by (cases "b = e") (auto simp: B_def run_ok_def)
    next
      case False
      then have "szr a = sz a" "a \<in> set as" using that by (auto simp: szr_def B_def)
      then show ?thesis using no_l [OF True, of a] coalescedD [OF co, of a b] that by (cases "b = e") (auto simp: B_def)
    qed
    then have "coalesced szr B" by (simp add: coalesced_def)
    then show ?thesis using m R by simp
  next
    case False
    define szl where "szl = szr(?l := szr ?l + szr e)"
    have l: "?l \<in> B" "?l \<noteq> e" "szr ?l = sz ?l" "unat ?l + unat (szr ?l) = unat e"
      using l_in lr ne False by (auto simp: B_def szr_def)
    have m: "merged_size sz as e = szl" "set (merged_list sz as e) = B - {e}"
      using False set0 l by (auto simp: merged_size_def szl_def szr_def Let_def)
    have M: "unat (szl ?l) = unat (sz ?l) + unat (szr e)" "runs szl (B - {e})"
      "free_bytes szl (B - {e}) = free_bytes szr B"
      using merge_runs [OF R(1) l(1) eB l(2,4) szl_def] l(3) by auto
    have sub: "a \<in> B - {e} \<Longrightarrow> a \<in> set as \<and> a \<noteq> ?r" for a by (auto simp: B_def)
    have "unat a + unat (szl a) \<noteq> unat b" if "a \<in> B - {e}" "b \<in> B - {e}" for a b
    proof (cases "a = ?l")
      case True
      then show ?thesis using M(1) l(3,4) end_e [of b] sub [OF that(2)] by simp
    next
      case False
      then have "szl a = sz a" using that by (auto simp: szl_def szr_def)
      then show ?thesis using coalescedD [OF co, of a b] sub [OF that(1)] sub [OF that(2)] by auto
    qed
    then show ?thesis using m M R(2) by (simp add: coalesced_def)
  qed
  then show "runs (merged_size sz as e) (set (merged_list sz as e))"
    "free_bytes (merged_size sz as e) (set (merged_list sz as e)) = span sz e \<union> free_bytes sz (set as)"
    "coalesced (merged_size sz as e) (set (merged_list sz as e))" by auto
qed

section \<open>Cutting a block off\<close>

lemma cut_runs:
  assumes rs: "runs sz A" and co: "coalesced sz A" and e: "e \<in> A"
    and fit: "32 + unat s \<le> unat (sz e) \<or> sz e = s"
    and sz': "sz' = sz(e := sz e - s)" and B: "B = (if sz e = s then A - {e} else A)"
  shows "runs sz' B \<and> coalesced sz' B \<and>
         free_bytes sz' B = free_bytes sz A - {unat e + unat (sz' e) ..< unat e + unat (sz e)} \<and>
         {unat e + unat (sz' e) ..< unat e + unat (sz e)} \<subseteq> free_bytes sz A \<and>
         unat (sz' e) + unat s = unat (sz e)"
proof -
  have ok: "run_ok sz e" using rs e by (simp add: runs_def)
  have "s \<le> sz e" using fit by (auto simp: word_le_nat_alt)
  then have u: "unat (sz' e) = unat (sz e) - unat s" "unat s \<le> unat (sz e)"
    by (auto simp: sz' unat_sub word_le_nat_alt)
  define C where "C = {unat e + unat (sz' e) ..< unat e + unat (sz e)}"
  have sub: "C \<subseteq> span sz e" using u by (auto simp: C_def span_def)
  have other: "a \<noteq> e \<Longrightarrow> span sz' a = span sz a \<and> sz' a = sz a" for a by (simp add: span_def sz')
  have span_e: "span sz' e = span sz e - C" using u by (auto simp: span_def C_def)
  have disj: "a \<in> A \<Longrightarrow> a \<noteq> e \<Longrightarrow> span sz a \<inter> span sz e = {}" for a using rs e by (auto simp: runs_def)
  have BA: "B \<subseteq> A" by (auto simp: B)
  have empty: "sz e = s \<Longrightarrow> span sz' e = {}" using u by (simp add: span_def)
  have "run_ok sz' a" if "a \<in> B" for a
  proof (cases "a = e")
    case True
    then have "32 + unat s \<le> unat (sz e)" using that fit by (auto simp: B split: if_splits)
    then have "32 \<le> unat (sz' e)" "unat e + unat (sz' e) \<le> 2 ^ 64" using ok u unfolding run_ok_def by linarith+
    then show ?thesis using True ok by (simp add: run_ok_def)
  next
    case False
    then show ?thesis using that BA rs other [OF False] by (auto simp: runs_def run_ok_def)
  qed
  moreover have "span sz' a \<inter> span sz' b = {}" if "a \<in> B" "b \<in> B" "a \<noteq> b" for a b
  proof -
    have "a \<in> A" "b \<in> A" using that BA by auto
    then have "span sz a \<inter> span sz b = {}" using rs that(3) by (simp add: runs_def)
    moreover have "span sz' c \<subseteq> span sz c" for c using span_e other [of c] by (cases "c = e") auto
    ultimately show ?thesis by blast
  qed
  moreover have "coalesced sz' B"
    unfolding coalesced_def
  proof (intro ballI)
    fix a b assume ab: "a \<in> B" "b \<in> B"
    have lt: "unat a + unat (sz' a) \<noteq> unat b" if "a = e" "b \<noteq> e"
    proof
      assume eq: "unat a + unat (sz' a) = unat b"
      have "unat b < unat e + unat (sz e) \<or> unat b = unat e + unat (sz e)" using eq that u by auto
      then have "unat b \<in> span sz e \<or> unat e + unat (sz e) = unat b" using eq that by (auto simp: span_def)
      moreover have "unat b \<in> span sz b" using run_start_in rs ab BA by (auto simp: runs_def)
      ultimately show False using disj [of b] that ab BA e coalescedD [OF co, of e b] by blast
    qed
    show "unat a + unat (sz' a) \<noteq> unat b"
    proof (cases "a = e")
      case False
      then show ?thesis using coalescedD [OF co, of a b] other [of a] ab BA by auto
    next
      case True
      then have "32 \<le> unat (sz' e)" using ab fit u by (auto simp: B split: if_splits)
      then show ?thesis using lt True by (cases "b = e") auto
    qed
  qed
  moreover have "free_bytes sz' B = free_bytes sz A - C"
  proof -
    have A: "A = insert e (A - {e})" using e by auto
    have rest: "free_bytes sz' (A - {e}) = free_bytes sz (A - {e})" by (rule free_bytes_cong) (simp add: sz')
    have "free_bytes sz' B = span sz' e \<union> free_bytes sz' (A - {e})"
      using A empty free_bytes_insert [of sz' e "A - {e}"] by (auto simp: B)
    moreover have "free_bytes sz A = span sz e \<union> free_bytes sz (A - {e})"
      using A free_bytes_insert [of sz e "A - {e}"] by simp
    moreover have "free_bytes sz (A - {e}) \<inter> C = {}" using disj sub by (auto simp: free_bytes_def)
    ultimately show ?thesis using rest span_e by auto
  qed
  moreover have "C \<subseteq> free_bytes sz A" using sub e by (auto simp: free_bytes_def)
  ultimately show ?thesis using u by (simp add: runs_def C_def)
qed

end
