(* ===== verification/Heap.thy ===== *)
theory Heap
  imports Heap_Runs
begin

text \<open>
  \<open>Heap_Base\<close> of \<open>include/utility/heap.h\<close>. The free list lives inside the free memory: a free run starts
  with its own list element, and an allocated block starts with one or two header words. The state holds
  the list elements and the header words of the heap's memory and the heap objects by address; a store to
  one kind destroys what it overlaps of either kind, so a header written over a live element would show.
  \<open>typed\<close> is \<open>Traits<System>::multiheap\<close> and \<open>unaligned\<close> is \<open>Traits<CPU>::unaligned_memory_access\<close>;
  \<open>sizeof(Element) = 32\<close> and \<open>sizeof(void *) = sizeof(long) = 8\<close>.
\<close>

section \<open>The class\<close>

record heap_state =
  hs_elems :: "delem_grouping store"
  hs_words :: "ulong store"
  hs_heaps :: "grouping_list store"

definition overlap :: "addr \<Rightarrow> nat \<Rightarrow> addr \<Rightarrow> nat \<Rightarrow> bool" where
  "overlap a n b m \<longleftrightarrow> unat a < unat b + m \<and> unat b < unat a + n"

definition write_word :: "heap_state \<Rightarrow> addr \<Rightarrow> ulong \<Rightarrow> heap_state" where
  "write_word st a v = st
     \<lparr>hs_elems := \<lambda>p. if overlap p 32 a 8 then None else hs_elems st p,
      hs_words := \<lambda>p. if p = a then Some v else if overlap p 8 a 8 then None else hs_words st p\<rparr>"

definition place_element :: "heap_state \<Rightarrow> addr \<Rightarrow> delem_grouping \<Rightarrow> heap_state" where
  "place_element st a x = st
     \<lparr>hs_elems := \<lambda>p. if p = a then Some x else if overlap p 32 a 32 then None else hs_elems st p,
      hs_words := \<lambda>p. if overlap p 8 a 32 then None else hs_words st p\<rparr>"

function align8 :: "ulong \<Rightarrow> ulong" where
  "align8 b = (if b mod 8 \<noteq> 0 then align8 (b + 1) else b)"
  by auto
termination
proof (relation "measure (\<lambda>b. (8 - unat b mod 8) mod 8)")
  fix b :: ulong
  assume nz: "b mod 8 \<noteq> 0"
  then have "unat b mod 8 \<noteq> 0" by (simp flip: unat_eq_0_iff add: unat_mod)
  moreover have "unat (b + 1) mod 8 = (unat b + 1) mod 8" by (simp add: unat_word_ariths mod_mod_cancel)
  ultimately show "(b + 1, b) \<in> measure (\<lambda>b. (8 - unat b mod 8) mod 8)"
    by (simp add: mod_Suc split: if_splits)
qed simp

declare align8.simps [simp del]

definition heap_request :: "bool \<Rightarrow> bool \<Rightarrow> ulong \<Rightarrow> ulong" where
  "heap_request typed unaligned bytes =
     (let b = (if unaligned then bytes else align8 bytes);
          b = (if typed then b + 8 else b);
          b = b + 8
      in if b < 32 then 32 else b)"

definition heap_alloc :: "bool \<Rightarrow> bool \<Rightarrow> addr \<Rightarrow> ulong \<Rightarrow> heap_state \<Rightarrow> (heap_state \<times> addr) option" where
  "heap_alloc typed unaligned this bytes st =
     (if bytes = 0 then Some (st, 0)
      else do {
        let n = heap_request typed unaligned bytes;
        g \<leftarrow> load (hs_heaps st) this;
        (h, g, e) \<leftarrow> gl_search_decrementing 1 32 (hs_elems st) g n;
        let st = st\<lparr>hs_elems := h, hs_heaps := (hs_heaps st)(this \<mapsto> g)\<rparr>;
        if e = 0 then Some (st, 0)
        else do {
          x \<leftarrow> load (hs_elems st) e;
          let addr = obj x + gsize x;
          let (st, addr) = (if typed then (write_word st addr this, addr + 8) else (st, addr));
          Some (write_word st addr n, addr + 8) } })"

definition heap_free :: "addr \<Rightarrow> addr \<Rightarrow> ulong \<Rightarrow> heap_state \<Rightarrow> heap_state option" where
  "heap_free this ptr bytes st =
     (if ptr \<noteq> 0 \<and> 32 \<le> bytes
      then do {
        let st = place_element st ptr (doubly_linked_grouping ptr bytes);
        g \<leftarrow> load (hs_heaps st) this;
        (h, g, m1, m2) \<leftarrow> gl_insert_merging 1 (hs_elems st) g ptr;
        Some (st\<lparr>hs_elems := h, hs_heaps := (hs_heaps st)(this \<mapsto> g)\<rparr>) }
      else Some st)"

definition heap_new :: "addr \<Rightarrow> heap_state \<Rightarrow> heap_state" where
  "heap_new this st = st\<lparr>hs_heaps := (hs_heaps st)(this \<mapsto> gl_new)\<rparr>"

definition heap_new_on :: "addr \<Rightarrow> addr \<Rightarrow> ulong \<Rightarrow> heap_state \<Rightarrow> heap_state option" where
  "heap_new_on this addr bytes st = heap_free this addr bytes (heap_new this st)"

definition typed_free :: "addr \<Rightarrow> heap_state \<Rightarrow> heap_state option" where
  "typed_free ptr st = do {
     bytes \<leftarrow> load (hs_words st) (ptr - 8);
     heap \<leftarrow> load (hs_words st) (ptr - 8 - 8);
     heap_free heap (ptr - 8 - 8) bytes st }"

definition untyped_free :: "addr \<Rightarrow> addr \<Rightarrow> heap_state \<Rightarrow> heap_state option" where
  "untyped_free heap ptr st = do {
     bytes \<leftarrow> load (hs_words st) (ptr - 8);
     heap_free heap (ptr - 8) bytes st }"

section \<open>The invariant\<close>

text \<open>The free list of heap \<open>this\<close> is \<open>as\<close>; \<open>free_of\<close> are the bytes it stands for.\<close>

definition sizes :: "heap_state \<Rightarrow> addr \<Rightarrow> ulong" where
  "sizes st = gsize_of (hs_elems st)"

definition free_of :: "heap_state \<Rightarrow> addr list \<Rightarrow> nat set" where
  "free_of st as = free_bytes (sizes st) (set as)"

definition heap_inv :: "heap_state \<Rightarrow> addr \<Rightarrow> addr list \<Rightarrow> bool" where
  "heap_inv st this as \<longleftrightarrow>
     this \<noteq> 0 \<and>
     (\<exists>g. hs_heaps st this = Some g \<and> list_rep (hs_elems st) (gl_list g) as \<and>
          unat (gl_grouped g) = card (free_of st as)) \<and>
     (\<forall>a \<in> set as. map_option obj (hs_elems st a) = Some a) \<and>
     runs (sizes st) (set as) \<and> coalesced (sizes st) (set as)"


lemma heap_inv_fresh: "heap_inv st this as \<Longrightarrow> 0 \<notin> set as \<and> distinct as"
  by (auto simp: heap_inv_def list_rep_def dest: chain_nonnull)

lemma run_bytes: "runs sz A \<Longrightarrow> a \<in> A \<Longrightarrow> {unat a ..< unat a + 32} \<subseteq> free_bytes sz A"
  by (force simp: runs_def run_ok_def free_bytes_def span_def)

text \<open>A write that overlaps no free byte touches no element of the free list.\<close>

lemma no_overlap:
  assumes "runs sz A" "p \<in> A" "{unat b ..< unat b + m} \<inter> free_bytes sz A = {}" "0 < m"
  shows "\<not> overlap p 32 b m"
proof
  assume ov: "overlap p 32 b m"
  let ?n = "max (unat p) (unat b)"
  have "?n \<in> {unat p ..< unat p + 32}" "?n \<in> {unat b ..< unat b + m}"
    using ov assms(4) by (auto simp: overlap_def)
  then show False using run_bytes [OF assms(1,2)] assms(3) by blast
qed

lemma heap_inv_elems:
  assumes inv: "heap_inv st this as" and same: "\<And>a. a \<in> set as \<Longrightarrow> hs_elems st' a = hs_elems st a"
    and heaps: "hs_heaps st' = hs_heaps st"
  shows "heap_inv st' this as \<and> free_of st' as = free_of st as"
proof -
  have sz: "a \<in> set as \<Longrightarrow> sizes st' a = sizes st a" for a using same by (simp add: sizes_def gsize_of_def)
  have fb: "free_of st' as = free_of st as"
    unfolding free_of_def by (rule free_bytes_cong) (use sz in simp)
  have "list_rep (hs_elems st') l as" if "list_rep (hs_elems st) l as" for l
    using that by (rule list_rep_cong) (use same in simp_all)
  moreover have "runs (sizes st') (set as)" "coalesced (sizes st') (set as)"
    using inv sz by (auto simp: heap_inv_def runs_def run_ok_def span_def coalesced_def)
  ultimately show ?thesis using inv fb same heaps by (auto simp: heap_inv_def)
qed

lemma heap_inv_write:
  assumes inv: "heap_inv st this as" and out: "{unat b ..< unat b + 8} \<inter> free_of st as = {}"
  shows "heap_inv (write_word st b v) this as \<and> free_of (write_word st b v) as = free_of st as"
proof (rule heap_inv_elems [OF inv])
  fix a assume "a \<in> set as"
  then have "\<not> overlap a 32 b 8"
    using no_overlap [of "sizes st" "set as" a b 8] inv out by (simp add: heap_inv_def free_of_def)
  then show "hs_elems (write_word st b v) a = hs_elems st a" by (simp add: write_word_def)
qed (simp add: write_word_def)

section \<open>Freeing\<close>

lemma heap_inv_new: "this \<noteq> 0 \<Longrightarrow> heap_inv (heap_new this st) this []"
  by (simp add: heap_inv_def heap_new_def gl_new_def list_rep_new runs_def coalesced_def free_of_def free_bytes_def)

lemma heap_free_rep:
  assumes inv: "heap_inv st this as" and p: "p \<noteq> 0" "32 \<le> n" "unat p + unat n \<le> 2 ^ 64"
    and out: "{unat p ..< unat p + unat n} \<inter> free_of st as = {}"
  shows "\<exists>st' as'. heap_free this p n st = Some st' \<and> heap_inv st' this as' \<and>
           free_of st' as' = free_of st as \<union> {unat p ..< unat p + unat n}"
proof -
  define st1 where "st1 = place_element st p (doubly_linked_grouping p n)"
  define sz where "sz = sizes st1"
  have n32: "32 \<le> unat n" using p(2) by (simp add: word_le_nat_alt)
  then have n0: "n \<noteq> 0" by auto
  have szp: "sz p = n" by (simp add: sz_def sizes_def st1_def place_element_def gsize_of_def doubly_linked_grouping_def)
  have rp: "run_ok sz p" using p n32 szp by (simp add: run_ok_def)
  have sp: "span sz p = {unat p ..< unat p + unat n}" using szp by (simp add: span_def)
  have "{unat p ..< unat p + 32} \<subseteq> {unat p ..< unat p + unat n}" using n32 by auto
  then have out32: "{unat p ..< unat p + 32} \<inter> free_of st as = {}" using out by blast
  have p_new: "p \<notin> set as"
  proof
    assume "p \<in> set as"
    then have "unat p \<in> free_of st as"
      using subsetD [OF run_bytes [of "sizes st" "set as" p], of "unat p"] inv by (simp add: heap_inv_def free_of_def)
    moreover have "unat p \<in> {unat p ..< unat p + 32}" by simp
    ultimately show False using out32 by blast
  qed
  have same: "hs_elems st1 a = hs_elems st a" if "a \<in> set as" for a
    using no_overlap [of "sizes st" "set as" a p 32] that inv out32 p_new
    by (auto simp: heap_inv_def free_of_def st1_def place_element_def)
  have inv1: "heap_inv st1 this as" and fb1: "free_of st1 as = free_of st as"
    using heap_inv_elems [OF inv same] by (auto simp: st1_def place_element_def)
  obtain g where g: "hs_heaps st1 this = Some g" "list_rep (hs_elems st1) (gl_list g) as"
    "unat (gl_grouped g) = card (free_of st as)"
    using inv1 fb1 by (auto simp: heap_inv_def)
  have rc: "runs sz (set as)" "coalesced sz (set as)" and obj: "\<And>a. a \<in> set as \<Longrightarrow> map_option obj (hs_elems st1 a) = Some a"
    and nn: "this \<noteq> 0" and d: "distinct as"
    using inv1 heap_inv_fresh [OF inv1] by (auto simp: heap_inv_def sz_def)
  have disj: "span sz p \<inter> free_bytes sz (set as) = {}" using out fb1 sp by (simp add: free_of_def sz_def)
  note M = merged_runs [OF rc d rp disj]
  have e: "hs_elems st1 p = Some (doubly_linked_grouping p n)" by (simp add: st1_def place_element_def)
  obtain h' g' m1 m2 where t: "gl_insert_merging 1 (hs_elems st1) g p = Some (h', g', m1, m2)"
    "list_rep h' (gl_list g') (merged_list sz as p)" "gsize_of h' = merged_size sz as p"
    "gl_grouped g' = gl_grouped g + n" "same_obj (hs_elems st1) h'"
    using gl_insert_merging_rep [OF g(2) p(1) e _ p_new _ obj] M(4) p n0
    by (auto simp: doubly_linked_grouping_def sz_def sizes_def)
  define st2 where "st2 = st1\<lparr>hs_elems := h', hs_heaps := (hs_heaps st1)(this \<mapsto> g')\<rparr>"
  have sz2: "sizes st2 = merged_size sz as p" using t(3) by (simp add: sizes_def st2_def)
  have fb2: "free_of st2 (merged_list sz as p) = free_of st as \<union> {unat p ..< unat p + unat n}"
    using M(2) sz2 sp fb1 by (auto simp: free_of_def sz_def)
  have "card (free_of st2 (merged_list sz as p)) = card (free_of st as) + unat n"
    unfolding fb2 using out by (subst card_Un_disjoint) (auto simp: free_of_def finite_free_bytes)
  moreover have "card (free_of st2 (merged_list sz as p)) < 2 ^ 64"
    using card_free_bytes [OF M(1)] sz2 by (simp add: free_of_def)
  ultimately have "unat (gl_grouped g') = card (free_of st2 (merged_list sz as p))"
    using t(4) g(3) by (simp add: unat_word_ariths)
  moreover have "map_option obj (h' a) = Some a" if "a \<in> set (merged_list sz as p)" for a
  proof -
    have "a \<in> set as \<or> a = p"
      using that set_remove1_subset [of "right_of sz as p"] by (fastforce simp: merged_list_def Let_def split: if_splits)
    then show ?thesis using t(5) obj e by (auto simp: same_obj_def doubly_linked_grouping_def)
  qed
  ultimately have "heap_inv st2 this (merged_list sz as p)"
    using nn t(2) M(1,3) sz2 by (simp add: heap_inv_def st2_def)
  moreover have "heap_free this p n st = Some st2"
    using t(1) g(1) p nn by (simp add: heap_free_def st2_def store_simps flip: st1_def)
  ultimately show ?thesis using fb2 by blast
qed

section \<open>Allocating\<close>

lemma align8_pad: "unat b + (8 - unat b mod 8) mod 8 < 2 ^ 64 \<Longrightarrow> unat (align8 b) = unat b + (8 - unat b mod 8) mod 8"
proof (induction b rule: align8.induct)
  case (1 b)
  have m: "b mod 8 = 0 \<longleftrightarrow> unat b mod 8 = 0" using unat_mod [of b "8::ulong"] unfolding unat_eq_0_iff [symmetric] by simp
  show ?case
  proof (cases "b mod 8 = 0")
    case True
    then show ?thesis using m by (simp add: align8.simps [of b])
  next
    case False
    then have k: "(8 - unat b mod 8) mod 8 = Suc ((8 - (unat b + 1) mod 8) mod 8)" using m by (simp add: mod_Suc) presburger
    then have "unat (b + 1) = unat b + 1" using 1(2) by (simp add: unat_word_ariths)
    then show ?thesis using 1 False k by (simp add: align8.simps [of b])
  qed
qed

lemma align8_rep:
  assumes "unat b + 7 < 2 ^ 64"
  shows "unat b \<le> unat (align8 b)" "unat (align8 b) < unat b + 8" "unat (align8 b) mod 8 = 0"
proof -
  have pad: "(k + (8 - k mod 8) mod 8) mod 8 = 0 \<and> (8 - k mod 8) mod 8 < 8" for k :: nat
  proof -
    have "(k + (8 - k mod 8) mod 8) mod 8 = (k mod 8 + (8 - k mod 8)) mod 8" by (metis mod_add_eq mod_mod_trivial)
    moreover have "k mod 8 + (8 - k mod 8) = 8" using mod_less_divisor [of 8 k] by linarith
    ultimately show ?thesis by simp
  qed
  then have "unat b + (8 - unat b mod 8) mod 8 < 2 ^ 64" using assms pad [of "unat b"] by linarith
  then have "unat (align8 b) = unat b + (8 - unat b mod 8) mod 8" by (rule align8_pad)
  then show "unat b \<le> unat (align8 b)" "unat (align8 b) < unat b + 8" "unat (align8 b) mod 8 = 0"
    using pad [of "unat b"] by auto
qed

lemma heap_request_rep:
  assumes "unat bytes + 64 \<le> 2 ^ 64"
  shows "unat (heap_request typed unaligned bytes) + 32 < 2 ^ 64"
    and "unat bytes + (if typed then 16 else 8) \<le> unat (heap_request typed unaligned bytes)"
proof -
  define b where "b = (if unaligned then bytes else align8 bytes)"
  have b: "unat bytes \<le> unat b" "unat b < unat bytes + 8" using align8_rep [of bytes] assms by (auto simp: b_def)
  define c where "c = (if typed then b + 8 else b)"
  have c: "unat c = unat b + (if typed then 8 else 0)" using assms b by (simp add: c_def unat_word_ariths)
  have d: "unat (c + 8) = unat c + 8" using assms b c by (simp add: unat_word_ariths split: if_splits)
  have "heap_request typed unaligned bytes = (if c + 8 < 32 then 32 else c + 8)"
    by (simp add: heap_request_def b_def c_def Let_def)
  then show "unat (heap_request typed unaligned bytes) + 32 < 2 ^ 64"
    "unat bytes + (if typed then 16 else 8) \<le> unat (heap_request typed unaligned bytes)"
    using assms b c d by (auto simp: word_less_nat_alt split: if_splits)
qed

lemma heap_alloc_none:
  assumes inv: "heap_inv st this as" and b: "bytes \<noteq> 0"
    and fit: "fit_of 32 (sizes st) as (heap_request typed unaligned bytes) = 0"
  shows "heap_alloc typed unaligned this bytes st = Some (st, 0)"
proof -
  obtain g where g: "hs_heaps st this = Some g" "list_rep (hs_elems st) (gl_list g) as" "this \<noteq> 0"
    using inv by (auto simp: heap_inv_def)
  then have "gl_search_decrementing 1 32 (hs_elems st) g (heap_request typed unaligned bytes) = Some (hs_elems st, g, 0)"
    using gl_search_decrementing_none [of "hs_elems st" g as 32] fit by (simp add: sizes_def)
  then show ?thesis using g b by (simp add: heap_alloc_def store_simps fun_upd_idem)
qed

text \<open>The bytes a request takes with its header, and the size of the header.\<close>

definition header :: "bool \<Rightarrow> ulong" where
  "header typed = (if typed then 16 else 8)"

lemma heap_alloc_rep:
  assumes inv: "heap_inv st this as" and b: "bytes \<noteq> 0" and n: "n = heap_request typed unaligned bytes" "unat n + 32 < 2 ^ 64"
    and fit: "fit_of 32 (sizes st) as n \<noteq> 0"
  shows "\<exists>st' as' base. heap_alloc typed unaligned this bytes st = Some (st', base + header typed) \<and>
           heap_inv st' this as' \<and> base \<noteq> 0 \<and> unat base + unat n \<le> 2 ^ 64 \<and>
           {unat base ..< unat base + unat n} \<subseteq> free_of st as \<and>
           free_of st' as' = free_of st as - {unat base ..< unat base + unat n} \<and>
           hs_words st' (base + header typed - 8) = Some n \<and> (typed \<longrightarrow> hs_words st' base = Some this)"
proof -
  define e where "e = fit_of 32 (sizes st) as n"
  have n32: "32 \<le> unat n" using n(1) by (auto simp: heap_request_def Let_def word_le_nat_alt not_less)
  obtain g where g: "hs_heaps st this = Some g" "list_rep (hs_elems st) (gl_list g) as"
    "unat (gl_grouped g) = card (free_of st as)" and nn: "this \<noteq> 0"
    and obj: "\<And>a. a \<in> set as \<Longrightarrow> map_option obj (hs_elems st a) = Some a"
    and rc: "runs (sizes st) (set as)" "coalesced (sizes st) (set as)"
    using inv by (auto simp: heap_inv_def)
  have u32: "unat (32 + n) = 32 + unat n" using n(2) by (simp add: unat_word_ariths)
  have e: "e \<noteq> 0" "e \<in> set as" "32 + unat n \<le> unat (sizes st e) \<or> sizes st e = n"
    using fit fit_of_in [OF fit] u32 by (auto simp: e_def word_le_nat_alt)
  obtain h' g' where t: "gl_search_decrementing 1 32 (hs_elems st) g n = Some (h', g', e)"
    "list_rep h' (gl_list g') (if sizes st e = n then remove1 e as else as)"
    "gsize_of h' = (sizes st)(e := sizes st e - n)" "gl_grouped g' = gl_grouped g - n" "same_obj (hs_elems st) h'"
    using gl_search_decrementing_rep [OF g(2), of 32 n e] e(1) by (auto simp: e_def sizes_def)
  define as' where "as' = (if sizes st e = n then remove1 e as else as)"
  define st1 where "st1 = st\<lparr>hs_elems := h', hs_heaps := (hs_heaps st)(this \<mapsto> g')\<rparr>"
  have sz1: "sizes st1 = (sizes st)(e := sizes st e - n)" using t(3) by (simp add: sizes_def st1_def)
  have set': "set as' = (if sizes st e = n then set as - {e} else set as)"
    using heap_inv_fresh [OF inv] by (simp add: as'_def)
  define base where "base = e + sizes st1 e"
  define blk where "blk = {unat e + unat (sizes st1 e) ..< unat e + unat (sizes st e)}"
  have C: "runs (sizes st1) (set as')" "coalesced (sizes st1) (set as')" "free_of st1 as' = free_of st as - blk"
    "blk \<subseteq> free_of st as" "unat (sizes st1 e) + unat n = unat (sizes st e)"
    using cut_runs [OF rc e(2,3) sz1 set'] by (auto simp: free_of_def blk_def)
  have ok: "run_ok (sizes st) e" using rc(1) e(2) by (simp add: runs_def)
  then have ub: "unat base = unat e + unat (sizes st1 e)"
    using C(5) n32 by (simp add: base_def unat_word_ariths run_ok_def)
  have blk: "blk = {unat base ..< unat base + unat n}" by (simp add: blk_def ub add.assoc C(5))
  have fin: "unat base + unat n \<le> 2 ^ 64" using ok ub C(5) by (simp add: run_ok_def)
  have b0: "base \<noteq> 0" using ub e(1) by (auto simp flip: unat_eq_0_iff)
  have "card (free_of st1 as') = card (free_of st as) - unat n"
    using C(3,4) blk by (simp add: card_Diff_subset)
  moreover have "unat n \<le> card (free_of st as)"
    using C(4) blk card_mono [of "free_of st as" blk] by (simp add: free_of_def finite_free_bytes)
  ultimately have "unat (gl_grouped g') = card (free_of st1 as')"
    using t(4) g(3) by (simp add: unat_sub word_le_nat_alt)
  moreover have "map_option obj (h' a) = Some a" if "a \<in> set as'" for a
    using that t(5) obj [of a] set' by (auto simp: same_obj_def split: if_splits)
  ultimately have inv1: "heap_inv st1 this as'"
    using nn t(2) C(1,2) by (simp add: heap_inv_def st1_def as'_def)
  have ub8: "unat (base + 8) = unat base + 8" using fin n32 by (simp add: unat_word_ariths)
  have sub0: "{unat base ..< unat base + 8} \<inter> free_of st1 as' = {}"
    and sub8: "{unat (base + 8) ..< unat (base + 8) + 8} \<inter> free_of st1 as' = {}"
    unfolding C(3) blk ub8 using n32 by auto
  have x: "\<exists>x. h' e = Some x \<and> obj x + gsize x = base"
  proof -
    obtain x where x: "h' e = Some x" "obj x = e"
      using obj [OF e(2)] t(5) unfolding same_obj_def by (metis map_option_eq_Some)
    moreover have "gsize x = sizes st1 e" using t(3) x(1) sz1 gsize_of_Some [of h' e x] by simp
    ultimately show ?thesis by (simp add: base_def)
  qed
  define st2 where "st2 = (if typed then write_word (write_word st1 base this) (base + 8) n else write_word st1 base n)"
  have "heap_alloc typed unaligned this bytes st = Some (st2, base + header typed)"
    using b g(1) nn t(1) e(1) x
    by (auto simp: heap_alloc_def store_simps st2_def st1_def header_def Let_def ac_simps simp flip: n(1))
  moreover have "heap_inv st2 this as' \<and> free_of st2 as' = free_of st1 as'"
    using heap_inv_write [OF inv1 sub0] heap_inv_write [of "write_word st1 base this" this as' "base + 8" n] sub8
    by (auto simp: st2_def)
  moreover have "hs_words st2 (base + header typed - 8) = Some n" by (simp add: st2_def header_def write_word_def)
  moreover have "typed \<Longrightarrow> hs_words st2 base = Some this"
    using ub8 by (auto simp: st2_def write_word_def overlap_def)
  ultimately show ?thesis using C(3,4) blk fin b0 by metis
qed

section \<open>Properties\<close>

lemma heap_load_words:
  "hs_words st a = Some v \<Longrightarrow> a \<noteq> 0 \<Longrightarrow> load (hs_words st) a = Some v"
  by (simp add: store_simps)

lemma header_free:
  assumes "heap_inv st this as" "hs_words st (base + header typed - 8) = Some n" "typed \<longrightarrow> hs_words st base = Some this"
    and "base \<noteq> 0" "32 \<le> unat n" "unat base + unat n \<le> 2 ^ 64"
  shows "(if typed then typed_free (base + header typed) st else untyped_free this (base + header typed) st) =
         heap_free this base n st"
proof -
  have "unat (base + 8) = unat base + 8" using assms(5,6) by (simp add: unat_word_ariths)
  then have "8 + base \<noteq> 0" by (metis add.commute add_is_0 unat_0 zero_neq_numeral)
  then show ?thesis
    using assms by (cases typed) (auto simp: typed_free_def untyped_free_def header_def store_simps)
qed

lemma heap_free_small: "n < 32 \<or> p = 0 \<Longrightarrow> heap_free this p n st = Some st"
  by (auto simp: heap_free_def)

lemma heap_request_ge: "32 \<le> unat (heap_request typed unaligned bytes)"
  by (auto simp: heap_request_def Let_def word_le_nat_alt not_less)

lemma header_unat:
  assumes "32 \<le> unat n" "unat base + unat n \<le> 2 ^ 64"
  shows "unat (base + header typed) = unat base + (if typed then 16 else 8)"
  using assms by (simp add: header_def unat_word_ariths)

text \<open>
  C11. Allocation never fails to return. It gives the null pointer and leaves the heap as it was exactly when no
  free run can hold the request, its header and a list element; otherwise it gives a block of at least
  the requested size that lies in memory that was free, is not free afterwards and is not touched by
  the free list, and the heap stays well-formed.
\<close>

theorem heap_alloc_ok:
  assumes inv: "heap_inv st this as" and b: "bytes \<noteq> 0" "unat bytes + 64 \<le> 2 ^ 64"
  shows "\<exists>st' p. heap_alloc typed unaligned this bytes st = Some (st', p) \<and>
    (if p = 0
     then st' = st \<and> (\<forall>a \<in> set as. unat (sizes st a) < unat (heap_request typed unaligned bytes) + 32 \<and>
                                 sizes st a \<noteq> heap_request typed unaligned bytes)
     else \<exists>as'. heap_inv st' this as' \<and> free_of st' as' \<subseteq> free_of st as \<and>
                 {unat p ..< unat p + unat bytes} \<subseteq> free_of st as - free_of st' as')"
proof -
  let ?n = "heap_request typed unaligned bytes"
  note n = heap_request_rep [OF b(2), of typed unaligned] heap_request_ge [of typed unaligned bytes]
  show ?thesis
  proof (cases "fit_of 32 (sizes st) as ?n = 0")
    case True
    have "unat (32 + ?n) = unat ?n + 32" using n by (simp add: unat_word_ariths)
    then have "unat (sizes st a) < unat ?n + 32 \<and> sizes st a \<noteq> ?n" if "a \<in> set as" for a
      using fit_of_0 [OF True _ that] heap_inv_fresh [OF inv] by (simp add: word_less_nat_alt)
    then show ?thesis using heap_alloc_none [OF inv b(1) True] by auto
  next
    case False
    then obtain st' as' base where t: "heap_alloc typed unaligned this bytes st = Some (st', base + header typed)"
      "heap_inv st' this as'" "base \<noteq> 0" "unat base + unat ?n \<le> 2 ^ 64"
      "{unat base ..< unat base + unat ?n} \<subseteq> free_of st as"
      "free_of st' as' = free_of st as - {unat base ..< unat base + unat ?n}"
      using heap_alloc_rep [OF inv b(1) refl n(1)] by blast
    have u: "unat (base + header typed) = unat base + (if typed then 16 else 8)" using header_unat n(3) t(4) .
    then have nz: "base + header typed \<noteq> 0" using t(3) by (auto simp flip: unat_eq_0_iff split: if_splits)
    have "{unat (base + header typed) ..< unat (base + header typed) + unat bytes} \<subseteq> {unat base ..< unat base + unat ?n}"
      unfolding u using n(2) by auto
    then have "{unat (base + header typed) ..< unat (base + header typed) + unat bytes} \<subseteq> free_of st as - free_of st' as'"
      using t(5,6) by blast
    then have "\<exists>as'. heap_inv st' this as' \<and> free_of st' as' \<subseteq> free_of st as \<and>
        {unat (base + header typed) ..< unat (base + header typed) + unat bytes} \<subseteq> free_of st as - free_of st' as'"
      using t(2,6) by blast
    then show ?thesis
      by (intro exI [of _ st'] exI [of _ "base + header typed"]) (simp only: t(1) nz if_False simp_thms)
  qed
qed

text \<open>
  Freeing what was allocated undoes it: after \<open>delete\<close> (typed or untyped, the one that matches the
  allocation) the free bytes of the heap are the ones before the allocation, with the same total.
\<close>

theorem heap_alloc_free:
  assumes inv: "heap_inv st this as" and b: "bytes \<noteq> 0" "unat bytes + 64 \<le> 2 ^ 64"
    and al: "heap_alloc typed unaligned this bytes st = Some (st', p)" "p \<noteq> 0"
  shows "\<exists>st'' as''. (if typed then typed_free p st' else untyped_free this p st') = Some st'' \<and>
    heap_inv st'' this as'' \<and> free_of st'' as'' = free_of st as"
proof -
  let ?n = "heap_request typed unaligned bytes"
  note n = heap_request_rep [OF b(2), of typed unaligned] heap_request_ge [of typed unaligned bytes]
  have "fit_of 32 (sizes st) as ?n \<noteq> 0" using heap_alloc_none [OF inv b(1)] al by force
  then obtain as' base where t: "p = base + header typed" "heap_inv st' this as'" "base \<noteq> 0"
    "unat base + unat ?n \<le> 2 ^ 64" "{unat base ..< unat base + unat ?n} \<subseteq> free_of st as"
    "free_of st' as' = free_of st as - {unat base ..< unat base + unat ?n}"
    "hs_words st' (base + header typed - 8) = Some ?n" "typed \<longrightarrow> hs_words st' base = Some this"
    using heap_alloc_rep [OF inv b(1) refl n(1)] al by auto
  have "(if typed then typed_free p st' else untyped_free this p st') = heap_free this base ?n st'"
    unfolding t(1) by (rule header_free [OF t(2,7,8,3) n(3) t(4)])
  moreover have "32 \<le> ?n" using n(3) by (simp add: word_le_nat_alt)
  then obtain st'' as'' where "heap_free this base ?n st' = Some st''" "heap_inv st'' this as''"
    "free_of st'' as'' = free_of st' as' \<union> {unat base ..< unat base + unat ?n}"
    using heap_free_rep [OF t(2,3) _ t(4)] t(6) by blast
  ultimately show ?thesis using t(5,6) by (auto simp: Un_absorb2)
qed

text \<open>
  C12. Freeing a block that is not free adds exactly its bytes to the heap and merges it with both neighbours:
  the runs stay disjoint and no two of them touch, so repeated allocation and freeing does not splinter
  the memory. Blocks too small to hold a list element are dropped.
\<close>

theorem heap_free_ok:
  assumes inv: "heap_inv st this as" and p: "p \<noteq> 0" "unat p + unat n \<le> 2 ^ 64"
    and out: "{unat p ..< unat p + unat n} \<inter> free_of st as = {}"
  shows "\<exists>st' as'. heap_free this p n st = Some st' \<and> heap_inv st' this as' \<and>
    free_of st' as' = free_of st as \<union> (if 32 \<le> n then {unat p ..< unat p + unat n} else {})"
proof (cases "32 \<le> n")
  case True
  then show ?thesis using heap_free_rep [OF inv p(1) True p(2) out] by simp
next
  case False
  then have "heap_free this p n st = Some st" by (intro heap_free_small) (simp add: not_le)
  then show ?thesis using inv False by auto
qed

text \<open>
  C36. The size of a request is not checked for wrap-around: a request for \<open>2\<^sup>6\<^sup>4 - 1\<close> bytes on a target that
  aligns is served with a block of 32 bytes, header included.
\<close>

theorem heap_alloc_wraps:
  assumes inv: "heap_inv st this as" and a: "a \<in> set as" "64 \<le> unat (sizes st a)"
  shows "\<exists>st' p as'. heap_alloc typed False this (- 1) st = Some (st', p) \<and> p \<noteq> 0 \<and>
    heap_inv st' this as' \<and> card (free_of st as) = card (free_of st' as') + 32"
proof -
  have "align8 (- 1) = 0" by (simp add: align8.simps [of "- 1"] align8.simps [of 0])
  then have n: "heap_request typed False (- 1) = 32" by (simp add: heap_request_def)
  have "fit_of 32 (sizes st) as 32 \<noteq> 0"
    using fit_of_0 [of 32 "sizes st" as 32 a] a heap_inv_fresh [OF inv] by (auto simp: word_less_nat_alt)
  then obtain st' as' base where t: "heap_alloc typed False this (- 1) st = Some (st', base + header typed)"
    "heap_inv st' this as'" "base \<noteq> 0" "unat base + 32 \<le> 2 ^ 64" "{unat base ..< unat base + 32} \<subseteq> free_of st as"
    "free_of st' as' = free_of st as - {unat base ..< unat base + 32}"
    using heap_alloc_rep [OF inv _ n [symmetric]] by auto
  have "base + header typed \<noteq> 0"
    using header_unat [of "32 :: ulong" base typed] t(3,4) by (auto simp flip: unat_eq_0_iff split: if_splits)
  moreover have "finite (free_of st as)" by (simp add: free_of_def finite_free_bytes)
  then have "card (free_of st' as') = card (free_of st as) - 32" "32 \<le> card (free_of st as)"
    using t(5,6) card_mono [OF _ t(5)] by (simp_all add: card_Diff_subset)
  ultimately show ?thesis using t by auto
qed

section \<open>Witnesses\<close>

text \<open>A heap at 256 with one free run of 256 bytes at 4096.\<close>

definition heap_one :: heap_state where
  "heap_one =
     \<lparr>hs_elems = [4096 \<mapsto> doubly_linked_grouping 4096 256], hs_words = Map.empty,
      hs_heaps = [256 \<mapsto> \<lparr>gl_list = \<lparr>dl_size = 1, dl_head = 4096, dl_tail = 4096\<rparr>, gl_grouped = 256\<rparr>]\<rparr>"

lemma heap_one_size: "sizes heap_one 4096 = 256"
  by (simp add: sizes_def heap_one_def doubly_linked_grouping_def)

lemma heap_one_inv: "heap_inv heap_one 256 [4096]"
  using heap_one_size
  by (simp add: heap_inv_def runs_def run_ok_def coalesced_def list_rep_def free_of_def free_bytes_def span_def)
     (simp add: heap_one_def doubly_linked_grouping_def)

theorem heap_alloc_ok_witness:
  "\<exists>st' p. heap_alloc True False 256 100 heap_one = Some (st', p) \<and>
    (if p = 0
     then st' = heap_one \<and> (\<forall>a \<in> set [4096]. unat (sizes heap_one a) < unat (heap_request True False 100) + 32 \<and>
                                 sizes heap_one a \<noteq> heap_request True False 100)
     else \<exists>as'. heap_inv st' 256 as' \<and> free_of st' as' \<subseteq> free_of heap_one [4096] \<and>
                 {unat p ..< unat p + unat (100 :: ulong)} \<subseteq> free_of heap_one [4096] - free_of st' as')"
  by (rule heap_alloc_ok [OF heap_one_inv]) simp_all

theorem heap_alloc_wraps_witness:
  "\<exists>st' p as'. heap_alloc True False 256 (- 1) heap_one = Some (st', p) \<and> p \<noteq> 0 \<and>
    heap_inv st' 256 as' \<and> card (free_of heap_one [4096]) = card (free_of st' as') + 32"
  by (rule heap_alloc_wraps [OF heap_one_inv, of 4096]) (simp_all add: heap_one_size)

theorem heap_free_ok_witness:
  "\<exists>st' as'. heap_free 256 4352 64 heap_one = Some st' \<and> heap_inv st' 256 as' \<and>
    free_of st' as' = free_of heap_one [4096] \<union> (if (32 :: ulong) \<le> 64 then {unat (4352 :: addr) ..< unat (4352 :: addr) + unat (64 :: ulong)} else {})"
  by (rule heap_free_ok [OF heap_one_inv]) (simp_all add: free_of_def free_bytes_def span_def heap_one_size)

theorem heap_alloc_free_witness:
  "\<exists>st' p st'' as''. heap_alloc True False 256 100 heap_one = Some (st', p) \<and> p \<noteq> 0 \<and>
    typed_free p st' = Some st'' \<and> heap_inv st'' 256 as'' \<and> free_of st'' as'' = free_of heap_one [4096]"
proof -
  have al: "align8 100 = 104" by (simp add: align8.simps)
  then have n: "heap_request True False 100 = 120" by (simp add: heap_request_def)
  have "fit_of 32 (sizes heap_one) [4096] 120 \<noteq> 0" by (simp add: fit_of_def heap_one_size)
  then obtain st' base where t: "heap_alloc True False 256 100 heap_one = Some (st', base + header True)"
    "base \<noteq> 0" "unat base + 120 \<le> 2 ^ 64"
    using heap_alloc_rep [OF heap_one_inv _ n [symmetric]] by auto
  have "base + header True \<noteq> 0"
    using header_unat [of "120 :: ulong" base True] t(3) by (auto simp flip: unat_eq_0_iff)
  then show ?thesis using heap_alloc_free [OF heap_one_inv _ _ t(1)] t(1) by auto
qed

end
