(* ===== verification/Threads.thy ===== *)
theory Threads
  imports Scheduling_Multilist
begin

text \<open>
  Threads: \<open>Scheduler<Thread>\<close> (\<open>include/utility/scheduling.h\<close>) and \<open>Thread\<close> (\<open>include/process.h\<close>,
  \<open>src/api/thread.cc\<close>). The criterion is the one this version of \<open>Thread\<close> needs (it asks it for a
  \<open>target_migration_cpu\<close>): a partitioned, preemptive, timed criterion whose queues are a
  \<open>Scheduling_Multilist\<close>, one queue for each CPU.

  The kernel state holds the list elements embedded in the threads (\<open>_link\<close>), the threads, the scheduler's
  queues and the waiting queues of the synchronizers, by address; and, for each CPU, the thread whose
  context is loaded there. Operations take the CPU that executes them. They run under the scheduler lock,
  so each is one step. \<open>CPU::switch_context\<close> is the moment the step ends. The statistics kept by
  \<open>criterion().handle\<close>, tracing and the multitasking branches (\<open>Task\<close>) are left out.
\<close>

section \<open>The state\<close>

datatype thread_state = RUNNING | READY | SUSPENDED | WAITING | FINISHING

record criterion =
  c_priority :: int
  c_queue :: nat
  c_target :: int

record delem_criterion = delem_scheduling +
  starget :: int

text \<open>\<open>th_saved\<close>: \<open>_context\<close> is not null. \<open>th_status\<close>: the integer at the base of the stack.\<close>

record thread =
  th_state :: thread_state
  th_waiting :: addr
  th_joining :: addr
  th_status :: int
  th_saved :: bool
  th_link :: addr

record kernel =
  k_elems :: "delem_criterion store"
  k_threads :: "thread store"
  k_sched :: "scheduling_list list"
  k_queues :: "linked_list store"
  k_count :: uint
  k_on :: "addr list"
  k_ipis :: "nat list"
  k_restarts :: nat

definition get_rank :: "delem_criterion \<Rightarrow> criterion" where
  "get_rank x = \<lparr>c_priority = rank x, c_queue = squeue x, c_target = starget x\<rparr>"

definition set_rank :: "criterion \<Rightarrow> delem_criterion \<Rightarrow> delem_criterion" where
  "set_rank c x = x\<lparr>rank := c_priority c, squeue := c_queue c, starget := c_target c\<rparr>"

definition thread_upd :: "addr \<Rightarrow> (thread \<Rightarrow> thread) \<Rightarrow> kernel \<Rightarrow> kernel option" where
  "thread_upd t f s = do { ts \<leftarrow> modify (k_threads s) t f; Some (s\<lparr>k_threads := ts\<rparr>) }"

definition elem_upd :: "addr \<Rightarrow> (delem_criterion \<Rightarrow> delem_criterion) \<Rightarrow> kernel \<Rightarrow> kernel option" where
  "elem_upd e f s = do { h \<leftarrow> modify (k_elems s) e f; Some (s\<lparr>k_elems := h\<rparr>) }"

definition thread_criterion :: "addr \<Rightarrow> kernel \<Rightarrow> criterion option" where
  "thread_criterion t s = do { th \<leftarrow> load (k_threads s) t; x \<leftarrow> load (k_elems s) (th_link th); Some (get_rank x) }"

definition send_ipi :: "nat \<Rightarrow> kernel \<Rightarrow> kernel" where
  "send_ipi cpu s = s\<lparr>k_ipis := k_ipis s @ [cpu]\<rparr>"

section \<open>The scheduler\<close>

definition sch_chosen :: "nat \<Rightarrow> kernel \<Rightarrow> addr option" where
  "sch_chosen cpu s = do {
     l \<leftarrow> sublist_at (k_sched s) cpu;
     x \<leftarrow> load (k_elems s) (sc_chosen l);
     Some (obj x) }"

definition sch_insert :: "addr \<Rightarrow> kernel \<Rightarrow> kernel option" where
  "sch_insert t s = do {
     th \<leftarrow> load (k_threads s) t;
     (h, ls) \<leftarrow> ml_insert single_head (k_elems s) (k_sched s) (th_link th);
     Some (s\<lparr>k_elems := h, k_sched := ls\<rparr>) }"

definition sch_remove :: "addr \<Rightarrow> kernel \<Rightarrow> (kernel \<times> addr) option" where
  "sch_remove t s = do {
     th \<leftarrow> load (k_threads s) t;
     (h, ls, e) \<leftarrow> ml_remove single_head (k_elems s) (k_sched s) (th_link th);
     Some (s\<lparr>k_elems := h, k_sched := ls\<rparr>, if e \<noteq> 0 then t else 0) }"

definition sch_suspend :: "addr \<Rightarrow> kernel \<Rightarrow> kernel option" where
  "sch_suspend t s = map_option fst (sch_remove t s)"

definition sch_resume :: "addr \<Rightarrow> kernel \<Rightarrow> kernel option" where
  "sch_resume t s = sch_insert t s"

definition sch_choose :: "nat \<Rightarrow> kernel \<Rightarrow> (kernel \<times> addr) option" where
  "sch_choose cpu s = do {
     (h, ls, e) \<leftarrow> ml_choose single_head cpu (k_elems s) (k_sched s);
     x \<leftarrow> load h e;
     Some (s\<lparr>k_elems := h, k_sched := ls\<rparr>, obj x) }"

definition sch_choose_another :: "nat \<Rightarrow> kernel \<Rightarrow> (kernel \<times> addr) option" where
  "sch_choose_another cpu s = do {
     (h, ls, e) \<leftarrow> ml_choose_another single_head cpu (k_elems s) (k_sched s);
     x \<leftarrow> load h e;
     Some (s\<lparr>k_elems := h, k_sched := ls\<rparr>, obj x) }"

definition sch_choose_thread :: "nat \<Rightarrow> addr \<Rightarrow> kernel \<Rightarrow> (kernel \<times> addr) option" where
  "sch_choose_thread cpu t s = do {
     th \<leftarrow> load (k_threads s) t;
     (h, ls, e) \<leftarrow> ml_choose_elem single_head cpu (k_elems s) (k_sched s) (th_link th);
     Some (s\<lparr>k_elems := h, k_sched := ls\<rparr>, if e = 0 then 0 else t) }"

definition sch_schedulables :: "nat \<Rightarrow> kernel \<Rightarrow> ulong option" where
  "sch_schedulables cpu s = do { l \<leftarrow> sublist_at (k_sched s) cpu; Some (dl_size (sc_base l)) }"

section \<open>Dispatching\<close>

definition thread_running :: "nat \<Rightarrow> kernel \<Rightarrow> addr option" where
  "thread_running cpu s = sch_chosen cpu s"

text \<open>
  \<open>None\<close> where \<open>while(!next->_context)\<close> would spin. In the code the CPU releases the lock before it spins, so that another CPU can still save
  the context of \<open>next\<close>, which it does in the same call, with interrupts disabled; here a call of \<open>dispatch\<close> is one step, up to
  and with the saving of the context of \<open>prev\<close>, and a context that is missing when the step begins stays missing.
\<close>

definition dispatch :: "nat \<Rightarrow> addr \<Rightarrow> addr \<Rightarrow> bool \<Rightarrow> kernel \<Rightarrow> kernel option" where
  "dispatch cpu prev next charge s =
     (let s = (if charge then s\<lparr>k_restarts := k_restarts s + 1\<rparr> else s) in
      if prev \<noteq> next then do {
        s \<leftarrow> thread_upd prev (\<lambda>t. if th_state t = RUNNING then t\<lparr>th_state := READY\<rparr> else t) s;
        s \<leftarrow> thread_upd next (\<lambda>t. t\<lparr>th_state := RUNNING\<rparr>) s;
        n \<leftarrow> load (k_threads s) next;
        if \<not> th_saved n then None
        else do {
          s \<leftarrow> thread_upd next (\<lambda>t. t\<lparr>th_saved := False\<rparr>) s;
          s \<leftarrow> thread_upd prev (\<lambda>t. t\<lparr>th_saved := True\<rparr>) s;
          Some (s\<lparr>k_on := (k_on s)[cpu := next]\<rparr>) } }
      else Some s)"

definition migrate_running :: "addr \<Rightarrow> kernel \<Rightarrow> kernel option" where
  "migrate_running prev s = do {
     p \<leftarrow> load (k_threads s) prev;
     x \<leftarrow> load (k_elems s) (th_link p);
     if starget x \<noteq> - 1 then do {
       let target = nat (starget x mod 2 ^ 32);
       s \<leftarrow> elem_upd (th_link p) (\<lambda>x. x\<lparr>starget := - 1\<rparr>) s;
       s \<leftarrow> thread_upd prev (\<lambda>t. t\<lparr>th_state := READY\<rparr>) s;
       s \<leftarrow> sch_suspend prev s;
       s \<leftarrow> elem_upd (th_link p) (\<lambda>x. x\<lparr>squeue := target\<rparr>) s;
       s \<leftarrow> sch_resume prev s;
       Some (send_ipi target s) }
     else Some s }"

definition reschedule :: "nat \<Rightarrow> kernel \<Rightarrow> kernel option" where
  "reschedule cpu s = do {
     prev \<leftarrow> thread_running cpu s;
     s \<leftarrow> migrate_running prev s;
     (s, next) \<leftarrow> sch_choose cpu s;
     dispatch cpu prev next True s }"

definition reschedule_on :: "nat \<Rightarrow> nat \<Rightarrow> kernel \<Rightarrow> kernel option" where
  "reschedule_on cpu target s = (if target = cpu then reschedule cpu s else Some (send_ipi target s))"

definition rescheduler :: "nat \<Rightarrow> kernel \<Rightarrow> kernel option" where
  "rescheduler cpu s = reschedule cpu s"

text \<open>
  The code also tells the criteria of the two threads (\<open>handle(TIMER_INTERRUPTION)\<close> and the like); these calls, which change priorities for some
  policies only, are the subject of \<open>Criteria\<close>.
\<close>

definition time_slicer :: "nat \<Rightarrow> kernel \<Rightarrow> kernel option" where
  "time_slicer cpu s = reschedule cpu s"

section \<open>The life of a thread\<close>

text \<open>
  The constructor: the thread object at \<open>t\<close> with its link at \<open>ln\<close>; \<open>v\<close> is what happens to be at the base of
  the new stack. \<open>CPU::init_stack\<close> gives the thread a context.
\<close>

definition thread_new :: "nat \<Rightarrow> addr \<Rightarrow> addr \<Rightarrow> int \<Rightarrow> thread_state \<Rightarrow> criterion \<Rightarrow> kernel \<Rightarrow> kernel option" where
  "thread_new cpu t ln v st c s =
     (if st = WAITING \<or> st = FINISHING then None
      else do {
        let s = s\<lparr>k_threads := (k_threads s)(t \<mapsto> \<lparr>th_state = st, th_waiting = 0, th_joining = 0,
                     th_status = v, th_saved = True, th_link = ln\<rparr>),
                  k_elems := (k_elems s)(ln \<mapsto> \<lparr>obj = t, nxt = 0, prv = 0, rank = c_priority c,
                     squeue = c_queue c, starget = c_target c\<rparr>),
                  k_count := k_count s + 1\<rparr>;
        s \<leftarrow> sch_insert t s;
        s \<leftarrow> (if st \<noteq> READY \<and> st \<noteq> RUNNING then sch_suspend t s else Some s);
        if st = READY \<and> c_priority c \<noteq> IDLE then reschedule_on cpu (c_queue c) s else Some s })"

definition thread_resume :: "nat \<Rightarrow> addr \<Rightarrow> kernel \<Rightarrow> kernel option" where
  "thread_resume cpu t s = do {
     th \<leftarrow> load (k_threads s) t;
     if th_state th = SUSPENDED then do {
       s \<leftarrow> thread_upd t (\<lambda>t. t\<lparr>th_state := READY\<rparr>) s;
       s \<leftarrow> sch_resume t s;
       c \<leftarrow> thread_criterion t s;
       reschedule_on cpu (c_queue c) s }
     else Some s }"

definition dismiss :: "addr \<Rightarrow> kernel \<Rightarrow> kernel option" where
  "dismiss t s = do { (s, _) \<leftarrow> sch_remove t s; Some (s\<lparr>k_count := k_count s - 1\<rparr>) }"

definition thread_delete :: "nat \<Rightarrow> addr \<Rightarrow> kernel \<Rightarrow> kernel option" where
  "thread_delete cpu t s = do {
     th \<leftarrow> load (k_threads s) t;
     s \<leftarrow> (case th_state th of
            RUNNING \<Rightarrow> None
          | READY \<Rightarrow> dismiss t s
          | SUSPENDED \<Rightarrow> do { s \<leftarrow> sch_resume t s; dismiss t s }
          | WAITING \<Rightarrow> do {
              l \<leftarrow> load (k_queues s) (th_waiting th);
              (h, l, _) \<leftarrow> ol_remove_object False (k_elems s) l t;
              s \<leftarrow> sch_resume t (s\<lparr>k_elems := h, k_queues := (k_queues s)(th_waiting th \<mapsto> l)\<rparr>);
              dismiss t s }
          | FINISHING \<Rightarrow> Some s);
     th \<leftarrow> load (k_threads s) t;
     if th_joining th \<noteq> 0 then thread_resume cpu (th_joining th) s else Some s }"

definition thread_priority :: "nat \<Rightarrow> addr \<Rightarrow> criterion \<Rightarrow> kernel \<Rightarrow> kernel option" where
  "thread_priority cpu t c s = do {
     th \<leftarrow> load (k_threads s) t;
     old \<leftarrow> thread_criterion t s;
     s \<leftarrow> (if th_state th \<noteq> RUNNING
          then do {
            s \<leftarrow> sch_suspend t s;
            s \<leftarrow> elem_upd (th_link th) (set_rank c) s;
            sch_resume t s }
          else elem_upd (th_link th) (set_rank c) s);
     s \<leftarrow> (if c_queue old \<noteq> cpu then reschedule_on cpu (c_queue old) s else Some s);
     if c_queue c \<noteq> cpu then reschedule_on cpu (c_queue c) s else Some s }"

text \<open>\<open>join\<close> up to the point where it blocks, and the value it returns once it runs on.\<close>

definition thread_join :: "nat \<Rightarrow> addr \<Rightarrow> kernel \<Rightarrow> kernel option" where
  "thread_join cpu t s = do {
     r \<leftarrow> thread_running cpu s;
     th \<leftarrow> load (k_threads s) t;
     if r = t \<or> th_joining th \<noteq> 0 then None
     else if th_state th \<noteq> FINISHING then do {
       s \<leftarrow> thread_upd t (\<lambda>t. t\<lparr>th_joining := r\<rparr>) s;
       s \<leftarrow> thread_upd r (\<lambda>t. t\<lparr>th_state := SUSPENDED\<rparr>) s;
       s \<leftarrow> sch_suspend r s;
       next \<leftarrow> sch_chosen cpu s;
       dispatch cpu r next True s }
     else Some s }"

definition join_value :: "addr \<Rightarrow> kernel \<Rightarrow> int option" where
  "join_value t s = do { th \<leftarrow> load (k_threads s) t; Some (th_status th) }"

definition thread_pass :: "nat \<Rightarrow> addr \<Rightarrow> kernel \<Rightarrow> kernel option" where
  "thread_pass cpu t s = do {
     prev \<leftarrow> thread_running cpu s;
     (s, next) \<leftarrow> sch_choose_thread cpu t s;
     if next \<noteq> 0 then dispatch cpu prev next False s else Some s }"

definition thread_suspend :: "nat \<Rightarrow> addr \<Rightarrow> kernel \<Rightarrow> kernel option" where
  "thread_suspend cpu t s = do {
     prev \<leftarrow> thread_running cpu s;
     s \<leftarrow> thread_upd t (\<lambda>t. t\<lparr>th_state := SUSPENDED\<rparr>) s;
     s \<leftarrow> sch_suspend t s;
     next \<leftarrow> sch_chosen cpu s;
     dispatch cpu prev next True s }"

definition thread_yield :: "nat \<Rightarrow> kernel \<Rightarrow> kernel option" where
  "thread_yield cpu s = do {
     prev \<leftarrow> thread_running cpu s;
     (s, next) \<leftarrow> sch_choose_another cpu s;
     dispatch cpu prev next True s }"

definition thread_exit :: "nat \<Rightarrow> int \<Rightarrow> kernel \<Rightarrow> kernel option" where
  "thread_exit cpu status s = do {
     prev \<leftarrow> thread_running cpu s;
     (s, _) \<leftarrow> sch_remove prev s;
     s \<leftarrow> thread_upd prev (\<lambda>t. t\<lparr>th_state := FINISHING, th_status := status\<rparr>) s;
     let s = s\<lparr>k_count := k_count s - 1\<rparr>;
     p \<leftarrow> load (k_threads s) prev;
     s \<leftarrow> (if th_joining p \<noteq> 0
          then do {
            s \<leftarrow> thread_upd (th_joining p) (\<lambda>t. t\<lparr>th_state := READY\<rparr>) s;
            s \<leftarrow> sch_resume (th_joining p) s;
            thread_upd prev (\<lambda>t. t\<lparr>th_joining := 0\<rparr>) s }
          else Some s);
     (s, next) \<leftarrow> sch_choose cpu s;
     dispatch cpu prev next True s }"

section \<open>Waiting queues\<close>

definition queue_upd :: "addr \<Rightarrow> linked_list \<Rightarrow> kernel \<Rightarrow> kernel" where
  "queue_upd q l s = s\<lparr>k_queues := (k_queues s)(q \<mapsto> l)\<rparr>"

definition thread_sleep :: "nat \<Rightarrow> addr \<Rightarrow> kernel \<Rightarrow> kernel option" where
  "thread_sleep cpu q s = do {
     prev \<leftarrow> thread_running cpu s;
     s \<leftarrow> sch_suspend prev s;
     s \<leftarrow> thread_upd prev (\<lambda>t. t\<lparr>th_state := WAITING, th_waiting := q\<rparr>) s;
     p \<leftarrow> load (k_threads s) prev;
     l \<leftarrow> load (k_queues s) q;
     (h, l) \<leftarrow> ol_insert False (k_elems s) l (th_link p);
     let s = queue_upd q l (s\<lparr>k_elems := h\<rparr>);
     next \<leftarrow> sch_chosen cpu s;
     dispatch cpu prev next True s }"

text \<open>The common part of \<open>wakeup\<close> and \<open>wakeup_all\<close>: the first thread of the queue becomes ready.\<close>

definition wake_first :: "addr \<Rightarrow> kernel \<Rightarrow> (kernel \<times> nat) option" where
  "wake_first q s = do {
     l \<leftarrow> load (k_queues s) q;
     (h, l, e) \<leftarrow> ol_remove_front False (k_elems s) l;
     x \<leftarrow> load h e;
     s \<leftarrow> thread_upd (obj x) (\<lambda>t. t\<lparr>th_state := READY, th_waiting := 0\<rparr>) (queue_upd q l (s\<lparr>k_elems := h\<rparr>));
     s \<leftarrow> sch_resume (obj x) s;
     c \<leftarrow> thread_criterion (obj x) s;
     Some (s, c_queue c) }"

definition queue_is_empty :: "addr \<Rightarrow> kernel \<Rightarrow> bool option" where
  "queue_is_empty q s = do { l \<leftarrow> load (k_queues s) q; Some (dl_empty l) }"

definition thread_wakeup :: "nat \<Rightarrow> addr \<Rightarrow> kernel \<Rightarrow> kernel option" where
  "thread_wakeup cpu q s = do {
     b \<leftarrow> queue_is_empty q s;
     if \<not> b then do { (s, c) \<leftarrow> wake_first q s; reschedule_on cpu c s } else Some s }"

partial_function (option) wake_loop :: "addr \<Rightarrow> kernel \<Rightarrow> nat set \<Rightarrow> (kernel \<times> nat set) option" where
  "wake_loop q s cpus = do {
     b \<leftarrow> queue_is_empty q s;
     if b then Some (s, cpus)
     else do { (s, c) \<leftarrow> wake_first q s; wake_loop q s (insert c cpus) } }"

fun reschedule_each :: "nat \<Rightarrow> nat set \<Rightarrow> nat list \<Rightarrow> kernel \<Rightarrow> kernel option" where
  "reschedule_each cpu cpus [] s = Some s"
| "reschedule_each cpu cpus (i # is) s =
     do { s \<leftarrow> (if i \<in> cpus then reschedule_on cpu i s else Some s); reschedule_each cpu cpus is s }"

text \<open>
  The bit mask \<open>cpus\<close> of the code is the set of its bits. The code asserts that there are at most 64 queues, and shifts an \<open>int\<close>, which is
  good for 31; no machine of the repository has more than eight. The loop over the queues is one step. In the code a reschedule of the
  own queue may switch to another thread, and the interrupts to the queues after it are sent when the caller runs again.
\<close>

definition thread_wakeup_all :: "nat \<Rightarrow> addr \<Rightarrow> kernel \<Rightarrow> kernel option" where
  "thread_wakeup_all cpu q s = do {
     b \<leftarrow> queue_is_empty q s;
     if \<not> b then do {
       (s, cpus) \<leftarrow> wake_loop q s {};
       reschedule_each cpu cpus [0..<length (k_sched s)] s }
     else Some s }"

text \<open>With \<open>priority_inversion_protocol = NONE\<close>, as \<open>Thread\<close> fixes it, these return at once.\<close>

definition prioritize :: "addr \<Rightarrow> kernel \<Rightarrow> kernel" where
  "prioritize q s = s"

definition deprioritize :: "addr \<Rightarrow> kernel \<Rightarrow> kernel" where
  "deprioritize q s = s"

section \<open>Migration\<close>

definition prepare_migration :: "addr \<Rightarrow> nat \<Rightarrow> uint \<Rightarrow> kernel \<Rightarrow> (kernel \<times> uint) option" where
  "prepare_migration t target ipis s = do {
     th \<leftarrow> load (k_threads s) t;
     c \<leftarrow> thread_criterion t s;
     (case th_state th of
        RUNNING \<Rightarrow> do {
          s \<leftarrow> elem_upd (th_link th) (\<lambda>x. x\<lparr>starget := int target\<rparr>) s;
          Some (s, or ipis (push_bit (c_queue c) 1)) }
      | READY \<Rightarrow> do {
          s \<leftarrow> sch_suspend t s;
          s \<leftarrow> elem_upd (th_link th) (\<lambda>x. x\<lparr>squeue := target\<rparr>) s;
          s \<leftarrow> sch_resume t s;
          Some (s, or (or ipis (push_bit (c_queue c) 1)) (push_bit target 1)) }
      | WAITING \<Rightarrow> do { s \<leftarrow> elem_upd (th_link th) (\<lambda>x. x\<lparr>squeue := target\<rparr>) s; Some (s, ipis) }
      | SUSPENDED \<Rightarrow> do { s \<leftarrow> elem_upd (th_link th) (\<lambda>x. x\<lparr>squeue := target\<rparr>) s; Some (s, ipis) }
      | FINISHING \<Rightarrow> Some (s, ipis)) }"

definition execute_migrations :: "nat \<Rightarrow> uint \<Rightarrow> nat \<Rightarrow> kernel \<Rightarrow> kernel" where
  "execute_migrations cpu ipis cpus s =
     foldl (\<lambda>s c. if bit ipis c \<and> c \<noteq> cpu then send_ipi c s else s) s [0..<cpus]"

text \<open>One round of the idle loop after the CPU has been woken.\<close>

definition idle_round :: "nat \<Rightarrow> kernel \<Rightarrow> kernel option" where
  "idle_round cpu s = do {
     n \<leftarrow> sch_schedulables cpu s;
     if 0 < n then thread_yield cpu s else Some s }"

end
