(* ===== verification/Thread_Places.thy ===== *)
theory Thread_Places
  imports Threads
begin

text \<open>
  Where the threads are, as a relation between plain functions and lists: each thread of \<open>T\<close> is on the CPU
  that runs it, in the ready list of its queue, in the waiting queue it sleeps on, or nowhere, and its
  state says which. The five moves of the scheduler (elect, block, sleep, ready, wake) keep this. The
  kernel invariant instantiates it with the thread records and the abstraction of the lists.
\<close>

definition places ::
  "addr set \<Rightarrow> (addr \<Rightarrow> addr) \<Rightarrow> (addr \<Rightarrow> nat) \<Rightarrow> (addr \<Rightarrow> addr) \<Rightarrow> (addr \<Rightarrow> thread_state) \<Rightarrow> addr list \<Rightarrow>
   (addr \<times> addr list) list \<Rightarrow> (addr \<rightharpoonup> addr list) \<Rightarrow> bool" where
  "places T lk qu wt st on cas ws \<longleftrightarrow>
     length on = length cas \<and> set on \<subseteq> T \<and> inj_on lk T \<and>
     (\<forall>c < length cas. lk (on ! c) = fst (cas ! c) \<and> qu (on ! c) = c) \<and>
     (\<forall>c < length cas. set (snd (cas ! c)) \<subseteq> lk ` T) \<and>
     (\<forall>t \<in> T. \<forall>c < length cas. lk t \<in> set (snd (cas ! c)) \<longleftrightarrow> st t = READY \<and> qu t = c) \<and>
     (\<forall>q as. ws q = Some as \<longrightarrow> set as \<subseteq> lk ` T) \<and>
     (\<forall>t \<in> T. \<forall>q as. ws q = Some as \<longrightarrow> (lk t \<in> set as \<longleftrightarrow> st t = WAITING \<and> wt t = q)) \<and>
     (\<forall>t \<in> T. st t = RUNNING \<longleftrightarrow> t \<in> set on) \<and>
     (\<forall>t \<in> T. st t = READY \<longrightarrow> qu t < length cas) \<and>
     (\<forall>t \<in> T. st t = WAITING \<longrightarrow> ws (wt t) \<noteq> None)"

text \<open>The states after \<open>dispatch(prev, next)\<close>.\<close>

definition switched :: "(addr \<Rightarrow> thread_state) \<Rightarrow> addr \<Rightarrow> addr \<Rightarrow> addr \<Rightarrow> thread_state" where
  "switched st prev next t =
     (if prev = next then st t
      else if t = next then RUNNING
      else if t = prev \<and> st t = RUNNING then READY else st t)"

lemma places_len: "places T lk qu wt st on cas ws \<Longrightarrow> length on = length cas"
  and places_on_sub: "places T lk qu wt st on cas ws \<Longrightarrow> t \<in> set on \<Longrightarrow> t \<in> T"
  and places_running: "places T lk qu wt st on cas ws \<Longrightarrow> t \<in> T \<Longrightarrow> st t = RUNNING \<longleftrightarrow> t \<in> set on"
  by (auto simp: places_def)

lemma places_on:
  assumes pl: "places T lk qu wt st on cas ws" and c: "c < length cas"
  shows "on ! c \<in> T \<and> lk (on ! c) = fst (cas ! c) \<and> qu (on ! c) = c \<and> st (on ! c) = RUNNING"
proof -
  have "on ! c \<in> set on" using places_len [OF pl] c by simp
  then show ?thesis using places_on_sub [OF pl] places_running [OF pl] pl c by (simp add: places_def)
qed

lemma places_ready_sub: "places T lk qu wt st on cas ws \<Longrightarrow> c < length cas \<Longrightarrow> set (snd (cas ! c)) \<subseteq> lk ` T"
  and places_wait_sub: "places T lk qu wt st on cas ws \<Longrightarrow> ws q = Some as \<Longrightarrow> set as \<subseteq> lk ` T"
  by (simp_all add: places_def)

lemma places_inj: "places T lk qu wt st on cas ws \<Longrightarrow> t \<in> T \<Longrightarrow> u \<in> T \<Longrightarrow> lk t = lk u \<longleftrightarrow> t = u"
  by (auto simp: places_def inj_on_eq_iff)

lemma places_ready:
  "places T lk qu wt st on cas ws \<Longrightarrow> t \<in> T \<Longrightarrow> c < length cas \<Longrightarrow> lk t \<in> set (snd (cas ! c)) \<longleftrightarrow> st t = READY \<and> qu t = c"
  by (auto simp: places_def)

lemma places_waiting:
  "places T lk qu wt st on cas ws \<Longrightarrow> t \<in> T \<Longrightarrow> ws q = Some as \<Longrightarrow> lk t \<in> set as \<longleftrightarrow> st t = WAITING \<and> wt t = q"
  by (auto simp: places_def)

lemma places_distinct: "places T lk qu wt st on cas ws \<Longrightarrow> distinct on"
  unfolding distinct_conv_nth
proof (intro allI impI)
  fix i j assume pl: "places T lk qu wt st on cas ws" and "i < length on" "j < length on" "i \<noteq> j"
  then show "on ! i \<noteq> on ! j" using places_on [OF pl, of i] places_on [OF pl, of j] places_len [OF pl] by auto
qed

lemma places_set_update:
  assumes pl: "places T lk qu wt st on cas ws" and c: "c < length cas"
  shows "t \<in> set (on[c := n]) \<longleftrightarrow> t = n \<or> t \<in> set on \<and> t \<noteq> on ! c"
proof -
  have c': "c < length on" using pl c by (simp add: places_def)
  have "set (on[c := n]) = insert n (set on - {on ! c})"
    using places_distinct [OF pl] c' by (rule set_update_distinct)
  then show ?thesis by auto
qed

lemma places_elect:
  assumes pl: "places T lk qu wt st on cas ws" and c: "c < length cas" and nx: "nx \<in> T" "lk nx \<notin> set ds"
    and ds: "insert (lk nx) (set ds) = insert (fst (cas ! c)) (set (snd (cas ! c)))"
  shows "places T lk qu wt (switched st (on ! c) nx) (on[c := nx]) (cas[c := (lk nx, ds)]) ws"
proof -
  note places_len = places_len [OF pl] and places_running = places_running [OF pl] and places_on = places_on [OF pl] and
    places_ready_sub = places_ready_sub [OF pl] and places_wait_sub = places_wait_sub [OF pl] and places_inj = places_inj [OF pl] and
    places_ready = places_ready [OF pl] and places_waiting = places_waiting [OF pl] and places_set_update = places_set_update [OF pl]
  note p = places_on [OF c]
  have nx_from: "nx = on ! c \<or> st nx = READY \<and> qu nx = c"
  proof -
    have "lk nx \<in> insert (lk nx) (set ds)" by simp
    then have "lk nx \<in> insert (lk (on ! c)) (set (snd (cas ! c)))" unfolding ds using p by simp
    then show ?thesis using places_ready [OF nx(1) c] places_inj [OF nx(1), of "on ! c"] p by auto
  qed
  have in_ds: "lk t \<in> set ds \<longleftrightarrow> (t = on ! c \<or> st t = READY \<and> qu t = c) \<and> t \<noteq> nx" if t: "t \<in> T" for t
  proof -
    have "lk t \<in> set ds \<longleftrightarrow> lk t \<in> insert (lk (on ! c)) (set (snd (cas ! c))) \<and> lk t \<noteq> lk nx"
      using nx(2) p unfolding conjunct1 [OF conjunct2 [OF p]] ds [symmetric] by auto
    then show ?thesis using places_ready [OF t c] places_inj [OF t, of "on ! c"] places_inj [OF t nx(1)] p by auto
  qed
  have others: "lk t \<in> set (snd (cas ! d)) \<longleftrightarrow> st t = READY \<and> qu t = d" if "t \<in> T" "d < length cas" for t d
    using places_ready [OF that] .
  have "lk (on ! c) \<in> lk ` T" by (rule imageI) (use p in simp)
  moreover have "set ds \<subseteq> insert (lk (on ! c)) (set (snd (cas ! c)))"
    unfolding conjunct1 [OF conjunct2 [OF p]] ds [symmetric] by auto
  ultimately have sub: "set ds \<subseteq> lk ` T" using places_ready_sub [OF c] by blast
  show ?thesis
    unfolding places_def length_list_update
  proof (intro conjI allI ballI impI)
    show "length on = length cas" using pl by (simp add: places_def)
    show "set (on[c := nx]) \<subseteq> T" using places_set_update [OF c] pl nx by (auto simp: places_def)
    show "inj_on lk T" using pl by (simp add: places_def)
    show "lk (on[c := nx] ! d) = fst (cas[c := (lk nx, ds)] ! d)" "qu (on[c := nx] ! d) = d" if "d < length cas" for d
      using that c places_len places_on [OF that] nx_from p by (cases "d = c"; auto)+
    show "set (snd (cas[c := (lk nx, ds)] ! d)) \<subseteq> lk ` T" if "d < length cas" for d
      using that c sub places_ready_sub [OF that] by (cases "d = c"; simp)
    show "lk t \<in> set (snd (cas[c := (lk nx, ds)] ! d)) \<longleftrightarrow> switched st (on ! c) nx t = READY \<and> qu t = d"
      if "t \<in> T" "d < length cas" for t d
      using that c in_ds [OF that(1)] others [OF that] p nx_from
      by (cases "d = c"; cases "on ! c = nx") (auto simp: switched_def)
    show "set as \<subseteq> lk ` T" if "ws q = Some as" for q as using that pl by (simp add: places_def)
    show "lk t \<in> set as \<longleftrightarrow> switched st (on ! c) nx t = WAITING \<and> wt t = q" if "t \<in> T" "ws q = Some as" for t q as
      using places_waiting [OF that] p nx_from by (auto simp: switched_def)
    show "switched st (on ! c) nx t = RUNNING \<longleftrightarrow> t \<in> set (on[c := nx])" if "t \<in> T" for t
      using places_running [OF that] places_set_update [OF c, of t nx] p nx_from by (auto simp: switched_def)
    show "qu t < length cas" if "t \<in> T" "switched st (on ! c) nx t = READY" for t
      using that pl p c by (auto simp: switched_def places_def split: if_splits)
    show "ws (wt t) \<noteq> None" if "t \<in> T" "switched st (on ! c) nx t = WAITING" for t
      using that pl p by (auto simp: switched_def places_def split: if_splits)
  qed
qed

text \<open>The running thread leaves the CPU for a state in which it is in no list, or in a waiting queue.\<close>

lemma places_leave:
  assumes pl: "places T lk qu wt st on cas ws" and c: "c < length cas" and nx: "nx \<in> T" "snd (cas ! c) = lk nx # ds" "lk nx \<notin> set ds"
    and st': "st' \<noteq> RUNNING" "st' \<noteq> READY" "st' = WAITING \<Longrightarrow> ws w = Some as \<and> bs = as'"
    and as': "set as' = insert (lk (on ! c)) (set as)"
  shows "places T lk qu (if st' = WAITING then wt(on ! c := w) else wt) (st(on ! c := st', nx := RUNNING)) (on[c := nx])
           (cas[c := (lk nx, ds)]) (if st' = WAITING then ws(w \<mapsto> bs) else ws)"
proof -
  note places_len = places_len [OF pl] and places_running = places_running [OF pl] and places_on = places_on [OF pl] and
    places_ready_sub = places_ready_sub [OF pl] and places_wait_sub = places_wait_sub [OF pl] and places_inj = places_inj [OF pl] and
    places_ready = places_ready [OF pl] and places_waiting = places_waiting [OF pl] and places_set_update = places_set_update [OF pl]
  note p = places_on [OF c]
  have nx_st: "st nx = READY" "qu nx = c" using places_ready [OF nx(1) c] nx(2) by auto
  then have ne: "nx \<noteq> on ! c" using p by auto
  have in_ds: "lk t \<in> set ds \<longleftrightarrow> st t = READY \<and> qu t = c \<and> t \<noteq> nx" if t: "t \<in> T" for t
    using nx places_ready [OF t c] places_inj [OF t nx(1)] by auto
  have sub: "set ds \<subseteq> lk ` T" using places_ready_sub [OF c] nx(2) by simp
  have w: "set bs \<subseteq> lk ` T" "t \<in> T \<Longrightarrow> lk t \<in> set bs \<longleftrightarrow> t = on ! c \<or> st t = WAITING \<and> wt t = w" if "st' = WAITING" for t
  proof -
    have asb: "ws w = Some as" "set bs = insert (lk (on ! c)) (set as)" using st'(3) [OF that] as' by auto
    have "lk (on ! c) \<in> lk ` T" by (rule imageI) (use p in simp)
    then show "set bs \<subseteq> lk ` T" using asb places_wait_sub [OF asb(1)] by simp
    show "lk t \<in> set bs \<longleftrightarrow> t = on ! c \<or> st t = WAITING \<and> wt t = w" if "t \<in> T"
      using asb places_waiting [OF that asb(1)] places_inj [OF that, of "on ! c"] p by auto
  qed
  show ?thesis
    unfolding places_def length_list_update
  proof (intro conjI allI ballI impI)
    show "length on = length cas" using pl by (simp add: places_def)
    show "set (on[c := nx]) \<subseteq> T" using places_set_update [OF c] pl nx by (auto simp: places_def)
    show "inj_on lk T" using pl by (simp add: places_def)
    show "lk (on[c := nx] ! d) = fst (cas[c := (lk nx, ds)] ! d)" "qu (on[c := nx] ! d) = d" if "d < length cas" for d
      using that c places_len places_on [OF that] nx_st by (cases "d = c"; simp)+
    show "set (snd (cas[c := (lk nx, ds)] ! d)) \<subseteq> lk ` T" if "d < length cas" for d
      using that c sub places_ready_sub [OF that] by (cases "d = c"; simp)
    show "lk t \<in> set (snd (cas[c := (lk nx, ds)] ! d)) \<longleftrightarrow> (st(on ! c := st', nx := RUNNING)) t = READY \<and> qu t = d"
      if "t \<in> T" "d < length cas" for t d
      using that c in_ds [OF that(1)] places_ready [OF that] p nx_st st' by (cases "d = c") auto
    show "set as \<subseteq> lk ` T" if "(if st' = WAITING then ws(w \<mapsto> bs) else ws) q = Some as" for q as
      using that pl w(1) by (auto simp: places_def split: if_splits)
    show "lk t \<in> set as \<longleftrightarrow> (st(on ! c := st', nx := RUNNING)) t = WAITING \<and> (if st' = WAITING then wt(on ! c := w) else wt) t = q"
      if t: "t \<in> T" and q: "(if st' = WAITING then ws(w \<mapsto> bs) else ws) q = Some as" for t q as
    proof (cases "st' = WAITING \<and> q = w")
      case True
      then show ?thesis using w(2) [OF _ t] q nx_st ne by (cases "t = nx") auto
    next
      case False
      then have "ws q = Some as" using q by (auto split: if_splits)
      then show ?thesis using places_waiting [OF t, of q as] p nx_st False by (auto split: if_splits)
    qed
    show "(st(on ! c := st', nx := RUNNING)) t = RUNNING \<longleftrightarrow> t \<in> set (on[c := nx])" if "t \<in> T" for t
      using places_running [OF that] places_set_update [OF c, of t nx] st' by auto
    show "qu t < length cas" if "t \<in> T" "(st(on ! c := st', nx := RUNNING)) t = READY" for t
      using that pl st' by (auto simp: places_def split: if_splits)
    show "(if st' = WAITING then ws(w \<mapsto> bs) else ws) ((if st' = WAITING then wt(on ! c := w) else wt) t) \<noteq> None"
      if "t \<in> T" "(st(on ! c := st', nx := RUNNING)) t = WAITING" for t
      using that pl st' by (auto simp: places_def split: if_splits)
  qed
qed

text \<open>A thread that is in no list, or first in a waiting queue, becomes ready.\<close>

lemma places_make_ready:
  assumes pl: "places T lk qu wt st on cas ws" and t: "t \<in> T" "qu t = c" "c < length cas" "st t \<noteq> RUNNING" "st t \<noteq> READY"
    and w: "st t = WAITING \<Longrightarrow> ws (wt t) = Some (lk t # as) \<and> lk t \<notin> set as"
    and ds: "set ds = insert (lk t) (set (snd (cas ! c)))"
  shows "places T lk qu (wt(t := x)) (st(t := READY)) on (cas[c := (fst (cas ! c), ds)])
           (if st t = WAITING then ws(wt t \<mapsto> as) else ws)"
proof -
  note places_len = places_len [OF pl] and places_running = places_running [OF pl] and places_on = places_on [OF pl] and
    places_ready_sub = places_ready_sub [OF pl] and places_wait_sub = places_wait_sub [OF pl] and places_inj = places_inj [OF pl] and
    places_ready = places_ready [OF pl] and places_waiting = places_waiting [OF pl] and places_set_update = places_set_update [OF pl]
  have in_ds: "lk u \<in> set ds \<longleftrightarrow> u = t \<or> st u = READY \<and> qu u = c" if "u \<in> T" for u
    using ds places_ready [OF that t(3)] places_inj [OF that t(1)] by auto
  have in_as: "lk u \<in> set as \<longleftrightarrow> st u = WAITING \<and> wt u = wt t \<and> u \<noteq> t" if u: "u \<in> T" and "st t = WAITING" for u
    using w [OF that(2)] places_waiting [OF u, of "wt t" "lk t # as"] places_inj [OF u t(1)] by auto
  show ?thesis
    unfolding places_def length_list_update
  proof (intro conjI allI ballI impI)
    show "length on = length cas" "set on \<subseteq> T" "inj_on lk T" using pl by (simp_all add: places_def)
    show "lk (on ! d) = fst (cas[c := (fst (cas ! c), ds)] ! d)" "qu (on ! d) = d" if "d < length cas" for d
      using places_on [OF that] that t(3) by (cases "d = c"; simp)+
    show "set (snd (cas[c := (fst (cas ! c), ds)] ! d)) \<subseteq> lk ` T" if "d < length cas" for d
      using that ds pl t by (auto simp: nth_list_update places_def)
    show "lk u \<in> set (snd (cas[c := (fst (cas ! c), ds)] ! d)) \<longleftrightarrow> (st(t := READY)) u = READY \<and> qu u = d"
      if "u \<in> T" "d < length cas" for u d
      using that t in_ds [OF that(1)] places_ready [OF that] by (cases "d = c") auto
    show "set bs \<subseteq> lk ` T" if "(if st t = WAITING then ws(wt t \<mapsto> as) else ws) q = Some bs" for q bs
    proof (cases "st t = WAITING \<and> q = wt t")
      case True
      then have b: "bs = as" "ws (wt t) = Some (lk t # as)" using that w by auto
      show ?thesis using places_wait_sub [OF b(2)] b(1) by simp
    next
      case False
      then show ?thesis using that pl by (auto simp: places_def split: if_splits)
    qed
    show "lk u \<in> set bs \<longleftrightarrow> (st(t := READY)) u = WAITING \<and> (wt(t := x)) u = q"
      if u: "u \<in> T" and q: "(if st t = WAITING then ws(wt t \<mapsto> as) else ws) q = Some bs" for u q bs
    proof (cases "st t = WAITING \<and> q = wt t")
      case True
      then show ?thesis using q in_as [OF u] by auto
    next
      case False
      then have "ws q = Some bs" using q by (auto split: if_splits)
      then show ?thesis using places_waiting [OF u, of q bs] False by auto
    qed
    show "(st(t := READY)) u = RUNNING \<longleftrightarrow> u \<in> set on" if "u \<in> T" for u
      using places_running [OF that] t by auto
    show "qu u < length cas" if "u \<in> T" "(st(t := READY)) u = READY" for u
      using that pl t by (auto simp: places_def split: if_splits)
    show "(if st t = WAITING then ws(wt t \<mapsto> as) else ws) ((wt(t := x)) u) \<noteq> None"
      if "u \<in> T" "(st(t := READY)) u = WAITING" for u
      using that pl by (auto simp: places_def split: if_splits)
  qed
qed

end
