(* ===== verification/Thread_Invariant.thy ===== *)
theory Thread_Invariant
  imports Thread_Places
begin

text \<open>
  The invariant of the kernel and what the building blocks of the \<open>Thread\<close> operations do to it.
  \<open>kernel_rep s cas ws\<close>: the scheduler's queues hold \<open>cas\<close> (for each CPU the chosen link and the ready
  ones) and the waiting queues hold \<open>ws\<close>, no link is in two of them, and each link leads back to its
  thread. \<open>kernel_inv\<close> adds that every thread is where its state says (\<open>places\<close>), that the thread on a CPU
  is the one its queue has chosen, and that exactly the threads on no CPU have a saved context.
\<close>

definition tlink :: "kernel \<Rightarrow> addr \<Rightarrow> addr" where
  "tlink s t = (case k_threads s t of Some th \<Rightarrow> th_link th | None \<Rightarrow> 0)"

definition tstate :: "kernel \<Rightarrow> addr \<Rightarrow> thread_state" where
  "tstate s t = (case k_threads s t of Some th \<Rightarrow> th_state th | None \<Rightarrow> FINISHING)"

definition twait :: "kernel \<Rightarrow> addr \<Rightarrow> addr" where
  "twait s t = (case k_threads s t of Some th \<Rightarrow> th_waiting th | None \<Rightarrow> 0)"

definition squeue_of :: "'m sstore \<Rightarrow> addr \<Rightarrow> nat" where
  "squeue_of h e = (case h e of Some x \<Rightarrow> squeue x | None \<Rightarrow> 0)"

definition tqueue :: "kernel \<Rightarrow> addr \<Rightarrow> nat" where
  "tqueue s t = squeue_of (k_elems s) (tlink s t)"

lemma tfields [simp]:
  "k_threads s t = Some th \<Longrightarrow> tlink s t = th_link th"
  "k_threads s t = Some th \<Longrightarrow> tstate s t = th_state th"
  "k_threads s t = Some th \<Longrightarrow> twait s t = th_waiting th"
  by (simp_all add: tlink_def tstate_def twait_def)

lemma squeue_of_Some [simp]: "h e = Some x \<Longrightarrow> squeue_of h e = squeue x"
  by (simp add: squeue_of_def)

lemma squeue_of_dsame: "dsame_data h h' \<Longrightarrow> squeue_of h' = squeue_of h"
proof
  fix e
  assume sd: "dsame_data h h'"
  show "squeue_of h' e = squeue_of h e"
  proof (cases "h e")
    case None
    then show ?thesis using dsame_data_None [OF sd, of e] by (simp add: squeue_of_def)
  next
    case (Some x)
    then show ?thesis using dsame_dataD [OF sd Some] by auto
  qed
qed

definition waits_rep :: "kernel \<Rightarrow> (addr \<times> addr list) list \<Rightarrow> (addr \<rightharpoonup> addr list) \<Rightarrow> bool" where
  "waits_rep s cas ws \<longleftrightarrow>
     (\<forall>q as. ws q = Some as \<longrightarrow> q \<noteq> 0 \<and> set as \<inter> all_members cas = {} \<and>
        (\<exists>l. k_queues s q = Some l \<and> list_rep (k_elems s) l as \<and> rank_sorted (rank_of (k_elems s)) as)) \<and>
     (\<forall>p q as bs. ws p = Some as \<longrightarrow> ws q = Some bs \<longrightarrow> p \<noteq> q \<longrightarrow> set as \<inter> set bs = {})"

definition links_ok :: "kernel \<Rightarrow> bool" where
  "links_ok s \<longleftrightarrow> (\<forall>t th. k_threads s t = Some th \<longrightarrow>
     t \<noteq> 0 \<and> th_link th \<noteq> 0 \<and> (\<exists>x. k_elems s (th_link th) = Some x \<and> obj x = t))"

definition queues_ok :: "nat \<Rightarrow> 'm sstore \<Rightarrow> bool" where
  "queues_ok n h \<longleftrightarrow> (\<forall>e x. h e = Some x \<longrightarrow> squeue x < n)"

lemma queues_ok_dsame: "queues_ok n h \<Longrightarrow> dsame_data h h' \<Longrightarrow> queues_ok n h'"
  unfolding queues_ok_def
proof (intro allI impI)
  fix e x
  assume st: "\<forall>e x. h e = Some x \<longrightarrow> squeue x < n" and sd: "dsame_data h h'" and x: "h' e = Some x"
  obtain y where y: "h e = Some y" using dsame_data_None [OF sd, of e] x by (cases "h e") auto
  then show "squeue x < n" using st x dsame_dataD [OF sd y] by auto
qed

definition kernel_rep :: "kernel \<Rightarrow> (addr \<times> addr list) list \<Rightarrow> (addr \<rightharpoonup> addr list) \<Rightarrow> bool" where
  "kernel_rep s cas ws \<longleftrightarrow> multilist_rep (k_elems s) (k_sched s) cas \<and> waits_rep s cas ws \<and> links_ok s \<and>
     queues_ok (length cas) (k_elems s)"

definition kernel_inv :: "kernel \<Rightarrow> (addr \<times> addr list) list \<Rightarrow> (addr \<rightharpoonup> addr list) \<Rightarrow> bool" where
  "kernel_inv s cas ws \<longleftrightarrow>
     kernel_rep s cas ws \<and>
     places (dom (k_threads s)) (tlink s) (tqueue s) (twait s) (tstate s) (k_on s) cas ws \<and>
     (\<forall>t th. k_threads s t = Some th \<longrightarrow> (th_saved th \<longleftrightarrow> t \<notin> set (k_on s)))"

section \<open>Changes of the lists\<close>

lemma waits_repD:
  assumes "waits_rep s cas ws" "ws q = Some as"
  shows "q \<noteq> 0" "set as \<inter> all_members cas = {}"
    "\<exists>l. k_queues s q = Some l \<and> list_rep (k_elems s) l as \<and> rank_sorted (rank_of (k_elems s)) as"
proof -
  have "\<forall>q as. ws q = Some as \<longrightarrow> q \<noteq> 0 \<and> set as \<inter> all_members cas = {} \<and>
      (\<exists>l. k_queues s q = Some l \<and> list_rep (k_elems s) l as \<and> rank_sorted (rank_of (k_elems s)) as)"
    using assms(1) unfolding waits_rep_def by (rule conjunct1)
  from mp [OF spec [OF spec [OF this, of q], of as] assms(2)]
  show "q \<noteq> 0" "set as \<inter> all_members cas = {}"
    "\<exists>l. k_queues s q = Some l \<and> list_rep (k_elems s) l as \<and> rank_sorted (rank_of (k_elems s)) as" by simp_all
qed

lemma waits_rep_disjoint: "waits_rep s cas ws \<Longrightarrow> ws p = Some as \<Longrightarrow> ws q = Some bs \<Longrightarrow> p \<noteq> q \<Longrightarrow> set as \<inter> set bs = {}"
  unfolding waits_rep_def by metis

lemma kernel_repD: "kernel_rep s cas ws \<Longrightarrow> multilist_rep (k_elems s) (k_sched s) cas"
  "kernel_rep s cas ws \<Longrightarrow> waits_rep s cas ws" "kernel_rep s cas ws \<Longrightarrow> links_ok s"
  "kernel_rep s cas ws \<Longrightarrow> queues_ok (length cas) (k_elems s)"
  by (simp_all add: kernel_rep_def)

lemma links_ok_dsame: "links_ok s \<Longrightarrow> dsame_data (k_elems s) (k_elems s') \<Longrightarrow> k_threads s' = k_threads s \<Longrightarrow> links_ok s'"
  unfolding links_ok_def
proof (intro allI impI)
  fix t th
  assume ok: "\<forall>t th. k_threads s t = Some th \<longrightarrow> t \<noteq> 0 \<and> th_link th \<noteq> 0 \<and> (\<exists>x. k_elems s (th_link th) = Some x \<and> obj x = t)"
    and sd: "dsame_data (k_elems s) (k_elems s')" and k: "k_threads s' = k_threads s" and t: "k_threads s' t = Some th"
  obtain x where x: "t \<noteq> 0" "th_link th \<noteq> 0" "k_elems s (th_link th) = Some x" "obj x = t" using ok k t by auto
  then show "t \<noteq> 0 \<and> th_link th \<noteq> 0 \<and> (\<exists>x. k_elems s' (th_link th) = Some x \<and> obj x = t)"
    using same_obj_Some [OF same_obj_dsame [OF sd] x(3)] by auto
qed

lemma kernel_rep_sched:
  assumes rep: "kernel_rep s cas ws" and c: "c < length cas" and b: "ml_becomes (k_elems s) cas c ca (Some (h, ls))"
    and dis: "\<And>q as. ws q = Some as \<Longrightarrow> set as \<inter> members ca = {}"
  shows "kernel_rep (s\<lparr>k_elems := h, k_sched := ls\<rparr>) (cas[c := ca]) ws \<and>
         tqueue (s\<lparr>k_elems := h, k_sched := ls\<rparr>) = tqueue s"
proof -
  have sd: "dsame_data (k_elems s) h" and out: "same_outside (all_members cas \<union> members ca) (k_elems s) h"
    and mr: "multilist_rep h ls (cas[c := ca])"
    using b by (auto simp: ml_becomes_def)
  have sub: "all_members (cas[c := ca]) \<subseteq> all_members cas \<union> members ca"
    using set_update_subset_insert [of cas c ca] by (auto simp: all_members_def)
  have dis': "set as \<inter> (all_members cas \<union> members ca) = {}" "set as \<inter> all_members (cas[c := ca]) = {}"
    if q: "ws q = Some as" for q as
  proof -
    have "set as \<inter> all_members cas = {}" using waits_repD(2) [OF kernel_repD(2) [OF rep] q] .
    then show 1: "set as \<inter> (all_members cas \<union> members ca) = {}" using dis [OF q] by (simp add: Int_Un_distrib)
    show "set as \<inter> all_members (cas[c := ca]) = {}"
      using sub 1 by (meson disjoint_iff subsetD)
  qed
  have "waits_rep (s\<lparr>k_elems := h, k_sched := ls\<rparr>) (cas[c := ca]) ws"
    unfolding waits_rep_def
  proof (intro conjI allI impI)
    fix q as assume q: "ws q = Some as"
    then obtain l where l: "k_queues s q = Some l" "list_rep (k_elems s) l as" "rank_sorted (rank_of (k_elems s)) as" "q \<noteq> 0"
      using waits_repD(1,3) [OF kernel_repD(2) [OF rep] q] by blast
    show "q \<noteq> 0" using l by simp
    show "set as \<inter> all_members (cas[c := ca]) = {}" using dis' [OF q] by simp
    show "\<exists>l. k_queues (s\<lparr>k_elems := h, k_sched := ls\<rparr>) q = Some l \<and> list_rep (k_elems (s\<lparr>k_elems := h, k_sched := ls\<rparr>)) l as \<and>
        rank_sorted (rank_of (k_elems (s\<lparr>k_elems := h, k_sched := ls\<rparr>))) as"
      using l list_rep_outside [OF l(2) out dis'(1) [OF q]] rank_of_dsame_data [OF sd] by simp
  next
    fix p q as bs assume "ws p = Some as" "ws q = Some bs" "p \<noteq> q"
    then show "set as \<inter> set bs = {}" by (rule waits_rep_disjoint [OF kernel_repD(2) [OF rep]])
  qed
  moreover have "links_ok (s\<lparr>k_elems := h, k_sched := ls\<rparr>)"
    using rep sd by - (rule links_ok_dsame [of s], simp_all add: kernel_rep_def)
  moreover have "tqueue (s\<lparr>k_elems := h, k_sched := ls\<rparr>) = tqueue s"
    using squeue_of_dsame [OF sd] by (simp add: tqueue_def tlink_def fun_eq_iff)
  ultimately show ?thesis using mr queues_ok_dsame [OF kernel_repD(4) [OF rep] sd] by (simp add: kernel_rep_def)
qed

lemma kernel_rep_queue:
  assumes rep: "kernel_rep s cas ws" and q: "ws q = Some as" and l: "list_rep h l bs" "rank_sorted (rank_of h) bs"
    and sd: "dsame_data (k_elems s) h" and out: "same_outside A (k_elems s) h"
    and A: "A \<union> set bs \<subseteq> insert e (set as)"
    and e: "e \<notin> all_members cas" "\<And>p as. ws p = Some as \<Longrightarrow> p \<noteq> q \<Longrightarrow> e \<notin> set as"
  shows "kernel_rep (queue_upd q l (s\<lparr>k_elems := h\<rparr>)) cas (ws(q \<mapsto> bs)) \<and> tqueue (queue_upd q l (s\<lparr>k_elems := h\<rparr>)) = tqueue s"
proof -
  let ?s = "queue_upd q l (s\<lparr>k_elems := h\<rparr>)"
  have w: "waits_rep s cas ws" using rep by (simp add: kernel_rep_def)
  have disq: "all_members cas \<inter> insert e (set as) = {}" using waits_repD(2) [OF w q] e(1) by (simp add: Int_commute)
  have disp: "set cs \<inter> insert e (set as) = {}" if "ws p = Some cs" "p \<noteq> q" for p cs
    using waits_rep_disjoint [OF w that(1) q that(2)] e(2) [OF that] by simp
  have "multilist_rep h (k_sched s) cas"
    using multilist_rep_outside [OF _ out, of "k_sched s" cas] rep disq A by (auto simp: kernel_rep_def)
  moreover have "links_ok ?s"
    using rep sd by - (rule links_ok_dsame [of s], simp_all add: kernel_rep_def queue_upd_def)
  moreover have "waits_rep ?s cas (ws(q \<mapsto> bs))"
    unfolding waits_rep_def
  proof (intro conjI allI impI)
    fix p cs assume p: "(ws(q \<mapsto> bs)) p = Some cs"
    show "p \<noteq> 0" using p waits_repD(1) [OF w, of p cs] waits_repD(1) [OF w q] by (cases "p = q") simp_all
    show "set cs \<inter> all_members cas = {}"
    proof (cases "p = q")
      case True
      then show ?thesis using p disq A by auto
    next
      case False
      then show ?thesis using p waits_repD(2) [OF w, of p cs] by simp
    qed
    show "\<exists>l. k_queues ?s p = Some l \<and> list_rep (k_elems ?s) l cs \<and> rank_sorted (rank_of (k_elems ?s)) cs"
    proof (cases "p = q")
      case True
      then show ?thesis using p l by (simp add: queue_upd_def)
    next
      case False
      then have ps: "ws p = Some cs" using p by simp
      then obtain m where m: "k_queues s p = Some m" "list_rep (k_elems s) m cs" "rank_sorted (rank_of (k_elems s)) cs"
        using waits_repD(3) [OF w ps] by blast
      have "set cs \<inter> A = {}" using disp [OF ps False] A by auto
      then show ?thesis using m False list_rep_outside [OF m(2) out] rank_of_dsame_data [OF sd] by (simp add: queue_upd_def)
    qed
  next
    fix p p' cs ds assume p: "(ws(q \<mapsto> bs)) p = Some cs" "(ws(q \<mapsto> bs)) p' = Some ds" "p \<noteq> p'"
    show "set cs \<inter> set ds = {}"
    proof (cases "p = q \<or> p' = q")
      case True
      then have "set cs \<subseteq> insert e (set as) \<and> set ds \<inter> insert e (set as) = {} \<or>
          set ds \<subseteq> insert e (set as) \<and> set cs \<inter> insert e (set as) = {}"
        using p disp [of p cs] disp [of p' ds] A by (cases "p = q") auto
      then show ?thesis by blast
    next
      case False
      then show ?thesis using p waits_rep_disjoint [OF w, of p cs p' ds] by simp
    qed
  qed
  moreover have "tqueue ?s = tqueue s"
    using squeue_of_dsame [OF sd] by (simp add: tqueue_def tlink_def queue_upd_def fun_eq_iff)
  ultimately show ?thesis using queues_ok_dsame [OF kernel_repD(4) [OF rep] sd] by (simp add: kernel_rep_def queue_upd_def)
qed

section \<open>Changes of a thread record\<close>

lemma thread_upd_Some:
  "k_threads s t = Some th \<Longrightarrow> t \<noteq> 0 \<Longrightarrow> thread_upd t f s = Some (s\<lparr>k_threads := (k_threads s)(t \<mapsto> f th)\<rparr>)"
  by (simp add: thread_upd_def store_simps)

lemma kernel_rep_thread:
  assumes rep: "kernel_rep s cas ws" and th: "k_threads s t = Some th" "th_link th' = th_link th"
  shows "kernel_rep (s\<lparr>k_threads := (k_threads s)(t \<mapsto> th')\<rparr>) cas ws"
  using rep th by (auto simp: kernel_rep_def waits_rep_def links_ok_def)

lemma tlink_thread: "k_threads s t = Some th \<Longrightarrow> th_link th' = th_link th \<Longrightarrow>
    tlink (s\<lparr>k_threads := (k_threads s)(t \<mapsto> th')\<rparr>) = tlink s"
  and tqueue_thread: "k_threads s t = Some th \<Longrightarrow> th_link th' = th_link th \<Longrightarrow>
    tqueue (s\<lparr>k_threads := (k_threads s)(t \<mapsto> th')\<rparr>) = tqueue s"
  and tstate_thread: "tstate (s\<lparr>k_threads := (k_threads s)(t \<mapsto> th')\<rparr>) = (tstate s)(t := th_state th')"
  and twait_thread: "twait (s\<lparr>k_threads := (k_threads s)(t \<mapsto> th')\<rparr>) = (twait s)(t := th_waiting th')"
  by (auto simp: tlink_def tqueue_def tstate_def twait_def fun_eq_iff)

lemma kernel_rep_other [simp]:
  "kernel_rep (s\<lparr>k_on := x\<rparr>) cas ws = kernel_rep s cas ws"
  "kernel_rep (s\<lparr>k_restarts := y\<rparr>) cas ws = kernel_rep s cas ws"
  "kernel_rep (s\<lparr>k_count := z\<rparr>) cas ws = kernel_rep s cas ws"
  "kernel_rep (s\<lparr>k_ipis := v\<rparr>) cas ws = kernel_rep s cas ws"
  by (simp_all add: kernel_rep_def waits_rep_def links_ok_def)

lemma t_other [simp]:
  "tlink (s\<lparr>k_on := x\<rparr>) = tlink s" "tlink (s\<lparr>k_restarts := y\<rparr>) = tlink s" "tlink (s\<lparr>k_count := z\<rparr>) = tlink s"
  "tlink (s\<lparr>k_ipis := v\<rparr>) = tlink s" "tlink (s\<lparr>k_elems := h, k_sched := ls\<rparr>) = tlink s" "tlink (queue_upd q l (s\<lparr>k_elems := h\<rparr>)) = tlink s"
  "tstate (s\<lparr>k_on := x\<rparr>) = tstate s" "tstate (s\<lparr>k_restarts := y\<rparr>) = tstate s" "tstate (s\<lparr>k_count := z\<rparr>) = tstate s"
  "tstate (s\<lparr>k_ipis := v\<rparr>) = tstate s" "tstate (s\<lparr>k_elems := h, k_sched := ls\<rparr>) = tstate s" "tstate (queue_upd q l (s\<lparr>k_elems := h\<rparr>)) = tstate s"
  "twait (s\<lparr>k_on := x\<rparr>) = twait s" "twait (s\<lparr>k_restarts := y\<rparr>) = twait s" "twait (s\<lparr>k_count := z\<rparr>) = twait s"
  "twait (s\<lparr>k_ipis := v\<rparr>) = twait s" "twait (s\<lparr>k_elems := h, k_sched := ls\<rparr>) = twait s" "twait (queue_upd q l (s\<lparr>k_elems := h\<rparr>)) = twait s"
  "tqueue (s\<lparr>k_on := x\<rparr>) = tqueue s" "tqueue (s\<lparr>k_restarts := y\<rparr>) = tqueue s" "tqueue (s\<lparr>k_count := z\<rparr>) = tqueue s"
  "tqueue (s\<lparr>k_ipis := v\<rparr>) = tqueue s"
  by (auto simp: tlink_def tstate_def twait_def tqueue_def queue_upd_def fun_eq_iff)

section \<open>The running thread\<close>

lemma links_okD: "links_ok s \<Longrightarrow> k_threads s t = Some th \<Longrightarrow>
    t \<noteq> 0 \<and> th_link th \<noteq> 0 \<and> (\<exists>x. k_elems s (th_link th) = Some x \<and> obj x = t)"
  by (simp add: links_ok_def)

lemma running_on:
  assumes inv: "kernel_inv s cas ws" and c: "c < length cas"
  obtains th x where "k_threads s (k_on s ! c) = Some th" "k_elems s (th_link th) = Some x" "obj x = k_on s ! c"
    "fst (cas ! c) = th_link th" "th_link th \<noteq> 0" "squeue x = c" "th_state th = RUNNING" "k_on s ! c \<noteq> 0"
    "thread_running c s = Some (k_on s ! c)"
proof -
  have pl: "places (dom (k_threads s)) (tlink s) (tqueue s) (twait s) (tstate s) (k_on s) cas ws"
    and rep: "kernel_rep s cas ws" using inv by (simp_all add: kernel_inv_def)
  obtain th where th: "k_threads s (k_on s ! c) = Some th" using places_on [OF pl c] by auto
  then have f: "th_link th = fst (cas ! c)" "tqueue s (k_on s ! c) = c" "th_state th = RUNNING"
    using places_on [OF pl c] by auto
  obtain x where x: "k_elems s (th_link th) = Some x" "obj x = k_on s ! c" "th_link th \<noteq> 0" "k_on s ! c \<noteq> 0"
    using links_okD [OF _ th] rep by (auto simp: kernel_rep_def)
  have q: "squeue x = c" using f(2) th x(1) by (simp add: tqueue_def)
  have mr: "multilist_rep (k_elems s) (k_sched s) cas" using rep by (simp add: kernel_rep_def)
  have "thread_running c s = Some (k_on s ! c)"
    using multilist_at [OF mr c] multilist_sched [OF mr c] x f(1)
    by (simp add: thread_running_def sch_chosen_def sched_rep_def store_simps)
  then show thesis using that th x f q by simp
qed

text \<open>The link of a queue leads to its thread.\<close>

lemma kernel_inv_rep: "kernel_inv s cas ws \<Longrightarrow> kernel_rep s cas ws"
  and kernel_inv_places: "kernel_inv s cas ws \<Longrightarrow>
    places (dom (k_threads s)) (tlink s) (tqueue s) (twait s) (tstate s) (k_on s) cas ws"
  by (simp_all add: kernel_inv_def)

lemma member_thread:
  assumes inv: "kernel_inv s cas ws" and c: "c < length cas" and e: "e \<in> members (cas ! c)"
  obtains t th x where "k_threads s t = Some th" "th_link th = e" "k_elems s e = Some x" "obj x = t" "squeue x = c" "t \<noteq> 0"
    "e = fst (cas ! c) \<and> t = k_on s ! c \<or> e \<in> set (snd (cas ! c)) \<and> th_state th = READY \<and> t \<notin> set (k_on s)"
proof (cases "e = fst (cas ! c)")
  case True
  obtain th x where "k_threads s (k_on s ! c) = Some th" "k_elems s (th_link th) = Some x" "obj x = k_on s ! c"
    "fst (cas ! c) = th_link th" "squeue x = c" "k_on s ! c \<noteq> 0"
    using running_on [OF inv c] by metis
  then show thesis using True that by auto
next
  case False
  then have e': "e \<in> set (snd (cas ! c))" using e by (auto simp: members_def split: if_splits)
  note pl = kernel_inv_places [OF inv]
  obtain t where t: "t \<in> dom (k_threads s)" "tlink s t = e" using subsetD [OF places_ready_sub [OF pl c] e'] by (metis imageE)
  then obtain th where th: "k_threads s t = Some th" "th_link th = e" by auto
  have r: "th_state th = READY" "tqueue s t = c" using places_ready [OF pl t(1) c] t(2) th e' by auto
  obtain x where x: "k_elems s e = Some x" "obj x = t" "t \<noteq> 0"
    using links_okD [OF _ th(1)] th(2) inv by (auto simp: kernel_inv_def kernel_rep_def)
  have "t \<notin> set (k_on s)" using places_running [OF pl t(1)] th r(1) by simp
  moreover have "squeue x = c" using r(2) t(2) x(1) by (simp add: tqueue_def)
  ultimately show thesis using that th x r e' by blast
qed

section \<open>Dispatching\<close>

text \<open>The fields of a thread that dispatching leaves alone.\<close>

definition tfix :: "thread \<Rightarrow> addr \<times> addr \<times> int \<times> addr" where
  "tfix th = (th_waiting th, th_joining th, th_status th, th_link th)"

definition same_fix :: "kernel \<Rightarrow> kernel \<Rightarrow> bool" where
  "same_fix s s' \<longleftrightarrow> (\<forall>t. map_option tfix (k_threads s' t) = map_option tfix (k_threads s t))"

definition same_joining :: "kernel \<Rightarrow> kernel \<Rightarrow> bool" where
  "same_joining s s' \<longleftrightarrow> (\<forall>t. map_option th_joining (k_threads s' t) = map_option th_joining (k_threads s t))"

lemma same_fix_joining: "same_fix s s' \<Longrightarrow> same_joining s s'"
  unfolding same_joining_def
proof
  fix t
  assume "same_fix s s'"
  then have "map_option tfix (k_threads s' t) = map_option tfix (k_threads s t)" by (simp add: same_fix_def)
  then show "map_option th_joining (k_threads s' t) = map_option th_joining (k_threads s t)"
    by (cases "k_threads s t"; cases "k_threads s' t") (auto simp: tfix_def)
qed

lemma twait_fix: "same_fix s s' \<Longrightarrow> twait s' = twait s"
proof
  fix t
  assume "same_fix s s'"
  then have "map_option tfix (k_threads s' t) = map_option tfix (k_threads s t)" by (simp add: same_fix_def)
  then show "twait s' t = twait s t" by (auto simp: twait_def tfix_def split: option.splits)
qed

lemma same_joining_trans: "same_joining s s' \<Longrightarrow> same_joining s' s'' \<Longrightarrow> same_joining s s''"
  by (simp add: same_joining_def)

lemma same_fix_refl [simp]: "same_fix s s"
  by (simp add: same_fix_def)

lemma same_fixD:
  assumes "same_fix s s'" "k_threads s t = Some th"
  obtains th' where "k_threads s' t = Some th'" "th_waiting th' = th_waiting th" "th_joining th' = th_joining th"
    "th_status th' = th_status th" "th_link th' = th_link th"
proof -
  have "map_option tfix (k_threads s' t) = Some (tfix th)" using assms by (simp add: same_fix_def)
  then show thesis using that by (auto simp: tfix_def)
qed

lemma dispatch_ok:
  assumes rep: "kernel_rep s cas ws" and len: "length (k_on s) = length cas" "c < length cas" and prev: "prev = k_on s ! c"
    and th: "k_threads s prev = Some p" "k_threads s nx = Some n"
    and pl: "places (dom (k_threads s)) (tlink s) (tqueue s) (twait s) (switched (tstate s) prev nx) ((k_on s)[c := nx]) cas ws"
    and saved: "\<And>t th. k_threads s t = Some th \<Longrightarrow> th_saved th \<longleftrightarrow> t \<notin> set (k_on s)"
    and nx: "prev \<noteq> nx \<Longrightarrow> nx \<notin> set (k_on s)" and don: "distinct (k_on s)"
  shows "\<exists>s'. dispatch c prev nx charge s = Some s' \<and> kernel_inv s' cas ws \<and> k_on s' = (k_on s)[c := nx] \<and>
    tstate s' = switched (tstate s) prev nx \<and> k_elems s' = k_elems s \<and> k_ipis s' = k_ipis s \<and> k_count s' = k_count s \<and>
    same_fix s s'"
proof -
  define s0 where "s0 = (if charge then s\<lparr>k_restarts := k_restarts s + 1\<rparr> else s)"
  have s0: "kernel_rep s0 cas ws" "k_threads s0 = k_threads s" "k_on s0 = k_on s" "tlink s0 = tlink s" "tqueue s0 = tqueue s"
    "twait s0 = twait s" "tstate s0 = tstate s" "k_elems s0 = k_elems s" "k_ipis s0 = k_ipis s" "k_count s0 = k_count s"
    using rep by (simp_all add: s0_def)
  have nz: "prev \<noteq> 0" "nx \<noteq> 0" using rep links_okD [OF _ th(1)] links_okD [OF _ th(2)] by (auto simp: kernel_rep_def)
  show ?thesis
  proof (cases "prev = nx")
    case True
    then have "dispatch c prev nx charge s = Some s0" by (simp add: dispatch_def s0_def Let_def)
    moreover have "(k_on s)[c := nx] = k_on s" unfolding True [symmetric] prev by (rule list_update_id)
    moreover have "switched (tstate s) prev nx = tstate s" using True by (simp add: switched_def fun_eq_iff)
    ultimately show ?thesis using s0 pl saved by (simp add: kernel_inv_def same_fix_def)
  next
    case False
    define p' where "p' = (if th_state p = RUNNING then p\<lparr>th_state := READY, th_saved := True\<rparr> else p\<lparr>th_saved := True\<rparr>)"
    define n' where "n' = n\<lparr>th_state := RUNNING, th_saved := False\<rparr>"
    define s1 where "s1 = s0\<lparr>k_threads := (k_threads s0)(prev \<mapsto> p')\<rparr>"
    define s2 where "s2 = s1\<lparr>k_threads := (k_threads s1)(nx \<mapsto> n')\<rparr>"
    define s' where "s' = s2\<lparr>k_on := (k_on s)[c := nx]\<rparr>"
    have sn: "th_saved n" using saved [OF th(2)] nx [OF False] by simp
    have l: "th_link p' = th_link p" "th_link n' = th_link n" by (simp_all add: p'_def n'_def)
    have t1: "k_threads s0 prev = Some p" "k_threads s1 nx = Some n" using th s0 False by (simp_all add: s1_def)
    have op: "dispatch c prev nx charge s = Some s'"
      using False nz th sn s0(2,3) fun_upd_twist [OF False, of "k_threads s" "Some _" "Some _"]
      unfolding dispatch_def s0_def [symmetric]
      by (auto simp: Let_def thread_upd_Some store_simps s'_def s2_def s1_def p'_def n'_def intro!: kernel.equality)
    have rep': "kernel_rep s' cas ws"
      using kernel_rep_thread [OF kernel_rep_thread [OF s0(1) t1(1) l(1), folded s1_def] t1(2) l(2)] by (simp add: s'_def s2_def)
    have f: "tlink s' = tlink s" "tqueue s' = tqueue s" "twait s' = (twait s)(prev := th_waiting p', nx := th_waiting n')"
      "tstate s' = (tstate s)(prev := th_state p', nx := th_state n')" "dom (k_threads s') = dom (k_threads s)"
      using tlink_thread [OF t1(1) l(1)] tlink_thread [OF t1(2) l(2)] tqueue_thread [OF t1(1) l(1)] tqueue_thread [OF t1(2) l(2)] s0 th
        twait_thread [of s0 prev p'] twait_thread [of s1 nx n'] tstate_thread [of s0 prev p'] tstate_thread [of s1 nx n']
      by (auto simp: s'_def s2_def s1_def)
    have w: "twait s' = twait s" using f(3) th by (auto simp: p'_def n'_def fun_eq_iff)
    have st: "tstate s' = switched (tstate s) prev nx"
      using f(4) th False by (auto simp: switched_def p'_def n'_def fun_eq_iff)
    have cl: "c < length (k_on s)" using len by simp
    have on': "t \<in> set ((k_on s)[c := nx]) \<longleftrightarrow> t = nx \<or> t \<in> set (k_on s) \<and> t \<noteq> prev" for t
      using set_update_distinct [OF don, of c nx] cl prev by auto
    have "th_saved th \<longleftrightarrow> t \<notin> set (k_on s')" if "k_threads s' t = Some th" for t th
      using that saved [of t th] on' [of t] False s0(2)
      by (auto simp: s'_def s2_def s1_def p'_def n'_def split: if_splits)
    then have "kernel_inv s' cas ws" using rep' pl f w st by (simp add: kernel_inv_def s'_def)
    moreover have "same_fix s s'" using th s0(2) by (auto simp: same_fix_def tfix_def s'_def s2_def s1_def p'_def n'_def)
    ultimately show ?thesis using op st s0 by (simp add: s'_def s2_def s1_def)
  qed
qed

end
