(* ===== verification/Thread_Sched.thy ===== *)
theory Thread_Sched
  imports Thread_Invariant
begin

text \<open>
  The operations of \<open>Scheduler<Thread>\<close> on the kernel state: each changes the queue of one CPU and nothing
  else (\<open>moved\<close>). The lemmas need only the representation, not the whole invariant, because \<open>Thread\<close> calls
  the scheduler in the middle of an operation, when a thread's state and its place do not agree.
\<close>

definition moved :: "kernel \<Rightarrow> kernel \<Rightarrow> bool" where
  "moved s s' \<longleftrightarrow> (\<exists>h ls. s' = s\<lparr>k_elems := h, k_sched := ls\<rparr> \<and> dsame_data (k_elems s) h)"

lemma movedD:
  assumes "moved s s'"
  shows "k_threads s' = k_threads s" "k_queues s' = k_queues s" "k_count s' = k_count s" "k_on s' = k_on s"
    "k_ipis s' = k_ipis s" "k_restarts s' = k_restarts s" "tlink s' = tlink s" "tstate s' = tstate s"
    "twait s' = twait s" "tqueue s' = tqueue s" "dsame_data (k_elems s) (k_elems s')"
    "rank_of (k_elems s') = rank_of (k_elems s)"
proof -
  obtain h ls where s': "s' = s\<lparr>k_elems := h, k_sched := ls\<rparr>" and sd: "dsame_data (k_elems s) h"
    using assms by (auto simp: moved_def)
  show "tqueue s' = tqueue s"
    using squeue_of_dsame [OF sd] by (simp add: s' tqueue_def fun_eq_iff)
  show "rank_of (k_elems s') = rank_of (k_elems s)" using rank_of_dsame_data [OF sd] by (simp add: s')
qed (use assms in \<open>auto simp: moved_def\<close>)

lemma moved_at:
  assumes "moved s s'" "k_elems s e = Some x"
  obtains y where "k_elems s' e = Some y" "obj y = obj x" "squeue y = squeue x" "rank y = rank x" "starget y = starget x"
  using dsame_dataD [OF movedD(11) [OF assms(1)] assms(2)] that by auto

lemma moved_rep:
  assumes rep: "kernel_rep s cas ws" and c: "c < length cas" and b: "ml_becomes (k_elems s) cas c ca r"
    and dis: "\<forall>q as. ws q = Some as \<longrightarrow> set as \<inter> members ca = {}"
  shows "\<exists>h ls. r = Some (h, ls) \<and> kernel_rep (s\<lparr>k_elems := h, k_sched := ls\<rparr>) (cas[c := ca]) ws \<and>
           moved s (s\<lparr>k_elems := h, k_sched := ls\<rparr>) \<and> dsame_data (k_elems s) h"
proof -
  obtain h ls where r: "r = Some (h, ls)" "dsame_data (k_elems s) h" using b by (auto simp: ml_becomes_def)
  then show ?thesis using kernel_rep_sched [OF rep c b [unfolded r]] dis by (auto simp: moved_def)
qed

lemma waits_disjoint_sub:
  assumes rep: "kernel_rep s cas ws" and c: "c < length cas" and sub: "members ca \<subseteq> members (cas ! c)"
  shows "\<forall>q as. ws q = Some as \<longrightarrow> set as \<inter> members ca = {}"
proof (intro allI impI)
  fix q as
  assume q: "ws q = Some as"
  show "set as \<inter> members ca = {}"
    using waits_repD(2) [OF kernel_repD(2) [OF rep] q] members_all [OF c] sub by (meson disjoint_iff subsetD)
qed

lemma sched_at:
  assumes rep: "kernel_rep s cas ws" and c: "c < length cas"
  shows "sched_rep (k_elems s) (k_sched s ! c) (fst (cas ! c)) (snd (cas ! c))"
    "sublist_at (k_sched s) c = Some (k_sched s ! c)" "0 \<notin> set (snd (cas ! c))"
proof -
  note mr = kernel_repD(1) [OF rep]
  show 1: "sched_rep (k_elems s) (k_sched s ! c) (fst (cas ! c)) (snd (cas ! c))" using multilist_sched [OF mr c] .
  show "sublist_at (k_sched s) c = Some (k_sched s ! c)" using multilist_at [OF mr c] .
  show "0 \<notin> set (snd (cas ! c))" using 1 by (auto simp: sched_rep_def dest: list_rep_nonnull)
qed

lemma sch_chosen_ok:
  assumes rep: "kernel_rep s cas ws" and c: "c < length cas" and x: "k_elems s (fst (cas ! c)) = Some x" "fst (cas ! c) \<noteq> 0"
  shows "sch_chosen c s = Some (obj x)"
  using sched_at [OF rep c] x by (simp add: sch_chosen_def sched_rep_def store_simps)

lemma sch_insert_ok:
  assumes rep: "kernel_rep s cas ws" and t: "k_threads s t = Some th" "tqueue s t = c" "c < length cas"
    and fresh: "th_link th \<notin> all_members cas" "\<And>q as. ws q = Some as \<Longrightarrow> th_link th \<notin> set as"
  shows "\<exists>s'. sch_insert t s = Some s' \<and> moved s s' \<and>
           kernel_rep s' (cas[c := queue_put (rank_of (k_elems s)) (th_link th) (cas ! c)]) ws"
proof -
  obtain x where x: "t \<noteq> 0" "th_link th \<noteq> 0" "k_elems s (th_link th) = Some x" "obj x = t"
    using links_okD [OF kernel_repD(3) [OF rep] t(1)] by auto
  have q: "squeue x = c" using t x by (simp add: tqueue_def)
  note b = ml_insert_rep [OF kernel_repD(1) [OF rep] x(2,3) q t(3) fresh(1)]
  have m: "members (queue_put (rank_of (k_elems s)) (th_link th) (cas ! c)) = insert (th_link th) (members (cas ! c))"
    using members_queue_put [OF x(2), of "cas ! c"] sched_at [OF rep t(3)] by (auto simp: sched_rep_def)
  have dis: "\<forall>q as. ws q = Some as \<longrightarrow> set as \<inter> members (queue_put (rank_of (k_elems s)) (th_link th) (cas ! c)) = {}"
    using fresh(2) waits_disjoint_sub [OF rep t(3) order_refl] unfolding m by simp
  show ?thesis using moved_rep [OF rep t(3) b dis] t(1) x(1) by (auto simp: sch_insert_def store_simps)
qed

lemma sch_remove_chosen_ok:
  assumes rep: "kernel_rep s cas ws" and t: "k_threads s t = Some th" "tqueue s t = c" "c < length cas" "th_link th = fst (cas ! c)"
  shows "\<exists>s'. sch_remove t s = Some (s', t) \<and> moved s s' \<and> kernel_rep s' (cas[c := queue_pop (cas ! c)]) ws"
proof -
  obtain x where x: "t \<noteq> 0" "th_link th \<noteq> 0" "k_elems s (th_link th) = Some x" "obj x = t"
    using links_okD [OF kernel_repD(3) [OF rep] t(1)] by auto
  have q: "squeue x = c" using t x by (simp add: tqueue_def)
  obtain r where r: "ml_remove single_head (k_elems s) (k_sched s) (th_link th) = map_option (\<lambda>(h, ls). (h, ls, th_link th)) r"
    "ml_becomes (k_elems s) cas c (queue_pop (cas ! c)) r"
    using ml_remove_chosen_rep [OF kernel_repD(1) [OF rep] x(3) q t(3) x(2) t(4) [symmetric]] by auto
  have sub: "members (queue_pop (cas ! c)) \<subseteq> members (cas ! c)"
    by (cases "snd (cas ! c)") (auto simp: members_def queue_pop_def)
  show ?thesis
    using moved_rep [OF rep t(3) r(2) waits_disjoint_sub [OF rep t(3) sub]] r(1) t(1) x(1,2)
    by (auto simp: sch_remove_def store_simps)
qed

lemma sch_remove_ready_ok:
  assumes rep: "kernel_rep s cas ws" and t: "k_threads s t = Some th" "tqueue s t = c" "c < length cas" "th_link th \<in> set (snd (cas ! c))"
  shows "\<exists>s'. sch_remove t s = Some (s', t) \<and> moved s s' \<and>
           kernel_rep s' (cas[c := (fst (cas ! c), remove1 (th_link th) (snd (cas ! c)))]) ws"
proof -
  obtain x where x: "t \<noteq> 0" "th_link th \<noteq> 0" "k_elems s (th_link th) = Some x" "obj x = t"
    using links_okD [OF kernel_repD(3) [OF rep] t(1)] by auto
  have q: "squeue x = c" using t x by (simp add: tqueue_def)
  obtain r where r: "ml_remove single_head (k_elems s) (k_sched s) (th_link th) = map_option (\<lambda>(h, ls). (h, ls, th_link th)) r"
    "ml_becomes (k_elems s) cas c (fst (cas ! c), remove1 (th_link th) (snd (cas ! c))) r"
    using ml_remove_ready_rep [OF kernel_repD(1) [OF rep] x(3) q t(3,4)] by auto
  have sub: "members (fst (cas ! c), remove1 (th_link th) (snd (cas ! c))) \<subseteq> members (cas ! c)"
    by (auto simp: members_def dest: subsetD [OF set_remove1_subset])
  show ?thesis
    using moved_rep [OF rep t(3) r(2) waits_disjoint_sub [OF rep t(3) sub]] r(1) t(1) x(1,2)
    by (auto simp: sch_remove_def store_simps)
qed

text \<open>An election among the elements of a queue.\<close>

lemma election_ok:
  assumes rep: "kernel_rep s cas ws" and c: "c < length cas"
    and op: "R = map_option (\<lambda>(k, ms). (k, ms, fst ca)) r" and b: "ml_becomes (k_elems s) cas c ca r"
    and sub: "members ca \<subseteq> members (cas ! c)" and x: "k_elems s (fst ca) = Some x" "fst ca \<noteq> 0"
  shows "\<exists>s'. (do { (h, ls, e) \<leftarrow> R; x \<leftarrow> load h e; Some (s\<lparr>k_elems := h, k_sched := ls\<rparr>, obj x) }) = Some (s', obj x) \<and>
           moved s s' \<and> kernel_rep s' (cas[c := ca]) ws"
proof -
  obtain h ls where h: "r = Some (h, ls)" "kernel_rep (s\<lparr>k_elems := h, k_sched := ls\<rparr>) (cas[c := ca]) ws"
    "moved s (s\<lparr>k_elems := h, k_sched := ls\<rparr>)" "dsame_data (k_elems s) h"
    using moved_rep [OF rep c b waits_disjoint_sub [OF rep c sub]] by auto
  then show ?thesis using op x dsame_dataD [OF h(4) x(1)] by (auto simp: store_simps)
qed

lemma fst_member: "0 \<notin> set (snd ca) \<Longrightarrow> fst (queue_elect r ca) \<noteq> 0 \<or> fst ca = 0"
proof -
  assume z: "0 \<notin> set (snd ca)"
  obtain d ds where d: "rank_place r (fst ca) (snd ca) = d # ds" by (metis rank_place_not_Nil list.exhaust)
  then have "d \<in> insert (fst ca) (set (snd ca))" using set_rank_place [of r "fst ca" "snd ca"] by (metis list.set_intros(1))
  then show ?thesis using z d by (auto simp: queue_elect_def)
qed

lemma sch_choose_ok:
  assumes rep: "kernel_rep s cas ws" and c: "c < length cas" and t: "k_threads s t = Some th" "th_link th = fst (cas ! c)" "tqueue s t = c"
    and x: "k_elems s (fst (queue_elect (rank_of (k_elems s)) (cas ! c))) = Some x"
  shows "\<exists>s'. sch_choose c s = Some (s', obj x) \<and> moved s s' \<and>
           kernel_rep s' (cas[c := queue_elect (rank_of (k_elems s)) (cas ! c)]) ws"
proof -
  obtain y where y: "t \<noteq> 0" "th_link th \<noteq> 0" "k_elems s (th_link th) = Some y" "obj y = t"
    using links_okD [OF kernel_repD(3) [OF rep] t(1)] by auto
  have q: "squeue y = c" using t y by (simp add: tqueue_def)
  have nz: "fst (cas ! c) \<noteq> 0" "fst (queue_elect (rank_of (k_elems s)) (cas ! c)) \<noteq> 0"
    using y(2) t(2) fst_member [OF sched_at(3) [OF rep c], of "rank_of (k_elems s)"] by auto
  obtain r where r: "ml_choose single_head c (k_elems s) (k_sched s) =
      map_option (\<lambda>(k, ms). (k, ms, fst (queue_elect (rank_of (k_elems s)) (cas ! c)))) r"
    "ml_becomes (k_elems s) cas c (queue_elect (rank_of (k_elems s)) (cas ! c)) r"
    using ml_choose_rep [OF kernel_repD(1) [OF rep] c nz(1), of y] q y t by auto
  show ?thesis
    unfolding sch_choose_def
    by (rule election_ok [OF rep c r _ x nz(2)])
      (simp add: members_queue_elect [OF nz(1) sched_at(3) [OF rep c]])
qed

lemma members_queue_next: "fst ca \<noteq> 0 \<Longrightarrow> 0 \<notin> set (snd ca) \<Longrightarrow> members (queue_next r ca) = members ca"
  by (cases "snd ca") (auto simp: members_def queue_next_def)

lemma sch_choose_another_ok:
  assumes rep: "kernel_rep s cas ws" and c: "c < length cas" and t: "k_threads s t = Some th" "th_link th = fst (cas ! c)" "tqueue s t = c"
    and x: "k_elems s (fst (queue_next (rank_of (k_elems s)) (cas ! c))) = Some x"
  shows "\<exists>s'. sch_choose_another c s = Some (s', obj x) \<and> moved s s' \<and>
           kernel_rep s' (cas[c := queue_next (rank_of (k_elems s)) (cas ! c)]) ws"
proof -
  obtain y where y: "t \<noteq> 0" "th_link th \<noteq> 0" "k_elems s (th_link th) = Some y" "obj y = t"
    using links_okD [OF kernel_repD(3) [OF rep] t(1)] by auto
  have q: "squeue y = c" using t y by (simp add: tqueue_def)
  have nz: "fst (cas ! c) \<noteq> 0" using y(2) t(2) by simp
  have z: "0 \<notin> set (snd (cas ! c))" by (rule sched_at(3) [OF rep c])
  have nz2: "fst (queue_next (rank_of (k_elems s)) (cas ! c)) \<noteq> 0"
    using nz z by (cases "snd (cas ! c)") (auto simp: queue_next_def)
  obtain r where r: "ml_choose_another single_head c (k_elems s) (k_sched s) =
      map_option (\<lambda>(k, ms). (k, ms, fst (queue_next (rank_of (k_elems s)) (cas ! c)))) r"
    "ml_becomes (k_elems s) cas c (queue_next (rank_of (k_elems s)) (cas ! c)) r"
    using ml_choose_another_rep [OF kernel_repD(1) [OF rep] c nz, of y] q y t by auto
  show ?thesis
    unfolding sch_choose_another_def
    by (rule election_ok [OF rep c r _ x nz2]) (simp add: members_queue_next [OF nz z])
qed

end
