(* ===== verification/Thread_Ops.thy ===== *)
theory Thread_Ops
  imports Thread_Sched
begin

text \<open>
  What the operations of \<open>Thread\<close> do to a kernel in its invariant, on the abstract level: a queue of
  the scheduler is the pair of its running and its ready links, a waiting queue is the list of its links.
\<close>

text \<open>No thread has been asked to migrate (\<open>target_migration_cpu\<close> is \<open>-1\<close>).\<close>

definition settled :: "kernel \<Rightarrow> bool" where
  "settled s \<longleftrightarrow> (\<forall>e x. k_elems s e = Some x \<longrightarrow> starget x = - 1)"

lemma settled_dsame: "settled s \<Longrightarrow> dsame_data (k_elems s) (k_elems s') \<Longrightarrow> settled s'"
  unfolding settled_def
proof (intro allI impI)
  fix e x
  assume st: "\<forall>e x. k_elems s e = Some x \<longrightarrow> starget x = - 1" and sd: "dsame_data (k_elems s) (k_elems s')"
    and x: "k_elems s' e = Some x"
  obtain y where y: "k_elems s e = Some y" using dsame_data_None [OF sd, of e] x by (cases "k_elems s e") auto
  then show "starget x = - 1" using st x dsame_dataD [OF sd y] by auto
qed

definition trank :: "kernel \<Rightarrow> addr \<Rightarrow> int" where
  "trank s t = rank_of (k_elems s) (tlink s t)"

definition switches :: "kernel \<Rightarrow> nat \<Rightarrow> addr \<Rightarrow> kernel \<Rightarrow> bool" where
  "switches s c nx s' \<longleftrightarrow>
     k_on s' = (k_on s)[c := nx] \<and> tstate s' = switched (tstate s) (k_on s ! c) nx \<and>
     dsame_data (k_elems s) (k_elems s') \<and> k_ipis s' = k_ipis s \<and> k_count s' = k_count s \<and> same_fix s s'"

section \<open>Elections\<close>

lemma members_pair: "fst ca \<noteq> 0 \<Longrightarrow> members ca = insert (fst ca) (set (snd ca))"
  by (simp add: members_def)

lemma elect_dispatch:
  assumes inv: "kernel_inv s cas ws" and c: "c < length cas"
    and s1: "moved s s1" "kernel_rep s1 (cas[c := ca]) ws"
    and ca: "members ca = members (cas ! c)" "fst ca \<notin> set (snd ca)" "fst ca \<noteq> 0"
    and nx: "k_threads s nx = Some n" "th_link n = fst ca"
  shows "\<exists>s'. dispatch c (k_on s ! c) nx charge s1 = Some s' \<and> kernel_inv s' (cas[c := ca]) ws \<and> switches s c nx s'"
proof -
  note pl = kernel_inv_places [OF inv] and m = movedD [OF s1(1)]
  obtain p where p: "k_threads s (k_on s ! c) = Some p" "fst (cas ! c) = th_link p" "th_link p \<noteq> 0"
    using running_on [OF inv c] by metis
  have set_eq: "insert (tlink s nx) (set (snd ca)) = insert (fst (cas ! c)) (set (snd (cas ! c)))"
    using ca(1) members_pair [OF ca(3)] members_pair [of "cas ! c"] nx p by simp
  have pl1: "places (dom (k_threads s)) (tlink s) (tqueue s) (twait s) (switched (tstate s) (k_on s ! c) nx)
      ((k_on s)[c := nx]) (cas[c := ca]) ws"
    using places_elect [OF pl c _ _ set_eq] nx ca(2) by (cases ca) auto
  have "tlink s nx \<in> members (cas ! c)" unfolding ca(1) [symmetric] members_pair [OF ca(3)] using nx by simp
  then have notin: "nx \<notin> set (k_on s)" if "k_on s ! c \<noteq> nx"
    using member_thread [OF inv c, of "th_link n"] nx that links_okD [OF kernel_repD(3) [OF kernel_inv_rep [OF inv]] nx(1)]
    by (metis option.inject tfields(1))
  have "\<exists>s'. dispatch c (k_on s ! c) nx charge s1 = Some s' \<and> kernel_inv s' (cas[c := ca]) ws \<and> k_on s' = (k_on s1)[c := nx] \<and>
    tstate s' = switched (tstate s1) (k_on s ! c) nx \<and> k_elems s' = k_elems s1 \<and> k_ipis s' = k_ipis s1 \<and> k_count s' = k_count s1 \<and>
    same_fix s1 s'"
    by (rule dispatch_ok [OF s1(2)])
      (use pl1 p(1) nx(1) notin places_len [OF pl] places_distinct [OF pl] c m inv in \<open>auto simp: kernel_inv_def\<close>)
  then show ?thesis using m by (auto simp: switches_def same_fix_def)
qed

text \<open>The thread of a link.\<close>

definition thread_of :: "kernel \<Rightarrow> addr \<Rightarrow> addr" where
  "thread_of s e = (case k_elems s e of Some x \<Rightarrow> obj x | None \<Rightarrow> 0)"

lemma thread_of_Some [simp]: "k_elems s e = Some x \<Longrightarrow> thread_of s e = obj x"
  by (simp add: thread_of_def)

lemma member_thread_of:
  assumes inv: "kernel_inv s cas ws" and c: "c < length cas" and e: "e \<in> members (cas ! c)"
  obtains x n where "k_elems s e = Some x" "k_threads s (thread_of s e) = Some n" "th_link n = e" "obj x = thread_of s e" "squeue x = c"
    "e = fst (cas ! c) \<and> thread_of s e = k_on s ! c \<or> e \<in> set (snd (cas ! c)) \<and> th_state n = READY \<and> thread_of s e \<notin> set (k_on s)"
proof (rule member_thread [OF inv c e], goal_cases)
  case (1 t th x)
  have t: "t = thread_of s e" using 1(4,5) by (simp add: thread_of_def)
  show thesis by (rule that [OF 1(4) 1(2,3,5,6) [unfolded t] 1(8) [unfolded t]])
qed

lemma queue_distinct:
  assumes "kernel_rep s cas ws" "c < length cas"
  shows "distinct (snd (cas ! c))" "fst (cas ! c) \<notin> set (snd (cas ! c))" "rank_sorted (rank_of (k_elems s)) (snd (cas ! c))"
  using sched_at(1) [OF assms] by (auto simp: sched_rep_def list_rep_def)

lemma queue_elect_distinct:
  assumes "distinct (snd ca)" "fst ca \<notin> set (snd ca)"
  shows "fst (queue_elect r ca) \<notin> set (snd (queue_elect r ca))"
proof (cases "snd ca = []")
  case False
  obtain d ds where d: "rank_place r (fst ca) (snd ca) = d # ds" by (metis rank_place_not_Nil list.exhaust)
  then show ?thesis using distinct_rank_place [OF assms, of r] False by (simp add: queue_elect_def)
qed (use assms in \<open>simp add: queue_elect_def\<close>)

lemma queue_next_distinct:
  assumes "distinct (snd ca)" "fst ca \<notin> set (snd ca)"
  shows "fst (queue_next r ca) \<notin> set (snd (queue_next r ca))"
  using assms by (cases "snd ca") (auto simp: queue_next_def)

lemma running_nonnull:
  assumes "kernel_inv s cas ws" "c < length cas"
  shows "fst (cas ! c) \<noteq> 0"
  using running_on [OF assms] by metis

lemma reschedule_ok:
  assumes inv: "kernel_inv s cas ws" and c: "c < length cas" and st: "settled s"
  defines "ca \<equiv> queue_elect (rank_of (k_elems s)) (cas ! c)"
  shows "\<exists>s'. reschedule c s = Some s' \<and> kernel_inv s' (cas[c := ca]) ws \<and> switches s c (thread_of s (fst ca)) s'"
proof -
  note rep = kernel_inv_rep [OF inv]
  obtain p x where p: "k_threads s (k_on s ! c) = Some p" "k_elems s (th_link p) = Some x" "fst (cas ! c) = th_link p"
    "th_link p \<noteq> 0" "squeue x = c" "k_on s ! c \<noteq> 0" "thread_running c s = Some (k_on s ! c)"
    using running_on [OF inv c] by metis
  have mig: "migrate_running (k_on s ! c) s = Some s"
    using p st by (simp add: migrate_running_def store_simps settled_def)
  have m: "members ca = members (cas ! c)" "fst ca \<notin> set (snd ca)" "fst ca \<noteq> 0"
    using members_queue_elect [OF running_nonnull [OF inv c] sched_at(3) [OF rep c]] queue_elect_distinct [OF queue_distinct(1,2) [OF rep c]]
      fst_member [OF sched_at(3) [OF rep c]] running_nonnull [OF inv c] by (auto simp: ca_def)
  obtain y n where y: "k_elems s (fst ca) = Some y" "k_threads s (thread_of s (fst ca)) = Some n" "th_link n = fst ca" "obj y = thread_of s (fst ca)"
    using member_thread_of [OF inv c, of "fst ca"] m(1) members_pair [OF m(3)] by (metis insertI1)
  obtain s1 where s1: "sch_choose c s = Some (s1, obj y)" "moved s s1" "kernel_rep s1 (cas[c := ca]) ws"
    using sch_choose_ok [OF rep c p(1) p(3) [symmetric], of y] p y(1) by (auto simp: tqueue_def ca_def)
  show ?thesis
    using elect_dispatch [OF inv c s1(2,3) m y(2,3), of True] p(7) mig s1(1) y(4) by (simp add: reschedule_def)
qed

lemma yield_ok:
  assumes inv: "kernel_inv s cas ws" and c: "c < length cas"
  defines "ca \<equiv> queue_next (rank_of (k_elems s)) (cas ! c)"
  shows "\<exists>s'. thread_yield c s = Some s' \<and> kernel_inv s' (cas[c := ca]) ws \<and> switches s c (thread_of s (fst ca)) s'"
proof -
  note rep = kernel_inv_rep [OF inv]
  obtain p x where p: "k_threads s (k_on s ! c) = Some p" "k_elems s (th_link p) = Some x" "fst (cas ! c) = th_link p"
    "th_link p \<noteq> 0" "squeue x = c" "k_on s ! c \<noteq> 0" "thread_running c s = Some (k_on s ! c)"
    using running_on [OF inv c] by metis
  have m: "members ca = members (cas ! c)" "fst ca \<notin> set (snd ca)"
    using members_queue_next [OF running_nonnull [OF inv c] sched_at(3) [OF rep c]] queue_next_distinct [OF queue_distinct(1,2) [OF rep c]]
    by (auto simp: ca_def)
  have m3: "fst ca \<noteq> 0"
    using running_nonnull [OF inv c] sched_at(3) [OF rep c] by (cases "snd (cas ! c)") (auto simp: ca_def queue_next_def)
  obtain y n where y: "k_elems s (fst ca) = Some y" "k_threads s (thread_of s (fst ca)) = Some n" "th_link n = fst ca" "obj y = thread_of s (fst ca)"
    using member_thread_of [OF inv c, of "fst ca"] m(1) members_pair [OF m3] by (metis insertI1)
  obtain s1 where s1: "sch_choose_another c s = Some (s1, obj y)" "moved s s1" "kernel_rep s1 (cas[c := ca]) ws"
    using sch_choose_another_ok [OF rep c p(1) p(3) [symmetric], of y] p y(1) by (auto simp: tqueue_def ca_def)
  show ?thesis
    using elect_dispatch [OF inv c s1(2,3) m m3 y(2,3), of True] p(7) s1(1) y(4) by (simp add: thread_yield_def)
qed

section \<open>Blocking\<close>

text \<open>
  The running thread \<open>prev\<close> has left its queue, its record is \<open>p'\<close>, and the first ready link \<open>e\<close> has been
  chosen: the thread of \<open>e\<close> is dispatched.
\<close>

lemma leave_dispatch:
  assumes inv: "kernel_inv s cas ws" and c: "c < length cas" and ready: "snd (cas ! c) = e # ds"
    and rep1: "kernel_rep s1 (cas[c := (e, ds)]) ws'"
    and p: "k_threads s (k_on s ! c) = Some p" "k_threads s1 = (k_threads s)(k_on s ! c \<mapsto> p')"
      "th_link p' = th_link p" "th_saved p' = th_saved p" "k_on s1 = k_on s" "tqueue s1 = tqueue s" "thread_of s1 e = thread_of s e"
    and st: "th_state p' \<noteq> RUNNING" "th_state p' \<noteq> READY"
    and w: "th_state p' = WAITING \<Longrightarrow> ws (th_waiting p') = Some as \<and> ws' = ws(th_waiting p' \<mapsto> bs) \<and> set bs = insert (th_link p) (set as)"
    and nw: "th_state p' \<noteq> WAITING \<Longrightarrow> ws' = ws \<and> th_waiting p' = th_waiting p"
  shows "\<exists>s'. sch_chosen c s1 = Some (thread_of s e) \<and> dispatch c (k_on s ! c) (thread_of s e) True s1 = Some s' \<and>
     kernel_inv s' (cas[c := (e, ds)]) ws' \<and> k_on s' = (k_on s)[c := thread_of s e] \<and>
     tstate s' = (tstate s)(k_on s ! c := th_state p', thread_of s e := RUNNING) \<and>
     same_fix s1 s' \<and> k_elems s' = k_elems s1 \<and> k_ipis s' = k_ipis s1 \<and> k_count s' = k_count s1"
proof -
  note pl = kernel_inv_places [OF inv] and rep = kernel_inv_rep [OF inv]
  let ?t = "k_on s ! c" and ?nx = "thread_of s e"
  have e: "e \<in> members (cas ! c)" "e \<in> set (snd (cas ! c))" using ready by (auto simp: members_def)
  have ne: "e \<noteq> fst (cas ! c)" "e \<notin> set ds" "e \<noteq> 0" using queue_distinct [OF rep c] sched_at(3) [OF rep c] ready by auto
  obtain x n where x: "k_elems s e = Some x" "k_threads s ?nx = Some n" "th_link n = e" "obj x = ?nx" "squeue x = c"
    "th_state n = READY" "?nx \<notin> set (k_on s)"
    using member_thread_of [OF inv c e(1)] ne by metis
  have "?t \<in> set (k_on s)" using c places_len [OF pl] by simp
  then have tn: "?t \<noteq> ?nx" using x(7) by metis
  have "e \<in> members ((cas[c := (e, ds)]) ! c)" using c ne by (simp add: members_def)
  then have "e \<in> all_members (cas[c := (e, ds)])" using members_all [of c "cas[c := (e, ds)]"] c by auto
  then obtain y where y: "k_elems s1 e = Some y" using multilist_mapped [OF kernel_repD(1) [OF rep1]] by fastforce
  have ch: "sch_chosen c s1 = Some ?nx"
    using sch_chosen_ok [OF rep1, of c y] y ne c p(7) by (simp add: thread_of_def)
  have f: "tlink s1 = tlink s" "tstate s1 = (tstate s)(?t := th_state p')" "twait s1 = (twait s)(?t := th_waiting p')"
    by (simp_all add: tlink_def tstate_def twait_def fun_eq_iff p(1,2,3))
  have dm: "dom (k_threads s1) = dom (k_threads s)" unfolding p(2) using p(1) by auto
  have sw: "switched (tstate s1) ?t ?nx = (tstate s)(?t := th_state p', ?nx := RUNNING)"
  proof
    fix t
    show "switched (tstate s1) ?t ?nx t = ((tstate s)(?t := th_state p', ?nx := RUNNING)) t"
      unfolding f(2) switched_def using tn st by (cases "t = ?nx"; cases "t = ?t") auto
  qed
  have tl: "tlink s ?nx = e" "tlink s ?t = th_link p" using x(2,3) p(1) by simp_all
  have nxT: "?nx \<in> dom (k_threads s)" using x by blast
  have pl1: "places (dom (k_threads s1)) (tlink s1) (tqueue s1) (twait s1) (switched (tstate s1) ?t ?nx) ((k_on s1)[c := ?nx]) (cas[c := (e, ds)]) ws'"
  proof (cases "th_state p' = WAITING")
    case True
    then show ?thesis
      using places_leave [OF pl c nxT, of ds "th_state p'" "th_waiting p'" as bs bs] w ready tl ne x(2) st
      unfolding sw f(1,3) dm p(5,6) by auto
  next
    case False
    have "(twait s)(?t := th_waiting p') = twait s" using nw [OF False] p(1) by (auto simp: fun_eq_iff)
    then show ?thesis
      using places_leave [OF pl c nxT, of ds "th_state p'" "th_waiting p'" "[]" "[]" "[th_link p]"] nw False ready tl ne x(2) st
      unfolding sw f(1,3) dm p(5,6) by simp
  qed
  have sv: "th_saved th \<longleftrightarrow> t \<notin> set (k_on s1)" if "k_threads s1 t = Some th" for t th
    using that inv p(1,2,4,5) by (auto simp: kernel_inv_def split: if_splits)
  have "\<exists>s'. dispatch c ?t ?nx True s1 = Some s' \<and> kernel_inv s' (cas[c := (e, ds)]) ws' \<and> k_on s' = (k_on s1)[c := ?nx] \<and>
    tstate s' = switched (tstate s1) ?t ?nx \<and> k_elems s' = k_elems s1 \<and> k_ipis s' = k_ipis s1 \<and> k_count s' = k_count s1 \<and> same_fix s1 s'"
  proof (rule dispatch_ok [OF rep1])
    show "k_threads s1 ?t = Some p'" "k_threads s1 ?nx = Some n" using p(2) x(2) tn by simp_all
  qed (use pl1 sv x(7) p(5) places_len [OF pl] places_distinct [OF pl] c in auto)
  then show ?thesis using ch sw p(5) by auto
qed

text \<open>The running thread suspends itself.\<close>

lemma suspend_self_ok:
  assumes inv: "kernel_inv s cas ws" and c: "c < length cas" and ready: "snd (cas ! c) = e # ds"
  shows "\<exists>s'. thread_suspend c (k_on s ! c) s = Some s' \<and> kernel_inv s' (cas[c := (e, ds)]) ws \<and>
     k_on s' = (k_on s)[c := thread_of s e] \<and> tstate s' = (tstate s)(k_on s ! c := SUSPENDED, thread_of s e := RUNNING) \<and>
     same_fix s s' \<and> dsame_data (k_elems s) (k_elems s') \<and> k_ipis s' = k_ipis s \<and> k_count s' = k_count s"
proof -
  note rep = kernel_inv_rep [OF inv]
  obtain p x where p: "k_threads s (k_on s ! c) = Some p" "k_elems s (th_link p) = Some x" "fst (cas ! c) = th_link p"
    "squeue x = c" "k_on s ! c \<noteq> 0" "thread_running c s = Some (k_on s ! c)"
    using running_on [OF inv c] by metis
  define p' where "p' = p\<lparr>th_state := SUSPENDED\<rparr>"
  define s0 where "s0 = s\<lparr>k_threads := (k_threads s)(k_on s ! c \<mapsto> p')\<rparr>"
  have l: "th_link p' = th_link p" by (simp add: p'_def)
  have u: "thread_upd (k_on s ! c) (\<lambda>t. t\<lparr>th_state := SUSPENDED\<rparr>) s = Some s0"
    using thread_upd_Some [OF p(1,5)] by (simp add: s0_def p'_def)
  have rep0: "kernel_rep s0 cas ws" unfolding s0_def by (rule kernel_rep_thread [OF rep p(1) l])
  have q0: "tqueue s0 = tqueue s" "tlink s0 = tlink s"
    unfolding s0_def using tqueue_thread [of s _ p p'] tlink_thread [of s _ p p'] p(1) l by simp_all
  have tq: "tqueue s0 (k_on s ! c) = c" using q0 p by (simp add: tqueue_def)
  obtain s1 where s1: "sch_remove (k_on s ! c) s0 = Some (s1, k_on s ! c)" "moved s0 s1" "kernel_rep s1 (cas[c := (e, ds)]) ws"
    using sch_remove_chosen_ok [OF rep0, of "k_on s ! c" p' c] tq c p(3) l ready by (auto simp: queue_pop_def s0_def)
  note m = movedD [OF s1(2)]
  have te: "thread_of s1 e = thread_of s e"
    using same_obj_dsame [OF m(11)] by (auto simp: thread_of_def same_obj_def s0_def split: option.splits dest: spec [of _ e])
  have "\<exists>s'. sch_chosen c s1 = Some (thread_of s e) \<and> dispatch c (k_on s ! c) (thread_of s e) True s1 = Some s' \<and>
     kernel_inv s' (cas[c := (e, ds)]) ws \<and> k_on s' = (k_on s)[c := thread_of s e] \<and>
     tstate s' = (tstate s)(k_on s ! c := th_state p', thread_of s e := RUNNING) \<and>
     same_fix s1 s' \<and> k_elems s' = k_elems s1 \<and> k_ipis s' = k_ipis s1 \<and> k_count s' = k_count s1"
    by (rule leave_dispatch [OF inv c ready s1(3) p(1), where p' = p'])
      (use m te q0 in \<open>simp_all add: s0_def p'_def\<close>)
  moreover have "same_fix s s1" using p(1) m by (auto simp: same_fix_def s0_def p'_def tfix_def)
  ultimately show ?thesis
    using u s1(1) p(6) m by (auto simp: thread_suspend_def sch_suspend_def p'_def same_fix_def s0_def)
qed

text \<open>\<open>Thread::sleep\<close>: the running thread goes to its place in order of rank in the queue \<open>q\<close>.\<close>

lemma thread_of_dsame: "dsame_data (k_elems s) (k_elems s') \<Longrightarrow> thread_of s' = thread_of s"
proof
  fix e
  assume "dsame_data (k_elems s) (k_elems s')"
  then have "map_option obj (k_elems s' e) = map_option obj (k_elems s e)"
    using same_obj_dsame [of "k_elems s" "k_elems s'"] by (simp add: same_obj_def)
  then show "thread_of s' e = thread_of s e" by (auto simp: thread_of_def split: option.splits)
qed

lemma sleep_ok:
  assumes inv: "kernel_inv s cas ws" and c: "c < length cas" and ready: "snd (cas ! c) = e # ds" and q: "ws q = Some as"
  defines "bs \<equiv> rank_place (rank_of (k_elems s)) (fst (cas ! c)) as"
  shows "\<exists>s'. thread_sleep c q s = Some s' \<and> kernel_inv s' (cas[c := (e, ds)]) (ws(q \<mapsto> bs)) \<and>
     k_on s' = (k_on s)[c := thread_of s e] \<and> tstate s' = (tstate s)(k_on s ! c := WAITING, thread_of s e := RUNNING) \<and>
     dsame_data (k_elems s) (k_elems s') \<and> k_ipis s' = k_ipis s \<and> k_count s' = k_count s \<and> same_joining s s' \<and>
     twait s' = (twait s)(k_on s ! c := q)"
proof -
  note rep = kernel_inv_rep [OF inv]
  obtain p x where p: "k_threads s (k_on s ! c) = Some p" "k_elems s (th_link p) = Some x" "fst (cas ! c) = th_link p"
    "squeue x = c" "k_on s ! c \<noteq> 0" "th_link p \<noteq> 0" "thread_running c s = Some (k_on s ! c)"
    using running_on [OF inv c] by metis
  define p' where "p' = p\<lparr>th_state := WAITING, th_waiting := q\<rparr>"
  have l: "th_link p' = th_link p" by (simp add: p'_def)
  have tq: "tqueue s (k_on s ! c) = c" using p by (simp add: tqueue_def)
  obtain s1 where s1: "sch_remove (k_on s ! c) s = Some (s1, k_on s ! c)" "moved s s1" "kernel_rep s1 (cas[c := (e, ds)]) ws"
    using sch_remove_chosen_ok [OF rep p(1) tq c p(3) [symmetric]] ready by (auto simp: queue_pop_def)
  note m = movedD [OF s1(2)]
  define s2 where "s2 = s1\<lparr>k_threads := (k_threads s1)(k_on s ! c \<mapsto> p')\<rparr>"
  have k1: "k_threads s1 (k_on s ! c) = Some p" using p(1) m(1) by simp
  have u: "thread_upd (k_on s ! c) (\<lambda>t. t\<lparr>th_state := WAITING, th_waiting := q\<rparr>) s1 = Some s2"
    using thread_upd_Some [OF k1 p(5)] by (simp add: s2_def p'_def)
  have rep2: "kernel_rep s2 (cas[c := (e, ds)]) ws" unfolding s2_def by (rule kernel_rep_thread [OF s1(3) k1 l])
  obtain lq where lq: "q \<noteq> 0" "k_queues s2 q = Some lq" "list_rep (k_elems s2) lq as" "rank_sorted (rank_of (k_elems s2)) as"
    using waits_repD [OF kernel_repD(2) [OF rep2] q] by blast
  have e2: "k_elems s2 = k_elems s1" by (simp add: s2_def)
  have disj: "th_link p \<notin> set bs'" if "ws r = Some bs'" for r bs'
  proof -
    have "th_link p \<in> all_members cas" using members_all [OF c] p(3,6) by (auto simp: members_def)
    then show ?thesis using waits_repD(2) [OF kernel_repD(2) [OF rep] that] by blast
  qed
  have np: "th_link p \<notin> all_members (cas[c := (e, ds)])"
  proof
    assume "th_link p \<in> all_members (cas[c := (e, ds)])"
    then obtain d where d: "d < length cas" "th_link p \<in> members (cas[c := (e, ds)] ! d)" using all_membersE by (metis length_list_update)
    have "th_link p \<in> members (cas ! c)" using p(3,6) by (simp add: members_def)
    then have "d = c" using d multilist_disjoint [OF kernel_repD(1) [OF rep] d(1) c] by (cases "d = c") auto
    then show False using d(2) c ready queue_distinct [OF rep c] p(3) by (auto simp: members_def split: if_splits)
  qed
  obtain y where y: "k_elems s2 (th_link p) = Some y" using moved_at [OF s1(2) p(2)] e2 by metis
  obtain h l' where ins: "ol_insert False (k_elems s2) lq (th_link p) = Some (h, l')" "list_rep h l' bs"
    "dsame_data (k_elems s2) h" "same_outside (insert (th_link p) (set as)) (k_elems s2) h"
    using ol_insert_place [OF lq(3) p(6), of] y disj [OF q] m(12) e2 p(3) by (auto simp: bs_def)
  define s3 where "s3 = queue_upd q l' (s2\<lparr>k_elems := h\<rparr>)"
  have sbs: "set bs = insert (th_link p) (set as)" using p(3) by (simp add: bs_def)
  have "rank_sorted (rank_of h) bs"
    using rank_place_sorted [OF lq(4)] rank_of_dsame_data [OF ins(3)] m(12) e2 by (simp add: bs_def)
  then have rep3: "kernel_rep s3 (cas[c := (e, ds)]) (ws(q \<mapsto> bs)) \<and> tqueue s3 = tqueue s2"
    unfolding s3_def using disj
    by - (rule kernel_rep_queue [OF rep2 q ins(2) _ ins(3,4) _ np], auto simp: sbs)
  have sd: "dsame_data (k_elems s) (k_elems s3)"
    using dsame_data_trans [OF m(11)] ins(3) e2 by (simp add: s3_def queue_upd_def)
  have tq3: "tqueue s3 = tqueue s"
    using rep3 tqueue_thread [OF k1 l] m(10) by (simp add: s2_def)
  have "\<exists>s'. sch_chosen c s3 = Some (thread_of s e) \<and> dispatch c (k_on s ! c) (thread_of s e) True s3 = Some s' \<and>
     kernel_inv s' (cas[c := (e, ds)]) (ws(q \<mapsto> bs)) \<and> k_on s' = (k_on s)[c := thread_of s e] \<and>
     tstate s' = (tstate s)(k_on s ! c := th_state p', thread_of s e := RUNNING) \<and>
     same_fix s3 s' \<and> k_elems s' = k_elems s3 \<and> k_ipis s' = k_ipis s3 \<and> k_count s' = k_count s3"
    by (rule leave_dispatch [OF inv c ready _ p(1), where p' = p' and as = as and bs = bs])
      (use rep3 tq3 m thread_of_dsame [OF sd] q sbs in \<open>simp_all add: s3_def s2_def p'_def queue_upd_def\<close>)
  then obtain s' where s': "sch_chosen c s3 = Some (thread_of s e)" "dispatch c (k_on s ! c) (thread_of s e) True s3 = Some s'"
     "kernel_inv s' (cas[c := (e, ds)]) (ws(q \<mapsto> bs))" "k_on s' = (k_on s)[c := thread_of s e]"
     "tstate s' = (tstate s)(k_on s ! c := WAITING, thread_of s e := RUNNING)"
     "same_fix s3 s'" "k_elems s' = k_elems s3" "k_ipis s' = k_ipis s3" "k_count s' = k_count s3"
    by (auto simp: p'_def)
  have op: "thread_sleep c q s = Some s'"
    using p(6,7) s1(1) u lq(1,2) ins(1) k1 p(5) s'(1,2)
    by (simp add: thread_sleep_def sch_suspend_def store_simps s2_def s3_def p'_def)
  have "same_joining s s3" using p(1) m(1) by (auto simp: same_joining_def s3_def s2_def p'_def queue_upd_def)
  then have j: "same_joining s s'" by (rule same_joining_trans [OF _ same_fix_joining [OF s'(6)]])
  have "twait s3 = (twait s)(k_on s ! c := q)"
    using m(9) twait_thread [of s1 "k_on s ! c" p'] by (simp add: s3_def s2_def p'_def)
  then have w: "twait s' = (twait s)(k_on s ! c := q)" using twait_fix [OF s'(6)] by simp
  have "k_ipis s3 = k_ipis s" "k_count s3 = k_count s" using m by (simp_all add: s3_def s2_def queue_upd_def)
  then show ?thesis using op s' j w sd by (intro exI [of _ s']) simp
qed

section \<open>Becoming ready\<close>

text \<open>
  A thread that is in no queue of the scheduler is inserted into its queue. \<open>places\<close> is about the threads
  as they were before (or as they would be: \<open>Thread::exit\<close> resumes its joiner before it has elected a
  successor), so it is not read off the kernel state here.
\<close>

lemma ready_places:
  assumes rep1: "kernel_rep s1 cas ws'" and pl: "places T lk (tqueue s1) wt st on cas ws"
    and t: "t \<in> T" "k_threads s1 t = Some th" "th_link th = lk t" "tqueue s1 t = c" "c < length cas" "st t \<noteq> RUNNING" "st t \<noteq> READY"
    and w: "st t = WAITING \<Longrightarrow> ws (wt t) = Some (lk t # as) \<and> lk t \<notin> set as"
    and ws': "ws' = (if st t = WAITING then ws(wt t \<mapsto> as) else ws)" and nz: "fst (cas ! c) \<noteq> 0"
  defines "cas' \<equiv> cas[c := (fst (cas ! c), rank_place (rank_of (k_elems s1)) (lk t) (snd (cas ! c)))]"
  shows "\<exists>s'. sch_resume t s1 = Some s' \<and> moved s1 s' \<and> kernel_rep s' cas' ws' \<and>
           places T lk (tqueue s1) (wt(t := x)) (st(t := READY)) on cas' ws'"
proof -
  have fresh: "lk t \<notin> all_members cas"
  proof
    assume "lk t \<in> all_members cas"
    then obtain d where d: "d < length cas" "lk t \<in> members (cas ! d)" using all_membersE by blast
    then have "lk t = lk (on ! d) \<or> lk t \<in> set (snd (cas ! d))"
      using places_on [OF pl d(1)] by (auto simp: members_def split: if_splits)
    then show False
      using places_inj [OF pl t(1), of "on ! d"] places_on [OF pl d(1)] places_ready [OF pl t(1) d(1)] t(6,7) by auto
  qed
  have fresh2: "lk t \<notin> set bs" if q: "ws' q = Some bs" for q bs
  proof (cases "st t = WAITING \<and> q = wt t")
    case True
    then show ?thesis using q ws' w by auto
  next
    case False
    then have "ws q = Some bs" using q ws' by (auto split: if_splits)
    then show ?thesis using places_waiting [OF pl t(1), of q bs] False by auto
  qed
  obtain s' where s': "sch_insert t s1 = Some s'" "moved s1 s'" "kernel_rep s' cas' ws'"
    using sch_insert_ok [OF rep1 t(2,4,5), of] fresh fresh2 t(3) nz by (auto simp: queue_put_def cas'_def)
  have "places T lk (tqueue s1) (wt(t := x)) (st(t := READY)) on cas' ws'"
    unfolding cas'_def ws' by (rule places_make_ready [OF pl t(1,4-7) w]) (simp_all add: t)
  then show ?thesis using s' by (auto simp: sch_resume_def)
qed

lemma thread_upd_fields:
  assumes "k_threads s t = Some th" "th_link th' = th_link th"
  defines "s' \<equiv> s\<lparr>k_threads := (k_threads s)(t \<mapsto> th')\<rparr>"
  shows "tlink s' = tlink s" "tqueue s' = tqueue s" "tstate s' = (tstate s)(t := th_state th')" "twait s' = (twait s)(t := th_waiting th')"
    "dom (k_threads s') = dom (k_threads s)" "k_elems s' = k_elems s" "k_on s' = k_on s" "k_ipis s' = k_ipis s"
    "k_queues s' = k_queues s" "k_count s' = k_count s" "k_sched s' = k_sched s"
  unfolding s'_def using assms(1,2) tlink_thread tqueue_thread tstate_thread twait_thread by auto

text \<open>\<open>Thread::resume\<close> on a suspended thread, before it reschedules.\<close>

lemma saved_upd:
  assumes inv: "kernel_inv s cas ws" and t: "k_threads s t = Some th" "th_saved th' = th_saved th"
    and u: "k_threads s' u = Some uh" "k_threads s' = (k_threads s)(t \<mapsto> th')"
  shows "th_saved uh \<longleftrightarrow> u \<notin> set (k_on s)"
  using assms by (auto simp: kernel_inv_def split: if_splits)

lemma resume_ready:
  assumes inv: "kernel_inv s cas ws" and t: "k_threads s t = Some th" "th_state th = SUSPENDED"
  defines "c \<equiv> tqueue s t" and "s0 \<equiv> s\<lparr>k_threads := (k_threads s)(t \<mapsto> th\<lparr>th_state := READY\<rparr>)\<rparr>"
  defines "cas' \<equiv> cas[c := (fst (cas ! c), rank_place (rank_of (k_elems s)) (th_link th) (snd (cas ! c)))]"
  shows "c < length cas" "thread_upd t (\<lambda>t. t\<lparr>th_state := READY\<rparr>) s = Some s0"
    "\<exists>s'. sch_resume t s0 = Some s' \<and> moved s0 s' \<and> kernel_inv s' cas' ws \<and> tstate s' = (tstate s)(t := READY) \<and>
       thread_criterion t s' \<noteq> None \<and> (\<forall>r. thread_criterion t s' = Some r \<longrightarrow> c_queue r = c)"
proof -
  note rep = kernel_inv_rep [OF inv] and pl = kernel_inv_places [OF inv]
  obtain x where x: "t \<noteq> 0" "th_link th \<noteq> 0" "k_elems s (th_link th) = Some x" "obj x = t"
    using links_okD [OF kernel_repD(3) [OF rep] t(1)] by auto
  show c: "c < length cas"
    using kernel_repD(4) [OF rep] x t(1) by (auto simp: c_def tqueue_def queues_ok_def)
  show "thread_upd t (\<lambda>t. t\<lparr>th_state := READY\<rparr>) s = Some s0" using thread_upd_Some [OF t(1) x(1)] by (simp add: s0_def)
  have l: "th_link (th\<lparr>th_state := READY\<rparr>) = th_link th" by simp
  note f = thread_upd_fields [OF t(1) l, folded s0_def]
  have rep0: "kernel_rep s0 cas ws" unfolding s0_def by (rule kernel_rep_thread [OF rep t(1) l])
  have twu: "(twait s)(t := th_waiting th) = twait s" using t(1) by (simp add: fun_eq_iff)
  have "\<exists>s'. sch_resume t s0 = Some s' \<and> moved s0 s' \<and>
      kernel_rep s' (cas[c := (fst (cas ! c), rank_place (rank_of (k_elems s0)) (tlink s t) (snd (cas ! c)))]) ws \<and>
      places (dom (k_threads s)) (tlink s) (tqueue s0) ((twait s)(t := twait s t)) ((tstate s)(t := READY)) (k_on s)
        (cas[c := (fst (cas ! c), rank_place (rank_of (k_elems s0)) (tlink s t) (snd (cas ! c)))]) ws"
    by (rule ready_places [OF rep0 pl [folded f(2)], where th = "th\<lparr>th_state := READY\<rparr>"])
      (use t c f running_nonnull [OF inv c] in \<open>auto simp: s0_def c_def\<close>)
  then obtain s' where s': "sch_resume t s0 = Some s'" "moved s0 s'" "kernel_rep s' cas' ws"
      "places (dom (k_threads s)) (tlink s) (tqueue s) (twait s) ((tstate s)(t := READY)) (k_on s) cas' ws"
    using f(2,6) t(1) twu by (auto simp: cas'_def)
  note m = movedD [OF s'(2)]
  have st: "tstate s' = (tstate s)(t := READY)" "twait s' = twait s" using m f t by (auto simp: fun_eq_iff)
  have "th_saved uh \<longleftrightarrow> u \<notin> set (k_on s')" if "k_threads s' u = Some uh" for u uh
    using saved_upd [OF inv t(1) _ that, of "th\<lparr>th_state := READY\<rparr>"] m(1,4) f(7) by (simp add: s0_def)
  then have "kernel_inv s' cas' ws"
    using s'(3,4) m f st t by (simp add: kernel_inv_def)
  moreover obtain y where "k_elems s' (th_link th) = Some y" "squeue y = squeue x"
    using moved_at [OF s'(2), of "th_link th" x] x(3) f(6) by auto
  ultimately show "\<exists>s'. sch_resume t s0 = Some s' \<and> moved s0 s' \<and> kernel_inv s' cas' ws \<and> tstate s' = (tstate s)(t := READY) \<and>
       thread_criterion t s' \<noteq> None \<and> (\<forall>r. thread_criterion t s' = Some r \<longrightarrow> c_queue r = c)"
    using s'(1,2) st x t m(1) by (auto simp: thread_criterion_def store_simps s0_def get_rank_def c_def tqueue_def)
qed

lemma kernel_inv_ipis [simp]: "kernel_inv (s\<lparr>k_ipis := is\<rparr>) cas ws = kernel_inv s cas ws"
  by (simp add: kernel_inv_def)

lemma reschedule_on_ok:
  assumes inv: "kernel_inv s cas ws" and c: "c < length cas" and st: "settled s"
  defines "ca \<equiv> queue_elect (rank_of (k_elems s)) (cas ! c)"
  shows "\<exists>s'. reschedule_on c d s = Some s' \<and>
    (if d = c then kernel_inv s' (cas[c := ca]) ws \<and> switches s c (thread_of s (fst ca)) s'
     else s' = send_ipi d s \<and> kernel_inv s' cas ws)"
  using reschedule_ok [OF inv c st] inv by (auto simp: reschedule_on_def ca_def send_ipi_def)

text \<open>The first thread of a waiting queue becomes ready.\<close>

lemma wake_first_ok:
  assumes inv: "kernel_inv s cas ws" and q: "ws q = Some (e # as)"
  defines "t \<equiv> thread_of s e"
  defines "c \<equiv> tqueue s t"
  defines "cas' \<equiv> cas[c := (fst (cas ! c), rank_place (rank_of (k_elems s)) e (snd (cas ! c)))]"
  shows "c < length cas \<and> tstate s t = WAITING \<and> twait s t = q \<and>
    (\<exists>s'. wake_first q s = Some (s', c) \<and> kernel_inv s' cas' (ws(q \<mapsto> as)) \<and> tstate s' = (tstate s)(t := READY) \<and>
       dsame_data (k_elems s) (k_elems s') \<and> k_on s' = k_on s \<and> k_ipis s' = k_ipis s \<and> tlink s' = tlink s \<and> same_joining s s' \<and>
       twait s' = (twait s)(t := 0))"
proof -
  note rep = kernel_inv_rep [OF inv] and pl = kernel_inv_places [OF inv]
  obtain lq where lq: "q \<noteq> 0" "k_queues s q = Some lq" "list_rep (k_elems s) lq (e # as)" "rank_sorted (rank_of (k_elems s)) (e # as)"
    "set (e # as) \<inter> all_members cas = {}"
    using waits_repD [OF kernel_repD(2) [OF rep] q] by blast
  have "e \<in> tlink s ` dom (k_threads s)" using places_wait_sub [OF pl q] by auto
  then obtain u th where u: "k_threads s u = Some th" "th_link th = e" by auto
  obtain x where x: "u \<noteq> 0" "e \<noteq> 0" "k_elems s e = Some x" "obj x = u"
    using links_okD [OF kernel_repD(3) [OF rep] u(1)] u(2) by auto
  have ut: "u = t" using x by (simp add: t_def)
  note th = u [unfolded ut]
  have wt: "tstate s t = WAITING" "twait s t = q" using places_waiting [OF pl _ q, of t] th by auto
  have ea: "e \<notin> set as" using lq(3) by (simp add: list_rep_def)
  have cl: "c < length cas" using kernel_repD(4) [OF rep] x th by (auto simp: c_def tqueue_def queues_ok_def)
  obtain h l' where rm: "ol_remove_front False (k_elems s) lq = Some (h, l', e)" "list_rep h l' as"
    "rank_of h = rank_remove False (rank_of (k_elems s)) e as" "same_but_rank (k_elems s) h" "same_outside (set as) (k_elems s) h"
    using ol_remove_front_rep [OF lq(3), of False] by auto
  have rk: "rank_of h = rank_of (k_elems s)" using rm(3) by (auto simp: rank_remove_def fun_eq_iff)
  have sd: "dsame_data (k_elems s) h" using same_but_rank_dsame [OF rm(4) rk] .
  define s1 where "s1 = queue_upd q l' (s\<lparr>k_elems := h\<rparr>)"
  have rep1: "kernel_rep s1 cas (ws(q \<mapsto> as)) \<and> tqueue s1 = tqueue s"
    unfolding s1_def using lq(5) waits_rep_disjoint [OF kernel_repD(2) [OF rep] _ q] rank_sorted_tl [OF lq(4)] rk
    by - (rule kernel_rep_queue [OF rep q rm(2) _ sd rm(5), of e], auto)
  have k1: "k_threads s1 t = Some th" using th by (simp add: s1_def queue_upd_def)
  define th' where "th' = th\<lparr>th_state := READY, th_waiting := 0\<rparr>"
  have l: "th_link th' = th_link th" by (simp add: th'_def)
  define s2 where "s2 = s1\<lparr>k_threads := (k_threads s1)(t \<mapsto> th')\<rparr>"
  note f = thread_upd_fields [OF k1 l, folded s2_def]
  have u2: "thread_upd t (\<lambda>t. t\<lparr>th_state := READY, th_waiting := 0\<rparr>) s1 = Some s2"
    using thread_upd_Some [OF k1] x(1) ut by (simp add: s2_def th'_def)
  have rep2: "kernel_rep s2 cas (ws(q \<mapsto> as))" unfolding s2_def using rep1 by (intro kernel_rep_thread [OF _ k1 l]) simp
  have el: "k_elems s2 = h" "tqueue s2 = tqueue s" using f(2,6) rep1 by (simp_all add: s1_def queue_upd_def)
  have "\<exists>s'. sch_resume t s2 = Some s' \<and> moved s2 s' \<and>
      kernel_rep s' (cas[c := (fst (cas ! c), rank_place (rank_of (k_elems s2)) (tlink s t) (snd (cas ! c)))]) (ws(q \<mapsto> as)) \<and>
      places (dom (k_threads s)) (tlink s) (tqueue s2) ((twait s)(t := 0)) ((tstate s)(t := READY)) (k_on s)
        (cas[c := (fst (cas ! c), rank_place (rank_of (k_elems s2)) (tlink s t) (snd (cas ! c)))]) (ws(q \<mapsto> as))"
    by (rule ready_places [OF rep2 pl [folded el(2)], where th = th' and as = as])
      (use th cl l el wt q ea running_nonnull [OF inv cl] in \<open>auto simp: s2_def c_def\<close>)
  then obtain s' where s': "sch_resume t s2 = Some s'" "moved s2 s'" "kernel_rep s' cas' (ws(q \<mapsto> as))"
      "places (dom (k_threads s)) (tlink s) (tqueue s) ((twait s)(t := 0)) ((tstate s)(t := READY)) (k_on s) cas' (ws(q \<mapsto> as))"
    using el th rk by (auto simp: cas'_def)
  note m = movedD [OF s'(2)]
  have s1f: "tlink s1 = tlink s" "tstate s1 = tstate s" "twait s1 = twait s" "k_threads s1 = k_threads s" "k_on s1 = k_on s" "k_ipis s1 = k_ipis s"
    by (simp_all add: s1_def) (simp_all add: queue_upd_def)
  have st: "tstate s' = (tstate s)(t := READY)" "twait s' = (twait s)(t := 0)" using m(8,9) f(3,4) s1f by (simp_all add: th'_def)
  have "th_saved uh \<longleftrightarrow> v \<notin> set (k_on s')" if "k_threads s' v = Some uh" for v uh
    using saved_upd [OF inv th(1) _ that, of th'] m(1,4) f(7) s1f by (simp add: s2_def th'_def)
  moreover have "dom (k_threads s') = dom (k_threads s)" using f(5) s1f(4) m(1) by simp
  ultimately have inv': "kernel_inv s' cas' (ws(q \<mapsto> as))"
    using s'(3,4) m(4,7,10) f(1,7) s1f el st by (simp add: kernel_inv_def)
  have sd': "dsame_data (k_elems s) (k_elems s')" using dsame_data_trans [OF sd] m(11) el by simp
  obtain y z where y: "k_elems s' e = Some y" "squeue y = squeue x" "h e = Some z" "obj z = t"
    using dsame_dataD [OF sd' x(3)] dsame_dataD [OF sd x(3)] x(4) ut by auto
  have "wake_first q s = Some (s', c)"
    using lq(1,2) rm(1) y x(2) u2 s'(1) m(1) x(1,3) ut th
    by (simp add: wake_first_def store_simps s1_def thread_criterion_def s2_def l get_rank_def c_def tqueue_def)
  moreover have "same_joining s s'" using th(1) m(1) s1f(4) by (auto simp: same_joining_def s2_def th'_def)
  ultimately show ?thesis using cl wt inv' st sd' m(4,5,7) f(1,7,8) s1f by (intro conjI exI [of _ s']) simp_all
qed

end
