(* ===== verification/Thread_Exit.thy ===== *)
theory Thread_Exit
  imports Thread_Ops
begin

text \<open>
  \<open>Thread::join\<close> and \<open>Thread::exit\<close>. A joiner is a suspended thread that the thread it waits for names in
  \<open>_joining\<close> (\<open>joins_ok\<close>); \<open>exit\<close> stores the status, makes the joiner ready and elects a successor.
\<close>

definition tjoin :: "kernel \<Rightarrow> addr \<Rightarrow> addr" where
  "tjoin s t = (case k_threads s t of Some th \<Rightarrow> th_joining th | None \<Rightarrow> 0)"

lemma tjoin_Some [simp]: "k_threads s t = Some th \<Longrightarrow> tjoin s t = th_joining th"
  by (simp add: tjoin_def)

lemma tjoin_same: "same_joining s s' \<Longrightarrow> tjoin s' = tjoin s"
proof
  fix t
  assume "same_joining s s'"
  then have "map_option th_joining (k_threads s' t) = map_option th_joining (k_threads s t)" by (simp add: same_joining_def)
  then show "tjoin s' t = tjoin s t" by (auto simp: tjoin_def split: option.splits)
qed

text \<open>\<open>joins J st\<close>: no two threads have the same joiner, a joiner is suspended and waits for a living thread.\<close>

definition joins :: "(addr \<Rightarrow> addr) \<Rightarrow> (addr \<Rightarrow> thread_state) \<Rightarrow> bool" where
  "joins J st \<longleftrightarrow>
     (\<forall>t. J t \<noteq> 0 \<longrightarrow> J t \<noteq> t \<and> st t \<noteq> FINISHING \<and> st (J t) = SUSPENDED) \<and>
     (\<forall>t u. J t = J u \<longrightarrow> J t \<noteq> 0 \<longrightarrow> t = u)"

definition joins_ok :: "kernel \<Rightarrow> bool" where
  "joins_ok s \<longleftrightarrow> joins (tjoin s) (tstate s)"

lemma joins_okD: "joins_ok s \<Longrightarrow> tjoin s t \<noteq> 0 \<Longrightarrow>
    tjoin s t \<noteq> t \<and> tstate s t \<noteq> FINISHING \<and> tstate s (tjoin s t) = SUSPENDED"
  unfolding joins_ok_def joins_def by blast

lemma kernel_inv_thread:
  assumes inv: "kernel_inv s cas ws" and t: "k_threads s t = Some th"
    and same: "th_state th' = th_state th" "th_waiting th' = th_waiting th" "th_link th' = th_link th" "th_saved th' = th_saved th"
  shows "kernel_inv (s\<lparr>k_threads := (k_threads s)(t \<mapsto> th')\<rparr>) cas ws"
proof -
  let ?s = "s\<lparr>k_threads := (k_threads s)(t \<mapsto> th')\<rparr>"
  note f = thread_upd_fields [OF t same(3)]
  have g: "tstate ?s = tstate s" "twait ?s = twait s" using f(3,4) t same(1,2) by (auto simp: fun_eq_iff)
  have "th_saved uh \<longleftrightarrow> u \<notin> set (k_on s)" if "k_threads ?s u = Some uh" for u uh
    using saved_upd [OF inv t same(4) that] by simp
  then show ?thesis
    using kernel_rep_thread [OF kernel_inv_rep [OF inv] t same(3)] kernel_inv_places [OF inv]
    unfolding kernel_inv_def f(1,2,5,7) g by simp
qed

lemma running_is: "kernel_inv s cas ws \<Longrightarrow> c < length cas \<Longrightarrow> thread_running c s = Some (k_on s ! c)"
  using running_on by metis

section \<open>Join\<close>

lemma join_ok:
  assumes inv: "kernel_inv s cas ws" and c: "c < length cas" and ready: "snd (cas ! c) = e # ds"
    and t: "k_threads s t = Some th" "th_state th \<noteq> FINISHING" "th_joining th = 0" "t \<noteq> k_on s ! c"
  shows "\<exists>s'. thread_join c t s = Some s' \<and> kernel_inv s' (cas[c := (e, ds)]) ws \<and>
     k_on s' = (k_on s)[c := thread_of s e] \<and> tstate s' = (tstate s)(k_on s ! c := SUSPENDED, thread_of s e := RUNNING) \<and>
     same_fix (s\<lparr>k_threads := (k_threads s)(t \<mapsto> th\<lparr>th_joining := k_on s ! c\<rparr>)\<rparr>) s' \<and>
     dsame_data (k_elems s) (k_elems s') \<and> k_ipis s' = k_ipis s \<and> k_count s' = k_count s"
proof -
  define r where "r = k_on s ! c"
  define s0 where "s0 = s\<lparr>k_threads := (k_threads s)(t \<mapsto> th\<lparr>th_joining := r\<rparr>)\<rparr>"
  note f = thread_upd_fields [OF t(1), of "th\<lparr>th_joining := r\<rparr>", folded s0_def]
  have inv0: "kernel_inv s0 cas ws" unfolding s0_def by (rule kernel_inv_thread [OF inv t(1)]) simp_all
  have t0: "t \<noteq> 0" using links_okD [OF kernel_repD(3) [OF kernel_inv_rep [OF inv]] t(1)] by simp
  have u: "thread_upd t (\<lambda>t. t\<lparr>th_joining := r\<rparr>) s = Some s0" using thread_upd_Some [OF t(1) t0] by (simp add: s0_def)
  have run: "thread_running c s = Some r" "thread_running c s0 = Some r"
    using running_is [OF inv c] running_is [OF inv0 c] f(7) by (simp_all add: r_def)
  have eq: "thread_join c t s = thread_suspend c r s0"
    using run t t0 u by (simp add: thread_join_def thread_suspend_def store_simps r_def)
  have "thread_of s0 = thread_of s" by (simp add: thread_of_def s0_def fun_eq_iff)
  moreover have "tstate s0 = tstate s" using f(3) t(1) by (auto simp: fun_eq_iff)
  ultimately show ?thesis
    using suspend_self_ok [OF inv0 c ready] f(6-8) unfolding eq [unfolded r_def] r_def by (simp add: s0_def r_def)
qed

section \<open>Exit\<close>

lemma thread_of_other:
  "thread_of (s\<lparr>k_count := n\<rparr>) = thread_of s" "thread_of (s\<lparr>k_threads := ts\<rparr>) = thread_of s"
  by (simp_all add: thread_of_def fun_eq_iff)

text \<open>
  An election on a CPU whose thread has left: \<open>prev\<close> is no longer in the queue, \<open>r\<close> is the thread the queue
  has chosen in its place, and \<open>st\<close>, \<open>on\<close> are the states as if \<open>r\<close> were running.
\<close>

lemma choose_dispatch:
  assumes rep: "kernel_rep s cas ws" and c: "c < length cas"
    and pl: "places (dom (k_threads s)) (tlink s) (tqueue s) (twait s) st on cas ws"
    and on: "on = (k_on s)[c := r]" "length (k_on s) = length cas" "distinct (k_on s)"
    and p: "k_threads s (k_on s ! c) = Some p" "th_state p \<noteq> RUNNING" "th_state p \<noteq> READY" "k_on s ! c \<noteq> r"
    and st: "\<And>t. t \<noteq> r \<Longrightarrow> st t = tstate s t" "tstate s r = READY"
    and saved: "\<And>t th. k_threads s t = Some th \<Longrightarrow> th_saved th \<longleftrightarrow> t \<notin> set (k_on s)"
  defines "ca \<equiv> queue_elect (rank_of (k_elems s)) (cas ! c)"
  shows "\<exists>s1 s'. sch_choose c s = Some (s1, thread_of s (fst ca)) \<and> dispatch c (k_on s ! c) (thread_of s (fst ca)) True s1 = Some s' \<and>
    kernel_inv s' (cas[c := ca]) ws \<and> k_on s' = (k_on s)[c := thread_of s (fst ca)] \<and>
    tstate s' = (tstate s)(thread_of s (fst ca) := RUNNING) \<and>
    dsame_data (k_elems s) (k_elems s') \<and> same_fix s s' \<and> k_ipis s' = k_ipis s \<and> k_count s' = k_count s"
proof -
  have r: "on ! c = r" using on c by simp
  note pr = places_on [OF pl c, unfolded r]
  have rlk: "fst (cas ! c) = tlink s r" "r \<in> dom (k_threads s)" using pr by simp_all
  then obtain rh where rh: "k_threads s r = Some rh" "th_link rh = fst (cas ! c)" by auto
  have nz: "fst (cas ! c) \<noteq> 0" using links_okD [OF kernel_repD(3) [OF rep] rh(1)] rh(2) by simp
  have m: "members ca = members (cas ! c)" "fst ca \<notin> set (snd ca)" "fst ca \<noteq> 0"
    using members_queue_elect [OF nz sched_at(3) [OF rep c]] queue_elect_distinct [OF queue_distinct(1,2) [OF rep c]]
      fst_member [OF sched_at(3) [OF rep c]] nz by (auto simp: ca_def)
  have ins: "insert (fst ca) (set (snd ca)) = insert (fst (cas ! c)) (set (snd (cas ! c)))"
    using m(1) members_pair [OF m(3)] members_pair [OF nz] by simp
  have "fst ca \<in> insert (tlink s r) (set (snd (cas ! c)))" using ins rlk(1) by (metis insertI1)
  then have "fst ca \<in> tlink s ` dom (k_threads s)" using places_ready_sub [OF pl c] rlk(2) by blast
  then obtain nx n where nx: "k_threads s nx = Some n" "th_link n = fst ca" by auto
  obtain y where y: "k_elems s (fst ca) = Some y" "obj y = nx" using links_okD [OF kernel_repD(3) [OF rep] nx(1)] nx(2) by auto
  have tof: "thread_of s (fst ca) = nx" using y by simp
  have nxT: "nx \<in> dom (k_threads s)" "tlink s nx = fst ca" using nx by auto
  have nx_st: "nx = r \<or> st nx = READY \<and> tqueue s nx = c"
    using \<open>fst ca \<in> insert (tlink s r) (set (snd (cas ! c)))\<close> nxT places_ready [OF pl nxT(1) c] places_inj [OF pl nxT(1) rlk(2)] by auto
  have prev_st: "st (k_on s ! c) = th_state p" using st(1) p(1,4) by simp
  have ne: "k_on s ! c \<noteq> nx" using nx_st p(2-4) prev_st by auto
  have notin: "nx \<notin> set (k_on s)"
  proof
    assume "nx \<in> set (k_on s)"
    then obtain d where d: "d < length cas" "nx = k_on s ! d" using on(2) by (metis in_set_conv_nth)
    then have "on ! d = nx" using ne on(1) by (cases "d = c") auto
    then have "st nx = RUNNING" "tqueue s nx = d" using places_on [OF pl d(1)] by auto
    then show False using nx_st pr d(2) ne by auto
  qed
  obtain s1 where s1: "sch_choose c s = Some (s1, nx)" "moved s s1" "kernel_rep s1 (cas[c := ca]) ws"
    using sch_choose_ok [OF rep c rh, of y] pr y by (auto simp: ca_def)
  note mv = movedD [OF s1(2)]
  have "places (dom (k_threads s)) (tlink s) (tqueue s) (twait s) (switched st (on ! c) nx) (on[c := nx]) (cas[c := (tlink s nx, snd ca)]) ws"
    by (rule places_elect [OF pl c nxT(1)]) (use ins m(2) nxT(2) in auto)
  moreover have "(tlink s nx, snd ca) = ca" using nxT(2) by (cases ca) simp
  moreover have "on[c := nx] = (k_on s)[c := nx]" using on(1) by simp
  moreover have swn: "switched (tstate s) (k_on s ! c) nx = (tstate s)(nx := RUNNING)"
    using ne p(1,2) by (auto simp: switched_def fun_eq_iff)
  moreover have "switched st (on ! c) nx = (tstate s)(nx := RUNNING)"
  proof
    fix t
    show "switched st (on ! c) nx t = ((tstate s)(nx := RUNNING)) t"
      using r st pr by (cases "t = r"; cases "t = nx") (auto simp: switched_def)
  qed
  ultimately have pl1: "places (dom (k_threads s1)) (tlink s1) (tqueue s1) (twait s1) (switched (tstate s1) (k_on s ! c) nx)
      ((k_on s1)[c := nx]) (cas[c := ca]) ws" using mv by simp
  have "\<exists>s'. dispatch c (k_on s ! c) nx True s1 = Some s' \<and> kernel_inv s' (cas[c := ca]) ws \<and> k_on s' = (k_on s1)[c := nx] \<and>
    tstate s' = switched (tstate s1) (k_on s ! c) nx \<and> k_elems s' = k_elems s1 \<and> k_ipis s' = k_ipis s1 \<and> k_count s' = k_count s1 \<and> same_fix s1 s'"
    by (rule dispatch_ok [OF s1(3) _ _ _ _ _ pl1]) (use mv on c p(1) nx(1) saved notin in auto)
  then show ?thesis using s1(1) mv swn unfolding tof by (auto simp: same_fix_def)
qed

text \<open>The first half of \<open>exit\<close>: the running thread leaves.\<close>

lemma exit_leave:
  assumes inv: "kernel_inv s cas ws" and c: "c < length cas" and ready: "snd (cas ! c) = e # ds"
    and p: "k_threads s (k_on s ! c) = Some p"
  defines "t \<equiv> k_on s ! c" and "r \<equiv> thread_of s e"
  shows "\<exists>s1 s2. sch_remove t s = Some (s1, t) \<and>
    thread_upd t (\<lambda>t. t\<lparr>th_state := FINISHING, th_status := status\<rparr>) s1 = Some s2 \<and>
    k_threads s2 = (k_threads s)(t \<mapsto> p\<lparr>th_state := FINISHING, th_status := status\<rparr>) \<and>
    dsame_data (k_elems s) (k_elems s2) \<and> k_on s2 = k_on s \<and> k_ipis s2 = k_ipis s \<and> k_count s2 = k_count s \<and> tqueue s2 = tqueue s \<and>
    kernel_rep s2 (cas[c := (e, ds)]) ws \<and> r \<noteq> t \<and> r \<in> dom (k_threads s) \<and> tstate s r = READY \<and>
    places (dom (k_threads s2)) (tlink s2) (tqueue s2) (twait s2) ((tstate s)(t := FINISHING, r := RUNNING)) ((k_on s)[c := r]) (cas[c := (e, ds)]) ws"
proof -
  note rep = kernel_inv_rep [OF inv] and pl = kernel_inv_places [OF inv] and pt = p [folded t_def]
  have f: "fst (cas ! c) = th_link p" "tqueue s t = c" using places_on [OF pl c] p by (simp_all add: t_def)
  have t0: "t \<noteq> 0" using links_okD [OF kernel_repD(3) [OF rep] pt] by simp
  obtain s1 where s1: "sch_remove t s = Some (s1, t)" "moved s s1" "kernel_rep s1 (cas[c := (e, ds)]) ws"
    using sch_remove_chosen_ok [OF rep pt f(2) c f(1) [symmetric]] ready by (auto simp: queue_pop_def)
  note m = movedD [OF s1(2)]
  define p' where "p' = p\<lparr>th_state := FINISHING, th_status := status\<rparr>"
  define s2 where "s2 = s1\<lparr>k_threads := (k_threads s1)(t \<mapsto> p')\<rparr>"
  have k1: "k_threads s1 t = Some p" using pt m(1) by simp
  have l: "th_link p' = th_link p" "th_waiting p' = th_waiting p" by (simp_all add: p'_def)
  note g = thread_upd_fields [OF k1 l(1), folded s2_def]
  have u: "thread_upd t (\<lambda>t. t\<lparr>th_state := FINISHING, th_status := status\<rparr>) s1 = Some s2"
    using thread_upd_Some [OF k1 t0] by (simp add: s2_def p'_def)
  have rep2: "kernel_rep s2 (cas[c := (e, ds)]) ws" unfolding s2_def by (rule kernel_rep_thread [OF s1(3) k1 l(1)])
  have e: "e \<in> members (cas ! c)" "e \<noteq> fst (cas ! c)" "e \<notin> set ds"
    using ready queue_distinct [OF rep c] by (auto simp: members_def)
  obtain n where n: "k_threads s r = Some n" "th_link n = e" "th_state n = READY" "r \<notin> set (k_on s)"
    using member_thread_of [OF inv c e(1)] e(2) unfolding r_def by metis
  have "t \<in> set (k_on s)" using c places_len [OF pl] by (simp add: t_def)
  then have rt: "r \<noteq> t" using n(4) by metis
  have rT: "r \<in> dom (k_threads s)" "tlink s r = e" using n by auto
  have tw: "twait s2 = twait s" using g(4) m(9) l(2) pt by (auto simp: fun_eq_iff)
  have "places (dom (k_threads s)) (tlink s) (tqueue s) (twait s) ((tstate s)(t := FINISHING, r := RUNNING)) ((k_on s)[c := r]) (cas[c := (e, ds)]) ws"
    using places_leave [OF pl c rT(1), of ds FINISHING 0 "[]" "[]" "[fst (cas ! c)]"] ready e rT(2) places_on [OF pl c]
    by (simp add: t_def)
  then have "places (dom (k_threads s2)) (tlink s2) (tqueue s2) (twait s2) ((tstate s)(t := FINISHING, r := RUNNING)) ((k_on s)[c := r]) (cas[c := (e, ds)]) ws"
    using g m tw by simp
  then show ?thesis using s1(1) u rep2 rt rT n g m by (auto simp: s2_def p'_def)
qed

lemma exit_ok:
  assumes inv: "kernel_inv s cas ws" and c: "c < length cas" and ready: "snd (cas ! c) = e # ds"
    and p: "k_threads s (k_on s ! c) = Some p" "th_joining p = 0"
  defines "ca \<equiv> queue_elect (rank_of (k_elems s)) (e, ds)" and "t \<equiv> k_on s ! c"
  shows "\<exists>s'. thread_exit c status s = Some s' \<and> kernel_inv s' (cas[c := ca]) ws \<and>
    k_on s' = (k_on s)[c := thread_of s (fst ca)] \<and> tstate s' = (tstate s)(t := FINISHING, thread_of s (fst ca) := RUNNING) \<and>
    join_value t s' = Some status \<and> k_count s' = k_count s - 1 \<and> k_ipis s' = k_ipis s \<and> dsame_data (k_elems s) (k_elems s') \<and>
    same_fix (s\<lparr>k_threads := (k_threads s)(t \<mapsto> p\<lparr>th_status := status\<rparr>)\<rparr>) s'"
proof -
  let ?r = "thread_of s e" and ?cas = "cas[c := (e, ds)]" and ?p = "p\<lparr>th_state := FINISHING, th_status := status\<rparr>"
  obtain s1 s2 where s2: "sch_remove t s = Some (s1, t)"
    "thread_upd t (\<lambda>t. t\<lparr>th_state := FINISHING, th_status := status\<rparr>) s1 = Some s2"
    "k_threads s2 = (k_threads s)(t \<mapsto> ?p)" "dsame_data (k_elems s) (k_elems s2)" "k_on s2 = k_on s" "k_ipis s2 = k_ipis s"
    "k_count s2 = k_count s" "tqueue s2 = tqueue s" "kernel_rep s2 ?cas ws" "?r \<noteq> t" "tstate s ?r = READY"
    "places (dom (k_threads s2)) (tlink s2) (tqueue s2) (twait s2) ((tstate s)(t := FINISHING, ?r := RUNNING)) ((k_on s)[c := ?r]) ?cas ws"
    using exit_leave [OF inv c ready p(1), of status, folded t_def] by blast
  define s3 where "s3 = s2\<lparr>k_count := k_count s2 - 1\<rparr>"
  have st2: "tstate s2 = (tstate s)(t := FINISHING)" using s2(3) by (simp add: tstate_def fun_eq_iff)
  have tof: "thread_of s2 = thread_of s" by (rule thread_of_dsame [OF s2(4)])
  have rk: "rank_of (k_elems s2) = rank_of (k_elems s)" by (rule rank_of_dsame_data [OF s2(4)])
  have t0: "t \<noteq> 0" using links_okD [OF kernel_repD(3) [OF kernel_inv_rep [OF inv]] p(1)] by (simp add: t_def)
  have ca3: "ca = queue_elect (rank_of (k_elems s3)) (?cas ! c)" using rk c by (simp add: ca_def s3_def)
  have "\<exists>s4 s'. sch_choose c s3 = Some (s4, thread_of s3 (fst ca)) \<and> dispatch c (k_on s3 ! c) (thread_of s3 (fst ca)) True s4 = Some s' \<and>
    kernel_inv s' (?cas[c := ca]) ws \<and> k_on s' = (k_on s3)[c := thread_of s3 (fst ca)] \<and>
    tstate s' = (tstate s3)(thread_of s3 (fst ca) := RUNNING) \<and>
    dsame_data (k_elems s3) (k_elems s') \<and> same_fix s3 s' \<and> k_ipis s' = k_ipis s3 \<and> k_count s' = k_count s3"
    unfolding ca3
  proof (rule choose_dispatch)
    show "kernel_rep s3 ?cas ws" using s2(9) by (simp add: s3_def)
    show "places (dom (k_threads s3)) (tlink s3) (tqueue s3) (twait s3) ((tstate s)(t := FINISHING, ?r := RUNNING)) ((k_on s)[c := ?r]) ?cas ws"
      using s2(12) by (simp add: s3_def)
    show "(k_on s)[c := ?r] = (k_on s3)[c := ?r]" "length (k_on s3) = length ?cas" "distinct (k_on s3)"
      using s2(5) places_len [OF kernel_inv_places [OF inv]] places_distinct [OF kernel_inv_places [OF inv]] by (simp_all add: s3_def)
    show "k_threads s3 (k_on s3 ! c) = Some ?p" using s2(3,5) by (simp add: s3_def t_def)
    show "k_on s3 ! c \<noteq> ?r" using s2(5,10) by (simp add: s3_def t_def)
    show "((tstate s)(t := FINISHING, ?r := RUNNING)) u = tstate s3 u" if "u \<noteq> ?r" for u
      using that st2 by (simp add: s3_def)
    show "tstate s3 ?r = READY" using st2 s2(10,11) by (simp add: s3_def)
    show "th_saved uh \<longleftrightarrow> u \<notin> set (k_on s3)" if "k_threads s3 u = Some uh" for u uh
      using saved_upd [OF inv p(1) _ _ s2(3) [unfolded t_def], of u uh] that s2(5) by (simp add: s3_def)
  qed (use c in simp_all)
  moreover have s3f: "thread_of s3 = thread_of s" "tstate s3 = (tstate s)(t := FINISHING)" "k_threads s3 = k_threads s2" "k_on s3 = k_on s"
    "k_elems s3 = k_elems s2" "k_ipis s3 = k_ipis s" "k_count s3 = k_count s - 1"
    using tof st2 s2(5-7) by (simp_all add: s3_def thread_of_other)
  ultimately obtain s4 s' where s': "sch_choose c s3 = Some (s4, thread_of s (fst ca))"
      "dispatch c t (thread_of s (fst ca)) True s4 = Some s'"
      "kernel_inv s' (cas[c := ca]) ws" "k_on s' = (k_on s)[c := thread_of s (fst ca)]"
      "tstate s' = (tstate s)(t := FINISHING, thread_of s (fst ca) := RUNNING)"
      "dsame_data (k_elems s2) (k_elems s')" "same_fix s3 s'" "k_ipis s' = k_ipis s" "k_count s' = k_count s - 1"
    by (auto simp: t_def)
  have op: "thread_exit c status s = Some s'"
    using running_is [OF inv c] s2(1,2) s'(1,2) s3f(3) s2(3) t0 p(2) by (simp add: thread_exit_def t_def s3_def store_simps)
  have "k_threads s3 t = Some ?p" using s3f(3) s2(3) by simp
  then have "join_value t s' = Some status" using s'(7) t0 by (auto elim!: same_fixD simp: join_value_def store_simps)
  moreover have "same_fix (s\<lparr>k_threads := (k_threads s)(t \<mapsto> p\<lparr>th_status := status\<rparr>)\<rparr>) s'"
    using s'(7) s3f(3) s2(3) by (auto simp: same_fix_def tfix_def)
  ultimately show ?thesis using op s' dsame_data_trans [OF s2(4)] by blast
qed

text \<open>The joiner of the exiting thread becomes ready and takes part in the election.\<close>

lemma exit_joined_ok:
  assumes inv: "kernel_inv s cas ws" and c: "c < length cas" and ready: "snd (cas ! c) = e # ds" and jo: "joins_ok s"
    and p: "k_threads s (k_on s ! c) = Some p" "th_joining p = j" "j \<noteq> 0" and jh: "k_threads s j = Some jh"
  defines "t \<equiv> k_on s ! c" and "d \<equiv> tqueue s j" and "cas1 \<equiv> cas[c := (e, ds)]"
  defines "cas2 \<equiv> cas1[d := (fst (cas1 ! d), rank_place (rank_of (k_elems s)) (th_link jh) (snd (cas1 ! d)))]"
  defines "ca \<equiv> queue_elect (rank_of (k_elems s)) (cas2 ! c)"
  shows "\<exists>s'. thread_exit c status s = Some s' \<and> kernel_inv s' (cas2[c := ca]) ws \<and>
    k_on s' = (k_on s)[c := thread_of s (fst ca)] \<and>
    tstate s' = (tstate s)(t := FINISHING, j := READY, thread_of s (fst ca) := RUNNING) \<and>
    join_value t s' = Some status \<and> k_count s' = k_count s - 1 \<and> k_ipis s' = k_ipis s \<and> dsame_data (k_elems s) (k_elems s') \<and>
    same_fix (s\<lparr>k_threads := (k_threads s)(t \<mapsto> p\<lparr>th_status := status, th_joining := 0\<rparr>)\<rparr>) s'"
proof -
  let ?r = "thread_of s e" and ?p = "p\<lparr>th_state := FINISHING, th_status := status\<rparr>"
  let ?p' = "?p\<lparr>th_joining := 0\<rparr>" and ?j = "jh\<lparr>th_state := READY\<rparr>"
  obtain s1 s2 where s2: "sch_remove t s = Some (s1, t)"
    "thread_upd t (\<lambda>t. t\<lparr>th_state := FINISHING, th_status := status\<rparr>) s1 = Some s2"
    "k_threads s2 = (k_threads s)(t \<mapsto> ?p)" "dsame_data (k_elems s) (k_elems s2)" "k_on s2 = k_on s" "k_ipis s2 = k_ipis s"
    "k_count s2 = k_count s" "tqueue s2 = tqueue s" "kernel_rep s2 cas1 ws" "?r \<noteq> t" "tstate s ?r = READY"
    "places (dom (k_threads s2)) (tlink s2) (tqueue s2) (twait s2) ((tstate s)(t := FINISHING, ?r := RUNNING)) ((k_on s)[c := ?r]) cas1 ws"
    using exit_leave [OF inv c ready p(1), of status, folded t_def cas1_def] by blast
  define s3 where "s3 = s2\<lparr>k_count := k_count s2 - 1\<rparr>"
  have s3f: "k_threads s3 = k_threads s2" "tlink s3 = tlink s2" "twait s3 = twait s2" "tqueue s3 = tqueue s" "k_elems s3 = k_elems s2"
    "k_on s3 = k_on s" "k_ipis s3 = k_ipis s" "k_count s3 = k_count s - 1" "kernel_rep s3 cas1 ws" "tstate s3 = (tstate s)(t := FINISHING)"
    using s2(3,5-9) by (simp_all add: s3_def tstate_def fun_eq_iff)
  have j: "j \<noteq> t" "tstate s j = SUSPENDED" using joins_okD [OF jo, of t] p by (auto simp: t_def)
  have rj: "?r \<noteq> j" using j(2) s2(11) by auto
  have kj: "k_threads s3 j = Some jh" using s3f(1) s2(3) j(1) jh by simp
  have lj: "th_link ?j = th_link jh" "th_waiting ?j = th_waiting jh" "th_saved ?j = th_saved jh" by simp_all
  define s4 where "s4 = s3\<lparr>k_threads := (k_threads s3)(j \<mapsto> ?j)\<rparr>"
  note g = thread_upd_fields [OF kj lj(1), folded s4_def]
  have "twait s2 j = th_waiting jh" using tfields(3) [OF kj] s3f(3) by simp
  then have tw4: "twait s4 = twait s2" using g(4) s3f(3) by (auto simp: fun_eq_iff)
  have rep4: "kernel_rep s4 cas1 ws" unfolding s4_def by (rule kernel_rep_thread [OF s3f(9) kj lj(1)])
  have u4: "thread_upd j (\<lambda>t. t\<lparr>th_state := READY\<rparr>) s3 = Some s4" using thread_upd_Some [OF kj p(3)] by (simp add: s4_def)
  have rk: "rank_of (k_elems s2) = rank_of (k_elems s)" by (rule rank_of_dsame_data [OF s2(4)])
  obtain xj where xj: "k_elems s (th_link jh) = Some xj" using links_okD [OF kernel_repD(3) [OF kernel_inv_rep [OF inv]] jh] by auto
  have dl: "d < length cas1"
    using kernel_repD(4) [OF kernel_inv_rep [OF inv]] xj jh by (simp add: d_def tqueue_def queues_ok_def cas1_def)
  have nz: "fst (cas1 ! d) \<noteq> 0"
  proof -
    have pl1: "places (dom (k_threads s2)) (tlink s2) (tqueue s2) (twait s2) ((tstate s)(t := FINISHING, ?r := RUNNING)) ((k_on s)[c := ?r]) cas1 ws"
      by (rule s2(12))
    have on: "(k_on s)[c := ?r] ! d \<in> dom (k_threads s2)" "tlink s2 ((k_on s)[c := ?r] ! d) = fst (cas1 ! d)"
      using places_on [OF pl1 dl] by simp_all
    then obtain oh where "k_threads s2 ((k_on s)[c := ?r] ! d) = Some oh" by blast
    then show ?thesis using links_okD [OF kernel_repD(3) [OF s2(9)]] on(2) by fastforce
  qed
  have "\<exists>s5. sch_resume j s4 = Some s5 \<and> moved s4 s5 \<and>
      kernel_rep s5 (cas1[d := (fst (cas1 ! d), rank_place (rank_of (k_elems s4)) (tlink s2 j) (snd (cas1 ! d)))]) ws \<and>
      places (dom (k_threads s2)) (tlink s2) (tqueue s4) ((twait s2)(j := twait s2 j)) (((tstate s)(t := FINISHING, ?r := RUNNING))(j := READY))
        ((k_on s)[c := ?r]) (cas1[d := (fst (cas1 ! d), rank_place (rank_of (k_elems s4)) (tlink s2 j) (snd (cas1 ! d)))]) ws"
  proof (rule ready_places [OF rep4, where th = ?j])
    show "places (dom (k_threads s2)) (tlink s2) (tqueue s4) (twait s2) ((tstate s)(t := FINISHING, ?r := RUNNING)) ((k_on s)[c := ?r]) cas1 ws"
      using s2(8,12) g(2) s3f(4) by simp
    show "j \<in> dom (k_threads s2)" using kj s3f(1) by auto
    show "k_threads s4 j = Some ?j" by (simp add: s4_def)
    show "th_link ?j = tlink s2 j" using kj s3f(1) by simp
    show "tqueue s4 j = d" using g(2) s3f(4) by (simp add: d_def)
  qed (use dl nz j rj in simp_all)
  then obtain s5 where s5: "sch_resume j s4 = Some s5" "moved s4 s5" "kernel_rep s5 cas2 ws"
    "places (dom (k_threads s2)) (tlink s2) (tqueue s4) (twait s2) ((tstate s)(t := FINISHING, ?r := RUNNING, j := READY)) ((k_on s)[c := ?r]) cas2 ws"
    using kj s3f(1,5) g(6) rk by (auto simp: cas2_def)
  note m = movedD [OF s5(2)]
  have k5: "k_threads s5 t = Some ?p" using m(1) s3f(1) s2(3) j(1) by (simp add: s4_def)
  have lp: "th_link ?p' = th_link ?p" "th_waiting ?p' = th_waiting ?p" by simp_all
  define s6 where "s6 = s5\<lparr>k_threads := (k_threads s5)(t \<mapsto> ?p')\<rparr>"
  note g6 = thread_upd_fields [OF k5 lp(1), folded s6_def]
  have t0: "t \<noteq> 0" using links_okD [OF kernel_repD(3) [OF kernel_inv_rep [OF inv]] p(1)] by (simp add: t_def)
  have u6: "thread_upd t (\<lambda>t. t\<lparr>th_joining := 0\<rparr>) s5 = Some s6" using thread_upd_Some [OF k5 t0] by (simp add: s6_def)
  have rep6: "kernel_rep s6 cas2 ws" unfolding s6_def by (rule kernel_rep_thread [OF s5(3) k5 lp(1)])
  have st6: "tstate s6 = (tstate s)(t := FINISHING, j := READY)"
    using g6(3) m(8) g(3) s3f(10) j(1) by (auto simp: fun_eq_iff)
  have "twait s2 t = th_waiting p" using tfields(3) [OF k5] m(9) tw4 by simp
  then have tw6: "twait s6 = twait s2" using g6(4) m(9) tw4 by (auto simp: fun_eq_iff)
  have k6: "k_threads s6 = (k_threads s)(t \<mapsto> ?p', j \<mapsto> ?j)"
    using m(1) s3f(1) s2(3) j(1) by (auto simp: s6_def s4_def fun_eq_iff)
  have f6: "k_on s6 = k_on s" "k_ipis s6 = k_ipis s" "k_count s6 = k_count s - 1" "tqueue s6 = tqueue s" "tlink s6 = tlink s2"
    "dom (k_threads s6) = dom (k_threads s2)"
    using g6 m g s3f by simp_all
  have sd6: "dsame_data (k_elems s) (k_elems s6)" using dsame_data_trans [OF s2(4)] m(11) g6(6) g(6) s3f(5) by simp
  have rk6: "rank_of (k_elems s6) = rank_of (k_elems s)" by (rule rank_of_dsame_data [OF sd6])
  have tof: "thread_of s6 = thread_of s" by (rule thread_of_dsame [OF sd6])
  have ca6: "ca = queue_elect (rank_of (k_elems s6)) (cas2 ! c)" using rk6 by (simp add: ca_def)
  have "\<exists>s7 s'. sch_choose c s6 = Some (s7, thread_of s6 (fst ca)) \<and> dispatch c (k_on s6 ! c) (thread_of s6 (fst ca)) True s7 = Some s' \<and>
    kernel_inv s' (cas2[c := ca]) ws \<and> k_on s' = (k_on s6)[c := thread_of s6 (fst ca)] \<and>
    tstate s' = (tstate s6)(thread_of s6 (fst ca) := RUNNING) \<and>
    dsame_data (k_elems s6) (k_elems s') \<and> same_fix s6 s' \<and> k_ipis s' = k_ipis s6 \<and> k_count s' = k_count s6"
    unfolding ca6
  proof (rule choose_dispatch [OF rep6])
    show "places (dom (k_threads s6)) (tlink s6) (tqueue s6) (twait s6) ((tstate s)(t := FINISHING, ?r := RUNNING, j := READY)) ((k_on s)[c := ?r]) cas2 ws"
      using s5(4) f6 tw6 g(2) s3f(4) by simp
    show "(k_on s)[c := ?r] = (k_on s6)[c := ?r]" "length (k_on s6) = length cas2" "distinct (k_on s6)"
      using f6(1) places_len [OF kernel_inv_places [OF inv]] places_distinct [OF kernel_inv_places [OF inv]] by (simp_all add: cas2_def cas1_def)
    show "k_threads s6 (k_on s6 ! c) = Some ?p'" using k6 f6(1) j(1) by (simp add: t_def)
    show "k_on s6 ! c \<noteq> ?r" using f6(1) s2(10) by (simp add: t_def)
    show "((tstate s)(t := FINISHING, ?r := RUNNING, j := READY)) u = tstate s6 u" if "u \<noteq> ?r" for u
      using that st6 by simp
    show "tstate s6 ?r = READY" using st6 s2(10,11) by simp
    show "th_saved uh \<longleftrightarrow> u \<notin> set (k_on s6)" if "k_threads s6 u = Some uh" for u uh
      using that k6 f6(1) p(1) jh inv j(1) by (auto simp: kernel_inv_def t_def split: if_splits)
  qed (use c in \<open>simp_all add: cas2_def cas1_def\<close>)
  then obtain s7 s' where s': "sch_choose c s6 = Some (s7, thread_of s (fst ca))"
      "dispatch c t (thread_of s (fst ca)) True s7 = Some s'"
      "kernel_inv s' (cas2[c := ca]) ws" "k_on s' = (k_on s)[c := thread_of s (fst ca)]"
      "tstate s' = (tstate s)(t := FINISHING, j := READY, thread_of s (fst ca) := RUNNING)"
      "dsame_data (k_elems s6) (k_elems s')" "same_fix s6 s'" "k_ipis s' = k_ipis s" "k_count s' = k_count s - 1"
    using f6 st6 tof by (auto simp: t_def)
  have op: "thread_exit c status s = Some s'"
    using running_is [OF inv c] s2(1,2) s'(1,2) s3f(1) s2(3) t0 p(2,3) u4 s5(1) u6
    by (simp add: thread_exit_def t_def s3_def store_simps)
  have "k_threads s6 t = Some ?p'" using k6 j(1) by simp
  then have "join_value t s' = Some status" using s'(7) t0 by (auto elim!: same_fixD simp: join_value_def store_simps)
  moreover have "same_fix (s\<lparr>k_threads := (k_threads s)(t \<mapsto> p\<lparr>th_status := status, th_joining := 0\<rparr>)\<rparr>) s'"
    using s'(7) k6 j(1) jh by (auto simp: same_fix_def tfix_def)
  ultimately show ?thesis using op s' dsame_data_trans [OF sd6] by blast
qed

end
