(* ===== verification/Thread_Machine.thy ===== *)
theory Thread_Machine
  imports Thread_Exit
begin

text \<open>
  The kernel as a state machine. A step is one operation of \<open>Thread\<close> executed on some CPU under the scheduler
  lock, with the conditions under which the code may be called; the interrupts of the timer and of the
  other CPUs are steps like the others. Every step terminates without undefined behaviour (\<open>None\<close>) and
  keeps the invariant, so every interleaving does.
\<close>

definition idle_ok :: "(addr \<Rightarrow> int) \<Rightarrow> (addr \<times> addr list) list \<Rightarrow> bool" where
  "idle_ok r cas \<longleftrightarrow> (\<forall>c < length cas. \<exists>e \<in> members (cas ! c). r e = IDLE)"

text \<open>\<open>n\<close> CPUs, with the waiting queues at the addresses of \<open>Q\<close>.\<close>

definition kernel_ok :: "nat \<Rightarrow> addr set \<Rightarrow> kernel \<Rightarrow> (addr \<times> addr list) list \<Rightarrow> (addr \<rightharpoonup> addr list) \<Rightarrow> bool" where
  "kernel_ok n Q s cas ws \<longleftrightarrow>
     kernel_inv s cas ws \<and> length cas = n \<and> dom ws = Q \<and> settled s \<and> joins_ok s \<and>
     idle_ok (rank_of (k_elems s)) cas"

definition safe :: "nat \<Rightarrow> addr set \<Rightarrow> kernel \<Rightarrow> bool" where
  "safe n Q s \<longleftrightarrow> (\<exists>cas ws. kernel_ok n Q s cas ws)"

lemma kernel_okD:
  assumes "kernel_ok n Q s cas ws"
  shows "kernel_inv s cas ws" "length cas = n" "dom ws = Q" "settled s" "joins_ok s"
    "idle_ok (rank_of (k_elems s)) cas"
  using assms by (simp_all add: kernel_ok_def)

text \<open>A CPU that does not run its idle thread has it ready.\<close>

lemma ready_nonempty:
  assumes ok: "kernel_ok n Q s cas ws" and c: "c < n" and r: "trank s (k_on s ! c) \<noteq> IDLE"
  obtains e ds where "snd (cas ! c) = e # ds"
proof -
  note inv = kernel_okD(1) [OF ok]
  have cl: "c < length cas" using kernel_okD(2) [OF ok] c by simp
  obtain x where x: "x \<in> members (cas ! c)" "rank_of (k_elems s) x = IDLE"
    using kernel_okD(6) [OF ok] cl by (auto simp: idle_ok_def)
  have "tlink s (k_on s ! c) = fst (cas ! c)" using places_on [OF kernel_inv_places [OF inv] cl] by simp
  then have "x \<noteq> fst (cas ! c)" using x(2) r by (auto simp: trank_def)
  then have "x \<in> set (snd (cas ! c))" using x(1) by (auto simp: members_def split: if_splits)
  then show thesis using that by (cases "snd (cas ! c)") auto
qed

lemma idle_ok_update:
  assumes "idle_ok r cas" "c < length cas"
    "\<And>e. e \<in> members (cas ! c) \<Longrightarrow> r e = IDLE \<Longrightarrow> e \<in> members ca"
  shows "idle_ok r (cas[c := ca])"
  unfolding idle_ok_def length_list_update
proof (intro allI impI)
  fix d
  assume d: "d < length cas"
  then obtain e where e: "e \<in> members (cas ! d)" "r e = IDLE" using assms(1) by (auto simp: idle_ok_def)
  show "\<exists>e \<in> members (cas[c := ca] ! d). r e = IDLE"
  proof (cases "d = c")
    case True
    then show ?thesis using e assms by auto
  next
    case False
    then show ?thesis using e by auto
  qed
qed

lemma joins_states:
  assumes "joins J st" "\<And>t. J t \<noteq> 0 \<Longrightarrow> st (J t) = SUSPENDED \<Longrightarrow> st' (J t) = SUSPENDED"
    "\<And>t. J t \<noteq> 0 \<Longrightarrow> st' t = FINISHING \<Longrightarrow> st t = FINISHING"
  shows "joins J st'"
  using assms unfolding joins_def by blast

lemma joins_ok_cong:
  assumes "joins_ok s" "same_joining s s'" "\<And>t. tjoin s t \<noteq> 0 \<Longrightarrow> tstate s (tjoin s t) = SUSPENDED \<Longrightarrow> tstate s' (tjoin s t) = SUSPENDED"
    "\<And>t. tjoin s t \<noteq> 0 \<Longrightarrow> tstate s' t = FINISHING \<Longrightarrow> tstate s t = FINISHING"
  shows "joins_ok s'"
  using assms tjoin_same [OF assms(2)] joins_states [of "tjoin s" "tstate s" "tstate s'"] by (simp add: joins_ok_def)

lemma switches_joins:
  assumes "joins_ok s" "switches s c nx s'" "tstate s nx \<noteq> SUSPENDED"
  shows "joins_ok s'"
  using assms same_fix_joining [of s s']
  by (intro joins_ok_cong [OF assms(1)]) (auto simp: switches_def switched_def split: if_splits)

section \<open>The steps keep the invariant\<close>

lemma elected_safe:
  assumes ok: "kernel_ok n Q s cas ws" and c: "c < n"
    and inv: "kernel_inv s' (cas[c := ca]) ws" and sw: "switches s c (thread_of s (fst ca)) s'"
    and m: "members ca = members (cas ! c)" "fst ca \<noteq> 0"
  shows "kernel_ok n Q s' (cas[c := ca]) ws"
proof -
  note k = kernel_okD [OF ok]
  have cl: "c < length cas" using c k(2) by simp
  have e: "fst ca \<in> members (cas ! c)" using m members_pair [OF m(2)] by auto
  obtain t where t: "k_threads s (thread_of s (fst ca)) = Some t" "thread_of s (fst ca) \<in> set (k_on s) \<or> th_state t = READY"
    using member_thread_of [OF k(1) cl e] places_len [OF kernel_inv_places [OF k(1)]] cl by (metis nth_mem)
  have ns: "tstate s (thread_of s (fst ca)) \<noteq> SUSPENDED"
    using t places_running [OF kernel_inv_places [OF k(1)] domI [where m = "k_threads s", OF t(1)]] by auto
  have sd: "dsame_data (k_elems s) (k_elems s')" using sw by (simp add: switches_def)
  have "idle_ok (rank_of (k_elems s')) (cas[c := ca])"
    unfolding rank_of_dsame_data [OF sd] using k(6) cl m(1) by (intro idle_ok_update) auto
  then show ?thesis
    using inv k settled_dsame [OF k(4) sd] switches_joins [OF k(5) sw ns] by (simp add: kernel_ok_def)
qed

lemma elect_members:
  assumes inv: "kernel_inv s cas ws" and c: "c < length cas"
  shows "members (queue_elect r (cas ! c)) = members (cas ! c)" "fst (queue_elect r (cas ! c)) \<noteq> 0"
    "members (queue_next r (cas ! c)) = members (cas ! c)" "fst (queue_next r (cas ! c)) \<noteq> 0"
proof -
  note z = sched_at(3) [OF kernel_inv_rep [OF inv] c] and nz = running_nonnull [OF inv c]
  show "members (queue_elect r (cas ! c)) = members (cas ! c)" by (rule members_queue_elect [OF nz z])
  show "fst (queue_elect r (cas ! c)) \<noteq> 0" using fst_member [OF z] nz by blast
  show "members (queue_next r (cas ! c)) = members (cas ! c)" by (rule members_queue_next [OF nz z])
  show "fst (queue_next r (cas ! c)) \<noteq> 0" using nz z by (cases "snd (cas ! c)") (auto simp: queue_next_def)
qed

lemma reschedule_kernel_ok:
  assumes ok: "kernel_ok n Q s cas ws" and c: "c < n"
  shows "\<exists>s'. reschedule c s = Some s' \<and> kernel_ok n Q s' (cas[c := queue_elect (rank_of (k_elems s)) (cas ! c)]) ws \<and>
    switches s c (thread_of s (fst (queue_elect (rank_of (k_elems s)) (cas ! c)))) s'"
proof -
  note k = kernel_okD [OF ok]
  have cl: "c < length cas" using c k(2) by simp
  show ?thesis using reschedule_ok [OF k(1) cl k(4)] elected_safe [OF ok c _ _ elect_members(1,2) [OF k(1) cl]] by blast
qed

text \<open>Rescheduling exchanges ready and running threads only.\<close>

definition active :: "thread_state \<Rightarrow> bool" where
  "active st \<longleftrightarrow> st = READY \<or> st = RUNNING"

lemma active_simps [simp]: "active READY" "active RUNNING" "\<not> active WAITING" "\<not> active SUSPENDED" "\<not> active FINISHING"
  by (simp_all add: active_def)

definition same_inactive :: "kernel \<Rightarrow> kernel \<Rightarrow> bool" where
  "same_inactive s s' \<longleftrightarrow> (\<forall>t. (active (tstate s' t) \<longleftrightarrow> active (tstate s t)) \<and> (\<not> active (tstate s t) \<longrightarrow> tstate s' t = tstate s t)) \<and>
     twait s' = twait s"

lemma same_inactive_refl [simp]: "same_inactive s s"
  by (simp add: same_inactive_def)

lemma same_inactive_trans: "same_inactive s s' \<Longrightarrow> same_inactive s' s'' \<Longrightarrow> same_inactive s s''"
  by (auto simp: same_inactive_def)

lemma switches_inactive:
  assumes sw: "switches s c nx s'" and "active (tstate s nx)"
  shows "same_inactive s s'"
  using assms twait_fix [of s s'] by (auto simp: same_inactive_def switches_def switched_def active_def)

lemma member_active:
  assumes inv: "kernel_inv s cas ws" and c: "c < length cas" and e: "e \<in> members (cas ! c)"
  shows "active (tstate s (thread_of s e))"
proof -
  obtain t where t: "k_threads s (thread_of s e) = Some t" "thread_of s e \<in> set (k_on s) \<or> th_state t = READY"
    using member_thread_of [OF inv c e] places_len [OF kernel_inv_places [OF inv]] c by (metis nth_mem)
  then show ?thesis
    using places_running [OF kernel_inv_places [OF inv] domI [where m = "k_threads s", OF t(1)]] by auto
qed

lemma reschedule_on_inactive:
  assumes inv: "kernel_inv s cas ws" and c: "c < length cas" and st: "settled s"
  shows "\<exists>s'. reschedule_on c d s = Some s' \<and> same_inactive s s'"
proof -
  let ?ca = "queue_elect (rank_of (k_elems s)) (cas ! c)"
  have "fst ?ca \<in> members (cas ! c)" using elect_members(1,2) [OF inv c, of "rank_of (k_elems s)"] members_pair by blast
  then have a: "active (tstate s (thread_of s (fst ?ca)))" by (rule member_active [OF inv c])
  show ?thesis
  proof (cases "d = c")
    case True
    then show ?thesis using reschedule_ok [OF inv c st] switches_inactive [OF _ a] by (auto simp: reschedule_on_def)
  next
    case False
    then show ?thesis by (simp add: reschedule_on_def send_ipi_def same_inactive_def)
  qed
qed

lemma reschedule_on_kernel_ok:
  assumes ok: "kernel_ok n Q s cas ws" and c: "c < n"
  shows "\<exists>s' cas'. reschedule_on c d s = Some s' \<and> kernel_ok n Q s' cas' ws \<and> same_inactive s s'"
proof -
  note k = kernel_okD [OF ok]
  obtain s' where s': "reschedule_on c d s = Some s'" "same_inactive s s'"
    using reschedule_on_inactive [OF k(1) _ k(4), of c d] c k(2) by auto
  show ?thesis
  proof (cases "d = c")
    case True
    then show ?thesis using s' reschedule_kernel_ok [OF ok c] by (auto simp: reschedule_on_def)
  next
    case False
    then have "kernel_ok n Q s' cas ws"
      using ok s'(1) by (auto simp: reschedule_on_def send_ipi_def kernel_ok_def settled_def joins_ok_def tjoin_def [abs_def])
    then show ?thesis using s' by blast
  qed
qed

lemma reschedule_safe: "safe n Q s \<Longrightarrow> c < n \<Longrightarrow> \<exists>s'. reschedule c s = Some s' \<and> safe n Q s'"
  using reschedule_kernel_ok unfolding safe_def by blast

lemma yield_safe: "safe n Q s \<Longrightarrow> c < n \<Longrightarrow> \<exists>s'. thread_yield c s = Some s' \<and> safe n Q s'"
proof -
  assume "safe n Q s" and c: "c < n"
  then obtain cas ws where ok: "kernel_ok n Q s cas ws" unfolding safe_def by blast
  note k = kernel_okD [OF ok]
  have cl: "c < length cas" using c k(2) by simp
  show ?thesis
    using yield_ok [OF k(1) cl] elected_safe [OF ok c _ _ elect_members(3,4) [OF k(1) cl]] unfolding safe_def by blast
qed

lemma safe_ipis [simp]: "safe n Q (s\<lparr>k_ipis := is\<rparr>) = safe n Q s"
  by (simp add: safe_def kernel_ok_def settled_def joins_ok_def tjoin_def [abs_def])

lemma reschedule_on_safe: "safe n Q s \<Longrightarrow> c < n \<Longrightarrow> \<exists>s'. reschedule_on c d s = Some s' \<and> safe n Q s'"
  using reschedule_safe [of n Q s c] by (auto simp: reschedule_on_def send_ipi_def)

section \<open>Blocking steps\<close>

lemma left_idle_ok:
  assumes ok: "kernel_ok n Q s cas ws" and c: "c < n" and r: "trank s (k_on s ! c) \<noteq> IDLE" and ready: "snd (cas ! c) = e # ds"
    and sd: "dsame_data (k_elems s) (k_elems s')"
  shows "idle_ok (rank_of (k_elems s')) (cas[c := (e, ds)])" "c < length cas"
proof -
  note k = kernel_okD [OF ok]
  show cl: "c < length cas" using c k(2) by simp
  have "tlink s (k_on s ! c) = fst (cas ! c)" using places_on [OF kernel_inv_places [OF k(1)] cl] by simp
  then have r': "rank_of (k_elems s) (fst (cas ! c)) \<noteq> IDLE" using r by (simp add: trank_def)
  have "e \<noteq> 0" "0 \<notin> set ds" using sched_at(3) [OF kernel_inv_rep [OF k(1)] cl] ready by auto
  then have m: "x \<in> members (e, ds)" if "x \<in> members (cas ! c)" "x \<noteq> fst (cas ! c)" for x
    using that ready by (auto simp: members_def split: if_splits)
  show "idle_ok (rank_of (k_elems s')) (cas[c := (e, ds)])"
    unfolding rank_of_dsame_data [OF sd] by (rule idle_ok_update [OF k(6) cl]) (use m r' in blast)
qed

lemma next_ready:
  assumes inv: "kernel_inv s cas ws" and c: "c < length cas" and ready: "snd (cas ! c) = e # ds"
  shows "tstate s (thread_of s e) = READY" "tstate s (k_on s ! c) = RUNNING" "thread_of s e \<noteq> k_on s ! c"
    "thread_of s e \<in> dom (k_threads s)"
proof -
  have e: "e \<in> members (cas ! c)" "e \<noteq> fst (cas ! c)"
    using ready queue_distinct(2) [OF kernel_inv_rep [OF inv] c] by (auto simp: members_def)
  obtain th where th: "k_threads s (thread_of s e) = Some th" "th_state th = READY"
    using member_thread_of [OF inv c e(1)] e(2) by metis
  then show "tstate s (thread_of s e) = READY" "thread_of s e \<in> dom (k_threads s)" by auto
  show "tstate s (k_on s ! c) = RUNNING" using places_on [OF kernel_inv_places [OF inv] c] by simp
  then show "thread_of s e \<noteq> k_on s ! c" using th by auto
qed

lemma blocked_joins:
  assumes inv: "kernel_inv s cas ws" and c: "c < length cas" and ready: "snd (cas ! c) = e # ds" and jo: "joins_ok s"
    and j: "same_joining s s'" and st: "tstate s' = (tstate s)(k_on s ! c := x, thread_of s e := RUNNING)" "x \<noteq> FINISHING"
  shows "joins_ok s'"
  using next_ready [OF inv c ready] st by (intro joins_ok_cong [OF jo j]) (auto split: if_splits)

lemma suspend_safe:
  assumes "safe n Q s" and c: "c < n" and r: "trank s (k_on s ! c) \<noteq> IDLE"
  shows "\<exists>s'. thread_suspend c (k_on s ! c) s = Some s' \<and> safe n Q s'"
proof -
  obtain cas ws where ok: "kernel_ok n Q s cas ws" using assms(1) unfolding safe_def by blast
  note k = kernel_okD [OF ok]
  obtain e ds where ready: "snd (cas ! c) = e # ds" using ready_nonempty [OF ok c r] .
  have cl: "c < length cas" using c k(2) by simp
  obtain s' where s': "thread_suspend c (k_on s ! c) s = Some s'" "kernel_inv s' (cas[c := (e, ds)]) ws"
    "tstate s' = (tstate s)(k_on s ! c := SUSPENDED, thread_of s e := RUNNING)" "same_fix s s'" "dsame_data (k_elems s) (k_elems s')"
    using suspend_self_ok [OF k(1) cl ready] by blast
  have "kernel_ok n Q s' (cas[c := (e, ds)]) ws"
    using s'(2) k(2,3) settled_dsame [OF k(4) s'(5)] left_idle_ok(1) [OF ok c r ready s'(5)]
      blocked_joins [OF k(1) cl ready k(5) same_fix_joining [OF s'(4)] s'(3)] by (simp add: kernel_ok_def)
  then show ?thesis using s'(1) unfolding safe_def by blast
qed

lemma sleep_safe:
  assumes "safe n Q s" and c: "c < n" and r: "trank s (k_on s ! c) \<noteq> IDLE" and q: "q \<in> Q"
  shows "\<exists>s'. thread_sleep c q s = Some s' \<and> safe n Q s'"
proof -
  obtain cas ws where ok: "kernel_ok n Q s cas ws" using assms(1) unfolding safe_def by blast
  note k = kernel_okD [OF ok]
  obtain e ds where ready: "snd (cas ! c) = e # ds" using ready_nonempty [OF ok c r] .
  obtain as where as: "ws q = Some as" using q k(3) by blast
  have cl: "c < length cas" using c k(2) by simp
  let ?bs = "rank_place (rank_of (k_elems s)) (fst (cas ! c)) as"
  obtain s' where s': "thread_sleep c q s = Some s'" "kernel_inv s' (cas[c := (e, ds)]) (ws(q \<mapsto> ?bs))"
    "tstate s' = (tstate s)(k_on s ! c := WAITING, thread_of s e := RUNNING)" "same_joining s s'" "dsame_data (k_elems s) (k_elems s')"
    using sleep_ok [OF k(1) cl ready as] by blast
  have "kernel_ok n Q s' (cas[c := (e, ds)]) (ws(q \<mapsto> ?bs))"
    using s'(2) k(2,3) q settled_dsame [OF k(4) s'(5)] left_idle_ok(1) [OF ok c r ready s'(5)]
      blocked_joins [OF k(1) cl ready k(5) s'(4,3)] by (simp add: kernel_ok_def insert_absorb)
  then show ?thesis using s'(1) unfolding safe_def by blast
qed

section \<open>Waking steps\<close>

lemma ready_idle_ok:
  assumes "idle_ok r cas" "c < length cas"
  shows "idle_ok r (cas[c := (fst (cas ! c), rank_place r' e (snd (cas ! c)))])"
  using assms by (intro idle_ok_update) (auto simp: members_def split: if_splits)

lemma wake_first_kernel_ok:
  assumes ok: "kernel_ok n Q s cas ws" and q: "ws q = Some (e # as)"
  defines "t \<equiv> thread_of s e"
  defines "c \<equiv> tqueue s t"
  shows "\<exists>s' cas'. wake_first q s = Some (s', c) \<and> kernel_ok n Q s' cas' (ws(q \<mapsto> as)) \<and> c < n \<and> tstate s t = WAITING \<and>
    tstate s' = (tstate s)(t := READY) \<and> k_on s' = k_on s \<and> twait s t = q \<and> twait s' = (twait s)(t := 0)"
proof -
  note k = kernel_okD [OF ok] and w = wake_first_ok [OF kernel_okD(1) [OF ok] q, folded t_def, folded c_def]
  obtain s' where s': "wake_first q s = Some (s', c)"
    "kernel_inv s' (cas[c := (fst (cas ! c), rank_place (rank_of (k_elems s)) e (snd (cas ! c)))]) (ws(q \<mapsto> as))"
    "tstate s' = (tstate s)(t := READY)" "dsame_data (k_elems s) (k_elems s')" "k_on s' = k_on s" "same_joining s s'"
    "c < length cas" "tstate s t = WAITING" "twait s t = q" "twait s' = (twait s)(t := 0)"
    using w by blast
  have "joins_ok s'" using s'(3,8) by (intro joins_ok_cong [OF k(5) s'(6)]) (auto split: if_splits)
  then show ?thesis
    using s' k(2,3) q settled_dsame [OF k(4) s'(4)] ready_idle_ok [OF k(6) s'(7), of "rank_of (k_elems s)" e] rank_of_dsame_data [OF s'(4)]
    by (auto simp: kernel_ok_def intro!: exI [of _ s'])
qed

lemma wait_queue_empty:
  assumes ok: "kernel_ok n Q s cas ws" and q: "ws q = Some as"
  shows "queue_is_empty q s = Some (as = [])"
proof -
  obtain l where l: "q \<noteq> 0" "k_queues s q = Some l" "list_rep (k_elems s) l as"
    using waits_repD [OF kernel_repD(2) [OF kernel_inv_rep [OF kernel_okD(1) [OF ok]]] q] by blast
  then show ?thesis by (simp add: queue_is_empty_def store_simps list_rep_empty)
qed

lemma wakeup_safe:
  assumes "safe n Q s" and c: "c < n" and q: "q \<in> Q"
  shows "\<exists>s'. thread_wakeup c q s = Some s' \<and> safe n Q s'"
proof -
  obtain cas ws where ok: "kernel_ok n Q s cas ws" using assms(1) unfolding safe_def by blast
  obtain as where as: "ws q = Some as" using q kernel_okD(3) [OF ok] by blast
  show ?thesis
  proof (cases as)
    case Nil
    then show ?thesis using assms(1) wait_queue_empty [OF ok as] by (simp add: thread_wakeup_def)
  next
    case (Cons e bs)
    then obtain s1 where s1: "wake_first q s = Some (s1, tqueue s (thread_of s e))" "safe n Q s1"
      using wake_first_kernel_ok [OF ok, of q e bs] as unfolding safe_def by blast
    then show ?thesis
      using wait_queue_empty [OF ok as] Cons reschedule_on_safe [OF s1(2) c] by (simp add: thread_wakeup_def)
  qed
qed

text \<open>The loop of \<open>wakeup_all\<close> ends with the queue empty.\<close>

lemma wake_loop_ok:
  "kernel_ok n Q s cas ws \<Longrightarrow> ws q = Some as \<Longrightarrow>
   \<exists>s' cas' cpus'. wake_loop q s cpus = Some (s', cpus') \<and> kernel_ok n Q s' cas' (ws(q \<mapsto> [])) \<and>
     (\<forall>c \<in> cpus'. c \<in> cpus \<or> c < n)"
proof (induction as arbitrary: s cas ws cpus)
  case Nil
  have "ws(q \<mapsto> []) = ws" using Nil.prems(2) by (simp add: fun_upd_idem)
  then show ?case using Nil wait_queue_empty [OF Nil.prems] by (auto simp: wake_loop.simps)
next
  case (Cons e as)
  obtain s1 cas1 c where s1: "wake_first q s = Some (s1, c)" "kernel_ok n Q s1 cas1 (ws(q \<mapsto> as))" "c < n"
    using wake_first_kernel_ok [OF Cons.prems] by blast
  obtain s' cas' cpus' where s': "wake_loop q s1 (insert c cpus) = Some (s', cpus')" "kernel_ok n Q s' cas' (ws(q \<mapsto> []))"
    "\<forall>c' \<in> cpus'. c' \<in> insert c cpus \<or> c' < n"
    using Cons.IH [OF s1(2) fun_upd_same, of "insert c cpus"] unfolding fun_upd_upd by blast
  have "wake_loop q s cpus = Some (s', cpus')"
    by (subst wake_loop.simps) (simp add: wait_queue_empty [OF Cons.prems] s1(1) s'(1))
  moreover have "\<forall>c' \<in> cpus'. c' \<in> cpus \<or> c' < n" using s'(3) s1(3) by auto
  ultimately show ?case using s'(2) by blast
qed

lemma reschedule_each_safe: "safe n Q s \<Longrightarrow> c < n \<Longrightarrow> \<exists>s'. reschedule_each c cpus is s = Some s' \<and> safe n Q s'"
proof (induction "is" arbitrary: s)
  case (Cons i "is")
  obtain s1 where s1: "(if i \<in> cpus then reschedule_on c i s else Some s) = Some s1" "safe n Q s1"
    using reschedule_on_safe [OF Cons.prems, of i] Cons.prems(1) by (cases "i \<in> cpus") auto
  then show ?case using Cons.IH [OF s1(2) Cons.prems(2)] by (simp add: s1(1))
qed simp

lemma wakeup_all_safe:
  assumes "safe n Q s" and c: "c < n" and q: "q \<in> Q"
  shows "\<exists>s'. thread_wakeup_all c q s = Some s' \<and> safe n Q s'"
proof -
  obtain cas ws where ok: "kernel_ok n Q s cas ws" using assms(1) unfolding safe_def by blast
  obtain as where as: "ws q = Some as" using q kernel_okD(3) [OF ok] by blast
  obtain s1 cpus' where s1: "wake_loop q s {} = Some (s1, cpus')" "safe n Q s1"
    using wake_loop_ok [OF ok as, of "{}"] unfolding safe_def by blast
  show ?thesis
    using wait_queue_empty [OF ok as] s1 reschedule_each_safe [OF s1(2) c] assms(1)
    by (cases "as = []") (auto simp: thread_wakeup_all_def)
qed

lemma resume_safe:
  assumes "safe n Q s" and c: "c < n" and t: "k_threads s t = Some th"
    and nj: "\<And>u. tjoin s u \<noteq> t"
  shows "\<exists>s'. thread_resume c t s = Some s' \<and> safe n Q s'"
proof -
  obtain cas ws where ok: "kernel_ok n Q s cas ws" using assms(1) unfolding safe_def by blast
  note k = kernel_okD [OF ok]
  have t0: "t \<noteq> 0" using links_okD [OF kernel_repD(3) [OF kernel_inv_rep [OF k(1)]] t] by simp
  show ?thesis
  proof (cases "th_state th = SUSPENDED")
    case False
    then show ?thesis using assms(1) t t0 by (simp add: thread_resume_def store_simps)
  next
    case True
    let ?s0 = "s\<lparr>k_threads := (k_threads s)(t \<mapsto> th\<lparr>th_state := READY\<rparr>)\<rparr>"
    note r = resume_ready [OF k(1) t True]
    obtain s1 where s1: "sch_resume t ?s0 = Some s1" "moved ?s0 s1"
      "kernel_inv s1 (cas[tqueue s t := (fst (cas ! tqueue s t), rank_place (rank_of (k_elems s)) (th_link th) (snd (cas ! tqueue s t)))]) ws"
      "tstate s1 = (tstate s)(t := READY)" "thread_criterion t s1 \<noteq> None"
      using r(3) by blast
    note m = movedD [OF s1(2)]
    have sd: "dsame_data (k_elems s) (k_elems s1)" using m(11) by simp
    have jo: "joins_ok s1"
    proof (rule joins_ok_cong [OF k(5)])
      show "same_joining s s1" using m(1) t by (auto simp: same_joining_def)
      show "tstate s1 (tjoin s u) = SUSPENDED" if "tjoin s u \<noteq> 0" "tstate s (tjoin s u) = SUSPENDED" for u
        using nj [of u] that s1(4) by auto
      show "tstate s u = FINISHING" if "tstate s1 u = FINISHING" for u using that s1(4) by (auto split: if_splits)
    qed
    have "idle_ok (rank_of (k_elems s1)) (cas[tqueue s t := (fst (cas ! tqueue s t), rank_place (rank_of (k_elems s)) (th_link th) (snd (cas ! tqueue s t)))])"
      unfolding rank_of_dsame_data [OF sd] by (rule ready_idle_ok [OF k(6) r(1)])
    then have s2: "safe n Q s1"
      using s1(3) k(2,3) settled_dsame [OF k(4) sd] jo unfolding safe_def kernel_ok_def by (metis length_list_update)
    show ?thesis
      using t t0 True r(2) s1(1,5) reschedule_on_safe [OF s2 c]
      by (auto simp: thread_resume_def store_simps)
  qed
qed

section \<open>Join and exit\<close>

lemma joinsD: "joins J st \<Longrightarrow> J t \<noteq> 0 \<Longrightarrow> J t \<noteq> t \<and> st t \<noteq> FINISHING \<and> st (J t) = SUSPENDED"
  unfolding joins_def by blast

lemma joins_inj: "joins J st \<Longrightarrow> J t = J u \<Longrightarrow> J t \<noteq> 0 \<Longrightarrow> t = u"
  unfolding joins_def by blast

lemma joins_join:
  assumes "joins J st" "J t = 0" "r \<noteq> t" "r \<noteq> 0" "st r = RUNNING" "st x = READY" "st t \<noteq> FINISHING"
  shows "joins (J(t := r)) (st(r := SUSPENDED, x := RUNNING))"
proof -
  have a: "J u \<noteq> r" "J u \<noteq> x" if "J u \<noteq> 0" for u using assms that by (auto simp: joins_def)
  have b: "x \<noteq> r" using assms by auto
  show ?thesis
    unfolding joins_def
  proof (intro conjI allI impI)
    fix u
    assume u: "(J(t := r)) u \<noteq> 0"
    show "(J(t := r)) u \<noteq> u" using assms(2-7) u joinsD [OF assms(1), of u] by (cases "u = t") auto
    show "(st(r := SUSPENDED, x := RUNNING)) u \<noteq> FINISHING" using assms(2-7) u joinsD [OF assms(1), of u] by (cases "u = t") auto
    show "(st(r := SUSPENDED, x := RUNNING)) ((J(t := r)) u) = SUSPENDED"
      using assms(2-7) u a [of u] b joinsD [OF assms(1), of u] by (cases "u = t") auto
  next
    fix u v
    assume "(J(t := r)) u = (J(t := r)) v" "(J(t := r)) u \<noteq> 0"
    then show "u = v" using a [of u] a [of v] joins_inj [OF assms(1), of u v] assms(2,4) by (cases "u = t"; cases "v = t") auto
  qed
qed

lemma joins_exit:
  assumes "joins J st" "st t = RUNNING" "st x = READY \<or> x = J t"
  shows "joins (J(t := 0)) ((if J t = 0 then st(t := FINISHING) else st(t := FINISHING, J t := READY))(x := RUNNING))"
  unfolding joins_def
proof (intro conjI allI impI)
  fix u
  let ?st = "(if J t = 0 then st(t := FINISHING) else st(t := FINISHING, J t := READY))(x := RUNNING)"
  assume u0: "(J(t := 0)) u \<noteq> 0"
  then have u: "u \<noteq> t" "J u \<noteq> 0" by (auto split: if_splits)
  have f: "J u \<noteq> u" "st u \<noteq> FINISHING" "st (J u) = SUSPENDED" "J t \<noteq> J u"
    using joinsD [OF assms(1) u(2)] joins_inj [OF assms(1), of u t] u by auto
  show "(J(t := 0)) u \<noteq> u" using f u by simp
  show "?st u \<noteq> FINISHING" using f u by auto
  have "J u \<noteq> t" "J u \<noteq> x" using f assms(2,3) by auto
  then show "?st ((J(t := 0)) u) = SUSPENDED" using f u by auto
next
  fix u v
  assume "(J(t := 0)) u = (J(t := 0)) v" "(J(t := 0)) u \<noteq> 0"
  then show "u = v" using joins_inj [OF assms(1), of u v] by (cases "u = t"; cases "v = t") auto
qed

lemma join_safe:
  assumes "safe n Q s" and c: "c < n" and r: "trank s (k_on s ! c) \<noteq> IDLE"
    and t: "k_threads s t = Some th" "tjoin s t = 0" "t \<noteq> k_on s ! c"
  shows "\<exists>s'. thread_join c t s = Some s' \<and> safe n Q s'"
proof (cases "th_state th = FINISHING")
  case True
  obtain cas ws where ok: "kernel_ok n Q s cas ws" using assms(1) unfolding safe_def by blast
  note k = kernel_okD [OF ok]
  have "t \<noteq> 0" using links_okD [OF kernel_repD(3) [OF kernel_inv_rep [OF k(1)]] t(1)] by simp
  then show ?thesis
    using running_is [OF k(1), of c] c k(2) t True assms(1) by (auto simp: thread_join_def store_simps)
next
  case False
  obtain cas ws where ok: "kernel_ok n Q s cas ws" using assms(1) unfolding safe_def by blast
  note k = kernel_okD [OF ok]
  obtain e ds where ready: "snd (cas ! c) = e # ds" using ready_nonempty [OF ok c r] .
  have cl: "c < length cas" using c k(2) by simp
  have j0: "th_joining th = 0" using t by simp
  let ?r = "k_on s ! c"
  obtain s' where s': "thread_join c t s = Some s'" "kernel_inv s' (cas[c := (e, ds)]) ws"
    "tstate s' = (tstate s)(?r := SUSPENDED, thread_of s e := RUNNING)"
    "same_fix (s\<lparr>k_threads := (k_threads s)(t \<mapsto> th\<lparr>th_joining := ?r\<rparr>)\<rparr>) s'" "dsame_data (k_elems s) (k_elems s')"
    using join_ok [OF k(1) cl ready t(1) False j0 t(3)] by blast
  have J: "tjoin s' = (tjoin s)(t := ?r)"
    using tjoin_same [OF same_fix_joining [OF s'(4)]] t(1) by (auto simp: tjoin_def fun_eq_iff)
  have "k_on s ! c \<noteq> 0" using running_on [OF k(1) cl] by metis
  then have "joins_ok s'"
    using joins_join [of "tjoin s" "tstate s" t ?r "thread_of s e"] k(5) t False next_ready [OF k(1) cl ready] s'(3) J
    by (auto simp: joins_ok_def)
  then have "kernel_ok n Q s' (cas[c := (e, ds)]) ws"
    using s'(2) k(2,3) settled_dsame [OF k(4) s'(5)] left_idle_ok(1) [OF ok c r ready s'(5)] by (simp add: kernel_ok_def)
  then show ?thesis using s'(1) unfolding safe_def by blast
qed

lemma pair_elect_members:
  assumes "e \<noteq> 0" "0 \<notin> set ds"
  shows "members (queue_elect r (e, ds)) = members (e, ds)" "fst (queue_elect r (e, ds)) \<in> insert e (set ds)"
proof -
  show m: "members (queue_elect r (e, ds)) = members (e, ds)" using members_queue_elect [of "(e, ds)" r] assms by simp
  have "fst (queue_elect r (e, ds)) \<noteq> 0" using fst_member [of "(e, ds)" r] assms by simp
  then have "fst (queue_elect r (e, ds)) \<in> members (e, ds)" using m members_pair by blast
  then show "fst (queue_elect r (e, ds)) \<in> insert e (set ds)" using assms by (simp add: members_def)
qed

lemma exit_safe:
  assumes "safe n Q s" and c: "c < n" and r: "trank s (k_on s ! c) \<noteq> IDLE"
  shows "\<exists>s'. thread_exit c status s = Some s' \<and> safe n Q s' \<and> join_value (k_on s ! c) s' = Some status \<and>
    tstate s' (k_on s ! c) = FINISHING \<and> k_on s' ! c \<noteq> k_on s ! c \<and> tjoin s' (k_on s ! c) = 0 \<and>
    (tjoin s (k_on s ! c) \<noteq> 0 \<longrightarrow> active (tstate s' (tjoin s (k_on s ! c)))) \<and>
    (\<forall>u. tstate s' u = WAITING \<longleftrightarrow> tstate s u = WAITING) \<and> twait s' = twait s"
proof -
  obtain cas ws where ok: "kernel_ok n Q s cas ws" using assms(1) unfolding safe_def by blast
  note k = kernel_okD [OF ok]
  obtain e ds where ready: "snd (cas ! c) = e # ds" using ready_nonempty [OF ok c r] .
  have cl: "c < length cas" using c k(2) by simp
  let ?t = "k_on s ! c"
  obtain p where p: "k_threads s ?t = Some p" using running_on [OF k(1) cl] by metis
  have z: "e \<noteq> 0" "0 \<notin> set ds" using sched_at(3) [OF kernel_inv_rep [OF k(1)] cl] ready by auto
  have ready_st: "tstate s (thread_of s x) = READY" if "x \<in> set (e # ds)" for x
  proof -
    have "x \<in> members (cas ! c)" "x \<noteq> fst (cas ! c)"
      using that ready queue_distinct(2) [OF kernel_inv_rep [OF k(1)] cl] by (auto simp: members_def)
    then show ?thesis using member_thread_of [OF k(1) cl, of x] by (metis tfields(2))
  qed
  have run: "tstate s ?t = RUNNING" using next_ready [OF k(1) cl ready] by simp
  show ?thesis
  proof (cases "th_joining p = 0")
    case True
    let ?ca = "queue_elect (rank_of (k_elems s)) (e, ds)"
    obtain s' where s': "thread_exit c status s = Some s'" "kernel_inv s' (cas[c := ?ca]) ws"
      "k_on s' = (k_on s)[c := thread_of s (fst ?ca)]" "tstate s' = (tstate s)(?t := FINISHING, thread_of s (fst ?ca) := RUNNING)" "join_value ?t s' = Some status"
      "dsame_data (k_elems s) (k_elems s')" "same_fix (s\<lparr>k_threads := (k_threads s)(?t \<mapsto> p\<lparr>th_status := status\<rparr>)\<rparr>) s'"
      using exit_ok [OF k(1) cl ready p True] by blast
    have J: "tjoin s' = (tjoin s)(?t := 0)"
      using tjoin_same [OF same_fix_joining [OF s'(7)]] p True by (auto simp: tjoin_def fun_eq_iff)
    have "tstate s (thread_of s (fst ?ca)) = READY" using ready_st pair_elect_members(2) [OF z] by simp
    then have jo: "joins_ok s'"
      using joins_exit [of "tjoin s" "tstate s" ?t "thread_of s (fst ?ca)"] k(5) run J s'(4) p True by (simp add: joins_ok_def)
    have "idle_ok (rank_of (k_elems s')) (cas[c := ?ca])"
      using idle_ok_update [OF left_idle_ok(1) [OF ok c r ready s'(6)], of c ?ca] cl pair_elect_members(1) [OF z] by simp
    then have kok: "kernel_ok n Q s' (cas[c := ?ca]) ws"
      using s'(2) k(2,3) settled_dsame [OF k(4) s'(6)] jo by (simp add: kernel_ok_def)
    have "thread_of s (fst ?ca) \<noteq> ?t" using run \<open>tstate s (thread_of s (fst ?ca)) = READY\<close> by auto
    moreover have "k_on s' ! c = thread_of s (fst ?ca)" using s'(3) cl places_len [OF kernel_inv_places [OF k(1)]] by simp
    moreover have "twait s' = twait s"
      using twait_fix [OF s'(7)] thread_upd_fields(4) [OF p, of "p\<lparr>th_status := status\<rparr>"] p by (simp add: fun_upd_idem)
    moreover have "tstate s' u = WAITING \<longleftrightarrow> tstate s u = WAITING" for u
      using s'(4) run \<open>tstate s (thread_of s (fst ?ca)) = READY\<close> by auto
    moreover have "tjoin s' ?t = 0" "tjoin s ?t = 0" "tstate s' ?t = FINISHING"
      using J p True s'(4) \<open>thread_of s (fst ?ca) \<noteq> ?t\<close> by simp_all
    moreover have "safe n Q s'" unfolding safe_def by (intro exI) (rule kok)
    ultimately show ?thesis using s'(1,5) by (intro exI [of _ s'] conjI allI impI) simp_all
  next
    case False
    let ?j = "th_joining p"
    have jd: "tjoin s ?t = ?j" "tstate s ?j = SUSPENDED" using joins_okD [OF k(5), of ?t] p False by auto
    then obtain jh where jh: "k_threads s ?j = Some jh" by (cases "k_threads s ?j") (auto simp: tstate_def)
    define d where "d = tqueue s ?j"
    define cas2 where "cas2 = (cas[c := (e, ds)])[d := (fst (cas[c := (e, ds)] ! d),
        rank_place (rank_of (k_elems s)) (th_link jh) (snd (cas[c := (e, ds)] ! d)))]"
    define ca where "ca = queue_elect (rank_of (k_elems s)) (cas2 ! c)"
    obtain s' where s': "thread_exit c status s = Some s'" "kernel_inv s' (cas2[c := ca]) ws"
      "k_on s' = (k_on s)[c := thread_of s (fst ca)]" "tstate s' = (tstate s)(?t := FINISHING, ?j := READY, thread_of s (fst ca) := RUNNING)" "join_value ?t s' = Some status"
      "dsame_data (k_elems s) (k_elems s')"
      "same_fix (s\<lparr>k_threads := (k_threads s)(?t \<mapsto> p\<lparr>th_status := status, th_joining := 0\<rparr>)\<rparr>) s'"
      using exit_joined_ok [OF k(1) cl ready k(5) p refl False jh, folded d_def, folded cas2_def, folded ca_def] by blast
    have J: "tjoin s' = (tjoin s)(?t := 0)"
      using tjoin_same [OF same_fix_joining [OF s'(7)]] p by (auto simp: tjoin_def fun_eq_iff)
    obtain xj where xj: "k_elems s (th_link jh) = Some xj" "obj xj = ?j" "th_link jh \<noteq> 0"
      using links_okD [OF kernel_repD(3) [OF kernel_inv_rep [OF k(1)]] jh] by auto
    have dl: "d < length cas"
      using kernel_repD(4) [OF kernel_inv_rep [OF k(1)]] xj jh by (simp add: d_def tqueue_def queues_ok_def)
    obtain ds' where c2: "cas2 ! c = (e, ds')" "set ds' \<subseteq> insert (th_link jh) (set ds)"
      using cl dl unfolding cas2_def by (cases "d = c") auto
    have z': "0 \<notin> set ds'" using c2(2) z xj(3) by auto
    have "fst ca \<in> insert e (set ds')" unfolding ca_def c2(1) by (rule pair_elect_members(2) [OF z(1) z'])
    then have "fst ca = th_link jh \<or> fst ca \<in> set (e # ds)" using c2(2) by auto
    then have "tstate s (thread_of s (fst ca)) = READY \<or> thread_of s (fst ca) = ?j" using ready_st xj by auto
    then have x: "thread_of s (fst ca) \<noteq> ?t" "tstate s (thread_of s (fst ca)) = READY \<or> thread_of s (fst ca) = ?j"
      using run jd(2) by auto
    then have jo: "joins_ok s'"
      using joins_exit [of "tjoin s" "tstate s" ?t "thread_of s (fst ca)"] k(5) run J s'(4) jd False by (simp add: joins_ok_def)
    have i2: "idle_ok (rank_of (k_elems s')) cas2"
      unfolding cas2_def using dl by (intro ready_idle_ok left_idle_ok(1) [OF ok c r ready s'(6)]) simp
    have "idle_ok (rank_of (k_elems s')) (cas2[c := ca])"
      using idle_ok_update [OF i2, of c ca] cl pair_elect_members(1) [OF z(1) z'] unfolding ca_def c2(1) by (simp add: cas2_def)
    then have kok: "kernel_ok n Q s' (cas2[c := ca]) ws"
      using s'(2) k(2,3) settled_dsame [OF k(4) s'(6)] jo by (simp add: kernel_ok_def cas2_def)
    have "k_on s' ! c = thread_of s (fst ca)" using s'(3) cl places_len [OF kernel_inv_places [OF k(1)]] by simp
    moreover have "?j \<noteq> ?t" using run jd(2) by auto
    moreover have "twait s' = twait s"
      using twait_fix [OF s'(7)] thread_upd_fields(4) [OF p, of "p\<lparr>th_status := status, th_joining := 0\<rparr>"] p by (simp add: fun_upd_idem)
    moreover have "tstate s' u = WAITING \<longleftrightarrow> tstate s u = WAITING" for u
    proof -
      have "tstate s (thread_of s (fst ca)) \<noteq> WAITING" using x(2) jd(2) by (elim disjE) simp_all
      then show ?thesis unfolding s'(4) using run jd(2) by (simp add: fun_upd_def)
    qed
    moreover have "tjoin s' ?t = 0" "tstate s' ?t = FINISHING" "active (tstate s' ?j)"
      using J s'(4) x(1) \<open>?j \<noteq> ?t\<close> by simp_all
    moreover have "safe n Q s'" unfolding safe_def by (intro exI) (rule kok)
    ultimately show ?thesis using s'(1,5) x(1) unfolding jd(1) by (intro exI [of _ s'] conjI allI impI) simp_all
  qed
qed

end
