(* ===== verification/Thread_Life.thy ===== *)
theory Thread_Life
  imports Thread_Machine
begin

text \<open>
  The operations on another thread than the running one: suspending a thread that is ready (on any CPU), passing the CPU on to a ready
  thread of the same queue, and creating a thread.
\<close>

section \<open>Places\<close>

text \<open>A ready thread leaves its queue.\<close>

lemma places_stop:
  assumes pl: "places T lk qu wt st on cas ws" and t: "t \<in> T" "st t = READY" "qu t = c" "c < length cas"
    and ds: "set ds = set (snd (cas ! c)) - {lk t}" and x: "x \<noteq> RUNNING" "x \<noteq> READY" "x \<noteq> WAITING"
  shows "places T lk qu wt (st(t := x)) on (cas[c := (fst (cas ! c), ds)]) ws"
proof -
  note ready = places_ready [OF pl] and inj = places_inj [OF pl]
  have in_ds: "lk u \<in> set ds \<longleftrightarrow> st u = READY \<and> qu u = c \<and> u \<noteq> t" if "u \<in> T" for u
    using ready [OF that t(4)] inj [OF that t(1)] ds by auto
  show ?thesis
    unfolding places_def length_list_update
  proof (intro conjI allI ballI impI)
    show "length on = length cas" "set on \<subseteq> T" "inj_on lk T" using pl by (simp_all add: places_def)
    show "lk (on ! d) = fst (cas[c := (fst (cas ! c), ds)] ! d)" "qu (on ! d) = d" if "d < length cas" for d
      using places_on [OF pl that] that t(4) by (cases "d = c"; simp)+
    show "set (snd (cas[c := (fst (cas ! c), ds)] ! d)) \<subseteq> lk ` T" if "d < length cas" for d
      using that ds places_ready_sub [OF pl that] by (cases "d = c") auto
    show "lk u \<in> set (snd (cas[c := (fst (cas ! c), ds)] ! d)) \<longleftrightarrow> (st(t := x)) u = READY \<and> qu u = d"
      if "u \<in> T" "d < length cas" for u d
      using that t x in_ds [OF that(1)] ready [OF that] by (cases "d = c") auto
    show "set bs \<subseteq> lk ` T" if "ws q = Some bs" for q bs using places_wait_sub [OF pl that] .
    show "lk u \<in> set bs \<longleftrightarrow> (st(t := x)) u = WAITING \<and> wt u = q" if "u \<in> T" "ws q = Some bs" for u q bs
      using places_waiting [OF pl that] t x by auto
    show "(st(t := x)) u = RUNNING \<longleftrightarrow> u \<in> set on" if "u \<in> T" for u
      using places_running [OF pl that] t x by auto
    show "qu u < length cas" if "u \<in> T" "(st(t := x)) u = READY" for u
      using that pl x by (auto simp: places_def split: if_splits)
    show "ws (wt u) \<noteq> None" if "u \<in> T" "(st(t := x)) u = WAITING" for u
      using that pl x by (auto simp: places_def split: if_splits)
  qed
qed

text \<open>A thread that is in no list is added.\<close>

lemma places_add:
  assumes pl: "places T lk qu wt st on cas ws" and t: "t \<notin> T" "lk' t \<notin> lk ` T" "x \<noteq> RUNNING" "x \<noteq> READY" "x \<noteq> WAITING"
    and same: "\<And>u. u \<in> T \<Longrightarrow> lk' u = lk u \<and> qu' u = qu u \<and> wt' u = wt u"
  shows "places (insert t T) lk' qu' wt' (st(t := x)) on cas ws"
proof -
  have img: "lk ` T \<subseteq> lk' ` insert t T" using same by force
  have notin: "lk' t \<notin> set as" if "set as \<subseteq> lk ` T" for as using that t(2) by blast
  have on: "on ! d \<in> T" if "d < length cas" for d using places_on [OF pl that] by simp
  show ?thesis
    unfolding places_def
  proof (intro conjI allI ballI impI)
    show "length on = length cas" using pl by (simp add: places_def)
    show "set on \<subseteq> insert t T" using pl by (auto simp: places_def)
    have "inj_on lk' T" using places_inj [OF pl] same by (auto simp: inj_on_def)
    moreover have "lk' t \<notin> lk' ` T" using t(2) same by force
    ultimately show "inj_on lk' (insert t T)" using t(1) by (simp add: inj_on_insert)
    show "lk' (on ! d) = fst (cas ! d)" "qu' (on ! d) = d" if "d < length cas" for d
      using places_on [OF pl that] same [OF on [OF that]] by simp_all
    show "set (snd (cas ! d)) \<subseteq> lk' ` insert t T" if "d < length cas" for d using places_ready_sub [OF pl that] img by blast
    show "lk' u \<in> set (snd (cas ! d)) \<longleftrightarrow> (st(t := x)) u = READY \<and> qu' u = d" if "u \<in> insert t T" "d < length cas" for u d
      using that t notin [OF places_ready_sub [OF pl that(2)]] places_ready [OF pl _ that(2), of u] same [of u] by (cases "u = t") auto
    show "set bs \<subseteq> lk' ` insert t T" if "ws q = Some bs" for q bs using places_wait_sub [OF pl that] img by blast
    show "lk' u \<in> set bs \<longleftrightarrow> (st(t := x)) u = WAITING \<and> wt' u = q" if "u \<in> insert t T" "ws q = Some bs" for u q bs
      using that t notin [OF places_wait_sub [OF pl that(2)]] places_waiting [OF pl _ that(2), of u] same [of u] by (cases "u = t") auto
    show "(st(t := x)) u = RUNNING \<longleftrightarrow> u \<in> set on" if "u \<in> insert t T" for u
      using that t places_running [OF pl, of u] places_on_sub [OF pl, of u] by (cases "u = t") auto
    show "qu' u < length cas" if "u \<in> insert t T" "(st(t := x)) u = READY" for u
      using that pl t same [of u] by (cases "u = t") (auto simp: places_def)
    show "ws (wt' u) \<noteq> None" if "u \<in> insert t T" "(st(t := x)) u = WAITING" for u
      using that pl t same [of u] by (cases "u = t") (auto simp: places_def)
  qed
qed

section \<open>Suspending a ready thread\<close>

lemma suspend_ready_ok:
  assumes inv: "kernel_inv s cas ws" and c: "c < length cas" and t: "k_threads s t = Some th" "th_state th = READY"
  defines "d \<equiv> tqueue s t"
  shows "d < length cas \<and> th_link th \<in> set (snd (cas ! d)) \<and>
    (\<exists>s'. thread_suspend c t s = Some s' \<and> kernel_inv s' (cas[d := (fst (cas ! d), remove1 (th_link th) (snd (cas ! d)))]) ws \<and>
      k_on s' = k_on s \<and> tstate s' = (tstate s)(t := SUSPENDED) \<and> twait s' = twait s \<and> same_joining s s' \<and>
      dsame_data (k_elems s) (k_elems s'))"
proof -
  note rep = kernel_inv_rep [OF inv] and pl = kernel_inv_places [OF inv]
  obtain x where x: "t \<noteq> 0" "th_link th \<noteq> 0" "k_elems s (th_link th) = Some x" "obj x = t"
    using links_okD [OF kernel_repD(3) [OF rep] t(1)] by auto
  have d: "d < length cas" using kernel_repD(4) [OF rep] x t(1) by (auto simp: d_def tqueue_def queues_ok_def)
  have e: "th_link th \<in> set (snd (cas ! d))" using places_ready [OF pl _ d, of t] t by (auto simp: d_def)
  define th' where "th' = th\<lparr>th_state := SUSPENDED\<rparr>"
  have l: "th_link th' = th_link th" by (simp add: th'_def)
  define s0 where "s0 = s\<lparr>k_threads := (k_threads s)(t \<mapsto> th')\<rparr>"
  note f = thread_upd_fields [OF t(1) l, folded s0_def]
  have u: "thread_upd t (\<lambda>t. t\<lparr>th_state := SUSPENDED\<rparr>) s = Some s0" using thread_upd_Some [OF t(1) x(1)] by (simp add: s0_def th'_def)
  have rep0: "kernel_rep s0 cas ws" unfolding s0_def by (rule kernel_rep_thread [OF rep t(1) l])
  let ?cas = "cas[d := (fst (cas ! d), remove1 (th_link th) (snd (cas ! d)))]"
  obtain s1 where s1: "sch_remove t s0 = Some (s1, t)" "moved s0 s1" "kernel_rep s1 ?cas ws"
    using sch_remove_ready_ok [OF rep0, of t th' d] f(2) l e d by (auto simp: s0_def d_def)
  note m = movedD [OF s1(2)]
  have sd: "dsame_data (k_elems s) (k_elems s1)" using m(11) f(6) by simp
  obtain p y where p: "k_threads s (k_on s ! c) = Some p" "k_elems s (th_link p) = Some y" "obj y = k_on s ! c" "fst (cas ! c) = th_link p"
    "th_link p \<noteq> 0" "thread_running c s = Some (k_on s ! c)"
    using running_on [OF inv c] by metis
  obtain z where z: "k_elems s1 (th_link p) = Some z" "obj z = k_on s ! c" using dsame_dataD [OF sd p(2)] p(3) by auto
  have "fst (?cas ! c) = fst (cas ! c)" using d by (cases "d = c") auto
  then have ch: "sch_chosen c s1 = Some (k_on s ! c)" using sch_chosen_ok [OF s1(3), of c z] z p(4,5) c by simp
  define s' where "s' = s1\<lparr>k_restarts := k_restarts s1 + 1\<rparr>"
  have "thread_suspend c t s = Some s'"
    using p(6) u s1(1) ch by (simp add: thread_suspend_def sch_suspend_def dispatch_def s'_def Let_def)
  moreover have st: "tstate s' = (tstate s)(t := SUSPENDED)" "twait s' = twait s" "k_on s' = k_on s"
    using m f t by (auto simp: s'_def th'_def fun_eq_iff)
  moreover have "kernel_inv s' ?cas ws"
  proof -
    have "set (remove1 (th_link th) (snd (cas ! d))) = set (snd (cas ! d)) - {tlink s t}"
      using queue_distinct(1) [OF rep d] t by simp
    then have "places (dom (k_threads s)) (tlink s) (tqueue s) (twait s) ((tstate s)(t := SUSPENDED)) (k_on s) ?cas ws"
      using t d by (intro places_stop [OF pl]) (auto simp: d_def)
    moreover have "th_saved uh \<longleftrightarrow> v \<notin> set (k_on s)" if "k_threads s' v = Some uh" for v uh
      using saved_upd [OF inv t(1) _ that, of th'] m(1) by (simp add: s'_def s0_def th'_def)
    ultimately show ?thesis using s1(3) st m f by (simp add: kernel_inv_def s'_def)
  qed
  moreover have "same_joining s s'" using m(1) t by (auto simp: same_joining_def s'_def s0_def th'_def)
  moreover have "dsame_data (k_elems s) (k_elems s')" using sd by (simp add: s'_def)
  ultimately show ?thesis using d e by blast
qed

lemma suspend_ready_safe:
  assumes "safe n Q s" and c: "c < n" and t: "k_threads s t = Some th" "th_state th = READY" "trank s t \<noteq> IDLE"
  shows "\<exists>s'. thread_suspend c t s = Some s' \<and> safe n Q s' \<and> k_on s' = k_on s \<and> tstate s' = (tstate s)(t := SUSPENDED) \<and> twait s' = twait s"
proof -
  obtain cas ws where ok: "kernel_ok n Q s cas ws" using assms(1) unfolding safe_def by blast
  note k = kernel_okD [OF ok]
  let ?d = "tqueue s t"
  let ?cas = "cas[?d := (fst (cas ! ?d), remove1 (th_link th) (snd (cas ! ?d)))]"
  have c': "c < length cas" using c k(2) by simp
  obtain s' where s': "thread_suspend c t s = Some s'" "kernel_inv s' ?cas ws" "k_on s' = k_on s" "tstate s' = (tstate s)(t := SUSPENDED)"
    "twait s' = twait s" "same_joining s s'" "dsame_data (k_elems s) (k_elems s')" "?d < length cas"
    using suspend_ready_ok [OF k(1) c' t(1,2)] by blast
  have "joins_ok s'" by (rule joins_ok_cong [OF k(5) s'(6)]) (simp_all add: s'(4) split: if_splits)
  moreover have "e \<in> members (fst (cas ! ?d), remove1 (th_link th) (snd (cas ! ?d)))"
    if "e \<in> members (cas ! ?d)" "rank_of (k_elems s) e = IDLE" for e
  proof -
    have "e \<noteq> th_link th" using that(2) t by (auto simp: trank_def)
    then show ?thesis using that(1) by (auto simp: members_def split: if_splits)
  qed
  then have "idle_ok (rank_of (k_elems s')) ?cas"
    unfolding rank_of_dsame_data [OF s'(7)] using k(6) s'(8) by (intro idle_ok_update)
  ultimately have "kernel_ok n Q s' ?cas ws" using s'(2) k(2,3) settled_dsame [OF k(4) s'(7)] by (simp add: kernel_ok_def)
  then show ?thesis using s' unfolding safe_def by blast
qed

section \<open>Passing the CPU on\<close>

lemma ml_choose_elem_rep:
  assumes mr: "multilist_rep h ls cas" and q: "q < length cas" and c: "fst (cas ! q) \<noteq> 0"
    and x: "h (fst (cas ! q)) = Some x" "squeue x = q" and e: "e \<in> set (snd (cas ! q))" "h e = Some y" "squeue y = q"
  shows "\<exists>r ds. ml_choose_elem single_head q h ls e = map_option (\<lambda>(k, ms). (k, ms, e)) r \<and> ml_becomes h cas q (e, ds) r \<and>
    members (e, ds) = members (cas ! q) \<and> e \<notin> set ds"
proof -
  note sub = multilist_sched [OF mr q]
  have e0: "e \<noteq> 0" using sub e(1) by (auto simp: sched_rep_def dest: list_rep_nonnull)
  have nd: "distinct (snd (cas ! q))" "fst (cas ! q) \<notin> set (snd (cas ! q))" using sub by (auto simp: sched_rep_def list_rep_def)
  obtain h' s us vs where t: "sc_choose_elem h (ls ! q) e = Some (h', s, e)" "rank_place (rank_of h) (fst (cas ! q)) (snd (cas ! q)) = us @ e # vs"
    "sched_rep h' s e (us @ vs)" "dsame_data h h'" "same_outside (insert (fst (cas ! q)) (set (snd (cas ! q)))) h h'"
    using sc_choose_elem_rep [OF sub e(1)] by blast
  have "insert (fst (cas ! q)) (set (snd (cas ! q))) = set (us @ e # vs)" unfolding t(2) [symmetric] by simp
  then have m: "members (e, us @ vs) = members (cas ! q)" using c e0 by (auto simp: members_def)
  have "distinct (us @ e # vs)" unfolding t(2) [symmetric] by (rule distinct_rank_place [OF nd])
  then have "e \<notin> set (us @ vs)" by simp
  moreover have "ml_choose_elem single_head q h ls e = map_option (\<lambda>(k, ms). (k, ms, e)) (Some (h', ls[q := s]))"
    using ml_migrate_none [OF mr q c x] t(1) multilist_at [OF mr q] e e0 by (simp add: ml_choose_elem_def single_head_def store_simps)
  moreover have "ml_becomes h cas q (e, us @ vs) (Some (h', ls[q := s]))"
  proof (rule ml_becomes_local [OF mr q _ t(4) _ _ refl])
    show "sched_rep h' s (fst (e, us @ vs)) (snd (e, us @ vs))" using t(3) by simp
    show "same_outside (members (cas ! q)) h h'" using t(5) c by (simp add: members_def)
  qed (simp add: m)
  ultimately show ?thesis using m by blast
qed

lemma pass_ok:
  assumes inv: "kernel_inv s cas ws" and c: "c < length cas" and t: "k_threads s t = Some th" "th_state th = READY" "tqueue s t = c"
  shows "\<exists>s' ds. thread_pass c t s = Some s' \<and> kernel_inv s' (cas[c := (th_link th, ds)]) ws \<and> switches s c t s' \<and>
    members (th_link th, ds) = members (cas ! c)"
proof -
  note rep = kernel_inv_rep [OF inv] and pl = kernel_inv_places [OF inv]
  obtain y where y: "t \<noteq> 0" "th_link th \<noteq> 0" "k_elems s (th_link th) = Some y" "obj y = t"
    using links_okD [OF kernel_repD(3) [OF rep] t(1)] by auto
  have e: "th_link th \<in> set (snd (cas ! c))" "squeue y = c" using places_ready [OF pl _ c, of t] t y by (auto simp: tqueue_def)
  obtain p x where p: "k_elems s (fst (cas ! c)) = Some x" "squeue x = c" "fst (cas ! c) \<noteq> 0" "thread_running c s = Some (k_on s ! c)"
    using running_on [OF inv c] by metis
  obtain r ds where r: "ml_choose_elem single_head c (k_elems s) (k_sched s) (th_link th) = map_option (\<lambda>(k, ms). (k, ms, th_link th)) r"
    "ml_becomes (k_elems s) cas c (th_link th, ds) r" "members (th_link th, ds) = members (cas ! c)" "th_link th \<notin> set ds"
    using ml_choose_elem_rep [OF kernel_repD(1) [OF rep] c p(3,1,2) e(1) y(3) e(2)] by blast
  obtain h ls where s1: "r = Some (h, ls)" "kernel_rep (s\<lparr>k_elems := h, k_sched := ls\<rparr>) (cas[c := (th_link th, ds)]) ws"
    "moved s (s\<lparr>k_elems := h, k_sched := ls\<rparr>)"
    using moved_rep [OF rep c r(2) waits_disjoint_sub [OF rep c]] r(3) by auto
  have op: "sch_choose_thread c t s = Some (s\<lparr>k_elems := h, k_sched := ls\<rparr>, t)"
    using t(1) y(1,2) r(1) s1(1) by (simp add: sch_choose_thread_def store_simps)
  have "\<exists>s'. dispatch c (k_on s ! c) t False (s\<lparr>k_elems := h, k_sched := ls\<rparr>) = Some s' \<and> kernel_inv s' (cas[c := (th_link th, ds)]) ws \<and> switches s c t s'"
    using elect_dispatch [OF inv c s1(3,2) _ _ _ t(1), of False] r(3,4) y(2) by simp
  then show ?thesis using op p(4) y(1) r(3) by (auto simp: thread_pass_def)
qed

lemma pass_safe:
  assumes "safe n Q s" and c: "c < n" and t: "k_threads s t = Some th" "th_state th = READY" "tqueue s t = c"
  shows "\<exists>s'. thread_pass c t s = Some s' \<and> safe n Q s' \<and> k_on s' = (k_on s)[c := t] \<and> same_inactive s s'"
proof -
  obtain cas ws where ok: "kernel_ok n Q s cas ws" using assms(1) unfolding safe_def by blast
  note k = kernel_okD [OF ok]
  have cl: "c < length cas" using c k(2) by simp
  obtain s' ds where s': "thread_pass c t s = Some s'" "kernel_inv s' (cas[c := (th_link th, ds)]) ws" "switches s c t s'"
    "members (th_link th, ds) = members (cas ! c)"
    using pass_ok [OF k(1) cl t] by blast
  obtain x where x: "th_link th \<noteq> 0" "k_elems s (th_link th) = Some x" "obj x = t"
    using links_okD [OF kernel_repD(3) [OF kernel_inv_rep [OF k(1)]] t(1)] by auto
  have "kernel_ok n Q s' (cas[c := (th_link th, ds)]) ws"
    by (rule elected_safe [OF ok c s'(2)]) (use s'(3,4) x in simp_all)
  moreover have "same_inactive s s'" using switches_inactive [OF s'(3)] t by simp
  moreover have "k_on s' = (k_on s)[c := t]" using s'(3) by (simp add: switches_def)
  ultimately show ?thesis using s'(1) unfolding safe_def by blast
qed

section \<open>Creating a thread\<close>

lemma rank_of_other: "e \<noteq> ln \<Longrightarrow> rank_of (h(ln \<mapsto> x)) e = rank_of h e"
  by (simp add: rank_of_def)

lemma kernel_rep_add:
  assumes rep: "kernel_rep s cas ws" and t: "t \<noteq> 0" "k_threads s t = None" and ln: "ln \<noteq> 0" "k_elems s ln = None"
    and x: "obj x = t" "squeue x < length cas" and th: "th_link th = ln"
  shows "kernel_rep (s\<lparr>k_threads := (k_threads s)(t \<mapsto> th), k_elems := (k_elems s)(ln \<mapsto> x)\<rparr>) cas ws" "ln \<notin> all_members cas"
    "\<And>q as. ws q = Some as \<Longrightarrow> ln \<notin> set as" "ln \<notin> tlink s ` dom (k_threads s)"
proof -
  have out: "same_outside {ln} (k_elems s) ((k_elems s)(ln \<mapsto> x))" by (simp add: same_outside_def)
  show nm: "ln \<notin> all_members cas" using multilist_mapped [OF kernel_repD(1) [OF rep], of ln] ln(2) by auto
  show nw: "ln \<notin> set as" if "ws q = Some as" for q as
    using waits_repD(3) [OF kernel_repD(2) [OF rep] that] ln(2) by (fastforce dest: list_rep_mapped)
  show "ln \<notin> tlink s ` dom (k_threads s)"
  proof
    assume "ln \<in> tlink s ` dom (k_threads s)"
    then obtain u uh where u: "k_threads s u = Some uh" "th_link uh = ln" by auto
    then show False using links_okD [OF kernel_repD(3) [OF rep] u(1)] ln(2) by auto
  qed
  let ?s = "s\<lparr>k_threads := (k_threads s)(t \<mapsto> th), k_elems := (k_elems s)(ln \<mapsto> x)\<rparr>"
  have "multilist_rep (k_elems ?s) (k_sched ?s) cas"
    using multilist_rep_outside [OF kernel_repD(1) [OF rep] out] nm by simp
  moreover have "waits_rep ?s cas ws"
    unfolding waits_rep_def
  proof (intro conjI allI impI)
    fix q as assume q: "ws q = Some as"
    show "q \<noteq> 0" "set as \<inter> all_members cas = {}" using waits_repD [OF kernel_repD(2) [OF rep] q] by auto
    obtain l where l: "k_queues s q = Some l" "list_rep (k_elems s) l as" "rank_sorted (rank_of (k_elems s)) as"
      using waits_repD(3) [OF kernel_repD(2) [OF rep] q] by blast
    have "rank_of (k_elems ?s) e = rank_of (k_elems s) e" if "e \<in> set as" for e
      using rank_of_other [of e ln] nw [OF q] that by auto
    then have "rank_sorted (rank_of (k_elems ?s)) as" using l(3) rank_sorted_cong by metis
    moreover have "list_rep (k_elems ?s) l as" using list_rep_outside [OF l(2) out] nw [OF q] by simp
    ultimately show "\<exists>l. k_queues ?s q = Some l \<and> list_rep (k_elems ?s) l as \<and> rank_sorted (rank_of (k_elems ?s)) as" using l(1) by auto
  next
    show "set as \<inter> set bs = {}" if "ws p = Some as" "ws q = Some bs" "p \<noteq> q" for p q as bs
      using waits_rep_disjoint [OF kernel_repD(2) [OF rep] that] .
  qed
  moreover have "links_ok ?s" 
    unfolding links_ok_def
  proof (intro allI impI)
    fix u uh assume u: "k_threads ?s u = Some uh"
    show "u \<noteq> 0 \<and> th_link uh \<noteq> 0 \<and> (\<exists>y. k_elems ?s (th_link uh) = Some y \<and> obj y = u)"
    proof (cases "u = t")
      case False
      then show ?thesis using u links_okD [OF kernel_repD(3) [OF rep], of u uh] ln(2) by auto
    qed (use u t ln x th in simp)
  qed
  moreover have "queues_ok (length cas) (k_elems ?s)" using kernel_repD(4) [OF rep] x by (auto simp: queues_ok_def)
  ultimately show "kernel_rep ?s cas ws" by (simp add: kernel_rep_def)
qed

lemma new_safe:
  assumes "safe n Q s" and c: "c < n" and t: "t \<noteq> 0" "k_threads s t = None" and ln: "ln \<noteq> 0" "k_elems s ln = None"
    and st: "st = READY \<or> st = SUSPENDED" and cr: "c_queue cr < n" "c_target cr = - 1"
  shows "\<exists>s'. thread_new c t ln v st cr s = Some s' \<and> safe n Q s' \<and> (\<forall>u. u \<noteq> t \<longrightarrow> active (tstate s' u) = active (tstate s u)) \<and>
    active (tstate s' t) = (st = READY) \<and> (\<forall>u. tstate s' u = WAITING \<longleftrightarrow> tstate s u = WAITING) \<and> (\<forall>u. tstate s u = WAITING \<longrightarrow> twait s' u = twait s u)"
proof -
  obtain cas ws where ok: "kernel_ok n Q s cas ws" using assms(1) unfolding safe_def by blast
  note k = kernel_okD [OF ok]
  note rep = kernel_inv_rep [OF k(1)] and pl = kernel_inv_places [OF k(1)]
  let ?d = "c_queue cr"
  have d: "?d < length cas" using cr k(2) by simp
  define th where "th = \<lparr>th_state = st, th_waiting = 0, th_joining = 0, th_status = v, th_saved = True, th_link = ln\<rparr>"
  define x where "x = \<lparr>obj = t, nxt = 0, prv = 0, rank = c_priority cr, squeue = ?d, starget = c_target cr\<rparr>"
  define s00 where "s00 = s\<lparr>k_threads := (k_threads s)(t \<mapsto> th), k_elems := (k_elems s)(ln \<mapsto> x)\<rparr>"
  define s0 where "s0 = s00\<lparr>k_count := k_count s + 1\<rparr>"
  note add = kernel_rep_add [OF rep t ln, of x th, folded s00_def]
  have rep0: "kernel_rep s0 cas ws" and nl: "ln \<notin> tlink s ` dom (k_threads s)" using add(1,4) d by (simp_all add: x_def th_def s0_def)
  have f: "tlink s0 = (tlink s)(t := ln)" "tstate s0 = (tstate s)(t := st)" "twait s0 = (twait s)(t := 0)" "dom (k_threads s0) = insert t (dom (k_threads s))"
    "k_on s0 = k_on s" "k_threads s0 t = Some th" "k_threads s0 = (k_threads s)(t \<mapsto> th)" "k_elems s0 = (k_elems s)(ln \<mapsto> x)"
    by (auto simp: s00_def s0_def tlink_def tstate_def twait_def th_def fun_eq_iff)
  have tq: "tqueue s0 u = (if u = t then ?d else tqueue s u)" if "u \<in> insert t (dom (k_threads s))" for u
  proof (cases "u = t")
    case True
    then show ?thesis using f(1) by (simp add: tqueue_def f(8) x_def)
  next
    case False
    then have "tlink s u \<noteq> ln" using that nl by auto
    then show ?thesis using False f(1) by (simp add: tqueue_def squeue_of_def f(8))
  qed
  have pl0: "places (insert t (dom (k_threads s))) (tlink s0) (tqueue s0) (twait s0) ((tstate s)(t := SUSPENDED)) (k_on s) cas ws"
    using f t nl tq by (intro places_add [OF pl]) (auto simp: domIff)
  have tqt: "tqueue s0 t = ?d" using tq [of t] by simp
  let ?r = "rank_of (k_elems s0)"
  let ?cas = "cas[?d := (fst (cas ! ?d), rank_place ?r ln (snd (cas ! ?d)))]"
  have "\<exists>s'. sch_resume t s0 = Some s' \<and> moved s0 s' \<and> kernel_rep s' ?cas ws \<and>
      places (insert t (dom (k_threads s))) (tlink s0) (tqueue s0) ((twait s0)(t := 0)) (((tstate s)(t := SUSPENDED))(t := READY)) (k_on s) ?cas ws"
    using ready_places [OF rep0 pl0, where t = t and th = th and c = ?d and x = 0] f d tqt running_nonnull [OF k(1) d] by (simp add: th_def)
  then obtain s1 where s1: "sch_insert t s0 = Some s1" "moved s0 s1" "kernel_rep s1 ?cas ws"
      "places (insert t (dom (k_threads s))) (tlink s0) (tqueue s0) (twait s0) ((tstate s)(t := READY)) (k_on s) ?cas ws"
    using f(3) by (auto simp: sch_resume_def)
  note m = movedD [OF s1(2)]
  have on: "t \<notin> set (k_on s)" using places_on_sub [OF pl, of t] t(2) by auto
  have saved: "th_saved uh \<longleftrightarrow> u \<notin> set (k_on s)" if "k_threads s0 u = Some uh" for u uh
    using that f(7) on k(1) by (auto simp: kernel_inv_def th_def split: if_splits)
  have jn: "tjoin s0 = tjoin s" using t(2) f(7) by (auto simp: tjoin_def th_def fun_eq_iff)
  have fin: "tstate s t = FINISHING" using t(2) by (simp add: tstate_def)
  have jo: "joins (tjoin s) ((tstate s)(t := st))"
  proof (rule joins_states)
    show "joins (tjoin s) (tstate s)" using k(5) by (simp add: joins_ok_def)
  qed (use fin st in \<open>auto split: if_splits\<close>)
  have "settled s0" using k(4) cr(2) by (auto simp: settled_def f(8) x_def)
  then have set1: "settled s1" by (rule settled_dsame [OF _ m(11)])
  have "rank_of (k_elems s0) e = rank_of (k_elems s) e" if "e \<in> members (cas ! c)" "c < length cas" for e c
    using that rank_of_other [of e ln] add(2) members_all [of c cas] f(8) d by (auto simp: x_def th_def)
  then have "idle_ok ?r cas" using k(6) unfolding idle_ok_def by metis
  then have id1: "idle_ok (rank_of (k_elems s1)) ?cas" unfolding m(12) by (rule ready_idle_ok [OF _ d])
  have other: "active (tstate s u) = active (((tstate s)(t := st)) u)" if "u \<noteq> t" for u using that by simp
  show ?thesis
  proof (cases "st = READY")
    case True
    have "kernel_ok n Q s1 ?cas ws"
      using s1(3,4) m f saved set1 id1 k(2,3) jo jn True by (simp add: kernel_ok_def kernel_inv_def joins_ok_def tjoin_def [abs_def])
    then obtain s' where s': "reschedule_on c ?d s1 = Some s'" "safe n Q s'" "same_inactive s1 s'"
      using reschedule_on_kernel_ok [OF _ c] unfolding safe_def by blast
    have op: "thread_new c t ln v st cr s = Some s'" if "c_priority cr \<noteq> IDLE"
      using s1(1) s'(1) True that by (simp add: thread_new_def Let_def s0_def s00_def th_def x_def)
    have op2: "thread_new c t ln v st cr s = Some s1" if "c_priority cr = IDLE"
      using s1(1) True that by (simp add: thread_new_def Let_def s0_def s00_def th_def x_def)
    have "same_inactive s1 s1" "safe n Q s1" using \<open>kernel_ok n Q s1 ?cas ws\<close> unfolding safe_def by auto
    then obtain s2 where s2: "thread_new c t ln v st cr s = Some s2" "safe n Q s2" "same_inactive s1 s2"
      using op op2 s'(2,3) by blast
    have st1: "tstate s1 = (tstate s)(t := READY)" "twait s1 = (twait s)(t := 0)" using m f True by simp_all
    have "tstate s2 u = WAITING \<longleftrightarrow> tstate s u = WAITING" for u
      using s2(3) st1(1) fin unfolding same_inactive_def active_def by (metis fun_upd_apply thread_state.distinct)
    then show ?thesis using s2 st1 True fin unfolding same_inactive_def by (intro exI [of _ s2]) auto
  next
    case False
    then have S: "st = SUSPENDED" using st by simp
    let ?xs = "rank_place ?r ln (snd (cas ! ?d))"
    have k1: "k_threads s1 t = Some th" "tqueue s1 t = ?d" using m f tqt by simp_all
    have dx: "?cas ! ?d = (fst (cas ! ?d), ?xs)" "length ?cas = length cas" using d by simp_all
    obtain s2 where s2: "sch_remove t s1 = Some (s2, t)" "moved s1 s2" "kernel_rep s2 (?cas[?d := (fst (cas ! ?d), remove1 ln ?xs)]) ws"
      using sch_remove_ready_ok [OF s1(3) k1] d by (auto simp: th_def)
    note m2 = movedD [OF s2(2)]
    have ds: "distinct ?xs" using queue_distinct(1) [OF s1(3), of ?d] d by simp
    have pl2: "places (insert t (dom (k_threads s))) (tlink s0) (tqueue s0) (twait s0) (((tstate s)(t := READY))(t := SUSPENDED)) (k_on s)
        (?cas[?d := (fst (?cas ! ?d), remove1 ln ?xs)]) ws"
      by (rule places_stop [OF s1(4)]) (use d tqt f ds in auto)
    have "set (remove1 ln ?xs) = insert ln (set (snd (cas ! ?d))) - {ln}" using ds by simp
    then have "members (fst (cas ! ?d), remove1 ln ?xs) \<supseteq> members (cas ! ?d)"
      using add(2) members_all [OF d] d by (auto simp: members_def x_def th_def split: if_splits)
    then have id0: "idle_ok ?r (cas[?d := (fst (cas ! ?d), remove1 ln ?xs)])"
      using \<open>idle_ok ?r cas\<close> d by (intro idle_ok_update) auto
    have "kernel_ok n Q s2 (cas[?d := (fst (cas ! ?d), remove1 ln ?xs)]) ws"
      using s2(3) pl2 m m2 f saved settled_dsame [OF set1 m2(11)] id0 k(2,3) jo jn S d
      by (simp add: kernel_ok_def kernel_inv_def joins_ok_def tjoin_def [abs_def])
    then have "safe n Q s2" unfolding safe_def by blast
    moreover have "thread_new c t ln v st cr s = Some s2"
      using s1(1) s2(1) S by (simp add: thread_new_def Let_def s0_def s00_def th_def x_def sch_suspend_def)
    moreover have "tstate s2 = (tstate s)(t := SUSPENDED)" "twait s2 = (twait s)(t := 0)" using m m2 f S by simp_all
    ultimately show ?thesis using S fin by (intro exI [of _ s2]) auto
  qed
qed

end
