(* ===== verification/Thread_Properties.thy ===== *)
theory Thread_Properties
  imports Thread_Life
begin

text \<open>
  The kernel of threads as a transition system, and the properties of the \<open>Thread\<close> operations. A step
  names the CPU that executes it. The conditions of the rules are those under which the code may be called:
  the idle thread never blocks and is not suspended, a thread waits for another one that nobody waits for yet, a thread
  that is blocked in \<open>join\<close> is resumed by \<open>exit\<close> only, a thread is passed the CPU of its own queue, and a new thread has an
  object and a link of its own. Any thread that is ready may be suspended, from any CPU; a running one suspends itself only, because
  \<open>suspend\<close> on a thread that another CPU runs does leave the safe states (\<open>remote_suspend_keeps_running\<close>). Deletion, a change of
  priority and migration are not steps.
\<close>

inductive kstep :: "nat \<Rightarrow> addr set \<Rightarrow> kernel \<Rightarrow> kernel \<Rightarrow> bool" for n Q where
  timer: "c < n \<Longrightarrow> time_slicer c s = Some s' \<Longrightarrow> kstep n Q s s'"
| ipi: "k_ipis s = xs @ c # ys \<Longrightarrow> c < n \<Longrightarrow> rescheduler c (s\<lparr>k_ipis := xs @ ys\<rparr>) = Some s' \<Longrightarrow> kstep n Q s s'"
| yield: "c < n \<Longrightarrow> thread_yield c s = Some s' \<Longrightarrow> kstep n Q s s'"
| suspend: "c < n \<Longrightarrow> trank s (k_on s ! c) \<noteq> IDLE \<Longrightarrow> thread_suspend c (k_on s ! c) s = Some s' \<Longrightarrow> kstep n Q s s'"
| stop: "c < n \<Longrightarrow> k_threads s t \<noteq> None \<Longrightarrow> tstate s t = READY \<Longrightarrow> trank s t \<noteq> IDLE \<Longrightarrow> thread_suspend c t s = Some s' \<Longrightarrow> kstep n Q s s'"
| pass: "c < n \<Longrightarrow> k_threads s t \<noteq> None \<Longrightarrow> tstate s t = READY \<Longrightarrow> tqueue s t = c \<Longrightarrow> thread_pass c t s = Some s' \<Longrightarrow> kstep n Q s s'"
| create: "c < n \<Longrightarrow> t \<noteq> 0 \<Longrightarrow> k_threads s t = None \<Longrightarrow> ln \<noteq> 0 \<Longrightarrow> k_elems s ln = None \<Longrightarrow> st = READY \<or> st = SUSPENDED \<Longrightarrow>
    c_queue cr < n \<Longrightarrow> c_target cr = - 1 \<Longrightarrow> thread_new c t ln v st cr s = Some s' \<Longrightarrow> kstep n Q s s'"
| resume: "c < n \<Longrightarrow> k_threads s t \<noteq> None \<Longrightarrow> (\<forall>u. tjoin s u \<noteq> t) \<Longrightarrow> thread_resume c t s = Some s' \<Longrightarrow> kstep n Q s s'"
| sleep: "c < n \<Longrightarrow> trank s (k_on s ! c) \<noteq> IDLE \<Longrightarrow> q \<in> Q \<Longrightarrow> thread_sleep c q s = Some s' \<Longrightarrow> kstep n Q s s'"
| wakeup: "c < n \<Longrightarrow> q \<in> Q \<Longrightarrow> thread_wakeup c q s = Some s' \<Longrightarrow> kstep n Q s s'"
| wakeup_all: "c < n \<Longrightarrow> q \<in> Q \<Longrightarrow> thread_wakeup_all c q s = Some s' \<Longrightarrow> kstep n Q s s'"
| join: "c < n \<Longrightarrow> trank s (k_on s ! c) \<noteq> IDLE \<Longrightarrow> k_threads s t \<noteq> None \<Longrightarrow> tjoin s t = 0 \<Longrightarrow> t \<noteq> k_on s ! c \<Longrightarrow>
    thread_join c t s = Some s' \<Longrightarrow> kstep n Q s s'"
| exit: "c < n \<Longrightarrow> trank s (k_on s ! c) \<noteq> IDLE \<Longrightarrow> thread_exit c status s = Some s' \<Longrightarrow> kstep n Q s s'"

inductive kreach :: "nat \<Rightarrow> addr set \<Rightarrow> kernel \<Rightarrow> kernel \<Rightarrow> bool" for n Q s where
  start: "kreach n Q s s"
| step: "kreach n Q s s' \<Longrightarrow> kstep n Q s' s'' \<Longrightarrow> kreach n Q s s''"

lemma kstep_safe: "kstep n Q s s' \<Longrightarrow> safe n Q s \<Longrightarrow> safe n Q s'"
proof (induction rule: kstep.induct)
  case (timer c s s')
  then show ?case using reschedule_safe [of n Q s c] by (auto simp: time_slicer_def)
next
  case (ipi s xs c ys s')
  then show ?case using reschedule_safe [of n Q "s\<lparr>k_ipis := xs @ ys\<rparr>" c] by (auto simp: rescheduler_def)
next
  case (yield c s s')
  then show ?case using yield_safe by fastforce
next
  case (suspend c s s')
  then show ?case using suspend_safe by fastforce
next
  case (stop c s t s')
  then obtain th where "k_threads s t = Some th" by blast
  then show ?case using suspend_ready_safe [OF stop.prems stop.hyps(1), of t th] stop.hyps by auto
next
  case (pass c s t s')
  then obtain th where "k_threads s t = Some th" by blast
  then show ?case using pass_safe [OF pass.prems pass.hyps(1), of t th] pass.hyps by auto
next
  case (create c t s ln st cr v s')
  then show ?case using new_safe [OF create.prems create.hyps(1-8), of v] by auto
next
  case (resume c s t s')
  then obtain th where "k_threads s t = Some th" by blast
  then show ?case using resume_safe [OF resume.prems resume.hyps(1), of t th] resume.hyps by auto
next
  case (sleep c s q s')
  then show ?case using sleep_safe by fastforce
next
  case (wakeup c q s s')
  then show ?case using wakeup_safe by fastforce
next
  case (wakeup_all c q s s')
  then show ?case using wakeup_all_safe by fastforce
next
  case (join c s t s')
  then obtain th where "k_threads s t = Some th" by blast
  then show ?case using join_safe [OF join.prems join.hyps(1,2), of t th] join.hyps by auto
next
  case (exit c s status s')
  then show ?case using exit_safe [OF exit.prems exit.hyps(1,2), of status] by auto
qed

lemma kreach_safe: "kreach n Q s s' \<Longrightarrow> safe n Q s \<Longrightarrow> safe n Q s'"
  by (induction rule: kreach.induct) (blast intro: kstep_safe)+

section \<open>A concrete kernel\<close>

text \<open>
  Two CPUs. On CPU 0 the thread \<open>0x100\<close> runs with priority 5, \<open>0x200\<close> (priority 5) and the idle thread \<open>0x300\<close> are
  ready; \<open>0x400\<close> is the idle thread of CPU 1. \<open>0x500\<close> and \<open>0x600\<close> wait in the queue at \<open>0x900\<close>, the one at \<open>0xA00\<close> is empty, and \<open>0x700\<close> is
  blocked in \<open>join\<close> on \<open>0x100\<close>.
\<close>

definition tiny_link :: "addr \<Rightarrow> addr \<Rightarrow> addr \<Rightarrow> int \<Rightarrow> nat \<Rightarrow> delem_criterion" where
  "tiny_link t n p r q = \<lparr>obj = t, nxt = n, prv = p, rank = r, squeue = q, starget = - 1\<rparr>"

definition tiny_thread :: "thread_state \<Rightarrow> addr \<Rightarrow> addr \<Rightarrow> bool \<Rightarrow> addr \<Rightarrow> thread" where
  "tiny_thread st w j sv l = \<lparr>th_state = st, th_waiting = w, th_joining = j, th_status = 0, th_saved = sv, th_link = l\<rparr>"

definition tiny :: kernel where
  "tiny = \<lparr>
     k_elems = [0x108 \<mapsto> tiny_link 0x100 0 0 5 0, 0x208 \<mapsto> tiny_link 0x200 0x308 0 5 0,
       0x308 \<mapsto> tiny_link 0x300 0 0x208 IDLE 0, 0x408 \<mapsto> tiny_link 0x400 0 0 IDLE 1,
       0x508 \<mapsto> tiny_link 0x500 0x608 0 3 1, 0x608 \<mapsto> tiny_link 0x600 0 0x508 7 0, 0x708 \<mapsto> tiny_link 0x700 0 0 2 0],
     k_threads = [0x100 \<mapsto> tiny_thread RUNNING 0 0x700 False 0x108, 0x200 \<mapsto> tiny_thread READY 0 0 True 0x208,
       0x300 \<mapsto> tiny_thread READY 0 0 True 0x308, 0x400 \<mapsto> tiny_thread RUNNING 0 0 False 0x408,
       0x500 \<mapsto> tiny_thread WAITING 0x900 0 True 0x508, 0x600 \<mapsto> tiny_thread WAITING 0x900 0 True 0x608,
       0x700 \<mapsto> tiny_thread SUSPENDED 0 0 True 0x708],
     k_sched = [\<lparr>sc_base = \<lparr>dl_size = 2, dl_head = 0x208, dl_tail = 0x308\<rparr>, sc_chosen = 0x108\<rparr>,
       \<lparr>sc_base = \<lparr>dl_size = 0, dl_head = 0, dl_tail = 0\<rparr>, sc_chosen = 0x408\<rparr>],
     k_queues = [0x900 \<mapsto> \<lparr>dl_size = 2, dl_head = 0x508, dl_tail = 0x608\<rparr>, 0xA00 \<mapsto> \<lparr>dl_size = 0, dl_head = 0, dl_tail = 0\<rparr>],
     k_count = 7, k_on = [0x100, 0x400], k_ipis = [], k_restarts = 0\<rparr>"

definition tiny_cas :: "(addr \<times> addr list) list" where
  "tiny_cas = [(0x108, [0x208, 0x308]), (0x408, [])]"

definition tiny_ws :: "addr \<rightharpoonup> addr list" where
  "tiny_ws = [0x900 \<mapsto> [0x508, 0x608], 0xA00 \<mapsto> []]"

lemma less_2_cases_iff': "(\<forall>c < (2 :: nat). P c) \<longleftrightarrow> P 0 \<and> P 1"
  by (auto simp: less_2_cases_iff)

lemma tiny_places: "places (dom (k_threads tiny)) (tlink tiny) (tqueue tiny) (twait tiny) (tstate tiny) (k_on tiny) tiny_cas tiny_ws"
proof -
  have d: "dom (k_threads tiny) = {0x100, 0x200, 0x300, 0x400, 0x500, 0x600, 0x700}" by (auto simp: tiny_def)
  have l: "length tiny_cas = 2" by (simp add: tiny_cas_def)
  show ?thesis
    unfolding places_def d l less_2_cases_iff'
    by (simp add: tiny_def tlink_def tqueue_def squeue_of_def twait_def tstate_def tiny_thread_def tiny_link_def tiny_cas_def tiny_ws_def)
qed

lemma tiny_kernel_ok: "kernel_ok 2 {0x900, 0xA00} tiny tiny_cas tiny_ws"
proof -
  have l: "length tiny_cas = 2" by (simp add: tiny_cas_def)
  have m: "multilist_rep (k_elems tiny) (k_sched tiny) tiny_cas"
    unfolding multilist_rep_def l less_2_cases_iff'
    by (simp add: tiny_def tiny_cas_def sched_rep_def list_rep_def tiny_link_def last0_def rank_sorted_def rank_of_def members_def IDLE_def)
  have w: "waits_rep tiny tiny_cas tiny_ws"
    by (simp add: waits_rep_def tiny_def tiny_cas_def tiny_ws_def list_rep_def tiny_link_def last0_def rank_sorted_def rank_of_def all_members_def members_def)
  have k: "links_ok tiny" by (simp add: links_ok_def tiny_def tiny_thread_def tiny_link_def)
  have q: "queues_ok (length tiny_cas) (k_elems tiny)" by (simp add: queues_ok_def tiny_def tiny_link_def tiny_cas_def)
  have s: "\<forall>t th. k_threads tiny t = Some th \<longrightarrow> (th_saved th \<longleftrightarrow> t \<notin> set (k_on tiny))"
    by (simp add: tiny_def tiny_thread_def)
  have "settled tiny" by (simp add: settled_def tiny_def tiny_link_def)
  moreover have "joins_ok tiny" by (simp add: joins_ok_def joins_def tiny_def tiny_thread_def tjoin_def tstate_def)
  moreover have "idle_ok (rank_of (k_elems tiny)) tiny_cas"
    unfolding idle_ok_def l less_2_cases_iff' by (simp add: tiny_cas_def members_def rank_of_def tiny_def tiny_link_def)
  ultimately show ?thesis using m w k q s tiny_places l
    by (simp add: kernel_ok_def kernel_inv_def kernel_rep_def tiny_ws_def insert_commute)
qed

lemma tiny_safe: "safe 2 {0x900, 0xA00} tiny"
  using tiny_kernel_ok unfolding safe_def by blast

lemma tiny_facts: "k_on tiny = [0x100, 0x400]" "trank tiny 0x100 = 5" "k_threads tiny 0x100 = Some (tiny_thread RUNNING 0 0x700 False 0x108)"
  "tjoin tiny 0x200 = 0" "k_threads tiny 0x200 = Some (tiny_thread READY 0 0 True 0x208)" "IDLE \<noteq> 5"
  by (simp_all add: tiny_def trank_def tlink_def rank_of_def tiny_thread_def tiny_link_def tjoin_def IDLE_def)

lemma tiny_no_joiner_of_waiters: "tjoin tiny u \<noteq> 0x200"
  by (simp add: tjoin_def tiny_def tiny_thread_def)

section \<open>Properties\<close>

lemma safe_cpus:
  assumes "safe n Q s"
  shows "length (k_on s) = n" "distinct (k_on s)" "k_threads s t = Some th \<Longrightarrow> th_state th = RUNNING \<longleftrightarrow> t \<in> set (k_on s)"
    "c < n \<Longrightarrow> thread_running c s = Some (k_on s ! c) \<and> tqueue s (k_on s ! c) = c"
    "k_threads s t = Some th \<Longrightarrow> th_saved th \<longleftrightarrow> t \<notin> set (k_on s)"
proof -
  obtain cas ws where ok: "kernel_ok n Q s cas ws" using assms unfolding safe_def by blast
  note k = kernel_okD [OF ok] and pl = kernel_inv_places [OF kernel_okD(1) [OF ok]]
  show "length (k_on s) = n" "distinct (k_on s)" using places_len [OF pl] places_distinct [OF pl] k(2) by auto
  show "k_threads s t = Some th \<Longrightarrow> th_state th = RUNNING \<longleftrightarrow> t \<in> set (k_on s)" using places_running [OF pl, of t] by auto
  show "c < n \<Longrightarrow> thread_running c s = Some (k_on s ! c) \<and> tqueue s (k_on s ! c) = c"
    using running_is [OF k(1), of c] places_on [OF pl, of c] k(2) by auto
  show "k_threads s t = Some th \<Longrightarrow> th_saved th \<longleftrightarrow> t \<notin> set (k_on s)" using k(1) by (simp add: kernel_inv_def)
qed


text \<open>
  C2. None of these operations fails in a safe kernel: under the conditions of its step each returns, without a null
  dereference, a failed assertion or an endless wait for a context, and the kernel is safe again.
\<close>

theorem kernel_progress:
  assumes "safe n Q s" "c < n"
  shows "(\<exists>s'. time_slicer c s = Some s' \<and> safe n Q s') \<and>
    (\<forall>xs ys. k_ipis s = xs @ c # ys \<longrightarrow> (\<exists>s'. rescheduler c (s\<lparr>k_ipis := xs @ ys\<rparr>) = Some s' \<and> safe n Q s')) \<and>
    (\<exists>s'. thread_yield c s = Some s' \<and> safe n Q s') \<and>
    (trank s (k_on s ! c) \<noteq> IDLE \<longrightarrow> (\<exists>s'. thread_suspend c (k_on s ! c) s = Some s' \<and> safe n Q s')) \<and>
    (\<forall>t. k_threads s t \<noteq> None \<longrightarrow> tstate s t = READY \<longrightarrow> trank s t \<noteq> IDLE \<longrightarrow> (\<exists>s'. thread_suspend c t s = Some s' \<and> safe n Q s')) \<and>
    (\<forall>t. k_threads s t \<noteq> None \<longrightarrow> tstate s t = READY \<longrightarrow> tqueue s t = c \<longrightarrow> (\<exists>s'. thread_pass c t s = Some s' \<and> safe n Q s')) \<and>
    (\<forall>t ln v st cr. t \<noteq> 0 \<longrightarrow> k_threads s t = None \<longrightarrow> ln \<noteq> 0 \<longrightarrow> k_elems s ln = None \<longrightarrow> st = READY \<or> st = SUSPENDED \<longrightarrow>
       c_queue cr < n \<longrightarrow> c_target cr = - 1 \<longrightarrow> (\<exists>s'. thread_new c t ln v st cr s = Some s' \<and> safe n Q s')) \<and>
    (\<forall>t. k_threads s t \<noteq> None \<longrightarrow> (\<forall>u. tjoin s u \<noteq> t) \<longrightarrow> (\<exists>s'. thread_resume c t s = Some s' \<and> safe n Q s')) \<and>
    (\<forall>q \<in> Q. trank s (k_on s ! c) \<noteq> IDLE \<longrightarrow> (\<exists>s'. thread_sleep c q s = Some s' \<and> safe n Q s')) \<and>
    (\<forall>q \<in> Q. (\<exists>s'. thread_wakeup c q s = Some s' \<and> safe n Q s') \<and> (\<exists>s'. thread_wakeup_all c q s = Some s' \<and> safe n Q s')) \<and>
    (\<forall>t. k_threads s t \<noteq> None \<longrightarrow> tjoin s t = 0 \<longrightarrow> t \<noteq> k_on s ! c \<longrightarrow> trank s (k_on s ! c) \<noteq> IDLE \<longrightarrow>
       (\<exists>s'. thread_join c t s = Some s' \<and> safe n Q s')) \<and>
    (\<forall>status. trank s (k_on s ! c) \<noteq> IDLE \<longrightarrow> (\<exists>s'. thread_exit c status s = Some s' \<and> safe n Q s'))"
proof (intro conjI allI ballI impI)
  show "\<exists>s'. time_slicer c s = Some s' \<and> safe n Q s'" unfolding time_slicer_def by (rule reschedule_safe [OF assms])
  show "\<exists>s'. rescheduler c (s\<lparr>k_ipis := xs @ ys\<rparr>) = Some s' \<and> safe n Q s'" for xs ys
    unfolding rescheduler_def by (rule reschedule_safe [OF _ assms(2)]) (use assms(1) in simp)
  show "\<exists>s'. thread_suspend c t s = Some s' \<and> safe n Q s'" if t: "k_threads s t \<noteq> None" "tstate s t = READY" "trank s t \<noteq> IDLE" for t
  proof -
    obtain th where "k_threads s t = Some th" using t(1) by blast
    then show ?thesis using suspend_ready_safe [OF assms, of t th] t by auto
  qed
  show "\<exists>s'. thread_pass c t s = Some s' \<and> safe n Q s'" if t: "k_threads s t \<noteq> None" "tstate s t = READY" "tqueue s t = c" for t
  proof -
    obtain th where "k_threads s t = Some th" using t(1) by blast
    then show ?thesis using pass_safe [OF assms, of t th] t by auto
  qed
  show "\<exists>s'. thread_new c t ln v st cr s = Some s' \<and> safe n Q s'"
    if "t \<noteq> 0" "k_threads s t = None" "ln \<noteq> 0" "k_elems s ln = None" "st = READY \<or> st = SUSPENDED" "c_queue cr < n" "c_target cr = - 1" for t ln v st cr
    using new_safe [OF assms that, of v] by blast
  show "\<exists>s'. thread_yield c s = Some s' \<and> safe n Q s'" by (rule yield_safe [OF assms])
  show "\<exists>s'. thread_suspend c (k_on s ! c) s = Some s' \<and> safe n Q s'" if "trank s (k_on s ! c) \<noteq> IDLE"
    by (rule suspend_safe [OF assms that])
  show "\<exists>s'. thread_sleep c q s = Some s' \<and> safe n Q s'" if "q \<in> Q" "trank s (k_on s ! c) \<noteq> IDLE" for q
    by (rule sleep_safe [OF assms that(2,1)])
  show "\<exists>s'. thread_wakeup c q s = Some s' \<and> safe n Q s'" "\<exists>s'. thread_wakeup_all c q s = Some s' \<and> safe n Q s'" if "q \<in> Q" for q
    using wakeup_safe [OF assms that] wakeup_all_safe [OF assms that] .
  show "\<exists>s'. thread_resume c t s = Some s' \<and> safe n Q s'" if t: "k_threads s t \<noteq> None" "\<forall>u. tjoin s u \<noteq> t" for t
  proof -
    obtain th where "k_threads s t = Some th" using t(1) by blast
    then show ?thesis using resume_safe [OF assms, of t th] t(2) by simp
  qed
  show "\<exists>s'. thread_join c t s = Some s' \<and> safe n Q s'"
    if t: "k_threads s t \<noteq> None" "tjoin s t = 0" "t \<noteq> k_on s ! c" "trank s (k_on s ! c) \<noteq> IDLE" for t
  proof -
    obtain th where "k_threads s t = Some th" using t(1) by blast
    then show ?thesis by (rule join_safe [OF assms t(4) _ t(2,3)])
  qed
  show "\<exists>s'. thread_exit c status s = Some s' \<and> safe n Q s'" if "trank s (k_on s ! c) \<noteq> IDLE" for status
    using exit_safe [OF assms that] by blast
qed

lemma elected_rank:
  assumes inv: "kernel_inv s cas ws" and c: "c < length cas" and inv': "kernel_inv s' (cas[c := queue_elect (rank_of (k_elems s)) (cas ! c)]) ws"
    and r: "rank_of (k_elems s') = rank_of (k_elems s)" and t: "k_threads s' t = Some th" "th_state th = READY" "tqueue s' t = c"
  shows "trank s' (k_on s' ! c) \<le> trank s' t"
proof -
  let ?r = "rank_of (k_elems s)" and ?cas = "cas[c := queue_elect (rank_of (k_elems s)) (cas ! c)]"
  note pl' = kernel_inv_places [OF inv'] and rep = kernel_inv_rep [OF inv]
  have on: "tlink s' (k_on s' ! c) = fst (queue_elect ?r (cas ! c))" using places_on [OF pl', of c] c by simp
  have "tlink s' t \<in> set (snd (queue_elect ?r (cas ! c)))" using places_ready [OF pl', of t c] t c by auto
  moreover have "?r (fst (queue_elect ?r (cas ! c))) \<le> ?r x" if "x \<in> set (snd (queue_elect ?r (cas ! c)))" for x
  proof (cases "snd (cas ! c) = []")
    case True
    then show ?thesis using that by (simp add: queue_elect_def)
  next
    case False
    have "rank_sorted ?r (rank_place ?r (fst (cas ! c)) (snd (cas ! c)))" by (rule rank_place_sorted [OF queue_distinct(3) [OF rep c]])
    moreover have "x \<in> set (rank_place ?r (fst (cas ! c)) (snd (cas ! c)))"
      using that False by (auto simp: queue_elect_def dest: list.set_sel(2) [rotated])
    ultimately have "?r (hd (rank_place ?r (fst (cas ! c)) (snd (cas ! c)))) \<le> ?r x" by (rule rank_sorted_hd)
    then show ?thesis using False by (simp add: queue_elect_def)
  qed
  ultimately show ?thesis using on r by (simp add: trank_def)
qed

text \<open>
  C3. After \<open>reschedule\<close> (a timer tick or an interrupt from another CPU) the thread on the CPU is one of
  minimal rank among those of its queue: no thread that is ready there has a higher priority.
\<close>

theorem reschedule_elects_min:
  assumes "safe n Q s" "c < n"
  shows "\<exists>s'. reschedule c s = Some s' \<and> safe n Q s' \<and> (\<forall>d < n. d \<noteq> c \<longrightarrow> k_on s' ! d = k_on s ! d) \<and>
    (\<forall>t th. k_threads s' t = Some th \<longrightarrow> th_state th = READY \<longrightarrow> tqueue s' t = c \<longrightarrow> trank s' (k_on s' ! c) \<le> trank s' t)"
proof -
  obtain cas ws where ok: "kernel_ok n Q s cas ws" using assms unfolding safe_def by blast
  note k = kernel_okD [OF ok]
  obtain s' where s': "reschedule c s = Some s'" "kernel_ok n Q s' (cas[c := queue_elect (rank_of (k_elems s)) (cas ! c)]) ws"
    "switches s c (thread_of s (fst (queue_elect (rank_of (k_elems s)) (cas ! c)))) s'"
    using reschedule_kernel_ok [OF ok assms(2)] by blast
  have r: "rank_of (k_elems s') = rank_of (k_elems s)" using s'(3) rank_of_dsame_data by (auto simp: switches_def)
  have "\<forall>d < n. d \<noteq> c \<longrightarrow> k_on s' ! d = k_on s ! d" using s'(3) by (simp add: switches_def)
  moreover have "\<forall>t th. k_threads s' t = Some th \<longrightarrow> th_state th = READY \<longrightarrow> tqueue s' t = c \<longrightarrow> trank s' (k_on s' ! c) \<le> trank s' t"
    using elected_rank [OF k(1) _ kernel_okD(1) [OF s'(2)] r] assms(2) k(2) by blast
  ultimately show ?thesis using s'(1,2) unfolding safe_def by blast
qed

lemma waiting_queue:
  assumes ok: "kernel_ok n Q s cas ws" and q: "ws q = Some as"
  shows "tstate s u = WAITING \<and> twait s u = q \<longleftrightarrow> u \<in> dom (k_threads s) \<and> tlink s u \<in> set as"
    "e \<in> set as \<Longrightarrow> tlink s (thread_of s e) = e \<and> thread_of s e \<in> dom (k_threads s)"
proof -
  note pl = kernel_inv_places [OF kernel_okD(1) [OF ok]] and lk = kernel_repD(3) [OF kernel_inv_rep [OF kernel_okD(1) [OF ok]]]
  have "tstate s u \<noteq> WAITING" if "u \<notin> dom (k_threads s)" using that by (simp add: tstate_def domIff)
  then show "tstate s u = WAITING \<and> twait s u = q \<longleftrightarrow> u \<in> dom (k_threads s) \<and> tlink s u \<in> set as"
    using places_waiting [OF pl _ q, of u] by blast
  assume "e \<in> set as"
  then have "e \<in> tlink s ` dom (k_threads s)" using places_wait_sub [OF pl q] by blast
  then obtain v vh where v: "k_threads s v = Some vh" "th_link vh = e" by auto
  obtain x where "k_elems s e = Some x" "obj x = v" using links_okD [OF lk v(1)] v(2) by auto
  then have "thread_of s e = v" by simp
  then show "tlink s (thread_of s e) = e \<and> thread_of s e \<in> dom (k_threads s)" using v by auto
qed

text \<open>
  \<open>wakeup\<close> makes a waiting thread of the queue with the highest priority active (and with the lowest
  number among those: the first that came), wakes no other thread, and does nothing when none waits there.
\<close>

theorem wakeup_highest_priority:
  assumes "safe n Q s" "c < n" "q \<in> Q"
  shows "\<exists>s'. thread_wakeup c q s = Some s' \<and> safe n Q s' \<and>
    ((\<forall>u. \<not> (tstate s u = WAITING \<and> twait s u = q)) \<and> s' = s \<or>
     (\<exists>t. tstate s t = WAITING \<and> twait s t = q \<and> active (tstate s' t) \<and>
        (\<forall>u. tstate s u = WAITING \<longrightarrow> twait s u = q \<longrightarrow> trank s t \<le> trank s u) \<and>
        (\<forall>u. u \<noteq> t \<longrightarrow> active (tstate s' u) = active (tstate s u))))"
proof -
  obtain cas ws where ok: "kernel_ok n Q s cas ws" using assms(1) unfolding safe_def by blast
  obtain as where as: "ws q = Some as" using assms(3) kernel_okD(3) [OF ok] by blast
  show ?thesis
  proof (cases as)
    case Nil
    then have "\<forall>u. \<not> (tstate s u = WAITING \<and> twait s u = q)" using waiting_queue(1) [OF ok as] by simp
    then show ?thesis using assms(1) wait_queue_empty [OF ok as] Nil by (simp add: thread_wakeup_def)
  next
    case (Cons e bs)
    let ?t = "thread_of s e"
    obtain s1 cas1 where s1: "wake_first q s = Some (s1, tqueue s ?t)" "kernel_ok n Q s1 cas1 (ws(q \<mapsto> bs))"
      "tstate s ?t = WAITING" "tstate s1 = (tstate s)(?t := READY)"
      using wake_first_kernel_ok [OF ok as [unfolded Cons]] by blast
    obtain s' cas' where s': "reschedule_on c (tqueue s ?t) s1 = Some s'" "kernel_ok n Q s' cas' (ws(q \<mapsto> bs))" "same_inactive s1 s'"
      using reschedule_on_kernel_ok [OF s1(2) assms(2)] by blast
    have op: "thread_wakeup c q s = Some s'" using wait_queue_empty [OF ok as] Cons s1(1) s'(1) by (simp add: thread_wakeup_def)
    have "rank_sorted (rank_of (k_elems s)) (e # bs)"
      using waits_repD(3) [OF kernel_repD(2) [OF kernel_inv_rep [OF kernel_okD(1) [OF ok]]] as] Cons by blast
    then have "trank s ?t \<le> trank s u" if "tstate s u = WAITING" "twait s u = q" for u
      using that waiting_queue [OF ok as] Cons rank_sorted_hd [of _ "e # bs" "tlink s u"] by (auto simp: trank_def)
    moreover have "active (tstate s' ?t)" using s'(3) s1(4) by (simp add: same_inactive_def)
    moreover have "active (tstate s' u) = active (tstate s u)" if "u \<noteq> ?t" for u using s'(3) s1(4) that by (simp add: same_inactive_def)
    moreover have "twait s ?t = q" using waiting_queue [OF ok as, of ?t] waiting_queue(2) [OF ok as, of e] Cons by simp
    ultimately show ?thesis using op s'(2) s1(3) unfolding safe_def by blast
  qed
qed

text \<open>C8. After \<open>wakeup_all\<close> no thread waits in the queue: the loop ends and has woken every one of them.\<close>

theorem wakeup_all_empties:
  assumes "safe n Q s" "c < n" "q \<in> Q"
  shows "\<exists>s'. thread_wakeup_all c q s = Some s' \<and> safe n Q s' \<and> (\<forall>u. \<not> (tstate s' u = WAITING \<and> twait s' u = q))"
proof -
  obtain cas ws where ok: "kernel_ok n Q s cas ws" using assms(1) unfolding safe_def by blast
  obtain as where as: "ws q = Some as" using assms(3) kernel_okD(3) [OF ok] by blast
  obtain s1 cas1 cpus where s1: "wake_loop q s {} = Some (s1, cpus)" "kernel_ok n Q s1 cas1 (ws(q \<mapsto> []))"
    using wake_loop_ok [OF ok as, of "{}"] by blast
  have each: "\<exists>s' cas'. reschedule_each c cpus is s = Some s' \<and> kernel_ok n Q s' cas' ws" if "kernel_ok n Q s cas ws" for s cas ws "is"
    using that
  proof (induction "is" arbitrary: s cas)
    case (Cons i "is")
    obtain s1 cas1 where s1: "(if i \<in> cpus then reschedule_on c i s else Some s) = Some s1" "kernel_ok n Q s1 cas1 ws"
      using reschedule_on_kernel_ok [OF Cons.prems assms(2), of i] Cons.prems by (cases "i \<in> cpus") auto
    then show ?case using Cons.IH [OF s1(2)] by (simp add: s1(1))
  qed auto
  obtain s' cas' where s': "thread_wakeup_all c q s = Some s'" "kernel_ok n Q s' cas' (ws(q \<mapsto> []))"
  proof (cases "as = []")
    case True
    then have "ws(q \<mapsto> []) = ws" using as by (simp add: fun_upd_idem)
    then show thesis using that [of s cas] ok wait_queue_empty [OF ok as] True by (simp add: thread_wakeup_all_def)
  next
    case False
    then show thesis using each [OF s1(2)] wait_queue_empty [OF ok as] s1(1) that by (auto simp: thread_wakeup_all_def)
  qed
  have "\<not> (tstate s' u = WAITING \<and> twait s' u = q)" for u using waiting_queue(1) [OF s'(2), of q "[]" u] by simp
  then show ?thesis using s' unfolding safe_def by blast
qed

text \<open>
  C9. \<open>exit\<close> leaves the status to its joiner and makes the joiner active again: the thread is
  \<open>FINISHING\<close>, a thread that was blocked in \<open>join\<close> on it is ready or running, and \<open>join\<close> returns the status.
\<close>

theorem exit_delivers_status:
  assumes "safe n Q s" "c < n" "trank s (k_on s ! c) \<noteq> IDLE"
  shows "\<exists>s'. thread_exit c status s = Some s' \<and> safe n Q s' \<and> join_value (k_on s ! c) s' = Some status \<and>
    tstate s' (k_on s ! c) = FINISHING \<and> k_on s' ! c \<noteq> k_on s ! c \<and> tjoin s' (k_on s ! c) = 0 \<and>
    (tjoin s (k_on s ! c) \<noteq> 0 \<longrightarrow> active (tstate s' (tjoin s (k_on s ! c))))"
  using exit_safe [OF assms] by blast

text \<open>
  \<open>sleep\<close> blocks the calling thread on the queue and gives the CPU to another one; it wakes nobody and
  blocks nobody else. (\<open>wakeup_highest_priority\<close> is the other half of the contract of a waiting queue.)
\<close>

theorem sleep_blocks_caller:
  assumes "safe n Q s" "c < n" "trank s (k_on s ! c) \<noteq> IDLE" "q \<in> Q"
  shows "\<exists>s'. thread_sleep c q s = Some s' \<and> safe n Q s' \<and> tstate s' (k_on s ! c) = WAITING \<and> twait s' (k_on s ! c) = q \<and>
    tstate s (k_on s' ! c) = READY \<and> (\<forall>u. u \<noteq> k_on s ! c \<longrightarrow> active (tstate s' u) = active (tstate s u))"
proof -
  obtain cas ws where ok: "kernel_ok n Q s cas ws" using assms(1) unfolding safe_def by blast
  note k = kernel_okD [OF ok]
  obtain e ds where ready: "snd (cas ! c) = e # ds" using ready_nonempty [OF ok assms(2,3)] .
  obtain as where as: "ws q = Some as" using assms(4) k(3) by blast
  have cl: "c < length cas" using assms(2) k(2) by simp
  obtain s' where s': "thread_sleep c q s = Some s'"
    "kernel_inv s' (cas[c := (e, ds)]) (ws(q \<mapsto> rank_place (rank_of (k_elems s)) (fst (cas ! c)) as))"
    "k_on s' = (k_on s)[c := thread_of s e]" "tstate s' = (tstate s)(k_on s ! c := WAITING, thread_of s e := RUNNING)"
    "twait s' = (twait s)(k_on s ! c := q)"
    using sleep_ok [OF k(1) cl ready as] by blast
  have safe': "safe n Q s'" using sleep_safe [OF assms] s'(1) by auto
  note nr = next_ready [OF k(1) cl ready]
  have "k_on s' ! c = thread_of s e" using s'(3) cl places_len [OF kernel_inv_places [OF k(1)]] by simp
  then show ?thesis using s'(1,4,5) safe' nr by auto
qed

text \<open>
  A thread that suspends a thread running on another CPU does not stop it: that CPU goes on executing the
  suspended thread (no interrupt is sent), while \<open>running()\<close> there already names another thread, in state
  \<open>READY\<close>, whose context is not loaded.
\<close>

theorem remote_suspend_keeps_running:
  assumes "safe n Q s" "c < n" "d < n" "c \<noteq> d" "trank s (k_on s ! d) \<noteq> IDLE"
  shows "\<exists>s' x. thread_suspend c (k_on s ! d) s = Some s' \<and> k_on s' = k_on s \<and> tstate s' (k_on s ! d) = SUSPENDED \<and>
    k_ipis s' = k_ipis s \<and> thread_running d s' = Some x \<and> x \<noteq> k_on s ! d \<and> tstate s' x = READY \<and> \<not> safe n Q s'"
proof -
  obtain cas ws where ok: "kernel_ok n Q s cas ws" using assms(1) unfolding safe_def by blast
  note k = kernel_okD [OF ok] and rep = kernel_inv_rep [OF kernel_okD(1) [OF ok]]
  obtain e ds where ready: "snd (cas ! d) = e # ds" using ready_nonempty [OF ok assms(3,5)] .
  have cl: "c < length cas" and dl: "d < length cas" using assms(2,3) k(2) by simp_all
  let ?t = "k_on s ! d"
  obtain p x where p: "k_threads s ?t = Some p" "k_elems s (th_link p) = Some x" "fst (cas ! d) = th_link p" "squeue x = d" "?t \<noteq> 0"
    using running_on [OF k(1) dl] by metis
  define p' where "p' = p\<lparr>th_state := SUSPENDED\<rparr>"
  have l: "th_link p' = th_link p" by (simp add: p'_def)
  define s0 where "s0 = s\<lparr>k_threads := (k_threads s)(?t \<mapsto> p')\<rparr>"
  note f = thread_upd_fields [OF p(1) l, folded s0_def]
  have u: "thread_upd ?t (\<lambda>t. t\<lparr>th_state := SUSPENDED\<rparr>) s = Some s0"
    using thread_upd_Some [OF p(1,5)] by (simp add: s0_def p'_def)
  have rep0: "kernel_rep s0 cas ws" unfolding s0_def by (rule kernel_rep_thread [OF rep p(1) l])
  have tq: "tqueue s0 ?t = d" using f(2) p by (simp add: tqueue_def)
  obtain s1 where s1: "sch_remove ?t s0 = Some (s1, ?t)" "moved s0 s1" "kernel_rep s1 (cas[d := (e, ds)]) ws"
    using sch_remove_chosen_ok [OF rep0, of ?t p' d] tq dl p(3) l ready by (auto simp: queue_pop_def s0_def)
  note m = movedD [OF s1(2)]
  have sd: "dsame_data (k_elems s) (k_elems s1)" using m(11) f(6) by simp
  note tof = thread_of_dsame [OF sd]
  obtain c1 x1 where c1: "k_elems s (fst (cas ! c)) = Some x1" "obj x1 = k_on s ! c" "fst (cas ! c) \<noteq> 0"
    using running_on [OF k(1) cl] by metis
  obtain y1 where y1: "k_elems s1 (fst (cas ! c)) = Some y1" "obj y1 = k_on s ! c" using dsame_dataD [OF sd c1(1)] c1(2) by auto
  have ch: "sch_chosen c s1 = Some (k_on s ! c)" using sch_chosen_ok [OF s1(3), of c y1] y1 c1(3) cl assms(4) by simp
  have e: "e \<in> members (cas ! d)" "e \<noteq> 0" using ready sched_at(3) [OF rep dl] by (auto simp: members_def)
  obtain xe where xe: "k_elems s e = Some xe" using member_thread_of [OF k(1) dl e(1)] by metis
  obtain ye where ye: "k_elems s1 e = Some ye" using dsame_dataD [OF sd xe] by auto
  have run: "thread_running d s1 = Some (thread_of s e)"
    using sch_chosen_ok [OF s1(3), of d ye] ye e(2) dl thread_of_Some [of s1 e ye] tof by (simp add: thread_running_def)
  note nr = next_ready [OF k(1) dl ready]
  define s2 where "s2 = s1\<lparr>k_restarts := k_restarts s1 + 1\<rparr>"
  have op: "thread_suspend c ?t s = Some s2"
    using running_is [OF k(1) cl] u s1(1) ch by (simp add: thread_suspend_def sch_suspend_def dispatch_def Let_def s2_def)
  have run2: "thread_running d s2 = Some (thread_of s e)"
    using run by (simp add: s2_def thread_running_def sch_chosen_def)
  have g: "k_on s2 = k_on s" "k_ipis s2 = k_ipis s" "tstate s2 = (tstate s)(?t := SUSPENDED)"
    using m f by (simp_all add: s2_def p'_def)
  have "\<not> safe n Q s2" using safe_cpus(4) [of n Q s2 d] run2 g(1) nr(3) assms(3) by auto
  then show ?thesis using op run2 g nr by (intro exI [of _ s2] exI [of _ "thread_of s e"]) simp
qed

section \<open>Witnesses\<close>

lemmas tiny_guard = tiny_safe tiny_facts


theorem kernel_progress_witness: "\<exists>s'. thread_sleep 0 0x900 tiny = Some s' \<and> safe 2 {0x900, 0xA00} s'"
  using kernel_progress [OF tiny_safe, of 0] tiny_guard by simp

theorem reschedule_elects_min_witness: "\<exists>s'. reschedule 0 tiny = Some s' \<and> safe 2 {0x900, 0xA00} s'"
  using reschedule_elects_min [OF tiny_safe, of 0] by auto

theorem wakeup_highest_priority_witness: "\<exists>s'. thread_wakeup 0 0x900 tiny = Some s' \<and> safe 2 {0x900, 0xA00} s'"
  using wakeup_highest_priority [OF tiny_safe, of 0 "0x900"] by auto

theorem wakeup_all_empties_witness:
  "\<exists>s'. thread_wakeup_all 1 0x900 tiny = Some s' \<and> (\<forall>u. \<not> (tstate s' u = WAITING \<and> twait s' u = 0x900))"
  using wakeup_all_empties [OF tiny_safe, of 1 "0x900"] by auto

theorem exit_delivers_status_witness:
  "\<exists>s'. thread_exit 0 42 tiny = Some s' \<and> join_value 0x100 s' = Some 42 \<and> active (tstate s' 0x700)"
proof -
  have "tjoin tiny 0x100 = 0x700" using tiny_facts(3) by (simp add: tiny_thread_def)
  then show ?thesis using exit_delivers_status [OF tiny_safe, of 0 42] tiny_facts(1,2,6) by auto
qed

theorem sleep_blocks_caller_witness: "\<exists>s'. thread_sleep 0 0x900 tiny = Some s' \<and> tstate s' 0x100 = WAITING"
  using sleep_blocks_caller [OF tiny_safe, of 0 "0x900"] tiny_guard by auto

theorem remote_suspend_keeps_running_witness:
  "\<exists>s' x. thread_suspend 1 0x100 tiny = Some s' \<and> k_on s' ! 0 = 0x100 \<and> tstate s' 0x100 = SUSPENDED \<and> thread_running 0 s' = Some x \<and> x \<noteq> 0x100"
  using remote_suspend_keeps_running [OF tiny_safe, of 1 0] tiny_facts(1,2,6) by auto

end
