(* ===== verification/Synchronizers.thy ===== *)
theory Synchronizers
  imports Thread_Properties
begin

text \<open>
  The synchronizers of \<open>include/synchronizer.h\<close> and \<open>src/api/semaphore.cc\<close>, \<open>mutex.cc\<close>, \<open>condition.cc\<close> on top of
  the thread kernel. The waiting queue is the first member of a synchronizer, so both are known by the same
  address. \<open>Thread::lock\<close> and \<open>unlock\<close> enclose every operation: each is one step. \<open>_granted\<close> is never filled
  (its uses are commented out), and enrolling in a \<open>Task\<close> belongs to the multitasking configuration.
  \<open>_value\<close> is a 64-bit \<open>long\<close>; \<open>CPU::fdec\<close> and \<open>CPU::finc\<close> return the old value and wrap.
\<close>

record system =
  sy_kernel :: kernel
  sy_sems :: "ulong store"
  sy_mutexes :: "bool store"

section \<open>Synchronizer_Common\<close>

definition sync_sleep :: "nat \<Rightarrow> addr \<Rightarrow> system \<Rightarrow> system option" where
  "sync_sleep cpu a y = do { s \<leftarrow> thread_sleep cpu a (sy_kernel y); Some (y\<lparr>sy_kernel := s\<rparr>) }"

definition sync_wakeup :: "nat \<Rightarrow> addr \<Rightarrow> system \<Rightarrow> system option" where
  "sync_wakeup cpu a y = do { s \<leftarrow> thread_wakeup cpu a (sy_kernel y); Some (y\<lparr>sy_kernel := s\<rparr>) }"

definition sync_wakeup_all :: "nat \<Rightarrow> addr \<Rightarrow> system \<Rightarrow> system option" where
  "sync_wakeup_all cpu a y = do { s \<leftarrow> thread_wakeup_all cpu a (sy_kernel y); Some (y\<lparr>sy_kernel := s\<rparr>) }"

text \<open>
  The destructor: the loop over \<open>_granted\<close> does not run, and whoever still waits is woken. The members of
  the derived class are gone with it.
\<close>

definition sync_delete :: "nat \<Rightarrow> addr \<Rightarrow> system \<Rightarrow> system option" where
  "sync_delete cpu a y = do {
     y \<leftarrow> sync_wakeup_all cpu a y;
     Some (y\<lparr>sy_sems := (sy_sems y)(a := None), sy_mutexes := (sy_mutexes y)(a := None)\<rparr>) }"

section \<open>Semaphore\<close>

definition sem_init :: "addr \<Rightarrow> ulong \<Rightarrow> system \<Rightarrow> system" where
  "sem_init a v y = y\<lparr>sy_sems := (sy_sems y)(a \<mapsto> v)\<rparr>"

definition fdec :: "addr \<Rightarrow> system \<Rightarrow> (system \<times> ulong) option" where
  "fdec a y = do { v \<leftarrow> load (sy_sems y) a; Some (y\<lparr>sy_sems := (sy_sems y)(a \<mapsto> v - 1)\<rparr>, v) }"

definition finc :: "addr \<Rightarrow> system \<Rightarrow> (system \<times> ulong) option" where
  "finc a y = do { v \<leftarrow> load (sy_sems y) a; Some (y\<lparr>sy_sems := (sy_sems y)(a \<mapsto> v + 1)\<rparr>, v) }"

definition sem_p :: "nat \<Rightarrow> addr \<Rightarrow> system \<Rightarrow> system option" where
  "sem_p cpu a y = do {
     (y, v) \<leftarrow> fdec a y;
     if sint v < 1 then sync_sleep cpu a y else Some y }"

definition sem_v :: "nat \<Rightarrow> addr \<Rightarrow> system \<Rightarrow> system option" where
  "sem_v cpu a y = do {
     (y, v) \<leftarrow> finc a y;
     if sint v < 0 then sync_wakeup cpu a y else Some y }"

section \<open>Mutex\<close>

definition mutex_init :: "addr \<Rightarrow> system \<Rightarrow> system" where
  "mutex_init a y = y\<lparr>sy_mutexes := (sy_mutexes y)(a \<mapsto> False)\<rparr>"

definition tsl :: "addr \<Rightarrow> system \<Rightarrow> (system \<times> bool) option" where
  "tsl a y = do { b \<leftarrow> load (sy_mutexes y) a; Some (y\<lparr>sy_mutexes := (sy_mutexes y)(a \<mapsto> True)\<rparr>, b) }"

definition mutex_lock :: "nat \<Rightarrow> addr \<Rightarrow> system \<Rightarrow> system option" where
  "mutex_lock cpu a y = do {
     (y, b) \<leftarrow> tsl a y;
     if b then sync_sleep cpu a y else Some y }"

definition mutex_unlock :: "nat \<Rightarrow> addr \<Rightarrow> system \<Rightarrow> system option" where
  "mutex_unlock cpu a y = do {
     e \<leftarrow> queue_is_empty a (sy_kernel y);
     if e then do { ms \<leftarrow> modify (sy_mutexes y) a (\<lambda>_. False); Some (y\<lparr>sy_mutexes := ms\<rparr>) }
     else sync_wakeup cpu a y }"

section \<open>Condition\<close>

definition cond_wait :: "nat \<Rightarrow> addr \<Rightarrow> system \<Rightarrow> system option" where
  "cond_wait cpu a y = sync_sleep cpu a y"

definition cond_signal :: "nat \<Rightarrow> addr \<Rightarrow> system \<Rightarrow> system option" where
  "cond_signal cpu a y = sync_wakeup cpu a y"

definition cond_broadcast :: "nat \<Rightarrow> addr \<Rightarrow> system \<Rightarrow> system option" where
  "cond_broadcast cpu a y = sync_wakeup_all cpu a y"

text \<open>The handlers that trigger a synchronizer.\<close>

datatype sync_handler = Mutex_Handler addr | Semaphore_Handler addr | Condition_Handler addr

fun sync_handle :: "nat \<Rightarrow> sync_handler \<Rightarrow> system \<Rightarrow> system option" where
  "sync_handle cpu (Mutex_Handler a) y = mutex_unlock cpu a y"
| "sync_handle cpu (Semaphore_Handler a) y = sem_v cpu a y"
| "sync_handle cpu (Condition_Handler a) y = cond_signal cpu a y"

section \<open>Who waits where\<close>

definition waiters :: "kernel \<Rightarrow> addr \<Rightarrow> addr set" where
  "waiters s q = {t. tstate s t = WAITING \<and> twait s t = q}"

lemma waiters_inactive: "same_inactive s s' \<Longrightarrow> waiters s' = waiters s"
proof -
  assume a: "same_inactive s s'"
  have "tstate s' t = WAITING \<longleftrightarrow> tstate s t = WAITING" for t
    using a unfolding same_inactive_def by (metis active_simps(3))
  moreover have "twait s' = twait s" using a by (simp add: same_inactive_def)
  ultimately show ?thesis by (simp add: waiters_def fun_eq_iff)
qed

lemma waiters_states:
  assumes "twait s' = twait s" "\<And>t. tstate s' t = WAITING \<longleftrightarrow> tstate s t = WAITING"
  shows "waiters s' = waiters s"
  using assms by (simp add: waiters_def fun_eq_iff)

lemma waiters_queue: "kernel_ok n Q s cas ws \<Longrightarrow> ws q = Some as \<Longrightarrow> waiters s q = thread_of s ` set as \<and> card (waiters s q) = length as"
proof
  assume ok: "kernel_ok n Q s cas ws" and q: "ws q = Some as"
  have a: "waiters s q = {u. u \<in> dom (k_threads s) \<and> tlink s u \<in> set as}"
    unfolding waiters_def using waiting_queue(1) [OF ok q] by simp
  have inj: "u = v" if "u \<in> dom (k_threads s)" "v \<in> dom (k_threads s)" "tlink s u = tlink s v" for u v
    using places_inj [OF kernel_inv_places [OF kernel_okD(1) [OF ok]]] that by blast
  show w: "waiters s q = thread_of s ` set as"
  proof (intro set_eqI iffI)
    fix u assume "u \<in> waiters s q"
    then have u: "u \<in> dom (k_threads s)" "tlink s u \<in> set as" using a by auto
    have "thread_of s (tlink s u) = u" by (rule inj) (use waiting_queue(2) [OF ok q u(2)] u in auto)
    then show "u \<in> thread_of s ` set as" using u(2) by (metis imageI)
  next
    fix u assume "u \<in> thread_of s ` set as"
    then show "u \<in> waiters s q" using a waiting_queue(2) [OF ok q] by auto
  qed
  have "distinct as"
    using waits_repD(3) [OF kernel_repD(2) [OF kernel_inv_rep [OF kernel_okD(1) [OF ok]]] q] by (auto simp: list_rep_def)
  moreover have "inj_on (thread_of s) (set as)" by (rule inj_onI) (metis waiting_queue(2) [OF ok q])
  ultimately show "card (waiters s q) = length as" unfolding w by (simp add: card_image distinct_card)
qed

lemma safe_waiters_finite: "safe n Q s \<Longrightarrow> q \<in> Q \<Longrightarrow> finite (waiters s q)"
proof -
  assume "safe n Q s" "q \<in> Q"
  then obtain cas ws as where "kernel_ok n Q s cas ws" "ws q = Some as" unfolding safe_def using kernel_okD(3) by blast
  then show ?thesis using waiters_queue by auto
qed

lemma safe_queue_empty: "safe n Q s \<Longrightarrow> q \<in> Q \<Longrightarrow> queue_is_empty q s = Some (waiters s q = {})"
proof -
  assume "safe n Q s" "q \<in> Q"
  then obtain cas ws as where ok: "kernel_ok n Q s cas ws" "ws q = Some as" unfolding safe_def using kernel_okD(3) by blast
  then show ?thesis using waiters_queue [OF ok] wait_queue_empty [OF ok] by simp
qed

text \<open>How the waiting sets change.\<close>

lemma waiters_sleep:
  assumes "safe n Q s" "c < n" "trank s (k_on s ! c) \<noteq> IDLE" "q \<in> Q"
  shows "\<exists>s'. thread_sleep c q s = Some s' \<and> safe n Q s' \<and> k_on s ! c \<notin> waiters s q \<and>
    waiters s' = (waiters s)(q := insert (k_on s ! c) (waiters s q))"
proof -
  obtain cas ws where ok: "kernel_ok n Q s cas ws" using assms(1) unfolding safe_def by blast
  note k = kernel_okD [OF ok]
  obtain e ds where ready: "snd (cas ! c) = e # ds" using ready_nonempty [OF ok assms(2,3)] .
  obtain as where as: "ws q = Some as" using assms(4) k(3) by blast
  have cl: "c < length cas" using assms(2) k(2) by simp
  obtain s' where s': "thread_sleep c q s = Some s'" "tstate s' = (tstate s)(k_on s ! c := WAITING, thread_of s e := RUNNING)"
    "twait s' = (twait s)(k_on s ! c := q)"
    using sleep_ok [OF k(1) cl ready as] by blast
  note nr = next_ready [OF k(1) cl ready]
  have "waiters s' = (waiters s)(q := insert (k_on s ! c) (waiters s q))"
    using nr s'(2,3) by (auto simp: waiters_def fun_eq_iff)
  then show ?thesis using s'(1) sleep_safe [OF assms] nr by (auto simp: waiters_def)
qed

lemma waiters_wakeup:
  assumes "safe n Q s" "c < n" "q \<in> Q" "waiters s q \<noteq> {}"
  shows "\<exists>s' t. thread_wakeup c q s = Some s' \<and> safe n Q s' \<and> t \<in> waiters s q \<and> waiters s' = (waiters s)(q := waiters s q - {t})"
proof -
  obtain cas ws where ok: "kernel_ok n Q s cas ws" using assms(1) unfolding safe_def by blast
  obtain as where as: "ws q = Some as" using assms(3) kernel_okD(3) [OF ok] by blast
  have "as \<noteq> []" using waiters_queue [OF ok as] assms(4) by auto
  then obtain e bs where eb: "as = e # bs" by (cases as) auto
  let ?t = "thread_of s e"
  obtain s1 cas1 where w: "wake_first q s = Some (s1, tqueue s ?t)" "kernel_ok n Q s1 cas1 (ws(q \<mapsto> bs))"
    "tstate s ?t = WAITING" "tstate s1 = (tstate s)(?t := READY)" "twait s ?t = q" "twait s1 = (twait s)(?t := 0)"
    using wake_first_kernel_ok [OF ok as [unfolded eb]] by blast
  have tw: "waiters s1 = (waiters s)(q := waiters s q - {?t})" using w(3-6) by (auto simp: waiters_def fun_eq_iff)
  obtain s' cas' where s': "reschedule_on c (tqueue s ?t) s1 = Some s'" "kernel_ok n Q s' cas' (ws(q \<mapsto> bs))" "same_inactive s1 s'"
    using reschedule_on_kernel_ok [OF w(2) assms(2)] by blast
  have "thread_wakeup c q s = Some s'" using wait_queue_empty [OF ok as] eb w(1) s'(1) by (simp add: thread_wakeup_def)
  moreover have "?t \<in> waiters s q" using w(3,5) by (simp add: waiters_def)
  ultimately show ?thesis using s'(2) waiters_inactive [OF s'(3)] tw unfolding safe_def by metis
qed

lemma wake_loop_waiters:
  "kernel_ok n Q s cas ws \<Longrightarrow> ws q = Some as \<Longrightarrow> wake_loop q s cpus = Some (s', cpus') \<Longrightarrow> waiters s' = (waiters s)(q := {})"
proof (induction as arbitrary: s cas ws cpus)
  case Nil
  then have "waiters s q = {}" using waiters_queue [OF Nil.prems(1,2)] by simp
  then show ?case using Nil.prems(3) wait_queue_empty [OF Nil.prems(1,2)] by (simp add: wake_loop.simps fun_upd_idem)
next
  case (Cons e as)
  let ?t = "thread_of s e"
  obtain s1 cas1 where w: "wake_first q s = Some (s1, tqueue s ?t)" "kernel_ok n Q s1 cas1 (ws(q \<mapsto> as))"
    "tstate s ?t = WAITING" "tstate s1 = (tstate s)(?t := READY)" "twait s ?t = q" "twait s1 = (twait s)(?t := 0)"
    using wake_first_kernel_ok [OF Cons.prems(1,2)] by blast
  have tw: "waiters s1 = (waiters s)(q := waiters s q - {?t})" using w(3-6) by (auto simp: waiters_def fun_eq_iff)
  have "wake_loop q s1 (insert (tqueue s ?t) cpus) = Some (s', cpus')"
    using Cons.prems(3) wait_queue_empty [OF Cons.prems(1,2)] w(1) by (simp add: wake_loop.simps [of q s])
  from Cons.IH [OF w(2) fun_upd_same this] show ?case unfolding tw by (simp only: fun_upd_upd)
qed

lemma reschedule_each_kernel_ok: "kernel_ok n Q s cas ws \<Longrightarrow> c < n \<Longrightarrow>
    \<exists>s' cas'. reschedule_each c cpus is s = Some s' \<and> kernel_ok n Q s' cas' ws \<and> waiters s' = waiters s"
proof (induction "is" arbitrary: s cas)
  case (Cons i "is")
  obtain s1 cas1 where s1: "(if i \<in> cpus then reschedule_on c i s else Some s) = Some s1" "kernel_ok n Q s1 cas1 ws" "waiters s1 = waiters s"
    using reschedule_on_kernel_ok [OF Cons.prems, of i] Cons.prems waiters_inactive by (cases "i \<in> cpus") auto
  then show ?case using Cons.IH [OF s1(2) Cons.prems(2)] by (simp add: s1(1))
qed auto

lemma waiters_wakeup_all:
  assumes "safe n Q s" "c < n" "q \<in> Q"
  shows "\<exists>s'. thread_wakeup_all c q s = Some s' \<and> safe n Q s' \<and> waiters s' = (waiters s)(q := {})"
proof -
  obtain cas ws where ok: "kernel_ok n Q s cas ws" using assms(1) unfolding safe_def by blast
  obtain as where as: "ws q = Some as" using assms(3) kernel_okD(3) [OF ok] by blast
  show ?thesis
  proof (cases "as = []")
    case True
    then show ?thesis using assms(1) waiters_queue [OF ok as] wait_queue_empty [OF ok as] by (simp add: thread_wakeup_all_def fun_upd_idem)
  next
    case False
    obtain s1 cas1 cpus where s1: "wake_loop q s {} = Some (s1, cpus)" "kernel_ok n Q s1 cas1 (ws(q \<mapsto> []))"
      using wake_loop_ok [OF ok as, of "{}"] by blast
    obtain s' cas' where s': "reschedule_each c cpus [0..<length (k_sched s1)] s1 = Some s'" "kernel_ok n Q s' cas' (ws(q \<mapsto> []))" "waiters s' = waiters s1"
      using reschedule_each_kernel_ok [OF s1(2) assms(2)] by blast
    have "thread_wakeup_all c q s = Some s'" using wait_queue_empty [OF ok as] False s1(1) s'(1) by (simp add: thread_wakeup_all_def)
    then show ?thesis using s'(2,3) wake_loop_waiters [OF ok as s1(1)] unfolding safe_def by auto
  qed
qed

text \<open>The other steps of the kernel.\<close>

lemma kstep_mono: "kstep n {} s s' \<Longrightarrow> kstep n Q s s'"
  by (induction rule: kstep.induct) (auto intro: kstep.intros)

lemma waiters_left: "kernel_inv s cas ws \<Longrightarrow> c < length cas \<Longrightarrow> snd (cas ! c) = e # ds \<Longrightarrow> twait s' = twait s \<Longrightarrow>
    tstate s' = (tstate s)(k_on s ! c := x, thread_of s e := RUNNING) \<Longrightarrow> x \<noteq> WAITING \<Longrightarrow> waiters s' = waiters s"
  using next_ready [of s cas ws c e ds] by (intro waiters_states) auto

lemma kstep_waiters:
  assumes "kstep n {} s s'" "safe n Q s"
  shows "waiters s' = waiters s"
proof -
  obtain cas ws where ok: "kernel_ok n Q s cas ws" using assms(2) unfolding safe_def by blast
  note k = kernel_okD [OF ok]
  have cl: "c < length cas" if "c < n" for c using that k(2) by simp
  show ?thesis
    using assms(1)
  proof (cases rule: kstep.cases)
    case (timer c)
    then show ?thesis using reschedule_on_kernel_ok [OF ok, of c c] waiters_inactive by (auto simp: time_slicer_def reschedule_on_def)
  next
    case (ipi xs c ys)
    have "kernel_ok n Q (s\<lparr>k_ipis := xs @ ys\<rparr>) cas ws"
      using ok by (simp add: kernel_ok_def settled_def joins_ok_def tjoin_def [abs_def])
    then have "waiters s' = waiters (s\<lparr>k_ipis := xs @ ys\<rparr>)"
      using reschedule_on_kernel_ok [of n Q "s\<lparr>k_ipis := xs @ ys\<rparr>" cas ws c c] ipi waiters_inactive by (auto simp: rescheduler_def reschedule_on_def)
    then show ?thesis by (simp add: waiters_def fun_eq_iff)
  next
    case (yield c)
    let ?ca = "queue_next (rank_of (k_elems s)) (cas ! c)"
    have "fst ?ca \<in> members (cas ! c)"
      using elect_members(3,4) [OF k(1) cl [OF yield(1)], of "rank_of (k_elems s)"] members_pair by blast
    then have "active (tstate s (thread_of s (fst ?ca)))" by (rule member_active [OF k(1) cl [OF yield(1)]])
    then show ?thesis
      using yield_ok [OF k(1) cl [OF yield(1)]] yield(2) switches_inactive waiters_inactive by fastforce
  next
    case (suspend c)
    obtain e ds where ready: "snd (cas ! c) = e # ds" using ready_nonempty [OF ok suspend(1,2)] .
    show ?thesis
      using suspend_self_ok [OF k(1) cl [OF suspend(1)] ready] suspend(3) twait_fix [of s s']
        waiters_left [OF k(1) cl [OF suspend(1)] ready, of s' SUSPENDED] by auto
  next
    case (stop c t)
    then obtain th where th: "k_threads s t = Some th" by blast
    then obtain s1 where s1: "thread_suspend c t s = Some s1" "tstate s1 = (tstate s)(t := SUSPENDED)" "twait s1 = twait s"
      using suspend_ready_safe [OF assms(2) stop(1) th] stop(3,4) by auto
    show ?thesis by (rule waiters_states) (use s1 stop in auto)
  next
    case (pass c t)
    then obtain th where th: "k_threads s t = Some th" by blast
    then show ?thesis using pass_safe [OF assms(2) pass(1) th] pass(3-5) waiters_inactive by fastforce
  next
    case (create c t ln st cr v)
    then show ?thesis using new_safe [OF assms(2) create(1-8), of v] by (auto simp: waiters_def fun_eq_iff)
  next
    case (resume c t)
    then obtain th where th: "k_threads s t = Some th" by blast
    then have t0: "t \<noteq> 0" using links_okD [OF kernel_repD(3) [OF kernel_inv_rep [OF k(1)]] th] by simp
    show ?thesis
    proof (cases "th_state th = SUSPENDED")
      case False
      then show ?thesis using resume(4) th t0 by (simp add: thread_resume_def store_simps)
    next
      case True
      note r = resume_ready [OF k(1) th True]
      let ?s0 = "s\<lparr>k_threads := (k_threads s)(t \<mapsto> th\<lparr>th_state := READY\<rparr>)\<rparr>"
      obtain s1 cas1 where s1: "sch_resume t ?s0 = Some s1" "moved ?s0 s1" "kernel_inv s1 cas1 ws" "length cas1 = n"
        "tstate s1 = (tstate s)(t := READY)" "thread_criterion t s1 \<noteq> None"
        using r(3) k(2) by (metis length_list_update)
      have sd: "dsame_data (k_elems s) (k_elems s1)" using movedD(11) [OF s1(2)] by simp
      have "twait s1 = twait s"
        using movedD(9) [OF s1(2)] thread_upd_fields(4) [OF th, of "th\<lparr>th_state := READY\<rparr>"] th by (simp add: fun_upd_idem)
      then have w1: "waiters s1 = waiters s" using s1(5) th True by (intro waiters_states) auto
      obtain q where q: "thread_criterion t s1 = Some q" using s1(6) by blast
      obtain s2 where s2: "reschedule_on c (c_queue q) s1 = Some s2" "same_inactive s1 s2"
        using reschedule_on_inactive [OF s1(3) _ settled_dsame [OF k(4) sd], of c "c_queue q"] resume(1) s1(4) by auto
      have "thread_resume c t s = Some s2"
        using th t0 True r(2) s1(1) q s2(1) by (simp add: thread_resume_def store_simps)
      then show ?thesis using resume(4) waiters_inactive [OF s2(2)] w1 by simp
    qed
  next
    case (join c t)
    then obtain th where th: "k_threads s t = Some th" by blast
    then have t0: "t \<noteq> 0" using links_okD [OF kernel_repD(3) [OF kernel_inv_rep [OF k(1)]] th] by simp
    show ?thesis
    proof (cases "th_state th = FINISHING")
      case True
      then show ?thesis
        using join(4-6) th t0 running_is [OF k(1) cl [OF join(1)]] by (simp add: thread_join_def store_simps)
    next
      case False
      obtain e ds where ready: "snd (cas ! c) = e # ds" using ready_nonempty [OF ok join(1,2)] .
      have j: "th_joining th = 0" using join(4) th by simp
      let ?s0 = "s\<lparr>k_threads := (k_threads s)(t \<mapsto> th\<lparr>th_joining := k_on s ! c\<rparr>)\<rparr>"
      obtain s2 where s2: "thread_join c t s = Some s2" "same_fix ?s0 s2"
        "tstate s2 = (tstate s)(k_on s ! c := SUSPENDED, thread_of s e := RUNNING)"
        using join_ok [OF k(1) cl [OF join(1)] ready th False j join(5)] by blast
      have "twait s2 = twait s"
        using twait_fix [OF s2(2)] thread_upd_fields(4) [OF th, of "th\<lparr>th_joining := k_on s ! c\<rparr>"] th by (simp add: fun_upd_idem)
      then show ?thesis using waiters_left [OF k(1) cl [OF join(1)] ready _ s2(3)] s2(1) join(6) by simp
    qed
  next
    case (exit c status)
    then show ?thesis using exit_safe [OF assms(2) exit(1,2), of status] waiters_states [of s' s] by auto
  qed auto
qed

end
