(* ===== verification/Synchronizer_Properties.thy ===== *)
theory Synchronizer_Properties
  imports Synchronizers
begin

text \<open>
  The contract of the synchronizers, over every interleaving of their operations with the other operations of
  the kernel. A semaphore's negative value counts its waiting threads and an unlocked mutex has none
  (\<open>sync_ok\<close>); from this the counting theorems for semaphores and mutexes follow. Each rule of \<open>ystep\<close> has the
  condition under which the code may be called (a thread that may block is not the idle thread, a counter
  is not at its limit, a mutex that is unlocked is locked).
\<close>

definition sync_ok :: "nat \<Rightarrow> addr set \<Rightarrow> system \<Rightarrow> bool" where
  "sync_ok n Q y \<longleftrightarrow> safe n Q (sy_kernel y) \<and>
     (\<forall>a v. sy_sems y a = Some v \<longrightarrow> a \<in> Q \<and> int (card (waiters (sy_kernel y) a)) = max 0 (- sint v)) \<and>
     (\<forall>a b. sy_mutexes y a = Some b \<longrightarrow> a \<in> Q \<and> (\<not> b \<longrightarrow> waiters (sy_kernel y) a = {})) \<and>
     dom (sy_sems y) \<inter> dom (sy_mutexes y) = {}"

datatype event = P addr | V addr | Lock addr | Unlock addr | Other

definition may_block :: "nat \<Rightarrow> system \<Rightarrow> bool" where
  "may_block c y \<longleftrightarrow> trank (sy_kernel y) (k_on (sy_kernel y) ! c) \<noteq> IDLE"

inductive ystep :: "nat \<Rightarrow> addr set \<Rightarrow> event \<Rightarrow> system \<Rightarrow> system \<Rightarrow> bool" for n Q where
  kernel: "kstep n {} (sy_kernel y) s' \<Longrightarrow> ystep n Q Other y (y\<lparr>sy_kernel := s'\<rparr>)"
| p: "c < n \<Longrightarrow> may_block c y \<Longrightarrow> sy_sems y a = Some v \<Longrightarrow> - (2 ^ 63) < sint v \<Longrightarrow> sem_p c a y = Some y' \<Longrightarrow> ystep n Q (P a) y y'"
| v: "c < n \<Longrightarrow> sy_sems y a = Some v \<Longrightarrow> sint v < 2 ^ 63 - 1 \<Longrightarrow> sem_v c a y = Some y' \<Longrightarrow> ystep n Q (V a) y y'"
| lock: "c < n \<Longrightarrow> may_block c y \<Longrightarrow> sy_mutexes y a \<noteq> None \<Longrightarrow> mutex_lock c a y = Some y' \<Longrightarrow> ystep n Q (Lock a) y y'"
| unlock: "c < n \<Longrightarrow> sy_mutexes y a = Some True \<Longrightarrow> mutex_unlock c a y = Some y' \<Longrightarrow> ystep n Q (Unlock a) y y'"
| wait: "c < n \<Longrightarrow> may_block c y \<Longrightarrow> a \<in> Q - dom (sy_sems y) - dom (sy_mutexes y) \<Longrightarrow> cond_wait c a y = Some y' \<Longrightarrow> ystep n Q Other y y'"
| signal: "c < n \<Longrightarrow> a \<in> Q - dom (sy_sems y) - dom (sy_mutexes y) \<Longrightarrow> cond_signal c a y = Some y' \<Longrightarrow> ystep n Q Other y y'"
| broadcast: "c < n \<Longrightarrow> a \<in> Q - dom (sy_sems y) - dom (sy_mutexes y) \<Longrightarrow> cond_broadcast c a y = Some y' \<Longrightarrow> ystep n Q Other y y'"

inductive yrun :: "nat \<Rightarrow> addr set \<Rightarrow> system \<Rightarrow> event list \<Rightarrow> system \<Rightarrow> bool" for n Q where
  nil: "yrun n Q y [] y"
| snoc: "yrun n Q y es y' \<Longrightarrow> ystep n Q e y' y'' \<Longrightarrow> yrun n Q y (es @ [e]) y''"

section \<open>The invariant\<close>

lemma sync_okD:
  assumes "sync_ok n Q y"
  shows "safe n Q (sy_kernel y)" "sy_sems y a = Some v \<Longrightarrow> a \<in> Q" "sy_sems y a = Some v \<Longrightarrow> int (card (waiters (sy_kernel y) a)) = max 0 (- sint v)"
    "sy_mutexes y a = Some b \<Longrightarrow> a \<in> Q" "sy_mutexes y a = Some False \<Longrightarrow> waiters (sy_kernel y) a = {}"
    "sy_sems y a = Some v \<Longrightarrow> sy_mutexes y a = None"
  using assms unfolding sync_ok_def by blast+

lemma safe_nonnull: "safe n Q s \<Longrightarrow> q \<in> Q \<Longrightarrow> q \<noteq> 0"
proof -
  assume "safe n Q s" "q \<in> Q"
  then obtain cas ws as where "kernel_ok n Q s cas ws" "ws q = Some as" unfolding safe_def using kernel_okD(3) by blast
  then show ?thesis using waits_repD(1) [OF kernel_repD(2) [OF kernel_inv_rep]] kernel_okD(1) by blast
qed

lemma sint_dec: "- (2 ^ 63) < sint (v :: ulong) \<Longrightarrow> sint (v - 1) = sint v - 1"
  using sint_less [of v] by (simp add: sint_word_ariths signed_take_bit_int_eq_self)

lemma sint_inc: "sint (v :: ulong) < 2 ^ 63 - 1 \<Longrightarrow> sint (v + 1) = sint v + 1"
  using sint_ge [of v] by (simp add: sint_word_ariths signed_take_bit_int_eq_self)

text \<open>A step on one semaphore or mutex: what it needs to keep \<open>sync_ok\<close>.\<close>

lemma sync_okI:
  assumes ok: "sync_ok n Q y" and k: "safe n Q (sy_kernel y')" and w: "\<And>r. r \<noteq> a \<Longrightarrow> waiters (sy_kernel y') r = waiters (sy_kernel y) r"
    and s: "sy_sems y' = (sy_sems y)(a := x)" "x \<noteq> None \<longleftrightarrow> sy_sems y a \<noteq> None"
    and m: "sy_mutexes y' = (sy_mutexes y)(a := z)" "z \<noteq> None \<longleftrightarrow> sy_mutexes y a \<noteq> None"
    and xa: "\<And>v. x = Some v \<Longrightarrow> int (card (waiters (sy_kernel y') a)) = max 0 (- sint v)"
    and za: "z = Some False \<Longrightarrow> waiters (sy_kernel y') a = {}"
  shows "sync_ok n Q y'"
  unfolding sync_ok_def
proof (intro conjI allI impI)
  show "safe n Q (sy_kernel y')" by (rule k)
  fix b v
  assume v: "sy_sems y' b = Some v"
  then obtain v' where "sy_sems y b = Some v'" using s by (cases "b = a") auto
  then show "b \<in> Q" by (rule sync_okD(2) [OF ok])
  show "int (card (waiters (sy_kernel y') b)) = max 0 (- sint v)"
    using v s xa w [of b] sync_okD(3) [OF ok, of b v] by (cases "b = a") auto
next
  fix b z'
  assume z': "sy_mutexes y' b = Some z'"
  then obtain z0 where "sy_mutexes y b = Some z0" using m by (cases "b = a") auto
  then show "b \<in> Q" by (rule sync_okD(4) [OF ok])
  assume "\<not> z'"
  then show "waiters (sy_kernel y') b = {}"
    using z' m za w [of b] sync_okD(5) [OF ok, of b] by (cases "b = a") auto
next
  have "dom (sy_sems y') = dom (sy_sems y)" "dom (sy_mutexes y') = dom (sy_mutexes y)" using s m by (auto split: if_splits)
  then show "dom (sy_sems y') \<inter> dom (sy_mutexes y') = {}" using ok by (simp add: sync_ok_def)
qed

lemma sem_p_ok:
  assumes ok: "sync_ok n Q y" and c: "c < n" "may_block c y" and v: "sy_sems y a = Some v" "- (2 ^ 63) < sint v"
  shows "\<exists>y'. sem_p c a y = Some y' \<and> sync_ok n Q y' \<and> sy_sems y' = (sy_sems y)(a \<mapsto> v - 1) \<and> sy_mutexes y' = sy_mutexes y \<and>
    (\<forall>r. r \<noteq> a \<longrightarrow> waiters (sy_kernel y') r = waiters (sy_kernel y) r)"
proof -
  note a = sync_okD(2) [OF ok v(1)] and k = sync_okD(1) [OF ok] and w = sync_okD(3) [OF ok v(1)]
  have a0: "a \<noteq> 0" by (rule safe_nonnull [OF k a])
  have nm: "sy_mutexes y a = None" by (rule sync_okD(6) [OF ok v(1)])
  show ?thesis
  proof (cases "sint v < 1")
    case True
    obtain s' where s': "thread_sleep c a (sy_kernel y) = Some s'" "safe n Q s'" "k_on (sy_kernel y) ! c \<notin> waiters (sy_kernel y) a"
      "waiters s' = (waiters (sy_kernel y))(a := insert (k_on (sy_kernel y) ! c) (waiters (sy_kernel y) a))"
      using waiters_sleep [OF k c(1) c(2) [unfolded may_block_def] a] by blast
    let ?y = "y\<lparr>sy_sems := (sy_sems y)(a \<mapsto> v - 1), sy_kernel := s'\<rparr>"
    have "int (card (waiters s' a)) = max 0 (- sint (v - 1))"
      using s'(3,4) w True sint_dec [OF v(2)] safe_waiters_finite [OF k a] by simp
    then have "sync_ok n Q ?y"
      using s'(2,4) v(1) nm by (intro sync_okI [OF ok, of _ a _ "sy_mutexes y a"]) auto
    then show ?thesis using True s'(1,4) v(1) a0 by (simp add: sem_p_def fdec_def sync_sleep_def store_simps)
  next
    case False
    let ?y = "y\<lparr>sy_sems := (sy_sems y)(a \<mapsto> v - 1)\<rparr>"
    have "sync_ok n Q ?y"
      using v(1) nm k w False sint_dec [OF v(2)] by (intro sync_okI [OF ok, of _ a _ "sy_mutexes y a"]) auto
    then show ?thesis using False v(1) a0 by (simp add: sem_p_def fdec_def store_simps)
  qed
qed

lemma sem_v_ok:
  assumes ok: "sync_ok n Q y" and c: "c < n" and v: "sy_sems y a = Some v" "sint v < 2 ^ 63 - 1"
  shows "\<exists>y'. sem_v c a y = Some y' \<and> sync_ok n Q y' \<and> sy_sems y' = (sy_sems y)(a \<mapsto> v + 1) \<and> sy_mutexes y' = sy_mutexes y \<and>
    (\<forall>r. r \<noteq> a \<longrightarrow> waiters (sy_kernel y') r = waiters (sy_kernel y) r)"
proof -
  note a = sync_okD(2) [OF ok v(1)] and k = sync_okD(1) [OF ok] and w = sync_okD(3) [OF ok v(1)]
  have a0: "a \<noteq> 0" by (rule safe_nonnull [OF k a])
  have nm: "sy_mutexes y a = None" by (rule sync_okD(6) [OF ok v(1)])
  show ?thesis
  proof (cases "sint v < 0")
    case True
    then have "waiters (sy_kernel y) a \<noteq> {}" using w by auto
    then obtain s' t where s': "thread_wakeup c a (sy_kernel y) = Some s'" "safe n Q s'" "t \<in> waiters (sy_kernel y) a"
      "waiters s' = (waiters (sy_kernel y))(a := waiters (sy_kernel y) a - {t})"
      using waiters_wakeup [OF k c a] by blast
    let ?y = "y\<lparr>sy_sems := (sy_sems y)(a \<mapsto> v + 1), sy_kernel := s'\<rparr>"
    have "card (waiters s' a) = card (waiters (sy_kernel y) a) - 1"
      using s'(3,4) by simp
    then have "int (card (waiters s' a)) = max 0 (- sint (v + 1))"
      using w True sint_inc [OF v(2)] by simp
    then have "sync_ok n Q ?y"
      using s'(2,4) v(1) nm by (intro sync_okI [OF ok, of _ a _ "sy_mutexes y a"]) auto
    then show ?thesis using True s'(1,4) v(1) a0 by (simp add: sem_v_def finc_def sync_wakeup_def store_simps)
  next
    case False
    let ?y = "y\<lparr>sy_sems := (sy_sems y)(a \<mapsto> v + 1)\<rparr>"
    have "sync_ok n Q ?y"
      using v(1) nm k w False sint_inc [OF v(2)] by (intro sync_okI [OF ok, of _ a _ "sy_mutexes y a"]) auto
    then show ?thesis using False v(1) a0 by (simp add: sem_v_def finc_def store_simps)
  qed
qed

lemma mutex_lock_ok:
  assumes ok: "sync_ok n Q y" and c: "c < n" "may_block c y" and b: "sy_mutexes y a = Some b"
  shows "\<exists>y'. mutex_lock c a y = Some y' \<and> sync_ok n Q y' \<and> sy_mutexes y' a = Some True \<and> sy_sems y' = sy_sems y \<and>
    (\<forall>r. r \<noteq> a \<longrightarrow> waiters (sy_kernel y') r = waiters (sy_kernel y) r \<and> sy_mutexes y' r = sy_mutexes y r) \<and>
    card (waiters (sy_kernel y') a) = card (waiters (sy_kernel y) a) + (if b then 1 else 0)"
proof -
  note a = sync_okD(4) [OF ok b] and k = sync_okD(1) [OF ok]
  have a0: "a \<noteq> 0" by (rule safe_nonnull [OF k a])
  have ns: "sy_sems y a = None" using sync_okD(6) [OF ok, of a] b by (cases "sy_sems y a") auto
  show ?thesis
  proof (cases b)
    case True
    obtain s' where s': "thread_sleep c a (sy_kernel y) = Some s'" "safe n Q s'" "k_on (sy_kernel y) ! c \<notin> waiters (sy_kernel y) a"
      "waiters s' = (waiters (sy_kernel y))(a := insert (k_on (sy_kernel y) ! c) (waiters (sy_kernel y) a))"
      using waiters_sleep [OF k c(1) c(2) [unfolded may_block_def] a] by blast
    let ?y = "y\<lparr>sy_mutexes := (sy_mutexes y)(a \<mapsto> True), sy_kernel := s'\<rparr>"
    have "sync_ok n Q ?y"
      using s'(2,4) b ns by (intro sync_okI [OF ok, of _ a "sy_sems y a" "Some True"]) auto
    then show ?thesis
      using True s' b a0 safe_waiters_finite [OF k a] by (simp add: mutex_lock_def tsl_def sync_sleep_def store_simps)
  next
    case False
    let ?y = "y\<lparr>sy_mutexes := (sy_mutexes y)(a \<mapsto> True)\<rparr>"
    have "sync_ok n Q ?y" using k b ns by (intro sync_okI [OF ok, of _ a "sy_sems y a" "Some True"]) auto
    then show ?thesis using False b a0 by (simp add: mutex_lock_def tsl_def store_simps)
  qed
qed

lemma mutex_unlock_ok:
  assumes ok: "sync_ok n Q y" and c: "c < n" and b: "sy_mutexes y a = Some True"
  shows "\<exists>y' b'. mutex_unlock c a y = Some y' \<and> sync_ok n Q y' \<and> sy_mutexes y' = (sy_mutexes y)(a \<mapsto> b') \<and> sy_sems y' = sy_sems y \<and>
    (b' \<longleftrightarrow> waiters (sy_kernel y) a \<noteq> {}) \<and> (\<forall>r. r \<noteq> a \<longrightarrow> waiters (sy_kernel y') r = waiters (sy_kernel y) r) \<and>
    card (waiters (sy_kernel y') a) = card (waiters (sy_kernel y) a) - 1"
proof -
  note a = sync_okD(4) [OF ok b] and k = sync_okD(1) [OF ok]
  have a0: "a \<noteq> 0" by (rule safe_nonnull [OF k a])
  have ns: "sy_sems y a = None" using sync_okD(6) [OF ok, of a] b by (cases "sy_sems y a") auto
  note e = safe_queue_empty [OF k a]
  show ?thesis
  proof (cases "waiters (sy_kernel y) a = {}")
    case True
    let ?y = "y\<lparr>sy_mutexes := (sy_mutexes y)(a \<mapsto> False)\<rparr>"
    have "sync_ok n Q ?y" using k b ns True by (intro sync_okI [OF ok, of _ a "sy_sems y a" "Some False"]) auto
    then show ?thesis using True b a0 e by (intro exI [of _ ?y] exI [of _ False]) (simp add: mutex_unlock_def store_simps)
  next
    case False
    obtain s' t where s': "thread_wakeup c a (sy_kernel y) = Some s'" "safe n Q s'" "t \<in> waiters (sy_kernel y) a"
      "waiters s' = (waiters (sy_kernel y))(a := waiters (sy_kernel y) a - {t})"
      using waiters_wakeup [OF k c a False] by blast
    let ?y = "y\<lparr>sy_kernel := s'\<rparr>"
    have m: "(sy_mutexes y)(a \<mapsto> True) = sy_mutexes y" using b by (simp add: fun_upd_idem)
    have "sync_ok n Q ?y"
      using s'(2,4) b ns m by (intro sync_okI [OF ok, of _ a "sy_sems y a" "Some True"]) auto
    then show ?thesis
      using False s' e m by (intro exI [of _ ?y] exI [of _ True]) (simp add: mutex_unlock_def sync_wakeup_def)
  qed
qed

lemma cond_ok:
  assumes ok: "sync_ok n Q y" and a: "a \<in> Q - dom (sy_sems y) - dom (sy_mutexes y)"
    and s: "safe n Q s'" "\<And>r. r \<noteq> a \<Longrightarrow> waiters s' r = waiters (sy_kernel y) r"
  shows "sync_ok n Q (y\<lparr>sy_kernel := s'\<rparr>)"
  using s a by (intro sync_okI [OF ok, of _ a None None]) (auto simp: domIff)

lemma cond_wait_ok:
  assumes ok: "sync_ok n Q y" and c: "c < n" "may_block c y" and a: "a \<in> Q - dom (sy_sems y) - dom (sy_mutexes y)"
  shows "\<exists>s'. cond_wait c a y = Some (y\<lparr>sy_kernel := s'\<rparr>) \<and> sync_ok n Q (y\<lparr>sy_kernel := s'\<rparr>) \<and>
    waiters s' = (waiters (sy_kernel y))(a := insert (k_on (sy_kernel y) ! c) (waiters (sy_kernel y) a))"
  using waiters_sleep [OF sync_okD(1) [OF ok] c(1) c(2) [unfolded may_block_def], of a] a cond_ok [OF ok a]
  by (fastforce simp: cond_wait_def sync_sleep_def)

lemma cond_signal_ok:
  assumes ok: "sync_ok n Q y" and c: "c < n" and a: "a \<in> Q - dom (sy_sems y) - dom (sy_mutexes y)"
  shows "\<exists>s'. cond_signal c a y = Some (y\<lparr>sy_kernel := s'\<rparr>) \<and> sync_ok n Q (y\<lparr>sy_kernel := s'\<rparr>) \<and>
    (if waiters (sy_kernel y) a = {} then s' = sy_kernel y
     else \<exists>t \<in> waiters (sy_kernel y) a. waiters s' = (waiters (sy_kernel y))(a := waiters (sy_kernel y) a - {t}))"
proof (cases "waiters (sy_kernel y) a = {}")
  case True
  then have e: "queue_is_empty a (sy_kernel y) = Some True" using safe_queue_empty [OF sync_okD(1) [OF ok], of a] a by simp
  have "y\<lparr>sy_kernel := sy_kernel y\<rparr> = y" by simp
  then show ?thesis using ok e True
    by (intro exI [of _ "sy_kernel y"]) (auto simp: cond_signal_def sync_wakeup_def thread_wakeup_def)
next
  case False
  then obtain s' t where "thread_wakeup c a (sy_kernel y) = Some s'" "safe n Q s'" "t \<in> waiters (sy_kernel y) a"
    "waiters s' = (waiters (sy_kernel y))(a := waiters (sy_kernel y) a - {t})"
    using waiters_wakeup [OF sync_okD(1) [OF ok] c] a by blast
  then show ?thesis using cond_ok [OF ok a, of s'] False by (auto simp: cond_signal_def sync_wakeup_def)
qed

lemma cond_broadcast_ok:
  assumes ok: "sync_ok n Q y" and c: "c < n" and a: "a \<in> Q - dom (sy_sems y) - dom (sy_mutexes y)"
  shows "\<exists>s'. cond_broadcast c a y = Some (y\<lparr>sy_kernel := s'\<rparr>) \<and> sync_ok n Q (y\<lparr>sy_kernel := s'\<rparr>) \<and>
    waiters s' = (waiters (sy_kernel y))(a := {})"
  using waiters_wakeup_all [OF sync_okD(1) [OF ok] c, of a] a cond_ok [OF ok a]
  by (fastforce simp: cond_broadcast_def sync_wakeup_all_def)

text \<open>Deleting a synchronizer releases everybody who waits, and the queue can be used for another one.\<close>

lemma sync_delete_ok:
  assumes ok: "sync_ok n Q y" and c: "c < n" and a: "a \<in> Q"
  shows "\<exists>y'. sync_delete c a y = Some y' \<and> sync_ok n Q y' \<and> waiters (sy_kernel y') = (waiters (sy_kernel y))(a := {}) \<and>
    sy_sems y' = (sy_sems y)(a := None) \<and> sy_mutexes y' = (sy_mutexes y)(a := None)"
proof -
  obtain s' where s': "thread_wakeup_all c a (sy_kernel y) = Some s'" "safe n Q s'" "waiters s' = (waiters (sy_kernel y))(a := {})"
    using waiters_wakeup_all [OF sync_okD(1) [OF ok] c a] by blast
  have "sync_ok n Q (y\<lparr>sy_kernel := s', sy_sems := (sy_sems y)(a := None), sy_mutexes := (sy_mutexes y)(a := None)\<rparr>)"
    using ok s'(2,3) unfolding sync_ok_def by auto
  then show ?thesis using s' by (simp add: sync_delete_def sync_wakeup_all_def)
qed

lemma kernel_step_ok:
  assumes ok: "sync_ok n Q y" and s: "kstep n {} (sy_kernel y) s'"
  shows "sync_ok n Q (y\<lparr>sy_kernel := s'\<rparr>)" "waiters s' = waiters (sy_kernel y)"
proof -
  show w: "waiters s' = waiters (sy_kernel y)" by (rule kstep_waiters [OF s sync_okD(1) [OF ok]])
  have "safe n Q s'" by (rule kstep_safe [OF kstep_mono [OF s] sync_okD(1) [OF ok]])
  then show "sync_ok n Q (y\<lparr>sy_kernel := s'\<rparr>)" using ok w by (simp add: sync_ok_def)
qed

lemma ystep_ok: "ystep n Q e y y' \<Longrightarrow> sync_ok n Q y \<Longrightarrow> sync_ok n Q y'"
proof (induction rule: ystep.induct)
  case (kernel y s')
  then show ?case using kernel_step_ok(1) by blast
next
  case (p c y a v y')
  then show ?case using sem_p_ok [OF p.prems p.hyps(1-4)] by simp
next
  case (v c y a v y')
  then show ?case using sem_v_ok [OF v.prems v.hyps(1-3)] by simp
next
  case (lock c y a y')
  then obtain b where b: "sy_mutexes y a = Some b" by blast
  show ?case using mutex_lock_ok [OF lock.prems lock.hyps(1,2) b] lock.hyps(4) by auto
next
  case (unlock c y a y')
  then show ?case using mutex_unlock_ok [OF unlock.prems unlock.hyps(1,2)] by auto
next
  case (wait c y a y')
  then show ?case using cond_wait_ok [OF wait.prems wait.hyps(1-3)] by auto
next
  case (signal c a y y')
  then show ?case using cond_signal_ok [OF signal.prems signal.hyps(1,2)] by auto
next
  case (broadcast c a y y')
  then show ?case using cond_broadcast_ok [OF broadcast.prems broadcast.hyps(1,2)] by auto
qed

lemma yrun_ok: "yrun n Q y es y' \<Longrightarrow> sync_ok n Q y \<Longrightarrow> sync_ok n Q y'"
  by (induction rule: yrun.induct) (blast intro: ystep_ok)+

section \<open>Properties\<close>

lemma sem_step:
  assumes "ystep n Q e y y'" "sync_ok n Q y" "sy_sems y a = Some v"
  shows "\<exists>v'. sy_sems y' a = Some v' \<and> sint v' = sint v + (if e = V a then 1 else 0) - (if e = P a then 1 else 0)"
  using assms(1)
proof (cases rule: ystep.cases)
  case (p c b w)
  then show ?thesis using sem_p_ok [OF assms(2) p(2-5)] assms(3) sint_dec by (cases "a = b") auto
next
  case (v c b w)
  then show ?thesis using sem_v_ok [OF assms(2) v(2-4)] assms(3) sint_inc by (cases "a = b") auto
next
  case (lock c b)
  then obtain z where z: "sy_mutexes y b = Some z" by blast
  then show ?thesis using mutex_lock_ok [OF assms(2) lock(2,3) z] lock assms(3) by auto
next
  case (unlock c b)
  then show ?thesis using mutex_unlock_ok [OF assms(2) unlock(2,3)] assms(3) by auto
next
  case (wait c b)
  then show ?thesis using cond_wait_ok [OF assms(2) wait(2-4)] assms(3) by auto
next
  case (signal c b)
  then show ?thesis using cond_signal_ok [OF assms(2) signal(2,3)] assms(3) by auto
next
  case (broadcast c b)
  then show ?thesis using cond_broadcast_ok [OF assms(2) broadcast(2,3)] assms(3) by auto
qed (use assms(3) in auto)

lemma count_snoc: "count_list (es @ [e]) x = count_list es x + (if e = x then 1 else 0)"
  by (simp add: count_list_append)

text \<open>
  C4. The semaphore counts. Over any run, the value is the initial value plus the \<open>v\<close> operations minus the \<open>p\<close>
  operations, and exactly the \<open>p\<close> operations that are not covered wait: no more threads pass \<open>p\<close> than the
  initial value and the calls of \<open>v\<close> allow, and none waits while there is a unit left.
\<close>

theorem semaphore_counts:
  assumes "yrun n Q y es y'" "sync_ok n Q y" "sy_sems y a = Some v"
  shows "\<exists>v'. sy_sems y' a = Some v' \<and> sint v' = sint v + int (count_list es (V a)) - int (count_list es (P a)) \<and>
    int (card (waiters (sy_kernel y') a)) = max 0 (int (count_list es (P a)) - int (count_list es (V a)) - sint v)"
proof -
  have "\<exists>v'. sy_sems y' a = Some v' \<and> sint v' = sint v + int (count_list es (V a)) - int (count_list es (P a))"
    using assms
  proof (induction rule: yrun.induct)
    case (snoc y es y1 e y2)
    obtain v1 where v1: "sy_sems y1 a = Some v1" "sint v1 = sint v + int (count_list es (V a)) - int (count_list es (P a))"
      using snoc.IH snoc.prems by blast
    show ?case using sem_step [OF snoc.hyps(2) yrun_ok [OF snoc.hyps(1) snoc.prems(1)] v1(1)] v1(2) by (auto simp: count_snoc)
  qed simp
  then show ?thesis using sync_okD(3) [OF yrun_ok [OF assms(1,2)]] by fastforce
qed

lemma mutex_step:
  assumes "ystep n Q e y y'" "sync_ok n Q y" "sy_mutexes y a = Some b"
  shows "\<exists>b'. sy_mutexes y' a = Some b' \<and>
    card (waiters (sy_kernel y') a) + of_bool b' + of_bool (e = Unlock a) = card (waiters (sy_kernel y) a) + of_bool b + (of_bool (e = Lock a) :: nat)"
  using assms(1)
proof (cases rule: ystep.cases)
  case (kernel s')
  then show ?thesis using kernel_step_ok(2) [OF assms(2) kernel(3)] assms(3) by simp
next
  case (p c b' w)
  then have "a \<noteq> b'" using sync_okD(6) [OF assms(2) p(4)] assms(3) by auto
  then show ?thesis using sem_p_ok [OF assms(2) p(2-5)] p(1,6) assms(3) by auto
next
  case (v c b' w)
  then have "a \<noteq> b'" using sync_okD(6) [OF assms(2) v(3)] assms(3) by auto
  then show ?thesis using sem_v_ok [OF assms(2) v(2-4)] v(1,5) assms(3) by auto
next
  case (lock c b')
  then obtain z where z: "sy_mutexes y b' = Some z" by blast
  then show ?thesis
    using mutex_lock_ok [OF assms(2) lock(2,3) z] lock(1,5) assms(3) sync_okD(5) [OF assms(2), of a] by (cases "a = b'"; cases z) auto
next
  case (unlock c b')
  obtain y1 b1 where u: "y' = y1" "sy_mutexes y1 = (sy_mutexes y)(b' \<mapsto> b1)" "b1 \<longleftrightarrow> waiters (sy_kernel y) b' \<noteq> {}"
    "\<forall>r. r \<noteq> b' \<longrightarrow> waiters (sy_kernel y1) r = waiters (sy_kernel y) r"
    "card (waiters (sy_kernel y1) b') = card (waiters (sy_kernel y) b') - 1"
    using mutex_unlock_ok [OF assms(2) unlock(2,3)] unlock(4) by auto
  have "0 < card (waiters (sy_kernel y) b')" if "waiters (sy_kernel y) b' \<noteq> {}"
    using that safe_waiters_finite [OF sync_okD(1) [OF assms(2)] sync_okD(4) [OF assms(2) unlock(3)]] by (simp add: card_gt_0_iff)
  then show ?thesis using u unlock(1,3) assms(3)
    by (intro exI [of _ "if a = b' then b1 else b"]) (cases "a = b'"; cases "waiters (sy_kernel y) b' = {}"; simp)
next
  case (wait c b')
  then have ab: "a \<noteq> b'" using assms(3) by auto
  obtain s' where s': "y' = y\<lparr>sy_kernel := s'\<rparr>" "waiters s' = (waiters (sy_kernel y))(b' := insert (k_on (sy_kernel y) ! c) (waiters (sy_kernel y) b'))"
    using cond_wait_ok [OF assms(2) wait(2-4)] wait(5) by auto
  then have "waiters (sy_kernel y') a = waiters (sy_kernel y) a" "sy_mutexes y' = sy_mutexes y" using ab by simp_all
  then show ?thesis using wait(1) assms(3) by simp
next
  case (signal c b')
  then have ab: "a \<noteq> b'" using assms(3) by auto
  obtain s' where s': "y' = y\<lparr>sy_kernel := s'\<rparr>" "if waiters (sy_kernel y) b' = {} then s' = sy_kernel y
     else \<exists>t \<in> waiters (sy_kernel y) b'. waiters s' = (waiters (sy_kernel y))(b' := waiters (sy_kernel y) b' - {t})"
    using cond_signal_ok [OF assms(2) signal(2,3)] signal(4) by fastforce
  then have "waiters (sy_kernel y') a = waiters (sy_kernel y) a" "sy_mutexes y' = sy_mutexes y" using ab by (auto split: if_splits)
  then show ?thesis using signal(1) assms(3) by simp
next
  case (broadcast c b')
  then have ab: "a \<noteq> b'" using assms(3) by auto
  obtain s' where s': "y' = y\<lparr>sy_kernel := s'\<rparr>" "waiters s' = (waiters (sy_kernel y))(b' := {})"
    using cond_broadcast_ok [OF assms(2) broadcast(2,3)] broadcast(4) by auto
  then have "waiters (sy_kernel y') a = waiters (sy_kernel y) a" "sy_mutexes y' = sy_mutexes y" using ab by simp_all
  then show ?thesis using broadcast(1) assms(3) by simp
qed

text \<open>
  C5. Mutual exclusion. Over any run from a state in which the mutex is free, the calls of \<open>lock\<close> that have
  returned (all but those that wait) exceed the calls of \<open>unlock\<close> by one when the mutex is locked and
  by none when it is not: at most one thread is in the critical section, and when it is free nobody waits.
\<close>

theorem mutex_excludes:
  assumes "yrun n Q y es y'" "sync_ok n Q y" "sy_mutexes y a = Some False"
  shows "\<exists>b. sy_mutexes y' a = Some b \<and>
    count_list es (Lock a) = count_list es (Unlock a) + card (waiters (sy_kernel y') a) + (if b then 1 else 0) \<and>
    (\<not> b \<longrightarrow> waiters (sy_kernel y') a = {})"
proof -
  have "\<exists>b. sy_mutexes y' a = Some b \<and> count_list es (Lock a) = count_list es (Unlock a) + card (waiters (sy_kernel y') a) + of_bool b"
    using assms
  proof (induction rule: yrun.induct)
    case (nil y)
    then show ?case using sync_okD(5) [OF nil(1), of a] by (intro exI [of _ False]) simp
  next
    case (snoc y es y1 e y2)
    obtain b1 where b1: "sy_mutexes y1 a = Some b1"
      "count_list es (Lock a) = count_list es (Unlock a) + card (waiters (sy_kernel y1) a) + of_bool b1"
      using snoc.IH snoc.prems by blast
    obtain b2 where b2: "sy_mutexes y2 a = Some b2" "card (waiters (sy_kernel y2) a) + of_bool b2 + of_bool (e = Unlock a) =
        card (waiters (sy_kernel y1) a) + of_bool b1 + (of_bool (e = Lock a) :: nat)"
      using mutex_step [OF snoc.hyps(2) yrun_ok [OF snoc.hyps(1) snoc.prems(1)] b1(1)] by blast
    show ?case
      by (intro exI [of _ b2]) (use b1(2) b2 in \<open>cases "e = Lock a"; cases "e = Unlock a"; simp add: count_snoc\<close>)
  qed
  then show ?thesis using sync_okD(5) [OF yrun_ok [OF assms(1,2)]] by auto
qed

text \<open>
  C6. No operation of a condition fails, and each keeps the invariant; \<open>wait\<close> blocks exactly the caller, which did not wait before,
  \<open>signal\<close> wakes exactly one of the threads that wait, if there are any, and does nothing otherwise, and \<open>broadcast\<close> wakes them all.
\<close>

theorem condition_contract:
  assumes "sync_ok n Q y" "c < n" "a \<in> Q - dom (sy_sems y) - dom (sy_mutexes y)"
  shows "(may_block c y \<longrightarrow> (\<exists>y'. cond_wait c a y = Some y' \<and> sync_ok n Q y' \<and>
      k_on (sy_kernel y) ! c \<notin> waiters (sy_kernel y) a \<and>
      waiters (sy_kernel y') = (waiters (sy_kernel y))(a := insert (k_on (sy_kernel y) ! c) (waiters (sy_kernel y) a)))) \<and>
    (\<exists>y'. cond_signal c a y = Some y' \<and> sync_ok n Q y' \<and>
      (if waiters (sy_kernel y) a = {} then y' = y
       else \<exists>t \<in> waiters (sy_kernel y) a. waiters (sy_kernel y') = (waiters (sy_kernel y))(a := waiters (sy_kernel y) a - {t}))) \<and>
    (\<exists>y'. cond_broadcast c a y = Some y' \<and> sync_ok n Q y' \<and> waiters (sy_kernel y') = (waiters (sy_kernel y))(a := {}))"
proof (intro conjI impI)
  assume m: "may_block c y"
  have "k_on (sy_kernel y) ! c \<notin> waiters (sy_kernel y) a"
    using waiters_sleep [OF sync_okD(1) [OF assms(1)] assms(2) m [unfolded may_block_def]] assms(3) by blast
  then show "\<exists>y'. cond_wait c a y = Some y' \<and> sync_ok n Q y' \<and> k_on (sy_kernel y) ! c \<notin> waiters (sy_kernel y) a \<and>
      waiters (sy_kernel y') = (waiters (sy_kernel y))(a := insert (k_on (sy_kernel y) ! c) (waiters (sy_kernel y) a))"
    using cond_wait_ok [OF assms(1,2) m assms(3)] by fastforce
next
  obtain s' where s': "cond_signal c a y = Some (y\<lparr>sy_kernel := s'\<rparr>)" "sync_ok n Q (y\<lparr>sy_kernel := s'\<rparr>)"
    "if waiters (sy_kernel y) a = {} then s' = sy_kernel y
     else \<exists>t \<in> waiters (sy_kernel y) a. waiters s' = (waiters (sy_kernel y))(a := waiters (sy_kernel y) a - {t})"
    using cond_signal_ok [OF assms] by blast
  then show "\<exists>y'. cond_signal c a y = Some y' \<and> sync_ok n Q y' \<and>
      (if waiters (sy_kernel y) a = {} then y' = y
       else \<exists>t \<in> waiters (sy_kernel y) a. waiters (sy_kernel y') = (waiters (sy_kernel y))(a := waiters (sy_kernel y) a - {t}))"
    by (intro exI [of _ "y\<lparr>sy_kernel := s'\<rparr>"]) (simp split: if_splits)
next
  show "\<exists>y'. cond_broadcast c a y = Some y' \<and> sync_ok n Q y' \<and> waiters (sy_kernel y') = (waiters (sy_kernel y))(a := {})"
    using cond_broadcast_ok [OF assms] by fastforce
qed

section \<open>Witnesses\<close>

text \<open>A semaphore that two threads wait for, on the concrete kernel; the mutex is free.\<close>

definition tiny_system :: system where
  "tiny_system = \<lparr>sy_kernel = tiny, sy_sems = [0x900 \<mapsto> - 2], sy_mutexes = Map.empty\<rparr>"

lemma tiny_waiters: "card (waiters tiny 0x900) = 2"
proof -
  have "tiny_ws 0x900 = Some [0x508, 0x608]" by (simp add: tiny_ws_def)
  from conjunct2 [OF waiters_queue [OF tiny_kernel_ok this]] show ?thesis by simp
qed

lemma tiny_system_ok: "sync_ok 2 {0x900, 0xA00} tiny_system"
  using tiny_safe tiny_waiters by (auto simp: sync_ok_def tiny_system_def)

definition tiny_mutex :: system where
  "tiny_mutex = \<lparr>sy_kernel = tiny, sy_sems = Map.empty, sy_mutexes = [0xA00 \<mapsto> False]\<rparr>"

lemma tiny_mutex_ok: "sync_ok 2 {0x900, 0xA00} tiny_mutex"
proof -
  have "tiny_ws 0xA00 = Some []" by (simp add: tiny_ws_def)
  from waiters_queue [OF tiny_kernel_ok this] have "waiters tiny 0xA00 = {}" by simp
  then show ?thesis using tiny_safe by (simp add: sync_ok_def tiny_mutex_def)
qed

theorem semaphore_counts_witness:
  "\<exists>y' v'. sem_v 0 0x900 tiny_system = Some y' \<and> sy_sems y' 0x900 = Some v' \<and> sint v' = - 1 \<and> card (waiters (sy_kernel y') 0x900) = 1"
proof -
  have v: "sy_sems tiny_system 0x900 = Some (- 2)" by (simp add: tiny_system_def)
  obtain y' where y': "sem_v 0 0x900 tiny_system = Some y'" using sem_v_ok [OF tiny_system_ok, of 0, OF _ v] by auto
  have "yrun 2 {0x900, 0xA00} tiny_system ([] @ [V 0x900]) y'"
    by (rule yrun.snoc [OF yrun.nil]) (rule ystep.v [OF _ v _ y'], simp_all)
  from semaphore_counts [OF this tiny_system_ok v] y' show ?thesis by auto
qed

theorem mutex_excludes_witness:
  "\<exists>y'. mutex_lock 0 0xA00 tiny_mutex = Some y' \<and> sy_mutexes y' 0xA00 = Some True \<and> card (waiters (sy_kernel y') 0xA00) = 0"
proof -
  have f: "sy_mutexes tiny_mutex 0xA00 = Some False" by (simp add: tiny_mutex_def)
  have m: "may_block 0 tiny_mutex" using tiny_facts by (simp add: may_block_def tiny_mutex_def)
  obtain y' where y': "mutex_lock 0 0xA00 tiny_mutex = Some y'" "sy_mutexes y' 0xA00 = Some True"
    using mutex_lock_ok [OF tiny_mutex_ok _ m f] by auto
  have "yrun 2 {0x900, 0xA00} tiny_mutex ([] @ [Lock 0xA00]) y'"
    by (rule yrun.snoc [OF yrun.nil]) (rule ystep.lock [OF _ m _ y'(1)], simp_all add: f)
  from mutex_excludes [OF this tiny_mutex_ok f] y' show ?thesis by auto
qed

theorem condition_contract_witness: "\<exists>y'. cond_broadcast 0 0x900 (tiny_system\<lparr>sy_sems := Map.empty\<rparr>) = Some y' \<and> waiters (sy_kernel y') 0x900 = {}"
proof -
  have "sync_ok 2 {0x900, 0xA00} (tiny_system\<lparr>sy_sems := Map.empty\<rparr>)" using tiny_safe by (simp add: sync_ok_def tiny_system_def)
  from condition_contract [OF this, of 0 "0x900"] show ?thesis by (auto simp: tiny_system_def)
qed

end
