(* ===== verification/Aes.thy ===== *)
theory Aes
  imports Prelude
begin

text \<open>
  The software implementation of the Advanced Encryption Standard with 128-bit keys (\<open>utility/aes.h\<close> and
  \<open>aes.cc\<close>). The 4 x 4 array \<open>State\<close> is overlaid on the 16 bytes of the output buffer, so it is the
  list of those bytes and \<open>(*_state)[i][j]\<close> is byte \<open>4 i + j\<close>. Buffers are ranges of byte addresses of one
  memory: input, key, output and initial vector may overlap, and what that does is visible in the model.
  \<open>memcpy\<close> copies a block at once. The tracing calls only print.
\<close>

unbundle bit_operations_syntax

section \<open>Tables\<close>

definition sbox :: "byte list" where
  "sbox = [0x63, 0x7c, 0x77, 0x7b, 0xf2, 0x6b, 0x6f, 0xc5, 0x30, 0x01, 0x67, 0x2b, 0xfe, 0xd7, 0xab, 0x76,
   0xca, 0x82, 0xc9, 0x7d, 0xfa, 0x59, 0x47, 0xf0, 0xad, 0xd4, 0xa2, 0xaf, 0x9c, 0xa4, 0x72, 0xc0,
   0xb7, 0xfd, 0x93, 0x26, 0x36, 0x3f, 0xf7, 0xcc, 0x34, 0xa5, 0xe5, 0xf1, 0x71, 0xd8, 0x31, 0x15,
   0x04, 0xc7, 0x23, 0xc3, 0x18, 0x96, 0x05, 0x9a, 0x07, 0x12, 0x80, 0xe2, 0xeb, 0x27, 0xb2, 0x75,
   0x09, 0x83, 0x2c, 0x1a, 0x1b, 0x6e, 0x5a, 0xa0, 0x52, 0x3b, 0xd6, 0xb3, 0x29, 0xe3, 0x2f, 0x84,
   0x53, 0xd1, 0x00, 0xed, 0x20, 0xfc, 0xb1, 0x5b, 0x6a, 0xcb, 0xbe, 0x39, 0x4a, 0x4c, 0x58, 0xcf,
   0xd0, 0xef, 0xaa, 0xfb, 0x43, 0x4d, 0x33, 0x85, 0x45, 0xf9, 0x02, 0x7f, 0x50, 0x3c, 0x9f, 0xa8,
   0x51, 0xa3, 0x40, 0x8f, 0x92, 0x9d, 0x38, 0xf5, 0xbc, 0xb6, 0xda, 0x21, 0x10, 0xff, 0xf3, 0xd2,
   0xcd, 0x0c, 0x13, 0xec, 0x5f, 0x97, 0x44, 0x17, 0xc4, 0xa7, 0x7e, 0x3d, 0x64, 0x5d, 0x19, 0x73,
   0x60, 0x81, 0x4f, 0xdc, 0x22, 0x2a, 0x90, 0x88, 0x46, 0xee, 0xb8, 0x14, 0xde, 0x5e, 0x0b, 0xdb,
   0xe0, 0x32, 0x3a, 0x0a, 0x49, 0x06, 0x24, 0x5c, 0xc2, 0xd3, 0xac, 0x62, 0x91, 0x95, 0xe4, 0x79,
   0xe7, 0xc8, 0x37, 0x6d, 0x8d, 0xd5, 0x4e, 0xa9, 0x6c, 0x56, 0xf4, 0xea, 0x65, 0x7a, 0xae, 0x08,
   0xba, 0x78, 0x25, 0x2e, 0x1c, 0xa6, 0xb4, 0xc6, 0xe8, 0xdd, 0x74, 0x1f, 0x4b, 0xbd, 0x8b, 0x8a,
   0x70, 0x3e, 0xb5, 0x66, 0x48, 0x03, 0xf6, 0x0e, 0x61, 0x35, 0x57, 0xb9, 0x86, 0xc1, 0x1d, 0x9e,
   0xe1, 0xf8, 0x98, 0x11, 0x69, 0xd9, 0x8e, 0x94, 0x9b, 0x1e, 0x87, 0xe9, 0xce, 0x55, 0x28, 0xdf,
   0x8c, 0xa1, 0x89, 0x0d, 0xbf, 0xe6, 0x42, 0x68, 0x41, 0x99, 0x2d, 0x0f, 0xb0, 0x54, 0xbb, 0x16]"

definition rsbox :: "byte list" where
  "rsbox = [0x52, 0x09, 0x6a, 0xd5, 0x30, 0x36, 0xa5, 0x38, 0xbf, 0x40, 0xa3, 0x9e, 0x81, 0xf3, 0xd7, 0xfb,
   0x7c, 0xe3, 0x39, 0x82, 0x9b, 0x2f, 0xff, 0x87, 0x34, 0x8e, 0x43, 0x44, 0xc4, 0xde, 0xe9, 0xcb,
   0x54, 0x7b, 0x94, 0x32, 0xa6, 0xc2, 0x23, 0x3d, 0xee, 0x4c, 0x95, 0x0b, 0x42, 0xfa, 0xc3, 0x4e,
   0x08, 0x2e, 0xa1, 0x66, 0x28, 0xd9, 0x24, 0xb2, 0x76, 0x5b, 0xa2, 0x49, 0x6d, 0x8b, 0xd1, 0x25,
   0x72, 0xf8, 0xf6, 0x64, 0x86, 0x68, 0x98, 0x16, 0xd4, 0xa4, 0x5c, 0xcc, 0x5d, 0x65, 0xb6, 0x92,
   0x6c, 0x70, 0x48, 0x50, 0xfd, 0xed, 0xb9, 0xda, 0x5e, 0x15, 0x46, 0x57, 0xa7, 0x8d, 0x9d, 0x84,
   0x90, 0xd8, 0xab, 0x00, 0x8c, 0xbc, 0xd3, 0x0a, 0xf7, 0xe4, 0x58, 0x05, 0xb8, 0xb3, 0x45, 0x06,
   0xd0, 0x2c, 0x1e, 0x8f, 0xca, 0x3f, 0x0f, 0x02, 0xc1, 0xaf, 0xbd, 0x03, 0x01, 0x13, 0x8a, 0x6b,
   0x3a, 0x91, 0x11, 0x41, 0x4f, 0x67, 0xdc, 0xea, 0x97, 0xf2, 0xcf, 0xce, 0xf0, 0xb4, 0xe6, 0x73,
   0x96, 0xac, 0x74, 0x22, 0xe7, 0xad, 0x35, 0x85, 0xe2, 0xf9, 0x37, 0xe8, 0x1c, 0x75, 0xdf, 0x6e,
   0x47, 0xf1, 0x1a, 0x71, 0x1d, 0x29, 0xc5, 0x89, 0x6f, 0xb7, 0x62, 0x0e, 0xaa, 0x18, 0xbe, 0x1b,
   0xfc, 0x56, 0x3e, 0x4b, 0xc6, 0xd2, 0x79, 0x20, 0x9a, 0xdb, 0xc0, 0xfe, 0x78, 0xcd, 0x5a, 0xf4,
   0x1f, 0xdd, 0xa8, 0x33, 0x88, 0x07, 0xc7, 0x31, 0xb1, 0x12, 0x10, 0x59, 0x27, 0x80, 0xec, 0x5f,
   0x60, 0x51, 0x7f, 0xa9, 0x19, 0xb5, 0x4a, 0x0d, 0x2d, 0xe5, 0x7a, 0x9f, 0x93, 0xc9, 0x9c, 0xef,
   0xa0, 0xe0, 0x3b, 0x4d, 0xae, 0x2a, 0xf5, 0xb0, 0xc8, 0xeb, 0xbb, 0x3c, 0x83, 0x53, 0x99, 0x61,
   0x17, 0x2b, 0x04, 0x7e, 0xba, 0x77, 0xd6, 0x26, 0xe1, 0x69, 0x14, 0x63, 0x55, 0x21, 0x0c, 0x7d]"

definition rcon :: "byte list" where
  "rcon = [0x8d, 0x01, 0x02, 0x04, 0x08, 0x10, 0x20, 0x40, 0x80, 0x1b, 0x36, 0x6c, 0xd8, 0xab, 0x4d, 0x9a,
   0x2f, 0x5e, 0xbc, 0x63, 0xc6, 0x97, 0x35, 0x6a, 0xd4, 0xb3, 0x7d, 0xfa, 0xef, 0xc5, 0x91, 0x39,
   0x72, 0xe4, 0xd3, 0xbd, 0x61, 0xc2, 0x9f, 0x25, 0x4a, 0x94, 0x33, 0x66, 0xcc, 0x83, 0x1d, 0x3a,
   0x74, 0xe8, 0xcb, 0x8d, 0x01, 0x02, 0x04, 0x08, 0x10, 0x20, 0x40, 0x80, 0x1b, 0x36, 0x6c, 0xd8,
   0xab, 0x4d, 0x9a, 0x2f, 0x5e, 0xbc, 0x63, 0xc6, 0x97, 0x35, 0x6a, 0xd4, 0xb3, 0x7d, 0xfa, 0xef,
   0xc5, 0x91, 0x39, 0x72, 0xe4, 0xd3, 0xbd, 0x61, 0xc2, 0x9f, 0x25, 0x4a, 0x94, 0x33, 0x66, 0xcc,
   0x83, 0x1d, 0x3a, 0x74, 0xe8, 0xcb, 0x8d, 0x01, 0x02, 0x04, 0x08, 0x10, 0x20, 0x40, 0x80, 0x1b,
   0x36, 0x6c, 0xd8, 0xab, 0x4d, 0x9a, 0x2f, 0x5e, 0xbc, 0x63, 0xc6, 0x97, 0x35, 0x6a, 0xd4, 0xb3,
   0x7d, 0xfa, 0xef, 0xc5, 0x91, 0x39, 0x72, 0xe4, 0xd3, 0xbd, 0x61, 0xc2, 0x9f, 0x25, 0x4a, 0x94,
   0x33, 0x66, 0xcc, 0x83, 0x1d, 0x3a, 0x74, 0xe8, 0xcb, 0x8d, 0x01, 0x02, 0x04, 0x08, 0x10, 0x20,
   0x40, 0x80, 0x1b, 0x36, 0x6c, 0xd8, 0xab, 0x4d, 0x9a, 0x2f, 0x5e, 0xbc, 0x63, 0xc6, 0x97, 0x35,
   0x6a, 0xd4, 0xb3, 0x7d, 0xfa, 0xef, 0xc5, 0x91, 0x39, 0x72, 0xe4, 0xd3, 0xbd, 0x61, 0xc2, 0x9f,
   0x25, 0x4a, 0x94, 0x33, 0x66, 0xcc, 0x83, 0x1d, 0x3a, 0x74, 0xe8, 0xcb, 0x8d, 0x01, 0x02, 0x04,
   0x08, 0x10, 0x20, 0x40, 0x80, 0x1b, 0x36, 0x6c, 0xd8, 0xab, 0x4d, 0x9a, 0x2f, 0x5e, 0xbc, 0x63,
   0xc6, 0x97, 0x35, 0x6a, 0xd4, 0xb3, 0x7d, 0xfa, 0xef, 0xc5, 0x91, 0x39, 0x72, 0xe4, 0xd3, 0xbd,
   0x61, 0xc2, 0x9f, 0x25, 0x4a, 0x94, 0x33, 0x66, 0xcc, 0x83, 0x1d, 0x3a, 0x74, 0xe8, 0xcb]"

definition Nb :: nat where "Nb = 4"
definition Nk :: nat where "Nk = 4"
definition Nr :: nat where "Nr = 10"
definition KEY_SIZE :: nat where "KEY_SIZE = 16"

section \<open>The transformations of the state\<close>

definition at :: "byte list \<Rightarrow> nat \<Rightarrow> nat \<Rightarrow> byte" where
  "at st i j = st ! (4 * i + j)"

definition put :: "nat \<Rightarrow> nat \<Rightarrow> byte \<Rightarrow> byte list \<Rightarrow> byte list" where
  "put i j v st = st[4 * i + j := v]"

definition xtime :: "byte \<Rightarrow> byte" where
  "xtime x = push_bit 1 x XOR ((drop_bit 7 x AND 1) * 0x1b)"

definition multiply :: "byte \<Rightarrow> byte \<Rightarrow> byte" where
  "multiply x y = ((y AND 1) * x) XOR
     ((drop_bit 1 y AND 1) * xtime x) XOR
     ((drop_bit 2 y AND 1) * xtime (xtime x)) XOR
     ((drop_bit 3 y AND 1) * xtime (xtime (xtime x))) XOR
     ((drop_bit 4 y AND 1) * xtime (xtime (xtime (xtime x))))"

definition add_round_key :: "byte list \<Rightarrow> nat \<Rightarrow> byte list \<Rightarrow> byte list" where
  "add_round_key rk round st =
     fold (\<lambda>i st. fold (\<lambda>j st. put i j (at st i j XOR rk ! (round * Nb * 4 + i * Nb + j)) st) [0..<4] st) [0..<4] st"

definition sub_bytes :: "byte list \<Rightarrow> byte list" where
  "sub_bytes st = fold (\<lambda>i st. fold (\<lambda>j st. put j i (sbox ! unat (at st j i)) st) [0..<4] st) [0..<4] st"

definition inv_sub_bytes :: "byte list \<Rightarrow> byte list" where
  "inv_sub_bytes st = fold (\<lambda>i st. fold (\<lambda>j st. put j i (rsbox ! unat (at st j i)) st) [0..<4] st) [0..<4] st"

definition shift_rows :: "byte list \<Rightarrow> byte list" where
  "shift_rows st =
     (let temp = at st 0 1;
          st = put 0 1 (at st 1 1) st;
          st = put 1 1 (at st 2 1) st;
          st = put 2 1 (at st 3 1) st;
          st = put 3 1 temp st;
          temp = at st 0 2;
          st = put 0 2 (at st 2 2) st;
          st = put 2 2 temp st;
          temp = at st 1 2;
          st = put 1 2 (at st 3 2) st;
          st = put 3 2 temp st;
          temp = at st 0 3;
          st = put 0 3 (at st 3 3) st;
          st = put 3 3 (at st 2 3) st;
          st = put 2 3 (at st 1 3) st
      in put 1 3 temp st)"

definition inv_shift_rows :: "byte list \<Rightarrow> byte list" where
  "inv_shift_rows st =
     (let temp = at st 3 1;
          st = put 3 1 (at st 2 1) st;
          st = put 2 1 (at st 1 1) st;
          st = put 1 1 (at st 0 1) st;
          st = put 0 1 temp st;
          temp = at st 0 2;
          st = put 0 2 (at st 2 2) st;
          st = put 2 2 temp st;
          temp = at st 1 2;
          st = put 1 2 (at st 3 2) st;
          st = put 3 2 temp st;
          temp = at st 0 3;
          st = put 0 3 (at st 1 3) st;
          st = put 1 3 (at st 2 3) st;
          st = put 2 3 (at st 3 3) st
      in put 3 3 temp st)"

definition mix_column :: "nat \<Rightarrow> byte list \<Rightarrow> byte list" where
  "mix_column i st =
     (let t = at st i 0;
          Tmp = at st i 0 XOR at st i 1 XOR at st i 2 XOR at st i 3;
          Tm = xtime (at st i 0 XOR at st i 1); st = put i 0 (at st i 0 XOR (Tm XOR Tmp)) st;
          Tm = xtime (at st i 1 XOR at st i 2); st = put i 1 (at st i 1 XOR (Tm XOR Tmp)) st;
          Tm = xtime (at st i 2 XOR at st i 3); st = put i 2 (at st i 2 XOR (Tm XOR Tmp)) st;
          Tm = xtime (at st i 3 XOR t)
      in put i 3 (at st i 3 XOR (Tm XOR Tmp)) st)"

definition mix_columns :: "byte list \<Rightarrow> byte list" where
  "mix_columns st = fold mix_column [0..<4] st"

definition inv_mix_column :: "nat \<Rightarrow> byte list \<Rightarrow> byte list" where
  "inv_mix_column i st =
     (let a = at st i 0; b = at st i 1; c = at st i 2; d = at st i 3;
          st = put i 0 (multiply a 0x0e XOR multiply b 0x0b XOR multiply c 0x0d XOR multiply d 0x09) st;
          st = put i 1 (multiply a 0x09 XOR multiply b 0x0e XOR multiply c 0x0b XOR multiply d 0x0d) st;
          st = put i 2 (multiply a 0x0d XOR multiply b 0x09 XOR multiply c 0x0e XOR multiply d 0x0b) st
      in put i 3 (multiply a 0x0b XOR multiply b 0x0d XOR multiply c 0x09 XOR multiply d 0x0e) st)"

definition inv_mix_columns :: "byte list \<Rightarrow> byte list" where
  "inv_mix_columns st = fold inv_mix_column [0..<4] st"

section \<open>The ciphers\<close>

definition cipher :: "byte list \<Rightarrow> byte list \<Rightarrow> byte list" where
  "cipher rk st =
     (let st = add_round_key rk 0 st;
          st = fold (\<lambda>round st. add_round_key rk round (mix_columns (shift_rows (sub_bytes st)))) [1..<Nr] st
      in add_round_key rk Nr (shift_rows (sub_bytes st)))"

definition inv_cipher :: "byte list \<Rightarrow> byte list \<Rightarrow> byte list" where
  "inv_cipher rk st =
     (let st = add_round_key rk Nr st;
          st = fold (\<lambda>round st. inv_mix_columns (add_round_key rk round (inv_sub_bytes (inv_shift_rows st)))) (rev [1..<Nr]) st
      in add_round_key rk 0 (inv_sub_bytes (inv_shift_rows st)))"

section \<open>Key expansion\<close>

definition sub_word :: "byte list \<Rightarrow> byte list" where
  "sub_word w = map (\<lambda>b. sbox ! unat b) w"

definition key_temp :: "nat \<Rightarrow> byte list \<Rightarrow> byte list" where
  "key_temp i rk =
     (let tempa = map (\<lambda>j. rk ! ((i - 1) * 4 + j)) [0..<4]
      in if i mod Nk = 0 then
           (let tempa = sub_word [tempa ! 1, tempa ! 2, tempa ! 3, tempa ! 0]
            in tempa[0 := tempa ! 0 XOR rcon ! (i div Nk)])
         else if Nk > 6 \<and> i mod Nk = 4 then sub_word tempa
         else tempa)"

definition key_word :: "nat \<Rightarrow> byte list \<Rightarrow> byte list" where
  "key_word i rk =
     (let tempa = key_temp i rk
      in fold (\<lambda>j rk. rk[i * 4 + j := rk ! ((i - Nk) * 4 + j) XOR tempa ! j]) [0..<4] rk)"

definition expand_key :: "(nat \<Rightarrow> byte) \<Rightarrow> byte list \<Rightarrow> byte list" where
  "expand_key key rk =
     fold key_word [Nk..<Nb * (Nr + 1)]
       (fold (\<lambda>i rk. fold (\<lambda>j rk. rk[i * 4 + j := key (i * 4 + j)]) [0..<4] rk) [0..<Nk] rk)"

section \<open>The object and the memory\<close>

datatype mode = ECB | CBC

type_synonym mem = "addr \<Rightarrow> byte"

text \<open>\<open>aes_vec\<close> is the address of the member array \<open>iv\<close>, \<open>aes_iv\<close> is the pointer \<open>_iv\<close>.\<close>

record aes =
  aes_mode :: mode
  aes_state :: addr
  aes_round_key :: "byte list"
  aes_key :: addr
  aes_iv :: addr
  aes_vec :: addr

definition load_block :: "mem \<Rightarrow> addr \<Rightarrow> byte list" where
  "load_block m a = map (\<lambda>i. m (a + of_nat i)) [0..<KEY_SIZE]"

definition store_bytes :: "addr \<Rightarrow> byte list \<Rightarrow> mem \<Rightarrow> mem" where
  "store_bytes a bs m = fold (\<lambda>i m. m(a + of_nat i := bs ! i)) [0..<length bs] m"

definition aes_new :: "mode \<Rightarrow> aes \<Rightarrow> mem \<Rightarrow> aes \<times> mem" where
  "aes_new md s m = (s\<lparr>aes_mode := md\<rparr>, fold (\<lambda>i m. m(aes_vec s + of_nat i := 0)) [0..<23] m)"

definition block_copy :: "addr \<Rightarrow> addr \<Rightarrow> mem \<Rightarrow> mem" where
  "block_copy output input m = store_bytes output (load_block m input) m"

text \<open>\<open>cipher\<close> and \<open>inv_cipher\<close> work in place on the buffer that \<open>_state\<close> points to.\<close>

definition on_state :: "(byte list \<Rightarrow> byte list \<Rightarrow> byte list) \<Rightarrow> aes \<Rightarrow> mem \<Rightarrow> mem" where
  "on_state f s m = store_bytes (aes_state s) (f (aes_round_key s) (load_block m (aes_state s))) m"

definition set_key :: "addr \<Rightarrow> aes \<Rightarrow> mem \<Rightarrow> aes" where
  "set_key key s m = s\<lparr>aes_key := key, aes_round_key := expand_key (\<lambda>i. m (key + of_nat i)) (aes_round_key s)\<rparr>"

definition ebc_encrypt :: "addr \<Rightarrow> addr \<Rightarrow> addr \<Rightarrow> aes \<Rightarrow> mem \<Rightarrow> aes \<times> mem" where
  "ebc_encrypt input key output s m =
     (let m = block_copy output input m;
          s = s\<lparr>aes_state := output\<rparr>;
          s = set_key key s m
      in (s, on_state cipher s m))"

definition ebc_decrypt :: "addr \<Rightarrow> addr \<Rightarrow> addr \<Rightarrow> aes \<Rightarrow> mem \<Rightarrow> aes \<times> mem" where
  "ebc_decrypt input key output s m =
     (let m = block_copy output input m;
          s = s\<lparr>aes_state := output\<rparr>;
          s = set_key key s m
      in (s, on_state inv_cipher s m))"

definition xor_bytes :: "byte list \<Rightarrow> mem \<Rightarrow> addr \<Rightarrow> byte list" where
  "xor_bytes buf m a = map (\<lambda>i. buf ! i XOR m (a + of_nat i)) [0..<KEY_SIZE]"

definition xor_with_iv :: "addr \<Rightarrow> addr \<Rightarrow> mem \<Rightarrow> mem" where
  "xor_with_iv buf iv m = fold (\<lambda>i m. m(buf + of_nat i := m (buf + of_nat i) XOR m (iv + of_nat i))) [0..<KEY_SIZE] m"

text \<open>
  The loops of the CBC modes. The local array \<open>input\<close> is not initialised: \<open>junk\<close> is what its bytes hold when
  the last block is incomplete.
\<close>

function cbc_encrypt_loop :: "(nat \<Rightarrow> byte) \<Rightarrow> nat \<Rightarrow> nat \<Rightarrow> addr \<Rightarrow> addr \<Rightarrow> aes \<Rightarrow> mem \<Rightarrow> nat \<times> addr \<times> aes \<times> mem" where
  "cbc_encrypt_loop junk i len output input s m =
     (if i < len then
        (let buf = map (\<lambda>j. if j + i < len then m (input + of_nat (j + i)) else junk j) [0..<KEY_SIZE];
             m = store_bytes output (xor_bytes buf m (aes_iv s)) m;
             s = s\<lparr>aes_state := output\<rparr>;
             m = on_state cipher s m;
             s = s\<lparr>aes_iv := output\<rparr>
         in cbc_encrypt_loop junk (i + KEY_SIZE) len (output + of_nat KEY_SIZE) input s m)
      else (i, output, s, m))"
  by pat_completeness auto
termination by (relation "measure (\<lambda>(junk, i, len, _). len - i)") (auto simp: KEY_SIZE_def)

declare cbc_encrypt_loop.simps [simp del]

definition cbc_encrypt_buffer :: "(nat \<Rightarrow> byte) \<Rightarrow> addr \<Rightarrow> addr \<Rightarrow> nat \<Rightarrow> addr \<Rightarrow> addr \<Rightarrow> aes \<Rightarrow> mem \<Rightarrow> aes \<times> mem" where
  "cbc_encrypt_buffer junk output input len key iv s m =
     (let remainders = len mod KEY_SIZE;
          m = block_copy output input m;
          s = s\<lparr>aes_state := output\<rparr>;
          s = (if key \<noteq> 0 then set_key key s m else s);
          s = (if iv \<noteq> 0 then s\<lparr>aes_iv := iv\<rparr> else s);
          (i, output, s, m) = cbc_encrypt_loop junk 0 len output input s m
      in if remainders \<noteq> 0 then
           (let m = block_copy output (input + of_nat i) m;
                m = store_bytes (output + of_nat remainders) (replicate (KEY_SIZE - remainders) 0) m;
                s = s\<lparr>aes_state := output\<rparr>
            in (s, on_state cipher s m))
         else (s, m))"

function cbc_decrypt_loop :: "nat \<Rightarrow> nat \<Rightarrow> addr \<Rightarrow> addr \<Rightarrow> aes \<Rightarrow> mem \<Rightarrow> addr \<times> addr \<times> aes \<times> mem" where
  "cbc_decrypt_loop i len output input s m =
     (if i < len then
        (let m = block_copy output input m;
             s = s\<lparr>aes_state := output\<rparr>;
             m = on_state inv_cipher s m;
             m = xor_with_iv output (aes_iv s) m;
             s = s\<lparr>aes_iv := input\<rparr>
         in cbc_decrypt_loop (i + KEY_SIZE) len (output + of_nat KEY_SIZE) (input + of_nat KEY_SIZE) s m)
      else (output, input, s, m))"
  by pat_completeness auto
termination by (relation "measure (\<lambda>(i, len, _). len - i)") (auto simp: KEY_SIZE_def)

declare cbc_decrypt_loop.simps [simp del]

definition cbc_decrypt_buffer :: "addr \<Rightarrow> addr \<Rightarrow> nat \<Rightarrow> addr \<Rightarrow> addr \<Rightarrow> aes \<Rightarrow> mem \<Rightarrow> aes \<times> mem" where
  "cbc_decrypt_buffer output input len key iv s m =
     (let remainders = len mod KEY_SIZE;
          m = block_copy output input m;
          s = s\<lparr>aes_state := output\<rparr>;
          s = (if key \<noteq> 0 then set_key key s m else s);
          s = (if iv \<noteq> 0 then s\<lparr>aes_iv := iv\<rparr> else s);
          (output, input, s, m) = cbc_decrypt_loop 0 len output input s m
      in if remainders \<noteq> 0 then
           (let m = block_copy output input m;
                m = store_bytes (output + of_nat remainders) (replicate (KEY_SIZE - remainders) 0) m;
                s = s\<lparr>aes_state := output\<rparr>
            in (s, on_state inv_cipher s m))
         else (s, m))"

definition crypt :: "(nat \<Rightarrow> byte) \<Rightarrow> addr \<Rightarrow> addr \<Rightarrow> addr \<Rightarrow> bool \<Rightarrow> aes \<Rightarrow> mem \<Rightarrow> aes \<times> mem" where
  "crypt junk data key result encr s m =
     (case aes_mode s of
        CBC \<Rightarrow> if encr then cbc_encrypt_buffer junk result data 16 key (aes_vec s) s m
               else cbc_decrypt_buffer result data 16 key (aes_vec s) s m
      | ECB \<Rightarrow> if encr then ebc_encrypt data key result s m else ebc_decrypt data key result s m)"

definition encrypt :: "(nat \<Rightarrow> byte) \<Rightarrow> addr \<Rightarrow> addr \<Rightarrow> addr \<Rightarrow> aes \<Rightarrow> mem \<Rightarrow> aes \<times> mem" where
  "encrypt junk data key result s m = crypt junk data key result True s m"

definition decrypt :: "(nat \<Rightarrow> byte) \<Rightarrow> addr \<Rightarrow> addr \<Rightarrow> addr \<Rightarrow> aes \<Rightarrow> mem \<Rightarrow> aes \<times> mem" where
  "decrypt junk data key result s m = crypt junk data key result False s m"

end
