(* ===== verification/Aes_Properties.thy ===== *)
theory Aes_Properties
  imports Aes
begin

text \<open>
  Every transformation of the cipher is undone by its inverse, so decryption undoes encryption; the round keys
  depend on the key alone; the buffers written are exactly the output buffers.
\<close>

section \<open>The transformations and their inverses\<close>

lemma rsbox_sbox_table: "map (\<lambda>b. rsbox ! unat b) sbox = map of_nat [0..<256]"
  by code_simp

lemma sbox_inverse: "rsbox ! unat (sbox ! unat x) = x"
proof -
  have l: "length sbox = 256" by (simp add: sbox_def)
  have x: "unat x < 256" using unsigned_less [of x] by simp
  have "map (\<lambda>b. rsbox ! unat b) sbox ! unat x = (of_nat (unat x) :: byte)" unfolding rsbox_sbox_table using x by simp
  then show ?thesis using x l by simp
qed

lemma xtime_xor: "xtime (x XOR y) = xtime x XOR xtime y"
proof -
  have "drop_bit 7 z AND 1 = of_bool (bit z 7)" for z :: byte
    by (simp add: and_one_eq mod_2_eq_odd bit_iff_odd_drop_bit)
  then have "xtime z = push_bit 1 z XOR (if bit z 7 then 0x1b else 0)" for z
    by (simp only: xtime_def) simp
  moreover have "push_bit 1 (x XOR y) = push_bit 1 x XOR push_bit 1 y" by (rule push_bit_xor)
  ultimately show ?thesis by (simp add: bit_xor_iff ac_simps del: push_bit_Suc)
qed

lemma multiply_consts:
  "multiply x 0x09 = x XOR xtime (xtime (xtime x))"
  "multiply x 0x0b = x XOR xtime x XOR xtime (xtime (xtime x))"
  "multiply x 0x0d = x XOR xtime (xtime x) XOR xtime (xtime (xtime x))"
  "multiply x 0x0e = xtime x XOR xtime (xtime x) XOR xtime (xtime (xtime x))"
  by (simp_all add: multiply_def)

lemma xor_cancel: "x XOR (x XOR y) = (y :: byte)"
  by (simp flip: xor.assoc)

lemmas xor_norm = xor.assoc xor.commute xor.left_commute xor_cancel

text \<open>One byte of a mixed column, and of the column that \<open>inv_mix_columns\<close> computes from it.\<close>

definition mixed :: "byte \<Rightarrow> byte \<Rightarrow> byte \<Rightarrow> byte \<Rightarrow> byte" where
  "mixed a b c d = a XOR (xtime (a XOR b) XOR (a XOR b XOR c XOR d))"

definition unmixed :: "byte \<Rightarrow> byte \<Rightarrow> byte \<Rightarrow> byte \<Rightarrow> byte" where
  "unmixed a b c d = multiply a 0x0e XOR multiply b 0x0b XOR multiply c 0x0d XOR multiply d 0x09"

lemma unmixed_mixed: "unmixed (mixed a b c d) (mixed b c d a) (mixed c d a b) (mixed d a b c) = a"
  by (simp add: unmixed_def mixed_def multiply_consts xtime_xor xor_norm)

lemma state_cases:
  assumes "length (st :: byte list) = 16"
  obtains a0 a1 a2 a3 a4 a5 a6 a7 a8 a9 a10 a11 a12 a13 a14 a15
  where "st = [a0, a1, a2, a3, a4, a5, a6, a7, a8, a9, a10, a11, a12, a13, a14, a15]"
  using assms by (auto simp: length_Suc_conv numeral_eq_Suc)

lemma upt4: "[0..<4] = [0, 1, 2, 3 :: nat]"
  by (simp add: upt_rec)

lemmas transform_defs = at_def put_def Let_def upt4

lemma mix_column_bytes:
  "mix_column i st = put i 3 (mixed (at st i 3) (at st i 0) (at st i 1) (at st i 2))
     (put i 2 (mixed (at st i 2) (at st i 3) (at st i 0) (at st i 1))
     (put i 1 (mixed (at st i 1) (at st i 2) (at st i 3) (at st i 0))
     (put i 0 (mixed (at st i 0) (at st i 1) (at st i 2) (at st i 3)) st)))"
  by (simp add: mix_column_def mixed_def transform_defs xor_norm)

lemma inv_mix_column_bytes:
  "inv_mix_column i st = put i 3 (unmixed (at st i 3) (at st i 0) (at st i 1) (at st i 2))
     (put i 2 (unmixed (at st i 2) (at st i 3) (at st i 0) (at st i 1))
     (put i 1 (unmixed (at st i 1) (at st i 2) (at st i 3) (at st i 0))
     (put i 0 (unmixed (at st i 0) (at st i 1) (at st i 2) (at st i 3)) st)))"
  by (simp add: inv_mix_column_def unmixed_def transform_defs xor_norm)

lemma inv_mix_mix: "length st = 16 \<Longrightarrow> inv_mix_columns (mix_columns st) = st"
  by (erule state_cases)
    (simp add: mix_columns_def inv_mix_columns_def mix_column_bytes inv_mix_column_bytes transform_defs unmixed_mixed)

lemma inv_shift_shift: "length st = 16 \<Longrightarrow> inv_shift_rows (shift_rows st) = st"
  by (erule state_cases) (simp add: shift_rows_def inv_shift_rows_def transform_defs)

lemma inv_sub_sub: "length st = 16 \<Longrightarrow> inv_sub_bytes (sub_bytes st) = st"
  by (erule state_cases) (simp add: sub_bytes_def inv_sub_bytes_def transform_defs sbox_inverse)

lemma add_round_key_twice: "length st = 16 \<Longrightarrow> add_round_key rk r (add_round_key rk r st) = st"
  by (erule state_cases) (simp add: add_round_key_def transform_defs xor.assoc)

lemma length_transforms [simp]:
  "length (add_round_key rk r st) = length st" "length (sub_bytes st) = length st" "length (shift_rows st) = length st"
  "length (mix_columns st) = length st" "length (inv_sub_bytes st) = length st" "length (inv_shift_rows st) = length st"
  "length (inv_mix_columns st) = length st"
  by (simp_all add: add_round_key_def sub_bytes_def shift_rows_def mix_columns_def mix_column_def inv_sub_bytes_def
      inv_shift_rows_def inv_mix_columns_def inv_mix_column_def transform_defs)

section \<open>The ciphers\<close>

lemma length_rounds: "length (fold (\<lambda>r st. add_round_key rk r (mix_columns (shift_rows (sub_bytes st)))) rs st) = length st"
  by (induction rs arbitrary: st) simp_all

lemma length_inv_rounds: "length (fold (\<lambda>r st. inv_mix_columns (add_round_key rk r (inv_sub_bytes (inv_shift_rows st)))) rs st) = length st"
  by (induction rs arbitrary: st) simp_all

lemma inv_rounds:
  "length st = 16 \<Longrightarrow>
   fold (\<lambda>r st. inv_mix_columns (add_round_key rk r (inv_sub_bytes (inv_shift_rows st)))) (rev rs)
     (shift_rows (sub_bytes (fold (\<lambda>r st. add_round_key rk r (mix_columns (shift_rows (sub_bytes st)))) rs st))) =
   shift_rows (sub_bytes st)"
  by (induction rs rule: rev_induct)
    (simp_all add: inv_mix_mix inv_shift_shift inv_sub_sub add_round_key_twice length_rounds)

lemma inv_cipher_cipher: "length st = 16 \<Longrightarrow> inv_cipher rk (cipher rk st) = st"
  by (simp add: cipher_def inv_cipher_def Let_def add_round_key_twice length_rounds inv_rounds inv_shift_shift inv_sub_sub)

lemma length_cipher: "length (cipher rk st) = length st" "length (inv_cipher rk st) = length st"
  by (simp_all add: cipher_def inv_cipher_def Let_def length_rounds length_inv_rounds)

text \<open>
  What the modes of operation need of a block cipher, and what the mode CBC gives on one block: the decryption of
  an encrypted block, combined with the same initial vector, is the block.
\<close>

locale block_cipher =
  fixes enc dec :: "byte list \<Rightarrow> byte list"
  assumes dec_enc: "length st = 16 \<Longrightarrow> dec (enc st) = st"
    and length_enc: "length (enc st) = length st"
begin

lemma chained: "length st = 16 \<Longrightarrow> length iv = 16 \<Longrightarrow> map2 (XOR) (dec (enc (map2 (XOR) st iv))) iv = st"
  by (subst dec_enc) (auto simp: list_eq_iff_nth_eq xor.assoc)

end

interpretation aes: block_cipher "cipher rk" "inv_cipher rk"
  by unfold_locales (simp_all add: inv_cipher_cipher length_cipher)

section \<open>Key expansion\<close>

lemma fold_upt_rel:
  assumes "R a x y" "a \<le> b" "\<And>i x y. a \<le> i \<Longrightarrow> i < b \<Longrightarrow> R i x y \<Longrightarrow> R (Suc i) (f i x) (g i y)"
  shows "R b (fold f [a..<b] x) (fold g [a..<b] y)"
  using assms(2,1,3) by (induction b rule: dec_induct) auto

text \<open>Two arrays of round keys that agree on their first \<open>n\<close> bytes.\<close>

definition agree :: "nat \<Rightarrow> byte list \<Rightarrow> byte list \<Rightarrow> bool" where
  "agree n r1 r2 \<longleftrightarrow> length r1 = 176 \<and> length r2 = 176 \<and> (\<forall>k < n. r1 ! k = r2 ! k)"

lemma agree_put: "agree n r1 r2 \<Longrightarrow> v1 = v2 \<Longrightarrow> n < 176 \<Longrightarrow> agree (Suc n) (r1[n := v1]) (r2[n := v2])"
  by (auto simp: agree_def nth_list_update less_Suc_eq)

lemma agree_word:
  assumes "agree (i * 4) r1 r2" "i < 44"
    "\<And>j x y. j < 4 \<Longrightarrow> agree (i * 4 + j) x y \<Longrightarrow> f j x = g j y"
  shows "agree (Suc i * 4) (fold (\<lambda>j rk. rk[i * 4 + j := f j rk]) [0..<4] r1) (fold (\<lambda>j rk. rk[i * 4 + j := g j rk]) [0..<4] r2)"
proof -
  have "agree (i * 4 + 4) (fold (\<lambda>j rk. rk[i * 4 + j := f j rk]) [0..<4] r1) (fold (\<lambda>j rk. rk[i * 4 + j := g j rk]) [0..<4] r2)"
    by (rule fold_upt_rel [where R = "\<lambda>j. agree (i * 4 + j)"]) (use assms in \<open>auto intro!: agree_put\<close>)
  then show ?thesis by (simp add: add.commute)
qed

lemma key_temp_agree:
  assumes "agree (i * 4) r1 r2" "0 < i"
  shows "key_temp i r1 = key_temp i r2"
proof -
  have "map (\<lambda>j. r1 ! ((i - 1) * 4 + j)) [0..<4] = map (\<lambda>j. r2 ! ((i - 1) * 4 + j)) [0..<4]"
    using assms by (auto simp: agree_def)
  then show ?thesis unfolding key_temp_def by (simp only:)
qed

lemma key_word_agree:
  assumes "agree (i * 4) r1 r2" "4 \<le> i" "i < 44"
  shows "agree (Suc i * 4) (key_word i r1) (key_word i r2)"
  unfolding key_word_def Let_def key_temp_agree [OF assms(1) less_le_trans [OF zero_less_numeral assms(2)]]
  by (rule agree_word [OF assms(1,3)]) (use assms(2) in \<open>auto simp: agree_def Nk_def\<close>)

lemma expand_key_agree:
  assumes "length r1 = 176" "length r2 = 176" "\<And>i. i < 16 \<Longrightarrow> key1 i = key2 i"
  shows "expand_key key1 r1 = expand_key key2 r2" "length (expand_key key1 r1) = 176"
proof -
  have "agree (0 * 4) r1 r2" using assms by (simp add: agree_def)
  then have "agree (4 * 4)
      (fold (\<lambda>i rk. fold (\<lambda>j rk. rk[i * 4 + j := key1 (i * 4 + j)]) [0..<4] rk) [0..<4] r1)
      (fold (\<lambda>i rk. fold (\<lambda>j rk. rk[i * 4 + j := key2 (i * 4 + j)]) [0..<4] rk) [0..<4] r2)"
    by (rule fold_upt_rel [where R = "\<lambda>i. agree (i * 4)"]) (simp, rule agree_word, use assms(3) in simp_all)
  then have "agree (44 * 4) (fold key_word [4..<44] (fold (\<lambda>i rk. fold (\<lambda>j rk. rk[i * 4 + j := key1 (i * 4 + j)]) [0..<4] rk) [0..<4] r1))
      (fold key_word [4..<44] (fold (\<lambda>i rk. fold (\<lambda>j rk. rk[i * 4 + j := key2 (i * 4 + j)]) [0..<4] rk) [0..<4] r2))"
    by (rule fold_upt_rel [where R = "\<lambda>i. agree (i * 4)"]) (simp, rule key_word_agree)
  moreover have "Nb * (Nr + 1) = 44" by (simp add: Nb_def Nr_def)
  ultimately have "agree (44 * 4) (expand_key key1 r1) (expand_key key2 r2)"
    unfolding expand_key_def Nk_def by (simp only:)
  then show "expand_key key1 r1 = expand_key key2 r2" "length (expand_key key1 r1) = 176"
    by (auto simp: agree_def list_eq_iff_nth_eq)
qed

section \<open>Buffers\<close>

definition block :: "addr \<Rightarrow> addr set" where
  "block a = {a + of_nat i | i. i < 16}"

definition apart :: "addr \<Rightarrow> addr \<Rightarrow> bool" where
  "apart a b \<longleftrightarrow> block a \<inter> block b = {}"

lemma block_inj: "i < 16 \<Longrightarrow> j < 16 \<Longrightarrow> a + of_nat i = (a + of_nat j :: addr) \<longleftrightarrow> i = j"
  by (simp add: word_of_nat_eq_iff take_bit_nat_eq_self)

lemma load_block_cong: "(\<And>x. x \<in> block a \<Longrightarrow> m x = m' x) \<Longrightarrow> load_block m a = load_block m' a"
  unfolding load_block_def KEY_SIZE_def block_def by (rule map_cong) auto

lemma length_load_block [simp]: "length (load_block m a) = 16"
  by (simp add: load_block_def KEY_SIZE_def)

lemma store_bytes_block:
  assumes "length bs = 16"
  shows "load_block (store_bytes a bs m) a = bs" "x \<notin> block a \<Longrightarrow> store_bytes a bs m x = m x"
proof -
  define R :: "nat \<Rightarrow> mem \<Rightarrow> mem \<Rightarrow> bool" where
    "R n m1 m2 \<longleftrightarrow> (\<forall>i < n. m1 (a + of_nat i) = bs ! i) \<and> (\<forall>x. x \<notin> block a \<longrightarrow> m1 x = m2 x)" for n m1 m2
  have "R 16 (fold (\<lambda>i m. m(a + of_nat i := bs ! i)) [0..<16] m) (fold (\<lambda>_ m. m) [0..<16] m)"
  proof (rule fold_upt_rel [where R = R])
    show "R 0 m m" by (simp add: R_def)
    show "R (Suc i) (m1(a + of_nat i := bs ! i)) m2" if "i < 16" "R i m1 m2" for i m1 m2
      using that block_inj [of _ i a] unfolding R_def by (auto simp: less_Suc_eq block_def)
  qed simp
  moreover have "fold (\<lambda>_ m. m) [0..<16] m = m" by (rule fold_invariant [where P = "\<lambda>x. x = m"]) auto
  ultimately have r: "R 16 (store_bytes a bs m) m" using assms by (simp add: store_bytes_def)
  then show "load_block (store_bytes a bs m) a = bs"
    using assms by (simp add: R_def load_block_def KEY_SIZE_def list_eq_iff_nth_eq)
  show "store_bytes a bs m x = m x" if "x \<notin> block a" using r that by (simp add: R_def)
qed

lemma load_block_apart: "length bs = 16 \<Longrightarrow> apart b a \<Longrightarrow> load_block (store_bytes a bs m) b = load_block m b"
  by (rule load_block_cong, rule store_bytes_block(2)) (auto simp: apart_def)

text \<open>The round keys of the key stored at an address.\<close>

definition round_keys :: "mem \<Rightarrow> addr \<Rightarrow> byte list" where
  "round_keys m key = expand_key (\<lambda>i. m (key + of_nat i)) (replicate 176 0)"

lemma length_round_keys: "length (round_keys m key) = 176"
  unfolding round_keys_def by (rule expand_key_agree(2) [OF length_replicate length_replicate refl])

lemma set_key_round_keys:
  assumes "length (aes_round_key s) = 176"
  shows "set_key key s m = s\<lparr>aes_key := key, aes_round_key := round_keys m key\<rparr>"
proof -
  have "expand_key (\<lambda>i. m (key + of_nat i)) (aes_round_key s) = round_keys m key"
    unfolding round_keys_def by (rule expand_key_agree(1) [OF assms length_replicate refl])
  then show ?thesis unfolding set_key_def by (simp only:)
qed

lemma round_keys_apart: "length bs = 16 \<Longrightarrow> apart key a \<Longrightarrow> round_keys (store_bytes a bs m) key = round_keys m key"
  unfolding round_keys_def
  by (rule expand_key_agree(1) [OF length_replicate length_replicate])
    (rule store_bytes_block(2), auto simp: apart_def block_def)

lemma store_bytes_twice: "length bs = 16 \<Longrightarrow> length cs = 16 \<Longrightarrow> store_bytes a cs (store_bytes a bs m) = store_bytes a cs m"
proof
  fix x assume l: "length bs = 16" "length cs = 16"
  show "store_bytes a cs (store_bytes a bs m) x = store_bytes a cs m x"
  proof (cases "x \<in> block a")
    case True
    then obtain i where i: "x = a + of_nat i" "i < 16" by (auto simp: block_def)
    have "load_block (store_bytes a cs m') a ! i = store_bytes a cs m' x" for m'
      using i by (simp add: load_block_def KEY_SIZE_def)
    then show ?thesis using store_bytes_block(1) [OF l(2)] by metis
  qed (simp add: store_bytes_block(2) l)
qed

lemma apart_sym: "apart a b \<longleftrightarrow> apart b a"
  by (auto simp: apart_def)

lemma xor_bytes_map2: "length buf = 16 \<Longrightarrow> xor_bytes buf m a = map2 (XOR) buf (load_block m a)"
  by (simp add: xor_bytes_def load_block_def KEY_SIZE_def list_eq_iff_nth_eq)

lemma xor_with_iv_store:
  assumes "apart iv buf"
  shows "xor_with_iv buf iv m = store_bytes buf (map2 (XOR) (load_block m buf) (load_block m iv)) m"
proof -
  define bs where "bs = map2 (XOR) (load_block m buf) (load_block m iv)"
  have l: "length bs = 16" by (simp add: bs_def)
  have b: "bs ! i = m (buf + of_nat i) XOR m (iv + of_nat i)" if "i < 16" for i
    using that by (simp add: bs_def load_block_def KEY_SIZE_def)
  define R :: "nat \<Rightarrow> mem \<Rightarrow> mem \<Rightarrow> bool" where
    "R n m1 m2 \<longleftrightarrow> m1 = m2 \<and> (\<forall>j < 16. n \<le> j \<longrightarrow> m1 (buf + of_nat j) = m (buf + of_nat j)) \<and> (\<forall>x. x \<notin> block buf \<longrightarrow> m1 x = m x)" for n m1 m2
  have "R 16 (fold (\<lambda>i m. m(buf + of_nat i := m (buf + of_nat i) XOR m (iv + of_nat i))) [0..<16] m)
    (fold (\<lambda>i m. m(buf + of_nat i := bs ! i)) [0..<16] m)"
  proof (rule fold_upt_rel [where R = R])
    show "R 0 m m" by (simp add: R_def)
    show "R (Suc i) (x(buf + of_nat i := x (buf + of_nat i) XOR x (iv + of_nat i))) (y(buf + of_nat i := bs ! i))"
      if i: "i < 16" and r: "R i x y" for i x y
    proof -
      have "iv + of_nat i \<notin> block buf" using i assms by (auto simp: apart_def block_def)
      then have "x (iv + of_nat i) = m (iv + of_nat i)" "x (buf + of_nat i) = m (buf + of_nat i)" "x = y"
        using r i by (auto simp: R_def)
      then show ?thesis using r b [OF i] block_inj [of _ i buf] i unfolding R_def by (auto simp: block_def)
    qed
  qed simp
  then show ?thesis unfolding xor_with_iv_def store_bytes_def KEY_SIZE_def l bs_def [symmetric] by (simp add: R_def)
qed

section \<open>The modes of operation\<close>

text \<open>
  What a call did: \<open>out\<close> is in the output buffer, nothing else changed in memory, and the object can be used again.
\<close>

definition wrote :: "addr \<Rightarrow> byte list \<Rightarrow> aes \<Rightarrow> mem \<Rightarrow> aes \<times> mem \<Rightarrow> bool" where
  "wrote a out s m r \<longleftrightarrow> snd r = store_bytes a out m \<and> aes_mode (fst r) = aes_mode s \<and> aes_vec (fst r) = aes_vec s \<and>
     length (aes_round_key (fst r)) = 176"

lemmas block_simps = store_bytes_block(1) store_bytes_twice load_block_apart round_keys_apart set_key_round_keys length_round_keys
  length_cipher xor_bytes_map2 xor_with_iv_store

lemma ebc_encrypt_wrote:
  "length (aes_round_key s) = 176 \<Longrightarrow> apart key output \<Longrightarrow>
   wrote output (cipher (round_keys m key) (load_block m input)) s m (ebc_encrypt input key output s m)"
  by (simp add: wrote_def ebc_encrypt_def Let_def block_copy_def on_state_def block_simps)

lemma ebc_decrypt_wrote:
  "length (aes_round_key s) = 176 \<Longrightarrow> apart key output \<Longrightarrow>
   wrote output (inv_cipher (round_keys m key) (load_block m input)) s m (ebc_decrypt input key output s m)"
  by (simp add: wrote_def ebc_decrypt_def Let_def block_copy_def on_state_def block_simps)

lemma load_block_same_or_apart:
  "length bs = 16 \<Longrightarrow> output = input \<and> bs = load_block m input \<or> apart input output \<Longrightarrow>
   load_block (store_bytes output bs m) input = load_block m input"
  by (auto simp: store_bytes_block(1) load_block_apart)

lemma cbc_encrypt_wrote:
  assumes l: "length (aes_round_key s) = 176" and k: "key \<noteq> 0" "apart key output" and v: "iv \<noteq> 0" "apart iv output"
    and o: "output = input \<or> apart input output"
  shows "wrote output (cipher (round_keys m key) (map2 (XOR) (load_block m input) (load_block m iv))) s m
    (cbc_encrypt_buffer junk output input 16 key iv s m)"
proof -
  define m1 where "m1 = block_copy output input m"
  define s1 where "s1 = s\<lparr>aes_state := output, aes_key := key, aes_round_key := round_keys m key, aes_iv := iv\<rparr>"
  have m1: "load_block m1 input = load_block m input" "load_block m1 iv = load_block m iv" "round_keys m1 key = round_keys m key"
    using o k v by (auto simp: m1_def block_copy_def load_block_same_or_apart block_simps)
  have "map (\<lambda>j. if j + 0 < 16 then m1 (input + of_nat (j + 0)) else junk j) [0..<16] = load_block m1 input"
    by (simp add: load_block_def KEY_SIZE_def)
  then have "cbc_encrypt_loop junk 0 16 output input s1 m1 =
    (16, output + 16, s1\<lparr>aes_state := output, aes_iv := output\<rparr>,
     store_bytes output (cipher (round_keys m key) (map2 (XOR) (load_block m input) (load_block m iv))) m)"
    by (simp add: cbc_encrypt_loop.simps [of junk 0] cbc_encrypt_loop.simps [of junk 16] Let_def KEY_SIZE_def on_state_def s1_def
        block_simps m1(1,2)) (simp add: m1_def block_copy_def store_bytes_twice length_cipher)
  then show ?thesis
    using l k(1) v(1) m1(3)
    by (simp add: wrote_def cbc_encrypt_buffer_def Let_def KEY_SIZE_def block_simps m1_def [symmetric] s1_def length_round_keys)
qed

lemma cbc_decrypt_wrote:
  assumes l: "length (aes_round_key s) = 176" and k: "key \<noteq> 0" "apart key output" and v: "iv \<noteq> 0" "apart iv output"
    and o: "output = input \<or> apart input output"
  shows "wrote output (map2 (XOR) (inv_cipher (round_keys m key) (load_block m input)) (load_block m iv)) s m
    (cbc_decrypt_buffer output input 16 key iv s m)"
proof -
  define m1 where "m1 = block_copy output input m"
  define s1 where "s1 = s\<lparr>aes_state := output, aes_key := key, aes_round_key := round_keys m key, aes_iv := iv\<rparr>"
  have m1: "load_block m1 input = load_block m input" "load_block m1 iv = load_block m iv" "round_keys m1 key = round_keys m key"
    using o k v by (auto simp: m1_def block_copy_def load_block_same_or_apart block_simps)
  have "cbc_decrypt_loop 0 16 output input s1 m1 =
    (output + 16, input + 16, s1\<lparr>aes_state := output, aes_iv := input\<rparr>,
     store_bytes output (map2 (XOR) (inv_cipher (round_keys m key) (load_block m input)) (load_block m iv)) m)"
    using v by (simp add: cbc_decrypt_loop.simps [of 0] cbc_decrypt_loop.simps [of 16] Let_def KEY_SIZE_def on_state_def s1_def
        block_simps m1(1,2) block_copy_def m1(1,2)) (simp add: m1_def block_copy_def store_bytes_twice length_cipher)
  then show ?thesis
    using l k(1) v(1) m1(3)
    by (simp add: wrote_def cbc_decrypt_buffer_def Let_def KEY_SIZE_def block_simps m1_def [symmetric] s1_def length_round_keys)
qed

lemma crypt_wrote:
  assumes "length (aes_round_key s) = 176" "key \<noteq> 0" "apart key output" "aes_vec s \<noteq> 0" "apart (aes_vec s) output"
    "output = input \<or> apart input output"
  shows "wrote output (let p = load_block m input; rk = round_keys m key; v = load_block m (aes_vec s)
     in case aes_mode s of ECB \<Rightarrow> if encr then cipher rk p else inv_cipher rk p
        | CBC \<Rightarrow> if encr then cipher rk (map2 (XOR) p v) else map2 (XOR) (inv_cipher rk p) v) s m
    (crypt junk input key output encr s m)"
  using assms ebc_encrypt_wrote ebc_decrypt_wrote cbc_encrypt_wrote cbc_decrypt_wrote
  by (simp add: crypt_def Let_def split: mode.split)

section \<open>Properties\<close>

text \<open>
  C29. Decrypting an encrypted block gives the block back, in either mode and whatever the key, also in place;
  no byte outside of the two output buffers changes.
\<close>

theorem aes_round_trip:
  assumes "length (aes_round_key s) = 176" "key \<noteq> 0" "aes_vec s \<noteq> 0"
    and "apart key result" "apart (aes_vec s) result" "result = data \<or> apart data result"
    and "apart key plain" "apart (aes_vec s) plain" "plain = result \<or> apart result plain"
    and e: "encrypt junk data key result s m = (s1, m1)" and d: "decrypt junk' result key plain s1 m1 = (s2, m2)"
  shows "load_block m2 plain = load_block m data \<and> (\<forall>x. x \<notin> block result \<union> block plain \<longrightarrow> m2 x = m x)"
proof -
  have w1: "wrote result (case aes_mode s of ECB \<Rightarrow> cipher (round_keys m key) (load_block m data)
      | CBC \<Rightarrow> cipher (round_keys m key) (map2 (XOR) (load_block m data) (load_block m (aes_vec s)))) s m (s1, m1)"
    using crypt_wrote [of s key result data m True junk] assms by (cases "aes_mode s") (simp_all add: encrypt_def Let_def)
  have w2: "wrote plain (case aes_mode s1 of ECB \<Rightarrow> inv_cipher (round_keys m1 key) (load_block m1 result)
      | CBC \<Rightarrow> map2 (XOR) (inv_cipher (round_keys m1 key) (load_block m1 result)) (load_block m1 (aes_vec s1))) s1 m1 (s2, m2)"
    using crypt_wrote [of s1 key plain result m1 False junk'] assms w1 by (cases "aes_mode s1") (simp_all add: decrypt_def Let_def wrote_def)
  show ?thesis
    using w1 w2 assms(4,5,7,8) aes.chained [of "load_block m data" "load_block m (aes_vec s)" "round_keys m key"]
    by (cases "aes_mode s") (simp_all add: wrote_def block_simps aes.length_enc aes.dec_enc store_bytes_block(2))
qed

section \<open>Witness\<close>

lemma apart_far:
  assumes "unat a + 16 \<le> unat b" "unat b + 16 \<le> 2 ^ 64"
  shows "apart a b" "apart b a"
proof -
  have u: "unat (c + of_nat i) = unat c + i" if "i < 16" "unat c + 16 \<le> 2 ^ 64" for c :: addr and i
  proof -
    have "unat (of_nat i :: addr) = i" using that(1) by (simp add: unat_of_nat take_bit_nat_eq_self)
    then show ?thesis using that by (simp add: unat_word_ariths)
  qed
  have "a + of_nat i \<noteq> b + of_nat j" if "i < 16" "j < 16" for i j
  proof
    assume "a + of_nat i = b + of_nat j"
    then have "unat a + i = unat b + j" using u [OF that(1), of a] u [OF that(2), of b] assms by simp
    then show False using that assms by simp
  qed
  then show "apart a b" by (auto simp: apart_def block_def)
  then show "apart b a" by (simp add: apart_sym)
qed

definition sample_aes :: aes where
  "sample_aes = \<lparr>aes_mode = CBC, aes_state = 0, aes_round_key = replicate 176 0, aes_key = 0, aes_iv = 0, aes_vec = 0x5000\<rparr>"

theorem aes_round_trip_witness:
  "\<exists>s1 m1 s2 m2. encrypt (\<lambda>_. 0) 0x1000 0x2000 0x3000 sample_aes ucast = (s1, m1) \<and>
    decrypt (\<lambda>_. 0) 0x3000 0x2000 0x4000 s1 m1 = (s2, m2) \<and> load_block m2 0x4000 = load_block ucast 0x1000"
proof -
  obtain s1 m1 where e: "encrypt (\<lambda>_. 0) 0x1000 0x2000 0x3000 sample_aes ucast = (s1, m1)" by fastforce
  obtain s2 m2 where d: "decrypt (\<lambda>_. 0) 0x3000 0x2000 0x4000 s1 m1 = (s2, m2)" by fastforce
  have a: "apart 0x2000 0x3000" "apart 0x5000 0x3000" "apart 0x1000 0x3000" "apart 0x2000 0x4000" "apart 0x5000 0x4000"
    "apart 0x3000 0x4000"
    by (rule apart_far; simp)+
  have s: "length (aes_round_key sample_aes) = 176" "aes_vec sample_aes = 0x5000" by (simp_all add: sample_aes_def)
  show ?thesis using aes_round_trip [OF s(1) _ _ a(1) _ _ a(4) _ _ e d] a s e d by auto
qed

end
