(* ===== verification/Bignum.thy ===== *)
theory Bignum
  imports Prelude
begin

text \<open>
  The little-endian numbers of \<open>utility/bignum.h\<close>: a prime field on arrays of 32-bit digits, with Barrett
  reduction. A number is the list of its digits; the template parameter and the two static constants of a
  class (\<open>DIGITS\<close>, \<open>_mod\<close>, \<open>_barrett_u\<close>) are a record. The helpers allow the result to be one of the operands:
  each digit of an operand is read before it is written, and is not read again, so the result is the same.
  Loops that end only for a suitable modulus are partial functions. The tracing calls only print.
\<close>

unbundle bit_operations_syntax

type_synonym dword = "64 word"

record bignum_class =
  bn_digits :: nat
  bn_mod :: "uint list"
  bn_barrett :: "uint list"

definition bignum16 :: bignum_class where
  "bignum16 = \<lparr>bn_digits = 4, bn_mod = [0xffffffff, 0xffffffff, 0xffffffff, 0xfffffffd], bn_barrett = [17, 8, 4, 2, 1]\<rparr>"

definition bignum17 :: bignum_class where
  "bignum17 = \<lparr>bn_digits = 5, bn_mod = [0xfffffffb, 0xffffffff, 0xffffffff, 0xffffffff, 3],
     bn_barrett = [0, 0x50000000, 0, 0, 0, 0x40000000]\<rparr>"

section \<open>Construction and comparison\<close>

definition set_uint :: "nat \<Rightarrow> uint \<Rightarrow> uint list" where
  "set_uint n v = v # replicate (n - 1) 0"

definition from_bytes :: "nat \<Rightarrow> byte list \<Rightarrow> nat \<Rightarrow> uint list" where
  "from_bytes n bytes len =
     map (\<lambda>i. fold (\<lambda>k d. if 4 * i + k < len then d + push_bit (8 * k) (ucast (bytes ! (4 * i + k))) else d) [0..<4] 0) [0..<n]"

definition is_even :: "uint list \<Rightarrow> bool" where
  "is_even a \<longleftrightarrow> a ! 0 mod 2 = 0"

definition bn_xor :: "nat \<Rightarrow> uint list \<Rightarrow> uint list \<Rightarrow> uint list" where
  "bn_xor n a b = map (\<lambda>i. a ! i XOR b ! i) [0..<n]"

fun bn_cmp :: "uint list \<Rightarrow> uint list \<Rightarrow> nat \<Rightarrow> int" where
  "bn_cmp a b 0 = 0"
| "bn_cmp a b (Suc i) = (if a ! i > b ! i then 1 else if a ! i < b ! i then -1 else bn_cmp a b i)"

section \<open>Addition and subtraction without modulus\<close>

definition sub_step :: "uint list \<Rightarrow> uint list \<Rightarrow> nat \<Rightarrow> uint list \<times> dword \<Rightarrow> uint list \<times> dword" where
  "sub_step a b i = (\<lambda>(res, borrow).
     let aux = push_bit 32 1;
         anow = ucast (a ! i);
         bnow = ucast (b ! i) + borrow;
         borrow = (if anow < bnow then 1 else 0)
     in (res[i := ucast (if borrow \<noteq> 0 then (aux - bnow) + anow else anow - bnow)], borrow))"

definition simple_sub :: "uint list \<Rightarrow> uint list \<Rightarrow> uint list \<Rightarrow> nat \<Rightarrow> uint list \<times> bool" where
  "simple_sub res a b sz = (let (res, borrow) = fold (sub_step a b) [0..<sz] (res, 0) in (res, borrow \<noteq> 0))"

definition add_step :: "uint list \<Rightarrow> uint list \<Rightarrow> nat \<Rightarrow> uint list \<times> bool \<Rightarrow> uint list \<times> bool" where
  "add_step a b i = (\<lambda>(res, carry).
     let tmp = of_bool carry + ucast (a ! i) + ucast (b ! i) :: dword
     in (res[i := ucast tmp], drop_bit 32 tmp \<noteq> 0))"

definition simple_add :: "uint list \<Rightarrow> uint list \<Rightarrow> uint list \<Rightarrow> nat \<Rightarrow> uint list \<times> bool" where
  "simple_add res a b sz = fold (add_step a b) [0..<sz] (res, False)"

section \<open>Multiplication and Barrett reduction\<close>

text \<open>The accumulator of a column of products: three double digits, of which the lower two are kept below \<open>2\<^sup>3\<^sup>2\<close>.\<close>

type_synonym acc = "dword \<times> dword \<times> dword"

definition digit :: "dword \<Rightarrow> dword" where
  "digit x = ucast (ucast x :: uint)"

definition mac :: "dword \<Rightarrow> dword \<Rightarrow> acc \<Rightarrow> acc" where
  "mac aj bk = (\<lambda>(r0, r1, r2).
     let prod = aj * bk;
         r0 = r0 + digit prod;
         r1 = r1 + (drop_bit 32 prod + drop_bit 32 r0);
         r0 = digit r0;
         r2 = r2 + drop_bit 32 r1;
         r1 = digit r1
     in (r0, r1, r2))"

definition column :: "(nat \<Rightarrow> uint) \<Rightarrow> (nat \<Rightarrow> uint) \<Rightarrow> nat \<Rightarrow> nat \<Rightarrow> acc \<Rightarrow> acc" where
  "column f g n i acc =
     fold (\<lambda>j acc. let k = i - j in if k < n then mac (ucast (f j)) (ucast (g k)) acc else acc) [0..<min n (i + 1)] acc"

definition mult_step :: "(nat \<Rightarrow> uint) \<Rightarrow> (nat \<Rightarrow> uint) \<Rightarrow> nat \<Rightarrow> nat \<Rightarrow> uint list \<times> acc \<Rightarrow> uint list \<times> acc" where
  "mult_step f g n i = (\<lambda>(res, acc).
     let (r0, r1, r2) = column f g n i acc in (res[i := ucast r0], (r1, r2, 0)))"

definition simple_mult :: "uint list \<Rightarrow> uint list \<Rightarrow> uint list \<Rightarrow> nat \<Rightarrow> uint list" where
  "simple_mult res a b sz =
     (let (res, r0, _) = fold (mult_step (\<lambda>j. a ! j) (\<lambda>k. b ! k) sz) [0..<sz * 2 - 1] (res, (0, 0, 0))
      in res[sz * 2 - 1 := ucast r0])"

definition quotient_step :: "(nat \<Rightarrow> uint) \<Rightarrow> (nat \<Rightarrow> uint) \<Rightarrow> nat \<Rightarrow> nat \<Rightarrow> uint list \<times> acc \<Rightarrow> uint list \<times> acc" where
  "quotient_step f g sz i = (\<lambda>(q, acc).
     let (r0, r1, r2) = column f g (sz + 1) i acc
     in (if i \<ge> sz + 1 then q[i - (sz + 1) := ucast r0] else q, (r1, r2, 0)))"

definition barrett_quotient :: "uint list \<Rightarrow> uint list \<Rightarrow> nat \<Rightarrow> uint list" where
  "barrett_quotient a u sz =
     (let (q, r0, _) = fold (quotient_step (\<lambda>j. a ! (j + (sz - 1))) (\<lambda>k. u ! k) sz) [0..<2 * (sz + 1) - 1]
                         (replicate (sz + 1) 0, (0, 0, 0))
      in q[2 * (sz + 1) - 1 - (sz + 1) := ucast r0])"

definition remainder_step :: "uint list \<Rightarrow> uint list \<Rightarrow> nat \<Rightarrow> nat \<Rightarrow> uint list \<times> acc \<Rightarrow> uint list \<times> acc" where
  "remainder_step q m sz i = (\<lambda>(r, acc).
     let (r0, r1, r2) = fold (\<lambda>j acc. let k = i - j in mac (ucast (q ! j)) (if k = sz then 0 else ucast (m ! k)) acc) [0..<i + 1] acc
     in (r[i := ucast r0], (r1, r2, 0)))"

definition barrett_product :: "uint list \<Rightarrow> uint list \<Rightarrow> nat \<Rightarrow> uint list" where
  "barrett_product q m sz = fst (fold (remainder_step q m sz) [0..<sz + 1] (replicate (sz + 1) 0, (0, 0, 0)))"

partial_function (option) subtract_while :: "uint list \<Rightarrow> nat \<Rightarrow> uint list \<Rightarrow> uint list option" where
  "subtract_while m sz r =
     (if r ! sz > 0 \<or> bn_cmp r m sz \<ge> 0 then
        (case simple_sub r r m sz of (r, borrow) \<Rightarrow>
           subtract_while m sz (if borrow then r[sz := r ! sz - 1] else r))
      else Some r)"

definition barrett_reduction :: "bignum_class \<Rightarrow> uint list \<Rightarrow> uint list option" where
  "barrett_reduction bn a =
     (let sz = bn_digits bn;
          q = barrett_quotient a (bn_barrett bn) sz;
          r = barrett_product q (bn_mod bn) sz;
          (r, _) = simple_sub r a r (sz + 1)
      in do { r \<leftarrow> subtract_while (bn_mod bn) sz r; Some (take sz r) })"

section \<open>The field\<close>

definition bn_mult :: "bignum_class \<Rightarrow> uint list \<Rightarrow> uint list \<Rightarrow> uint list option" where
  "bn_mult bn a b =
     (if bn_cmp b (set_uint (bn_digits bn) 1) (bn_digits bn) = 0 then Some a
      else barrett_reduction bn (simple_mult (replicate (2 * bn_digits bn) 0) a b (bn_digits bn)))"

definition bn_add :: "bignum_class \<Rightarrow> uint list \<Rightarrow> uint list \<Rightarrow> uint list" where
  "bn_add bn a b =
     (let n = bn_digits bn; m = bn_mod bn;
          (d, carry) = simple_add a a b n;
          d = (if carry then fst (simple_sub d d m n) else d)
      in if bn_cmp d m n \<ge> 0 then fst (simple_sub d d m n) else d)"

definition bn_sub :: "bignum_class \<Rightarrow> uint list \<Rightarrow> uint list \<Rightarrow> uint list" where
  "bn_sub bn a b =
     (let n = bn_digits bn;
          (d, borrow) = simple_sub a a b n
      in if borrow then fst (simple_add d d (bn_mod bn) n) else d)"

definition double_step :: "nat \<Rightarrow> uint list \<times> bool \<Rightarrow> uint list \<times> bool" where
  "double_step i = (\<lambda>(d, carry).
     let next_carry = drop_bit 31 (d ! i) \<noteq> 0
     in (d[i := push_bit 1 (d ! i) + of_bool carry], next_carry))"

definition multiply_by_two :: "nat \<Rightarrow> bool \<Rightarrow> uint list \<Rightarrow> uint list \<times> bool" where
  "multiply_by_two n carry d = fold double_step [0..<n] (d, carry)"

definition halve_step :: "nat \<Rightarrow> uint list \<times> bool \<Rightarrow> uint list \<times> bool" where
  "halve_step i = (\<lambda>(d, carry).
     let next_carry = d ! i mod 2 \<noteq> 0
     in (d[i := drop_bit 1 (d ! i) + push_bit 31 (of_bool carry)], next_carry))"

definition divide_by_two :: "nat \<Rightarrow> bool \<Rightarrow> uint list \<Rightarrow> uint list \<times> bool" where
  "divide_by_two n carry d = fold halve_step (rev [0..<n]) (d, carry)"

text \<open>Halving a number and its companion: the loop body that \<open>invert\<close> has twice.\<close>

definition halve_mod :: "bignum_class \<Rightarrow> uint list \<Rightarrow> uint list" where
  "halve_mod bn a =
     (if is_even a then fst (divide_by_two (bn_digits bn) False a)
      else (case simple_add a a (bn_mod bn) (bn_digits bn) of (a, carry) \<Rightarrow> fst (divide_by_two (bn_digits bn) carry a)))"

partial_function (option) strip_twos :: "bignum_class \<Rightarrow> uint list \<Rightarrow> uint list \<Rightarrow> (uint list \<times> uint list) option" where
  "strip_twos bn u a =
     (if is_even u then strip_twos bn (fst (divide_by_two (bn_digits bn) False u)) (halve_mod bn a) else Some (u, a))"

partial_function (option) invert_loop :: "bignum_class \<Rightarrow> uint list \<Rightarrow> uint list \<Rightarrow> uint list \<Rightarrow> uint list \<Rightarrow> uint list option" where
  "invert_loop bn u v a b =
     (if bn_cmp u (set_uint (bn_digits bn) 0) (bn_digits bn) \<noteq> 0 then do {
        (u, a) \<leftarrow> strip_twos bn u a;
        (v, b) \<leftarrow> strip_twos bn v b;
        if bn_cmp u v (bn_digits bn) \<ge> 0 then invert_loop bn (bn_sub bn u v) v (bn_sub bn a b) b
        else invert_loop bn u (bn_sub bn v u) a (bn_sub bn b a) }
      else Some b)"

definition bn_invert :: "bignum_class \<Rightarrow> uint list \<Rightarrow> uint list option" where
  "bn_invert bn x = invert_loop bn x (bn_mod bn) (set_uint (bn_digits bn) 1) (set_uint (bn_digits bn) 0)"

section \<open>Random numbers\<close>

text \<open>\<open>Random::random\<close> returns the new seed.\<close>

definition random_next :: "uint \<Rightarrow> uint" where
  "random_next seed = ucast ((scast seed * 1103515245 + 12345 :: ulong) mod 4294967295)"

fun leading_zeros_from :: "uint list \<Rightarrow> nat \<Rightarrow> nat option" where
  "leading_zeros_from m 0 = None"
| "leading_zeros_from m (Suc i) = (if m ! i = 0 then leading_zeros_from m i else Some i)"

definition bn_randomize :: "bignum_class \<Rightarrow> uint \<Rightarrow> uint list \<Rightarrow> (uint list \<times> uint) option" where
  "bn_randomize bn seed d = do {
     i \<leftarrow> leading_zeros_from (bn_mod bn) (bn_digits bn);
     let d = fold (\<lambda>k d. d[k := 0]) (rev [i + 1..<bn_digits bn]) d;
     let seed = random_next seed;
     let d = d[i := seed mod bn_mod bn ! i];
     Some (fold (\<lambda>k (d, seed). let seed = random_next seed in (d[k := seed], seed)) (rev [0..<i]) (d, seed)) }"

end
