(* ===== verification/Bignum_Arith.thy ===== *)
theory Bignum_Arith
  imports Bignum
begin

text \<open>
  The value of a digit array, and what the digit loops compute: sums, differences, halves and products of
  values, with their carries.
\<close>

section \<open>Values\<close>

definition B32 :: int where "B32 = 2 ^ 32"

lemma B32_pos [simp]: "0 < B32" "0 \<le> B32" "B32 \<noteq> 0" "0 < B32 ^ n" "0 \<le> B32 ^ n" "B32 ^ n \<noteq> 0"
  by (simp_all add: B32_def)

definition bval :: "nat \<Rightarrow> uint list \<Rightarrow> int" where
  "bval n d = (\<Sum>k<n. uint (d ! k) * B32 ^ k)"

lemma bval_0 [simp]: "bval 0 d = 0"
  by (simp add: bval_def)

lemma bval_Suc: "bval (Suc n) d = bval n d + uint (d ! n) * B32 ^ n"
  by (simp add: bval_def)

lemma uint_digit: "0 \<le> uint (x :: uint)" "uint (x :: uint) < B32"
  using uint_bounded [of x] by (simp_all add: B32_def)

lemma bval_nonneg: "0 \<le> bval n d"
  by (simp add: bval_def sum_nonneg)

lemma bval_bound: "bval n d < B32 ^ n"
proof (induction n)
  case (Suc n)
  have "uint (d ! n) * B32 ^ n \<le> (B32 - 1) * B32 ^ n" using uint_digit [of "d ! n"] by (intro mult_right_mono) simp_all
  then show ?case using Suc by (simp add: bval_Suc left_diff_distrib)
qed simp

lemma bval_cong: "(\<And>k. k < n \<Longrightarrow> c ! k = d ! k) \<Longrightarrow> bval n c = bval n d"
  by (simp add: bval_def)

lemma bval_update: "n \<le> i \<Longrightarrow> bval n (d[i := x]) = bval n d"
  by (simp add: bval_def)

lemma bval_update_last: "n < length d \<Longrightarrow> bval (Suc n) (d[n := x]) = bval n d + uint x * B32 ^ n"
  by (simp add: bval_Suc bval_update)

lemma bval_split: "m \<le> n \<Longrightarrow> n \<le> length d \<Longrightarrow> bval n d = bval m d + B32 ^ m * bval (n - m) (drop m d)"
proof (induction n)
  case (Suc n)
  show ?case
  proof (cases "m = Suc n")
    case False
    then have mn: "m \<le> n" "Suc n - m = Suc (n - m)" using Suc.prems by auto
    then have "B32 ^ n = B32 ^ m * B32 ^ (n - m)" by (simp flip: power_add)
    moreover have "drop m d ! (n - m) = d ! n" using mn(1) Suc.prems(2) by simp
    ultimately show ?thesis using Suc.IH [OF mn(1)] Suc.prems(2) mn(2) by (simp add: bval_Suc algebra_simps)
  qed simp
qed simp

lemma bval_eqD: "bval n c = bval n d \<Longrightarrow> k < n \<Longrightarrow> c ! k = d ! k"
proof (induction n arbitrary: k)
  case (Suc n)
  have b: "0 \<le> bval n c" "bval n c < B32 ^ n" "0 \<le> bval n d" "bval n d < B32 ^ n" by (rule bval_nonneg bval_bound)+
  have e: "bval n c + uint (c ! n) * B32 ^ n = bval n d + uint (d ! n) * B32 ^ n" using Suc.prems(1) by (simp only: bval_Suc)
  have "(bval n c + uint (c ! n) * B32 ^ n) div B32 ^ n = uint (c ! n)" "(bval n d + uint (d ! n) * B32 ^ n) div B32 ^ n = uint (d ! n)"
    using b by (simp_all add: div_pos_pos_trivial)
  then have "uint (c ! n) = uint (d ! n)" unfolding e by (rule trans [OF sym])
  then have "c ! n = d ! n" "bval n c = bval n d" using e by (simp_all add: unsigned_word_eqI)
  then show ?case using Suc.IH Suc.prems(2) by (cases "k = n") (auto simp: less_Suc_eq)
qed simp

lemma bval_set_uint: "0 < n \<Longrightarrow> bval n (set_uint n v) = uint v"
proof -
  assume "0 < n"
  then obtain m where n: "n = Suc m" using gr0_implies_Suc by blast
  have "bval (Suc k) (v # replicate m 0) = uint v" if "k \<le> m" for k
    using that by (induction k) (simp_all add: bval_Suc nth_Cons')
  then show ?thesis using n by (simp add: set_uint_def)
qed

section \<open>Comparison\<close>

lemma bn_cmp_value: "bn_cmp a b n = sgn (bval n a - bval n b)"
proof (induction n)
  case (Suc n)
  have b: "0 \<le> bval n a" "bval n a < B32 ^ n" "0 \<le> bval n b" "bval n b < B32 ^ n" by (rule bval_nonneg bval_bound)+
  have gt: "bval (Suc n) c < bval (Suc n) d" if "c ! n < d ! n" "bval n c < B32 ^ n" "0 \<le> bval n d" for c d
  proof -
    have "uint (c ! n) + 1 \<le> uint (d ! n)" using that(1) by (simp add: word_less_def)
    then have "(uint (c ! n) + 1) * B32 ^ n \<le> uint (d ! n) * B32 ^ n" by (intro mult_right_mono) simp_all
    then show ?thesis using that by (simp add: bval_Suc distrib_right)
  qed
  consider "a ! n > b ! n" | "a ! n < b ! n" | "a ! n = b ! n" by fastforce
  then show ?case
    using Suc gt [of a b] gt [of b a] b by cases (auto simp: bval_Suc)
qed simp

lemma bn_cmp_ge: "0 \<le> bn_cmp a b n \<longleftrightarrow> bval n b \<le> bval n a"
  and bn_cmp_eq: "bn_cmp a b n = 0 \<longleftrightarrow> bval n a = bval n b"
  by (simp_all add: bn_cmp_value sgn_if)

section \<open>Sums and differences\<close>

lemma fold_upt_inv:
  assumes "P a x" "a \<le> b" "\<And>i x. a \<le> i \<Longrightarrow> i < b \<Longrightarrow> P i x \<Longrightarrow> P (Suc i) (f i x)"
  shows "P b (fold f [a..<b] x)"
  using assms(2,1,3) by (induction b rule: dec_induct) auto

lemma uint_wide: "uint (ucast (x :: uint) :: dword) = uint x"
  by (simp add: uint_up_ucast is_up)

lemma uint_low: "uint (ucast (x :: dword) :: uint) = uint x mod B32"
  by (simp add: unsigned_ucast_eq take_bit_eq_mod B32_def)

lemma uint_high: "uint (drop_bit 32 (x :: dword)) = uint x div B32"
  by (simp add: drop_bit_eq_div uint_div_distrib B32_def)

lemma uint_plus: "uint x + uint y < 2 ^ 64 \<Longrightarrow> uint (x + y :: dword) = uint x + uint y"
  by (simp add: uint_word_ariths)

lemma uint_minus: "uint y \<le> uint x \<Longrightarrow> uint (x - y :: dword) = uint x - uint y"
proof -
  assume "uint y \<le> uint x"
  then have "0 \<le> uint x - uint y" "uint x - uint y < 2 ^ LENGTH(64)" using uint_ge_0 [of y] uint_bounded [of x] by linarith+
  then show ?thesis by (simp only: uint_word_ariths mod_pos_pos_trivial)
qed

lemma sub_digit:
  fixes x y :: uint and bo :: dword
  assumes "bo = 0 \<or> bo = 1"
  shows "(let anow = ucast x; bnow = ucast y + bo; bo' = (if anow < bnow then 1 else 0) :: dword
          in (bo' = 0 \<or> bo' = 1) \<and>
             uint (ucast (if bo' \<noteq> 0 then (push_bit 32 1 - bnow) + anow else anow - bnow) :: uint) = uint x - uint y - uint bo + uint bo' * B32)"
proof -
  define anow bnow :: dword where "anow = ucast x" and "bnow = ucast y + bo"
  have bo: "0 \<le> uint bo" "uint bo \<le> 1" using assms by auto
  have xy: "0 \<le> uint x" "uint x < B32" "0 \<le> uint y" "uint y < B32" by (rule uint_digit)+
  have a: "uint anow = uint x" by (simp add: anow_def uint_wide)
  have b: "uint bnow = uint y + uint bo" using xy bo unfolding bnow_def by (subst uint_plus) (simp_all add: uint_wide B32_def)
  have aux: "uint (push_bit 32 1 :: dword) = B32" by (simp add: B32_def)
  show ?thesis
  proof (cases "anow < bnow")
    case True
    then have lt: "uint x < uint y + uint bo" by (simp add: word_less_def a b)
    have m: "uint (push_bit 32 1 - bnow) = B32 - (uint y + uint bo)" using b aux xy bo by (subst uint_minus) (simp_all add: B32_def)
    have "uint ((push_bit 32 1 - bnow) + anow) = B32 - (uint y + uint bo) + uint x"
      using m a xy bo lt by (subst uint_plus) (simp_all add: B32_def)
    then have "uint (ucast ((push_bit 32 1 - bnow) + anow) :: uint) = B32 - (uint y + uint bo) + uint x"
      using lt xy bo by (simp add: uint_low mod_pos_pos_trivial)
    then show ?thesis using True unfolding Let_def anow_def [symmetric] bnow_def [symmetric] by simp
  next
    case False
    then have le: "uint y + uint bo \<le> uint x" by (simp add: word_less_def a b)
    then have "uint (anow - bnow) = uint x - (uint y + uint bo)" using a b by (subst uint_minus) simp_all
    moreover have "0 \<le> uint x - (uint y + uint bo)" "uint x - (uint y + uint bo) < B32" using le xy bo by linarith+
    ultimately have "uint (ucast (anow - bnow) :: uint) = uint x - (uint y + uint bo)" by (simp only: uint_low mod_pos_pos_trivial)
    then show ?thesis using False unfolding Let_def anow_def [symmetric] bnow_def [symmetric] by simp
  qed
qed


lemma sub_inv:
  assumes "i \<le> n" "n \<le> length res"
  shows "case fold (sub_step a b) [0..<i] (res, 0) of (r, bo) \<Rightarrow>
    length r = length res \<and> (bo = 0 \<or> bo = 1) \<and> bval i r = bval i a - bval i b + uint bo * B32 ^ i \<and> (\<forall>j \<ge> i. r ! j = res ! j)"
  using assms(1)
proof (induction i)
  case (Suc i)
  obtain r bo where f: "fold (sub_step a b) [0..<i] (res, 0) = (r, bo)" by fastforce
  have r: "length r = length res" "bo = 0 \<or> bo = 1" "bval i r = bval i a - bval i b + uint bo * B32 ^ i" "\<forall>j \<ge> i. r ! j = res ! j"
    using Suc f by auto
  obtain r' bo' where s: "sub_step a b i (r, bo) = (r', bo')" by fastforce
  have d: "bo' = 0 \<or> bo' = 1" "\<exists>x. r' = r[i := x] \<and> uint x = uint (a ! i) - uint (b ! i) - uint bo + uint bo' * B32"
    using s sub_digit [OF r(2), of "a ! i" "b ! i"] unfolding sub_step_def Let_def by auto
  then obtain x where x: "r' = r[i := x]" "uint x = uint (a ! i) - uint (b ! i) - uint bo + uint bo' * B32" by blast
  have il: "i < length r" using r(1) Suc.prems assms(2) by simp
  have "bval (Suc i) r' = bval (Suc i) a - bval (Suc i) b + uint bo' * B32 ^ Suc i"
    unfolding x(1) bval_update_last [OF il] r(3) x(2) by (simp add: bval_Suc algebra_simps)
  then show ?case using f s d(1) r x(1) by simp
qed simp

text \<open>\<open>res = a - b\<close> modulo the width, with the borrow; and \<open>res = a + b\<close> with the carry.\<close>

lemma simple_sub_value:
  assumes "n \<le> length res" "simple_sub res a b n = (r, bo)"
  shows "length r = length res" "bval n r = bval n a - bval n b + of_bool bo * B32 ^ n" "n \<le> j \<Longrightarrow> r ! j = res ! j"
proof -
  obtain r' w where f: "fold (sub_step a b) [0..<n] (res, 0) = (r', w)" by fastforce
  then have "length r' = length res \<and> (w = 0 \<or> w = 1) \<and> bval n r' = bval n a - bval n b + uint w * B32 ^ n \<and> (\<forall>j \<ge> n. r' ! j = res ! j)"
    using sub_inv [OF order_refl assms(1), of a b] by simp
  moreover have "r = r'" "bo \<longleftrightarrow> w \<noteq> 0" using assms(2) f by (auto simp: simple_sub_def)
  ultimately show "length r = length res" "bval n r = bval n a - bval n b + of_bool bo * B32 ^ n" "n \<le> j \<Longrightarrow> r ! j = res ! j"
    by auto
qed

lemma simple_sub_borrow: "n \<le> length res \<Longrightarrow> simple_sub res a b n = (r, bo) \<Longrightarrow> bo \<longleftrightarrow> bval n a < bval n b"
  using simple_sub_value(2) [of n res a b r bo] bval_bound [of n r] bval_nonneg [of n r] bval_bound [of n a] bval_nonneg [of n b]
  by (cases bo) simp_all

lemma add_inv:
  assumes "i \<le> n" "n \<le> length res"
  shows "case fold (add_step a b) [0..<i] (res, False) of (r, c) \<Rightarrow>
    length r = length res \<and> bval i r + of_bool c * B32 ^ i = bval i a + bval i b \<and> (\<forall>j \<ge> i. r ! j = res ! j)"
  using assms(1)
proof (induction i)
  case (Suc i)
  obtain r c where f: "fold (add_step a b) [0..<i] (res, False) = (r, c)" by fastforce
  have r: "length r = length res" "bval i r + of_bool c * B32 ^ i = bval i a + bval i b" "\<forall>j \<ge> i. r ! j = res ! j"
    using Suc f by auto
  define tmp :: dword where "tmp = of_bool c + ucast (a ! i) + ucast (b ! i)"
  have ab: "0 \<le> uint (a ! i)" "uint (a ! i) < B32" "0 \<le> uint (b ! i)" "uint (b ! i) < B32" by (rule uint_digit)+
  have "uint (of_bool c + ucast (a ! i) :: dword) = of_bool c + uint (a ! i)"
    using ab by (subst uint_plus) (simp_all add: uint_wide B32_def)
  then have t: "uint tmp = of_bool c + uint (a ! i) + uint (b ! i)"
    unfolding tmp_def using ab by (subst uint_plus) (simp_all add: uint_wide B32_def)
  have hi: "(drop_bit 32 tmp \<noteq> 0) \<longleftrightarrow> uint tmp div B32 \<noteq> 0" by (metis uint_high uint_0_iff)
  have "uint tmp \<le> 2 * B32 - 1" using t ab by (cases c) simp_all
  then have "uint tmp div B32 \<le> (2 * B32 - 1) div B32" by (intro zdiv_mono1) simp_all
  then have "uint tmp div B32 \<le> 1" by (simp add: B32_def)
  moreover have "0 \<le> uint tmp div B32" by (simp add: pos_imp_zdiv_nonneg_iff)
  ultimately have "uint tmp = uint (ucast tmp :: uint) + of_bool (drop_bit 32 tmp \<noteq> 0) * B32"
    using hi uint_low [of tmp] div_mult_mod_eq [of "uint tmp" B32]
    by (cases "uint tmp div B32 = 0"; cases "uint tmp div B32 = 1") simp_all
  then have e: "uint (ucast tmp :: uint) + of_bool (drop_bit 32 tmp \<noteq> 0) * B32 = of_bool c + uint (a ! i) + uint (b ! i)" using t by simp
  have il: "i < length r" using r(1) Suc.prems assms(2) by simp
  have "bval i r + uint (ucast tmp :: uint) * B32 ^ i + of_bool (drop_bit 32 tmp \<noteq> 0) * B32 ^ Suc i =
      bval i r + (uint (ucast tmp :: uint) + of_bool (drop_bit 32 tmp \<noteq> 0) * B32) * B32 ^ i" by (simp add: algebra_simps)
  also have "\<dots> = bval (Suc i) a + bval (Suc i) b" unfolding e using r(2) by (simp add: bval_Suc algebra_simps)
  finally have "bval (Suc i) (r[i := ucast tmp]) + of_bool (drop_bit 32 tmp \<noteq> 0) * B32 ^ Suc i = bval (Suc i) a + bval (Suc i) b"
    by (simp only: bval_update_last [OF il])
  moreover have "add_step a b i (r, c) = (r[i := ucast tmp], drop_bit 32 tmp \<noteq> 0)" by (simp add: add_step_def tmp_def Let_def)
  ultimately show ?case using f r by (simp only: upt_Suc_append fold_append fold_simps comp_apply split) (simp add: r(3))
qed simp

lemma simple_add_value:
  assumes "n \<le> length res" "simple_add res a b n = (r, c)"
  shows "length r = length res" "bval n r + of_bool c * B32 ^ n = bval n a + bval n b" "n \<le> j \<Longrightarrow> r ! j = res ! j"
  using add_inv [OF order_refl assms(1), of a b] assms(2) by (auto simp: simple_add_def)


section \<open>Columns of products\<close>

lemma int_div_less: "0 < b \<Longrightarrow> a < k * b \<Longrightarrow> a div b < (k :: int)"
proof -
  assume b: "0 < b" and a: "a < k * b"
  have "a div b * b + a mod b = a" "0 \<le> a mod b" using b by simp_all
  then have "a div b * b < k * b" using a by linarith
  then show ?thesis using b by (simp add: mult_less_cancel_right)
qed

definition aval :: "acc \<Rightarrow> int" where
  "aval acc = (case acc of (r0, r1, r2) \<Rightarrow> uint r0 + uint r1 * B32 + uint r2 * B32 ^ 2)"

definition good :: "int \<Rightarrow> acc \<Rightarrow> bool" where
  "good k acc \<longleftrightarrow> (case acc of (r0, r1, r2) \<Rightarrow> uint r0 < B32 \<and> uint r1 < B32 \<and> uint r2 \<le> k)"

lemma uint_digit_mod: "uint (digit x) = uint x mod B32"
  by (simp add: digit_def uint_wide uint_low)

lemma mac_value:
  fixes x y :: uint
  assumes g: "good k acc" and k: "k < 2 ^ 62"
  shows "aval (mac (ucast x) (ucast y) acc) = aval acc + uint x * uint y" "good (k + 1) (mac (ucast x) (ucast y) acc)"
proof -
  obtain r0 r1 r2 where acc: "acc = (r0, r1, r2)" by (cases acc)
  have r: "0 \<le> uint r0" "uint r0 < B32" "0 \<le> uint r1" "uint r1 < B32" "0 \<le> uint r2" "uint r2 \<le> k"
    using g by (auto simp: good_def acc)
  have xy: "0 \<le> uint x" "uint x < B32" "0 \<le> uint y" "uint y < B32" by (rule uint_digit)+
  define prod :: dword where "prod = ucast x * ucast y"
  have xyb: "uint x * uint y \<le> (B32 - 1) * (B32 - 1)" using xy by (intro mult_mono) simp_all
  then have xyl: "uint x * uint y < B32 * B32" by (simp add: B32_def)
  have p: "uint prod = uint x * uint y"
    using xyl xy by (simp add: prod_def uint_word_ariths uint_wide B32_def)
  define p0 p1 where "p0 = uint prod mod B32" and "p1 = uint prod div B32"
  have p01: "uint prod = p0 + p1 * B32" "0 \<le> p0" "p0 < B32" "0 \<le> p1" "p1 < B32"
    using xyl xy p int_div_less [of B32 "uint x * uint y" B32]
    by (simp_all add: p0_def p1_def pos_imp_zdiv_nonneg_iff pos_mod_bound)
  define s0 where "s0 = r0 + digit prod"
  have s0: "uint s0 = uint r0 + p0"
    unfolding s0_def using r p01 by (subst uint_plus) (simp_all add: uint_digit_mod p0_def B32_def)
  define h where "h = uint s0 div B32"
  have h: "0 \<le> h" "h \<le> 1" "uint s0 = uint s0 mod B32 + h * B32" "0 \<le> uint s0 mod B32" "uint s0 mod B32 < B32"
    using s0 r p01 int_div_less [of B32 "uint s0" 2] by (simp_all add: h_def pos_imp_zdiv_nonneg_iff pos_mod_bound)
  define s1 where "s1 = r1 + (drop_bit 32 prod + drop_bit 32 s0)"
  have "uint (drop_bit 32 prod + drop_bit 32 s0) = p1 + h"
    using p01 h by (subst uint_plus) (simp_all add: uint_high p1_def h_def B32_def)
  then have s1: "uint s1 = uint r1 + p1 + h"
    unfolding s1_def using r p01 h by (subst uint_plus) (simp_all add: B32_def)
  define c where "c = uint s1 div B32"
  have c: "0 \<le> c" "c \<le> 1" "uint s1 = uint s1 mod B32 + c * B32" "0 \<le> uint s1 mod B32" "uint s1 mod B32 < B32"
    using s1 r p01 h int_div_less [of B32 "uint s1" 2] by (simp_all add: c_def pos_imp_zdiv_nonneg_iff pos_mod_bound)
  have s2: "uint (r2 + drop_bit 32 s1) = uint r2 + c"
    using r c k by (subst uint_plus) (simp_all add: uint_high c_def)
  have m: "mac (ucast x) (ucast y) acc = (digit s0, digit s1, r2 + drop_bit 32 s1)"
    by (simp add: mac_def acc Let_def prod_def [symmetric] s0_def [symmetric] s1_def [symmetric])
  show "good (k + 1) (mac (ucast x) (ucast y) acc)" unfolding m using h c r s2 by (simp add: good_def uint_digit_mod)
  have "aval (mac (ucast x) (ucast y) acc) = uint s0 mod B32 + uint s1 mod B32 * B32 + (uint r2 + c) * B32 ^ 2"
    by (simp add: m aval_def uint_digit_mod s2)
  also have "\<dots> = (uint s0 - h * B32) + (uint s1 - c * B32) * B32 + (uint r2 + c) * B32 ^ 2"
  proof -
    have "uint s0 mod B32 = uint s0 - h * B32" "uint s1 mod B32 = uint s1 - c * B32" using h(3) c(3) by linarith+
    then show ?thesis by (simp only:)
  qed
  also have "\<dots> = uint r0 + uint r1 * B32 + uint r2 * B32 ^ 2 + (p0 + p1 * B32)"
    unfolding s0 s1 by (simp add: algebra_simps power2_eq_square)
  finally show "aval (mac (ucast x) (ucast y) acc) = aval acc + uint x * uint y" using p p01 by (simp add: aval_def acc)
qed

lemma mac_fold:
  assumes "good k acc" "k + int (length js) < 2 ^ 62"
  shows "aval (fold (\<lambda>j acc. if P j then mac (ucast (x j :: uint)) (ucast (y j :: uint)) acc else acc) js acc) =
      aval acc + (\<Sum>j\<leftarrow>js. if P j then uint (x j) * uint (y j) else 0) \<and>
    good (k + int (length js)) (fold (\<lambda>j acc. if P j then mac (ucast (x j)) (ucast (y j)) acc else acc) js acc)"
  using assms
proof (induction js arbitrary: acc k)
  case (Cons j js)
  define acc' where "acc' = (if P j then mac (ucast (x j)) (ucast (y j)) acc else acc)"
  have "good (k + 1) acc" using Cons.prems(1) by (auto simp: good_def)
  then have g: "good (k + 1) acc'" "aval acc' = aval acc + (if P j then uint (x j) * uint (y j) else 0)"
    using mac_value [OF Cons.prems(1), of "x j" "y j"] Cons.prems(2) by (auto simp: acc'_def)
  then show ?case using Cons.IH [OF g(1)] Cons.prems(2) by (simp add: acc'_def [symmetric] algebra_simps)
qed simp

text \<open>
  The accumulators and digits of a multiplication by columns, whatever the loop does with the digits.
\<close>

primrec accs :: "(nat \<Rightarrow> acc \<Rightarrow> acc) \<Rightarrow> nat \<Rightarrow> acc" where
  "accs col 0 = (0, 0, 0)"
| "accs col (Suc i) = (case col i (accs col i) of (r0, r1, r2) \<Rightarrow> (r1, r2, 0))"

definition digit_of :: "(nat \<Rightarrow> acc \<Rightarrow> acc) \<Rightarrow> nat \<Rightarrow> uint" where
  "digit_of col i = ucast (fst (col i (accs col i)))"

text \<open>Column \<open>i\<close> adds \<open>c i\<close>, from fewer than \<open>2\<^sup>3\<^sup>2\<close> products.\<close>

definition adds :: "(nat \<Rightarrow> acc \<Rightarrow> acc) \<Rightarrow> (nat \<Rightarrow> int) \<Rightarrow> nat \<Rightarrow> bool" where
  "adds col c m \<longleftrightarrow> (\<forall>i < m. \<forall>acc. good 0 acc \<longrightarrow> aval (col i acc) = aval acc + c i \<and> good (B32 - 1) (col i acc))"

lemma accs_value:
  assumes "adds col c m" "i \<le> m"
  shows "good 0 (accs col i) \<and> (\<Sum>k<i. uint (digit_of col k) * B32 ^ k) + aval (accs col i) * B32 ^ i = (\<Sum>k<i. c k * B32 ^ k)"
  using assms(2)
proof (induction i)
  case 0
  then show ?case by (simp add: good_def aval_def)
next
  case (Suc i)
  obtain r0 r1 r2 where r: "col i (accs col i) = (r0, r1, r2)" by (cases "col i (accs col i)")
  have a: "aval (r0, r1, r2) = aval (accs col i) + c i" "good (B32 - 1) (r0, r1, r2)"
    using assms(1) [unfolded adds_def, rule_format, of i "accs col i"] Suc unfolding r by simp_all
  have d: "uint (digit_of col i) = uint r0" using a(2) r by (simp add: digit_of_def uint_low good_def)
  have "uint (digit_of col i) * B32 ^ i + aval (accs col (Suc i)) * B32 ^ Suc i = aval (r0, r1, r2) * B32 ^ i"
    by (simp add: r d aval_def power2_eq_square algebra_simps)
  then have "uint (digit_of col i) * B32 ^ i + aval (accs col (Suc i)) * B32 ^ Suc i = aval (accs col i) * B32 ^ i + c i * B32 ^ i"
    by (simp add: a(1) algebra_simps)
  then show ?case using Suc a(2) by (simp add: r good_def)
qed


text \<open>Writing every digit to the result, from position \<open>0\<close> or from position \<open>s\<close> on.\<close>

lemma fold_digits:
  assumes "m - s \<le> length res"
    and "\<And>i r acc. step i (r, acc) = (case col i acc of (r0, r1, r2) \<Rightarrow> (if s \<le> i then r[i - s := ucast r0] else r, (r1, r2, 0)))"
  shows "\<exists>r. fold step [0..<m] (res, (0, 0, 0)) = (r, accs col m) \<and> length r = length res \<and> (\<forall>k < m - s. r ! k = digit_of col (k + s))"
  using assms(1)
proof (induction m)
  case (Suc m)
  have "m - s \<le> length res" using Suc.prems by linarith
  then obtain r where r: "fold step [0..<m] (res, (0, 0, 0)) = (r, accs col m)" "length r = length res"
    "\<forall>k < m - s. r ! k = digit_of col (k + s)" using Suc.IH by blast
  obtain r0 r1 r2 where c: "col m (accs col m) = (r0, r1, r2)" by (cases "col m (accs col m)")
  have "digit_of col m = ucast r0" by (simp add: digit_of_def c)
  moreover have "k = m - s" if "k < Suc m - s" "\<not> k < m - s" for k using that by linarith
  ultimately show ?case using r Suc.prems by (auto simp: assms(2) c nth_list_update)
qed simp

lemma sum_list_upt: "(\<Sum>j\<leftarrow>[0..<n]. f j) = (\<Sum>j<n. f j)"
  by (simp add: interv_sum_list_conv_sum_set_nat atLeast0LessThan)

definition conv :: "(nat \<Rightarrow> uint) \<Rightarrow> (nat \<Rightarrow> uint) \<Rightarrow> nat \<Rightarrow> nat \<Rightarrow> int" where
  "conv f g n i = (\<Sum>j<min n (i + 1). if i - j < n then uint (f j) * uint (g (i - j)) else 0)"

lemma column_adds: "int n < B32 \<Longrightarrow> adds (column f g n) (conv f g n) m"
  unfolding adds_def
proof (intro allI impI)
  fix i acc assume n: "int n < B32" and g: "good 0 acc"
  have l: "0 + int (length [0..<min n (i + 1)]) < 2 ^ 62" using n by (simp add: B32_def)
  note f = mac_fold [OF g l, of "\<lambda>j. i - j < n" f "\<lambda>j. g (i - j)"]
  have e: "column f g n i acc = fold (\<lambda>j acc. if i - j < n then mac (ucast (f j)) (ucast (g (i - j))) acc else acc) [0..<min n (i + 1)] acc"
    by (simp add: column_def Let_def)
  have "good (int (min n (i + 1))) (column f g n i acc)" using f unfolding e by simp
  then have "good (B32 - 1) (column f g n i acc)" using n by (auto simp: good_def)
  then show "aval (column f g n i acc) = aval acc + conv f g n i \<and> good (B32 - 1) (column f g n i acc)"
    using f unfolding e conv_def sum_list_upt by simp
qed

lemma conv_sum: "(\<Sum>i<2 * n - 1. conv f g n i * B32 ^ i) = (\<Sum>j<n. uint (f j) * B32 ^ j) * (\<Sum>k<n. uint (g k) * B32 ^ k)"
proof -
  define t where "t j k = uint (f j) * B32 ^ j * (uint (g k) * B32 ^ k)" for j k
  have "conv f g n i * B32 ^ i = (\<Sum>j<n. if j \<le> i \<and> i - j < n then t j (i - j) else 0)" for i
  proof -
    have "conv f g n i * B32 ^ i = (\<Sum>j<min n (i + 1). if i - j < n then t j (i - j) else 0)"
      unfolding conv_def sum_distrib_right
      by (rule sum.cong) (auto simp: t_def simp flip: power_add)
    also have "\<dots> = (\<Sum>j<n. if j \<le> i \<and> i - j < n then t j (i - j) else 0)"
      by (rule sum.mono_neutral_cong_left) auto
    finally show ?thesis .
  qed
  then have "(\<Sum>i<2 * n - 1. conv f g n i * B32 ^ i) = (\<Sum>j<n. \<Sum>i<2 * n - 1. if j \<le> i \<and> i - j < n then t j (i - j) else 0)"
    by (simp add: sum.swap [of _ "{..<n}"])
  also have "\<dots> = (\<Sum>j<n. \<Sum>k<n. t j k)"
  proof (rule sum.cong [OF refl])
    fix j assume "j \<in> {..<n}"
    then have "(\<Sum>i<2 * n - 1. if j \<le> i \<and> i - j < n then t j (i - j) else 0) = (\<Sum>i\<in>{j..<j + n}. t j (i - j))"
      by (intro sum.mono_neutral_cong_right) auto
    also have "\<dots> = (\<Sum>k<n. t j k)"
      by (rule sum.reindex_bij_witness [of _ "\<lambda>k. k + j" "\<lambda>i. i - j"]) auto
    finally show "(\<Sum>i<2 * n - 1. if j \<le> i \<and> i - j < n then t j (i - j) else 0) = (\<Sum>k<n. t j k)" .
  qed
  also have "\<dots> = (\<Sum>j<n. uint (f j) * B32 ^ j) * (\<Sum>k<n. uint (g k) * B32 ^ k)"
    by (simp add: t_def sum_product)
  finally show ?thesis .
qed

text \<open>The full product of two \<open>n\<close>-digit numbers: its digits, and what is left for the last one.\<close>

lemma product_digits:
  fixes f g :: "nat \<Rightarrow> uint"
  assumes n: "0 < n" "int n < B32"
  defines "p \<equiv> (\<Sum>j<n. uint (f j) * B32 ^ j) * (\<Sum>k<n. uint (g k) * B32 ^ k)"
  shows "(\<Sum>k<2 * n - 1. uint (digit_of (column f g n) k) * B32 ^ k) +
    uint (ucast (fst (accs (column f g n) (2 * n - 1))) :: uint) * B32 ^ (2 * n - 1) = p"
proof -
  let ?d = "\<Sum>k<2 * n - 1. uint (digit_of (column f g n) k) * B32 ^ k" and ?a = "accs (column f g n) (2 * n - 1)"
  have a: "good 0 ?a" "?d + aval ?a * B32 ^ (2 * n - 1) = p"
    using accs_value [OF column_adds [OF n(2)] order_refl, of f g "2 * n - 1"] unfolding conv_sum p_def by blast+
  have "p < B32 ^ n * B32 ^ n"
    unfolding p_def
    using bval_bound [of n "map f [0..<n]"] bval_bound [of n "map g [0..<n]"] bval_nonneg [of n "map f [0..<n]"] bval_nonneg [of n "map g [0..<n]"]
    by (simp add: bval_def mult_strict_mono')
  also have "\<dots> = B32 * B32 ^ (2 * n - 1)" using n by (simp flip: power_add power_Suc add: mult_2)
  finally have "p < B32 * B32 ^ (2 * n - 1)" .
  moreover have "0 \<le> ?d" by (simp add: sum_nonneg)
  ultimately have "aval ?a * B32 ^ (2 * n - 1) < B32 * B32 ^ (2 * n - 1)" using a(2) by linarith
  then have lt: "aval ?a < B32" by (rule mult_right_less_imp_less) simp
  obtain r0 r1 r2 where r: "?a = (r0, r1, r2)" by (cases ?a)
  have g: "uint r0 < B32" "uint r2 = 0" using a(1) uint_ge_0 [of r2] unfolding r good_def by simp_all
  have v: "aval ?a = uint r0 + uint r1 * B32" unfolding r aval_def by (simp add: g)
  have "uint r1 * B32 < 1 * B32" using lt uint_ge_0 [of r0] unfolding v by linarith
  then have "uint r1 < 1" by (rule mult_right_less_imp_less) simp
  then have "uint r1 = 0" using uint_ge_0 [of r1] by linarith
  moreover have "uint (ucast (fst ?a) :: uint) = uint r0" unfolding r using g(1) by (simp add: uint_low)
  ultimately have "aval ?a = uint (ucast (fst ?a) :: uint)" using v by simp
  then show ?thesis using a(2) by simp
qed

end
