(* ===== verification/Bignum_Field.thy ===== *)
theory Bignum_Field
  imports Bignum_Arith
begin

text \<open>
  The operators of a \<open>Bignum\<close> class compute in the integers modulo its modulus, Barrett reduction needs at most
  two corrections, and inversion ends with the inverse. The laws are stated for any class whose constants fit
  together; both classes of the repository are instances.
\<close>

section \<open>Products and Barrett reduction\<close>

lemma simple_mult_value:
  assumes "0 < n" "int n < B32" "length res = 2 * n"
  shows "bval (2 * n) (simple_mult res a b n) = bval n a * bval n b" "length (simple_mult res a b n) = 2 * n"
proof -
  let ?c = "column (\<lambda>j. a ! j) (\<lambda>k. b ! k) n"
  have "\<exists>r. fold (mult_step (\<lambda>j. a ! j) (\<lambda>k. b ! k) n) [0..<2 * n - 1] (res, 0, 0, 0) = (r, accs ?c (2 * n - 1)) \<and>
      length r = length res \<and> (\<forall>k < 2 * n - 1 - 0. r ! k = digit_of ?c (k + 0))"
    by (rule fold_digits) (use assms in \<open>simp_all add: mult_step_def Let_def\<close>)
  then obtain r where r: "fold (mult_step (\<lambda>j. a ! j) (\<lambda>k. b ! k) n) [0..<n * 2 - 1] (res, 0, 0, 0) = (r, accs ?c (2 * n - 1))"
    "length r = length res" "\<And>k. k < 2 * n - 1 \<Longrightarrow> r ! k = digit_of ?c k" by (auto simp: mult.commute)
  obtain r0 r1 r2 where a: "accs ?c (2 * n - 1) = (r0, r1, r2)" by (cases "accs ?c (2 * n - 1)")
  have m: "simple_mult res a b n = r[2 * n - 1 := ucast r0]" 
    unfolding simple_mult_def r(1) a Let_def by (simp add: mult.commute)
  have s: "Suc (2 * n - 1) = 2 * n" using assms(1) by simp
  have "bval (Suc (2 * n - 1)) (simple_mult res a b n) = bval (2 * n - 1) r + uint (ucast r0 :: uint) * B32 ^ (2 * n - 1)"
    unfolding m by (rule bval_update_last) (use assms r(2) in simp)
  also have "\<dots> = bval n a * bval n b"
    using product_digits [OF assms(1,2), of "\<lambda>j. a ! j" "\<lambda>k. b ! k"] unfolding a bval_def by (simp add: r(3))
  finally show "bval (2 * n) (simple_mult res a b n) = bval n a * bval n b" by (simp only: s)
  show "length (simple_mult res a b n) = 2 * n" using r(2) assms(3) by (simp add: m)
qed

lemma barrett_quotient_value:
  assumes "0 < n" "int n + 1 < B32" "length a = 2 * n"
  shows "bval (n + 1) (barrett_quotient a u n) = bval (2 * n) a div B32 ^ (n - 1) * bval (n + 1) u div B32 ^ (n + 1)"
proof -
  let ?f = "\<lambda>j. a ! (j + (n - 1))" and ?N = "n + 1"
  let ?c = "column ?f (\<lambda>k. u ! k) ?N"
  have N: "0 < ?N" "int ?N < B32" using assms by simp_all
  have "\<exists>r. fold (quotient_step ?f (\<lambda>k. u ! k) n) [0..<2 * ?N - 1] (replicate (n + 1) 0, 0, 0, 0) = (r, accs ?c (2 * ?N - 1)) \<and>
      length r = length (replicate (n + 1) (0 :: uint)) \<and> (\<forall>k < 2 * ?N - 1 - ?N. r ! k = digit_of ?c (k + ?N))"
    by (rule fold_digits) (simp_all add: quotient_step_def)
  then obtain r where r: "fold (quotient_step ?f (\<lambda>k. u ! k) n) [0..<2 * ?N - 1] (replicate (n + 1) 0, 0, 0, 0) = (r, accs ?c (2 * ?N - 1))"
    "length r = ?N" "\<And>k. k < n \<Longrightarrow> r ! k = digit_of ?c (k + ?N)" by auto
  obtain r0 r1 r2 where a: "accs ?c (2 * ?N - 1) = (r0, r1, r2)" by (cases "accs ?c (2 * ?N - 1)")
  have "2 * ?N - 1 - ?N = n" by simp
  then have q: "barrett_quotient a u n = r[n := ucast r0]"
    unfolding barrett_quotient_def r(1) a Let_def by (simp only: split)
  have qv: "bval ?N (barrett_quotient a u n) = bval n r + uint (ucast r0 :: uint) * B32 ^ n"
    unfolding q using bval_update_last [of n r "ucast r0"] r(2) by simp
  have low: "(\<Sum>k<?N. uint (digit_of ?c k) * B32 ^ k) < B32 ^ ?N" "0 \<le> (\<Sum>k<?N. uint (digit_of ?c k) * B32 ^ k)"
    using bval_bound [of ?N "map (digit_of ?c) [0..<?N]"] by (simp_all add: bval_def sum_nonneg del: upt_Suc sum.lessThan_Suc)
  have split: "{..<2 * ?N - 1} = {..<?N} \<union> {?N..<?N + n}" by auto
  have "(\<Sum>k<2 * ?N - 1. uint (digit_of ?c k) * B32 ^ k) =
      (\<Sum>k<?N. uint (digit_of ?c k) * B32 ^ k) + (\<Sum>k\<in>{?N..<?N + n}. uint (digit_of ?c k) * B32 ^ k)"
    unfolding split by (rule sum.union_disjoint) auto
  also have "(\<Sum>k\<in>{?N..<?N + n}. uint (digit_of ?c k) * B32 ^ k) = (\<Sum>k<n. uint (digit_of ?c (k + ?N)) * B32 ^ (k + ?N))"
    by (rule sum.reindex_bij_witness [of _ "\<lambda>k. k + ?N" "\<lambda>i. i - ?N"]) auto
  also have "\<dots> = B32 ^ ?N * bval n r" using r(3) by (simp add: bval_def sum_distrib_left power_add mult_ac)
  finally have "(\<Sum>k<2 * ?N - 1. uint (digit_of ?c k) * B32 ^ k) + uint (ucast r0 :: uint) * B32 ^ (2 * ?N - 1) =
      (\<Sum>k<?N. uint (digit_of ?c k) * B32 ^ k) + B32 ^ ?N * bval ?N (barrett_quotient a u n)"
    using qv by (simp add: algebra_simps mult_2_right flip: power_add del: sum.lessThan_Suc)
  then have t: "(\<Sum>k<?N. uint (digit_of ?c k) * B32 ^ k) + B32 ^ ?N * bval ?N (barrett_quotient a u n) =
      (\<Sum>j<?N. uint (?f j) * B32 ^ j) * bval ?N u"
    using product_digits [OF N, of ?f "\<lambda>k. u ! k"] unfolding a bval_def by simp
  have "bval ?N (drop (n - 1) a) = (\<Sum>j<?N. uint (?f j) * B32 ^ j)"
    unfolding bval_def by (rule sum.cong) (use assms in \<open>auto simp: add.commute\<close>)
  moreover have "bval (2 * n) a = bval (n - 1) a + B32 ^ (n - 1) * bval (2 * n - (n - 1)) (drop (n - 1) a)"
    by (rule bval_split) (use assms in auto)
  moreover have "2 * n - (n - 1) = ?N" using assms(1) by simp
  ultimately have "bval (2 * n) a div B32 ^ (n - 1) = (\<Sum>j<?N. uint (?f j) * B32 ^ j)"
    using bval_bound [of "n - 1" a] bval_nonneg [of "n - 1" a] by (simp add: div_pos_pos_trivial del: sum.lessThan_Suc)
  then have "bval (2 * n) a div B32 ^ (n - 1) * bval ?N u div B32 ^ ?N =
      ((\<Sum>k<?N. uint (digit_of ?c k) * B32 ^ k) + B32 ^ ?N * bval ?N (barrett_quotient a u n)) div B32 ^ ?N" using t by simp
  then show ?thesis using low by (simp add: div_pos_pos_trivial del: sum.lessThan_Suc)
qed


lemma barrett_product_value:
  assumes "int n + 1 < B32"
  shows "bval (n + 1) (barrett_product q m n) = bval (n + 1) q * bval n m mod B32 ^ (n + 1)" "length (barrett_product q m n) = n + 1"
proof -
  let ?N = "n + 1" and ?g = "\<lambda>k. if k = n then 0 else m ! k"
  let ?c = "\<lambda>i acc. fold (\<lambda>j acc. mac (ucast (q ! j)) (ucast (?g (i - j))) acc) [0..<i + 1] acc"
  have ad: "adds ?c (conv (\<lambda>j. q ! j) ?g ?N) ?N"
    unfolding adds_def
  proof (intro allI impI)
    fix i acc assume i: "i < ?N" and g: "good 0 acc"
    have l: "0 + int (length [0..<i + 1]) < 2 ^ 62" using assms i by (simp add: B32_def)
    note f = mac_fold [OF g l, of "\<lambda>_. True" "\<lambda>j. q ! j" "\<lambda>j. ?g (i - j)"]
    have cv: "conv (\<lambda>j. q ! j) ?g ?N i = (\<Sum>j<i + 1. uint (q ! j) * uint (?g (i - j)))"
      unfolding conv_def using i by (intro sum.cong) auto
    have "good (int (i + 1)) (?c i acc)" using f by simp
    then have "good (B32 - 1) (?c i acc)" using i assms by (auto simp: good_def)
    then show "aval (?c i acc) = aval acc + conv (\<lambda>j. q ! j) ?g ?N i \<and> good (B32 - 1) (?c i acc)"
      using f unfolding cv sum_list_upt by simp
  qed
  have w: "(\<lambda>j acc. let k = i - j in mac (ucast (q ! j)) (if k = n then 0 else ucast (m ! k)) acc) =
      (\<lambda>j acc. mac (ucast (q ! j)) (ucast (?g (i - j))) acc)" for i
    by (simp add: Let_def fun_eq_iff)
  have "\<exists>r. fold (remainder_step q m n) [0..<?N] (replicate (n + 1) 0, 0, 0, 0) = (r, accs ?c ?N) \<and>
      length r = length (replicate (n + 1) (0 :: uint)) \<and> (\<forall>k < ?N - 0. r ! k = digit_of ?c (k + 0))"
    by (rule fold_digits) (simp_all add: remainder_step_def w del: upt_Suc)
  then obtain r where r: "fold (remainder_step q m n) [0..<?N] (replicate (n + 1) 0, 0, 0, 0) = (r, accs ?c ?N)"
    "length r = ?N" "\<And>k. k < ?N \<Longrightarrow> r ! k = digit_of ?c k" by auto
  have p: "barrett_product q m n = r" unfolding barrett_product_def r(1) by simp
  then show "length (barrett_product q m n) = n + 1" using r(2) by simp
  have v: "bval ?N r + aval (accs ?c ?N) * B32 ^ ?N = (\<Sum>i<?N. conv (\<lambda>j. q ! j) ?g ?N i * B32 ^ i)"
    using accs_value [OF ad order_refl] r(3) by (simp add: bval_def del: sum.lessThan_Suc)
  have split: "{..<2 * ?N - 1} = {..<?N} \<union> {?N..<2 * ?N - 1}" by auto
  have "B32 ^ ?N dvd (\<Sum>i\<in>{?N..<2 * ?N - 1}. conv (\<lambda>j. q ! j) ?g ?N i * B32 ^ i)"
  proof (rule dvd_sum)
    fix i assume "i \<in> {?N..<2 * ?N - 1}"
    then have "?N \<le> i" by simp
    then show "B32 ^ ?N dvd conv (\<lambda>j. q ! j) ?g ?N i * B32 ^ i" by (intro dvd_mult le_imp_power_dvd)
  qed
  then obtain z where z: "(\<Sum>i\<in>{?N..<2 * ?N - 1}. conv (\<lambda>j. q ! j) ?g ?N i * B32 ^ i) = B32 ^ ?N * z" by (rule dvdE)
  have sm: "(\<Sum>k<?N. uint (?g k) * B32 ^ k) = bval n m" by (simp add: bval_def)
  have sq: "(\<Sum>k<?N. uint (q ! k) * B32 ^ k) = bval ?N q" by (simp add: bval_def)
  have "bval ?N q * bval n m = (\<Sum>i<2 * ?N - 1. conv (\<lambda>j. q ! j) ?g ?N i * B32 ^ i)" by (simp only: conv_sum sm sq)
  also have "\<dots> = (\<Sum>i<?N. conv (\<lambda>j. q ! j) ?g ?N i * B32 ^ i) + (\<Sum>i\<in>{?N..<2 * ?N - 1}. conv (\<lambda>j. q ! j) ?g ?N i * B32 ^ i)"
    unfolding split by (rule sum.union_disjoint) auto
  finally have z: "bval ?N q * bval n m = bval ?N r + (aval (accs ?c ?N) + z) * B32 ^ ?N"
    unfolding z v [symmetric] by (simp only: distrib_left distrib_right mult.commute add.assoc)
  have "bval ?N q * bval n m mod B32 ^ ?N = bval ?N r"
    unfolding z using bval_bound [of ?N r] bval_nonneg [of ?N r] by (simp only: mod_mult_self1 mod_pos_pos_trivial)
  then show "bval ?N (barrett_product q m n) = bval ?N q * bval n m mod B32 ^ ?N" by (simp only: p)
qed

text \<open>Barrett's estimate of the quotient is at most two too small.\<close>

lemma barrett_estimate:
  fixes a m X Y mu :: int
  assumes m: "0 < X" "0 < Y" "X \<le> m" and mu: "mu = X * Y div m" and a: "0 \<le> a" "a < X * Y"
  defines "q1 \<equiv> a div X" and "q \<equiv> a div X * mu div Y"
  shows "q * m \<le> a" "a < (q + 3) * m"
proof -
  have m0: "0 < m" using m by linarith
  have q1: "q1 * X \<le> a" "a < q1 * X + X" "0 \<le> q1"
    using pos_imp_zdiv_nonneg_iff [OF m(1), of a] a(1) div_mult_mod_eq [of a X] pos_mod_bound [OF m(1), of a] pos_mod_sign [OF m(1), of a]
    unfolding q1_def by linarith+
  have mu2: "mu * m \<le> X * Y" "X * Y < mu * m + m" "0 \<le> mu"
    using pos_imp_zdiv_nonneg_iff [OF m0, of "X * Y"] mult_pos_pos [OF m(1,2)] div_mult_mod_eq [of "X * Y" m]
      pos_mod_bound [OF m0, of "X * Y"] pos_mod_sign [OF m0, of "X * Y"]
    unfolding mu by linarith+
  have q: "q * Y \<le> q1 * mu" "q1 * mu < q * Y + Y"
    using div_mult_mod_eq [of "q1 * mu" Y] pos_mod_bound [OF m(2), of "q1 * mu"] pos_mod_sign [OF m(2), of "q1 * mu"]
    unfolding q_def q1_def [symmetric] by linarith+
  have "q * m * (X * Y) = (q * Y) * (m * X)" by simp
  also have "\<dots> \<le> (q1 * mu) * (m * X)" using q(1) m0 m(1) by (intro mult_right_mono) simp_all
  also have "\<dots> = (q1 * X) * (mu * m)" by simp
  also have "\<dots> \<le> a * (X * Y)" by (rule mult_mono [OF q1(1) mu2(1)]) (use a(1) mu2(3) m0 in simp_all)
  finally show "q * m \<le> a" using m by (simp add: mult_le_cancel_right)
  have "q1 < Y" unfolding q1_def using m a by (intro int_div_less) (simp_all add: mult.commute)
  then have q1m: "q1 * m \<le> (Y - 1) * m" using m0 by (intro mult_right_mono) simp_all
  have "(q1 * X) * Y = q1 * (X * Y)" by simp
  also have "\<dots> \<le> q1 * (mu * m + m)" using q1(3) mu2(2) by (intro mult_left_mono) simp_all
  also have "\<dots> = q1 * mu * m + q1 * m" by (simp add: algebra_simps)
  also have "\<dots> \<le> (q * Y + Y) * m + (Y - 1) * m" using q(2) q1m m0 by (intro add_mono mult_right_mono) simp_all
  also have "\<dots> = ((q + 2) * m) * Y - m" by (simp add: algebra_simps)
  finally have "(q1 * X) * Y < ((q + 2) * m) * Y" using m0 by linarith
  then have "q1 * X < (q + 2) * m" by (rule mult_right_less_imp_less) (use m in simp)
  moreover have "(q + 2) * m + m = (q + 3) * m" by (simp add: algebra_simps)
  ultimately show "a < (q + 3) * m" using q1(2) m(3) by linarith
qed


section \<open>Classes whose constants fit together\<close>

text \<open>
  The modulus has \<open>DIGITS\<close> digits, the leading one not zero, and is odd; \<open>_barrett_u\<close> is the quotient of
  \<open>2\<^sup>3\<^sup>2\<close> to the power \<open>2 DIGITS\<close> by the modulus.
\<close>

definition modulus :: "bignum_class \<Rightarrow> int" where
  "modulus bn = bval (bn_digits bn) (bn_mod bn)"

definition bn_ok :: "bignum_class \<Rightarrow> bool" where
  "bn_ok bn \<longleftrightarrow> 0 < bn_digits bn \<and> int (bn_digits bn) + 1 < B32 \<and> length (bn_mod bn) = bn_digits bn \<and>
     B32 ^ (bn_digits bn - 1) \<le> modulus bn \<and> odd (modulus bn) \<and> 3 \<le> modulus bn \<and>
     bval (bn_digits bn + 1) (bn_barrett bn) = B32 ^ (2 * bn_digits bn) div modulus bn"

lemma bval_numeral: "bval (numeral k) d = bval (pred_numeral k) d + uint (d ! pred_numeral k) * B32 ^ pred_numeral k"
  by (simp add: numeral_eq_Suc bval_Suc)

lemma bignum16_ok: "bn_ok bignum16"
  by (simp add: bn_ok_def modulus_def bignum16_def bval_numeral bval_Suc B32_def)

lemma bignum17_ok: "bn_ok bignum17"
  by (simp add: bn_ok_def modulus_def bignum17_def bval_numeral bval_Suc B32_def)

locale bignum =
  fixes bn :: bignum_class
  assumes ok: "bn_ok bn"
begin

definition n :: nat where "n = bn_digits bn"

definition p :: int where "p = modulus bn"

lemma facts: "0 < n" "int n + 1 < B32" "length (bn_mod bn) = n" "B32 ^ (n - 1) \<le> p" "p < B32 ^ n" "odd p" "3 \<le> p"
  "bval n (bn_mod bn) = p" "bval (n + 1) (bn_barrett bn) = B32 ^ (2 * n) div p"
  using ok bval_bound [of n "bn_mod bn"] by (simp_all add: bn_ok_def n_def p_def modulus_def)

lemma top_digit: "bval (n + 1) r = bval n r + uint (r ! n) * B32 ^ n"
  using bval_Suc [of n r] by simp

lemma subtract_while_value:
  "length r = n + 1 \<Longrightarrow> \<exists>r'. subtract_while (bn_mod bn) n r = Some r' \<and> length r' = n + 1 \<and> bval (n + 1) r' = bval (n + 1) r mod p"
proof (induction "nat (bval (n + 1) r)" arbitrary: r rule: less_induct)
  case less
  note f = facts
  have b: "0 \<le> bval n r" "bval n r < B32 ^ n" "0 \<le> uint (r ! n)" by (rule bval_nonneg bval_bound uint_ge_0)+
  have big: "B32 ^ n \<le> uint (r ! n) * B32 ^ n" if "r ! n > 0"
    using that mult_right_mono [of 1 "uint (r ! n)" "B32 ^ n"] uint_ge_0 [of "r ! n"] by (simp add: word_less_def)
  have cond: "r ! n > 0 \<or> bn_cmp r (bn_mod bn) n \<ge> 0 \<longleftrightarrow> p \<le> bval (n + 1) r"
  proof (cases "r ! n > 0")
    case True
    then have "p \<le> bval (n + 1) r" using big b(1) f(5) unfolding top_digit by linarith
    then show ?thesis using True by simp
  next
    case False
    then have "r ! n = 0" by (simp add: word_gt_0)
    then show ?thesis by (simp add: bval_Suc bn_cmp_ge f(8))
  qed
  show ?case
  proof (cases "p \<le> bval (n + 1) r")
    case False
    then have "subtract_while (bn_mod bn) n r = Some r" using cond by (subst subtract_while.simps) simp
    moreover have "bval (n + 1) r mod p = bval (n + 1) r" using False bval_nonneg [of "n + 1" r] by (simp add: mod_pos_pos_trivial)
    ultimately show ?thesis using less.prems by simp
  next
    case True
    obtain r1 bo where s: "simple_sub r r (bn_mod bn) n = (r1, bo)" by fastforce
    define r2 where "r2 = (if bo then r1[n := r1 ! n - 1] else r1)"
    have r1: "length r1 = n + 1" "bval n r1 = bval n r - p + of_bool bo * B32 ^ n" "r1 ! n = r ! n" "bo \<longleftrightarrow> bval n r < p"
      using simple_sub_value [OF _ s] simple_sub_borrow [OF _ s] less.prems f(8) by simp_all
    have top: "0 < uint (r ! n)" if bo
    proof (rule ccontr)
      assume "\<not> 0 < uint (r ! n)"
      then have "uint (r ! n) = 0" using b(3) by linarith
      then have "bval (n + 1) r = bval n r" unfolding top_digit by simp
      then show False using that True r1(4) by linarith
    qed
    have un: "uint (r ! n - 1) = uint (r ! n) - 1" if bo
      using top [OF that] uint_bounded [of "r ! n"] by (simp add: uint_word_ariths mod_pos_pos_trivial)
    have v: "bval (n + 1) r2 = bval (n + 1) r - p"
    proof (cases bo)
      case True
      have "uint (r ! n) * B32 ^ n = (uint (r ! n - 1) + 1) * B32 ^ n" by (simp only: un [OF True] diff_add_cancel)
      then have "uint (r ! n) * B32 ^ n = uint (r ! n - 1) * B32 ^ n + B32 ^ n" by (simp only: distrib_right mult_1)
      then show ?thesis using r1 True by (simp add: r2_def bval_Suc bval_update)
    qed (use r1 in \<open>simp add: r2_def bval_Suc\<close>)
    have "nat (bval (n + 1) r2) < nat (bval (n + 1) r)" using v True f(7) by simp
    moreover have l2: "length r2 = n + 1" using r1(1) by (simp add: r2_def)
    ultimately obtain r' where r': "subtract_while (bn_mod bn) n r2 = Some r'" "length r' = n + 1"
      "bval (n + 1) r' = bval (n + 1) r2 mod p" using less.hyps [of r2] by blast
    have "subtract_while (bn_mod bn) n r = subtract_while (bn_mod bn) n r2"
      using True cond by (subst subtract_while.simps) (simp add: s r2_def)
    moreover have "bval (n + 1) r2 mod p = bval (n + 1) r mod p" unfolding v by (rule minus_mod_self2)
    ultimately show ?thesis using r' by simp
  qed
qed

lemma barrett_reduction_value:
  assumes "length a = 2 * n"
  shows "\<exists>r. barrett_reduction bn a = Some r \<and> length r = n \<and> bval n r = bval (2 * n) a mod p"
proof -
  note f = facts
  define q where "q = barrett_quotient a (bn_barrett bn) n"
  define r0 where "r0 = barrett_product q (bn_mod bn) n"
  obtain r1 bo where r1: "simple_sub r0 a r0 (n + 1) = (r1, bo)" by fastforce
  let ?X = "B32 ^ (n - 1)" and ?Y = "B32 ^ (n + 1)" and ?a = "bval (2 * n) a"
  have "n - 1 + (n + 1) = 2 * n" using f(1) by simp
  then have XY: "?X * ?Y = B32 ^ (2 * n)" by (simp only: power_add [symmetric])
  have qv: "bval (n + 1) q = ?a div ?X * (?X * ?Y div p) div ?Y"
    unfolding q_def XY f(9) [symmetric] by (rule barrett_quotient_value [OF f(1,2) assms])
  have est: "bval (n + 1) q * p \<le> ?a" "?a < (bval (n + 1) q + 3) * p"
    unfolding qv using barrett_estimate [of ?X ?Y p "?X * ?Y div p" ?a] f(4) bval_nonneg [of "2 * n" a] bval_bound [of "2 * n" a] XY by simp_all
  have r0: "bval (n + 1) r0 = bval (n + 1) q * p mod ?Y" "length r0 = n + 1"
    unfolding r0_def using barrett_product_value [OF f(2), of q "bn_mod bn"] f(8) by simp_all
  have "n + 1 \<le> 2 * n" using f(1) by simp
  then have av: "bval (n + 1) a = ?a mod ?Y"
    using bval_split [of "n + 1" "2 * n" a] assms bval_bound [of "n + 1" a] bval_nonneg [of "n + 1" a]
    by (simp add: mod_pos_pos_trivial)
  have v1: "bval (n + 1) r1 = bval (n + 1) a - bval (n + 1) r0 + of_bool bo * ?Y" "length r1 = n + 1"
    using simple_sub_value [OF _ r1] r0(2) by simp_all
  have "bval (n + 1) r1 = bval (n + 1) r1 mod ?Y" using bval_bound [of "n + 1" r1] bval_nonneg [of "n + 1" r1] by (simp add: mod_pos_pos_trivial)
  also have "\<dots> = (?a - bval (n + 1) q * p) mod ?Y"
    unfolding v1(1) av r0(1) by (simp add: mod_diff_eq)
  also have "\<dots> = ?a - bval (n + 1) q * p"
  proof (rule mod_pos_pos_trivial)
    show "0 \<le> ?a - bval (n + 1) q * p" using est(1) by simp
    have "3 * p \<le> B32 * B32 ^ n" using f(5) mult_mono [of 3 B32 p "B32 ^ n"] f(7) by (simp add: B32_def)
    then show "?a - bval (n + 1) q * p < ?Y" using est(2) by (simp add: algebra_simps)
  qed
  finally have "bval (n + 1) r1 mod p = (?a - bval (n + 1) q * p) mod p" by (simp only:)
  also have "\<dots> = (?a - bval (n + 1) q * p + bval (n + 1) q * p) mod p" by (rule mod_mult_self1 [symmetric])
  finally have "bval (n + 1) r1 mod p = ?a mod p" by simp
  then obtain r where r: "subtract_while (bn_mod bn) n r1 = Some r" "length r = n + 1" "bval (n + 1) r = ?a mod p"
    using subtract_while_value [OF v1(2)] by auto
  have "bval (n + 1) r < B32 ^ n" using r(3) f(5,7) pos_mod_bound [of p ?a] by linarith
  then have "uint (r ! n) * B32 ^ n < 1 * B32 ^ n" using top_digit [of r] bval_nonneg [of n r] by linarith
  then have "uint (r ! n) < 1" by (rule mult_right_less_imp_less) simp
  then have "uint (r ! n) = 0" using uint_ge_0 [of "r ! n"] by linarith
  then have "bval n r = ?a mod p" using r(3) unfolding top_digit by simp
  moreover have "bval n (take n r) = bval n r" by (rule bval_cong) simp
  moreover have "barrett_reduction bn a = Some (take n r)"
    unfolding barrett_reduction_def Let_def n_def [symmetric] q_def [symmetric] r0_def [symmetric] r1 by (simp add: r(1))
  ultimately show ?thesis using r(2) by simp
qed

lemma one_value: "bval n (set_uint n v) = uint v"
  by (rule bval_set_uint [OF facts(1)])

lemma mult_value:
  assumes "length a = n" "bval n a < p"
  shows "\<exists>r. bn_mult bn a b = Some r \<and> length r = n \<and> bval n r = bval n a * bval n b mod p"
proof (cases "bval n b = 1")
  case True
  then have "bn_mult bn a b = Some a" by (simp add: bn_mult_def n_def [symmetric] bn_cmp_eq one_value)
  then show ?thesis using assms True bval_nonneg [of n a] by (simp add: mod_pos_pos_trivial)
next
  case False
  let ?m = "simple_mult (replicate (2 * n) 0) a b n"
  have n: "int n < B32" using facts(2) by simp
  have m: "bval (2 * n) ?m = bval n a * bval n b" "length ?m = 2 * n"
    using simple_mult_value [OF facts(1) n, of "replicate (2 * n) 0" a b] by simp_all
  have "bn_mult bn a b = barrett_reduction bn ?m" using False by (simp add: bn_mult_def n_def [symmetric] bn_cmp_eq one_value)
  then show ?thesis using barrett_reduction_value [OF m(2)] m(1) by simp
qed

lemma add_value:
  assumes "length a = n" "bval n a < p" "bval n b < p"
  shows "length (bn_add bn a b) = n" "bval n (bn_add bn a b) = (bval n a + bval n b) mod p"
proof -
  obtain d c where d: "simple_add a a b n = (d, c)" by fastforce
  have dv: "length d = n" "bval n d + of_bool c * B32 ^ n = bval n a + bval n b"
    using simple_add_value [OF _ d] assms(1) by simp_all
  define d1 where "d1 = (if c then fst (simple_sub d d (bn_mod bn) n) else d)"
  have sub: "length (fst (simple_sub x x (bn_mod bn) n)) = n \<and>
      bval n (fst (simple_sub x x (bn_mod bn) n)) = bval n x - p + of_bool (bval n x < p) * B32 ^ n" if "length x = n" for x
  proof -
    obtain r bo where s: "simple_sub x x (bn_mod bn) n = (r, bo)" by fastforce
    show ?thesis using simple_sub_value(1,2) [OF _ s] simple_sub_borrow [OF _ s] that by (simp add: s facts(8))
  qed
  have nn: "0 \<le> bval n a" "0 \<le> bval n b" "0 \<le> bval n d" by (rule bval_nonneg)+
  have d1: "length d1 = n" "bval n d1 = bval n a + bval n b - of_bool c * p"
  proof -
    have "bval n d < p" if c using that dv(2) assms(2,3) facts(5) by simp
    then show "length d1 = n" "bval n d1 = bval n a + bval n b - of_bool c * p"
      using sub [OF dv(1)] dv by (cases c; simp add: d1_def)+
  qed
  have e: "bn_add bn a b = (if p \<le> bval n d1 then fst (simple_sub d1 d1 (bn_mod bn) n) else d1)"
    by (simp add: bn_add_def Let_def n_def [symmetric] d d1_def [symmetric] bn_cmp_ge facts(8))
  show "length (bn_add bn a b) = n" using sub [OF d1(1)] d1(1) by (simp add: e)
  have s: "bval n a + bval n b < p + p" using assms by simp
  have big: "p \<le> bval n a + bval n b" if c using that dv(2) nn(3) facts(5) by simp
  have "bval n (bn_add bn a b) = (if p \<le> bval n a + bval n b then bval n a + bval n b - p else bval n a + bval n b)"
    using sub [OF d1(1)] d1(2) s big by (cases c) (auto simp: e)
  also have "\<dots> = (bval n a + bval n b) mod p"
    using s nn int_mod_pos_eq [of "bval n a + bval n b" p 1 "bval n a + bval n b - p"] by (auto simp: mod_pos_pos_trivial)
  finally show "bval n (bn_add bn a b) = (bval n a + bval n b) mod p" .
qed

lemma sub_exact:
  assumes "length a = n" "bval n b \<le> bval n a"
  shows "length (bn_sub bn a b) = n" "bval n (bn_sub bn a b) = bval n a - bval n b"
proof -
  obtain d bo where d: "simple_sub a a b n = (d, bo)" by fastforce
  show "length (bn_sub bn a b) = n" "bval n (bn_sub bn a b) = bval n a - bval n b"
    using simple_sub_value(1,2) [OF _ d] simple_sub_borrow [OF _ d] assms by (simp_all add: bn_sub_def Let_def n_def [symmetric] d)
qed

lemma sub_value:
  assumes "length a = n" "bval n a < p" "bval n b < p"
  shows "length (bn_sub bn a b) = n" "bval n (bn_sub bn a b) = (bval n a - bval n b) mod p"
proof -
  have nn: "0 \<le> bval n a" "0 \<le> bval n b" by (rule bval_nonneg)+
  have "length (bn_sub bn a b) = n \<and> bval n (bn_sub bn a b) = (bval n a - bval n b) mod p"
  proof (cases "bval n b \<le> bval n a")
    case True
    then show ?thesis using sub_exact [OF assms(1) True] assms nn by (simp add: mod_pos_pos_trivial)
  next
    case False
    obtain d bo where d: "simple_sub a a b n = (d, bo)" by fastforce
    have dv: "length d = n" "bval n d = bval n a - bval n b + B32 ^ n" "bo"
      using simple_sub_value(1,2) [OF _ d] simple_sub_borrow [OF _ d] assms False by simp_all
    obtain e c where e: "simple_add d d (bn_mod bn) n = (e, c)" by fastforce
    have ev: "length e = n" "bval n e + of_bool c * B32 ^ n = bval n a - bval n b + B32 ^ n + p"
      using simple_add_value [OF _ e] dv facts(8) by simp_all
    have "c" using ev(2) bval_bound [of n e] nn assms by (cases c) simp_all
    then have "bval n e = bval n a - bval n b + p" using ev(2) by simp
    moreover have "(bval n a - bval n b) mod p = bval n a - bval n b + p"
      using False nn assms by (intro int_mod_pos_eq [of _ _ "- 1"]) simp_all
    ultimately show ?thesis using ev(1) dv(3) by (simp add: bn_sub_def Let_def n_def [symmetric] d e)
  qed
  then show "length (bn_sub bn a b) = n" "bval n (bn_sub bn a b) = (bval n a - bval n b) mod p" by blast+
qed

text \<open>Halving: \<open>divide_by_two\<close> shifts the whole number, with the given bit entering at the top.\<close>

lemma halve_digit: "uint (drop_bit 1 (x :: uint) + push_bit 31 (of_bool c)) = (uint x + of_bool c * B32) div 2"
proof -
  have "uint (drop_bit 1 x) = uint x div 2" by (simp add: drop_bit_eq_div uint_div_distrib)
  moreover have "uint x div 2 < 2 ^ 31" using uint_bounded [of x] by (intro int_div_less) simp_all
  moreover have "uint (push_bit 31 (of_bool c) :: uint) = of_bool c * 2 ^ 31" by simp
  ultimately have "uint (drop_bit 1 x + push_bit 31 (of_bool c)) = uint x div 2 + of_bool c * 2 ^ 31"
    by (cases c) (simp_all add: uint_word_ariths mod_pos_pos_trivial)
  also have "\<dots> = (uint x + of_bool c * B32) div 2" by (cases c) (simp_all add: B32_def)
  finally show ?thesis .
qed

lemma halve_value:
  "k \<le> length d \<Longrightarrow> case fold halve_step (rev [0..<k]) (d, c) of (r, c') \<Rightarrow>
    length r = length d \<and> bval k r = (bval k d + of_bool c * B32 ^ k) div 2 \<and> (\<forall>j \<ge> k. r ! j = d ! j)"
proof (induction k arbitrary: d c)
  case (Suc k)
  define x where "x = drop_bit 1 (d ! k) + push_bit 31 (of_bool c)"
  define c1 where "c1 \<longleftrightarrow> d ! k mod 2 \<noteq> 0"
  obtain r c' where r: "fold halve_step (rev [0..<k]) (d[k := x], c1) = (r, c')" by fastforce
  have IH: "length r = length d" "bval k r = (bval k d + of_bool c1 * B32 ^ k) div 2" "\<And>j. k \<le> j \<Longrightarrow> r ! j = d[k := x] ! j"
    using Suc.IH [of "d[k := x]" c1] Suc.prems by (auto simp: r bval_update)
  have f: "fold halve_step (rev [0..<Suc k]) (d, c) = (r, c')"
  proof -
    have "halve_step k (d, c) = (d[k := x], c1)" by (simp only: halve_step_def Let_def split x_def c1_def)
    then show ?thesis using r by simp
  qed
  have c1: "of_bool c1 = uint (d ! k) mod 2"
  proof -
    have "uint (d ! k mod 2) = uint (d ! k) mod 2" by (simp add: uint_mod_distrib)
    then have "c1 \<longleftrightarrow> uint (d ! k) mod 2 \<noteq> 0" unfolding c1_def by (metis uint_0_iff)
    then show ?thesis by (cases c1) auto
  qed
  let ?t = "uint (d ! k) + of_bool c * B32"
  have ev: "even B32" by (simp add: B32_def)
  have tm: "?t mod 2 = of_bool c1" unfolding c1 using ev by (simp add: mod_add_right_eq [symmetric] mod_mult_right_eq [symmetric] even_iff_mod_2_eq_zero)
  have "bval (Suc k) d + of_bool c * B32 ^ Suc k = bval k d + ?t * B32 ^ k" by (simp add: bval_Suc algebra_simps)
  also have "\<dots> = bval k d + (?t div 2 * 2 + ?t mod 2) * B32 ^ k" by (simp only: div_mult_mod_eq)
  also have "\<dots> = (bval k d + of_bool c1 * B32 ^ k) + 2 * (?t div 2 * B32 ^ k)" unfolding tm by (simp add: algebra_simps)
  finally have "(bval (Suc k) d + of_bool c * B32 ^ Suc k) div 2 = (bval k d + of_bool c1 * B32 ^ k) div 2 + ?t div 2 * B32 ^ k"
    by simp
  moreover have "uint (r ! k) = ?t div 2" using IH(3) [of k] Suc.prems halve_digit [of "d ! k" c] by (simp add: x_def)
  ultimately show ?case using IH f Suc.prems by (simp add: bval_Suc)
qed simp

lemma divide_by_two_value:
  assumes "length d = n"
  shows "length (fst (divide_by_two n c d)) = n" "bval n (fst (divide_by_two n c d)) = (bval n d + of_bool c * B32 ^ n) div 2"
  using halve_value [of n d c] assms by (auto simp: divide_by_two_def split: prod.splits)

lemma is_even_value: "is_even a \<longleftrightarrow> even (bval n a)"
proof -
  obtain k where k: "n = Suc k" using facts(1) gr0_implies_Suc by blast
  have "even (\<Sum>j<k. uint (a ! Suc j) * B32 ^ Suc j)" by (rule dvd_sum) (simp add: B32_def)
  then have "even (bval n a) \<longleftrightarrow> even (uint (a ! 0))" unfolding bval_def k sum.lessThan_Suc_shift by simp
  moreover have "a ! 0 mod 2 = 0 \<longleftrightarrow> uint (a ! 0) mod 2 = 0"
    using uint_0_iff [of "a ! 0 mod 2"] by (simp add: uint_mod_distrib)
  ultimately show ?thesis by (simp add: is_even_def even_iff_mod_2_eq_zero)
qed

lemma halve_mod_value:
  assumes "length a = n" "bval n a < p"
  shows "length (halve_mod bn a) = n" "bval n (halve_mod bn a) < p" "(2 * bval n (halve_mod bn a) - bval n a) mod p = 0"
proof -
  have nn: "0 \<le> bval n a" by (rule bval_nonneg)
  have "length (halve_mod bn a) = n \<and> bval n (halve_mod bn a) < p \<and> (2 * bval n (halve_mod bn a) - bval n a) mod p = 0"
  proof (cases "is_even a")
    case True
    then have "halve_mod bn a = fst (divide_by_two n False a)" "2 * (bval n a div 2) = bval n a"
      by (simp_all add: halve_mod_def n_def [symmetric] is_even_value)
    moreover have "bval n a div 2 < p" using assms(2) nn by simp
    ultimately show ?thesis using divide_by_two_value [OF assms(1), of False] by simp
  next
    case False
    obtain d c where d: "simple_add a a (bn_mod bn) n = (d, c)" by fastforce
    have dv: "length d = n" "bval n d + of_bool c * B32 ^ n = bval n a + p"
      using simple_add_value [OF _ d] assms(1) facts(8) by simp_all
    have "2 * ((bval n a + p) div 2) = bval n a + p" using False facts(6) by (simp add: is_even_value)
    moreover have "(bval n a + p) div 2 < p" using assms(2) by (intro int_div_less) simp_all
    moreover have "halve_mod bn a = fst (divide_by_two n c d)" using False by (simp add: halve_mod_def n_def [symmetric] d)
    ultimately show ?thesis using divide_by_two_value [OF dv(1), of c] dv(2) by simp
  qed
  then show "length (halve_mod bn a) = n" "bval n (halve_mod bn a) < p" "(2 * bval n (halve_mod bn a) - bval n a) mod p = 0" by blast+
qed

text \<open>
  Inversion is the binary extended Euclidean algorithm: \<open>a x = u\<close> and \<open>b x = v\<close> modulo \<open>p\<close> throughout.
\<close>

lemma halve_cong: "p dvd 2 * a2 - a \<Longrightarrow> p dvd a * x - 2 * u \<Longrightarrow> p dvd a2 * x - u"
proof -
  assume "p dvd 2 * a2 - a" "p dvd a * x - 2 * u"
  then have "p dvd (2 * a2 - a) * x + (a * x - 2 * u)" by simp
  then have "p dvd 2 * (a2 * x - u)" by (simp add: algebra_simps)
  moreover have "coprime p 2" using facts(6) by simp
  ultimately show ?thesis using coprime_dvd_mult_right_iff [of p 2 "a2 * x - u"] by blast
qed

lemma coprime_minus: "coprime u v \<Longrightarrow> coprime (u - v) v" for u v :: int
  by (simp add: coprime_iff_gcd_eq_1 gcd_diff1)

lemma strip_twos_value:
  assumes "length u = n" "length a = n" "0 < bval n u" "bval n a < p" "p dvd bval n a * x - bval n u" "coprime (bval n u) v"
  shows "\<exists>u' a'. strip_twos bn u a = Some (u', a') \<and> length u' = n \<and> length a' = n \<and> 0 < bval n u' \<and> bval n u' \<le> bval n u \<and>
    odd (bval n u') \<and> bval n a' < p \<and> p dvd bval n a' * x - bval n u' \<and> coprime (bval n u') v"
  using assms
proof (induction "nat (bval n u)" arbitrary: u a rule: less_induct)
  case less
  show ?case
  proof (cases "is_even u")
    case False
    then have "strip_twos bn u a = Some (u, a)" by (subst strip_twos.simps) simp
    then show ?thesis using less.prems False by (simp add: is_even_value)
  next
    case True
    define u1 where "u1 = fst (divide_by_two n False u)"
    note h = halve_mod_value [OF less.prems(2,4)]
    have u1: "length u1 = n" "bval n u = 2 * bval n u1"
      using divide_by_two_value [OF less.prems(1), of False] True by (simp_all add: u1_def is_even_value)
    then have pos: "0 < bval n u1" "bval n u1 < bval n u" using less.prems(3) by simp_all
    have "p dvd bval n (halve_mod bn a) * x - bval n u1"
      by (rule halve_cong [of _ "bval n a"]) (use h(3) less.prems(5) u1(2) in \<open>simp_all add: dvd_eq_mod_eq_0\<close>)
    moreover have "coprime (bval n u1) v" using less.prems(6) u1(2) by simp
    moreover have "nat (bval n u1) < nat (bval n u)" using pos by simp
    ultimately obtain u' a' where "strip_twos bn u1 (halve_mod bn a) = Some (u', a') \<and> length u' = n \<and> length a' = n \<and> 0 < bval n u' \<and>
      bval n u' \<le> bval n u1 \<and> odd (bval n u') \<and> bval n a' < p \<and> p dvd bval n a' * x - bval n u' \<and> coprime (bval n u') v"
      using less.hyps [of u1 "halve_mod bn a"] u1(1) h pos(1) by blast
    moreover have "strip_twos bn u a = strip_twos bn u1 (halve_mod bn a)"
      using True by (subst strip_twos.simps) (simp add: u1_def n_def [symmetric])
    ultimately show ?thesis using pos by auto
  qed
qed

lemma sub_cong:
  assumes "length a = n" "bval n a < p" "bval n b < p" "p dvd bval n a * x - u" "p dvd bval n b * x - v"
  shows "p dvd bval n (bn_sub bn a b) * x - (u - v)"
proof -
  have "p dvd bval n (bn_sub bn a b) - (bval n a - bval n b)"
    unfolding sub_value(2) [OF assms(1-3)] by (simp add: mod_eq_dvd_iff [symmetric])
  then have "p dvd (bval n (bn_sub bn a b) - (bval n a - bval n b)) * x + ((bval n a * x - u) - (bval n b * x - v))"
    using assms(4,5) by simp
  then show ?thesis by (simp add: algebra_simps)
qed

lemma zero_value: "bn_cmp u (set_uint n 0) n = 0 \<longleftrightarrow> bval n u = 0"
  by (simp add: bn_cmp_eq one_value)

lemma bn_sub_less: "length a = n \<Longrightarrow> bval n a < p \<Longrightarrow> bval n b < p \<Longrightarrow> bval n (bn_sub bn a b) < p"
  using sub_value(2) [of a b] pos_mod_bound [of p "bval n a - bval n b"] facts(7) by linarith

lemma invert_loop_value:
  assumes "length u = n" "length v = n" "length a = n" "length b = n" "0 < bval n v" "bval n a < p" "bval n b < p"
    "p dvd bval n a * x - bval n u" "p dvd bval n b * x - bval n v" "coprime (bval n u) (bval n v)"
  shows "\<exists>r. invert_loop bn u v a b = Some r \<and> length r = n \<and> bval n r < p \<and> p dvd bval n r * x - 1"
  using assms
proof (induction "nat (bval n u + bval n v)" arbitrary: u v a b rule: less_induct)
  case less
  show ?case
  proof (cases "bval n u = 0")
    case True
    then have "invert_loop bn u v a b = Some b" by (subst invert_loop.simps) (simp add: n_def [symmetric] zero_value)
    moreover have "bval n v = 1" using less.prems(5,10) True by simp
    ultimately show ?thesis using less.prems by simp
  next
    case False
    then have u0: "0 < bval n u" using bval_nonneg [of n u] by linarith
    obtain u1 a1 where u1: "strip_twos bn u a = Some (u1, a1)" "length u1 = n" "length a1 = n" "0 < bval n u1" "bval n u1 \<le> bval n u"
      "bval n a1 < p" "p dvd bval n a1 * x - bval n u1" "coprime (bval n u1) (bval n v)"
      using strip_twos_value [OF less.prems(1,3) u0 less.prems(6,8,10)] by blast
    have "coprime (bval n v) (bval n u1)" using u1(8) by (simp add: coprime_commute)
    then obtain v1 b1 where v1: "strip_twos bn v b = Some (v1, b1)" "length v1 = n" "length b1 = n" "0 < bval n v1" "bval n v1 \<le> bval n v"
      "bval n b1 < p" "p dvd bval n b1 * x - bval n v1" "coprime (bval n v1) (bval n u1)"
      using strip_twos_value [OF less.prems(2,4,5,7,9)] by blast
    have step: "invert_loop bn u v a b = (if bval n v1 \<le> bval n u1 then invert_loop bn (bn_sub bn u1 v1) v1 (bn_sub bn a1 b1) b1
        else invert_loop bn u1 (bn_sub bn v1 u1) a1 (bn_sub bn b1 a1))"
      using False by (subst invert_loop.simps) (simp add: n_def [symmetric] zero_value u1(1) v1(1) bn_cmp_ge)
    show ?thesis
    proof (cases "bval n v1 \<le> bval n u1")
      case True
      note s = sub_exact [OF u1(2) True]
      have "coprime (bval n u1 - bval n v1) (bval n v1)" by (rule coprime_minus) (use v1(8) in \<open>simp add: coprime_commute\<close>)
      moreover have "nat (bval n u1 - bval n v1 + bval n v1) < nat (bval n u + bval n v)" using u1 v1 u0 less.prems(5) by simp
      ultimately show ?thesis
        unfolding step using True
        by simp (rule less.hyps; use s u1 v1 sub_value(1) [OF u1(3,6) v1(6)] bn_sub_less [OF u1(3,6) v1(6)]
            sub_cong [OF u1(3,6) v1(6) u1(7) v1(7)] in \<open>simp\<close>)
    next
      case False
      note s = sub_exact [OF v1(2), of u1]
      have "coprime (bval n v1 - bval n u1) (bval n u1)" by (rule coprime_minus [OF v1(8)])
      then have "coprime (bval n u1) (bval n v1 - bval n u1)" by (simp add: coprime_commute)
      moreover have "nat (bval n u1 + (bval n v1 - bval n u1)) < nat (bval n u + bval n v)" using u1 v1 u0 less.prems(5) by simp
      ultimately show ?thesis
        unfolding step using False
        by simp (rule less.hyps; use s u1 v1 sub_value(1) [OF v1(3,6) u1(6)] bn_sub_less [OF v1(3,6) u1(6)]
            sub_cong [OF v1(3,6) u1(6) v1(7) u1(7)] in \<open>simp\<close>)
    qed
  qed
qed

lemma invert_value:
  assumes "length x = n" "coprime (bval n x) p"
  shows "\<exists>r. bn_invert bn x = Some r \<and> length r = n \<and> bval n r < p \<and> bval n r * bval n x mod p = 1"
proof -
  have l: "length (set_uint n v) = n" for v using facts(1) by (simp add: set_uint_def)
  have "\<exists>r. invert_loop bn x (bn_mod bn) (set_uint n 1) (set_uint n 0) = Some r \<and> length r = n \<and> bval n r < p \<and> p dvd bval n r * bval n x - 1"
    by (rule invert_loop_value) (use assms facts l in \<open>simp_all add: one_value\<close>)
  moreover have "r * y mod p = 1" if "p dvd r * y - 1" for r y
  proof -
    have "r * y mod p = 1 mod p" using that by (simp add: mod_eq_dvd_iff)
    then show ?thesis using facts(7) by (simp add: mod_pos_pos_trivial)
  qed
  ultimately show ?thesis by (auto simp: bn_invert_def n_def [symmetric])
qed

end

interpretation b16: bignum bignum16 by unfold_locales (rule bignum16_ok)

interpretation b17: bignum bignum17 by unfold_locales (rule bignum17_ok)

end
