(* ===== verification/Bignum_Properties.thy ===== *)
theory Bignum_Properties
  imports Bignum_Field
begin

text \<open>
  The contract of \<open>Bignum\<close> towards its clients (the key agreement and the authenticator), for every class whose
  constants fit together and, as instances, for the two classes of the repository.
\<close>

section \<open>Doubling\<close>

lemma double_digit: "uint (push_bit 1 (x :: uint) + of_bool c) + of_bool (drop_bit 31 x \<noteq> 0) * B32 = 2 * uint x + of_bool c"
proof -
  have h: "(drop_bit 31 x \<noteq> 0) \<longleftrightarrow> uint x div 2 ^ 31 \<noteq> 0"
  proof -
    have "uint (drop_bit 31 x) = uint x div 2 ^ 31" by (simp add: drop_bit_eq_div uint_div_distrib)
    then show ?thesis by (metis uint_0_iff)
  qed
  have b: "0 \<le> uint x" "uint x < 2 ^ 32" using uint_bounded [of x] by simp_all
  have m: "uint (push_bit 1 x + of_bool c) = (2 * uint x + of_bool c) mod 2 ^ 32"
  proof -
    have "push_bit 1 x = 2 * x" by (simp add: push_bit_eq_mult)
    then show ?thesis by (cases c) (simp_all add: uint_word_ariths mod_simps mult.commute)
  qed
  show ?thesis
  proof (cases "uint x < 2 ^ 31")
    case True
    then have "uint x div 2 ^ 31 = 0" using b(1) by (simp add: div_pos_pos_trivial)
    then show ?thesis using True b h m by (cases c) (simp_all add: mod_pos_pos_trivial)
  next
    case False
    then have d: "uint x div 2 ^ 31 = 1" using b by (intro int_div_pos_eq [of _ _ _ "uint x - 2 ^ 31"]) simp_all
    have "(2 * uint x + of_bool c) mod 2 ^ 32 = 2 * uint x + of_bool c - 2 ^ 32"
      using False b by (intro int_mod_pos_eq [of _ _ 1]) (cases c; simp)+
    then show ?thesis using d h m by (simp add: B32_def)
  qed
qed

lemma double_value:
  "k \<le> length d \<Longrightarrow> case fold double_step [0..<k] (d, c) of (r, c') \<Rightarrow>
    length r = length d \<and> bval k r + of_bool c' * B32 ^ k = 2 * bval k d + of_bool c \<and> (\<forall>j \<ge> k. r ! j = d ! j)"
proof (induction k)
  case (Suc k)
  obtain r c' where r: "fold double_step [0..<k] (d, c) = (r, c')" by fastforce
  have IH: "length r = length d" "bval k r + of_bool c' * B32 ^ k = 2 * bval k d + of_bool c" "\<And>j. k \<le> j \<Longrightarrow> r ! j = d ! j"
    using Suc r by auto
  define x where "x = push_bit 1 (d ! k) + of_bool c'"
  have kl: "k < length r" using IH(1) Suc.prems by simp
  have f: "fold double_step [0..<Suc k] (d, c) = (r[k := x], drop_bit 31 (d ! k) \<noteq> 0)"
  proof -
    have "double_step k (r, c') = (r[k := x], drop_bit 31 (d ! k) \<noteq> 0)" by (simp only: double_step_def Let_def split x_def IH(3) [OF order_refl])
    then show ?thesis using r by simp
  qed
  have "bval (Suc k) (r[k := x]) + of_bool (drop_bit 31 (d ! k) \<noteq> 0) * B32 ^ Suc k =
      bval k r + (uint x + of_bool (drop_bit 31 (d ! k) \<noteq> 0) * B32) * B32 ^ k"
    unfolding bval_update_last [OF kl] by (simp add: algebra_simps)
  also have "\<dots> = 2 * bval (Suc k) d + of_bool c" unfolding x_def double_digit using IH(2) by (simp add: bval_Suc algebra_simps)
  finally show ?case unfolding f split using IH by simp
qed simp

section \<open>Random numbers\<close>

lemma leading_zeros_from_Some: "leading_zeros_from m k = Some i \<Longrightarrow> i < k \<and> m ! i \<noteq> 0 \<and> (\<forall>j. i < j \<longrightarrow> j < k \<longrightarrow> m ! j = 0)"
proof (induction k)
  case (Suc k)
  then show ?case by (cases "m ! k = 0") (auto simp: less_Suc_eq)
qed simp

lemma leading_zeros_from_None: "leading_zeros_from m k = None \<Longrightarrow> bval k m = 0"
  by (induction k) (auto simp: bval_Suc split: if_splits)

lemma bval_zeros: "i \<le> k \<Longrightarrow> (\<And>j. i \<le> j \<Longrightarrow> j < k \<Longrightarrow> d ! j = 0) \<Longrightarrow> bval k d = bval i d"
  by (induction k rule: dec_induct) (simp_all add: bval_Suc)

lemma fold_clear: "length (fold (\<lambda>k d. d[k := 0]) ks d) = length d \<and>
    (j < length d \<longrightarrow> fold (\<lambda>k d. d[k := 0]) ks d ! j = (if j \<in> set ks then 0 else (d :: uint list) ! j))"
  by (induction ks arbitrary: d) (auto simp: nth_list_update)

lemma fold_random: "length (fst (fold (\<lambda>k (d, seed). let seed = random_next seed in (d[k := seed], seed)) ks (d, seed))) = length d \<and>
    (j \<notin> set ks \<longrightarrow> fst (fold (\<lambda>k (d, seed). let seed = random_next seed in (d[k := seed], seed)) ks (d, seed)) ! j = d ! j)"
  by (induction ks arbitrary: d seed) (auto simp: Let_def)

section \<open>The contract of a class\<close>

text \<open>A reduced number of a class.\<close>

definition reduced :: "bignum_class \<Rightarrow> uint list \<Rightarrow> bool" where
  "reduced bn a \<longleftrightarrow> length a = bn_digits bn \<and> bval (bn_digits bn) a < modulus bn"

definition val_of :: "bignum_class \<Rightarrow> uint list \<Rightarrow> int" where
  "val_of bn a = bval (bn_digits bn) a"

context bignum
begin

lemmas reduced_n = reduced_def [of bn, folded n_def p_def] val_of_def [of bn, folded n_def p_def]

lemma reduces: "length a = 2 * bn_digits bn \<Longrightarrow>
    \<exists>r. barrett_reduction bn a = Some r \<and> reduced bn r \<and> val_of bn r = bval (2 * bn_digits bn) a mod modulus bn"
  using barrett_reduction_value [of a] facts(7) pos_mod_bound [of p] unfolding reduced_n p_def [symmetric] n_def [symmetric] by auto

lemma multiplies: "reduced bn a \<Longrightarrow> \<exists>r. bn_mult bn a b = Some r \<and> reduced bn r \<and> val_of bn r = val_of bn a * val_of bn b mod modulus bn"
  using mult_value [of a b] facts(7) pos_mod_bound [of p] unfolding reduced_n p_def [symmetric] by auto

lemma adds: "reduced bn a \<Longrightarrow> reduced bn b \<Longrightarrow>
    reduced bn (bn_add bn a b) \<and> val_of bn (bn_add bn a b) = (val_of bn a + val_of bn b) mod modulus bn"
  using add_value [of a b] facts(7) pos_mod_bound [of p] unfolding reduced_n p_def [symmetric] by auto

lemma subtracts: "reduced bn a \<Longrightarrow> reduced bn b \<Longrightarrow>
    reduced bn (bn_sub bn a b) \<and> val_of bn (bn_sub bn a b) = (val_of bn a - val_of bn b) mod modulus bn"
  using sub_value [of a b] facts(7) pos_mod_bound [of p] unfolding reduced_n p_def [symmetric] by auto

lemma inverts: "length x = bn_digits bn \<Longrightarrow> coprime (val_of bn x) (modulus bn) \<Longrightarrow>
    \<exists>r. bn_invert bn x = Some r \<and> reduced bn r \<and> val_of bn r * val_of bn x mod modulus bn = 1"
  using invert_value [of x] unfolding reduced_n p_def [symmetric] n_def [symmetric] by auto

lemma randomizes: "length d = bn_digits bn \<Longrightarrow> \<exists>r s. bn_randomize bn seed d = Some (r, s) \<and> reduced bn r"
proof -
  assume d: "length d = bn_digits bn"
  note f = facts
  obtain i where i: "leading_zeros_from (bn_mod bn) n = Some i"
    using leading_zeros_from_None [of "bn_mod bn" n] f(7,8) by fastforce
  note z = leading_zeros_from_Some [OF i]
  define d1 where "d1 = fold (\<lambda>k d. d[k := 0]) (rev [i + 1..<n]) d"
  define d2 where "d2 = d1[i := random_next seed mod bn_mod bn ! i]"
  define r where "r = fold (\<lambda>k (d, seed). let seed = random_next seed in (d[k := seed], seed)) (rev [0..<i]) (d2, random_next seed)"
  have l: "length d1 = n" "length (fst r) = n" using d fold_clear [of "rev [i + 1..<n]" d] fold_random [of "rev [0..<i]" d2]
    by (simp_all add: d1_def d2_def r_def n_def)
  have ri: "fst r ! i = random_next seed mod bn_mod bn ! i" using fold_random [of "rev [0..<i]" d2 "random_next seed" i] z l(1) by (simp add: r_def d2_def)
  have hi: "fst r ! j = 0" if "i + 1 \<le> j" "j < n" for j
    using fold_random [of "rev [0..<i]" d2 "random_next seed" j] fold_clear [of "rev [i + 1..<n]" d j] that d
    by (simp add: r_def d2_def d1_def n_def)
  have "0 < uint (bn_mod bn ! i)" using z uint_0_iff [of "bn_mod bn ! i"] uint_ge_0 [of "bn_mod bn ! i"] by linarith
  then have "uint (fst r ! i) < uint (bn_mod bn ! i)" by (simp add: ri uint_mod_distrib)
  then have "(uint (fst r ! i) + 1) * B32 ^ i \<le> uint (bn_mod bn ! i) * B32 ^ i" by (intro mult_right_mono) simp_all
  then have "bval (Suc i) (fst r) < bval (Suc i) (bn_mod bn)"
    using bval_bound [of i "fst r"] bval_nonneg [of i "bn_mod bn"] unfolding bval_Suc distrib_right by linarith
  moreover have "bval n (fst r) = bval (Suc i) (fst r)" "bval n (bn_mod bn) = bval (Suc i) (bn_mod bn)"
    using z hi by (intro bval_zeros; simp)+
  ultimately have "bval n (fst r) < p" using f(8) by simp
  moreover have "bn_randomize bn seed d = Some r"
    by (simp add: bn_randomize_def n_def [symmetric] i Let_def d1_def [symmetric] d2_def [symmetric] r_def [symmetric])
      (simp add: r_def d2_def d1_def Let_def)
  ultimately show ?thesis using l(2) by (cases r) (simp add: reduced_n)
qed

end

section \<open>Properties\<close>

text \<open>
  C31. Barrett reduction: on any number of \<open>2 DIGITS\<close> digits the loop of corrections ends, and the result is the
  remainder by the modulus.
\<close>

theorem barrett_reduces:
  assumes "bn_ok bn" "length a = 2 * bn_digits bn"
  shows "\<exists>r. barrett_reduction bn a = Some r \<and> reduced bn r \<and> val_of bn r = bval (2 * bn_digits bn) a mod modulus bn"
  by (rule bignum.reduces [OF bignum.intro [OF assms(1)] assms(2)])

text \<open>
  C30. The operators \<open>+=\<close>, \<open>-=\<close> and \<open>*=\<close> are the operations of the integers modulo the modulus, and keep numbers
  reduced; both classes of the repository satisfy the hypothesis.
\<close>

theorem bignum_ring:
  assumes "bn \<in> {bignum16, bignum17}" "reduced bn a" "reduced bn b"
  shows "reduced bn (bn_add bn a b) \<and> val_of bn (bn_add bn a b) = (val_of bn a + val_of bn b) mod modulus bn \<and>
    reduced bn (bn_sub bn a b) \<and> val_of bn (bn_sub bn a b) = (val_of bn a - val_of bn b) mod modulus bn \<and>
    (\<exists>r. bn_mult bn a b = Some r \<and> reduced bn r \<and> val_of bn r = val_of bn a * val_of bn b mod modulus bn)"
  using assms b16.adds b16.subtracts b16.multiplies b17.adds b17.subtracts b17.multiplies by blast

text \<open>
  C32. \<open>invert\<close> ends on every number that is coprime to the modulus, with its inverse.
\<close>

theorem bignum_inverse:
  assumes "bn \<in> {bignum16, bignum17}" "length x = bn_digits bn" "coprime (val_of bn x) (modulus bn)"
  shows "\<exists>r. bn_invert bn x = Some r \<and> reduced bn r \<and> val_of bn r * val_of bn x mod modulus bn = 1"
  using assms b16.inverts b17.inverts by blast

text \<open>
  \<open>randomize\<close> gives a number below the modulus, whatever the generator returns.
\<close>

theorem randomize_bounded:
  assumes "bn \<in> {bignum16, bignum17}" "length d = bn_digits bn"
  shows "\<exists>r s. bn_randomize bn seed d = Some (r, s) \<and> reduced bn r"
  using assms b16.randomizes b17.randomizes by blast

text \<open>
  Halving undoes doubling: with the carry of \<open>multiply_by_two\<close> fed back, \<open>divide_by_two\<close> restores the value.
\<close>

theorem halve_double:
  assumes "bn \<in> {bignum16, bignum17}" "length d = bn_digits bn" "multiply_by_two (bn_digits bn) c d = (e, c')"
  shows "fst (divide_by_two (bn_digits bn) c' e) = d \<and> bval (bn_digits bn) e + of_bool c' * B32 ^ bn_digits bn = 2 * val_of bn d + of_bool c"
proof -
  let ?n = "bn_digits bn"
  have e: "length e = ?n" "bval ?n e + of_bool c' * B32 ^ ?n = 2 * val_of bn d + of_bool c"
    using double_value [of ?n d c] assms(2,3) by (simp_all add: multiply_by_two_def val_of_def)
  let ?h = "fst (divide_by_two ?n c' e)"
  have h: "length ?h = ?n" "bval ?n ?h = (bval ?n e + of_bool c' * B32 ^ ?n) div 2"
    using assms(1) e(1) b16.divide_by_two_value [of e c'] b17.divide_by_two_value [of e c']
    by (auto simp: b16.n_def b17.n_def)
  have "bval ?n ?h = bval ?n d" using h(2) unfolding e(2) val_of_def by simp
  then have "?h = d" using bval_eqD [of ?n ?h d] h(1) assms(2) by (intro nth_equalityI) auto
  then show ?thesis using e(2) by simp
qed

section \<open>Witnesses\<close>

lemma digits16: "bn_digits bignum16 = 4"
  by (simp add: bignum16_def)

lemma val16: "val_of bignum16 (set_uint 4 v) = uint v"
  by (simp add: val_of_def digits16 bval_set_uint)

lemma reduced16: "reduced bignum16 (set_uint 4 v)"
proof -
  have "uint v < B32" by (rule uint_digit(2))
  also have "B32 < modulus bignum16" by (simp add: modulus_def bignum16_def bval_numeral bval_Suc B32_def)
  finally show ?thesis by (simp add: reduced_def digits16 bval_set_uint) (simp add: set_uint_def)
qed

theorem barrett_reduces_witness: "\<exists>r. barrett_reduction bignum16 (replicate 8 0xffffffff) = Some r \<and> reduced bignum16 r"
  using barrett_reduces [OF bignum16_ok, of "replicate 8 0xffffffff"] by (auto simp: digits16)

theorem bignum_ring_witness: "val_of bignum16 (bn_sub bignum16 (set_uint 4 5) (set_uint 4 9)) = modulus bignum16 - 4"
proof -
  have "val_of bignum16 (bn_sub bignum16 (set_uint 4 5) (set_uint 4 9)) = (5 - 9) mod modulus bignum16"
    using bignum_ring [OF _ reduced16 reduced16, of 5 9] by (simp add: val16)
  also have "\<dots> = modulus bignum16 - 4" by (simp add: modulus_def bignum16_def bval_numeral bval_Suc B32_def)
  finally show ?thesis .
qed

theorem bignum_inverse_witness: "\<exists>r. bn_invert bignum16 (set_uint 4 2) = Some r \<and> val_of bignum16 r * 2 mod modulus bignum16 = 1"
proof -
  have "coprime (val_of bignum16 (set_uint 4 2)) (modulus bignum16)"
    using bignum16_ok by (simp add: val16 bn_ok_def)
  from bignum_inverse [OF _ _ this] show ?thesis using reduced16 by (auto simp: val16 reduced_def)
qed

theorem randomize_bounded_witness: "\<exists>r s. bn_randomize bignum16 42 (replicate 4 0) = Some (r, s) \<and> reduced bignum16 r"
  using randomize_bounded [of bignum16 "replicate 4 0" 42] by (simp add: digits16)

theorem halve_double_witness:
  "\<exists>e c'. multiply_by_two 4 True (replicate 4 0x80000001) = (e, c') \<and> fst (divide_by_two 4 c' e) = replicate 4 0x80000001"
proof -
  obtain e c' where m: "multiply_by_two 4 True (replicate 4 0x80000001) = (e, c')" by fastforce
  then show ?thesis using halve_double [of bignum16 "replicate 4 0x80000001" True e c'] by (simp add: digits16)
qed

end
