(* ===== verification/Alarms.thy ===== *)
theory Alarms
  imports Ordered_List
begin

text \<open>
  Alarms (\<open>include/time.h\<close>, \<open>src/api/alarm.cc\<close>): the pending alarms are in a relative queue, whose head is
  promoted at each tick of the alarm timer. \<open>lock\<close> and \<open>unlock\<close> enclose each operation, so it is one step.
  A handler is called after the queue has been unlocked: operations return the handler to call, if any.
  Ticks are \<open>long\<close>, modelled by integers (no count comes near \<open>2\<^sup>6\<^sup>3\<close>); \<open>promote\<close> returns an \<open>int\<close> of 32 bits.
\<close>

type_synonym delem_alarm = "unit delem_ordered_scheme"

record 'h alarm =
  al_time :: ulong
  al_handler :: 'h
  al_times :: uint
  al_ticks :: int
  al_link :: addr

record 'h alarm_queue =
  aq_elems :: "delem_alarm store"
  aq_alarms :: "'h alarm store"
  aq_request :: linked_list
  aq_elapsed :: int
  aq_frequency :: ulong

definition INFINITE :: uint where "INFINITE = - 1"

section \<open>Timer_Common\<close>

definition timer_time :: "int \<Rightarrow> ulong \<Rightarrow> ulong" where
  "timer_time ticks frequency = (word_of_int ticks * 1000000 + frequency div 2) div frequency"

definition timer_ticks :: "ulong \<Rightarrow> ulong \<Rightarrow> int" where
  "timer_ticks time frequency = sint ((time * frequency + 500000) div 1000000)"

section \<open>Alarm\<close>

definition request_insert :: "addr \<Rightarrow> 'h alarm_queue \<Rightarrow> 'h alarm_queue option" where
  "request_insert e s = do {
     (h, l) \<leftarrow> ol_insert True (aq_elems s) (aq_request s) e;
     Some (s\<lparr>aq_elems := h, aq_request := l\<rparr>) }"

definition request_remove :: "addr \<Rightarrow> 'h alarm_queue \<Rightarrow> 'h alarm_queue option" where
  "request_remove a s = do {
     (h, l, _) \<leftarrow> ol_remove_object True (aq_elems s) (aq_request s) a;
     Some (s\<lparr>aq_elems := h, aq_request := l\<rparr>) }"

definition alarm_new :: "addr \<Rightarrow> addr \<Rightarrow> ulong \<Rightarrow> 'h \<Rightarrow> uint \<Rightarrow> 'h alarm_queue \<Rightarrow> ('h alarm_queue \<times> 'h option) option" where
  "alarm_new a link time handler n s =
     (let ticks = timer_ticks time (aq_frequency s);
          s = s\<lparr>aq_alarms := (aq_alarms s)(a \<mapsto> \<lparr>al_time = time, al_handler = handler, al_times = n, al_ticks = ticks, al_link = link\<rparr>),
                aq_elems := (aq_elems s)(link \<mapsto> \<lparr>obj = a, nxt = 0, prv = 0, rank = ticks\<rparr>)\<rparr>
      in if ticks \<noteq> 0 then do { s \<leftarrow> request_insert link s; Some (s, None) }
         else if n = 1 then Some (s, Some handler)
         else None)"

definition alarm_delete :: "addr \<Rightarrow> 'h alarm_queue \<Rightarrow> 'h alarm_queue option" where
  "alarm_delete a s = do {
     x \<leftarrow> load (aq_alarms s) a;
     s \<leftarrow> request_remove a s;
     Some (s\<lparr>aq_alarms := (aq_alarms s)(a := None), aq_elems := (aq_elems s)(al_link x := None)\<rparr>) }"

definition alarm_reset :: "addr \<Rightarrow> 'h alarm_queue \<Rightarrow> 'h alarm_queue option" where
  "alarm_reset a s = do {
     x \<leftarrow> load (aq_alarms s) a;
     s \<leftarrow> request_remove a s;
     h \<leftarrow> modify (aq_elems s) (al_link x) (\<lambda>e. e\<lparr>rank := al_ticks x\<rparr>);
     request_insert (al_link x) (s\<lparr>aq_elems := h\<rparr>) }"

definition alarm_period :: "addr \<Rightarrow> ulong \<Rightarrow> 'h alarm_queue \<Rightarrow> 'h alarm_queue option" where
  "alarm_period a p s = do {
     x \<leftarrow> load (aq_alarms s) a;
     s \<leftarrow> request_remove a s;
     s \<leftarrow> Some (s\<lparr>aq_alarms := (aq_alarms s)(a \<mapsto> x\<lparr>al_time := p, al_ticks := timer_ticks p (aq_frequency s)\<rparr>)\<rparr>);
     request_insert (al_link x) s }"

definition alarm_expire :: "'h alarm_queue \<Rightarrow> ('h alarm_queue \<times> 'h option) option" where
  "alarm_expire s = do {
     (h, l, e) \<leftarrow> ol_remove_front True (aq_elems s) (aq_request s);
     s \<leftarrow> Some (s\<lparr>aq_elems := h, aq_request := l\<rparr>);
     x \<leftarrow> load (aq_elems s) e;
     alarm \<leftarrow> load (aq_alarms s) (obj x);
     let alarm = (if al_times alarm \<noteq> INFINITE then alarm\<lparr>al_times := al_times alarm - 1\<rparr> else alarm);
     s \<leftarrow> Some (s\<lparr>aq_alarms := (aq_alarms s)(obj x \<mapsto> alarm)\<rparr>);
     s \<leftarrow> (if al_times alarm > 0 then do {
             h \<leftarrow> modify (aq_elems s) e (\<lambda>x. x\<lparr>rank := al_ticks alarm\<rparr>);
             request_insert e (s\<lparr>aq_elems := h\<rparr>) }
           else Some s);
     Some (s, Some (al_handler alarm)) }"

definition alarm_handler :: "'h alarm_queue \<Rightarrow> ('h alarm_queue \<times> 'h option) option" where
  "alarm_handler s =
     (let s = s\<lparr>aq_elapsed := aq_elapsed s + 1\<rparr>
      in if \<not> dl_empty (aq_request s) then do {
           (h, r) \<leftarrow> promote (aq_elems s) (dl_head (aq_request s)) 1;
           s \<leftarrow> Some (s\<lparr>aq_elems := h\<rparr>);
           if r \<le> 0 then alarm_expire s else Some (s, None) }
         else Some (s, None))"

section \<open>Chronometers\<close>

text \<open>\<open>Alarm_Chronometer\<close> and \<open>TSC_Chronometer\<close> differ in the clock and in \<open>read\<close>.\<close>

record chronometer =
  ch_start :: int
  ch_stop :: int

definition ch_reset :: "chronometer \<Rightarrow> chronometer" where
  "ch_reset c = c\<lparr>ch_start := 0, ch_stop := 0\<rparr>"

definition ch_begin :: "int \<Rightarrow> chronometer \<Rightarrow> chronometer" where
  "ch_begin now c = (if ch_start c = 0 then c\<lparr>ch_start := now\<rparr> else c)"

definition ch_lap :: "int \<Rightarrow> chronometer \<Rightarrow> chronometer" where
  "ch_lap now c = (if ch_start c \<noteq> 0 then c\<lparr>ch_stop := now\<rparr> else c)"

definition ch_ticks :: "int \<Rightarrow> chronometer \<Rightarrow> int" where
  "ch_ticks now c = (if ch_start c = 0 then 0 else if ch_stop c = 0 then now - ch_start c else ch_stop c - ch_start c)"

definition ch_read :: "ulong \<Rightarrow> int \<Rightarrow> chronometer \<Rightarrow> ulong" where
  "ch_read frequency now c = word_of_int (ch_ticks now c) * (1000000 div frequency)"

definition ch_read_tsc :: "ulong \<Rightarrow> int \<Rightarrow> chronometer \<Rightarrow> ulong" where
  "ch_read_tsc frequency now c = word_of_int (ch_ticks now c) * 1000000 div frequency"

end
