(* ===== verification/Alarm_Properties.thy ===== *)
theory Alarm_Properties
  imports Alarms
begin

text \<open>
  The queue of alarms as the list of pending alarms with the ticks that are left to each (its absolute ranks):
  the handler of the timer refines a simple function on that list, and no alarm waits for longer than its ticks
  plus the number of alarms pending with it.
\<close>

section \<open>The abstract queue\<close>

text \<open>\<open>ticks_of\<close> gives the period of an alarm that is to be put back, and \<open>None\<close> at its last expiry.\<close>

definition tick_list :: "(addr \<Rightarrow> int option) \<Rightarrow> (addr \<times> int) list \<Rightarrow> (addr \<times> int) list \<times> addr option" where
  "tick_list ticks_of q =
     (case map (\<lambda>(a, d). (a, d - 1)) q of
        [] \<Rightarrow> ([], None)
      | (a, d) # rest \<Rightarrow>
          if d \<le> 0 then (case ticks_of a of Some t \<Rightarrow> rank_put (a, t) rest | None \<Rightarrow> rest, Some a)
          else ((a, d) # rest, None))"

definition ticks_left :: "(addr \<times> int) list \<Rightarrow> addr \<Rightarrow> int" where
  "ticks_left q e = the (map_of q e)"

text \<open>How many ticks an alarm can still wait for: once it is due, one for each alarm before it.\<close>

definition wait_bound :: "(addr \<times> int) list \<Rightarrow> addr \<Rightarrow> nat" where
  "wait_bound q e = (if ticks_left q e \<le> 1 then length (takeWhile (\<lambda>x. fst x \<noteq> e) q) + 1 else nat (ticks_left q e - 1) + length q)"

lemma map_of_shift: "map_of (map (\<lambda>(a, d). (a, d - 1)) q) e = map_option (\<lambda>d. d - 1) (map_of q e)" for q :: "(addr \<times> int) list"
  by (induction q) auto

lemma takeWhile_shift: "takeWhile (\<lambda>x. fst x \<noteq> e) (map (\<lambda>(a, d). (a, d - 1)) q) = map (\<lambda>(a, d). (a, d - 1)) (takeWhile (\<lambda>x. fst x \<noteq> e) q)"
  for q :: "(addr \<times> int) list"
  by (induction q) auto

lemma sorted_shift: "sorted (map snd q) \<Longrightarrow> sorted (map snd (map (\<lambda>(a, d). (a, d - 1)) q))" for q :: "(addr \<times> int) list"
  by (induction q) auto

lemma map_of_rank_put: "a \<noteq> e \<Longrightarrow> map_of (rank_put (a, t) q) e = map_of q e"
  unfolding rank_put_def by (induction q) auto

lemma length_rank_put [simp]: "length (rank_put x q) = Suc (length q)"
  by (induction q) (auto simp: rank_put_def)

lemma takeWhile_before: "map_of q e = Some d \<Longrightarrow> length (takeWhile (\<lambda>x. fst x \<noteq> e) q) < length q"
  by (induction q) (auto split: if_splits)

lemma rank_put_before:
  assumes "sorted (map snd q)" "map_of q e = Some d" "d \<le> t" "a \<noteq> e"
  shows "takeWhile (\<lambda>x. fst x \<noteq> e) (rank_put (a, t) q) = takeWhile (\<lambda>x. fst x \<noteq> e) q"
  using assms(1,2)
proof (induction q)
  case (Cons x q)
  show ?case
  proof (cases "fst x = e")
    case True
    then have "snd x \<le> t" using Cons.prems(2) assms(3) by (cases x) auto
    then show ?thesis using True by (simp add: rank_put_def)
  next
    case False
    then have m: "map_of q e = Some d" using Cons.prems(2) by (cases x) auto
    then have "snd x \<le> t" using Cons.prems(1) assms(3) map_of_SomeD [OF m] by fastforce
    then show ?thesis using Cons.IH Cons.prems(1) m False by (simp add: rank_put_def)
  qed
qed simp

lemma tick_list_progress:
  assumes s: "sorted (map snd q)" and e: "map_of q e \<noteq> None" and dist: "distinct (map fst q)"
    and pos: "\<And>a t. a \<in> fst ` set q \<Longrightarrow> ticks_of a = Some t \<Longrightarrow> 0 < t" and t: "tick_list ticks_of q = (q', fired)" "fired \<noteq> Some e"
  shows "map_of q' e \<noteq> None \<and> wait_bound q' e < wait_bound q e"
proof -
  obtain d where d: "map_of q e = Some d" using e by blast
  obtain a h rest where q: "q = (a, h) # rest" using e by (cases q) auto
  define r1 where "r1 = map (\<lambda>(a, d). (a, d - 1)) rest"
  have sr: "sorted (map snd r1)" "\<forall>x \<in> set rest. h \<le> snd x" using s sorted_shift [of rest] by (auto simp: q r1_def)
  show ?thesis
  proof (cases "h - 1 \<le> 0")
    case False
    then have q': "q' = map (\<lambda>(a, d). (a, d - 1)) q" using t(1) by (simp add: tick_list_def q)
    have "1 < d" using False d sr(2) map_of_SomeD [of rest e d] by (auto simp: q split: if_splits)
    moreover have "map_of q' e = Some (d - 1)" by (simp add: q' map_of_shift d)
    moreover have "length (takeWhile (\<lambda>x. fst x \<noteq> e) q) < length q"
      by (rule takeWhile_before [OF d])
    ultimately show ?thesis using d unfolding wait_bound_def ticks_left_def q' takeWhile_shift map_of_shift
      by (simp split: if_split) linarith
  next
    case True
    then have f: "fired = Some a" "q' = (case ticks_of a of Some t \<Rightarrow> rank_put (a, t) r1 | None \<Rightarrow> r1)"
      using t(1) unfolding r1_def by (auto simp: tick_list_def q)
    then have ae: "a \<noteq> e" using t(2) by simp
    then have m: "map_of rest e = Some d" "map_of r1 e = Some (d - 1)" using d by (simp_all add: q r1_def map_of_shift)
    have m': "map_of q' e = Some (d - 1)" using m(2) ae by (simp add: f(2) map_of_rank_put split: option.split)
    have l: "length q' \<le> length q" by (simp add: f(2) q r1_def split: option.split)
    have p1: "length (takeWhile (\<lambda>x. fst x \<noteq> e) r1) = length (takeWhile (\<lambda>x. fst x \<noteq> e) rest)" by (simp add: r1_def takeWhile_shift)
    show ?thesis
    proof (cases "d \<le> 1")
      case True
      have "takeWhile (\<lambda>x. fst x \<noteq> e) q' = takeWhile (\<lambda>x. fst x \<noteq> e) r1"
        using rank_put_before [OF sr(1) m(2) _ ae] True pos [of a] by (auto simp: f(2) q split: option.split)
      then show ?thesis using True m' d ae p1 by (simp add: wait_bound_def ticks_left_def q)
    next
      case False
      have "length (takeWhile (\<lambda>x. fst x \<noteq> e) q') < length q'"
        by (rule takeWhile_before [OF m'])
      then show ?thesis using False m' d l by (auto simp: wait_bound_def ticks_left_def)
    qed
  qed
qed

section \<open>The representation\<close>

definition period_of :: "'h alarm_queue \<Rightarrow> addr \<Rightarrow> int option" where
  "period_of s e = (case aq_elems s e of None \<Rightarrow> None | Some x \<Rightarrow>
     (case aq_alarms s (obj x) of None \<Rightarrow> None | Some al \<Rightarrow>
        if al_times al = 1 then None else Some (al_ticks al)))"

text \<open>The pending alarms (by the address of their link) with the ticks that are left.\<close>

definition pending :: "'h alarm_queue \<Rightarrow> addr list \<Rightarrow> (addr \<times> int) list" where
  "pending s as = ranks True (rank_of (aq_elems s)) as"

definition alarm_linked :: "'h alarm_queue \<Rightarrow> addr \<Rightarrow> bool" where
  "alarm_linked s e \<longleftrightarrow> (\<exists>x al. aq_elems s e = Some x \<and> obj x \<noteq> 0 \<and> aq_alarms s (obj x) = Some al \<and> al_link al = e \<and> 0 < al_ticks al)"

definition alarms_rep :: "'h alarm_queue \<Rightarrow> addr list \<Rightarrow> bool" where
  "alarms_rep s as \<longleftrightarrow> list_rep (aq_elems s) (aq_request s) as \<and> sorted (map snd (pending s as)) \<and> (\<forall>e \<in> set as. alarm_linked s e)"

text \<open>The handler of a pending alarm.\<close>

definition handler_of :: "'h alarm_queue \<Rightarrow> addr \<Rightarrow> 'h option" where
  "handler_of s e = (case aq_elems s e of None \<Rightarrow> None | Some x \<Rightarrow> map_option al_handler (aq_alarms s (obj x)))"

lemma abs_ranks_promote:
  fixes r :: "addr \<Rightarrow> int"
  shows "distinct (e # vs) \<Longrightarrow> abs_ranks (r(e := r e - 1)) 0 (e # vs) = map (\<lambda>(a, d). (a, d - 1)) (abs_ranks r 0 (e # vs))"
proof -
  assume d: "distinct (e # vs)"
  have sh: "abs_ranks r (b - 1) sh = map (\<lambda>(a, d). (a, d - 1)) (abs_ranks r b sh)" for b and sh :: "addr list"
  proof (induction sh arbitrary: b)
    case (Cons a sh)
    show ?case using Cons [of "b + r a"] by (simp add: algebra_simps)
  qed simp
  have "abs_ranks (r(e := r e - 1)) (r e - 1) vs = abs_ranks r (r e - 1) vs" by (rule abs_ranks_cong) (use d in auto)
  then show ?thesis using sh [of "r e" vs] by simp
qed

lemma promote_rep:
  assumes "list_rep h l (e # vs)"
  shows "\<exists>h'. promote h e 1 = Some (h', to_int32 (rank_of h e - 1)) \<and> list_rep h' l (e # vs) \<and>
    rank_of h' = (rank_of h)(e := rank_of h e - 1) \<and> same_but_rank h h' \<and> same_outside {e} h h'"
proof -
  obtain x where x: "h e = Some x" "e \<noteq> 0" using list_rep_mapped [OF assms] list_rep_nonnull [OF assms] by auto
  have "list_rep (h(e \<mapsto> x\<lparr>rank := rank x - 1\<rparr>)) l (e # vs)"
    by (rule list_rep_cong [OF assms]) (use x in auto)
  then show ?thesis using x
    by (intro exI [of _ "h(e \<mapsto> x\<lparr>rank := rank x - 1\<rparr>)"]) (auto simp: promote_def store_simps fun_eq_iff same_outside_def)
qed


section \<open>The handler of the timer\<close>

text \<open>Insertion into and removal from the queue of requests, on the list of pending alarms.\<close>

lemma request_insert_rep:
  assumes rep: "list_rep (aq_elems s) (aq_request s) as" and x: "e \<noteq> 0" "aq_elems s e = Some x" "e \<notin> set as"
  shows "\<exists>s' as'. request_insert e s = Some s' \<and> list_rep (aq_elems s') (aq_request s') as' \<and>
    pending s' as' = rank_put (e, rank x) (pending s as) \<and> set as' = insert e (set as) \<and>
    same_but_rank (aq_elems s) (aq_elems s') \<and> aq_alarms s' = aq_alarms s \<and> aq_elapsed s' = aq_elapsed s \<and> aq_frequency s' = aq_frequency s"
proof -
  obtain us vs where sp: "rank_split True (rank_of (aq_elems s)) (rank x) as = (us, vs)" by fastforce
  obtain h' l' where t: "ol_insert True (aq_elems s) (aq_request s) e = Some (h', l')" "list_rep h' l' (us @ e # vs)"
    "rank_of h' = rank_insert True (rank_of (aq_elems s)) (rank x) e us vs" "same_but_rank (aq_elems s) h'"
    using ol_insert_rep [OF rep x sp] by auto
  have "distinct as" using rep by (simp add: list_rep_def)
  then have "pending (s\<lparr>aq_elems := h', aq_request := l'\<rparr>) (us @ e # vs) = rank_put (e, rank x) (pending s as)"
    using ranks_insert [OF sp x(3)] t(3) by (simp add: pending_def)
  then show ?thesis using t rank_split_append [OF sp]
    by (intro exI [of _ "s\<lparr>aq_elems := h', aq_request := l'\<rparr>"] exI [of _ "us @ e # vs"]) (simp add: request_insert_def)
qed


text \<open>The stores differ in links, ranks and in how often an alarm will still fire.\<close>

definition same_alarms :: "'h alarm_queue \<Rightarrow> 'h alarm_queue \<Rightarrow> bool" where
  "same_alarms s s' \<longleftrightarrow> same_but_rank (aq_elems s) (aq_elems s') \<and>
     (\<forall>a. map_option (\<lambda>x. x\<lparr>al_times := 0\<rparr>) (aq_alarms s' a) = map_option (\<lambda>x. x\<lparr>al_times := 0\<rparr>) (aq_alarms s a))"

lemma same_alarms_trans: "same_alarms s s' \<Longrightarrow> same_alarms s' s'' \<Longrightarrow> same_alarms s s''"
  unfolding same_alarms_def by (metis same_but_rank_trans)

lemma same_alarmsD:
  assumes "same_alarms s s'" "aq_alarms s a = Some al"
  shows "\<exists>n. aq_alarms s' a = Some (al\<lparr>al_times := n\<rparr>)"
proof -
  have "map_option (\<lambda>x. x\<lparr>al_times := 0\<rparr>) (aq_alarms s' a) = Some (al\<lparr>al_times := 0\<rparr>)"
    using assms by (simp add: same_alarms_def)
  then obtain y where "aq_alarms s' a = Some y" "y\<lparr>al_times := 0\<rparr> = al\<lparr>al_times := 0\<rparr>" by auto
  then show ?thesis by (intro exI [of _ "al_times y"]) (cases y; cases al; simp)
qed

lemma same_alarms_linked:
  assumes "same_alarms s s'" "alarm_linked s e"
  shows "alarm_linked s' e"
proof -
  obtain x al where x: "aq_elems s e = Some x" "obj x \<noteq> 0" "aq_alarms s (obj x) = Some al" "al_link al = e" "0 < al_ticks al"
    using assms(2) by (auto simp: alarm_linked_def)
  obtain n p r where x': "aq_elems s' e = Some (x\<lparr>nxt := n, prv := p, rank := r\<rparr>)"
    using assms(1) same_but_rankD [of "aq_elems s" "aq_elems s'", OF _ x(1)] unfolding same_alarms_def by blast
  obtain m where "aq_alarms s' (obj x) = Some (al\<lparr>al_times := m\<rparr>)" using same_alarmsD [OF assms(1) x(3)] by blast
  then show ?thesis unfolding alarm_linked_def x' using x by simp
qed

lemma same_alarms_handler:
  assumes "same_alarms s s'" "alarm_linked s e"
  shows "handler_of s' e = handler_of s e"
proof -
  obtain x al where x: "aq_elems s e = Some x" "aq_alarms s (obj x) = Some al"
    using assms(2) by (auto simp: alarm_linked_def)
  obtain n p r where x': "aq_elems s' e = Some (x\<lparr>nxt := n, prv := p, rank := r\<rparr>)"
    using assms(1) same_but_rankD [of "aq_elems s" "aq_elems s'", OF _ x(1)] unfolding same_alarms_def by blast
  obtain m where "aq_alarms s' (obj x) = Some (al\<lparr>al_times := m\<rparr>)" using same_alarmsD [OF assms(1) x(2)] by blast
  then show ?thesis unfolding handler_of_def x' using x by simp
qed

lemma times_left: "(if n \<noteq> INFINITE then n - 1 else n) > 0 \<longleftrightarrow> n \<noteq> 1"
proof -
  have "INFINITE \<noteq> 0" "INFINITE \<noteq> 1" by (simp_all add: INFINITE_def)
  then show ?thesis by (auto simp: word_gt_0)
qed

text \<open>The first alarm is taken out and put back if it is to fire again.\<close>

lemma alarm_expire_rep:
  assumes rep: "list_rep (aq_elems s) (aq_request s) (e # vs)" and lk: "alarm_linked s e"
  shows "\<exists>s' as'. alarm_expire s = Some (s', handler_of s e) \<and> list_rep (aq_elems s') (aq_request s') as' \<and>
    pending s' as' = (case period_of s e of Some t \<Rightarrow> rank_put (e, t) (tl (pending s (e # vs))) | None \<Rightarrow> tl (pending s (e # vs))) \<and>
    set as' \<subseteq> set (e # vs) \<and> same_alarms s s' \<and> aq_elapsed s' = aq_elapsed s \<and> aq_frequency s' = aq_frequency s"
proof -
  obtain x al where x: "aq_elems s e = Some x" "obj x \<noteq> 0" "aq_alarms s (obj x) = Some al" "al_link al = e"
    using lk by (auto simp: alarm_linked_def)
  have e: "e \<noteq> 0" "e \<notin> set vs" "distinct (e # vs)" using rep list_rep_nonnull [OF rep] by (auto simp: list_rep_def)
  obtain h2 l2 where h2: "ol_remove_front True (aq_elems s) (aq_request s) = Some (h2, l2, e)" "list_rep h2 l2 vs"
    "rank_of h2 = rank_remove True (rank_of (aq_elems s)) e vs" "same_but_rank (aq_elems s) h2" "same_outside (set vs) (aq_elems s) h2"
    using ol_remove_front_rep [OF rep, of True] by auto
  have h2e: "h2 e = Some x" using same_outsideD [OF h2(5) e(2)] x(1) by simp
  define al' where "al' = (if al_times al \<noteq> INFINITE then al\<lparr>al_times := al_times al - 1\<rparr> else al)"
  have al': "al_times al' > 0 \<longleftrightarrow> al_times al \<noteq> 1" "al_handler al' = al_handler al" "al_ticks al' = al_ticks al"
    "al'\<lparr>al_times := 0\<rparr> = al\<lparr>al_times := 0\<rparr>"
    using times_left [of "al_times al"] by (auto simp: al'_def)
  define s2 where "s2 = s\<lparr>aq_elems := h2, aq_request := l2, aq_alarms := (aq_alarms s)(obj x \<mapsto> al')\<rparr>"
  have p2: "pending s2 vs = tl (pending s (e # vs))"
    using ranks_remove_front [OF e(3), of True] h2(3) by (simp add: pending_def s2_def)
  have s2: "same_alarms s s2" using h2(4) x(3) al'(4) by (simp add: same_alarms_def s2_def)
  have hnd: "handler_of s e = Some (al_handler al)" using x by (simp add: handler_of_def)
  have expire: "alarm_expire s = do {
      s' \<leftarrow> (if al_times al' > 0 then request_insert e (s2\<lparr>aq_elems := h2(e \<mapsto> x\<lparr>rank := al_ticks al'\<rparr>)\<rparr>) else Some s2);
      Some (s', handler_of s e) }"
    using h2(1) h2e e(1) x(1-3) al'(2) hnd by (simp add: alarm_expire_def store_simps s2_def Let_def flip: al'_def)
  show ?thesis
  proof (cases "al_times al = 1")
    case True
    then have "alarm_expire s = Some (s2, handler_of s e)" using expire al'(1) by simp
    then show ?thesis using True x p2 h2(2) s2
      by (intro exI [of _ s2] exI [of _ vs]) (auto simp: period_of_def s2_def)
  next
    case False
    define h3 where "h3 = h2(e \<mapsto> x\<lparr>rank := al_ticks al\<rparr>)"
    have h3: "list_rep h3 l2 vs" "same_but_rank h2 h3" using list_rep_outside [OF h2(2), of "{e}" h3] e h2e by (auto simp: h3_def same_outside_def)
    have "pending (s2\<lparr>aq_elems := h3\<rparr>) vs = pending s2 vs"
      unfolding pending_def ranks_def using e(2) by (auto simp: s2_def h3_def intro!: abs_ranks_cong)
    then obtain s' as' where s': "request_insert e (s2\<lparr>aq_elems := h3\<rparr>) = Some s'" "list_rep (aq_elems s') (aq_request s') as'"
      "pending s' as' = rank_put (e, al_ticks al) (pending s2 vs)" "set as' = insert e (set vs)" "same_but_rank h3 (aq_elems s')"
      "aq_alarms s' = aq_alarms s2" "aq_elapsed s' = aq_elapsed s2" "aq_frequency s' = aq_frequency s2"
      using request_insert_rep [of "s2\<lparr>aq_elems := h3\<rparr>" vs e "x\<lparr>rank := al_ticks al\<rparr>"] h3(1) e(1,2)
      by (auto simp: s2_def h3_def)
    have "alarm_expire s = Some (s', handler_of s e)" using expire False al'(1,3) s'(1) by (simp add: h3_def)
    moreover have "same_alarms s2 s'" using s'(5,6) same_but_rank_trans [OF h3(2) s'(5)] by (simp add: same_alarms_def s2_def)
    ultimately show ?thesis using False x p2 s' same_alarms_trans [OF s2]
      by (intro exI [of _ s'] exI [of _ as']) (auto simp: period_of_def s2_def)
  qed
qed


lemma tick_list_Cons:
  "tick_list ticks_of ((a, d) # q) =
     (if d \<le> 1 then (case ticks_of a of Some t \<Rightarrow> rank_put (a, t) (map (\<lambda>(a, d). (a, d - 1)) q) | None \<Rightarrow> map (\<lambda>(a, d). (a, d - 1)) q, Some a)
      else (map (\<lambda>(a, d). (a, d - 1)) ((a, d) # q), None))"
  by (simp add: tick_list_def)

lemma sorted_tick_list:
  assumes "sorted (map snd q)"
  shows "sorted (map snd (fst (tick_list ticks_of q)))"
proof (cases q)
  case (Cons x r)
  obtain a d where x: "x = (a, d)" by fastforce
  have "sorted (map snd (map (\<lambda>(a, d). (a, d - 1)) r))" using sorted_shift assms Cons by simp
  then show ?thesis using sorted_shift [OF assms] unfolding Cons x tick_list_Cons
    by (simp add: sorted_rank_put del: map_map split: option.split)
qed (simp add: tick_list_def)

text \<open>The head must not be so far away that its rank does not fit the \<open>int\<close> that \<open>promote\<close> returns.\<close>

definition head_fits :: "'h alarm_queue \<Rightarrow> addr list \<Rightarrow> bool" where
  "head_fits s as \<longleftrightarrow> as \<noteq> [] \<longrightarrow> - (2 ^ 31) < rank_of (aq_elems s) (hd as) \<and> rank_of (aq_elems s) (hd as) \<le> 2 ^ 31"

lemma alarm_handler_rep:
  assumes rep: "alarms_rep s as" and fits: "head_fits s as"
  shows "\<exists>s' as'. alarm_handler s = Some (s', Option.bind (snd (tick_list (period_of s) (pending s as))) (handler_of s)) \<and>
    alarms_rep s' as' \<and> pending s' as' = fst (tick_list (period_of s) (pending s as)) \<and>
    same_alarms s s' \<and> aq_elapsed s' = aq_elapsed s + 1 \<and> aq_frequency s' = aq_frequency s"
proof (cases as)
  case Nil
  then show ?thesis using rep dl_empty_rep [of "aq_elems s" "aq_request s" "[]"]
    by (intro exI [of _ "s\<lparr>aq_elapsed := aq_elapsed s + 1\<rparr>"] exI [of _ "[]"])
      (auto simp: alarm_handler_def alarms_rep_def pending_def tick_list_def same_alarms_def)
next
  case (Cons e vs)
  have lr: "list_rep (aq_elems s) (aq_request s) (e # vs)" and so: "sorted (map snd (pending s as))"
    and lk: "\<forall>a \<in> set (e # vs). alarm_linked s a" using rep Cons by (auto simp: alarms_rep_def)
  let ?r = "rank_of (aq_elems s)"
  have bd: "- (2 ^ 31) \<le> ?r e - 1" "?r e - 1 < 2 ^ 31" using fits Cons by (auto simp: head_fits_def)
  obtain h1 where h1: "promote (aq_elems s) e 1 = Some (h1, ?r e - 1)" "list_rep h1 (aq_request s) (e # vs)"
    "rank_of h1 = ?r(e := ?r e - 1)" "same_but_rank (aq_elems s) h1"
    using promote_rep [OF lr] to_int32_id [OF bd] by auto
  define s1 where "s1 = s\<lparr>aq_elapsed := aq_elapsed s + 1, aq_elems := h1\<rparr>"
  have p1: "pending s1 (e # vs) = map (\<lambda>(a, d). (a, d - 1)) (pending s (e # vs))"
    using abs_ranks_promote [of e vs ?r] lr h1(3) by (simp add: pending_def ranks_def s1_def list_rep_def)
  have ph: "pending s (e # vs) = (e, ?r e) # tl (pending s (e # vs))" by (simp add: pending_def ranks_def)
  have s1: "same_alarms s s1" using h1(4) by (simp add: same_alarms_def s1_def)
  have lk1: "\<forall>a \<in> set (e # vs). alarm_linked s1 a" using lk same_alarms_linked [OF s1] by blast
  have hd: "dl_head (aq_request s) = e" "\<not> dl_empty (aq_request s)" using dl_head_rep [OF lr] dl_empty_rep [OF lr] by simp_all
  show ?thesis
  proof (cases "?r e - 1 \<le> 0")
    case False
    have "pending s1 as = fst (tick_list (period_of s) (pending s as))" "snd (tick_list (period_of s) (pending s as)) = None"
      using False p1 tick_list_Cons [of "period_of s" e "?r e" "tl (pending s (e # vs))", folded ph] unfolding Cons by simp_all
    moreover have "alarm_handler s = Some (s1, None)" using False hd h1(1) by (simp add: alarm_handler_def s1_def)
    ultimately show ?thesis using lk1 h1(2) Cons s1 sorted_tick_list [OF so, of "period_of s"]
      by (intro exI [of _ s1] exI [of _ as]) (simp add: alarms_rep_def, simp add: s1_def)
  next
    case True
    have lr1: "list_rep (aq_elems s1) (aq_request s1) (e # vs)" using h1(2) by (simp add: s1_def)
    have lke: "alarm_linked s1 e" using lk1 by simp
    obtain s' as' where s': "alarm_expire s1 = Some (s', handler_of s1 e)" "list_rep (aq_elems s') (aq_request s') as'"
      "pending s' as' = (case period_of s1 e of Some t \<Rightarrow> rank_put (e, t) (tl (pending s1 (e # vs))) | None \<Rightarrow> tl (pending s1 (e # vs)))"
      "set as' \<subseteq> set (e # vs)" "same_alarms s1 s'" "aq_elapsed s' = aq_elapsed s1" "aq_frequency s' = aq_frequency s1"
      using alarm_expire_rep [OF lr1 lke] by blast
    have "alarm_handler s = Some (s', handler_of s e)" using True hd h1(1) s'(1) same_alarms_handler [OF s1] lk
      by (simp add: alarm_handler_def s1_def)
    moreover have "period_of s1 e = period_of s e"
    proof -
      obtain x where x: "aq_elems s e = Some x" using lk by (auto simp: alarm_linked_def)
      then obtain n p r where "h1 e = Some (x\<lparr>nxt := n, prv := p, rank := r\<rparr>)" using same_but_rankD [OF h1(4)] by blast
      then show ?thesis using x by (simp add: period_of_def s1_def)
    qed
    moreover have "tl (pending s1 (e # vs)) = map (\<lambda>(a, d). (a, d - 1)) (tl (pending s (e # vs)))" using p1 by (simp add: map_tl)
    ultimately have "alarm_handler s = Some (s', Option.bind (snd (tick_list (period_of s) (pending s as))) (handler_of s))"
      "pending s' as' = fst (tick_list (period_of s) (pending s as))"
      using True s'(3) tick_list_Cons [of "period_of s" e "?r e" "tl (pending s (e # vs))", folded ph]
      unfolding Cons by (simp_all split: option.split)
    moreover have "\<forall>a \<in> set as'. alarm_linked s' a" using s'(4,5) lk1 same_alarms_linked by blast
    ultimately show ?thesis using s' same_alarms_trans [OF s1 s'(5)] sorted_tick_list [OF so, of "period_of s"]
      by (intro exI [of _ s'] exI [of _ as']) (simp add: alarms_rep_def s1_def)
  qed
qed


section \<open>No alarm waits for ever\<close>

primrec ticks_run :: "nat \<Rightarrow> 'h alarm_queue \<Rightarrow> 'h alarm_queue option" where
  "ticks_run 0 s = Some s"
| "ticks_run (Suc n) s = do { (s, _) \<leftarrow> alarm_handler s; ticks_run n s }"

text \<open>All the ranks stay within the range of \<open>int\<close> for the next \<open>n\<close> ticks.\<close>

definition ranks_fit :: "nat \<Rightarrow> 'h alarm_queue \<Rightarrow> addr list \<Rightarrow> bool" where
  "ranks_fit n s as \<longleftrightarrow> n \<le> 2 ^ 31 \<and> (\<forall>x \<in> set (pending s as). int n - 2 ^ 31 < snd x \<and> snd x \<le> 2 ^ 31) \<and>
     (\<forall>a al. aq_alarms s a = Some al \<longrightarrow> al_ticks al \<le> 2 ^ 31)"

lemma ranks_fit_head: "ranks_fit n s as \<Longrightarrow> head_fits s as"
  by (cases as) (auto simp: ranks_fit_def head_fits_def pending_def ranks_def)

lemma ranks_fit_tick:
  assumes fit: "ranks_fit (Suc n) s as" and lk: "\<forall>e \<in> set as. alarm_linked s e"
    and p: "pending s' as' = fst (tick_list (period_of s) (pending s as))" and sa: "same_alarms s s'"
  shows "ranks_fit n s' as'"
proof -
  have small: "n < 2 ^ 31" using fit by (simp add: ranks_fit_def)
  have per: "0 < t \<and> t \<le> 2 ^ 31" if "period_of s e = Some t" "e \<in> set as" for e t
    using that lk fit by (fastforce simp: period_of_def alarm_linked_def ranks_fit_def split: option.splits if_splits)
  have "int n - 2 ^ 31 < snd x \<and> snd x \<le> 2 ^ 31" if x: "x \<in> set (pending s' as')" for x
  proof (cases "pending s as")
    case Nil
    then show ?thesis using x p by (simp add: tick_list_def)
  next
    case (Cons y q)
    obtain a d where y: "y = (a, d)" by fastforce
    have "a \<in> set as" using Cons y by (metis list.set_intros(1) map_fst_ranks pending_def fst_conv list.map(2))
    then have "x \<in> set (map (\<lambda>(a, d). (a, d - 1)) (pending s as)) \<or> 0 < snd x \<and> snd x \<le> 2 ^ 31"
      using x per unfolding p Cons y tick_list_Cons by (auto simp: set_rank_put split: if_splits option.splits)
    then show ?thesis using fit small by (force simp: ranks_fit_def)
  qed
  moreover have "al_ticks al \<le> 2 ^ 31" if "aq_alarms s' a = Some al" for a al
  proof -
    have "map_option (\<lambda>x. x\<lparr>al_times := 0\<rparr>) (aq_alarms s a) = Some (al\<lparr>al_times := 0\<rparr>)" using sa [unfolded same_alarms_def, THEN conjunct2, rule_format, of a] that by simp
    then obtain al0 where al0: "aq_alarms s a = Some al0" "al0\<lparr>al_times := 0\<rparr> = al\<lparr>al_times := 0\<rparr>" by auto
    then have "al_ticks al = al_ticks al0" by (cases al; cases al0) simp
    then show ?thesis using fit al0 by (auto simp: ranks_fit_def)
  qed
  ultimately show ?thesis using small by (simp add: ranks_fit_def)
qed


lemma period_pos: "alarms_rep s as \<Longrightarrow> a \<in> set as \<Longrightarrow> period_of s a = Some t \<Longrightarrow> 0 < t"
  by (fastforce simp: period_of_def alarms_rep_def alarm_linked_def split: option.splits if_splits)

lemma alarm_waits:
  assumes "alarms_rep s as" "e \<in> set as" "wait_bound (pending s as) e \<le> n" "ranks_fit n s as"
  shows "\<exists>k < n. \<exists>s1 s2. ticks_run k s = Some s1 \<and> dl_head (aq_request s1) = e \<and> alarm_handler s1 = Some (s2, handler_of s e)"
  using assms
proof (induction n arbitrary: s as)
  case 0
  then show ?case by (auto simp: wait_bound_def split: if_splits)
next
  case (Suc n)
  note rep = Suc.prems(1)
  let ?tl = "tick_list (period_of s) (pending s as)"
  have lk: "\<forall>e \<in> set as. alarm_linked s e" and lr: "list_rep (aq_elems s) (aq_request s) as" and so: "sorted (map snd (pending s as))"
    using rep by (simp_all add: alarms_rep_def)
  obtain s' as' where s': "alarm_handler s = Some (s', Option.bind (snd ?tl) (handler_of s))" "alarms_rep s' as'"
    "pending s' as' = fst ?tl" "same_alarms s s'"
    using alarm_handler_rep [OF rep ranks_fit_head [OF Suc.prems(4)]] by blast
  have fst_p: "map fst (pending s as) = as" for s and as by (simp add: pending_def)
  show ?case
  proof (cases "snd ?tl = Some e")
    case True
    then have "dl_head (aq_request s) = e" using fst_p [of s as] dl_head_rep [OF lr] by (auto simp: tick_list_def split: list.splits if_splits)
    then show ?thesis using s'(1) True by (intro exI [of _ 0]) auto
  next
    case False
    have "map_of (pending s as) e \<noteq> None" using Suc.prems(2) fst_p [of s as] by (simp add: map_of_eq_None_iff flip: set_map)
    then have m: "map_of (pending s' as') e \<noteq> None \<and> wait_bound (pending s' as') e < wait_bound (pending s as) e"
      using lr s'(3) False period_pos [OF rep] fst_p [of s as]
      by (intro tick_list_progress [OF so, where ticks_of = "period_of s" and fired = "snd ?tl"]) (auto simp: list_rep_def simp flip: set_map)
    then have "e \<in> set as'" using fst_p [of s' as'] by (metis map_of_eq_None_iff set_map)
    moreover have "ranks_fit n s' as'" using ranks_fit_tick [OF Suc.prems(4) lk s'(3,4)] .
    ultimately obtain k s1 s2 where "k < n" "ticks_run k s' = Some s1" "dl_head (aq_request s1) = e" "alarm_handler s1 = Some (s2, handler_of s' e)"
      using Suc.IH [OF s'(2)] m Suc.prems(3) by fastforce
    then show ?thesis using s'(1) same_alarms_handler [OF s'(4)] lk Suc.prems(2) by (intro exI [of _ "Suc k"]) simp
  qed
qed


lemma tick_list_not_due:
  assumes e: "map_of q e = Some d" "1 < d"
  shows "map_of (fst (tick_list ticks_of q)) e = Some (d - 1)"
proof (cases q)
  case (Cons x r)
  obtain a h where x: "x = (a, h)" by fastforce
  show ?thesis
  proof (cases "h \<le> 1")
    case True
    then have "a \<noteq> e" using e by (auto simp: Cons x)
    then show ?thesis using True e(1) unfolding Cons x tick_list_Cons
      by (auto simp: map_of_rank_put map_of_shift split: option.split)
  next
    case False
    then show ?thesis using e(1) map_of_shift [of q e] unfolding Cons x tick_list_Cons by simp
  qed
qed (use e in simp)

lemma alarm_counts:
  assumes "alarms_rep s as" "map_of (pending s as) e = Some d" "ranks_fit k s as" "int k < d"
  shows "\<exists>s1 as1. ticks_run k s = Some s1 \<and> alarms_rep s1 as1 \<and> map_of (pending s1 as1) e = Some (d - int k)"
  using assms
proof (induction k arbitrary: s as d)
  case (Suc k)
  let ?tl = "tick_list (period_of s) (pending s as)"
  obtain s' as' where s': "alarm_handler s = Some (s', Option.bind (snd ?tl) (handler_of s))" "alarms_rep s' as'"
    "pending s' as' = fst ?tl" "same_alarms s s'"
    using alarm_handler_rep [OF Suc.prems(1) ranks_fit_head [OF Suc.prems(3)]] by blast
  have "map_of (pending s' as') e = Some (d - 1)" using tick_list_not_due Suc.prems(2,4) s'(3) by simp
  moreover have "ranks_fit k s' as'"
    using ranks_fit_tick [OF Suc.prems(3) _ s'(3,4)] Suc.prems(1) by (simp add: alarms_rep_def)
  ultimately obtain s1 as1 where "ticks_run k s' = Some s1" "alarms_rep s1 as1" "map_of (pending s1 as1) e = Some (d - 1 - int k)"
    using Suc.IH [OF s'(2)] Suc.prems(4) by fastforce
  then show ?case using s'(1) by (intro exI [of _ s1] exI [of _ as1]) (simp add: algebra_simps)
qed auto

section \<open>Creation\<close>

lemma alarm_new_rep:
  assumes rep: "alarms_rep s as" and fresh: "a \<noteq> 0" "aq_alarms s a = None" "link \<noteq> 0" "link \<notin> set as"
    and t: "0 < timer_ticks time (aq_frequency s)"
  shows "\<exists>s' as'. alarm_new a link time f n s = Some (s', None) \<and> alarms_rep s' as' \<and>
    pending s' as' = rank_put (link, timer_ticks time (aq_frequency s)) (pending s as)"
proof -
  let ?t = "timer_ticks time (aq_frequency s)"
  define s1 where "s1 = s\<lparr>aq_alarms := (aq_alarms s)(a \<mapsto> \<lparr>al_time = time, al_handler = f, al_times = n, al_ticks = ?t, al_link = link\<rparr>),
    aq_elems := (aq_elems s)(link \<mapsto> \<lparr>obj = a, nxt = 0, prv = 0, rank = ?t\<rparr>)\<rparr>"
  have lr: "list_rep (aq_elems s) (aq_request s) as" and so: "sorted (map snd (pending s as))" and lk: "\<forall>e \<in> set as. alarm_linked s e"
    using rep by (simp_all add: alarms_rep_def)
  have lr1: "list_rep (aq_elems s1) (aq_request s1) as"
    using list_rep_outside [OF lr, of "{link}" "aq_elems s1"] fresh(4) by (simp add: s1_def same_outside_def)
  have p1: "pending s1 as = pending s as"
    unfolding pending_def ranks_def using fresh(4) by (auto simp: s1_def intro!: abs_ranks_cong)
  have x: "aq_elems s1 link = Some \<lparr>obj = a, nxt = 0, prv = 0, rank = ?t\<rparr>" by (simp add: s1_def)
  obtain s' as' where s': "request_insert link s1 = Some s'" "list_rep (aq_elems s') (aq_request s') as'"
    "pending s' as' = rank_put (link, ?t) (pending s1 as)" "set as' = insert link (set as)" "same_but_rank (aq_elems s1) (aq_elems s')"
    "aq_alarms s' = aq_alarms s1"
    using request_insert_rep [OF lr1 fresh(3) x fresh(4)] by auto
  have sa: "same_alarms s1 s'" using s'(5,6) by (simp add: same_alarms_def)
  have "alarm_linked s1 e" if "e \<in> set as" for e
  proof -
    have "alarm_linked s e" using lk that by simp
    then obtain x al where x: "aq_elems s e = Some x" "obj x \<noteq> 0" "aq_alarms s (obj x) = Some al" "al_link al = e" "0 < al_ticks al"
      unfolding alarm_linked_def by (elim exE conjE)
    have "e \<noteq> link" "obj x \<noteq> a" using that fresh x by auto
    then show ?thesis using x by (simp add: alarm_linked_def s1_def)
  qed
  moreover have "alarm_linked s1 link" using fresh t by (simp add: alarm_linked_def s1_def)
  ultimately have "\<forall>e \<in> set as'. alarm_linked s' e" using s'(4) same_alarms_linked [OF sa] by auto
  then have "alarms_rep s' as'" using s'(2,3) p1 sorted_rank_put [OF so] by (simp add: alarms_rep_def)
  moreover have "alarm_new a link time f n s = Some (s', None)"
    using t s'(1) by (simp add: alarm_new_def Let_def s1_def)
  ultimately show ?thesis using s'(3) p1 by auto
qed

section \<open>Reset and change of period\<close>

lemma find_alarm:
  assumes lk: "\<forall>a \<in> set (us @ e # vs). alarm_linked s a" and x: "aq_elems s e = Some x" and d: "distinct (us @ e # vs)"
  shows "find_obj (aq_elems s) (us @ e # vs) (obj x) = e"
proof -
  have "\<exists>y. aq_elems s u = Some y \<and> obj y \<noteq> obj x" if u: "u \<in> set us" for u
  proof -
    have "alarm_linked s u" "alarm_linked s e" using u lk by simp_all
    moreover have "u \<noteq> e" using d u by auto
    ultimately show ?thesis using x unfolding alarm_linked_def by (metis option.inject)
  qed
  then have "find (\<lambda>a. map_option obj (aq_elems s a) = Some (obj x)) (us @ e # vs) = Some e"
    using x by (induction us) fastforce+
  then show ?thesis by (simp add: find_obj_def)
qed

lemma request_remove_rep:
  assumes rep: "list_rep (aq_elems s) (aq_request s) (us @ e # vs)" and lk: "\<forall>a \<in> set (us @ e # vs). alarm_linked s a"
    and x: "aq_elems s e = Some x"
  shows "\<exists>s'. request_remove (obj x) s = Some s' \<and> list_rep (aq_elems s') (aq_request s') (us @ vs) \<and>
    pending s' (us @ vs) = filter (\<lambda>(a, d). a \<noteq> e) (pending s (us @ e # vs)) \<and> aq_elems s' e = Some x \<and>
    same_but_rank (aq_elems s) (aq_elems s') \<and> aq_alarms s' = aq_alarms s \<and> aq_frequency s' = aq_frequency s"
proof -
  have d: "distinct (us @ e # vs)" "e \<noteq> 0" using rep list_rep_nonnull [OF rep] by (auto simp: list_rep_def)
  obtain h' l' where t: "ol_remove True (aq_elems s) (aq_request s) e = Some (h', l', e)" "list_rep h' l' (us @ vs)"
    "rank_of h' = rank_remove True (rank_of (aq_elems s)) e vs" "same_but_rank (aq_elems s) h'" "same_outside (set (us @ vs)) (aq_elems s) h'"
    using ol_remove_rep [OF rep, of True] by auto
  have "dl_search (aq_elems s) (aq_request s) (obj x) = Some e" using dl_search_rep [OF rep] find_alarm [OF lk x d(1)] by simp
  moreover have "h' e = Some x" using same_outsideD [OF t(5), of e] d(1) x by auto
  ultimately show ?thesis using t d abs_ranks_remove [OF d(1)]
    by (intro exI [of _ "s\<lparr>aq_elems := h', aq_request := l'\<rparr>"]) (simp add: request_remove_def ol_remove_object_def pending_def ranks_def)
qed

lemma alarm_period_rep:
  assumes rep: "alarms_rep s (us @ e # vs)" and x: "aq_elems s e = Some x"
  shows "\<exists>s' as'. alarm_period (obj x) p s = Some s' \<and> list_rep (aq_elems s') (aq_request s') as' \<and>
    pending s' as' = rank_put (e, rank_of (aq_elems s) e) (filter (\<lambda>(a, d). a \<noteq> e) (pending s (us @ e # vs)))"
proof -
  have lr: "list_rep (aq_elems s) (aq_request s) (us @ e # vs)" and lk: "\<forall>a \<in> set (us @ e # vs). alarm_linked s a"
    using rep by (simp_all add: alarms_rep_def)
  have e: "e \<noteq> 0" "e \<notin> set (us @ vs)" using lr list_rep_nonnull [OF lr] by (auto simp: list_rep_def)
  have "alarm_linked s e" using lk by simp
  then obtain al where al: "aq_alarms s (obj x) = Some al" "al_link al = e" "obj x \<noteq> 0" using x by (auto simp: alarm_linked_def)
  obtain s1 where s1: "request_remove (obj x) s = Some s1" "list_rep (aq_elems s1) (aq_request s1) (us @ vs)"
    "pending s1 (us @ vs) = filter (\<lambda>(a, d). a \<noteq> e) (pending s (us @ e # vs))" "aq_elems s1 e = Some x"
    using request_remove_rep [OF lr lk x] by blast
  define s2 where "s2 = s1\<lparr>aq_alarms := (aq_alarms s1)(obj x \<mapsto> al\<lparr>al_time := p, al_ticks := timer_ticks p (aq_frequency s1)\<rparr>)\<rparr>"
  have "list_rep (aq_elems s2) (aq_request s2) (us @ vs)" "aq_elems s2 e = Some x" "pending s2 (us @ vs) = pending s1 (us @ vs)"
    using s1 by (simp_all add: s2_def pending_def)
  then obtain s' as' where s': "request_insert e s2 = Some s'" "list_rep (aq_elems s') (aq_request s') as'"
    "pending s' as' = rank_put (e, rank x) (pending s1 (us @ vs))"
    using request_insert_rep [OF _ e(1) _ e(2), of s2 x] by auto
  have "alarm_period (obj x) p s = Some s'" using al s1(1) s'(1) by (simp add: alarm_period_def store_simps s2_def)
  then show ?thesis using s' s1(3) x by auto
qed

lemma alarm_reset_rep:
  assumes rep: "alarms_rep s (us @ e # vs)" and x: "aq_elems s e = Some x" "aq_alarms s (obj x) = Some al"
  shows "\<exists>s' as'. alarm_reset (obj x) s = Some s' \<and> alarms_rep s' as' \<and>
    pending s' as' = rank_put (e, al_ticks al) (filter (\<lambda>(a, d). a \<noteq> e) (pending s (us @ e # vs)))"
proof -
  have lr: "list_rep (aq_elems s) (aq_request s) (us @ e # vs)" and lk: "\<forall>a \<in> set (us @ e # vs). alarm_linked s a"
    and so: "sorted (map snd (pending s (us @ e # vs)))"
    using rep by (simp_all add: alarms_rep_def)
  have e: "e \<noteq> 0" "e \<notin> set (us @ vs)" using lr list_rep_nonnull [OF lr] by (auto simp: list_rep_def)
  have "alarm_linked s e" using lk by simp
  then have al: "al_link al = e" "obj x \<noteq> 0" using x by (auto simp: alarm_linked_def)
  obtain s1 where s1: "request_remove (obj x) s = Some s1" "list_rep (aq_elems s1) (aq_request s1) (us @ vs)"
    "pending s1 (us @ vs) = filter (\<lambda>(a, d). a \<noteq> e) (pending s (us @ e # vs))" "aq_elems s1 e = Some x"
    "same_but_rank (aq_elems s) (aq_elems s1)" "aq_alarms s1 = aq_alarms s"
    using request_remove_rep [OF lr lk x(1)] by blast
  define h2 where "h2 = (aq_elems s1)(e \<mapsto> x\<lparr>rank := al_ticks al\<rparr>)"
  have h2: "list_rep h2 (aq_request s1) (us @ vs)" "same_but_rank (aq_elems s1) h2"
    using list_rep_outside [OF s1(2), of "{e}" h2] e(2) s1(4) by (auto simp: h2_def same_outside_def)
  have p2: "pending (s1\<lparr>aq_elems := h2\<rparr>) (us @ vs) = pending s1 (us @ vs)"
    unfolding pending_def ranks_def using e(2) by (auto simp: h2_def intro!: abs_ranks_cong)
  obtain s' as' where s': "request_insert e (s1\<lparr>aq_elems := h2\<rparr>) = Some s'" "list_rep (aq_elems s') (aq_request s') as'"
    "pending s' as' = rank_put (e, al_ticks al) (pending s1 (us @ vs))" "set as' = insert e (set (us @ vs))"
    "same_but_rank h2 (aq_elems s')" "aq_alarms s' = aq_alarms s1"
    using request_insert_rep [of "s1\<lparr>aq_elems := h2\<rparr>", OF _ e(1) _ e(2), of "x\<lparr>rank := al_ticks al\<rparr>"] h2(1) p2 by (auto simp: h2_def)
  have "same_alarms s s'" using same_but_rank_trans [OF s1(5) same_but_rank_trans [OF h2(2) s'(5)]] s'(6) s1(6)
    by (simp add: same_alarms_def)
  then have "\<forall>a \<in> set as'. alarm_linked s' a" using lk s'(4) same_alarms_linked by auto
  moreover have "sorted (map snd (pending s' as'))"
    unfolding s'(3) s1(3) by (intro sorted_rank_put sorted_filter so)
  moreover have "alarm_reset (obj x) s = Some s'"
    using al x s1(1,4) s'(1) e(1) by (simp add: alarm_reset_def store_simps h2_def)
  ultimately show ?thesis using s' s1(3) by (intro exI [of _ s'] exI [of _ as']) (simp add: alarms_rep_def)
qed

section \<open>Ticks and microseconds\<close>

lemma ticks_of_time:
  assumes f: "0 < uint f" "uint f < 1000000" and k: "0 \<le> k" "(k + 1) * 1000000 < 2 ^ 64"
  shows "timer_ticks (timer_time k f) f = k"
proof -
  define F T where "F = uint f" and "T = (k * 1000000 + F div 2) div F"
  have FT: "F * T \<le> k * 1000000 + F div 2" "k * 1000000 + F div 2 < F * T + F"
    using f mult_div_mod_eq [of F "k * 1000000 + F div 2"] pos_mod_bound [of F "k * 1000000 + F div 2"] pos_mod_sign [of F "k * 1000000 + F div 2"]
    unfolding T_def F_def by linarith+
  have F: "0 < F" "F < 1000000" using f by (simp_all add: F_def)
  have "uint (word_of_int k * 1000000 + f div 2) = k * 1000000 + F div 2"
    using k F by (simp add: uint_word_ariths uint_div_distrib unsigned_of_int take_bit_eq_mod mod_simps flip: F_def)
  then have T: "uint (timer_time k f) = T" by (simp add: timer_time_def uint_div_distrib T_def F_def)
  have "0 \<le> T" using F k by (simp add: T_def pos_imp_zdiv_nonneg_iff)
  then have "0 \<le> F * T" using F by simp
  then have "uint (timer_time k f * f + 500000) = F * T + 500000"
    using k FT F by (simp add: uint_word_ariths T mod_simps mult.commute flip: F_def)
  moreover have "(F * T + 500000) div 1000000 = k" 
  proof (rule int_div_pos_eq [of _ _ _ "F * T + 500000 - 1000000 * k"])
    have "F \<le> 2 * (F div 2) + 1" "2 * (F div 2) \<le> F" by simp_all
    then show "0 \<le> F * T + 500000 - 1000000 * k" "F * T + 500000 - 1000000 * k < 1000000" using FT F by linarith+
  qed simp
  ultimately have "uint ((timer_time k f * f + 500000) div 1000000) = k" by (simp add: uint_div_distrib)
  then show ?thesis using k by (simp add: timer_ticks_def sint_uint signed_take_bit_int_eq_self)
qed


section \<open>Properties\<close>

text \<open>C16. A tick.\<close>

theorem alarm_handler_ticks:
  assumes "alarms_rep s as" "head_fits s as"
  shows "\<exists>s' as'. alarm_handler s = Some (s', Option.bind (snd (tick_list (period_of s) (pending s as))) (handler_of s)) \<and>
    alarms_rep s' as' \<and> pending s' as' = fst (tick_list (period_of s) (pending s as)) \<and>
    same_alarms s s' \<and> aq_elapsed s' = aq_elapsed s + 1 \<and> aq_frequency s' = aq_frequency s"
  by (rule alarm_handler_rep [OF assms])

text \<open>Two alarms that are due at the same tick: the second, periodic, has the offset 0.\<close>

definition two_alarms :: "nat alarm_queue" where
  "two_alarms = \<lparr>aq_elems = [0x110 \<mapsto> \<lparr>obj = 0x100, nxt = 0x210, prv = 0, rank = 2\<rparr>, 0x210 \<mapsto> \<lparr>obj = 0x200, nxt = 0, prv = 0x110, rank = 0\<rparr>],
     aq_alarms = [0x100 \<mapsto> \<lparr>al_time = 2000, al_handler = 7, al_times = 1, al_ticks = 2, al_link = 0x110\<rparr>,
       0x200 \<mapsto> \<lparr>al_time = 4000, al_handler = 8, al_times = INFINITE, al_ticks = 4, al_link = 0x210\<rparr>],
     aq_request = \<lparr>dl_size = 2, dl_head = 0x110, dl_tail = 0x210\<rparr>, aq_elapsed = 0, aq_frequency = 1000\<rparr>"

lemma two_alarms_rep: "alarms_rep two_alarms [0x110, 0x210]"
  by (simp add: alarms_rep_def two_alarms_def list_rep_def pending_def ranks_def rank_of_def alarm_linked_def)

lemma two_alarms_pending: "pending two_alarms [0x110, 0x210] = [(0x110, 2), (0x210, 2)]"
  by (simp add: two_alarms_def pending_def ranks_def rank_of_def)

lemma two_alarms_fit: "n \<le> 100 \<Longrightarrow> ranks_fit n two_alarms [0x110, 0x210]"
  unfolding ranks_fit_def two_alarms_pending by (simp add: two_alarms_def)

theorem alarm_handler_ticks_witness:
  "\<exists>s' as'. alarm_handler two_alarms = Some (s', None) \<and> alarms_rep s' as' \<and> pending s' as' = [(0x110, 1), (0x210, 1)]"
  using alarm_handler_ticks [OF two_alarms_rep ranks_fit_head [OF two_alarms_fit [of 0]]]
  by (auto simp: two_alarms_pending tick_list_def)

text \<open>C17. No alarm starves.\<close>

theorem alarm_fires:
  assumes "alarms_rep s as" "e \<in> set as" "ranks_fit (wait_bound (pending s as) e) s as"
  shows "\<exists>k < wait_bound (pending s as) e. \<exists>s1 s2.
    ticks_run k s = Some s1 \<and> dl_head (aq_request s1) = e \<and> alarm_handler s1 = Some (s2, handler_of s e)"
  by (rule alarm_waits [OF assms(1,2) order.refl assms(3)])

theorem alarm_fires_witness:
  "\<exists>k < 3. \<exists>s1 s2. ticks_run k two_alarms = Some s1 \<and> dl_head (aq_request s1) = 0x210 \<and> alarm_handler s1 = Some (s2, Some 8)"
proof -
  have w: "wait_bound (pending two_alarms [0x110, 0x210]) 0x210 = 3"
    by (simp add: two_alarms_pending wait_bound_def ticks_left_def)
  have h: "handler_of two_alarms 0x210 = Some 8" by (simp add: two_alarms_def handler_of_def)
  show ?thesis
    using alarm_fires [OF two_alarms_rep, of "0x210", unfolded w h] two_alarms_fit [of 3] by simp
qed

text \<open>No alarm is early.\<close>

theorem alarm_keeps_time:
  assumes "alarms_rep s as" "map_of (pending s as) e = Some d" "ranks_fit k s as" "int k < d"
  shows "\<exists>s1 as1. ticks_run k s = Some s1 \<and> alarms_rep s1 as1 \<and> map_of (pending s1 as1) e = Some (d - int k)"
  by (rule alarm_counts [OF assms])

theorem alarm_keeps_time_witness:
  "\<exists>s1 as1. ticks_run 1 two_alarms = Some s1 \<and> alarms_rep s1 as1 \<and> map_of (pending s1 as1) 0x210 = Some 1"
  using alarm_keeps_time [OF two_alarms_rep, of "0x210" 2 1] two_alarms_fit [of 1] by (simp add: two_alarms_pending)

text \<open>C1. A new alarm and a reset one.\<close>

theorem alarm_new_ok:
  assumes "alarms_rep s as" "a \<noteq> 0" "aq_alarms s a = None" "link \<noteq> 0" "link \<notin> set as" "0 < timer_ticks time (aq_frequency s)"
  shows "\<exists>s' as'. alarm_new a link time f n s = Some (s', None) \<and> alarms_rep s' as' \<and>
    pending s' as' = rank_put (link, timer_ticks time (aq_frequency s)) (pending s as)"
  by (rule alarm_new_rep [OF assms])

theorem alarm_new_ok_witness:
  "\<exists>s' as'. alarm_new 0x300 0x310 1000 9 1 two_alarms = Some (s', None) \<and> alarms_rep s' as' \<and>
    pending s' as' = [(0x310, 1), (0x110, 2), (0x210, 2)]"
proof -
  have f: "aq_frequency two_alarms = 1000" "aq_alarms two_alarms 0x300 = None" by (simp_all add: two_alarms_def)
  have t: "timer_ticks 1000 1000 = 1" by (simp add: timer_ticks_def)
  show ?thesis
    using alarm_new_ok [OF two_alarms_rep, of "0x300" "0x310" 1000 9 1] by (simp add: f t two_alarms_pending rank_put_def)
qed

text \<open>C1. Round trip.\<close>

theorem ticks_time_roundtrip:
  assumes "0 < uint f" "uint f < 1000000" "0 \<le> k" "(k + 1) * 1000000 < 2 ^ 64"
  shows "timer_ticks (timer_time k f) f = k"
  by (rule ticks_of_time [OF assms])

theorem ticks_time_roundtrip_witness: "timer_ticks (timer_time 12345 1024) 1024 = 12345"
  by (rule ticks_time_roundtrip) simp_all

text \<open>Another finding.\<close>

theorem alarm_period_stale:
  assumes "alarms_rep s (us @ e # vs)" "aq_elems s e = Some x"
  shows "\<exists>s' as'. alarm_period (obj x) p s = Some s' \<and> list_rep (aq_elems s') (aq_request s') as' \<and>
    pending s' as' = rank_put (e, rank_of (aq_elems s) e) (filter (\<lambda>(a, d). a \<noteq> e) (pending s (us @ e # vs)))"
  by (rule alarm_period_rep [OF assms])

theorem alarm_period_stale_witness:
  "\<exists>s' as'. alarm_period 0x200 9000 two_alarms = Some s' \<and> pending s' as' = [(0x210, 0), (0x110, 2)]"
proof -
  have "aq_elems two_alarms 0x210 = Some \<lparr>obj = 0x200, nxt = 0, prv = 0x110, rank = 0\<rparr>" by (simp add: two_alarms_def)
  from alarm_period_stale [of two_alarms "[0x110]" "0x210" "[]", simplified, OF two_alarms_rep this, of 9000] this
  show ?thesis by (auto simp: two_alarms_pending rank_put_def)
qed

text \<open>A finding.\<close>

theorem distant_alarm_fires_at_once:
  assumes rep: "alarms_rep s (e # vs)" and far: "2 ^ 31 < rank_of (aq_elems s) e" "rank_of (aq_elems s) e \<le> 2 ^ 32"
  shows "\<exists>s'. alarm_handler s = Some (s', handler_of s e)"
proof -
  have lr: "list_rep (aq_elems s) (aq_request s) (e # vs)" and lk: "\<forall>a \<in> set (e # vs). alarm_linked s a" using rep by (auto simp: alarms_rep_def)
  let ?R = "rank_of (aq_elems s) e - 1"
  have "to_int32 ?R = to_int32 (?R - 2 ^ 32)"
    unfolding to_int32_def by (rule signed_take_bit_eq_iff_take_bit_eq [THEN iffD2])
      (use minus_mod_self2 [of ?R "2 ^ 32", symmetric] in \<open>simp add: take_bit_eq_mod\<close>)
  then have neg: "to_int32 ?R \<le> 0" using far by (subst (asm) (2) to_int32_id) auto
  obtain h1 where h1: "promote (aq_elems s) e 1 = Some (h1, to_int32 ?R)" "list_rep h1 (aq_request s) (e # vs)" "same_but_rank (aq_elems s) h1"
    using promote_rep [OF lr] by blast
  define s1 where "s1 = s\<lparr>aq_elapsed := aq_elapsed s + 1, aq_elems := h1\<rparr>"
  have s1: "same_alarms s s1" using h1(3) by (simp add: same_alarms_def s1_def)
  have "list_rep (aq_elems s1) (aq_request s1) (e # vs)" using h1(2) by (simp add: s1_def)
  moreover have "alarm_linked s1 e" "handler_of s1 e = handler_of s e" using lk same_alarms_linked [OF s1] same_alarms_handler [OF s1] by simp_all
  ultimately obtain s' where "alarm_expire s1 = Some (s', handler_of s e)" using alarm_expire_rep [of s1 e vs] by metis
  then show ?thesis using neg h1(1) dl_head_rep [OF lr] dl_empty_rep [OF lr]
    by (intro exI [of _ s']) (simp add: alarm_handler_def s1_def)
qed

definition distant_alarm :: "nat alarm_queue" where
  "distant_alarm = \<lparr>aq_elems = [0x110 \<mapsto> \<lparr>obj = 0x100, nxt = 0, prv = 0, rank = 3000000000\<rparr>],
     aq_alarms = [0x100 \<mapsto> \<lparr>al_time = 3000000000000, al_handler = 7, al_times = 1, al_ticks = 3000000000, al_link = 0x110\<rparr>],
     aq_request = \<lparr>dl_size = 1, dl_head = 0x110, dl_tail = 0x110\<rparr>, aq_elapsed = 0, aq_frequency = 1000\<rparr>"

theorem distant_alarm_witness: "\<exists>s'. alarm_handler distant_alarm = Some (s', Some 7)"
proof -
  have "alarms_rep distant_alarm [0x110]"
    by (simp add: alarms_rep_def distant_alarm_def list_rep_def pending_def ranks_def rank_of_def alarm_linked_def)
  moreover have "handler_of distant_alarm 0x110 = Some 7" "rank_of (aq_elems distant_alarm) 0x110 = 3000000000"
    by (simp_all add: distant_alarm_def handler_of_def rank_of_def)
  ultimately show ?thesis using distant_alarm_fires_at_once [of distant_alarm "0x110" "[]"] by simp
qed

end
