(* ===== verification/Criteria.thy ===== *)
theory Criteria
  imports Scheduling_List
begin

unbundle bit_operations_syntax

text \<open>
  The scheduling criteria of \<open>include/scheduler.h\<close> and \<open>src/api/scheduler.cc\<close>: constructors, \<open>handle\<close> and the
  choice of queues and heads, one definition per member function. \<open>Tick\<close> is the time stamp of the TSC (64 bits) and a
  priority is an \<open>int\<close> of 32 bits. The clock is a parameter: \<open>now i\<close> is what the \<open>i\<close>-th call of \<open>now()\<close> in the text
  returns, so it may advance in the middle of a handler. The experimental policies \<open>EA_PEDF\<close> are left out.
\<close>

section \<open>Time stamps\<close>

definition tsc_time :: "ulong \<Rightarrow> ulong \<Rightarrow> ulong" where
  "tsc_time ts frequency = (ts * 1000000 + frequency div 2) div frequency"

definition tsc_ts :: "ulong \<Rightarrow> ulong \<Rightarrow> ulong" where
  "tsc_ts time frequency = (time * frequency + 500000) div 1000000"

section \<open>Scheduling_Criterion_Common\<close>

definition CEILING :: int where "CEILING = - 1000"
definition MAIN :: int where "MAIN = - 1"
definition HIGH :: int where "HIGH = 0"
definition NORMAL :: int where "NORMAL = uint (push_bit (32 - 3) 1 :: uint) - 1"
definition LOW :: int where "LOW = uint (push_bit (32 - 2) 1 :: uint) - 1"

definition SAME :: ulong where "SAME = 0"
definition UNKNOWN :: ulong where "UNKNOWN = 0"
definition ANY :: uint where "ANY = - 1"

definition PERIODIC :: int where "PERIODIC = HIGH"
definition SPORADIC :: int where "SPORADIC = NORMAL"
definition APERIODIC :: int where "APERIODIC = LOW"

type_synonym crit_event = uint

definition CREATION :: crit_event where "CREATION = push_bit 0 1"
definition FINISH :: crit_event where "FINISH = push_bit 1 1"
definition DISPATCH :: crit_event where "DISPATCH = push_bit 2 1"
definition RETREAT :: crit_event where "RETREAT = push_bit 3 1"
definition JOB_RELEASE :: crit_event where "JOB_RELEASE = push_bit 4 1"
definition JOB_FINISH :: crit_event where "JOB_FINISH = push_bit 5 1"
definition JOB_EXECUTION_START :: crit_event where "JOB_EXECUTION_START = push_bit 6 1"
definition JOB_EXECUTION_FINISH :: crit_event where "JOB_EXECUTION_FINISH = push_bit 7 1"
definition JOB_ALARM_HANDLE :: crit_event where "JOB_ALARM_HANDLE = push_bit 8 1"
definition TIMER_INTERRUPTION :: crit_event where "TIMER_INTERRUPTION = push_bit 9 1"
definition UPDATE :: crit_event where "UPDATE = push_bit 19 1"

definition UNINITIALIZED :: uint where "UNINITIALIZED = push_bit 0 1"
definition RUNNING_JOB :: uint where "RUNNING_JOB = push_bit 1 1"
definition FINISHED :: uint where "FINISHED = push_bit 2 1"

record statistics =
  thread_creation :: ulong
  thread_destruction :: ulong
  thread_execution_time :: ulong
  thread_last_dispatch :: ulong
  thread_last_preemption :: ulong
  job_last_preemption :: ulong
  job_execution_start :: ulong
  job_execution_block_initial_time :: ulong
  job_partial_utilization :: ulong
  deadline_misses :: uint
  job_release :: ulong
  job_start :: ulong
  job_finish :: ulong
  job_utilization :: ulong
  jobs_released :: uint
  jobs_finished :: uint

definition real_statistics :: statistics where
  "real_statistics = \<lparr>thread_creation = 0, thread_destruction = 0, thread_execution_time = 0, thread_last_dispatch = 0,
     thread_last_preemption = 0, job_last_preemption = 0, job_execution_start = 0, job_execution_block_initial_time = 0,
     job_partial_utilization = 0, deadline_misses = 0, job_release = 0, job_start = 0, job_finish = 0, job_utilization = 0,
     jobs_released = 0, jobs_finished = 0\<rparr>"

definition common_handle :: "(nat \<Rightarrow> ulong) \<Rightarrow> crit_event \<Rightarrow> statistics \<Rightarrow> statistics" where
  "common_handle now event s =
     (let s = (if event AND CREATION \<noteq> 0 then s\<lparr>thread_creation := now 0, job_utilization := 0\<rparr> else s);
          s = (if event AND FINISH \<noteq> 0 then s\<lparr>thread_destruction := now 1\<rparr> else s);
          s = (if event AND DISPATCH \<noteq> 0 then s\<lparr>thread_last_dispatch := now 2\<rparr> else s);
          s = (if event AND RETREAT \<noteq> 0
               then let cpu_time = now 3 - thread_last_dispatch s
                    in s\<lparr>thread_last_preemption := now 4, thread_execution_time := thread_execution_time s + cpu_time\<rparr>
               else s)
      in s)"

section \<open>Priority and the policies built on it\<close>

text \<open>The conversion of a 64-bit tick count to \<open>int\<close>.\<close>

definition int_of_tick :: "ulong \<Rightarrow> int" where
  "int_of_tick t = sint (ucast t :: uint)"

record sched_criterion =
  priority :: int
  common_statistics :: statistics

definition priority_new :: "int \<Rightarrow> sched_criterion" where
  "priority_new i = \<lparr>priority = i, common_statistics = real_statistics\<rparr>"

definition priority_copy :: "'m sched_criterion_scheme \<Rightarrow> sched_criterion" where
  "priority_copy p = \<lparr>priority = priority p, common_statistics = real_statistics\<rparr>"

definition rr_new :: "int \<Rightarrow> sched_criterion" where
  "rr_new i = priority_new i"

definition fcfs_new :: "(nat \<Rightarrow> ulong) \<Rightarrow> int \<Rightarrow> sched_criterion" where
  "fcfs_new now i = priority_new (if i = IDLE then IDLE else int_of_tick (now 0))"

section \<open>RT_Common\<close>

record rt_criterion = sched_criterion +
  rt_period :: ulong
  rt_deadline :: ulong
  rt_capacity :: ulong
  rt_statistics :: statistics
  job_status :: uint

definition rt_aperiodic :: "int \<Rightarrow> rt_criterion" where
  "rt_aperiodic i = \<lparr>priority = i, common_statistics = real_statistics, rt_period = 0, rt_deadline = 0, rt_capacity = 0,
     rt_statistics = real_statistics, job_status = UNINITIALIZED\<rparr>"

definition rt_copy :: "rt_criterion \<Rightarrow> rt_criterion" where
  "rt_copy c = \<lparr>priority = priority c, common_statistics = real_statistics, rt_period = rt_period c, rt_deadline = rt_deadline c,
     rt_capacity = rt_capacity c, rt_statistics = rt_statistics c, job_status = job_status c\<rparr>"

text \<open>This constructor leaves the status of the job as it is in memory: \<open>junk\<close>.\<close>

definition rt_new :: "(ulong \<Rightarrow> ulong) \<Rightarrow> uint \<Rightarrow> int \<Rightarrow> ulong \<Rightarrow> ulong \<Rightarrow> ulong \<Rightarrow> rt_criterion" where
  "rt_new ticks junk i p d c = \<lparr>priority = i, common_statistics = real_statistics, rt_period = ticks p,
     rt_deadline = ticks (if d \<noteq> 0 then d else p), rt_capacity = ticks c, rt_statistics = real_statistics, job_status = junk\<rparr>"

definition periodic :: "rt_criterion \<Rightarrow> bool" where
  "periodic c \<longleftrightarrow> priority c \<ge> PERIODIC \<and> priority c \<le> SPORADIC"

definition rt_ticks :: "ulong \<Rightarrow> ulong \<Rightarrow> ulong" where
  "rt_ticks clock time = tsc_ts time clock"

definition rt_time :: "ulong \<Rightarrow> ulong \<Rightarrow> ulong" where
  "rt_time clock ticks = tsc_time ticks clock"

definition period :: "ulong \<Rightarrow> rt_criterion \<Rightarrow> ulong" where
  "period clock c = rt_time clock (rt_period c)"

definition deadline :: "ulong \<Rightarrow> rt_criterion \<Rightarrow> ulong" where
  "deadline clock c = rt_time clock (rt_deadline c)"

definition capacity :: "ulong \<Rightarrow> rt_criterion \<Rightarrow> ulong" where
  "capacity clock c = rt_time clock (rt_capacity c)"

text \<open>The statistics of \<open>Scheduling_Criterion_Common\<close> and of \<open>RT_Common\<close> are different members.\<close>

definition rt_handle :: "(nat \<Rightarrow> ulong) \<Rightarrow> crit_event \<Rightarrow> rt_criterion \<Rightarrow> rt_criterion" where
  "rt_handle now event c =
     (let c = c\<lparr>common_statistics := common_handle now event (common_statistics c)\<rparr>;
          s = rt_statistics c;
          st = job_status c;
          s = (if event AND RETREAT \<noteq> 0
               then s\<lparr>job_partial_utilization := job_partial_utilization s + (now 5 - job_execution_block_initial_time s), job_last_preemption := now 6\<rparr>
               else s);
          s = (if event AND DISPATCH \<noteq> 0 then s\<lparr>job_execution_block_initial_time := now 7\<rparr> else s);
          (s, st) = (if event AND JOB_EXECUTION_START \<noteq> 0
               then (s\<lparr>job_execution_block_initial_time := now 8, job_partial_utilization := 0, job_execution_start := now 9, job_last_preemption := 0\<rparr>, RUNNING_JOB)
               else (s, st));
          (s, st) = (if event AND JOB_EXECUTION_FINISH \<noteq> 0
               then (s\<lparr>job_utilization := now 10 - job_execution_block_initial_time s + job_partial_utilization s\<rparr>, FINISHED)
               else (s, st));
          (s, st) = (if event AND JOB_ALARM_HANDLE \<noteq> 0
               then (if st AND (UNINITIALIZED OR RUNNING_JOB) \<noteq> 0 then s\<lparr>deadline_misses := deadline_misses s + 1\<rparr> else s, UNINITIALIZED)
               else (s, st));
          s = (if periodic c \<and> event AND JOB_RELEASE \<noteq> 0 then s\<lparr>job_release := now 11, jobs_released := jobs_released s + 1\<rparr> else s);
          s = (if periodic c \<and> event AND JOB_FINISH \<noteq> 0 then s\<lparr>job_finish := now 12, jobs_finished := jobs_finished s + 1\<rparr> else s)
      in c\<lparr>rt_statistics := s, job_status := st\<rparr>)"

section \<open>Real-time policies\<close>

definition rm_new where "rm_new ticks junk p d c = rt_new ticks junk (int_of_tick (ticks p)) p d c"

definition dm_new where "dm_new ticks junk p d c = rt_new ticks junk (int_of_tick (ticks (if d \<noteq> 0 then d else p))) p d c"

definition lm_new where "lm_new ticks junk p d c = rt_new ticks junk (int_of_tick (ticks ((if d \<noteq> 0 then d else p) - c))) p d c"

definition edf_new :: "(nat \<Rightarrow> ulong) \<Rightarrow> (ulong \<Rightarrow> ulong) \<Rightarrow> uint \<Rightarrow> ulong \<Rightarrow> ulong \<Rightarrow> ulong \<Rightarrow> rt_criterion" where
  "edf_new now ticks junk p d c = rt_new ticks junk (int_of_tick (now 0 + ticks d)) p d c"

definition edf_handle :: "(nat \<Rightarrow> ulong) \<Rightarrow> crit_event \<Rightarrow> rt_criterion \<Rightarrow> rt_criterion" where
  "edf_handle now event c =
     (let c = rt_handle now event c
      in if periodic c \<and> event AND JOB_RELEASE \<noteq> 0 then c\<lparr>priority := int_of_tick (now 13 + rt_deadline c)\<rparr> else c)"

definition llf_new :: "(nat \<Rightarrow> ulong) \<Rightarrow> (ulong \<Rightarrow> ulong) \<Rightarrow> uint \<Rightarrow> ulong \<Rightarrow> ulong \<Rightarrow> ulong \<Rightarrow> rt_criterion" where
  "llf_new now ticks junk p d c = rt_new ticks junk (int_of_tick (now 0 + ticks ((if d \<noteq> 0 then d else p) - c))) p d c"

definition llf_handle :: "(nat \<Rightarrow> ulong) \<Rightarrow> crit_event \<Rightarrow> rt_criterion \<Rightarrow> rt_criterion" where
  "llf_handle now event c =
     (let c = (if periodic c \<and> (event AND UPDATE) OR (event AND JOB_RELEASE) OR (event AND JOB_FINISH) \<noteq> 0
               then c\<lparr>priority := int_of_tick (now 13 + rt_deadline c - rt_capacity c + job_utilization (rt_statistics c))\<rparr>
               else c)
      in rt_handle now event c)"

section \<open>Queues and heads of the multicore policies\<close>

text \<open>
  \<open>++_next_queue %= n\<close>; the new value of the shared counter is also the queue. The counter is \<open>volatile\<close> and not locked: this is what
  it does while no other CPU creates a thread.
\<close>

definition next_queue :: "uint \<Rightarrow> uint \<Rightarrow> uint" where
  "next_queue n q = (q + 1) mod n"

definition fixed_cpu_queue :: "uint \<Rightarrow> uint \<Rightarrow> int \<Rightarrow> uint \<Rightarrow> uint \<Rightarrow> uint \<times> uint" where
  "fixed_cpu_queue cores me prio cpu nq =
     (if prio = IDLE \<or> prio = MAIN then (me, nq)
      else if cpu \<noteq> ANY then (cpu, nq)
      else let nq = next_queue cores nq in (nq, nq))"

definition cpu_affinity_queue :: "uint \<Rightarrow> uint \<Rightarrow> int \<Rightarrow> uint \<Rightarrow> uint \<Rightarrow> uint \<times> uint" where
  "cpu_affinity_queue cores me prio cpu nq =
     (if prio = IDLE \<or> prio = MAIN then (me, nq)
      else if cpu \<noteq> ANY then (cpu, nq)
      else let nq = next_queue cores nq in (nq, nq))"

definition prm_aperiodic_queue :: "uint \<Rightarrow> int \<Rightarrow> uint" where
  "prm_aperiodic_queue me prio = (if prio = IDLE \<or> prio = MAIN then me else 0)"

definition pedf_aperiodic_queue :: "uint \<Rightarrow> int \<Rightarrow> uint" where
  "pedf_aperiodic_queue me prio = (if prio = IDLE \<or> prio = MAIN then me else 0)"

definition prm_queue :: "uint \<Rightarrow> uint \<Rightarrow> uint \<Rightarrow> uint \<times> uint" where
  "prm_queue cores cpu nq = (if cpu \<noteq> ANY then (cpu, nq) else let nq = next_queue cores nq in (nq, nq))"

definition pedf_queue :: "uint \<Rightarrow> uint \<Rightarrow> uint \<Rightarrow> uint \<times> uint" where
  "pedf_queue cores cpu nq = (if cpu \<noteq> ANY then (cpu, nq) else let nq = next_queue cores nq in (nq, nq))"

definition CEDF_HEADS :: uint where "CEDF_HEADS = 2"

text \<open>\<open>cpus\<close> is \<open>Traits<Machine>::CPUS\<close>; the constructors use \<open>CPU::cores()\<close>, the CPUs that have been started.\<close>

definition CEDF_QUEUES :: "uint \<Rightarrow> uint" where "CEDF_QUEUES cpus = cpus div CEDF_HEADS"

definition cedf_current_queue :: "uint \<Rightarrow> uint" where "cedf_current_queue me = me div CEDF_HEADS"

definition cedf_current_head :: "uint \<Rightarrow> uint" where "cedf_current_head me = me mod CEDF_HEADS"

definition cedf_aperiodic_queue :: "uint \<Rightarrow> int \<Rightarrow> uint" where
  "cedf_aperiodic_queue me prio = (if prio = IDLE \<or> prio = MAIN then cedf_current_queue me else 0)"

definition cedf_queue :: "uint \<Rightarrow> uint \<Rightarrow> uint \<Rightarrow> uint \<times> uint" where
  "cedf_queue cores cpu nq =
     (if cpu \<noteq> ANY then (cpu div CEDF_HEADS, nq) else let nq = next_queue (cores div CEDF_HEADS) nq in (nq, nq))"

text \<open>The constructors that take a deadline first and hand it to a base class that takes a period first.\<close>

definition prm_new where "prm_new ticks junk d p c = rm_new ticks junk d p c"

definition pedf_new where "pedf_new now ticks junk d p c = edf_new now ticks junk d p c"

definition gedf_new where "gedf_new now ticks junk d p c = edf_new now ticks junk d p c"

definition cedf_new where "cedf_new now ticks junk d p c = edf_new now ticks junk d p c"

definition global_head :: "uint \<Rightarrow> uint" where "global_head me = me"

text \<open>The global policy has one queue, with a head for each CPU, but \<open>queue()\<close> is the head.\<close>

definition GEDF_QUEUES :: uint where "GEDF_QUEUES = 1"

definition gedf_queue :: "uint \<Rightarrow> uint" where "gedf_queue me = global_head me"

definition partitioned_queue :: "uint \<Rightarrow> uint" where "partitioned_queue me = me"

end
