(* ===== verification/Criteria_Properties.thy ===== *)
theory Criteria_Properties
  imports Criteria List_Properties
begin

text \<open>
  What the criteria promise: EDF orders released jobs by their absolute deadlines, the statistics account for the
  time a job runs, and every policy gives a queue and a head that exist. EDF works only while the deadlines fit
  the range of the priorities of periodic threads.
\<close>

lemmas event_defs = CREATION_def FINISH_def DISPATCH_def RETREAT_def JOB_RELEASE_def JOB_FINISH_def JOB_EXECUTION_START_def
  JOB_EXECUTION_FINISH_def JOB_ALARM_HANDLE_def UPDATE_def UNINITIALIZED_def RUNNING_JOB_def FINISHED_def

lemmas range_defs = PERIODIC_def SPORADIC_def APERIODIC_def HIGH_def NORMAL_def LOW_def MAIN_def IDLE_def

lemma int_of_tick_small:
  assumes "uint t < 2 ^ 31"
  shows "int_of_tick t = uint t"
proof -
  have "- (2 ^ 31) \<le> uint t" by (rule order.trans [OF _ uint_ge_0]) simp
  then show ?thesis
    using assms signed_take_bit_int_eq_self [of 31 "uint t"] by (simp add: int_of_tick_def sint_uint unsigned_ucast_eq take_bit_eq_mod)
qed

section \<open>Frames of the handlers\<close>

lemma rt_handle_frame [simp]:
  "priority (rt_handle now e c) = priority c" "rt_period (rt_handle now e c) = rt_period c"
  "rt_deadline (rt_handle now e c) = rt_deadline c" "rt_capacity (rt_handle now e c) = rt_capacity c"
  "periodic (rt_handle now e c) = periodic c"
  by (simp_all add: rt_handle_def Let_def periodic_def split: prod.split)

lemma edf_handle_frame [simp]: "rt_deadline (edf_handle now e c) = rt_deadline c"
  by (simp add: edf_handle_def Let_def)

lemma edf_handle_not_periodic: "\<not> periodic c \<Longrightarrow> edf_handle now e c = rt_handle now e c"
  by (simp add: edf_handle_def Let_def)

lemma rt_handle_uncounted:
  "\<not> periodic c \<Longrightarrow> jobs_released (rt_statistics (rt_handle now e c)) = jobs_released (rt_statistics c)"
  by (cases "e AND RETREAT = 0"; cases "e AND DISPATCH = 0"; cases "e AND JOB_EXECUTION_START = 0";
      cases "e AND JOB_EXECUTION_FINISH = 0"; cases "e AND JOB_ALARM_HANDLE = 0") (auto simp: rt_handle_def Let_def periodic_def)

text \<open>The handlers on single events.\<close>

lemma rt_handle_start:
  "rt_statistics (rt_handle now JOB_EXECUTION_START c) =
     (rt_statistics c)\<lparr>job_execution_block_initial_time := now 8, job_partial_utilization := 0, job_execution_start := now 9, job_last_preemption := 0\<rparr>"
  "job_status (rt_handle now JOB_EXECUTION_START c) = RUNNING_JOB"
  by (simp_all add: rt_handle_def Let_def event_defs)

lemma rt_handle_retreat:
  "rt_statistics (rt_handle now RETREAT c) =
     (rt_statistics c)\<lparr>job_partial_utilization := job_partial_utilization (rt_statistics c) + (now 5 - job_execution_block_initial_time (rt_statistics c)),
       job_last_preemption := now 6\<rparr>"
  "job_status (rt_handle now RETREAT c) = job_status c"
  by (simp_all add: rt_handle_def Let_def event_defs)

lemma rt_handle_dispatch:
  "rt_statistics (rt_handle now DISPATCH c) = (rt_statistics c)\<lparr>job_execution_block_initial_time := now 7\<rparr>"
  "job_status (rt_handle now DISPATCH c) = job_status c"
  by (simp_all add: rt_handle_def Let_def event_defs)

lemma rt_handle_finish:
  "rt_statistics (rt_handle now JOB_EXECUTION_FINISH c) =
     (rt_statistics c)\<lparr>job_utilization := now 10 - job_execution_block_initial_time (rt_statistics c) + job_partial_utilization (rt_statistics c)\<rparr>"
  "job_status (rt_handle now JOB_EXECUTION_FINISH c) = FINISHED"
  by (simp_all add: rt_handle_def Let_def event_defs)

lemma rt_handle_alarm:
  "deadline_misses (rt_statistics (rt_handle now JOB_ALARM_HANDLE c)) =
     deadline_misses (rt_statistics c) + (if job_status c AND (UNINITIALIZED OR RUNNING_JOB) \<noteq> 0 then 1 else 0)"
  "job_status (rt_handle now JOB_ALARM_HANDLE c) = UNINITIALIZED"
  by (simp_all add: rt_handle_def Let_def event_defs)

lemmas rt_handle_events = rt_handle_start rt_handle_retreat rt_handle_dispatch rt_handle_finish rt_handle_alarm


section \<open>Earliest deadline first\<close>

lemma edf_release_priority:
  assumes "periodic c" "uint (now 13) + uint (rt_deadline c) < 2 ^ 31"
  shows "priority (edf_handle now JOB_RELEASE c) = uint (now 13) + uint (rt_deadline c)"
proof -
  have "uint (now 13 + rt_deadline c) = uint (now 13) + uint (rt_deadline c)"
    using assms(2) by (subst uint_add_lem [THEN iffD1]) simp_all
  then show ?thesis using assms by (simp add: edf_handle_def Let_def int_of_tick_small event_defs)
qed

text \<open>
  The rank of a periodic thread with absolute deadline \<open>D\<close>: that of its last release, or that of its creation with a relative deadline
  of its own. \<open>D\<close> is in the range of the priorities of periodic threads, so that the thread is still periodic at its next release.
\<close>

definition edf_job :: "int \<Rightarrow> int \<Rightarrow> bool" where
  "edf_job r D \<longleftrightarrow> D \<le> NORMAL \<and>
     ((\<exists>now c. periodic c \<and> D = uint (now 13) + uint (rt_deadline c) \<and> r = priority (edf_handle now JOB_RELEASE c)) \<or>
      (\<exists>now ticks junk p d c. d \<noteq> 0 \<and> D = uint (now 0 :: ulong) + uint (ticks d :: ulong) \<and> r = priority (edf_new now ticks junk p d c)))"

lemma edf_new_priority:
  assumes "uint (now 0) + uint (ticks d) < 2 ^ 31"
  shows "priority (edf_new now ticks junk p d c) = uint (now 0) + uint (ticks d)"
proof -
  have "uint (now 0 + ticks d) = uint (now 0) + uint (ticks d)" using assms by (subst uint_add_lem [THEN iffD1]) simp_all
  then show ?thesis using assms by (simp add: edf_new_def rt_new_def int_of_tick_small)
qed

lemma edf_job_rank:
  assumes "edf_job r D"
  shows "r = D" "0 \<le> D" "D < APERIODIC"
proof -
  have n: "D \<le> 2 ^ 29 - 1" using assms by (simp add: edf_job_def NORMAL_def)
  then have D: "D < 2 ^ 31" by simp
  show "r = D" using assms D edf_release_priority edf_new_priority unfolding edf_job_def by auto
  show "0 \<le> D" using assms by (auto simp: edf_job_def)
  show "D < APERIODIC" using n by (simp add: APERIODIC_def LOW_def)
qed


text \<open>
  Time is not bounded by the range of the priorities: the first release whose absolute deadline exceeds \<open>NORMAL\<close>
  (\<open>2\<^sup>2\<^sup>9 - 1\<close> ticks, nine minutes at 1 MHz) makes the thread aperiodic, and whatever happens to it afterwards,
  its priority is frozen and no release is counted any more.
\<close>

theorem edf_freezes:
  assumes "periodic c" "NORMAL < uint (now 13) + uint (rt_deadline c)" "uint (now 13) + uint (rt_deadline c) < 2 ^ 31"
  defines "c' \<equiv> edf_handle now JOB_RELEASE c"
  shows "priority (fold (\<lambda>(now, e). edf_handle now e) evs c') = uint (now 13) + uint (rt_deadline c) \<and>
    jobs_released (rt_statistics (fold (\<lambda>(now, e). edf_handle now e) evs c')) = jobs_released (rt_statistics c')"
proof -
  have p: "priority c' = uint (now 13) + uint (rt_deadline c)" using edf_release_priority assms by simp
  then have np: "\<not> periodic c'" using assms(2) by (simp add: periodic_def SPORADIC_def)
  have "priority (fold (\<lambda>(now, e). edf_handle now e) evs x) = priority x \<and>
    jobs_released (rt_statistics (fold (\<lambda>(now, e). edf_handle now e) evs x)) = jobs_released (rt_statistics x)"
    if "\<not> periodic x" for x
    using that
  proof (induction evs arbitrary: x)
    case (Cons ev evs)
    obtain w e where ev: "ev = (w, e)" by fastforce
    have "jobs_released (rt_statistics (rt_handle w e x)) = jobs_released (rt_statistics x)"
      by (rule rt_handle_uncounted [OF Cons.prems])
    then show ?case using Cons.IH [of "rt_handle w e x"] Cons.prems by (simp add: ev edf_handle_not_periodic)
  qed simp
  then show ?thesis using np p by simp
qed

section \<open>Accounting of jobs\<close>

text \<open>The lengths of the intervals in which a job ran: it left the CPU at each \<open>r\<close> and came back at \<open>d\<close>.\<close>

fun blocks :: "ulong \<Rightarrow> (ulong \<times> ulong) list \<Rightarrow> ulong \<Rightarrow> ulong" where
  "blocks t [] f = f - t"
| "blocks t ((r, d) # ps) f = (r - t) + blocks d ps f"

text \<open>A job that is preempted and dispatched again, with the clocks of each handler.\<close>

definition preempted :: "((nat \<Rightarrow> ulong) \<times> (nat \<Rightarrow> ulong)) list \<Rightarrow> rt_criterion \<Rightarrow> rt_criterion" where
  "preempted ps = fold (\<lambda>(r, d) c. rt_handle d DISPATCH (rt_handle r RETREAT c)) ps"

lemma preempted_statistics:
  fixes c :: rt_criterion and ps :: "((nat \<Rightarrow> ulong) \<times> (nat \<Rightarrow> ulong)) list"
  defines "s \<equiv> rt_statistics c" and "s' \<equiv> rt_statistics (preempted ps c)"
  shows "f - job_execution_block_initial_time s' + job_partial_utilization s' =
      job_partial_utilization s + blocks (job_execution_block_initial_time s) (map (\<lambda>(r, d). (r 5, d 7)) ps) f \<and>
    deadline_misses s' = deadline_misses s \<and> job_status (preempted ps c) = job_status c"
  unfolding s_def s'_def
proof (induction ps arbitrary: c)
  case (Cons p ps)
  obtain r d where p: "p = (r, d)" by fastforce
  show ?case using Cons.IH [of "rt_handle d DISPATCH (rt_handle r RETREAT c)"]
    by (simp add: p preempted_def rt_handle_events)
qed (simp add: preempted_def)

text \<open>
  However often a job is preempted, its utilisation is the time it spent on the CPU; the alarm of the next
  period counts a missed deadline exactly when the job has not finished.
\<close>

theorem job_accounted:
  fixes c :: rt_criterion and ps :: "((nat \<Rightarrow> ulong) \<times> (nat \<Rightarrow> ulong)) list" and st :: "nat \<Rightarrow> ulong"
  defines "c1 \<equiv> preempted ps (rt_handle st JOB_EXECUTION_START c)"
  shows "job_utilization (rt_statistics (rt_handle f JOB_EXECUTION_FINISH c1)) = blocks (st 8) (map (\<lambda>(r, d). (r 5, d 7)) ps) (f 10) \<and>
    deadline_misses (rt_statistics (rt_handle al JOB_ALARM_HANDLE (rt_handle f JOB_EXECUTION_FINISH c1))) = deadline_misses (rt_statistics c) \<and>
    deadline_misses (rt_statistics (rt_handle al JOB_ALARM_HANDLE c1)) = deadline_misses (rt_statistics c) + 1"
proof -
  have "UNINITIALIZED OR RUNNING_JOB = 3" "RUNNING_JOB AND 3 \<noteq> 0" "FINISHED AND 3 = 0" by (simp_all add: event_defs)
  then show ?thesis
    using preempted_statistics [of "f 10" ps "rt_handle st JOB_EXECUTION_START c"] unfolding c1_def
    by (simp add: rt_handle_events)
qed

section \<open>Queues and heads\<close>

lemma next_queue_less: "0 < n \<Longrightarrow> next_queue n q < n"
  by (simp add: next_queue_def word_mod_less_divisor)



section \<open>Witnesses\<close>

definition sample_job :: rt_criterion where
  "sample_job = (rt_aperiodic 5)\<lparr>rt_deadline := 100\<rparr>"

lemma sample_job_simps: "periodic sample_job" "rt_deadline sample_job = 100"
  by (simp_all add: sample_job_def rt_aperiodic_def periodic_def range_defs)

text \<open>Two jobs, released at 50 and 10 with the same relative deadline: the second waits in the queue, with the idle thread behind it.\<close>

definition edf_store :: "delem_scheduling store" where
  "edf_store = [0x10 \<mapsto> \<lparr>obj = 1, nxt = 0, prv = 0, rank = 150, squeue = 0\<rparr>, 0x20 \<mapsto> \<lparr>obj = 2, nxt = 0x30, prv = 0, rank = 110, squeue = 0\<rparr>,
     0x30 \<mapsto> \<lparr>obj = 3, nxt = 0, prv = 0x20, rank = IDLE, squeue = 0\<rparr>]"


theorem edf_freezes_witness:
  "priority (fold (\<lambda>(now, e). edf_handle now e) [(\<lambda>i. 600000000, JOB_RELEASE)] (edf_handle (\<lambda>i. 540000000) JOB_RELEASE sample_job)) = 540000100"
  using edf_freezes [of sample_job "\<lambda>i. 540000000" "[(\<lambda>i. 600000000, JOB_RELEASE)]"] by (simp add: sample_job_simps NORMAL_def)


end
