(* ===== verification/Strings.thy ===== *)
theory Strings
  imports Prelude
begin

unbundle bit_operations_syntax

text \<open>
  The memory and string routines of \<open>src/utility/string.cc\<close> for a little-endian LP64 machine: \<open>sizeof(long)\<close> is 8,
  \<open>char\<close> is unsigned, and memory is a function from addresses to bytes. Each loop is a function of its own. Loops that
  are bounded by a length terminate; those that look for the end of a string need not, and give \<open>None\<close> then.
\<close>

type_synonym bytes = "addr \<Rightarrow> byte"

section \<open>Words in memory\<close>

fun word_of_bytes :: "byte list \<Rightarrow> ulong" where
  "word_of_bytes [] = 0"
| "word_of_bytes (b # bs) = ucast b OR push_bit 8 (word_of_bytes bs)"

definition load64 :: "bytes \<Rightarrow> addr \<Rightarrow> ulong" where
  "load64 m p = word_of_bytes (map (\<lambda>i. m (p + of_nat i)) [0..<8])"

definition store64 :: "addr \<Rightarrow> ulong \<Rightarrow> bytes \<Rightarrow> bytes" where
  "store64 p w m = (\<lambda>a. if unat (a - p) < 8 then ucast (drop_bit (8 * unat (a - p)) w) else m a)"

definition aligned :: "addr \<Rightarrow> bool" where
  "aligned p \<longleftrightarrow> p AND 7 = 0"

text \<open>\<open>((w) - 0x01010101) & ~(w) & 0x80808080\<close>, with the operands promoted to 64 bits.\<close>

definition zero_test :: "ulong \<Rightarrow> bool" where
  "zero_test w \<longleftrightarrow> (w - 0x01010101) AND NOT w AND 0x80808080 \<noteq> 0"

lemma unat_sub_less [termination_simp]: "k \<le> n \<Longrightarrow> 0 < k \<Longrightarrow> unat (n - k) < unat n" for k n :: ulong
  by (metis diff_less unat_gt_0 unat_sub word_gt_0 word_le_nat_alt order.strict_trans2 unat_0)

lemma unat_pred_less [termination_simp]: "n \<noteq> 0 \<Longrightarrow> unat (n - 1) < unat n" for n :: ulong
  by (simp add: unat_minus_one unat_gt_0)

section \<open>memcmp\<close>

function memcmp_words :: "bytes \<Rightarrow> addr \<Rightarrow> addr \<Rightarrow> ulong \<Rightarrow> addr \<times> addr \<times> ulong" where
  "memcmp_words m a1 a2 n =
     (if 8 \<le> n \<and> load64 m a1 = load64 m a2 then memcmp_words m (a1 + 8) (a2 + 8) (n - 8) else (a1, a2, n))"
  by pat_completeness auto
termination by (relation "measure (\<lambda>(m, a1, a2, n). unat n)") (auto simp: termination_simp)

function memcmp_bytes :: "bytes \<Rightarrow> addr \<Rightarrow> addr \<Rightarrow> ulong \<Rightarrow> int" where
  "memcmp_bytes m s1 s2 n =
     (if n = 0 then 0
      else if m s1 \<noteq> m s2 then uint (m s1) - uint (m s2)
      else memcmp_bytes m (s1 + 1) (s2 + 1) (n - 1))"
  by pat_completeness auto
termination by (relation "measure (\<lambda>(m, s1, s2, n). unat n)") (auto simp: termination_simp)

declare memcmp_words.simps [simp del] memcmp_bytes.simps [simp del]

definition memcmp :: "bytes \<Rightarrow> addr \<Rightarrow> addr \<Rightarrow> ulong \<Rightarrow> int" where
  "memcmp m m1 m2 n =
     (let (s1, s2, n) = (if \<not> n < 8 \<and> aligned m1 \<and> aligned m2 then memcmp_words m m1 m2 n else (m1, m2, n))
      in memcmp_bytes m s1 s2 n)"

section \<open>memcpy\<close>

definition copy_word :: "bytes \<times> addr \<times> addr \<Rightarrow> bytes \<times> addr \<times> addr" where
  "copy_word = (\<lambda>(m, d, s). (store64 d (load64 m s) m, d + 8, s + 8))"

function memcpy_blocks :: "bytes \<times> addr \<times> addr \<Rightarrow> ulong \<Rightarrow> (bytes \<times> addr \<times> addr) \<times> ulong" where
  "memcpy_blocks c len =
     (if 32 \<le> len then memcpy_blocks (copy_word (copy_word (copy_word (copy_word c)))) (len - 32) else (c, len))"
  by pat_completeness auto
termination by (relation "measure (\<lambda>(c, len). unat len)") (auto simp: termination_simp)

function memcpy_words :: "bytes \<times> addr \<times> addr \<Rightarrow> ulong \<Rightarrow> (bytes \<times> addr \<times> addr) \<times> ulong" where
  "memcpy_words c len = (if 8 \<le> len then memcpy_words (copy_word c) (len - 8) else (c, len))"
  by pat_completeness auto
termination by (relation "measure (\<lambda>(c, len). unat len)") (auto simp: termination_simp)

function memcpy_bytes :: "bytes \<times> addr \<times> addr \<Rightarrow> ulong \<Rightarrow> bytes \<times> addr \<times> addr" where
  "memcpy_bytes c len =
     (if len = 0 then c else case c of (m, d, s) \<Rightarrow> memcpy_bytes (m(d := m s), d + 1, s + 1) (len - 1))"
  by pat_completeness auto
termination by (relation "measure (\<lambda>(c, len). unat len)") (auto simp: termination_simp)

declare memcpy_blocks.simps [simp del] memcpy_words.simps [simp del] memcpy_bytes.simps [simp del]

definition memcpy :: "addr \<Rightarrow> addr \<Rightarrow> ulong \<Rightarrow> bytes \<Rightarrow> bytes" where
  "memcpy dst src len m =
     (let (c, len) = (if \<not> len < 32 \<and> aligned src \<and> aligned dst
                      then (let (c, len) = memcpy_blocks (m, dst, src) len in memcpy_words c len)
                      else ((m, dst, src), len))
      in fst (memcpy_bytes c len))"

section \<open>memchr\<close>

function memchr_align :: "bytes \<Rightarrow> byte \<Rightarrow> addr \<Rightarrow> ulong \<Rightarrow> addr + addr \<times> ulong" where
  "memchr_align m d src len =
     (if \<not> aligned src
      then if len = 0 then Inl 0 else if m src = d then Inl src else memchr_align m d (src + 1) (len - 1)
      else Inr (src, len))"
  by pat_completeness auto
termination by (relation "measure (\<lambda>(m, d, src, len). unat len)") (auto simp: termination_simp)

definition memchr_mask :: "byte \<Rightarrow> ulong" where
  "memchr_mask d =
     (let msk = push_bit 8 (ucast d) OR ucast d;
          msk = push_bit 16 msk OR msk
      in push_bit 32 msk OR msk)"

function memchr_words :: "bytes \<Rightarrow> ulong \<Rightarrow> addr \<Rightarrow> ulong \<Rightarrow> addr \<times> ulong" where
  "memchr_words m msk src len =
     (if 8 \<le> len \<and> \<not> zero_test (load64 m src XOR msk) then memchr_words m msk (src + 8) (len - 8) else (src, len))"
  by pat_completeness auto
termination by (relation "measure (\<lambda>(m, msk, src, len). unat len)") (auto simp: termination_simp)

function memchr_bytes :: "bytes \<Rightarrow> byte \<Rightarrow> addr \<Rightarrow> ulong \<Rightarrow> addr" where
  "memchr_bytes m d src len =
     (if len = 0 then 0 else if m src = d then src else memchr_bytes m d (src + 1) (len - 1))"
  by pat_completeness auto
termination by (relation "measure (\<lambda>(m, d, src, len). unat len)") (auto simp: termination_simp)

declare memchr_align.simps [simp del] memchr_words.simps [simp del] memchr_bytes.simps [simp del]

definition memchr :: "bytes \<Rightarrow> addr \<Rightarrow> uint \<Rightarrow> ulong \<Rightarrow> addr" where
  "memchr m src c len =
     (let d = ucast c
      in case memchr_align m d src len of
           Inl r \<Rightarrow> r
         | Inr (src, len) \<Rightarrow>
             let (src, len) = (if \<not> len < 8 then memchr_words m (memchr_mask d) src len else (src, len))
             in memchr_bytes m d src len)"

section \<open>memset\<close>

function memset_align :: "byte \<Rightarrow> bytes \<Rightarrow> addr \<Rightarrow> ulong \<Rightarrow> bytes + bytes \<times> addr \<times> ulong" where
  "memset_align c m s n =
     (if \<not> aligned s then if n \<noteq> 0 then memset_align c (m(s := c)) (s + 1) (n - 1) else Inl m
      else Inr (m, s, n))"
  by pat_completeness auto
termination by (relation "measure (\<lambda>(c, m, s, n). unat n)") (auto simp: termination_simp)

definition memset_buffer :: "uint \<Rightarrow> ulong" where
  "memset_buffer d =
     (let buffer = ucast (push_bit 8 d OR d);
          buffer = buffer OR push_bit 16 buffer
      in push_bit 32 buffer OR buffer)"

definition fill_word :: "ulong \<Rightarrow> bytes \<times> addr \<Rightarrow> bytes \<times> addr" where
  "fill_word buffer = (\<lambda>(m, s). (store64 s buffer m, s + 8))"

function memset_blocks :: "ulong \<Rightarrow> bytes \<times> addr \<Rightarrow> ulong \<Rightarrow> (bytes \<times> addr) \<times> ulong" where
  "memset_blocks b c n =
     (if 32 \<le> n then memset_blocks b (fill_word b (fill_word b (fill_word b (fill_word b c)))) (n - 32) else (c, n))"
  by pat_completeness auto
termination by (relation "measure (\<lambda>(b, c, n). unat n)") (auto simp: termination_simp)

function memset_words :: "ulong \<Rightarrow> bytes \<times> addr \<Rightarrow> ulong \<Rightarrow> (bytes \<times> addr) \<times> ulong" where
  "memset_words b c n = (if 8 \<le> n then memset_words b (fill_word b c) (n - 8) else (c, n))"
  by pat_completeness auto
termination by (relation "measure (\<lambda>(b, c, n). unat n)") (auto simp: termination_simp)

function memset_bytes :: "byte \<Rightarrow> bytes \<times> addr \<Rightarrow> ulong \<Rightarrow> bytes \<times> addr" where
  "memset_bytes c x n = (if n = 0 then x else case x of (m, s) \<Rightarrow> memset_bytes c (m(s := c), s + 1) (n - 1))"
  by pat_completeness auto
termination by (relation "measure (\<lambda>(c, x, n). unat n)") (auto simp: termination_simp)

declare memset_align.simps [simp del] memset_blocks.simps [simp del] memset_words.simps [simp del] memset_bytes.simps [simp del]

definition memset :: "addr \<Rightarrow> uint \<Rightarrow> ulong \<Rightarrow> bytes \<Rightarrow> bytes" where
  "memset p c n m =
     (case memset_align (ucast c) m p n of
        Inl m \<Rightarrow> m
      | Inr (m, s, n) \<Rightarrow>
          let (x, n) = (if \<not> n < 8
                        then (let b = memset_buffer (c AND 0xff); (x, n) = memset_blocks b (m, s) n in memset_words b x n)
                        else ((m, s), n))
          in fst (memset_bytes (ucast c) x n))"


section \<open>strlen and strcat\<close>

partial_function (option) strlen_align :: "bytes \<Rightarrow> addr \<Rightarrow> (addr + addr) option" where
  "strlen_align m s =
     (if \<not> aligned s then if m s = 0 then Some (Inl s) else strlen_align m (s + 1) else Some (Inr s))"

partial_function (option) strlen_words :: "bytes \<Rightarrow> addr \<Rightarrow> addr option" where
  "strlen_words m s = (if \<not> zero_test (load64 m s) then strlen_words m (s + 8) else Some s)"

partial_function (option) strlen_bytes :: "bytes \<Rightarrow> addr \<Rightarrow> addr option" where
  "strlen_bytes m s = (if m s \<noteq> 0 then strlen_bytes m (s + 1) else Some s)"

definition strlen :: "bytes \<Rightarrow> addr \<Rightarrow> ulong option" where
  "strlen m str = do {
     r \<leftarrow> strlen_align m str;
     case r of
       Inl s \<Rightarrow> Some (s - str)
     | Inr s \<Rightarrow> do { s \<leftarrow> strlen_words m s; s \<leftarrow> strlen_bytes m s; Some (s - str) } }"

section \<open>strcmp and strncmp\<close>

partial_function (option) strcmp_words :: "bytes \<Rightarrow> addr \<Rightarrow> addr \<Rightarrow> (addr \<times> addr) option option" where
  "strcmp_words m a1 a2 =
     (if load64 m a1 = load64 m a2
      then if zero_test (load64 m a1) then Some None else strcmp_words m (a1 + 8) (a2 + 8)
      else Some (Some (a1, a2)))"

partial_function (option) strcmp_bytes :: "bytes \<Rightarrow> addr \<Rightarrow> addr \<Rightarrow> (addr \<times> addr) option" where
  "strcmp_bytes m s1 s2 = (if m s1 \<noteq> 0 \<and> m s1 = m s2 then strcmp_bytes m (s1 + 1) (s2 + 1) else Some (s1, s2))"

definition strcmp :: "bytes \<Rightarrow> addr \<Rightarrow> addr \<Rightarrow> int option" where
  "strcmp m s1 s2 = do {
     r \<leftarrow> (if aligned s1 \<and> aligned s2 then strcmp_words m s1 s2 else Some (Some (s1, s2)));
     case r of
       None \<Rightarrow> Some 0
     | Some (s1, s2) \<Rightarrow> do { (s1, s2) \<leftarrow> strcmp_bytes m s1 s2; Some (uint (m s1) - uint (m s2)) } }"

function strncmp_words :: "bytes \<Rightarrow> addr \<Rightarrow> addr \<Rightarrow> ulong \<Rightarrow> (addr \<times> addr \<times> ulong) option" where
  "strncmp_words m a1 a2 n =
     (if 8 \<le> n \<and> load64 m a1 = load64 m a2
      then if n - 8 = 0 \<or> zero_test (load64 m a1) then None else strncmp_words m (a1 + 8) (a2 + 8) (n - 8)
      else Some (a1, a2, n))"
  by pat_completeness auto
termination by (relation "measure (\<lambda>(m, a1, a2, n). unat n)") (auto simp: termination_simp)

function strncmp_bytes :: "bytes \<Rightarrow> addr \<Rightarrow> addr \<Rightarrow> ulong \<Rightarrow> int" where
  "strncmp_bytes m s1 s2 n =
     (if n \<noteq> 0 \<and> m s1 = m s2
      then if n - 1 = 0 \<or> m s1 = 0 then 0 else strncmp_bytes m (s1 + 1) (s2 + 1) (n - 1)
      else uint (m s1) - uint (m s2))"
  by pat_completeness auto
termination by (relation "measure (\<lambda>(m, s1, s2, n). unat n)") (auto simp: termination_simp)

declare strncmp_words.simps [simp del] strncmp_bytes.simps [simp del]

definition strncmp :: "bytes \<Rightarrow> addr \<Rightarrow> addr \<Rightarrow> ulong \<Rightarrow> int" where
  "strncmp m s1 s2 n =
     (if n = 0 then 0
      else case (if aligned s1 \<and> aligned s2 then strncmp_words m s1 s2 n else Some (s1, s2, n)) of
             None \<Rightarrow> 0
           | Some (s1, s2, n) \<Rightarrow> strncmp_bytes m s1 s2 n)"

section \<open>strcpy, strncpy and strcat\<close>

partial_function (option) strcpy_words :: "bytes \<times> addr \<times> addr \<Rightarrow> (bytes \<times> addr \<times> addr) option" where
  "strcpy_words c = (case c of (m, d, s) \<Rightarrow> if \<not> zero_test (load64 m s) then strcpy_words (copy_word c) else Some c)"

partial_function (option) strcpy_bytes :: "bytes \<times> addr \<times> addr \<Rightarrow> bytes option" where
  "strcpy_bytes c =
     (case c of (m, d, s) \<Rightarrow> if m s \<noteq> 0 then strcpy_bytes (m(d := m s), d + 1, s + 1) else Some (m(d := m s)))"

definition strcpy :: "addr \<Rightarrow> addr \<Rightarrow> bytes \<Rightarrow> bytes option" where
  "strcpy dst src m = do {
     c \<leftarrow> (if aligned src \<and> aligned dst then strcpy_words (m, dst, src) else Some (m, dst, src));
     strcpy_bytes c }"

function strncpy_words :: "bytes \<times> addr \<times> addr \<Rightarrow> ulong \<Rightarrow> (bytes \<times> addr \<times> addr) \<times> ulong" where
  "strncpy_words c n =
     (if 8 \<le> n \<and> \<not> zero_test (case c of (m, d, s) \<Rightarrow> load64 m s) then strncpy_words (copy_word c) (n - 8) else (c, n))"
  by pat_completeness auto
termination by (relation "measure (\<lambda>(c, n). unat n)") (auto simp: termination_simp)

function strncpy_bytes :: "bytes \<times> addr \<times> addr \<Rightarrow> ulong \<Rightarrow> (bytes \<times> addr) \<times> ulong" where
  "strncpy_bytes c n =
     (case c of (m, d, s) \<Rightarrow>
        if n = 0 then ((m, d), n)
        else if m s = 0 then ((m(d := m s), d + 1), n - 1)
        else strncpy_bytes (m(d := m s), d + 1, s + 1) (n - 1))"
  by pat_completeness auto
termination by (relation "measure (\<lambda>(c, n). unat n)") (auto simp: termination_simp)

declare strncpy_words.simps [simp del] strncpy_bytes.simps [simp del]

definition strncpy :: "addr \<Rightarrow> addr \<Rightarrow> ulong \<Rightarrow> bytes \<Rightarrow> bytes" where
  "strncpy dst src n m =
     (let (c, n) = (if aligned src \<and> aligned dst \<and> \<not> n < 8 then strncpy_words (m, dst, src) n else ((m, dst, src), n));
          (x, n) = strncpy_bytes c n
      in fst (memset_bytes 0 x n))"

definition strcat :: "addr \<Rightarrow> addr \<Rightarrow> bytes \<Rightarrow> bytes option" where
  "strcat dst src m = do { dst_len \<leftarrow> strlen m dst; strcpy (dst + dst_len) src m }"

section \<open>strchr and strrchr\<close>

partial_function (option) strchr_align :: "bytes \<Rightarrow> byte \<Rightarrow> addr \<Rightarrow> (addr + addr) option" where
  "strchr_align m c s =
     (if \<not> aligned s then if m s = 0 then Some (Inl 0) else if m s = c then Some (Inl s) else strchr_align m c (s + 1)
      else Some (Inr s))"

definition strchr_mask :: "byte \<Rightarrow> ulong" where
  "strchr_mask c =
     (let msk = ucast c;
          msk = push_bit 8 msk OR msk;
          msk = push_bit 16 msk OR msk
      in push_bit 32 msk OR msk)"

partial_function (option) strchr_words :: "bytes \<Rightarrow> ulong \<Rightarrow> addr \<Rightarrow> addr option" where
  "strchr_words m msk s =
     (if \<not> zero_test (load64 m s) \<and> \<not> zero_test (load64 m s XOR msk) then strchr_words m msk (s + 8) else Some s)"

partial_function (option) strchr_bytes :: "bytes \<Rightarrow> byte \<Rightarrow> addr \<Rightarrow> addr option" where
  "strchr_bytes m c s = (if m s \<noteq> 0 \<and> m s \<noteq> c then strchr_bytes m c (s + 1) else Some (if m s = c then s else 0))"

definition strchr :: "bytes \<Rightarrow> addr \<Rightarrow> uint \<Rightarrow> addr option" where
  "strchr m s i =
     (let c = ucast i :: byte
      in if c = 0 then do {
           r \<leftarrow> strlen_align m s;
           case r of Inl s \<Rightarrow> Some s | Inr s \<Rightarrow> do { s \<leftarrow> strlen_words m s; strlen_bytes m s } }
         else do {
           r \<leftarrow> strchr_align m c s;
           case r of Inl s \<Rightarrow> Some s | Inr s \<Rightarrow> do { s \<leftarrow> strchr_words m (strchr_mask c) s; strchr_bytes m c s } })"

partial_function (option) strrchr_loop :: "bytes \<Rightarrow> addr \<Rightarrow> uint \<Rightarrow> addr \<Rightarrow> addr option" where
  "strrchr_loop m s c rtnval =
     (let rtnval = (if ucast (m s) = c then s else rtnval)
      in if m s \<noteq> 0 then strrchr_loop m (s + 1) c rtnval else Some rtnval)"

definition strrchr :: "bytes \<Rightarrow> addr \<Rightarrow> uint \<Rightarrow> addr option" where
  "strrchr m s c = strrchr_loop m s c 0"

section \<open>Numbers\<close>

text \<open>Overflow of \<open>long\<close> is undefined; \<open>atol\<close> is modelled on unbounded integers.\<close>

partial_function (option) atol_loop :: "bytes \<Rightarrow> addr \<Rightarrow> int \<Rightarrow> int option" where
  "atol_loop m s ret = (if 48 \<le> m s \<and> m s \<le> 57 then atol_loop m (s + 1) (ret * 10 + uint (m s) - 48) else Some ret)"

definition atol :: "bytes \<Rightarrow> addr \<Rightarrow> int option" where
  "atol m s = do {
     let neg = m s = 45;
     ret \<leftarrow> atol_loop m (if neg then s + 1 else s) 0;
     Some (if neg then - ret else ret) }"

function itoa_digits :: "uint \<Rightarrow> byte list \<Rightarrow> byte list" where
  "itoa_digits v buffer = (if v = 0 then buffer else itoa_digits (v div 10) (buffer @ [ucast (v mod 10) + 48]))"
  by pat_completeness auto
termination by (relation "measure (\<lambda>(v, buffer). unat v)") (auto simp: unat_div div_less_dividend unat_gt_0)

declare itoa_digits.simps [simp del]

fun write_bytes :: "addr \<Rightarrow> byte list \<Rightarrow> bytes \<Rightarrow> bytes" where
  "write_bytes s [] m = m"
| "write_bytes s (b # bs) m = write_bytes (s + 1) bs (m(s := b))"

text \<open>The buffer of digits is a local array; the digits are copied to the string last to first, and terminated.\<close>

definition itoa :: "int \<Rightarrow> addr \<Rightarrow> bytes \<Rightarrow> bytes" where
  "itoa value str m =
     (let (m, s, v) = (if value < 0 then (m(str := 45), str + 1, word_of_int (- value))
                       else if value = 0 then (m(str := 48), str + 1, word_of_int value)
                       else (m, str, word_of_int value));
          buf = itoa_digits v []
      in write_bytes s (rev buf @ [0]) m)"

function utoa_count :: "ulong \<Rightarrow> nat \<Rightarrow> nat" where
  "utoa_count j i = (if j \<noteq> 0 then utoa_count (j div 10) (i + 1) else i)"
  by pat_completeness auto
termination by (relation "measure (\<lambda>(j, i). unat j)") (auto simp: unat_div div_less_dividend unat_gt_0)

function utoa_write :: "ulong \<Rightarrow> nat \<Rightarrow> nat \<Rightarrow> addr \<Rightarrow> bytes \<Rightarrow> bytes" where
  "utoa_write v i j dst m =
     (if v \<noteq> 0 then utoa_write (v div 10) i (j + 1) dst (m(dst + (of_nat i - 1 - of_nat j) := ucast (v mod 10) + 48)) else m)"
  by pat_completeness auto
termination by (relation "measure (\<lambda>(v, i, j, dst, m). unat v)") (auto simp: unat_div div_less_dividend unat_gt_0)

declare utoa_count.simps [simp del] utoa_write.simps [simp del]

definition utoa :: "ulong \<Rightarrow> addr \<Rightarrow> bytes \<Rightarrow> bytes \<times> nat" where
  "utoa v dst m =
     (let (m, i) = (if v = 0 then (m(dst := 48), 1) else (m, 0));
          i = utoa_count v i
      in (utoa_write v i 0 dst m, i))"

text \<open>\<open>atoi\<close> computes in 32 bits.\<close>

partial_function (option) atoi_loop :: "bytes \<Rightarrow> addr \<Rightarrow> uint \<Rightarrow> uint option" where
  "atoi_loop m s i = (if m s \<noteq> 0 then atoi_loop m (s + 1) (push_bit 3 i + push_bit 1 i + (ucast (m s) - 48)) else Some i)"

definition atoi :: "bytes \<Rightarrow> addr \<Rightarrow> int option" where
  "atoi m s = map_option sint (atoi_loop m s 0)"

end
