(* ===== verification/Strings_Properties.thy ===== *)
theory Strings_Properties
  imports Strings
begin

unbundle bit_operations_syntax

text \<open>
  What the routines on memory and strings do, byte by byte: the copies, fills and comparisons by words agree with
  byte-wise definitions, and the test for the end of a string looks only at the lower half of a 64-bit word.
\<close>

section \<open>Bytes of words\<close>

lemma unat_bound: "unat (n :: ulong) < 2 ^ 64"
proof -
  have "unat n < 2 ^ LENGTH(64)" by (rule unsigned_less)
  then show ?thesis by simp
qed

lemma bit_word_of_bytes:
  "bit (word_of_bytes bs) n \<longleftrightarrow> n < 64 \<and> n div 8 < length bs \<and> bit (bs ! (n div 8)) (n mod 8)"
proof (induction bs arbitrary: n)
  case (Cons b bs)
  show ?case
  proof (cases "n < 8")
    case True
    then show ?thesis by (simp add: bit_simps)
  next
    case False
    then obtain k where k: "n = k + 8" by (metis add.commute le_add_diff_inverse2 not_less)
    have k8: "(k + 8) div 8 = Suc (k div 8)" "(k + 8) mod 8 = k mod 8" by simp_all
    have "\<not> bit b (k + 8)" using bit_imp_le_length [of b "k + 8"] by auto
    then show ?thesis using Cons.IH [of k] by (auto simp: bit_simps k k8)
  qed
qed simp

lemma byte_of_load64:
  assumes "i < 8"
  shows "ucast (drop_bit (8 * i) (load64 m p)) = m (p + of_nat i)"
proof (rule bit_word_eqI)
  fix n assume n: "n < LENGTH(8)"
  then have "(8 * i + n) div 8 = i" "(8 * i + n) mod 8 = n" "8 * i + n < 64" using assms by auto
  then show "bit (ucast (drop_bit (8 * i) (load64 m p)) :: byte) n = bit (m (p + of_nat i)) n"
    using n assms by (simp add: bit_simps load64_def bit_word_of_bytes)
qed

lemma load64_eqD: "load64 m p = load64 m' q \<Longrightarrow> i < 8 \<Longrightarrow> m (p + of_nat i) = m' (q + of_nat i)"
  by (metis byte_of_load64)

lemma store_load64: "store64 d (load64 m s) m' = (\<lambda>a. if unat (a - d) < 8 then m (s + (a - d)) else m' a)"
  by (rule ext) (simp add: store64_def byte_of_load64)

text \<open>The addresses of the \<open>c\<close> bytes at offset \<open>k\<close> of a region that starts at \<open>d\<close>.\<close>

lemma in_chunk:
  fixes a d :: addr
  assumes "k + c \<le> 2 ^ 64"
  shows "unat (a - (d + of_nat k)) < c \<longleftrightarrow> k \<le> unat (a - d) \<and> unat (a - d) < k + c"
proof (cases "c = 0")
  case False
  then have k: "k < 2 ^ 64" using assms by simp
  then have uk: "unat (of_nat k :: addr) = k" by (simp add: unsigned_of_nat take_bit_nat_eq_self)
  define w where "w = a - d"
  have e: "a - (d + of_nat k) = w - of_nat k" by (simp add: w_def)
  show ?thesis
  proof (cases "k \<le> unat w")
    case True
    then have "unat (w - of_nat k) = unat w - k" using uk by (simp add: unat_sub word_le_nat_alt)
    then show ?thesis using True unfolding e by (auto simp: w_def)
  next
    case False
    then have "unat (w - of_nat k) = 2 ^ 64 + unat w - k"
      using uk k by (simp add: unat_sub_if_size word_size)
    then show ?thesis using False assms unfolding e by (auto simp: w_def)
  qed
qed (use assms in simp)

section \<open>memcpy\<close>

definition copied :: "addr \<Rightarrow> addr \<Rightarrow> nat \<Rightarrow> bytes \<Rightarrow> bytes" where
  "copied d s k m = (\<lambda>a. if unat (a - d) < k then m (s + (a - d)) else m a)"

definition disjoint_regions :: "addr \<Rightarrow> addr \<Rightarrow> nat \<Rightarrow> bool" where
  "disjoint_regions d s n \<longleftrightarrow> (\<forall>i < n. \<forall>j < n. d + of_nat i \<noteq> s + of_nat j)"

lemma copied_chunk:
  assumes "disjoint_regions d s n" "k + c \<le> n" "n \<le> 2 ^ 64"
  shows "(\<lambda>a. if unat (a - (d + of_nat k)) < c then copied d s k m (s + of_nat k + (a - (d + of_nat k))) else copied d s k m a) =
    copied d s (k + c) m"
proof
  fix a
  have "copied d s k m (s + (a - d)) = m (s + (a - d))" if "unat (a - d) < k + c"
  proof -
    have "unat (s + (a - d) - d) \<ge> k"
    proof (rule ccontr)
      assume "\<not> ?thesis"
      moreover have "d + of_nat (unat (s + (a - d) - d)) = s + of_nat (unat (a - d))" by simp
      ultimately show False using assms(1,2) that unfolding disjoint_regions_def
        by (metis (no_types, opaque_lifting) le_trans less_le_trans not_less le_add1)
    qed
    then show ?thesis by (simp add: copied_def)
  qed
  moreover have "s + of_nat k + (a - (d + of_nat k)) = s + (a - d)" by simp
  ultimately show "(if unat (a - (d + of_nat k)) < c then copied d s k m (s + of_nat k + (a - (d + of_nat k))) else copied d s k m a) =
    copied d s (k + c) m a"
    using in_chunk [of k c a d] assms by (auto simp: copied_def)
qed

text \<open>The state of the copy after \<open>k\<close> bytes.\<close>

definition copy_at :: "addr \<Rightarrow> addr \<Rightarrow> bytes \<Rightarrow> nat \<Rightarrow> bytes \<times> addr \<times> addr" where
  "copy_at d s m k = (copied d s k m, d + of_nat k, s + of_nat k)"

lemma copy_word_at:
  assumes "disjoint_regions d s n" "k + 8 \<le> n" "n \<le> 2 ^ 64"
  shows "copy_word (copy_at d s m k) = copy_at d s m (k + 8)"
  using copied_chunk [OF assms, of m] by (simp add: copy_word_def copy_at_def store_load64)

lemma copy_blocks_at:
  "disjoint_regions d s n \<Longrightarrow> k + unat len = n \<Longrightarrow> n \<le> 2 ^ 64 \<Longrightarrow>
   \<exists>k' len'. memcpy_blocks (copy_at d s m k) len = (copy_at d s m k', len') \<and> k' + unat len' = n"
proof (induction "unat len" arbitrary: k len rule: less_induct)
  case less
  show ?case
  proof (cases "32 \<le> len")
    case True
    then have u: "unat (len - 32) = unat len - 32" "32 \<le> unat len" by (simp_all add: unat_sub word_le_nat_alt)
    then have "copy_word (copy_word (copy_word (copy_word (copy_at d s m k)))) = copy_at d s m (k + 32)"
      using copy_word_at [OF less.prems(1) _ less.prems(3)] less.prems(2) by (simp add: add.assoc)
    then show ?thesis using less.hyps [of "len - 32" "k + 32"] u less.prems True
      by (simp add: memcpy_blocks.simps [of _ len])
  next
    case False
    then show ?thesis using less.prems by (intro exI [of _ k] exI [of _ len]) (simp add: memcpy_blocks.simps [of _ len])
  qed
qed

lemma copy_words_at:
  "disjoint_regions d s n \<Longrightarrow> k + unat len = n \<Longrightarrow> n \<le> 2 ^ 64 \<Longrightarrow>
   \<exists>k' len'. memcpy_words (copy_at d s m k) len = (copy_at d s m k', len') \<and> k' + unat len' = n"
proof (induction "unat len" arbitrary: k len rule: less_induct)
  case less
  show ?case
  proof (cases "8 \<le> len")
    case True
    then have u: "unat (len - 8) = unat len - 8" "8 \<le> unat len" by (simp_all add: unat_sub word_le_nat_alt)
    then show ?thesis using less.hyps [of "len - 8" "k + 8"] less.prems True copy_word_at [OF less.prems(1), of k m]
      by (simp add: memcpy_words.simps [of _ len])
  next
    case False
    then show ?thesis using less.prems by (intro exI [of _ k] exI [of _ len]) (simp add: memcpy_words.simps [of _ len])
  qed
qed

lemma copy_bytes_at:
  "disjoint_regions d s n \<Longrightarrow> k + unat len = n \<Longrightarrow> n \<le> 2 ^ 64 \<Longrightarrow> memcpy_bytes (copy_at d s m k) len = copy_at d s m n"
proof (induction "unat len" arbitrary: k len rule: less_induct)
  case less
  show ?case
  proof (cases "len = 0")
    case False
    then have u: "unat (len - 1) = unat len - 1" "1 \<le> unat len" by (simp_all add: unat_minus_one unat_gt_0 Suc_leI)
    have "(copied d s k m)(d + of_nat k := copied d s k m (s + of_nat k)) = copied d s (k + 1) m"
    proof
      fix a
      have "(if unat (a - (d + of_nat k)) < 1 then copied d s k m (s + of_nat k + (a - (d + of_nat k))) else copied d s k m a) = copied d s (k + 1) m a"
        using fun_cong [OF copied_chunk [of d s n k 1 m], of a] less.prems u by simp
      then show "((copied d s k m)(d + of_nat k := copied d s k m (s + of_nat k))) a = copied d s (k + 1) m a"
        by (cases "a = d + of_nat k") (simp_all add: unat_eq_0_iff)
    qed
    then show ?thesis using less.hyps [of "len - 1" "k + 1"] less.prems False u
      by (simp add: memcpy_bytes.simps [of _ len] copy_at_def ac_simps)
  qed (use less.prems in \<open>simp add: memcpy_bytes.simps [of _ 0]\<close>)
qed

lemma memcpy_is_copied:
  assumes "disjoint_regions d s (unat len)"
  shows "memcpy d s len m = copied d s (unat len) m"
proof -
  let ?n = "unat len"
  have n: "?n \<le> 2 ^ 64" using less_imp_le [OF unat_bound [of len]] .
  have z: "copy_at d s m 0 = (m, d, s)" by (simp add: copy_at_def copied_def)
  obtain k1 l1 where b: "memcpy_blocks (copy_at d s m 0) len = (copy_at d s m k1, l1)" "k1 + unat l1 = ?n"
    using copy_blocks_at [OF assms _ n, of 0 len m] by auto
  obtain k2 l2 where w: "memcpy_words (copy_at d s m k1) l1 = (copy_at d s m k2, l2)" "k2 + unat l2 = ?n"
    using copy_words_at [OF assms b(2) n, of m] by auto
  have f: "memcpy_bytes (copy_at d s m k2) l2 = copy_at d s m ?n" "memcpy_bytes (copy_at d s m 0) len = copy_at d s m ?n"
    using copy_bytes_at [OF assms _ n] w(2) by simp_all
  show ?thesis using b w f by (auto simp: memcpy_def z copy_at_def [of d s m ?n])
qed


section \<open>memset\<close>

definition filled :: "addr \<Rightarrow> byte \<Rightarrow> nat \<Rightarrow> bytes \<Rightarrow> bytes" where
  "filled p b k m = (\<lambda>a. if unat (a - p) < k then b else m a)"

definition fill_at :: "addr \<Rightarrow> byte \<Rightarrow> bytes \<Rightarrow> nat \<Rightarrow> bytes \<times> addr" where
  "fill_at p b m k = (filled p b k m, p + of_nat k)"

lemma filled_chunk:
  assumes "k + c \<le> 2 ^ 64"
  shows "(\<lambda>a. if unat (a - (p + of_nat k)) < c then b else filled p b k m a) = filled p b (k + c) m"
  using in_chunk [OF assms, of _ p] by (auto simp: filled_def fun_eq_iff)

lemma filled_byte: "k < 2 ^ 64 \<Longrightarrow> (filled p b k m)(p + of_nat k := b) = filled p b (k + 1) m"
  using fun_cong [OF filled_chunk [of k 1 p b m]] by (auto simp: fun_eq_iff unat_eq_0_iff)

text \<open>A word whose bytes are all equal.\<close>

definition repeats :: "byte \<Rightarrow> ulong \<Rightarrow> bool" where
  "repeats b w \<longleftrightarrow> (\<forall>i < 8. ucast (drop_bit (8 * i) w) = b)"

lemma repeatsI:
  assumes "\<And>n. n < 64 \<Longrightarrow> bit w n = bit b (n mod 8)"
  shows "repeats b w"
  unfolding repeats_def
proof (intro allI impI bit_word_eqI)
  fix i n assume "i < (8::nat)" "n < LENGTH(8)"
  then have "8 * i + n < 64" "(8 * i + n) mod 8 = n" by auto
  then show "bit (ucast (drop_bit (8 * i) w) :: byte) n = bit b n"
    using assms [of "8 * i + n"] \<open>n < LENGTH(8)\<close> by (simp add: bit_simps)
qed

text \<open>Doubling the part of a word that is filled.\<close>

lemma bit_double:
  fixes w :: ulong
  assumes "\<And>n. n < 64 \<Longrightarrow> bit w n \<longleftrightarrow> n < k \<and> bit b (n mod 8)" "8 dvd k" "n < 64"
  shows "bit (push_bit k w OR w) n \<longleftrightarrow> n < 2 * k \<and> bit b (n mod 8)"
proof -
  have "(n - k) mod 8 = n mod 8" if "k \<le> n" using that assms(2) by (metis dvd_def le_add_diff_inverse mod_mult_self2 add.commute)
  then show ?thesis using assms(1) [of n] assms(1) [of "n - k"] assms(3) by (auto simp: bit_simps)
qed

lemma bit_ucast_byte: "n < 64 \<Longrightarrow> bit (ucast b :: ulong) n \<longleftrightarrow> n < 8 \<and> bit b (n mod 8)" for b :: byte
  by (cases "n < 8") (auto simp: bit_simps dest: bit_imp_le_length)

lemma repeats_doubled:
  assumes "\<And>n. n < 64 \<Longrightarrow> bit w n \<longleftrightarrow> n < 16 \<and> bit b (n mod 8)"
  shows "repeats b (push_bit 32 (push_bit 16 w OR w) OR (push_bit 16 w OR w))"
  using bit_double [OF bit_double [OF assms]] by (intro repeatsI) simp

lemma memchr_mask_repeats: "repeats d (memchr_mask d)"
  unfolding memchr_mask_def Let_def by (rule repeats_doubled) (use bit_double [OF bit_ucast_byte] in simp)

lemma memset_buffer_repeats: "repeats (ucast c) (memset_buffer (c AND 0xff))"
proof -
  have "bit (ucast (push_bit 8 (c AND 0xff) OR (c AND 0xff)) :: ulong) n \<longleftrightarrow> n < 16 \<and> bit (ucast c :: byte) (n mod 8)" if "n < 64" for n
  proof -
    have ff: "(0xff :: uint) = mask 8" by (simp add: mask_eq_exp_minus_1)
    have "n mod 8 = (if n < 8 then n else n - 8)" if "n < 16" using that by (simp add: mod_if)
    then show ?thesis using that unfolding ff by (auto simp: bit_simps split: if_splits dest: bit_imp_le_length)
  qed
  from repeats_doubled [OF this] show ?thesis by (simp add: memset_buffer_def Let_def or.commute)
qed

lemma fill_word_at:
  assumes "repeats b w" "k + 8 \<le> 2 ^ 64"
  shows "fill_word w (fill_at p b m k) = fill_at p b m (k + 8)"
  using filled_chunk [OF assms(2), of p b m] assms(1)
  by (simp add: fill_word_def fill_at_def store64_def repeats_def cong: if_cong)

lemma fill_blocks_at:
  "repeats b w \<Longrightarrow> k + unat len = n \<Longrightarrow> n \<le> 2 ^ 64 \<Longrightarrow>
   \<exists>k' len'. memset_blocks w (fill_at p b m k) len = (fill_at p b m k', len') \<and> k' + unat len' = n"
proof (induction "unat len" arbitrary: k len rule: less_induct)
  case less
  show ?case
  proof (cases "32 \<le> len")
    case True
    then have u: "unat (len - 32) = unat len - 32" "32 \<le> unat len" by (simp_all add: unat_sub word_le_nat_alt)
    then have "fill_word w (fill_word w (fill_word w (fill_word w (fill_at p b m k)))) = fill_at p b m (k + 32)"
      using fill_word_at [OF less.prems(1)] less.prems(2,3) by (simp add: add.assoc)
    then show ?thesis using less.hyps [of "len - 32" "k + 32"] u less.prems True
      by (simp add: memset_blocks.simps [of _ _ len])
  next
    case False
    then show ?thesis using less.prems by (intro exI [of _ k] exI [of _ len]) (simp add: memset_blocks.simps [of _ _ len])
  qed
qed

lemma fill_words_at:
  "repeats b w \<Longrightarrow> k + unat len = n \<Longrightarrow> n \<le> 2 ^ 64 \<Longrightarrow>
   \<exists>k' len'. memset_words w (fill_at p b m k) len = (fill_at p b m k', len') \<and> k' + unat len' = n"
proof (induction "unat len" arbitrary: k len rule: less_induct)
  case less
  show ?case
  proof (cases "8 \<le> len")
    case True
    then have u: "unat (len - 8) = unat len - 8" "8 \<le> unat len" by (simp_all add: unat_sub word_le_nat_alt)
    then show ?thesis using less.hyps [of "len - 8" "k + 8"] less.prems True fill_word_at [OF less.prems(1), of k p m]
      by (simp add: memset_words.simps [of _ _ len])
  next
    case False
    then show ?thesis using less.prems by (intro exI [of _ k] exI [of _ len]) (simp add: memset_words.simps [of _ _ len])
  qed
qed

lemma fill_bytes_at:
  "k + unat len = n \<Longrightarrow> n \<le> 2 ^ 64 \<Longrightarrow> memset_bytes b (fill_at p b m k) len = fill_at p b m n"
proof (induction "unat len" arbitrary: k len rule: less_induct)
  case less
  show ?case
  proof (cases "len = 0")
    case False
    then have u: "unat (len - 1) = unat len - 1" "1 \<le> unat len" by (simp_all add: unat_minus_one unat_gt_0 Suc_leI)
    then show ?thesis using less.hyps [of "len - 1" "k + 1"] less.prems False filled_byte [of k p b m]
      by (simp add: memset_bytes.simps [of _ _ len] fill_at_def ac_simps)
  qed (use less.prems in \<open>simp add: memset_bytes.simps [of _ _ 0]\<close>)
qed

lemma fill_align_at:
  "k + unat len = n \<Longrightarrow> n \<le> 2 ^ 64 \<Longrightarrow>
   memset_align b (filled p b k m) (p + of_nat k) len = Inl (filled p b n m) \<or>
   (\<exists>k' len'. memset_align b (filled p b k m) (p + of_nat k) len = Inr (filled p b k' m, p + of_nat k', len') \<and> k' + unat len' = n)"
proof (induction "unat len" arbitrary: k len rule: less_induct)
  case less
  show ?case
  proof (cases "aligned (p + of_nat k)")
    case True
    then show ?thesis using less.prems by (intro disjI2 exI [of _ k] exI [of _ len]) (simp add: memset_align.simps [of _ _ _ len])
  next
    case na: False
    show ?thesis
    proof (cases "len = 0")
      case False
      then have u: "unat (len - 1) = unat len - 1" "1 \<le> unat len" by (simp_all add: unat_minus_one unat_gt_0 Suc_leI)
      then show ?thesis using less.hyps [of "len - 1" "k + 1"] less.prems False na filled_byte [of k p b m]
        by (simp add: memset_align.simps [of _ _ _ len] ac_simps)
    qed (use na less.prems in \<open>simp add: memset_align.simps [of _ _ _ 0]\<close>)
  qed
qed

lemma memset_is_filled: "memset p c n m = filled p (ucast c) (unat n) m"
proof -
  let ?n = "unat n" and ?b = "ucast c :: byte"
  have n: "?n \<le> 2 ^ 64" using less_imp_le [OF unat_bound [of n]] .
  have z: "filled p ?b 0 m = m" by (simp add: filled_def)
  consider "memset_align ?b m p n = Inl (filled p ?b ?n m)"
    | k l where "memset_align ?b m p n = Inr (filled p ?b k m, p + of_nat k, l)" "k + unat l = ?n"
    using fill_align_at [of 0 n ?n ?b p m] n z by auto
  then show ?thesis
  proof cases
    case 1
    then show ?thesis by (simp add: memset_def)
  next
    case (2 k l)
    let ?w = "memset_buffer (c AND 0xff)"
    obtain k1 l1 where b: "memset_blocks ?w (fill_at p ?b m k) l = (fill_at p ?b m k1, l1)" "k1 + unat l1 = ?n"
      using fill_blocks_at [OF memset_buffer_repeats 2(2) n, where p = p and m = m and c1 = c] by auto
    obtain k2 l2 where w: "memset_words ?w (fill_at p ?b m k1) l1 = (fill_at p ?b m k2, l2)" "k2 + unat l2 = ?n"
      using fill_words_at [OF memset_buffer_repeats b(2) n, where p = p and m = m and c1 = c] by auto
    have f: "memset_bytes ?b (fill_at p ?b m k2) l2 = fill_at p ?b m ?n" "memset_bytes ?b (fill_at p ?b m k) l = fill_at p ?b m ?n"
      using fill_bytes_at [OF _ n] w(2) 2(2) by simp_all
    show ?thesis using b w f 2(1) by (auto simp: memset_def fill_at_def [of p ?b m k, symmetric] fill_at_def [of p ?b m ?n])
  qed
qed


section \<open>memcmp\<close>

text \<open>The first difference decides.\<close>

fun compare :: "bytes \<Rightarrow> addr \<Rightarrow> addr \<Rightarrow> nat \<Rightarrow> int" where
  "compare m p q 0 = 0"
| "compare m p q (Suc n) = (if m p \<noteq> m q then uint (m p) - uint (m q) else compare m (p + 1) (q + 1) n)"

lemma compare_numeral:
  "compare m p q (numeral k) = (if m p \<noteq> m q then uint (m p) - uint (m q) else compare m (p + 1) (q + 1) (pred_numeral k))"
  by (simp add: numeral_eq_Suc)

lemma compare_equal:
  "(\<And>i. i < k \<Longrightarrow> m (p + of_nat i) = m (q + of_nat i)) \<Longrightarrow> compare m p q (k + n) = compare m (p + of_nat k) (q + of_nat k) n"
proof (induction k arbitrary: p q)
  case (Suc k)
  have "m p = m q" using Suc.prems [of 0] by simp
  moreover have "m (p + 1 + of_nat i) = m (q + 1 + of_nat i)" if "i < k" for i using Suc.prems [of "Suc i"] that by (simp add: ac_simps)
  ultimately show ?case using Suc.IH [of "p + 1" "q + 1"] by (simp add: ac_simps)
qed simp

lemma compare_0_iff: "compare m p q n = 0 \<longleftrightarrow> (\<forall>i < n. m (p + of_nat i) = m (q + of_nat i))"
proof (induction n arbitrary: p q)
  case (Suc n)
  have "(\<forall>i < Suc n. m (p + of_nat i) = m (q + of_nat i)) \<longleftrightarrow> m p = m q \<and> (\<forall>i < n. m (p + 1 + of_nat i) = m (q + 1 + of_nat i))"
    by (simp add: All_less_Suc2 ac_simps)
  then show ?case using Suc by (auto dest: unsigned_word_eqI)
qed simp

lemma memcmp_bytes_compare: "memcmp_bytes m p q n = compare m p q (unat n)"
proof (induction "unat n" arbitrary: p q n rule: less_induct)
  case less
  show ?case
  proof (cases "n = 0")
    case False
    then have "unat n = Suc (unat (n - 1))" "unat (n - 1) < unat n" by (simp_all add: unat_minus_one unat_gt_0)
    then show ?thesis using less.hyps [of "n - 1" "p + 1" "q + 1"] False by (simp add: memcmp_bytes.simps [of m p q n])
  qed (simp add: memcmp_bytes.simps)
qed

lemma memcmp_words_compare:
  "memcmp_words m p q n = (p', q', n') \<Longrightarrow> compare m p' q' (unat n') = compare m p q (unat n)"
proof (induction "unat n" arbitrary: p q n rule: less_induct)
  case less
  show ?case
  proof (cases "8 \<le> n \<and> load64 m p = load64 m q")
    case True
    then have u: "unat (n - 8) = unat n - 8" "8 \<le> unat n" by (simp_all add: unat_sub word_le_nat_alt)
    have "compare m p q (8 + (unat n - 8)) = compare m (p + 8) (q + 8) (unat n - 8)"
      using compare_equal [of 8 m p q] True load64_eqD [of m p m q] by simp
    then show ?thesis using less.hyps [of "n - 8" "p + 8" "q + 8"] less.prems True u
      by (simp add: memcmp_words.simps [of m p q n])
  next
    case False
    then have "memcmp_words m p q n = (p, q, n)" by (subst memcmp_words.simps) auto
    then show ?thesis using less.prems by simp
  qed
qed

lemma memcmp_compare: "memcmp m p q n = compare m p q (unat n)"
  by (auto simp: memcmp_def memcmp_bytes_compare split: prod.split dest: memcmp_words_compare)

section \<open>The test for a zero byte\<close>

lemma nonzero_bit: "(x :: ulong) \<noteq> 0 \<longleftrightarrow> (\<exists>n. bit x n)"
  by (metis bit_0_eq bot_apply bot_bool_def bit_word_eqI)

lemma and_ones: "(x :: ulong) AND 0x80808080 \<noteq> 0 \<longleftrightarrow> bit x 7 \<or> bit x 15 \<or> bit x 23 \<or> bit x 31"
proof -
  have b: "bit (0x80808080 :: ulong) n \<longleftrightarrow> n = 7 \<or> n = 15 \<or> n = 23 \<or> n = 31" for n
  proof -
    have e: "(0x80808080 :: ulong) = push_bit 7 1 OR push_bit 15 1 OR push_bit 23 1 OR push_bit 31 1" by simp
    show ?thesis unfolding e by (simp only: bit_or_iff bit_push_bit_iff bit_1_iff possible_bit_word) auto
  qed
  show ?thesis unfolding nonzero_bit bit_and_iff b by blast
qed

text \<open>One byte of the test: without a borrow the next bytes are tested alike.\<close>

definition low_byte :: "ulong \<Rightarrow> byte" where
  "low_byte w = ucast w"

lemma split_byte: "w = push_bit 8 (drop_bit 8 w) + ucast (low_byte w)" for w :: ulong
proof -
  have "push_bit 8 (drop_bit 8 w) + ucast (low_byte w) = push_bit 8 (drop_bit 8 w) OR ucast (low_byte w)"
    by (intro disjunctive_add) (auto simp: bit_simps low_byte_def)
  also have "\<dots> = w" by (rule bit_word_eqI) (auto simp: bit_simps low_byte_def)
  finally show ?thesis by simp
qed

lemma borrow_byte:
  fixes b :: byte
  shows "bit (b - 1) 7 \<and> \<not> bit b 7 \<longleftrightarrow> b = 0"
proof -
  have b7: "bit x 7 \<longleftrightarrow> 128 \<le> uint x" for x :: byte
  proof -
    have "uint x div 128 = (if uint x < 128 then 0 else 1)"
    proof (cases "uint x < 128")
      case False
      then show ?thesis using uint_bounded [of x] by (intro int_div_pos_eq [of _ _ _ "uint x - 128", THEN trans]) auto
    qed (simp add: div_pos_pos_trivial)
    moreover have "bit x 7 \<longleftrightarrow> bit (uint x) 7" by (simp add: bit_uint_iff)
    moreover have "bit (uint x) 7 \<longleftrightarrow> odd (uint x div 128)" by (simp add: bit_iff_odd)
    ultimately show ?thesis by simp
  qed
  have "uint (b - 1) = (if b = 0 then 255 else uint b - 1)"
  proof (cases "b = 0")
    case False
    then have "1 \<le> b" by (simp add: word_le_nat_alt unat_gt_0 Suc_leI)
    then show ?thesis using False uint_sub_lem [THEN iffD1, of 1 b] by (simp add: word_le_def)
  qed (simp add: unsigned_minus_1_eq_mask mask_eq_exp_minus_1)
  then show ?thesis using b7 [of b] b7 [of "b - 1"] by (auto simp: unsigned_eq_0_iff)
qed


lemma ucast_pred:
  fixes b :: byte
  assumes "1 \<le> b"
  shows "(ucast (b - 1) :: ulong) = ucast b - 1"
proof (rule unsigned_word_eqI)
  have u: "uint (ucast x :: ulong) = uint x" for x :: byte by (simp add: uint_up_ucast is_up)
  have "(1 :: ulong) \<le> ucast b" using assms unfolding word_le_def u by simp
  then show "uint (ucast (b - 1) :: ulong) = uint (ucast b - 1 :: ulong)"
    using assms uint_sub_lem [THEN iffD1, of 1 b] uint_sub_lem [THEN iffD1, of 1 "ucast b :: ulong"] u by (simp add: word_le_def)
qed

lemma sub_ones:
  assumes "low_byte w \<noteq> 0"
  shows "w - (push_bit 8 c + 1) = push_bit 8 (drop_bit 8 w - c) + ucast (low_byte w - 1)"
proof -
  have "1 \<le> low_byte w" using assms by (simp add: word_le_nat_alt unat_gt_0 Suc_leI)
  then have "(ucast (low_byte w - 1) :: ulong) = ucast (low_byte w) - 1" by (rule ucast_pred)
  moreover have "push_bit 8 (drop_bit 8 w - c) = push_bit 8 (drop_bit 8 w) - push_bit 8 c"
    by (simp add: push_bit_eq_mult algebra_simps)
  ultimately show ?thesis using arg_cong [OF split_byte [of w], of "\<lambda>x. x - (push_bit 8 c + 1)"] by simp
qed

text \<open>Bit 7 of the next byte of the difference, in terms of the remaining bytes.\<close>

lemma sub_ones_bits:
  assumes "low_byte w \<noteq> 0" "n < 56"
  shows "bit (w - (push_bit 8 c + 1)) (n + 8) \<longleftrightarrow> bit (drop_bit 8 w - c) n"
proof -
  have "w - (push_bit 8 c + 1) = push_bit 8 (drop_bit 8 w - c) OR ucast (low_byte w - 1)"
    unfolding sub_ones [OF assms(1)] by (intro disjunctive_add) (auto simp: bit_simps dest: bit_imp_le_length)
  moreover have "\<not> bit (low_byte w - 1) (n + 8)" using bit_imp_le_length [of "low_byte w - 1" "n + 8"] by auto
  ultimately show ?thesis using assms(2) by (simp add: bit_simps)
qed

lemma low_bit7: "bit (w - (push_bit 8 c + 1)) 7 \<and> \<not> bit w 7 \<longleftrightarrow> low_byte w = 0"
proof -
  have "low_byte (w - (push_bit 8 c + 1)) = low_byte w - 1"
  proof -
    have low: "low_byte (word_of_int i) = word_of_int i" for i
      unfolding low_byte_def by (rule bit_word_eqI) (simp add: bit_simps)
    have "w - (push_bit 8 c + 1) = word_of_int (uint w - (uint c * 256 + 1))"
      by (simp add: push_bit_eq_mult)
    then have "low_byte (w - (push_bit 8 c + 1)) = word_of_int (uint w - (uint c * 256 + 1))" by (simp only: low)
    also have "\<dots> = word_of_int (uint w) - (word_of_int (uint c) * word_of_int 256 + 1)" by simp
    finally have A: "low_byte (w - (push_bit 8 c + 1)) = word_of_int (uint w) - (word_of_int (uint c) * word_of_int 256 + 1)" .
    have "(word_of_int 256 :: byte) = 0" by simp
    then have B: "word_of_int (uint c) * (word_of_int 256 :: byte) = 0" by (simp only: mult_zero_right)
    have C: "low_byte w = word_of_int (uint w)" using low [of "uint w"] by simp
    show ?thesis unfolding A B C by simp
  qed
  moreover have "bit x 7 = bit (low_byte x) 7" for x by (simp add: low_byte_def bit_simps)
  ultimately have "bit (w - (push_bit 8 c + 1)) 7 = bit (low_byte w - 1) 7" "bit w 7 = bit (low_byte w) 7" by simp_all
  then show ?thesis using borrow_byte by simp
qed


lemma ex_less_4: "(\<exists>i < 4. P i) \<longleftrightarrow> P 0 \<or> P 1 \<or> P 2 \<or> P (3 :: nat)"
  by (auto simp: numeral_eq_Suc less_Suc_eq)

lemma zero_test_bytes: "zero_test w \<longleftrightarrow> (\<exists>i < 4. ucast (drop_bit (8 * i) w) = (0 :: byte))"
proof -
  define t where "t c k v \<longleftrightarrow> bit (v - c) k \<and> \<not> bit v k" for c v :: ulong and k
  have step: "t (push_bit 8 c + 1) (k + 8) v \<longleftrightarrow> t c k (drop_bit 8 v)" if "low_byte v \<noteq> 0" "k < 56" for c k v
    using sub_ones_bits [OF that] that(2) by (simp add: t_def bit_drop_bit_eq add.commute)
  have base: "t (push_bit 8 c + 1) 7 v \<longleftrightarrow> low_byte v = 0" for c v
    using low_bit7 by (simp add: t_def)
  define c1 c2 c3 c4 where cs: "c1 = push_bit 8 0 + (1 :: ulong)" "c2 = push_bit 8 c1 + 1" "c3 = push_bit 8 c2 + 1" "c4 = push_bit 8 c3 + 1"
  define v1 v2 v3 where vs: "v1 = drop_bit 8 w" "v2 = drop_bit 8 v1" "v3 = drop_bit 8 v2"
  have c4: "(0x01010101 :: ulong) = c4" by (simp add: cs)
  have z: "zero_test w \<longleftrightarrow> t c4 7 w \<or> t c4 15 w \<or> t c4 23 w \<or> t c4 31 w"
    unfolding zero_test_def t_def c4 by (simp only: and.assoc [symmetric] and_ones bit_and_iff bit_not_iff possible_bit_word) (simp del: push_bit_of_1)
  have n: "15 = 7 + (8 :: nat)" "23 = 15 + (8 :: nat)" "31 = 23 + (8 :: nat)" by simp_all
  note fold = cs [symmetric] vs [symmetric]
  have b1: "t c4 7 w \<longleftrightarrow> low_byte w = 0" using base [of c3 w] by (simp only: fold)
  have b2: "t c4 15 w \<longleftrightarrow> low_byte v1 = 0" if "low_byte w \<noteq> 0"
    using step [OF that, of 7 c3] base [of c2 v1] unfolding fold by simp
  have b3: "t c4 23 w \<longleftrightarrow> low_byte v2 = 0" if "low_byte w \<noteq> 0" "low_byte v1 \<noteq> 0"
    using step [OF that(1), of 15 c3] step [OF that(2), of 7 c2] base [of c1 v2] unfolding fold by simp
  have b4: "t c4 31 w \<longleftrightarrow> low_byte v3 = 0" if "low_byte w \<noteq> 0" "low_byte v1 \<noteq> 0" "low_byte v2 \<noteq> 0"
    using step [OF that(1), of 23 c3] step [OF that(2), of 15 c2] step [OF that(3), of 7 c1] base [of 0 v3] unfolding fold by simp
  have "zero_test w \<longleftrightarrow> low_byte w = 0 \<or> low_byte v1 = 0 \<or> low_byte v2 = 0 \<or> low_byte v3 = 0"
    unfolding z using b1 b2 b3 b4 by blast
  also have "\<dots> \<longleftrightarrow> (\<exists>i < 4. ucast (drop_bit (8 * i) w) = (0 :: byte))"
    by (simp add: low_byte_def vs ex_less_4 drop_bit_drop_bit)
  finally show ?thesis .
qed

lemma zero_test_load: "zero_test (load64 m p) \<longleftrightarrow> (\<exists>i < 4. m (p + of_nat i) = 0)"
  unfolding zero_test_bytes by (auto simp: byte_of_load64)


section \<open>strlen\<close>

text \<open>How far the next aligned address is.\<close>

definition to_alignment :: "addr \<Rightarrow> nat" where
  "to_alignment p = (8 - unat p mod 8) mod 8"

lemma and_7: "unat (p AND 7) = unat p mod 8" for p :: addr
proof -
  have "p AND 7 = take_bit 3 p" by (simp add: take_bit_eq_mask mask_eq_exp_minus_1)
  then have "unat (p AND 7) = take_bit 3 (unat p)" by (simp only: unsigned_take_bit_eq)
  then show ?thesis by (simp add: take_bit_eq_mod)
qed

lemma aligned_mod: "aligned p \<longleftrightarrow> unat p mod 8 = 0"
  by (metis aligned_def and_7 unat_eq_0_iff)

lemma mod_8_add: "unat (p + of_nat i) mod 8 = (unat p + i) mod 8" for p :: addr
  by (simp add: unat_word_ariths unsigned_of_nat take_bit_eq_mod mod_mod_cancel mod_simps)

lemma to_multiple_of_8:
  fixes u :: nat
  shows "(u + (8 - u mod 8) mod 8) mod 8 = 0" and "i < (8 - u mod 8) mod 8 \<Longrightarrow> (u + i) mod 8 \<noteq> 0"
proof -
  obtain q r where u: "u = r + 8 * q" "r < 8" by (metis mod_less_divisor mod_mult_div_eq zero_less_numeral)
  then show "(u + (8 - u mod 8) mod 8) mod 8 = 0" by (cases "r = 0") (simp_all add: ac_simps)
  assume i: "i < (8 - u mod 8) mod 8"
  have um: "u mod 8 = r" using u by simp
  then have "r \<noteq> 0" "r + i < 8" using i u(2) by (cases "r = 0"; simp)+
  moreover have "(u + i) mod 8 = (r + i) mod 8" using mod_add_left_eq [of u 8 i] um by simp
  ultimately show "(u + i) mod 8 \<noteq> 0" by simp
qed

lemma aligned_at: "aligned (p + of_nat (to_alignment p))"
  unfolding aligned_mod mod_8_add to_alignment_def by (rule to_multiple_of_8)

lemma not_aligned_before: "i < to_alignment p \<Longrightarrow> \<not> aligned (p + of_nat i)"
  unfolding aligned_mod mod_8_add to_alignment_def by (rule to_multiple_of_8)

lemma strlen_align_skip:
  "(\<And>i. i < k \<Longrightarrow> m (p + of_nat i) \<noteq> 0 \<and> \<not> aligned (p + of_nat i)) \<Longrightarrow> strlen_align m p = strlen_align m (p + of_nat k)"
proof (induction k)
  case (Suc k)
  have "strlen_align m (p + of_nat k) = strlen_align m (p + of_nat k + 1)"
    using Suc.prems [of k] by (subst strlen_align.simps) simp
  then show ?case using Suc by (simp add: ac_simps)
qed simp

lemma strlen_words_skip:
  "(\<And>i. i < 8 * k \<Longrightarrow> m (p + of_nat i) \<noteq> 0) \<Longrightarrow> strlen_words m p = strlen_words m (p + of_nat (8 * k))"
proof (induction k)
  case (Suc k)
  have "m (p + of_nat (8 * k) + of_nat i) \<noteq> 0" if "i < 4" for i
    using Suc.prems [of "8 * k + i"] that by (simp add: ac_simps)
  then have "strlen_words m (p + of_nat (8 * k)) = strlen_words m (p + of_nat (8 * k) + 8)"
    by (subst strlen_words.simps) (auto simp: zero_test_load)
  then show ?case using Suc by (simp add: ac_simps)
qed simp

lemma strlen_bytes_skip:
  "(\<And>i. i < k \<Longrightarrow> m (p + of_nat i) \<noteq> 0) \<Longrightarrow> strlen_bytes m p = strlen_bytes m (p + of_nat k)"
proof (induction k)
  case (Suc k)
  have "strlen_bytes m (p + of_nat k) = strlen_bytes m (p + of_nat k + 1)"
    using Suc.prems [of k] by (subst strlen_bytes.simps) simp
  then show ?case using Suc by (simp add: ac_simps)
qed simp

lemma strlen_words_stop:
  assumes "strlen_words m s = Some t"
  shows "aligned s \<longrightarrow> aligned t \<and> (\<exists>i < 4. m (t + of_nat i) = 0)"
proof (rule strlen_words.raw_induct [OF _ assms])
  fix f m s t
  assume IH: "\<And>m s t. f m s = Some t \<Longrightarrow> aligned s \<longrightarrow> aligned t \<and> (\<exists>i < 4. m (t + of_nat i) = 0)"
    and eq: "(if \<not> zero_test (load64 m s) then f m (s + 8) else Some s) = Some t"
  show "aligned s \<longrightarrow> aligned t \<and> (\<exists>i < 4. m (t + of_nat i) = 0)"
  proof (cases "zero_test (load64 m s)")
    case True
    then show ?thesis using eq by (simp add: zero_test_load)
  next
    case False
    then have "f m (s + 8) = Some t" using eq by simp
    then have "aligned (s + 8) \<longrightarrow> aligned t \<and> (\<exists>i < 4. m (t + of_nat i) = 0)" by (rule IH)
    moreover have "aligned (s + 8) = aligned s" using mod_8_add [of s 8] by (simp add: aligned_mod)
    ultimately show ?thesis by simp
  qed
qed

lemma strlen_bytes_stop:
  assumes "m (p + of_nat n) = 0"
  shows "\<exists>i \<le> n. strlen_bytes m p = Some (p + of_nat i)"
proof -
  define i where "i = (LEAST i. m (p + of_nat i) = 0)"
  have i: "m (p + of_nat i) = 0" "i \<le> n" using LeastI [of "\<lambda>i. m (p + of_nat i) = 0", OF assms] Least_le [of "\<lambda>i. m (p + of_nat i) = 0", OF assms]
    by (simp_all add: i_def)
  have "strlen_bytes m p = strlen_bytes m (p + of_nat i)"
    by (rule strlen_bytes_skip) (use not_less_Least in \<open>simp add: i_def\<close>)
  also have "\<dots> = Some (p + of_nat i)" using i by (subst strlen_bytes.simps) simp
  finally show ?thesis using i(2) by blast
qed

text \<open>A string of length \<open>n\<close>.\<close>

definition string_at :: "bytes \<Rightarrow> addr \<Rightarrow> nat \<Rightarrow> bool" where
  "string_at m p n \<longleftrightarrow> (\<forall>i < n. m (p + of_nat i) \<noteq> 0) \<and> m (p + of_nat n) = 0"

lemma strlen_before:
  assumes s: "string_at m p n" and n: "n < to_alignment p"
  shows "strlen m p = Some (of_nat n)"
proof -
  have "strlen_align m p = strlen_align m (p + of_nat n)"
    by (rule strlen_align_skip) (use s n not_aligned_before in \<open>auto simp: string_at_def\<close>)
  also have "\<dots> = Some (Inl (p + of_nat n))"
    using s not_aligned_before [OF n] by (subst strlen_align.simps) (simp add: string_at_def)
  finally show ?thesis by (simp add: strlen_def)
qed

lemma strlen_after:
  assumes s: "string_at m p n" and n: "to_alignment p \<le> n"
  shows "strlen m p = do { s \<leftarrow> strlen_words m (p + of_nat (to_alignment p)); s \<leftarrow> strlen_bytes m s; Some (s - p) }"
proof -
  let ?k = "to_alignment p"
  have "strlen_align m p = strlen_align m (p + of_nat ?k)"
    by (rule strlen_align_skip) (use s n not_aligned_before in \<open>auto simp: string_at_def\<close>)
  also have "\<dots> = Some (Inr (p + of_nat ?k))" using aligned_at by (subst strlen_align.simps) simp
  finally show ?thesis by (simp add: strlen_def)
qed

lemma strlen_lower_half:
  assumes s: "string_at m p n" and n: "to_alignment p \<le> n" and low: "unat (p + of_nat n) mod 8 < 4"
  shows "strlen m p = Some (of_nat n)"
proof -
  define q where "q = p + of_nat (to_alignment p)"
  define k where "k = n - to_alignment p"
  have qk: "p + of_nat n = q + of_nat k" using n by (simp add: q_def k_def of_nat_diff)
  have q: "unat q mod 8 = 0" using aligned_at [of p] by (simp add: aligned_mod q_def)
  have nz: "m (q + of_nat i) \<noteq> 0" if "i < k" for i
    using s n that by (auto simp: string_at_def q_def k_def add.assoc simp flip: of_nat_add)
  have k: "k mod 8 < 4" "8 * (k div 8) + k mod 8 = k" using low q mod_add_left_eq [of "unat q" 8 k] mult_div_mod_eq [of 8 k] unfolding qk mod_8_add by simp_all
  have e: "q + of_nat (8 * (k div 8)) + of_nat (k mod 8) = q + of_nat k" by (metis add.assoc of_nat_add k(2))
  have "strlen_words m q = strlen_words m (q + of_nat (8 * (k div 8)))"
    by (rule strlen_words_skip) (use nz in auto)
  also have "\<dots> = Some (q + of_nat (8 * (k div 8)))"
  proof -
    have "m (q + of_nat (8 * (k div 8)) + of_nat (k mod 8)) = 0"
      unfolding e using s qk by (simp add: string_at_def)
    then show ?thesis using k(1) by (subst strlen_words.simps) (auto simp: zero_test_load)
  qed
  finally have w: "strlen_words m q = Some (q + of_nat (8 * (k div 8)))" .
  have "strlen_bytes m (q + of_nat (8 * (k div 8))) = strlen_bytes m (q + of_nat (8 * (k div 8)) + of_nat (k mod 8))"
  proof (rule strlen_bytes_skip)
    fix i assume "i < k mod 8"
    then have "m (q + of_nat (8 * (k div 8) + i)) \<noteq> 0" using k(2) by (intro nz) linarith
    then show "m (q + of_nat (8 * (k div 8)) + of_nat i) \<noteq> 0" by (simp add: add.assoc)
  qed
  also have "\<dots> = Some (q + of_nat k)"
  proof -
    show ?thesis unfolding e using s qk by (subst strlen_bytes.simps) (simp add: string_at_def)
  qed
  finally show ?thesis using strlen_after [OF s n] w qk unfolding q_def [symmetric] by (simp add: q_def [symmetric]) (metis add_diff_cancel_left')
qed

lemma strlen_upper_half:
  assumes s: "string_at m p n" and n: "to_alignment p \<le> n" and up: "4 \<le> unat (p + of_nat n) mod 8"
  shows "strlen m p \<noteq> Some (of_nat n)"
proof
  assume "strlen m p = Some (of_nat n)"
  then obtain t a where t: "strlen_words m (p + of_nat (to_alignment p)) = Some t" "strlen_bytes m t = Some a" "a - p = of_nat n"
    using strlen_after [OF s n] by (auto simp: bind_eq_Some_conv)
  have "aligned t \<and> (\<exists>i < 4. m (t + of_nat i) = 0)" using strlen_words_stop [OF t(1)] aligned_at by blast
  then obtain i where i: "aligned t" "i < 4" "m (t + of_nat i) = 0" by blast
  then obtain j where "j \<le> i" "a = t + of_nat j" using strlen_bytes_stop [of m t i] t(2) by auto
  then have "unat a mod 8 < 4" using i(1,2) by (auto simp: mod_8_add aligned_mod)
  moreover have "a = p + of_nat n" using t(3) by (metis add.commute diff_add_cancel)
  ultimately show False using up by simp
qed


section \<open>Numbers in decimal\<close>

definition holds :: "bytes \<Rightarrow> addr \<Rightarrow> byte list \<Rightarrow> bool" where
  "holds m s bs \<longleftrightarrow> (\<forall>i < length bs. m (s + of_nat i) = bs ! i)"

lemma holds_Cons: "holds m s (b # bs) \<longleftrightarrow> m s = b \<and> holds m (s + 1) bs"
  by (simp add: holds_def All_less_Suc2 ac_simps)

lemma write_bytes_at:
  "length bs \<le> 2 ^ 64 \<Longrightarrow> write_bytes s bs m a = (if unat (a - s) < length bs then bs ! unat (a - s) else m a)"
proof (induction bs arbitrary: s m)
  case (Cons b bs)
  show ?case
  proof (cases "a = s")
    case True
    have "\<not> unat (s - (s + 1)) < length bs" using Cons.prems by (simp add: unsigned_minus_1_eq_mask mask_eq_exp_minus_1)
    then show ?thesis using Cons True by simp
  next
    case False
    then have "unat (a - s) = Suc (unat (a - (s + 1)))"
      using unat_minus_one [of "a - s"] unat_gt_0 [of "a - s"] by (simp add: diff_diff_eq)
    then show ?thesis using Cons False by simp
  qed
qed simp

lemma write_bytes_holds: "length bs \<le> 2 ^ 64 \<Longrightarrow> holds (write_bytes s bs m) s bs"
  unfolding holds_def
proof (intro allI impI)
  fix i assume "length bs \<le> 2 ^ 64" "i < length bs"
  then show "write_bytes s bs m (s + of_nat i) = bs ! i"
    by (simp add: write_bytes_at unsigned_of_nat take_bit_nat_eq_self)
qed

definition is_digit :: "byte \<Rightarrow> bool" where
  "is_digit b \<longleftrightarrow> 48 \<le> b \<and> b \<le> 57"

definition decimal :: "int \<Rightarrow> byte list \<Rightarrow> int" where
  "decimal = foldl (\<lambda>r b. r * 10 + uint b - 48)"

lemma atol_loop_digits:
  "holds m s (ds @ [0]) \<Longrightarrow> list_all is_digit ds \<Longrightarrow> atol_loop m s r = Some (decimal r ds)"
proof (induction ds arbitrary: s r)
  case Nil
  then show ?case by (subst atol_loop.simps) (simp add: holds_Cons decimal_def)
next
  case (Cons d ds)
  then show ?case using Cons.IH [of "s + 1"] by (subst atol_loop.simps) (simp add: holds_Cons decimal_def is_digit_def)
qed

definition digits :: "uint \<Rightarrow> byte list" where
  "digits v = rev (itoa_digits v [])"

lemma itoa_digits_append: "itoa_digits v buffer = buffer @ itoa_digits v []"
proof (induction "unat v" arbitrary: v buffer rule: less_induct)
  case less
  show ?case
  proof (cases "v = 0")
    case False
    then have "unat (v div 10) < unat v" by (simp add: unat_div div_less_dividend unat_gt_0)
    note IH = less.hyps [OF this]
    let ?d = "[ucast (v mod 10) + 48]"
    show ?thesis using False IH [of "buffer @ ?d"] IH [of ?d] by (simp add: itoa_digits.simps [of v])
  qed (simp add: itoa_digits.simps)
qed

lemma digits_simps: "digits 0 = []" "v \<noteq> 0 \<Longrightarrow> digits v = digits (v div 10) @ [ucast (v mod 10) + 48]"
  using itoa_digits_append [of "v div 10" "[ucast (v mod 10) + 48]"] by (simp_all add: digits_def itoa_digits.simps [of v] itoa_digits.simps [of 0])

lemma digit_value:
  fixes v :: uint
  shows "uint (ucast (v mod 10) + 48 :: byte) = uint (v mod 10) + 48"
proof -
  have u: "uint (v mod 10) < 10" "0 \<le> uint (v mod 10)" by (simp_all add: uint_mod_distrib)
  then have "uint (ucast (v mod 10) :: byte) = uint (v mod 10)" by (simp add: unsigned_ucast_eq take_bit_int_eq_self)
  then show ?thesis using u by (simp add: uint_word_ariths)
qed

lemma digits_value: "decimal 0 (digits v) = uint v \<and> list_all is_digit (digits v)"
proof (induction "unat v" arbitrary: v rule: less_induct)
  case less
  show ?case
  proof (cases "v = 0")
    case False
    then have IH: "decimal 0 (digits (v div 10)) = uint (v div 10) \<and> list_all is_digit (digits (v div 10))"
      by (intro less.hyps) (simp add: unat_div div_less_dividend unat_gt_0)
    have "is_digit (ucast (v mod 10) + 48)"
      unfolding is_digit_def word_le_def digit_value by (simp add: uint_mod_distrib)
    moreover have "uint (v div 10) * 10 + uint (v mod 10) = uint v" by (simp add: uint_div_distrib uint_mod_distrib)
    ultimately show ?thesis using IH digit_value [of v] by (simp add: digits_simps(2) [OF False] decimal_def)
  qed (simp add: digits_simps decimal_def)
qed

lemma length_digits: "unat v < 10 ^ k \<Longrightarrow> length (digits v) \<le> k"
proof (induction k arbitrary: v)
  case (Suc k)
  show ?case
  proof (cases "v = 0")
    case False
    have "unat (v div 10) < 10 ^ k" using Suc.prems by (simp add: unat_div div_less_iff_less_mult mult.commute)
    then show ?thesis using Suc.IH digits_simps(2) [OF False] by simp
  qed (simp add: digits_simps)
qed (simp add: unat_eq_0_iff digits_simps)

lemma length_digits_10: "length (digits v) \<le> 10"
proof (rule length_digits)
  have "unat v < 2 ^ LENGTH(32)" by (rule unsigned_less)
  then show "unat v < 10 ^ 10" by simp
qed

lemma digits_not_minus: "v \<noteq> 0 \<Longrightarrow> \<exists>d ds. digits v = d # ds \<and> is_digit d"
proof -
  assume "v \<noteq> 0"
  then have "digits v \<noteq> []" using digits_simps(2) by simp
  then obtain d ds where "digits v = d # ds" by (cases "digits v") auto
  then show ?thesis using digits_value [of v] by auto
qed

lemma atol_digits:
  assumes "holds m s (digits v @ [0])" "v \<noteq> 0"
  shows "atol_loop m s 0 = Some (uint v)" "m s \<noteq> 45"
proof -
  show "atol_loop m s 0 = Some (uint v)" using atol_loop_digits [OF assms(1)] digits_value [of v] by simp
  obtain d ds where "digits v = d # ds" "is_digit d" using digits_not_minus [OF assms(2)] by blast
  then show "m s \<noteq> 45" using assms(1) by (auto simp: holds_Cons is_digit_def)
qed

lemma itoa_atol:
  assumes "- (2 ^ 31) < value" "value < 2 ^ 31"
  shows "atol (itoa value str m) str = Some value \<and> (\<forall>a. 12 \<le> unat (a - str) \<longrightarrow> itoa value str m a = m a)"
proof -
  define v :: uint where "v = word_of_int \<bar>value\<bar>"
  have v: "uint v = \<bar>value\<bar>" using assms by (simp add: v_def unsigned_of_int take_bit_int_eq_self)
  have len: "length (digits v @ [0]) \<le> 11" using length_digits_10 [of v] by simp
  have W: "holds (write_bytes s (digits v @ [0]) m') s (digits v @ [0])" for s m' using len by (intro write_bytes_holds) simp
  have F: "write_bytes s (digits v @ [0]) m' a = m' a" if "11 \<le> unat (a - s)" for s m' a using len that by (subst write_bytes_at) auto
  consider "value < 0" | "value = 0" | "value > 0" by linarith
  then show ?thesis
  proof cases
    case 1
    then have i: "itoa value str m = write_bytes (str + 1) (digits v @ [0]) (m(str := 45))"
      by (simp add: itoa_def digits_def v_def)
    have "v \<noteq> 0" using v 1 by auto
    have "unat (str - (str + 1)) = 2 ^ 64 - 1" by (simp add: unsigned_minus_1_eq_mask mask_eq_exp_minus_1)
    then have "itoa value str m str = 45" unfolding i by (subst F) simp_all
    then have "atol (itoa value str m) str = Some value"
      using atol_digits(1) [OF W \<open>v \<noteq> 0\<close>, of "str + 1" "m(str := 45)"] 1 v by (simp add: atol_def i [symmetric])
    moreover have "itoa value str m a = m a" if "12 \<le> unat (a - str)" for a
    proof -
      have "a \<noteq> str" using that by auto
      then have "unat (a - str) = Suc (unat (a - (str + 1)))"
        using unat_minus_one [of "a - str"] unat_gt_0 [of "a - str"] by (simp add: diff_diff_eq)
      then show ?thesis using that \<open>a \<noteq> str\<close> unfolding i by (subst F) simp_all
    qed
    ultimately show ?thesis by blast
  next
    case 2
    then have i: "itoa value str m = m(str := 48, str + 1 := 0)"
      by (simp add: itoa_def itoa_digits.simps)
    have "atol_loop (m(str := 48, str + 1 := 0)) str 0 = Some 0"
      by (subst atol_loop.simps, simp, subst atol_loop.simps, simp)
    then show ?thesis unfolding 2 i [unfolded 2] by (auto simp: atol_def)
  next
    case 3
    then have i: "itoa value str m = write_bytes str (digits v @ [0]) m"
      by (simp add: itoa_def digits_def v_def)
    have "v \<noteq> 0" using v 3 by auto
    then show ?thesis using atol_digits [OF W, of str m] 3 v F by (simp add: i atol_def)
  qed
qed


section \<open>Properties\<close>

text \<open>
  \<open>memcpy\<close> copies exactly \<open>n\<close> bytes between regions that do not overlap, whatever their alignment: the loops over
  blocks of four words, words and bytes add up to a copy byte by byte, and no other byte changes.
\<close>

theorem memcpy_copies:
  assumes "disjoint_regions d s (unat n)"
  shows "memcpy d s n m = (\<lambda>a. if unat (a - d) < unat n then m (s + (a - d)) else m a)"
  using memcpy_is_copied [OF assms] by (simp add: copied_def)

theorem memcpy_copies_witness:
  "memcpy 0x1000 0x2000 45 ucast 0x102c = 0x2c \<and> memcpy 0x1000 0x2000 45 (\<lambda>a. if a < 0x2000 then 7 else 9) 0x102c = 9 \<and>
   memcpy 0x1000 0x2000 45 (\<lambda>a. if a < 0x2000 then 7 else 9) 0x102d = 7"
proof -
  have "disjoint_regions 0x1000 0x2000 (unat (45 :: ulong))"
    unfolding disjoint_regions_def
  proof (intro allI impI)
    fix i j assume ij: "i < unat (45 :: ulong)" "j < unat (45 :: ulong)"
    then have "uint (0x1000 + of_nat i :: addr) = 0x1000 + int i" "uint (0x2000 + of_nat j :: addr) = 0x2000 + int j"
      by (simp_all add: uint_word_ariths unsigned_of_nat take_bit_nat_eq_self of_nat_take_bit take_bit_int_eq_self)
    then show "0x1000 + of_nat i \<noteq> (0x2000 + of_nat j :: addr)" using ij by auto
  qed
  from memcpy_copies [OF this] show ?thesis by simp
qed

text \<open>
  \<open>memset\<close> fills exactly \<open>n\<close> bytes with the low byte of its argument, whatever the alignment.
\<close>

theorem memset_fills: "memset p c n m = (\<lambda>a. if unat (a - p) < unat n then ucast c else m a)"
  using memset_is_filled by (simp add: filled_def)

text \<open>
  \<open>memcmp\<close> compares by words and still returns the difference of the first two bytes that differ; it returns 0
  exactly for equal regions.
\<close>

theorem memcmp_compares:
  "memcmp m p q n = compare m p q (unat n) \<and> (memcmp m p q n = 0 \<longleftrightarrow> (\<forall>i < unat n. m (p + of_nat i) = m (q + of_nat i)))"
  by (simp add: memcmp_compare compare_0_iff)

theorem memcmp_compares_witness: "memcmp (\<lambda>a. if a = 0x2009 then 3 else 5) 0x1000 0x2000 16 = 2"
  using memcmp_compares [of "\<lambda>a. if a = 0x2009 then 3 else 5" "0x1000" "0x2000" 16] by (simp add: compare_numeral)

text \<open>
  On a 64-bit machine \<open>strlen\<close> is right exactly when the terminator lies before the first aligned word or in the
  lower half of its word: the constants \<open>0x01010101\<close> and \<open>0x80808080\<close> test four of the eight bytes.
\<close>

theorem strlen_exact:
  assumes "string_at m p n"
  shows "strlen m p = Some (of_nat n) \<longleftrightarrow> n < to_alignment p \<or> unat (p + of_nat n) mod 8 < 4"
  using strlen_before [OF assms] strlen_lower_half [OF assms] strlen_upper_half [OF assms]
  by (cases "n < to_alignment p"; cases "unat (p + of_nat n) mod 8 < 4") auto

text \<open>The string \<open>hello\<close> at an aligned address.\<close>

definition hello :: bytes where
  "hello = (\<lambda>a. if a = 0x1000 then 104 else if a = 0x1001 then 101 else if a = 0x1002 then 108 else if a = 0x1003 then 108
     else if a = 0x1004 then 111 else 0)"

lemma all_less_numeral: "(\<forall>i < numeral k. P i) \<longleftrightarrow> P (pred_numeral k) \<and> (\<forall>i < pred_numeral k. P i)"
  by (simp add: numeral_eq_Suc All_less_Suc)

theorem strlen_exact_witness: "strlen hello 0x1000 \<noteq> Some 5 \<and> strlen hello 0x1002 = Some 3"
proof -
  have "string_at hello 0x1000 5" "string_at hello 0x1002 3"
    unfolding string_at_def by (simp_all add: hello_def all_less_numeral)
  then show ?thesis using strlen_exact [of hello "0x1000" 5] strlen_exact [of hello "0x1002" 3]
    by (simp add: to_alignment_def)
qed

text \<open>
  What \<open>itoa\<close> writes, \<open>atol\<close> reads back, for every \<open>int\<close> but the least (whose negation is undefined); at most twelve
  bytes are written.
\<close>

theorem itoa_round_trip:
  assumes "- (2 ^ 31) < value" "value < 2 ^ 31"
  shows "atol (itoa value str m) str = Some value \<and> (\<forall>a. 12 \<le> unat (a - str) \<longrightarrow> itoa value str m a = m a)"
  by (rule itoa_atol [OF assms])

theorem itoa_round_trip_witness: "atol (itoa (- 2147483647) 0x1000 (\<lambda>a. 7)) 0x1000 = Some (- 2147483647)"
  using itoa_round_trip [of "- 2147483647" "0x1000" "\<lambda>a. 7"] by simp

end
