(* ===== verification/Tcp.thy ===== *)
theory Tcp
  imports Prelude
begin

text \<open>
  The connections of the Transmission Control Protocol (\<open>include/network/ipv4/tcp.h\<close>,
  \<open>src/network/ipv4/tcp.cc\<close>): one record per \<open>TCP::Connection\<close>, one definition per state handler, per call of
  the owning thread and for the alarm. Numbers are in host order (the code converts every field of a header
  with \<open>htonl\<close> and \<open>ntohl\<close> where it is stored and read); the checksum of a segment is in \<open>Checksum\<close>. A call that blocks
  sets \<open>transition_waiting\<close> or \<open>stream_waiting\<close>, and the code after the wait is a definition of its own: a
  \<open>Condition\<close> keeps no memory of a \<open>signal\<close> that finds no waiting thread.

  The network interface belongs to the machine: \<open>nic\<close> lists the answers of the next calls of \<open>IP::alloc\<close>
  (when it is exhausted, buffers are available), and \<open>sent\<close> logs what is handed to \<open>IP::send\<close>.
\<close>

unbundle bit_operations_syntax

section \<open>Headers and segments\<close>

type_synonym port = "16 word"
type_synonym ip_address = "32 word"
type_synonym conn_key = "64 word"

named_theorems flag_defs \<open>the flags of a header\<close>

definition FIN :: byte where [flag_defs]: "FIN = 0x01"
definition SYN :: byte where [flag_defs]: "SYN = 0x02"
definition RST :: byte where [flag_defs]: "RST = 0x04"
definition ACK :: byte where [flag_defs]: "ACK = 0x10"

record tcp_header =
  h_from :: port
  h_to :: port
  h_sequence :: uint
  h_acknowledgment :: uint
  h_flags :: byte
  h_window :: "16 word"

text \<open>\<open>Header(from, to, sequence, window)\<close>.\<close>

definition header_new :: "port \<Rightarrow> port \<Rightarrow> uint \<Rightarrow> 16 word \<Rightarrow> tcp_header" where
  "header_new from to seq window =
     \<lparr>h_from = from, h_to = to, h_sequence = seq, h_acknowledgment = 0, h_flags = 0, h_window = window\<rparr>"

text \<open>\<open>_current->header()->flags() & f\<close>.\<close>

definition flag :: "byte \<Rightarrow> ('a tcp_header_scheme) \<Rightarrow> bool" where
  "flag f h \<longleftrightarrow> h_flags h AND f \<noteq> 0"

text \<open>The values of \<open>Traits<Network>\<close> and \<open>Traits<TCP>\<close> of the applications, and \<open>MSS = IP::MFS - sizeof(Header)\<close>.\<close>

definition RETRIES :: uint where "RETRIES = 3"
definition TIMEOUT :: ulong where "TIMEOUT = 10 * 1000000"
definition WINDOW :: uint where "WINDOW = 4096"
definition MSS :: uint where "MSS = 1480 - 20"

section \<open>Connections\<close>

datatype tcp_state = LISTENING | SYN_SENT | SYN_RECEIVED | ESTABLISHED | FIN_WAIT1 | FIN_WAIT2 | CLOSE_WAIT | CLOSING | LAST_ACK | TIME_WAIT | CLOSED

record connection = tcp_header +
  peer :: ip_address
  peer_window :: "16 word"
  next_seq :: uint
  unacknowledged :: uint
  initial :: uint
  state :: tcp_state
  current :: "tcp_header option"
  len :: uint
  valid :: bool
  streaming :: bool
  retransmiting :: bool
  alarm :: "ulong option"
  tries :: int
  observer :: bool
  transition_waiting :: bool
  stream_waiting :: bool
  key :: conn_key
  delivered :: "byte list list"
  nic :: "bool list"
  sent :: "(ip_address \<times> tcp_header \<times> byte list) list"

text \<open>\<open>id(local, remote, peer)\<close>: the two sums are of type \<open>int\<close> when they are converted to 64 bits.\<close>

definition connection_id :: "port \<Rightarrow> port \<Rightarrow> ip_address \<Rightarrow> conn_key" where
  "connection_id local remote ip =
     push_bit 32 (scast ip) OR scast ((push_bit 16 (ucast remote) OR ucast local) :: uint)"

definition conn_id :: "connection \<Rightarrow> conn_key" where
  "conn_id c = connection_id (h_from c) (h_to c) (peer c)"

text \<open>\<open>Connection(from, to)\<close>; \<open>random\<close> is the value of \<open>Random::random()\<close>.\<close>

definition connection_new :: "int \<Rightarrow> port \<Rightarrow> ip_address \<times> port \<Rightarrow> connection" where
  "connection_new random from to =
     (let h = header_new from (snd to) (word_of_int random AND 0x00ffffff) (ucast WINDOW)
      in tcp_header.extend h
           (connection.fields (fst to) 0 (h_sequence h) (h_sequence h) (h_sequence h) CLOSED None 0 False False False None 0 False
              False False 0 [] [] []))"

text \<open>The conditions \<open>_transition\<close> and \<open>_stream\<close>: at most the owner of the connection waits on them.\<close>

definition transition_wait :: "connection \<Rightarrow> connection" where
  "transition_wait c = c\<lparr>transition_waiting := True\<rparr>"

definition transition_signal :: "connection \<Rightarrow> connection" where
  "transition_signal c = c\<lparr>transition_waiting := False\<rparr>"

definition stream_wait :: "connection \<Rightarrow> connection" where
  "stream_wait c = c\<lparr>stream_waiting := True\<rparr>"

definition stream_signal :: "connection \<Rightarrow> connection" where
  "stream_signal c = c\<lparr>stream_waiting := False\<rparr>"

definition set_state :: "tcp_state \<Rightarrow> connection \<Rightarrow> connection" where
  "set_state s c = c\<lparr>state := s\<rparr>"

definition set_timeout :: "ulong \<Rightarrow> connection \<Rightarrow> connection" where
  "set_timeout t c = c\<lparr>alarm := Some t\<rparr>"

text \<open>\<open>notify(cid, buf)\<close> hands the buffer to the observer, when there is one.\<close>

definition conn_notify :: "byte list \<Rightarrow> connection \<Rightarrow> connection \<times> bool" where
  "conn_notify data c = (if observer c then (c\<lparr>delivered := delivered c @ [data]\<rparr>, True) else (c, False))"

section \<open>Sending\<close>

definition nic_alloc :: "connection \<Rightarrow> connection \<times> bool" where
  "nic_alloc c = (case nic c of [] \<Rightarrow> (c, True) | b # bs \<Rightarrow> (c\<lparr>nic := bs\<rparr>, b))"

definition ip_send :: "byte list \<Rightarrow> connection \<Rightarrow> connection" where
  "ip_send data c = c\<lparr>sent := sent c @ [(peer c, tcp_header.truncate c, data)]\<rparr>"

definition fsend :: "byte \<Rightarrow> connection \<Rightarrow> connection" where
  "fsend flags c =
     (let c = c\<lparr>h_flags := flags\<rparr>;
          c = (if retransmiting c then c else c\<lparr>h_sequence := next_seq c\<rparr>);
          (c, buf) = nic_alloc c
      in if \<not> buf then c
         else let c = ip_send [] c
              in if flag FIN c \<or> flag SYN c then c\<lparr>next_seq := next_seq c + 1\<rparr> else c)"

text \<open>
  \<open>dsend(data, size)\<close>. \<open>write\<close> passes at most \<open>MSS\<close> bytes, which fit one frame; the driver's \<open>send\<close> returns the bytes
  of the frames, so the result is the payload, or 0 when no buffer could be allocated.
\<close>

definition dsend :: "byte list \<Rightarrow> connection \<Rightarrow> connection \<times> uint" where
  "dsend data c =
     (let c = c\<lparr>h_flags := ACK\<rparr>;
          c = (if retransmiting c then c else c\<lparr>h_sequence := next_seq c\<rparr>);
          (c, pool) = nic_alloc c;
          sz = word_of_nat (length data)
      in if \<not> pool then (c, 0)
         else let c = ip_send data c;
                  c = (if \<not> retransmiting c then c\<lparr>next_seq := next_seq c + sz\<rparr>
                       else c\<lparr>h_sequence := h_sequence c + sz\<rparr>)
              in (c, sz))"

section \<open>The handlers of the states\<close>

text \<open>\<open>s\<close> is \<open>_current->header()\<close>, the header of the segment that has arrived.\<close>

definition seq_acceptable :: "tcp_header \<Rightarrow> connection \<Rightarrow> bool" where
  "seq_acceptable s c =
     (if WINDOW = 0
      then (if len c \<noteq> 0 then False else h_sequence s = h_acknowledgment c)
      else if len c \<noteq> 0
      then h_acknowledgment c \<le> h_sequence s \<and> h_sequence s < h_acknowledgment c + WINDOW
      else (h_acknowledgment c \<le> h_sequence s \<and> h_sequence s < h_acknowledgment c + WINDOW) \<or>
           (h_acknowledgment c \<le> h_sequence s + len c - 1 \<and> h_sequence s + len c - 1 < h_acknowledgment c + WINDOW))"

definition check_sequence :: "tcp_header \<Rightarrow> connection \<Rightarrow> connection \<times> bool" where
  "check_sequence s c = (c\<lparr>valid := seq_acceptable s c\<rparr>, seq_acceptable s c)"

definition process_fin :: "tcp_header \<Rightarrow> connection \<Rightarrow> connection" where
  "process_fin s c = fsend ACK (c\<lparr>h_acknowledgment := h_sequence s + 1\<rparr>)"

definition invalid :: "connection \<Rightarrow> connection" where
  "invalid c = c\<lparr>valid := False\<rparr>"

definition conn_close :: "connection \<Rightarrow> connection" where
  "conn_close c =
     (if state c = CLOSED then c
      else if state c = LISTENING \<or> state c = SYN_SENT then set_state CLOSED c
      else let c = (if state c = ESTABLISHED \<or> state c = SYN_RECEIVED then set_state FIN_WAIT1 c
                    else if state c = CLOSE_WAIT then set_state LAST_ACK c else c);
               c = fsend (ACK OR FIN) c;
               c = set_timeout (TIMEOUT div 2) c
           in transition_wait c)"

definition listening :: "tcp_header \<Rightarrow> connection \<Rightarrow> connection" where
  "listening s c =
     (if flag RST s \<or> flag FIN s then invalid c
      else if flag ACK s then fsend RST (invalid c)
      else if flag SYN s
      then transition_signal (c\<lparr>h_to := h_from s, h_acknowledgment := h_sequence s + 1\<rparr>)
      else c)"

definition syn_sent :: "tcp_header \<Rightarrow> connection \<Rightarrow> connection" where
  "syn_sent s c =
     (if flag ACK s
      then if h_acknowledgment s \<le> initial c \<or> h_acknowledgment s > next_seq c then fsend RST (invalid c)
           else if h_acknowledgment s \<ge> unacknowledged c \<and> h_acknowledgment s \<le> next_seq c
           then if flag RST s then set_state CLOSED (invalid c)
                else if flag SYN s
                then let c = c\<lparr>h_acknowledgment := h_sequence s + 1, unacknowledged := h_acknowledgment s, peer_window := h_window s\<rparr>
                     in if unacknowledged c > initial c
                        then transition_signal ((set_state ESTABLISHED (fsend ACK c))\<lparr>tries := 0\<rparr>)
                        else set_state SYN_RECEIVED (fsend (SYN OR ACK) c)
                else c
           else fsend RST (invalid c)
      else if \<not> flag RST s \<and> flag SYN s
      then set_state SYN_RECEIVED (fsend (SYN OR ACK) (c\<lparr>h_acknowledgment := h_sequence s + 1\<rparr>))
      else conn_close c)"

text \<open>Acknowledging the data of a segment.\<close>

definition ack_data :: "connection \<Rightarrow> connection" where
  "ack_data c = (if len c \<noteq> 0 then fsend ACK (c\<lparr>h_acknowledgment := h_acknowledgment c + len c\<rparr>) else c)"

definition syn_received :: "tcp_header \<Rightarrow> connection \<Rightarrow> connection" where
  "syn_received s c =
     (let (c, ok) = check_sequence s c
      in if \<not> ok then (let c = invalid c in if \<not> flag RST s then fsend ACK c else c)
         else if flag RST s then set_state CLOSED (invalid c)
         else if flag SYN s then set_state CLOSED (fsend RST (invalid c))
         else if flag ACK s
         then if unacknowledged c \<le> h_acknowledgment s \<and> h_acknowledgment s \<le> next_seq c
              then transition_signal (ack_data ((set_state ESTABLISHED c)\<lparr>tries := 0\<rparr>))
              else if flag FIN s then set_state CLOSE_WAIT (process_fin s c)
              else set_state CLOSED (fsend RST (invalid c))
         else c)"

definition established :: "tcp_header \<Rightarrow> connection \<Rightarrow> connection" where
  "established s c =
     (let (c, ok) = check_sequence s c
      in if \<not> ok then (let c = invalid c in if \<not> flag RST s then fsend ACK c else c)
         else if flag RST s then set_state CLOSED (invalid c)
         else if flag SYN s then set_state CLOSED (fsend RST (invalid c))
         else if flag ACK s \<and> unacknowledged c \<le> h_acknowledgment s \<and> h_acknowledgment s \<le> next_seq c
         then let c = ack_data c
              in if flag FIN s then set_state CLOSE_WAIT (process_fin s c) else c
         else c)"

definition fin_wait1 :: "tcp_header \<Rightarrow> connection \<Rightarrow> connection" where
  "fin_wait1 s c =
     (let (c, ok) = check_sequence s c
      in if \<not> ok then (let c = invalid c in if \<not> flag RST s then fsend ACK c else c)
         else if flag RST s then set_state CLOSED (invalid c)
         else if flag SYN s then set_state CLOSED (fsend RST (invalid c))
         else if flag ACK s
         then let c = ack_data c
              in if h_acknowledgment s \<ge> next_seq c
                 then if flag FIN s then set_timeout TIMEOUT (set_state TIME_WAIT (process_fin s c))
                      else set_state FIN_WAIT2 c
                 else if flag FIN s then set_state CLOSING (process_fin s c)
                 else c
         else c)"

definition fin_wait2 :: "tcp_header \<Rightarrow> connection \<Rightarrow> connection" where
  "fin_wait2 s c =
     (let (c, ok) = check_sequence s c
      in if \<not> ok then (let c = invalid c in if \<not> flag RST s then fsend ACK c else c)
         else if flag RST s then set_state CLOSED (invalid c)
         else if flag SYN s then set_state CLOSED (fsend RST (invalid c))
         else if flag ACK s
         then let c = ack_data c
              in if flag FIN s then set_timeout TIMEOUT (set_state TIME_WAIT (process_fin s c)) else c
         else c)"

definition closed :: "tcp_header \<Rightarrow> connection \<Rightarrow> connection" where
  "closed s c = c"

definition close_wait :: "tcp_header \<Rightarrow> connection \<Rightarrow> connection" where
  "close_wait s c =
     (let (c, ok) = check_sequence s c
      in if \<not> ok then (let c = invalid c in if \<not> flag RST s then fsend ACK c else c)
         else if flag RST s then closed s (set_state CLOSED (invalid c))
         else if flag SYN s then set_state CLOSED (fsend RST (invalid c))
         else if flag ACK s \<and> unacknowledged c < h_acknowledgment s \<and> h_acknowledgment s \<le> next_seq c
         then let c = c\<lparr>unacknowledged := h_acknowledgment s\<rparr>
              in if flag FIN s then process_fin s c else c
         else c)"

text \<open>\<open>_unacknowledged < SEG.ACK \<and> SEG.ACK <= SND.NXT \<and> SND.NXT <= SEG.ACK\<close>: our FIN is acknowledged.\<close>

definition fin_acked :: "tcp_header \<Rightarrow> connection \<Rightarrow> bool" where
  "fin_acked s c \<longleftrightarrow>
     flag ACK s \<and> unacknowledged c < h_acknowledgment s \<and> h_acknowledgment s \<le> next_seq c \<and> next_seq c \<le> h_acknowledgment s"

definition closing :: "tcp_header \<Rightarrow> connection \<Rightarrow> connection" where
  "closing s c =
     (let (c, ok) = check_sequence s c
      in if \<not> ok then (let c = invalid c in if \<not> flag RST s then fsend ACK c else c)
         else if flag RST s then set_state CLOSED (invalid c)
         else if flag SYN s then set_state CLOSED (fsend RST (invalid c))
         else if fin_acked s c then set_timeout TIMEOUT (set_state TIME_WAIT c)
         else c)"

definition last_ack :: "tcp_header \<Rightarrow> connection \<Rightarrow> connection" where
  "last_ack s c =
     (let (c, ok) = check_sequence s c
      in if \<not> ok then (let c = invalid c in if \<not> flag RST s then fsend ACK c else c)
         else if flag RST s then set_state CLOSED c
         else if flag SYN s then set_state CLOSED (fsend RST c)
         else if fin_acked s c then transition_signal ((set_state CLOSED c)\<lparr>tries := 0\<rparr>)
         else c)"

definition time_wait :: "tcp_header \<Rightarrow> connection \<Rightarrow> connection" where
  "time_wait s c =
     (let (c, ok) = check_sequence s c
      in if \<not> ok then (let c = invalid c in if \<not> flag RST s then fsend ACK c else c)
         else if flag RST s then set_state CLOSED c
         else if flag SYN s then set_state CLOSED (fsend RST c)
         else if flag ACK s \<and> unacknowledged c < h_acknowledgment s \<and> h_acknowledgment s \<le> next_seq c \<and> flag FIN s
         then set_timeout TIMEOUT (process_fin s c)
         else c)"

text \<open>The table \<open>_handlers\<close>, indexed by the values of the enumeration; \<open>state(s)\<close> keeps \<open>_handler\<close> at \<open>_handlers[s]\<close>.\<close>

definition handlers :: "(tcp_header \<Rightarrow> connection \<Rightarrow> connection) list" where
  "handlers = [listening, syn_sent, syn_received, established, fin_wait1, fin_wait2, close_wait, closing, last_ack, time_wait, closed]"

definition state_index :: "tcp_state \<Rightarrow> nat" where
  "state_index s = (case s of LISTENING \<Rightarrow> 0 | SYN_SENT \<Rightarrow> 1 | SYN_RECEIVED \<Rightarrow> 2 | ESTABLISHED \<Rightarrow> 3 | FIN_WAIT1 \<Rightarrow> 4 |
     FIN_WAIT2 \<Rightarrow> 5 | CLOSE_WAIT \<Rightarrow> 6 | CLOSING \<Rightarrow> 7 | LAST_ACK \<Rightarrow> 8 | TIME_WAIT \<Rightarrow> 9 | CLOSED \<Rightarrow> 10)"

definition handler :: "tcp_header \<Rightarrow> connection \<Rightarrow> connection" where
  "handler s c = (handlers ! state_index (state c)) s c"

section \<open>Arrival of a segment\<close>

text \<open>What becomes of the buffer of a segment: given back to the interface, handed to the observer, or kept.\<close>

datatype fate = Freed | Notified | Kept

text \<open>
  The two guards of \<open>update\<close>: \<open>early\<close> segments are ahead of the next expected number, a \<open>bad_ack\<close> acknowledges
  what has not been sent.
\<close>

definition early :: "tcp_header \<Rightarrow> connection \<Rightarrow> bool" where
  "early s c \<longleftrightarrow> \<not> (state c = LISTENING \<or> state c = SYN_SENT) \<and> h_sequence s > h_acknowledgment c"

definition bad_ack :: "tcp_header \<Rightarrow> connection \<Rightarrow> bool" where
  "bad_ack s c \<longleftrightarrow> h_acknowledgment s > next_seq c"

text \<open>The sliding window: is the segment relevant to a stream, and the numbers it moves.\<close>

definition slide :: "tcp_header \<Rightarrow> connection \<Rightarrow> connection \<times> bool" where
  "slide s c =
     (if streaming c
      then if h_acknowledgment s \<le> h_sequence c
           then (c\<lparr>unacknowledged := h_acknowledgment s\<rparr>, h_acknowledgment s > unacknowledged c)
           else (c\<lparr>h_sequence := h_acknowledgment s, unacknowledged := h_acknowledgment s\<rparr>, True)
      else (c, False))"

text \<open>\<open>size\<close> is the length of the data as \<open>update\<close> computes it from the size of the buffer.\<close>

definition arrive :: "ip_address \<Rightarrow> tcp_header \<Rightarrow> uint \<Rightarrow> connection \<Rightarrow> connection" where
  "arrive from s sz c =
     (let c = c\<lparr>current := Some s, len := sz, peer_window := h_window s\<rparr>
      in if state c = LISTENING
         then let c = c\<lparr>peer := from, h_to := h_from s\<rparr> in c\<lparr>key := conn_id c\<rparr>
         else c)"

definition update :: "ip_address \<Rightarrow> tcp_header \<Rightarrow> byte list \<Rightarrow> connection \<Rightarrow> connection \<times> fate" where
  "update from s data c =
     (let c = arrive from s (word_of_nat (length data)) c
      in if early s c then (c, Freed)
         else if bad_ack s c then (set_state CLOSED (fsend RST c), Freed)
         else let (c, relevant) = slide s c;
                  state_at_arrival = state c;
                  c = handler s c
              in if \<not> valid c then (c, Freed)
                 else let (c, f) = (if state_at_arrival \<in> {ESTABLISHED, SYN_RECEIVED, FIN_WAIT1, FIN_WAIT2} \<and> len c \<noteq> 0
                                    then let (c, ok) = conn_notify data c in (c, if ok then Notified else Freed)
                                    else (c, Kept))
                      in (if streaming c \<and> relevant then stream_signal c else c, f))"

section \<open>The alarm\<close>

definition timeout :: "connection \<Rightarrow> connection" where
  "timeout c =
     (let c = c\<lparr>alarm := None\<rparr>
      in if state c = TIME_WAIT then transition_signal ((set_state CLOSED c)\<lparr>tries := 0\<rparr>)
         else if tries c = 3 then transition_signal (set_state CLOSED c)
         else if state c = FIN_WAIT1 \<or> state c = LAST_ACK \<or> state c = CLOSING
         then set_timeout 2500000 (fsend (FIN OR ACK) (c\<lparr>tries := tries c + 1, next_seq := next_seq c - 1\<rparr>))
         else if state c = SYN_SENT
         then set_timeout TIMEOUT (fsend SYN (c\<lparr>tries := tries c + 1, next_seq := next_seq c - 1\<rparr>))
         else c)"

section \<open>Calls of the owner\<close>

text \<open>\<open>listen()\<close>: up to the first wait, between the waits; it returns after the second.\<close>

definition listen :: "connection \<Rightarrow> connection" where
  "listen c = transition_wait (set_state LISTENING c)"

definition listen_syn :: "connection \<Rightarrow> connection" where
  "listen_syn c =
     (let c = fsend (SYN OR ACK) c;
          c = c\<lparr>unacknowledged := initial c\<rparr>
      in transition_wait (set_state SYN_RECEIVED c))"

text \<open>
  \<open>connect()\<close>: \<open>connect_send\<close> is what comes before the wait. The two are one step: an answer that came after \<open>fsend\<close> and before \<open>wait\<close> would
  signal a condition nobody waits for.
\<close>

definition connect_send :: "connection \<Rightarrow> connection" where
  "connect_send c =
     (let c = fsend SYN (set_state SYN_SENT c);
          c = c\<lparr>unacknowledged := h_sequence c\<rparr>
      in set_timeout TIMEOUT c)"

definition connect :: "connection \<Rightarrow> connection" where
  "connect c = transition_wait (connect_send c)"

text \<open>\<open>TCP::attach\<close>: registering the connection with its observer, up to the first call.\<close>

definition tcp_attach :: "int \<Rightarrow> port \<Rightarrow> ip_address \<times> port \<Rightarrow> connection" where
  "tcp_attach random from to =
     (let c = connection_new random from to;
          c = c\<lparr>observer := True, key := conn_id c\<rparr>
      in if fst to \<noteq> 0 \<or> snd to \<noteq> 0 then connect c else listen c)"

section \<open>Writing a stream\<close>

text \<open>
  The locals of \<open>write(d, size)\<close>: \<open>w_at\<close> is \<open>data - d\<close>. The memory from \<open>d\<close> on is a function, since \<open>write\<close> may read
  past the end of the data.
\<close>

record stream =
  w_allowed :: uint
  w_left :: uint
  w_acknowledged :: uint
  w_initial_seq :: uint
  w_at :: ulong
  w_tries :: uint

definition write_start :: "uint \<Rightarrow> connection \<Rightarrow> stream" where
  "write_start sz c =
     \<lparr>w_allowed = WINDOW, w_left = sz, w_acknowledged = 0, w_initial_seq = h_sequence c, w_at = 0, w_tries = 0\<rparr>"

definition is_open :: "connection \<Rightarrow> bool" where
  "is_open c \<longleftrightarrow> state c = ESTABLISHED \<or> state c = CLOSE_WAIT"

definition write_goes_on :: "uint \<Rightarrow> connection \<times> stream \<Rightarrow> bool" where
  "write_goes_on sz = (\<lambda>(c, w). w_tries w < RETRIES \<and> w_acknowledged w \<noteq> sz \<and> is_open c)"

definition read_at :: "(ulong \<Rightarrow> byte) \<Rightarrow> ulong \<Rightarrow> uint \<Rightarrow> byte list" where
  "read_at d at n = map (\<lambda>i. d (at + word_of_nat i)) [0..<unat n]"

text \<open>The head of an iteration, and its branch that sends; \<open>False\<close> is \<open>return -1\<close>.\<close>

definition write_prepare :: "connection \<times> stream \<Rightarrow> connection \<times> stream" where
  "write_prepare = (\<lambda>(c, w). (c\<lparr>streaming := True\<rparr>, w\<lparr>w_allowed := (if w_allowed w > MSS then MSS else w_allowed w)\<rparr>))"

definition write_sends :: "connection \<times> stream \<Rightarrow> bool" where
  "write_sends = (\<lambda>(c, w). w_allowed w \<noteq> 0 \<and> w_left w \<noteq> 0)"

definition write_send :: "(ulong \<Rightarrow> byte) \<Rightarrow> connection \<times> stream \<Rightarrow> (connection \<times> stream) \<times> bool" where
  "write_send d = (\<lambda>(c, w).
     let payload = (if w_allowed w > w_left w then w_left w else w_allowed w);
         (c, r) = dsend (read_at d (w_at w) payload) c
     in if r = 0 then ((c, w), False)
        else ((if h_sequence c = next_seq c then c\<lparr>retransmiting := False\<rparr> else c,
               w\<lparr>w_at := w_at w + ucast payload, w_left := w_left w - payload\<rparr>), True))"

text \<open>After the wait: \<open>old_ack\<close> was the acknowledgement before it.\<close>

definition write_resume :: "uint \<Rightarrow> uint \<Rightarrow> connection \<times> stream \<Rightarrow> (connection \<times> stream) option" where
  "write_resume sz old_ack = (\<lambda>(c, w).
     do { s \<leftarrow> current c;
          Some (if h_acknowledgment s = old_ack
                then (c\<lparr>retransmiting := True, h_sequence := h_acknowledgment s, unacknowledged := h_acknowledgment s\<rparr>,
                      w\<lparr>w_at := ucast (w_acknowledged w), w_left := sz - w_acknowledged w, w_tries := w_tries w + 1\<rparr>)
                else (c, w\<lparr>w_tries := 0\<rparr>)) })"

text \<open>The increments of the \<open>for\<close>.\<close>

definition write_next :: "connection \<times> stream \<Rightarrow> (connection \<times> stream) option" where
  "write_next = (\<lambda>(c, w).
     do { s \<leftarrow> current c;
          Some (c, w\<lparr>w_acknowledged := h_acknowledgment s - w_initial_seq w,
                     w_allowed := ucast (peer_window c) - (h_sequence c - h_acknowledgment s)\<rparr>) })"

definition write_end :: "uint \<Rightarrow> connection \<times> stream \<Rightarrow> connection \<times> int" where
  "write_end sz = (\<lambda>(c, w).
     let c = c\<lparr>streaming := False, retransmiting := False\<rparr>
     in if w_tries w = RETRIES then (c, - 1)
        else if \<not> is_open c then (c, - 1)
        else (c, sint sz))"

text \<open>
  The loop, with what happens during each wait as a parameter: \<open>env\<close> lists, for each wait in turn, what other threads
  and interrupts do to the connection until the owner runs again. \<open>None\<close> is a null \<open>_current\<close>, or a wait that
  \<open>env\<close> does not cover.
\<close>

lemma write_send_left:
  assumes "write_sends x" "write_send d x = (y, True)" "write_next y = Some z"
  shows "unat (w_left (snd z)) < unat (w_left (snd x))"
proof -
  obtain c w where x: "x = (c, w)" by (cases x)
  let ?p = "if w_allowed w > w_left w then w_left w else w_allowed w"
  have "w_left (snd z) = w_left w - ?p"
    using assms(2,3) by (auto simp: x write_send_def write_next_def Let_def split: prod.splits if_splits bind_splits)
  moreover have "?p \<noteq> 0" "?p \<le> w_left w" using assms(1) by (auto simp: x write_sends_def)
  ultimately show ?thesis by (simp add: x unat_diff_less)
qed

lemma write_prepare_left [simp]: "w_left (snd (write_prepare x)) = w_left (snd x)"
  by (simp add: write_prepare_def split: prod.splits)

lemma write_send_decreases:
  "write_sends (write_prepare x) \<Longrightarrow> (y, True) = write_send d (write_prepare x) \<Longrightarrow> write_next y = Some z \<Longrightarrow>
     unat (w_left (snd z)) < unat (w_left (snd x))"
  using write_send_left [of "write_prepare x" d y z] by simp

function write_loop :: "(ulong \<Rightarrow> byte) \<Rightarrow> uint \<Rightarrow> (connection \<Rightarrow> connection) list \<Rightarrow> connection \<times> stream \<Rightarrow> (connection \<times> int) option" where
  "write_loop d sz env x =
     (if \<not> write_goes_on sz x then Some (write_end sz x)
      else let x = write_prepare x
           in if write_sends x
              then case write_send d x of
                     (y, False) \<Rightarrow> Some (fst y, - 1)
                   | (y, True) \<Rightarrow> (case write_next y of None \<Rightarrow> None | Some z \<Rightarrow> write_loop d sz env z)
              else case env of
                     [] \<Rightarrow> None
                   | e # es \<Rightarrow>
                       (case current (fst x) of None \<Rightarrow> None | Some s \<Rightarrow>
                        (case write_resume sz (h_acknowledgment s) (e (stream_wait (fst x)), snd x) of None \<Rightarrow> None | Some y \<Rightarrow>
                         (case write_next y of None \<Rightarrow> None | Some z \<Rightarrow> write_loop d sz es z))))"
  by pat_completeness auto

termination
  by (relation "measures [\<lambda>(d, sz, env, x). length env, \<lambda>(d, sz, env, x). unat (w_left (snd x))]")
     (simp_all add: write_send_decreases)

declare write_loop.simps [simp del]

definition conn_write :: "(ulong \<Rightarrow> byte) \<Rightarrow> uint \<Rightarrow> (connection \<Rightarrow> connection) list \<Rightarrow> connection \<Rightarrow> (connection \<times> int) option" where
  "conn_write d sz env c = write_loop d sz env (c, write_start sz c)"

section \<open>Demultiplexing\<close>

text \<open>
  \<open>TCP::update\<close>: \<open>checked\<close> is the answer of \<open>segment->check(size)\<close>. The observed connections are a map by their keys, at most one for each.
  \<open>listening\<close> changes the key of its connection while \<open>notify\<close> goes through the list of observers; here the one connection that has the key of
  the segment is updated, and goes back into the map under the key it has then.
\<close>

definition tcp_condition :: "ip_address \<Rightarrow> tcp_header \<Rightarrow> conn_key" where
  "tcp_condition from s =
     (if h_flags s = SYN then connection_id (h_to s) 0 0 else connection_id (h_to s) (h_from s) from)"

definition tcp_update ::
  "bool \<Rightarrow> ip_address \<Rightarrow> tcp_header \<Rightarrow> byte list \<Rightarrow> (conn_key \<rightharpoonup> connection) \<Rightarrow> (conn_key \<rightharpoonup> connection) \<times> fate" where
  "tcp_update checked from s data obs =
     (let k = tcp_condition from s
      in if length data \<noteq> 0 \<and> \<not> checked then (obs, Freed)
         else case obs k of
                None \<Rightarrow> (obs, Freed)
              | Some c \<Rightarrow> (let (c, f) = update from s data c in ((obs(k := None))(key c \<mapsto> c), f)))"

section \<open>The owner of a connection\<close>

text \<open>
  The rest of \<open>TCP::attach\<close>: where the owning thread stands, and what it does when it returns from a wait. \<open>Connecting i\<close>
  is the wait within the \<open>i\<close>th \<open>connect()\<close>, \<open>Awaiting_SYN\<close> and \<open>Awaiting_ACK\<close> are the waits within \<open>listen()\<close>;
  a connection that is not established is deleted (\<open>Refused\<close>).
\<close>

datatype owner = Connecting uint | Awaiting_SYN | Awaiting_ACK | Attached | Refused

definition attach_returns :: "connection \<Rightarrow> connection \<times> owner" where
  "attach_returns c = (if state c \<noteq> ESTABLISHED then (conn_close (c\<lparr>alarm := None\<rparr>), Refused) else (c, Attached))"

definition owner_resumes :: "connection \<times> owner \<Rightarrow> connection \<times> owner" where
  "owner_resumes = (\<lambda>(c, p). case p of
     Connecting i \<Rightarrow> if i + 1 < RETRIES \<and> state c \<noteq> ESTABLISHED then (connect c, Connecting (i + 1)) else attach_returns c
   | Awaiting_SYN \<Rightarrow> (listen_syn c, Awaiting_ACK)
   | Awaiting_ACK \<Rightarrow> attach_returns c
   | _ \<Rightarrow> (c, p))"

text \<open>The life of a connection: segments arrive, its alarm goes off, and its owner goes on when it does not wait.\<close>

inductive tcp_step :: "connection \<times> owner \<Rightarrow> connection \<times> owner \<Rightarrow> bool" where
  arrival: "tcp_step (c, p) (fst (update from s data c), p)"
| alarm: "connection.alarm c \<noteq> None \<Longrightarrow> tcp_step (c, p) (timeout c, p)"
| owner: "\<not> transition_waiting c \<Longrightarrow> tcp_step (c, p) (owner_resumes (c, p))"

inductive tcp_reaches :: "connection \<times> owner \<Rightarrow> connection \<times> owner \<Rightarrow> bool" where
  refl: "tcp_reaches x x"
| step: "tcp_reaches x y \<Longrightarrow> tcp_step y z \<Longrightarrow> tcp_reaches x z"

end
