(* ===== verification/Tcp_Properties.thy ===== *)
theory Tcp_Properties
  imports Tcp
begin

text \<open>
  What a connection promises: it moves along the diagram of the protocol, two endpoints shake hands, the data that
  reach the observer are the sender's stream in order and without repetition, and an unanswered call ends; and
  where the code falls short: connections that share an identifier, refused connections, streams after streams.
\<close>

named_theorems conn_simps \<open>what the steps of a connection leave alone\<close>

section \<open>Frames\<close>

lemma fsend_frame [conn_simps]:
  "state (fsend f c) = state c" "alarm (fsend f c) = alarm c" "tries (fsend f c) = tries c" "observer (fsend f c) = observer c"
  "delivered (fsend f c) = delivered c" "transition_waiting (fsend f c) = transition_waiting c" "len (fsend f c) = len c"
  "stream_waiting (fsend f c) = stream_waiting c" "valid (fsend f c) = valid c" "streaming (fsend f c) = streaming c"
  "h_acknowledgment (fsend f c) = h_acknowledgment c" "unacknowledged (fsend f c) = unacknowledged c" "initial (fsend f c) = initial c"
  "key (fsend f c) = key c" "peer (fsend f c) = peer c" "h_from (fsend f c) = h_from c" "h_to (fsend f c) = h_to c"
  "retransmiting (fsend f c) = retransmiting c" "current (fsend f c) = current c" "peer_window (fsend f c) = peer_window c"
  by (simp_all add: fsend_def nic_alloc_def ip_send_def Let_def split: list.split)

lemmas conn_defs = set_state_def set_timeout_def transition_signal_def transition_wait_def stream_signal_def stream_wait_def
  invalid_def check_sequence_def process_fin_def ack_data_def

lemmas attach_defs = tcp_attach_def connection_new_def connect_def connect_send_def header_new_def connection.defs tcp_header.defs
  fsend_def nic_alloc_def ip_send_def flag_def flag_defs conn_defs Let_def

section \<open>The diagram of states\<close>

text \<open>The connection state diagram of RFC 793 (figure 6), with the resets of its event processing (section 3.9).\<close>

definition diagram :: "(tcp_state \<times> tcp_state) set" where
  "diagram =
     {(CLOSED, LISTENING), (CLOSED, SYN_SENT), (LISTENING, SYN_RECEIVED), (LISTENING, CLOSED),
      (SYN_SENT, SYN_RECEIVED), (SYN_SENT, ESTABLISHED), (SYN_SENT, CLOSED),
      (SYN_RECEIVED, ESTABLISHED), (SYN_RECEIVED, FIN_WAIT1), (SYN_RECEIVED, CLOSE_WAIT),
      (ESTABLISHED, FIN_WAIT1), (ESTABLISHED, CLOSE_WAIT),
      (FIN_WAIT1, FIN_WAIT2), (FIN_WAIT1, CLOSING), (FIN_WAIT1, TIME_WAIT), (FIN_WAIT2, TIME_WAIT),
      (CLOSE_WAIT, LAST_ACK), (CLOSING, TIME_WAIT), (LAST_ACK, CLOSED), (TIME_WAIT, CLOSED)} \<union>
     {(s, CLOSED) | s. s \<in> {SYN_RECEIVED, ESTABLISHED, FIN_WAIT1, FIN_WAIT2, CLOSE_WAIT, CLOSING}}"

abbreviation along :: "tcp_state \<Rightarrow> tcp_state \<Rightarrow> bool" where
  "along s t \<equiv> s = t \<or> (s, t) \<in> diagram"

lemma handler_cases:
  "handler s c = (case state c of LISTENING \<Rightarrow> listening s c | SYN_SENT \<Rightarrow> syn_sent s c | SYN_RECEIVED \<Rightarrow> syn_received s c |
     ESTABLISHED \<Rightarrow> established s c | FIN_WAIT1 \<Rightarrow> fin_wait1 s c | FIN_WAIT2 \<Rightarrow> fin_wait2 s c | CLOSE_WAIT \<Rightarrow> close_wait s c |
     CLOSING \<Rightarrow> closing s c | LAST_ACK \<Rightarrow> last_ack s c | TIME_WAIT \<Rightarrow> time_wait s c | CLOSED \<Rightarrow> closed s c)"
  by (simp add: handler_def state_index_def handlers_def split: tcp_state.split)

lemmas handler_defs = listening_def syn_sent_def syn_received_def established_def fin_wait1_def fin_wait2_def close_wait_def closing_def
  last_ack_def time_wait_def closed_def

lemma if_in: "x \<in> A \<Longrightarrow> y \<in> A \<Longrightarrow> (if b then x else y) \<in> A"
  by simp

lemma step_states [conn_simps]:
  "state (set_state s c) = s" "state (invalid c) = state c" "state (set_timeout t c) = state c" "state (transition_signal c) = state c"
  "state (transition_wait c) = state c" "state (ack_data c) = state c" "state (process_fin h c) = state c"
  by (simp_all add: conn_defs fsend_frame)

lemmas state_of_if = if_distrib [of state] Let_def prod.case check_sequence_def conn_simps

lemma listening_state: "state c = LISTENING \<Longrightarrow> state (listening s c) \<in> {LISTENING}"
  unfolding listening_def state_of_if by (intro if_in) (simp_all add: conn_simps)

lemma conn_close_state:
  "state (conn_close c) \<in> (case state c of CLOSED \<Rightarrow> {CLOSED} | LISTENING \<Rightarrow> {CLOSED} | SYN_SENT \<Rightarrow> {CLOSED} |
     ESTABLISHED \<Rightarrow> {FIN_WAIT1} | SYN_RECEIVED \<Rightarrow> {FIN_WAIT1} | CLOSE_WAIT \<Rightarrow> {LAST_ACK} | s \<Rightarrow> {s})"
  by (cases "state c") (simp_all add: conn_close_def conn_simps Let_def)

lemma syn_sent_state: "state c = SYN_SENT \<Longrightarrow> state (syn_sent s c) \<in> {SYN_SENT, SYN_RECEIVED, ESTABLISHED, CLOSED}"
  using conn_close_state [of c] unfolding syn_sent_def state_of_if by (intro if_in) (simp_all add: conn_simps)

lemma syn_received_state: "state c = SYN_RECEIVED \<Longrightarrow> state (syn_received s c) \<in> {SYN_RECEIVED, ESTABLISHED, CLOSE_WAIT, CLOSED}"
  unfolding syn_received_def state_of_if by (intro if_in) (simp_all add: conn_simps)

lemma established_state: "state c = ESTABLISHED \<Longrightarrow> state (established s c) \<in> {ESTABLISHED, CLOSE_WAIT, CLOSED}"
  unfolding established_def state_of_if by (intro if_in) (simp_all add: conn_simps)

lemma fin_wait1_state: "state c = FIN_WAIT1 \<Longrightarrow> state (fin_wait1 s c) \<in> {FIN_WAIT1, FIN_WAIT2, CLOSING, TIME_WAIT, CLOSED}"
  unfolding fin_wait1_def state_of_if by (intro if_in) (simp_all add: conn_simps)

lemma fin_wait2_state: "state c = FIN_WAIT2 \<Longrightarrow> state (fin_wait2 s c) \<in> {FIN_WAIT2, TIME_WAIT, CLOSED}"
  unfolding fin_wait2_def state_of_if by (intro if_in) (simp_all add: conn_simps)

lemma close_wait_state: "state c = CLOSE_WAIT \<Longrightarrow> state (close_wait s c) \<in> {CLOSE_WAIT, CLOSED}"
  unfolding close_wait_def closed_def state_of_if by (intro if_in) (simp_all add: conn_simps)

lemma closing_state: "state c = CLOSING \<Longrightarrow> state (closing s c) \<in> {CLOSING, TIME_WAIT, CLOSED}"
  unfolding closing_def state_of_if by (intro if_in) (simp_all add: conn_simps)

lemma last_ack_state: "state c = LAST_ACK \<Longrightarrow> state (last_ack s c) \<in> {LAST_ACK, CLOSED}"
  unfolding last_ack_def state_of_if by (intro if_in) (simp_all add: conn_simps)

lemma time_wait_state: "state c = TIME_WAIT \<Longrightarrow> state (time_wait s c) \<in> {TIME_WAIT, CLOSED}"
  unfolding time_wait_def state_of_if by (intro if_in) (simp_all add: conn_simps)

lemmas handler_states = listening_state syn_sent_state syn_received_state established_state fin_wait1_state fin_wait2_state
  close_wait_state closing_state last_ack_state time_wait_state

lemma along_sets:
  "t \<in> {LISTENING} \<Longrightarrow> along LISTENING t" "t \<in> {SYN_SENT, SYN_RECEIVED, ESTABLISHED, CLOSED} \<Longrightarrow> along SYN_SENT t"
  "t \<in> {SYN_RECEIVED, ESTABLISHED, CLOSE_WAIT, CLOSED} \<Longrightarrow> along SYN_RECEIVED t" "t \<in> {ESTABLISHED, CLOSE_WAIT, CLOSED} \<Longrightarrow> along ESTABLISHED t"
  "t \<in> {FIN_WAIT1, FIN_WAIT2, CLOSING, TIME_WAIT, CLOSED} \<Longrightarrow> along FIN_WAIT1 t" "t \<in> {FIN_WAIT2, TIME_WAIT, CLOSED} \<Longrightarrow> along FIN_WAIT2 t"
  "t \<in> {CLOSE_WAIT, CLOSED} \<Longrightarrow> along CLOSE_WAIT t" "t \<in> {CLOSING, TIME_WAIT, CLOSED} \<Longrightarrow> along CLOSING t"
  "t \<in> {LAST_ACK, CLOSED} \<Longrightarrow> along LAST_ACK t" "t \<in> {TIME_WAIT, CLOSED} \<Longrightarrow> along TIME_WAIT t"
  by (auto simp: diagram_def)

lemma handler_along: "along (state c) (state (handler s c))"
proof (cases "state c")
  case LISTENING
  then show ?thesis using along_sets(1) [OF handler_states(1) [of c s]] by (simp add: handler_cases)
next
  case SYN_SENT
  then show ?thesis using along_sets(2) [OF handler_states(2) [of c s]] by (simp add: handler_cases)
next
  case SYN_RECEIVED
  then show ?thesis using along_sets(3) [OF handler_states(3) [of c s]] by (simp add: handler_cases)
next
  case ESTABLISHED
  then show ?thesis using along_sets(4) [OF handler_states(4) [of c s]] by (simp add: handler_cases)
next
  case FIN_WAIT1
  then show ?thesis using along_sets(5) [OF handler_states(5) [of c s]] by (simp add: handler_cases)
next
  case FIN_WAIT2
  then show ?thesis using along_sets(6) [OF handler_states(6) [of c s]] by (simp add: handler_cases)
next
  case CLOSE_WAIT
  then show ?thesis using along_sets(7) [OF handler_states(7) [of c s]] by (simp add: handler_cases)
next
  case CLOSING
  then show ?thesis using along_sets(8) [OF handler_states(8) [of c s]] by (simp add: handler_cases)
next
  case LAST_ACK
  then show ?thesis using along_sets(9) [OF handler_states(9) [of c s]] by (simp add: handler_cases)
next
  case TIME_WAIT
  then show ?thesis using along_sets(10) [OF handler_states(10) [of c s]] by (simp add: handler_cases)
next
  case CLOSED
  then show ?thesis by (simp add: handler_cases closed_def)
qed

lemma conn_close_along: "along (state c) (state (conn_close c))"
  using conn_close_state [of c] by (cases "state c") (simp_all add: diagram_def)

lemma arrive_frame [conn_simps]:
  "state (arrive from s n c) = state c" "valid (arrive from s n c) = valid c" "delivered (arrive from s n c) = delivered c"
  "observer (arrive from s n c) = observer c" "streaming (arrive from s n c) = streaming c" "alarm (arrive from s n c) = alarm c"
  "transition_waiting (arrive from s n c) = transition_waiting c" "tries (arrive from s n c) = tries c" "len (arrive from s n c) = n"
  "h_acknowledgment (arrive from s n c) = h_acknowledgment c" "next_seq (arrive from s n c) = next_seq c"
  "unacknowledged (arrive from s n c) = unacknowledged c" "initial (arrive from s n c) = initial c"
  "nic (arrive from s n c) = nic c" "sent (arrive from s n c) = sent c"
  by (simp_all add: arrive_def Let_def)

lemma slide_frame:
  "slide s c = (c', r) \<Longrightarrow> state c' = state c \<and> valid c' = valid c \<and> delivered c' = delivered c \<and> observer c' = observer c \<and>
     streaming c' = streaming c \<and> alarm c' = alarm c \<and> transition_waiting c' = transition_waiting c \<and> tries c' = tries c \<and> len c' = len c \<and>
     h_acknowledgment c' = h_acknowledgment c \<and> next_seq c' = next_seq c"
  by (auto simp: slide_def split: if_splits)

lemma notify_frame:
  "conn_notify data c = (c', b) \<Longrightarrow> state c' = state c \<and> valid c' = valid c \<and> streaming c' = streaming c \<and> alarm c' = alarm c \<and>
     transition_waiting c' = transition_waiting c \<and> tries c' = tries c \<and> h_acknowledgment c' = h_acknowledgment c \<and> next_seq c' = next_seq c"
  by (auto simp: conn_notify_def split: if_splits)

text \<open>Whatever arrives, a connection closes, stays, or does what the handler of its state does.\<close>

lemma update_handled:
  assumes "slide s (arrive from s (word_of_nat (length data)) c) = (c2, r)"
  shows "state (fst (update from s data c)) \<in> {state c, CLOSED, state (handler s c2)}"
proof -
  have st: "state c2 = state c" using slide_frame [OF assms] by (simp add: conn_simps)
  show ?thesis
    unfolding update_def assms Let_def prod.case conn_notify_def if_distrib [of fst] if_distrib [of state] fst_conv conn_simps
    by (intro if_in) (simp_all add: conn_simps stream_signal_def split: prod.splits)
qed

lemma update_along: "along (state c) (state (fst (update from s data c)))"
proof -
  have closed: "along (state c) CLOSED" by (cases "state c") (simp_all add: diagram_def)
  obtain c2 r where sl: "slide s (arrive from s (word_of_nat (length data)) c) = (c2, r)" by fastforce
  have "state c2 = state c" using slide_frame [OF sl] by (simp add: conn_simps)
  then show ?thesis using handler_along [of c2 s] closed update_handled [OF sl] by auto
qed

lemma timeout_along: "along (state c) (state (timeout c))"
  by (cases "state c") (simp_all add: timeout_def conn_defs conn_simps Let_def diagram_def)

lemma handler_establishes:
  assumes "state (handler s c) = ESTABLISHED" "state c \<noteq> ESTABLISHED"
  shows "flag ACK s \<and> h_acknowledgment s \<le> next_seq c \<and>
    (state c = SYN_SENT \<and> flag SYN s \<and> initial c < h_acknowledgment s \<or> state c = SYN_RECEIVED \<and> unacknowledged c \<le> h_acknowledgment s)"
  using assms
  by (cases "state c") (simp_all add: handler_cases handler_defs conn_defs conn_simps Let_def conn_close_def not_le split: if_splits)

lemma update_established:
  assumes "state (fst (update from s data c)) = ESTABLISHED" "state c \<noteq> ESTABLISHED"
  shows "flag ACK s \<and> h_acknowledgment s \<le> next_seq c \<and>
    (state c = SYN_SENT \<and> flag SYN s \<and> initial c < h_acknowledgment s \<or>
     state c = SYN_RECEIVED \<and> (\<not> streaming c \<longrightarrow> unacknowledged c \<le> h_acknowledgment s))"
proof -
  obtain c2 r where sl: "slide s (arrive from s (word_of_nat (length data)) c) = (c2, r)" by fastforce
  have "initial c2 = initial c" "\<not> streaming c \<longrightarrow> unacknowledged c2 = unacknowledged c"
    using sl by (auto simp: slide_def conn_simps split: if_splits)
  moreover have "state (handler s c2) = ESTABLISHED" using update_handled [OF sl] assms by auto
  ultimately show ?thesis using handler_establishes [of s c2] assms(2) slide_frame [OF sl] by (auto simp: conn_simps)
qed

text \<open>
  C14. A connection moves along the state diagram of RFC 793: whatever segment arrives, when its alarm goes off, and when
  it is closed. From \<open>SYN_SENT\<close> it becomes established only on a SYN that acknowledges more than its initial number and no more than
  what it has sent, that is, its own SYN; from \<open>SYN_RECEIVED\<close> on an acknowledgement from \<open>_unacknowledged\<close> to what it has sent, which
  need not cover its SYN (\<open>unacknowledged_syn_establishes\<close>); from no other state.
\<close>

theorem tcp_follows_diagram:
  "along (state c) (state (fst (update from s data c))) \<and> along (state c) (state (timeout c)) \<and> along (state c) (state (conn_close c)) \<and>
   (state (fst (update from s data c)) = ESTABLISHED \<and> state c \<noteq> ESTABLISHED \<longrightarrow>
      flag ACK s \<and> h_acknowledgment s \<le> next_seq c \<and>
      (state c = SYN_SENT \<and> flag SYN s \<and> initial c < h_acknowledgment s \<or>
       state c = SYN_RECEIVED \<and> (streaming c \<or> unacknowledged c \<le> h_acknowledgment s)))"
  using update_along [of c "from" s data] timeout_along [of c] conn_close_along [of c] update_established [of "from" s data c] by blast

theorem tcp_follows_diagram_witness:
  "(7 :: uint) < h_acknowledgment ((header_new 1024 80 9 0)\<lparr>h_acknowledgment := 8, h_flags := SYN OR ACK\<rparr>)"
proof -
  have "state (fst (update 0x0a000102 ((header_new 1024 80 9 0)\<lparr>h_acknowledgment := 8, h_flags := SYN OR ACK\<rparr>) [] (tcp_attach 7 80 (0x0a000102, 1024)))) = ESTABLISHED"
    by (simp add: update_def arrive_def early_def bad_ack_def slide_def handler_cases syn_sent_def attach_defs)
  with tcp_follows_diagram [of "tcp_attach 7 80 (0x0a000102, 1024)" "0x0a000102" "(header_new 1024 80 9 0)\<lparr>h_acknowledgment := 8, h_flags := SYN OR ACK\<rparr>" "[]"]
  show ?thesis by (simp add: attach_defs)
qed

lemma syn_received_accepts:
  assumes "state c = SYN_RECEIVED" "\<not> streaming c" "h_sequence s = h_acknowledgment c" "h_flags s = ACK"
    and "unacknowledged c \<le> h_acknowledgment s" "h_acknowledgment s \<le> next_seq c" "h_acknowledgment c < h_acknowledgment c + WINDOW"
  shows "state (fst (update from s [] c)) = ESTABLISHED"
proof -
  define c1 where "c1 = arrive from s 0 c"
  have c1: "state c1 = SYN_RECEIVED" "\<not> streaming c1" "h_acknowledgment c1 = h_acknowledgment c" "unacknowledged c1 = unacknowledged c"
    "next_seq c1 = next_seq c" "len c1 = 0"
    using assms(1,2) by (simp_all add: c1_def conn_simps)
  have guards: "\<not> early s c1" "\<not> bad_ack s c1" "slide s c1 = (c1, False)"
    using c1 assms by (simp_all add: early_def bad_ack_def slide_def not_less)
  have "seq_acceptable s c1" using c1 assms by (simp add: seq_acceptable_def WINDOW_def)
  then have "handler s c1 = transition_signal ((set_state ESTABLISHED (c1\<lparr>valid := True\<rparr>))\<lparr>tries := 0\<rparr>)"
    using c1 assms by (simp add: handler_cases syn_received_def check_sequence_def ack_data_def set_state_def flag_def flag_defs Let_def)
  then show ?thesis
    using guards c1 unfolding update_def by (simp add: c1_def [symmetric] Let_def set_state_def transition_signal_def)
qed

text \<open>
  A server whose SYN has just been sent, and is outstanding, takes the connection as established on an acknowledgement of its initial
  number only, which acknowledges nothing: \<open>listen\<close> sets \<open>_unacknowledged\<close> to the initial number and \<open>syn_received\<close> accepts it, where
  RFC 793 asks for a number above it.
\<close>

theorem unacknowledged_syn_establishes:
  assumes "nic c = []" "\<not> streaming c" "\<not> retransmiting c" "next_seq c = initial c" "initial c < 0xFFFFFFFF"
    and "h_sequence s = h_acknowledgment c" "h_flags s = ACK" "h_acknowledgment s = initial c" "h_acknowledgment c < 0xFFFFFFFF - WINDOW"
  shows "state (listen_syn c) = SYN_RECEIVED \<and> h_acknowledgment s < next_seq (listen_syn c) \<and> state (fst (update from s [] (listen_syn c))) = ESTABLISHED"
proof -
  have n: "next_seq (listen_syn c) = initial c + 1"
    using assms(1,4) by (simp add: listen_syn_def fsend_def nic_alloc_def ip_send_def flag_def flag_defs conn_defs Let_def)
  have lt: "initial c < initial c + 1" using assms(5) by (simp add: word_less_nat_alt unat_word_ariths) 
  have w: "h_acknowledgment c < h_acknowledgment c + WINDOW" using assms(9) by (simp add: WINDOW_def word_less_nat_alt unat_word_ariths)
  have l: "state (listen_syn c) = SYN_RECEIVED" "h_acknowledgment (listen_syn c) = h_acknowledgment c" "unacknowledged (listen_syn c) = initial c"
    "streaming (listen_syn c) = streaming c" "initial (listen_syn c) = initial c"
    by (simp_all add: listen_syn_def conn_defs conn_simps Let_def)
  have "state (fst (update from s [] (listen_syn c))) = ESTABLISHED"
    by (rule syn_received_accepts) (use l n lt w assms in simp_all)
  then show ?thesis using l n lt assms(8) by simp
qed

theorem unacknowledged_syn_establishes_witness:
  "state (fst (update 0x0a000102 ((header_new 1024 80 10 0)\<lparr>h_acknowledgment := 7, h_flags := ACK\<rparr>) []
     (listen_syn ((connection_new 7 80 (0x0a000102, 1024))\<lparr>h_acknowledgment := 10\<rparr>)))) = ESTABLISHED"
  using unacknowledged_syn_establishes [of "(connection_new 7 80 (0x0a000102, 1024))\<lparr>h_acknowledgment := 10\<rparr>"
      "(header_new 1024 80 10 0)\<lparr>h_acknowledgment := 7, h_flags := ACK\<rparr>" "0x0a000102"]
  by (simp add: attach_defs WINDOW_def)

section \<open>Identifiers\<close>

lemma bit_top: "bit (r :: port) 15 \<longleftrightarrow> 0x8000 \<le> r"
proof -
  have "bit r 15 \<longleftrightarrow> odd (unat r div 2 ^ 15)"
    by (simp only: bit_iff_odd [of "unat r", symmetric] bit_unsigned_iff) simp
  also have "\<dots> \<longleftrightarrow> 2 ^ 15 \<le> unat r"
  proof (cases "2 ^ 15 \<le> unat r")
    case True
    then have "unat r div 2 ^ 15 = 1" using unsigned_less [of r] by (intro div_nat_eqI) simp_all
    with True show ?thesis by simp
  qed simp
  finally show ?thesis by (simp add: word_le_nat_alt)
qed

lemma bit_connection_id:
  assumes "n < 64"
  shows "bit (connection_id l r ip) n \<longleftrightarrow>
    (if n < 16 then bit l n else if n < 32 then bit r (n - 16) else bit ip (n - 32) \<or> bit r 15)"
  using assms by (auto simp: connection_id_def bit_simps dest: bit_imp_le_length)

text \<open>
  \<open>Connection::id\<close> tells connections apart when the remote port is below \<open>0x8000\<close>; with a higher port (such as those
  most systems give to clients) its upper half is filled with ones, and connections of the same ports with all peers share one identifier.
\<close>

theorem connection_id_distinguishes:
  "(r < 0x8000 \<and> r' < 0x8000 \<and> connection_id l r ip = connection_id l' r' ip' \<longrightarrow> l = l' \<and> r = r' \<and> ip = ip') \<and>
   (0x8000 \<le> r \<longrightarrow> connection_id l r ip = connection_id l r ip')"
proof (intro conjI [of "_ \<longrightarrow> _"] impI; (elim conjE)?)
  assume small: "r < 0x8000" "r' < 0x8000" and eq: "connection_id l r ip = connection_id l' r' ip'"
  have top: "\<not> bit r 15" "\<not> bit r' 15" using small by (simp_all add: bit_top not_le)
  have bits: "bit (connection_id l r ip) n = bit (connection_id l' r' ip') n" for n by (simp add: eq)
  have "bit l n = bit l' n" if "n < 16" for n using bits [of n] that by (simp add: bit_connection_id)
  moreover have "bit r n = bit r' n" if "n < 16" for n using bits [of "n + 16"] that by (simp add: bit_connection_id)
  moreover have "bit ip n = bit ip' n" if "n < 32" for n using bits [of "n + 32"] that top by (simp add: bit_connection_id)
  ultimately show "l = l' \<and> r = r' \<and> ip = ip'" by (auto intro!: bit_word_eqI)
next
  assume "0x8000 \<le> r"
  then have "bit r 15" by (simp add: bit_top)
  then show "connection_id l r ip = connection_id l r ip'" by (intro bit_word_eqI) (auto simp: bit_connection_id)
qed

theorem connection_id_distinguishes_witness:
  "connection_id 80 1024 0x0a000101 \<noteq> connection_id 80 1024 0x0a000102 \<and>
   connection_id 80 0xc000 0x0a000101 = connection_id 80 0xc000 0x0a000102"
  using connection_id_distinguishes [where r = 1024 and r' = 1024 and l = 80 and l' = 80 and ip = "0x0a000101" and ip' = "0x0a000102"]
    connection_id_distinguishes [where r = "0xc000" and l = 80 and ip = "0x0a000101" and ip' = "0x0a000102"] by auto

section \<open>Receiving a stream\<close>

text \<open>
  \<open>piece\<close>: a segment with some part of the stream \<open>S\<close> of a peer whose initial sequence number is \<open>irs\<close>, and no flag but \<open>ACK\<close>.
  \<open>receiving\<close>: an open connection whose observer has got the first \<open>k\<close> bytes of \<open>S\<close>, in addition to \<open>D\<close>.
\<close>

definition piece :: "uint \<Rightarrow> byte list \<Rightarrow> tcp_header \<times> byte list \<Rightarrow> bool" where
  "piece irs S = (\<lambda>(s, data). h_flags s = ACK \<and>
     (\<exists>j. j + length data \<le> length S \<and> h_sequence s = irs + 1 + word_of_nat j \<and> data = take (length data) (drop j S)))"

definition receiving :: "uint \<Rightarrow> byte list \<Rightarrow> byte list list \<Rightarrow> nat \<Rightarrow> connection \<Rightarrow> bool" where
  "receiving irs S D k c \<longleftrightarrow> state c = ESTABLISHED \<and> observer c \<and> \<not> streaming c \<and> k \<le> length S \<and>
     h_acknowledgment c = irs + 1 + word_of_nat k \<and> concat (delivered c) = concat D @ take k S"

text \<open>The segment acknowledges something between what is unacknowledged and what has been sent.\<close>

definition acks :: "connection \<Rightarrow> tcp_header \<Rightarrow> bool" where
  "acks c s \<longleftrightarrow> unacknowledged c \<le> h_acknowledgment s \<and> h_acknowledgment s \<le> next_seq c"

lemma flag_ACK: "h_flags s = ACK \<Longrightarrow> flag ACK s \<and> \<not> flag RST s \<and> \<not> flag SYN s \<and> \<not> flag FIN s"
  by (simp add: flag_def flag_defs)

lemma fsend_ACK_next [conn_simps]: "next_seq (fsend ACK c) = next_seq c"
  by (simp add: fsend_def nic_alloc_def ip_send_def Let_def flag_def flag_defs split: list.split)

lemma established_data:
  assumes "h_flags s = ACK" "acks c s"
  shows "established s c =
    (if seq_acceptable s c then ack_data (c\<lparr>valid := True\<rparr>) else fsend ACK (c\<lparr>valid := False\<rparr>))"
  using flag_ACK [OF assms(1)] assms(2) by (simp add: established_def check_sequence_def invalid_def acks_def)

text \<open>The numbers: segment at \<open>j\<close>, next expected \<open>k\<close>.\<close>

lemma stream_numbers:
  assumes "unat irs + 1 + length (S :: byte list) + 4096 < 2 ^ 32" "j + n \<le> length S" "k \<le> length S"
    and "h_sequence s = irs + 1 + word_of_nat j" "h_acknowledgment c = irs + 1 + word_of_nat k" "len c = word_of_nat n"
  shows "early s c \<longleftrightarrow> \<not> (state c = LISTENING \<or> state c = SYN_SENT) \<and> k < j" "j \<le> k \<Longrightarrow> seq_acceptable s c \<longleftrightarrow> j = k"
    "len c = 0 \<longleftrightarrow> n = 0"
proof -
  have u: "unat (irs + 1 + word_of_nat i) = unat irs + 1 + i" if "i \<le> length S + 4096" for i
    using assms(1) that by (simp add: unat_word_ariths unsigned_of_nat take_bit_nat_eq_self)
  have j: "unat (h_sequence s) = unat irs + 1 + j" using u [of j] assms(2,4) by simp
  have k: "unat (h_acknowledgment c) = unat irs + 1 + k" using u [of k] assms(3,5) by simp
  have w: "unat (h_acknowledgment c + WINDOW) = unat irs + 1 + k + 4096"
    using k assms(1,3) by (simp add: unat_word_ariths WINDOW_def)
  have p: "unat (h_sequence s - 1) = unat irs + j" using j by (simp add: unat_minus_one unat_dec)
  show "early s c \<longleftrightarrow> \<not> (state c = LISTENING \<or> state c = SYN_SENT) \<and> k < j"
    by (simp add: early_def word_less_nat_alt j k)
  show l: "len c = 0 \<longleftrightarrow> n = 0"
    using assms(1,2,6) by (simp add: word_unat_eq_iff unsigned_of_nat take_bit_nat_eq_self)
  show "seq_acceptable s c \<longleftrightarrow> j = k" if "j \<le> k"
    unfolding seq_acceptable_def l using that
    by (simp add: WINDOW_def [symmetric] word_le_nat_alt word_less_nat_alt j k w l) (auto simp: p WINDOW_def l assms(6))
qed

lemma ack_data_frame [conn_simps]:
  "observer (ack_data c) = observer c" "delivered (ack_data c) = delivered c" "valid (ack_data c) = valid c" "len (ack_data c) = len c"
  "streaming (ack_data c) = streaming c" "unacknowledged (ack_data c) = unacknowledged c" "next_seq (ack_data c) = next_seq c"
  "h_acknowledgment (ack_data c) = h_acknowledgment c + len c"
  by (simp_all add: ack_data_def conn_simps)

lemma receive_piece:
  assumes bound: "unat irs + 1 + length S + 4096 < 2 ^ 32" and r: "receiving irs S D k c" and "piece irs S (s, data)" and a: "acks c s"
  shows "\<exists>k'. receiving irs S D k' (fst (update from s data c)) \<and> acks (fst (update from s data c)) = acks c"
proof -
  obtain j where j: "h_flags s = ACK" "j + length data \<le> length S" "h_sequence s = irs + 1 + word_of_nat j" "data = take (length data) (drop j S)"
    using assms(3) by (auto simp: piece_def)
  define c1 where "c1 = arrive from s (word_of_nat (length data)) c"
  have st: "state c = ESTABLISHED" "\<not> streaming c" "k \<le> length S" and kn: "h_acknowledgment c = irs + 1 + word_of_nat k"
    using r by (simp_all add: receiving_def)
  have r1: "receiving irs S D k c1" and acks1: "acks c1 = acks c"
    using r by (simp_all add: c1_def receiving_def acks_def conn_simps fun_eq_iff)
  have n: "early s c1 \<longleftrightarrow> k < j" "j \<le> k \<Longrightarrow> seq_acceptable s c1 \<longleftrightarrow> j = k" "len c1 = 0 \<longleftrightarrow> data = []"
    using stream_numbers [OF bound j(2) st(3) j(3), of c1] kn st(1) by (simp_all add: c1_def conn_simps)
  have b: "\<not> bad_ack s c1" using a by (simp add: acks_def bad_ack_def c1_def conn_simps not_less)
  have sl: "slide s c1 = (c1, False)" using r1 by (simp add: slide_def receiving_def)
  have h: "handler s c1 = (if seq_acceptable s c1 then ack_data (c1\<lparr>valid := True\<rparr>) else fsend ACK (c1\<lparr>valid := False\<rparr>))"
    using established_data [OF j(1), of c1] a r1 by (simp add: handler_cases acks1 receiving_def)
  note u = update_def [of "from" s data c, folded c1_def, unfolded Let_def] sl h b n(1)
  consider "k < j" | "j < k" | "j = k" by linarith
  then show ?thesis
  proof cases
    case 1
    then have "fst (update from s data c) = c1" by (simp add: u)
    then show ?thesis using r1 acks1 by auto
  next
    case 2
    then have "fst (update from s data c) = fsend ACK (c1\<lparr>valid := False\<rparr>)" using n(2) by (simp add: u conn_simps)
    then show ?thesis using r1 acks1 by (intro exI [of _ k]) (simp add: receiving_def acks_def conn_simps fun_eq_iff)
  next
    case 3
    let ?c = "ack_data (c1\<lparr>valid := True\<rparr>)"
    have c': "fst (update from s data c) = (if data = [] then ?c else ?c\<lparr>delivered := delivered c1 @ [data]\<rparr>)"
      using 3 n(2,3) r1 by (simp add: u conn_simps conn_notify_def receiving_def)
    have "take k S @ data = take (k + length data) S" using j(4) 3 by (metis take_add)
    then show ?thesis using r1 acks1 3 j(2)
      by (intro exI [of _ "k + length data"])
         (auto simp: c' receiving_def acks_def conn_simps fun_eq_iff c1_def)
  qed
qed

text \<open>
  C15. What a connection hands to its observer is, in order and without repetition, a prefix of the stream of its peer, however the
  network loses, repeats, reorders and re-segments the peer's segments; and the number it acknowledges is the one after that prefix.
\<close>

theorem tcp_receives_in_order:
  assumes "unat irs + 1 + length S + 4096 < 2 ^ 32" "receiving irs S D k c"
    and "\<forall>x \<in> set segments. piece irs S x \<and> acks c (fst x)"
  shows "\<exists>k'. receiving irs S D k' (fold (\<lambda>(s, data) c. fst (update from s data c)) segments c)"
  using assms(2,3)
proof (induction segments arbitrary: c k)
  case (Cons x segments)
  obtain s data where x: "x = (s, data)" by (cases x)
  obtain k' where "receiving irs S D k' (fst (update from s data c))" "acks (fst (update from s data c)) = acks c"
    using receive_piece [OF assms(1) Cons.prems(1), of s data "from"] Cons.prems(2) x by auto
  then show ?case using Cons.IH Cons.prems(2) x by simp
qed auto

text \<open>An open connection of the witnesses.\<close>

definition open_connection :: "connection" where
  "open_connection = (connection_new 7 80 (0x0a000102, 1024))
     \<lparr>state := ESTABLISHED, h_acknowledgment := 101, observer := True, next_seq := 8, unacknowledged := 8\<rparr>"

definition data_segment :: "uint \<Rightarrow> tcp_header" where
  "data_segment seq = (header_new 1024 80 seq 4096)\<lparr>h_acknowledgment := 8, h_flags := ACK\<rparr>"

lemma open_connection_receives: "receiving 100 [1, 2, 3] [] 0 open_connection"
  by (simp add: receiving_def open_connection_def connection_new_def connection.defs tcp_header.defs Let_def)

theorem tcp_receives_in_order_witness:
  "\<exists>k'. receiving 100 [1, 2, 3] [] k' (fold (\<lambda>(s, data) c. fst (update 0x0a000102 s data c))
     [(data_segment 102, [2, 3]), (data_segment 101, [1, 2]), (data_segment 101, [1, 2]), (data_segment 103, [3])] open_connection)"
proof (rule tcp_receives_in_order [OF _ open_connection_receives])
  have p: "piece 100 [1, 2, 3] (data_segment 101, [1, 2])" "piece 100 [1, 2, 3] (data_segment 102, [2, 3])" "piece 100 [1, 2, 3] (data_segment 103, [3])"
    by (auto simp: piece_def data_segment_def header_new_def intro: exI [of _ 0] exI [of _ 1] exI [of _ 2])
  have a: "acks open_connection (data_segment q)" for q
    by (simp add: acks_def open_connection_def data_segment_def connection_new_def connection.defs tcp_header.defs header_new_def Let_def)
  show "\<forall>x \<in> set [(data_segment 102, [2, 3]), (data_segment 101, [1, 2]), (data_segment 101, [1, 2]), (data_segment 103, [3])].
      piece 100 [1, 2, 3] x \<and> acks open_connection (fst x)"
    using p a by simp
qed simp

section \<open>Refused and unanswered calls\<close>

text \<open>A connection that was closed under its waiting owner, with fewer than three retries behind it.\<close>

definition stuck :: "connection \<times> owner \<Rightarrow> bool" where
  "stuck = (\<lambda>(c, p). state c = CLOSED \<and> transition_waiting c \<and> tries c \<noteq> 3 \<and> \<not> streaming c)"

lemma fsend_stuck: "stuck (fsend f c, p) = stuck (c, p)"
  by (simp add: stuck_def conn_simps)

lemma stuck_step: "stuck x \<Longrightarrow> tcp_step x y \<Longrightarrow> stuck y"
  by (erule tcp_step.cases)
     (auto simp: stuck_def update_def timeout_def slide_def handler_cases closed_def arrive_frame Let_def conn_simps
       conn_notify_def conn_defs split: if_splits)

lemma stuck_reaches: "tcp_reaches x y \<Longrightarrow> stuck x \<Longrightarrow> stuck y"
  by (induction rule: tcp_reaches.induct) (auto intro: stuck_step)

text \<open>A reset, or any segment without \<open>ACK\<close> and \<open>SYN\<close>, while the connection waits for the answer to its \<open>SYN\<close>.\<close>

definition refusal :: "tcp_header \<Rightarrow> connection \<Rightarrow> bool" where
  "refusal s c \<longleftrightarrow> (if flag ACK s then flag RST s \<and> initial c < h_acknowledgment s \<and> unacknowledged c \<le> h_acknowledgment s \<and> h_acknowledgment s \<le> next_seq c
     else (flag RST s \<or> \<not> flag SYN s) \<and> h_acknowledgment s \<le> next_seq c)"

lemma refusal_sticks:
  assumes "state c = SYN_SENT" "transition_waiting c" "tries c \<noteq> 3" "\<not> streaming c" "refusal s c"
  shows "stuck (fst (update from s data c), p)"
proof -
  define c1 where "c1 = arrive from s (word_of_nat (length data)) c"
  have c1: "state c1 = SYN_SENT" "transition_waiting c1" "tries c1 \<noteq> 3" "\<not> streaming c1" "initial c1 = initial c"
    "next_seq c1 = next_seq c" "unacknowledged c1 = unacknowledged c"
    using assms(1-4) by (simp_all add: c1_def conn_simps)
  have sl: "slide s c1 = (c1, False)" using c1 by (simp add: slide_def)
  have h: "handler s c1 = set_state CLOSED (if flag ACK s then invalid c1 else c1)"
    using assms(5) c1 by (auto simp: handler_cases syn_sent_def refusal_def conn_close_def not_le not_less)
  have "\<not> early s c1" "\<not> bad_ack s c1" using assms(5) c1 by (auto simp: early_def bad_ack_def refusal_def not_less split: if_splits)
  then show ?thesis
    using c1 h by (simp add: update_def c1_def [symmetric] Let_def sl stuck_def conn_defs)
qed

text \<open>
  A refused connection attempt never returns: when the peer answers the \<open>SYN\<close> with a reset, the connection is closed
  without a signal, and whatever happens afterwards its owner stays blocked in \<open>connect()\<close>.
\<close>

theorem refused_connect_hangs:
  assumes "state c = SYN_SENT" "transition_waiting c" "tries c \<noteq> 3" "\<not> streaming c" "refusal s c"
    and "tcp_reaches (fst (update from s data c), p) (c', p')"
  shows "state c' = CLOSED \<and> transition_waiting c'"
  using stuck_reaches [OF assms(6) refusal_sticks [OF assms(1-5)]] by (simp add: stuck_def)

definition reset_answer :: "connection" where
  "reset_answer = fst (update 0x0a000102 ((header_new 1024 80 0 0)\<lparr>h_flags := RST\<rparr>) [] (tcp_attach 7 80 (0x0a000102, 1024)))"

theorem refused_connect_hangs_witness: "state (timeout reset_answer) = CLOSED \<and> transition_waiting (timeout reset_answer)"
proof -
  let ?c = "tcp_attach 7 80 (0x0a000102, 1024)"
  have c: "state ?c = SYN_SENT" "transition_waiting ?c" "tries ?c \<noteq> 3" "\<not> streaming ?c" "refusal ((header_new 1024 80 0 0)\<lparr>h_flags := RST\<rparr>) ?c"
    by (simp_all add: refusal_def attach_defs)
  have "tcp_reaches (reset_answer, Connecting 0) (timeout reset_answer, Connecting 0)"
    by (rule tcp_reaches.step [OF tcp_reaches.refl tcp_step.alarm])
       (simp add: reset_answer_def update_def arrive_def early_def bad_ack_def slide_def handler_cases syn_sent_def conn_close_def attach_defs)
  then show ?thesis unfolding reset_answer_def by (rule refused_connect_hangs [OF c])
qed

text \<open>The sequence numbers of what a connection has sent, and the header it sent last.\<close>

definition sent_seqs :: "connection \<Rightarrow> uint list" where
  "sent_seqs c = map (\<lambda>(_, h, _). h_sequence h) (sent c)"

definition last_sent :: "connection \<Rightarrow> tcp_header" where
  "last_sent c = fst (snd (last (sent c)))"

text \<open>A connection attempt as its alarm goes off and its owner resumes, in turn.\<close>

definition expire :: "connection \<times> owner \<Rightarrow> connection \<times> owner" where
  "expire = (\<lambda>(c, p). (timeout c, p))"

definition attempt :: "int \<Rightarrow> port \<Rightarrow> ip_address \<times> port \<Rightarrow> connection \<times> owner" where
  "attempt random port to = (tcp_attach random port to, Connecting 0)"

definition given_up :: "int \<Rightarrow> port \<Rightarrow> ip_address \<times> port \<Rightarrow> connection \<times> owner" where
  "given_up random port to =
     owner_resumes (expire (owner_resumes (expire (owner_resumes ((expire ^^ 4) (attempt random port to))))))"

text \<open>A connection waits for the answer to a \<open>SYN\<close>, or has given up; \<open>q\<close> are the sequence numbers sent.\<close>

definition asking :: "uint list \<Rightarrow> uint \<Rightarrow> int \<Rightarrow> connection \<Rightarrow> bool" where
  "asking q n t c \<longleftrightarrow> state c = SYN_SENT \<and> transition_waiting c \<and> alarm c \<noteq> None \<and> nic c = [] \<and> \<not> retransmiting c \<and>
     next_seq c = n \<and> tries c = t \<and> sent_seqs c = q"

definition gave_up :: "uint list \<Rightarrow> uint \<Rightarrow> connection \<Rightarrow> bool" where
  "gave_up q n c \<longleftrightarrow> state c = CLOSED \<and> \<not> transition_waiting c \<and> nic c = [] \<and> \<not> retransmiting c \<and> next_seq c = n \<and> tries c = 3 \<and> sent_seqs c = q"

lemma connect_asks: "nic c = [] \<Longrightarrow> \<not> retransmiting c \<Longrightarrow> asking (sent_seqs c @ [next_seq c]) (next_seq c + 1) (tries c) (connect c)"
  by (simp add: asking_def connect_def connect_send_def conn_defs fsend_def nic_alloc_def ip_send_def sent_seqs_def flag_def flag_defs
      tcp_header.defs Let_def)

lemma timeout_asks: "asking q n t c \<Longrightarrow> t \<noteq> 3 \<Longrightarrow> asking (q @ [n - 1]) n (t + 1) (timeout c)"
  by (simp add: asking_def timeout_def conn_defs fsend_def nic_alloc_def ip_send_def sent_seqs_def flag_def flag_defs tcp_header.defs Let_def)

lemma timeout_gives_up: "asking q n 3 c \<Longrightarrow> gave_up q n (timeout c)"
  by (simp add: asking_def gave_up_def timeout_def conn_defs sent_seqs_def Let_def)

lemma gave_up_asks: "gave_up q n c \<Longrightarrow> asking (q @ [n]) (n + 1) 3 (connect c)"
  using connect_asks [of c] by (simp add: gave_up_def)

lemma replicate_4: "replicate 4 x = [x, x, x, x]"
  by (simp add: numeral_eq_Suc)

text \<open>
  A connection attempt that nobody answers ends: the \<open>SYN\<close> is sent four times with the same number, then the attempt is repeated
  twice more, without further retries since \<open>_tries\<close> is not reset, and the owner gets no connection.
\<close>

theorem silent_peer_gives_up:
  assumes "ip \<noteq> 0 \<or> rport \<noteq> 0" "given_up random port (ip, rport) = (c, p)"
  shows "p = Refused \<and> state c = CLOSED \<and> sent_seqs c = replicate 4 (initial (tcp_attach random port (ip, rport))) @
    [initial (tcp_attach random port (ip, rport)) + 1, initial (tcp_attach random port (ip, rport)) + 2]"
proof -
  let ?c = "\<lambda>k. (timeout ^^ k) (tcp_attach random port (ip, rport))"
  define i where "i = initial (tcp_attach random port (ip, rport))"
  have "asking [i] (i + 1) 0 (?c 0)" using assms(1)
    by (simp add: asking_def i_def sent_seqs_def attach_defs)
  then have "asking [i, i] (i + 1) 1 (?c 1)" using timeout_asks by force
  then have "asking [i, i, i] (i + 1) 2 (timeout (?c 1))" using timeout_asks by force
  then have "asking [i, i, i, i] (i + 1) 3 (timeout (timeout (?c 1)))" using timeout_asks by force
  then have g: "gave_up [i, i, i, i] (i + 1) (timeout (timeout (timeout (?c 1))))" by (rule timeout_gives_up)
  moreover have "(expire ^^ 4) (attempt random port (ip, rport)) = (timeout (timeout (timeout (?c 1))), Connecting 0)"
    by (simp add: attempt_def expire_def numeral_eq_Suc)
  ultimately obtain c1 where 1: "gave_up [i, i, i, i] (i + 1) c1" "(expire ^^ 4) (attempt random port (ip, rport)) = (c1, Connecting 0)" by blast
  then have 2: "gave_up [i, i, i, i, i + 1] (i + 2) (timeout (connect c1))" using gave_up_asks [THEN timeout_gives_up, OF 1(1)] by (simp add: add.assoc)
  then have 3: "gave_up [i, i, i, i, i + 1, i + 2] (i + 3) (timeout (connect (timeout (connect c1))))"
    using gave_up_asks [THEN timeout_gives_up, OF 2] by (simp add: add.assoc)
  have "given_up random port (ip, rport) = attach_returns (timeout (connect (timeout (connect c1))))"
    using 1 2 by (simp add: given_up_def expire_def owner_resumes_def RETRIES_def gave_up_def)
  then show ?thesis using 3 assms(2)
    by (auto simp: attach_returns_def gave_up_def conn_close_def sent_seqs_def i_def [symmetric] replicate_4)
qed

theorem silent_peer_gives_up_witness:
  "sent_seqs (fst (given_up 7 1024 (0x0a000101, 80))) = [7, 7, 7, 7, 8, 9]"
proof -
  obtain c p where g: "given_up 7 1024 (0x0a000101, 80) = (c, p)" by fastforce
  have "initial (tcp_attach 7 1024 (0x0a000101, 80)) = 7" by (simp add: attach_defs)
  then show ?thesis using silent_peer_gives_up [OF _ g] by (simp add: g replicate_4)
qed

text \<open>
  When no buffer is available for the first \<open>SYN\<close>, the retries count from a number that was never used: they ask with the number
  before the initial one, and the answer to them, which acknowledges the initial number, is taken for a bad acknowledgement.
\<close>

theorem lost_buffer_dooms_connect:
  assumes "nic c = [False]" "\<not> retransmiting c" "tries c = 0" "initial c = next_seq c" "0 < next_seq c"
    and "flag ACK s" "flag SYN s" "h_acknowledgment s = h_sequence (last_sent (timeout (connect c))) + 1"
  shows "h_sequence (last_sent (timeout (connect c))) = initial c - 1"
    and "handler s (timeout (connect c)) = fsend RST (invalid (timeout (connect c)))"
proof -
  show q: "h_sequence (last_sent (timeout (connect c))) = initial c - 1"
    using assms(1-5) by (simp add: timeout_def connect_def connect_send_def conn_defs fsend_def nic_alloc_def ip_send_def last_sent_def
      tcp_header.defs Let_def)
  have st: "state (timeout (connect c)) = SYN_SENT" "initial (timeout (connect c)) = initial c"
    using assms(1-5) by (simp_all add: timeout_def connect_def connect_send_def conn_defs fsend_def nic_alloc_def ip_send_def Let_def)
  show "handler s (timeout (connect c)) = fsend RST (invalid (timeout (connect c)))"
    using assms(6-8) by (simp add: handler_cases st syn_sent_def q)
qed

section \<open>The three-way handshake\<close>

text \<open>
  A segment \<open>s\<close> from \<open>ip\<close> reaches the host of the connection \<open>y\<close>, the only one there; \<open>Some\<close> if it is delivered to it.
\<close>

definition reach :: "ip_address \<Rightarrow> tcp_header \<Rightarrow> connection \<Rightarrow> connection option" where
  "reach ip s y = (let obs = fst (tcp_update True ip s [] [key y \<mapsto> y]) in
     if tcp_condition ip s = key y then obs (key (fst (update ip s [] y))) else None)"

lemma reach_update: "tcp_condition ip s = key y \<Longrightarrow> reach ip s y = Some (fst (update ip s [] y))"
  by (simp add: reach_def tcp_update_def Let_def split: prod.split)

lemma initial_bound: "(x :: uint) AND 0x00ffffff \<le> 0x00ffffff"
  by (rule word_and_le1)

lemma initial_succ: "i \<le> 0x00ffffff \<Longrightarrow> \<not> i + 1 \<le> i \<and> i \<le> i + 1 \<and> i + 1 < i + 1 + 4096 \<and> \<not> i + 1 < i" for i :: uint
  by (simp add: word_le_nat_alt word_less_nat_alt unat_word_ariths)

text \<open>An endpoint and its numbers; the fields of a header that matter in the handshake.\<close>

definition endpoint :: "port \<Rightarrow> port \<times> ip_address \<Rightarrow> uint \<Rightarrow> tcp_state \<Rightarrow> uint \<Rightarrow> uint \<Rightarrow> bool \<Rightarrow> connection \<Rightarrow> bool" where
  "endpoint port to iss st nxt rcv waits c \<longleftrightarrow>
     h_from c = port \<and> h_to c = fst to \<and> peer c = snd to \<and> key c = connection_id port (fst to) (snd to) \<and> initial c = iss \<and>
     unacknowledged c \<le> nxt \<and> \<not> streaming c \<and> \<not> retransmiting c \<and> nic c = [] \<and>
     state c = st \<and> next_seq c = nxt \<and> h_acknowledgment c = rcv \<and> transition_waiting c = waits"

definition header_is :: "port \<Rightarrow> port \<Rightarrow> uint \<Rightarrow> uint \<Rightarrow> byte \<Rightarrow> tcp_header \<Rightarrow> bool" where
  "header_is port rport seq ack flags s \<longleftrightarrow>
     h_from s = port \<and> h_to s = rport \<and> h_sequence s = seq \<and> h_acknowledgment s = ack \<and> h_flags s = flags"

lemmas sending_defs = fsend_def nic_alloc_def ip_send_def last_sent_def flag_def flag_defs tcp_header.defs conn_defs Let_def
lemmas arriving_defs = update_def arrive_def early_def bad_ack_def slide_def handler_cases conn_id_def

lemma client_starts:
  fixes random :: int
  assumes "ip \<noteq> 0 \<or> rport \<noteq> 0"
  defines "i \<equiv> word_of_int random AND 0x00ffffff"
  shows "endpoint port (rport, ip) i SYN_SENT (i + 1) 0 True (tcp_attach random port (ip, rport))"
    "header_is port rport i 0 SYN (last_sent (tcp_attach random port (ip, rport)))"
  using assms(1) initial_succ [OF initial_bound]
  by (auto simp: endpoint_def header_is_def attach_defs last_sent_def conn_id_def i_def)

lemma server_starts:
  fixes random :: int
  defines "j \<equiv> word_of_int random AND 0x00ffffff"
  shows "endpoint port (0, 0) j LISTENING j 0 True (tcp_attach random port (0, 0))"
  using initial_succ [OF initial_bound]
  by (auto simp: endpoint_def attach_defs listen_def last_sent_def conn_id_def j_def)

lemma server_gets_syn:
  assumes "endpoint port to j LISTENING j 0 True y" "header_is rport port i 0 SYN s"
  shows "endpoint port (rport, ip) j LISTENING j (i + 1) False (fst (update ip s [] y))"
  using assms by (simp add: endpoint_def header_is_def arriving_defs listening_def sending_defs)

lemma server_answers:
  assumes "endpoint port (rport, ip) j LISTENING j r False y" "j \<le> 0x00ffffff"
  shows "endpoint port (rport, ip) j SYN_RECEIVED (j + 1) r True (listen_syn y)"
    "header_is port rport j r (SYN OR ACK) (last_sent (listen_syn y))"
  using assms initial_succ [of j] by (simp_all add: endpoint_def header_is_def listen_syn_def sending_defs)

lemma client_gets_synack:
  assumes "endpoint port (rport, ip) i SYN_SENT (i + 1) 0 True x" "header_is rport port j (i + 1) (SYN OR ACK) s" "i \<le> 0x00ffffff"
  shows "endpoint port (rport, ip) i ESTABLISHED (i + 1) (j + 1) False (fst (update ip s [] x))"
    "header_is port rport (i + 1) (j + 1) ACK (last_sent (fst (update ip s [] x)))"
  using assms initial_succ [of i] 
  by (simp_all add: endpoint_def header_is_def arriving_defs syn_sent_def sending_defs not_le)

lemma server_gets_ack:
  assumes "endpoint port (rport, ip) j SYN_RECEIVED (j + 1) (i + 1) True y" "header_is rport port (i + 1) (j + 1) ACK s" "i \<le> 0x00ffffff"
  shows "endpoint port (rport, ip) j ESTABLISHED (j + 1) (i + 1) False (fst (update ip s [] y))"
  using assms initial_succ [of i]
  by (simp add: endpoint_def header_is_def arriving_defs syn_received_def seq_acceptable_def WINDOW_def conn_notify_def sending_defs)

text \<open>
  C25. The three-way handshake: a client attaches to a server that listens; the \<open>SYN\<close> reaches the server and wakes its owner, whose
  \<open>SYN|ACK\<close> reaches the client and establishes it, and whose acknowledgement establishes the server. Both owners get their connection,
  and each expects the number the other will send next.
\<close>

theorem handshake_establishes:
  fixes random random' :: int and pc ps :: port
  assumes "ips \<noteq> 0 \<or> ps \<noteq> 0"
  defines "x \<equiv> tcp_attach random pc (ips, ps)" and "y \<equiv> tcp_attach random' ps (0, 0)"
  shows "\<exists>y1 x1 y2. reach ipc (last_sent x) y = Some y1 \<and> \<not> transition_waiting y1 \<and>
    owner_resumes (y1, Awaiting_SYN) = (listen_syn y1, Awaiting_ACK) \<and>
    reach ips (last_sent (listen_syn y1)) x = Some x1 \<and> owner_resumes (x1, Connecting 0) = (x1, Attached) \<and>
    reach ipc (last_sent x1) (listen_syn y1) = Some y2 \<and> owner_resumes (y2, Awaiting_ACK) = (y2, Attached) \<and>
    state x1 = ESTABLISHED \<and> \<not> transition_waiting x1 \<and> state y2 = ESTABLISHED \<and> \<not> transition_waiting y2 \<and>
    h_acknowledgment x1 = next_seq y2 \<and> h_acknowledgment y2 = next_seq x1"
proof -
  define i j :: uint where "i = word_of_int random AND 0x00ffffff" and "j = word_of_int random' AND 0x00ffffff"
  have ij: "i \<le> 0x00ffffff" "j \<le> 0x00ffffff" by (simp_all add: i_def j_def initial_bound)
  define y1 where "y1 = fst (update ipc (last_sent x) [] y)"
  define x1 where "x1 = fst (update ips (last_sent (listen_syn y1)) [] x)"
  define y2 where "y2 = fst (update ipc (last_sent x1) [] (listen_syn y1))"
  note x = client_starts [OF assms(1), of pc random, folded i_def x_def]
  note y = server_starts [of ps random', folded j_def y_def]
  note y1 = server_gets_syn [OF y x(2), of ipc, folded y1_def]
  note ya = server_answers [OF y1 ij(2)]
  note x1 = client_gets_synack [OF x(1) ya(2) ij(1), folded x1_def]
  note y2 = server_gets_ack [OF ya(1) x1(2) ij(1), folded y2_def]
  have "reach ipc (last_sent x) y = Some y1" unfolding y1_def
    using x(2) y by (intro reach_update) (simp add: tcp_condition_def header_is_def endpoint_def)
  moreover have "reach ips (last_sent (listen_syn y1)) x = Some x1" unfolding x1_def
    using x(1) ya(2) by (intro reach_update) (simp add: tcp_condition_def header_is_def endpoint_def flag_defs)
  moreover have "reach ipc (last_sent x1) (listen_syn y1) = Some y2" unfolding y2_def
    using ya(1) x1(2) by (intro reach_update) (simp add: tcp_condition_def header_is_def endpoint_def flag_defs)
  ultimately show ?thesis using y1 x1(1) y2
    by (auto simp: endpoint_def owner_resumes_def attach_returns_def)
qed

theorem handshake_establishes_witness:
  "\<exists>y1 x1. reach 0x0a000101 (last_sent (tcp_attach 7 1024 (0x0a000102, 80))) (tcp_attach 9 80 (0, 0)) = Some y1 \<and>
     reach 0x0a000102 (last_sent (listen_syn y1)) (tcp_attach 7 1024 (0x0a000102, 80)) = Some x1 \<and> state x1 = ESTABLISHED"
  using handshake_establishes [where ips = "0x0a000102" and ps = 80 and ipc = "0x0a000101" and pc = 1024 and random = 7 and random' = 9] by auto

section \<open>Closing\<close>

definition far :: "uint \<Rightarrow> bool" where
  "far n \<longleftrightarrow> n \<le> 0xffff0000"

lemma far_numbers: "far n \<Longrightarrow> n < n + 1 \<and> n \<le> n + 1 \<and> n < n + 4096 \<and> \<not> n + 1 \<le> n \<and> \<not> n + 1 < n \<and> n + 1 < n + 1 + 4096"
  by (simp add: far_def word_le_nat_alt word_less_nat_alt unat_word_ariths)

lemma close_first:
  assumes "endpoint port (rport, ip) iss ESTABLISHED n r False x" "far n"
  shows "endpoint port (rport, ip) iss FIN_WAIT1 (n + 1) r True (conn_close x)" "header_is port rport n r (ACK OR FIN) (last_sent (conn_close x))"
  using assms far_numbers [of n] order.trans [of "unacknowledged x" n "n + 1"]
  by (simp_all add: endpoint_def header_is_def conn_close_def sending_defs)

lemma fin_gets_acked:
  assumes "endpoint port (rport, ip) iss ESTABLISHED n r False y" "header_is rport port r n (ACK OR FIN) s" "far r"
  shows "endpoint port (rport, ip) iss CLOSE_WAIT n (r + 1) False (fst (update ip s [] y))"
    "header_is port rport n (r + 1) ACK (last_sent (fst (update ip s [] y)))"
  using assms far_numbers [of r]
  by (simp_all add: endpoint_def header_is_def arriving_defs established_def seq_acceptable_def WINDOW_def conn_notify_def sending_defs)

lemma own_fin_acked:
  assumes "endpoint port (rport, ip) iss FIN_WAIT1 n r True x" "header_is rport port r n ACK s" "far r"
  shows "endpoint port (rport, ip) iss FIN_WAIT2 n r True (fst (update ip s [] x))"
  using assms far_numbers [of r]
  by (simp_all add: endpoint_def header_is_def arriving_defs fin_wait1_def seq_acceptable_def WINDOW_def conn_notify_def sending_defs)

lemma close_second:
  assumes "endpoint port (rport, ip) iss CLOSE_WAIT n r False y" "far n"
  shows "endpoint port (rport, ip) iss LAST_ACK (n + 1) r True (conn_close y) \<and> unacknowledged (conn_close y) \<le> n"
    "header_is port rport n r (ACK OR FIN) (last_sent (conn_close y))"
  using assms far_numbers [of n] order.trans [of "unacknowledged y" n "n + 1"]
  by (simp_all add: endpoint_def header_is_def conn_close_def sending_defs)

lemma peer_fin:
  assumes "endpoint port (rport, ip) iss FIN_WAIT2 n r True x" "header_is rport port r n (ACK OR FIN) s" "far r"
  shows "endpoint port (rport, ip) iss TIME_WAIT n (r + 1) True (fst (update ip s [] x)) \<and> alarm (fst (update ip s [] x)) = Some TIMEOUT"
    "header_is port rport n (r + 1) ACK (last_sent (fst (update ip s [] x)))"
  using assms far_numbers [of r]
  by (simp_all add: endpoint_def header_is_def arriving_defs fin_wait2_def seq_acceptable_def WINDOW_def conn_notify_def sending_defs)

lemma last_acked:
  assumes "endpoint port (rport, ip) iss LAST_ACK (n + 1) r True y" "unacknowledged y \<le> n" "header_is rport port r (n + 1) ACK s" "r < r + 4096" "far n"
  shows "state (fst (update ip s [] y)) = CLOSED \<and> \<not> transition_waiting (fst (update ip s [] y))"
  using assms far_numbers [of n]
  by (auto simp: endpoint_def header_is_def arriving_defs last_ack_def fin_acked_def seq_acceptable_def WINDOW_def conn_notify_def sending_defs)

text \<open>
  Closing: when the two owners of an idle connection close it one after the other, the four segments take one end through
  \<open>FIN_WAIT1\<close>, \<open>FIN_WAIT2\<close> and \<open>TIME_WAIT\<close>, the other through \<open>CLOSE_WAIT\<close> and \<open>LAST_ACK\<close>; both end in \<open>CLOSED\<close>, the first
  when its alarm goes off, and both owners return.
\<close>

theorem closing_handshake:
  assumes "endpoint pc (ps, ips) i ESTABLISHED n r False x" "endpoint ps (pc, ipc) j ESTABLISHED r n False y" "far n" "far r"
  defines "x1 \<equiv> conn_close x"
  defines "y1 \<equiv> fst (update ipc (last_sent x1) [] y)"
  defines "x2 \<equiv> fst (update ips (last_sent y1) [] x1)"
  defines "y2 \<equiv> conn_close y1"
  defines "x3 \<equiv> fst (update ips (last_sent y2) [] x2)"
  defines "y3 \<equiv> fst (update ipc (last_sent x3) [] y2)"
  shows "map state [x1, x2, x3] = [FIN_WAIT1, FIN_WAIT2, TIME_WAIT] \<and> map state [y1, y2, y3] = [CLOSE_WAIT, LAST_ACK, CLOSED] \<and>
    \<not> transition_waiting y3 \<and> alarm x3 = Some TIMEOUT \<and> state (timeout x3) = CLOSED \<and> \<not> transition_waiting (timeout x3)"
proof -
  note x1 = close_first [OF assms(1,3), folded x1_def]
  note y1 = fin_gets_acked [OF assms(2) x1(2) assms(3), folded y1_def]
  note x2 = own_fin_acked [OF x1(1) y1(2) assms(4), folded x2_def]
  note y2 = close_second [OF y1(1) assms(4), folded y2_def]
  note x3 = peer_fin [OF x2 y2(2) assms(4), folded x3_def]
  have y3: "state y3 = CLOSED \<and> \<not> transition_waiting y3"
    using last_acked [OF y2(1) [THEN conjunct1] y2(1) [THEN conjunct2] x3(2) _ assms(4), folded y3_def] far_numbers [OF assms(3)] by simp
  show ?thesis
    using x1 y1 x2 y2 x3 y3 by (simp_all add: endpoint_def timeout_def conn_defs)
qed

definition idle_end :: "port \<Rightarrow> port \<times> ip_address \<Rightarrow> uint \<Rightarrow> uint \<Rightarrow> connection" where
  "idle_end port to n r = (connection_new 0 port (snd to, fst to))
     \<lparr>state := ESTABLISHED, next_seq := n, unacknowledged := n, h_acknowledgment := r, key := connection_id port (fst to) (snd to)\<rparr>"

lemma idle_endpoint: "endpoint port to 0 ESTABLISHED n r False (idle_end port to n r)"
  by (simp add: endpoint_def idle_end_def attach_defs)

theorem closing_handshake_witness:
  "state (fst (update 0x0a000101 (last_sent (conn_close (idle_end 1024 (80, 0x0a000102) 8 10))) [] (idle_end 80 (1024, 0x0a000101) 10 8))) = CLOSE_WAIT"
  using closing_handshake [OF idle_endpoint idle_endpoint, where pc = 1024 and ps = 80 and ips = "0x0a000102" and ipc = "0x0a000101" and n = 8 and r = 10]
  by (simp add: far_def)

section \<open>Writing\<close>

text \<open>
  \<open>write\<close> counts acknowledged bytes from the number of the last segment sent, not from the next number. After a stream whose last segment
  had as many bytes as the next write, all acknowledged, the next write returns its size at once: its bytes have been sent once, nothing of
  them is acknowledged, and nobody will send them again.
\<close>

theorem second_write_unacknowledged:
  assumes "state c = ESTABLISHED" "\<not> retransmiting c" "nic c = []" "current c = Some s" "0 < sz" "sz \<le> MSS"
    and "h_sequence c + sz = next_seq c" "h_acknowledgment s = next_seq c"
  shows "\<exists>c'. conn_write d sz [] c = Some (c', sint sz) \<and> sent c' = sent c @ [(peer c, last_sent c', read_at d 0 sz)] \<and>
    h_sequence (last_sent c') = next_seq c \<and> current c' = Some s \<and> h_acknowledgment s \<noteq> next_seq c' \<and> next_seq c' = next_seq c + sz"
proof -
  have n: "sz \<noteq> 0" "next_seq c - h_sequence c = sz" "\<not> MSS < sz" "h_sequence c + sz + sz \<noteq> h_sequence c + sz"
    using assms(5-7) by (auto simp: not_less algebra_simps)
  define x where "x = (c, write_start sz c)"
  have go: "write_goes_on sz x" using n assms(1) by (simp add: x_def write_goes_on_def write_start_def RETRIES_def is_open_def)
  have sends: "write_sends (write_prepare x)" using n by (simp add: x_def write_sends_def write_prepare_def write_start_def MSS_def WINDOW_def)
  define c2 where "c2 = (ip_send (read_at d 0 sz) (c\<lparr>streaming := True, h_flags := ACK, h_sequence := next_seq c\<rparr>))\<lparr>next_seq := next_seq c + sz\<rparr>"
  define w2 where "w2 = (write_start sz c)\<lparr>w_allowed := MSS, w_at := ucast sz, w_left := 0\<rparr>"
  have "write_send d (write_prepare x) = ((c2, w2), True)"
    using n assms(2,3) by (simp add: x_def write_send_def write_prepare_def write_start_def dsend_def nic_alloc_def c2_def w2_def
      ip_send_def read_at_def WINDOW_def MSS_def Let_def)
  moreover have nx: "write_next (c2, w2) = Some (c2, w2\<lparr>w_acknowledged := sz, w_allowed := ucast (peer_window c) - (next_seq c - h_acknowledgment s)\<rparr>)"
    (is "_ = Some ?z") using n assms(4,8) by (simp add: write_next_def c2_def w2_def write_start_def ip_send_def)
  moreover have stop: "\<not> write_goes_on sz ?z" by (simp add: write_goes_on_def)
  ultimately have "conn_write d sz [] c = Some (write_end sz ?z)"
    unfolding conn_write_def x_def [symmetric] using go sends
    by (subst write_loop.simps) (simp add: write_loop.simps [of d sz "[]" ?z])
  moreover have "write_end sz ?z = (c2\<lparr>streaming := False, retransmiting := False\<rparr>, sint sz)"
    using assms(1) by (simp add: write_end_def w2_def write_start_def is_open_def c2_def ip_send_def RETRIES_def)
  ultimately show ?thesis using assms(4,7,8) n
    by (auto simp: c2_def ip_send_def last_sent_def tcp_header.defs)
qed

theorem second_write_unacknowledged_witness:
  "\<exists>c'. conn_write (\<lambda>i. ucast i) 3 [] (open_connection\<lparr>h_sequence := 5, current := Some (data_segment 101)\<rparr>) = Some (c', 3) \<and> next_seq c' = 11"
  using second_write_unacknowledged [of "open_connection\<lparr>h_sequence := 5, current := Some (data_segment 101)\<rparr>" "data_segment 101" 3 "\<lambda>i. ucast i"]
  by (auto simp: open_connection_def data_segment_def attach_defs MSS_def)

section \<open>Segments off the usual path\<close>

text \<open>
  In \<open>ESTABLISHED\<close>: the data of an expected segment without \<open>ACK\<close> are handed over and not acknowledged, so they are handed over again
  when they are sent again; a \<open>FIN\<close> that comes with data takes the acknowledgement back to the first byte after the segment's
  number; and the buffer of a segment without data is never given back to the interface.
\<close>

theorem established_anomalies:
  assumes "state c = ESTABLISHED" "observer c" "\<not> streaming c" "h_sequence s = h_acknowledgment c" "\<not> h_acknowledgment s > next_seq c"
    "h_acknowledgment c < h_acknowledgment c + 4096" "\<not> flag RST s" "\<not> flag SYN s" "word_of_nat (length data) \<noteq> (0 :: uint)"
  shows "\<not> flag ACK s \<Longrightarrow> delivered (fst (update ip s data c)) = delivered c @ [data] \<and> h_acknowledgment (fst (update ip s data c)) = h_acknowledgment c"
    and "flag ACK s \<Longrightarrow> flag FIN s \<Longrightarrow> unacknowledged c \<le> h_acknowledgment s \<Longrightarrow>
      h_acknowledgment (fst (update ip s data c)) = h_acknowledgment c + 1"
    and "snd (update ip s [] c) = Kept"
  using assms by (auto simp: arriving_defs established_def check_sequence_def seq_acceptable_def WINDOW_def conn_notify_def process_fin_def
      invalid_def ack_data_def set_state_def stream_signal_def Let_def conn_simps not_less)

theorem lost_buffer_dooms_connect_witness:
  "\<exists>s. h_acknowledgment s = 7 \<and> handler s (timeout (connect ((connection_new 7 1024 (0x0a000102, 80))\<lparr>nic := [False]\<rparr>))) =
     fsend RST (invalid (timeout (connect ((connection_new 7 1024 (0x0a000102, 80))\<lparr>nic := [False]\<rparr>))))"
proof -
  let ?c = "(connection_new 7 1024 (0x0a000102, 80))\<lparr>nic := [False]\<rparr>"
  let ?s = "(header_new 80 1024 99 4096)\<lparr>h_acknowledgment := 7, h_flags := SYN OR ACK\<rparr>"
  have c: "nic ?c = [False]" "\<not> retransmiting ?c" "tries ?c = 0" "initial ?c = next_seq ?c" "0 < next_seq ?c" "initial ?c = 7" "flag ACK ?s" "flag SYN ?s"
    by (simp_all add: attach_defs)
  then have "h_acknowledgment ?s = h_sequence (last_sent (timeout (connect ?c))) + 1"
    by (simp add: attach_defs timeout_def last_sent_def)
  from lost_buffer_dooms_connect(2) [OF c(1-5,7,8) this] show ?thesis by (intro exI [of _ ?s]) simp
qed

end
