(* ===== verification/Containers.thy ===== *)
theory Containers
  imports Prelude
begin

text \<open>
  Containers over arrays: \<open>Bitmap\<close> (\<open>include/utility/bitmap.h\<close>), which the reassembly of datagrams uses to tell
  fragments it has from those it misses, and \<open>Circular_Buffer\<close> (\<open>include/utility/buffer.h\<close>). The template parameters
  \<open>BITS\<close> and \<open>N_ELEMENTS\<close> are arguments or the length of the array.
\<close>

unbundle bit_operations_syntax

section \<open>Bitmaps\<close>

text \<open>\<open>BPI\<close> and \<open>mask\<close> are 32 and 31; \<open>bm_bit i\<close> is \<open>1 << (i & mask)\<close>.\<close>

definition bm_new :: "nat \<Rightarrow> uint list" where
  "bm_new bits = replicate ((bits + 32 - 1) div 32) 0"

definition bm_bit :: "nat \<Rightarrow> uint" where
  "bm_bit i = push_bit (i AND 31) 1"

definition bm_set :: "nat \<Rightarrow> nat \<Rightarrow> uint list \<Rightarrow> uint list \<times> bool" where
  "bm_set bits i m =
     (if i < bits \<and> m ! (i div 32) AND bm_bit i = 0
      then (m[i div 32 := m ! (i div 32) OR bm_bit i], True)
      else (m, False))"

definition bm_reset :: "nat \<Rightarrow> nat \<Rightarrow> uint list \<Rightarrow> uint list \<times> bool" where
  "bm_reset bits i m =
     (if i < bits \<and> m ! (i div 32) AND bm_bit i \<noteq> 0
      then (m[i div 32 := m ! (i div 32) AND NOT (bm_bit i)], True)
      else (m, False))"

definition bm_full :: "nat \<Rightarrow> uint list \<Rightarrow> bool" where
  "bm_full k m \<longleftrightarrow>
     list_all (\<lambda>w. w = NOT 0) (take (k div 32) m) \<and>
     \<not> (k AND 31 \<noteq> 0 \<and> m ! (k div 32) OR NOT (bm_bit k - 1) \<noteq> NOT 0)"

definition bm_empty :: "nat \<Rightarrow> uint list \<Rightarrow> bool" where
  "bm_empty k m \<longleftrightarrow>
     list_all (\<lambda>w. w = 0) (take (k div 32) m) \<and>
     \<not> (k AND 31 \<noteq> 0 \<and> m ! (k div 32) AND (bm_bit k - 1) \<noteq> 0)"

subsection \<open>A bitmap is a set\<close>

definition bm_member :: "uint list \<Rightarrow> nat \<Rightarrow> bool" where
  "bm_member m i \<longleftrightarrow> bit (m ! (i div 32)) (i mod 32)"

definition bm_rep :: "nat \<Rightarrow> uint list \<Rightarrow> nat set \<Rightarrow> bool" where
  "bm_rep bits m A \<longleftrightarrow> length m = (bits + 31) div 32 \<and> A \<subseteq> {..<bits} \<and> (\<forall>i < bits. i \<in> A \<longleftrightarrow> bm_member m i)"

lemma and_31: "(i :: nat) AND 31 = i mod 32"
proof -
  have "i AND mask 5 = take_bit 5 i" by (simp add: take_bit_eq_mask)
  then show ?thesis by (simp add: mask_eq_exp_minus_1 take_bit_eq_mod)
qed

lemma bit_bm_bit: "bit (bm_bit i) n \<longleftrightarrow> n = i mod 32"
  by (auto simp: bm_bit_def and_31 bit_simps)

lemma word_all_ones: "w = NOT 0 \<longleftrightarrow> (\<forall>b < 32. bit w b)" for w :: uint
  by (auto intro: bit_word_eqI)

lemma word_all_zeros: "w = 0 \<longleftrightarrow> (\<forall>b < 32. \<not> bit w b)" for w :: uint
  by (auto intro: bit_word_eqI)

lemma and_bm_bit: "w AND bm_bit i = 0 \<longleftrightarrow> \<not> bit w (i mod 32)"
proof -
  have "i mod 32 < 32" by simp
  then show ?thesis unfolding word_all_zeros by (auto simp: bit_and_iff bit_bm_bit simp del: mod_less_divisor)
qed

lemma div_bound: "i < bits \<Longrightarrow> i div 32 < (bits + 31) div 32" for i :: nat
  by linarith

lemma bit_low: "bit (bm_bit i - 1) n \<longleftrightarrow> n < i mod 32"
proof -
  have "bm_bit i - 1 = mask (i mod 32)" by (simp add: bm_bit_def and_31 mask_eq_exp_minus_1 push_bit_eq_mult)
  moreover have "i mod 32 < 32" by simp
  ultimately show ?thesis by (auto simp: bit_mask_iff)
qed

lemma all_words: "(\<forall>j < n. \<forall>b < 32. P (j * 32 + b)) \<longleftrightarrow> (\<forall>i < n * 32. P i)" for n :: nat
proof
  assume all: "\<forall>j < n. \<forall>b < 32. P (j * 32 + b)"
  show "\<forall>i < n * 32. P i"
  proof (intro allI impI)
    fix i assume "i < n * 32"
    then have "i div 32 < n" "i mod 32 < 32" by (auto simp: less_mult_imp_div_less)
    then have "P (i div 32 * 32 + i mod 32)" using all by blast
    then show "P i" by simp
  qed
qed (auto intro: less_le_trans [of _ "(_ + 1) * 32"])

lemma split_upto: "(\<forall>i < k. P i) \<longleftrightarrow> (\<forall>j < k div 32. \<forall>b < 32. P (j * 32 + b)) \<and> (\<forall>b < k mod 32. P (k div 32 * 32 + b))" for k :: nat
proof -
  have "(\<forall>i < k. P i) \<longleftrightarrow> (\<forall>i < k div 32 * 32. P i) \<and> (\<forall>b < k mod 32. P (k div 32 * 32 + b))"
  proof (intro iffI conjI allI impI)
    fix i assume p: "(\<forall>i < k div 32 * 32. P i) \<and> (\<forall>b < k mod 32. P (k div 32 * 32 + b))" and "i < k"
    show "P i"
    proof (cases "i < k div 32 * 32")
      case False
      then have "i - k div 32 * 32 < k mod 32" using \<open>i < k\<close> diff_less_mono [of i k "k div 32 * 32"] by (simp add: minus_div_mult_eq_mod)
      then show ?thesis using p False by (metis le_add_diff_inverse not_less)
    qed (use p in blast)
  next
    fix b assume "\<forall>i < k. P i" "b < k mod 32"
    moreover have "k div 32 * 32 + b < k" using \<open>b < k mod 32\<close> div_mult_mod_eq [of k 32] by linarith
    ultimately show "P (k div 32 * 32 + b)" by blast
  qed auto
  then show ?thesis by (simp add: all_words)
qed

lemma member_split: "b < 32 \<Longrightarrow> bm_member m (j * 32 + b) \<longleftrightarrow> bit (m ! j) b"
  by (simp add: bm_member_def)

lemma bm_full_iff:
  assumes "length m = (bits + 31) div 32" "k \<le> bits"
  shows "bm_full k m \<longleftrightarrow> (\<forall>i < k. bm_member m i)"
proof -
  have u: "k div 32 \<le> length m" using assms by linarith
  have tail: "\<not> (k AND 31 \<noteq> 0 \<and> m ! (k div 32) OR NOT (bm_bit k - 1) \<noteq> NOT 0) \<longleftrightarrow>
      (\<forall>b < k mod 32. bm_member m (k div 32 * 32 + b))"
  proof -
    have "m ! (k div 32) OR NOT (bm_bit k - 1) = NOT 0 \<longleftrightarrow> (\<forall>b < 32. b < k mod 32 \<longrightarrow> bit (m ! (k div 32)) b)"
      unfolding word_all_ones by (auto simp: bit_or_iff bit_not_iff bit_low)
    moreover have "k mod 32 < 32" by simp
    ultimately show ?thesis by (auto simp: and_31 member_split)
  qed
  have "list_all (\<lambda>w. w = NOT 0) (take (k div 32) m) \<longleftrightarrow> (\<forall>j < k div 32. m ! j = NOT 0)"
    using u by (auto simp: list_all_length)
  then show ?thesis unfolding bm_full_def tail split_upto [of k "bm_member m"] by (simp only: word_all_ones) (simp cong: conj_cong add: member_split)
qed

lemma bm_empty_iff:
  assumes "length m = (bits + 31) div 32" "k \<le> bits"
  shows "bm_empty k m \<longleftrightarrow> (\<forall>i < k. \<not> bm_member m i)"
proof -
  have u: "k div 32 \<le> length m" using assms by linarith
  have tail: "\<not> (k AND 31 \<noteq> 0 \<and> m ! (k div 32) AND (bm_bit k - 1) \<noteq> 0) \<longleftrightarrow>
      (\<forall>b < k mod 32. \<not> bm_member m (k div 32 * 32 + b))"
  proof -
    have "m ! (k div 32) AND (bm_bit k - 1) = 0 \<longleftrightarrow> (\<forall>b < 32. b < k mod 32 \<longrightarrow> \<not> bit (m ! (k div 32)) b)"
      unfolding word_all_zeros by (auto simp: bit_and_iff bit_low)
    moreover have "k mod 32 < 32" by simp
    ultimately show ?thesis by (auto simp: and_31 member_split)
  qed
  have "list_all (\<lambda>w. w = 0) (take (k div 32) m) \<longleftrightarrow> (\<forall>j < k div 32. m ! j = 0)"
    using u by (auto simp: list_all_length)
  then show ?thesis unfolding bm_empty_def tail split_upto [of k "\<lambda>i. \<not> bm_member m i"] by (simp only: word_all_zeros) (simp cong: conj_cong add: member_split)
qed

lemma member_update:
  assumes "i div 32 < length m"
  shows "bm_member (m[i div 32 := w]) k \<longleftrightarrow> (if k div 32 = i div 32 then bit w (k mod 32) else bm_member m k)"
  using assms by (auto simp: bm_member_def)

lemma same_index: "k div 32 = i div 32 \<Longrightarrow> k mod 32 = i mod 32 \<longleftrightarrow> k = i" for i k :: nat
  by (metis div_mult_mod_eq)

lemma bm_new_rep: "bm_rep bits (bm_new bits) {}"
  using div_bound [of _ bits] by (auto simp: bm_rep_def bm_new_def bm_member_def)

lemma bm_set_rep:
  assumes rep: "bm_rep bits m A"
  shows "\<exists>m'. bm_set bits i m = (m', i < bits \<and> i \<notin> A) \<and> bm_rep bits m' (if i < bits then insert i A else A)"
proof -
  have l: "length m = (bits + 31) div 32" and A: "A \<subseteq> {..<bits}" and mem: "\<And>i. i < bits \<Longrightarrow> i \<in> A \<longleftrightarrow> bm_member m i"
    using rep by (auto simp: bm_rep_def)
  show ?thesis
  proof (cases "i < bits \<and> i \<notin> A")
    case True
    then have "bm_member (m[i div 32 := m ! (i div 32) OR bm_bit i]) k \<longleftrightarrow> k = i \<or> bm_member m k" for k
      using div_bound [of i bits] same_index [of k i] by (auto simp: l member_update bit_or_iff bit_bm_bit) (auto simp: bm_member_def)
    then show ?thesis using True mem A l by (auto simp: bm_set_def and_bm_bit bm_rep_def) (auto simp: bm_member_def)
  next
    case False
    then show ?thesis using rep mem by (auto simp: bm_set_def and_bm_bit bm_member_def [symmetric] insert_absorb)
  qed
qed

lemma bm_reset_rep:
  assumes rep: "bm_rep bits m A"
  shows "\<exists>m'. bm_reset bits i m = (m', i \<in> A) \<and> bm_rep bits m' (A - {i})"
proof -
  have l: "length m = (bits + 31) div 32" and A: "A \<subseteq> {..<bits}" and mem: "\<And>i. i < bits \<Longrightarrow> i \<in> A \<longleftrightarrow> bm_member m i"
    using rep by (auto simp: bm_rep_def)
  show ?thesis
  proof (cases "i \<in> A")
    case True
    then have "i < bits" using A by auto
    then have "bm_member (m[i div 32 := m ! (i div 32) AND NOT (bm_bit i)]) k \<longleftrightarrow> k \<noteq> i \<and> bm_member m k" if "k < bits" for k
      using div_bound [of i bits] same_index [of k i] by (auto simp: l member_update bit_and_iff bit_not_iff bit_bm_bit) (auto simp: bm_member_def)
    then show ?thesis using True \<open>i < bits\<close> mem A l by (auto simp: bm_reset_def and_bm_bit bm_rep_def) (auto simp: bm_member_def)
  next
    case False
    then show ?thesis using rep mem by (auto simp: bm_reset_def and_bm_bit bm_member_def [symmetric])
  qed
qed

lemma bm_full_rep: "bm_rep bits m A \<Longrightarrow> k \<le> bits \<Longrightarrow> bm_full k m \<longleftrightarrow> {..<k} \<subseteq> A"
  using bm_full_iff [of m bits k] by (auto simp: bm_rep_def)

lemma bm_empty_rep: "bm_rep bits m A \<Longrightarrow> k \<le> bits \<Longrightarrow> bm_empty k m \<longleftrightarrow> {..<k} \<inter> A = {}"
  using bm_empty_iff [of m bits k] by (auto simp: bm_rep_def)

text \<open>
  C34. A \<open>Bitmap\<close> is a set of indices below \<open>BITS\<close>: \<open>set\<close> and \<open>reset\<close> put an index in and take it out and tell
  whether that was news, indices out of range change nothing, and \<open>full\<close> and \<open>empty\<close> ask for the indices below \<open>upto\<close>.
\<close>

theorem bitmap_refines_set:
  assumes "bm_rep bits m A"
  shows "(\<exists>m'. bm_set bits i m = (m', i < bits \<and> i \<notin> A) \<and> bm_rep bits m' (if i < bits then insert i A else A)) \<and>
    (\<exists>m'. bm_reset bits i m = (m', i \<in> A) \<and> bm_rep bits m' (A - {i})) \<and>
    (k \<le> bits \<longrightarrow> (bm_full k m \<longleftrightarrow> {..<k} \<subseteq> A) \<and> (bm_empty k m \<longleftrightarrow> {..<k} \<inter> A = {})) \<and>
    bm_rep bits (bm_new bits) {}"
  using bm_set_rep [OF assms] bm_reset_rep [OF assms] bm_full_rep [OF assms] bm_empty_rep [OF assms] bm_new_rep by blast

theorem bitmap_refines_set_witness: "bm_full 3 (fst (bm_set 40 2 (fst (bm_set 40 1 (fst (bm_set 40 0 (bm_new 40)))))))"
proof -
  note step = bitmap_refines_set [THEN conjunct1]
  obtain a where a: "bm_set 40 0 (bm_new 40) = (a, True)" "bm_rep 40 a {0}"
    using step [OF bm_new_rep, of 40 0] by auto
  obtain b where b: "bm_set 40 1 a = (b, True)" "bm_rep 40 b {0, 1}"
    using step [OF a(2), of 1] by (auto simp: insert_commute)
  obtain c where c: "bm_set 40 2 b = (c, True)" "bm_rep 40 c {0, 1, 2}"
    using step [OF b(2), of 2] by (auto simp: insert_commute)
  have "{..<3} \<subseteq> {0, 1, 2 :: nat}" by auto
  then show ?thesis using a(1) b(1) c bitmap_refines_set [OF c(2), of 0 3] by simp
qed

section \<open>Circular buffers\<close>

text \<open>An object counts as absent when it is 0 (\<open>!_data[i]\<close>).\<close>

record 'a circular_buffer =
  cb_size :: uint
  cb_head :: nat
  cb_tail :: nat
  cb_data :: "'a list"

definition cb_new :: "'a list \<Rightarrow> 'a circular_buffer" where
  "cb_new data = \<lparr>cb_size = 0, cb_head = 0, cb_tail = 0, cb_data = data\<rparr>"

definition cb_n :: "'a circular_buffer \<Rightarrow> nat" where
  "cb_n b = length (cb_data b)"

definition cb_empty :: "'a circular_buffer \<Rightarrow> bool" where
  "cb_empty b \<longleftrightarrow> cb_size b = 0"

definition cb_full :: "'a circular_buffer \<Rightarrow> bool" where
  "cb_full b \<longleftrightarrow> (cb_tail b + 1) mod cb_n b = cb_head b"

definition cb_at :: "'a circular_buffer \<Rightarrow> nat \<Rightarrow> 'a option" where
  "cb_at b i = (if i < cb_n b then Some (cb_data b ! ((cb_head b + i) mod cb_n b)) else None)"

definition cb_insert_at :: "'a::zero \<Rightarrow> nat \<Rightarrow> 'a circular_buffer \<Rightarrow> 'a circular_buffer" where
  "cb_insert_at x i b =
     (let b = (if cb_data b ! i = 0 then b\<lparr>cb_size := cb_size b + 1\<rparr> else b) in b\<lparr>cb_data := (cb_data b)[i := x]\<rparr>)"

definition cb_insert :: "'a::zero \<Rightarrow> 'a circular_buffer \<Rightarrow> 'a circular_buffer" where
  "cb_insert x b =
     (let b = (if cb_full b then b\<lparr>cb_head := (cb_head b + 1) mod cb_n b\<rparr> else b);
          b = (if \<not> cb_empty b then b\<lparr>cb_tail := (cb_tail b + 1) mod cb_n b\<rparr> else b);
          b = (if cb_data b ! cb_tail b = 0 then b\<lparr>cb_size := cb_size b + 1\<rparr> else b)
      in b\<lparr>cb_data := (cb_data b)[cb_tail b := x]\<rparr>)"

definition cb_remove :: "'a::zero circular_buffer \<Rightarrow> 'a circular_buffer \<times> 'a" where
  "cb_remove b =
     (if cb_data b ! cb_head b \<noteq> 0
      then (b\<lparr>cb_data := (cb_data b)[cb_head b := 0], cb_size := cb_size b - 1\<rparr>, cb_data b ! cb_head b)
      else (b, 0))"

fun cb_search_from :: "'a \<Rightarrow> 'a list \<Rightarrow> nat \<Rightarrow> nat" where
  "cb_search_from x [] i = i"
| "cb_search_from x (y # ys) i = (if y = x then i else cb_search_from x ys (i + 1))"

definition cb_search :: "'a \<Rightarrow> 'a circular_buffer \<Rightarrow> nat" where
  "cb_search x b = cb_search_from x (cb_data b) 0"

text \<open>The buffer after the insertions of \<open>xs\<close>.\<close>

definition cb_holds :: "'a::zero list \<Rightarrow> nat \<Rightarrow> 'a circular_buffer \<Rightarrow> bool" where
  "cb_holds xs N b \<longleftrightarrow>
     cb_n b = N \<and> cb_size b = word_of_nat (min (length xs) N) \<and>
     cb_tail b = (length xs - 1) mod N \<and> cb_head b = (if length xs \<le> N then 0 else length xs mod N) \<and>
     (\<forall>k < length xs. length xs \<le> k + N \<longrightarrow> cb_data b ! (k mod N) = xs ! k) \<and>
     (\<forall>j < N. length xs \<le> j \<longrightarrow> cb_data b ! j = 0)"

lemma mod_apart: "k < n \<Longrightarrow> n < k + N \<Longrightarrow> k mod N \<noteq> n mod N" for k n N :: nat
proof
  assume kn: "k < n" "n < k + N" "k mod N = n mod N"
  then have "N dvd n - k" using mod_eq_dvd_iff_nat [of k n N] by simp
  then show False using kn by (auto dest: dvd_imp_le)
qed

lemma Suc_mod: "(Suc k mod N + 1) mod N = Suc (Suc k) mod N" for k N :: nat
  by (simp add: mod_Suc_eq)

lemma cb_insert_fields:
  "cb_insert x b = b\<lparr>cb_head := (if cb_full b then (cb_head b + 1) mod cb_n b else cb_head b),
     cb_tail := (if cb_empty b then cb_tail b else (cb_tail b + 1) mod cb_n b),
     cb_size := (if cb_data b ! (if cb_empty b then cb_tail b else (cb_tail b + 1) mod cb_n b) = 0 then cb_size b + 1 else cb_size b),
     cb_data := (cb_data b)[(if cb_empty b then cb_tail b else (cb_tail b + 1) mod cb_n b) := x]\<rparr>"
  by (cases b) (auto simp: cb_insert_def Let_def cb_n_def cb_empty_def)

lemma cb_insert_holds:
  assumes b: "cb_holds xs N b" and N: "0 < N" "N < 2 ^ 32" and x: "x \<noteq> 0" "0 \<notin> set xs"
  shows "cb_holds (xs @ [x]) N (cb_insert x b)"
proof -
  let ?n = "length xs"
  have len: "cb_n b = N" and hd: "cb_head b = (if ?n \<le> N then 0 else ?n mod N)" and tl: "cb_tail b = (?n - 1) mod N"
    and sz: "cb_size b = word_of_nat (min ?n N)" and kept: "\<And>k. k < ?n \<Longrightarrow> ?n \<le> k + N \<Longrightarrow> cb_data b ! (k mod N) = xs ! k"
    and rest: "\<And>j. j < N \<Longrightarrow> ?n \<le> j \<Longrightarrow> cb_data b ! j = 0"
    using b by (auto simp: cb_holds_def)
  have usz: "unat (cb_size b) = min ?n N" using N by (simp add: sz unsigned_of_nat take_bit_nat_eq_self)
  have e: "cb_empty b \<longleftrightarrow> ?n = 0" using N usz by (auto simp: cb_empty_def min_def simp flip: unat_eq_0_iff split: if_splits)
  have step: "(cb_tail b + 1) mod N = ?n mod N" if "?n \<noteq> 0"
    using that Suc_mod [of "?n - 1" N] by (cases "length xs") (simp_all add: tl mod_Suc_eq)
  define h where "h = (if cb_full b then (cb_head b + 1) mod N else cb_head b)"
  have h: "h = (if ?n + 1 \<le> N then 0 else (?n + 1) mod N)"
  proof (cases "?n = 0")
    case True
    then show ?thesis using N by (auto simp: h_def cb_full_def len hd tl)
  next
    case False
    then have "cb_full b \<longleftrightarrow> N \<le> ?n" using step by (auto simp: cb_full_def len hd dest: dvd_imp_le)
    then show ?thesis using N by (auto simp: h_def hd mod_Suc_eq mod_Suc [of "length xs" "length xs"])
  qed
  have t: "(if cb_empty b then cb_tail b else (cb_tail b + 1) mod N) = ?n mod N"
    using step by (auto simp: e tl)
  have old: "cb_data b ! (?n mod N) = 0 \<longleftrightarrow> ?n < N"
  proof (cases "?n < N")
    case False
    then have "cb_data b ! ((?n - N) mod N) = xs ! (?n - N)" using N by (intro kept) auto
    moreover have "(?n - N) mod N = ?n mod N" using False le_mod_geq [of N "length xs"] by simp
    moreover have "xs ! (?n - N) \<in> set xs" using N False by simp
    ultimately show ?thesis using x(2) False by auto
  qed (use rest in simp)
  have b': "cb_insert x b = b\<lparr>cb_head := h, cb_tail := ?n mod N, cb_size := (if ?n < N then cb_size b + 1 else cb_size b),
      cb_data := (cb_data b)[?n mod N := x]\<rparr>"
    using old unfolding cb_insert_fields len t h_def by simp
  have dl: "length (cb_data b) = N" using len by (simp add: cb_n_def)
  have "(cb_data b)[?n mod N := x] ! (k mod N) = (xs @ [x]) ! k" if k: "k < ?n + 1" "?n + 1 \<le> k + N" for k
  proof (cases "k = ?n")
    case False
    then have "k mod N \<noteq> ?n mod N" using k by (intro mod_apart) auto
    then show ?thesis using k False kept by (simp add: nth_append)
  qed (use dl N in simp)
  moreover have "(cb_data b)[?n mod N := x] ! j = 0" if "j < N" "?n + 1 \<le> j" for j
    using that rest by simp
  moreover have "(if ?n < N then cb_size b + 1 else cb_size b) = word_of_nat (min (?n + 1) N)"
    by (cases "?n < N") (simp_all add: sz min_absorb1 min_absorb2)
  ultimately show ?thesis using h dl
    by (simp add: cb_holds_def b' cb_n_def)
qed

lemma cb_insertions:
  assumes "0 < N" "N < 2 ^ 32" "0 \<notin> set xs"
  shows "cb_holds xs N (fold cb_insert xs (cb_new (replicate N 0)))"
  using assms(3)
proof (induction xs rule: rev_induct)
  case Nil
  then show ?case using assms by (simp add: cb_holds_def cb_new_def cb_n_def)
next
  case (snoc x xs)
  then show ?case using cb_insert_holds [of xs N _ x] assms by simp
qed

text \<open>
  A circular buffer keeps the last \<open>N\<close> objects inserted, in the order of insertion, and counts them.
\<close>

theorem circular_buffer_keeps_last:
  fixes xs :: "'a::zero list"
  assumes "0 < N" "N < 2 ^ 32" "0 \<notin> set xs" "N \<le> length xs"
  defines "b \<equiv> fold cb_insert xs (cb_new (replicate N 0))"
  shows "unat (cb_size b) = N" "map (cb_at b) [0..<N] = map Some (drop (length xs - N) xs)"
proof -
  have b: "cb_holds xs N b" unfolding b_def by (rule cb_insertions [OF assms(1-3)])
  then show "unat (cb_size b) = N" using assms(2,4) by (simp add: cb_holds_def min_def unsigned_of_nat take_bit_nat_eq_self)
  have "cb_at b i = Some (xs ! (length xs - N + i))" if i: "i < N" for i
  proof -
    have "(cb_head b + i) mod N = (length xs - N + i) mod N"
      using b assms(1,4) by (auto simp: cb_holds_def mod_add_left_eq le_mod_geq dest: le_antisym)
    then show ?thesis using b i assms(4) by (auto simp: cb_holds_def cb_at_def)
  qed
  then show "map (cb_at b) [0..<N] = map Some (drop (length xs - N) xs)"
    using assms(4) by (intro nth_equalityI) simp_all
qed

theorem circular_buffer_keeps_last_witness: "unat (cb_size (fold cb_insert [3, 1, 4, 1, 5 :: int] (cb_new (replicate 3 0)))) = 3"
  using circular_buffer_keeps_last(1) [of 3 "[3, 1, 4, 1, 5 :: int]"] by simp

text \<open>
  \<open>remove\<close> does not advance the head: after the first object, nothing can be removed, however many are left.
\<close>

theorem circular_buffer_removes_once:
  assumes "cb_head b < cb_n b"
  shows "cb_remove (fst (cb_remove b)) = (fst (cb_remove b), 0)"
  using assms by (simp add: cb_remove_def cb_n_def)

end
