(* ===== verification/Hash.thy ===== *)
theory Hash
  imports Simple_Ordered_List
begin

text \<open>
  \<open>Vector\<close> (\<open>include/utility/vector.h\<close>) and the hash tables of \<open>include/utility/hash.h\<close>: \<open>Simple_Hash\<close>, a vector with one list for
  all synonyms (the tables of \<open>ARP\<close> and of the datagrams being reassembled), and \<open>Hash\<close>, a list per index. The elements are
  ordered list elements, whose rank is the key. Both are tables from keys to elements; the contract is the locale \<open>keyed_table\<close>.
\<close>

section \<open>Vectors\<close>

text \<open>\<open>operator[]\<close> asserts the index; the other methods read and write without a check, here \<open>None\<close> out of range.\<close>

record vector =
  v_size :: uint
  v_slots :: "addr list"

definition v_new :: "nat \<Rightarrow> vector" where
  "v_new n = \<lparr>v_size = 0, v_slots = replicate n 0\<rparr>"

definition v_empty :: "vector \<Rightarrow> bool" where
  "v_empty v \<longleftrightarrow> v_size v = 0"

definition v_at :: "vector \<Rightarrow> nat \<Rightarrow> addr option" where
  "v_at v i = (if i < length (v_slots v) then Some (v_slots v ! i) else None)"

definition v_put :: "vector \<Rightarrow> nat \<Rightarrow> addr \<Rightarrow> vector" where
  "v_put v i e = v\<lparr>v_slots := (v_slots v)[i := e]\<rparr>"

definition v_insert :: "vector \<Rightarrow> addr \<Rightarrow> nat \<Rightarrow> (vector \<times> bool) option" where
  "v_insert v e i =
     do { a \<leftarrow> v_at v i;
          Some (if a \<noteq> 0 then (v, False) else ((v_put v i e)\<lparr>v_size := v_size v + 1\<rparr>, True)) }"

definition v_clear :: "vector \<Rightarrow> nat \<Rightarrow> vector" where
  "v_clear v i = (v_put v i 0)\<lparr>v_size := v_size v - 1\<rparr>"

definition v_remove_at :: "vector \<Rightarrow> nat \<Rightarrow> (vector \<times> addr) option" where
  "v_remove_at v i = do { a \<leftarrow> v_at v i; Some (if a \<noteq> 0 then (v_clear v i, a) else (v, 0)) }"

fun index_from :: "addr \<Rightarrow> addr list \<Rightarrow> nat \<Rightarrow> nat option" where
  "index_from e [] i = None"
| "index_from e (a # as) i = (if a = e then Some i else index_from e as (i + 1))"

definition v_remove :: "vector \<Rightarrow> addr \<Rightarrow> vector \<times> addr" where
  "v_remove v e = (case index_from e (v_slots v) 0 of Some i \<Rightarrow> (v_clear v i, e) | None \<Rightarrow> (v, 0))"

text \<open>The search for an object asks the element of every slot for its object, those of the empty slots too.\<close>

fun object_from :: "'m elem_scheme store \<Rightarrow> addr \<Rightarrow> addr list \<Rightarrow> nat \<Rightarrow> nat option option" where
  "object_from h ob [] i = Some None"
| "object_from h ob (a # as) i = do { x \<leftarrow> load h a; if obj x = ob then Some (Some i) else object_from h ob as (i + 1) }"

definition v_search :: "'m elem_scheme store \<Rightarrow> vector \<Rightarrow> addr \<Rightarrow> addr option" where
  "v_search h v ob = do { r \<leftarrow> object_from h ob (v_slots v) 0; Some (case r of Some i \<Rightarrow> v_slots v ! i | None \<Rightarrow> 0) }"

definition v_remove_object :: "'m elem_scheme store \<Rightarrow> vector \<Rightarrow> addr \<Rightarrow> (vector \<times> addr) option" where
  "v_remove_object h v ob =
     do { r \<leftarrow> object_from h ob (v_slots v) 0; Some (case r of Some i \<Rightarrow> (v_clear v i, v_slots v ! i) | None \<Rightarrow> (v, 0)) }"

section \<open>Simple\_Hash\<close>

type_synonym 'm hstore = "'m elem_ordered_scheme store"

record simple_hash =
  sh_vector :: vector
  sh_synonyms :: simple_list

text \<open>\<open>key % SIZE\<close>, where \<open>key\<close> is an \<open>int\<close> and \<open>SIZE\<close> unsigned.\<close>

definition slot_of :: "nat \<Rightarrow> int \<Rightarrow> nat" where
  "slot_of sz key = nat (take_bit 32 key) mod sz"

definition sh_n :: "simple_hash \<Rightarrow> nat" where
  "sh_n t = length (v_slots (sh_vector t))"

definition sh_new :: "nat \<Rightarrow> simple_hash" where
  "sh_new n = \<lparr>sh_vector = v_new n, sh_synonyms = sl_new\<rparr>"

definition sh_empty :: "simple_hash \<Rightarrow> bool" where
  "sh_empty t \<longleftrightarrow> v_size (sh_vector t) = 0 \<and> sl_size (sh_synonyms t) = 0"

definition sh_size :: "simple_hash \<Rightarrow> uint" where
  "sh_size t = v_size (sh_vector t) + ucast (sl_size (sh_synonyms t))"

definition sh_insert :: "'m hstore \<Rightarrow> simple_hash \<Rightarrow> addr \<Rightarrow> ('m hstore \<times> simple_hash) option" where
  "sh_insert h t e =
     do { x \<leftarrow> load h e;
          (v, ok) \<leftarrow> v_insert (sh_vector t) e (slot_of (sh_n t) (srank x));
          if ok then Some (h, t\<lparr>sh_vector := v\<rparr>)
          else do { (h, l) \<leftarrow> sol_insert False h (sh_synonyms t) e; Some (h, t\<lparr>sh_synonyms := l\<rparr>) } }"

definition sh_remove :: "'m hstore \<Rightarrow> simple_hash \<Rightarrow> addr \<Rightarrow> ('m hstore \<times> simple_hash \<times> addr) option" where
  "sh_remove h t e =
     (case v_remove (sh_vector t) e of (v, a) \<Rightarrow>
        if a \<noteq> 0 then Some (h, t\<lparr>sh_vector := v\<rparr>, e)
        else do { (h, l, a) \<leftarrow> sol_remove False h (sh_synonyms t) e; Some (h, t\<lparr>sh_vector := v, sh_synonyms := l\<rparr>, a) })"

definition sh_remove_object :: "'m hstore \<Rightarrow> simple_hash \<Rightarrow> addr \<Rightarrow> ('m hstore \<times> simple_hash \<times> addr) option" where
  "sh_remove_object h t ob =
     do { (v, a) \<leftarrow> v_remove_object h (sh_vector t) ob;
          if a \<noteq> 0 then Some (h, t\<lparr>sh_vector := v\<rparr>, a)
          else do { (h, l, a) \<leftarrow> sol_remove_object False h (sh_synonyms t) ob; Some (h, t\<lparr>sh_synonyms := l\<rparr>, a) } }"

definition sh_search :: "'m hstore \<Rightarrow> simple_hash \<Rightarrow> addr \<Rightarrow> addr option" where
  "sh_search h t ob =
     do { a \<leftarrow> v_search h (sh_vector t) ob; if a \<noteq> 0 then Some a else sl_search h (sh_synonyms t) ob }"

text \<open>\<open>e && (e->key() == key)\<close>, for the element in the slot of \<open>key\<close>.\<close>

definition sh_hit :: "'m hstore \<Rightarrow> simple_hash \<Rightarrow> int \<Rightarrow> (addr \<times> bool) option" where
  "sh_hit h t key =
     do { e \<leftarrow> v_at (sh_vector t) (slot_of (sh_n t) key);
          if e = 0 then Some (e, False) else do { x \<leftarrow> load h e; Some (e, srank x = key) } }"

definition sh_search_key :: "'m hstore \<Rightarrow> simple_hash \<Rightarrow> int \<Rightarrow> addr option" where
  "sh_search_key h t key =
     do { (e, hit) \<leftarrow> sh_hit h t key; if hit then Some e else sol_search_rank h (sh_synonyms t) key }"

definition sh_remove_key :: "'m hstore \<Rightarrow> simple_hash \<Rightarrow> int \<Rightarrow> ('m hstore \<times> simple_hash \<times> addr) option" where
  "sh_remove_key h t key =
     do { (e, hit) \<leftarrow> sh_hit h t key;
          if hit then do { (v, a) \<leftarrow> v_remove_at (sh_vector t) (slot_of (sh_n t) key); Some (h, t\<lparr>sh_vector := v\<rparr>, a) }
          else do { (h, l, a) \<leftarrow> sol_remove_rank False h (sh_synonyms t) key; Some (h, t\<lparr>sh_synonyms := l\<rparr>, a) } }"

text \<open>The iterator: the current element and the counter, which is \<open>None\<close> at \<open>END\<close>.\<close>

definition sh_begin :: "addr \<times> nat option" where
  "sh_begin = (0, Some 0)"

definition skip_empty :: "addr list \<Rightarrow> nat \<Rightarrow> nat" where
  "skip_empty as i = i + length (takeWhile ((=) 0) (drop i as))"

definition sh_inc :: "'m hstore \<Rightarrow> simple_hash \<Rightarrow> addr \<times> nat option \<Rightarrow> (addr \<times> nat option) option" where
  "sh_inc h t = (\<lambda>(current, counter).
     do { (current, counter) \<leftarrow>
            (case counter of
               None \<Rightarrow> do { x \<leftarrow> load h current; Some (nxt x, None) }
             | Some i \<Rightarrow>
                 (let i = skip_empty (v_slots (sh_vector t)) i
                  in if i < sh_n t then Some (v_slots (sh_vector t) ! i, Some (i + 1))
                     else if i = sh_n t then Some (sl_head (sh_synonyms t), Some (i + 1))
                     else do { x \<leftarrow> load h current; Some (nxt x, Some i) }));
          Some (current, if current = 0 then None else counter) })"

partial_function (option) sh_iterate :: "'m hstore \<Rightarrow> simple_hash \<Rightarrow> addr \<times> nat option \<Rightarrow> addr list option" where
  "sh_iterate h t it =
     (if snd it = None then Some []
      else do { it' \<leftarrow> sh_inc h t it; as \<leftarrow> sh_iterate h t it'; Some (fst it # as) })"

section \<open>Hash\<close>

type_synonym hash = "simple_list list"

definition h_new :: "nat \<Rightarrow> hash" where
  "h_new n = replicate n sl_new"

definition h_list :: "hash \<Rightarrow> int \<Rightarrow> simple_list option" where
  "h_list t key = (let i = slot_of (length t) key in if i < length t then Some (t ! i) else None)"

definition h_empty :: "hash \<Rightarrow> bool" where
  "h_empty t \<longleftrightarrow> list_all sl_empty t"

definition h_size :: "hash \<Rightarrow> uint" where
  "h_size t = foldl (\<lambda>n l. n + ucast (sl_size l)) 0 t"

definition h_insert :: "'m hstore \<Rightarrow> hash \<Rightarrow> addr \<Rightarrow> ('m hstore \<times> hash) option" where
  "h_insert h t e =
     do { x \<leftarrow> load h e; l \<leftarrow> h_list t (srank x); (h, l) \<leftarrow> sol_insert False h l e;
          Some (h, t[slot_of (length t) (srank x) := l]) }"

definition h_remove :: "'m hstore \<Rightarrow> hash \<Rightarrow> addr \<Rightarrow> ('m hstore \<times> hash \<times> addr) option" where
  "h_remove h t e =
     do { x \<leftarrow> load h e; l \<leftarrow> h_list t (srank x); (h, l, a) \<leftarrow> sol_remove False h l e;
          Some (h, t[slot_of (length t) (srank x) := l], a) }"

fun h_remove_object_from :: "'m hstore \<Rightarrow> hash \<Rightarrow> addr \<Rightarrow> ('m hstore \<times> hash \<times> addr) option" where
  "h_remove_object_from h [] ob = Some (h, [], 0)"
| "h_remove_object_from h (l # t) ob =
     do { (h, l, a) \<leftarrow> sol_remove_object False h l ob;
          if a \<noteq> 0 then Some (h, l # t, a)
          else do { (h, t, a) \<leftarrow> h_remove_object_from h t ob; Some (h, l # t, a) } }"

fun h_search :: "'m hstore \<Rightarrow> hash \<Rightarrow> addr \<Rightarrow> addr option" where
  "h_search h [] ob = Some 0"
| "h_search h (l # t) ob = do { a \<leftarrow> sl_search h l ob; if a \<noteq> 0 then Some a else h_search h t ob }"

definition h_search_key :: "'m hstore \<Rightarrow> hash \<Rightarrow> int \<Rightarrow> addr option" where
  "h_search_key h t key = do { l \<leftarrow> h_list t key; sol_search_rank h l key }"

definition h_remove_key :: "'m hstore \<Rightarrow> hash \<Rightarrow> int \<Rightarrow> ('m hstore \<times> hash \<times> addr) option" where
  "h_remove_key h t key =
     do { l \<leftarrow> h_list t key; (h, l, a) \<leftarrow> sol_remove_rank False h l key; Some (h, t[slot_of (length t) key := l], a) }"

section \<open>Tables\<close>

text \<open>Elements with their keys, as a map by key.\<close>

definition by_key :: "(addr \<times> int) list \<Rightarrow> (int \<times> addr) list" where
  "by_key es = map (\<lambda>x. (snd x, fst x)) es"

lemma by_key_simps [simp]: "by_key [] = []" "by_key ((e, k) # es) = (k, e) # by_key es"
  by (simp_all add: by_key_def)

lemma keys_by_key: "map fst (by_key es) = map snd es"
  by (simp add: by_key_def comp_def)

lemma by_key_Some: "distinct (map snd es) \<Longrightarrow> (e, k) \<in> set es \<Longrightarrow> map_of (by_key es) k = Some e"
  by (rule map_of_is_SomeI) (auto simp only: keys_by_key, force simp: by_key_def)

lemma by_key_None: "map_of (by_key es) k = None \<longleftrightarrow> k \<notin> snd ` set es"
  by (simp add: map_of_eq_None_iff) (force simp: by_key_def)

text \<open>
  The contract of a table of elements by key, for keys that are inserted once: \<open>rep h q m\<close> says that the table \<open>q\<close> in the store \<open>h\<close>
  is the map \<open>m\<close>, \<open>usable h e k\<close> that \<open>e\<close> is an element with the key \<open>k\<close>.
\<close>

locale keyed_table =
  fixes rep :: "'h \<Rightarrow> 'q \<Rightarrow> (int \<rightharpoonup> addr) \<Rightarrow> bool"
    and usable :: "'h \<Rightarrow> addr \<Rightarrow> int \<Rightarrow> bool"
    and insert_element :: "'h \<Rightarrow> 'q \<Rightarrow> addr \<Rightarrow> ('h \<times> 'q) option"
    and search_key :: "'h \<Rightarrow> 'q \<Rightarrow> int \<Rightarrow> addr option"
    and remove_key :: "'h \<Rightarrow> 'q \<Rightarrow> int \<Rightarrow> ('h \<times> 'q \<times> addr) option"
  assumes insert_ok: "rep h q m \<Longrightarrow> usable h e k \<Longrightarrow> e \<notin> ran m \<Longrightarrow> m k = None \<Longrightarrow>
      \<exists>h' q'. insert_element h q e = Some (h', q') \<and> rep h' q' (m(k \<mapsto> e)) \<and>
        (\<forall>a n. a \<noteq> e \<and> a \<notin> ran m \<longrightarrow> usable h' a n = usable h a n)"
    and search_ok: "rep h q m \<Longrightarrow> search_key h q k = Some (case m k of None \<Rightarrow> 0 | Some e \<Rightarrow> e)"
    and remove_ok: "rep h q m \<Longrightarrow>
      \<exists>h' q'. remove_key h q k = Some (h', q', case m k of None \<Rightarrow> 0 | Some e \<Rightarrow> e) \<and> rep h' q' (m(k := None))"
begin

lemma put_elements:
  "rep h q m \<Longrightarrow> \<forall>(e, k) \<in> set es. usable h e k \<and> e \<notin> ran m \<and> m k = None \<Longrightarrow> distinct (map fst es) \<Longrightarrow> distinct (map snd es) \<Longrightarrow>
   \<exists>h' q'. put_all insert_element h q (map fst es) = Some (h', q') \<and> rep h' q' (m ++ map_of (by_key es))"
proof (induction es arbitrary: h q m)
  case (Cons x es)
  obtain e k where x: "x = (e, k)" by (cases x)
  obtain h1 q1 where 1: "insert_element h q e = Some (h1, q1)" "rep h1 q1 (m(k \<mapsto> e))"
    "\<forall>a n. a \<noteq> e \<and> a \<notin> ran m \<longrightarrow> usable h1 a n = usable h a n"
    using insert_ok [OF Cons.prems(1), of e k] Cons.prems(2) x by auto
  have mk: "m k = None" using Cons.prems(2) x by simp
  have "\<forall>(e', k') \<in> set es. usable h1 e' k' \<and> e' \<notin> ran (m(k \<mapsto> e)) \<and> (m(k \<mapsto> e)) k' = None"
    using Cons.prems 1(3) x mk by (fastforce simp: image_iff)
  moreover have "distinct (map fst es)" "distinct (map snd es)" using Cons.prems(3,4) by simp_all
  ultimately obtain h2 q2 where
    2: "put_all insert_element h1 q1 (map fst es) = Some (h2, q2)" "rep h2 q2 (m(k \<mapsto> e) ++ map_of (by_key es))"
    using Cons.IH [OF 1(2)] by blast
  have "map_of (by_key es) k = None" using Cons.prems(4) x by (simp add: by_key_None)
  then have "m(k \<mapsto> e) ++ map_of (by_key es) = m ++ map_of (by_key (x # es))"
    by (auto simp: x map_add_def fun_eq_iff split: option.split)
  then have "rep h2 q2 (m ++ map_of (by_key (x # es)))" using 2(2) by (simp only:)
  moreover have "put_all insert_element h q (map fst (x # es)) = Some (h2, q2)" using 1(1) 2(1) x by simp
  ultimately show ?case by blast
qed simp

text \<open>After any insertions and a removal, every key finds the element that was inserted with it, and the removed key finds nothing.\<close>

lemma table_works:
  assumes "rep h q Map.empty" "\<forall>(e, k) \<in> set es. usable h e k" "distinct (map fst es)" "distinct (map snd es)" "(e, k) \<in> set es"
  shows "\<exists>h1 q1 h2 q2. put_all insert_element h q (map fst es) = Some (h1, q1) \<and> remove_key h1 q1 k = Some (h2, q2, e) \<and>
    (\<forall>(a, n) \<in> set es. search_key h1 q1 n = Some a \<and> search_key h2 q2 n = Some (if n = k then 0 else a)) \<and>
    (\<forall>n. n \<notin> snd ` set es \<longrightarrow> search_key h1 q1 n = Some 0 \<and> search_key h2 q2 n = Some 0)"
proof -
  define m where "m = map_of (by_key es)"
  obtain h1 q1 where 1: "put_all insert_element h q (map fst es) = Some (h1, q1)" "rep h1 q1 m"
    using put_elements [OF assms(1), of es] assms(2-4) by (auto simp: m_def)
  obtain h2 q2 where 2: "remove_key h1 q1 k = Some (h2, q2, case m k of None \<Rightarrow> 0 | Some e \<Rightarrow> e)" "rep h2 q2 (m(k := None))"
    using remove_ok [OF 1(2)] by blast
  have some: "m n = Some a" if "(a, n) \<in> set es" for a n
    using by_key_Some [OF assms(4) that] by (simp add: m_def)
  have none: "m n = None" if "n \<notin> snd ` set es" for n
    using that by (simp add: m_def by_key_None)
  have found: "\<forall>(a, n) \<in> set es. search_key h1 q1 n = Some a \<and> search_key h2 q2 n = Some (if n = k then 0 else a)"
    using search_ok [OF 1(2)] search_ok [OF 2(2)] some by auto
  have missing: "\<forall>n. n \<notin> snd ` set es \<longrightarrow> search_key h1 q1 n = Some 0 \<and> search_key h2 q2 n = Some 0"
    using search_ok [OF 1(2)] search_ok [OF 2(2)] none by auto
  have "remove_key h1 q1 k = Some (h2, q2, e)" using 2(1) some [OF assms(5)] by simp
  then show ?thesis using 1(1) found missing by blast
qed

end

section \<open>Simple\_Hash is a table\<close>

definition sh_rep :: "'m hstore \<Rightarrow> simple_hash \<Rightarrow> (int \<rightharpoonup> addr) \<Rightarrow> bool" where
  "sh_rep h t m \<longleftrightarrow> 0 < sh_n t \<and> (\<exists>syn. simple_rep h (sh_synonyms t) syn \<and>
     (\<forall>i < sh_n t. v_slots (sh_vector t) ! i \<noteq> 0 \<longrightarrow> v_slots (sh_vector t) ! i \<notin> set syn \<and>
        (\<exists>x. h (v_slots (sh_vector t) ! i) = Some x \<and> slot_of (sh_n t) (srank x) = i)) \<and>
     (\<forall>k e. m k = Some e \<longleftrightarrow> (e \<noteq> 0 \<and> e \<in> set (v_slots (sh_vector t)) \<or> e \<in> set syn) \<and> srank_of h e = k))"

lemma slot_of_less: "0 < n \<Longrightarrow> slot_of n k < n"
  by (simp add: slot_of_def)

lemma sol_split: "\<exists>us vs. rank_split rel r R as = (us, vs) \<and> as = us @ vs"
  using rank_split_append by (metis surj_pair)

lemma find_rank_Some: "find_rank r as k = Some a \<Longrightarrow> a \<in> set as \<and> r a = k"
  by (auto simp: find_rank_def find_Some_iff)

lemma find_rank_None: "find_rank r as k = None \<longleftrightarrow> (\<forall>a \<in> set as. r a \<noteq> k)"
  by (auto simp: find_rank_def find_None_iff)

lemma update_member: "i < length as \<Longrightarrow> as ! i = 0 \<Longrightarrow> a \<noteq> 0 \<Longrightarrow> a \<in> set (as[i := e]) \<longleftrightarrow> a = e \<or> a \<in> set as" for a :: addr
  by (auto simp: in_set_conv_nth nth_list_update split: if_splits)

lemma clear_member:
  fixes as :: "addr list"
  assumes "i < length as" "\<And>j. j < length as \<Longrightarrow> as ! j = as ! i \<Longrightarrow> j = i" "a \<noteq> 0"
  shows "a \<in> set (as[i := 0]) \<longleftrightarrow> a \<in> set as \<and> a \<noteq> as ! i"
proof
  assume "a \<in> set (as[i := 0])"
  then obtain j where "j < length as" "as[i := 0] ! j = a" by (auto simp: in_set_conv_nth)
  then show "a \<in> set as \<and> a \<noteq> as ! i" using assms by (cases "j = i") auto
next
  assume "a \<in> set as \<and> a \<noteq> as ! i"
  then obtain j where "j < length as" "as ! j = a" "j \<noteq> i" by (auto simp: in_set_conv_nth)
  then show "a \<in> set (as[i := 0])" by (auto simp: in_set_conv_nth)
qed

lemma sh_hit_ok:
  assumes "sh_rep h t m"
  shows "\<exists>e hit. sh_hit h t k = Some (e, hit) \<and>
    (if hit then e \<noteq> 0 \<and> m k = Some e \<and> e = v_slots (sh_vector t) ! slot_of (sh_n t) k
     else \<forall>a. m k = Some a \<longrightarrow> a = 0 \<or> a \<notin> set (v_slots (sh_vector t)))"
proof -
  let ?i = "slot_of (sh_n t) k" and ?s = "v_slots (sh_vector t)"
  have i: "?i < sh_n t" using assms by (simp add: sh_rep_def slot_of_less)
  have slots: "\<And>j. j < sh_n t \<Longrightarrow> ?s ! j \<noteq> 0 \<Longrightarrow> \<exists>x. h (?s ! j) = Some x \<and> slot_of (sh_n t) (srank x) = j"
    and m: "\<And>k e. e \<noteq> 0 \<Longrightarrow> e \<in> set ?s \<Longrightarrow> srank_of h e = k \<Longrightarrow> m k = Some e"
    and m': "\<And>k e. m k = Some e \<Longrightarrow> srank_of h e = k"
    using assms unfolding sh_rep_def by blast+
  have at: "v_at (sh_vector t) ?i = Some (?s ! ?i)" using i by (simp add: v_at_def sh_n_def)
  have only: "?s ! ?i = a" if a: "m k = Some a" "a \<noteq> 0" "a \<in> set ?s" for a
  proof -
    obtain j where j: "j < sh_n t" "a = ?s ! j" using a(3) by (auto simp: in_set_conv_nth sh_n_def)
    then show ?thesis using slots [of j] m' [OF a(1)] a(2) by auto
  qed
  show ?thesis
  proof (cases "?s ! ?i = 0")
    case True
    then show ?thesis using only by (auto simp: sh_hit_def at)
  next
    case False
    obtain x where x: "h (?s ! ?i) = Some x" using slots [OF i False] by blast
    have "?s ! ?i \<in> set ?s" using i by (simp add: sh_n_def)
    then have "m k = Some (?s ! ?i)" if "srank x = k" using m [OF False] x that by simp
    moreover have "srank x = k" if "m k = Some (?s ! ?i)" using m' [OF that] x by simp
    moreover have "sh_hit h t k = Some (?s ! ?i, srank x = k)" using False x by (simp add: sh_hit_def at store_simps)
    moreover have "a = 0 \<or> a \<notin> set ?s" if "m k = Some a" "srank x \<noteq> k" for a
      using only [OF that(1)] calculation(2) that by blast
    ultimately show ?thesis using False by (intro exI [of _ "?s ! ?i"] exI [of _ "srank x = k"]) simp
  qed
qed

lemma sh_search_ok: "sh_rep h t m \<Longrightarrow> sh_search_key h t k = Some (case m k of None \<Rightarrow> 0 | Some e \<Rightarrow> e)"
proof -
  assume r: "sh_rep h t m"
  obtain e hit where hit: "sh_hit h t k = Some (e, hit)" "if hit then e \<noteq> 0 \<and> m k = Some e \<and> e = v_slots (sh_vector t) ! slot_of (sh_n t) k
     else \<forall>a. m k = Some a \<longrightarrow> a = 0 \<or> a \<notin> set (v_slots (sh_vector t))"
    using sh_hit_ok [OF r] by blast
  show ?thesis
  proof (cases hit)
    case False
    obtain syn where syn: "simple_rep h (sh_synonyms t) syn"
      "\<And>k e. m k = Some e \<longleftrightarrow> (e \<noteq> 0 \<and> e \<in> set (v_slots (sh_vector t)) \<or> e \<in> set syn) \<and> srank_of h e = k"
      using r unfolding sh_rep_def by blast
    have "sh_search_key h t k = Some (case find_rank (srank_of h) syn k of None \<Rightarrow> 0 | Some a \<Rightarrow> a)"
      using hit False by (simp add: sh_search_key_def sol_search_rank_rep [OF syn(1)])
    moreover have "find_rank (srank_of h) syn k = m k"
    proof (cases "find_rank (srank_of h) syn k")
      case None
      then have "m k \<noteq> Some e" for e using hit(2) False syn(2) [of k e] by (auto simp: find_rank_None)
      then show ?thesis using None by (cases "m k") auto
    next
      case (Some a)
      then show ?thesis using find_rank_Some [OF Some] syn(2) [of k a] by simp
    qed
    ultimately show ?thesis by simp
  qed (use hit in \<open>simp add: sh_search_key_def\<close>)
qed

lemma srank_of_False: "rank_insert False r R e us vs a = (if a = e then R else r a)" "rank_remove False r e vs = r"
  by (auto simp: rank_insert_def rank_left_def rank_remove_def)

lemma sh_insert_ok:
  assumes r: "sh_rep h t m" and e: "sol_ranked h e k" "e \<notin> ran m" "m k = None"
  shows "\<exists>h' t'. sh_insert h t e = Some (h', t') \<and> sh_rep h' t' (m(k \<mapsto> e)) \<and>
    (\<forall>a n. a \<noteq> e \<and> a \<notin> ran m \<longrightarrow> sol_ranked h' a n = sol_ranked h a n)"
proof -
  let ?i = "slot_of (sh_n t) k" and ?s = "v_slots (sh_vector t)"
  obtain x where x: "e \<noteq> 0" "h e = Some x" "srank x = k" using e(1) by (auto simp: sol_ranked_def)
  have i: "?i < sh_n t" "?i < length ?s" using r by (simp_all add: sh_rep_def slot_of_less sh_n_def [symmetric])
  obtain syn where syn: "simple_rep h (sh_synonyms t) syn"
    and slots: "\<And>j. j < sh_n t \<Longrightarrow> ?s ! j \<noteq> 0 \<Longrightarrow> ?s ! j \<notin> set syn \<and> (\<exists>x. h (?s ! j) = Some x \<and> slot_of (sh_n t) (srank x) = j)"
    and m: "\<And>k e. m k = Some e \<longleftrightarrow> (e \<noteq> 0 \<and> e \<in> set ?s \<or> e \<in> set syn) \<and> srank_of h e = k"
    using r unfolding sh_rep_def by blast
  have fresh: "e \<notin> set syn" "e \<notin> set ?s" using m [of k e] m [of "srank_of h e" e] e(2) x(1) by (auto simp: ran_def)
  have at: "v_at (sh_vector t) ?i = Some (?s ! ?i)" using i by (simp add: v_at_def)
  show ?thesis
  proof (cases "?s ! ?i = 0")
    case True
    define t' where "t' = t\<lparr>sh_vector := (v_put (sh_vector t) ?i e)\<lparr>v_size := v_size (sh_vector t) + 1\<rparr>\<rparr>"
    have t': "v_slots (sh_vector t') = ?s[?i := e]" "sh_synonyms t' = sh_synonyms t" "sh_n t' = sh_n t"
      by (simp_all add: t'_def v_put_def sh_n_def)
    have "sh_insert h t e = Some (h, t')" using x True at by (simp add: sh_insert_def v_insert_def t'_def store_simps)
    moreover have "sh_rep h t' (m(k \<mapsto> e))"
    proof -
      have "(m(k \<mapsto> e)) n = Some a \<longleftrightarrow> (a \<noteq> 0 \<and> a \<in> set (?s[?i := e]) \<or> a \<in> set syn) \<and> srank_of h a = n" for n a
        using m [of n a] e(3) x fresh update_member [OF i(2) True, of a e] by (auto split: if_splits)
      moreover have "?s[?i := e] ! j \<notin> set syn \<and> (\<exists>x. h (?s[?i := e] ! j) = Some x \<and> slot_of (sh_n t) (srank x) = j)"
        if "j < sh_n t" "?s[?i := e] ! j \<noteq> 0" for j
        using that slots [of j] fresh x i by (cases "j = ?i") auto
      ultimately show ?thesis using syn i(1) unfolding sh_rep_def t' by (intro conjI exI [of _ syn]) auto
    qed
    ultimately show ?thesis by blast
  next
    case False
    obtain us vs where sp: "rank_split False (srank_of h) (srank x) syn = (us, vs)" "syn = us @ vs" using sol_split by blast
    obtain h' l' where l: "sol_insert False h (sh_synonyms t) e = Some (h', l')" "simple_rep h' l' (us @ e # vs)"
      "srank_of h' = rank_insert False (srank_of h) (srank x) e us vs" "same_outside (insert e (set syn)) h h'"
      using sol_insert_rep [OF syn x(1,2) fresh(1) sp(1)] by blast
    have sr: "srank_of h' a = srank_of h a" for a using l(3) x by (simp add: srank_of_False)
    define t' where "t' = t\<lparr>sh_synonyms := l'\<rparr>"
    have "sh_insert h t e = Some (h', t')" using x False at l(1) by (simp add: sh_insert_def v_insert_def t'_def store_simps)
    moreover have "sh_rep h' t' (m(k \<mapsto> e))"
    proof -
      have "(m(k \<mapsto> e)) n = Some a \<longleftrightarrow> (a \<noteq> 0 \<and> a \<in> set ?s \<or> a \<in> set (us @ e # vs)) \<and> srank_of h' a = n" for n a
        using m [of n a] e(3) x fresh sp(2) by (auto simp: sr split: if_splits)
      moreover have "?s ! j \<notin> set (us @ e # vs) \<and> (\<exists>x. h' (?s ! j) = Some x \<and> slot_of (sh_n t) (srank x) = j)"
        if "j < sh_n t" "?s ! j \<noteq> 0" for j
      proof -
        have "?s ! j \<noteq> e" using fresh(2) that(1) by (metis nth_mem sh_n_def)
        then show ?thesis using slots [OF that] same_outsideD [OF l(4), of "?s ! j"] sp(2) by auto
      qed
      ultimately show ?thesis using l(2) i(1) unfolding sh_rep_def
        by (intro conjI exI [of _ "us @ e # vs"]) (auto simp: t'_def sh_n_def)
    qed
    moreover have "sol_ranked h' a n = sol_ranked h a n" if "a \<noteq> e" "a \<notin> ran m" for a n
    proof -
      have "a \<notin> set syn" using that(2) m [of "srank_of h a" a] by (auto simp: ran_def)
      then show ?thesis using same_outsideD [OF l(4), of a] that(1) by (simp add: sol_ranked_def)
    qed
    ultimately show ?thesis by blast
  qed
qed

lemma sh_remove_ok:
  assumes r: "sh_rep h t m"
  shows "\<exists>h' t'. sh_remove_key h t k = Some (h', t', case m k of None \<Rightarrow> 0 | Some e \<Rightarrow> e) \<and> sh_rep h' t' (m(k := None))"
proof -
  let ?i = "slot_of (sh_n t) k" and ?s = "v_slots (sh_vector t)"
  obtain e hit where hit: "sh_hit h t k = Some (e, hit)"
    "if hit then e \<noteq> 0 \<and> m k = Some e \<and> e = ?s ! ?i else \<forall>a. m k = Some a \<longrightarrow> a = 0 \<or> a \<notin> set ?s"
    using sh_hit_ok [OF r] by blast
  have i: "?i < sh_n t" "?i < length ?s" using r by (simp_all add: sh_rep_def slot_of_less sh_n_def [symmetric])
  obtain syn where syn: "simple_rep h (sh_synonyms t) syn"
    and slots: "\<And>j. j < sh_n t \<Longrightarrow> ?s ! j \<noteq> 0 \<Longrightarrow> ?s ! j \<notin> set syn \<and> (\<exists>x. h (?s ! j) = Some x \<and> slot_of (sh_n t) (srank x) = j)"
    and m: "\<And>k e. m k = Some e \<longleftrightarrow> (e \<noteq> 0 \<and> e \<in> set ?s \<or> e \<in> set syn) \<and> srank_of h e = k"
    using r unfolding sh_rep_def by blast
  have at: "v_at (sh_vector t) ?i = Some (?s ! ?i)" using i by (simp add: v_at_def)
  show ?thesis
  proof (cases hit)
    case True
    then have e: "e \<noteq> 0" "m k = Some e" "e = ?s ! ?i" using hit(2) by auto
    define t' where "t' = t\<lparr>sh_vector := v_clear (sh_vector t) ?i\<rparr>"
    have t': "v_slots (sh_vector t') = ?s[?i := 0]" "sh_synonyms t' = sh_synonyms t" "sh_n t' = sh_n t"
      by (simp_all add: t'_def v_clear_def v_put_def sh_n_def)
    have "sh_remove_key h t k = Some (h, t', e)" using hit(1) True e at
      by (auto simp: sh_remove_key_def v_remove_at_def t'_def)
    moreover have "sh_rep h t' (m(k := None))"
    proof -
      have mem: "a \<in> set (?s[?i := 0]) \<longleftrightarrow> a \<in> set ?s \<and> a \<noteq> e" if "a \<noteq> 0" for a
      proof -
        have "j = ?i" if "j < length ?s" "?s ! j = ?s ! ?i" for j
          using slots [of j] slots [OF i(1)] e(1,3) that by (auto simp: sh_n_def)
        then show ?thesis using clear_member [OF i(2) _ that] e(3) by blast
      qed
      have "e \<notin> set syn" using slots [OF i(1)] e by simp
      have "(m(k := None)) n = Some a \<longleftrightarrow> (a \<noteq> 0 \<and> a \<in> set (?s[?i := 0]) \<or> a \<in> set syn) \<and> srank_of h a = n" for n a
      proof (cases "n = k")
        case True
        have "\<not> ((a \<noteq> 0 \<and> a \<in> set (?s[?i := 0]) \<or> a \<in> set syn) \<and> srank_of h a = k)"
        proof
          assume "(a \<noteq> 0 \<and> a \<in> set (?s[?i := 0]) \<or> a \<in> set syn) \<and> srank_of h a = k"
          then have a: "a \<noteq> 0 \<and> a \<in> set (?s[?i := 0]) \<or> a \<in> set syn" "srank_of h a = k" by blast+
          then have "m k = Some a" using m [of k a] mem [of a] by blast
          then have "a = e" using e(2) by simp
          then show False using a(1) mem [of a] \<open>e \<notin> set syn\<close> by blast
        qed
        then show ?thesis unfolding True fun_upd_same by blast
      next
        case False
        then have "a = e \<Longrightarrow> srank_of h a \<noteq> n" using m [of k e] e(2) by simp
        then show ?thesis using m [of n a] mem [of a] False by auto
      qed
      moreover have "?s[?i := 0] ! j \<notin> set syn \<and> (\<exists>x. h (?s[?i := 0] ! j) = Some x \<and> slot_of (sh_n t) (srank x) = j)"
        if "j < sh_n t" "?s[?i := 0] ! j \<noteq> 0" for j
        using that slots [of j] i by (cases "j = ?i") auto
      ultimately show ?thesis using syn i(1) unfolding sh_rep_def t' by (intro conjI exI [of _ syn]) auto
    qed
    ultimately show ?thesis using e by auto
  next
    case False
    have found: "sol_search_rank h (sh_synonyms t) k = Some (case m k of None \<Rightarrow> 0 | Some e \<Rightarrow> e)"
      using sh_search_ok [OF r, of k] hit(1) False by (simp add: sh_search_key_def)
    show ?thesis
    proof (cases "m k")
      case None
      then have "sh_remove_key h t k = Some (h, t, 0)"
        using hit(1) False found by (simp add: sh_remove_key_def sol_remove_rank_def)
      moreover have "m(k := None) = m" using None by auto
      ultimately show ?thesis using r None by auto
    next
      case (Some a)
      have a: "a \<in> set syn" "a \<noteq> 0"
        using hit(2) False m [of k a] Some simple_rep_nonnull [OF syn] by auto
      obtain us vs where split: "syn = us @ a # vs" using a(1) by (meson split_list)
      obtain h' l' where l: "sol_remove False h (sh_synonyms t) a = Some (h', l', a)" "simple_rep h' l' (us @ vs)"
        "srank_of h' = rank_remove False (srank_of h) a vs" "same_outside (set (us @ vs)) h h'"
        using sol_remove_rep [of h "sh_synonyms t" us a vs False] syn split by blast
      have sr: "srank_of h' b = srank_of h b" for b using l(3) by (simp add: srank_of_False)
      have d: "a \<notin> set (us @ vs)" using syn split by (simp add: simple_rep_def)
      define t' where "t' = t\<lparr>sh_synonyms := l'\<rparr>"
      have "sh_remove_key h t k = Some (h', t', a)"
        using hit(1) False found Some a(2) l(1) by (simp add: sh_remove_key_def sol_remove_rank_def t'_def)
      moreover have "sh_rep h' t' (m(k := None))"
      proof -
        have na: "a \<notin> set ?s"
        proof
          assume "a \<in> set ?s"
          then obtain j where j: "j < sh_n t" "a = ?s ! j" by (auto simp: in_set_conv_nth sh_n_def)
          then show False using slots [of j] a by simp
        qed
        have "(m(k := None)) n = Some b \<longleftrightarrow> (b \<noteq> 0 \<and> b \<in> set ?s \<or> b \<in> set (us @ vs)) \<and> srank_of h' b = n" for n b
          using m [of n b] m [of k b] m [of n a] Some d na split by (auto simp: sr)
        moreover have "?s ! j \<notin> set (us @ vs) \<and> (\<exists>x. h' (?s ! j) = Some x \<and> slot_of (sh_n t) (srank x) = j)"
          if "j < sh_n t" "?s ! j \<noteq> 0" for j
          using slots [OF that] same_outsideD [OF l(4), of "?s ! j"] split by auto
        ultimately show ?thesis using l(2) i(1) unfolding sh_rep_def
          by (intro conjI exI [of _ "us @ vs"]) (auto simp: t'_def sh_n_def)
      qed
      ultimately show ?thesis using Some by auto
    qed
  qed
qed

interpretation simple_hash: keyed_table sh_rep sol_ranked sh_insert sh_search_key sh_remove_key
  by unfold_locales (rule sh_insert_ok sh_search_ok sh_remove_ok; assumption)+

lemma sh_new_rep: "0 < n \<Longrightarrow> sh_rep h (sh_new n) Map.empty"
  using simple_rep_new by (auto simp: sh_rep_def sh_new_def sh_n_def v_new_def intro!: exI [of _ "[]"])

section \<open>Hash is a table\<close>

text \<open>\<open>ls\<close> are the contents of the lists.\<close>

definition h_rep :: "'m hstore \<Rightarrow> hash \<Rightarrow> (int \<rightharpoonup> addr) \<Rightarrow> bool" where
  "h_rep h t m \<longleftrightarrow> 0 < length t \<and> (\<exists>ls. length ls = length t \<and>
     (\<forall>i < length t. simple_rep h (t ! i) (ls ! i) \<and> (\<forall>e \<in> set (ls ! i). slot_of (length t) (srank_of h e) = i)) \<and>
     (\<forall>k e. m k = Some e \<longleftrightarrow> e \<in> set (ls ! slot_of (length t) k) \<and> srank_of h e = k))"

lemma h_search_ok: "h_rep h t m \<Longrightarrow> h_search_key h t k = Some (case m k of None \<Rightarrow> 0 | Some e \<Rightarrow> e)"
proof -
  assume r: "h_rep h t m"
  let ?i = "slot_of (length t) k"
  have i: "?i < length t" using r by (simp add: h_rep_def slot_of_less)
  obtain ls where ls: "\<And>i. i < length t \<Longrightarrow> simple_rep h (t ! i) (ls ! i)"
    and m: "\<And>k e. m k = Some e \<longleftrightarrow> e \<in> set (ls ! slot_of (length t) k) \<and> srank_of h e = k"
    using r unfolding h_rep_def by blast
  have "find_rank (srank_of h) (ls ! ?i) k = m k"
  proof (cases "find_rank (srank_of h) (ls ! ?i) k")
    case None
    then have "m k \<noteq> Some e" for e using m [of k e] by (auto simp: find_rank_None)
    then show ?thesis using None by (cases "m k") auto
  next
    case (Some a)
    then show ?thesis using find_rank_Some [OF Some] m [of k a] by simp
  qed
  then show ?thesis using i by (simp add: h_search_key_def h_list_def Let_def sol_search_rank_rep [OF ls])
qed

text \<open>Replacing one list of the table, when the other lists are untouched.\<close>

lemma h_rep_list:
  assumes "length ls = length t" "i < length t" "simple_rep h' l' as" "same_outside A h h'" "\<And>a. srank_of h' a = srank_of h a"
    and "\<And>j. j < length t \<Longrightarrow> simple_rep h (t ! j) (ls ! j) \<and> (\<forall>e \<in> set (ls ! j). slot_of (length t) (srank_of h e) = j)"
    and "\<And>j. j < length t \<Longrightarrow> j \<noteq> i \<Longrightarrow> set (ls ! j) \<inter> A = {}" "\<And>e. e \<in> set as \<Longrightarrow> slot_of (length t) (srank_of h e) = i"
    and "\<And>k e. m k = Some e \<longleftrightarrow> e \<in> set (ls[i := as] ! slot_of (length t) k) \<and> srank_of h e = k"
  shows "h_rep h' (t[i := l']) m"
proof -
  have "simple_rep h' (t[i := l'] ! j) (ls[i := as] ! j) \<and> (\<forall>e \<in> set (ls[i := as] ! j). slot_of (length t) (srank_of h' e) = j)"
    if "j < length t" for j
  proof (cases "j = i")
    case False
    then show ?thesis using assms(6) [OF that] simple_rep_outside [OF _ assms(4)] assms(7) [OF that False] assms(5) by auto
  qed (use assms in auto)
  then show ?thesis using assms(1,2,5,9) unfolding h_rep_def by (intro conjI exI [of _ "ls[i := as]"]) auto
qed

lemma h_insert_ok:
  assumes r: "h_rep h t m" and e: "sol_ranked h e k" "e \<notin> ran m" "m k = None"
  shows "\<exists>h' t'. h_insert h t e = Some (h', t') \<and> h_rep h' t' (m(k \<mapsto> e)) \<and>
    (\<forall>a n. a \<noteq> e \<and> a \<notin> ran m \<longrightarrow> sol_ranked h' a n = sol_ranked h a n)"
proof -
  let ?i = "slot_of (length t) k"
  obtain x where x: "e \<noteq> 0" "h e = Some x" "srank x = k" using e(1) by (auto simp: sol_ranked_def)
  have i: "?i < length t" using r by (simp add: h_rep_def slot_of_less)
  obtain ls where len: "length ls = length t"
    and ls: "\<And>j. j < length t \<Longrightarrow> simple_rep h (t ! j) (ls ! j) \<and> (\<forall>e \<in> set (ls ! j). slot_of (length t) (srank_of h e) = j)"
    and m: "\<And>k e. m k = Some e \<longleftrightarrow> e \<in> set (ls ! slot_of (length t) k) \<and> srank_of h e = k"
    using r unfolding h_rep_def by blast
  have in_ran: "a \<in> ran m" if "j < length t" "a \<in> set (ls ! j)" for a j
    using ls [OF that(1)] that(2) m [of "srank_of h a" a] by (auto simp: ran_def)
  then have fresh: "e \<notin> set (ls ! j)" if "j < length t" for j using that e(2) by blast
  obtain us vs where sp: "rank_split False (srank_of h) (srank x) (ls ! ?i) = (us, vs)" "ls ! ?i = us @ vs" using sol_split by blast
  obtain h' l' where l: "sol_insert False h (t ! ?i) e = Some (h', l')" "simple_rep h' l' (us @ e # vs)"
    "srank_of h' = rank_insert False (srank_of h) (srank x) e us vs" "same_outside (insert e (set (ls ! ?i))) h h'"
    using sol_insert_rep [OF _ x(1,2) fresh [OF i] sp(1)] ls [OF i] by blast
  have sr: "srank_of h' a = srank_of h a" for a using l(3) x by (simp add: srank_of_False)
  have disj: "set (ls ! j) \<inter> insert e (set (ls ! ?i)) = {}" if "j < length t" "j \<noteq> ?i" for j
    using ls [OF that(1)] ls [OF i] fresh [OF that(1)] that(2) by auto
  have "h_rep h' (t[?i := l']) (m(k \<mapsto> e))"
  proof (rule h_rep_list [OF len i l(2,4) sr ls disj])
    show "slot_of (length t) (srank_of h a) = ?i" if "a \<in> set (us @ e # vs)" for a
      using that ls [OF i] sp(2) x by auto
    show "(m(k \<mapsto> e)) n = Some a \<longleftrightarrow> a \<in> set (ls[?i := us @ e # vs] ! slot_of (length t) n) \<and> srank_of h a = n" for n a
      using m [of n a] e(3) x sp(2) i len fresh [of "slot_of (length t) n"] by (cases "slot_of (length t) n = ?i") auto
  qed
  moreover have "h_insert h t e = Some (h', t[?i := l'])" using x i l(1) by (simp add: h_insert_def h_list_def store_simps)
  moreover have "sol_ranked h' a n = sol_ranked h a n" if "a \<noteq> e" "a \<notin> ran m" for a n
  proof -
    have "a \<notin> set (ls ! ?i)" using that(2) in_ran [OF i] by blast
    then show ?thesis using same_outsideD [OF l(4), of a] that(1) by (simp add: sol_ranked_def)
  qed
  ultimately show ?thesis by blast
qed

lemma h_remove_ok:
  assumes r: "h_rep h t m"
  shows "\<exists>h' t'. h_remove_key h t k = Some (h', t', case m k of None \<Rightarrow> 0 | Some e \<Rightarrow> e) \<and> h_rep h' t' (m(k := None))"
proof -
  let ?i = "slot_of (length t) k"
  have i: "?i < length t" using r by (simp add: h_rep_def slot_of_less)
  obtain ls where len: "length ls = length t"
    and ls: "\<And>j. j < length t \<Longrightarrow> simple_rep h (t ! j) (ls ! j) \<and> (\<forall>e \<in> set (ls ! j). slot_of (length t) (srank_of h e) = j)"
    and m: "\<And>k e. m k = Some e \<longleftrightarrow> e \<in> set (ls ! slot_of (length t) k) \<and> srank_of h e = k"
    using r unfolding h_rep_def by blast
  have found: "sol_search_rank h (t ! ?i) k = Some (case m k of None \<Rightarrow> 0 | Some e \<Rightarrow> e)"
    using h_search_ok [OF r, of k] i by (simp add: h_search_key_def h_list_def)
  show ?thesis
  proof (cases "m k")
    case None
    then have "h_remove_key h t k = Some (h, t, 0)" using found i by (simp add: h_remove_key_def h_list_def sol_remove_rank_def)
    moreover have "m(k := None) = m" using None by auto
    ultimately show ?thesis using r None by auto
  next
    case (Some a)
    have a: "a \<in> set (ls ! ?i)" "srank_of h a = k" "a \<noteq> 0" using m [of k a] Some simple_rep_nonnull [of h "t ! ?i"] ls [OF i] by auto
    obtain us vs where split: "ls ! ?i = us @ a # vs" using a(1) by (meson split_list)
    obtain h' l' where l: "sol_remove False h (t ! ?i) a = Some (h', l', a)" "simple_rep h' l' (us @ vs)"
      "srank_of h' = rank_remove False (srank_of h) a vs" "same_outside (set (us @ vs)) h h'"
      using sol_remove_rep [of h "t ! ?i" us a vs False] ls [OF i] split by metis
    have sr: "srank_of h' b = srank_of h b" for b using l(3) by (simp add: srank_of_False)
    have d: "a \<notin> set (us @ vs)" using ls [OF i] split by (auto simp: simple_rep_def)
    have disj: "set (ls ! j) \<inter> set (us @ vs) = {}" if "j < length t" "j \<noteq> ?i" for j
      using ls [OF that(1)] ls [OF i] split that(2) by auto
    have "h_rep h' (t[?i := l']) (m(k := None))"
    proof (rule h_rep_list [OF len i l(2,4) sr ls disj])
      show "slot_of (length t) (srank_of h b) = ?i" if "b \<in> set (us @ vs)" for b using that ls [OF i] split by auto
      show "(m(k := None)) n = Some b \<longleftrightarrow> b \<in> set (ls[?i := us @ vs] ! slot_of (length t) n) \<and> srank_of h b = n" for n b
      proof (cases "slot_of (length t) n = ?i")
        case True
        then show ?thesis using m [of n b] m [of k b] Some split d a(2) i len by auto
      next
        case False
        then have "n \<noteq> k" by auto
        then show ?thesis using m [of n b] False i len by simp
      qed
    qed
    moreover have "h_remove_key h t k = Some (h', t[?i := l'], a)"
      using found Some a(3) l(1) i by (simp add: h_remove_key_def h_list_def sol_remove_rank_def)
    ultimately show ?thesis using Some by auto
  qed
qed

interpretation hash: keyed_table h_rep sol_ranked h_insert h_search_key h_remove_key
  by unfold_locales (rule h_insert_ok h_search_ok h_remove_ok; assumption)+

lemma h_new_rep: "0 < n \<Longrightarrow> h_rep h (h_new n) Map.empty"
  using simple_rep_new by (auto simp: h_rep_def h_new_def slot_of_less intro!: exI [of _ "replicate n []"])

section \<open>What the tables promise\<close>

text \<open>
  C33. Both hash tables find exactly what was inserted: after the insertion of any elements with distinct keys, whatever slots their keys
  share, every key finds its element and every other key finds nothing; and the removal of a key removes its element and no other.
\<close>

theorem hash_tables_find:
  assumes "0 < n" "\<forall>(e, k) \<in> set es. sol_ranked h e k" "distinct (map fst es)" "distinct (map snd es)" "(e, k) \<in> set es"
  shows "(\<exists>h1 t1 h2 t2. put_all sh_insert h (sh_new n) (map fst es) = Some (h1, t1) \<and> sh_remove_key h1 t1 k = Some (h2, t2, e) \<and>
      (\<forall>(a, j) \<in> set es. sh_search_key h1 t1 j = Some a \<and> sh_search_key h2 t2 j = Some (if j = k then 0 else a)) \<and>
      (\<forall>j. j \<notin> snd ` set es \<longrightarrow> sh_search_key h1 t1 j = Some 0 \<and> sh_search_key h2 t2 j = Some 0)) \<and>
    (\<exists>h1 t1 h2 t2. put_all h_insert h (h_new n) (map fst es) = Some (h1, t1) \<and> h_remove_key h1 t1 k = Some (h2, t2, e) \<and>
      (\<forall>(a, j) \<in> set es. h_search_key h1 t1 j = Some a \<and> h_search_key h2 t2 j = Some (if j = k then 0 else a)) \<and>
      (\<forall>j. j \<notin> snd ` set es \<longrightarrow> h_search_key h1 t1 j = Some 0 \<and> h_search_key h2 t2 j = Some 0))"
  by (rule conjI simple_hash.table_works [OF sh_new_rep [OF assms(1)] assms(2-5)] hash.table_works [OF h_new_rep [OF assms(1)] assms(2-5)])+

theorem hash_tables_find_witness:
  "\<exists>h1 t1. put_all sh_insert [1 \<mapsto> singly_linked_ordered 10 1, 2 \<mapsto> singly_linked_ordered 20 3] (sh_new 2) [1, 2] = Some (h1, t1) \<and>
     sh_search_key h1 t1 3 = Some 2 \<and> sh_search_key h1 t1 5 = Some 0"
  using hash_tables_find [THEN conjunct1, of 2 "[(1, 1), (2, 3)]" "[1 \<mapsto> singly_linked_ordered 10 1, 2 \<mapsto> singly_linked_ordered 20 3]" 1 1]
  by (auto simp: sol_ranked_def singly_linked_ordered_def elem.defs elem_ordered.defs)

section \<open>Iterating over a Simple\_Hash\<close>

lemma iterate_synonyms:
  "chain h p as 0 \<Longrightarrow> sh_iterate h t (p, if p = 0 then None else Some (sh_n t + 1)) = Some as"
proof (induction as arbitrary: p)
  case Nil
  then show ?case by (subst sh_iterate.simps) simp
next
  case (Cons a as)
  then obtain x where x: "p = a" "a \<noteq> 0" "h a = Some x" "chain h (nxt x) as 0" by auto
  have "sh_inc h t (a, Some (sh_n t + 1)) = Some (nxt x, if nxt x = 0 then None else Some (sh_n t + 1))"
    using x by (simp add: sh_inc_def skip_empty_def sh_n_def store_simps)
  then show ?case using x Cons.IH [OF x(4)] by (subst sh_iterate.simps) simp
qed

lemma skip_empty_split:
  assumes "i \<le> length as"
  defines "j \<equiv> skip_empty as i"
  shows "i \<le> j" "j \<le> length as" "filter (\<lambda>a. a \<noteq> 0) (drop i as) = (if j < length as then as ! j # filter (\<lambda>a. a \<noteq> 0) (drop (j + 1) as) else [])"
    "j < length as \<Longrightarrow> as ! j \<noteq> 0"
proof -
  define z where "z = takeWhile ((=) 0) (drop i as)"
  have j: "j = i + length z" by (simp add: j_def skip_empty_def z_def)
  have "drop i as = z @ dropWhile ((=) 0) (drop i as)" by (simp add: z_def)
  moreover have "dropWhile ((=) 0) (drop i as) = drop j as" by (simp add: dropWhile_eq_drop j z_def add.commute)
  ultimately have split: "drop i as = z @ drop j as" by simp
  show "i \<le> j" by (simp add: j)
  show le: "j \<le> length as" using arg_cong [OF split, of length] assms(1) by (simp add: j)
  have z: "filter (\<lambda>a. a \<noteq> 0) z = []" unfolding z_def by (auto dest: set_takeWhileD simp: filter_empty_conv)
  show nz: "as ! j \<noteq> 0" if "j < length as"
  proof -
    have "length z < length (drop i as)" using that assms(1) by (simp add: j)
    from nth_length_takeWhile [OF this [unfolded z_def]] show ?thesis using that j assms(1) by (simp add: z_def [symmetric])
  qed
  show "filter (\<lambda>a. a \<noteq> 0) (drop i as) = (if j < length as then as ! j # filter (\<lambda>a. a \<noteq> 0) (drop (j + 1) as) else [])"
    using z nz le by (subst split) (auto simp: Cons_nth_drop_Suc [symmetric])
qed

lemma iterate_slots:
  assumes syn: "chain h (sl_head (sh_synonyms t)) syn 0" and "i \<le> sh_n t"
  shows "\<exists>it. sh_inc h t (c, Some i) = Some it \<and>
    sh_iterate h t it = Some (filter (\<lambda>a. a \<noteq> 0) (drop i (v_slots (sh_vector t))) @ syn)"
  using assms(2)
proof (induction "sh_n t - i" arbitrary: i c rule: less_induct)
  case less
  let ?s = "v_slots (sh_vector t)" let ?j = "skip_empty ?s i"
  have i: "i \<le> length ?s" using less.prems by (simp add: sh_n_def)
  note sk = skip_empty_split [OF i]
  show ?case
  proof (cases "?j < sh_n t")
    case True
    then have inc: "sh_inc h t (c, Some i) = Some (?s ! ?j, Some (?j + 1))" using sk(4) by (simp add: sh_inc_def sh_n_def Let_def)
    have lt: "sh_n t - (?j + 1) < sh_n t - i" using True sk(1) by linarith
    obtain it where it: "sh_inc h t (?s ! ?j, Some (?j + 1)) = Some it"
      "sh_iterate h t it = Some (filter (\<lambda>a. a \<noteq> 0) (drop (?j + 1) ?s) @ syn)"
      using less.hyps [OF lt, of "?s ! ?j"] True by fastforce
    have "sh_iterate h t (?s ! ?j, Some (?j + 1)) = Some (?s ! ?j # filter (\<lambda>a. a \<noteq> 0) (drop (?j + 1) ?s) @ syn)"
      using it by (subst sh_iterate.simps) simp
    then show ?thesis using inc True sk(3) by (simp add: sh_n_def)
  next
    case False
    then have "?j = sh_n t" using sk(2) by (simp add: sh_n_def)
    then have "sh_inc h t (c, Some i) = Some (sl_head (sh_synonyms t), if sl_head (sh_synonyms t) = 0 then None else Some (sh_n t + 1))"
      by (simp add: sh_inc_def Let_def)
    then show ?thesis using iterate_synonyms [OF syn, of t] sk(3) False by (auto simp: sh_n_def)
  qed
qed

lemma distinct_nonnull:
  fixes as :: "addr list"
  assumes "\<And>i j. i < length as \<Longrightarrow> j < length as \<Longrightarrow> as ! i \<noteq> 0 \<Longrightarrow> as ! i = as ! j \<Longrightarrow> i = j"
  shows "distinct (filter (\<lambda>a. a \<noteq> 0) as)"
proof -
  have "filter (\<lambda>a. a \<noteq> 0) as = map (nth as) (filter (\<lambda>i. as ! i \<noteq> 0) [0..<length as])"
    by (subst (1) map_nth [symmetric]) (simp add: filter_map comp_def del: map_nth)
  then show ?thesis using assms by (auto simp: distinct_map inj_on_def)
qed

text \<open>
  Iterating from \<open>begin()\<close> to \<open>end()\<close> visits every element once: those of the slots in the order of the slots, then the synonyms.
\<close>

theorem simple_hash_iterates:
  assumes "sh_rep h t m"
  shows "\<exists>it as. sh_inc h t sh_begin = Some it \<and> sh_iterate h t it = Some as \<and> distinct as \<and> set as = ran m"
proof -
  let ?s = "v_slots (sh_vector t)"
  obtain syn where syn: "simple_rep h (sh_synonyms t) syn"
    and slots: "\<And>j. j < sh_n t \<Longrightarrow> ?s ! j \<noteq> 0 \<Longrightarrow> ?s ! j \<notin> set syn \<and> (\<exists>x. h (?s ! j) = Some x \<and> slot_of (sh_n t) (srank x) = j)"
    and m: "\<And>k e. m k = Some e \<longleftrightarrow> (e \<noteq> 0 \<and> e \<in> set ?s \<or> e \<in> set syn) \<and> srank_of h e = k"
    using assms unfolding sh_rep_def by blast
  obtain it where it: "sh_inc h t sh_begin = Some it" "sh_iterate h t it = Some (filter (\<lambda>a. a \<noteq> 0) ?s @ syn)"
    using iterate_slots [of h t syn 0 0] syn by (auto simp: simple_rep_def sh_begin_def)
  have "i = j" if ij: "i < length ?s" "j < length ?s" "?s ! i \<noteq> 0" "?s ! i = ?s ! j" for i j
  proof -
    have "i < sh_n t" "j < sh_n t" "?s ! j \<noteq> 0" using ij by (simp_all add: sh_n_def)
    then obtain x y where "h (?s ! i) = Some x" "slot_of (sh_n t) (srank x) = i" "h (?s ! j) = Some y" "slot_of (sh_n t) (srank y) = j"
      using slots ij(3) by blast
    then show ?thesis using ij(4) by simp
  qed
  then have "distinct (filter (\<lambda>a. a \<noteq> 0) ?s)" by (rule distinct_nonnull)
  moreover have "set (filter (\<lambda>a. a \<noteq> 0) ?s) \<inter> set syn = {}"
  proof -
    have "a \<notin> set syn" if a: "a \<in> set ?s" "a \<noteq> 0" for a
    proof -
      obtain j where "j < sh_n t" "?s ! j = a" using a(1) by (auto simp: in_set_conv_nth sh_n_def)
      then show ?thesis using slots [of j] a(2) by simp
    qed
    then show ?thesis by auto
  qed
  moreover have "set (filter (\<lambda>a. a \<noteq> 0) ?s @ syn) = ran m"
    using m by (auto simp: ran_def)
  ultimately show ?thesis using it syn by (auto simp: simple_rep_def)
qed

text \<open>
  The search for an object asks the element of each slot in turn, with no test for an empty slot: with an empty first slot it
  dereferences a null pointer, whatever the table holds.
\<close>

theorem simple_hash_search_crashes:
  assumes "0 < sh_n t" "v_slots (sh_vector t) ! 0 = 0"
  shows "sh_search h t ob = None" "sh_remove_object h t ob = None"
  using assms by (cases "v_slots (sh_vector t)"; simp add: sh_n_def sh_search_def sh_remove_object_def v_search_def v_remove_object_def store_simps)+

end
