(* ===== verification/Ip.thy ===== *)
theory Ip
  imports Containers
begin

text \<open>
  The Internet Protocol (\<open>include/network/ipv4/ip.h\<close>, \<open>src/network/ipv4/ip.cc\<close>) and its clients' use of it: checksums, the packed
  fields of the header, routing, the fragmentation of a datagram over the frames of the interface, the reassembly of
  fragments, and the datagrams of UDP (\<open>udp.cc\<close>). Fields are in host order unless the byte order is what an operation is about.
\<close>

unbundle bit_operations_syntax

section \<open>Checksums\<close>

text \<open>The memory from the pointer on is a function: the code reads two bytes at a time, so it may read one byte past the data.\<close>

definition halfword :: "(nat \<Rightarrow> byte) \<Rightarrow> nat \<Rightarrow> ulong" where
  "halfword p i = push_bit 8 (ucast (p i)) OR ucast (p (i + 1))"

definition sum_halfwords :: "(nat \<Rightarrow> byte) \<Rightarrow> nat \<Rightarrow> ulong \<Rightarrow> ulong" where
  "sum_halfwords p n acc = fold (\<lambda>k acc. acc + halfword p (2 * k)) [0..<(n + 1) div 2] acc"

lemma carry_less: "0 < q \<Longrightarrow> q * 2 ^ 16 + r = n \<Longrightarrow> r + q < n" for n q r :: nat
  by simp

lemma fold_decreases: "drop_bit 16 s \<noteq> 0 \<Longrightarrow> unat ((s AND 0xffff) + drop_bit 16 s) < unat s" for s :: ulong
proof -
  assume nz: "drop_bit 16 s \<noteq> 0"
  have a: "s AND 0xffff = take_bit 16 s" by (simp add: take_bit_eq_mask mask_eq_exp_minus_1)
  note u = unat_take_bit [of 16 s] unat_drop_bit [of 16 s]
  have "0 < unat s div 2 ^ 16" using nz u(2) by (metis gr0I unat_eq_0_iff)
  moreover have "unat s mod 2 ^ 16 + unat s div 2 ^ 16 < unat s" if "0 < unat s div 2 ^ 16"
    by (rule carry_less [OF that div_mult_mod_eq])
  moreover have "unat (take_bit 16 s + drop_bit 16 s) \<le> unat (take_bit 16 s) + unat (drop_bit 16 s)" by (simp add: unat_word_ariths)
  ultimately show ?thesis unfolding a using u by linarith
qed

function fold_carry :: "ulong \<Rightarrow> ulong" where
  "fold_carry s = (if drop_bit 16 s \<noteq> 0 then fold_carry ((s AND 0xffff) + drop_bit 16 s) else s)"
  by pat_completeness auto

termination
  by (relation "measure unat") (simp_all add: fold_decreases)

declare fold_carry.simps [simp del]

definition ip_checksum :: "(nat \<Rightarrow> byte) \<Rightarrow> nat \<Rightarrow> 16 word" where
  "ip_checksum p n =
     (let s = sum_halfwords p n 0;
          s = (if odd n then s + ucast (p (n - 1)) else s)
      in ucast (NOT (fold_carry s)))"

text \<open>\<open>sum()\<close> and \<open>check()\<close> of the header, 20 bytes long; \<open>_checksum\<close> is at 10 and 11, in network order.\<close>

definition header_sum :: "(nat \<Rightarrow> byte) \<Rightarrow> nat \<Rightarrow> byte" where
  "header_sum p = (let p = p(10 := 0, 11 := 0); c = ip_checksum p 20 in p(10 := ucast (drop_bit 8 c), 11 := ucast c))"

definition header_check :: "(nat \<Rightarrow> byte) \<Rightarrow> bool" where
  "header_check p \<longleftrightarrow> ip_checksum p 20 \<noteq> 0xffff"

text \<open>The checksum of a TCP segment, over the 12 bytes of the pseudo header, the 20 of the header and the data.\<close>

definition tcp_sum :: "(nat \<Rightarrow> byte) \<Rightarrow> (nat \<Rightarrow> byte) \<Rightarrow> (nat \<Rightarrow> byte) option \<Rightarrow> nat \<Rightarrow> 16 word" where
  "tcp_sum pseudo header data n =
     (let s = sum_halfwords header 20 (sum_halfwords pseudo 12 0);
          s = (case data of None \<Rightarrow> s
               | Some d \<Rightarrow> (let s = sum_halfwords d n s in if odd n then s + ucast (d (n - 1)) else s))
      in ucast (NOT (fold_carry s)))"

section \<open>The packed fields of a header\<close>

text \<open>The flags and the offset share a half word \<open>raw\<close> (\<open>(_flags << 13) | _offset\<close>), kept in network order.\<close>

definition swap16 :: "16 word \<Rightarrow> 16 word" where
  "swap16 x = push_bit 8 x OR drop_bit 8 x"

definition get_offset :: "16 word \<Rightarrow> 16 word" where
  "get_offset raw = push_bit 3 (swap16 raw AND 0x1fff)"

definition get_flags :: "16 word \<Rightarrow> 16 word" where
  "get_flags raw = drop_bit 13 (swap16 raw)"

definition set_offset :: "16 word \<Rightarrow> 16 word \<Rightarrow> 16 word" where
  "set_offset off raw = swap16 (push_bit 13 (get_flags raw) OR drop_bit 3 off)"

definition set_flags :: "16 word \<Rightarrow> 16 word \<Rightarrow> 16 word" where
  "set_flags flg raw = swap16 (push_bit 13 flg OR drop_bit 3 (get_offset raw))"

definition MF :: "16 word" where "MF = 1"

text \<open>\<open>sizeof(Header)\<close>, \<open>MFS\<close> and \<open>MTU\<close>; \<open>NIC_MTU\<close> is \<open>sizeof(Ethernet::Data)\<close>.\<close>

definition IP_HEADER :: nat where "IP_HEADER = 20"
definition NIC_MTU :: nat where "NIC_MTU = 1500"
definition MFS :: nat where "MFS = unat ((word_of_nat (NIC_MTU - IP_HEADER) :: uint) AND NOT 7)"
definition MTU :: nat where "MTU = 65535 - IP_HEADER"

section \<open>Routes\<close>

type_synonym address = "32 word"

record route =
  r_destination :: address
  r_gateway :: address
  r_genmask :: address
  r_nic :: addr
  r_ip :: addr
  r_arp :: addr

text \<open>The table is a list in the order of insertion.\<close>

definition route_matches :: "address \<Rightarrow> route \<Rightarrow> bool" where
  "route_matches to r \<longleftrightarrow> to AND r_genmask r = r_destination r"

definition router_insert :: "route \<Rightarrow> route list \<Rightarrow> route list" where
  "router_insert r table = table @ [r]"

fun router_search :: "address \<Rightarrow> route list \<Rightarrow> route option" where
  "router_search to [] = None"
| "router_search to (r # table) = (if route_matches to r then Some r else router_search to table)"

fun router_remove :: "address \<Rightarrow> route list \<Rightarrow> route list" where
  "router_remove to [] = []"
| "router_remove to (r # table) = (if route_matches to r then table else r # router_remove to table)"

text \<open>\<open>reconfigure\<close>, and the host whose hardware address a datagram goes to, \<open>own\<close> being the address of the route's interface.\<close>

record ip_config =
  ic_address :: address
  ic_netmask :: address
  ic_broadcast :: address
  ic_gateway :: address

definition reconfigure :: "address \<Rightarrow> address \<Rightarrow> address \<Rightarrow> ip_config" where
  "reconfigure a m g = \<lparr>ic_address = a, ic_netmask = m, ic_broadcast = (a AND m) OR NOT m, ic_gateway = g\<rparr>"

definition next_hop :: "address \<Rightarrow> address \<Rightarrow> route \<Rightarrow> address" where
  "next_hop own to r = (if r_gateway r = own then to else r_gateway r)"

section \<open>Fragmentation\<close>

text \<open>
  The sizes of the frames the driver's \<open>alloc(once, always, payload)\<close> makes of \<open>size = once + payload\<close> bytes, \<open>always\<close> being the
  header of each; the \<open>int size\<close> of the loop is positive.
\<close>

function frame_sizes :: "nat \<Rightarrow> nat \<Rightarrow> nat list" where
  "frame_sizes always sz =
     (if 0 < sz \<and> always < NIC_MTU
      then (if sz > NIC_MTU - always then NIC_MTU else sz + always) # frame_sizes always (sz - (NIC_MTU - always))
      else [])"
  by pat_completeness auto

termination
  by (relation "measure snd") auto

declare frame_sizes.simps [simp del]

text \<open>
  The ring of transmit buffers: for each whether its descriptor is the interface's (\<open>OWN\<close>) and whether its lock is taken; \<open>TX_BUFS\<close> is
  their number. \<open>alloc\<close> seizes one for each frame: it looks for one that is not the interface's, and then tries to lock it, over and
  over. \<open>None\<close> is a wait that only the interface or another thread can end; none of the locks the call itself has taken is released
  before \<open>send\<close>.
\<close>

record tx_ring =
  tx_cur :: nat
  tx_own :: "bool list"
  tx_locked :: "bool list"

partial_function (option) tx_skip :: "bool list \<Rightarrow> nat \<Rightarrow> nat option" where
  "tx_skip own i =
     (if i < length own then if own ! i then tx_skip own ((i + 1) mod length own) else Some i else None)"

partial_function (option) tx_seize :: "bool list \<Rightarrow> bool list \<Rightarrow> nat \<Rightarrow> nat option" where
  "tx_seize own locked i = do { i \<leftarrow> tx_skip own i; if locked ! i then tx_seize own locked i else Some i }"

fun tx_seize_all :: "nat list \<Rightarrow> tx_ring \<Rightarrow> (tx_ring \<times> nat list) option" where
  "tx_seize_all [] tx = Some (tx, [])"
| "tx_seize_all (sz # sizes) tx = do {
     i \<leftarrow> tx_seize (tx_own tx) (tx_locked tx) (tx_cur tx);
     (tx, is) \<leftarrow> tx_seize_all sizes (tx\<lparr>tx_locked := (tx_locked tx)[i := True], tx_cur := (i + 1) mod length (tx_own tx)\<rparr>);
     Some (tx, i # is) }"

text \<open>\<open>alloc\<close> gives the buffers with the sizes of their frames, or refuses; \<open>send\<close> waits for each frame to be sent and unlocks its buffer.\<close>

definition pcnet_alloc :: "tx_ring \<Rightarrow> nat \<Rightarrow> nat \<Rightarrow> nat \<Rightarrow> (tx_ring \<times> (nat \<times> nat) list option) option" where
  "pcnet_alloc tx once always payload =
     (if (payload + once) div (NIC_MTU - always) > length (tx_own tx) then Some (tx, None)
      else do {
        let sizes = frame_sizes always (once + payload);
        (tx, is) \<leftarrow> tx_seize_all sizes tx;
        Some (tx, Some (zip is sizes)) })"

definition pcnet_send :: "tx_ring \<Rightarrow> (nat \<times> nat) list \<Rightarrow> tx_ring \<times> nat" where
  "pcnet_send tx pool = (tx\<lparr>tx_locked := fold (\<lambda>i l. l[i := False]) (map fst pool) (tx_locked tx)\<rparr>, sum_list (map snd pool))"

text \<open>The headers \<open>IP::alloc\<close> writes: the length, and the half word of flags and offset; \<open>offset\<close> is an \<open>unsigned int\<close>.\<close>

fun alloc_headers :: "nat list \<Rightarrow> nat \<Rightarrow> (nat \<times> 16 word) list" where
  "alloc_headers [] offset = []"
| "alloc_headers (n # sizes) offset =
     (n, set_offset (word_of_nat offset) (set_flags (if sizes \<noteq> [] then MF else 0) 0)) # alloc_headers sizes (offset + MFS)"

text \<open>
  \<open>IP::alloc\<close>: a null route is followed; \<open>own\<close> is the address of an \<open>IP\<close> object, \<open>resolve\<close> what an \<open>ARP\<close> object answers (0 for
  no answer). It returns the address datagrams go out from, with the buffers and the headers.
\<close>

type_synonym tx_pool = "address \<times> nat list \<times> (nat \<times> 16 word) list"

definition ip_alloc ::
  "route list \<Rightarrow> (addr \<Rightarrow> address) \<Rightarrow> (addr \<Rightarrow> address \<Rightarrow> 48 word) \<Rightarrow> tx_ring \<Rightarrow> address \<Rightarrow> nat \<Rightarrow> nat \<Rightarrow> (tx_ring \<times> tx_pool option) option" where
  "ip_alloc table own resolve tx to once payload = do {
     through \<leftarrow> router_search to table;
     let mac = resolve (r_arp through) (next_hop (own (r_ip through)) to through);
     if mac = 0 then Some (tx, None)
     else do {
       (tx, pool) \<leftarrow> pcnet_alloc tx once IP_HEADER payload;
       Some (tx, map_option (\<lambda>p. (own (r_ip through), map fst p, alloc_headers (map snd p) 0)) pool) } }"

section \<open>Reassembly\<close>

record packet =
  p_from :: address
  p_to :: address
  p_id :: "16 word"
  p_raw :: "16 word"
  p_protocol :: byte
  p_data :: "byte list"

definition p_offset :: "packet \<Rightarrow> nat" where
  "p_offset p = unat (get_offset (p_raw p))"

definition p_more :: "packet \<Rightarrow> bool" where
  "p_more p \<longleftrightarrow> get_flags (p_raw p) AND MF \<noteq> 0"

definition MAX_FRAGMENTS :: nat where
  "MAX_FRAGMENTS = (MTU + MFS - 1) div MFS"

record fragmented =
  f_frags :: nat
  f_bitmap :: "uint list"
  f_list :: "packet list"

definition frag_new :: fragmented where
  "frag_new = \<lparr>f_frags = MAX_FRAGMENTS, f_bitmap = bm_new MAX_FRAGMENTS, f_list = []\<rparr>"

definition frag_insert :: "packet \<Rightarrow> fragmented \<Rightarrow> fragmented" where
  "frag_insert p f =
     (let (m, new) = bm_set MAX_FRAGMENTS (p_offset p div MFS) (f_bitmap f);
          f = f\<lparr>f_bitmap := m\<rparr>;
          f = (if new then f\<lparr>f_list := f_list f @ [p]\<rparr> else f)
      in if \<not> p_more p then f\<lparr>f_frags := (p_offset p + MFS) div MFS\<rparr> else f)"

definition reassembled :: "fragmented \<Rightarrow> bool" where
  "reassembled f \<longleftrightarrow> bm_full (f_frags f) (f_bitmap f)"

text \<open>The loop of \<open>reorder\<close> may run for ever: it takes the front, keeps it if it is the next one, and puts it back otherwise.\<close>

partial_function (option) reorder_loop :: "packet list \<Rightarrow> packet list \<Rightarrow> nat \<Rightarrow> packet list option" where
  "reorder_loop ps tmp i =
     (case ps of [] \<Rightarrow> Some tmp
      | p # ps \<Rightarrow> if p_offset p div MFS = i then reorder_loop ps (tmp @ [p]) (i + 1) else reorder_loop (ps @ [p]) tmp i)"

definition reorder :: "packet list \<Rightarrow> packet list option" where
  "reorder ps = (if length ps > 1 then reorder_loop ps [] 0 else Some ps)"

text \<open>
  \<open>IP\<close>: the table of datagrams being reassembled, by key, and the \<open>Fragmented\<close> objects on the heap; \<open>new\<close> gives the address of a
  new object. What becomes of a packet: dropped, kept, or notified with its protocol, as the buffers of the whole datagram.
\<close>

record ip_state =
  i_config :: ip_config
  i_reassembling :: "nat \<rightharpoonup> addr"
  i_fragments :: "addr \<rightharpoonup> fragmented"

datatype ip_outcome = Dropped | Waiting | Datagram byte "packet list"

text \<open>
  \<open>((packet->from() & ~_netmask) << 16) | packet->id()\<close>: the only conversion an \<open>Address\<close> has to a number is \<open>operator bool\<close>.
\<close>

definition frag_key :: "address \<Rightarrow> packet \<Rightarrow> nat" where
  "frag_key netmask p = (if p_from p AND NOT netmask \<noteq> 0 then 2 ^ 16 else 0) + unat (p_id p)"

definition ip_update :: "((addr \<rightharpoonup> fragmented) \<Rightarrow> addr) \<Rightarrow> bool \<Rightarrow> packet \<Rightarrow> ip_state \<Rightarrow> (ip_state \<times> ip_outcome) option" where
  "ip_update new checked p s =
     (if p_to p \<noteq> ic_address (i_config s) \<and> p_to p \<noteq> ic_broadcast (i_config s) then Some (s, Dropped)
      else if \<not> checked then Some (s, Dropped)
      else if p_more p \<or> p_offset p \<noteq> 0
      then do {
        let key = frag_key (ic_netmask (i_config s)) p;
        (a, s) \<leftarrow>
          (case i_reassembling s key of
             Some a \<Rightarrow> Some (a, s)
           | None \<Rightarrow> let a = new (i_fragments s) in
               Some (a, s\<lparr>i_fragments := (i_fragments s)(a \<mapsto> frag_new), i_reassembling := (i_reassembling s)(key \<mapsto> a)\<rparr>));
        f \<leftarrow> i_fragments s a;
        let f = frag_insert p f;
        if reassembled f
        then do {
          pool \<leftarrow> reorder (f_list f);
          Some (s\<lparr>i_reassembling := (i_reassembling s)(key := None), i_fragments := (i_fragments s)(a := None)\<rparr>, Datagram (p_protocol p) pool) }
        else Some (s\<lparr>i_fragments := (i_fragments s)(a \<mapsto> f)\<rparr>, Waiting) }
      else Some (s, Datagram (p_protocol p) [p]))"

text \<open>The alarm of a \<open>Fragmented\<close>: the buffers are freed and the object deleted; it stays in the table.\<close>

definition frag_timeout :: "addr \<Rightarrow> ip_state \<Rightarrow> ip_state option" where
  "frag_timeout a s = (case i_fragments s a of None \<Rightarrow> None | Some f \<Rightarrow> Some (s\<lparr>i_fragments := (i_fragments s)(a := None)\<rparr>))"

section \<open>Datagrams of UDP\<close>

text \<open>
  The three steps of the checksum of a UDP message, which pass the running sum through the 16 bits of \<open>_checksum\<close>; \<open>sum_header\<close>
  resets it first, and \<open>sum_trailer\<close> leaves it in network order. \<open>check\<close> is over the bytes from the header on.
\<close>

definition udp_sum_header :: "(nat \<Rightarrow> byte) \<Rightarrow> (nat \<Rightarrow> byte) \<Rightarrow> 16 word" where
  "udp_sum_header pseudo header = ucast (sum_halfwords (header(6 := 0, 7 := 0)) 8 (sum_halfwords pseudo 12 0))"

definition udp_sum_data :: "(nat \<Rightarrow> byte) \<Rightarrow> nat \<Rightarrow> 16 word \<Rightarrow> 16 word" where
  "udp_sum_data d n checksum =
     (let s = sum_halfwords d n (ucast checksum) in ucast (if odd n then s + ucast (d (n - 1)) else s))"

definition udp_sum_trailer :: "16 word \<Rightarrow> 16 word" where
  "udp_sum_trailer checksum = swap16 (ucast (NOT (fold_carry (ucast checksum))))"

definition udp_check :: "(nat \<Rightarrow> byte) \<Rightarrow> bool" where
  "udp_check message \<longleftrightarrow> ip_checksum message (unat (word_cat (message 4) (message 5) :: 16 word)) \<noteq> 0xffff"

text \<open>
  \<open>UDP_DATA\<close> is \<open>sizeof(Data)\<close>. The header, in network order; \<open>checksum\<close> is what the three steps above leave in it.
\<close>

definition UDP_HEADER :: nat where "UDP_HEADER = 8"
definition UDP_DATA :: nat where "UDP_DATA = MTU - UDP_HEADER"

definition htons_bytes :: "16 word \<Rightarrow> byte list" where
  "htons_bytes x = [ucast (drop_bit 8 x), ucast x]"

definition udp_header :: "16 word \<Rightarrow> 16 word \<Rightarrow> nat \<Rightarrow> 16 word \<Rightarrow> byte list" where
  "udp_header from_port to_port n checksum =
     htons_bytes from_port @ htons_bytes to_port @
     htons_bytes (word_of_nat ((if n > UDP_DATA then UDP_DATA else n) + UDP_HEADER)) @ htons_bytes checksum"

text \<open>
  \<open>UDP::send\<close> fills the frames in turn: the first holds the 8 bytes of the UDP header and then data, the others data. It returns the
  bytes the interface has sent less the headers, 0 if there are no buffers.
\<close>

fun udp_fill :: "byte list \<Rightarrow> byte list \<Rightarrow> nat list \<Rightarrow> byte list list" where
  "udp_fill header data [] = []"
| "udp_fill header data (n # sizes) =
     (header @ take (n - length header - IP_HEADER) data) # udp_fill [] (drop (n - length header - IP_HEADER) data) sizes"

definition udp_send ::
  "(address \<Rightarrow> nat \<Rightarrow> nat \<Rightarrow> (tx_ring \<times> tx_pool option) option) \<Rightarrow>
   address \<Rightarrow> 16 word \<Rightarrow> 16 word \<Rightarrow> 16 word \<Rightarrow> 16 word \<Rightarrow> byte list \<Rightarrow> (tx_ring \<times> packet list \<times> nat) option" where
  "udp_send alloc to ident from_port to_port checksum data = do {
     let n = (if length data > UDP_DATA then UDP_DATA else length data);
     (tx, pool) \<leftarrow> alloc to UDP_HEADER n;
     case pool of None \<Rightarrow> Some (tx, [], 0)
     | Some (own, is, headers) \<Rightarrow>
         let ps = map2 (\<lambda>(_, raw) payload. \<lparr>p_from = own, p_to = to, p_id = ident, p_raw = raw, p_protocol = 0x11, p_data = payload\<rparr>)
               headers (udp_fill (udp_header from_port to_port n checksum) data (map fst headers));
             (tx, size) = pcnet_send tx (zip is (map fst headers))
         in Some (tx, ps, size - (UDP_HEADER + IP_HEADER * length headers)) }"

text \<open>
  \<open>UDP::receive\<close>: what it copies to \<open>data\<close>. \<open>len\<close> is \<open>buf->size() - sizeof(IP::Header)\<close>, less the UDP header in the first buffer; the
  loop stops when more than \<open>s\<close> bytes have been copied. \<open>message\<close> is the memory from the message on.
\<close>

fun udp_copy :: "packet list \<Rightarrow> nat \<Rightarrow> nat \<Rightarrow> nat \<Rightarrow> byte list" where
  "udp_copy [] hdr n s = []"
| "udp_copy (p # ps) hdr n s =
     (if n \<le> s then drop hdr (p_data p) @ udp_copy ps 0 (n + (length (p_data p) - hdr)) s else [])"

definition udp_receive :: "(nat \<Rightarrow> byte) \<Rightarrow> packet list \<Rightarrow> nat \<Rightarrow> byte list \<times> nat" where
  "udp_receive message pool s = (let d = udp_copy pool UDP_HEADER 0 s in (d, if udp_check message then length d else 0))"

end
