(* ===== verification/Ip_Properties.thy ===== *)
theory Ip_Properties
  imports Ip "HOL-Library.Multiset"
begin

text \<open>
  What IP promises: checksums that cancel out, headers that keep their packed fields apart, datagrams that are put together again
  whatever order their fragments arrive in and however often, and the round trip of a UDP datagram through all of it; and
  where it falls short: the check of the header, the key of the reassembly and its alarm.
\<close>

unbundle bit_operations_syntax

section \<open>Checksums\<close>

definition hw :: "(nat \<Rightarrow> byte) \<Rightarrow> nat \<Rightarrow> nat" where
  "hw p i = unat (p i) * 256 + unat (p (i + 1))"

lemma halfword_add: "halfword p i = push_bit 8 (ucast (p i)) + ucast (p (i + 1))"
  unfolding halfword_def by (rule disjunctive_add [symmetric]) (auto simp: bit_simps dest: bit_imp_le_length)

lemma unat_halfword: "unat (halfword p i) = hw p i"
proof -
  have b: "unat (p i) < 256" "unat (p (i + 1)) < 256" using unsigned_less [of "p i"] unsigned_less [of "p (i + 1)"] by simp_all
  have "unat (push_bit 8 (ucast (p i)) :: ulong) = unat (p i) * 256"
    using b by (simp add: push_bit_eq_mult unat_word_ariths unsigned_ucast_eq take_bit_nat_eq_self)
  then show ?thesis using b unfolding halfword_add hw_def
    by (subst unat_word_ariths) (simp add: unsigned_ucast_eq take_bit_nat_eq_self)
qed

lemma hw_bound: "hw p i < 65536"
proof -
  have "unat (p i) < 256" "unat (p (i + 1)) < 256" using unat_less [of "p i"] unat_less [of "p (i + 1)"] by simp_all
  then show ?thesis by (simp add: hw_def)
qed

lemma unat_fold_halfwords:
  "unat acc + m * 65536 < 2 ^ 64 \<Longrightarrow>
   unat (fold (\<lambda>k acc. acc + halfword p (2 * k)) [0..<m] acc) = unat acc + (\<Sum>k < m. hw p (2 * k))"
proof (induction m)
  case (Suc m)
  have s: "(\<Sum>k < m. hw p (2 * k)) \<le> m * 65536" using sum_bounded_above [of "{..<m}" "\<lambda>k. hw p (2 * k)" 65536] hw_bound by (simp add: less_imp_le)
  then show ?case using Suc hw_bound [of p "2 * m"] by (simp add: unat_word_ariths unat_halfword)
qed simp

lemma unat_sum20: "unat (sum_halfwords p 20 0) = (\<Sum>k < 10. hw p (2 * k))"
  unfolding sum_halfwords_def using unat_fold_halfwords [of 0 10 p] by simp

lemma add_fold: "unat ((s AND 0xffff) + drop_bit 16 s) = unat s mod 65536 + unat s div 65536" for s :: ulong
proof -
  have a: "s AND 0xffff = take_bit 16 s" by (simp add: take_bit_eq_mask mask_eq_exp_minus_1)
  have "unat s div 65536 < 2 ^ 48" using unsigned_less [of s] by (simp add: div_less_iff_less_mult)
  then show ?thesis unfolding a by (subst unat_word_ariths) (simp add: unat_take_bit unat_drop_bit)
qed

lemma mod_65535: "(n mod 65536 + n div 65536) mod 65535 = n mod 65535" for n :: nat
proof -
  have "n = n div 65536 * 65535 + (n mod 65536 + n div 65536)" using div_mult_mod_eq [of n 65536] by linarith
  then show ?thesis by (metis mod_mult_self3)
qed

lemma fold_carry_value:
  "unat (fold_carry s) < 65536 \<and> unat (fold_carry s) mod 65535 = unat s mod 65535 \<and> (fold_carry s = 0 \<longleftrightarrow> s = 0)"
proof (induction s rule: fold_carry.induct)
  case (1 s)
  show ?case
  proof (cases "drop_bit 16 s = 0")
    case True
    then have "unat s div 65536 = 0" using unat_drop_bit [of 16 s] by simp
    then show ?thesis using True by (simp add: fold_carry.simps [of s] div_eq_0_iff)
  next
    case False
    let ?t = "(s AND 0xffff) + drop_bit 16 s"
    have "s \<noteq> 0" using False by auto
    moreover have "?t \<noteq> 0" using add_fold [of s] False unat_drop_bit [of 16 s] by (auto simp: unat_eq_0_iff [symmetric])
    ultimately show ?thesis using 1 [OF False] add_fold [of s] mod_65535 [of "unat s"] False by (simp add: fold_carry.simps [of s])
  qed
qed

lemma checksum20: "ip_checksum p 20 = ucast (NOT (fold_carry (sum_halfwords p 20 0)))"
  by (simp add: ip_checksum_def)

lemma unat_not16: "unat (ucast (NOT s) :: 16 word) = 65535 - unat s" if "unat s < 65536" for s :: ulong
proof -
  have n: "ucast (NOT s) = - 1 - (ucast s :: 16 word)"
  proof -
    have "ucast (NOT s) = NOT (ucast s :: 16 word)" by (rule bit_word_eqI) (auto simp: bit_simps)
    then show ?thesis by (simp add: not_eq_complement)
  qed
  have u: "unat (ucast s :: 16 word) = unat s" using that by (simp add: unsigned_ucast_eq take_bit_nat_eq_self)
  have "(ucast s :: 16 word) \<le> - 1" by (simp add: word_le_nat_alt unsigned_minus_1_eq_mask mask_eq_exp_minus_1 u) (use that in simp)
  then show ?thesis unfolding n by (simp add: unat_sub u unsigned_minus_1_eq_mask mask_eq_exp_minus_1)
qed

lemma unat_checksum20: "unat (ip_checksum p 20) = 65535 - unat (fold_carry (sum_halfwords p 20 0))"
  using fold_carry_value [of "sum_halfwords p 20 0"] by (simp add: checksum20 unat_not16)

lemma sum10: "(\<Sum>k < 10. f k) = f 0 + f 1 + f 2 + f 3 + f 4 + f 5 + f 6 + f 7 + f 8 + f 9" for f :: "nat \<Rightarrow> nat"
  by (simp add: eval_nat_numeral)

lemma all_zero: "(\<Sum>k < 10. hw p (2 * k)) = 0 \<longleftrightarrow> (\<forall>i < 20. p i = 0)"
proof -
  have "hw p (2 * k) = 0 \<longleftrightarrow> p (2 * k) = 0 \<and> p (2 * k + 1) = 0" for k by (simp add: hw_def unat_eq_0_iff)
  then have "(\<Sum>k < 10. hw p (2 * k)) = 0 \<longleftrightarrow> (\<forall>k < 10. p (2 * k) = 0 \<and> p (2 * k + 1) = 0)" by auto
  also have "\<dots> \<longleftrightarrow> (\<forall>i < 20. p i = 0)"
  proof (intro iffI allI impI)
    fix i :: nat assume h: "\<forall>k < 10. p (2 * k) = 0 \<and> p (2 * k + 1) = 0" and "i < 20"
    then have "i div 2 < 10" by simp
    with h have "p (2 * (i div 2)) = 0 \<and> p (2 * (i div 2) + 1) = 0" by blast
    then show "p i = 0" by (cases "even i") (auto elim!: evenE oddE)
  qed simp
  finally show ?thesis .
qed

text \<open>
  The sum of the header is right, its check is not: \<open>sum()\<close> stores the checksum that makes the checksum of the whole header 0, but
  \<open>check()\<close> compares with \<open>0xffff\<close> and accepts every header that is not 20 bytes of zeros, whatever has happened to it.
\<close>

theorem header_check_accepts: "ip_checksum (header_sum p) 20 = 0 \<and> (header_check p \<longleftrightarrow> (\<exists>i < 20. p i \<noteq> 0))"
proof
  define q where "q = p(10 := 0, 11 := 0)"
  define f where "f = unat (fold_carry (sum_halfwords q 20 0))"
  define c where "c = ip_checksum q 20"
  have c: "unat c = 65535 - f" by (simp add: c_def f_def unat_checksum20)
  have f: "f < 65536" "f mod 65535 = (\<Sum>k < 10. hw q (2 * k)) mod 65535" "f = 0 \<longleftrightarrow> (\<Sum>k < 10. hw q (2 * k)) = 0"
    using fold_carry_value [of "sum_halfwords q 20 0"] unat_sum20 [of q] by (simp_all add: f_def unat_eq_0_iff [symmetric])
  have hs: "header_sum p = q(10 := ucast (drop_bit 8 c), 11 := ucast c)" by (simp add: header_sum_def q_def c_def Let_def)
  have "hw (header_sum p) 10 = unat (drop_bit 8 c) mod 256 * 256 + unat c mod 256"
    by (simp add: hw_def hs unsigned_ucast_eq take_bit_eq_mod)
  also have "\<dots> = unat c"
  proof -
    have "unat c div 256 < 256" using unat_less [of c] by (simp add: div_less_iff_less_mult)
    then show ?thesis by (simp add: unat_drop_bit)
  qed
  finally have "hw (header_sum p) 10 = 65535 - f" using c by simp
  moreover have "hw q 10 = 0" by (simp add: hw_def q_def)
  moreover have "hw (header_sum p) k = hw q k" if "k \<notin> {9, 10, 11}" for k
    using that by (auto simp: hw_def hs)
  ultimately have S: "(\<Sum>k < 10. hw (header_sum p) (2 * k)) = (\<Sum>k < 10. hw q (2 * k)) + (65535 - f)"
    by (simp add: sum10)
  define g where "g = unat (fold_carry (sum_halfwords (header_sum p) 20 0))"
  have g: "g < 65536" "g mod 65535 = ((\<Sum>k < 10. hw q (2 * k)) + (65535 - f)) mod 65535" "g = 0 \<longleftrightarrow> (\<Sum>k < 10. hw q (2 * k)) + (65535 - f) = 0"
    using fold_carry_value [of "sum_halfwords (header_sum p) 20 0"] unat_sum20 [of "header_sum p"] S
    by (simp_all add: g_def unat_eq_0_iff [symmetric])
  have "((\<Sum>k < 10. hw q (2 * k)) + (65535 - f)) mod 65535 = (f + (65535 - f)) mod 65535" using f(2) by (metis mod_add_left_eq)
  also have "\<dots> = 0" using f(1) by simp
  finally have "g mod 65535 = 0" using g(2) by simp
  moreover have "g \<noteq> 0"
  proof
    assume "g = 0"
    then have z: "(\<Sum>k < 10. hw q (2 * k)) = 0 \<and> 65535 - f = 0" unfolding g(3) add_is_0 .
    then show False using f(3) by simp
  qed
  ultimately have "g = 65535" using g(1) by (auto elim!: dvdE)
  then have "unat (ip_checksum (header_sum p) 20) = 0" using unat_checksum20 [of "header_sum p"] by (simp add: g_def)
  then show "ip_checksum (header_sum p) 20 = 0" by (simp add: unat_eq_0_iff)
next
  define f where "f = unat (fold_carry (sum_halfwords p 20 0))"
  have f: "f < 65536" "f = 0 \<longleftrightarrow> (\<Sum>k < 10. hw p (2 * k)) = 0"
    using fold_carry_value [of "sum_halfwords p 20 0"] unat_sum20 [of p] by (simp_all add: f_def unat_eq_0_iff [symmetric])
  have "ip_checksum p 20 = 0xffff \<longleftrightarrow> unat (ip_checksum p 20) = 65535" by (simp add: word_unat_eq_iff)
  also have "\<dots> \<longleftrightarrow> f = 0" using unat_checksum20 [of p] f(1) by (auto simp: f_def)
  also have "\<dots> \<longleftrightarrow> (\<forall>i < 20. p i = 0)"
    unfolding f(2) by (rule all_zero)
  finally show "header_check p \<longleftrightarrow> (\<exists>i < 20. p i \<noteq> 0)" by (simp add: header_check_def)
qed

section \<open>The packed fields of a header\<close>

lemma swap16_swap16 [simp]: "swap16 (swap16 x) = x"
  by (rule bit_word_eqI) (auto simp: swap16_def bit_simps)

lemma mask_1fff: "x AND 0x1fff = take_bit 13 x" for x :: "16 word"
  by (simp add: take_bit_eq_mask mask_eq_exp_minus_1)

lemma packed_fields:
  "get_flags (set_offset off raw) = get_flags raw" "get_offset (set_flags flg raw) = get_offset raw"
  "get_offset (set_offset off raw) = push_bit 3 (drop_bit 3 off)" "get_flags (set_flags flg raw) = take_bit 3 flg"
  by (rule bit_word_eqI; auto simp: get_offset_def get_flags_def set_offset_def set_flags_def mask_1fff bit_simps dest: bit_imp_le_length)+

lemma get_offset_aligned: "8 dvd n \<Longrightarrow> n < 65536 \<Longrightarrow> unat (get_offset (set_offset (word_of_nat n) raw)) = n"
proof -
  assume n: "8 dvd n" "n < 65536"
  have "unat (push_bit 3 (drop_bit 3 (word_of_nat n :: 16 word))) = n div 8 * 8"
    using n(2) by (simp add: push_bit_eq_mult unat_word_ariths unat_drop_bit unsigned_of_nat take_bit_nat_eq_self)
  then show ?thesis using n(1) by (simp add: packed_fields)
qed

section \<open>Putting fragments in order\<close>

lemma MFS_eq: "MFS = 1480"
  by (simp add: MFS_def NIC_MTU_def IP_HEADER_def)

lemma MAX_FRAGMENTS_eq: "MAX_FRAGMENTS = 45"
  by (simp add: MAX_FRAGMENTS_def MTU_def MFS_eq IP_HEADER_def)

abbreviation p_index :: "packet \<Rightarrow> nat" where
  "p_index p \<equiv> p_offset p div MFS"

text \<open>Fragments that are not next are turned over until the next one is at the front.\<close>

lemma reorder_turn:
  "\<forall>q \<in> set qs. p_index q \<noteq> i \<Longrightarrow> reorder_loop (qs @ ps) tmp i = reorder_loop (ps @ qs) tmp i"
proof (induction qs arbitrary: ps)
  case (Cons q qs)
  have "reorder_loop ((q # qs) @ ps) tmp i = reorder_loop (qs @ ps @ [q]) tmp i"
    using Cons.prems by (subst reorder_loop.simps) simp
  also have "\<dots> = reorder_loop ((ps @ [q]) @ qs) tmp i" using Cons.prems by (intro Cons.IH) simp
  finally show ?case by simp
qed simp

lemma reorder_loop_sorts:
  "distinct (map p_index ps) \<Longrightarrow> set (map p_index ps) = {i..<n} \<Longrightarrow> i \<le> n \<Longrightarrow>
   \<exists>qs. reorder_loop ps tmp i = Some (tmp @ qs) \<and> map p_index qs = [i..<n] \<and> set qs = set ps"
proof (induction "length ps" arbitrary: ps tmp i)
  case 0
  then have "i = n" by simp
  then show ?case using 0 by (simp add: reorder_loop.simps)
next
  case (Suc l)
  have "{i..<n} \<noteq> {}" using Suc.hyps(2) Suc.prems(2) by (metis length_map length_pos_if_in_set list.set_intros(1) neq_Nil_conv nat.simps(3) set_empty length_0_conv)
  then have i: "i < n" by simp
  then have "i \<in> set (map p_index ps)" using Suc.prems(2) by simp
  then obtain p where "p \<in> set ps" "p_index p = i" by auto
  then obtain us vs where split: "ps = us @ p # vs" by (meson split_list)
  have us: "\<forall>q \<in> set us. p_index q \<noteq> i" using Suc.prems(1) \<open>p_index p = i\<close> by (auto simp: split image_iff)
  have "reorder_loop ps tmp i = reorder_loop ((p # vs) @ us) tmp i" unfolding split using us by (rule reorder_turn)
  also have "\<dots> = reorder_loop (vs @ us) (tmp @ [p]) (i + 1)" using \<open>p_index p = i\<close> by (subst reorder_loop.simps) simp
  finally have step: "reorder_loop ps tmp i = reorder_loop (vs @ us) (tmp @ [p]) (i + 1)" .
  have "set (map p_index (vs @ us)) = {i..<n} - {i}"
    using Suc.prems(1,2) \<open>p_index p = i\<close> by (auto simp: split)
  then have "set (map p_index (vs @ us)) = {i + 1..<n}" by auto
  moreover have "distinct (map p_index (vs @ us))" using Suc.prems(1) by (auto simp: split)
  ultimately obtain qs where "reorder_loop (vs @ us) (tmp @ [p]) (i + 1) = Some ((tmp @ [p]) @ qs)" "map p_index qs = [i + 1..<n]" "set qs = set (vs @ us)"
    using Suc.hyps(1) [of "vs @ us" "i + 1" "tmp @ [p]"] Suc.hyps(2) i by (auto simp: split)
  then show ?case using step i \<open>p_index p = i\<close> by (intro exI [of _ "p # qs"]) (auto simp: split upt_conv_Cons)
qed

lemma reorder_sorts:
  assumes "distinct (map p_index ps)" "set (map p_index ps) = {..<n}"
  shows "\<exists>qs. reorder ps = Some qs \<and> map p_index qs = [0..<n] \<and> set qs = set ps"
proof (cases "length ps > 1")
  case True
  then show ?thesis using reorder_loop_sorts [of ps 0 n "[]"] assms by (auto simp: reorder_def atLeast0LessThan)
next
  case False
  have "n = length ps" using assms by (metis card_lessThan distinct_card length_map)
  then have "map p_index ps = [0..<n]" using False assms by (cases ps) (auto simp: lessThan_Suc)
  then show ?thesis using False by (simp add: reorder_def)
qed

section \<open>Reassembling a datagram\<close>

text \<open>The packets \<open>p 0\<close> to \<open>p (n - 1)\<close> are the fragments of a datagram for a host with the configuration \<open>c\<close>, under the key \<open>key\<close>.\<close>

definition fragments_of :: "ip_config \<Rightarrow> nat \<Rightarrow> nat \<Rightarrow> (nat \<Rightarrow> packet) \<Rightarrow> bool" where
  "fragments_of c key n p \<longleftrightarrow> 2 \<le> n \<and> n \<le> MAX_FRAGMENTS \<and>
     (\<forall>k < n. p_offset (p k) = k * MFS \<and> (p_more (p k) \<longleftrightarrow> k + 1 < n) \<and> frag_key (ic_netmask c) (p k) = key \<and>
        (p_to (p k) = ic_address c \<or> p_to (p k) = ic_broadcast c))"

text \<open>A \<open>Fragmented\<close> that holds the fragments \<open>A\<close>; the state of a host that has got the fragments \<open>A\<close>.\<close>

definition frag_holds :: "nat \<Rightarrow> (nat \<Rightarrow> packet) \<Rightarrow> nat set \<Rightarrow> fragmented \<Rightarrow> bool" where
  "frag_holds n p A f \<longleftrightarrow> A \<subseteq> {..<n} \<and> bm_rep MAX_FRAGMENTS (f_bitmap f) A \<and> distinct (map p_index (f_list f)) \<and>
     set (f_list f) = p ` A \<and> f_frags f = (if n - 1 \<in> A then n else MAX_FRAGMENTS)"

definition ip_got :: "nat \<Rightarrow> nat \<Rightarrow> (nat \<Rightarrow> packet) \<Rightarrow> nat set \<Rightarrow> ip_state \<Rightarrow> bool" where
  "ip_got key n p A s \<longleftrightarrow> A = {} \<and> i_reassembling s key = None \<or>
     (\<exists>a f. i_reassembling s key = Some a \<and> i_fragments s a = Some f \<and> frag_holds n p A f)"

lemma fragment_facts:
  assumes "fragments_of c key n p" "k < n"
  shows "p_offset (p k) = k * MFS" "p_index (p k) = k" "p_more (p k) \<longleftrightarrow> k + 1 < n" "k < MAX_FRAGMENTS"
    "(p_offset (p k) + MFS) div MFS = k + 1" "p_more (p k) \<or> p_offset (p k) \<noteq> 0"
  using assms by (auto simp: fragments_of_def MFS_eq)

lemma frag_insert_holds:
  assumes p: "fragments_of c key n p" and k: "k < n" and h: "frag_holds n p A f"
  shows "frag_holds n p (insert k A) (frag_insert (p k) f)"
proof -
  note pk = fragment_facts [OF p k]
  obtain m where m: "bm_set MAX_FRAGMENTS k (f_bitmap f) = (m, k \<notin> A)" "bm_rep MAX_FRAGMENTS m (insert k A)"
    using bm_set_rep [of MAX_FRAGMENTS "f_bitmap f" A k] h pk(4) by (auto simp: frag_holds_def)
  have f': "frag_insert (p k) f = f\<lparr>f_bitmap := m, f_list := (if k \<notin> A then f_list f @ [p k] else f_list f),
      f_frags := (if k + 1 < n then f_frags f else k + 1)\<rparr>"
    using m(1) pk by (simp add: frag_insert_def Let_def)
  have idx: "p_index ` p ` A = A" using h fragment_facts(2) [OF p] by (force simp: frag_holds_def image_iff)
  have "distinct (map p_index (f_list (frag_insert (p k) f)))"
    using h pk(2) idx by (auto simp: f' frag_holds_def image_image)
  moreover have "set (f_list (frag_insert (p k) f)) = p ` insert k A" using h by (auto simp: f' frag_holds_def)
  moreover have "f_frags (frag_insert (p k) f) = (if n - 1 \<in> insert k A then n else MAX_FRAGMENTS)"
    using h k by (auto simp: f' frag_holds_def)
  ultimately show ?thesis using h m(2) k by (auto simp: frag_holds_def f')
qed

lemma reassembled_iff:
  assumes p: "fragments_of c key n p" and h: "frag_holds n p A f"
  shows "reassembled f \<longleftrightarrow> A = {..<n}"
proof -
  have n: "2 \<le> n" "n \<le> MAX_FRAGMENTS" using p by (simp_all add: fragments_of_def)
  then have "f_frags f \<le> MAX_FRAGMENTS" using h by (simp add: frag_holds_def)
  then have "reassembled f \<longleftrightarrow> {..<f_frags f} \<subseteq> A"
    using bm_full_rep [of MAX_FRAGMENTS "f_bitmap f" A "f_frags f"] h by (simp add: reassembled_def frag_holds_def)
  also have "\<dots> \<longleftrightarrow> A = {..<n}"
  proof (cases "n - 1 \<in> A")
    case False
    have "n - 1 < MAX_FRAGMENTS" "n - 1 < n" using n by linarith+
    then show ?thesis using h False by (auto simp: frag_holds_def)
  qed (use h in \<open>auto simp: frag_holds_def\<close>)
  finally show ?thesis .
qed

lemma reorder_holds:
  assumes p: "fragments_of c key n p" and h: "frag_holds n p {..<n} f"
  shows "reorder (f_list f) = Some (map p [0..<n])"
proof -
  have idx: "\<And>k. k < n \<Longrightarrow> p_index (p k) = k" using fragment_facts(2) [OF p] .
  have "p_index ` p ` {..<n} = {..<n}" using idx by (force simp: image_iff)
  then obtain qs where qs: "reorder (f_list f) = Some qs" "map p_index qs = [0..<n]" "set qs = p ` {..<n}"
    using reorder_sorts [of "f_list f" n] h by (auto simp: frag_holds_def image_image)
  have l: "length qs = n" using arg_cong [OF qs(2), of length] by simp
  have "qs ! i = p i" if "i < n" for i
  proof -
    have "qs ! i \<in> p ` {..<n}" using that l qs(3) by (metis nth_mem)
    then obtain k where k: "k < n" "qs ! i = p k" by auto
    moreover have "p_index (qs ! i) = i" using arg_cong [OF qs(2), of "\<lambda>xs. xs ! i"] that l by simp
    ultimately show ?thesis using idx [of k] by simp
  qed
  then have "qs = map p [0..<n]" using l by (intro nth_equalityI) simp_all
  then show ?thesis using qs(1) by simp
qed

lemma frag_new_holds: "fragments_of c key n p \<Longrightarrow> frag_holds n p {} frag_new"
  using bm_new_rep by (auto simp: frag_holds_def frag_new_def fragments_of_def)

text \<open>What \<open>update\<close> does with a fragment that is under way, and with the first one of a datagram.\<close>

definition for_host :: "ip_config \<Rightarrow> packet \<Rightarrow> bool" where
  "for_host c p \<longleftrightarrow> p_to p = ic_address c \<or> p_to p = ic_broadcast c"

definition first_fragment :: "((addr \<rightharpoonup> fragmented) \<Rightarrow> addr) \<Rightarrow> nat \<Rightarrow> ip_state \<Rightarrow> ip_state" where
  "first_fragment new key s = s\<lparr>i_fragments := (i_fragments s)(new (i_fragments s) \<mapsto> frag_new),
     i_reassembling := (i_reassembling s)(key \<mapsto> new (i_fragments s))\<rparr>"

lemma ip_update_next:
  assumes "for_host (i_config s) p" "p_more p \<or> p_offset p \<noteq> 0" "frag_key (ic_netmask (i_config s)) p = key"
    and "i_reassembling s key = Some a" "i_fragments s a = Some f"
  shows "ip_update new True p s =
    (if reassembled (frag_insert p f)
     then map_option (\<lambda>pool. (s\<lparr>i_reassembling := (i_reassembling s)(key := None), i_fragments := (i_fragments s)(a := None)\<rparr>,
       Datagram (p_protocol p) pool)) (reorder (f_list (frag_insert p f)))
     else Some (s\<lparr>i_fragments := (i_fragments s)(a \<mapsto> frag_insert p f)\<rparr>, Waiting))"
  using assms by (auto simp: ip_update_def for_host_def Let_def map_option_case split: option.split)

lemma ip_update_first:
  assumes "for_host (i_config s) p" "p_more p \<or> p_offset p \<noteq> 0" "frag_key (ic_netmask (i_config s)) p = key" "i_reassembling s key = None"
  shows "ip_update new True p s = ip_update new True p (first_fragment new key s)"
  using assms by (auto simp: ip_update_def for_host_def first_fragment_def Let_def)

lemma first_fragment_simps [simp]:
  "i_config (first_fragment new key s) = i_config s"
  "i_reassembling (first_fragment new key s) key = Some (new (i_fragments s))"
  "i_fragments (first_fragment new key s) (new (i_fragments s)) = Some frag_new"
  by (simp_all add: first_fragment_def)

lemma ip_got_cases:
  assumes "ip_got key n p A s" "fragments_of c key n p" "for_host (i_config s) q" "p_more q \<or> p_offset q \<noteq> 0"
    and "frag_key (ic_netmask (i_config s)) q = key"
  obtains a f t where "ip_update new True q s = ip_update new True q t" "i_config t = i_config s" "i_reassembling t key = Some a"
    "i_fragments t a = Some f" "frag_holds n p A f"
proof (cases "i_reassembling s key")
  case None
  then have "frag_holds n p A frag_new" using assms(1) frag_new_holds [OF assms(2)] by (auto simp: ip_got_def)
  then show thesis using that [OF ip_update_first [OF assms(3,4,5) None, of new]] by simp
qed (use assms(1) that in \<open>auto simp: ip_got_def\<close>)

lemma ip_got_step:
  assumes p: "fragments_of (i_config s) key n p" and k: "k < n" and g: "ip_got key n p A s"
  shows "\<exists>s'. i_config s' = i_config s \<and>
    (if insert k A = {..<n}
     then ip_update new True (p k) s = Some (s', Datagram (p_protocol (p k)) (map p [0..<n])) \<and> i_reassembling s' key = None
     else ip_update new True (p k) s = Some (s', Waiting) \<and> ip_got key n p (insert k A) s')"
proof -
  note pk = fragment_facts [OF p k]
  have q: "for_host (i_config s) (p k)" "frag_key (ic_netmask (i_config s)) (p k) = key" using p k by (auto simp: fragments_of_def for_host_def)
  obtain a f t where t: "ip_update new True (p k) s = ip_update new True (p k) t" "i_config t = i_config s"
    "i_reassembling t key = Some a" "i_fragments t a = Some f" "frag_holds n p A f"
    by (rule ip_got_cases [OF g p q(1) pk(6) q(2)])
  note h = frag_insert_holds [OF p k t(5)]
  note u = ip_update_next [of t "p k" key a f new, unfolded t(2), OF q(1) pk(6) q(2) t(3,4)]
  show ?thesis
  proof (cases "insert k A = {..<n}")
    case True
    then have "reassembled (frag_insert (p k) f)" "reorder (f_list (frag_insert (p k) f)) = Some (map p [0..<n])"
      using reassembled_iff [OF p h] reorder_holds [OF p] h by simp_all
    then show ?thesis using True u t(1,2) by auto
  next
    case False
    then have "\<not> reassembled (frag_insert (p k) f)" using reassembled_iff [OF p h] by simp
    then show ?thesis using False u t(1,2,3) h
      by (intro exI [of _ "t\<lparr>i_fragments := (i_fragments t)(a \<mapsto> frag_insert (p k) f)\<rparr>"]) (simp add: ip_got_def)
  qed
qed

text \<open>The arrival of packets, one after the other.\<close>

fun ip_run :: "((addr \<rightharpoonup> fragmented) \<Rightarrow> addr) \<Rightarrow> packet list \<Rightarrow> ip_state \<Rightarrow> (ip_state \<times> ip_outcome list) option" where
  "ip_run new [] s = Some (s, [])"
| "ip_run new (p # ps) s = do { (s, r) \<leftarrow> ip_update new True p s; (s, rs) \<leftarrow> ip_run new ps s; Some (s, r # rs) }"

lemma ip_got_run:
  "fragments_of (i_config s) key n p \<Longrightarrow> ip_got key n p A s \<Longrightarrow> set ks \<subseteq> {..<n} \<Longrightarrow> A \<union> set ks \<noteq> {..<n} \<Longrightarrow> A \<subseteq> {..<n} \<Longrightarrow>
   \<exists>s'. ip_run new (map p ks) s = Some (s', replicate (length ks) Waiting) \<and> i_config s' = i_config s \<and> ip_got key n p (A \<union> set ks) s'"
proof (induction ks arbitrary: s A)
  case (Cons k ks)
  have "insert k A \<noteq> {..<n}" using Cons.prems(3,4,5) by auto
  then obtain s1 where 1: "ip_update new True (p k) s = Some (s1, Waiting)" "i_config s1 = i_config s" "ip_got key n p (insert k A) s1"
    using ip_got_step [OF Cons.prems(1) _ Cons.prems(2), of k new] Cons.prems(3) by auto
  obtain s2 where "ip_run new (map p ks) s1 = Some (s2, replicate (length ks) Waiting)" "i_config s2 = i_config s1"
    "ip_got key n p (insert k A \<union> set ks) s2"
    using Cons.IH [OF _ 1(3)] Cons.prems 1(2) by auto
  then show ?case using 1 by simp
qed simp

lemma datagram_completes:
  assumes "fragments_of (i_config s) key n p" "i_reassembling s key = None" "set ks \<union> {k} = {..<n}" "k \<notin> set ks"
  shows "\<exists>s1 s2. ip_run new (map p ks) s = Some (s1, replicate (length ks) Waiting) \<and>
    ip_update new True (p k) s1 = Some (s2, Datagram (p_protocol (p k)) (map p [0..<n])) \<and> i_reassembling s2 key = None"
proof -
  have k: "k < n" "set ks \<subseteq> {..<n}" "{} \<union> set ks \<noteq> {..<n}" using assms(3,4) by auto
  obtain s1 where 1: "ip_run new (map p ks) s = Some (s1, replicate (length ks) Waiting)" "i_config s1 = i_config s" "ip_got key n p (set ks) s1"
    using ip_got_run [OF assms(1) _ k(2,3), of new] assms(2) by (auto simp: ip_got_def)
  have "insert k (set ks) = {..<n}" using assms(3) by auto
  then show ?thesis using ip_got_step [OF _ k(1) 1(3), of new] assms(1) 1(1,2) by auto
qed


text \<open>
  C13. Reassembly: the fragments of a datagram, cut at multiples of 1480 bytes as \<open>IP::alloc\<close> cuts them, may arrive in any order and any
  number of times, with nothing else under their key in between; all but the arrival that completes them
  only wait, and that one hands over the whole datagram, its fragments in order, and forgets it.
\<close>

theorem datagrams_reassemble:
  assumes "fragments_of (i_config s) key n p" "i_reassembling s key = None" "set ks \<union> {k} = {..<n}" "k \<notin> set ks"
  shows "\<exists>s1 s2. ip_run new (map p ks) s = Some (s1, replicate (length ks) Waiting) \<and>
    ip_update new True (p k) s1 = Some (s2, Datagram (p_protocol (p k)) (map p [0..<n])) \<and> i_reassembling s2 key = None"
  using assms by (rule datagram_completes)

text \<open>Two fragments, with offsets 0 and 1480.\<close>

definition sample_fragment :: "nat \<Rightarrow> packet" where
  "sample_fragment k = \<lparr>p_from = 2, p_to = 1, p_id = 7, p_raw = set_offset (word_of_nat (k * MFS)) (set_flags (if k = 0 then MF else 0) 0),
     p_protocol = 0x11, p_data = [word_of_nat k]\<rparr>"

definition sample_host :: ip_state where
  "sample_host = \<lparr>i_config = reconfigure 1 0xFFFFFF00 3, i_reassembling = Map.empty, i_fragments = Map.empty\<rparr>"

lemma sample_fragments: "fragments_of (i_config sample_host) (2 ^ 16 + 7) 2 sample_fragment"
proof -
  have "p_offset (sample_fragment k) = k * MFS" "p_more (sample_fragment k) \<longleftrightarrow> k + 1 < 2" "p_from (sample_fragment k) = 2"
    "p_to (sample_fragment k) = 1" "p_id (sample_fragment k) = 7" if "k < 2" for k
  proof -
    have "k * MFS < 65536" "8 dvd k * MFS" using that by (simp_all add: MFS_eq)
    then show "p_offset (sample_fragment k) = k * MFS" by (simp add: sample_fragment_def p_offset_def get_offset_aligned del: of_nat_mult)
    show "p_more (sample_fragment k) \<longleftrightarrow> k + 1 < 2" by (simp add: sample_fragment_def p_more_def packed_fields MF_def)
  qed (simp_all add: sample_fragment_def)
  then show ?thesis by (simp add: fragments_of_def frag_key_def sample_host_def reconfigure_def MAX_FRAGMENTS_eq)
qed

theorem datagrams_reassemble_witness:
  "\<exists>s1 s2. ip_run (\<lambda>_. 5) [sample_fragment 1, sample_fragment 1] sample_host = Some (s1, [Waiting, Waiting]) \<and>
     ip_update (\<lambda>_. 5) True (sample_fragment 0) s1 = Some (s2, Datagram 0x11 [sample_fragment 0, sample_fragment 1])"
proof -
  have "i_reassembling sample_host (2 ^ 16 + 7) = None" "set [1, 1] \<union> {0} = {..<2 :: nat}" "0 \<notin> set [1 :: nat, 1]"
    by (auto simp: sample_host_def numeral_2_eq_2)
  note w = datagrams_reassemble [OF sample_fragments this, of "\<lambda>_. 5"]
  have "p_protocol (sample_fragment 0) = 0x11" "[0..<2] = [0, Suc 0]" by (simp_all add: sample_fragment_def numeral_2_eq_2)
  then show ?thesis using w by (auto simp: numeral_2_eq_2)
qed

section \<open>Datagrams that are not what they seem\<close>

text \<open>A host that holds the packets \<open>xs\<close> under \<open>key\<close>, with the indexes \<open>B\<close>, and expects \<open>m\<close> fragments.\<close>

definition frag_has :: "nat set \<Rightarrow> packet list \<Rightarrow> nat \<Rightarrow> fragmented \<Rightarrow> bool" where
  "frag_has B xs m f \<longleftrightarrow> bm_rep MAX_FRAGMENTS (f_bitmap f) B \<and> f_list f = xs \<and> f_frags f = m \<and> m \<le> MAX_FRAGMENTS"

definition ip_has :: "nat \<Rightarrow> nat set \<Rightarrow> packet list \<Rightarrow> nat \<Rightarrow> ip_state \<Rightarrow> bool" where
  "ip_has key B xs m s \<longleftrightarrow> (\<exists>a f. i_reassembling s key = Some a \<and> i_fragments s a = Some f \<and> frag_has B xs m f)"

text \<open>A fragment for the host under \<open>key\<close>.\<close>

definition comes_to :: "ip_config \<Rightarrow> nat \<Rightarrow> packet \<Rightarrow> bool" where
  "comes_to c key p \<longleftrightarrow> for_host c p \<and> (p_more p \<or> p_offset p \<noteq> 0) \<and> frag_key (ic_netmask c) p = key \<and> p_index p < MAX_FRAGMENTS"

lemma ip_has_step:
  assumes "ip_has key B xs m s" "comes_to (i_config s) key p"
  defines "B' \<equiv> insert (p_index p) B" and "xs' \<equiv> (if p_index p \<in> B then xs else xs @ [p])" and "m' \<equiv> (if p_more p then m else p_index p + 1)"
  shows "if {..<m'} \<subseteq> B'
    then map_option snd (ip_update new True p s) = map_option (Datagram (p_protocol p)) (reorder xs')
    else \<exists>s'. ip_update new True p s = Some (s', Waiting) \<and> ip_has key B' xs' m' s' \<and> i_config s' = i_config s"
proof -
  obtain a f where s: "i_reassembling s key = Some a" "i_fragments s a = Some f" "frag_has B xs m f" using assms(1) by (auto simp: ip_has_def)
  have p: "for_host (i_config s) p" "p_more p \<or> p_offset p \<noteq> 0" "frag_key (ic_netmask (i_config s)) p = key" "p_index p < MAX_FRAGMENTS"
    using assms(2) by (auto simp: comes_to_def)
  obtain bm where bm: "bm_set MAX_FRAGMENTS (p_index p) (f_bitmap f) = (bm, p_index p \<notin> B)" "bm_rep MAX_FRAGMENTS bm B'"
    using bm_set_rep [of MAX_FRAGMENTS "f_bitmap f" B "p_index p"] s(3) p(4) by (auto simp: frag_has_def B'_def)
  have next_index: "(p_offset p + MFS) div MFS = p_index p + 1" by (simp add: MFS_eq)
  have has: "frag_has B' xs' m' (frag_insert p f)"
    using s(3) bm p(4) next_index by (auto simp: frag_has_def frag_insert_def B'_def xs'_def m'_def Let_def)
  then have "reassembled (frag_insert p f) \<longleftrightarrow> {..<m'} \<subseteq> B'" "f_list (frag_insert p f) = xs'"
    using bm_full_rep [of MAX_FRAGMENTS "f_bitmap (frag_insert p f)" B' m'] by (auto simp: frag_has_def reassembled_def)
  then show ?thesis using ip_update_next [of s p key a f new, OF p(1,2,3) s(1,2)] has s(1)
    by (auto simp: ip_has_def option.map_comp o_def)
qed

lemma ip_has_first:
  assumes "i_reassembling s key = None" "comes_to (i_config s) key p"
  shows "ip_update new True p s = ip_update new True p (first_fragment new key s) \<and>
    ip_has key {} [] MAX_FRAGMENTS (first_fragment new key s)"
proof
  show "ip_update new True p s = ip_update new True p (first_fragment new key s)"
    using assms by (intro ip_update_first) (auto simp: comes_to_def)
  show "ip_has key {} [] MAX_FRAGMENTS (first_fragment new key s)"
    using bm_new_rep by (auto simp: ip_has_def frag_has_def frag_new_def)
qed

lemma reorder_loop_ends:
  assumes "reorder_loop ps tmp i = Some qs"
  shows "distinct (map p_index ps) \<and> set (map p_index ps) = {i..<i + length ps}"
proof (rule reorder_loop.raw_induct [OF _ assms])
  fix loop ps tmp i qs
  assume IH: "\<And>ps tmp i qs. loop ps tmp i = Some qs \<Longrightarrow> distinct (map p_index ps) \<and> set (map p_index ps) = {i..<i + length ps}"
    and step: "(case ps of [] \<Rightarrow> Some tmp
      | p # ps \<Rightarrow> if p_index p = i then loop ps (tmp @ [p]) (i + 1) else loop (ps @ [p]) tmp i) = Some qs"
  show "distinct (map p_index ps) \<and> set (map p_index ps) = {i..<i + length ps}"
  proof (cases ps)
    case (Cons p ps')
    show ?thesis
    proof (cases "p_index p = i")
      case True
      have "distinct (map p_index ps') \<and> set (map p_index ps') = {i + 1..<i + 1 + length ps'}"
        using IH [of ps' "tmp @ [p]" "i + 1" qs] step True by (simp add: Cons)
      then show ?thesis using True by (auto simp: Cons)
    next
      case False
      have "distinct (map p_index (ps' @ [p])) \<and> set (map p_index (ps' @ [p])) = {i..<i + length (ps' @ [p])}"
        using IH [of "ps' @ [p]" tmp i qs] step False by (simp add: Cons)
      then show ?thesis by (auto simp: Cons)
    qed
  qed simp
qed

lemma reorder_ends:
  "(\<exists>qs. reorder ps = Some qs) \<longleftrightarrow> length ps \<le> 1 \<or> distinct (map p_index ps) \<and> set (map p_index ps) = {..<length ps}"
proof
  assume "\<exists>qs. reorder ps = Some qs"
  then show "length ps \<le> 1 \<or> distinct (map p_index ps) \<and> set (map p_index ps) = {..<length ps}"
    using reorder_loop_ends [of ps "[]" 0] by (auto simp: reorder_def atLeast0LessThan split: if_splits)
next
  assume "length ps \<le> 1 \<or> distinct (map p_index ps) \<and> set (map p_index ps) = {..<length ps}"
  then show "\<exists>qs. reorder ps = Some qs" using reorder_sorts [of ps "length ps"] by (auto simp: reorder_def)
qed

text \<open>Arrivals that do not complete a datagram of \<open>n\<close> fragments, some of them of a stray fragment with more to follow.\<close>

lemma ip_has_run:
  assumes f: "fragments_of (i_config s) key n f" and stray: "comes_to (i_config s) key stray" "p_more stray"
    and ps: "\<forall>p \<in> set ps. p = stray \<or> (\<exists>j < n. p = f j)" and notyet: "\<not> {..<n} \<subseteq> B \<union> p_index ` set ps"
    and has: "ip_has key B xs (if n - 1 \<in> B then n else MAX_FRAGMENTS) s" and xs: "distinct (map p_index xs)" "set (map p_index xs) = B"
    and miss: "p_index stray \<noteq> n - 1"
  shows "\<exists>s' xs'. ip_run new ps s = Some (s', replicate (length ps) Waiting) \<and> i_config s' = i_config s \<and>
    ip_has key (B \<union> p_index ` set ps) xs' (if n - 1 \<in> B \<union> p_index ` set ps then n else MAX_FRAGMENTS) s' \<and>
    distinct (map p_index xs') \<and> set (map p_index xs') = B \<union> p_index ` set ps"
  using f stray(1) ps notyet has xs
proof (induction ps arbitrary: s B xs)
  case (Cons p ps)
  let ?B = "insert (p_index p) B" and ?xs = "if p_index p \<in> B then xs else xs @ [p]"
  have n: "2 \<le> n" "n \<le> MAX_FRAGMENTS" using Cons.prems(1) by (simp_all add: fragments_of_def)
  have p: "comes_to (i_config s) key p" "p_more p \<or> p_index p = n - 1" "p_more p \<Longrightarrow> p_index p \<noteq> n - 1"
  proof -
    consider "p = stray" | j where "j < n" "p = f j" using Cons.prems(3) by auto
    then have "comes_to (i_config s) key p \<and> (p_more p \<or> p_index p = n - 1) \<and> (p_more p \<longrightarrow> p_index p \<noteq> n - 1)"
    proof cases
      case 1
      then show ?thesis using Cons.prems(2) stray(2) miss by simp
    next
      case 2
      note fj = fragment_facts [OF Cons.prems(1) 2(1)]
      have "comes_to (i_config s) key p" using fj Cons.prems(1) 2 by (auto simp: comes_to_def for_host_def fragments_of_def)
      then show ?thesis using fj 2 by auto
    qed
    then show "comes_to (i_config s) key p" "p_more p \<or> p_index p = n - 1" "p_more p \<Longrightarrow> p_index p \<noteq> n - 1" by auto
  qed
  have m: "(if p_more p then if n - 1 \<in> B then n else MAX_FRAGMENTS else p_index p + 1) = (if n - 1 \<in> ?B then n else MAX_FRAGMENTS)"
  proof (cases "p_more p")
    case True
    then have "n - 1 \<in> ?B \<longleftrightarrow> n - 1 \<in> B" using p(3) by (metis insert_iff)
    then show ?thesis using True by (simp only: if_True)
  next
    case False
    then have "p_index p = n - 1" using p(2) by blast
    then show ?thesis using False n by simp
  qed
  have no: "\<not> {..<n} \<subseteq> ?B" using Cons.prems(4) by auto
  have "\<not> {..<(if n - 1 \<in> ?B then n else MAX_FRAGMENTS)} \<subseteq> ?B"
  proof (cases "n - 1 \<in> ?B")
    case False
    moreover have "n - 1 \<in> {..<MAX_FRAGMENTS}" using n by simp
    ultimately show ?thesis unfolding if_not_P [OF False] by (meson subsetD)
  qed (use no in simp)
  then obtain s1 where s1: "ip_update new True p s = Some (s1, Waiting)" "ip_has key ?B ?xs (if n - 1 \<in> ?B then n else MAX_FRAGMENTS) s1"
    "i_config s1 = i_config s"
    using ip_has_step [OF Cons.prems(5) p(1), of new] unfolding m by auto
  have "distinct (map p_index ?xs)" "set (map p_index ?xs) = ?B" using Cons.prems(6,7) by auto
  then obtain s' xs' where "ip_run new ps s1 = Some (s', replicate (length ps) Waiting)" "i_config s' = i_config s"
    "ip_has key (?B \<union> p_index ` set ps) xs' (if n - 1 \<in> ?B \<union> p_index ` set ps then n else MAX_FRAGMENTS) s'"
    "distinct (map p_index xs')" "set (map p_index xs') = ?B \<union> p_index ` set ps"
    using Cons.IH [of s1 ?B ?xs] Cons.prems(1-4) s1(2,3) by auto
  then show ?case using s1(1) by auto
qed auto

text \<open>
  C37. One fragment can stop the system: while a datagram of \<open>n\<close> fragments is reassembled, let one more packet come under its key (any host
  can send it), which announces more fragments and has an index above \<open>n\<close>. Wherever it comes among the fragments, and however often these
  are repeated, the arrival that completes the datagram never returns from \<open>reorder\<close>, which takes the stray packet and puts it back for
  ever.
\<close>

theorem stray_fragment_hangs:
  assumes "fragments_of (i_config s) key n f" "i_reassembling s key = None"
    and "comes_to (i_config s) key stray" "p_more stray" "n < p_index stray"
    and "set ps = insert stray (f ` K)" "insert k K = {..<n}" "k \<notin> K"
  shows "(\<exists>s1. ip_run new ps s = Some (s1, replicate (length ps) Waiting)) \<and> ip_run new (ps @ [f k]) s = None"
proof -
  have k: "k < n" "K \<subseteq> {..<n}" using assms(7) by auto
  have idx: "p_index ` f ` K = K" using fragment_facts(2) [OF assms(1)] k(2) by (force simp: image_iff)
  let ?B = "p_index ` set ps"
  have B: "?B = insert (p_index stray) K" using idx by (simp add: assms(6))
  have ps: "\<forall>p \<in> set ps. p = stray \<or> (\<exists>j < n. p = f j)" using assms(6) k(2) by auto
  have miss: "p_index stray \<noteq> n - 1" using assms(5) by simp
  have notyet: "\<not> {..<n} \<subseteq> {} \<union> ?B" using B k(1) assms(5,8) by (auto dest: subsetD [of _ _ k])
  let ?s = "first_fragment new key s"
  obtain s1 xs where s1: "ip_run new ps ?s = Some (s1, replicate (length ps) Waiting)" "i_config s1 = i_config s"
    "ip_has key ?B xs (if n - 1 \<in> ?B then n else MAX_FRAGMENTS) s1" "distinct (map p_index xs)" "set (map p_index xs) = ?B"
    using ip_has_run [of ?s key n f stray ps "{}" "[]" new, OF _ _ assms(4) ps notyet _ _ _ miss] assms(1,3)
      conjunct2 [OF ip_has_first [OF assms(2,3), of new]] by (auto simp del: Un_empty_left simp: Un_empty_left [of ?B])
  obtain p qs where pq: "ps = p # qs" using assms(6) by (cases ps) auto
  have cp: "comes_to (i_config s) key p"
    using ps assms(1,3) fragment_facts [OF assms(1)] by (auto simp: pq comes_to_def for_host_def fragments_of_def)
  then have run: "ip_run new ps s = ip_run new ps ?s" using ip_has_first [OF assms(2), of p new] by (simp add: pq)
  note fk = fragment_facts [OF assms(1) k(1)]
  have ck: "comes_to (i_config s1) key (f k)" using fk assms(1) k(1) s1(2) by (auto simp: comes_to_def for_host_def fragments_of_def)
  have kB: "k \<notin> ?B" using B k(1) assms(5,8) by auto
  have full: "insert k ?B = insert (p_index stray) {..<n}" using B assms(7) by auto
  have "reorder (xs @ [f k]) = None"
  proof (rule ccontr)
    assume "reorder (xs @ [f k]) \<noteq> None"
    moreover have d: "distinct (map p_index (xs @ [f k]))" using s1(4,5) kB fk(2) by auto
    moreover have set: "set (map p_index (xs @ [f k])) = insert (p_index stray) {..<n}" using s1(5) full fk(2) by auto
    ultimately have "length (xs @ [f k]) \<le> 1 \<or> insert (p_index stray) {..<n} = {..<length (xs @ [f k])}" using reorder_ends [of "xs @ [f k]"] by auto
    moreover have "length (xs @ [f k]) = n + 1"
      using distinct_card [OF d] assms(5) unfolding set by simp
    moreover have "p_index stray \<notin> {..<n + 1}" "2 \<le> n" using assms(1,5) by (simp_all add: fragments_of_def)
    ultimately show False by auto
  qed
  moreover have m: "(if p_more (f k) then if n - 1 \<in> ?B then n else MAX_FRAGMENTS else p_index (f k) + 1) = n"
  proof (cases "k + 1 < n")
    case True
    then have "n - 1 \<in> insert k K" "n - 1 \<noteq> k" unfolding assms(7) by auto
    then show ?thesis using True fk(3) B by auto
  qed (use fk(2,3) k(1) in auto)
  moreover have "{..<n} \<subseteq> insert (p_index (f k)) ?B" using full fk(2) by auto
  ultimately have "map_option snd (ip_update new True (f k) s1) = None"
    using ip_has_step [OF s1(3) ck, of new] kB fk(2) unfolding m by simp
  moreover have "ip_run new (qs @ rs) t = (case ip_run new qs t of None \<Rightarrow> None | Some (t', r) \<Rightarrow> map_option (\<lambda>(u, r'). (u, r @ r')) (ip_run new rs t'))" for qs rs t
    by (induction qs arbitrary: t) (auto split: option.splits bind_splits simp: map_option_case)
  ultimately show ?thesis using s1(1) run by simp
qed

theorem stray_fragment_hangs_witness:
  "ip_run (\<lambda>_. 5) [sample_fragment 0, sample_fragment 0\<lparr>p_raw := set_offset (word_of_nat (3 * 1480)) (set_flags MF 0)\<rparr>, sample_fragment 0, sample_fragment 1]
     sample_host = None"
proof -
  let ?stray = "sample_fragment 0\<lparr>p_raw := set_offset (word_of_nat (3 * 1480)) (set_flags MF 0)\<rparr>"
  have "p_offset ?stray = 3 * 1480"
    using get_offset_aligned [of "3 * 1480" "set_flags MF 0"] by (simp add: p_offset_def)
  then have stray: "p_index ?stray = 3" "p_more ?stray" by (simp_all add: MFS_eq p_more_def packed_fields MF_def)
  have c: "comes_to (i_config sample_host) (2 ^ 16 + 7) ?stray"
    using stray by (auto simp: comes_to_def for_host_def frag_key_def sample_host_def reconfigure_def MAX_FRAGMENTS_eq)
      (auto simp: sample_fragment_def)
  have fresh: "i_reassembling sample_host (2 ^ 16 + 7) = None" by (simp add: sample_host_def)
  let ?ps = "[sample_fragment 0, ?stray, sample_fragment 0]"
  have ps: "set ?ps = insert ?stray (sample_fragment ` {0})" "insert 1 {0} = {..<2 :: nat}" "(1 :: nat) \<notin> {0}" "2 < p_index ?stray"
    using stray(1) by auto
  have "ip_run (\<lambda>_. 5) (?ps @ [sample_fragment 1]) sample_host = None"
    by (rule conjunct2 [OF stray_fragment_hangs [OF sample_fragments fresh c stray(2) ps(4,1,2,3)]])
  then show ?thesis by (simp only: append.simps)
qed

text \<open>
  Fragments cut for a smaller frame are lost: when the second and last fragment of a datagram starts inside the first 1480 bytes, it
  counts as a duplicate of the first one, and the datagram is handed over complete, without its data.
\<close>

theorem short_fragment_truncates:
  assumes "i_reassembling s key = None" "comes_to (i_config s) key p" "comes_to (i_config s) key q"
    and "p_more p" "p_index p = 0" "\<not> p_more q" "p_index q = 0"
  shows "\<exists>s2. ip_run new [p, q] s = Some (s2, [Waiting, Datagram (p_protocol q) [p]])"
proof -
  note first = ip_has_first [OF assms(1,2), of new]
  have "\<not> {..<MAX_FRAGMENTS} \<subseteq> {0}"
  proof
    assume "{..<MAX_FRAGMENTS} \<subseteq> {0}"
    then have "1 \<in> {0 :: nat}" by (rule subsetD) (simp add: MAX_FRAGMENTS_eq)
    then show False by simp
  qed
  then obtain s1 where s1: "ip_update new True p s = Some (s1, Waiting)" "ip_has key {0} [p] MAX_FRAGMENTS s1" "i_config s1 = i_config s"
    using ip_has_step [OF conjunct2 [OF first], of p new] first assms(2,4,5) by auto
  have "map_option snd (ip_update new True q s1) = Some (Datagram (p_protocol q) [p])"
    using ip_has_step [OF s1(2), of q new] assms(3,6,7) s1(3) by (simp add: reorder_def lessThan_Suc)
  then show ?thesis using s1(1) by auto
qed

theorem short_fragment_truncates_witness:
  "\<exists>s2. ip_run (\<lambda>_. 5) [sample_fragment 0, sample_fragment 0\<lparr>p_raw := set_offset 552 (set_flags 0 0)\<rparr>] sample_host =
     Some (s2, [Waiting, Datagram 0x11 [sample_fragment 0]])"
proof -
  let ?q = "sample_fragment 0\<lparr>p_raw := set_offset 552 (set_flags 0 0)\<rparr>"
  have p: "p_index (sample_fragment 0) = 0" "p_more (sample_fragment 0)" using sample_fragments by (simp_all add: fragments_of_def MFS_eq)
  have "p_offset ?q = 552" using get_offset_aligned [of 552 "set_flags 0 0"] by (simp add: p_offset_def)
  then have q: "p_index ?q = 0" "\<not> p_more ?q" "p_offset ?q \<noteq> 0" by (simp_all add: MFS_eq p_more_def packed_fields MF_def)
  have c: "comes_to (i_config sample_host) (2 ^ 16 + 7) x" if "x \<in> {sample_fragment 0, ?q}" for x
    using that p q by (auto simp: comes_to_def for_host_def frag_key_def sample_host_def reconfigure_def MAX_FRAGMENTS_eq)
      (auto simp: sample_fragment_def)
  have fresh: "i_reassembling sample_host (2 ^ 16 + 7) = None" by (simp add: sample_host_def)
  have "p_protocol ?q = 0x11" by (simp add: sample_fragment_def)
  then show ?thesis using short_fragment_truncates [OF fresh c c, of "sample_fragment 0" ?q "\<lambda>_. 5"] p q by simp
qed

text \<open>
  The key of a datagram tells hosts of the local network apart by one bit: whether the host part of the sender's address is 0. So equal
  identifiers from two hosts are put together as one datagram.
\<close>

lemma frag_key_ignores_sender:
  "p_from p AND NOT netmask \<noteq> 0 \<Longrightarrow> p_from q AND NOT netmask \<noteq> 0 \<Longrightarrow> p_id p = p_id q \<Longrightarrow> frag_key netmask p = frag_key netmask q"
  by (simp add: frag_key_def)

text \<open>When the alarm of an incomplete datagram has gone off, the next fragment under its key is put into an object that is deleted.\<close>

lemma timeout_dangles:
  assumes "i_reassembling s key = Some a" "frag_timeout a s = Some s'" "comes_to (i_config s) key p"
  shows "ip_update new True p s' = None"
proof -
  have s': "s' = s\<lparr>i_fragments := (i_fragments s)(a := None)\<rparr>" using assms(2) by (auto simp: frag_timeout_def split: option.splits)
  show ?thesis using assms(1,3) by (auto simp: s' ip_update_def comes_to_def for_host_def Let_def)
qed

section \<open>A datagram's way\<close>

lemma checksum_not_ffff:
  assumes "n < 65536" "i < n" "p i \<noteq> 0"
  shows "ip_checksum p n \<noteq> 0xffff"
proof -
  define s where "s = sum_halfwords p n 0"
  have S: "unat s = (\<Sum>k < (n + 1) div 2. hw p (2 * k))"
    unfolding s_def sum_halfwords_def using unat_fold_halfwords [of 0 "(n + 1) div 2" p] assms(1) by simp
  have "(\<Sum>k < (n + 1) div 2. hw p (2 * k)) \<le> (n + 1) div 2 * 65536"
    using sum_bounded_above [of "{..<(n + 1) div 2}" "\<lambda>k. hw p (2 * k)" 65536] hw_bound by (simp add: less_imp_le)
  then have le: "unat s \<le> 32768 * 65536" using S assms(1) by (simp add: order_trans)
  have "hw p (2 * (i div 2)) \<noteq> 0"
    using assms(3) by (cases "even i") (auto simp: hw_def unat_eq_0_iff elim!: evenE oddE)
  moreover have "i div 2 < (n + 1) div 2" using assms(2) by linarith
  ultimately have "unat s \<noteq> 0" unfolding S by (auto simp: sum_eq_0_iff)
  then have s0: "s \<noteq> 0" by auto
  define t where "t = (if odd n then s + ucast (p (n - 1)) else s)"
  have "t \<noteq> 0"
  proof
    assume "t = 0"
    then have "odd n" "unat (s + ucast (p (n - 1))) = 0" using s0 by (auto simp: t_def split: if_splits)
    moreover have "unat (p (n - 1)) < 256" using unat_less [of "p (n - 1)"] by simp
    ultimately show False using le \<open>unat s \<noteq> 0\<close> by (simp add: unat_word_ariths unsigned_ucast_eq take_bit_nat_eq_self)
  qed
  then have f: "unat (fold_carry t) < 65536" "fold_carry t \<noteq> 0" using fold_carry_value [of t] by simp_all
  have "ip_checksum p n = ucast (NOT (fold_carry t))" by (simp add: ip_checksum_def t_def s_def Let_def)
  then have "unat (ip_checksum p n) = 65535 - unat (fold_carry t)" using unat_not16 [OF f(1)] by simp
  moreover have "unat (fold_carry t) \<noteq> 0" using f(2) by (simp add: unat_eq_0_iff)
  ultimately have "unat (ip_checksum p n) \<noteq> unat (0xffff :: 16 word)" by simp
  then show ?thesis by metis
qed

lemma IP_HEADER_eq: "IP_HEADER = 20" by (simp add: IP_HEADER_def)
lemma NIC_MTU_eq: "NIC_MTU = 1500" by (simp add: NIC_MTU_def)
lemma UDP_DATA_eq: "UDP_DATA = 65507" by (simp add: UDP_DATA_def MTU_def IP_HEADER_def UDP_HEADER_def)

lemma frame_sizes_length: "length (frame_sizes 20 sz) = (sz + 1479) div 1480"
proof (induction "20 :: nat" sz rule: frame_sizes.induct)
  case (1 sz)
  show ?case
  proof (cases "0 < sz")
    case True
    have "(sz - 1480 + 1479) div 1480 + 1 = (sz + 1479) div 1480" using True by (cases "sz \<le> 1480") auto
    then show ?thesis using 1 True by (subst frame_sizes.simps) (simp add: NIC_MTU_eq)
  qed (simp add: frame_sizes.simps)
qed

lemma frame_sizes_sum: "sum_list (frame_sizes 20 sz) = sz + 20 * length (frame_sizes 20 sz)"
proof (induction "20 :: nat" sz rule: frame_sizes.induct)
  case (1 sz)
  then show ?case by (cases "0 < sz") (subst (1 2) frame_sizes.simps, simp add: NIC_MTU_eq)+
qed

lemma udp_fill_concat:
  "length header + length data = sz \<Longrightarrow> length header \<le> 1480 \<Longrightarrow> concat (udp_fill header data (frame_sizes 20 sz)) = header @ data"
proof (induction "20 :: nat" sz arbitrary: header data rule: frame_sizes.induct)
  case (1 sz)
  show ?case
  proof (cases "0 < sz")
    case True
    define n where "n = (if sz > 1480 then 1500 else sz + 20)"
    define k where "k = n - (length header + 20)"
    have "length (drop k data) = sz - 1480" using 1(2,3) by (auto simp: k_def n_def)
    then have "concat (udp_fill [] (drop k data) (frame_sizes 20 (sz - 1480))) = drop k data"
      using 1(1) [of "[]" "drop k data"] True by (simp add: NIC_MTU_eq)
    moreover have "frame_sizes 20 sz = n # frame_sizes 20 (sz - 1480)"
      using True by (subst frame_sizes.simps) (simp add: NIC_MTU_eq n_def)
    ultimately show ?thesis by (simp add: IP_HEADER_eq k_def [symmetric])
  qed (use 1 in \<open>simp add: frame_sizes.simps\<close>)
qed

lemma length_udp_fill: "length (udp_fill header data sizes) = length sizes"
  by (induction header data sizes rule: udp_fill.induct) simp_all

lemma length_alloc_headers: "length (alloc_headers sizes offset) = length sizes"
  by (induction sizes offset rule: alloc_headers.induct) simp_all

lemma sizes_alloc_headers: "map fst (alloc_headers sizes offset) = sizes"
  by (induction sizes offset rule: alloc_headers.induct) simp_all

lemma nth_alloc_headers:
  "k < length sizes \<Longrightarrow> snd (alloc_headers sizes offset ! k) =
     set_offset (word_of_nat (offset + k * MFS)) (set_flags (if k + 1 < length sizes then MF else 0) 0)"
proof (induction sizes offset arbitrary: k rule: alloc_headers.induct)
  case (2 n sizes offset)
  then show ?case by (cases k) (auto simp: algebra_simps)
qed simp

lemma udp_copy_all:
  "n + length (concat (map p_data ps)) \<le> s + hdr \<Longrightarrow> (ps \<noteq> [] \<Longrightarrow> hdr \<le> length (p_data (hd ps))) \<Longrightarrow> (hdr > 0 \<Longrightarrow> n = 0) \<Longrightarrow>
   udp_copy ps hdr n s = drop hdr (concat (map p_data ps))"
proof (induction ps hdr n s rule: udp_copy.induct)
  case (2 p ps hdr n s)
  have "n \<le> s" using 2(2,4) 2(3) by (cases hdr) auto
  then show ?case using 2 by simp
qed simp

text \<open>The next \<open>k\<close> buffers of the ring, from its cursor on, are free.\<close>

definition tx_ready :: "tx_ring \<Rightarrow> nat \<Rightarrow> bool" where
  "tx_ready tx k \<longleftrightarrow> tx_cur tx < length (tx_own tx) \<and> length (tx_locked tx) = length (tx_own tx) \<and> k \<le> length (tx_own tx) \<and>
     (\<forall>j < k. \<not> tx_own tx ! ((tx_cur tx + j) mod length (tx_own tx)) \<and> \<not> tx_locked tx ! ((tx_cur tx + j) mod length (tx_own tx)))"

lemma fold_set_nth: "p < length l \<Longrightarrow> fold (\<lambda>i l. l[i := b]) is l ! p = (if p \<in> set is then b else l ! p)"
  by (induction "is" arbitrary: l) (auto simp: nth_list_update)

lemma fold_set_length: "length (fold (\<lambda>i l. l[i := b]) is l) = length l"
  by (induction "is" arbitrary: l) simp_all

lemma tx_seize_free: "i < length own \<Longrightarrow> \<not> own ! i \<Longrightarrow> \<not> locked ! i \<Longrightarrow> tx_seize own locked i = Some i"
  by (simp add: tx_seize.simps tx_skip.simps)

lemma tx_seize_all_ready:
  "tx_ready tx (length sizes) \<Longrightarrow> \<exists>tx' is. tx_seize_all sizes tx = Some (tx', is) \<and> length is = length sizes \<and> tx_own tx' = tx_own tx \<and>
     tx_locked tx' = fold (\<lambda>i l. l[i := True]) is (tx_locked tx) \<and> (\<forall>i \<in> set is. i < length (tx_own tx) \<and> \<not> tx_locked tx ! i)"
proof (induction sizes arbitrary: tx)
  case (Cons sz sizes)
  let ?n = "length (tx_own tx)" and ?i = "tx_cur tx"
  let ?tx = "tx\<lparr>tx_locked := (tx_locked tx)[?i := True], tx_cur := (?i + 1) mod ?n\<rparr>"
  have r: "?i < ?n" "length (tx_locked tx) = ?n" "Suc (length sizes) \<le> ?n"
    "\<And>j. j < Suc (length sizes) \<Longrightarrow> \<not> tx_own tx ! ((?i + j) mod ?n) \<and> \<not> tx_locked tx ! ((?i + j) mod ?n)"
    using Cons.prems by (simp_all add: tx_ready_def)
  have i: "\<not> tx_own tx ! ?i" "\<not> tx_locked tx ! ?i" using r(4) [of 0] r(1) by simp_all
  have other: "((?i + 1) mod ?n + j) mod ?n = (?i + Suc j) mod ?n" "(?i + Suc j) mod ?n \<noteq> ?i" if "j < length sizes" for j
  proof -
    show "((?i + 1) mod ?n + j) mod ?n = (?i + Suc j) mod ?n" by (simp add: mod_add_left_eq)
    show "(?i + Suc j) mod ?n \<noteq> ?i"
    proof (cases "?i + Suc j < ?n")
      case False
      then have "(?i + Suc j) mod ?n = (?i + Suc j - ?n) mod ?n" by (simp only: le_mod_geq not_less)
      also have "\<dots> = ?i + Suc j - ?n" using that r(1,3) by (intro mod_less) linarith
      finally show ?thesis using that r(1,3) False by linarith
    qed simp
  qed
  have "\<not> tx_own tx ! (Suc (?i + j) mod ?n) \<and> \<not> (tx_locked tx)[?i := True] ! (Suc (?i + j) mod ?n)" if "j < length sizes" for j
    using r(4) [of "Suc j"] other(2) [OF that] that by simp
  moreover have "Suc ?i mod ?n < ?n" using r(1) by (intro mod_less_divisor) linarith
  ultimately have "tx_ready ?tx (length sizes)"
    using r(2,3) other(1) by (simp add: tx_ready_def)
  then obtain tx' "is" where t: "tx_seize_all sizes ?tx = Some (tx', is)" "length is = length sizes" "tx_own tx' = tx_own tx"
    "tx_locked tx' = fold (\<lambda>i l. l[i := True]) is ((tx_locked tx)[?i := True])" "\<forall>i \<in> set is. i < ?n \<and> \<not> (tx_locked tx)[?i := True] ! i"
    using Cons.IH [of ?tx] by auto
  have "\<not> tx_locked tx ! i" if "i \<in> set is" for i using t(5) that i(2) r(1,2) by (cases "i = ?i") auto
  then show ?case using t i r(1) tx_seize_free [OF r(1) i] by auto
qed simp

lemma pcnet_send_frees:
  assumes "\<forall>i \<in> set is. i < length l \<and> \<not> l ! i" "length is = length sizes" "tx_locked tx = fold (\<lambda>i l. l[i := True]) is l"
  shows "pcnet_send tx (zip is sizes) = (tx\<lparr>tx_locked := l\<rparr>, sum_list sizes)"
proof -
  have "fold (\<lambda>i l. l[i := False]) is (fold (\<lambda>i l. l[i := True]) is l) = l"
    by (rule nth_equalityI) (use assms(1) in \<open>auto simp: fold_set_nth fold_set_length\<close>)
  then show ?thesis using assms(2,3) by (simp add: pcnet_send_def)
qed

text \<open>The packets \<open>UDP::send\<close> makes of a message of \<open>header\<close> and \<open>data\<close>.\<close>

definition udp_packets :: "address \<Rightarrow> address \<Rightarrow> 16 word \<Rightarrow> byte list \<Rightarrow> byte list \<Rightarrow> packet list" where
  "udp_packets own to ident header data =
     (let sizes = frame_sizes IP_HEADER (UDP_HEADER + length data)
      in map2 (\<lambda>(_, raw) payload. \<lparr>p_from = own, p_to = to, p_id = ident, p_raw = raw, p_protocol = 0x11, p_data = payload\<rparr>)
           (alloc_headers sizes 0) (udp_fill header data sizes))"

lemma udp_send_packets:
  assumes "length data \<le> UDP_DATA" "router_search to table = Some r" "resolve (r_arp r) (next_hop (own (r_ip r)) to r) \<noteq> 0"
    and "tx_ready tx ((length data + 1487) div 1480)"
  shows "\<exists>tx'. udp_send (ip_alloc table own resolve tx) to ident from_port to_port checksum data =
      Some (tx', udp_packets (own (r_ip r)) to ident (udp_header from_port to_port (length data) checksum) data, length data) \<and>
    tx_own tx' = tx_own tx \<and> tx_locked tx' = tx_locked tx"
proof -
  let ?sizes = "frame_sizes IP_HEADER (UDP_HEADER + length data)"
  have l: "length ?sizes = (length data + 1487) div 1480" by (simp add: IP_HEADER_eq UDP_HEADER_def frame_sizes_length)
  have n: "(length data + 1487) div 1480 \<le> length (tx_own tx)" using assms(4) by (simp add: tx_ready_def)
  have "(length data + 8) div 1480 \<le> (length data + 1487) div 1480" by (rule div_le_mono) simp
  then have le: "(length data + UDP_HEADER) div (NIC_MTU - IP_HEADER) \<le> length (tx_own tx)"
    using n by (simp add: UDP_HEADER_def NIC_MTU_eq IP_HEADER_eq)
  obtain tx1 "is" where t: "tx_seize_all ?sizes tx = Some (tx1, is)" "length is = length ?sizes" "tx_own tx1 = tx_own tx"
    "tx_locked tx1 = fold (\<lambda>i l. l[i := True]) is (tx_locked tx)" "\<forall>i \<in> set is. i < length (tx_own tx) \<and> \<not> tx_locked tx ! i"
    using tx_seize_all_ready [of tx ?sizes] assms(4) l by auto
  have alloc: "pcnet_alloc tx UDP_HEADER IP_HEADER (length data) = Some (tx1, Some (zip is ?sizes))"
    using le t(1) by (simp add: pcnet_alloc_def Let_def)
  have "length (tx_locked tx) = length (tx_own tx)" using assms(4) by (simp add: tx_ready_def)
  then have send: "pcnet_send tx1 (zip is ?sizes) = (tx1\<lparr>tx_locked := tx_locked tx\<rparr>, sum_list ?sizes)"
    by (intro pcnet_send_frees) (use t in auto)
  moreover have "sum_list ?sizes = length data + (UDP_HEADER + IP_HEADER * length ?sizes)"
    by (simp add: IP_HEADER_eq frame_sizes_sum UDP_HEADER_def)
  ultimately have "udp_send (ip_alloc table own resolve tx) to ident from_port to_port checksum data =
      Some (tx1\<lparr>tx_locked := tx_locked tx\<rparr>, udp_packets (own (r_ip r)) to ident (udp_header from_port to_port (length data) checksum) data, length data)"
    using assms(1-3) alloc t(2)
    by (simp add: udp_send_def ip_alloc_def udp_packets_def Let_def sizes_alloc_headers length_alloc_headers)
  then show ?thesis using t(3) by (intro exI [of _ "tx1\<lparr>tx_locked := tx_locked tx\<rparr>"]) simp
qed

lemma udp_packets_facts:
  assumes "length data \<le> UDP_DATA" "length header = 8" and ps_def: "ps = udp_packets own to ident header data"
  shows "length ps = (length data + 1487) div 1480"
    "k < length ps \<Longrightarrow> p_offset (ps ! k) = k * MFS \<and> (p_more (ps ! k) \<longleftrightarrow> k + 1 < length ps) \<and> p_from (ps ! k) = own \<and>
       p_to (ps ! k) = to \<and> p_id (ps ! k) = ident \<and> p_protocol (ps ! k) = 0x11"
    "concat (map p_data ps) = header @ data"
proof -
  let ?sizes = "frame_sizes 20 (8 + length data)"
  have ps: "ps = map2 (\<lambda>(_, raw) payload. \<lparr>p_from = own, p_to = to, p_id = ident, p_raw = raw, p_protocol = 0x11, p_data = payload\<rparr>)
      (alloc_headers ?sizes 0) (udp_fill header data ?sizes)"
    by (simp add: ps_def udp_packets_def IP_HEADER_eq UDP_HEADER_def Let_def)
  have l: "length ps = length ?sizes" by (simp add: ps length_alloc_headers length_udp_fill)
  then show n: "length ps = (length data + 1487) div 1480" by (simp add: frame_sizes_length)
  have nth: "k < length ps \<Longrightarrow> ps ! k = \<lparr>p_from = own, p_to = to, p_id = ident, p_raw = snd (alloc_headers ?sizes 0 ! k), p_protocol = 0x11,
      p_data = udp_fill header data ?sizes ! k\<rparr>" for k
    by (simp add: l) (simp add: ps length_alloc_headers length_udp_fill split_beta)
  show "k < length ps \<Longrightarrow> p_offset (ps ! k) = k * MFS \<and> (p_more (ps ! k) \<longleftrightarrow> k + 1 < length ps) \<and> p_from (ps ! k) = own \<and>
      p_to (ps ! k) = to \<and> p_id (ps ! k) = ident \<and> p_protocol (ps ! k) = 0x11"
  proof -
    assume k: "k < length ps"
    have "k * MFS < 65536" using k assms(1) by (simp add: n UDP_DATA_eq MFS_eq)
    moreover have "8 dvd k * MFS" by (simp add: MFS_eq)
    ultimately have "p_offset (ps ! k) = k * MFS"
      using k l by (simp add: nth p_offset_def nth_alloc_headers get_offset_aligned del: of_nat_mult)
    moreover have "p_more (ps ! k) \<longleftrightarrow> k + 1 < length ps"
      using k l by (simp add: nth p_more_def nth_alloc_headers packed_fields MF_def)
    ultimately show ?thesis using k by (simp add: nth)
  qed
  have "map p_data ps = udp_fill header data ?sizes"
    by (rule nth_equalityI) (simp_all add: l length_udp_fill nth)
  then show "concat (map p_data ps) = header @ data" using udp_fill_concat [of header data "8 + length data"] assms(2) by simp
qed

lemma udp_packets_arrive:
  assumes n: "length data \<le> UDP_DATA" "length header = 8" and ps: "ps = udp_packets own to ident header data"
    and to: "to = ic_address (i_config s)" and fresh: "\<forall>p \<in> set ps. i_reassembling s (frag_key (ic_netmask (i_config s)) p) = None"
    and ks: "set ks \<union> {k} = {..<length ps}" "k \<notin> set ks"
  shows "\<exists>s1 s2. ip_run new (map ((!) ps) ks) s = Some (s1, replicate (length ks) Waiting) \<and> ip_update new True (ps ! k) s1 = Some (s2, Datagram 0x11 ps)"
proof -
  note facts = udp_packets_facts [OF n ps]
  have k: "k < length ps" using ks(1) by auto
  let ?key = "frag_key (ic_netmask (i_config s)) (ps ! k)"
  show ?thesis
  proof (cases "2 \<le> length ps")
    case True
    have "length ps \<le> MAX_FRAGMENTS" using n(1) by (simp add: facts(1) UDP_DATA_eq MAX_FRAGMENTS_eq)
    then have f: "fragments_of (i_config s) ?key (length ps) ((!) ps)"
      using True to facts(2) k by (simp add: fragments_of_def frag_key_def)
    show ?thesis using datagram_completes [OF f _ ks, of new] fresh k facts(2) by (auto simp: map_nth)
  next
    case False
    then have one: "length ps = 1" "k = 0" using k by linarith+
    then have "ks = []" using ks by (cases ks) (auto simp: lessThan_Suc)
    moreover have "ip_update new True (ps ! 0) s = Some (s, Datagram 0x11 ps)"
      using facts(2) [of 0] one to by (cases ps) (auto simp: ip_update_def)
    ultimately show ?thesis using one by simp
  qed
qed

lemma udp_header_facts:
  "length (udp_header from_port to_port n checksum) = 8"
  "n \<le> UDP_DATA \<Longrightarrow> unat (word_cat (udp_header from_port to_port n checksum ! 4) (udp_header from_port to_port n checksum ! 5) :: 16 word) = n + 8"
proof -
  have c: "word_cat (ucast (drop_bit 8 x) :: byte) (ucast x :: byte) = x" for x :: "16 word"
    by (rule bit_word_eqI) (auto simp: bit_word_cat_iff bit_simps)
  show "n \<le> UDP_DATA \<Longrightarrow> unat (word_cat (udp_header from_port to_port n checksum ! 4) (udp_header from_port to_port n checksum ! 5) :: 16 word) = n + 8"
  proof -
    assume "n \<le> UDP_DATA"
    then have "unat (word_of_nat (n + 8) :: 16 word) = n + 8"
      by (simp add: UDP_DATA_eq unsigned_of_nat take_bit_nat_eq_self del: of_nat_add)
    then show ?thesis using \<open>n \<le> UDP_DATA\<close> by (simp add: udp_header_def htons_bytes_def nth_append c UDP_HEADER_def del: of_nat_add)
  qed
qed (simp add: udp_header_def htons_bytes_def)

lemma udp_check_header:
  assumes "n \<le> UDP_DATA" "\<forall>i < 8. message i = udp_header from_port to_port n checksum ! i"
  shows "udp_check message"
proof -
  have len: "unat (word_cat (message 4) (message 5) :: 16 word) = n + 8" using udp_header_facts(2) [OF assms(1)] assms(2) by simp
  have "message 4 \<noteq> 0 \<or> message 5 \<noteq> 0"
  proof (rule ccontr)
    assume "\<not> ?thesis"
    then have "(word_cat (message 4) (message 5) :: 16 word) = 0" by (simp add: word_cat_eq)
    then show False using len by simp
  qed
  then obtain i where "i < n + 8" "message i \<noteq> 0" by (elim disjE) (auto intro: that [of 4] that [of 5])
  then show ?thesis using checksum_not_ffff [of "n + 8" i message] assms(1) len by (simp add: udp_check_def UDP_DATA_eq)
qed


definition idle_ring :: tx_ring where
  "idle_ring = \<lparr>tx_cur = 3, tx_own = replicate 4 False, tx_locked = replicate 4 False\<rparr>"

lemma idle_ring_ready: "k \<le> 4 \<Longrightarrow> tx_ready idle_ring k"
  by (simp add: tx_ready_def idle_ring_def)


lemma tx_seize_unlocked: "tx_seize own locked i = Some j \<Longrightarrow> j < length own \<and> \<not> locked ! j"
proof -
  have skip: "tx_skip own i = Some j \<Longrightarrow> j < length own" for own i j
    by (induct rule: tx_skip.raw_induct [rotated, consumes 1]) (auto split: if_splits)
  show "tx_seize own locked i = Some j \<Longrightarrow> j < length own \<and> \<not> locked ! j"
    by (induct rule: tx_seize.raw_induct [rotated, consumes 1]) (auto split: if_splits bind_splits dest: skip)
qed

lemma tx_seize_all_distinct:
  "tx_seize_all sizes tx = Some (tx', is) \<Longrightarrow> length (tx_locked tx) = length (tx_own tx) \<Longrightarrow>
   length is = length sizes \<and> distinct is \<and> (\<forall>i \<in> set is. i < length (tx_own tx) \<and> \<not> tx_locked tx ! i)"
proof (induction sizes arbitrary: tx "is")
  case (Cons sz sizes)
  obtain i js where i: "tx_seize (tx_own tx) (tx_locked tx) (tx_cur tx) = Some i" "is = i # js"
    "tx_seize_all sizes (tx\<lparr>tx_locked := (tx_locked tx)[i := True], tx_cur := (i + 1) mod length (tx_own tx)\<rparr>) = Some (tx', js)"
    using Cons.prems(1) by (auto split: bind_splits)
  have "length js = length sizes \<and> distinct js \<and> (\<forall>j \<in> set js. j < length (tx_own tx) \<and> \<not> (tx_locked tx)[i := True] ! j)"
    using Cons.IH [OF i(3)] Cons.prems(2) by simp
  then show ?case using tx_seize_unlocked [OF i(1)] i(2) Cons.prems(2) by (auto simp: nth_list_update split: if_splits)
qed simp

text \<open>
  The driver refuses a datagram only when it fills more whole frames than there are buffers. One of \<open>n\<close> frames and a rest gets a buffer for
  each frame but the last, and then waits for one of its own buffers, whatever the state of the ring.
\<close>

theorem too_few_buffers_hang:
  assumes "length (tx_locked tx) = length (tx_own tx)"
    and "length (tx_own tx) * 1480 < once + payload" "once + payload < (length (tx_own tx) + 1) * 1480"
  shows "pcnet_alloc tx once IP_HEADER payload = None"
proof -
  let ?sizes = "frame_sizes IP_HEADER (once + payload)" and ?n = "length (tx_own tx)"
  have l: "length ?sizes = ?n + 1"
    using assms(2,3) unfolding IP_HEADER_eq frame_sizes_length by (intro div_nat_eqI) auto
  have "(payload + once) div 1480 = ?n" using assms(2,3) by (intro div_nat_eqI) auto
  moreover have "tx_seize_all ?sizes tx = None"
  proof (cases "tx_seize_all ?sizes tx")
    case (Some r)
    then obtain tx' "is" where r: "tx_seize_all ?sizes tx = Some (tx', is)" by (cases r) auto
    note d = tx_seize_all_distinct [OF r assms(1)]
    have "card (set is) \<le> card {..<?n}" by (rule card_mono) (use d in auto)
    then show ?thesis using d l by (simp add: distinct_card)
  qed
  ultimately show ?thesis by (simp add: pcnet_alloc_def NIC_MTU_eq IP_HEADER_eq Let_def)
qed

theorem too_few_buffers_hang_witness: "pcnet_alloc idle_ring 8 IP_HEADER 6000 = None"
  using too_few_buffers_hang [of idle_ring 8 6000] by (simp add: idle_ring_def)

text \<open>
  The first fragment that overshoots: \<open>receive\<close> tests the room before a buffer and not for it, so a datagram longer than the client's
  buffer is copied past its end.
\<close>

lemma udp_receive_overflows:
  assumes "length (p_data p) > s + 8" "udp_check message"
  shows "\<exists>d. udp_receive message [p] s = (d, length d) \<and> length d > s"
  using assms by (simp add: udp_receive_def UDP_HEADER_def)

end
