(* ===== verification/Mmu.thy ===== *)
theory Mmu
  imports Grouping_List
begin

text \<open>
  Paged memory management as on the default target: \<open>MMU_Common<9, 9, 12, 9>\<close> (\<open>include/architecture/mmu.h\<close>) and the SV39 MMU of
  RISC-V (\<open>include/architecture/rv64/rv64_mmu.h\<close>). Free frames are runs of a \<open>Grouping_List\<close>; a chunk (the memory of a segment) is
  mapped by page tables; a directory (an address space) holds attachers that hold the page tables of the attached chunks.
  Frames are of one colour (\<open>colorful\<close> is false), physical memory is seen where it is (\<open>PHY_MEM\<close> is \<open>RAM_BASE\<close>), and \<open>IAD\<close> is
  \<open>A | D\<close>, as for SiFive_U and VisionFive2.
\<close>

unbundle bit_operations_syntax

section \<open>Addresses\<close>

definition PG_SIZE :: ulong where "PG_SIZE = 4096"
definition ENTRIES :: nat where "ENTRIES = 512"
definition PD_SPAN :: ulong where "PD_SPAN = 2 ^ 39"
definition PT_SPAN :: ulong where "PT_SPAN = 2 ^ 21"

definition off :: "addr \<Rightarrow> ulong" where "off a = a AND 0xFFF"
definition pti :: "addr \<Rightarrow> nat" where "pti a = unat (drop_bit 12 a AND 0x1FF)"
definition ati :: "addr \<Rightarrow> nat" where "ati a = unat (drop_bit 21 a AND 0x1FF)"
definition pdi :: "addr \<Rightarrow> nat" where "pdi a = unat (drop_bit 30 a AND 0x1FF)"

definition unflag :: "addr \<Rightarrow> addr" where "unflag a = a AND NOT 0xFFF"
definition align_page :: "addr \<Rightarrow> addr" where "align_page a = (a + 4096 - 1) AND NOT 0xFFF"
definition align_segment :: "addr \<Rightarrow> addr" where "align_segment a = (a + 512 * 4096 - 1) AND NOT 0x1FFFFF"

text \<open>The limits of a chunk, of type \<open>unsigned int\<close>, keep \<open>pts\<close> and \<open>ats\<close> in the range of their results.\<close>

definition pages :: "ulong \<Rightarrow> ulong" where "pages bytes = (bytes + 4096 - 1) div 4096"
definition pts_of :: "nat \<Rightarrow> nat" where "pts_of n = (n + 512 - 1) div 512"
definition ats_of :: "nat \<Rightarrow> nat" where "ats_of n = (n + 512 - 1) div 512"

section \<open>Flags and entries\<close>

text \<open>The bits of \<open>Flags\<close>, common to all MMUs, and of SV39's \<open>Page_Flags\<close>.\<close>

definition FL_PRE :: ulong where "FL_PRE = 1"
definition FL_RD :: ulong where "FL_RD = 2"
definition FL_WR :: ulong where "FL_WR = 4"
definition FL_EX :: ulong where "FL_EX = 8"
definition FL_USR :: ulong where "FL_USR = 16"
definition FL_AC :: ulong where "FL_AC = 0x80"
definition FL_DT :: ulong where "FL_DT = 0x100"
definition FL_IO :: ulong where "FL_IO = 0x800"
definition FL_CT :: ulong where "FL_CT = 0x1000"
definition FL_SPE :: ulong where "FL_SPE = 0x2000"

definition PF_V :: ulong where "PF_V = 1"
definition PF_R :: ulong where "PF_R = 2"
definition PF_W :: ulong where "PF_W = 4"
definition PF_X :: ulong where "PF_X = 8"
definition PF_U :: ulong where "PF_U = 16"
definition PF_G :: ulong where "PF_G = 32"
definition PF_A :: ulong where "PF_A = 64"
definition PF_D :: ulong where "PF_D = 128"
definition PF_CT :: ulong where "PF_CT = 256"
definition PF_MIO :: ulong where "PF_MIO = 512"
definition PF_IAD :: ulong where "PF_IAD = PF_A OR PF_D"
definition PF_IO :: ulong where "PF_IO = (PF_V OR PF_R OR PF_W OR PF_IAD) OR PF_MIO"
definition PF_MASK :: ulong where "PF_MASK = 0x3FF"

definition page_flags :: "ulong \<Rightarrow> ulong" where
  "page_flags f = PF_V OR PF_IAD OR (if f AND FL_RD \<noteq> 0 then PF_R else 0) OR (if f AND FL_WR \<noteq> 0 then PF_W else 0) OR
     (if f AND FL_EX \<noteq> 0 then PF_X else 0) OR (if f AND FL_USR \<noteq> 0 then PF_U else 0) OR
     (if f AND FL_CT \<noteq> 0 then PF_CT else 0) OR (if f AND FL_IO \<noteq> 0 then PF_IO else 0)"

text \<open>The conversion back, as the precedence of \<open>?:\<close> and \<open>|\<close> has it: each bit-or belongs to the next condition.\<close>

definition flags_of :: "ulong \<Rightarrow> ulong" where
  "flags_of f = (if f AND PF_V \<noteq> 0 then FL_PRE else if 0 OR f AND PF_R \<noteq> 0 then FL_RD else if 0 OR f AND PF_W \<noteq> 0 then FL_WR
     else if 0 OR f AND PF_X \<noteq> 0 then FL_EX else if 0 OR f AND PF_U \<noteq> 0 then FL_USR else if 0 OR f AND PF_G \<noteq> 0 then FL_SPE
     else if 0 OR f AND PF_A \<noteq> 0 then FL_AC else if 0 OR f AND PF_D \<noteq> 0 then FL_DT
     else if 0 OR f AND PF_CT \<noteq> 0 then FL_CT else if 0 OR f AND PF_MIO \<noteq> 0 then FL_IO else 0)"

definition phy2pte :: "addr \<Rightarrow> ulong \<Rightarrow> ulong" where "phy2pte frame flags = drop_bit 2 frame OR flags"
definition pte2phy :: "ulong \<Rightarrow> addr" where "pte2phy e = push_bit 2 (e AND NOT PF_MASK)"
definition phy2ate :: "addr \<Rightarrow> ulong" where "phy2ate frame = drop_bit 2 frame OR PF_V"
definition ate2phy :: "ulong \<Rightarrow> addr" where "ate2phy e = push_bit 2 (e AND NOT PF_MASK)"
definition phy2pde :: "addr \<Rightarrow> ulong" where "phy2pde frame = drop_bit 2 frame OR PF_V"
definition pde2phy :: "ulong \<Rightarrow> addr" where "pde2phy e = push_bit 2 (e AND NOT PF_MASK)"

section \<open>Memory\<close>

text \<open>
  The words of physical memory, and the free list with its elements, which lie in the first frames of the runs. A table is known by its
  address; reading or writing an entry of a null or misaligned table is undefined.
\<close>

record mmu =
  mm_mem :: "addr \<Rightarrow> ulong"
  mm_elems :: "delem_grouping store"
  mm_free :: grouping_list

definition entry :: "addr \<Rightarrow> nat \<Rightarrow> addr" where
  "entry t i = t + of_nat (8 * i)"

definition rd :: "mmu \<Rightarrow> addr \<Rightarrow> nat \<Rightarrow> ulong option" where
  "rd s t i = (if t = 0 \<or> t AND 7 \<noteq> 0 then None else Some (mm_mem s (entry t i)))"

definition wr :: "mmu \<Rightarrow> addr \<Rightarrow> nat \<Rightarrow> ulong \<Rightarrow> mmu option" where
  "wr s t i e = (if t = 0 \<or> t AND 7 \<noteq> 0 then None else Some (s\<lparr>mm_mem := (mm_mem s)(entry t i := e)\<rparr>))"

text \<open>\<open>alloc\<close>, \<open>calloc\<close> (which clears the words of the frames, at address 0 when there are none) and \<open>free\<close>.\<close>

definition mmu_alloc :: "mmu \<Rightarrow> ulong \<Rightarrow> (mmu \<times> addr) option" where
  "mmu_alloc s frames =
     (if frames \<noteq> 0
      then do {
        (h, g, e) \<leftarrow> gl_search_decrementing PG_SIZE 32 (mm_elems s) (mm_free s) frames;
        let s = s\<lparr>mm_elems := h, mm_free := g\<rparr>;
        if e \<noteq> 0 then do { x \<leftarrow> load h e; Some (s, obj x + gsize x * PG_SIZE) } else Some (s, 0) }
      else Some (s, 0))"

definition clear_frames :: "addr \<Rightarrow> ulong \<Rightarrow> (addr \<Rightarrow> ulong) \<Rightarrow> addr \<Rightarrow> ulong" where
  "clear_frames p frames m = (\<lambda>a. if a - p < frames * PG_SIZE then 0 else m a)"

definition mmu_calloc :: "mmu \<Rightarrow> ulong \<Rightarrow> (mmu \<times> addr) option" where
  "mmu_calloc s frames = do {
     (s, p) \<leftarrow> mmu_alloc s frames;
     if p = 0 \<and> frames \<noteq> 0 then None else Some (s\<lparr>mm_mem := clear_frames p frames (mm_mem s)\<rparr>, p) }"

definition mmu_free :: "mmu \<Rightarrow> addr \<Rightarrow> ulong \<Rightarrow> mmu option" where
  "mmu_free s frame n =
     (let frame = unflag frame in
      if frame \<noteq> 0 \<and> n \<noteq> 0
      then do {
        (h, g, _) \<leftarrow> gl_insert_merging PG_SIZE ((mm_elems s)(frame \<mapsto> doubly_linked_grouping frame n)) (mm_free s) frame;
        Some (s\<lparr>mm_elems := h, mm_free := g\<rparr>) }
      else Some s)"

definition allocable :: "mmu \<Rightarrow> ulong option" where
  "allocable s =
     (if dl_head (gl_list (mm_free s)) \<noteq> 0 then map_option gsize (load (mm_elems s) (dl_head (gl_list (mm_free s)))) else Some 0)"

section \<open>Page tables\<close>

text \<open>
  The indexes are of type \<open>int\<close>, to which the chunks convert their limits, of type \<open>unsigned int\<close>; an entry before the table is
  undefined.
\<close>

definition as_int :: "nat \<Rightarrow> int" where "as_int n = sint (of_nat n :: uint)"

definition rd_at :: "mmu \<Rightarrow> addr \<Rightarrow> int \<Rightarrow> ulong option" where
  "rd_at s t i = (if i < 0 then None else rd s t (nat i))"

definition wr_at :: "mmu \<Rightarrow> addr \<Rightarrow> int \<Rightarrow> ulong \<Rightarrow> mmu option" where
  "wr_at s t i e = (if i < 0 then None else wr s t (nat i) e)"

function pt_remap_from :: "mmu \<Rightarrow> addr \<Rightarrow> addr \<Rightarrow> int \<Rightarrow> int \<Rightarrow> ulong \<Rightarrow> mmu option" where
  "pt_remap_from s pt a from to flags =
     (if from < to
      then do { s \<leftarrow> wr_at s pt from (phy2pte a flags); pt_remap_from s pt (a + PG_SIZE) (from + 1) to flags }
      else Some s)"
  by pat_completeness auto

termination
  by (relation "measure (\<lambda>(s, pt, a, from, to, flags). nat (to - from))") auto

definition pt_remap :: "mmu \<Rightarrow> addr \<Rightarrow> addr \<Rightarrow> int \<Rightarrow> int \<Rightarrow> ulong \<Rightarrow> mmu option" where
  "pt_remap s pt a from to flags = pt_remap_from s pt (align_page a) from to flags"

function pt_map_each :: "mmu \<Rightarrow> addr \<Rightarrow> int \<Rightarrow> int \<Rightarrow> ulong \<Rightarrow> mmu option" where
  "pt_map_each s pt from to flags =
     (if from < to
      then do {
        (s, a) \<leftarrow> mmu_alloc s 1;
        s \<leftarrow> wr_at s pt from (phy2pte a flags);
        pt_map_each s pt (from + 1) to flags }
      else Some s)"
  by pat_completeness auto

termination
  by (relation "measure (\<lambda>(s, pt, from, to, flags). nat (to - from))") auto

declare pt_remap_from.simps [simp del] pt_map_each.simps [simp del]

definition pt_map :: "mmu \<Rightarrow> addr \<Rightarrow> int \<Rightarrow> int \<Rightarrow> ulong \<Rightarrow> mmu option" where
  "pt_map s pt from to flags = do {
     (s, a) \<leftarrow> mmu_alloc s (of_int (to - from));
     if a \<noteq> 0 then pt_remap s pt a from to flags else pt_map_each s pt from to flags }"

definition pt_map_contiguous :: "mmu \<Rightarrow> addr \<Rightarrow> int \<Rightarrow> int \<Rightarrow> ulong \<Rightarrow> mmu option" where
  "pt_map_contiguous s pt from to flags = do { (s, a) \<leftarrow> mmu_alloc s (of_int (to - from)); pt_remap s pt a from to flags }"

function pt_reflag :: "mmu \<Rightarrow> addr \<Rightarrow> int \<Rightarrow> int \<Rightarrow> ulong \<Rightarrow> mmu option" where
  "pt_reflag s pt from to flags =
     (if from < to
      then do { e \<leftarrow> rd_at s pt from; s \<leftarrow> wr_at s pt from (phy2pte (pte2phy e) flags); pt_reflag s pt (from + 1) to flags }
      else Some s)"
  by pat_completeness auto

termination
  by (relation "measure (\<lambda>(s, pt, from, to, flags). nat (to - from))") auto

function pt_unmap :: "mmu \<Rightarrow> addr \<Rightarrow> int \<Rightarrow> int \<Rightarrow> mmu option" where
  "pt_unmap s pt from to =
     (if from < to
      then do { e \<leftarrow> rd_at s pt from; s \<leftarrow> mmu_free s e 1; s \<leftarrow> wr_at s pt from 0; pt_unmap s pt (from + 1) to }
      else Some s)"
  by pat_completeness auto

termination
  by (relation "measure (\<lambda>(s, pt, from, to). nat (to - from))") auto

declare pt_reflag.simps [simp del] pt_unmap.simps [simp del]

section \<open>Chunks\<close>

record chunk =
  ch_free :: bool
  ch_from :: nat
  ch_to :: nat
  ch_pts :: nat
  ch_flags :: ulong
  ch_pt :: addr

definition chunk_size :: "chunk \<Rightarrow> ulong" where
  "chunk_size c = of_nat (ch_to c - ch_from c) * PG_SIZE"

text \<open>The constructors: with memory of its own, over given memory, over given page tables, and over both.\<close>

definition chunk_new :: "mmu \<Rightarrow> ulong \<Rightarrow> ulong \<Rightarrow> (mmu \<times> chunk) option" where
  "chunk_new s bytes flags = do {
     let to = unat (ucast (pages bytes) :: uint);
     let fl = page_flags flags;
     (s, pt) \<leftarrow> mmu_calloc s (of_nat (pts_of to));
     s \<leftarrow> (if fl AND PF_CT \<noteq> 0 then pt_map_contiguous s pt 0 (as_int to) fl else pt_map s pt 0 (as_int to) fl);
     Some (s, \<lparr>ch_free = True, ch_from = 0, ch_to = to, ch_pts = pts_of to, ch_flags = fl, ch_pt = pt\<rparr>) }"

definition chunk_over :: "mmu \<Rightarrow> addr \<Rightarrow> ulong \<Rightarrow> ulong \<Rightarrow> (mmu \<times> chunk) option" where
  "chunk_over s phy bytes flags = do {
     let to = unat (ucast (pages bytes) :: uint);
     (s, pt) \<leftarrow> mmu_calloc s (of_nat (pts_of to));
     s \<leftarrow> pt_remap s pt phy 0 (as_int to) (page_flags flags);
     Some (s, \<lparr>ch_free = True, ch_from = 0, ch_to = to, ch_pts = pts_of to, ch_flags = page_flags flags, ch_pt = pt\<rparr>) }"

definition chunk_tables :: "addr \<Rightarrow> nat \<Rightarrow> nat \<Rightarrow> ulong \<Rightarrow> chunk" where
  "chunk_tables pt from to flags =
     \<lparr>ch_free = False, ch_from = from, ch_to = to, ch_pts = pts_of (to - from), ch_flags = page_flags flags, ch_pt = pt\<rparr>"

definition chunk_tables_over :: "mmu \<Rightarrow> addr \<Rightarrow> nat \<Rightarrow> nat \<Rightarrow> ulong \<Rightarrow> addr \<Rightarrow> (mmu \<times> chunk) option" where
  "chunk_tables_over s pt from to flags phy = do {
     let c = chunk_tables pt from to flags;
     s \<leftarrow> pt_remap s pt phy (as_int from) (as_int to) (ch_flags c);
     Some (s, c) }"

function chunk_free_pages :: "mmu \<Rightarrow> addr \<Rightarrow> nat \<Rightarrow> nat \<Rightarrow> mmu option" where
  "chunk_free_pages s pt from to =
     (if from < to then do { e \<leftarrow> rd s pt from; s \<leftarrow> mmu_free s e 1; chunk_free_pages s pt (from + 1) to } else Some s)"
  by pat_completeness auto

termination
  by (relation "measure (\<lambda>(s, pt, from, to). to - from)") auto

declare chunk_free_pages.simps [simp del]

definition chunk_delete :: "mmu \<Rightarrow> chunk \<Rightarrow> mmu option" where
  "chunk_delete s c =
     (if ch_free c
      then do {
        s \<leftarrow> (if ch_flags c AND PF_IO = 0
          then if ch_flags c AND PF_CT \<noteq> 0
            then do { e \<leftarrow> rd s (ch_pt c) (ch_from c); mmu_free s e (of_nat (ch_to c - ch_from c)) }
            else chunk_free_pages s (ch_pt c) (ch_from c) (ch_to c)
          else Some s);
        mmu_free s (ch_pt c) (of_nat (ch_pts c)) }
      else Some s)"

definition chunk_reflag :: "mmu \<Rightarrow> chunk \<Rightarrow> ulong \<Rightarrow> (mmu \<times> chunk) option" where
  "chunk_reflag s c flags = do {
     s \<leftarrow> pt_reflag s (ch_pt c) (as_int (ch_from c)) (as_int (ch_to c)) (page_flags flags);
     Some (s, c\<lparr>ch_flags := page_flags flags\<rparr>) }"

definition chunk_phy_address :: "mmu \<Rightarrow> chunk \<Rightarrow> addr option" where
  "chunk_phy_address s c =
     (if ch_flags c AND PF_CT \<noteq> 0 then map_option unflag (rd s (ch_pt c) (ch_from c)) else Some 0)"

text \<open>\<open>resize\<close>, with the copy of the page tables; \<open>amount\<close> is signed.\<close>

definition copy_tables :: "addr \<Rightarrow> addr \<Rightarrow> nat \<Rightarrow> (addr \<Rightarrow> ulong) \<Rightarrow> addr \<Rightarrow> ulong" where
  "copy_tables dst src n m = (\<lambda>a. if a - dst < of_nat n * PG_SIZE then m (src + (a - dst)) else m a)"

definition chunk_resize :: "mmu \<Rightarrow> chunk \<Rightarrow> int \<Rightarrow> (mmu \<times> chunk \<times> ulong) option" where
  "chunk_resize s c amount =
     (if ch_flags c AND PF_CT \<noteq> 0 then Some (s, c, 0)
      else if amount > 0
      then do {
        let pgs = unat (pages (word_of_int amount));
        let free_pgs = ch_pts c * ENTRIES - ch_to c;
        (s, c) \<leftarrow> (if free_pgs < pgs
          then do {
            let pts = ch_pts c + pts_of (pgs - free_pgs);
            (s, pt) \<leftarrow> mmu_calloc s (of_nat pts);
            let s = s\<lparr>mm_mem := copy_tables pt (ch_pt c) (ch_pts c) (mm_mem s)\<rparr>;
            s \<leftarrow> mmu_free s (ch_pt c) (of_nat (ch_pts c));
            Some (s, c\<lparr>ch_pt := pt, ch_pts := pts\<rparr>) }
          else Some (s, c));
        s \<leftarrow> pt_map s (ch_pt c) (as_int (ch_to c)) (as_int (ch_to c + pgs)) (ch_flags c);
        let c = c\<lparr>ch_to := ch_to c + pgs\<rparr>;
        Some (s, c, chunk_size c) }
      else Some (s, c, chunk_size c))"

section \<open>Directories\<close>

text \<open>The constructor copies the entries of the master directory outside the application's part of the address space.\<close>

function dir_copy :: "mmu \<Rightarrow> addr \<Rightarrow> addr \<Rightarrow> addr \<Rightarrow> addr \<Rightarrow> nat \<Rightarrow> mmu option" where
  "dir_copy s pd master low high i =
     (if i < ENTRIES
      then do {
        s \<leftarrow> (if \<not> (i \<ge> pdi low \<and> i \<le> pdi high) then do { e \<leftarrow> rd s master i; wr s pd i e } else Some s);
        dir_copy s pd master low high (i + 1) }
      else Some s)"
  by pat_completeness auto

termination
  by (relation "measure (\<lambda>(s, pd, master, low, high, i). ENTRIES - i)") auto

definition dir_new :: "mmu \<Rightarrow> addr \<Rightarrow> addr \<Rightarrow> addr \<Rightarrow> (mmu \<times> addr) option" where
  "dir_new s master low high = do { (s, pd) \<leftarrow> mmu_calloc s 1; s \<leftarrow> dir_copy s pd master low high 0; Some (s, pd) }"

function dir_free_attachers :: "mmu \<Rightarrow> addr \<Rightarrow> nat \<Rightarrow> nat \<Rightarrow> mmu option" where
  "dir_free_attachers s pd i n =
     (if i < n
      then do {
        e \<leftarrow> rd s pd i;
        s \<leftarrow> (if pde2phy e \<noteq> 0 then mmu_free s (pde2phy e) 1 else Some s);
        dir_free_attachers s pd (i + 1) n }
      else Some s)"
  by pat_completeness auto

termination
  by (relation "measure (\<lambda>(s, pd, i, n). n - i)") auto

definition dir_delete :: "mmu \<Rightarrow> addr \<Rightarrow> addr \<Rightarrow> addr \<Rightarrow> mmu option" where
  "dir_delete s pd low high = do { s \<leftarrow> dir_free_attachers s pd (pdi low) (pdi high); mmu_free s pd 1 }"

text \<open>
  The flat memory of the setup (\<open>setup_flat_paging\<close>): \<open>n\<close> pages of 1 GB from \<open>base\<close> on, which are leaves of the directory at \<open>pd\<close>.
\<close>

definition FLAT_MEM_PD :: ulong where
  "FLAT_MEM_PD = PF_V OR PF_R OR PF_W OR PF_X OR PF_IAD"

function flat_paging_from :: "mmu \<Rightarrow> addr \<Rightarrow> addr \<Rightarrow> nat \<Rightarrow> nat \<Rightarrow> mmu option" where
  "flat_paging_from s pd page i n =
     (if i < n
      then do { s \<leftarrow> wr s pd i (drop_bit 2 page OR FLAT_MEM_PD); flat_paging_from s pd (page + 2 ^ 30) (i + 1) n }
      else Some s)"
  by pat_completeness auto

termination
  by (relation "measure (\<lambda>(s, pd, page, i, n). n - i)") auto

definition setup_flat_paging :: "mmu \<Rightarrow> addr \<Rightarrow> addr \<Rightarrow> nat \<Rightarrow> mmu option" where
  "setup_flat_paging s pd base n = flat_paging_from s pd base 0 n"

text \<open>The loops over the attachers of a range, \<open>attachable\<close>, \<open>attach\<close> and \<open>detach\<close> each with its loop over the entries of one.\<close>

function attachable_at :: "mmu \<Rightarrow> addr \<Rightarrow> nat \<Rightarrow> nat \<Rightarrow> bool option" where
  "attachable_at s at j n =
     (if j < n
      then do { e \<leftarrow> rd s at (j mod ENTRIES); if e \<noteq> 0 then Some False else attachable_at s at (j + 1) n }
      else Some True)"
  by pat_completeness auto

termination
  by (relation "measure (\<lambda>(s, at, j, n). n - j)") auto

function attachable_from :: "mmu \<Rightarrow> addr \<Rightarrow> addr \<Rightarrow> nat \<Rightarrow> nat \<Rightarrow> nat \<Rightarrow> bool option" where
  "attachable_from s pd addr pts i n =
     (if i < n
      then do {
        e \<leftarrow> rd s pd i;
        ok \<leftarrow> (if pde2phy e = 0 then Some True else attachable_at s (pde2phy e) (ati addr) (ati addr + pts));
        if ok then attachable_from s pd addr pts (i + 1) n else Some False }
      else Some True)"
  by pat_completeness auto

termination
  by (relation "measure (\<lambda>(s, pd, addr, pts, i, n). n - i)") auto

function attach_at :: "mmu \<Rightarrow> addr \<Rightarrow> addr \<Rightarrow> nat \<Rightarrow> nat \<Rightarrow> (mmu \<times> addr) option" where
  "attach_at s at pt j n =
     (if j < n
      then do { s \<leftarrow> wr s at (j mod ENTRIES) (phy2ate pt); attach_at s at (pt + PG_SIZE) (j + 1) n }
      else Some (s, pt))"
  by pat_completeness auto

termination
  by (relation "measure (\<lambda>(s, at, pt, j, n). n - j)") auto

function attach_from :: "mmu \<Rightarrow> addr \<Rightarrow> addr \<Rightarrow> addr \<Rightarrow> nat \<Rightarrow> nat \<Rightarrow> nat \<Rightarrow> mmu option" where
  "attach_from s pd addr pt pts i n =
     (if i < n
      then do {
        e \<leftarrow> rd s pd i;
        (s, at) \<leftarrow> (if pde2phy e = 0
          then do { (s, at) \<leftarrow> mmu_calloc s 1; s \<leftarrow> wr s pd i (phy2pde at); Some (s, at) }
          else Some (s, pde2phy e));
        (s, pt) \<leftarrow> attach_at s at pt (ati addr) (ati addr + pts);
        attach_from s pd addr pt pts (i + 1) n }
      else Some s)"
  by pat_completeness auto

termination
  by (relation "measure (\<lambda>(s, pd, addr, pt, pts, i, n). n - i)") auto

text \<open>\<open>detach\<close> clears the entry \<open>j\<close>, not \<open>j & (AT_ENTRIES - 1)\<close>, and gives up at the first entry that is not the expected table.\<close>

function detach_at :: "mmu \<Rightarrow> addr \<Rightarrow> addr \<Rightarrow> nat \<Rightarrow> nat \<Rightarrow> (mmu \<times> addr \<times> bool) option" where
  "detach_at s at pt j n =
     (if j < n
      then do {
        e \<leftarrow> rd s at (j mod ENTRIES);
        if unflag (ate2phy e) = unflag pt
        then do { s \<leftarrow> wr s at j 0; detach_at s at (pt + PG_SIZE) (j + 1) n }
        else Some (s, pt, False) }
      else Some (s, pt, True))"
  by pat_completeness auto

termination
  by (relation "measure (\<lambda>(s, at, pt, j, n). n - j)") auto

function detach_from :: "mmu \<Rightarrow> addr \<Rightarrow> addr \<Rightarrow> addr \<Rightarrow> nat \<Rightarrow> nat \<Rightarrow> nat \<Rightarrow> (mmu \<times> addr) option" where
  "detach_from s pd addr pt pts i n =
     (if i < n
      then do {
        e \<leftarrow> rd s pd i;
        (s, pt, ok) \<leftarrow> (if pde2phy e \<noteq> 0 then detach_at s (pde2phy e) pt (ati addr) (ati addr + pts) else Some (s, pt, True));
        if ok then detach_from s pd addr pt pts (i + 1) n else Some (s, 0) }
      else Some (s, addr))"
  by pat_completeness auto

termination
  by (relation "measure (\<lambda>(s, pd, addr, pt, pts, i, n). n - i)") auto

declare flat_paging_from.simps [simp del] dir_copy.simps [simp del] dir_free_attachers.simps [simp del] attachable_at.simps [simp del] attachable_from.simps [simp del]
declare attach_at.simps [simp del] attach_from.simps [simp del] detach_at.simps [simp del] detach_from.simps [simp del]

definition attachable :: "mmu \<Rightarrow> addr \<Rightarrow> addr \<Rightarrow> nat \<Rightarrow> bool option" where
  "attachable s pd addr pts = attachable_from s pd addr pts (pdi addr) (pdi addr + ats_of pts)"

definition dir_attach_at :: "mmu \<Rightarrow> addr \<Rightarrow> chunk \<Rightarrow> addr \<Rightarrow> (mmu \<times> addr) option" where
  "dir_attach_at s pd c addr =
     (if addr \<noteq> align_segment addr then Some (s, 0)
      else if PD_SPAN - (push_bit 30 (of_nat (pdi addr)) + push_bit 21 (of_nat (ati addr))) < chunk_size c then Some (s, 0)
      else do {
        ok \<leftarrow> attachable s pd addr (ch_pts c);
        if \<not> ok then Some (s, 0)
        else do {
          s \<leftarrow> attach_from s pd addr (ch_pt c) (ch_pts c) (pdi addr) (pdi addr + ats_of (ch_pts c));
          Some (s, addr) } })"

text \<open>\<open>attach\<close> at the first address that will do; past the last one the address wraps and the search goes on.\<close>

partial_function (option) dir_attach_from :: "mmu \<Rightarrow> addr \<Rightarrow> chunk \<Rightarrow> addr \<Rightarrow> addr \<Rightarrow> (mmu \<times> addr) option" where
  "dir_attach_from s pd c high addr =
     (if addr < high - chunk_size c
      then do {
        (s, a) \<leftarrow> dir_attach_at s pd c addr;
        if a = addr then Some (s, addr) else dir_attach_from s pd c high (addr + PT_SPAN) }
      else Some (s, 0))"

definition dir_attach :: "mmu \<Rightarrow> addr \<Rightarrow> chunk \<Rightarrow> addr \<Rightarrow> addr \<Rightarrow> (mmu \<times> addr) option" where
  "dir_attach s pd c low high = dir_attach_from s pd c high low"

text \<open>\<open>find\<close> shifts its indexes, of type \<open>unsigned int\<close>, in 32 bits.\<close>

function find_at :: "mmu \<Rightarrow> addr \<Rightarrow> addr \<Rightarrow> nat \<Rightarrow> nat option option" where
  "find_at s at pt j =
     (if j < ENTRIES
      then do { e \<leftarrow> rd s at j; if unflag (ate2phy e) = unflag pt then Some (Some j) else find_at s at pt (j + 1) }
      else Some None)"
  by pat_completeness auto

termination
  by (relation "measure (\<lambda>(s, at, pt, j). ENTRIES - j)") auto

function find_from :: "mmu \<Rightarrow> addr \<Rightarrow> addr \<Rightarrow> nat \<Rightarrow> addr option" where
  "find_from s pd pt i =
     (if i < ENTRIES
      then do {
        e \<leftarrow> rd s pd i;
        r \<leftarrow> (if pde2phy e \<noteq> 0 then find_at s (pde2phy e) pt 0 else Some None);
        case r of Some j \<Rightarrow> Some (ucast (push_bit 30 (of_nat i :: uint) + push_bit 21 (of_nat j :: uint)))
        | None \<Rightarrow> find_from s pd pt (i + 1) }
      else Some 0)"
  by pat_completeness auto

termination
  by (relation "measure (\<lambda>(s, pd, pt, i). ENTRIES - i)") auto

declare find_at.simps [simp del] find_from.simps [simp del]

definition dir_find :: "mmu \<Rightarrow> addr \<Rightarrow> chunk \<Rightarrow> addr option" where
  "dir_find s pd c = find_from s pd (ch_pt c) 0"

definition dir_detach_at :: "mmu \<Rightarrow> addr \<Rightarrow> chunk \<Rightarrow> addr \<Rightarrow> (mmu \<times> addr) option" where
  "dir_detach_at s pd c addr = detach_from s pd addr (ch_pt c) (ch_pts c) (pdi addr) (pdi addr + ats_of (ch_pts c))"

definition dir_detach :: "mmu \<Rightarrow> addr \<Rightarrow> chunk \<Rightarrow> (mmu \<times> addr) option" where
  "dir_detach s pd c = do { addr \<leftarrow> dir_find s pd c; dir_detach_at s pd c addr }"

text \<open>\<open>physical\<close> follows the entries as they are, without \<open>pde2phy\<close> and \<open>ate2phy\<close>.\<close>

definition dir_physical :: "mmu \<Rightarrow> addr \<Rightarrow> addr \<Rightarrow> addr option" where
  "dir_physical s pd addr = do {
     at \<leftarrow> rd s pd (pdi addr);
     pt \<leftarrow> rd s at (ati addr);
     e \<leftarrow> rd s pt (pti addr);
     Some (e OR off addr) }"

section \<open>Segments and address spaces\<close>

text \<open>
  A segment is a chunk, an address space a directory; no task is told of them (\<open>multitask\<close> is false). A segment over given memory is
  marked as I/O, so that the memory is not released with it.
\<close>

definition segment_new :: "mmu \<Rightarrow> ulong \<Rightarrow> ulong \<Rightarrow> (mmu \<times> chunk) option" where
  "segment_new s bytes flags = chunk_new s bytes flags"

definition segment_over :: "mmu \<Rightarrow> addr \<Rightarrow> ulong \<Rightarrow> ulong \<Rightarrow> (mmu \<times> chunk) option" where
  "segment_over s phy bytes flags = chunk_over s phy bytes (flags OR FL_IO)"

definition segment_delete :: "mmu \<Rightarrow> chunk \<Rightarrow> mmu option" where
  "segment_delete s seg = chunk_delete s seg"

definition segment_resize :: "mmu \<Rightarrow> chunk \<Rightarrow> int \<Rightarrow> (mmu \<times> chunk \<times> ulong) option" where
  "segment_resize s seg amount = chunk_resize s seg amount"

definition space_attach :: "mmu \<Rightarrow> addr \<Rightarrow> chunk \<Rightarrow> addr \<Rightarrow> addr \<Rightarrow> (mmu \<times> addr) option" where
  "space_attach s pd seg low high = dir_attach s pd seg low high"

definition space_attach_at :: "mmu \<Rightarrow> addr \<Rightarrow> chunk \<Rightarrow> addr \<Rightarrow> (mmu \<times> addr) option" where
  "space_attach_at s pd seg addr = dir_attach_at s pd seg addr"

definition space_detach :: "mmu \<Rightarrow> addr \<Rightarrow> chunk \<Rightarrow> mmu option" where
  "space_detach s pd seg = map_option fst (dir_detach s pd seg)"

definition space_detach_at :: "mmu \<Rightarrow> addr \<Rightarrow> chunk \<Rightarrow> addr \<Rightarrow> mmu option" where
  "space_detach_at s pd seg addr = map_option fst (dir_detach_at s pd seg addr)"

end
