(* ===== verification/Mmu_Properties.thy ===== *)
theory Mmu_Properties
  imports Mmu
begin

text \<open>
  What the memory management promises: frames are handed out once, a chunk attached to a directory is seen by the processor at its
  address and nowhere else, detaching undoes attaching; and where it falls short: chunks across an attacher, detaching without an
  address, the frames of a deleted chunk, the physical address of a contiguous one, page tables that a resize leaves behind.
\<close>

unbundle bit_operations_syntax

section \<open>Aligned addresses\<close>

definition page_aligned :: "addr \<Rightarrow> bool" where
  "page_aligned a \<longleftrightarrow> a AND 0xFFF = 0"

definition is_table :: "addr \<Rightarrow> bool" where
  "is_table a \<longleftrightarrow> a \<noteq> 0 \<and> page_aligned a"

lemma and_FFF: "a AND 0xFFF = take_bit 12 a" for a :: ulong
  by (simp add: take_bit_eq_mask mask_eq_exp_minus_1)

lemma bit_and_4096: "bit (a AND - 4096) n \<longleftrightarrow> bit a n \<and> 12 \<le> n" for a :: ulong
proof -
  have "(- 4096 :: ulong) = NOT (mask 12)" by (simp add: mask_eq_exp_minus_1)
  then show ?thesis by (simp only: bit_and_iff bit_not_iff bit_mask_iff) (auto dest: bit_imp_le_length)
qed

lemma bit_and_1024: "bit (a AND - 1024) n \<longleftrightarrow> bit a n \<and> 10 \<le> n" for a :: ulong
proof -
  have "(- 1024 :: ulong) = NOT (mask 10)" by (simp add: mask_eq_exp_minus_1)
  then show ?thesis by (simp only: bit_and_iff bit_not_iff bit_mask_iff) (auto dest: bit_imp_le_length)
qed

lemma bit_masks: "bit (a AND NOT 0xFFF) n \<longleftrightarrow> bit a n \<and> 12 \<le> n" "bit (a AND NOT 0x3FF) n \<longleftrightarrow> bit a n \<and> 10 \<le> n" for a :: ulong
  using bit_and_4096 [of a n] bit_and_1024 [of a n] by simp_all

lemma aligned_bits: "page_aligned a \<longleftrightarrow> (\<forall>n < 12. \<not> bit a n)"
proof -
  have "a AND 0xFFF = 0 \<longleftrightarrow> (\<forall>n. \<not> bit (take_bit 12 a) n)" by (metis and_FFF bit_0_eq bit_eqI bot_apply bot_bool_def)
  then show ?thesis by (auto simp: page_aligned_def bit_take_bit_iff)
qed

lemma aligned_unat: "page_aligned a \<longleftrightarrow> 4096 dvd unat a"
proof -
  have "a AND 0xFFF = 0 \<longleftrightarrow> unat (take_bit 12 a) = 0" by (simp add: and_FFF unat_eq_0_iff)
  also have "\<dots> \<longleftrightarrow> unat a mod 4096 = 0" by (simp add: unat_take_bit)
  finally show ?thesis by (simp add: page_aligned_def dvd_eq_mod_eq_0)
qed

lemma unat_offset: "page_aligned a \<Longrightarrow> n < 4096 \<Longrightarrow> unat (a + of_nat n) = unat a + n"
proof -
  assume a: "page_aligned a" "n < 4096"
  then obtain q where q: "unat a = 4096 * q" by (auto simp: aligned_unat)
  then have "unat a + n < 2 ^ 64" using a(2) unat_less [of a] by simp
  then show ?thesis using a(2) by (simp add: unat_word_ariths unsigned_of_nat take_bit_nat_eq_self)
qed

lemma unat_entry: "page_aligned t \<Longrightarrow> i < 512 \<Longrightarrow> unat (entry t i) = unat t + 8 * i"
  unfolding entry_def by (rule unat_offset) auto

lemma entry_inj:
  assumes "page_aligned a" "page_aligned b" "i < 512" "j < 512" "entry a i = entry b j"
  shows "a = b \<and> i = j"
proof -
  obtain p q where pq: "unat a = 4096 * p" "unat b = 4096 * q" using assms(1,2) unfolding aligned_unat by (elim dvdE)
  have e: "4096 * p + 8 * i = 4096 * q + 8 * j" using unat_entry [OF assms(1,3)] unat_entry [OF assms(2,4)] assms(5) pq by simp
  then have "p = q" using assms(3,4) by linarith
  then show ?thesis using e pq by (simp add: word_unat_eq_iff)
qed

lemma aligned_7: "page_aligned t \<Longrightarrow> t AND 7 = 0"
proof -
  assume "page_aligned t"
  moreover have "t AND 7 = take_bit 3 t" by (simp add: take_bit_eq_mask mask_eq_exp_minus_1)
  ultimately show ?thesis by (auto simp: aligned_bits bit_simps intro!: bit_word_eqI)
qed

lemma aligned_pde2phy: "page_aligned (pde2phy e)"
  unfolding aligned_bits pde2phy_def PF_MASK_def bit_push_bit_iff bit_masks by auto

lemma bit_shifted: "bit (push_bit 2 ((drop_bit 2 a OR f) AND NOT 0x3FF)) n \<longleftrightarrow> 12 \<le> n \<and> (bit a n \<or> n < 64 \<and> bit f (n - 2))" for a f :: ulong
proof (cases "2 \<le> n")
  case True
  then obtain k where n: "n = 2 + k" by (metis le_Suc_ex)
  show ?thesis unfolding n bit_push_bit_iff bit_masks bit_or_iff bit_drop_bit_eq by (auto dest: bit_imp_le_length)
qed (unfold bit_push_bit_iff, auto)

lemma pte2phy_phy2pte: "page_aligned a \<Longrightarrow> f AND NOT PF_MASK = 0 \<Longrightarrow> pte2phy (phy2pte a f) = a"
proof (rule bit_word_eqI)
  fix n assume a: "page_aligned a" "f AND NOT PF_MASK = 0" "n < LENGTH(64)"
  have "\<not> bit f (n - 2)" if "12 \<le> n"
  proof
    assume "bit f (n - 2)"
    then have "bit (f AND NOT 0x3FF) (n - 2)" unfolding bit_masks using that by simp
    then show False using a(2) by (simp add: PF_MASK_def)
  qed
  then show "bit (pte2phy (phy2pte a f)) n \<longleftrightarrow> bit a n" unfolding pte2phy_def phy2pte_def PF_MASK_def bit_shifted
    using a by (auto simp: aligned_bits not_less)
qed

lemma pde2phy_phy2pde [simp]: "page_aligned a \<Longrightarrow> pde2phy (phy2pde a) = a"
  using pte2phy_phy2pte [of a PF_V] by (simp add: pde2phy_def phy2pde_def pte2phy_def phy2pte_def PF_V_def PF_MASK_def)

lemma ate2phy_phy2ate [simp]: "page_aligned a \<Longrightarrow> ate2phy (phy2ate a) = a"
  using pde2phy_phy2pde [of a] by (simp add: ate2phy_def phy2ate_def pde2phy_def phy2pde_def)

lemma unflag_aligned [simp]: "page_aligned a \<Longrightarrow> unflag a = a"
  by (rule bit_word_eqI) (unfold unflag_def bit_masks, auto simp: aligned_bits not_less)

lemma phy2ate_nonzero: "phy2ate a \<noteq> 0"
proof
  assume "phy2ate a = 0"
  then have "\<not> bit (phy2ate a) 0" by simp
  moreover have "bit (1 :: ulong) 0" by simp
  ultimately show False by (simp add: phy2ate_def PF_V_def bit_or_iff)
qed

lemma phy2pde_valid: "phy2pde a AND PF_V \<noteq> 0" and phy2ate_valid: "phy2ate a AND PF_V \<noteq> 0"
proof -
  have one: "(drop_bit 2 a OR 1) AND 1 = 1" by (rule bit_word_eqI) (auto simp: bit_and_iff bit_or_iff bit_1_iff)
  then show "phy2pde a AND PF_V \<noteq> 0" by (simp add: phy2pde_def PF_V_def del: and_one_eq)
  from one show "phy2ate a AND PF_V \<noteq> 0" by (simp add: phy2ate_def PF_V_def del: and_one_eq)
qed

text \<open>The page \<open>k\<close> from an address on.\<close>

definition page_at :: "addr \<Rightarrow> nat \<Rightarrow> addr" where
  "page_at a k = a + of_nat k * PG_SIZE"

lemma page_at_0 [simp]: "page_at a 0 = a"
  by (simp add: page_at_def)

lemma page_at_Suc: "page_at (a + PG_SIZE) k = page_at a (Suc k)"
  by (simp add: page_at_def algebra_simps)

lemma aligned_page [simp]: "page_aligned a \<Longrightarrow> page_aligned (page_at a k)"
proof -
  assume "page_aligned a"
  have "unat (page_at a k) = (unat a + 4096 * k) mod 2 ^ 64"
    by (simp add: page_at_def PG_SIZE_def unat_word_ariths unsigned_of_nat take_bit_eq_mod mod_simps mult.commute)
  moreover have "(4096 :: nat) dvd 2 ^ 64" by simp
  ultimately show ?thesis using \<open>page_aligned a\<close> unfolding aligned_unat by (metis dvd_add dvd_mod dvd_triv_left)
qed

section \<open>Tables\<close>

lemma rd_table: "is_table t \<Longrightarrow> rd s t i = Some (mm_mem s (entry t i))"
  by (simp add: rd_def is_table_def aligned_7)

lemma wr_table: "is_table t \<Longrightarrow> wr s t i e = Some (s\<lparr>mm_mem := (mm_mem s)(entry t i := e)\<rparr>)"
  by (simp add: wr_def is_table_def aligned_7)

lemma entry_distinct: "is_table t \<Longrightarrow> j < k \<Longrightarrow> k < 512 \<Longrightarrow> entry t k \<noteq> entry t j"
  using entry_inj [of t t k j] by (auto simp: is_table_def)

lemma range_split: "j < n \<Longrightarrow> (\<forall>m. j \<le> m \<and> m < n \<longrightarrow> P m) \<longleftrightarrow> P j \<and> (\<forall>m. Suc j \<le> m \<and> m < n \<longrightarrow> P m)"
  by (auto simp: Suc_le_eq) (metis le_neq_implies_less)

lemma attachable_at_table:
  "is_table t \<Longrightarrow> n \<le> 512 \<Longrightarrow> attachable_at s t j n = Some (\<forall>m. j \<le> m \<and> m < n \<longrightarrow> mm_mem s (entry t m) = 0)"
proof (induction "n - j" arbitrary: j)
  case 0
  then show ?case by (subst attachable_at.simps) auto
next
  case (Suc d)
  then have j: "j < n" "d = n - Suc j" "j mod ENTRIES = j" by (auto simp: ENTRIES_def)
  have "attachable_at s t j n = (if mm_mem s (entry t j) \<noteq> 0 then Some False else attachable_at s t (Suc j) n)"
    using j(1,3) Suc.prems(1) by (subst attachable_at.simps) (simp add: rd_table)
  then show ?case using Suc.hyps(1) [OF j(2) Suc.prems] range_split [OF j(1), of "\<lambda>m. mm_mem s (entry t m) = 0"] by auto
qed

text \<open>The memory \<open>m'\<close> is \<open>m\<close> but for the entries \<open>j\<close> to \<open>n - 1\<close> of a table, which are given by \<open>f\<close>.\<close>

definition entries_set :: "addr \<Rightarrow> nat \<Rightarrow> nat \<Rightarrow> (nat \<Rightarrow> ulong) \<Rightarrow> (addr \<Rightarrow> ulong) \<Rightarrow> (addr \<Rightarrow> ulong) \<Rightarrow> bool" where
  "entries_set t j n f m m' \<longleftrightarrow> (\<forall>k. j \<le> k \<and> k < n \<longrightarrow> m' (entry t k) = f k) \<and> (\<forall>a. (\<forall>k. j \<le> k \<and> k < n \<longrightarrow> a \<noteq> entry t k) \<longrightarrow> m' a = m a)"

lemma entries_set_step:
  assumes "entries_set t (Suc j) n f (m(entry t j := f j)) m'" "j < n" "\<And>k. j < k \<Longrightarrow> k < n \<Longrightarrow> entry t k \<noteq> entry t j"
  shows "entries_set t j n f m m'"
proof -
  have "\<forall>k. Suc j \<le> k \<and> k < n \<longrightarrow> entry t j \<noteq> entry t k" using assms(3) by (metis Suc_le_eq)
  then have "m' (entry t j) = f j" using assms(1) by (simp add: entries_set_def)
  moreover have "\<forall>k. Suc j \<le> k \<and> k < n \<longrightarrow> m' (entry t k) = f k" using assms(1) by (simp add: entries_set_def)
  ultimately have "\<forall>k. j \<le> k \<and> k < n \<longrightarrow> m' (entry t k) = f k" using range_split [OF assms(2), of "\<lambda>k. m' (entry t k) = f k"] by blast
  then show ?thesis using assms(1,2) by (auto simp: entries_set_def)
qed

lemma entries_set_0: "n \<le> j \<Longrightarrow> entries_set t j n f m m"
  by (auto simp: entries_set_def)

lemma entries_set_other:
  assumes "entries_set t j n f m m'" "is_table t" "n \<le> 512" "is_table u" "u \<noteq> t" "k < 512"
  shows "m' (entry u k) = m (entry u k)"
proof -
  have "\<forall>l. j \<le> l \<and> l < n \<longrightarrow> entry u k \<noteq> entry t l"
  proof (intro allI impI notI)
    fix l assume "j \<le> l \<and> l < n" "entry u k = entry t l"
    then show False using entry_inj [of u t k l] assms(2-6) by (auto simp: is_table_def)
  qed
  then show ?thesis using assms(1) by (simp add: entries_set_def)
qed

lemma entries_set_cong: "entries_set t j n f m m' \<Longrightarrow> (\<And>k. j \<le> k \<Longrightarrow> k < n \<Longrightarrow> f k = g k) \<Longrightarrow> entries_set t j n g m m'"
  by (simp add: entries_set_def)

lemma attach_at_table:
  "is_table t \<Longrightarrow> n \<le> 512 \<Longrightarrow> j \<le> n \<Longrightarrow>
   \<exists>m'. attach_at s t pt j n = Some (s\<lparr>mm_mem := m'\<rparr>, page_at pt (n - j)) \<and>
     entries_set t j n (\<lambda>k. phy2ate (page_at pt (k - j))) (mm_mem s) m'"
proof (induction "n - j" arbitrary: j s pt)
  case 0
  then show ?case by (subst attach_at.simps) (auto intro!: exI [of _ "mm_mem s"] entries_set_0)
next
  case (Suc d)
  then have j: "j < n" "d = n - Suc j" "j mod ENTRIES = j" "Suc j \<le> n" by (auto simp: ENTRIES_def)
  let ?s = "s\<lparr>mm_mem := (mm_mem s)(entry t j := phy2ate pt)\<rparr>"
  obtain m' where m': "attach_at ?s t (pt + PG_SIZE) (Suc j) n = Some (?s\<lparr>mm_mem := m'\<rparr>, page_at (pt + PG_SIZE) (n - Suc j))"
    "entries_set t (Suc j) n (\<lambda>k. phy2ate (page_at (pt + PG_SIZE) (k - Suc j))) (mm_mem ?s) m'"
    using Suc.hyps(1) [OF j(2) Suc.prems(1,2) j(4), of ?s "pt + PG_SIZE"] by blast
  have step: "page_at (pt + PG_SIZE) (k - Suc j) = page_at pt (k - j)" if "Suc j \<le> k" for k
    using that by (simp add: page_at_Suc Suc_diff_Suc)
  have "entries_set t (Suc j) n (\<lambda>k. phy2ate (page_at pt (k - j))) ((mm_mem s)(entry t j := phy2ate (page_at pt (j - j)))) m'"
    using entries_set_cong [OF m'(2)] step by simp
  then have "entries_set t j n (\<lambda>k. phy2ate (page_at pt (k - j))) (mm_mem s) m'"
    by (rule entries_set_step) (use j(1) Suc.prems(2) entry_distinct [OF Suc.prems(1)] in auto)
  moreover have "attach_at s t pt j n = attach_at ?s t (pt + PG_SIZE) (Suc j) n"
    using j(1,3) Suc.prems(1) by (subst attach_at.simps) (simp add: wr_table)
  ultimately show ?case using m'(1) step [OF j(4)] by auto
qed

lemma detach_at_table:
  "is_table t \<Longrightarrow> n \<le> 512 \<Longrightarrow> j \<le> n \<Longrightarrow> page_aligned pt \<Longrightarrow> (\<And>k. j \<le> k \<Longrightarrow> k < n \<Longrightarrow> mm_mem s (entry t k) = phy2ate (page_at pt (k - j))) \<Longrightarrow>
   \<exists>m'. detach_at s t pt j n = Some (s\<lparr>mm_mem := m'\<rparr>, page_at pt (n - j), True) \<and> entries_set t j n (\<lambda>k. 0) (mm_mem s) m'"
proof (induction "n - j" arbitrary: j s pt)
  case 0
  then show ?case by (subst detach_at.simps) (auto intro!: exI [of _ "mm_mem s"] entries_set_0)
next
  case (Suc d)
  then have j: "j < n" "d = n - Suc j" "j mod ENTRIES = j" "Suc j \<le> n" by (auto simp: ENTRIES_def)
  let ?s = "s\<lparr>mm_mem := (mm_mem s)(entry t j := 0)\<rparr>"
  have step: "page_at (pt + PG_SIZE) (k - Suc j) = page_at pt (k - j)" if "Suc j \<le> k" for k
    using that by (simp add: page_at_Suc Suc_diff_Suc)
  have al: "page_aligned (pt + PG_SIZE)" using aligned_page [OF Suc.prems(4), of 1] by (simp add: page_at_def)
  have rest: "mm_mem ?s (entry t k) = phy2ate (page_at (pt + PG_SIZE) (k - Suc j))" if "Suc j \<le> k" "k < n" for k
    using Suc.prems(5) [of k] that step [of k] entry_distinct [OF Suc.prems(1), of j k] Suc.prems(2) by simp
  obtain m' where m': "detach_at ?s t (pt + PG_SIZE) (Suc j) n = Some (?s\<lparr>mm_mem := m'\<rparr>, page_at (pt + PG_SIZE) (n - Suc j), True)"
    "entries_set t (Suc j) n (\<lambda>k. 0) (mm_mem ?s) m'"
    using Suc.hyps(1) [OF j(2) Suc.prems(1,2) j(4) al rest] by blast
  have "entries_set t (Suc j) n (\<lambda>k. 0) ((mm_mem s)(entry t j := 0)) m'" using m'(2) by simp
  then have "entries_set t j n (\<lambda>k. 0) (mm_mem s) m'" by (rule entries_set_step) (use j(1) Suc.prems(2) entry_distinct [OF Suc.prems(1)] in auto)
  moreover have "mm_mem s (entry t j) = phy2ate pt" using Suc.prems(5) [of j] j(1) by simp
  then have "detach_at s t pt j n = detach_at ?s t (pt + PG_SIZE) (Suc j) n"
    using j(1,3) Suc.prems(1,4) by (subst detach_at.simps) (simp add: rd_table wr_table)
  ultimately show ?case using m'(1) step [OF j(4)] by auto
qed

section \<open>Free frames\<close>

text \<open>The frames of a run, and the frames \<open>F\<close> that are free: the list holds disjoint runs of whole frames that do not wrap.\<close>

definition run :: "addr \<Rightarrow> nat \<Rightarrow> addr set" where
  "run a n = page_at a ` {..<n}"

definition run_ok :: "addr \<Rightarrow> nat \<Rightarrow> bool" where
  "run_ok a n \<longleftrightarrow> is_table a \<and> unat a + 4096 * n \<le> 2 ^ 64"

definition runs_ok :: "(addr \<Rightarrow> nat) \<Rightarrow> addr list \<Rightarrow> bool" where
  "runs_ok sz as \<longleftrightarrow> (\<forall>a \<in> set as. sz a \<noteq> 0 \<and> run_ok a (sz a)) \<and> (\<forall>a \<in> set as. \<forall>b \<in> set as. a \<noteq> b \<longrightarrow> run a (sz a) \<inter> run b (sz b) = {})"

definition frames_of :: "(addr \<Rightarrow> nat) \<Rightarrow> addr list \<Rightarrow> addr set" where
  "frames_of sz as = (\<Union>a \<in> set as. run a (sz a))"

definition frames_rep :: "mmu \<Rightarrow> addr set \<Rightarrow> bool" where
  "frames_rep s F \<longleftrightarrow> (\<exists>as. list_rep (mm_elems s) (gl_list (mm_free s)) as \<and> (\<forall>a \<in> set as. map_option obj (mm_elems s a) = Some a) \<and>
     runs_ok (\<lambda>a. unat (gsize_of (mm_elems s) a)) as \<and> F = frames_of (\<lambda>a. unat (gsize_of (mm_elems s) a)) as)"

lemma frames_rep_mem [simp]: "frames_rep (s\<lparr>mm_mem := m\<rparr>) F \<longleftrightarrow> frames_rep s F"
  by (simp add: frames_rep_def)

lemma page_at_add: "page_at (page_at a i) j = page_at a (i + j)"
  by (simp add: page_at_def algebra_simps)

lemma unat_page_at: "run_ok a n \<Longrightarrow> k < n \<Longrightarrow> unat (page_at a k) = unat a + 4096 * k"
proof -
  assume "run_ok a n" "k < n"
  then have "unat a + 4096 * k < 2 ^ 64" by (simp add: run_ok_def)
  moreover have "page_at a k = a + of_nat (4096 * k)" by (simp add: page_at_def PG_SIZE_def)
  ultimately show ?thesis by (simp add: unat_word_ariths unsigned_of_nat take_bit_nat_eq_self del: of_nat_mult)
qed

lemma page_at_inj: "run_ok a n \<Longrightarrow> i < n \<Longrightarrow> j < n \<Longrightarrow> page_at a i = page_at a j \<longleftrightarrow> i = j"
  using unat_page_at [of a n i] unat_page_at [of a n j] by (auto simp: word_unat_eq_iff)

lemma run_tables: "run_ok a n \<Longrightarrow> p \<in> run a n \<Longrightarrow> is_table p"
  using unat_page_at [of a n] by (auto simp: run_def run_ok_def is_table_def unat_eq_0_iff [symmetric])

lemma frames_tables: "frames_rep s F \<Longrightarrow> p \<in> F \<Longrightarrow> is_table p"
  by (auto simp: frames_rep_def frames_of_def runs_ok_def intro: run_tables)

lemma run_split:
  assumes "run_ok a n" "k \<le> n"
  shows "run a n = run a (n - k) \<union> run (page_at a (n - k)) k \<and> run a (n - k) \<inter> run (page_at a (n - k)) k = {} \<and>
    (0 < k \<longrightarrow> run_ok (page_at a (n - k)) k) \<and> (k < n \<longrightarrow> run_ok a (n - k))"
proof (intro conjI impI)
  show "run a n = run a (n - k) \<union> run (page_at a (n - k)) k"
  proof -
    have "(\<lambda>j. (n - k) + j) ` {..<k} = {n - k..<n - k + k}" unfolding lessThan_atLeast0 image_add_atLeastLessThan by (simp add: add.commute)
    then have "(\<lambda>j. (n - k) + j) ` {..<k} = {n - k..<n}" using assms(2) by simp
    then have "{..<n} = {..<n - k} \<union> (\<lambda>j. (n - k) + j) ` {..<k}" by auto
    then show ?thesis by (simp add: run_def image_Un image_image page_at_add)
  qed
  show "run a (n - k) \<inter> run (page_at a (n - k)) k = {}"
    using page_at_inj [OF assms(1)] assms(2) by (auto simp: run_def page_at_add)
  show "0 < k \<Longrightarrow> run_ok (page_at a (n - k)) k"
    using unat_page_at [OF assms(1), of "n - k"] assms by (auto simp: run_ok_def is_table_def unat_eq_0_iff [symmetric])
  show "k < n \<Longrightarrow> run_ok a (n - k)" using assms by (auto simp: run_ok_def)
qed

text \<open>What is left of the runs when \<open>k\<close> frames are taken from the end of the run \<open>e\<close>.\<close>

lemma take_run:
  assumes ok: "runs_ok sz as" and dist: "distinct as" and e: "e \<in> set as" and k: "0 < k" "k \<le> sz e"
    and bs: "bs = (if sz e = k then remove1 e as else as)" and sz': "sz' = sz(e := sz e - k)" and p: "p = page_at e (sz e - k)"
  shows "run_ok p k" "run p k \<subseteq> frames_of sz as" "runs_ok sz' bs" "frames_of sz' bs = frames_of sz as - run p k"
proof -
  have as: "\<And>a. a \<in> set as \<Longrightarrow> sz a \<noteq> 0 \<and> run_ok a (sz a)"
    "\<And>a b. a \<in> set as \<Longrightarrow> b \<in> set as \<Longrightarrow> a \<noteq> b \<Longrightarrow> run a (sz a) \<inter> run b (sz b) = {}"
    using ok by (auto simp: runs_ok_def)
  note sp = run_split [OF conjunct2 [OF as(1) [OF e]] k(2), folded p]
  have sb: "set bs \<subseteq> set as" "set as - {e} \<subseteq> set bs" "e \<in> set bs \<longleftrightarrow> sz e \<noteq> k" using dist e by (auto simp: bs)
  have lt: "e \<in> set bs \<Longrightarrow> k < sz e" using sb(3) k(2) by auto
  have sub: "run a (sz' a) \<subseteq> run a (sz a)" for a by (auto simp: run_def sz')
  show "run_ok p k" using sp k(1) by simp
  show "run p k \<subseteq> frames_of sz as" using sp e by (auto simp: frames_of_def)
  have "sz' a \<noteq> 0 \<and> run_ok a (sz' a)" if "a \<in> set bs" for a
    using that as(1) [of a] sb(1) lt sp by (cases "a = e") (auto simp: sz')
  then show "runs_ok sz' bs" using as(2) sb(1) sub unfolding runs_ok_def by blast
  have e': "run e (sz' e) = run e (sz e) - run p k" using sp by (auto simp: sz')
  have other: "run a (sz' a) = run a (sz a) - run p k" if "a \<in> set as" "a \<noteq> e" for a
    using as(2) [OF that(1) e that(2)] sp that(2) by (auto simp: sz')
  have "run e (sz' e) = {}" if "e \<notin> set bs" using that sb(3) by (simp add: sz' run_def)
  then have "frames_of sz' bs = (\<Union>a \<in> set as. run a (sz' a))" using sb(1,2) by (auto simp: frames_of_def)
  also have "\<dots> = frames_of sz as - run p k" unfolding frames_of_def using e' other by auto
  finally show "frames_of sz' bs = frames_of sz as - run p k" .
qed

text \<open>The first run with at least \<open>n\<close> frames; taking frames from its end.\<close>

lemma gl_search_frames:
  "chain h p as 0 \<Longrightarrow> gl_search_size_from PG_SIZE 32 h p n = Some (case find (\<lambda>a. n \<le> gsize_of h a) as of None \<Rightarrow> 0 | Some a \<Rightarrow> a)"
  unfolding PG_SIZE_def
proof (induction as arbitrary: p)
  case Nil
  then show ?case by (simp add: gl_search_size_from.simps)
next
  case (Cons a as)
  then show ?case by (auto simp: gl_search_size_from.simps [of 4096 32 h a] store_simps not_less)
qed

lemma gl_take_frames:
  assumes rep: "list_rep h (gl_list g) as"
    and e_def: "e = (case find (\<lambda>a. n \<le> gsize_of h a) as of None \<Rightarrow> 0 | Some a \<Rightarrow> a)"
  shows "if e = 0 then gl_search_decrementing PG_SIZE 32 h g n = Some (h, g, 0)
    else e \<in> set as \<and> n \<le> gsize_of h e \<and> (\<exists>h' g'. gl_search_decrementing PG_SIZE 32 h g n = Some (h', g', e) \<and>
      list_rep h' (gl_list g') (if gsize_of h e = n then remove1 e as else as) \<and>
      gsize_of h' = (gsize_of h)(e := gsize_of h e - n) \<and> same_obj h h')"
proof -
  have search: "gl_search_size PG_SIZE 32 h g n = Some e"
    using gl_search_frames [of h "dl_head (gl_list g)" as n] rep by (simp add: gl_search_size_def e_def list_rep_def)
  show ?thesis
  proof (cases "e = 0")
    case True
    then show ?thesis using search by (simp add: gl_search_decrementing_def)
  next
    case False
    then obtain "find (\<lambda>a. n \<le> gsize_of h a) as = Some e" by (auto simp: e_def split: option.splits)
    then have e_in: "e \<in> set as" "n \<le> gsize_of h e" by (auto simp: find_Some_iff)
    obtain x where x: "h e = Some x" using list_rep_mapped [OF rep e_in(1)] by blast
    let ?h = "h(e \<mapsto> x\<lparr>gsize := gsize x - n\<rparr>)"
    have rep1: "list_rep ?h (gl_list g) as" using list_rep_gsize [OF rep x] .
    show ?thesis
    proof (cases "gsize x = n")
      case no: False
      then have "gl_search_decrementing PG_SIZE 32 h g n = Some (?h, \<lparr>gl_list = gl_list g, gl_grouped = gl_grouped g - n\<rparr>, e)"
        using search x False by (simp add: gl_search_decrementing_def shrink_def store_simps)
      then show ?thesis using rep1 no x e_in False by auto
    next
      case True
      obtain us vs where as: "as = us @ e # vs" using e_in by (meson split_list)
      have d: "e \<notin> set us" using rep as by (auto simp: list_rep_def)
      obtain h' b where t: "dl_remove ?h (gl_list g) e = Some (h', b, e)" "list_rep h' b (us @ vs)" "dsame_data ?h h'"
        using dl_remove_rep [of ?h "gl_list g" us e vs] rep1 as by auto
      have "gl_search_decrementing PG_SIZE 32 h g n = Some (h', \<lparr>gl_list = b, gl_grouped = gl_grouped g - n\<rparr>, e)"
        using True search x False t(1) by (simp add: gl_search_decrementing_def shrink_def store_simps)
      moreover have "same_obj h h'" using same_obj_trans [OF _ same_obj_dsame [OF t(3)]] x by simp
      ultimately show ?thesis
        using t(2) gsize_of_dsame [OF t(3)] True x as d False e_in by (simp add: remove1_append)
    qed
  qed
qed

text \<open>An allocation takes whole free frames, or finds no run that is long enough.\<close>

lemma mmu_alloc_rep:
  assumes rep: "frames_rep s F" and n: "n \<noteq> 0"
  shows "(mmu_alloc s n = Some (s, 0) \<and> (n = 1 \<longrightarrow> F = {})) \<or>
    (\<exists>s' p. mmu_alloc s n = Some (s', p) \<and> is_table p \<and> run_ok p (unat n) \<and> run p (unat n) \<subseteq> F \<and>
       frames_rep s' (F - run p (unat n)) \<and> mm_mem s' = mm_mem s)"
proof -
  let ?h = "mm_elems s" and ?g = "mm_free s"
  define sz where "sz = (\<lambda>a. unat (gsize_of ?h a))"
  obtain as where as: "list_rep ?h (gl_list ?g) as" "\<forall>a \<in> set as. map_option obj (?h a) = Some a" "runs_ok sz as" "F = frames_of sz as"
    using rep unfolding frames_rep_def sz_def by blast
  define e where "e = (case find (\<lambda>a. n \<le> gsize_of ?h a) as of None \<Rightarrow> 0 | Some a \<Rightarrow> a)"
  note take = gl_take_frames [OF as(1) e_def]
  show ?thesis
  proof (cases "e = 0")
    case True
    have "find (\<lambda>a. n \<le> gsize_of ?h a) as = None"
    proof (rule ccontr)
      assume "find (\<lambda>a. n \<le> gsize_of ?h a) as \<noteq> None"
      then obtain a where "find (\<lambda>a. n \<le> gsize_of ?h a) as = Some a" by blast
      then have "e \<in> set as" by (auto simp: e_def dest: find_Some_iff [THEN iffD1])
      then show False using True list_rep_nonnull [OF as(1)] by simp
    qed
    moreover have "1 \<le> gsize_of ?h a" if "a \<in> set as" for a
      using as(3) that by (auto simp: runs_ok_def sz_def word_le_nat_alt Suc_le_eq)
    ultimately have "n = 1 \<longrightarrow> F = {}" using as(4) by (auto simp: find_None_iff frames_of_def)
    then show ?thesis using take True n by (simp add: mmu_alloc_def)
  next
    case False
    then have e: "e \<in> set as" "n \<le> gsize_of ?h e" using take by auto
    obtain h' g' where t: "gl_search_decrementing PG_SIZE 32 ?h ?g n = Some (h', g', e)"
      "list_rep h' (gl_list g') (if gsize_of ?h e = n then remove1 e as else as)"
      "gsize_of h' = (gsize_of ?h)(e := gsize_of ?h e - n)" "same_obj ?h h'"
      using take False by auto
    obtain x' where x': "h' e = Some x'" "obj x' = e" using same_obj_Some [OF t(4)] as(2) e(1) by force
    then have gx: "gsize x' = gsize_of ?h e - n" using t(3) by (metis fun_upd_same gsize_of_Some)
    define k where "k = unat n"
    have k: "0 < k" "k \<le> sz e" using e(2) n by (simp_all add: k_def sz_def word_le_nat_alt unat_gt_0)
    have sub: "unat (gsize_of ?h e - n) = sz e - k" using e(2) by (simp add: k_def sz_def unat_sub)
    define p where "p = page_at e (sz e - k)"
    define bs where "bs = (if sz e = k then remove1 e as else as)"
    have dist: "distinct as" using as(1) by (simp add: list_rep_def)
    have sz': "(\<lambda>a. unat (gsize_of h' a)) = sz(e := sz e - k)" using t(3) sub by (auto simp: sz_def)
    note taken = take_run [OF as(3) dist e(1) k bs_def sz' p_def]
    have "list_rep h' (gl_list g') bs" using t(2) by (simp only: bs_def sz_def k_def word_unat_eq_iff)
    moreover have "\<forall>a \<in> set bs. map_option obj (h' a) = Some a"
      using as(2) t(4) set_remove1_subset [of e as] by (auto simp: same_obj_def bs_def)
    ultimately have "frames_rep (s\<lparr>mm_elems := h', mm_free := g'\<rparr>) (F - run p k)"
      using taken(3,4) as(4) by (auto simp: frames_rep_def)
    moreover have "mmu_alloc s n = Some (s\<lparr>mm_elems := h', mm_free := g'\<rparr>, p)"
      using t(1) False x' n gx by (simp add: mmu_alloc_def store_simps p_def page_at_def flip: sub)
    ultimately show ?thesis using taken(1,2) as(4) by (auto simp: k_def run_ok_def)
  qed
qed

lemma clear_frames_entry: "is_table p \<Longrightarrow> i < 512 \<Longrightarrow> clear_frames p 1 m (entry p i) = 0"
proof -
  assume i: "i < 512"
  have "entry p i - p = of_nat (8 * i)" by (simp add: entry_def)
  moreover have "(of_nat (8 * i) :: ulong) < 4096" using i by (simp add: word_less_nat_alt unsigned_of_nat take_bit_nat_eq_self del: of_nat_mult)
  ultimately show ?thesis by (simp add: clear_frames_def PG_SIZE_def del: of_nat_mult)
qed

lemma clear_frames_other: "is_table p \<Longrightarrow> is_table t \<Longrightarrow> p \<noteq> t \<Longrightarrow> i < 512 \<Longrightarrow> clear_frames p 1 m (entry t i) = m (entry t i)"
proof -
  assume a: "is_table p" "is_table t" "p \<noteq> t" "i < 512"
  obtain x where x: "unat p = 4096 * x" using a(1) unfolding is_table_def aligned_unat by (elim conjE dvdE)
  obtain y where y: "unat t = 4096 * y" using a(2) unfolding is_table_def aligned_unat by (elim conjE dvdE)
  have "\<not> entry t i - p < 4096"
  proof
    assume lt: "entry t i - p < 4096"
    define d where "d = unat (entry t i - p)"
    have d: "d < 4096" using lt by (simp add: d_def word_less_nat_alt)
    have "entry t i = p + of_nat d" by (simp add: d_def)
    then have "unat (entry t i) = unat p + d" using unat_offset [of p d] a(1) d by (simp add: is_table_def)
    then have "4096 * y + 8 * i = 4096 * x + d" using unat_entry [of t i] a(2,4) x y by (simp add: is_table_def)
    moreover have "(4096 * y + 8 * i) div 4096 = y" "(4096 * x + d) div 4096 = x" using a(4) d by simp_all
    ultimately have "x = y" by simp
    then show False using x y a(3) by (simp add: word_unat_eq_iff)
  qed
  then show ?thesis by (simp add: clear_frames_def PG_SIZE_def)
qed

section \<open>Directories\<close>

text \<open>
  A valid entry of an upper level that is readable, writable or executable is a leaf: it maps a page of 1 GB or of 2 MB. The flat
  memory of the setup is made of such pages, and every directory has copies of them outside the application's part.
\<close>

definition leaf :: "ulong \<Rightarrow> bool" where
  "leaf e \<longleftrightarrow> e AND (PF_R OR PF_W OR PF_X) \<noteq> 0"

text \<open>An entry of a directory: a page of 1 GB (\<open>h\<close>), a pointer to the attacher \<open>p\<close>, or neither.\<close>

definition pd_entry :: "ulong \<Rightarrow> ulong \<Rightarrow> addr \<Rightarrow> bool" where
  "pd_entry e h p \<longleftrightarrow>
     (if h \<noteq> 0 then p = 0 \<and> e = h \<and> h AND PF_V \<noteq> 0 \<and> leaf h
      else pde2phy e = p \<and> (if p = 0 then e AND PF_V = 0 else e AND PF_V \<noteq> 0 \<and> \<not> leaf e))"

text \<open>
  A directory at \<open>pd\<close> with the pages of 1 GB \<open>hp\<close>, the attachers \<open>at\<close> (0 where there is none) and the entries \<open>S i j\<close> in
  them. Its tables are frames of their own.
\<close>

definition dir_rep :: "mmu \<Rightarrow> addr \<Rightarrow> (nat \<Rightarrow> ulong) \<Rightarrow> (nat \<Rightarrow> addr) \<Rightarrow> (nat \<Rightarrow> nat \<Rightarrow> ulong) \<Rightarrow> bool" where
  "dir_rep s pd hp at S \<longleftrightarrow> is_table pd \<and>
     (\<forall>i < 512. pd_entry (mm_mem s (entry pd i)) (hp i) (at i) \<and> at i \<noteq> pd \<and> page_aligned (at i) \<and> (at i \<noteq> 0 \<longrightarrow> (\<forall>j < 512. mm_mem s (entry (at i) j) = S i j)) \<and>
        (at i = 0 \<longrightarrow> (\<forall>j < 512. S i j = 0))) \<and>
     (\<forall>i < 512. \<forall>k < 512. at i = at k \<longrightarrow> at i \<noteq> 0 \<longrightarrow> i = k)"

text \<open>The frames the directory uses.\<close>

definition dir_frames :: "addr \<Rightarrow> (nat \<Rightarrow> addr) \<Rightarrow> addr set" where
  "dir_frames pd at = insert pd (at ` {..<512} - {0})"

lemma dir_frames_at: "i < 512 \<Longrightarrow> at i \<noteq> 0 \<Longrightarrow> at i \<in> dir_frames pd at"
  by (auto simp: dir_frames_def)

lemma dir_tables: "dir_rep s pd hp at S \<Longrightarrow> i < 512 \<Longrightarrow> at i \<noteq> 0 \<Longrightarrow> is_table (at i)"
  by (auto simp: dir_rep_def is_table_def)

lemma dir_rd:
  assumes "dir_rep s pd hp at S" "i < 512" "hp i = 0"
  shows "\<exists>e. rd s pd i = Some e \<and> pde2phy e = at i"
  using assms by (simp add: dir_rep_def pd_entry_def rd_table)

lemma dir_no_page: "dir_rep s pd hp at S \<Longrightarrow> i < 512 \<Longrightarrow> at i \<noteq> 0 \<Longrightarrow> hp i = 0"
  by (auto simp: dir_rep_def pd_entry_def split: if_splits)

lemma table_bits: "page_aligned p \<Longrightarrow> 0 < n \<Longrightarrow> n < 10 \<Longrightarrow> \<not> bit (drop_bit 2 p OR PF_V) n"
proof -
  assume p: "page_aligned p" and n: "0 < n" "n < 10"
  have v: "PF_V = 2 ^ 0" by (simp add: PF_V_def)
  have "2 + n < 12" using n by simp
  then have "\<not> bit p (2 + n)" using p by (simp add: aligned_bits)
  then show "\<not> bit (drop_bit 2 p OR PF_V) n" unfolding v using n by (simp add: bit_or_iff bit_drop_bit_eq bit_exp_iff bit_1_iff)
qed

lemma leaf_bits: "leaf e \<longleftrightarrow> bit e 1 \<or> bit e 2 \<or> bit e 3"
proof -
  have e: "PF_R = 2 ^ 1" "PF_W = 2 ^ 2" "PF_X = 2 ^ 3" by (simp_all add: PF_R_def PF_W_def PF_X_def)
  have "bit PF_R n \<longleftrightarrow> n = 1" "bit PF_W n \<longleftrightarrow> n = 2" "bit PF_X n \<longleftrightarrow> n = 3" for n
    by (simp only: e(1) bit_exp_iff, force, simp only: e(2) bit_exp_iff, force, simp only: e(3) bit_exp_iff, force)
  then have r: "bit (PF_R OR PF_W OR PF_X) n \<longleftrightarrow> n = 1 \<or> n = 2 \<or> n = 3" for n by (auto simp: bit_or_iff)
  have "x \<noteq> 0 \<longleftrightarrow> (\<exists>n. bit x n)" for x :: ulong by (metis bit_0_eq bot_apply bot_bool_def bit_eqI)
  then show ?thesis unfolding leaf_def by (auto simp: bit_and_iff r)
qed

lemma phy2pde_table: "page_aligned p \<Longrightarrow> \<not> leaf (phy2pde p)" and phy2ate_table: "page_aligned p \<Longrightarrow> \<not> leaf (phy2ate p)"
  by (simp_all add: leaf_bits phy2pde_def phy2ate_def table_bits)

text \<open>Setting entries of one attacher.\<close>

lemma dir_rep_set:
  assumes rep: "dir_rep s pd hp at S" and i: "i < 512" "at i \<noteq> 0" and n: "n \<le> 512" and m': "entries_set (at i) j n f (mm_mem s) m'"
  shows "dir_rep (s\<lparr>mm_mem := m'\<rparr>) pd hp at (\<lambda>i' k. if i' = i \<and> j \<le> k \<and> k < n then f k else S i' k)"
proof -
  have t: "is_table (at i)" using dir_tables [OF rep i] .
  have same: "m' (entry t' k) = mm_mem s (entry t' k)" if "is_table t'" "k < 512" "t' \<noteq> at i \<or> \<not> (j \<le> k \<and> k < n)" for t' k
  proof -
    have "\<forall>l. j \<le> l \<and> l < n \<longrightarrow> entry t' k \<noteq> entry (at i) l"
    proof (intro allI impI notI)
      fix l assume l: "j \<le> l \<and> l < n" "entry t' k = entry (at i) l"
      then have "t' = at i \<and> k = l" using entry_inj [of t' "at i" k l] that(1,2) t n by (auto simp: is_table_def)
      then show False using l(1) that(3) by blast
    qed
    then show ?thesis using m' by (simp add: entries_set_def)
  qed
  have pd: "is_table pd" "\<And>k. k < 512 \<Longrightarrow> at k \<noteq> pd" using rep by (auto simp: dir_rep_def)
  have set: "m' (entry (at i) k) = f k" if "j \<le> k" "k < n" for k using m' that by (simp add: entries_set_def)
  show ?thesis unfolding dir_rep_def
  proof (intro conjI allI impI)
    fix i' :: nat assume i': "i' < 512"
    show "pd_entry (mm_mem (s\<lparr>mm_mem := m'\<rparr>) (entry pd i')) (hp i') (at i')"
      using same [OF pd(1) i'] pd(2) [OF i(1)] rep i' by (simp add: dir_rep_def)
    show "at i' \<noteq> pd" using pd(2) [OF i'] .
    show "page_aligned (at i')" using rep i' by (simp add: dir_rep_def)
    fix k :: nat assume k: "k < 512"
    show "mm_mem (s\<lparr>mm_mem := m'\<rparr>) (entry (at i') k) = (if i' = i \<and> j \<le> k \<and> k < n then f k else S i' k)" if "at i' \<noteq> 0"
    proof (cases "i' = i \<and> j \<le> k \<and> k < n")
      case False
      then have "at i' \<noteq> at i \<or> \<not> (j \<le> k \<and> k < n)" using rep i i' by (auto simp: dir_rep_def)
      then show ?thesis using False same [OF dir_tables [OF rep i' that] k] rep i' that k by (auto simp: dir_rep_def)
    qed (use set in simp)
    show "(if i' = i \<and> j \<le> k \<and> k < n then f k else S i' k) = 0" if "at i' = 0"
      using rep i' k that i(2) by (auto simp: dir_rep_def)
  qed (use rep in \<open>auto simp: dir_rep_def\<close>)
qed

text \<open>Giving the directory a new attacher.\<close>

lemma dir_rep_new:
  assumes rep: "dir_rep s pd hp at S" and i: "i < 512" "at i = 0" "hp i = 0" and p: "is_table p" "p \<notin> dir_frames pd at"
    and m': "m' = (clear_frames p 1 (mm_mem s))(entry pd i := phy2pde p)"
  shows "dir_rep (s\<lparr>mm_mem := m'\<rparr>) pd hp (at(i := p)) S"
proof -
  have pd: "is_table pd" "p \<noteq> pd" using rep p by (auto simp: dir_rep_def dir_frames_def)
  have fresh: "p \<noteq> at k" if "k < 512" for k using p that by (auto simp: dir_frames_def is_table_def)
  have old: "m' (entry t k) = mm_mem s (entry t k)" if "is_table t" "t \<noteq> p" "k < 512" "t = pd \<longrightarrow> k \<noteq> i" for t k
  proof -
    have "entry t k \<noteq> entry pd i" using entry_inj [of t pd k i] that pd(1) i(1) by (auto simp: is_table_def)
    then show ?thesis using clear_frames_other [OF p(1) that(1) _ that(3)] that(2) by (simp add: m')
  qed
  have new: "m' (entry p k) = 0" if "k < 512" for k
  proof -
    have "entry p k \<noteq> entry pd i" using entry_inj [of p pd k i] that pd p(1) i(1) by (auto simp: is_table_def)
    then show ?thesis using clear_frames_entry [OF p(1) that] by (simp add: m')
  qed
  show ?thesis unfolding dir_rep_def
  proof (intro conjI allI impI)
    fix k :: nat assume k: "k < 512"
    show "pd_entry (mm_mem (s\<lparr>mm_mem := m'\<rparr>) (entry pd k)) (hp k) ((at(i := p)) k)"
    proof (cases "k = i")
      case True
      then show ?thesis using p(1) i(3) phy2pde_table [of p] phy2pde_valid [of p] by (simp add: m' is_table_def pd_entry_def)
    next
      case False
      then show ?thesis using old [OF pd(1) _ k] pd(2) rep k by (auto simp: dir_rep_def)
    qed
    show "page_aligned ((at(i := p)) k)" using rep k p(1) by (auto simp: dir_rep_def is_table_def)
    show "(at(i := p)) k \<noteq> pd" using rep k pd(2) by (auto simp: dir_rep_def)
    fix j :: nat assume j: "j < 512"
    show "mm_mem (s\<lparr>mm_mem := m'\<rparr>) (entry ((at(i := p)) k) j) = S k j" if "(at(i := p)) k \<noteq> 0"
    proof (cases "k = i")
      case True
      then show ?thesis using new [OF j] rep i j by (simp add: dir_rep_def)
    next
      case False
      then have "at k \<noteq> 0" "at k \<noteq> p" "at k \<noteq> pd" using that fresh [OF k] rep k by (auto simp: dir_rep_def)
      then show ?thesis using old [OF dir_tables [OF rep k] _ j] False rep k j by (auto simp: dir_rep_def)
    qed
    show "S k j = 0" if "(at(i := p)) k = 0"
      using that rep k j p(1) by (cases "k = i") (auto simp: dir_rep_def is_table_def)
  next
    fix k l :: nat assume "k < 512" "l < 512" "(at(i := p)) k = (at(i := p)) l" "(at(i := p)) k \<noteq> 0"
    then show "k = l" using rep fresh by (auto simp: dir_rep_def split: if_splits)
  qed (use pd(1) in simp)
qed

section \<open>Attaching and detaching\<close>

text \<open>A chunk with its page tables, and an address where these fit into one attacher.\<close>

definition chunk_ok :: "chunk \<Rightarrow> bool" where
  "chunk_ok c \<longleftrightarrow> is_table (ch_pt c) \<and> ch_from c < ch_to c \<and> ch_pts c = pts_of (ch_to c - ch_from c)"

definition fits_at :: "chunk \<Rightarrow> addr \<Rightarrow> bool" where
  "fits_at c addr \<longleftrightarrow> align_segment addr = addr \<and> ati addr + ch_pts c \<le> 512"

text \<open>The entries with the chunk at the address.\<close>

definition with_chunk :: "chunk \<Rightarrow> addr \<Rightarrow> (nat \<Rightarrow> nat \<Rightarrow> ulong) \<Rightarrow> nat \<Rightarrow> nat \<Rightarrow> ulong" where
  "with_chunk c addr S = (\<lambda>i k. if i = pdi addr \<and> ati addr \<le> k \<and> k < ati addr + ch_pts c
     then phy2ate (page_at (ch_pt c) (k - ati addr)) else S i k)"

definition without_chunk :: "chunk \<Rightarrow> addr \<Rightarrow> (nat \<Rightarrow> nat \<Rightarrow> ulong) \<Rightarrow> nat \<Rightarrow> nat \<Rightarrow> ulong" where
  "without_chunk c addr S = (\<lambda>i k. if i = pdi addr \<and> ati addr \<le> k \<and> k < ati addr + ch_pts c then 0 else S i k)"

definition room_at :: "chunk \<Rightarrow> addr \<Rightarrow> (nat \<Rightarrow> nat \<Rightarrow> ulong) \<Rightarrow> bool" where
  "room_at c addr S \<longleftrightarrow> (\<forall>k. ati addr \<le> k \<and> k < ati addr + ch_pts c \<longrightarrow> S (pdi addr) k = 0)"

lemma and_1FF: "unat (x AND 0x1FF) < 512" for x :: ulong
proof -
  have "x AND 0x1FF = take_bit 9 x" by (simp add: take_bit_eq_mask mask_eq_exp_minus_1)
  then show ?thesis using unat_take_bit [of 9 x] by simp
qed

lemma pdi_less [simp]: "pdi a < 512" and ati_less [simp]: "ati a < 512" and pti_less [simp]: "pti a < 512"
  by (simp_all add: pdi_def ati_def pti_def and_1FF)

lemma chunk_pts: "chunk_ok c \<Longrightarrow> 0 < ch_pts c" "chunk_ok c \<Longrightarrow> ch_to c - ch_from c \<le> ch_pts c * 512"
  by (auto simp: chunk_ok_def pts_of_def)

lemma ats_one: "0 < n \<Longrightarrow> n \<le> 512 \<Longrightarrow> ats_of n = 1"
  unfolding ats_of_def by (rule div_nat_eqI) simp_all

lemma size_guard:
  assumes "pdi addr * 2 ^ 30 + ati addr * 2 ^ 21 + (ch_to c - ch_from c) * 4096 \<le> 2 ^ 39"
  shows "\<not> PD_SPAN - (push_bit 30 (of_nat (pdi addr)) + push_bit 21 (of_nat (ati addr))) < chunk_size c"
proof -
  let ?i = "pdi addr" and ?j = "ati addr" and ?n = "ch_to c - ch_from c"
  have le: "?i * 2 ^ 30 + ?j * 2 ^ 21 \<le> 2 ^ 39" using assms by linarith
  have e1: "push_bit 30 (of_nat ?i) + push_bit 21 (of_nat ?j) = (of_nat (?i * 2 ^ 30 + ?j * 2 ^ 21) :: ulong)"
    by (simp add: push_bit_eq_mult)
  have e2: "PD_SPAN = of_nat (2 ^ 39)" by (simp add: PD_SPAN_def)
  have e3: "chunk_size c = of_nat (?n * 4096)" by (simp add: chunk_size_def PG_SIZE_def)
  have u1: "unat (of_nat (2 ^ 39) - of_nat (?i * 2 ^ 30 + ?j * 2 ^ 21) :: ulong) = 2 ^ 39 - (?i * 2 ^ 30 + ?j * 2 ^ 21)"
  proof -
    have "(of_nat (2 ^ 39) - of_nat (?i * 2 ^ 30 + ?j * 2 ^ 21) :: ulong) = of_nat (2 ^ 39 - (?i * 2 ^ 30 + ?j * 2 ^ 21))"
      using le by (simp only: of_nat_diff)
    moreover have "2 ^ 39 - (?i * 2 ^ 30 + ?j * 2 ^ 21) < (2 :: nat) ^ 64" by (rule le_less_trans [OF diff_le_self]) simp
    ultimately show ?thesis by (simp only: unsigned_of_nat) (simp add: take_bit_nat_eq_self del: of_nat_diff)
  qed
  have u2: "unat (of_nat (?n * 4096) :: ulong) \<le> ?n * 4096"
    by (simp add: unsigned_of_nat take_bit_nat_less_eq_self del: of_nat_mult)
  show ?thesis unfolding word_less_nat_alt e1 e2 e3 u1 using u2 assms by linarith
qed

lemma fits_guard:
  assumes "chunk_ok c" "fits_at c addr"
  shows "\<not> PD_SPAN - (push_bit 30 (of_nat (pdi addr)) + push_bit 21 (of_nat (ati addr))) < chunk_size c"
proof (rule size_guard)
  have "ch_to c - ch_from c \<le> (512 - ati addr) * 512" using chunk_pts [OF assms(1)] assms(2) by (auto simp: fits_at_def)
  then have "(ch_to c - ch_from c) * 4096 \<le> 2 ^ 30 - ati addr * 2 ^ 21" by simp
  moreover have "pdi addr \<le> 511" "ati addr \<le> 511" using pdi_less [of addr] ati_less [of addr] by linarith+
  then have "pdi addr * 2 ^ 30 + 2 ^ 30 \<le> 2 ^ 39" "ati addr * 2 ^ 21 \<le> 2 ^ 30" by simp_all
  ultimately show "pdi addr * 2 ^ 30 + ati addr * 2 ^ 21 + (ch_to c - ch_from c) * 4096 \<le> 2 ^ 39" by linarith
qed

lemma attachable_iff:
  assumes rep: "dir_rep s pd hp at S" and c: "chunk_ok c" and fit: "fits_at c addr" and hp: "hp (pdi addr) = 0"
  shows "attachable s pd addr (ch_pts c) = Some (room_at c addr S)"
proof -
  let ?i = "pdi addr"
  obtain e where e: "rd s pd ?i = Some e" "pde2phy e = at ?i" using dir_rd [OF rep pdi_less hp] by blast
  have n: "ati addr + ch_pts c \<le> 512" using fit by (simp add: fits_at_def)
  have one: "ats_of (ch_pts c) = 1" using chunk_pts(1) [OF c] n by (intro ats_one) auto
  have none: "at ?i = 0 \<Longrightarrow> room_at c addr S" using rep n by (auto simp: dir_rep_def room_at_def)
  have some: "at ?i \<noteq> 0 \<Longrightarrow> attachable_at s (at ?i) (ati addr) (ati addr + ch_pts c) = Some (room_at c addr S)"
    using attachable_at_table [OF dir_tables [OF rep pdi_less] n, of addr s "ati addr"] rep n by (auto simp: dir_rep_def room_at_def)
  show ?thesis unfolding attachable_def one
    using e none some by (subst attachable_from.simps, subst attachable_from.simps) auto
qed

text \<open>The attacher of the address, which \<open>attach\<close> makes when there is none.\<close>

lemma attacher_rep:
  assumes rep: "dir_rep s pd hp at S" and F: "frames_rep s F" "F \<inter> dir_frames pd at = {}" and i: "i < 512" "hp i = 0" and free: "at i \<noteq> 0 \<or> F \<noteq> {}"
    and e: "rd s pd i = Some e"
  shows "\<exists>s1 at1 F1. (if pde2phy e = 0 then do { (s, at) \<leftarrow> mmu_calloc s 1; s \<leftarrow> wr s pd i (phy2pde at); Some (s, at) } else Some (s, pde2phy e)) =
      Some (s1, at1 i) \<and> at1 i \<noteq> 0 \<and> dir_rep s1 pd hp at1 S \<and> frames_rep s1 F1 \<and> F1 \<subseteq> F \<and> F1 \<inter> dir_frames pd at1 = {} \<and>
      dir_frames pd at1 \<subseteq> dir_frames pd at \<union> F \<and>
      (\<forall>t k. is_table t \<longrightarrow> t \<notin> dir_frames pd at1 \<longrightarrow> k < 512 \<longrightarrow> mm_mem s1 (entry t k) = mm_mem s (entry t k))"
proof (cases "at i = 0")
  case False
  then show ?thesis using rep F i e dir_rd [OF rep i(1,2)] by auto
next
  case True
  have pd: "is_table pd" using rep by (simp add: dir_rep_def)
  have e0: "pde2phy e = 0" using dir_rd [OF rep i(1,2)] e True by auto
  have "F \<noteq> {}" using free True by blast
  then obtain s' p where p: "mmu_alloc s 1 = Some (s', p)" "is_table p" "run_ok p 1" "run p 1 \<subseteq> F" "frames_rep s' (F - run p 1)" "mm_mem s' = mm_mem s"
    using mmu_alloc_rep [OF F(1), of 1] by auto
  have run1: "run p 1 = {p}" by (auto simp: run_def lessThan_Suc)
  have p_new: "p \<notin> dir_frames pd at" using p(4) run1 F(2) by auto
  define m' where "m' = (clear_frames p 1 (mm_mem s))(entry pd i := phy2pde p)"
  have d: "dir_rep (s'\<lparr>mm_mem := m'\<rparr>) pd hp (at(i := p)) S"
  proof -
    have "dir_rep s' pd hp at S" using rep p(6) by (simp add: dir_rep_def)
    then show ?thesis using True i p(2) p_new p(6) by (intro dir_rep_new) (auto simp: m'_def)
  qed
  have frames: "dir_frames pd (at(i := p)) \<subseteq> insert p (dir_frames pd at)" "p \<in> dir_frames pd (at(i := p))"
    using i p(2) by (auto simp: dir_frames_def is_table_def)
  have "m' (entry t k) = mm_mem s (entry t k)" if "is_table t" "t \<notin> dir_frames pd (at(i := p))" "k < 512" for t k
  proof -
    have "t \<noteq> p" "t \<noteq> pd" using that(2) frames(2) by (auto simp: dir_frames_def)
    moreover have "entry t k \<noteq> entry pd i" using entry_inj [of t pd k i] that pd i \<open>t \<noteq> pd\<close> by (auto simp: is_table_def)
    ultimately show ?thesis using clear_frames_other [OF p(2) that(1) _ that(3)] by (simp add: m'_def)
  qed
  moreover have "mmu_calloc s 1 = Some (s'\<lparr>mm_mem := clear_frames p 1 (mm_mem s)\<rparr>, p)"
    using p(1,2,6) by (simp add: mmu_calloc_def is_table_def)
  ultimately show ?thesis using d e0 p run1 frames pd F(2) p_new
    by (intro exI [of _ "s'\<lparr>mm_mem := m'\<rparr>"] exI [of _ "at(i := p)"] exI [of _ "F - {p}"]) (auto simp: wr_table m'_def is_table_def)
qed

lemma attach_free:
  assumes rep: "dir_rep s pd hp at S" and F: "frames_rep s F" "F \<inter> dir_frames pd at = {}" and c: "chunk_ok c" and fit: "fits_at c addr"
    and hp: "hp (pdi addr) = 0" and free: "at (pdi addr) \<noteq> 0 \<or> F \<noteq> {}" and room: "room_at c addr S"
  shows "\<exists>s' at' F'. dir_attach_at s pd c addr = Some (s', addr) \<and> dir_rep s' pd hp at' (with_chunk c addr S) \<and> frames_rep s' F' \<and> F' \<subseteq> F \<and>
    F' \<inter> dir_frames pd at' = {} \<and> dir_frames pd at' \<subseteq> dir_frames pd at \<union> F \<and>
    (\<forall>t k. is_table t \<longrightarrow> t \<notin> dir_frames pd at' \<longrightarrow> k < 512 \<longrightarrow> mm_mem s' (entry t k) = mm_mem s (entry t k))"
proof -
  let ?i = "pdi addr" and ?j = "ati addr" and ?n = "ati addr + ch_pts c"
  obtain e where e: "rd s pd ?i = Some e" using dir_rd [OF rep pdi_less hp] by blast
  obtain s1 at1 F1 where s1: "(if pde2phy e = 0 then do { (s, at) \<leftarrow> mmu_calloc s 1; s \<leftarrow> wr s pd ?i (phy2pde at); Some (s, at) } else Some (s, pde2phy e)) =
      Some (s1, at1 ?i)" "at1 ?i \<noteq> 0" "dir_rep s1 pd hp at1 S" "frames_rep s1 F1" "F1 \<subseteq> F" "F1 \<inter> dir_frames pd at1 = {}"
      "dir_frames pd at1 \<subseteq> dir_frames pd at \<union> F"
      "\<And>t k. is_table t \<Longrightarrow> t \<notin> dir_frames pd at1 \<Longrightarrow> k < 512 \<Longrightarrow> mm_mem s1 (entry t k) = mm_mem s (entry t k)"
    using attacher_rep [OF rep F pdi_less hp free e] by blast
  have n: "?n \<le> 512" using fit by (simp add: fits_at_def)
  have one: "ats_of (ch_pts c) = 1" using chunk_pts(1) [OF c] n by (intro ats_one) auto
  have t1: "is_table (at1 ?i)" using dir_tables [OF s1(3) pdi_less s1(2)] .
  obtain m' where m': "attach_at s1 (at1 ?i) (ch_pt c) ?j ?n = Some (s1\<lparr>mm_mem := m'\<rparr>, page_at (ch_pt c) (?n - ?j))"
    "entries_set (at1 ?i) ?j ?n (\<lambda>k. phy2ate (page_at (ch_pt c) (k - ?j))) (mm_mem s1) m'"
    using attach_at_table [OF t1 n, of ?j s1 "ch_pt c"] by auto
  let ?s' = "s1\<lparr>mm_mem := m'\<rparr>"
  have "attach_from s pd addr (ch_pt c) (ch_pts c) ?i (?i + 1) = Some ?s'"
    using e s1(1) m'(1) by (subst attach_from.simps, subst attach_from.simps) (simp split: if_splits)
  then have "dir_attach_at s pd c addr = Some (?s', addr)"
    using attachable_iff [OF rep c fit hp] room fits_guard [OF c fit] fit by (simp add: dir_attach_at_def fits_at_def one)
  moreover have "dir_rep ?s' pd hp at1 (with_chunk c addr S)"
    using dir_rep_set [OF s1(3) pdi_less s1(2) n m'(2)] by (simp add: with_chunk_def)
  moreover have "mm_mem ?s' (entry t k) = mm_mem s (entry t k)" if "is_table t" "t \<notin> dir_frames pd at1" "k < 512" for t k
  proof -
    have "t \<noteq> at1 ?i" using that(2) dir_frames_at [of "pdi addr" at1 pd] s1(2) by (metis pdi_less)
    then show ?thesis using entries_set_other [OF m'(2) t1 n that(1) _ that(3)] s1(8) [OF that] by simp
  qed
  ultimately show ?thesis using s1(4-7) by (intro exI [of _ ?s'] exI [of _ at1] exI [of _ F1]) auto
qed

lemma detach_present:
  assumes rep: "dir_rep s pd hp at S" and c: "chunk_ok c" and fit: "fits_at c addr"
    and present: "with_chunk c addr S = S"
  shows "\<exists>s'. dir_detach_at s pd c addr = Some (s', addr) \<and> dir_rep s' pd hp at (without_chunk c addr S) \<and> mm_elems s' = mm_elems s \<and> mm_free s' = mm_free s \<and>
    (\<forall>t k. is_table t \<longrightarrow> t \<notin> dir_frames pd at \<longrightarrow> k < 512 \<longrightarrow> mm_mem s' (entry t k) = mm_mem s (entry t k))"
proof -
  let ?i = "pdi addr" and ?j = "ati addr" and ?n = "ati addr + ch_pts c"
  have n: "?n \<le> 512" using fit by (simp add: fits_at_def)
  have one: "ats_of (ch_pts c) = 1" using chunk_pts(1) [OF c] n by (intro ats_one) auto
  have S: "S ?i k = phy2ate (page_at (ch_pt c) (k - ?j))" if "?j \<le> k" "k < ?n" for k
    using fun_cong [OF fun_cong [OF present], of ?i k] that by (simp add: with_chunk_def)
  have at: "at ?i \<noteq> 0"
  proof
    assume "at ?i = 0"
    then have "S ?i ?j = 0" using rep by (simp add: dir_rep_def)
    then show False using S [of ?j] chunk_pts(1) [OF c] phy2ate_nonzero [of "ch_pt c"] by simp
  qed
  have t: "is_table (at ?i)" using dir_tables [OF rep pdi_less at] .
  obtain e where e: "rd s pd ?i = Some e" "pde2phy e = at ?i" using dir_rd [OF rep pdi_less dir_no_page [of s pd hp at S, OF rep pdi_less at]] by blast
  have mem: "mm_mem s (entry (at ?i) k) = phy2ate (page_at (ch_pt c) (k - ?j))" if "?j \<le> k" "k < ?n" for k
    using rep S [OF that] that n at by (simp add: dir_rep_def)
  obtain m' where m': "detach_at s (at ?i) (ch_pt c) ?j ?n = Some (s\<lparr>mm_mem := m'\<rparr>, page_at (ch_pt c) (?n - ?j), True)"
    "entries_set (at ?i) ?j ?n (\<lambda>k. 0) (mm_mem s) m'"
    using detach_at_table [OF t n _ _ mem] c by (auto simp: chunk_ok_def is_table_def)
  have "dir_detach_at s pd c addr = Some (s\<lparr>mm_mem := m'\<rparr>, addr)"
    unfolding dir_detach_at_def one using e m'(1) at by (subst detach_from.simps, subst detach_from.simps) simp
  moreover have "dir_rep (s\<lparr>mm_mem := m'\<rparr>) pd hp at (without_chunk c addr S)"
    using dir_rep_set [OF rep pdi_less at n m'(2)] by (simp add: without_chunk_def)
  moreover have "m' (entry t' k) = mm_mem s (entry t' k)" if "is_table t'" "t' \<notin> dir_frames pd at" "k < 512" for t' k
    using entries_set_other [OF m'(2) t n that(1) _ that(3)] that(2) dir_frames_at [of "pdi addr" at pd] at by (metis pdi_less)
  ultimately show ?thesis by simp
qed

section \<open>What the processor sees\<close>

text \<open>
  The walk of SV39 for a canonical address: the entry that maps it and the size of its page, as a power of two. A valid entry of an
  upper level that is no leaf points to the next table; an entry of a page table is valid and a leaf.
\<close>

definition page_entry :: "ulong \<Rightarrow> (ulong \<times> nat) option" where
  "page_entry e = (if e AND PF_V = 0 \<or> \<not> leaf e then None else Some (e, 12))"

definition sv39_walk :: "mmu \<Rightarrow> addr \<Rightarrow> addr \<Rightarrow> (ulong \<times> nat) option" where
  "sv39_walk s pd addr =
     (let pde = mm_mem s (entry pd (pdi addr)); ate = mm_mem s (entry (pde2phy pde) (ati addr)) in
      if pde AND PF_V = 0 then None
      else if leaf pde then Some (pde, 30)
      else if ate AND PF_V = 0 then None
      else if leaf ate then Some (ate, 21)
      else page_entry (mm_mem s (entry (ate2phy ate) (pti addr))))"

lemma index_nat: "unat (drop_bit n a AND 0x1FF) = unat a div 2 ^ n mod 512" for a :: ulong
proof -
  have "drop_bit n a AND 0x1FF = take_bit 9 (drop_bit n a)" by (simp add: take_bit_eq_mask mask_eq_exp_minus_1)
  then show ?thesis by (simp add: unat_take_bit unat_drop_bit)
qed

lemma align_segment_dvd: "align_segment a = a \<Longrightarrow> 2 ^ 21 dvd unat a"
proof -
  assume "align_segment a = a"
  then have a: "a = (a + 512 * 4096 - 1) AND NOT 0x1FFFFF" by (simp add: align_segment_def)
  have m: "(0x1FFFFF :: ulong) = mask 21" by (simp add: mask_eq_exp_minus_1)
  have "take_bit 21 a = 0"
  proof (rule bit_word_eqI)
    fix n assume "n < LENGTH(64)"
    have "n < 21 \<Longrightarrow> \<not> bit ((a + 512 * 4096 - 1) AND NOT (mask 21 :: ulong)) n" by (auto simp: bit_and_iff bit_not_iff bit_mask_iff)
    then show "bit (take_bit 21 a) n \<longleftrightarrow> bit (0 :: ulong) n" using a m by (metis bit_0_eq bit_take_bit_iff bot_apply bot_bool_def)
  qed
  then have "unat a mod 2 ^ 21 = 0" using unat_take_bit [of 21 a] by simp
  then show ?thesis by (simp add: dvd_eq_mod_eq_0)
qed

text \<open>The indexes of the page \<open>k\<close> of a chunk that fits.\<close>

lemma add_div_512: "x mod 512 + d < 512 \<Longrightarrow> (x + d) div 512 = x div 512" for x d :: nat
proof -
  assume "x mod 512 + d < 512"
  moreover have "r < 512 \<Longrightarrow> (a * 512 + r) div 512 = a" for a r :: nat by simp
  moreover have "x + d = x div 512 * 512 + (x mod 512 + d)" using div_mult_mod_eq [of x 512] by linarith
  ultimately show ?thesis by metis
qed

lemma bound_512: "y < 512 \<Longrightarrow> z < 512 \<Longrightarrow> (x + y) * 512 + z < (x + 512) * 512" for x y z :: nat
  by simp

lemma page_indexes:
  assumes "fits_at c addr" "k < ch_pts c * 512"
  shows "pdi (page_at addr k) = pdi addr" "ati (page_at addr k) = ati addr + k div 512" "pti (page_at addr k) = k mod 512"
proof -
  obtain q where q: "unat addr = 2 ^ 21 * q" using align_segment_dvd [of addr] assms(1) by (auto simp: fits_at_def elim: dvdE)
  have j: "ati addr = q mod 512" using index_nat [of 21 addr] by (simp add: ati_def q)
  have i: "pdi addr = q div 512 mod 512" using index_nat [of 30 addr] by (simp add: pdi_def q div_mult2_eq [of q, symmetric])
  have "k div 512 < ch_pts c" using assms(2) by (simp add: less_mult_imp_div_less)
  then have c: "q mod 512 + k div 512 < 512" using assms(1) j by (simp add: fits_at_def)
  have "q < 2 ^ 43" using unat_less [of addr] q by simp
  then have q0: "q div 512 < 2 ^ 34" by (simp add: less_mult_imp_div_less)
  have u: "unat (page_at addr k) = 4096 * (q * 512 + k)"
  proof -
    have "q * 512 + k = (q div 512 * 512 + (q mod 512 + k div 512)) * 512 + k mod 512" by (simp add: algebra_simps)
    also have "\<dots> < (q div 512 * 512 + 512) * 512" using c by (intro bound_512) simp_all
    also have "\<dots> \<le> 2 ^ 52" using q0 by simp
    finally have "4096 * (q * 512 + k) < 2 ^ 64" by simp
    then have "unat (of_nat (4096 * (q * 512 + k)) :: ulong) = 4096 * (q * 512 + k)"
      by (simp only: unsigned_of_nat) (simp add: take_bit_nat_eq_self)
    moreover have "page_at addr k = of_nat (unat addr + 4096 * k)" by (simp add: page_at_def PG_SIZE_def)
    moreover have "unat addr + 4096 * k = 4096 * (q * 512 + k)" unfolding q by simp
    ultimately show ?thesis by metis
  qed
  show "pti (page_at addr k) = k mod 512" using index_nat [of 12 "page_at addr k"] by (simp add: pti_def u)
  have d: "unat (page_at addr k) div 2 ^ 21 = q + k div 512" unfolding u by (simp add: div_mult2_eq [of _ 4096 512, simplified])
  show "ati (page_at addr k) = ati addr + k div 512" 
  proof -
    have "(q + k div 512) mod 512 = (q mod 512 + k div 512) mod 512" by (simp add: mod_simps)
    also have "\<dots> = q mod 512 + k div 512" using c by simp
    finally show ?thesis using index_nat [of 21 "page_at addr k"] unfolding ati_def d by (simp add: j [unfolded ati_def])
  qed
  have "unat (page_at addr k) div 2 ^ 30 = (q + k div 512) div 512" using d by (simp add: div_mult2_eq [of _ "2 ^ 21" 512, simplified])
  also have "\<dots> = q div 512" using c by (rule add_div_512)
  finally show "pdi (page_at addr k) = pdi addr" using index_nat [of 30 "page_at addr k"] by (simp add: pdi_def i [unfolded pdi_def])
qed

lemma entry_of_page: "entry (page_at pt (k div 512)) (k mod 512) = entry pt k"
proof -
  have "a * 4096 + 8 * b = 8 * (a * 512 + b)" for a b :: nat by simp
  then have "k div 512 * 4096 + 8 * (k mod 512) = 8 * (k div 512 * 512 + k mod 512)" .
  also have "\<dots> = 8 * k" by (simp only: div_mult_mod_eq)
  finally have "k div 512 * 4096 + 8 * (k mod 512) = 8 * k" .
  then have "(of_nat (k div 512 * 4096 + 8 * (k mod 512)) :: ulong) = of_nat (8 * k)" by (rule arg_cong)
  then show ?thesis by (simp add: entry_def page_at_def PG_SIZE_def)
qed

lemma walk_rep:
  assumes "dir_rep s pd hp at S"
  shows "sv39_walk s pd a = (let e = S (pdi a) (ati a) in
     if hp (pdi a) \<noteq> 0 then Some (hp (pdi a), 30)
     else if e AND PF_V = 0 then None
     else if leaf e then Some (e, 21)
     else page_entry (mm_mem s (entry (ate2phy e) (pti a))))"
proof -
  have i: "pdi a < 512" "ati a < 512" by simp_all
  let ?e = "mm_mem s (entry pd (pdi a))"
  have e: "pd_entry ?e (hp (pdi a)) (at (pdi a))" using assms i by (simp add: dir_rep_def)
  consider "hp (pdi a) \<noteq> 0" | "hp (pdi a) = 0" "at (pdi a) = 0" | "hp (pdi a) = 0" "at (pdi a) \<noteq> 0" by blast
  then show ?thesis
  proof cases
    case 1
    then show ?thesis using e by (simp add: sv39_walk_def pd_entry_def)
  next
    case 2
    then have "?e AND PF_V = 0" "S (pdi a) (ati a) = 0" using e assms i by (simp_all add: pd_entry_def dir_rep_def)
    then show ?thesis using 2 by (simp add: sv39_walk_def)
  next
    case 3
    then have "?e AND PF_V \<noteq> 0" "\<not> leaf ?e" "pde2phy ?e = at (pdi a)" "mm_mem s (entry (at (pdi a)) (ati a)) = S (pdi a) (ati a)"
      using e assms i by (simp_all add: pd_entry_def dir_rep_def)
    then show ?thesis using 3 by (simp add: sv39_walk_def Let_def)
  qed
qed

text \<open>The page tables of the attached chunks, and those of \<open>c\<close>, are neither free nor tables of the directory.\<close>

definition tables_apart :: "addr set \<Rightarrow> (nat \<Rightarrow> nat \<Rightarrow> ulong) \<Rightarrow> chunk \<Rightarrow> bool" where
  "tables_apart X S c \<longleftrightarrow> (\<forall>i j. S i j AND PF_V \<noteq> 0 \<longrightarrow> \<not> leaf (S i j) \<longrightarrow> ate2phy (S i j) \<noteq> 0 \<and> ate2phy (S i j) \<notin> X) \<and>
     (\<forall>k < ch_pts c. page_at (ch_pt c) k \<noteq> 0 \<and> page_at (ch_pt c) k \<notin> X)"

lemma aligned_ate2phy: "page_aligned (ate2phy e)"
  using aligned_pde2phy [of e] by (simp add: ate2phy_def pde2phy_def)

definition in_chunk :: "chunk \<Rightarrow> addr \<Rightarrow> addr \<Rightarrow> bool" where
  "in_chunk c addr a \<longleftrightarrow> pdi a = pdi addr \<and> ati addr \<le> ati a \<and> ati a < ati addr + ch_pts c"

text \<open>A memory with two free frames and a directory with the flat memory of the setup, and a chunk of three pages.\<close>

lemma dir_frames_none: "dir_frames pd (\<lambda>i. 0) = {pd}"
  by (auto simp: dir_frames_def)

definition flat_pde :: "addr \<Rightarrow> ulong" where
  "flat_pde page = drop_bit 2 page OR FLAT_MEM_PD"

lemma flat_pde_leaf: "leaf (flat_pde p)" "flat_pde p AND PF_V \<noteq> 0" "flat_pde p \<noteq> 0"
proof -
  have b: "bit FLAT_MEM_PD 0" "bit FLAT_MEM_PD 1" "FLAT_MEM_PD = 0xCF"
    by (simp_all add: FLAT_MEM_PD_def PF_V_def PF_R_def PF_W_def PF_X_def PF_IAD_def PF_A_def PF_D_def)
  then have f: "bit (flat_pde p) 0" "bit (flat_pde p) 1" by (simp_all only: flat_pde_def bit_or_iff simp_thms)
  then show "leaf (flat_pde p)" by (simp add: leaf_bits)
  show "flat_pde p \<noteq> 0" using f by auto
  have "bit (flat_pde p AND PF_V) 0" using f by (simp add: PF_V_def bit_and_iff)
  then show "flat_pde p AND PF_V \<noteq> 0" by (metis bit_0_eq bot_apply bot_bool_def)
qed

definition sample_pages :: "nat \<Rightarrow> ulong" where
  "sample_pages = (\<lambda>i. 0)(0 := flat_pde 0, 1 := flat_pde 0x40000000, 2 := flat_pde 0x80000000)"

lemma frames_rep_one:
  assumes "run_ok a (unat n)" "n \<noteq> 0" "mm_elems s = [a \<mapsto> doubly_linked_grouping a n]"
    and "gl_list (mm_free s) = \<lparr>dl_size = 1, dl_head = a, dl_tail = a\<rparr>"
  shows "frames_rep s (run a (unat n))"
  using assms unfolding frames_rep_def
  by (intro exI [of _ "[a]"])
     (auto simp: list_rep_def runs_ok_def run_ok_def is_table_def frames_of_def doubly_linked_grouping_def store_simps unat_eq_0_iff)

definition sample_mmu :: mmu where
  "sample_mmu = \<lparr>mm_mem = (\<lambda>a. 0)(entry 0x1000 0 := flat_pde 0, entry 0x1000 1 := flat_pde 0x40000000, entry 0x1000 2 := flat_pde 0x80000000), mm_elems = [0x2000 \<mapsto> doubly_linked_grouping 0x2000 2],
     mm_free = \<lparr>gl_list = \<lparr>dl_size = 1, dl_head = 0x2000, dl_tail = 0x2000\<rparr>, gl_grouped = 2\<rparr>\<rparr>"

definition sample_chunk :: chunk where
  "sample_chunk = \<lparr>ch_free = True, ch_from = 0, ch_to = 3, ch_pts = 1, ch_flags = page_flags FL_RD, ch_pt = 0x8000\<rparr>"

lemma sample_mem: "i < 512 \<Longrightarrow> mm_mem sample_mmu (entry 0x1000 i) = sample_pages i"
proof -
  assume i: "i < 512"
  have t: "page_aligned 0x1000" by (simp add: page_aligned_def)
  have "entry 0x1000 i = entry 0x1000 k \<longleftrightarrow> i = k" if "k < 512" for k
    using entry_inj [OF t t i that] by auto
  then show ?thesis by (simp add: sample_mmu_def sample_pages_def)
qed

lemma sample_dir: "dir_rep sample_mmu 0x1000 sample_pages (\<lambda>i. 0) (\<lambda>i j. 0)"
proof -
  have "pde2phy 0 = 0" by (simp add: pde2phy_def)
  then show ?thesis
    by (auto simp: dir_rep_def sample_mem pd_entry_def is_table_def page_aligned_def flat_pde_leaf sample_pages_def)
qed

lemma sample_run: "run 0x2000 2 = {0x2000, 0x3000}"
  by (auto simp: run_def page_at_def PG_SIZE_def lessThan_Suc numeral_2_eq_2)

lemma sample_frames: "frames_rep sample_mmu {0x2000, 0x3000}"
  using frames_rep_one [of "0x2000" 2 sample_mmu] by (simp add: sample_run sample_mmu_def run_ok_def is_table_def page_aligned_def)

lemma sample_chunk_ok: "chunk_ok sample_chunk"
  by (simp add: chunk_ok_def sample_chunk_def is_table_def page_aligned_def pts_of_def)

lemma sample_fits: "fits_at sample_chunk 0xFFFFFFC000000000"
  by (simp add: fits_at_def sample_chunk_def align_segment_def ati_def)

lemma sample_apart: "tables_apart (dir_frames 0x1000 (\<lambda>i. 0) \<union> {0x2000, 0x3000}) (\<lambda>i j. 0) sample_chunk"
  by (simp add: tables_apart_def dir_frames_none sample_chunk_def)

lemma sample_free: "sample_pages (pdi 0xFFFFFFC000000000) = 0"
  by (simp add: sample_pages_def pdi_def)

text \<open>
  C10. Attaching a chunk: where its page tables fit into an attacher whose entries are free, the processor sees page \<open>k\<close> of the chunk
  at page \<open>k\<close> from the address on, and everything else where it was; where an entry is taken, nothing changes and the address is 0.
\<close>

theorem attach_maps:
  assumes "dir_rep s pd hp at S" "frames_rep s F" "F \<inter> dir_frames pd at = {}" "chunk_ok c" "fits_at c addr"
    and "tables_apart (dir_frames pd at \<union> F) S c" "hp (pdi addr) = 0" "at (pdi addr) \<noteq> 0 \<or> F \<noteq> {}"
  shows "if room_at c addr S
    then \<exists>s'. dir_attach_at s pd c addr = Some (s', addr) \<and>
      (\<forall>k < ch_pts c * 512. sv39_walk s' pd (page_at addr k) = page_entry (mm_mem s (entry (ch_pt c) k))) \<and>
      (\<forall>a. \<not> in_chunk c addr a \<longrightarrow> sv39_walk s' pd a = sv39_walk s pd a)
    else dir_attach_at s pd c addr = Some (s, 0)"
proof (cases "room_at c addr S")
  case False
  then show ?thesis
    using attachable_iff [OF assms(1,4,5,7)] fits_guard [OF assms(4,5)] assms(5) by (simp add: dir_attach_at_def fits_at_def)
next
  case True
  obtain s' at' F' where s': "dir_attach_at s pd c addr = Some (s', addr)" "dir_rep s' pd hp at' (with_chunk c addr S)"
    "dir_frames pd at' \<subseteq> dir_frames pd at \<union> F"
    "\<And>t k. is_table t \<Longrightarrow> t \<notin> dir_frames pd at' \<Longrightarrow> k < 512 \<Longrightarrow> mm_mem s' (entry t k) = mm_mem s (entry t k)"
    using attach_free [OF assms(1-5,7,8) True] by blast
  have "sv39_walk s' pd (page_at addr k) = page_entry (mm_mem s (entry (ch_pt c) k))" if k: "k < ch_pts c * 512" for k
  proof -
    let ?t = "page_at (ch_pt c) (k div 512)"
    have d: "k div 512 < ch_pts c" using k by (simp add: less_mult_imp_div_less)
    have t: "is_table ?t" "?t \<notin> dir_frames pd at'"
      using assms(4,6) d s'(3) by (auto simp: tables_apart_def chunk_ok_def is_table_def)
    have "with_chunk c addr S (pdi (page_at addr k)) (ati (page_at addr k)) = phy2ate ?t"
      using page_indexes [OF assms(5) k] d by (simp add: with_chunk_def)
    then have "sv39_walk s' pd (page_at addr k) = page_entry (mm_mem s' (entry ?t (k mod 512)))"
      using t(1) page_indexes [OF assms(5) k] assms(7) by (simp add: walk_rep [OF s'(2)] phy2ate_valid phy2ate_table is_table_def)
    then show ?thesis using s'(4) [OF t, of "k mod 512"] by (simp add: entry_of_page)
  qed
  moreover have "sv39_walk s' pd a = sv39_walk s pd a" if a: "\<not> in_chunk c addr a" for a
  proof -
    let ?e = "S (pdi a) (ati a)"
    have "with_chunk c addr S (pdi a) (ati a) = ?e" using a by (auto simp: in_chunk_def with_chunk_def)
    moreover have "mm_mem s' (entry (ate2phy ?e) (pti a)) = mm_mem s (entry (ate2phy ?e) (pti a))" if "?e AND PF_V \<noteq> 0" "\<not> leaf ?e"
      using s'(4) [of "ate2phy ?e" "pti a"] assms(6) that s'(3) aligned_ate2phy [of ?e] by (auto simp: tables_apart_def is_table_def)
    ultimately show ?thesis by (simp add: walk_rep [OF s'(2)] walk_rep [OF assms(1)] Let_def)
  qed
  ultimately show ?thesis using True s'(1) by auto
qed

theorem attach_maps_witness:
  "\<exists>s'. dir_attach_at sample_mmu 0x1000 sample_chunk 0xFFFFFFC000000000 = Some (s', 0xFFFFFFC000000000) \<and>
      sv39_walk s' 0x1000 0xFFFFFFC000002000 = page_entry (mm_mem sample_mmu (entry 0x8000 2))"
proof -
  have "page_at 0xFFFFFFC000000000 2 = 0xFFFFFFC000002000" by (simp add: page_at_def PG_SIZE_def)
  moreover have "room_at sample_chunk 0xFFFFFFC000000000 (\<lambda>i j. 0)" by (simp add: room_at_def)
  moreover have "(2 :: nat) < ch_pts sample_chunk * 512" "ch_pt sample_chunk = 0x8000" by (simp_all add: sample_chunk_def)
  moreover obtain s' where "dir_attach_at sample_mmu 0x1000 sample_chunk 0xFFFFFFC000000000 = Some (s', 0xFFFFFFC000000000)"
    "\<forall>k < ch_pts sample_chunk * 512. sv39_walk s' 0x1000 (page_at 0xFFFFFFC000000000 k) = page_entry (mm_mem sample_mmu (entry (ch_pt sample_chunk) k))"
    using attach_maps [OF sample_dir sample_frames _ sample_chunk_ok sample_fits sample_apart sample_free] by (auto simp: dir_frames_none room_at_def)
  ultimately show ?thesis by metis
qed

text \<open>
  C22. Detaching a chunk from the address it was attached at undoes the attachment: the processor sees what it saw before.
\<close>

theorem attach_detach:
  assumes "dir_rep s pd hp at S" "frames_rep s F" "F \<inter> dir_frames pd at = {}" "chunk_ok c" "fits_at c addr"
    and "tables_apart (dir_frames pd at \<union> F) S c" "hp (pdi addr) = 0" "at (pdi addr) \<noteq> 0 \<or> F \<noteq> {}" "room_at c addr S"
  shows "\<exists>s' s''. dir_attach_at s pd c addr = Some (s', addr) \<and> dir_detach_at s' pd c addr = Some (s'', addr) \<and>
    (\<forall>a. sv39_walk s'' pd a = sv39_walk s pd a)"
proof -
  obtain s' at' F' where s': "dir_attach_at s pd c addr = Some (s', addr)" "dir_rep s' pd hp at' (with_chunk c addr S)"
    "dir_frames pd at' \<subseteq> dir_frames pd at \<union> F"
    "\<And>t k. is_table t \<Longrightarrow> t \<notin> dir_frames pd at' \<Longrightarrow> k < 512 \<Longrightarrow> mm_mem s' (entry t k) = mm_mem s (entry t k)"
    using attach_free [OF assms(1-5,7-9)] by blast
  have "with_chunk c addr (with_chunk c addr S) = with_chunk c addr S" by (auto simp: with_chunk_def fun_eq_iff)
  then obtain s'' where s'': "dir_detach_at s' pd c addr = Some (s'', addr)" "dir_rep s'' pd hp at' (without_chunk c addr (with_chunk c addr S))"
    "\<And>t k. is_table t \<Longrightarrow> t \<notin> dir_frames pd at' \<Longrightarrow> k < 512 \<Longrightarrow> mm_mem s'' (entry t k) = mm_mem s' (entry t k)"
    using detach_present [OF s'(2) assms(4,5)] by blast
  have S: "without_chunk c addr (with_chunk c addr S) = S" using assms(9) by (auto simp: without_chunk_def with_chunk_def room_at_def fun_eq_iff)
  have "sv39_walk s'' pd a = sv39_walk s pd a" for a
  proof -
    let ?e = "S (pdi a) (ati a)"
    have "mm_mem s'' (entry (ate2phy ?e) (pti a)) = mm_mem s (entry (ate2phy ?e) (pti a))" if "?e AND PF_V \<noteq> 0" "\<not> leaf ?e"
      using s'(4) [of "ate2phy ?e" "pti a"] s''(3) [of "ate2phy ?e" "pti a"] assms(6) that s'(3) aligned_ate2phy [of ?e]
      by (auto simp: tables_apart_def is_table_def)
    then show ?thesis by (simp add: walk_rep [OF s''(2)] walk_rep [OF assms(1)] S Let_def)
  qed
  then show ?thesis using s'(1) s''(1) by blast
qed

theorem attach_detach_witness:
  "\<exists>s' s''. dir_attach_at sample_mmu 0x1000 sample_chunk 0xFFFFFFC000000000 = Some (s', 0xFFFFFFC000000000) \<and>
     dir_detach_at s' 0x1000 sample_chunk 0xFFFFFFC000000000 = Some (s'', 0xFFFFFFC000000000) \<and> sv39_walk s'' 0x1000 0xFFFFFFC000002000 = sv39_walk sample_mmu 0x1000 0xFFFFFFC000002000"
  using attach_detach [OF sample_dir sample_frames _ sample_chunk_ok sample_fits sample_apart sample_free]
  by (auto simp: dir_frames_none room_at_def)

section \<open>New directories\<close>

text \<open>The flat memory of the setup.\<close>

lemma flat_paging_rep:
  "is_table pd \<Longrightarrow> n \<le> 512 \<Longrightarrow> j \<le> n \<Longrightarrow>
   \<exists>m'. flat_paging_from s pd page j n = Some (s\<lparr>mm_mem := m'\<rparr>) \<and> entries_set pd j n (\<lambda>k. flat_pde (page + of_nat (k - j) * 2 ^ 30)) (mm_mem s) m'"
proof (induction "n - j" arbitrary: j s page)
  case 0
  then show ?case by (subst flat_paging_from.simps) (auto intro!: exI [of _ "mm_mem s"] entries_set_0)
next
  case (Suc d)
  then have j: "j < n" "d = n - Suc j" "Suc j \<le> n" by auto
  let ?s = "s\<lparr>mm_mem := (mm_mem s)(entry pd j := flat_pde page)\<rparr>"
  obtain m' where m': "flat_paging_from ?s pd (page + 2 ^ 30) (Suc j) n = Some (?s\<lparr>mm_mem := m'\<rparr>)"
    "entries_set pd (Suc j) n (\<lambda>k. flat_pde (page + 2 ^ 30 + of_nat (k - Suc j) * 2 ^ 30)) (mm_mem ?s) m'"
    using Suc.hyps(1) [OF j(2) Suc.prems(1,2) j(3), of ?s "page + 2 ^ 30"] by blast
  have step: "page + 2 ^ 30 + of_nat (k - Suc j) * 2 ^ 30 = page + of_nat (k - j) * 2 ^ 30" if "Suc j \<le> k" for k
  proof -
    have "k - j = Suc (k - Suc j)" using that by simp
    then show ?thesis by (simp add: algebra_simps)
  qed
  have "entries_set pd (Suc j) n (\<lambda>k. flat_pde (page + of_nat (k - j) * 2 ^ 30)) ((mm_mem s)(entry pd j := flat_pde (page + of_nat (j - j) * 2 ^ 30))) m'"
    using entries_set_cong [OF m'(2)] step by simp
  then have "entries_set pd j n (\<lambda>k. flat_pde (page + of_nat (k - j) * 2 ^ 30)) (mm_mem s) m'"
    by (rule entries_set_step) (use j(1) Suc.prems(2) entry_distinct [OF Suc.prems(1)] in auto)
  moreover have "flat_paging_from s pd page j n = flat_paging_from ?s pd (page + 2 ^ 30) (Suc j) n"
    using j(1) Suc.prems(1) by (subst flat_paging_from.simps) (simp add: wr_table flat_pde_def)
  ultimately show ?case using m'(1) by auto
qed

text \<open>The copy of the master directory.\<close>

lemma dir_copy_rep:
  assumes "is_table pd" "is_table master" "pd \<noteq> master"
  shows "i \<le> 512 \<Longrightarrow> \<exists>m'. dir_copy s pd master low high i = Some (s\<lparr>mm_mem := m'\<rparr>) \<and>
    (\<forall>k < 512. m' (entry pd k) = (if i \<le> k \<and> \<not> (pdi low \<le> k \<and> k \<le> pdi high) then mm_mem s (entry master k) else mm_mem s (entry pd k))) \<and>
    (\<forall>t k. is_table t \<longrightarrow> t \<noteq> pd \<longrightarrow> k < 512 \<longrightarrow> m' (entry t k) = mm_mem s (entry t k))"
proof (induction "512 - i" arbitrary: i s)
  case 0
  then show ?case by (subst dir_copy.simps) (auto simp: ENTRIES_def intro!: exI [of _ "mm_mem s"])
next
  case (Suc d)
  then have i: "i < 512" "d = 512 - Suc i" "Suc i \<le> 512" by auto
  have inj: "entry t k = entry pd i \<longleftrightarrow> t = pd \<and> k = i" if "is_table t" "k < 512" for t k
    using entry_inj [of t pd k i] that assms(1) i(1) by (auto simp: is_table_def)
  define s1 where "s1 = (if pdi low \<le> i \<and> i \<le> pdi high then s else s\<lparr>mm_mem := (mm_mem s)(entry pd i := mm_mem s (entry master i))\<rparr>)"
  have step: "dir_copy s pd master low high i = dir_copy s1 pd master low high (Suc i)"
    using i(1) assms by (subst dir_copy.simps) (auto simp: ENTRIES_def s1_def rd_table wr_table)
  obtain m' where m': "dir_copy s1 pd master low high (Suc i) = Some (s1\<lparr>mm_mem := m'\<rparr>)"
    "\<forall>k < 512. m' (entry pd k) = (if Suc i \<le> k \<and> \<not> (pdi low \<le> k \<and> k \<le> pdi high) then mm_mem s1 (entry master k) else mm_mem s1 (entry pd k))"
    "\<forall>t k. is_table t \<longrightarrow> t \<noteq> pd \<longrightarrow> k < 512 \<longrightarrow> m' (entry t k) = mm_mem s1 (entry t k)"
    using Suc.hyps(1) [OF i(2,3), of s1] by blast
  have s1: "s1\<lparr>mm_mem := m'\<rparr> = s\<lparr>mm_mem := m'\<rparr>" by (simp add: s1_def)
  have other: "mm_mem s1 (entry t k) = mm_mem s (entry t k)" if "is_table t" "k < 512" "t \<noteq> pd \<or> k \<noteq> i" for t k
    using inj [OF that(1,2)] that(3) by (auto simp: s1_def)
  have "m' (entry pd k) = (if i \<le> k \<and> \<not> (pdi low \<le> k \<and> k \<le> pdi high) then mm_mem s (entry master k) else mm_mem s (entry pd k))" if "k < 512" for k
  proof (cases "k = i")
    case True
    then show ?thesis using m'(2) that by (simp add: s1_def)
  next
    case False
    then show ?thesis using m'(2) that other [OF assms(1) that] other [OF assms(2) that] assms(3) by auto
  qed
  moreover have "m' (entry t k) = mm_mem s (entry t k)" if "is_table t" "t \<noteq> pd" "k < 512" for t k
    using m'(3) other that by auto
  ultimately show ?case using step m'(1) s1 by auto
qed

text \<open>
  A new directory: outside the application's part of the address space the processor sees what it sees with the master, whose
  entries are pages of 1 GB or empty; inside it sees nothing, and chunks can be attached there.
\<close>

theorem dir_new_maps:
  assumes "dir_rep s master hp (\<lambda>i. 0) (\<lambda>i j. 0)" "frames_rep s F" "F \<noteq> {}" "master \<notin> F"
  shows "\<exists>s' pd. dir_new s master low high = Some (s', pd) \<and> pd \<in> F \<and> frames_rep s' (F - {pd}) \<and>
    dir_rep s' pd (\<lambda>i. if pdi low \<le> i \<and> i \<le> pdi high then 0 else hp i) (\<lambda>i. 0) (\<lambda>i j. 0) \<and>
    (\<forall>a. sv39_walk s' pd a = (if pdi low \<le> pdi a \<and> pdi a \<le> pdi high then None else sv39_walk s master a))"
proof -
  obtain s1 p where p: "mmu_alloc s 1 = Some (s1, p)" "is_table p" "run_ok p 1" "run p 1 \<subseteq> F" "frames_rep s1 (F - run p 1)" "mm_mem s1 = mm_mem s"
    using mmu_alloc_rep [OF assms(2), of 1] assms(3) by auto
  have run1: "run p 1 = {p}" by (auto simp: run_def lessThan_Suc)
  have m: "is_table master" "p \<noteq> master" using assms(1,4) p(4) run1 by (auto simp: dir_rep_def)
  define s2 where "s2 = s1\<lparr>mm_mem := clear_frames p 1 (mm_mem s)\<rparr>"
  have c: "mmu_calloc s 1 = Some (s2, p)" using p(1,2,6) by (simp add: mmu_calloc_def is_table_def s2_def)
  obtain m' where m': "dir_copy s2 p master low high 0 = Some (s2\<lparr>mm_mem := m'\<rparr>)"
    "\<forall>k < 512. m' (entry p k) = (if \<not> (pdi low \<le> k \<and> k \<le> pdi high) then mm_mem s2 (entry master k) else mm_mem s2 (entry p k))"
    using dir_copy_rep [OF p(2) m(1,2), of 0 s2 low high] by auto
  let ?hp = "\<lambda>i. if pdi low \<le> i \<and> i \<le> pdi high then 0 else hp i" and ?s = "s2\<lparr>mm_mem := m'\<rparr>"
  have e: "m' (entry p k) = (if pdi low \<le> k \<and> k \<le> pdi high then 0 else mm_mem s (entry master k))" if "k < 512" for k
    using m'(2) that clear_frames_entry [OF p(2) that] clear_frames_other [OF p(2) m(1,2) that] by (simp add: s2_def)
  have zero: "pd_entry 0 0 0" by (simp add: pd_entry_def pde2phy_def)
  have rep: "dir_rep ?s p ?hp (\<lambda>i. 0) (\<lambda>i j. 0)"
    using assms(1) p(2) e zero by (auto simp: dir_rep_def is_table_def)
  have "sv39_walk ?s p a = (if pdi low \<le> pdi a \<and> pdi a \<le> pdi high then None else sv39_walk s master a)" for a
    by (simp add: walk_rep [OF rep] walk_rep [OF assms(1)] Let_def)
  moreover have "dir_new s master low high = Some (?s, p)" using c m'(1) by (simp add: dir_new_def)
  ultimately show ?thesis using p(4,5) run1 rep by (intro exI [of _ ?s] exI [of _ p]) (simp add: s2_def)
qed

theorem dir_new_maps_witness:
  "\<exists>s' pd. dir_new sample_mmu 0x1000 0xFFFFFFC000000000 0xFFFFFFFFFFFFFFFF = Some (s', pd) \<and> sv39_walk s' pd 0x80001000 = Some (flat_pde 0x80000000, 30) \<and>
     sv39_walk s' pd 0xFFFFFFC000000000 = None"
proof -
  have "pdi 0xFFFFFFC000000000 = 256" "pdi 0xFFFFFFFFFFFFFFFF = 511" "pdi 0x80001000 = 2" by (simp_all add: pdi_def)
  moreover have "sv39_walk sample_mmu 0x1000 0x80001000 = Some (flat_pde 0x80000000, 30)"
    by (simp add: walk_rep [OF sample_dir] sample_pages_def pdi_def flat_pde_leaf)
  ultimately show ?thesis
    using dir_new_maps [OF sample_dir sample_frames, of "0xFFFFFFC000000000" "0xFFFFFFFFFFFFFFFF"] by fastforce
qed

section \<open>The pages of a chunk\<close>

text \<open>Page tables one after the other are one table.\<close>

lemma unat_entry_run: "run_ok t n \<Longrightarrow> i < n * 512 \<Longrightarrow> unat (entry t i) = unat t + 8 * i"
proof -
  assume "run_ok t n" "i < n * 512"
  then have "unat t + 8 * i < 2 ^ 64" by (simp add: run_ok_def)
  then show ?thesis by (simp add: entry_def unat_word_ariths unsigned_of_nat take_bit_nat_eq_self del: of_nat_mult)
qed

lemma entry_run_distinct: "run_ok t n \<Longrightarrow> j < k \<Longrightarrow> k < n * 512 \<Longrightarrow> entry t k \<noteq> entry t j"
  using unat_entry_run [of t n j] unat_entry_run [of t n k] by auto

lemma wr_at_table: "is_table t \<Longrightarrow> wr_at s t (int i) e = Some (s\<lparr>mm_mem := (mm_mem s)(entry t i := e)\<rparr>)"
  by (simp add: wr_at_def wr_table)

lemma pt_remap_from_rep:
  "run_ok t n \<Longrightarrow> m \<le> n * 512 \<Longrightarrow> j \<le> m \<Longrightarrow>
   \<exists>m'. pt_remap_from s t a (int j) (int m) flags = Some (s\<lparr>mm_mem := m'\<rparr>) \<and> entries_set t j m (\<lambda>k. phy2pte (page_at a (k - j)) flags) (mm_mem s) m'"
proof (induction "m - j" arbitrary: j s a)
  case 0
  then show ?case by (subst pt_remap_from.simps) (auto intro!: exI [of _ "mm_mem s"] entries_set_0)
next
  case (Suc d)
  then have j: "j < m" "d = m - Suc j" "Suc j \<le> m" by auto
  have t: "is_table t" using Suc.prems(1) by (simp add: run_ok_def)
  let ?s = "s\<lparr>mm_mem := (mm_mem s)(entry t j := phy2pte a flags)\<rparr>"
  obtain m' where m': "pt_remap_from ?s t (a + PG_SIZE) (int (Suc j)) (int m) flags = Some (?s\<lparr>mm_mem := m'\<rparr>)"
    "entries_set t (Suc j) m (\<lambda>k. phy2pte (page_at (a + PG_SIZE) (k - Suc j)) flags) (mm_mem ?s) m'"
    using Suc.hyps(1) [OF j(2) Suc.prems(1,2) j(3), of ?s "a + PG_SIZE"] by blast
  have step: "page_at (a + PG_SIZE) (k - Suc j) = page_at a (k - j)" if "Suc j \<le> k" for k
    using that by (simp add: page_at_Suc Suc_diff_Suc)
  have "entries_set t (Suc j) m (\<lambda>k. phy2pte (page_at a (k - j)) flags) ((mm_mem s)(entry t j := phy2pte (page_at a (j - j)) flags)) m'"
    using entries_set_cong [OF m'(2)] step by simp
  then have "entries_set t j m (\<lambda>k. phy2pte (page_at a (k - j)) flags) (mm_mem s) m'"
    by (rule entries_set_step) (use j(1) Suc.prems(2) entry_run_distinct [OF Suc.prems(1)] in auto)
  moreover have "pt_remap_from s t a (int j) (int m) flags = pt_remap_from ?s t (a + PG_SIZE) (int (Suc j)) (int m) flags"
    using j(1) t by (subst pt_remap_from.simps) (simp add: wr_at_table add.commute)
  ultimately show ?case using m'(1) by auto
qed

text \<open>Pages \<open>f k\<close> taken from the free frames \<open>F\<close>, which leaves \<open>F'\<close>; pages are missing (0) only when no frame is left.\<close>

definition pages_taken :: "(nat \<Rightarrow> addr) \<Rightarrow> nat \<Rightarrow> nat \<Rightarrow> addr set \<Rightarrow> addr set \<Rightarrow> bool" where
  "pages_taken f j m F F' \<longleftrightarrow> (\<forall>k \<in> {j..<m}. f k = 0 \<or> f k \<in> F) \<and> (\<forall>k \<in> {j..<m}. \<forall>l \<in> {j..<m}. f k = f l \<longrightarrow> f k \<noteq> 0 \<longrightarrow> k = l) \<and>
     F' = F - f ` {j..<m} \<and> ((\<exists>k \<in> {j..<m}. f k = 0) \<longrightarrow> F' = {})"

lemma pages_taken_step:
  assumes "pages_taken f (Suc j) m (F - {p}) F'" "j < m" "p = 0 \<longrightarrow> F = {}" "p \<noteq> 0 \<longrightarrow> p \<in> F" "0 \<notin> F"
  shows "pages_taken (f(j := p)) j m F F'"
proof -
  have range: "{j..<m} = insert j {Suc j..<m}" using assms(2) by auto
  have img: "(f(j := p)) ` {j..<m} = insert p (f ` {Suc j..<m})" unfolding range by auto
  show ?thesis unfolding pages_taken_def img
  proof (intro conjI)
    show "\<forall>k \<in> {j..<m}. (f(j := p)) k = 0 \<or> (f(j := p)) k \<in> F" using assms(1,4) unfolding range pages_taken_def by auto
    show "\<forall>k \<in> {j..<m}. \<forall>l \<in> {j..<m}. (f(j := p)) k = (f(j := p)) l \<longrightarrow> (f(j := p)) k \<noteq> 0 \<longrightarrow> k = l"
    proof (intro ballI impI)
      fix k l assume kl: "k \<in> {j..<m}" "l \<in> {j..<m}" "(f(j := p)) k = (f(j := p)) l" "(f(j := p)) k \<noteq> 0"
      have new: "f i \<noteq> p \<or> p = 0" if "i \<in> {Suc j..<m}" for i using assms(1) that by (auto simp: pages_taken_def)
      show "k = l"
      proof (cases "k = j \<or> l = j")
        case True
        then show ?thesis using new [of k] new [of l] kl by (auto split: if_splits)
      next
        case False
        then have "k \<in> {Suc j..<m}" "l \<in> {Suc j..<m}" "f k = f l" "f k \<noteq> 0" using kl by auto
        then show ?thesis using assms(1) unfolding pages_taken_def by blast
      qed
    qed
    show "F' = F - insert p (f ` {Suc j..<m})" using assms(1) by (auto simp: pages_taken_def)
    show "(\<exists>k \<in> {j..<m}. (f(j := p)) k = 0) \<longrightarrow> F' = {}" using assms(1,3) unfolding range pages_taken_def by auto
  qed
qed

lemma pt_map_each_rep:
  "run_ok t n \<Longrightarrow> m \<le> n * 512 \<Longrightarrow> j \<le> m \<Longrightarrow> frames_rep s F \<Longrightarrow>
   \<exists>s' f F'. pt_map_each s t (int j) (int m) flags = Some s' \<and> entries_set t j m (\<lambda>k. phy2pte (f k) flags) (mm_mem s) (mm_mem s') \<and>
     frames_rep s' F' \<and> pages_taken f j m F F'"
proof (induction "m - j" arbitrary: j s F)
  case 0
  then show ?case by (subst pt_map_each.simps) (auto simp: pages_taken_def intro!: entries_set_0)
next
  case (Suc d)
  then have j: "j < m" "d = m - Suc j" "Suc j \<le> m" by auto
  have t: "is_table t" using Suc.prems(1) by (simp add: run_ok_def)
  have F0: "0 \<notin> F" using frames_tables [OF Suc.prems(4)] by (auto simp: is_table_def)
  obtain s1 p where p: "mmu_alloc s 1 = Some (s1, p)" "p = 0 \<longrightarrow> F = {}" "p \<noteq> 0 \<longrightarrow> p \<in> F" "frames_rep s1 (F - {p})" "mm_mem s1 = mm_mem s"
  proof -
    have run1: "run q (Suc 0) = {q}" for q by (auto simp: run_def lessThan_Suc)
    show thesis using mmu_alloc_rep [OF Suc.prems(4), of 1] that Suc.prems(4) by (auto simp: run1 is_table_def)
  qed
  let ?s = "s1\<lparr>mm_mem := (mm_mem s)(entry t j := phy2pte p flags)\<rparr>"
  obtain s' f F' where s': "pt_map_each ?s t (int (Suc j)) (int m) flags = Some s'"
    "entries_set t (Suc j) m (\<lambda>k. phy2pte (f k) flags) ((mm_mem s)(entry t j := phy2pte p flags)) (mm_mem s')"
    "frames_rep s' F'" "pages_taken f (Suc j) m (F - {p}) F'"
    using Suc.hyps(1) [OF j(2) Suc.prems(1,2) j(3), of ?s "F - {p}"] p(4) by auto
  have "entries_set t (Suc j) m (\<lambda>k. phy2pte ((f(j := p)) k) flags) ((mm_mem s)(entry t j := phy2pte ((f(j := p)) j) flags)) (mm_mem s')"
    using entries_set_cong [OF s'(2)] by simp
  then have "entries_set t j m (\<lambda>k. phy2pte ((f(j := p)) k) flags) (mm_mem s) (mm_mem s')"
    by (rule entries_set_step) (use j(1) Suc.prems(2) entry_run_distinct [OF Suc.prems(1)] in auto)
  moreover have "pt_map_each s t (int j) (int m) flags = Some s'"
    using j(1) t p(1,5) s'(1) by (subst pt_map_each.simps) (simp add: wr_at_table add.commute)
  ultimately show ?case using s'(3) pages_taken_step [OF s'(4) j(1) p(2,3) F0] by blast
qed


lemma align_page_aligned: "page_aligned a \<Longrightarrow> align_page a = a"
proof (rule bit_word_eqI)
  fix n assume a: "page_aligned a" "n < LENGTH(64)"
  have m: "(0xFFF :: ulong) = mask 12" by (simp add: mask_eq_exp_minus_1)
  have low: "k < 12 \<Longrightarrow> \<not> bit a k" for k using a(1) by (auto simp: aligned_bits)
  have "a + mask 12 = a OR mask 12" by (rule disjunctive_add) (use low in \<open>auto simp: bit_mask_iff\<close>)
  moreover have "a + 4096 - 1 = a + mask 12" by (simp add: mask_eq_exp_minus_1)
  ultimately have "align_page a = (a OR mask 12) AND NOT 0xFFF" by (simp add: align_page_def)
  then show "bit (align_page a) n \<longleftrightarrow> bit a n"
    using low [of n] not_less [of n 12] by (simp only: bit_masks bit_or_iff bit_mask_iff) blast
qed

lemma run_image: "page_at a ` {0..<n} = run a n"
  by (simp add: run_def lessThan_atLeast0)

lemma pages_taken_run: "run_ok a n \<Longrightarrow> run a n \<subseteq> F \<Longrightarrow> pages_taken (page_at a) 0 n F (F - run a n)"
proof -
  assume a: "run_ok a n" "run a n \<subseteq> F"
  have "page_at a k \<in> F" "page_at a k \<noteq> 0" if "k < n" for k
    using a that run_tables [OF a(1), of "page_at a k"] by (auto simp: run_def is_table_def)
  then show ?thesis using page_at_inj [OF a(1)] by (auto simp: pages_taken_def run_image)
qed

lemma as_int_small: "n < 2 ^ 31 \<Longrightarrow> as_int n = int n"
  unfolding as_int_def by (simp add: signed_of_nat signed_take_bit_int_eq_self)

lemma pt_map_rep:
  assumes t: "run_ok t n" "m \<le> n * 512" and m: "0 < m" "m < 2 ^ 32" and F: "frames_rep s F"
  shows "\<exists>s' f F'. pt_map s t 0 (int m) flags = Some s' \<and> entries_set t 0 m (\<lambda>k. phy2pte (f k) flags) (mm_mem s) (mm_mem s') \<and>
     frames_rep s' F' \<and> pages_taken f 0 m F F'"
proof -
  have u: "unat (of_nat m :: ulong) = m" using m by (simp add: unsigned_of_nat take_bit_nat_eq_self)
  then have n0: "(of_nat m :: ulong) \<noteq> 0" using m(1) by (metis unat_0 less_irrefl)
  consider "mmu_alloc s (of_nat m) = Some (s, 0)"
    | s' p where "mmu_alloc s (of_nat m) = Some (s', p)" "is_table p" "run_ok p m" "run p m \<subseteq> F" "frames_rep s' (F - run p m)" "mm_mem s' = mm_mem s"
    using mmu_alloc_rep [OF F n0] unfolding u by blast
  then show ?thesis
  proof cases
    case 1
    then show ?thesis using pt_map_each_rep [OF t _ F, of 0] by (simp add: pt_map_def)
  next
    case 2
    obtain m' where m': "pt_remap_from s' t p 0 (int m) flags = Some (s'\<lparr>mm_mem := m'\<rparr>)"
      "entries_set t 0 m (\<lambda>k. phy2pte (page_at p (k - 0)) flags) (mm_mem s') m'"
      using pt_remap_from_rep [OF t, of 0 s' p flags] by auto
    have "p \<noteq> 0" "align_page p = p" using 2(2) align_page_aligned by (auto simp: is_table_def)
    then have "pt_map s t 0 (int m) flags = Some (s'\<lparr>mm_mem := m'\<rparr>)" using 2(1) m'(1) by (simp add: pt_map_def pt_remap_def)
    then show ?thesis using m'(2) 2(5,6) pages_taken_run [OF 2(3,4)]
      by (intro exI [of _ "s'\<lparr>mm_mem := m'\<rparr>"] exI [of _ "page_at p"] exI [of _ "F - run p m"]) simp
  qed
qed




text \<open>
  A contiguous chunk takes its pages from one run of free frames; when there is none it is not refused, but mapped to the physical
  memory from address 0 on.
\<close>

theorem contiguous_chunk_maps:
  assumes "frames_rep s F" "to = unat (ucast (pages bytes) :: uint)" "0 < to" "to < 2 ^ 31" "page_flags flags AND PF_CT \<noteq> 0"
    and "mmu_calloc s (of_nat (pts_of to)) = Some (s1, pt)"
  shows "\<exists>s' c s2 p. mmu_alloc s1 (of_nat to) = Some (s2, p) \<and> chunk_new s bytes flags = Some (s', c) \<and> chunk_ok c \<and> ch_pt c = pt \<and> ch_to c = to \<and>
    (p = 0 \<or> run p to \<subseteq> F - run pt (pts_of to)) \<and> (\<forall>k < to. mm_mem s' (entry pt k) = phy2pte (page_at p k) (page_flags flags))"
proof -
  let ?n = "pts_of to" and ?fl = "page_flags flags"
  have to: "to < 2 ^ 32" "as_int to = int to" using assms(4) by (simp_all add: as_int_small)
  have n: "0 < ?n" "to \<le> ?n * 512" "?n \<le> to" using assms(3) by (auto simp: pts_of_def intro!: div_le_mono)
  have u: "unat (of_nat ?n :: ulong) = ?n" "unat (of_nat to :: ulong) = to" using n(3) to(1) by (simp_all add: unsigned_of_nat take_bit_nat_eq_self)
  then have n0: "(of_nat ?n :: ulong) \<noteq> 0" "(of_nat to :: ulong) \<noteq> 0" using n(1) assms(3) by (metis unat_0 less_irrefl)+
  obtain s0 where a: "mmu_alloc s (of_nat ?n) = Some (s0, pt)" "is_table pt" "run_ok pt ?n" "frames_rep s0 (F - run pt ?n)"
    "s1 = s0\<lparr>mm_mem := clear_frames pt (of_nat ?n) (mm_mem s0)\<rparr>"
    using mmu_alloc_rep [OF assms(1) n0(1)] assms(6) n0(1) unfolding u by (auto simp: mmu_calloc_def split: if_splits)
  have F1: "frames_rep s1 (F - run pt ?n)" using a(4,5) by simp
  obtain s2 p where b: "mmu_alloc s1 (of_nat to) = Some (s2, p)" "p = 0 \<or> run p to \<subseteq> F - run pt ?n" "page_aligned p"
    using mmu_alloc_rep [OF F1 n0(2)] unfolding u by (auto simp: is_table_def page_aligned_def)
  obtain m' where m': "pt_remap_from s2 pt p 0 (int to) ?fl = Some (s2\<lparr>mm_mem := m'\<rparr>)"
    "entries_set pt 0 to (\<lambda>k. phy2pte (page_at p (k - 0)) ?fl) (mm_mem s2) m'"
    using pt_remap_from_rep [OF a(3) n(2), of 0 s2 p ?fl] by auto
  define c where "c = \<lparr>ch_free = True, ch_from = 0, ch_to = to, ch_pts = ?n, ch_flags = ?fl, ch_pt = pt\<rparr>"
  have "chunk_new s bytes flags = Some (s2\<lparr>mm_mem := m'\<rparr>, c)"
    using assms(2,5,6) b(1) m'(1) to(2) align_page_aligned [OF b(3)]
    by (simp add: chunk_new_def c_def Let_def pt_map_contiguous_def pt_remap_def)
  moreover have "chunk_ok c" using a(2) assms(3) by (simp add: chunk_ok_def c_def)
  ultimately show ?thesis using b m'(2) by (intro exI [of _ "s2\<lparr>mm_mem := m'\<rparr>"] exI [of _ c] exI [of _ s2] exI [of _ p]) (simp add: c_def entries_set_def)
qed

text \<open>Of the two free frames one becomes the page table, and two pages in a row are not found.\<close>

theorem contiguous_chunk_maps_witness:
  "\<exists>s' c. chunk_new sample_mmu 8192 FL_CT = Some (s', c) \<and> mm_mem s' (entry (ch_pt c) 1) = phy2pte 0x1000 (page_flags FL_CT)"
proof -
  have ct: "page_flags FL_CT AND PF_CT \<noteq> 0"
    by (simp add: page_flags_def PF_V_def PF_IAD_def PF_A_def PF_D_def PF_R_def PF_CT_def FL_RD_def FL_WR_def FL_EX_def FL_USR_def FL_CT_def FL_IO_def)
  have run1: "run q (Suc 0) = {q}" and run2: "run q 2 = {q, q + 0x1000}" for q
    by (auto simp: run_def lessThan_Suc page_at_def PG_SIZE_def numeral_2_eq_2)
  obtain s0 pt where pt: "mmu_alloc sample_mmu 1 = Some (s0, pt)" "pt \<in> {0x2000, 0x3000}"
    using mmu_alloc_rep [OF sample_frames, of 1] by (auto simp: run1)
  then have "mmu_calloc sample_mmu (of_nat (pts_of 2)) = Some (s0\<lparr>mm_mem := clear_frames pt 1 (mm_mem s0)\<rparr>, pt)"
    by (auto simp: mmu_calloc_def pts_of_def)
  then obtain s' c p where "chunk_new sample_mmu 8192 FL_CT = Some (s', c)" "ch_pt c = pt" "p = 0 \<or> run p 2 \<subseteq> {0x2000, 0x3000} - run pt 1"
      "\<forall>k < 2. mm_mem s' (entry pt k) = phy2pte (page_at p k) (page_flags FL_CT)"
    using contiguous_chunk_maps [OF sample_frames, where bytes = 8192 and to = 2 and flags = FL_CT, OF _ _ _ ct] by (fastforce simp: pages_def pts_of_def)
  then show ?thesis using pt(2) by (auto simp: run1 run2 page_at_def PG_SIZE_def)
qed

section \<open>Where the code falls short\<close>

text \<open>Two entries of an attacher set one after the other.\<close>

lemma entries_set_1: "entries_set t j (Suc j) (\<lambda>k. e) m (m(entry t j := e))"
  by (auto simp: entries_set_def less_Suc_eq_le dest: le_antisym)

lemma dir_rep_write: "dir_rep s pd hp at S \<Longrightarrow> i < 512 \<Longrightarrow> at i \<noteq> 0 \<Longrightarrow> j < 512 \<Longrightarrow>
    dir_rep (s\<lparr>mm_mem := (mm_mem s)(entry (at i) j := e)\<rparr>) pd hp at (\<lambda>i' k. if i' = i \<and> k = j then e else S i' k)"
proof -
  assume a: "dir_rep s pd hp at S" "i < 512" "at i \<noteq> 0" "j < 512"
  have eq: "(\<lambda>i' k. if i' = i \<and> j \<le> k \<and> k < Suc j then e else S i' k) = (\<lambda>i' k. if i' = i \<and> k = j then e else S i' k)" by (auto simp: fun_eq_iff)
  have "dir_rep (s\<lparr>mm_mem := (mm_mem s)(entry (at i) j := e)\<rparr>) pd hp at (\<lambda>i' k. if i' = i \<and> j \<le> k \<and> k < Suc j then e else S i' k)"
    by (rule dir_rep_set [OF a(1-3) _ entries_set_1]) (use a(4) in simp)
  then show ?thesis unfolding eq .
qed

text \<open>
  C40. A chunk of two page tables attached at the last entry of an attacher is not continued in the next one: the second table goes to
  entry 0 of the same attacher, a gigabyte below, and the addresses after the first table are left as they were.
\<close>

theorem attach_wraps:
  assumes "dir_rep s pd hp at S" "chunk_ok c" "ch_pts c = 2" "align_segment addr = addr" "ati addr = 511" "pdi addr < 511"
    and "at (pdi addr) \<noteq> 0" "S (pdi addr) 511 = 0" "S (pdi addr) 0 = 0" "tables_apart (dir_frames pd at) S c"
  shows "\<exists>s'. dir_attach_at s pd c addr = Some (s', addr) \<and>
    (\<forall>a. pdi a = pdi addr \<and> ati a = 0 \<longrightarrow> sv39_walk s' pd a = page_entry (mm_mem s (entry (page_at (ch_pt c) 1) (pti a)))) \<and>
    (\<forall>a. pdi a = pdi addr + 1 \<longrightarrow> sv39_walk s' pd a = sv39_walk s pd a)"
proof -
  let ?i = "pdi addr" and ?t = "at (pdi addr)"
  have t: "is_table ?t" using dir_tables [OF assms(1) pdi_less assms(7)] .
  obtain e where e: "rd s pd ?i = Some e" "pde2phy e = ?t"
    using dir_rd [OF assms(1) pdi_less dir_no_page [of s pd hp at S, OF assms(1) pdi_less assms(7)]] by blast
  have free: "mm_mem s (entry ?t 511) = 0" "mm_mem s (entry ?t 0) = 0" using assms(1,7,8,9) by (simp_all add: dir_rep_def)
  have ok: "attachable s pd addr 2 = Some True"
  proof -
    have "attachable_at s ?t 511 513 = Some True"
      by (subst attachable_at.simps, subst attachable_at.simps, subst attachable_at.simps) (simp add: rd_table [OF t] free ENTRIES_def)
    then show ?thesis unfolding attachable_def
      using e assms(5,7) by (subst attachable_from.simps, subst attachable_from.simps) (simp add: ats_of_def)
  qed
  define m' where "m' = (mm_mem s)(entry ?t 511 := phy2ate (ch_pt c), entry ?t 0 := phy2ate (page_at (ch_pt c) 1))"
  have "attach_at s ?t (ch_pt c) 511 513 = Some (s\<lparr>mm_mem := m'\<rparr>, ch_pt c + PG_SIZE + PG_SIZE)"
    by (subst attach_at.simps, subst attach_at.simps, subst attach_at.simps) (simp add: wr_table [OF t] ENTRIES_def m'_def page_at_def)
  then have "attach_from s pd addr (ch_pt c) 2 ?i (?i + 1) = Some (s\<lparr>mm_mem := m'\<rparr>)"
    using e assms(5,7) by (subst attach_from.simps, subst attach_from.simps) simp
  moreover have "\<not> PD_SPAN - (push_bit 30 (of_nat ?i) + push_bit 21 (of_nat (ati addr))) < chunk_size c"
    using chunk_pts(2) [OF assms(2)] assms(3,5,6) by (intro size_guard) simp
  ultimately have s': "dir_attach_at s pd c addr = Some (s\<lparr>mm_mem := m'\<rparr>, addr)"
    using ok assms(3,4) by (simp add: dir_attach_at_def ats_of_def)
  let ?S = "\<lambda>i k. if i = ?i \<and> k = 0 then phy2ate (page_at (ch_pt c) 1) else if i = ?i \<and> k = 511 then phy2ate (ch_pt c) else S i k"
  have rep': "dir_rep (s\<lparr>mm_mem := m'\<rparr>) pd hp at ?S"
    using dir_rep_write [OF dir_rep_write [OF assms(1) pdi_less assms(7), of 511 "phy2ate (ch_pt c)"] pdi_less assms(7), of 0 "phy2ate (page_at (ch_pt c) 1)"]
    by (simp add: m'_def)
  have same: "m' (entry u k) = mm_mem s (entry u k)" if "page_aligned u" "u \<notin> dir_frames pd at" "k < 512" for u k
  proof -
    have "u \<noteq> ?t" using that(2) dir_frames_at [of ?i at pd] assms(7) by auto
    then show ?thesis using entry_inj [of u ?t k 0] entry_inj [of u ?t k 511] that t by (auto simp: m'_def is_table_def)
  qed
  have "sv39_walk (s\<lparr>mm_mem := m'\<rparr>) pd a = page_entry (mm_mem s (entry (page_at (ch_pt c) 1) (pti a)))" if "pdi a = ?i" "ati a = 0" for a
    using that assms(2,3,10) same [of "page_at (ch_pt c) 1" "pti a"] dir_no_page [of s pd hp at S, OF assms(1) pdi_less assms(7)]
    by (simp add: walk_rep [OF rep'] phy2ate_valid phy2ate_table chunk_ok_def is_table_def tables_apart_def)
  moreover have "sv39_walk (s\<lparr>mm_mem := m'\<rparr>) pd a = sv39_walk s pd a" if "pdi a = ?i + 1" for a
    using that assms(10) same [of "ate2phy (S (pdi a) (ati a))" "pti a"]
    by (simp add: walk_rep [OF rep'] walk_rep [OF assms(1)] aligned_ate2phy tables_apart_def Let_def)
  ultimately show ?thesis using s' by blast
qed

theorem attach_wraps_witness: "\<exists>s'. dir_attach_at (sample_mmu\<lparr>mm_mem := (mm_mem sample_mmu)(entry 0x1000 256 := phy2pde 0x4000)\<rparr>) 0x1000
   (sample_chunk\<lparr>ch_to := 600, ch_pts := 2\<rparr>) 0xFFFFFFC03FE00000 = Some (s', 0xFFFFFFC03FE00000) \<and>
   sv39_walk s' 0x1000 0xFFFFFFC000005000 = None"
proof -
  let ?s = "sample_mmu\<lparr>mm_mem := (mm_mem sample_mmu)(entry 0x1000 256 := phy2pde 0x4000)\<rparr>" and ?c = "sample_chunk\<lparr>ch_to := 600, ch_pts := 2\<rparr>"
  let ?at = "(\<lambda>i. 0)(256 := 0x4000) :: nat \<Rightarrow> addr"
  have t: "is_table 0x1000" "is_table 0x4000" "is_table 0x9000" by (simp_all add: is_table_def page_aligned_def)
  have e: "entry 0x1000 i = entry 0x1000 256 \<longleftrightarrow> i = 256" if "i < 512" for i
    using entry_inj [of "0x1000" "0x1000" i 256] that t by (auto simp: is_table_def)
  have zero: "mm_mem ?s (entry p j) = 0" if "p = 0x4000 \<or> p = 0x9000" "j < 512" for p j
  proof -
    have "entry p j \<noteq> entry 0x1000 k" if "k < 512" for k
      using entry_inj [of p "0x1000" j k] \<open>p = 0x4000 \<or> p = 0x9000\<close> \<open>j < 512\<close> that t by (auto simp: is_table_def)
    then show ?thesis by (simp add: sample_mmu_def)
  qed
  have "dir_rep ?s 0x1000 sample_pages ?at (\<lambda>i j. 0)"
  proof -
    have "pde2phy 0 = 0" by (simp add: pde2phy_def)
    then have "pd_entry (mm_mem ?s (entry 0x1000 i)) (sample_pages i) (?at i)" if "i < 512" for i
      using that e sample_mem [OF that] t phy2pde_valid [of "0x4000"] phy2pde_table [of "0x4000"]
      by (auto simp: pd_entry_def is_table_def flat_pde_leaf sample_pages_def)
    then show ?thesis unfolding dir_rep_def using t zero by (auto simp: is_table_def page_aligned_def)
  qed
  moreover have "chunk_ok ?c" by (simp add: chunk_ok_def sample_chunk_def is_table_def page_aligned_def pts_of_def)
  moreover have "align_segment 0xFFFFFFC03FE00000 = 0xFFFFFFC03FE00000" "ati 0xFFFFFFC03FE00000 = 511" "pdi 0xFFFFFFC03FE00000 = 256"
    by (simp_all add: align_segment_def ati_def pdi_def)
  moreover have "dir_frames 0x1000 ?at = {0x1000, 0x4000}" by (auto simp: dir_frames_def)
  moreover have "tables_apart {0x1000, 0x4000} (\<lambda>i j. 0) ?c"
  proof -
    have two: "k < 2 \<Longrightarrow> k = 0 \<or> k = 1" for k :: nat by auto
    show ?thesis by (auto simp: tables_apart_def sample_chunk_def page_at_def PG_SIZE_def dest!: two)
  qed
  moreover have "pdi 0xFFFFFFC000005000 = 256" "ati 0xFFFFFFC000005000 = 0" by (simp_all add: ati_def pdi_def)
  ultimately obtain s' where "dir_attach_at ?s 0x1000 ?c 0xFFFFFFC03FE00000 = Some (s', 0xFFFFFFC03FE00000)"
    "sv39_walk s' 0x1000 0xFFFFFFC000005000 = page_entry (mm_mem ?s (entry (page_at (ch_pt ?c) 1) (pti 0xFFFFFFC000005000)))"
    using attach_wraps [of ?s "0x1000" sample_pages ?at "\<lambda>i j. 0" ?c "0xFFFFFFC03FE00000"] by auto
  moreover have "page_at (ch_pt ?c) 1 = 0x9000" by (simp add: sample_chunk_def page_at_def PG_SIZE_def)
  ultimately show ?thesis using zero [of "0x9000" "pti 0xFFFFFFC000005000"] by (auto simp: page_entry_def)
qed

text \<open>The conversion of page flags back to flags gives no more than \<open>PRE\<close> for a valid page.\<close>

lemma flags_of_valid: "f AND PF_V \<noteq> 0 \<Longrightarrow> flags_of f = FL_PRE"
  by (simp add: flags_of_def)

text \<open>Every page is valid, a bit of \<open>IO\<close>: a deleted chunk gives back its page tables, but never its frames.\<close>

lemma page_flags_valid: "page_flags f AND PF_IO \<noteq> 0"
proof
  assume "page_flags f AND PF_IO = 0"
  then have "\<not> bit (page_flags f AND PF_IO) 0" by simp
  then show False by (simp add: page_flags_def PF_IO_def PF_V_def bit_and_iff bit_or_iff)
qed

lemma chunk_delete_leaks: "chunk_new s bytes flags = Some (s', c) \<Longrightarrow> chunk_delete s' c = mmu_free s' (ch_pt c) (of_nat (ch_pts c))"
  using page_flags_valid [of flags] by (auto simp: chunk_new_def chunk_delete_def Let_def split: bind_splits if_splits)

text \<open>\<open>physical\<close> takes the entry of the directory, whose valid bit is set, for the address of the attacher.\<close>

lemma physical_faults:
  assumes "dir_rep s pd hp at S" "at (pdi addr) \<noteq> 0"
  shows "dir_physical s pd addr = None"
proof -
  let ?e = "mm_mem s (entry pd (pdi addr))"
  have "?e AND PF_V \<noteq> 0" "is_table pd"
    using assms dir_no_page [of s pd hp at S, OF assms(1) pdi_less assms(2)] pdi_less [of addr] by (auto simp: dir_rep_def pd_entry_def split: if_splits)
  then have "bit ?e 0" by (simp add: PF_V_def and_one_eq odd_iff_mod_2_eq_one bit_0)
  then have "bit (?e AND 7) 0" by (simp add: bit_and_iff)
  then have "?e AND 7 \<noteq> 0" by (metis bit_0_eq bot_apply bot_bool_def)
  then have "rd s ?e (ati addr) = None" by (simp add: rd_def)
  then show ?thesis using \<open>is_table pd\<close> by (simp add: dir_physical_def rd_table)
qed

text \<open>\<open>find\<close>, and with it \<open>detach\<close> without an address, never comes up with an address beyond 4 GB.\<close>

lemma find_from_32: "find_from s pd pt i = Some a \<Longrightarrow> unat a < 2 ^ 32"
proof (induction "ENTRIES - i" arbitrary: i)
  case 0
  then show ?case by (subst (asm) find_from.simps) simp
next
  case (Suc d)
  have u: "unat (ucast x :: ulong) < 2 ^ 32" for x :: uint
    using unat_less [of x] by (simp add: unsigned_ucast_eq take_bit_nat_eq_self)
  have "d = ENTRIES - (i + 1)" using Suc.hyps(2) by simp
  then show ?case using Suc.prems Suc.hyps(1) u by (subst (asm) find_from.simps) (auto split: bind_splits option.splits if_splits)
qed

text \<open>The physical address of a contiguous chunk is the first entry less its flags, not the frame in it.\<close>

lemma contiguous_phy_address:
  assumes "is_table (ch_pt c)" "ch_flags c AND PF_CT \<noteq> 0" "mm_mem s (entry (ch_pt c) (ch_from c)) = phy2pte p (ch_flags c)"
  shows "chunk_phy_address s c = Some (unflag (drop_bit 2 p OR ch_flags c))"
  using assms by (simp add: chunk_phy_address_def rd_table phy2pte_def)

end
