(* ===== verification/Spin_Locks.thy ===== *)
theory Spin_Locks
  imports Prelude
begin

text \<open>
  The spin locks of \<open>include/utility/spin.h\<close>, one memory access at a time, so that the threads of several CPUs interleave inside
  \<open>acquire\<close> and \<open>release\<close>. A thread is known by its address, as \<open>_running()\<close> gives it. \<open>CPU::cas\<close> and \<open>CPU::tsl\<close> are the atomic
  operations of \<open>include/architecture/cpu.h\<close>. Proved: mutual exclusion in every interleaving, recursion, and what happens when a
  thread releases a lock it does not have.
\<close>

section \<open>The operations\<close>

text \<open>\<open>cas\<close> and \<open>tsl\<close> give the new value of the variable and the old one.\<close>

definition cas :: "'a \<Rightarrow> 'a \<Rightarrow> 'a \<Rightarrow> 'a \<times> 'a" where
  "cas v compare replacement = (if v = compare then replacement else v, v)"

definition tsl_lock :: "bool \<Rightarrow> bool \<times> bool" where
  "tsl_lock lock = (True, lock)"

record spin =
  sp_level :: "64 word"
  sp_owner :: addr

definition spin_new :: spin where
  "spin_new = \<lparr>sp_level = 0, sp_owner = 0\<rparr>"

definition spin_taken :: "spin \<Rightarrow> bool" where
  "spin_taken l \<longleftrightarrow> sp_owner l \<noteq> 0"

text \<open>
  Where a thread is: outside; at the \<open>cas\<close> of \<open>acquire\<close>; at the load and at the store of \<open>_level++\<close>; at the load and at the store of
  \<open>--_level\<close>; at \<open>_level = 0\<close>; at \<open>_owner = 0\<close>.
\<close>

datatype place = Outside | Try | Count | Counted "64 word" | Drop | Dropped "64 word" | Reset | Free

fun spin_step :: "addr \<Rightarrow> spin \<Rightarrow> place \<Rightarrow> spin \<times> place" where
  "spin_step me l Outside = (l, Outside)"
| "spin_step me l Try = (let (v, old) = cas (sp_owner l) 0 me in (l\<lparr>sp_owner := v\<rparr>, if old \<noteq> me then Try else Count))"
| "spin_step me l Count = (l, Counted (sp_level l))"
| "spin_step me l (Counted n) = (l\<lparr>sp_level := n + 1\<rparr>, Outside)"
| "spin_step me l Drop = (l, Dropped (sp_level l))"
| "spin_step me l (Dropped n) = (l\<lparr>sp_level := n - 1\<rparr>, if sint (n - 1) \<le> 0 then Reset else Outside)"
| "spin_step me l Reset = (l\<lparr>sp_level := 0\<rparr>, Free)"
| "spin_step me l Free = (l\<lparr>sp_owner := 0\<rparr>, Outside)"

section \<open>The threads around a lock\<close>

text \<open>The lock, the place of every thread, and how many times it has acquired the lock and not released it yet.\<close>

record spinners =
  sn_lock :: spin
  sn_place :: "addr \<Rightarrow> place"
  sn_held :: "addr \<Rightarrow> nat"

definition spinners_new :: spinners where
  "spinners_new = \<lparr>sn_lock = spin_new, sn_place = (\<lambda>t. Outside), sn_held = (\<lambda>t. 0)\<rparr>"

definition held_after :: "place \<Rightarrow> place \<Rightarrow> nat \<Rightarrow> nat" where
  "held_after p p' h = (if p' = Outside then (case p of Counted _ \<Rightarrow> h + 1 | Dropped _ \<Rightarrow> h - 1 | Free \<Rightarrow> h - 1 | _ \<Rightarrow> h) else h)"

definition run_thread :: "addr \<Rightarrow> spinners \<Rightarrow> spinners" where
  "run_thread t s =
     (let (l, p) = spin_step t (sn_lock s) (sn_place s t) in
      s\<lparr>sn_lock := l, sn_place := (sn_place s)(t := p), sn_held := (sn_held s)(t := held_after (sn_place s t) p (sn_held s t))\<rparr>)"

text \<open>
  A thread calls \<open>acquire\<close> (nested less than \<open>2\<^sup>6\<^sup>3 - 1\<close> times) or, when it has the lock, \<open>release\<close>, or makes its next access.
\<close>

inductive spin_next :: "spinners \<Rightarrow> spinners \<Rightarrow> bool" where
  acquire: "t \<noteq> 0 \<Longrightarrow> sn_place s t = Outside \<Longrightarrow> sn_held s t + 1 < 2 ^ 63 \<Longrightarrow> spin_next s (s\<lparr>sn_place := (sn_place s)(t := Try)\<rparr>)"
| release: "t \<noteq> 0 \<Longrightarrow> sn_place s t = Outside \<Longrightarrow> 0 < sn_held s t \<Longrightarrow> spin_next s (s\<lparr>sn_place := (sn_place s)(t := Drop)\<rparr>)"
| access: "t \<noteq> 0 \<Longrightarrow> sn_place s t \<noteq> Outside \<Longrightarrow> spin_next s (run_thread t s)"

inductive_cases spin_nextE: "spin_next s s'"

inductive spin_reach :: "spinners \<Rightarrow> bool" where
  start: "spin_reach spinners_new"
| step: "spin_reach s \<Longrightarrow> spin_next s s' \<Longrightarrow> spin_reach s'"

section \<open>The invariant\<close>

text \<open>What the owner's place says of the level and of the owner's acquisitions.\<close>

fun owner_ok :: "place \<Rightarrow> 64 word \<Rightarrow> nat \<Rightarrow> bool" where
  "owner_ok Outside l h \<longleftrightarrow> l = of_nat h \<and> 0 < h"
| "owner_ok Try l h \<longleftrightarrow> l = of_nat h \<and> h + 1 < 2 ^ 63"
| "owner_ok Count l h \<longleftrightarrow> l = of_nat h \<and> h + 1 < 2 ^ 63"
| "owner_ok (Counted n) l h \<longleftrightarrow> n = of_nat h \<and> l = n \<and> h + 1 < 2 ^ 63"
| "owner_ok Drop l h \<longleftrightarrow> l = of_nat h \<and> 0 < h"
| "owner_ok (Dropped n) l h \<longleftrightarrow> n = of_nat h \<and> l = n \<and> 0 < h"
| "owner_ok Reset l h \<longleftrightarrow> l = 0 \<and> h = 1"
| "owner_ok Free l h \<longleftrightarrow> l = 0 \<and> h = 1"

definition spin_inv :: "spinners \<Rightarrow> bool" where
  "spin_inv s \<longleftrightarrow>
     (\<forall>t. t \<noteq> 0 \<longrightarrow> sn_held s t < 2 ^ 63 \<and>
        (if sp_owner (sn_lock s) = t then owner_ok (sn_place s t) (sp_level (sn_lock s)) (sn_held s t)
         else sn_held s t = 0 \<and> (sn_place s t = Outside \<or> sn_place s t = Try))) \<and>
     (sp_owner (sn_lock s) = 0 \<longrightarrow> sp_level (sn_lock s) = 0)"

lemma level_positive: "0 < h \<Longrightarrow> h < 2 ^ 63 \<Longrightarrow> sint (of_nat h - 1 :: 64 word) \<le> 0 \<longleftrightarrow> h = 1"
proof -
  assume h: "0 < h" "h < 2 ^ 63"
  have "of_nat h - 1 = (of_nat (h - 1) :: 64 word)" using h(1) by (simp add: of_nat_diff)
  moreover have "sint (of_nat (h - 1) :: 64 word) = int (h - 1)" using h by (simp add: signed_of_nat signed_take_bit_int_eq_self del: of_nat_diff)
  ultimately show ?thesis using h by auto
qed

lemma inv_call:
  assumes "spin_inv s" "t \<noteq> 0" "sn_place s t = Outside" "p = Try \<and> sn_held s t + 1 < 2 ^ 63 \<or> p = Drop \<and> 0 < sn_held s t"
  shows "spin_inv (s\<lparr>sn_place := (sn_place s)(t := p)\<rparr>)"
  using assms by (auto simp: spin_inv_def split: if_splits)

text \<open>An access by the owner, and by another thread.\<close>

lemma owner_step:
  assumes "owner_ok p (sp_level l) h" "p \<noteq> Outside" "h < 2 ^ 63" "sp_owner l = t" "t \<noteq> 0" "spin_step t l p = (l', p')"
  shows "(sp_owner l' = t \<and> owner_ok p' (sp_level l') (held_after p p' h) \<or> sp_owner l' = 0 \<and> sp_level l' = 0 \<and> held_after p p' h = 0 \<and> p' = Outside) \<and>
    held_after p p' h < 2 ^ 63"
proof (cases p)
  case (Dropped n)
  then have h: "sint (n - 1) \<le> 0 \<longleftrightarrow> h = 1" using assms(1,3) level_positive [of h] by auto
  show ?thesis using Dropped assms h by (auto simp: held_after_def of_nat_diff split: if_splits)
qed (use assms in \<open>auto simp: held_after_def cas_def split: if_splits\<close>)

lemma other_step:
  assumes "p = Try" "sp_owner l \<noteq> t" "sp_owner l = 0 \<longrightarrow> sp_level l = 0" "t \<noteq> 0" "spin_step t l p = (l', p')"
  shows "p' = Try \<and> (l' = l \<and> sp_owner l \<noteq> 0 \<or> sp_owner l = 0 \<and> l' = l\<lparr>sp_owner := t\<rparr>)"
  using assms by (auto simp: cas_def split: if_splits)

lemma inv_access:
  assumes inv: "spin_inv s" and t: "t \<noteq> 0" "sn_place s t \<noteq> Outside"
  shows "spin_inv (run_thread t s)"
proof -
  let ?l = "sn_lock s" and ?p = "sn_place s t" and ?h = "sn_held s t"
  obtain l' p' where st: "spin_step t ?l ?p = (l', p')" by fastforce
  have h: "?h < 2 ^ 63" using inv t by (auto simp: spin_inv_def)
  show ?thesis
  proof (cases "sp_owner ?l = t")
    case True
    then have "owner_ok ?p (sp_level ?l) ?h" using inv t by (auto simp: spin_inv_def)
    note own = owner_step [OF this t(2) h True t(1) st]
    have "sn_held s u = 0 \<and> (sn_place s u = Outside \<or> sn_place s u = Try)" if "u \<noteq> 0" "u \<noteq> t" for u
      using inv that True by (auto simp: spin_inv_def split: if_splits)
    then show ?thesis using own t(1) st by (auto simp: spin_inv_def run_thread_def)
  next
    case False
    then have p: "?p = Try" "?h = 0" using inv t by (auto simp: spin_inv_def split: if_splits)
    have z: "sp_owner ?l = 0 \<longrightarrow> sp_level ?l = 0" using inv by (simp add: spin_inv_def)
    note oth = other_step [OF p(1) False z t(1) st]
    have "sp_owner ?l = 0 \<Longrightarrow> u \<noteq> 0 \<Longrightarrow> sn_held s u = 0 \<and> (sn_place s u = Outside \<or> sn_place s u = Try)" for u
      using inv by (auto simp: spin_inv_def split: if_splits)
    then show ?thesis using oth inv t(1) st p z by (auto simp: spin_inv_def run_thread_def held_after_def split: if_splits)
  qed
qed

lemma inv_reach: "spin_reach s \<Longrightarrow> spin_inv s"
proof (induction rule: spin_reach.induct)
  case start
  show ?case by (auto simp: spin_inv_def spinners_new_def spin_new_def)
next
  case (step s s')
  from step.hyps(2) show ?case
    by (cases rule: spin_nextE) (use step.IH in \<open>auto intro: inv_call inv_access\<close>)
qed

lemma holder_owns: "spin_inv s \<Longrightarrow> t \<noteq> 0 \<Longrightarrow> 0 < sn_held s t \<Longrightarrow>
    sp_owner (sn_lock s) = t \<and> owner_ok (sn_place s t) (sp_level (sn_lock s)) (sn_held s t)"
  by (metis less_irrefl spin_inv_def)

lemma other_holds_none: "spin_inv s \<Longrightarrow> u \<noteq> 0 \<Longrightarrow> sp_owner (sn_lock s) \<noteq> u \<Longrightarrow> sn_held s u = 0"
  by (metis spin_inv_def)

text \<open>A run of a thread on its own, as long as it takes.\<close>

definition run_for :: "nat \<Rightarrow> addr \<Rightarrow> spinners \<Rightarrow> spinners" where
  "run_for n t s = (run_thread t ^^ n) s"

lemma run_for_0: "run_for 0 t s = s" and run_for_Suc: "run_for (Suc n) t s = run_for n t (run_thread t s)"
  by (simp_all add: run_for_def funpow_Suc_right del: funpow.simps(2))

text \<open>A thread, 1, that has acquired the lock once.\<close>

definition sample_held :: spinners where
  "sample_held = \<lparr>sn_lock = \<lparr>sp_level = 1, sp_owner = 1\<rparr>, sn_place = (\<lambda>t. Outside), sn_held = (\<lambda>t. 0)(1 := 1)\<rparr>"

lemma sample_try: "spin_reach (spinners_new\<lparr>sn_place := (\<lambda>t. Outside)(1 := Try)\<rparr>)"
  using spin_reach.step [OF spin_reach.start spin_next.acquire [of 1 spinners_new]] by (simp add: spinners_new_def)

lemma reach_run: "spin_reach s \<Longrightarrow> t \<noteq> 0 \<Longrightarrow> spin_reach (run_for n t s)"
proof (induction n arbitrary: s)
  case (Suc n)
  show ?case
  proof (cases "sn_place s t = Outside")
    case True
    then have "run_thread t s = s" by (simp add: run_thread_def held_after_def fun_upd_idem)
    then show ?thesis using Suc by (simp add: run_for_Suc)
  qed (use Suc in \<open>auto simp: run_for_Suc intro: spin_reach.step spin_next.access\<close>)
qed (simp add: run_for_0)

lemma sample_reach: "spin_reach sample_held"
proof -
  have "run_for 4 1 (spinners_new\<lparr>sn_place := (\<lambda>t. Outside)(1 := Try)\<rparr>) = sample_held"
    by (simp add: eval_nat_numeral run_for_Suc run_for_0 run_thread_def held_after_def cas_def spinners_new_def spin_new_def sample_held_def fun_upd_idem)
  then show ?thesis using reach_run [OF sample_try, of 1 4] by simp
qed

section \<open>What the lock promises\<close>

text \<open>
  C7. In every interleaving of the threads' accesses at most one thread is between \<open>acquire\<close> and \<open>release\<close>. It is the owner, the lock
  is taken, and outside the operations the level is the number of acquisitions it has not released.
\<close>

theorem spin_excludes:
  assumes "spin_reach s" "t \<noteq> 0" "0 < sn_held s t"
  shows "(\<forall>u. u \<noteq> 0 \<and> 0 < sn_held s u \<longrightarrow> u = t) \<and> sp_owner (sn_lock s) = t \<and> spin_taken (sn_lock s) \<and>
    (sn_place s t = Outside \<longrightarrow> sp_level (sn_lock s) = of_nat (sn_held s t))"
proof -
  note inv = inv_reach [OF assms(1)]
  note own = holder_owns [OF inv assms(2,3)]
  have "\<forall>u. u \<noteq> 0 \<and> 0 < sn_held s u \<longrightarrow> u = t" using holder_owns [OF inv] own by blast
  moreover have "sn_place s t = Outside \<longrightarrow> sp_level (sn_lock s) = of_nat (sn_held s t)" using own by auto
  ultimately show ?thesis using own assms(2) by (simp add: spin_taken_def)
qed

theorem spin_excludes_witness: "sp_owner (sn_lock sample_held) = 1 \<and> sp_level (sn_lock sample_held) = 1"
  using spin_excludes [OF sample_reach, of 1] by (simp add: sample_held_def)

lemma run_counting:
  assumes "sn_place s t = Count" "sn_lock s = l"
  shows "run_for 2 t s = s\<lparr>sn_lock := l\<lparr>sp_level := sp_level l + 1\<rparr>, sn_place := (sn_place s)(t := Outside), sn_held := (sn_held s)(t := sn_held s t + 1)\<rparr>"
  using assms by (simp add: numeral_2_eq_2 run_for_0 run_for_Suc run_thread_def held_after_def)

lemma run_trying:
  assumes "sn_place s t = Try" "sp_owner (sn_lock s) = 0 \<or> sp_owner (sn_lock s) = t" "t \<noteq> 0"
  shows "\<exists>n \<le> 4. run_for n t s = s\<lparr>sn_lock := \<lparr>sp_level = sp_level (sn_lock s) + 1, sp_owner = t\<rparr>, sn_place := (sn_place s)(t := Outside),
    sn_held := (sn_held s)(t := sn_held s t + 1)\<rparr>"
proof (cases "sp_owner (sn_lock s) = t")
  case True
  let ?s = "s\<lparr>sn_place := (sn_place s)(t := Count)\<rparr>"
  have "run_thread t s = ?s" using assms(1,3) True by (simp add: run_thread_def cas_def held_after_def)
  then have "run_for 3 t s = run_for 2 t ?s" by (simp add: numeral_3_eq_3 numeral_2_eq_2 run_for_Suc)
  then show ?thesis using run_counting [of ?s t "sn_lock s"] True by (intro exI [of _ 3]) auto
next
  case False
  then have 0: "sp_owner (sn_lock s) = 0" using assms(2) by simp
  let ?l = "(sn_lock s)\<lparr>sp_owner := t\<rparr>"
  let ?s = "s\<lparr>sn_lock := ?l, sn_place := (sn_place s)(t := Count)\<rparr>"
  have "run_thread t s = s\<lparr>sn_lock := ?l, sn_place := (sn_place s)(t := Try)\<rparr>"
    using assms(1,3) 0 by (simp add: run_thread_def cas_def held_after_def)
  moreover have "run_thread t (s\<lparr>sn_lock := ?l, sn_place := (sn_place s)(t := Try)\<rparr>) = ?s"
    using assms(3) by (simp add: run_thread_def cas_def held_after_def fun_upd_idem_iff)
  ultimately have "run_for 4 t s = run_for 2 t ?s" by (simp add: eval_nat_numeral run_for_Suc)
  then show ?thesis using run_counting [of ?s t ?l] by (intro exI [of _ 4]) auto
qed

lemma run_dropping:
  assumes "sn_place s t = Drop" "sp_level (sn_lock s) = of_nat h" "0 < h" "h < 2 ^ 63"
  shows "\<exists>n \<le> 4. run_for n t s = s\<lparr>sn_lock := (if h = 1 then spin_new else (sn_lock s)\<lparr>sp_level := of_nat (h - 1)\<rparr>),
    sn_place := (sn_place s)(t := Outside), sn_held := (sn_held s)(t := sn_held s t - 1)\<rparr>"
proof -
  have lv: "of_nat h - 1 = (of_nat (h - 1) :: 64 word)" using assms(3) by (simp add: of_nat_diff)
  have le: "sint (of_nat (h - 1) :: 64 word) \<le> 0 \<longleftrightarrow> h = 1" using level_positive [OF assms(3,4)] lv by simp
  show ?thesis
  proof (cases "h = 1")
    case True
    then have "run_for 4 t s = s\<lparr>sn_lock := spin_new, sn_place := (sn_place s)(t := Outside), sn_held := (sn_held s)(t := sn_held s t - 1)\<rparr>"
      using assms(1,2) by (simp add: eval_nat_numeral run_for_Suc run_for_0 run_thread_def held_after_def spin_new_def)
    then show ?thesis using True by (intro exI [of _ 4]) simp
  next
    case False
    then have "run_for 2 t s = s\<lparr>sn_lock := (sn_lock s)\<lparr>sp_level := of_nat (h - 1)\<rparr>, sn_place := (sn_place s)(t := Outside),
        sn_held := (sn_held s)(t := sn_held s t - 1)\<rparr>"
      using assms(1,2) le lv by (simp add: numeral_2_eq_2 run_for_Suc run_for_0 run_thread_def held_after_def)
    then show ?thesis using False by (intro exI [of _ 2]) simp
  qed
qed

text \<open>
  A thread that tries a lock that is free or its own has it after at most four accesses of its own, one acquisition deeper; and the
  \<open>release\<close> that undoes its last acquisition frees the lock in at most four accesses. So a free lock is not lost.
\<close>

theorem spin_progress:
  assumes "spin_reach s" "t \<noteq> 0"
  shows "(sn_place s t = Try \<and> \<not> (spin_taken (sn_lock s) \<and> sp_owner (sn_lock s) \<noteq> t) \<longrightarrow>
      (\<exists>n \<le> 4. sn_place (run_for n t s) t = Outside \<and> sn_held (run_for n t s) t = sn_held s t + 1 \<and> sp_owner (sn_lock (run_for n t s)) = t)) \<and>
    (sn_place s t = Drop \<longrightarrow>
      (\<exists>n \<le> 4. sn_place (run_for n t s) t = Outside \<and> sn_held (run_for n t s) t = sn_held s t - 1 \<and>
        (spin_taken (sn_lock (run_for n t s)) \<longleftrightarrow> 1 < sn_held s t)))"
proof (intro conjI impI)
  assume "sn_place s t = Try \<and> \<not> (spin_taken (sn_lock s) \<and> sp_owner (sn_lock s) \<noteq> t)"
  then obtain n where "n \<le> 4" "run_for n t s = s\<lparr>sn_lock := \<lparr>sp_level = sp_level (sn_lock s) + 1, sp_owner = t\<rparr>, sn_place := (sn_place s)(t := Outside),
    sn_held := (sn_held s)(t := sn_held s t + 1)\<rparr>"
    using run_trying [of s t] assms(2) by (auto simp: spin_taken_def)
  then show "\<exists>n \<le> 4. sn_place (run_for n t s) t = Outside \<and> sn_held (run_for n t s) t = sn_held s t + 1 \<and> sp_owner (sn_lock (run_for n t s)) = t"
    by (intro exI [of _ n]) simp
next
  assume drop: "sn_place s t = Drop"
  have inv: "sp_owner (sn_lock s) = t" "sp_level (sn_lock s) = of_nat (sn_held s t)" "0 < sn_held s t" "sn_held s t < 2 ^ 63"
    using inv_reach [OF assms(1)] assms(2) drop by (auto simp: spin_inv_def split: if_splits)
  obtain n where "n \<le> 4" "run_for n t s = s\<lparr>sn_lock := (if sn_held s t = 1 then spin_new else (sn_lock s)\<lparr>sp_level := of_nat (sn_held s t - 1)\<rparr>),
    sn_place := (sn_place s)(t := Outside), sn_held := (sn_held s)(t := sn_held s t - 1)\<rparr>"
    using run_dropping [OF drop inv(2-4)] by blast
  then show "\<exists>n \<le> 4. sn_place (run_for n t s) t = Outside \<and> sn_held (run_for n t s) t = sn_held s t - 1 \<and>
      (spin_taken (sn_lock (run_for n t s)) \<longleftrightarrow> 1 < sn_held s t)"
    using inv assms(2) by (intro exI [of _ n]) (auto simp: spin_taken_def spin_new_def)
qed

theorem spin_progress_witness:
  "(\<exists>n \<le> 4. sn_held (run_for n 1 (spinners_new\<lparr>sn_place := (\<lambda>t. Outside)(1 := Try)\<rparr>)) 1 = 1)"
  using spin_progress [OF sample_try, of 1] by (auto simp: spinners_new_def spin_new_def spin_taken_def)

text \<open>
  \<open>release\<close> does not ask who calls it: a thread \<open>u\<close> that never acquired the lock takes it from the thread that has it, and after
  its own \<open>acquire\<close> both are inside.
\<close>

theorem rogue_release:
  assumes "spin_reach s" "t \<noteq> 0" "sn_held s t = 1" "sn_place s t = Outside" "u \<noteq> 0" "u \<noteq> t" "sn_place s u = Outside"
  shows "\<exists>n m s' s''. s' = run_for n u (s\<lparr>sn_place := (sn_place s)(u := Drop)\<rparr>) \<and> \<not> spin_taken (sn_lock s') \<and>
    s'' = run_for m u (s'\<lparr>sn_place := (sn_place s')(u := Try)\<rparr>) \<and> sn_place s'' u = Outside \<and> sn_held s'' u = 1 \<and> sn_held s'' t = 1 \<and> sn_place s'' t = Outside"
proof -
  let ?s = "s\<lparr>sn_place := (sn_place s)(u := Drop)\<rparr>"
  have inv: "sp_owner (sn_lock s) = t" "sp_level (sn_lock s) = of_nat 1" "sn_held s u = 0"
    using holder_owns [OF inv_reach [OF assms(1)] assms(2)] other_holds_none [OF inv_reach [OF assms(1)] assms(5)] assms(3,4,6) by simp_all
  obtain n where n: "run_for n u ?s = s\<lparr>sn_lock := spin_new, sn_place := (sn_place s)(u := Outside), sn_held := (sn_held s)(u := 0)\<rparr>"
  proof -
    have "\<exists>n \<le> 4. run_for n u ?s = ?s\<lparr>sn_lock := (if 1 = (1 :: nat) then spin_new else (sn_lock ?s)\<lparr>sp_level := of_nat (1 - 1)\<rparr>),
        sn_place := (sn_place ?s)(u := Outside), sn_held := (sn_held ?s)(u := sn_held ?s u - 1)\<rparr>"
      by (rule run_dropping) (use inv in simp_all)
    then show thesis by (elim exE conjE) (rule that, simp add: inv(3))
  qed
  define s' where "s' = run_for n u ?s"
  let ?t = "s'\<lparr>sn_place := (sn_place s')(u := Try)\<rparr>"
  obtain m where "run_for m u ?t = ?t\<lparr>sn_lock := \<lparr>sp_level = 1, sp_owner = u\<rparr>, sn_place := (sn_place s')(u := Outside), sn_held := (sn_held s')(u := 1)\<rparr>"
    using run_trying [of ?t u] n assms(5) by (auto simp: s'_def spin_new_def)
  then show ?thesis using n assms(3,4,6)
    by (intro exI [of _ n] exI [of _ m] exI [of _ s'] exI [of _ "run_for m u ?t"]) (auto simp: s'_def spin_taken_def spin_new_def)
qed

theorem rogue_release_witness: "\<exists>n m s' s''. s' = run_for n 2 (sample_held\<lparr>sn_place := (sn_place sample_held)(2 := Drop)\<rparr>) \<and>
    s'' = run_for m 2 (s'\<lparr>sn_place := (sn_place s')(2 := Try)\<rparr>) \<and> sn_held s'' 2 = 1 \<and> sn_held s'' 1 = 1"
proof -
  have h: "sn_held sample_held 1 = 1" and o: "sn_place sample_held u = Outside" for u by (simp_all add: sample_held_def)
  have two: "(2 :: addr) \<noteq> 0" "(2 :: addr) \<noteq> 1" by simp_all
  show ?thesis using rogue_release [OF sample_reach one_neq_zero h o two o] by (elim exE conjE) (intro exI conjI, assumption+)
qed

section \<open>The flat lock\<close>

text \<open>\<open>Simple_Spin\<close> knows no owner: a thread tries, and has the lock until it releases it.\<close>

datatype simple_place = Away | Trying | Inside

fun simple_acquire :: "bool \<Rightarrow> bool \<times> simple_place" where
  "simple_acquire locked = (let (v, old) = tsl_lock locked in (v, if old then Trying else Inside))"

definition simple_release :: "bool \<Rightarrow> bool" where
  "simple_release locked = False"

inductive simple_reach :: "bool \<Rightarrow> (addr \<Rightarrow> simple_place) \<Rightarrow> bool" where
  start: "simple_reach False (\<lambda>t. Away)"
| attempt: "simple_reach l p \<Longrightarrow> p t = Away \<Longrightarrow> simple_reach l (p(t := Trying))"
| access: "simple_reach l p \<Longrightarrow> p t = Trying \<Longrightarrow> simple_acquire l = (l', q) \<Longrightarrow> simple_reach l' (p(t := q))"
| leave: "simple_reach l p \<Longrightarrow> p t = Inside \<Longrightarrow> simple_reach (simple_release l) (p(t := Away))"

lemma simple_spin_inside: "simple_reach l p \<Longrightarrow> if l then \<exists>t. \<forall>u. p u = Inside \<longleftrightarrow> u = t else \<forall>u. p u \<noteq> Inside"
proof (induction rule: simple_reach.induct)
  case (attempt l p t)
  then have "(p(t := Trying)) u = Inside \<longleftrightarrow> p u = Inside" for u by simp
  then show ?case using attempt.IH by simp
next
  case (access l p t l' q)
  then have q: "l'" "q = (if l then Trying else Inside)" by (auto simp: tsl_lock_def)
  show ?case
  proof (cases l)
    case True
    then have "(p(t := q)) u = Inside \<longleftrightarrow> p u = Inside" for u using access.hyps(2) q by simp
    then show ?thesis using access.IH True q(1) by simp
  next
    case False
    then have "(p(t := q)) u = Inside \<longleftrightarrow> u = t" for u using access.IH q by simp
    then show ?thesis using q(1) by auto
  qed
next
  case (leave l p t)
  then obtain v where v: "\<And>u. p u = Inside \<longleftrightarrow> u = v" by (auto split: if_splits)
  then have "(p(t := Away)) u \<noteq> Inside" for u using leave.hyps(2) by simp
  then show ?case by (simp add: simple_release_def)
qed simp

lemma simple_spin_excludes: "simple_reach l p \<Longrightarrow> p t = Inside \<Longrightarrow> p u = Inside \<Longrightarrow> l \<and> t = u"
proof -
  assume a: "simple_reach l p" "p t = Inside" "p u = Inside"
  have l: "l" using simple_spin_inside [OF a(1)] a(2) by (auto split: if_splits)
  then obtain v where "\<And>u. p u = Inside \<longleftrightarrow> u = v" using simple_spin_inside [OF a(1)] by auto
  then show ?thesis using a l by simp
qed

text \<open>The flat lock is not recursive: the thread that has it and tries again tries for ever.\<close>

lemma simple_spin_not_recursive: "simple_reach l p \<Longrightarrow> p t = Inside \<Longrightarrow> simple_acquire l = (True, Trying)"
  using simple_spin_excludes [of l p t t] by (simp add: tsl_lock_def)

end
