(* ===== verification/Simple_Grouping_List.thy ===== *)
theory Simple_Grouping_List
  imports Simple_List Grouping_List
begin

text \<open>
  \<open>Simple_Grouping_List\<close> of \<open>include/utility/list.h\<close>, the singly-linked list of runs. It works in another order than
  \<open>Grouping_List\<close> (a new run is linked last, and only when it does not extend the run on its left), and is shown to leave
  the same runs.
\<close>

section \<open>The class\<close>

record simple_grouping_list =
  sg_list :: simple_list
  sg_grouped :: ulong

definition sgl_new :: simple_grouping_list where
  "sgl_new = \<lparr>sg_list = sl_new, sg_grouped = 0\<rparr>"

partial_function (option) sgl_search_size_from :: "ulong \<Rightarrow> ulong \<Rightarrow> 'm elem_grouping_scheme store \<Rightarrow> addr \<Rightarrow> ulong \<Rightarrow> addr option" where
  "sgl_search_size_from osz esz h e s =
     (if e = 0 then Some 0
      else do {
        x \<leftarrow> load h e;
        if (if osz < esz then ssize x < esz div osz + s \<and> ssize x \<noteq> s else ssize x < s)
        then sgl_search_size_from osz esz h (nxt x) s
        else Some e })"

definition sgl_search_size :: "ulong \<Rightarrow> ulong \<Rightarrow> 'm elem_grouping_scheme store \<Rightarrow> simple_grouping_list \<Rightarrow> ulong \<Rightarrow> addr option" where
  "sgl_search_size osz esz h g s = sgl_search_size_from osz esz h (sl_head (sg_list g)) s"

partial_function (option) sgl_search_left_from :: "ulong \<Rightarrow> 'm elem_grouping_scheme store \<Rightarrow> addr \<Rightarrow> addr \<Rightarrow> addr option" where
  "sgl_search_left_from osz h e ob =
     (if e = 0 then Some 0
      else do {
        x \<leftarrow> load h e;
        if obj x + ssize x * osz \<noteq> ob then sgl_search_left_from osz h (nxt x) ob else Some e })"

definition sgl_search_left :: "ulong \<Rightarrow> 'm elem_grouping_scheme store \<Rightarrow> simple_grouping_list \<Rightarrow> addr \<Rightarrow> addr option" where
  "sgl_search_left osz h g ob = sgl_search_left_from osz h (sl_head (sg_list g)) ob"

text \<open>The two conditional steps of \<open>insert_merging\<close>, each with its output argument, and the method.\<close>

definition sgl_merge_right ::
  "'m elem_grouping_scheme store \<Rightarrow> simple_list \<Rightarrow> addr \<Rightarrow> addr \<Rightarrow> ('m elem_grouping_scheme store \<times> simple_list \<times> addr) option" where
  "sgl_merge_right h b e r =
     (if r \<noteq> 0
      then do {
        x \<leftarrow> load h e; y \<leftarrow> load h r;
        h \<leftarrow> modify h e (ssize_update (\<lambda>_. ssize x + ssize y));
        (h, b, _) \<leftarrow> sl_remove h b r;
        Some (h, b, r) }
      else Some (h, b, 0))"

definition sgl_merge_left ::
  "'m elem_grouping_scheme store \<Rightarrow> simple_list \<Rightarrow> addr \<Rightarrow> addr \<Rightarrow> ('m elem_grouping_scheme store \<times> simple_list \<times> addr) option" where
  "sgl_merge_left h b e l =
     (if l \<noteq> 0
      then do {
        y \<leftarrow> load h l; x \<leftarrow> load h e;
        h \<leftarrow> modify h l (ssize_update (\<lambda>_. ssize y + ssize x));
        Some (h, b, e) }
      else do { (h, b) \<leftarrow> sl_insert_tail h b e; Some (h, b, 0) })"

definition sgl_insert_merging ::
  "ulong \<Rightarrow> 'm elem_grouping_scheme store \<Rightarrow> simple_grouping_list \<Rightarrow> addr \<Rightarrow>
   ('m elem_grouping_scheme store \<times> simple_grouping_list \<times> addr \<times> addr) option" where
  "sgl_insert_merging osz h g e = do {
     x \<leftarrow> load h e;
     r \<leftarrow> sl_search h (sg_list g) (obj x + ssize x * osz);
     l \<leftarrow> sgl_search_left osz h g (obj x);
     (h, b, m1) \<leftarrow> sgl_merge_right h (sg_list g) e r;
     (h, b, m2) \<leftarrow> sgl_merge_left h b e l;
     Some (h, \<lparr>sg_list = b, sg_grouped = sg_grouped g + ssize x\<rparr>, m1, m2) }"

definition sgl_search_decrementing ::
  "ulong \<Rightarrow> ulong \<Rightarrow> 'm elem_grouping_scheme store \<Rightarrow> simple_grouping_list \<Rightarrow> ulong \<Rightarrow>
   ('m elem_grouping_scheme store \<times> simple_grouping_list \<times> addr) option" where
  "sgl_search_decrementing osz esz h g s = do {
     e \<leftarrow> sgl_search_size osz esz h g s;
     if e \<noteq> 0
     then do {
       h \<leftarrow> modify h e (\<lambda>x. x\<lparr>ssize := ssize x - s\<rparr>);
       x \<leftarrow> load h e;
       (h, b) \<leftarrow> (if ssize x = 0 then do { (h, b, _) \<leftarrow> sl_remove h (sg_list g) e; Some (h, b) } else Some (h, sg_list g));
       Some (h, \<lparr>sg_list = b, sg_grouped = sg_grouped g - s\<rparr>, e) }
     else Some (h, g, 0) }"

section \<open>Sizes\<close>

definition ssize_of :: "'m elem_grouping_scheme store \<Rightarrow> addr \<Rightarrow> ulong" where
  "ssize_of h a = (case h a of None \<Rightarrow> 0 | Some x \<Rightarrow> ssize x)"

lemma ssize_of_Some [simp]: "h a = Some x \<Longrightarrow> ssize_of h a = ssize x"
  by (simp add: ssize_of_def)

lemma ssize_of_upd [simp]: "ssize_of (h(a \<mapsto> x)) = (ssize_of h)(a := ssize x)"
  by (auto simp: ssize_of_def fun_eq_iff)

lemma ssize_of_same: "same_data h h' \<Longrightarrow> ssize_of h' = ssize_of h"
proof
  fix a
  assume sd: "same_data h h'"
  show "ssize_of h' a = ssize_of h a"
  proof (cases "h a")
    case None
    then have "h' a = None" using sd by (simp add: same_data_def) (metis option.map_disc_iff)
    then show ?thesis using None by (simp add: ssize_of_def)
  next
    case (Some x)
    then show ?thesis using same_dataD [OF sd Some] by auto
  qed
qed

lemma simple_rep_ssize: "simple_rep h b as \<Longrightarrow> h e = Some x \<Longrightarrow> simple_rep (h(e \<mapsto> x\<lparr>ssize := s\<rparr>)) b as"
  by (erule simple_rep_cong) auto

section \<open>Searching\<close>

lemma sgl_search_left_rep: "simple_rep h (sg_list g) as \<Longrightarrow> (\<And>a. a \<in> set as \<Longrightarrow> map_option obj (h a) = Some a) \<Longrightarrow>
    sgl_search_left 1 h g ob = Some (left_of (ssize_of h) as ob)"
proof -
  have "chain h p as 0 \<Longrightarrow> (\<And>a. a \<in> set as \<Longrightarrow> map_option obj (h a) = Some a) \<Longrightarrow>
      sgl_search_left_from 1 h p ob = Some (left_of (ssize_of h) as ob)" for p
    unfolding left_of_def
  proof (induction as arbitrary: p)
    case Nil
    then show ?case by (simp add: sgl_search_left_from.simps)
  next
    case (Cons a as)
    then obtain x where "h a = Some x" "obj x = a" by fastforce
    then show ?case using Cons by (auto simp: sgl_search_left_from.simps [of 1 h a] store_simps)
  qed
  then show "simple_rep h (sg_list g) as \<Longrightarrow> (\<And>a. a \<in> set as \<Longrightarrow> map_option obj (h a) = Some a) \<Longrightarrow>
      sgl_search_left 1 h g ob = Some (left_of (ssize_of h) as ob)"
    by (simp add: sgl_search_left_def simple_rep_def)
qed

lemma sgl_search_size_rep: "simple_rep h (sg_list g) as \<Longrightarrow> 1 < esz \<Longrightarrow> sgl_search_size 1 esz h g s = Some (fit_of esz (ssize_of h) as s)"
proof -
  have "chain h p as 0 \<Longrightarrow> 1 < esz \<Longrightarrow> sgl_search_size_from 1 esz h p s = Some (fit_of esz (ssize_of h) as s)" for p
    unfolding fit_of_def
  proof (induction as arbitrary: p)
    case Nil
    then show ?case by (simp add: sgl_search_size_from.simps)
  next
    case (Cons a as)
    then show ?case by (auto simp: sgl_search_size_from.simps [of 1 esz h a] store_simps not_less)
  qed
  then show "simple_rep h (sg_list g) as \<Longrightarrow> 1 < esz \<Longrightarrow> sgl_search_size 1 esz h g s = Some (fit_of esz (ssize_of h) as s)"
    by (simp add: sgl_search_size_def simple_rep_def)
qed

section \<open>The operations\<close>

lemma sgl_merge_right_rep:
  assumes rep: "simple_rep h b bs" and e: "e \<noteq> 0" "h e = Some x" "e \<notin> set bs" and r: "r \<noteq> 0 \<Longrightarrow> r \<in> set bs"
  shows "\<exists>h' b'. sgl_merge_right h b e r = Some (h', b', r) \<and> simple_rep h' b' (if r = 0 then bs else remove1 r bs) \<and>
           ssize_of h' = (ssize_of h)(e := ssize x + (if r = 0 then 0 else ssize_of h r)) \<and> same_obj h h'"
proof (cases "r = 0")
  case True
  then show ?thesis using rep e by (auto simp: sgl_merge_right_def fun_eq_iff)
next
  case False
  then obtain us vs where bs: "bs = us @ r # vs" using r by (meson split_list)
  have d: "r \<notin> set us" using rep bs by (auto simp: simple_rep_def)
  obtain y where y: "h r = Some y" using simple_rep_mapped [OF rep] r False by blast
  let ?h = "h(e \<mapsto> x\<lparr>ssize := ssize x + ssize y\<rparr>)"
  obtain h' b' where t: "sl_remove ?h b r = Some (h', b', r)" "simple_rep h' b' (us @ vs)" "same_data ?h h'"
    using sl_remove_rep [of ?h b us r vs] simple_rep_ssize [OF rep e(2)] bs by auto
  have "same_obj h h'" using same_obj_trans [OF _ same_obj_data [OF t(3)]] e by simp
  moreover have "ssize_of h' = (ssize_of h)(e := ssize x + ssize_of h r)" using ssize_of_same [OF t(3)] y by simp
  ultimately show ?thesis using False t y e d bs by (auto simp: sgl_merge_right_def store_simps remove1_append)
qed

lemma sgl_merge_left_rep:
  assumes rep: "simple_rep h b bs" and e: "e \<noteq> 0" "h e = Some x" "e \<notin> set bs" and l: "l \<noteq> 0 \<Longrightarrow> h l = Some y"
  shows "\<exists>h' b'. sgl_merge_left h b e l = Some (h', b', if l = 0 then 0 else e) \<and> simple_rep h' b' (if l = 0 then bs @ [e] else bs) \<and>
           ssize_of h' = (if l = 0 then ssize_of h else (ssize_of h)(l := ssize y + ssize x)) \<and> same_obj h h'"
proof (cases "l = 0")
  case True
  obtain h' b' where t: "sl_insert_tail h b e = Some (h', b')" "simple_rep h' b' (bs @ [e])" "same_data h h'"
    using sl_insert_tail_rep [OF rep e] by blast
  then show ?thesis using True ssize_of_same [OF t(3)] same_obj_data [OF t(3)] by (simp add: sgl_merge_left_def)
next
  case False
  then show ?thesis using simple_rep_ssize [OF rep l] l e by (auto simp: sgl_merge_left_def store_simps)
qed

text \<open>A new run is merged with its neighbours exactly as \<open>Grouping_List\<close> does it.\<close>

lemma sgl_insert_merging_rep:
  assumes rep: "simple_rep h (sg_list g) as" and e: "e \<noteq> 0" "h e = Some x" "obj x = e" "e \<notin> set as" "ssize x \<noteq> 0"
    and obj: "\<And>a. a \<in> set as \<Longrightarrow> map_option obj (h a) = Some a"
  shows "\<exists>h' g' m1 m2. sgl_insert_merging 1 h g e = Some (h', g', m1, m2) \<and>
           simple_rep h' (sg_list g') (merged_list (ssize_of h) as e) \<and> ssize_of h' = merged_size (ssize_of h) as e \<and>
           sg_grouped g' = sg_grouped g + ssize x \<and> same_obj h h'"
proof -
  let ?l = "left_of (ssize_of h) as e" and ?r = "right_of (ssize_of h) as e"
  define bs where "bs = (if ?r = 0 then as else remove1 ?r as)"
  have r0: "?r \<noteq> 0 \<Longrightarrow> ?r \<in> set as" by (auto simp: right_of_def split: if_splits)
  have r: "sl_search h (sg_list g) (obj x + ssize x * 1) = Some ?r"
    using sl_search_rep [OF rep] find_obj_self [of as h, OF obj] e by (simp add: right_of_def)
  have l: "sgl_search_left 1 h g (obj x) = Some ?l" using sgl_search_left_rep [OF rep obj] e(3) by simp
  obtain h1 b1 where 1: "sgl_merge_right h (sg_list g) e ?r = Some (h1, b1, ?r)" "simple_rep h1 b1 bs"
    "ssize_of h1 = (ssize_of h)(e := ssize x + (if ?r = 0 then 0 else ssize_of h ?r))" "same_obj h h1"
    using sgl_merge_right_rep [OF rep e(1,2,4) r0] unfolding bs_def by blast
  have e_bs: "e \<notin> set bs" using e(4) notin_set_remove1 [of e as] by (auto simp: bs_def)
  obtain x1 where x1: "h1 e = Some x1" using same_obj_Some [OF 1(4) e(2)] by auto
  then have sx1: "ssize x1 = ssize x + (if ?r = 0 then 0 else ssize_of h ?r)" using 1(3) ssize_of_Some [of h1 e x1] by (metis fun_upd_same)
  have "?l \<noteq> 0 \<Longrightarrow> \<exists>y. h1 ?l = Some y"
    using left_of_in [of "ssize_of h" as e] simple_rep_mapped [OF rep] same_obj_Some [OF 1(4)] by blast
  then obtain y where y: "?l \<noteq> 0 \<Longrightarrow> h1 ?l = Some y" by blast
  have le: "?l \<noteq> 0 \<Longrightarrow> ?l \<noteq> e" using left_of_in [of "ssize_of h" as e] e(4) by auto
  then have sy: "?l \<noteq> 0 \<Longrightarrow> ssize y = ssize_of h ?l" using 1(3) ssize_of_Some [of h1 ?l y] y by (metis fun_upd_other)
  obtain h2 b2 where 2: "sgl_merge_left h1 b1 e ?l = Some (h2, b2, if ?l = 0 then 0 else e)"
    "simple_rep h2 b2 (if ?l = 0 then bs @ [e] else bs)"
    "ssize_of h2 = (if ?l = 0 then ssize_of h1 else (ssize_of h1)(?l := ssize y + ssize x1))" "same_obj h1 h2"
    using sgl_merge_left_rep [OF 1(2) e(1) x1 e_bs y] by blast
  have "merged_list (ssize_of h) as e = (if ?l = 0 then bs @ [e] else bs)"
    using r0 e(4) by (auto simp: merged_list_def bs_def Let_def remove1_append)
  moreover have "ssize_of h2 = merged_size (ssize_of h) as e"
    using 2(3) 1(3) sx1 sy e(2) by (auto simp: merged_size_def Let_def fun_eq_iff)
  moreover have "sgl_insert_merging 1 h g e =
      Some (h2, \<lparr>sg_list = b2, sg_grouped = sg_grouped g + ssize x\<rparr>, ?r, if ?l = 0 then 0 else e)"
    using r l 1(1) 2(1) e by (simp add: sgl_insert_merging_def store_simps)
  ultimately show ?thesis using 2(2) same_obj_trans [OF 1(4) 2(4)] by simp
qed

text \<open>A request is served from the end of the same run as in \<open>Grouping_List\<close>; a run that is used up is unlinked.\<close>

lemma sgl_search_decrementing_rep:
  assumes rep: "simple_rep h (sg_list g) as" and esz: "1 < esz"
    and e_def: "e = fit_of esz (ssize_of h) as s"
  shows "if e = 0 then sgl_search_decrementing 1 esz h g s = Some (h, g, 0)
    else \<exists>h' g'. sgl_search_decrementing 1 esz h g s = Some (h', g', e) \<and>
      simple_rep h' (sg_list g') (if ssize_of h e = s then remove1 e as else as) \<and>
      ssize_of h' = (ssize_of h)(e := ssize_of h e - s) \<and> sg_grouped g' = sg_grouped g - s \<and> same_obj h h'"
proof (cases "e = 0")
  case True
  then show ?thesis using sgl_search_size_rep [OF rep esz] by (simp add: sgl_search_decrementing_def e_def)
next
  case False
  then have e_in: "e \<in> set as" using fit_of_in [of esz "ssize_of h" as s] by (auto simp: e_def)
  then obtain x where x: "h e = Some x" using simple_rep_mapped [OF rep] by blast
  let ?h = "h(e \<mapsto> x\<lparr>ssize := ssize x - s\<rparr>)"
  have rep1: "simple_rep ?h (sg_list g) as" using simple_rep_ssize [OF rep x] .
  have search: "sgl_search_size 1 esz h g s = Some e" using sgl_search_size_rep [OF rep esz] by (simp add: e_def)
  show ?thesis
  proof (cases "ssize x = s")
    case no: False
    then have "sgl_search_decrementing 1 esz h g s = Some (?h, \<lparr>sg_list = sg_list g, sg_grouped = sg_grouped g - s\<rparr>, e)"
      using search x False by (simp add: sgl_search_decrementing_def store_simps)
    then show ?thesis using rep1 no x False by auto
  next
    case True
    obtain us vs where as: "as = us @ e # vs" using e_in by (meson split_list)
    have d: "e \<notin> set us" using rep as by (auto simp: simple_rep_def)
    obtain h' b where t: "sl_remove ?h (sg_list g) e = Some (h', b, e)" "simple_rep h' b (us @ vs)" "same_data ?h h'"
      using sl_remove_rep [of ?h "sg_list g" us e vs] rep1 as by auto
    have "sgl_search_decrementing 1 esz h g s = Some (h', \<lparr>sg_list = b, sg_grouped = sg_grouped g - s\<rparr>, e)"
      using True search x False t(1) by (simp add: sgl_search_decrementing_def store_simps)
    moreover have "same_obj h h'" using same_obj_trans [OF _ same_obj_data [OF t(3)]] x by simp
    ultimately show ?thesis using t(2) ssize_of_same [OF t(3)] True x as d False by (simp add: remove1_append)
  qed
qed

end
