(* ===== verification/Observers.thy ===== *)
theory Observers
  imports Simple_Ordered_List
begin

text \<open>
  The observer utility, \<open>include/utility/observer.h\<close>: \<open>Observed\<close>, \<open>Conditionally_Observed\<close> and \<open>Data_Observed\<close> with and without
  a condition. An observed object keeps the links of its observers in a \<open>Simple_List\<close> or, by condition, in a
  \<open>Simple_Ordered_List\<close>; an observer is known by its address, and its \<open>update\<close> is an argument of \<open>notify\<close> that may change the
  links and the rest of the world. Data are part of the world.
\<close>

section \<open>The operations\<close>

definition observed_attach :: "'m elem_scheme store \<Rightarrow> simple_list \<Rightarrow> addr \<Rightarrow> ('m elem_scheme store \<times> simple_list) option" where
  "observed_attach h q link = sl_insert h q link"

definition observed_detach :: "'m elem_scheme store \<Rightarrow> simple_list \<Rightarrow> addr \<Rightarrow> ('m elem_scheme store \<times> simple_list) option" where
  "observed_detach h q link = do { (h, q, _) \<leftarrow> sl_remove h q link; Some (h, q) }"

partial_function (option) notify_from ::
  "(addr \<Rightarrow> 'm elem_scheme store \<Rightarrow> 'w \<Rightarrow> ('m elem_scheme store \<times> 'w) option) \<Rightarrow> 'm elem_scheme store \<Rightarrow> 'w \<Rightarrow> addr \<Rightarrow> bool \<Rightarrow>
   ('m elem_scheme store \<times> 'w \<times> bool) option" where
  "notify_from update h w e notified =
     (if e = 0 then Some (h, w, notified)
      else do {
        x \<leftarrow> load h e;
        (h, w) \<leftarrow> update (obj x) h w;
        n \<leftarrow> get_next h e;
        notify_from update h w n True })"

definition observed_notify ::
  "(addr \<Rightarrow> 'm elem_scheme store \<Rightarrow> 'w \<Rightarrow> ('m elem_scheme store \<times> 'w) option) \<Rightarrow> 'm elem_scheme store \<Rightarrow> 'w \<Rightarrow> simple_list \<Rightarrow>
   ('m elem_scheme store \<times> 'w \<times> bool) option" where
  "observed_notify update h w q = notify_from update h w (sl_head q) False"

text \<open>\<open>Data_Observed<D, void>\<close> makes the link anew when it is attached.\<close>

definition data_attach :: "elem store \<Rightarrow> simple_list \<Rightarrow> addr \<Rightarrow> addr \<Rightarrow> (elem store \<times> simple_list) option" where
  "data_attach h q ob link = sl_insert (h(link \<mapsto> singly_linked ob)) q link"

text \<open>With a condition; \<open>detach\<close> is given the condition and does not look at it.\<close>

definition cond_attach :: "elem_ordered store \<Rightarrow> simple_list \<Rightarrow> addr \<Rightarrow> addr \<Rightarrow> int \<Rightarrow> (elem_ordered store \<times> simple_list) option" where
  "cond_attach h q ob link c = sol_insert False (h(link \<mapsto> singly_linked_ordered ob c)) q link"

definition cond_detach :: "elem_ordered store \<Rightarrow> simple_list \<Rightarrow> addr \<Rightarrow> int \<Rightarrow> (elem_ordered store \<times> simple_list) option" where
  "cond_detach h q link c = do { (h, q, _) \<leftarrow> sol_remove False h q link; Some (h, q) }"

partial_function (option) cond_notify_from ::
  "(addr \<Rightarrow> elem_ordered store \<Rightarrow> 'w \<Rightarrow> (elem_ordered store \<times> 'w) option) \<Rightarrow> elem_ordered store \<Rightarrow> 'w \<Rightarrow> addr \<Rightarrow> int \<Rightarrow> bool \<Rightarrow>
   (elem_ordered store \<times> 'w \<times> bool) option" where
  "cond_notify_from update h w e c notified =
     (if e = 0 then Some (h, w, notified)
      else do {
        x \<leftarrow> load h e;
        (h, w, notified) \<leftarrow> (if srank x = c then do { (h, w) \<leftarrow> update (obj x) h w; Some (h, w, True) } else Some (h, w, notified));
        n \<leftarrow> get_next h e;
        cond_notify_from update h w n c notified })"

definition cond_notify ::
  "(addr \<Rightarrow> elem_ordered store \<Rightarrow> 'w \<Rightarrow> (elem_ordered store \<times> 'w) option) \<Rightarrow> elem_ordered store \<Rightarrow> 'w \<Rightarrow> simple_list \<Rightarrow> int \<Rightarrow>
   (elem_ordered store \<times> 'w \<times> bool) option" where
  "cond_notify update h w q c = cond_notify_from update h w (sl_head q) c False"

text \<open>\<open>observer(c, index)\<close>, whose loop goes on when it has come to the observer it was asked for.\<close>

partial_function (option) observer_from :: "elem_ordered store \<Rightarrow> addr \<Rightarrow> int \<Rightarrow> nat \<Rightarrow> addr \<Rightarrow> addr option" where
  "observer_from h e c index ob =
     (if e = 0 then Some ob
      else do {
        x \<leftarrow> load h e;
        if srank x = c
        then if index = 0 then observer_from h (nxt x) c index (obj x) else observer_from h (nxt x) c (index - 1) ob
        else observer_from h (nxt x) c index ob })"

definition cond_observer :: "elem_ordered store \<Rightarrow> simple_list \<Rightarrow> int \<Rightarrow> nat \<Rightarrow> addr option" where
  "cond_observer h q c index = observer_from h (sl_head q) c index 0"

section \<open>What is observed\<close>

text \<open>
  The subscriptions of an observed object, as (observer, link, condition) in the order they were made. The list holds the links by
  condition, and those of one condition in that order.
\<close>

type_synonym subscription = "addr \<times> addr \<times> int"

definition links_for :: "int \<Rightarrow> subscription list \<Rightarrow> addr list" where
  "links_for c ss = map (\<lambda>(ob, k, d). k) (filter (\<lambda>(ob, k, d). d = c) ss)"

definition observers_for :: "int \<Rightarrow> subscription list \<Rightarrow> addr list" where
  "observers_for c ss = map (\<lambda>(ob, k, d). ob) (filter (\<lambda>(ob, k, d). d = c) ss)"

definition subscribed :: "elem_ordered store \<Rightarrow> simple_list \<Rightarrow> subscription list \<Rightarrow> bool" where
  "subscribed h q ss \<longleftrightarrow>
     (\<exists>as. simple_rep h q as \<and> rank_sorted (srank_of h) as \<and> (\<forall>c. filter (\<lambda>a. srank_of h a = c) as = links_for c ss)) \<and>
     (\<forall>(ob, k, c) \<in> set ss. map_option obj (h k) = Some ob \<and> srank_of h k = c) \<and> distinct (map (\<lambda>(ob, k, c). k) ss)"

lemma subscribed_new: "subscribed h sl_new []"
  by (auto simp: subscribed_def links_for_def simple_rep_new rank_sorted_def intro!: exI [of _ "[]"])

lemma subscribed_links: "simple_rep h q as \<Longrightarrow> (\<And>c. filter (\<lambda>a. srank_of h a = c) as = links_for c ss) \<Longrightarrow> set as = (\<lambda>(ob, k, c). k) ` set ss"
proof -
  assume f: "\<And>c. filter (\<lambda>a. srank_of h a = c) as = links_for c ss"
  have "a \<in> set as \<longleftrightarrow> (\<exists>c. a \<in> set (filter (\<lambda>a. srank_of h a = c) as))" for a by simp
  also have "\<dots> a \<longleftrightarrow> a \<in> (\<lambda>(ob, k, c). k) ` set ss" for a unfolding f by (force simp: links_for_def)
  finally show ?thesis by blast
qed

text \<open>The loops over a list whose updates leave the links alone.\<close>

lemma cond_notify_from_chain:
  "chain h p as 0 \<Longrightarrow> (\<And>ob w. update ob h w = Some (h, f ob w)) \<Longrightarrow>
   cond_notify_from update h w p c b =
     Some (h, fold f (map (\<lambda>a. obj (the (h a))) (filter (\<lambda>a. srank_of h a = c) as)) w, b \<or> (\<exists>a \<in> set as. srank_of h a = c))"
proof (induction as arbitrary: p w b)
  case Nil
  then show ?case by (simp add: cond_notify_from.simps)
next
  case (Cons a as)
  then show ?case by (auto simp: cond_notify_from.simps [of update h w a] store_simps)
qed

lemma notify_from_chain:
  "chain h p as 0 \<Longrightarrow> (\<And>ob w. update ob h w = Some (h, f ob w)) \<Longrightarrow>
   notify_from update h w p b = Some (h, fold f (map (\<lambda>a. obj (the (h a))) as) w, b \<or> as \<noteq> [])"
proof (induction as arbitrary: p w b)
  case Nil
  then show ?case by (simp add: notify_from.simps)
next
  case (Cons a as)
  then show ?case by (auto simp: notify_from.simps [of update h w a] store_simps)
qed

lemma observer_from_chain:
  "chain h p as 0 \<Longrightarrow> observer_from h p c index ob =
     Some (let bs = drop index (filter (\<lambda>a. srank_of h a = c) as) in if bs = [] then ob else obj (the (h (last bs))))"
proof (induction as arbitrary: p index ob)
  case Nil
  then show ?case by (simp add: observer_from.simps)
next
  case (Cons a as)
  then show ?case by (cases index) (auto simp: observer_from.simps [of h a] store_simps Let_def)
qed

lemma filter_split:
  assumes "rank_sorted r as" "rank_split False r (r e) as = (us, vs)"
  shows "filter (\<lambda>a. r a = c) (us @ e # vs) = filter (\<lambda>a. r a = c) as @ (if r e = c then [e] else [])"
proof -
  have as: "as = us @ vs" using rank_split_append [OF assms(2)] .
  have "r e < r v" if "v \<in> set vs" for v
  proof (cases vs)
    case (Cons w ws)
    then have "r e < r w" using rank_split_stop [of False r "r e" as us w ws] assms(2) by simp
    moreover have "r w \<le> r v" using assms(1) as Cons that by (auto simp: rank_sorted_def sorted_append)
    ultimately show ?thesis by simp
  qed (use that in simp)
  then have "filter (\<lambda>a. r a = c) vs = []" if "r e = c" using that by (metis (mono_tags, lifting) filter_empty_conv less_irrefl)
  then show ?thesis using as by auto
qed

section \<open>The contract\<close>

lemma cond_attach_ok:
  assumes sub: "subscribed h q ss" and k: "k \<noteq> 0" "k \<notin> (\<lambda>(ob, k, c). k) ` set ss"
  shows "\<exists>h' q'. cond_attach h q ob k c = Some (h', q') \<and> subscribed h' q' (ss @ [(ob, k, c)])"
proof -
  obtain as where as: "simple_rep h q as" "rank_sorted (srank_of h) as" "\<And>c. filter (\<lambda>a. srank_of h a = c) as = links_for c ss"
    using sub unfolding subscribed_def by blast
  have set_as: "set as = (\<lambda>(ob, k, c). k) ` set ss" using subscribed_links [OF as(1,3)] .
  let ?x = "singly_linked_ordered ob c" and ?h = "h(k \<mapsto> singly_linked_ordered ob c)"
  have x: "srank ?x = c" "obj ?x = ob" by (simp_all add: singly_linked_ordered_def)
  have ne: "k \<notin> set as" using k(2) set_as by simp
  have rep: "simple_rep ?h q as" using ne by (intro simple_rep_cong [OF as(1)]) auto
  have same: "srank_of ?h a = srank_of h a" if "a \<in> set as" for a using that ne by auto
  have sorted: "rank_sorted (srank_of ?h) as" using as(2) rank_sorted_cong [of as "srank_of ?h" "srank_of h"] same by simp
  obtain us vs where sp: "rank_split False (srank_of ?h) c as = (us, vs)" by fastforce
  then have sp': "rank_split False (srank_of ?h) (srank_of ?h k) as = (us, vs)" using x by simp
  obtain h' q' where t: "sol_insert False ?h q k = Some (h', q')" "simple_rep h' q' (us @ k # vs)"
    "srank_of h' = rank_insert False (srank_of ?h) c k us vs" "same_obj ?h h'"
    using sol_insert_rep [OF rep k(1) _ ne, of ?x False us vs] sp x by auto
  have r: "srank_of h' = srank_of ?h" using t(3) x by (auto simp: rank_insert_def fun_eq_iff)
  have "filter (\<lambda>a. srank_of h' a = d) (us @ k # vs) = links_for d (ss @ [(ob, k, c)])" for d
  proof -
    have "filter (\<lambda>a. srank_of ?h a = d) as = filter (\<lambda>a. srank_of h a = d) as" using same by (intro filter_cong) auto
    then show ?thesis unfolding r filter_split [OF sorted sp'] using as(3) [of d] x by (simp add: links_for_def)
  qed
  moreover have "rank_sorted (srank_of h') (us @ k # vs)" unfolding r using rank_sorted_insert [OF sorted sp'] .
  moreover have "\<forall>(ob', k', c') \<in> set (ss @ [(ob, k, c)]). map_option obj (h' k') = Some ob' \<and> srank_of h' k' = c'"
  proof -
    have "map_option obj (h' k') = map_option obj (?h k')" for k' using t(4) by (simp add: same_obj_def)
    then show ?thesis using sub k(2) r x by (force simp: subscribed_def)
  qed
  ultimately show ?thesis using t(1,2) sub k(2) by (auto simp: subscribed_def cond_attach_def)
qed

lemma cond_detach_ok:
  assumes sub: "subscribed h q ss" and k: "k \<in> (\<lambda>(ob, k, c). k) ` set ss"
  shows "\<exists>h' q'. cond_detach h q k c = Some (h', q') \<and> subscribed h' q' (filter (\<lambda>(ob, k', c). k' \<noteq> k) ss)"
proof -
  obtain as where as: "simple_rep h q as" "rank_sorted (srank_of h) as" "\<And>c. filter (\<lambda>a. srank_of h a = c) as = links_for c ss"
    using sub unfolding subscribed_def by blast
  then have "k \<in> set as" using subscribed_links [OF as(1,3)] k by simp
  then obtain us vs where split: "as = us @ k # vs" by (meson split_list)
  have d: "k \<notin> set us" "k \<notin> set vs" using as(1) split by (auto simp: simple_rep_def)
  obtain h' q' where t: "sol_remove False h q k = Some (h', q', k)" "simple_rep h' q' (us @ vs)"
    "srank_of h' = rank_remove False (srank_of h) k vs" "same_obj h h'"
    using sol_remove_rep [of h q us k vs False] as(1) split by auto
  have r: "srank_of h' = srank_of h" using t(3) by (auto simp: rank_remove_def fun_eq_iff)
  have "filter (\<lambda>a. srank_of h a = e) (us @ vs) = filter (\<lambda>a. a \<noteq> k) (filter (\<lambda>a. srank_of h a = e) as)" for e
  proof -
    have "filter (\<lambda>a. srank_of h a = e \<and> a \<noteq> k) us = filter (\<lambda>a. srank_of h a = e) us"
      "filter (\<lambda>a. srank_of h a = e \<and> a \<noteq> k) vs = filter (\<lambda>a. srank_of h a = e) vs"
      using d by (auto intro!: filter_cong)
    then show ?thesis by (simp add: split conj_commute)
  qed
  then have "filter (\<lambda>a. srank_of h' a = e) (us @ vs) = links_for e (filter (\<lambda>(ob, k', c). k' \<noteq> k) ss)" for e
    unfolding r as(3) by (simp add: links_for_def filter_map comp_def case_prod_beta' conj_commute)
  moreover have "rank_sorted (srank_of h') (us @ vs)" unfolding r using rank_sorted_remove [of "srank_of h" us k vs] as(2) split by simp
  moreover have "distinct (map (\<lambda>(ob, k, c). k) (filter (\<lambda>(ob, k', c). k' \<noteq> k) ss))" using sub by (simp add: subscribed_def distinct_map_filter)
  moreover have objs: "map_option obj (h' k') = map_option obj (h k')" for k' using t(4) by (simp add: same_obj_def)
  have "\<forall>(ob', k', c') \<in> set (filter (\<lambda>(ob, k', c). k' \<noteq> k) ss). map_option obj (h' k') = Some ob' \<and> srank_of h' k' = c'"
    using sub unfolding subscribed_def objs r by auto
  ultimately show ?thesis using t(1,2) unfolding subscribed_def cond_detach_def by auto
qed

lemma cond_notify_ok:
  assumes sub: "subscribed h q ss" and upd: "\<And>ob w. update ob h w = Some (h, f ob w)"
  shows "cond_notify update h w q c = Some (h, fold f (observers_for c ss) w, observers_for c ss \<noteq> [])"
proof -
  obtain as where as: "simple_rep h q as" "\<And>c. filter (\<lambda>a. srank_of h a = c) as = links_for c ss"
    using sub unfolding subscribed_def by blast
  have "map (\<lambda>a. obj (the (h a))) (links_for c ss) = observers_for c ss"
    using sub by (auto simp: subscribed_def links_for_def observers_for_def)
  moreover have "(\<exists>a \<in> set as. srank_of h a = c) \<longleftrightarrow> observers_for c ss \<noteq> []"
    using as(2) [of c] by (metis (mono_tags, lifting) filter_empty_conv links_for_def observers_for_def map_is_Nil_conv)
  ultimately show ?thesis
    using cond_notify_from_chain [of h "sl_head q" as update f w c False] as upd by (simp add: cond_notify_def simple_rep_def)
qed

text \<open>
  C28. An observed object keeps its subscriptions: \<open>attach\<close> adds one and \<open>detach\<close> takes it away, whatever the others are, and \<open>notify\<close>
  updates exactly the observers of its condition, each once and in the order they came, and tells whether there was one.
\<close>

theorem observed_keeps_subscriptions:
  assumes "subscribed h q ss"
  shows "(\<forall>ob k c. k \<noteq> 0 \<and> k \<notin> (\<lambda>(ob, k, c). k) ` set ss \<longrightarrow>
      (\<exists>h' q'. cond_attach h q ob k c = Some (h', q') \<and> subscribed h' q' (ss @ [(ob, k, c)]))) \<and>
    (\<forall>(ob, k, c) \<in> set ss. \<exists>h' q'. cond_detach h q k c = Some (h', q') \<and> subscribed h' q' (remove1 (ob, k, c) ss)) \<and>
    (\<forall>f w c. cond_notify (\<lambda>ob h w. Some (h, f ob w)) h w q c = Some (h, fold f (observers_for c ss) w, observers_for c ss \<noteq> []))"
proof (intro conjI ballI allI impI)
  fix ob k c assume "k \<noteq> 0 \<and> k \<notin> (\<lambda>(ob, k, c). k) ` set ss"
  then show "\<exists>h' q'. cond_attach h q ob k c = Some (h', q') \<and> subscribed h' q' (ss @ [(ob, k, c)])"
    using cond_attach_ok [OF assms] by blast
next
  fix s assume s: "s \<in> set ss"
  obtain ob k c where okc: "s = (ob, k, c)" by (cases s)
  have "distinct (map (\<lambda>(ob, k, c). k) ss)" using assms by (simp add: subscribed_def)
  then have "filter (\<lambda>(ob, k', c). k' \<noteq> k) ss = remove1 (ob, k, c) ss" using s unfolding okc
    by (induction ss) (force simp: filter_id_conv)+
  then show "case s of (ob, k, c) \<Rightarrow> \<exists>h' q'. cond_detach h q k c = Some (h', q') \<and> subscribed h' q' (remove1 (ob, k, c) ss)"
    using cond_detach_ok [OF assms, of k c] s okc by (force simp: case_prod_beta')
next
  fix f :: "addr \<Rightarrow> 'a \<Rightarrow> 'a" and w c
  show "cond_notify (\<lambda>ob h w. Some (h, f ob w)) h w q c = Some (h, fold f (observers_for c ss) w, observers_for c ss \<noteq> [])"
    by (rule cond_notify_ok [OF assms]) simp
qed

theorem observed_keeps_subscriptions_witness:
  "\<exists>h q. cond_attach Map.empty sl_new 0x100 0x108 7 = Some (h, q) \<and> cond_notify (\<lambda>ob h w. Some (h, w @ [ob])) h [] q 7 = Some (h, [0x100], True)"
proof -
  obtain h q where a: "cond_attach Map.empty sl_new 0x100 0x108 7 = Some (h, q)" "subscribed h q [(0x100, 0x108, 7)]"
    using cond_attach_ok [OF subscribed_new, of "0x108" Map.empty "0x100" 7] by auto
  have "cond_notify (\<lambda>ob h w. Some (h, w @ [ob])) h [] q 7 =
      Some (h, fold (\<lambda>ob w. w @ [ob]) (observers_for 7 [(0x100, 0x108, 7)]) [], observers_for 7 [(0x100, 0x108, 7)] \<noteq> [])"
    using conjunct2 [OF conjunct2 [OF observed_keeps_subscriptions [OF a(2)]], rule_format, of "\<lambda>ob w. w @ [ob]" "[]" 7] .
  then show ?thesis using a(1) by (simp add: observers_for_def)
qed

text \<open>
  An observer has one link: attached a second time (for another condition, say), it makes the link anew while it is in the list, and
  the observers behind it are no longer notified.
\<close>

theorem second_attach_cuts:
  assumes "simple_rep h q (k # as)"
  shows "\<exists>h' q'. cond_attach h q ob k c = Some (h', q') \<and>
    (\<forall>f w d. cond_notify (\<lambda>ob h w. Some (h, f ob w)) h' w q' d = Some (h', if d = c then f ob w else w, d = c))"
proof -
  let ?x = "singly_linked_ordered ob c" and ?h = "h(k \<mapsto> singly_linked_ordered ob c)"
  have k: "k \<noteq> 0" "sl_head q = k" "\<not> sl_empty q" using assms sl_empty_rep [OF assms] by (auto simp: simple_rep_def)
  have x: "nxt ?x = 0" "srank ?x = c" "obj ?x = ob" by (simp_all add: singly_linked_ordered_def)
  have walk: "sol_walk False ?h k k 0 = Some (?h, k, 0)" using k x by (subst sol_walk.simps) (simp add: store_simps)
  have "sl_tail q \<in> set (k # as)" using assms last_in_set [of "k # as"] by (simp add: simple_rep_def last0_def)
  then have "sl_tail q \<noteq> 0" "\<exists>y. ?h (sl_tail q) = Some y"
    using simple_rep_mapped [OF assms] simple_rep_nonnull [OF assms] by auto
  then obtain y where y: "sl_tail q \<noteq> 0" "?h (sl_tail q) = Some y" by blast
  define h' where "h' = (?h(sl_tail q \<mapsto> y\<lparr>nxt := k\<rparr>))(k \<mapsto> ?x)"
  have hk: "\<exists>z. (?h(sl_tail q \<mapsto> y\<lparr>nxt := k\<rparr>)) k = Some z \<and> z\<lparr>nxt := 0\<rparr> = ?x"
    using y(2) x(1) by (cases "sl_tail q = k") auto
  have att: "cond_attach h q ob k c = Some (h', q\<lparr>sl_tail := k, sl_size := sl_size q + 1\<rparr>)"
    using walk k x y hk by (auto simp: cond_attach_def sol_insert_def sl_insert_tail_def store_simps h'_def)
  have ch: "chain h' k [k] 0" "h' k = Some ?x" using k x by (simp_all add: h'_def)
  have "cond_notify (\<lambda>ob h w. Some (h, f ob w)) h' w (q\<lparr>sl_tail := k, sl_size := sl_size q + 1\<rparr>) d =
      Some (h', if d = c then f ob w else w, d = c)" for f :: "addr \<Rightarrow> 'a \<Rightarrow> 'a" and w d
    using cond_notify_from_chain [OF ch(1), of "\<lambda>ob h w. Some (h, f ob w)" f w d False] k x ch(2) by (auto simp: cond_notify_def)
  then show ?thesis using att by blast
qed

theorem second_attach_cuts_witness:
  "\<exists>h' q'. cond_attach [8 \<mapsto> \<lparr>obj = 1, nxt = 16, srank = 1\<rparr>, 16 \<mapsto> \<lparr>obj = 2, nxt = 0, srank = 5\<rparr>]
      \<lparr>sl_size = 2, sl_head = 8, sl_tail = 16\<rparr> 1 8 2 = Some (h', q') \<and>
    cond_notify (\<lambda>ob h w. Some (h, w @ [ob])) h' [] q' 5 = Some (h', [], False)"
proof -
  let ?h = "[8 \<mapsto> \<lparr>obj = 1, nxt = 16, srank = 1\<rparr>, 16 \<mapsto> \<lparr>obj = 2, nxt = 0, srank = 5\<rparr>] :: elem_ordered store"
  let ?q = "\<lparr>sl_size = 2, sl_head = 8, sl_tail = 16\<rparr>"
  have "simple_rep ?h ?q [8, 16]" by (simp add: simple_rep_def last0_def)
  from second_attach_cuts [OF this, of 1 2] obtain h' q' where a: "cond_attach ?h ?q 1 8 2 = Some (h', q')"
    "\<And>(f :: addr \<Rightarrow> addr list \<Rightarrow> addr list) w d. cond_notify (\<lambda>ob h w. Some (h, f ob w)) h' w q' d = Some (h', if d = 2 then f 1 w else w, d = 2)"
    by blast
  then show ?thesis using a(2) [of "\<lambda>ob w. w @ [ob]" "[]" 5] by simp
qed

text \<open>\<open>observer(c, index)\<close> gives the last observer of the condition for every index but those beyond the end.\<close>

lemma cond_observer_last:
  assumes "subscribed h q ss"
  shows "cond_observer h q c index = Some (if index < length (observers_for c ss) then last (observers_for c ss) else 0)"
proof -
  obtain as where as: "simple_rep h q as" "filter (\<lambda>a. srank_of h a = c) as = links_for c ss"
    using assms unfolding subscribed_def by blast
  have obs: "map (\<lambda>a. obj (the (h a))) (links_for c ss) = observers_for c ss"
    using assms by (auto simp: subscribed_def links_for_def observers_for_def)
  have len: "length (links_for c ss) = length (observers_for c ss)" by (simp add: links_for_def observers_for_def)
  have links: "observers_for c ss \<noteq> [] \<Longrightarrow> links_for c ss \<noteq> []" by (simp add: links_for_def observers_for_def)
  note loop = observer_from_chain [of h "sl_head q" as c index 0]
  show ?thesis
  proof (cases "index < length (observers_for c ss)")
    case True
    then have "observers_for c ss \<noteq> []" by auto
    then have "last (observers_for c ss) = obj (the (h (last (links_for c ss))))"
      using links obs last_map [of "links_for c ss" "\<lambda>a. obj (the (h a))"] by simp
    then show ?thesis using loop as len True by (simp add: cond_observer_def simple_rep_def Let_def last_drop)
  qed (use loop as len in \<open>simp add: cond_observer_def simple_rep_def\<close>)
qed

end
