(* ===== verification/Arp.thy ===== *)
theory Arp
  imports Prelude
begin

text \<open>
  The ARP of \<open>include/network/ipv4/arp.h\<close>: a table of mappings from protocol to hardware addresses, requests and replies, and
  \<open>resolve\<close>, in which a thread waits on a semaphore of its own for a reply or an alarm. Several threads resolve at once; what they do
  between \<open>lock\<close> and \<open>unlock\<close>, and each call that can be interrupted, is a step of its own. The table is a \<open>Simple_Hash\<close> by protocol
  address: slots, chosen by the last octet of the address, and a list of synonyms. Mappings are numbered as they are made.
\<close>

section \<open>Data\<close>

type_synonym pa = "32 word"
type_synonym ha = "48 word"

definition REQUEST :: nat where "REQUEST = 1"
definition REPLY :: nat where "REPLY = 2"
definition HA_BROADCAST :: ha where "HA_BROADCAST = - 1"

text \<open>A packet, with its fields in the order of the host. A semaphore is known by the thread it belongs to.\<close>

record arp_packet =
  ap_op :: nat
  ap_sha :: ha
  ap_spa :: pa
  ap_tha :: ha
  ap_tpa :: pa

record arp_mapping =
  am_pa :: pa
  am_ha :: ha
  am_sem :: "nat option"

text \<open>
  Where a thread is in \<open>resolve\<close>: outside; before the search; with a mapping found, before it
  reads it, after \<open>unlock\<close>; before the insertion; at the head of the loop, with the mapping, the
  number of the attempt and the address so far; at \<open>sem.p()\<close>; at \<open>ha = map->ha()\<close>; returned.
\<close>

datatype resolving =
    Away
  | Searching pa
  | Found pa nat
  | Missing pa
  | Asking pa nat nat ha
  | Waiting pa nat nat
  | Reading pa nat nat
  | Resolved pa ha

text \<open>
  The state: the slots and the synonyms of the table, the mappings in memory, the number of the next one, the semaphores of the threads
  (with their count), the threads whose alarm is in the queue, the alarms the timer has taken from the queue and whose handler it has still
  to call, each with its thread and whether its object is still there, the packets sent and, for the properties, the addresses heard in
  replies or given by \<open>insert\<close>, and the mappings \<open>remove\<close> has deleted.
\<close>

record arp =
  ar_slots :: "nat option list"
  ar_synonyms :: "nat list"
  ar_maps :: "nat \<rightharpoonup> arp_mapping"
  ar_fresh :: nat
  ar_sems :: "nat \<rightharpoonup> nat"
  ar_alarms :: "nat set"
  ar_fired :: "(nat \<times> bool) set"
  ar_places :: "nat \<Rightarrow> resolving"
  ar_sent :: "(ha \<times> arp_packet) list"
  ar_heard :: "(pa \<times> ha) set"
  ar_removed :: "nat set"

definition arp_new :: "nat \<Rightarrow> arp" where
  "arp_new entries = \<lparr>ar_slots = replicate entries None, ar_synonyms = [], ar_maps = Map.empty, ar_fresh = 0, ar_sems = Map.empty, ar_alarms = {}, ar_fired = {},
     ar_places = (\<lambda>t. Away), ar_sent = [], ar_heard = {}, ar_removed = {}\<rparr>"

section \<open>The table\<close>

text \<open>\<open>key % SIZE\<close>: the last octet of the address.\<close>

definition pa_slot :: "arp \<Rightarrow> pa \<Rightarrow> nat" where
  "pa_slot s pa = unat pa mod 256 mod length (ar_slots s)"

definition has_pa :: "arp \<Rightarrow> pa \<Rightarrow> nat \<Rightarrow> bool" where
  "has_pa s pa m \<longleftrightarrow> map_option am_pa (ar_maps s m) = Some pa"

definition arp_find :: "arp \<Rightarrow> pa \<Rightarrow> nat option" where
  "arp_find s pa =
     (case ar_slots s ! pa_slot s pa of
        Some m \<Rightarrow> if has_pa s pa m then Some m else find (has_pa s pa) (ar_synonyms s)
      | None \<Rightarrow> find (has_pa s pa) (ar_synonyms s))"

definition arp_add :: "arp_mapping \<Rightarrow> arp \<Rightarrow> arp" where
  "arp_add mp s =
     (let i = pa_slot s (am_pa mp); m = ar_fresh s in
      s\<lparr>ar_slots := (if ar_slots s ! i = None then (ar_slots s)[i := Some m] else ar_slots s),
        ar_synonyms := (if ar_slots s ! i = None then ar_synonyms s else ar_synonyms s @ [m]),
        ar_maps := (ar_maps s)(m \<mapsto> mp), ar_fresh := m + 1\<rparr>)"

definition arp_drop :: "nat \<Rightarrow> arp \<Rightarrow> arp" where
  "arp_drop m s = s\<lparr>ar_slots := map (\<lambda>x. if x = Some m then None else x) (ar_slots s),
     ar_synonyms := (if Some m \<in> set (ar_slots s) then ar_synonyms s else remove1 m (ar_synonyms s)), ar_maps := (ar_maps s)(m := None)\<rparr>"

definition arp_insert :: "pa \<Rightarrow> ha \<Rightarrow> arp \<Rightarrow> arp" where
  "arp_insert pa ha s = (arp_add \<lparr>am_pa = pa, am_ha = ha, am_sem = None\<rparr> s)\<lparr>ar_heard := insert (pa, ha) (ar_heard s)\<rparr>"

definition arp_remove :: "pa \<Rightarrow> arp \<Rightarrow> arp" where
  "arp_remove pa s = (case arp_find s pa of None \<Rightarrow> s | Some m \<Rightarrow> (arp_drop m s)\<lparr>ar_removed := insert m (ar_removed s)\<rparr>)"

section \<open>Replies and alarms\<close>

definition waiter_v :: "nat \<Rightarrow> arp \<Rightarrow> arp option" where
  "waiter_v t s = do { n \<leftarrow> ar_sems s t; Some (s\<lparr>ar_sems := (ar_sems s)(t \<mapsto> n + 1)\<rparr>) }"

text \<open>\<open>Mapping::update\<close>\<close>

definition mapping_update :: "nat \<Rightarrow> ha \<Rightarrow> arp \<Rightarrow> arp option" where
  "mapping_update m ha s = do {
     mp \<leftarrow> ar_maps s m;
     s \<leftarrow> (case am_sem mp of None \<Rightarrow> Some s | Some t \<Rightarrow> waiter_v t s);
     Some (s\<lparr>ar_maps := (ar_maps s)(m \<mapsto> mp\<lparr>am_ha := ha, am_sem := None\<rparr>)\<rparr>) }"

definition arp_update :: "ha \<Rightarrow> pa \<Rightarrow> arp_packet \<Rightarrow> arp \<Rightarrow> arp option" where
  "arp_update my_ha my_pa p s =
     (if ap_op p = REQUEST \<and> ap_tpa p = my_pa
      then Some (s\<lparr>ar_sent := ar_sent s @ [(ap_sha p, \<lparr>ap_op = REPLY, ap_sha = my_ha, ap_spa = my_pa, ap_tha = ap_sha p, ap_tpa = ap_spa p\<rparr>)]\<rparr>)
      else if ap_op p = REPLY \<and> ap_tha p = my_ha
      then do {
        s \<leftarrow> (case arp_find s (ap_spa p) of None \<Rightarrow> Some s | Some m \<Rightarrow> mapping_update m (ap_sha p) s);
        Some (s\<lparr>ar_heard := insert (ap_spa p, ap_sha p) (ar_heard s)\<rparr>) }
      else Some s)"

text \<open>
  The alarm of a thread goes off: \<open>Alarm::handler\<close> takes it from the queue under its lock. Then, without the lock, it calls the handler of
  the alarm, which is an object on the stack of the thread, as the alarm, the handler and the semaphore are.
\<close>

definition arp_alarm :: "nat \<Rightarrow> arp \<Rightarrow> arp" where
  "arp_alarm t s = s\<lparr>ar_alarms := ar_alarms s - {t}, ar_fired := insert (t, True) (ar_fired s)\<rparr>"

definition arp_handle :: "nat \<Rightarrow> bool \<Rightarrow> arp \<Rightarrow> arp option" where
  "arp_handle t live s = (if live then waiter_v t (s\<lparr>ar_fired := ar_fired s - {(t, True)}\<rparr>) else None)"

text \<open>The end of the body of the loop destroys the alarm, whether its handler has been called or not.\<close>

definition alarm_end :: "nat \<Rightarrow> arp \<Rightarrow> arp" where
  "alarm_end t s = s\<lparr>ar_alarms := ar_alarms s - {t},
     ar_fired := (if (t, True) \<in> ar_fired s then insert (t, False) (ar_fired s - {(t, True)}) else ar_fired s)\<rparr>"

section \<open>Resolving\<close>

definition at_place :: "nat \<Rightarrow> resolving \<Rightarrow> arp \<Rightarrow> arp" where
  "at_place t p s = s\<lparr>ar_places := (ar_places s)(t := p)\<rparr>"

text \<open>
  The next step of a thread that runs; there is none while it waits. \<open>retries\<close> is \<open>Traits<Network>::RETRIES\<close>. The alarm ends with the
  body of the loop, the semaphore with the call. The address of a mapping, six bytes the code copies without the lock, is copied in one
  step. A read of a mapping that is deleted, and its second deletion, have no result.
\<close>

definition resolve_step :: "nat \<Rightarrow> ha \<Rightarrow> pa \<Rightarrow> nat \<Rightarrow> arp \<Rightarrow> arp option" where
  "resolve_step retries my_ha my_pa t s =
     (case ar_places s t of
        Away \<Rightarrow> None
      | Resolved pa ha \<Rightarrow> None
      | Searching pa \<Rightarrow>
          (case arp_find s pa of
             Some m \<Rightarrow> Some (at_place t (Found pa m) s)
           | None \<Rightarrow> Some (at_place t (Missing pa) s))
      | Found pa m \<Rightarrow> do { mp \<leftarrow> ar_maps s m; Some (at_place t (Resolved pa (am_ha mp)) s) }
      | Missing pa \<Rightarrow>
          Some (at_place t (Asking pa (ar_fresh s) 0 0)
            (arp_add \<lparr>am_pa = pa, am_ha = 0, am_sem = Some t\<rparr> (s\<lparr>ar_sems := (ar_sems s)(t \<mapsto> 0)\<rparr>)))
      | Asking pa m i ha \<Rightarrow>
          if i < retries \<and> ha = 0
          then Some (at_place t (Waiting pa m i)
            (s\<lparr>ar_sent := ar_sent s @ [(HA_BROADCAST, \<lparr>ap_op = REQUEST, ap_sha = my_ha, ap_spa = my_pa, ap_tha = HA_BROADCAST, ap_tpa = pa\<rparr>)],
               ar_alarms := insert t (ar_alarms s)\<rparr>))
          else if ha = 0 \<and> ar_maps s m = None then None
          else
            (let s = (if ha = 0 then arp_drop m s else s) in
             Some (at_place t (Resolved pa ha) (s\<lparr>ar_sems := (ar_sems s)(t := None)\<rparr>)))
      | Waiting pa m i \<Rightarrow> do {
          n \<leftarrow> ar_sems s t;
          if n = 0 then None else Some (at_place t (Reading pa m i) (s\<lparr>ar_sems := (ar_sems s)(t \<mapsto> n - 1)\<rparr>)) }
      | Reading pa m i \<Rightarrow> do {
          mp \<leftarrow> ar_maps s m;
          Some (at_place t (Asking pa m (i + 1) (am_ha mp)) (alarm_end t s)) })"

section \<open>Everything that can happen\<close>

text \<open>
  Calls, steps of the threads, alarms and their handlers, packets, \<open>insert\<close> and \<open>remove\<close>, in any order; \<open>remove\<close>, which takes no lock, is one
  step here, too.
\<close>

inductive arp_next :: "nat \<Rightarrow> ha \<Rightarrow> pa \<Rightarrow> arp \<Rightarrow> arp \<Rightarrow> bool" for retries my_ha my_pa where
  call: "ar_places s t = Away \<or> ar_places s t = Resolved pa' ha \<Longrightarrow> arp_next retries my_ha my_pa s (at_place t (Searching pa) s)"
| run: "resolve_step retries my_ha my_pa t s = Some s' \<Longrightarrow> arp_next retries my_ha my_pa s s'"
| alarm: "t \<in> ar_alarms s \<Longrightarrow> arp_next retries my_ha my_pa s (arp_alarm t s)"
| handle: "(t, live) \<in> ar_fired s \<Longrightarrow> arp_handle t live s = Some s' \<Longrightarrow> arp_next retries my_ha my_pa s s'"
| packet: "arp_update my_ha my_pa p s = Some s' \<Longrightarrow> arp_next retries my_ha my_pa s s'"
| insert: "arp_next retries my_ha my_pa s (arp_insert pa ha s)"
| remove: "arp_next retries my_ha my_pa s (arp_remove pa s)"

inductive arp_reach :: "nat \<Rightarrow> ha \<Rightarrow> pa \<Rightarrow> arp \<Rightarrow> bool" for retries my_ha my_pa where
  start: "0 < entries \<Longrightarrow> arp_reach retries my_ha my_pa (arp_new entries)"
| step: "arp_reach retries my_ha my_pa s \<Longrightarrow> arp_next retries my_ha my_pa s s' \<Longrightarrow> arp_reach retries my_ha my_pa s'"

section \<open>The invariant\<close>

text \<open>The mapping a thread waits for.\<close>

fun holds :: "resolving \<Rightarrow> (pa \<times> nat) option" where
  "holds (Asking pa m i ha) = Some (pa, m)"
| "holds (Waiting pa m i) = Some (pa, m)"
| "holds (Reading pa m i) = Some (pa, m)"
| "holds _ = None"

text \<open>The address a thread has.\<close>

fun knows :: "resolving \<Rightarrow> (pa \<times> ha) option" where
  "knows (Asking pa m i ha) = (if ha = 0 then None else Some (pa, ha))"
| "knows (Resolved pa ha) = (if ha = 0 then None else Some (pa, ha))"
| "knows _ = None"

definition mapping_ok :: "arp \<Rightarrow> nat \<Rightarrow> arp_mapping \<Rightarrow> bool" where
  "mapping_ok s m mp \<longleftrightarrow> (am_ha mp \<noteq> 0 \<longrightarrow> (am_pa mp, am_ha mp) \<in> ar_heard s) \<and>
     (\<forall>t. am_sem mp = Some t \<longrightarrow> am_ha mp = 0 \<and> holds (ar_places s t) = Some (am_pa mp, m) \<and> knows (ar_places s t) = None)"

text \<open>The mappings in the table.\<close>

definition ar_table :: "arp \<Rightarrow> nat set" where
  "ar_table s = {m. Some m \<in> set (ar_slots s)} \<union> set (ar_synonyms s)"

definition table_ok :: "arp \<Rightarrow> bool" where
  "table_ok s \<longleftrightarrow> ar_slots s \<noteq> [] \<and> distinct (ar_synonyms s) \<and> (\<forall>m. Some m \<in> set (ar_slots s) \<longrightarrow> m \<notin> set (ar_synonyms s))"

definition maps_ok :: "arp \<Rightarrow> bool" where
  "maps_ok s \<longleftrightarrow> table_ok s \<and> ar_removed s \<subseteq> {..<ar_fresh s} \<and> (\<forall>m \<in> ar_table s. m < ar_fresh s \<and> (\<exists>mp. ar_maps s m = Some mp \<and> mapping_ok s m mp))"

definition thread_ok :: "arp \<Rightarrow> nat \<Rightarrow> bool" where
  "thread_ok s t \<longleftrightarrow>
     (\<forall>pa m. holds (ar_places s t) = Some (pa, m) \<longrightarrow>
        m < ar_fresh s \<and> (if m \<in> ar_removed s then ar_maps s m = None else m \<in> ar_table s \<and> has_pa s pa m) \<and> ar_sems s t \<noteq> None) \<and>
     (\<forall>x. knows (ar_places s t) = Some x \<longrightarrow> x \<in> ar_heard s) \<and>
     (\<forall>pa m. ar_places s t = Found pa m \<longrightarrow> m < ar_fresh s \<and> (ar_maps s m = None \<or> m \<in> ar_table s \<and> has_pa s pa m)) \<and>
     (t \<in> ar_alarms s \<or> (t, True) \<in> ar_fired s \<longrightarrow> (\<exists>pa m i. ar_places s t = Waiting pa m i \<or> ar_places s t = Reading pa m i))"

definition apart :: "arp \<Rightarrow> bool" where
  "apart s \<longleftrightarrow> (\<forall>t u pa pa' m. holds (ar_places s t) = Some (pa, m) \<longrightarrow> holds (ar_places s u) = Some (pa', m) \<longrightarrow> t = u)"

definition arp_inv :: "arp \<Rightarrow> bool" where
  "arp_inv s \<longleftrightarrow> maps_ok s \<and> (\<forall>t. thread_ok s t) \<and> apart s"

lemma pa_slot_less: "table_ok s \<Longrightarrow> pa_slot s pa < length (ar_slots s)"
  by (simp add: table_ok_def pa_slot_def)

lemma arp_find_in: "table_ok s \<Longrightarrow> arp_find s pa = Some m \<Longrightarrow> m \<in> ar_table s \<and> has_pa s pa m"
  using nth_mem [OF pa_slot_less [of s pa]]
  by (auto simp: arp_find_def ar_table_def find_Some_iff split: option.splits if_splits)

lemma set_free_slot: "i < length xs \<Longrightarrow> xs ! i = None \<Longrightarrow> Some m \<in> set (xs[i := Some f]) \<longleftrightarrow> m = f \<or> Some m \<in> set xs"
  by (induction xs arbitrary: i) (auto simp: nth_Cons split: nat.splits)

lemma arp_add_table: "table_ok s \<Longrightarrow> ar_table (arp_add mp s) = insert (ar_fresh s) (ar_table s)"
  using pa_slot_less [of s "am_pa mp"] by (auto simp: arp_add_def ar_table_def Let_def set_free_slot)

lemma arp_add_ok: "table_ok s \<Longrightarrow> ar_fresh s \<notin> ar_table s \<Longrightarrow> table_ok (arp_add mp s)"
  using set_update_subset_insert [of "ar_slots s" "pa_slot s (am_pa mp)" "Some (ar_fresh s)"]
  by (auto simp: arp_add_def ar_table_def table_ok_def Let_def split: if_splits)

lemma arp_drop_table: "table_ok s \<Longrightarrow> ar_table (arp_drop m s) = ar_table s - {m}"
  by (auto simp: arp_drop_def ar_table_def table_ok_def image_iff split: if_splits)

lemma arp_drop_ok: "table_ok s \<Longrightarrow> table_ok (arp_drop m s)"
  by (auto simp: arp_drop_def table_ok_def distinct_remove1 image_iff dest: notin_set_remove1 split: if_splits)

lemma maps_okD: "maps_ok s \<Longrightarrow> m \<in> ar_table s \<Longrightarrow> \<exists>mp. ar_maps s m = Some mp \<and> mapping_ok s m mp \<and> m < ar_fresh s"
  by (auto simp: maps_ok_def)

text \<open>A step of the thread \<open>t\<close> that changes its place, its semaphore and its alarm only.\<close>

lemma inv_local:
  assumes inv: "arp_inv s" and s': "s' = s\<lparr>ar_places := (ar_places s)(t := p), ar_sems := sm, ar_alarms := al, ar_fired := fi, ar_sent := se\<rparr>"
    and others: "\<And>u. u \<noteq> t \<Longrightarrow> sm u = ar_sems s u" "\<And>u. u \<noteq> t \<Longrightarrow> u \<in> al \<longleftrightarrow> u \<in> ar_alarms s"
      "\<And>u. u \<noteq> t \<Longrightarrow> (u, True) \<in> fi \<longleftrightarrow> (u, True) \<in> ar_fired s"
    and p: "holds p = holds (ar_places s t)" "knows p \<noteq> None \<Longrightarrow> the (knows p) \<in> ar_heard s"
    and k: "knows p \<noteq> None \<Longrightarrow> holds p \<noteq> None \<Longrightarrow> ar_maps s (snd (the (holds p))) \<noteq> None \<Longrightarrow> am_sem (the (ar_maps s (snd (the (holds p))))) = None"
    and sem: "holds p \<noteq> None \<Longrightarrow> sm t \<noteq> None"
    and fd: "\<And>pa m. p = Found pa m \<Longrightarrow> m < ar_fresh s \<and> (ar_maps s m = None \<or> m \<in> ar_table s \<and> has_pa s pa m)"
    and al: "t \<in> al \<or> (t, True) \<in> fi \<longrightarrow> (\<exists>pa m i. p = Waiting pa m i \<or> p = Reading pa m i)"
  shows "arp_inv s'"
proof -
  have holds: "holds (ar_places s' u) = holds (ar_places s u)" for u using p(1) by (simp add: s')
  have same: "ar_table s' = ar_table s" "table_ok s' = table_ok s" "ar_maps s' = ar_maps s" "ar_fresh s' = ar_fresh s" "ar_heard s' = ar_heard s"
    "has_pa s' = has_pa s" "ar_removed s' = ar_removed s" by (simp_all add: s' ar_table_def table_ok_def has_pa_def fun_eq_iff)
  have mok: "mapping_ok s' m mp" if m: "m \<in> ar_table s" "ar_maps s m = Some mp" for m mp
  proof -
    have ok: "mapping_ok s m mp" using inv m maps_okD [of s m] by (auto simp: arp_inv_def)
    have "knows (ar_places s' u) = None" if u: "am_sem mp = Some u" for u
    proof (cases "u = t")
      case True
      have "holds p = Some (am_pa mp, m)" using ok u True p(1) by (simp add: mapping_ok_def)
      then show ?thesis using k m(2) u True by (cases "knows p") (auto simp: s')
    next
      case False
      then show ?thesis using ok u by (simp add: mapping_ok_def s')
    qed
    then show ?thesis using ok by (auto simp: mapping_ok_def holds same)
  qed
  then have "maps_ok s'" using inv unfolding arp_inv_def maps_ok_def same by blast
  moreover have "thread_ok s' u" for u
  proof (cases "u = t")
    case True
    have "thread_ok s t" using inv by (simp add: arp_inv_def)
    then show ?thesis using True p sem al fd unfolding thread_ok_def same by (auto simp: s' split: option.splits)
  next
    case False
    have "thread_ok s u" using inv by (simp add: arp_inv_def)
    moreover have "ar_places s' u = ar_places s u" "ar_sems s' u = ar_sems s u" "u \<in> ar_alarms s' \<longleftrightarrow> u \<in> ar_alarms s"
      "(u, True) \<in> ar_fired s' \<longleftrightarrow> (u, True) \<in> ar_fired s"
      using False others by (simp_all add: s')
    ultimately show ?thesis unfolding thread_ok_def same by simp
  qed
  moreover have "apart s'" using inv unfolding arp_inv_def apart_def holds by blast
  ultimately show ?thesis by (simp add: arp_inv_def)
qed

text \<open>A reply to a mapping: its thread, if it still waits, is told, and no one else holds it.\<close>

lemma inv_reply:
  assumes inv: "arp_inv s" and m: "m \<in> ar_table s" "ar_maps s m = Some mp" and pa: "am_pa mp = pa"
  shows "\<exists>s'. mapping_update m ha s = Some s' \<and> arp_inv (s'\<lparr>ar_heard := insert (pa, ha) (ar_heard s)\<rparr>)"
proof -
  have ok: "mapping_ok s m mp" using inv m maps_okD [of s m] by (auto simp: arp_inv_def)
  define sm where "sm = (case am_sem mp of None \<Rightarrow> ar_sems s | Some t \<Rightarrow> (ar_sems s)(t \<mapsto> the (ar_sems s t) + 1))"
  define s' where "s' = s\<lparr>ar_sems := sm, ar_maps := (ar_maps s)(m \<mapsto> mp\<lparr>am_ha := ha, am_sem := None\<rparr>)\<rparr>"
  have dom: "sm t \<noteq> None" if "ar_sems s t \<noteq> None" for t using that by (auto simp: sm_def split: option.splits)
  have sem: "ar_sems s t \<noteq> None" if "am_sem mp = Some t" for t
  proof -
    have "holds (ar_places s t) = Some (am_pa mp, m)" using ok that by (simp add: mapping_ok_def)
    moreover have "thread_ok s t" using inv by (simp add: arp_inv_def)
    ultimately show ?thesis by (simp add: thread_ok_def)
  qed
  have upd: "mapping_update m ha s = Some s'"
  proof (cases "am_sem mp")
    case (Some t)
    then obtain n where "ar_sems s t = Some n" using sem by auto
    then show ?thesis using m Some by (simp add: mapping_update_def waiter_v_def s'_def sm_def)
  qed (use m in \<open>simp add: mapping_update_def s'_def sm_def\<close>)
  let ?s = "s'\<lparr>ar_heard := insert (pa, ha) (ar_heard s)\<rparr>"
  have same: "ar_table ?s = ar_table s" "table_ok ?s = table_ok s" "has_pa ?s = has_pa s" "ar_places ?s = ar_places s" "ar_fresh ?s = ar_fresh s" "ar_alarms ?s = ar_alarms s"
    "ar_fired ?s = ar_fired s" "ar_removed ?s = ar_removed s"
    using m by (auto simp: s'_def ar_table_def table_ok_def has_pa_def fun_eq_iff)
  have "mapping_ok ?s m' mp'" if m': "m' \<in> ar_table s" "ar_maps ?s m' = Some mp'" for m' mp'
  proof (cases "m' = m")
    case True
    then show ?thesis using m' pa by (auto simp: mapping_ok_def s'_def)
  next
    case False
    then have "ar_maps s m' = Some mp'" using m' by (simp add: s'_def)
    then have "mapping_ok s m' mp'" using inv m' maps_okD [of s m'] by (auto simp: arp_inv_def)
    then show ?thesis by (auto simp: mapping_ok_def s'_def)
  qed
  moreover have "\<exists>mp'. ar_maps ?s m' = Some mp'" if "m' \<in> ar_table s" for m'
    using inv that maps_okD [of s m'] by (auto simp: arp_inv_def s'_def)
  ultimately have "maps_ok ?s" using inv unfolding arp_inv_def maps_ok_def same by blast
  moreover have "thread_ok ?s t" for t
  proof -
    have "thread_ok s t" using inv by (simp add: arp_inv_def)
    moreover have "ar_maps ?s m' = None \<longleftrightarrow> ar_maps s m' = None" for m' using m by (simp add: s'_def)
    moreover have "ar_sems ?s = sm" by (simp add: s'_def)
    ultimately show ?thesis unfolding thread_ok_def same using dom by (auto split: option.splits prod.splits)
  qed
  moreover have "apart ?s" using inv unfolding arp_inv_def apart_def same by blast
  ultimately show ?thesis using upd by (auto simp: arp_inv_def)
qed

text \<open>A new mapping: without a semaphore, or with that of the thread that makes it and waits for it.\<close>

lemma inv_add:
  assumes inv: "arp_inv s" and new: "am_ha mp \<noteq> 0 \<longrightarrow> (am_pa mp, am_ha mp) \<in> heard"
    and sub: "ar_heard s \<subseteq> heard"
    and p: "(am_sem mp = None \<and> p = ar_places s t \<and> sm = ar_sems s) \<or>
      (am_sem mp = Some t \<and> am_ha mp = 0 \<and> ar_places s t = Missing (am_pa mp) \<and> p = Asking (am_pa mp) (ar_fresh s) 0 0 \<and> sm = (ar_sems s)(t \<mapsto> 0))"
  shows "arp_inv ((arp_add mp s)\<lparr>ar_heard := heard, ar_sems := sm, ar_places := (ar_places s)(t := p)\<rparr>)" (is "arp_inv ?s")
proof -
  let ?f = "ar_fresh s"
  have fresh: "?f \<notin> ar_table s" using inv by (auto simp: arp_inv_def maps_ok_def)
  have th: "thread_ok s u" for u using inv by (simp add: arp_inv_def)
  have unused: "?f \<notin> ar_removed s" using inv by (auto simp: arp_inv_def maps_ok_def)
  have used: "holds (ar_places s u) = Some (pa, m) \<Longrightarrow> m \<noteq> ?f" for u pa m
    using th [of u] by (auto simp: thread_ok_def)
  have al: "ar_places s t = Missing q \<Longrightarrow> t \<notin> ar_alarms s \<and> (t, True) \<notin> ar_fired s" for q using th [of t] by (auto simp: thread_ok_def)
  have tok: "table_ok s" using inv by (simp add: arp_inv_def maps_ok_def)
  have "ar_table ?s = ar_table (arp_add mp s)" "table_ok ?s = table_ok (arp_add mp s)" by (simp_all add: ar_table_def table_ok_def)
  then have tabs: "ar_table ?s = insert ?f (ar_table s)" "table_ok ?s" using arp_add_table [OF tok] arp_add_ok [OF tok fresh] by simp_all
  have tab: "ar_maps ?s = (ar_maps s)(?f \<mapsto> mp)" "ar_fresh ?s = ?f + 1" "ar_heard ?s = heard" "ar_sems ?s = sm"
    "ar_places ?s = (ar_places s)(t := p)" "ar_alarms ?s = ar_alarms s" "ar_fired ?s = ar_fired s" "ar_removed ?s = ar_removed s" by (simp_all add: arp_add_def Let_def)
  have pas: "has_pa ?s q m = has_pa s q m" if "m \<noteq> ?f" for q m using that by (simp add: has_pa_def tab)
  have old: "mapping_ok ?s m mp'" if "m \<in> ar_table s" "mapping_ok s m mp'" for m mp'
  proof -
    have "holds (((ar_places s)(t := p)) u) = Some (am_pa mp', m) \<and> knows (((ar_places s)(t := p)) u) = None" if "am_sem mp' = Some u" for u
      using that p \<open>mapping_ok s m mp'\<close> by (auto simp: mapping_ok_def)
    then show ?thesis using that(2) sub unfolding mapping_ok_def tab by blast
  qed
  have "mapping_ok ?s ?f mp" using new p unfolding mapping_ok_def tab by auto
  then have "maps_ok ?s" using inv old fresh by (fastforce simp: arp_inv_def maps_ok_def tab tabs)
  moreover have "thread_ok ?s u" for u
  proof (cases "ar_places ?s u = ar_places s u")
    case True
    then have "ar_sems s u \<noteq> None \<longrightarrow> sm u \<noteq> None" using p by auto
    then show ?thesis using th [of u] True sub used [of u] pas unfolding thread_ok_def tabs by (auto simp: tab)
  next
    case False
    then have "u = t" by (auto simp: tab split: if_splits)
    then show ?thesis using False p al unused unfolding thread_ok_def tab tabs has_pa_def by auto
  qed
  moreover have "apart ?s"
  proof -
    have h: "holds p = holds (ar_places s t) \<or> holds p = Some (am_pa mp, ?f)" using p by auto
    have ap: "holds (ar_places s u) = Some (q, m) \<Longrightarrow> holds (ar_places s v) = Some (q', m) \<Longrightarrow> u = v" for u v q q' m
      using inv unfolding arp_inv_def apart_def by blast
    have new: "m = ?f \<or> holds (ar_places s u) = Some (q, m)" if "holds (((ar_places s)(t := p)) u) = Some (q, m)" for u q m
      using that h by (auto split: if_splits)
    have only: "u = t" if "holds (((ar_places s)(t := p)) u) = Some (q, ?f)" for u q
      using that used [of u q ?f] by (cases "u = t") auto
    show ?thesis unfolding apart_def tab
    proof (intro allI impI)
      fix u v q q' m
      assume u: "holds (((ar_places s)(t := p)) u) = Some (q, m)" and v: "holds (((ar_places s)(t := p)) v) = Some (q', m)"
      show "u = v"
      proof (cases "m = ?f")
        case True
        then show ?thesis using only u v by blast
      next
        case False
        then show ?thesis using new [OF u] new [OF v] ap by blast
      qed
    qed
  qed
  ultimately show ?thesis by (simp add: arp_inv_def)
qed

text \<open>The mapping of a thread that gives up, which nobody else holds.\<close>

lemma inv_give_up:
  assumes inv: "arp_inv s" and t: "ar_places s t = Asking pa m i 0" and there: "ar_maps s m \<noteq> None"
  shows "arp_inv ((arp_drop m s)\<lparr>ar_places := (ar_places s)(t := Resolved pa 0), ar_sems := (ar_sems s)(t := None)\<rparr>)" (is "arp_inv ?s")
proof -
  have th: "thread_ok s u" for u using inv by (simp add: arp_inv_def)
  have ap: "holds (ar_places s u) = Some (q, m) \<Longrightarrow> u = t" for u q using inv t unfolding arp_inv_def apart_def by (metis holds.simps(1))
  have m: "m \<in> ar_table s" "m < ar_fresh s" "t \<notin> ar_alarms s" "(t, True) \<notin> ar_fired s" using th [of t] t there by (auto simp: thread_ok_def split: if_splits)
  have tok: "table_ok s" using inv by (simp add: arp_inv_def maps_ok_def)
  have "ar_table ?s = ar_table (arp_drop m s)" "table_ok ?s = table_ok (arp_drop m s)" by (simp_all add: ar_table_def table_ok_def)
  then have tabs: "ar_table ?s = ar_table s - {m}" "table_ok ?s" using arp_drop_table [OF tok] arp_drop_ok [OF tok] by simp_all
  have tab: "ar_maps ?s = (ar_maps s)(m := None)" "ar_fresh ?s = ar_fresh s" "ar_heard ?s = ar_heard s"
    "ar_sems ?s = (ar_sems s)(t := None)" "ar_places ?s = (ar_places s)(t := Resolved pa 0)" "ar_alarms ?s = ar_alarms s"
    "ar_fired ?s = ar_fired s" "ar_removed ?s = ar_removed s" by (simp_all add: arp_drop_def)
  have pas: "has_pa ?s q m' = has_pa s q m'" if "m' \<noteq> m" for q m' using that by (simp add: has_pa_def tab)
  have "mapping_ok ?s m' mp" if "m' \<noteq> m" "mapping_ok s m' mp" for m' mp
    using that t unfolding mapping_ok_def tab by (metis (no_types, lifting) fun_upd_other holds.simps(1) option.inject prod.inject)
  then have "maps_ok ?s" using inv tabs unfolding arp_inv_def maps_ok_def tab tabs by simp blast
  moreover have "thread_ok ?s u" for u
  proof (cases "u = t")
    case False
    then have "holds (ar_places s u) = Some (q, m') \<Longrightarrow> m' \<noteq> m" for q m' using ap [of u] by auto
    then show ?thesis using False th [of u] pas unfolding thread_ok_def tab tabs by (auto split: option.splits)
  qed (use m in \<open>simp add: thread_ok_def tab\<close>)
  moreover have "apart ?s" using inv unfolding arp_inv_def apart_def tab by auto
  ultimately show ?thesis by (simp add: arp_inv_def)
qed

text \<open>Every step keeps the invariant.\<close>

lemma inv_place:
  assumes inv: "arp_inv s" and p: "holds p = holds (ar_places s t)" "\<And>x. knows p = Some x \<Longrightarrow> x \<in> ar_heard s \<and> holds p = None"
    and al: "t \<in> ar_alarms s \<or> (t, True) \<in> ar_fired s \<longrightarrow> (\<exists>pa m i. p = Waiting pa m i \<or> p = Reading pa m i)"
    and fd: "\<And>pa m. p = Found pa m \<Longrightarrow> m \<in> ar_table s \<and> has_pa s pa m"
  shows "arp_inv (at_place t p s)"
proof (rule inv_local [OF inv, where t = t and p = p and sm = "ar_sems s" and al = "ar_alarms s" and fi = "ar_fired s" and se = "ar_sent s"])
  have th: "thread_ok s t" using inv by (simp add: arp_inv_def)
  show "ar_sems s t \<noteq> None" if "holds p \<noteq> None" using th that p(1) by (auto simp: thread_ok_def)
  show "m < ar_fresh s \<and> (ar_maps s m = None \<or> m \<in> ar_table s \<and> has_pa s pa m)" if "p = Found pa m" for pa m
    using fd [OF that] inv by (auto simp: arp_inv_def maps_ok_def)
qed (use p al in \<open>auto simp: at_place_def\<close>)

lemma no_alarm: "arp_inv s \<Longrightarrow> ar_places s t = p \<Longrightarrow> (\<And>pa m i. p \<noteq> Waiting pa m i \<and> p \<noteq> Reading pa m i) \<Longrightarrow> t \<notin> ar_alarms s \<and> (t, True) \<notin> ar_fired s"
proof -
  assume "arp_inv s" and p: "ar_places s t = p" "\<And>pa m i. p \<noteq> Waiting pa m i \<and> p \<noteq> Reading pa m i"
  then have "thread_ok s t" by (simp add: arp_inv_def)
  then show "t \<notin> ar_alarms s \<and> (t, True) \<notin> ar_fired s" using p unfolding thread_ok_def by metis
qed

lemma inv_run:
  assumes inv: "arp_inv s" and run: "resolve_step retries my_ha my_pa t s = Some s'"
  shows "arp_inv s'"
proof (cases "ar_places s t")
  case (Searching pa)
  then have al: "t \<notin> ar_alarms s \<and> (t, True) \<notin> ar_fired s" using no_alarm [OF inv] by simp
  show ?thesis
  proof (cases "arp_find s pa")
    case None
    then have "s' = at_place t (Missing pa) s" using run Searching by (simp add: resolve_step_def)
    then show ?thesis using inv_place [OF inv, of "Missing pa" t] Searching al by simp
  next
    case (Some m)
    then have "s' = at_place t (Found pa m) s" using run Searching by (simp add: resolve_step_def)
    moreover have "m \<in> ar_table s \<and> has_pa s pa m" using arp_find_in [OF _ Some] inv by (simp add: arp_inv_def maps_ok_def)
    ultimately show ?thesis using inv_place [OF inv, of "Found pa m" t] Searching al by simp
  qed
next
  case (Found pa m)
  then have al: "t \<notin> ar_alarms s \<and> (t, True) \<notin> ar_fired s" using no_alarm [OF inv] by simp
  obtain mp where mp: "ar_maps s m = Some mp" "s' = at_place t (Resolved pa (am_ha mp)) s"
    using run Found by (auto simp: resolve_step_def split: bind_splits)
  have th: "thread_ok s t" using inv by (simp add: arp_inv_def)
  then have "mapping_ok s m mp" "am_pa mp = pa" using Found mp(1) maps_okD [of s m] inv by (auto simp: thread_ok_def arp_inv_def has_pa_def)
  then have "x \<in> ar_heard s" if "knows (Resolved pa (am_ha mp)) = Some x" for x using that by (auto simp: mapping_ok_def split: if_splits)
  then show ?thesis using inv_place [OF inv, of "Resolved pa (am_ha mp)" t] Found al mp(2) by simp
next
  case (Missing pa)
  let ?mp = "\<lparr>am_pa = pa, am_ha = 0, am_sem = Some t\<rparr>"
  have "s' = (arp_add ?mp s)\<lparr>ar_heard := ar_heard s, ar_sems := (ar_sems s)(t \<mapsto> 0), ar_places := (ar_places s)(t := Asking pa (ar_fresh s) 0 0)\<rparr>"
    using run Missing by (auto simp: resolve_step_def at_place_def arp_add_def pa_slot_def Let_def)
  then show ?thesis using inv_add [OF inv, of ?mp "ar_heard s" "Asking pa (ar_fresh s) 0 0" t "(ar_sems s)(t \<mapsto> 0)"] Missing by simp
next
  case (Asking pa m i ha)
  have al: "t \<notin> ar_alarms s \<and> (t, True) \<notin> ar_fired s" using no_alarm [OF inv Asking] by simp
  have th: "thread_ok s t" using inv by (simp add: arp_inv_def)
  consider (send) "i < retries" "ha = 0" | (give) "ha = 0" "\<not> i < retries" | (take) "ha \<noteq> 0" by blast
  then show ?thesis
  proof cases
    case send
    then show ?thesis using run Asking th
      by (intro inv_local [OF inv, where s' = s' and t = t and p = "Waiting pa m i" and sm = "ar_sems s" and al = "insert t (ar_alarms s)" and fi = "ar_fired s" and se = "ar_sent s'"])
         (auto simp: resolve_step_def at_place_def thread_ok_def)
  next
    case give
    then have "ar_maps s m \<noteq> None" "s' = (arp_drop m s)\<lparr>ar_places := (ar_places s)(t := Resolved pa 0), ar_sems := (ar_sems s)(t := None)\<rparr>"
      using run Asking by (auto simp: resolve_step_def at_place_def arp_drop_def split: if_splits)
    then show ?thesis using inv_give_up [OF inv, of t pa m i] Asking give by simp
  next
    case take
    have s': "s' = s\<lparr>ar_places := (ar_places s)(t := Resolved pa ha), ar_sems := (ar_sems s)(t := None)\<rparr>"
      using run Asking take by (auto simp: resolve_step_def at_place_def)
    have free: "am_sem mp \<noteq> Some t" if "m' \<in> ar_table s" "ar_maps s m' = Some mp" for m' mp
      using inv that maps_okD [of s m'] Asking take by (auto simp: arp_inv_def mapping_ok_def)
    have kn: "(pa, ha) \<in> ar_heard s" using th Asking take by (auto simp: thread_ok_def)
    have mok: "mapping_ok s' m' mp" if "m' \<in> ar_table s" "ar_maps s m' = Some mp" for m' mp
      using inv that maps_okD [of s m'] free [OF that] by (auto simp: arp_inv_def mapping_ok_def s')
    have same: "table_ok s' = table_ok s" "ar_table s' = ar_table s" "ar_maps s' = ar_maps s" "ar_fresh s' = ar_fresh s" "has_pa s' = has_pa s"
      "ar_removed s' = ar_removed s"
      by (simp_all add: s' ar_table_def table_ok_def has_pa_def fun_eq_iff)
    have "maps_ok s'" using inv mok unfolding arp_inv_def maps_ok_def same by fastforce
    moreover have "thread_ok s' u" for u
    proof (cases "u = t")
      case False
      have "thread_ok s u" using inv by (simp add: arp_inv_def)
      then show ?thesis using False unfolding thread_ok_def same by (simp add: s')
    qed (use kn al take in \<open>simp add: thread_ok_def s'\<close>)
    moreover have "apart s'" using inv unfolding arp_inv_def apart_def s' by auto
    ultimately show ?thesis by (simp add: arp_inv_def)
  qed
next
  case (Waiting pa m i)
  then obtain n where n: "ar_sems s t = Some n" "n \<noteq> 0" using run by (auto simp: resolve_step_def split: bind_splits if_splits)
  then show ?thesis using run Waiting
    by (intro inv_local [OF inv, where s' = s' and t = t and p = "Reading pa m i" and sm = "(ar_sems s)(t \<mapsto> n - 1)" and al = "ar_alarms s" and fi = "ar_fired s" and se = "ar_sent s"]) (auto simp: resolve_step_def at_place_def)
next
  case (Reading pa m i)
  have th: "thread_ok s t" using inv by (simp add: arp_inv_def)
  obtain mp where maps: "ar_maps s m = Some mp" using run Reading by (auto simp: resolve_step_def split: bind_splits)
  then have mp: "ar_maps s m = Some mp" "am_pa mp = pa" "m \<in> ar_table s" using th Reading by (auto simp: thread_ok_def has_pa_def split: if_splits)
  then have ok: "mapping_ok s m mp" using inv maps_okD [of s m] by (auto simp: arp_inv_def)
  have "am_sem mp = None" if "am_ha mp \<noteq> 0" using ok that by (cases "am_sem mp") (auto simp: mapping_ok_def)
  then show ?thesis using run Reading mp th ok
    by (intro inv_local [OF inv, where s' = s' and t = t and p = "Asking pa m (i + 1) (am_ha mp)" and sm = "ar_sems s" and al = "ar_alarms s - {t}"
         and fi = "ar_fired (alarm_end t s)" and se = "ar_sent s"])
       (auto simp: resolve_step_def at_place_def alarm_end_def thread_ok_def mapping_ok_def split: if_splits)
qed (use run in \<open>simp_all add: resolve_step_def\<close>)

lemma inv_sent: "arp_inv (s\<lparr>ar_sent := se\<rparr>) \<longleftrightarrow> arp_inv s"
  by (simp add: arp_inv_def maps_ok_def thread_ok_def apart_def mapping_ok_def table_ok_def ar_table_def has_pa_def)

lemma inv_heard: "arp_inv s \<Longrightarrow> ar_heard s \<subseteq> heard \<Longrightarrow> arp_inv (s\<lparr>ar_heard := heard\<rparr>)"
proof -
  assume inv: "arp_inv s" and sub: "ar_heard s \<subseteq> heard"
  have same: "ar_table (s\<lparr>ar_heard := heard\<rparr>) = ar_table s" "table_ok (s\<lparr>ar_heard := heard\<rparr>) = table_ok s" "has_pa (s\<lparr>ar_heard := heard\<rparr>) = has_pa s"
    by (simp_all add: ar_table_def table_ok_def has_pa_def fun_eq_iff)
  have "mapping_ok s m mp \<Longrightarrow> mapping_ok (s\<lparr>ar_heard := heard\<rparr>) m mp" for m mp using sub by (auto simp: mapping_ok_def)
  moreover have "thread_ok s t \<Longrightarrow> thread_ok (s\<lparr>ar_heard := heard\<rparr>) t" for t using sub unfolding thread_ok_def same by auto
  ultimately show ?thesis using inv unfolding arp_inv_def maps_ok_def apart_def same by auto
qed

lemma inv_packet:
  assumes inv: "arp_inv s"
  shows "\<exists>s'. arp_update my_ha my_pa p s = Some s' \<and> arp_inv s'"
proof (cases "ap_op p = REPLY \<and> ap_tha p = my_ha")
  case False
  then show ?thesis using inv inv_sent by (auto simp: arp_update_def)
next
  case True
  then have op: "ap_op p \<noteq> REQUEST" by (simp add: REQUEST_def REPLY_def)
  show ?thesis
  proof (cases "arp_find s (ap_spa p)")
    case None
    then show ?thesis using True op inv_heard [OF inv, of "insert (ap_spa p, ap_sha p) (ar_heard s)"] by (auto simp: arp_update_def)
  next
    case (Some m)
    then obtain mp where mp: "m \<in> ar_table s" "ar_maps s m = Some mp" "am_pa mp = ap_spa p" using arp_find_in [OF _ Some] inv by (auto simp: arp_inv_def maps_ok_def has_pa_def)
    obtain s1 where s1: "mapping_update m (ap_sha p) s = Some s1" "arp_inv (s1\<lparr>ar_heard := insert (ap_spa p, ap_sha p) (ar_heard s)\<rparr>)"
      using inv_reply [OF inv mp] by blast
    have "ar_heard s1 = ar_heard s" using s1(1) by (auto simp: mapping_update_def waiter_v_def split: bind_splits option.splits)
    then show ?thesis using True op Some s1 by (auto simp: arp_update_def)
  qed
qed

lemma inv_alarm:
  assumes inv: "arp_inv s" and t: "t \<in> ar_alarms s"
  shows "arp_inv (arp_alarm t s)"
proof -
  have th: "thread_ok s t" using inv by (simp add: arp_inv_def)
  then have h: "holds (ar_places s t) \<noteq> None" "knows (ar_places s t) = None" using t by (auto simp: thread_ok_def)
  then show ?thesis
    by (intro inv_local [OF inv, where t = t and p = "ar_places s t" and sm = "ar_sems s" and al = "ar_alarms s - {t}"
          and fi = "insert (t, True) (ar_fired s)" and se = "ar_sent s"])
       (use th t in \<open>auto simp: arp_alarm_def thread_ok_def\<close>)
qed

lemma inv_handle:
  assumes inv: "arp_inv s" and t: "(t, True) \<in> ar_fired s"
  shows "\<exists>s'. arp_handle t True s = Some s' \<and> arp_inv s'"
proof -
  have th: "thread_ok s t" using inv by (simp add: arp_inv_def)
  then have h: "holds (ar_places s t) \<noteq> None" "knows (ar_places s t) = None" using t by (auto simp: thread_ok_def)
  then obtain n where n: "ar_sems s t = Some n" using th by (auto simp: thread_ok_def)
  define s' where "s' = s\<lparr>ar_fired := ar_fired s - {(t, True)}, ar_sems := (ar_sems s)(t \<mapsto> n + 1)\<rparr>"
  have "arp_inv s'" using h
    by (intro inv_local [OF inv, where s' = s' and t = t and p = "ar_places s t" and sm = "(ar_sems s)(t \<mapsto> n + 1)" and al = "ar_alarms s"
          and fi = "ar_fired s - {(t, True)}" and se = "ar_sent s"])
       (use th in \<open>auto simp: s'_def thread_ok_def\<close>)
  then show ?thesis using n by (simp add: arp_handle_def waiter_v_def s'_def)
qed

text \<open>\<open>remove\<close> may delete a mapping a thread holds.\<close>

lemma inv_remove:
  assumes inv: "arp_inv s"
  shows "arp_inv (arp_remove pa s)"
proof (cases "arp_find s pa")
  case (Some m)
  let ?s = "(arp_drop m s)\<lparr>ar_removed := insert m (ar_removed s)\<rparr>"
  have th: "thread_ok s u" for u using inv by (simp add: arp_inv_def)
  have tok: "table_ok s" using inv by (simp add: arp_inv_def maps_ok_def)
  have m: "m \<in> ar_table s" using arp_find_in [OF tok Some] by blast
  then have less: "m < ar_fresh s" using inv by (auto simp: arp_inv_def maps_ok_def)
  have "ar_table ?s = ar_table (arp_drop m s)" "table_ok ?s = table_ok (arp_drop m s)" by (simp_all add: ar_table_def table_ok_def)
  then have tabs: "ar_table ?s = ar_table s - {m}" "table_ok ?s" using arp_drop_table [OF tok] arp_drop_ok [OF tok] by simp_all
  have tab: "ar_maps ?s = (ar_maps s)(m := None)" "ar_fresh ?s = ar_fresh s" "ar_heard ?s = ar_heard s" "ar_sems ?s = ar_sems s"
    "ar_places ?s = ar_places s" "ar_alarms ?s = ar_alarms s" "ar_fired ?s = ar_fired s" "ar_removed ?s = insert m (ar_removed s)"
    by (simp_all add: arp_drop_def)
  have pas: "has_pa ?s q m' = has_pa s q m'" if "m' \<noteq> m" for q m' using that by (simp add: has_pa_def tab)
  have "mapping_ok ?s m' mp" if "mapping_ok s m' mp" for m' mp using that by (simp add: mapping_ok_def tab)
  then have "maps_ok ?s" using inv tabs less unfolding arp_inv_def maps_ok_def tab tabs by simp blast
  moreover have "thread_ok ?s u" for u using th [of u] pas unfolding thread_ok_def tab tabs by (auto split: if_splits)
  moreover have "apart ?s" using inv unfolding arp_inv_def apart_def tab by auto
  ultimately show ?thesis using Some by (simp add: arp_inv_def arp_remove_def)
qed (use inv in \<open>simp add: arp_remove_def\<close>)

lemma inv_insert: "arp_inv s \<Longrightarrow> arp_inv (arp_insert pa ha s)"
proof -
  assume inv: "arp_inv s"
  let ?mp = "\<lparr>am_pa = pa, am_ha = ha, am_sem = None\<rparr>"
  have "arp_insert pa ha s = (arp_add ?mp s)\<lparr>ar_heard := insert (pa, ha) (ar_heard s), ar_sems := ar_sems s, ar_places := (ar_places s)(0 := ar_places s 0)\<rparr>"
    by (simp add: arp_insert_def arp_add_def Let_def pa_slot_def)
  then show ?thesis using inv_add [OF inv, of ?mp "insert (pa, ha) (ar_heard s)" "ar_places s 0" 0 "ar_sems s"] by auto
qed

lemma arp_inv_call: "arp_inv s \<Longrightarrow> ar_places s t = Away \<or> ar_places s t = Resolved pa' ha \<Longrightarrow> arp_inv (at_place t (Searching pa) s)"
  using no_alarm [of s t] by (intro inv_place) auto

lemma arp_inv_reach: "arp_reach retries my_ha my_pa s \<Longrightarrow> arp_inv s"
proof (induction rule: arp_reach.induct)
  case (start entries)
  then  show ?case by (simp add: arp_inv_def maps_ok_def thread_ok_def apart_def arp_new_def ar_table_def table_ok_def)
next
  case (step s s')
  from step.hyps(2) show ?case
  proof (cases rule: arp_next.cases)
    case (packet p)
    then show ?thesis using inv_packet [OF step.IH, of my_ha my_pa p] by simp
  next
    case (handle t live)
    then have live by (simp add: arp_handle_def split: if_splits)
    then show ?thesis using inv_handle [OF step.IH, of t] handle by simp
  qed (use step.IH inv_run inv_insert inv_alarm inv_remove arp_inv_call in auto)
qed

text \<open>Two threads that have called \<open>resolve\<close> for the address 7.\<close>

definition sample_arp :: arp where
  "sample_arp = at_place 1 (Searching 7) (at_place 0 (Searching 7) (arp_new 4))"

lemma sample_arp_reach: "arp_reach retries my_ha my_pa sample_arp"
proof -
  have "arp_reach retries my_ha my_pa (at_place 0 (Searching 7) (arp_new 4))"
    by (rule arp_reach.step [OF arp_reach.start [of 4]]; (rule arp_next.call)?; simp add: arp_new_def)
  then show ?thesis unfolding sample_arp_def
    by (rule arp_reach.step, intro arp_next.call) (simp add: at_place_def arp_new_def)
qed

lemma sample_arp_places: "ar_places sample_arp 0 = Searching 7" "ar_places sample_arp 1 = Searching 7" "arp_find sample_arp 7 = None"
  by (simp_all add: sample_arp_def at_place_def arp_new_def arp_find_def pa_slot_def)

section \<open>What ARP promises\<close>

lemma resolve_stops:
  assumes "arp_reach retries my_ha my_pa s"
  shows "resolve_step retries my_ha my_pa t s = None \<longleftrightarrow>
      (case ar_places s t of Away \<Rightarrow> True | Resolved pa ha \<Rightarrow> True | Waiting pa m i \<Rightarrow> ar_sems s t = Some 0
        | Found pa m \<Rightarrow> ar_maps s m = None | Reading pa m i \<Rightarrow> m \<in> ar_removed s
        | Asking pa m i ha \<Rightarrow> ha = 0 \<and> retries \<le> i \<and> m \<in> ar_removed s | _ \<Rightarrow> False)"
proof -
  have inv: "arp_inv s" using arp_inv_reach [OF assms] .
  then have th: "thread_ok s t" by (simp add: arp_inv_def)
  have there: "ar_maps s m \<noteq> None" if "m \<in> ar_table s" for m using that inv by (auto simp: arp_inv_def maps_ok_def)
  show ?thesis
  proof (cases "ar_places s t")
    case (Searching pa)
    then show ?thesis by (auto simp: resolve_step_def split: option.splits)
  next
    case (Waiting pa m i)
    then show ?thesis using th by (auto simp: resolve_step_def thread_ok_def split: bind_splits)
  next
    case (Reading pa m i)
    then have "ar_maps s m = None \<longleftrightarrow> m \<in> ar_removed s" using th there by (auto simp: thread_ok_def split: if_splits)
    then show ?thesis using Reading by (auto simp: resolve_step_def split: bind_splits)
  next
    case (Asking pa m i ha)
    then have "ar_maps s m = None \<longleftrightarrow> m \<in> ar_removed s" using th there by (auto simp: thread_ok_def split: if_splits)
    then show ?thesis using Asking by (auto simp: resolve_step_def Let_def)
  qed (auto simp: resolve_step_def split: bind_splits)
qed



text \<open>One attempt to which nobody answers, and several.\<close>

definition attempt :: "nat \<Rightarrow> ha \<Rightarrow> pa \<Rightarrow> nat \<Rightarrow> arp \<Rightarrow> arp option" where
  "attempt retries my_ha my_pa t s = do {
     s \<leftarrow> resolve_step retries my_ha my_pa t s; s \<leftarrow> arp_handle t True (arp_alarm t s);
     s \<leftarrow> resolve_step retries my_ha my_pa t s; resolve_step retries my_ha my_pa t s }"

fun attempts :: "nat \<Rightarrow> nat \<Rightarrow> ha \<Rightarrow> pa \<Rightarrow> nat \<Rightarrow> arp \<Rightarrow> arp option" where
  "attempts 0 retries my_ha my_pa t s = Some s"
| "attempts (Suc n) retries my_ha my_pa t s = do { s \<leftarrow> attempt retries my_ha my_pa t s; attempts n retries my_ha my_pa t s }"

definition request :: "ha \<Rightarrow> pa \<Rightarrow> pa \<Rightarrow> ha \<times> arp_packet" where
  "request my_ha my_pa pa = (HA_BROADCAST, \<lparr>ap_op = REQUEST, ap_sha = my_ha, ap_spa = my_pa, ap_tha = HA_BROADCAST, ap_tpa = pa\<rparr>)"

text \<open>The state in which the thread is about to make attempt \<open>i\<close>, with \<open>k\<close> requests sent.\<close>

definition asking :: "arp \<Rightarrow> nat \<Rightarrow> ha \<Rightarrow> pa \<Rightarrow> pa \<Rightarrow> nat \<Rightarrow> nat \<Rightarrow> arp" where
  "asking s t my_ha my_pa pa i k = at_place t (Asking pa (ar_fresh s) i 0)
     ((arp_add \<lparr>am_pa = pa, am_ha = 0, am_sem = Some t\<rparr> s)\<lparr>ar_sems := (ar_sems s)(t \<mapsto> 0), ar_sent := ar_sent s @ replicate k (request my_ha my_pa pa)\<rparr>)"

lemma start_asking:
  "ar_places s t = Missing pa \<Longrightarrow> resolve_step retries my_ha my_pa t s = Some (asking s t my_ha my_pa pa 0 0)"
  by (simp add: resolve_step_def asking_def at_place_def arp_add_def pa_slot_def Let_def)

lemma attempt_times_out:
  "i < retries \<Longrightarrow> t \<notin> ar_alarms s \<and> (t, True) \<notin> ar_fired s \<Longrightarrow>
   attempt retries my_ha my_pa t (asking s t my_ha my_pa pa i k) = Some (asking s t my_ha my_pa pa (i + 1) (k + 1))"
  by (simp add: attempt_def asking_def resolve_step_def at_place_def arp_add_def arp_alarm_def arp_handle_def alarm_end_def waiter_v_def request_def replicate_append_same insert_Diff_if pa_slot_def Let_def)

lemma attempts_time_out:
  "i + n \<le> retries \<Longrightarrow> t \<notin> ar_alarms s \<and> (t, True) \<notin> ar_fired s \<Longrightarrow>
   attempts n retries my_ha my_pa t (asking s t my_ha my_pa pa i k) = Some (asking s t my_ha my_pa pa (i + n) (k + n))"
proof (induction n arbitrary: i k)
  case (Suc n)
  then show ?case using Suc.IH [of "i + 1" "k + 1"] by (simp add: attempt_times_out)
qed simp

lemma drop_added:
  assumes "table_ok s" "ar_fresh s \<notin> ar_table s"
  shows "ar_slots (arp_drop (ar_fresh s) (arp_add mp s)) = ar_slots s" "ar_synonyms (arp_drop (ar_fresh s) (arp_add mp s)) = ar_synonyms s"
proof -
  let ?i = "pa_slot s (am_pa mp)"
  have i: "?i < length (ar_slots s)" using pa_slot_less [OF assms(1)] .
  have "map (\<lambda>x. if x = Some (ar_fresh s) then None else x) (ar_slots s) = ar_slots s" using assms(2) by (intro map_idI) (auto simp: ar_table_def)
  then show "ar_slots (arp_drop (ar_fresh s) (arp_add mp s)) = ar_slots s"
    using i by (auto simp: arp_drop_def arp_add_def Let_def map_update) (metis list_update_id)
  have "Some (ar_fresh s) \<in> set ((ar_slots s)[?i := Some (ar_fresh s)])" using i by (rule set_update_memI)
  then show "ar_synonyms (arp_drop (ar_fresh s) (arp_add mp s)) = ar_synonyms s"
    using assms(2) by (auto simp: arp_drop_def arp_add_def Let_def ar_table_def remove1_append)
qed

text \<open>
  When nobody answers, \<open>resolve\<close> returns the null address after \<open>RETRIES\<close> requests and as many alarms, and leaves the table as it was.
\<close>

theorem resolve_gives_up:
  assumes "arp_reach retries my_ha my_pa s" "ar_places s t = Searching pa" "arp_find s pa = None"
  shows "\<exists>s'. do {
      s \<leftarrow> resolve_step retries my_ha my_pa t s; s \<leftarrow> resolve_step retries my_ha my_pa t s;
      s \<leftarrow> attempts retries retries my_ha my_pa t s; resolve_step retries my_ha my_pa t s } = Some s' \<and>
    ar_places s' t = Resolved pa 0 \<and> ar_sent s' = ar_sent s @ replicate retries (request my_ha my_pa pa) \<and>
    ar_slots s' = ar_slots s \<and> ar_synonyms s' = ar_synonyms s \<and> (\<forall>m \<in> ar_table s. ar_maps s' m = ar_maps s m)"
proof -
  have inv: "arp_inv s" using arp_inv_reach [OF assms(1)] .
  let ?s = "at_place t (Missing pa) s"
  have al: "t \<notin> ar_alarms ?s \<and> (t, True) \<notin> ar_fired ?s" using no_alarm [OF inv assms(2)] by (simp add: at_place_def)
  let ?f = "ar_fresh s"
  have tok: "table_ok s" using inv by (simp add: arp_inv_def maps_ok_def)
  have fresh: "?f \<notin> ar_table s" using inv by (auto simp: arp_inv_def maps_ok_def)
  have 1: "resolve_step retries my_ha my_pa t s = Some ?s" using assms(2,3) by (simp add: resolve_step_def)
  have 2: "resolve_step retries my_ha my_pa t ?s = Some (asking ?s t my_ha my_pa pa 0 0)" by (rule start_asking) (simp add: at_place_def)
  have 3: "attempts retries retries my_ha my_pa t (asking ?s t my_ha my_pa pa 0 0) = Some (asking ?s t my_ha my_pa pa retries retries)"
    using attempts_time_out [of 0 retries retries t ?s my_ha my_pa pa 0] al by simp
  define s' where "s' = (arp_drop (ar_fresh s) (asking ?s t my_ha my_pa pa retries retries))\<lparr>ar_sems := (ar_sems s)(t := None),
    ar_places := (ar_places s)(t := Resolved pa 0)\<rparr>"
  have 4: "resolve_step retries my_ha my_pa t (asking ?s t my_ha my_pa pa retries retries) = Some s'"
    by (simp add: s'_def asking_def resolve_step_def at_place_def arp_add_def arp_drop_def Let_def)
  have "ar_places s' t = Resolved pa 0" "ar_sent s' = ar_sent s @ replicate retries (request my_ha my_pa pa)"
    "\<forall>m \<in> ar_table s. ar_maps s' m = ar_maps s m"
    using fresh by (auto simp: s'_def asking_def at_place_def arp_add_def arp_drop_def Let_def)
  moreover have "ar_slots s' = ar_slots (arp_drop ?f (arp_add \<lparr>am_pa = pa, am_ha = 0, am_sem = Some t\<rparr> s))"
    "ar_synonyms s' = ar_synonyms (arp_drop ?f (arp_add \<lparr>am_pa = pa, am_ha = 0, am_sem = Some t\<rparr> s))"
    by (simp_all add: s'_def asking_def at_place_def arp_drop_def arp_add_def Let_def pa_slot_def)
  ultimately show ?thesis using drop_added [OF tok fresh] by (simp add: 1 2 3 4)
qed

theorem resolve_gives_up_witness: "\<exists>s'. do {
      s \<leftarrow> resolve_step 3 1 2 0 sample_arp; s \<leftarrow> resolve_step 3 1 2 0 s; s \<leftarrow> attempts 3 3 1 2 0 s; resolve_step 3 1 2 0 s } = Some s' \<and>
    ar_places s' 0 = Resolved 7 0"
  using resolve_gives_up [OF sample_arp_reach sample_arp_places(1,3), of 3 1 2] by blast

lemma arp_find_new:
  assumes "table_ok s" "arp_find s (am_pa mp) = None"
    and s': "ar_slots s' = ar_slots (arp_add mp s)" "ar_synonyms s' = ar_synonyms (arp_add mp s)"
    and maps: "has_pa s' (am_pa mp) (ar_fresh s)" "\<And>m. m \<in> ar_table s \<Longrightarrow> ar_maps s' m = ar_maps s m"
  shows "arp_find s' (am_pa mp) = Some (ar_fresh s)"
proof -
  let ?i = "pa_slot s (am_pa mp)"
  have i: "?i < length (ar_slots s)" using pa_slot_less [OF assms(1)] .
  have slot: "pa_slot s' (am_pa mp) = ?i" using s'(1) by (simp add: pa_slot_def arp_add_def Let_def)
  have "\<not> has_pa s (am_pa mp) m" if "m \<in> set (ar_synonyms s)" for m
    using assms(2) that by (auto simp: arp_find_def find_None_iff split: option.splits if_splits)
  then have syn: "find (has_pa s' (am_pa mp)) (ar_synonyms s) = None"
    using maps(2) by (auto simp: find_None_iff has_pa_def ar_table_def)
  have other: "\<not> has_pa s' (am_pa mp) m" if m: "ar_slots s ! ?i = Some m" for m
  proof -
    have "m \<in> ar_table s" using m i nth_mem [OF i] by (simp add: ar_table_def)
    then show ?thesis using assms(2) m maps(2) [of m] by (auto simp: arp_find_def has_pa_def split: if_splits)
  qed
  have "find P (xs @ ys) = (case find P xs of None \<Rightarrow> find P ys | Some x \<Rightarrow> Some x)" for P and xs ys :: "nat list" by (induction xs) auto
  then show ?thesis using i s' maps(1) other syn by (auto simp: arp_find_def slot arp_add_def Let_def split: option.splits)
qed

text \<open>
  One thread that is not disturbed: when a reply with a hardware address comes to one of the attempts, \<open>resolve\<close> returns that address, and
  the very next call for it, of whatever thread, is answered from the table, without a request.
\<close>

theorem resolve_answers:
  assumes "arp_reach retries my_ha my_pa s" "ar_places s t = Searching pa" "arp_find s pa = None" "n < retries" "ha \<noteq> 0"
  shows "\<exists>s'. do {
      s \<leftarrow> resolve_step retries my_ha my_pa t s; s \<leftarrow> resolve_step retries my_ha my_pa t s;
      s \<leftarrow> attempts n retries my_ha my_pa t s; s \<leftarrow> resolve_step retries my_ha my_pa t s;
      s \<leftarrow> arp_update my_ha my_pa \<lparr>ap_op = REPLY, ap_sha = ha, ap_spa = pa, ap_tha = my_ha, ap_tpa = my_pa\<rparr> s;
      s \<leftarrow> resolve_step retries my_ha my_pa t s; s \<leftarrow> resolve_step retries my_ha my_pa t s; resolve_step retries my_ha my_pa t s } = Some s' \<and>
    ar_places s' t = Resolved pa ha \<and> length (ar_sent s') = length (ar_sent s) + n + 1 \<and>
    (\<forall>u. do { s \<leftarrow> resolve_step retries my_ha my_pa u (at_place u (Searching pa) s'); s \<leftarrow> resolve_step retries my_ha my_pa u s; Some (ar_places s u) } =
      Some (Resolved pa ha))"
proof -
  have inv: "arp_inv s" using arp_inv_reach [OF assms(1)] .
  let ?s = "at_place t (Missing pa) s"
  have al: "t \<notin> ar_alarms ?s \<and> (t, True) \<notin> ar_fired ?s" using no_alarm [OF inv assms(2)] by (simp add: at_place_def)
  let ?f = "ar_fresh s"
  have tok: "table_ok s" using inv by (simp add: arp_inv_def maps_ok_def)
  have fresh: "?f \<notin> ar_table s" using inv by (auto simp: arp_inv_def maps_ok_def)
  have 1: "resolve_step retries my_ha my_pa t s = Some ?s" using assms(2,3) by (simp add: resolve_step_def)
  have 2: "resolve_step retries my_ha my_pa t ?s = Some (asking ?s t my_ha my_pa pa 0 0)" by (rule start_asking) (simp add: at_place_def)
  have 3: "attempts n retries my_ha my_pa t (asking ?s t my_ha my_pa pa 0 0) = Some (asking ?s t my_ha my_pa pa n n)"
    using attempts_time_out [of 0 n retries t ?s my_ha my_pa pa 0] al assms(4) by simp
  let ?reply = "\<lparr>ap_op = REPLY, ap_sha = ha, ap_spa = pa, ap_tha = my_ha, ap_tpa = my_pa\<rparr>"
  define A where "A = (asking ?s t my_ha my_pa pa n n)\<lparr>ar_sent := ar_sent s @ replicate n (request my_ha my_pa pa) @ [request my_ha my_pa pa],
    ar_alarms := insert t (ar_alarms s), ar_places := (ar_places s)(t := Waiting pa ?f n)\<rparr>"
  have 4: "resolve_step retries my_ha my_pa t (asking ?s t my_ha my_pa pa n n) = Some A"
    using assms(4) by (simp add: A_def asking_def resolve_step_def at_place_def arp_add_def request_def pa_slot_def Let_def)
  let ?mp = "\<lambda>ha sem. \<lparr>am_pa = pa, am_ha = ha, am_sem = sem\<rparr>"
  have slots: "ar_slots A = ar_slots (arp_add (?mp a x) s)" "ar_synonyms A = ar_synonyms (arp_add (?mp a x) s)" for a x
    by (simp_all add: A_def asking_def at_place_def arp_add_def pa_slot_def Let_def)
  have tab: "ar_maps A ?f = Some \<lparr>am_pa = pa, am_ha = 0, am_sem = Some t\<rparr>" "ar_sems A t = Some 0"
    "\<And>m. m \<in> ar_table s \<Longrightarrow> ar_maps A m = ar_maps s m" "ar_places A t = Waiting pa ?f n"
    using fresh by (auto simp: A_def asking_def at_place_def arp_add_def Let_def)
  have found: "arp_find A pa = Some ?f"
    using arp_find_new [of s "?mp 0 None" A] tok assms(3) slots [of 0 None] tab(1,3) by (simp add: has_pa_def)
  define B where "B = A\<lparr>ar_sems := (ar_sems A)(t \<mapsto> 1), ar_maps := (ar_maps A)(?f \<mapsto> \<lparr>am_pa = pa, am_ha = ha, am_sem = None\<rparr>),
    ar_heard := insert (pa, ha) (ar_heard A)\<rparr>"
  have 5: "arp_update my_ha my_pa ?reply A = Some B"
    using found tab(1,2) by (simp add: arp_update_def mapping_update_def waiter_v_def B_def REPLY_def REQUEST_def)
  define C where "C = B\<lparr>ar_sems := (ar_sems B)(t \<mapsto> 0), ar_places := (ar_places B)(t := Reading pa ?f n)\<rparr>"
  have 6: "resolve_step retries my_ha my_pa t B = Some C" using tab(4) by (simp add: resolve_step_def B_def C_def at_place_def)
  define D where "D = (alarm_end t C)\<lparr>ar_places := (ar_places C)(t := Asking pa ?f (n + 1) ha)\<rparr>"
  have 7: "resolve_step retries my_ha my_pa t C = Some D" by (simp add: resolve_step_def B_def C_def D_def at_place_def alarm_end_def)
  define s' where "s' = D\<lparr>ar_sems := (ar_sems D)(t := None), ar_places := (ar_places D)(t := Resolved pa ha)\<rparr>"
  have 8: "resolve_step retries my_ha my_pa t D = Some s'" using assms(5) by (simp add: resolve_step_def D_def s'_def at_place_def)
  have res: "ar_places s' t = Resolved pa ha" "length (ar_sent s') = length (ar_sent s) + n + 1"
    by (simp_all add: s'_def D_def C_def B_def A_def alarm_end_def)
  have maps: "ar_maps s' ?f = Some (?mp ha None)" "\<And>m. m \<in> ar_table s \<Longrightarrow> ar_maps s' m = ar_maps s m"
    "ar_slots s' = ar_slots A" "ar_synonyms s' = ar_synonyms A"
    using tab(3) fresh by (auto simp: s'_def D_def C_def B_def alarm_end_def)
  have "do { s \<leftarrow> resolve_step retries my_ha my_pa u (at_place u (Searching pa) s'); s \<leftarrow> resolve_step retries my_ha my_pa u s; Some (ar_places s u) } =
      Some (Resolved pa ha)" for u
  proof -
    have "arp_find (at_place u (Searching pa) s') pa = Some ?f"
      using arp_find_new [of s "?mp ha None" "at_place u (Searching pa) s'"] tok assms(3) slots [of ha None] maps by (simp add: at_place_def has_pa_def)
    then show ?thesis using maps(1) by (simp add: resolve_step_def at_place_def)
  qed
  then show ?thesis using res by (simp add: 1 2 3 4 5 6 7 8)
qed

theorem resolve_answers_witness: "\<exists>s'. do {
      s \<leftarrow> resolve_step 3 1 2 0 sample_arp; s \<leftarrow> resolve_step 3 1 2 0 s; s \<leftarrow> attempts 1 3 1 2 0 s; s \<leftarrow> resolve_step 3 1 2 0 s;
      s \<leftarrow> arp_update 1 2 \<lparr>ap_op = REPLY, ap_sha = 9, ap_spa = 7, ap_tha = 1, ap_tpa = 2\<rparr> s;
      s \<leftarrow> resolve_step 3 1 2 0 s; s \<leftarrow> resolve_step 3 1 2 0 s; resolve_step 3 1 2 0 s } = Some s' \<and>
    ar_places s' 0 = Resolved 7 9"
proof -
  have "(1 :: nat) < 3" "(9 :: ha) \<noteq> 0" by simp_all
  then show ?thesis using resolve_answers [OF sample_arp_reach sample_arp_places(1,3), of 1 3 9 1 2] by blast
qed

section \<open>No answer is lost\<close>

text \<open>What can happen until the thread \<open>t\<close> calls \<open>resolve\<close> again, in any order; and some steps of \<open>t\<close> itself.\<close>

inductive arp_until :: "nat \<Rightarrow> ha \<Rightarrow> pa \<Rightarrow> nat \<Rightarrow> arp \<Rightarrow> arp \<Rightarrow> bool" for retries my_ha my_pa t s where
  now: "arp_until retries my_ha my_pa t s s"
| later: "arp_until retries my_ha my_pa t s s' \<Longrightarrow> arp_next retries my_ha my_pa s' s'' \<Longrightarrow> (\<forall>pa. ar_places s'' t \<noteq> Searching pa) \<Longrightarrow>
    arp_until retries my_ha my_pa t s s''"

fun own_steps :: "nat \<Rightarrow> nat \<Rightarrow> ha \<Rightarrow> pa \<Rightarrow> nat \<Rightarrow> arp \<Rightarrow> arp option" where
  "own_steps 0 retries my_ha my_pa t s = Some s"
| "own_steps (Suc n) retries my_ha my_pa t s = do { s \<leftarrow> resolve_step retries my_ha my_pa t s; own_steps n retries my_ha my_pa t s }"

text \<open>The mapping \<open>m\<close> has an address; the thread, which waits for it, has been woken up or has its address already.\<close>

definition given :: "pa \<Rightarrow> nat \<Rightarrow> arp \<Rightarrow> bool" where
  "given pa m s \<longleftrightarrow> (\<exists>mp. ar_maps s m = Some mp \<and> am_pa mp = pa \<and> am_ha mp \<noteq> 0)"

definition answered :: "nat \<Rightarrow> pa \<Rightarrow> nat \<Rightarrow> arp \<Rightarrow> bool" where
  "answered t pa m s \<longleftrightarrow>
     (case ar_places s t of
        Waiting pa' m' i \<Rightarrow> pa' = pa \<and> m' = m \<and> given pa m s \<and> (\<exists>n. ar_sems s t = Some (Suc n))
      | Reading pa' m' i \<Rightarrow> pa' = pa \<and> m' = m \<and> given pa m s
      | Asking pa' m' i ha \<Rightarrow> pa' = pa \<and> ha \<noteq> 0
      | Resolved pa' ha \<Rightarrow> pa' = pa \<and> ha \<noteq> 0
      | _ \<Rightarrow> False)"

text \<open>The mapping is the one the thread waits for, and has no address yet.\<close>

definition unanswered :: "nat \<Rightarrow> pa \<Rightarrow> nat \<Rightarrow> arp \<Rightarrow> bool" where
  "unanswered t pa m s \<longleftrightarrow> (\<exists>mp. ar_maps s m = Some mp \<and> am_pa mp = pa \<and> am_sem mp = Some t \<and> am_ha mp = 0)"

lemma answered_frame:
  assumes "answered t pa m s" "ar_places s' t = ar_places s t"
    and "holds (ar_places s t) = Some (pa, m) \<Longrightarrow> given pa m s \<Longrightarrow> given pa m s'"
    and "\<And>n. ar_sems s t = Some (Suc n) \<Longrightarrow> \<exists>n'. ar_sems s' t = Some (Suc n')"
  shows "answered t pa m s'"
  using assms by (cases "ar_places s t") (auto simp: answered_def)

lemma answered_own_step:
  assumes "answered t pa m s" "resolve_step retries my_ha my_pa t s = Some s'"
  shows "answered t pa m s'"
  using assms by (cases "ar_places s t") (auto simp: answered_def resolve_step_def at_place_def given_def alarm_end_def split: if_splits)

lemma mapping_update_effect:
  assumes "mapping_update m' ha s = Some s'"
  shows "ar_places s' = ar_places s" "\<And>n. ar_sems s t = Some (Suc n) \<Longrightarrow> \<exists>n'. ar_sems s' t = Some (Suc n')"
    "\<exists>mp. ar_maps s m' = Some mp \<and> ar_maps s' = (ar_maps s)(m' \<mapsto> mp\<lparr>am_ha := ha, am_sem := None\<rparr>)"
  using assms by (auto simp: mapping_update_def waiter_v_def split: bind_splits option.splits)

lemma heard_removed_grow:
  assumes "arp_next retries my_ha my_pa s s'"
  shows "ar_heard s \<subseteq> ar_heard s' \<and> ar_removed s \<subseteq> ar_removed s'"
  using assms
proof (cases rule: arp_next.cases)
  case (run u)
  then show ?thesis
    by (auto simp: resolve_step_def at_place_def arp_add_def arp_drop_def alarm_end_def Let_def split: resolving.splits bind_splits option.splits if_splits)
next
  case (packet p)
  then show ?thesis by (auto simp: arp_update_def mapping_update_def waiter_v_def split: if_splits bind_splits option.splits)
qed (auto simp: at_place_def arp_alarm_def arp_handle_def waiter_v_def arp_insert_def arp_add_def arp_remove_def arp_drop_def Let_def
    split: if_splits bind_splits option.splits)

lemma packet_frame:
  assumes inv: "arp_inv s" and run: "arp_update my_ha my_pa p s = Some s'" and null: "(pa, 0) \<notin> ar_heard s'"
  shows "ar_places s' t = ar_places s t" "ar_sems s t = Some (Suc n) \<Longrightarrow> \<exists>n'. ar_sems s' t = Some (Suc n')"
    "given pa m s \<Longrightarrow> given pa m s'" "unanswered t pa m s \<Longrightarrow> unanswered t pa m s' \<or> given pa m s' \<and> (\<exists>n. ar_sems s' t = Some (Suc n))"
proof -
  note eff = mapping_update_effect
  show "ar_places s' t = ar_places s t" using run by (auto simp: arp_update_def dest!: eff(1) split: if_splits bind_splits option.splits)
  show "\<exists>n'. ar_sems s' t = Some (Suc n')" if "ar_sems s t = Some (Suc n)"
    using run that by (auto simp: arp_update_def dest: eff(2) split: if_splits bind_splits option.splits)
  have tok: "table_ok s" using inv by (simp add: arp_inv_def maps_ok_def)
  show "given pa m s \<Longrightarrow> given pa m s'" "unanswered t pa m s \<Longrightarrow> unanswered t pa m s' \<or> given pa m s' \<and> (\<exists>n. ar_sems s' t = Some (Suc n))"
  proof (atomize (full), cases "ap_op p = REPLY \<and> ap_tha p = my_ha \<and> arp_find s (ap_spa p) = Some m")
    case True
    then obtain s1 where s1: "mapping_update m (ap_sha p) s = Some s1" "s' = s1\<lparr>ar_heard := insert (ap_spa p, ap_sha p) (ar_heard s1)\<rparr>"
      using run by (auto simp: arp_update_def REQUEST_def REPLY_def split: bind_splits)
    have "given pa m s'" if "given pa m s \<or> unanswered t pa m s"
    proof -
      have "ap_spa p = pa" using True that arp_find_in [OF tok, of "ap_spa p" m] by (auto simp: has_pa_def given_def unanswered_def)
      then have "ap_sha p \<noteq> 0" using null s1(2) by auto
      then show ?thesis using eff(3) [OF s1(1)] that s1(2) by (auto simp: given_def unanswered_def)
    qed
    moreover have "\<exists>n. ar_sems s' t = Some (Suc n)" if "unanswered t pa m s"
      using that s1 by (auto simp: unanswered_def mapping_update_def waiter_v_def split: bind_splits)
    ultimately show "(given pa m s \<longrightarrow> given pa m s') \<and>
      (unanswered t pa m s \<longrightarrow> unanswered t pa m s' \<or> given pa m s' \<and> (\<exists>n. ar_sems s' t = Some (Suc n)))" by blast
  next
    case False
    then have "ar_maps s' m = ar_maps s m" using run
      by (auto simp: arp_update_def dest!: eff(3) split: if_splits bind_splits option.splits)
    then show "(given pa m s \<longrightarrow> given pa m s') \<and>
      (unanswered t pa m s \<longrightarrow> unanswered t pa m s' \<or> given pa m s' \<and> (\<exists>n. ar_sems s' t = Some (Suc n)))"
      by (simp add: given_def unanswered_def)
  qed
qed

text \<open>Steps that are neither the thread's own nor packets leave its place and its mapping alone.\<close>

lemma other_step_frame:
  assumes inv: "arp_inv s" and run: "resolve_step retries my_ha my_pa u s = Some s'" and u: "u \<noteq> t"
  shows "ar_places s' t = ar_places s t" "ar_sems s' t = ar_sems s t" "holds (ar_places s t) = Some (pa, m) \<Longrightarrow> ar_maps s' m = ar_maps s m"
proof -
  show "ar_places s' t = ar_places s t" "ar_sems s' t = ar_sems s t" using run u
    by (auto simp: resolve_step_def at_place_def arp_add_def arp_drop_def alarm_end_def Let_def split: resolving.splits bind_splits option.splits if_splits)
  assume h: "holds (ar_places s t) = Some (pa, m)"
  have "thread_ok s t" using inv by (simp add: arp_inv_def)
  then have less: "m < ar_fresh s" using h by (simp add: thread_ok_def)
  have other: "m' \<noteq> m" if "ar_places s u = Asking pa' m' i ha" for pa' m' i ha
  proof
    assume "m' = m"
    then have "holds (ar_places s u) = Some (pa', m)" using that by simp
    then show False using inv h u unfolding arp_inv_def apart_def by blast
  qed
  show "ar_maps s' m = ar_maps s m" using run less other
    by (cases "ar_places s u")
       (auto simp: resolve_step_def at_place_def arp_add_def arp_drop_def alarm_end_def Let_def split: bind_splits option.splits if_splits)
qed

lemma next_frame:
  assumes inv: "arp_inv s" and n: "arp_next retries my_ha my_pa s s'" and again: "\<forall>pa. ar_places s' t \<noteq> Searching pa"
  obtains (own) "resolve_step retries my_ha my_pa t s = Some s'"
  | (packet) p where "arp_update my_ha my_pa p s = Some s'"
  | (frame) "ar_places s' t = ar_places s t" "\<And>n. ar_sems s t = Some (Suc n) \<Longrightarrow> \<exists>n'. ar_sems s' t = Some (Suc n')"
      "\<And>pa m. holds (ar_places s t) = Some (pa, m) \<Longrightarrow> m \<notin> ar_removed s' \<Longrightarrow> ar_maps s' m = ar_maps s m"
  using n
proof (cases rule: arp_next.cases)
  case (call u pa' ha pa'')
  then have "u \<noteq> t" using again by (auto simp: at_place_def)
  then show ?thesis using call by (intro frame) (auto simp: at_place_def)
next
  case (run u)
  show ?thesis
  proof (cases "u = t")
    case False
    note f = other_step_frame [OF inv run False]
    show ?thesis using f by (intro frame) auto
  qed (use run own in blast)
next
  case (alarm u)
  then show ?thesis by (intro frame) (auto simp: arp_alarm_def)
next
  case (handle u live)
  then show ?thesis by (intro frame) (auto simp: arp_handle_def waiter_v_def split: if_splits bind_splits)
next
  case (packet p)
  then show ?thesis using that(2) by blast
next
  case (insert pa' ha)
  have "thread_ok s t" using inv by (simp add: arp_inv_def)
  then have "holds (ar_places s t) = Some (pa, m) \<Longrightarrow> m \<noteq> ar_fresh s" for pa m by (auto simp: thread_ok_def)
  then show ?thesis using insert by (intro frame) (auto simp: arp_insert_def arp_add_def Let_def)
next
  case (remove pa')
  then show ?thesis by (intro frame) (auto simp: arp_remove_def arp_drop_def split: option.splits)
qed

lemma answered_next:
  assumes inv: "arp_inv s" and a: "answered t pa m s" and n: "arp_next retries my_ha my_pa s s'"
    and again: "\<forall>pa. ar_places s' t \<noteq> Searching pa" and rem: "m \<notin> ar_removed s'" and null: "(pa, 0) \<notin> ar_heard s'"
  shows "answered t pa m s'"
  using inv n again
proof (cases rule: next_frame)
  case own
  then show ?thesis using answered_own_step [OF a] by blast
next
  case (packet p)
  note f = packet_frame [OF inv packet null]
  show ?thesis by (rule answered_frame [OF a f(1,3,2)])
next
  case frame
  then show ?thesis using rem by (intro answered_frame [OF a]) (auto simp: given_def)
qed

text \<open>
  Before: as long as nobody has given the null address, a thread that holds a mapping will be told of a reply, or has been told.
\<close>

definition pending :: "nat \<Rightarrow> pa \<Rightarrow> nat \<Rightarrow> arp \<Rightarrow> bool" where
  "pending t pa m s \<longleftrightarrow> unanswered t pa m s \<or> given pa m s \<and> (\<exists>n. ar_sems s t = Some (Suc n)) \<or>
     (case ar_places s t of Asking pa' m' i ha \<Rightarrow> ha \<noteq> 0 | Reading pa' m' i \<Rightarrow> given pa m s | _ \<Rightarrow> False)"

lemma pending_reach:
  assumes "arp_reach retries my_ha my_pa s"
  shows "holds (ar_places s t) = Some (pa, m) \<Longrightarrow> m \<notin> ar_removed s \<Longrightarrow> (pa, 0) \<notin> ar_heard s \<Longrightarrow> pending t pa m s"
  using assms
proof (induction rule: arp_reach.induct)
  case (start entries)
  then show ?case by (simp add: arp_new_def)
next
  case (step s s')
  note inv = arp_inv_reach [OF step.hyps(1)]
  have again: "\<forall>pa. ar_places s' t \<noteq> Searching pa" using step.prems(1) by auto
  have grow: "m \<notin> ar_removed s" "(pa, 0) \<notin> ar_heard s" using heard_removed_grow [OF step.hyps(2)] step.prems(2,3) by auto
  from inv step.hyps(2) again show ?case
  proof (cases rule: next_frame)
    case own
    show ?thesis
    proof (cases "ar_places s t")
      case (Missing pa')
      then show ?thesis using own step.prems(1)
        by (auto simp: pending_def unanswered_def resolve_step_def at_place_def arp_add_def Let_def)
    next
      case (Asking pa' m' i ha)
      then have "holds (ar_places s t) = Some (pa, m)" "ha = 0"
        using own step.prems(1) by (auto simp: resolve_step_def at_place_def arp_drop_def Let_def split: if_splits)
      moreover from this have "pending t pa m s" using step.IH grow by blast
      ultimately show ?thesis using own step.prems(1) Asking
        by (auto simp: pending_def unanswered_def given_def resolve_step_def at_place_def arp_drop_def Let_def split: if_splits)
    next
      case (Waiting pa' m' i)
      then have "holds (ar_places s t) = Some (pa, m)" using own step.prems(1) by (auto simp: resolve_step_def at_place_def split: if_splits bind_splits)
      then have "pending t pa m s" using step.IH grow by blast
      then show ?thesis using own step.prems(1) Waiting
        by (auto simp: pending_def unanswered_def given_def resolve_step_def at_place_def split: if_splits bind_splits)
    next
      case (Reading pa' m' i)
      then have h: "holds (ar_places s t) = Some (pa, m)"
        using own step.prems(1) by (auto simp: resolve_step_def at_place_def split: if_splits bind_splits)
      then have "pending t pa m s" using step.IH grow by blast
      then show ?thesis using own h Reading
        by (auto simp: pending_def unanswered_def given_def resolve_step_def at_place_def alarm_end_def split: if_splits bind_splits)
    qed (use own step.prems(1) in \<open>auto simp: resolve_step_def at_place_def split: option.splits bind_splits\<close>)
  next
    case (packet p)
    note f = packet_frame [OF inv packet step.prems(3)]
    have "pending t pa m s" using step.IH step.prems(1) grow f(1) [of t] by simp
    then show ?thesis using f(2) [of t] f(3) [of m] f(4) [of t m] unfolding pending_def f(1) by (auto split: resolving.splits)
  next
    case frame
    then have p: "pending t pa m s" "ar_maps s' m = ar_maps s m" using step.IH step.prems grow by auto
    then show ?thesis using frame(1,2) by (auto simp: pending_def given_def unanswered_def split: resolving.splits)
  qed
qed

lemma until_grow:
  "arp_until retries my_ha my_pa t s s' \<Longrightarrow> ar_heard s \<subseteq> ar_heard s' \<and> ar_removed s \<subseteq> ar_removed s'"
proof (induction rule: arp_until.induct)
  case (later s' s'')
  then show ?case using heard_removed_grow [OF later.hyps(2)] by blast
qed simp

lemma answered_until:
  assumes "arp_until retries my_ha my_pa t s s'" "arp_reach retries my_ha my_pa s"
  shows "arp_reach retries my_ha my_pa s' \<and> (answered t pa m s \<longrightarrow> m \<notin> ar_removed s' \<longrightarrow> (pa, 0) \<notin> ar_heard s' \<longrightarrow> answered t pa m s')"
  using assms
proof (induction rule: arp_until.induct)
  case (later s' s'')
  then have r: "arp_reach retries my_ha my_pa s'" by simp
  then have "arp_reach retries my_ha my_pa s''" using later.hyps(2) by (rule arp_reach.step)
  then show ?case using later heard_removed_grow [OF later.hyps(2)] answered_next [OF arp_inv_reach [OF r] _ later.hyps(2,3)] by blast
qed simp

text \<open>A thread that is answered returns after at most three steps of its own, without a request.\<close>

lemma answered_returns:
  assumes "arp_reach retries my_ha my_pa s" "answered t pa m s" "m \<notin> ar_removed s"
  shows "\<exists>k \<le> 3. \<exists>u ha. own_steps k retries my_ha my_pa t s = Some u \<and> ar_places u t = Resolved pa ha \<and> ha \<noteq> 0 \<and>
    (pa, ha) \<in> ar_heard u \<and> ar_sent u = ar_sent s"
proof -
  let ?done = "\<lambda>k s. \<exists>u ha. own_steps k retries my_ha my_pa t s = Some u \<and> ar_places u t = Resolved pa ha \<and> ha \<noteq> 0 \<and>
    (pa, ha) \<in> ar_heard u \<and> ar_sent u = ar_sent s"
  have reach: "arp_reach retries my_ha my_pa s' \<Longrightarrow> resolve_step retries my_ha my_pa t s' = Some s'' \<Longrightarrow> arp_reach retries my_ha my_pa s''" for s' s''
    by (meson arp_next.run arp_reach.step)
  have 0: "?done 0 s" if "arp_reach retries my_ha my_pa s" "ar_places s t = Resolved pa ha" "ha \<noteq> 0" for s ha
  proof -
    have "thread_ok s t" using arp_inv_reach [OF that(1)] by (simp add: arp_inv_def)
    then show ?thesis using that(2,3) by (simp add: thread_ok_def)
  qed
  have next_done: "?done (Suc k) s" if "resolve_step retries my_ha my_pa t s = Some s'" "ar_sent s' = ar_sent s" "?done k s'" for k s s'
    using that by auto
  have 1: "?done 1 s" if r: "arp_reach retries my_ha my_pa s" and p: "ar_places s t = Asking pa m' i ha" "ha \<noteq> 0" for s m' i ha
  proof -
    let ?s = "at_place t (Resolved pa ha) (s\<lparr>ar_sems := (ar_sems s)(t := None)\<rparr>)"
    have step: "resolve_step retries my_ha my_pa t s = Some ?s" using p by (simp add: resolve_step_def)
    show ?thesis using next_done [OF step, of 0] 0 [OF reach [OF r step]] p by (simp add: at_place_def)
  qed
  have 2: "?done 2 s" if r: "arp_reach retries my_ha my_pa s" and p: "ar_places s t = Reading pa m i" "given pa m s" for s i
  proof -
    obtain mp where mp: "ar_maps s m = Some mp" "am_ha mp \<noteq> 0" using p(2) by (auto simp: given_def)
    let ?s = "at_place t (Asking pa m (i + 1) (am_ha mp)) (alarm_end t s)"
    have step: "resolve_step retries my_ha my_pa t s = Some ?s" using p mp by (simp add: resolve_step_def)
    show ?thesis using next_done [OF step, of 1] 1 [OF reach [OF r step]] mp by (simp add: at_place_def alarm_end_def numeral_2_eq_2)
  qed
  have 3: "?done 3 s" if r: "arp_reach retries my_ha my_pa s" and p: "ar_places s t = Waiting pa m i" "given pa m s" "ar_sems s t = Some (Suc n)" for s i n
  proof -
    let ?s = "at_place t (Reading pa m i) (s\<lparr>ar_sems := (ar_sems s)(t \<mapsto> n)\<rparr>)"
    have step: "resolve_step retries my_ha my_pa t s = Some ?s" using p by (simp add: resolve_step_def)
    show ?thesis using next_done [OF step, of 2] 2 [OF reach [OF r step]] p by (simp add: at_place_def given_def numeral_3_eq_3)
  qed
  show ?thesis
  proof (cases "ar_places s t")
    case (Resolved pa' ha)
    then show ?thesis using 0 [OF assms(1)] assms(2) by (intro exI [of _ 0]) (simp add: answered_def)
  next
    case (Asking pa' m' i ha)
    then show ?thesis using 1 [OF assms(1)] assms(2) by (intro exI [of _ 1]) (simp add: answered_def)
  next
    case (Reading pa' m' i)
    then show ?thesis using 2 [OF assms(1)] assms(2) by (intro exI [of _ 2]) (simp add: answered_def)
  next
    case (Waiting pa' m' i)
    then show ?thesis using 3 [OF assms(1)] assms(2) by (intro exI [of _ 3]) (auto simp: answered_def)
  qed (use assms(2) in \<open>simp_all add: answered_def\<close>)
qed

text \<open>
  C24. No answer is lost: when a reply for the address comes while a thread waits for it, and its mapping is the one the table finds,
  then, whatever other threads, packets, alarms and insertions do from then on and in whatever order, until it calls \<open>resolve\<close> again the thread
  waits no more: at every moment at most three more steps of its own, none of which sends a request, are left until it has returned a
  non-null address that was given in a reply or by \<open>insert\<close>. This holds unless \<open>remove\<close> deletes the mapping or someone gives the null
  address for it.
\<close>

theorem answer_not_lost:
  assumes "arp_reach retries my_ha my_pa s" "ar_places s t = Waiting pa m i" "arp_find s pa = Some m"
    and "arp_update my_ha my_pa p s = Some s1" "ap_op p = REPLY" "ap_tha p = my_ha" "ap_spa p = pa"
    and "arp_until retries my_ha my_pa t s1 s2" "m \<notin> ar_removed s2" "(pa, 0) \<notin> ar_heard s2"
  shows "\<exists>k \<le> 3. \<exists>u ha. own_steps k retries my_ha my_pa t s2 = Some u \<and> ar_places u t = Resolved pa ha \<and> ha \<noteq> 0 \<and>
    (pa, ha) \<in> ar_heard u \<and> ar_sent u = ar_sent s2"
proof -
  have inv: "arp_inv s" using arp_inv_reach [OF assms(1)] .
  have reach: "arp_reach retries my_ha my_pa s1" by (rule arp_reach.step [OF assms(1) arp_next.packet [OF assms(4)]])
  have null: "(pa, 0) \<notin> ar_heard s1" using assms(10) until_grow [OF assms(8)] by blast
  obtain sx where sx: "mapping_update m (ap_sha p) s = Some sx" "s1 = sx\<lparr>ar_heard := insert (pa, ap_sha p) (ar_heard sx)\<rparr>"
    using assms(3-7) by (auto simp: arp_update_def REQUEST_def REPLY_def split: bind_splits)
  have grow1: "m \<notin> ar_removed s1" "m \<notin> ar_removed s"
    using assms(9) until_grow [OF assms(8)] heard_removed_grow [OF arp_next.packet [OF assms(4)]] by blast+
  note f = packet_frame [OF inv assms(4) null]
  have "(pa, 0) \<notin> ar_heard s" using null heard_removed_grow [OF arp_next.packet [OF assms(4)]] by blast
  then have "pending t pa m s" using pending_reach [OF assms(1)] assms(2) grow1(2) by simp
  moreover have "\<not> unanswered t pa m s1" using mapping_update_effect(3) [OF sx(1)] sx(2) by (auto simp: unanswered_def)
  ultimately have "given pa m s1 \<and> (\<exists>n. ar_sems s1 t = Some (Suc n))" 
    using assms(2) f(2) [of t] f(3) [of m] f(4) [of t m] by (auto simp: pending_def)
  then have "answered t pa m s1" using f(1) [of t] assms(2) by (simp add: answered_def)
  then show ?thesis using answered_until [OF assms(8) reach, of pa m] answered_returns assms(9,10) by blast
qed

text \<open>Thread 0 waits for the answer, its alarm goes off, the reply comes, then the handler is called.\<close>

definition sample_waiting :: arp where
  "sample_waiting = \<lparr>ar_slots = [None, None, None, Some 0], ar_synonyms = [], ar_maps = [0 \<mapsto> \<lparr>am_pa = 7, am_ha = 0, am_sem = Some 0\<rparr>],
     ar_fresh = 1, ar_sems = [0 \<mapsto> 0], ar_alarms = {}, ar_fired = {(0, True)}, ar_places = (\<lambda>t. Away)(0 := Waiting 7 0 0, 1 := Searching 7),
     ar_sent = [request 1 2 7], ar_heard = {}, ar_removed = {}\<rparr>"

lemma sample_waiting_reach: "arp_reach 3 1 2 sample_waiting"
proof -
  have step: "arp_reach 3 1 2 s \<Longrightarrow> resolve_step 3 1 2 t s = Some s' \<Longrightarrow> arp_reach 3 1 2 s'" for s s' t by (meson arp_next.run arp_reach.step)
  let ?a = "at_place 0 (Missing 7) sample_arp"
  let ?b = "asking ?a 0 1 2 7 0 0"
  let ?c = "at_place 0 (Waiting 7 0 0) (?b\<lparr>ar_sent := [request 1 2 7], ar_alarms := {0}\<rparr>)"
  have 1: "resolve_step 3 1 2 0 sample_arp = Some ?a" using sample_arp_places by (simp add: resolve_step_def)
  have 2: "resolve_step 3 1 2 0 ?a = Some ?b" by (rule start_asking) (simp add: at_place_def)
  have b: "ar_places ?b 0 = Asking 7 0 0 0" "ar_sent ?b = []" "ar_alarms ?b = {}"
    by (simp_all add: asking_def at_place_def sample_arp_def arp_new_def arp_add_def Let_def)
  have 3: "resolve_step 3 1 2 0 ?b = Some ?c" unfolding resolve_step_def b by (simp add: b request_def)
  have "arp_reach 3 1 2 ?c" using step [OF step [OF step [OF sample_arp_reach 1] 2] 3] .
  then have "arp_reach 3 1 2 (arp_alarm 0 ?c)" by (rule arp_reach.step) (rule arp_next.alarm, simp add: at_place_def)
  moreover have "arp_alarm 0 ?c = sample_waiting"
  proof (rule arp.equality)
    show "ar_places (arp_alarm 0 ?c) = ar_places sample_waiting"
      by (simp add: arp_alarm_def at_place_def asking_def sample_arp_def sample_waiting_def arp_new_def arp_add_def Let_def fun_eq_iff)
    have "(replicate 4 None)[3 := Some 0] = [None, None, None, Some (0 :: nat)]" "replicate 4 (None :: nat option) ! 3 = None"
      by (simp_all add: eval_nat_numeral)
    then show "ar_slots (arp_alarm 0 ?c) = ar_slots sample_waiting" "ar_synonyms (arp_alarm 0 ?c) = ar_synonyms sample_waiting"
      by (simp_all add: arp_alarm_def at_place_def asking_def sample_arp_def sample_waiting_def arp_new_def arp_add_def pa_slot_def Let_def)
  qed (simp_all add: arp_alarm_def at_place_def asking_def sample_arp_def sample_waiting_def arp_new_def arp_add_def Let_def)
  ultimately show ?thesis by simp
qed

definition sample_reply :: arp_packet where
  "sample_reply = \<lparr>ap_op = REPLY, ap_sha = 9, ap_spa = 7, ap_tha = 1, ap_tpa = 2\<rparr>"

definition sample_told :: arp where
  "sample_told = sample_waiting\<lparr>ar_maps := [0 \<mapsto> \<lparr>am_pa = 7, am_ha = 9, am_sem = None\<rparr>], ar_sems := [0 \<mapsto> 1], ar_heard := {(7, 9)}\<rparr>"

lemma sample_waiting_facts:
  "arp_find sample_waiting 7 = Some 0" "arp_update 1 2 sample_reply sample_waiting = Some sample_told"
  "resolve_step 3 1 2 0 sample_told = Some (at_place 0 (Reading 7 0 0) (sample_told\<lparr>ar_sems := [0 \<mapsto> 0]\<rparr>))"
proof -
  show f: "arp_find sample_waiting 7 = Some 0" by (simp add: sample_waiting_def arp_find_def pa_slot_def has_pa_def)
  show "arp_update 1 2 sample_reply sample_waiting = Some sample_told"
    using f by (simp add: arp_update_def sample_reply_def mapping_update_def REPLY_def REQUEST_def)
      (simp add: waiter_v_def sample_waiting_def sample_told_def)
  show "resolve_step 3 1 2 0 sample_told = Some (at_place 0 (Reading 7 0 0) (sample_told\<lparr>ar_sems := [0 \<mapsto> 0]\<rparr>))"
    by (simp add: sample_told_def sample_waiting_def resolve_step_def)
qed

theorem answer_not_lost_witness:
  "\<exists>s k u. arp_handle 0 True sample_told = Some s \<and> own_steps k 3 1 2 0 s = Some u \<and> (\<exists>ha. ar_places u 0 = Resolved 7 ha \<and> ha \<noteq> 0) \<and> ar_sent u = ar_sent s"
proof -
  obtain s where s: "arp_handle 0 True sample_told = Some s" "0 \<notin> ar_removed s" "(7, 0) \<notin> ar_heard s" "ar_places s 0 = Waiting 7 0 0"
    by (simp add: arp_handle_def waiter_v_def sample_told_def sample_waiting_def)
  have "arp_next 3 1 2 sample_told s" using s(1) by (rule arp_next.handle [rotated]) (simp add: sample_told_def sample_waiting_def)
  then have u: "arp_until 3 1 2 0 sample_told s" by (rule arp_until.later [OF arp_until.now]) (simp add: s(4))
  have p: "ar_places sample_waiting 0 = Waiting 7 0 0" "ap_op sample_reply = REPLY" "ap_tha sample_reply = 1" "ap_spa sample_reply = 7"
    by (simp_all add: sample_waiting_def sample_reply_def)
  show ?thesis
    using s(1) answer_not_lost [OF sample_waiting_reach p(1) sample_waiting_facts(1,2) p(2,3,4) u s(2,3)] by blast
qed

text \<open>
  While one thread waits for the answer, another one that resolves the same address finds the unanswered mapping and returns the null
  address at once, without a request of its own.
\<close>

theorem pending_resolve_fails:
  assumes "arp_reach retries my_ha my_pa s" "ar_places s t = Searching pa" "ar_places s u = Searching pa" "t \<noteq> u" "arp_find s pa = None" "0 < retries"
  shows "\<exists>s'. do {
      s \<leftarrow> resolve_step retries my_ha my_pa t s; s \<leftarrow> resolve_step retries my_ha my_pa t s; s \<leftarrow> resolve_step retries my_ha my_pa t s;
      s \<leftarrow> resolve_step retries my_ha my_pa u s; resolve_step retries my_ha my_pa u s } = Some s' \<and>
    ar_places s' t = Waiting pa (ar_fresh s) 0 \<and> ar_places s' u = Resolved pa 0 \<and> ar_sent s' = ar_sent s @ [request my_ha my_pa pa]"
proof -
  have inv: "arp_inv s" using arp_inv_reach [OF assms(1)] .
  let ?s = "at_place t (Missing pa) s" and ?f = "ar_fresh s"
  have tok: "table_ok s" using inv by (simp add: arp_inv_def maps_ok_def)
  have fresh: "?f \<notin> ar_table s" using inv by (auto simp: arp_inv_def maps_ok_def)
  have 1: "resolve_step retries my_ha my_pa t s = Some ?s" using assms(2,5) by (simp add: resolve_step_def)
  have 2: "resolve_step retries my_ha my_pa t ?s = Some (asking ?s t my_ha my_pa pa 0 0)" by (rule start_asking) (simp add: at_place_def)
  define A where "A = (asking ?s t my_ha my_pa pa 0 0)\<lparr>ar_sent := ar_sent s @ [request my_ha my_pa pa],
    ar_alarms := insert t (ar_alarms s), ar_places := (ar_places s)(t := Waiting pa ?f 0)\<rparr>"
  have 3: "resolve_step retries my_ha my_pa t (asking ?s t my_ha my_pa pa 0 0) = Some A"
    using assms(6) by (simp add: A_def asking_def resolve_step_def at_place_def arp_add_def request_def pa_slot_def Let_def)
  let ?mp = "\<lambda>ha sem. \<lparr>am_pa = pa, am_ha = ha, am_sem = sem\<rparr>"
  have slots: "ar_slots A = ar_slots (arp_add (?mp a x) s)" "ar_synonyms A = ar_synonyms (arp_add (?mp a x) s)" for a x
    by (simp_all add: A_def asking_def at_place_def arp_add_def pa_slot_def Let_def)
  have tab: "ar_maps A ?f = Some \<lparr>am_pa = pa, am_ha = 0, am_sem = Some t\<rparr>"
    "\<And>m. m \<in> ar_table s \<Longrightarrow> ar_maps A m = ar_maps s m" "ar_places A u = Searching pa"
    using fresh assms(3,4) by (auto simp: A_def asking_def at_place_def arp_add_def Let_def)
  have found: "arp_find A pa = Some ?f"
    using arp_find_new [of s "?mp 0 None" A] tok assms(5) slots [of 0 None] tab(1,2) by (simp add: has_pa_def)
  then have 4: "resolve_step retries my_ha my_pa u A = Some (at_place u (Found pa ?f) A)" using tab(3) by (simp add: resolve_step_def)
  have 5: "resolve_step retries my_ha my_pa u (at_place u (Found pa ?f) A) = Some (at_place u (Resolved pa 0) (at_place u (Found pa ?f) A))"
    using tab(1) by (simp add: resolve_step_def at_place_def)
  show ?thesis using assms(4) by (simp add: 1 2 3 4 5) (simp add: at_place_def A_def asking_def)
qed

theorem pending_resolve_fails_witness: "\<exists>s'. do {
      s \<leftarrow> resolve_step 3 1 2 0 sample_arp; s \<leftarrow> resolve_step 3 1 2 0 s; s \<leftarrow> resolve_step 3 1 2 0 s;
      s \<leftarrow> resolve_step 3 1 2 1 s; resolve_step 3 1 2 1 s } = Some s' \<and>
    ar_places s' 1 = Resolved 7 0"
proof -
  have "(0 :: nat) \<noteq> 1" "(0 :: nat) < 3" by simp_all
  then show ?thesis using pending_resolve_fails [OF sample_arp_reach sample_arp_places(1,2) _ sample_arp_places(3), of 3 1 2] by blast
qed

text \<open>
  C38. \<open>resolve\<close> reads a mapping it found after \<open>unlock\<close>. When, meanwhile, the thread that made the mapping gives up, it deletes it (unless
  \<open>remove\<close> has done so before), and the read is one of freed memory.
\<close>

theorem found_mapping_dangles:
  assumes "arp_reach retries my_ha my_pa s" "ar_places s t = Asking pa m retries 0" "ar_places s u = Found pa m" "m \<notin> ar_removed s"
  shows "\<exists>s'. resolve_step retries my_ha my_pa t s = Some s' \<and> arp_reach retries my_ha my_pa s' \<and> ar_places s' t = Resolved pa 0 \<and>
    ar_places s' u = Found pa m \<and> resolve_step retries my_ha my_pa u s' = None"
proof -
  have "t \<noteq> u" using assms(2,3) by auto
  define s' where "s' = at_place t (Resolved pa 0) ((arp_drop m s)\<lparr>ar_sems := (ar_sems (arp_drop m s))(t := None)\<rparr>)"
  have run: "resolve_step retries my_ha my_pa t s = Some s'"
    using resolve_stops [OF assms(1), of t] assms(2,4) by (auto simp: resolve_step_def s'_def Let_def split: if_splits)
  have "ar_places s' t = Resolved pa 0" "ar_places s' u = Found pa m" "ar_maps s' m = None"
    using \<open>t \<noteq> u\<close> assms(3) by (simp_all add: s'_def at_place_def arp_drop_def)
  then show ?thesis using run arp_reach.step [OF assms(1) arp_next.run [OF run]] by (auto simp: resolve_step_def)
qed

text \<open>One thread has asked once, of one attempt, when another finds its mapping.\<close>

lemma dangling_reach: "\<exists>s. arp_reach 1 1 2 s \<and> ar_places s 0 = Asking 7 0 1 0 \<and> ar_places s 1 = Found 7 0 \<and> 0 \<notin> ar_removed s"
proof -
  let ?run = "\<lambda>t. resolve_step 1 1 2 t" and ?reach = "\<lambda>s. arp_reach 1 1 2 s"
  have step: "?reach s \<Longrightarrow> ?run t s = Some s' \<Longrightarrow> ?reach s'" for s s' t by (meson arp_next.run arp_reach.step)
  have bell: "?reach s \<Longrightarrow> t \<in> ar_alarms s \<Longrightarrow> ?reach (arp_alarm t s)" for s t by (meson arp_next.alarm arp_reach.step)
  have handle: "?reach s \<Longrightarrow> (t, live) \<in> ar_fired s \<Longrightarrow> arp_handle t live s = Some s' \<Longrightarrow> ?reach s'" for s s' t live
    by (meson arp_next.handle arp_reach.step)
  have "ar_places sample_arp 0 = Searching 7" "ar_places sample_arp 1 = Searching 7" "arp_find sample_arp 7 = None" by (rule sample_arp_places)+
  define a where "a = the (?run 0 sample_arp)"
  define b where "b = the (?run 0 a)"
  define c where "c = the (?run 0 b)"
  define d where "d = the (?run 1 c)"
  define e where "e = the (arp_handle 0 True (arp_alarm 0 d))"
  define f where "f = the (?run 0 e)"
  define g where "g = the (?run 0 f)"
  note defs = sample_arp_def arp_new_def at_place_def resolve_step_def arp_find_def arp_add_def pa_slot_def has_pa_def arp_alarm_def arp_handle_def alarm_end_def waiter_v_def
  have 1: "?run 0 sample_arp = Some a" by (simp add: a_def defs)
  have 2: "?run 0 a = Some b" by (simp add: b_def a_def defs)
  have 3: "?run 0 b = Some c" by (simp add: c_def b_def a_def defs)
  have 4: "?run 1 c = Some d" by (simp add: d_def c_def b_def a_def defs)
  have 5: "arp_handle 0 True (arp_alarm 0 d) = Some e" "0 \<in> ar_alarms d" "(0, True) \<in> ar_fired (arp_alarm 0 d)" by (simp_all add: e_def d_def c_def b_def a_def defs)
  have 6: "?run 0 e = Some f" by (simp add: f_def e_def d_def c_def b_def a_def defs)
  have 7: "?run 0 f = Some g" by (simp add: g_def f_def e_def d_def c_def b_def a_def defs)
  have "?reach e" using handle [OF bell [OF step [OF step [OF step [OF step [OF sample_arp_reach 1] 2] 3] 4] 5(2)] 5(3,1)] .
  then have "?reach g" using step [OF step [OF _ 6] 7] by blast
  moreover have "ar_places g 0 = Asking 7 0 1 0" "ar_places g 1 = Found 7 0" "0 \<notin> ar_removed g" by (simp_all add: g_def f_def e_def d_def c_def b_def a_def defs)
  ultimately show ?thesis by blast
qed

theorem found_mapping_dangles_witness: "\<exists>s. arp_reach 1 1 2 s \<and> ar_places s 1 = Found 7 0 \<and> resolve_step 1 1 2 1 s = None"
proof -
  obtain s where s: "arp_reach 1 1 2 s" "ar_places s 0 = Asking 7 0 1 0" "ar_places s 1 = Found 7 0" "0 \<notin> ar_removed s" using dangling_reach by blast
  show ?thesis using found_mapping_dangles [OF s] by blast
qed

text \<open>
  Replies come when they come: one that arrives between the timer's taking the alarm from the queue and its call of the handler wakes the
  thread, which goes on and destroys the alarm; the handler is then called on what was the stack of the thread.
\<close>

theorem late_handler_dangles:
  assumes "arp_reach retries my_ha my_pa s" "ar_places s t = Reading pa m i" "(t, True) \<in> ar_fired s" "m \<notin> ar_removed s"
  shows "\<exists>s'. resolve_step retries my_ha my_pa t s = Some s' \<and> arp_reach retries my_ha my_pa s' \<and> (t, False) \<in> ar_fired s' \<and>
    arp_handle t False s' = None"
proof -
  obtain s' where s': "resolve_step retries my_ha my_pa t s = Some s'"
    using resolve_stops [OF assms(1), of t] assms(2,4) by auto
  then have "(t, False) \<in> ar_fired s'" using assms(2,3) by (auto simp: resolve_step_def at_place_def alarm_end_def split: bind_splits)
  then show ?thesis using s' arp_reach.step [OF assms(1) arp_next.run [OF s']] by (auto simp: arp_handle_def)
qed

theorem late_handler_dangles_witness: "\<exists>s. arp_reach 3 1 2 s \<and> (0, False) \<in> ar_fired s \<and> arp_handle 0 False s = None"
proof -
  let ?s = "at_place 0 (Reading 7 0 0) (sample_told\<lparr>ar_sems := [0 \<mapsto> 0]\<rparr>)"
  have "arp_reach 3 1 2 sample_told" by (rule arp_reach.step [OF sample_waiting_reach arp_next.packet [OF sample_waiting_facts(2)]])
  then have r: "arp_reach 3 1 2 ?s" using arp_next.run [OF sample_waiting_facts(3)] by (rule arp_reach.step)
  have "ar_places ?s 0 = Reading 7 0 0" "(0, True) \<in> ar_fired ?s" "0 \<notin> ar_removed ?s"
    by (simp_all add: at_place_def sample_told_def sample_waiting_def)
  then show ?thesis using late_handler_dangles [OF r] by blast
qed

text \<open>\<open>remove\<close> takes no lock and deletes a mapping a thread waits for: when it wakes up it reads the deleted mapping.\<close>

lemma remove_dangles:
  "arp_find s pa = Some m \<Longrightarrow> ar_places s t = Reading pa m i \<Longrightarrow> resolve_step retries my_ha my_pa t (arp_remove pa s) = None"
  by (simp add: arp_remove_def arp_drop_def resolve_step_def)

end
