(* ===== verification/Dhcp.thy ===== *)
theory Dhcp
  imports Prelude
begin

text \<open>
  The DHCP client of \<open>include/network/ipv4/dhcp.h\<close> and \<open>src/network/ipv4/dhcp.cc\<close>: the packet, the messages that are built over one
  another in the same memory, the exchange with the server and the options of its answer. An IP address is its four octets.
\<close>

unbundle bit_operations_syntax

section \<open>Packets\<close>

definition DISCOVER :: byte where "DISCOVER = 1"
definition OFFER :: byte where "OFFER = 2"
definition DHCP_REQUEST :: byte where "DHCP_REQUEST = 3"
definition DHCP_ACK :: byte where "DHCP_ACK = 5"

definition MAX_OPTIONS_LENGTH :: nat where "MAX_OPTIONS_LENGTH = 306"

text \<open>
  The fields of \<open>Packet\<close>; \<open>_options\<close>, \<open>_end\<close> and \<open>_padding\<close>, 308 bytes for every \<open>OPTIONS\<close>, are its tail. \<open>_xid\<close> is an
  \<open>unsigned long\<close>.
\<close>

record dhcp_packet =
  dp_op :: byte
  dp_htype :: byte
  dp_hlen :: byte
  dp_hops :: byte
  dp_xid :: "64 word"
  dp_secs :: "16 word"
  dp_flags :: "16 word"
  dp_ciaddr :: "byte list"
  dp_yiaddr :: "byte list"
  dp_siaddr :: "byte list"
  dp_giaddr :: "byte list"
  dp_chaddr :: "byte list"
  dp_server :: "byte list"
  dp_file :: "byte list"
  dp_magic :: "byte list"
  dp_tail :: "byte list"

text \<open>The bytes of a little-endian number, and those of a packet (the attribute is \<open>packed\<close>).\<close>

fun little_endian :: "nat \<Rightarrow> nat \<Rightarrow> byte list" where
  "little_endian 0 x = []"
| "little_endian (Suc n) x = of_nat (x mod 256) # little_endian n (x div 256)"

definition dhcp_bytes :: "dhcp_packet \<Rightarrow> byte list" where
  "dhcp_bytes p = [dp_op p, dp_htype p, dp_hlen p, dp_hops p] @ little_endian 8 (unat (dp_xid p)) @ little_endian 2 (unat (dp_secs p)) @
     little_endian 2 (unat (dp_flags p)) @ dp_ciaddr p @ dp_yiaddr p @ dp_siaddr p @ dp_giaddr p @ dp_chaddr p @ dp_server p @ dp_file p @
     dp_magic p @ dp_tail p"

definition dp_type :: "dhcp_packet \<Rightarrow> byte" where
  "dp_type p = dp_tail p ! 2"

text \<open>\<open>Packet<n>::Packet()\<close> over whatever was in memory: \<open>memset\<close>, the magic cookie and the end mark.\<close>

definition packet_clear :: "dhcp_packet \<Rightarrow> dhcp_packet" where
  "packet_clear p = \<lparr>dp_op = 0, dp_htype = 0, dp_hlen = 0, dp_hops = 0, dp_xid = 0, dp_secs = 0, dp_flags = 0,
     dp_ciaddr = replicate 4 0, dp_yiaddr = replicate 4 0, dp_siaddr = replicate 4 0, dp_giaddr = replicate 4 0,
     dp_chaddr = replicate 16 0, dp_server = replicate 64 0, dp_file = replicate 128 0, dp_magic = replicate 4 0, dp_tail = replicate 308 0\<rparr>"

definition packet_new :: "nat \<Rightarrow> dhcp_packet \<Rightarrow> dhcp_packet" where
  "packet_new n p = (packet_clear p)\<lparr>dp_magic := [0x63, 0x82, 0x53, 0x63], dp_tail := (dp_tail (packet_clear p))[n := 255]\<rparr>"

text \<open>\<open>memcpy\<close> to the start of an array.\<close>

definition overlay :: "'a list \<Rightarrow> 'a list \<Rightarrow> 'a list" where
  "overlay xs ys = xs @ drop (length xs) ys"

definition discover :: "byte list \<Rightarrow> 64 word \<Rightarrow> dhcp_packet \<Rightarrow> dhcp_packet" where
  "discover mac xid p =
     (let p = packet_new 3 p in
      p\<lparr>dp_op := 1, dp_htype := 1, dp_hlen := 6, dp_xid := xid, dp_chaddr := overlay mac (dp_chaddr p),
        dp_tail := overlay [53, 1, DISCOVER] (dp_tail p)\<rparr>)"

text \<open>
  \<open>Request\<close> takes the two addresses by reference, and the client gives it references to fields of the packet it is built over:
  \<open>yiaddr\<close> and \<open>siaddr\<close> say where they are, and are read when they are copied.
\<close>

definition dhcp_request :: "byte list \<Rightarrow> 64 word \<Rightarrow> (dhcp_packet \<Rightarrow> byte list) \<Rightarrow> (dhcp_packet \<Rightarrow> byte list) \<Rightarrow> dhcp_packet \<Rightarrow> dhcp_packet" where
  "dhcp_request mac xid yiaddr siaddr p =
     (let p = (packet_new 8 p)\<lparr>dp_op := 1, dp_htype := 1, dp_hlen := 6, dp_xid := xid\<rparr>;
          p = p\<lparr>dp_ciaddr := yiaddr p\<rparr>;
          p = p\<lparr>dp_siaddr := siaddr p\<rparr>
      in p\<lparr>dp_chaddr := overlay mac (dp_chaddr p), dp_tail := overlay [53, 1, DHCP_REQUEST, 55, 3, 1, 3, 6] (dp_tail p)\<rparr>)"

section \<open>Options\<close>

record dhcp_conf =
  dc_netmask :: "byte list"
  dc_broadcast :: "byte list"
  dc_gateway :: "byte list"
  dc_nameserver :: "byte list"
  dc_lease :: "64 word"

definition lease_time :: "byte list \<Rightarrow> 64 word" where
  "lease_time v = ucast
     (((push_bit 24 (ucast (v ! 0)) AND 0xFF000000) OR (push_bit 16 (ucast (v ! 1)) AND 0xFF0000) OR
       (push_bit 8 (ucast (v ! 2)) AND 0xFF00) OR (ucast (v ! 3) AND 0xFF)) :: uint)"

text \<open>A read past the packet is None. The four octets after the length at \<open>i\<close>.\<close>

definition byte_at :: "byte list \<Rightarrow> nat \<Rightarrow> byte option" where
  "byte_at opt i = (if i < length opt then Some (opt ! i) else None)"

definition octets_at :: "byte list \<Rightarrow> nat \<Rightarrow> byte list option" where
  "octets_at opt i = do { a \<leftarrow> byte_at opt (i + 1); b \<leftarrow> byte_at opt (i + 2); c \<leftarrow> byte_at opt (i + 3); d \<leftarrow> byte_at opt (i + 4); Some [a, b, c, d] }"

text \<open>The branches of the switch for the options with a value: the configuration and \<open>i\<close> at the end of the branch.\<close>

definition parse_option :: "byte list \<Rightarrow> nat \<Rightarrow> dhcp_conf \<Rightarrow> (dhcp_conf \<times> nat) option" where
  "parse_option opt i c = do {
     n \<leftarrow> byte_at opt (i + 1);
     let code = opt ! i;
     let found = code = 1 \<and> n = 4 \<or> code = 3 \<and> n \<ge> 4 \<or> code = 6 \<and> n \<ge> 4 \<or> code = 28 \<and> n = 4 \<or> code = 51 \<and> n = 4;
     c \<leftarrow> (if found
       then do {
         v \<leftarrow> octets_at opt (i + 1);
         Some (if code = 1 then c\<lparr>dc_netmask := v\<rparr> else if code = 3 then c\<lparr>dc_gateway := v\<rparr>
           else if code = 6 then c\<lparr>dc_nameserver := v\<rparr> else if code = 28 then c\<lparr>dc_broadcast := v\<rparr> else c\<lparr>dc_lease := lease_time v\<rparr>) }
       else Some c);
     Some (c, i + 1 + unat n) }"

text \<open>
  The loop may go on for ever, which is None; Some None is a read past the packet. The end mark sets \<open>i\<close> to 255 to leave the loop,
  whose bound is 306.
\<close>

partial_function (option) parse_from :: "byte list \<Rightarrow> nat \<Rightarrow> dhcp_conf \<Rightarrow> dhcp_conf option option" where
  "parse_from opt i c =
     (if i < MAX_OPTIONS_LENGTH
      then if opt ! i = 0 then parse_from opt (i + 1) c
        else if opt ! i = 255 then parse_from opt (255 + 1) c
        else (case parse_option opt i c of None \<Rightarrow> Some None | Some (c, j) \<Rightarrow> parse_from opt (j + 1) c)
      else Some (Some c))"

definition parse_options :: "byte list \<Rightarrow> dhcp_conf \<Rightarrow> dhcp_conf option option" where
  "parse_options opt c = parse_from opt 0 c"

section \<open>The client\<close>

text \<open>
  The constructor of \<open>Client\<close> with the packets the server sends, each as it lies in memory after \<open>receive\<close>: the packets the client sends
  and how it ends, waiting in \<open>receive\<close>, inside the loop of \<open>parse_options\<close>, with a read past the packet, or with \<open>reconfigure\<close>.
\<close>

datatype dhcp_end = Listening | Looping | Overrun | Configured "byte list" dhcp_conf

definition broadcast_of :: "byte list \<Rightarrow> dhcp_conf \<Rightarrow> dhcp_conf" where
  "broadcast_of address c =
     (if list_all (\<lambda>b. b = 0) (dc_broadcast c)
      then c\<lparr>dc_broadcast := map2 (OR) (map2 (AND) address (dc_netmask c)) (map NOT (dc_netmask c))\<rparr> else c)"

definition dhcp_conf_new :: "64 word \<Rightarrow> dhcp_conf" where
  "dhcp_conf_new lease = \<lparr>dc_netmask = replicate 4 0, dc_broadcast = replicate 4 0, dc_gateway = replicate 4 0, dc_nameserver = replicate 4 0, dc_lease = lease\<rparr>"

definition take_ack :: "64 word \<Rightarrow> dhcp_packet \<Rightarrow> dhcp_end" where
  "take_ack lease ack =
     (case parse_options (dp_tail ack) (dhcp_conf_new lease) of
        None \<Rightarrow> Looping | Some None \<Rightarrow> Overrun | Some (Some c) \<Rightarrow> Configured (dp_yiaddr ack) (broadcast_of (dp_yiaddr ack) c))"

fun dhcp_client :: "byte list \<Rightarrow> 64 word \<Rightarrow> 64 word \<Rightarrow> dhcp_packet \<Rightarrow> dhcp_packet list \<Rightarrow> dhcp_packet list \<times> dhcp_end" where
  "dhcp_client mac xid lease p [] = ([discover mac xid p], Listening)"
| "dhcp_client mac xid lease p (offer # ps) =
     (if dp_type offer \<noteq> OFFER \<or> dp_xid offer \<noteq> xid
      then (let (sent, e) = dhcp_client mac xid lease offer ps in (discover mac xid p # sent, e))
      else
        (let request = dhcp_request mac xid dp_yiaddr dp_siaddr offer in
         case ps of [] \<Rightarrow> ([discover mac xid p, request], Listening)
         | ack # ps \<Rightarrow>
             if dp_type ack = DHCP_ACK \<and> dp_xid ack = xid then ([discover mac xid p, request], take_ack lease ack)
             else (let (sent, e) = dhcp_client mac xid lease ack ps in (discover mac xid p # request # sent, e))))"

section \<open>What the options say\<close>

text \<open>An option is a code with its data.\<close>

definition option_ok :: "byte \<times> byte list \<Rightarrow> bool" where
  "option_ok o' \<longleftrightarrow> fst o' \<noteq> 0 \<and> fst o' \<noteq> 255 \<and> length (snd o') < 256"

definition option_bytes :: "byte \<times> byte list \<Rightarrow> byte list" where
  "option_bytes o' = fst o' # of_nat (length (snd o')) # snd o'"

fun apply_option :: "byte \<times> byte list \<Rightarrow> dhcp_conf \<Rightarrow> dhcp_conf" where
  "apply_option (k, d) c =
     (if k = 1 \<and> length d = 4 then c\<lparr>dc_netmask := d\<rparr>
      else if k = 3 \<and> length d \<ge> 4 then c\<lparr>dc_gateway := take 4 d\<rparr>
      else if k = 6 \<and> length d \<ge> 4 then c\<lparr>dc_nameserver := take 4 d\<rparr>
      else if k = 28 \<and> length d = 4 then c\<lparr>dc_broadcast := d\<rparr>
      else if k = 51 \<and> length d = 4 then c\<lparr>dc_lease := lease_time d\<rparr> else c)"

lemma take4: "4 \<le> length d \<Longrightarrow> take 4 d = [d ! 0, d ! 1, d ! 2, d ! 3]"
  by (cases d; simp; cases "tl d"; simp; cases "tl (tl d)"; simp; cases "tl (tl (tl d))"; simp)

lemma octets_at_inside:
  assumes "opt = xs @ option_bytes (k, d) @ ys" "4 \<le> length d"
  shows "octets_at opt (length xs + 1) = Some (take 4 d)"
proof -
  have "d \<noteq> []" using assms(2) by auto
  then show ?thesis using assms(2) by (simp add: octets_at_def byte_at_def assms(1) option_bytes_def nth_append take4)
qed

lemma parse_option_inside:
  assumes opt: "opt = xs @ option_bytes (k, d) @ ys" and ok: "option_ok (k, d)"
  shows "parse_option opt (length xs) c = Some (apply_option (k, d) c, length xs + 1 + length d)"
proof -
  have len: "length d < 256" using ok by (simp add: option_ok_def)
  let ?n = "of_nat (length d) :: byte"
  have n: "unat ?n = length d" using len by (simp add: unat_of_nat take_bit_nat_eq_self)
  have 4: "?n = 4 \<longleftrightarrow> length d = 4" "?n \<ge> 4 \<longleftrightarrow> length d \<ge> 4"
    using n by (auto simp: word_le_nat_alt simp flip: word_unat_eq_iff)
  have "byte_at opt (length xs + 1) = Some ?n" "opt ! length xs = k" by (simp_all add: opt byte_at_def option_bytes_def nth_append)
  then show ?thesis using octets_at_inside [OF opt] by (auto simp: parse_option_def 4 n Let_def)
qed

lemma parse_from_option:
  assumes opt: "opt = xs @ option_bytes x @ ys" and ok: "option_ok x" "length xs < MAX_OPTIONS_LENGTH"
  shows "parse_from opt (length xs) c = parse_from opt (length (xs @ option_bytes x)) (apply_option x c)"
proof -
  obtain k d where x: "x = (k, d)" by fastforce
  have "opt ! length xs = k" "k \<noteq> 0" "k \<noteq> 255" using ok by (simp_all add: opt x option_bytes_def nth_append option_ok_def)
  then show ?thesis
    using parse_option_inside [of opt xs k d ys c] opt ok by (subst parse_from.simps) (simp add: x option_bytes_def)
qed

lemma parse_from_options:
  assumes "\<forall>x \<in> set os. option_ok x" "opt = xs @ concat (map option_bytes os) @ ys" "length xs + length (concat (map option_bytes os)) \<le> MAX_OPTIONS_LENGTH"
  shows "parse_from opt (length xs) c = parse_from opt (length xs + length (concat (map option_bytes os))) (fold apply_option os c)"
  using assms
proof (induction os arbitrary: xs c)
  case (Cons x os)
  have "length xs < MAX_OPTIONS_LENGTH" using Cons.prems(3) by (simp add: option_bytes_def)
  then have "parse_from opt (length xs) c = parse_from opt (length (xs @ option_bytes x)) (apply_option x c)"
    using Cons.prems by (intro parse_from_option [where ys = "concat (map option_bytes os) @ ys"]) auto
  then show ?case using Cons.IH [of "xs @ option_bytes x" "apply_option x c"] Cons.prems by (simp add: add.assoc)
qed simp

lemma parse_from_zero: "opt ! i = 0 \<Longrightarrow> i < MAX_OPTIONS_LENGTH \<Longrightarrow> parse_from opt i c = parse_from opt (i + 1) c"
  by (subst parse_from.simps) simp

lemma parse_from_zeros:
  assumes "\<And>j. i \<le> j \<Longrightarrow> j < k \<Longrightarrow> opt ! j = 0" "i \<le> k" "k \<le> MAX_OPTIONS_LENGTH"
  shows "parse_from opt i c = parse_from opt k c"
  using assms
proof (induction "k - i" arbitrary: i)
  case (Suc n)
  then have "opt ! i = 0" "i < MAX_OPTIONS_LENGTH" by auto
  then have "parse_from opt i c = parse_from opt (i + 1) c" by (rule parse_from_zero)
  also have "\<dots> = parse_from opt k c" using Suc by (intro Suc.hyps(1)) auto
  finally show ?case .
qed simp

text \<open>What is parsed up to an end mark within reach of a byte.\<close>

lemma parse_up_to_end:
  assumes "\<forall>x \<in> set os. option_ok x" "opt = concat (map option_bytes os) @ 255 # rest" "length (concat (map option_bytes os)) \<le> 255"
  shows "parse_options opt c = parse_from opt 256 (fold apply_option os c)"
proof -
  let ?e = "length (concat (map option_bytes os))"
  have "parse_options opt c = parse_from opt ?e (fold apply_option os c)"
    using parse_from_options [of os opt "[]" "255 # rest" c] assms by (simp add: parse_options_def MAX_OPTIONS_LENGTH_def)
  also have "\<dots> = parse_from opt 256 (fold apply_option os c)"
    using assms(3) by (subst parse_from.simps) (simp add: assms(2) nth_append MAX_OPTIONS_LENGTH_def)
  finally show ?thesis .
qed

text \<open>
  C27. The options of a server are parsed as they were written: options of any code and length, an end mark at an index of at most 255 and
  padding up to the end give the configuration they say, one option after the other, whatever stands between the end mark and index 256.
\<close>

theorem options_parsed:
  assumes "\<forall>x \<in> set os. option_ok x" "opt = concat (map option_bytes os) @ 255 # rest" "length (concat (map option_bytes os)) \<le> 255"
    and "\<forall>i. 256 \<le> i \<longrightarrow> i < MAX_OPTIONS_LENGTH \<longrightarrow> opt ! i = 0"
  shows "parse_options opt c = Some (Some (fold apply_option os c))"
proof -
  have "parse_options opt c = parse_from opt 256 (fold apply_option os c)" by (rule parse_up_to_end [OF assms(1-3)])
  also have "\<dots> = parse_from opt MAX_OPTIONS_LENGTH (fold apply_option os c)"
    using assms(4) by (intro parse_from_zeros) (auto simp: MAX_OPTIONS_LENGTH_def)
  also have "\<dots> = Some (Some (fold apply_option os c))" by (subst parse_from.simps) simp
  finally show ?thesis .
qed

definition sample_options :: "(byte \<times> byte list) list" where
  "sample_options = [(53, [5]), (1, [255, 255, 255, 0]), (3, [10, 0, 0, 1, 10, 0, 0, 2]), (51, [0, 1, 81, 128])]"

lemma sample_options_ok: "\<forall>x \<in> set sample_options. option_ok x"
  by (simp add: sample_options_def option_ok_def)

theorem options_parsed_witness:
  "\<exists>c'. parse_options (concat (map option_bytes sample_options) @ 255 # replicate 282 0) (dhcp_conf_new 0) = Some (Some c') \<and>
     dc_netmask c' = [255, 255, 255, 0] \<and> dc_gateway c' = [10, 0, 0, 1] \<and> dc_lease c' = 86400"
proof -
  have "\<forall>i. 256 \<le> i \<longrightarrow> i < MAX_OPTIONS_LENGTH \<longrightarrow> (concat (map option_bytes sample_options) @ 255 # replicate 282 0) ! i = 0"
    by (simp add: sample_options_def option_bytes_def MAX_OPTIONS_LENGTH_def nth_Cons')
  then show ?thesis
    using options_parsed [OF sample_options_ok refl, of "replicate 282 0" "dhcp_conf_new 0"]
    by (simp add: sample_options_def option_bytes_def dhcp_conf_new_def lease_time_def)
qed

section \<open>When the loop ends\<close>

text \<open>
  The loop over the options returns, with a configuration or by a read past the packet, for any bytes without an end mark after
  index 255.
\<close>

theorem options_return:
  assumes "\<forall>i. 256 \<le> i \<longrightarrow> i < MAX_OPTIONS_LENGTH \<longrightarrow> opt ! i \<noteq> 255"
  shows "\<exists>r. parse_options opt c = Some r"
proof -
  have "\<exists>r. parse_from opt i c = Some r" for i c
  proof (induction "MAX_OPTIONS_LENGTH - i" arbitrary: i c rule: less_induct)
    case less
    show ?case
    proof (cases "i < MAX_OPTIONS_LENGTH")
      case True
      have mark: "i < 256" if "opt ! i = 255" using assms True that by (meson not_less)
      have later: "i < j" if "parse_option opt i c = Some (c', j)" for c' j using that by (auto simp: parse_option_def Let_def split: bind_splits)
      have go: "\<exists>r. parse_from opt j c' = Some r" if "i < j" for j c' using less [of j c'] True that by simp
      show ?thesis using go [of "i + 1" c] go [of 256 c] mark later go
        by (subst parse_from.simps) (auto split: option.splits intro: go)
    qed (subst parse_from.simps, simp)
  qed
  then show ?thesis by (simp add: parse_options_def)
qed

theorem options_return_witness: "\<exists>r. parse_options (replicate 308 7) (dhcp_conf_new 0) = Some r"
proof -
  have "\<forall>i. 256 \<le> i \<longrightarrow> i < MAX_OPTIONS_LENGTH \<longrightarrow> replicate 308 (7 :: byte) ! i \<noteq> 255" by (simp add: MAX_OPTIONS_LENGTH_def)
  from options_return [OF this] show ?thesis .
qed

text \<open>No run of the loop that returns is between index 256 and an end mark behind padding.\<close>

lemma parse_from_turns:
  assumes "parse_from opt i c = Some r" "256 \<le> k" "k < MAX_OPTIONS_LENGTH"
  shows "opt ! k = 255 \<longrightarrow> (\<forall>j. 256 \<le> j \<longrightarrow> j < k \<longrightarrow> opt ! j = 0) \<longrightarrow> 256 \<le> i \<longrightarrow> \<not> i \<le> k"
proof (rule parse_from.raw_induct [OF _ assms(1)], intro impI notI)
  fix rec opt i c r
  assume IH: "\<And>opt i c r. rec opt i c = Some r \<Longrightarrow>
      opt ! k = 255 \<longrightarrow> (\<forall>j. 256 \<le> j \<longrightarrow> j < k \<longrightarrow> opt ! j = 0) \<longrightarrow> 256 \<le> i \<longrightarrow> \<not> i \<le> k"
    and step: "(if i < MAX_OPTIONS_LENGTH then if opt ! i = 0 then rec opt (i + 1) c else if opt ! i = 255 then rec opt (255 + 1) c
      else (case parse_option opt i c of None \<Rightarrow> Some None | Some (c, j) \<Rightarrow> rec opt (j + 1) c) else Some (Some c)) = Some r"
    and opt: "opt ! k = 255" "\<forall>j. 256 \<le> j \<longrightarrow> j < k \<longrightarrow> opt ! j = 0" and i: "256 \<le> i" "i \<le> k"
  show False
  proof (cases "i = k")
    case True
    then have "rec opt 256 c = Some r" using step opt assms(3) by simp
    then show False using IH opt assms(2) by blast
  next
    case False
    then have "opt ! i = 0" "i < MAX_OPTIONS_LENGTH" using opt i assms(3) by auto
    then have "rec opt (i + 1) c = Some r" using step by simp
    then show False using IH [of opt "i + 1" c r] opt i False by simp
  qed
qed

text \<open>
  The end mark leaves the loop by \<open>i = 255\<close>, below the bound of 306: what follows is parsed, and a second end mark, behind padding,
  sends the loop back to where it came from, for ever.
\<close>

theorem second_end_mark_hangs:
  assumes "\<forall>x \<in> set os. option_ok x" "opt = concat (map option_bytes os) @ 255 # rest" "length (concat (map option_bytes os)) \<le> 255"
    and "256 \<le> k" "k < MAX_OPTIONS_LENGTH" "opt ! k = 255" "\<forall>i. 256 \<le> i \<longrightarrow> i < k \<longrightarrow> opt ! i = 0"
  shows "parse_options opt c = None"
proof -
  have "\<not> i \<le> k" if "parse_from opt i c = Some r" "256 \<le> i" for i c r
    using parse_from_turns [OF that(1), of k] assms(4-7) that(2) by blast
  then have "parse_from opt 256 c = None" for c using assms(4) by (metis not_None_eq order_refl)
  then show ?thesis using parse_up_to_end [OF assms(1-3)] by simp
qed

theorem second_end_mark_hangs_witness:
  "parse_options (concat (map option_bytes sample_options) @ 255 # replicate 250 0 @ [255] @ replicate 31 0) (dhcp_conf_new 0) = None"
proof (rule second_end_mark_hangs [OF sample_options_ok refl, where k = 276])
  show "\<forall>i. 256 \<le> i \<longrightarrow> i < 276 \<longrightarrow> (concat (map option_bytes sample_options) @ 255 # replicate 250 0 @ [255] @ replicate 31 0) ! i = 0"
    by (simp add: sample_options_def option_bytes_def nth_Cons' nth_append) arith
qed (simp_all add: sample_options_def option_bytes_def MAX_OPTIONS_LENGTH_def nth_append)

text \<open>An option whose length or data lie past the packet.\<close>

lemma parse_overruns:
  "opt ! 305 = 1 \<Longrightarrow> length opt = 308 \<Longrightarrow> opt ! 306 = 4 \<Longrightarrow> parse_from opt 305 c = Some None"
  by (subst parse_from.simps) (simp add: MAX_OPTIONS_LENGTH_def parse_option_def byte_at_def octets_at_def)

section \<open>What the client sends and gets\<close>

lemma four: "replicate 4 (x :: byte) = [x, x, x, x]"
  by (simp add: numeral_eq_Suc)

lemma packet_new_any: "packet_new n p = packet_new n q"
  by (simp add: packet_new_def packet_clear_def)

lemma discover_any: "discover mac xid p = discover mac xid q"
  by (simp add: discover_def packet_new_any [of 3 p q])

lemma dhcp_client_rejects:
  "\<forall>p \<in> set junk. dp_type p \<noteq> OFFER \<or> dp_xid p \<noteq> xid \<Longrightarrow>
   \<exists>q. dhcp_client mac xid lease p (junk @ ps) =
     (replicate (length junk) (discover mac xid p) @ fst (dhcp_client mac xid lease q ps), snd (dhcp_client mac xid lease q ps))"
proof (induction junk arbitrary: p)
  case (Cons x junk)
  obtain q where "dhcp_client mac xid lease x (junk @ ps) =
     (replicate (length junk) (discover mac xid x) @ fst (dhcp_client mac xid lease q ps), snd (dhcp_client mac xid lease q ps))"
    using Cons.IH [of x] Cons.prems by auto
  then show ?case using Cons.prems discover_any [of mac xid x p] by (auto simp: Let_def)
qed auto

text \<open>
  Whatever comes first, an offer and an acknowledgement with the client's transaction configure the address that is acknowledged,
  with the netmask, gateway and broadcast address of its options (or the broadcast address of the network).
\<close>

theorem client_configures:
  assumes "\<forall>p \<in> set junk. dp_type p \<noteq> OFFER \<or> dp_xid p \<noteq> xid"
    and "dp_type offer = OFFER" "dp_xid offer = xid" "dp_type ack = DHCP_ACK" "dp_xid ack = xid"
    and "\<forall>x \<in> set os. option_ok x" "dp_tail ack = concat (map option_bytes os) @ 255 # rest" "length (concat (map option_bytes os)) \<le> 255"
    and "\<forall>i. 256 \<le> i \<longrightarrow> i < MAX_OPTIONS_LENGTH \<longrightarrow> dp_tail ack ! i = 0"
  shows "dhcp_client mac xid lease p (junk @ offer # ack # ps) =
    (replicate (length junk + 1) (discover mac xid p) @ [dhcp_request mac xid dp_yiaddr dp_siaddr offer],
     Configured (dp_yiaddr ack) (broadcast_of (dp_yiaddr ack) (fold apply_option os (dhcp_conf_new lease))))"
proof -
  obtain q where q: "dhcp_client mac xid lease p (junk @ offer # ack # ps) = (replicate (length junk) (discover mac xid p) @
      fst (dhcp_client mac xid lease q (offer # ack # ps)), snd (dhcp_client mac xid lease q (offer # ack # ps)))"
    using dhcp_client_rejects [OF assms(1)] by blast
  have "parse_options (dp_tail ack) (dhcp_conf_new lease) = Some (Some (fold apply_option os (dhcp_conf_new lease)))"
    using parse_up_to_end [OF assms(6,7,8)] parse_from_zeros [of 256 MAX_OPTIONS_LENGTH "dp_tail ack"] assms(9)
    by (simp add: MAX_OPTIONS_LENGTH_def) (subst parse_from.simps, simp add: MAX_OPTIONS_LENGTH_def)
  then show ?thesis using assms(2-5) discover_any [of mac xid q p]
    by (simp add: q Let_def take_ack_def) (simp flip: replicate_append_same)
qed

definition sample_dhcp :: "byte \<Rightarrow> byte list \<Rightarrow> dhcp_packet" where
  "sample_dhcp k tail' = (packet_clear undefined)\<lparr>dp_xid := 99, dp_yiaddr := [10, 0, 0, 7], dp_siaddr := [10, 0, 0, 1], dp_tail := [53, 1, k] @ tail'\<rparr>"

theorem client_configures_witness:
  "snd (dhcp_client [1, 2, 3, 4, 5, 6] 99 0 p [sample_dhcp 4 (replicate 305 0), sample_dhcp OFFER (replicate 305 0),
      sample_dhcp DHCP_ACK (concat (map option_bytes (tl sample_options)) @ 255 # replicate 282 0)]) =
    Configured [10, 0, 0, 7] \<lparr>dc_netmask = [255, 255, 255, 0], dc_broadcast = [10, 0, 0, 255], dc_gateway = [10, 0, 0, 1],
      dc_nameserver = [0, 0, 0, 0], dc_lease = 86400\<rparr>"
proof -
  let ?ack = "sample_dhcp DHCP_ACK (concat (map option_bytes (tl sample_options)) @ 255 # replicate 282 0)"
  have "\<forall>i. 256 \<le> i \<longrightarrow> i < MAX_OPTIONS_LENGTH \<longrightarrow> dp_tail ?ack ! i = 0" "dp_tail ?ack = concat (map option_bytes sample_options) @ 255 # replicate 282 0"
    by (simp_all add: sample_dhcp_def sample_options_def option_bytes_def MAX_OPTIONS_LENGTH_def nth_Cons' DHCP_ACK_def)
  moreover have "\<forall>p \<in> set [sample_dhcp 4 (replicate 305 0)]. dp_type p \<noteq> OFFER \<or> dp_xid p \<noteq> 99" by (simp add: sample_dhcp_def dp_type_def OFFER_def)
  moreover have "dp_type (sample_dhcp k x) = k" "dp_xid (sample_dhcp k x) = 99" "dp_yiaddr (sample_dhcp k x) = [10, 0, 0, 7]" for k x
    by (simp_all add: sample_dhcp_def dp_type_def)
  moreover have "length (concat (map option_bytes sample_options)) \<le> 255" by (simp add: sample_options_def option_bytes_def)
  ultimately have "snd (dhcp_client [1, 2, 3, 4, 5, 6] 99 0 p ([sample_dhcp 4 (replicate 305 0)] @ sample_dhcp OFFER (replicate 305 0) # ?ack # [])) =
      Configured [10, 0, 0, 7] (broadcast_of [10, 0, 0, 7] (fold apply_option sample_options (dhcp_conf_new 0)))"
    using client_configures [of "[sample_dhcp 4 (replicate 305 0)]" 99 "sample_dhcp OFFER (replicate 305 0)" ?ack sample_options "replicate 282 0" "[1, 2, 3, 4, 5, 6]" 0 p "[]"]
      sample_options_ok by (metis snd_conv)
  also have "broadcast_of [10, 0, 0, 7] (fold apply_option sample_options (dhcp_conf_new 0)) = \<lparr>dc_netmask = [255, 255, 255, 0],
      dc_broadcast = [10, 0, 0, 255], dc_gateway = [10, 0, 0, 1], dc_nameserver = [0, 0, 0, 0], dc_lease = 86400\<rparr>"
    by (simp add: sample_options_def dhcp_conf_new_def broadcast_of_def lease_time_def four)
  finally show ?thesis by (simp only: append.simps)
qed

text \<open>
  C39. A request is built over the offer it takes its addresses from, and clears it first: every request the client sends asks for the
  address 0.0.0.0 of the server 0.0.0.0, whatever was offered.
\<close>

theorem request_asks_for_nothing:
  "set (fst (dhcp_client mac xid lease p ps)) \<subseteq> {discover mac xid p, dhcp_request mac xid (\<lambda>_. [0, 0, 0, 0]) (\<lambda>_. [0, 0, 0, 0]) p}"
proof (induction mac xid lease p ps rule: dhcp_client.induct)
  case (2 mac xid lease p offer ps)
  let ?R = "\<lambda>q. dhcp_request mac xid (\<lambda>_. [0, 0, 0, 0]) (\<lambda>_. [0, 0, 0, 0]) q"
  have R: "dhcp_request mac xid dp_yiaddr dp_siaddr q = ?R p" "?R q = ?R p" for q
    by (simp_all add: dhcp_request_def packet_new_def packet_clear_def four)
  have later: "set (fst (dhcp_client mac xid lease q qs)) \<subseteq> {discover mac xid p, ?R p}"
    if "set (fst (dhcp_client mac xid lease q qs)) \<subseteq> {discover mac xid q, ?R q}" for q qs
    using that discover_any [of mac xid q p] R(2) [of q] by simp
  show ?case
  proof (cases "dp_type offer \<noteq> OFFER \<or> dp_xid offer \<noteq> xid")
    case True
    then show ?thesis using later [OF "2.IH"(1) [OF True]] by (simp add: split_beta)
  next
    case False
    show ?thesis
    proof (cases ps)
      case Nil
      then show ?thesis using False R(1) [of offer] by simp
    next
      case (Cons ack qs)
      show ?thesis
      proof (cases "dp_type ack = DHCP_ACK \<and> dp_xid ack = xid")
        case True
        then show ?thesis using False Cons R(1) [of offer] by simp
      next
        case no: False
        then show ?thesis using later [OF "2.IH"(2) [OF False refl Cons no]] False Cons R(1) [of offer] by (auto simp: split_beta Let_def)
      qed
    qed
  qed
qed simp

text \<open>
  \<open>unsigned long\<close> is of 8 bytes: the magic cookie stands at index 240 of the packet, where RFC 2131 has it at 236, and every field
  after the transaction is out of its place.
\<close>

lemma length_little_endian [simp]: "length (little_endian n x) = n"
  by (induction n arbitrary: x) simp_all

lemma cookie_displaced: "length mac = 6 \<Longrightarrow> take 4 (drop 240 (dhcp_bytes (discover mac xid p))) = [0x63, 0x82, 0x53, 0x63]"
  by (simp add: dhcp_bytes_def discover_def packet_new_def packet_clear_def overlay_def)

end
