(* ===== verification/Icmp.thy ===== *)
theory Icmp
  imports Ip_Properties Observers
begin

text \<open>
  ICMP (\<open>include/network/ipv4/icmp.h\<close>, \<open>src/network/ipv4/icmp.cc\<close>) over the IP of \<open>Ip\<close>: packets of 64 bytes in one frame, their
  checksum, and what the channel does with the data of its clients, which hold the header too.
\<close>

unbundle bit_operations_syntax

section \<open>The channel\<close>

definition ICMP_MTU :: nat where "ICMP_MTU = 56"
definition ICMP_HEADER :: nat where "ICMP_HEADER = 8"
definition ICMP_PACKET :: nat where "ICMP_PACKET = ICMP_HEADER + ICMP_MTU"
definition ICMP_PROTOCOL :: byte where "ICMP_PROTOCOL = 1"

text \<open>The bytes of a header; \<open>id\<close> and \<open>sequence\<close> are read with \<open>htons\<close>, which is \<open>ntohs\<close>.\<close>

definition icmp_header :: "byte \<Rightarrow> byte \<Rightarrow> 16 word \<Rightarrow> 16 word \<Rightarrow> byte list" where
  "icmp_header type code ident sequence = [type, code, 0, 0] @ htons_bytes ident @ htons_bytes sequence"

definition icmp_id :: "byte list \<Rightarrow> 16 word" where
  "icmp_id p = word_cat (p ! 4) (p ! 5)"

definition icmp_sequence :: "byte list \<Rightarrow> 16 word" where
  "icmp_sequence p = word_cat (p ! 6) (p ! 7)"

text \<open>\<open>sum()\<close> and \<open>check()\<close>.\<close>

definition icmp_sum :: "(nat \<Rightarrow> byte) \<Rightarrow> nat \<Rightarrow> byte" where
  "icmp_sum p = (let p = p(2 := 0, 3 := 0); c = ip_checksum p ICMP_PACKET in p(2 := ucast (drop_bit 8 c), 3 := ucast c))"

definition icmp_check :: "(nat \<Rightarrow> byte) \<Rightarrow> bool" where
  "icmp_check p \<longleftrightarrow> ip_checksum p ICMP_PACKET \<noteq> 0xffff"

text \<open>\<open>raw\<close> is what the buffer of the frame held before: \<open>send\<close> copies the data over it and sends the whole packet.\<close>

definition icmp_send ::
  "(address \<Rightarrow> nat \<Rightarrow> nat \<Rightarrow> (tx_ring \<times> tx_pool option) option) \<Rightarrow>
   address \<Rightarrow> 16 word \<Rightarrow> (nat \<Rightarrow> byte) \<Rightarrow> byte list \<Rightarrow> (tx_ring \<times> packet option \<times> nat) option" where
  "icmp_send alloc to ident raw data = do {
     (tx, pool) \<leftarrow> alloc to ICMP_HEADER ICMP_MTU;
     case pool of None \<Rightarrow> Some (tx, None, 0)
     | Some (own, is, headers) \<Rightarrow>
         let n = (if length data \<ge> ICMP_PACKET then ICMP_PACKET else length data);
             p = icmp_sum (\<lambda>i. if i < n then data ! i else raw i);
             (tx, _) = pcnet_send tx (zip is (map fst headers))
         in Some (tx, Some \<lparr>p_from = own, p_to = to, p_id = ident, p_raw = snd (hd headers), p_protocol = ICMP_PROTOCOL,
              p_data = map p [0..<ICMP_PACKET]\<rparr>, n) }"

text \<open>The sender and the data; None when the checksum is refused.\<close>

definition icmp_receive :: "packet \<Rightarrow> nat \<Rightarrow> (address \<times> byte list) option" where
  "icmp_receive dgram s =
     (let n = (if s \<ge> ICMP_PACKET then ICMP_PACKET else s) in
      if \<not> icmp_check (\<lambda>i. p_data dgram ! i) then None else Some (p_from dgram, take n (p_data dgram)))"

text \<open>\<open>attach\<close>, \<open>detach\<close> and \<open>notify\<close>, all for the condition 0, and \<open>update\<close>, which tells whether the buffer is given back.\<close>

definition icmp_attach :: "elem_ordered store \<Rightarrow> simple_list \<Rightarrow> addr \<Rightarrow> addr \<Rightarrow> (elem_ordered store \<times> simple_list) option" where
  "icmp_attach h q obs link = cond_attach h q obs link 0"

definition icmp_detach :: "elem_ordered store \<Rightarrow> simple_list \<Rightarrow> addr \<Rightarrow> (elem_ordered store \<times> simple_list) option" where
  "icmp_detach h q link = cond_detach h q link 0"

definition icmp_notify ::
  "(addr \<Rightarrow> elem_ordered store \<Rightarrow> 'w \<Rightarrow> (elem_ordered store \<times> 'w) option) \<Rightarrow> elem_ordered store \<Rightarrow> 'w \<Rightarrow> simple_list \<Rightarrow> byte \<Rightarrow>
   (elem_ordered store \<times> 'w \<times> bool) option" where
  "icmp_notify client h w q type = cond_notify client h w q 0"

definition icmp_update ::
  "(addr \<Rightarrow> elem_ordered store \<Rightarrow> 'w \<Rightarrow> (elem_ordered store \<times> 'w) option) \<Rightarrow> elem_ordered store \<Rightarrow> 'w \<Rightarrow> simple_list \<Rightarrow>
   (elem_ordered store \<times> 'w \<times> bool) option" where
  "icmp_update client h w q = do { (h, w, notified) \<leftarrow> icmp_notify client h w q 0; Some (h, w, \<not> notified) }"

section \<open>Packets on their way\<close>

lemma ICMP_PACKET_eq: "ICMP_PACKET = 64" by (simp add: ICMP_PACKET_def ICMP_HEADER_def ICMP_MTU_def)

lemma word_cat_bytes: "word_cat (ucast (drop_bit 8 x) :: byte) (ucast x :: byte) = x" for x :: "16 word"
  by (rule bit_word_eqI) (auto simp: bit_word_cat_iff bit_unsigned_iff bit_drop_bit_eq dest: bit_imp_le_length)

lemma icmp_header_fields:
  "icmp_id (icmp_header type code ident sequence @ data) = ident" "icmp_sequence (icmp_header type code ident sequence @ data) = sequence"
  by (simp_all add: icmp_header_def htons_bytes_def icmp_id_def icmp_sequence_def word_cat_bytes)

text \<open>A packet that is all zero sums to 0xffff, so no packet that has been summed is.\<close>

lemma summed_not_zero: "\<exists>i < 64. icmp_sum p i \<noteq> 0"
proof (cases "\<exists>i < 64. i \<noteq> 2 \<and> i \<noteq> 3 \<and> p i \<noteq> 0")
  case True
  then obtain i where i: "i < 64" "i \<noteq> 2" "i \<noteq> 3" "p i \<noteq> 0" by blast
  then have "icmp_sum p i = p i" by (simp add: icmp_sum_def Let_def)
  then show ?thesis using i by auto
next
  case False
  let ?p = "p(2 := 0, 3 := 0)"
  have zero: "?p i = 0" if "i < 64" for i using False that by auto
  have "sum_halfwords ?p 64 0 = 0"
  proof -
    have "halfword ?p (2 * k) = 0" if "k < 32" for k using zero [of "2 * k"] zero [of "2 * k + 1"] that by (simp add: halfword_def)
    then have "fold (\<lambda>k acc. acc + halfword ?p (2 * k)) ks 0 = 0" if "set ks \<subseteq> {..<32}" for ks using that by (induction ks) auto
    then show ?thesis by (simp add: sum_halfwords_def lessThan_atLeast0)
  qed
  moreover have "ucast (- 1 :: ulong) = (- 1 :: 16 word)" by (rule bit_word_eqI) (simp add: bit_unsigned_iff)
  ultimately have "ip_checksum ?p 64 = - 1" by (simp add: ip_checksum_def Let_def fold_carry.simps)
  moreover have "ucast (- 1 :: 16 word) = (- 1 :: byte)" by (rule bit_word_eqI) (simp add: bit_unsigned_iff)
  ultimately have "icmp_sum p 3 = - 1" by (simp add: icmp_sum_def Let_def ICMP_PACKET_eq)
  then have "icmp_sum p 3 \<noteq> 0" by simp
  then show ?thesis by (intro exI [of _ 3]) simp
qed

lemma icmp_check_cong: "(\<And>i. i < 64 \<Longrightarrow> p i = q i) \<Longrightarrow> icmp_check p = icmp_check q"
proof -
  assume eq: "\<And>i. i < 64 \<Longrightarrow> p i = q i"
  have "fold (\<lambda>k acc. acc + halfword p (2 * k)) ks acc = fold (\<lambda>k acc. acc + halfword q (2 * k)) ks acc" if "set ks \<subseteq> {..<32}" for ks acc
    using that eq by (intro fold_cong) (auto simp: halfword_def)
  then have "sum_halfwords p 64 0 = sum_halfwords q 64 0" by (simp add: sum_halfwords_def lessThan_atLeast0)
  then show ?thesis by (simp add: icmp_check_def ICMP_PACKET_eq ip_checksum_def)
qed

text \<open>
  The round trip of an ICMP packet: what a client sends to a host, up to 64 bytes, its header included, comes there as one datagram of
  protocol 1 without reassembly, and \<open>receive\<close> gives the sender and the bytes sent, but for the checksum.
\<close>

theorem icmp_round_trip:
  assumes "length data \<le> 64" "router_search to table = Some r" "resolve (r_arp r) (next_hop (own (r_ip r)) to r) \<noteq> 0"
    and "tx_ready tx 1" "to = ic_address (i_config host)"
  shows "\<exists>tx' p got. icmp_send (ip_alloc table own resolve tx) to ident raw data = Some (tx', Some p, length data) \<and> tx_locked tx' = tx_locked tx \<and>
    ip_update new True p host = Some (host, Datagram 1 [p]) \<and>
    icmp_receive p (length data) = Some (own (r_ip r), got) \<and> length got = length data \<and>
    (\<forall>i < length data. i \<noteq> 2 \<longrightarrow> i \<noteq> 3 \<longrightarrow> got ! i = data ! i)"
proof -
  define f where "f = icmp_sum (\<lambda>i. if i < length data then data ! i else raw i)"
  define p where "p = \<lparr>p_from = own (r_ip r), p_to = to, p_id = ident, p_raw = set_offset 0 (set_flags 0 0), p_protocol = ICMP_PROTOCOL,
    p_data = map f [0..<64]\<rparr>"
  have sizes: "frame_sizes 20 64 = [84]" by (simp add: frame_sizes.simps [of 20 64] frame_sizes.simps [of 20 0] NIC_MTU_eq)
  obtain tx1 "is" where t: "tx_seize_all [84] tx = Some (tx1, is)" "length is = 1" "tx_locked tx1 = fold (\<lambda>i l. l[i := True]) is (tx_locked tx)"
    "\<forall>i \<in> set is. i < length (tx_own tx) \<and> \<not> tx_locked tx ! i"
    using tx_seize_all_ready [of tx "[84]"] assms(4) by auto
  have "length (tx_locked tx) = length (tx_own tx)" using assms(4) by (simp add: tx_ready_def)
  then have send: "pcnet_send tx1 (zip is [84]) = (tx1\<lparr>tx_locked := tx_locked tx\<rparr>, 84)"
    using pcnet_send_frees [of "is" "tx_locked tx" "[84]" tx1] t by simp
  have "ip_alloc table own resolve tx to ICMP_HEADER ICMP_MTU = Some (tx1, Some (own (r_ip r), is, [(84, set_offset 0 (set_flags 0 0))]))"
    using assms(2,3) t(1,2) sizes
    by (simp add: ip_alloc_def pcnet_alloc_def ICMP_HEADER_def ICMP_MTU_def IP_HEADER_eq NIC_MTU_eq Let_def del: tx_seize_all.simps)
  then have sent: "icmp_send (ip_alloc table own resolve tx) to ident raw data = Some (tx1\<lparr>tx_locked := tx_locked tx\<rparr>, Some p, length data)"
    using assms(1) send by (simp add: icmp_send_def p_def f_def ICMP_PACKET_eq Let_def)
  have whole: "\<not> p_more p \<and> p_offset p = 0"
    by (simp add: p_more_def p_offset_def p_def get_flags_def get_offset_def set_offset_def set_flags_def swap16_def)
  have arrives: "ip_update new True p host = Some (host, Datagram 1 [p])"
    using whole assms(5) by (simp add: ip_update_def p_def ICMP_PROTOCOL_def)
  have "icmp_check (\<lambda>i. p_data p ! i) = icmp_check f" by (rule icmp_check_cong) (simp add: p_def)
  moreover have "icmp_check f"
    using summed_not_zero [of "\<lambda>i. if i < length data then data ! i else raw i"] checksum_not_ffff [of 64 _ f]
    by (auto simp: icmp_check_def ICMP_PACKET_eq f_def)
  ultimately have received: "icmp_receive p (length data) = Some (own (r_ip r), take (length data) (map f [0..<64]))"
    using assms(1) by (auto simp: icmp_receive_def ICMP_PACKET_eq p_def Let_def)
  have "take (length data) (map f [0..<64]) ! i = data ! i" if "i < length data" "i \<noteq> 2" "i \<noteq> 3" for i
    using that assms(1) by (simp add: f_def icmp_sum_def Let_def)
  then show ?thesis using sent arrives received assms(1)
    by (intro exI [of _ "tx1\<lparr>tx_locked := tx_locked tx\<rparr>"] exI [of _ p] exI [of _ "take (length data) (map f [0..<64])"]) simp
qed

theorem icmp_round_trip_witness:
  "\<exists>tx' p got. icmp_send (ip_alloc [\<lparr>r_destination = 0, r_gateway = 2, r_genmask = 0, r_nic = 1, r_ip = 1, r_arp = 1\<rparr>] (\<lambda>_. 2) (\<lambda>_ _. 9) idle_ring)
      1 7 (\<lambda>_. 0) (icmp_header 8 0 5 1) = Some (tx', Some p, 8) \<and>
    ip_update (\<lambda>_. 5) True p sample_host = Some (sample_host, Datagram 1 [p]) \<and> icmp_receive p 8 = Some (2, got) \<and> got ! 0 = 8"
proof -
  have "length (icmp_header 8 0 5 1) = 8" "icmp_header 8 0 5 1 ! 0 = 8" by (simp_all add: icmp_header_def htons_bytes_def)
  moreover have "router_search 1 [\<lparr>r_destination = 0, r_gateway = 2, r_genmask = 0, r_nic = 1, r_ip = 1, r_arp = 1\<rparr>] =
      Some \<lparr>r_destination = 0, r_gateway = 2, r_genmask = 0, r_nic = 1, r_ip = 1, r_arp = 1\<rparr>" by (simp add: route_matches_def)
  moreover have "1 = ic_address (i_config sample_host)" by (simp add: sample_host_def reconfigure_def)
  moreover have "(9 :: 48 word) \<noteq> 0" by simp
  ultimately show ?thesis
    using icmp_round_trip [of "icmp_header 8 0 5 1" 1 "[\<lparr>r_destination = 0, r_gateway = 2, r_genmask = 0, r_nic = 1, r_ip = 1, r_arp = 1\<rparr>]"
        "\<lparr>r_destination = 0, r_gateway = 2, r_genmask = 0, r_nic = 1, r_ip = 1, r_arp = 1\<rparr>" "\<lambda>_ _. 9" "\<lambda>_. 2" idle_ring sample_host 7 "\<lambda>_. 0" "\<lambda>_. 5"]
    idle_ring_ready [of 1] by fastforce
qed

text \<open>\<open>check\<close> takes every packet but one of zeros, whatever its checksum.\<close>

lemma icmp_check_accepts: "i < 64 \<Longrightarrow> p i \<noteq> 0 \<Longrightarrow> icmp_check p"
  using checksum_not_ffff [of 64 i p] by (simp add: icmp_check_def ICMP_PACKET_eq)

text \<open>The bytes behind the client's data are those the buffer held before: a short packet gives them away.\<close>

lemma icmp_send_leaks:
  "icmp_send alloc to ident raw data = Some (tx, Some p, n) \<Longrightarrow> length data \<le> i \<Longrightarrow> 4 \<le> i \<Longrightarrow> i < 64 \<Longrightarrow> p_data p ! i = raw i"
  by (auto simp: icmp_send_def icmp_sum_def ICMP_PACKET_eq Let_def split: bind_splits option.splits prod.splits)

end
