(* ===== verification/Spec2Isabelle.thy ===== *)
theory Spec2Isabelle
  imports List_Properties Heap Synchronizer_Properties Aes_Properties Bignum_Properties Alarm_Properties Criteria_Properties Strings_Properties Tcp_Properties Containers Hash Ip_Properties Mmu_Properties Spin_Locks Simple_Grouping_List Observers Arp Dhcp Icmp
begin

text \<open>
  EPOS (Embedded Parallel Operating System): a model of the kernel's core, as written for the 64-bit targets
  (LP64, little endian; the default build is RISC-V).

  \<^bold>\<open>The parts and how they interact.\<close> The kernel is layered. At the bottom stand the intrusive containers of
  \<open>include/utility/list.h\<close>: an object embeds its list element, and every queue of the system links such elements.
  The heap (\<open>utility/heap.h\<close>) is a grouping list kept inside the free memory. A thread (\<open>api/thread.cc\<close>) is at any
  time in the scheduler's ready queue (a scheduling list with one head per CPU, or one list per CPU), chosen to run
  on a CPU, or in the waiting queue of a synchronizer; semaphores, mutexes and conditions are built on the thread's
  \<open>sleep\<close>, \<open>wakeup\<close> and \<open>wakeup_all\<close>. Alarms live in a relative list driven by the timer interrupt, and release the
  jobs of periodic threads; the scheduling criteria (\<open>scheduler.h\<close>) order the ready queue and account for the jobs.
  Segments and address spaces stand on the page tables of the MMU (SV39). Spin locks guard the kernel's structures on
  several CPUs. The network stack is a chain of observers: the interface notifies ARP, which resolves addresses with a
  hash table, semaphores and alarms, and IP, which reassembles fragments and notifies UDP, TCP and ICMP; DHCP configures
  IP through UDP. Beside the kernel stand the utilities the drivers and the protocols use: bitmaps, vectors, hash tables
  and observers, the C string routines, the software AES and the prime-field numbers of the key agreement.

  \<^bold>\<open>Conventions.\<close> A pointer is a 64-bit word, 0 is null, and a store maps addresses to objects; following a null or
  dangling pointer is \<open>None\<close>, so a theorem that an operation returns \<open>Some\<close> also says that it is memory safe. An
  operation keeps the name of its method, with a prefix for the class (\<open>sl_\<close> Simple_List, \<open>sol_\<close> Simple_Ordered_List,
  \<open>dl_\<close> List, \<open>ol_\<close> Ordered_List, \<open>sc_\<close> Scheduling_List, \<open>mh_\<close> Multihead, \<open>ml_\<close> Multilist, \<open>gl_\<close> Grouping_List,
  \<open>sgl_\<close> Simple_Grouping_List, \<open>bm_\<close> Bitmap, \<open>v_\<close> Vector, \<open>sh_\<close> Simple_Hash, \<open>h_\<close> Hash, \<open>mmu_\<close>, \<open>pt_\<close>, \<open>chunk_\<close>, \<open>dir_\<close> the MMU,
  \<open>segment_\<close>, \<open>space_\<close> segments and address spaces, \<open>ip_\<close>, \<open>udp_\<close>, \<open>icmp_\<close>, \<open>arp_\<close>, \<open>dhcp_\<close> the protocols).
  Machine integers keep their width as words wherever wrap-around can be observed; ranks are integers.

  \<^bold>\<open>Theories.\<close>
  \<^item> \<open>Prelude\<close>: machine types, the store, generic lemmas and the collections of simplification rules.
  \<^item> \<open>Elements\<close>, \<open>Simple_List\<close>, \<open>Simple_Ordered_List\<close>, \<open>Linked_List\<close>, \<open>Ordered_List\<close>, \<open>Scheduling_List\<close>,
    \<open>Multihead_List\<close>, \<open>Scheduling_Multilist\<close>, \<open>Grouping_List\<close>: the classes of \<open>utility/list.h\<close>, one definition per
    method; each has a representation relation (the chain of links is exactly this sequence, head, tail and size
    agree) and one lemma per method that it implements the sequence operation. \<open>Rank_Lists\<close> is the pure theory of
    ordered and relative sequences. \<open>Interfaces\<close> states what clients rely on as locales (a first-in first-out
    queue, an ordered queue), interpreted on the list classes. \<open>List_Properties\<close> draws the conclusions over whole
    runs of operations.
  \<^item> \<open>Heap_Runs\<close>, \<open>Heap\<close>: \<open>utility/heap.h\<close>, \<open>alloc\<close> and \<open>free\<close> over the free list that lies in the free memory: a
    successful allocation is memory that was free, and nothing else changes; freeing it gives the memory back.
  \<^item> \<open>Threads\<close>: the state of the kernel, one record for threads, queues and CPUs, and the operations of
    \<open>api/thread.cc\<close> and \<open>utility/scheduling.h\<close>. \<open>Thread_Places\<close> and \<open>Thread_Invariant\<close>: where a thread may be.
    \<open>Thread_Sched\<close>, \<open>Thread_Ops\<close>, \<open>Thread_Life\<close>, \<open>Thread_Exit\<close>: every operation keeps the invariant and does what it is for.
    \<open>Thread_Machine\<close>: the kernel as a step relation of calls made by the running threads, with reachability;
    \<open>Thread_Properties\<close>: safety of every reachable state, progress, and the contract of each operation. Deletion, changes of priority and
    migration are defined, but are no steps of the relation; nor is the suspension of a thread that runs on another CPU, which leaves the
    kernel unsafe (\<open>remote_suspend_keeps_running\<close>).
  \<^item> \<open>Synchronizers\<close>, \<open>Synchronizer_Properties\<close>: \<open>semaphore.cc\<close>, \<open>mutex.cc\<close>, \<open>condition.cc\<close> over an interface of
    the thread operations, as a step relation; counting, mutual exclusion and wake-up order.
  \<^item> \<open>Alarms\<close>, \<open>Alarm_Properties\<close>: \<open>alarm.cc\<close> and the chronometers of \<open>time.h\<close>. The relative queue refines the list
    of pending alarms with absolute times.
  \<^item> \<open>Criteria\<close>, \<open>Criteria_Properties\<close>: the scheduling criteria and their event handlers (\<open>scheduler.h\<close>,
    \<open>scheduler.cc\<close>); EDF over a queue that holds the main thread, aperiodic threads and the idle thread beside the jobs.
  \<^item> \<open>Strings\<close>, \<open>Strings_Properties\<close>: \<open>string.cc\<close>, loop by loop, over a memory of bytes.
  \<^item> \<open>Aes\<close>, \<open>Aes_Properties\<close>: \<open>aes.cc\<close>; decryption undoes encryption in every mode of operation.
  \<^item> \<open>Bignum\<close>, \<open>Bignum_Arith\<close>, \<open>Bignum_Field\<close>, \<open>Bignum_Properties\<close>: \<open>bignum.h\<close>; the operators compute in the integers
    modulo the class's modulus, Barrett reduction included.
  \<^item> \<open>Containers\<close>, \<open>Hash\<close>: \<open>bitmap.h\<close>, \<open>buffer.h\<close>, \<open>vector.h\<close> and \<open>hash.h\<close>. A bitmap refines a set, and both hash tables
    implement the interface of a table by key (the locale \<open>keyed_table\<close>).
  \<^item> \<open>Simple_Grouping_List\<close>, \<open>Observers\<close>: the singly-linked list of runs, which leaves the runs of \<open>Grouping_List\<close>, and
    \<open>observer.h\<close>, which refines a list of subscriptions.
  \<^item> \<open>Spin_Locks\<close>: \<open>spin.h\<close>, one memory access at a time; mutual exclusion in every interleaving.
  \<^item> \<open>Mmu\<close>, \<open>Mmu_Properties\<close>: \<open>rv64_mmu.h\<close>, \<open>segment.cc\<close>, \<open>address_space.cc\<close>: a chunk that is attached is what the walk of
    the processor finds, and is gone once it is detached. The walk knows leaves at every level, and directories may hold the pages of 1 GB
    that \<open>setup_sifive_u.cc\<close> enters in the first one and every new directory copies.
  \<^item> \<open>Ip\<close>, \<open>Ip_Properties\<close>: \<open>ip.cc\<close>, \<open>udp.cc\<close> and the transmit ring of the PCNet32 driver, with its wait for a free buffer:
    checksums, routes, fragmentation and reassembly, round trips.
  \<^item> \<open>Tcp\<close>, \<open>Tcp_Properties\<close>: the connections of \<open>tcp.cc\<close> as a state machine over packets, time and calls.
  \<^item> \<open>Arp\<close>: \<open>arp.h\<close> with any number of threads in \<open>resolve\<close>, packets, alarms, the calls of their handlers, \<open>insert\<close> and \<open>remove\<close>,
    as a step relation. \<open>Icmp\<close>: \<open>icmp.cc\<close> over \<open>Ip\<close> and
    \<open>Observers\<close>. \<open>Dhcp\<close>: the packets, the options and the client of \<open>dhcp.cc\<close>.

  \<^bold>\<open>Loops and bounds.\<close> Loops over a list follow \<open>nxt\<close> pointers and could run for ever on a corrupted list: they are
  partial functions (not returning is \<open>None\<close>), and the theorems give \<open>Some\<close>. So are the loops that need not end on data
  from outside: \<open>reorder\<close> of IP, the options of DHCP and the wait of the PCNet32 driver for a buffer, of which both sides are shown, when they return and an input on
  which they do not. Loops over counters and words are total, with a measure. No fuel is used in a component's model.

  \<^bold>\<open>Steps.\<close> The operations of the kernel run under its lock and are one step each, including the context switch of \<open>dispatch\<close>, which the code
  makes after it has released the lock, and the interrupts \<open>wakeup_all\<close> sends, the last of which the code may send only when the caller runs
  again. What is not under a lock is split where the properties are about it: the accesses of a spin lock, the calls of \<open>resolve\<close>, an alarm and
  the call of its handler. It is one step elsewhere, and the theories say so where it matters: the copy of a hardware address, \<open>remove\<close> of
  ARP, sending a segment and the wait after it in TCP, the counter from which threads are given queues. The calls of \<open>Criterion::handle\<close> by
  the kernel are not part of its model; \<open>Criteria\<close> has the handlers themselves.

  \<^bold>\<open>Not modelled.\<close> The mediators of the machines (\<open>src/machine\<close>, \<open>include/machine\<close>) and processors
  (\<open>src/architecture\<close>, \<open>include/architecture\<close>) but the MMU of RISC-V and the transmit ring of the PCNet32, \<open>src/setup\<close> (but the flat page
  table of the SiFive_U), \<open>src/boot\<close> and \<open>src/init\<close>: device registers and assembly, whose meaning is the hardware's. The floating-point code (\<open>smartdata.h\<close>,
  \<open>fann.h\<close>, \<open>predictor.h\<close>, \<open>geometry.h\<close>, most of \<open>math.h\<close>, the policies \<open>EA_PEDF\<close> built on it). The protocols of sensor
  networks (TSTP, ELP, IEEE 802.15.4), tasks, clerks, transducers, the framework of agents and the loaders. The
  manifest lists every part with its reason.
\<close>

end
